(* ===== verification/Prelude.thy ===== *)
theory Prelude
  imports Main "HOL-Library.Word" "HOL-Library.Monad_Syntax"
begin

text \<open>
  Shared vocabulary of the development: the C integer types of the modelled build, the
  partial operations of C that can trap, and the word lemmas the component theories use.

  The repository is built and tested on 32-bit Linux (src/README.md), so the types of
  src/ns-2.34/tcp/linux/ns-linux-util.h have the ILP32 widths: \<open>__u32\<close> is
  \<open>unsigned long\<close> (32 bits), \<open>__u16\<close> is \<open>unsigned int\<close> (32 bits too), \<open>__u8\<close> is
  \<open>unsigned char\<close>, \<open>__u64\<close> is \<open>unsigned long long\<close>, \<open>s32\<close> and C's \<open>int\<close> are
  32-bit two's complement values. Every one of them is an Isabelle word of its width, a
  signed one is its bit pattern and is read by \<open>sint\<close> where the code compares it signed.
  The usual arithmetic conversions turn an \<open>int\<close> operand that meets an unsigned long into
  an unsigned long, which is the identity on the bit pattern.

  A C function whose behaviour is defined on every input the types allow is a total HOL
  function. One that may divide by zero, index past an array, shift by the width or more,
  or loop forever has an \<open>option\<close> result, and \<open>None\<close> stands for each of these.
\<close>

unbundle bit_operations_syntax

section \<open>C integer types\<close>

type_synonym u8 = "8 word"
type_synonym u16 = "32 word"
type_synonym u32 = "32 word"
type_synonym u64 = "64 word"
type_synonym s32 = "32 word"
type_synonym s64 = "64 word"

section \<open>Partial operations of C\<close>

definition cdiv :: "'a::len word \<Rightarrow> 'a word \<Rightarrow> 'a word option" where
  "cdiv a b = (if b = 0 then None else Some (a div b))"

text \<open>Signed division truncates; the one quotient that does not fit traps too.\<close>

definition tquot :: "int \<Rightarrow> int \<Rightarrow> int" where
  "tquot a b = (if (a < 0) = (b < 0) then \<bar>a\<bar> div \<bar>b\<bar> else - (\<bar>a\<bar> div \<bar>b\<bar>))"

definition csdiv :: "s32 \<Rightarrow> s32 \<Rightarrow> s32 option" where
  "csdiv a b =
    (if b = 0 \<or> (sint a = - 2147483648 \<and> sint b = - 1) then None
     else Some (word_of_int (tquot (sint a) (sint b))))"

definition array_get :: "'a list \<Rightarrow> u32 \<Rightarrow> 'a option" where
  "array_get xs i = (if unat i < length xs then Some (xs ! unat i) else None)"

definition shl_int :: "u32 \<Rightarrow> u32 \<Rightarrow> u32 option" where
  "shl_int x n = (if unat n < 32 then Some (push_bit (unat n) x) else None)"

lemma cdiv_Some [simp]: "b \<noteq> 0 \<Longrightarrow> cdiv a b = Some (a div b)"
  by (simp add: cdiv_def)

lemma cdiv_zero [simp]: "cdiv a 0 = None"
  by (simp add: cdiv_def)

lemma cdiv_eq_Some_iff: "cdiv a b = Some q \<longleftrightarrow> b \<noteq> 0 \<and> q = a div b"
  by (auto simp: cdiv_def)

lemma array_get_Some: "unat i < length xs \<Longrightarrow> array_get xs i = Some (xs ! unat i)"
  by (simp add: array_get_def)

lemma array_get_eq_Some_iff:
  "array_get xs i = Some x \<longleftrightarrow> unat i < length xs \<and> x = xs ! unat i"
  by (auto simp: array_get_def)

section \<open>Words as natural numbers\<close>

named_theorems word_nat \<open>facts that move a word (in)equation to naturals\<close>

lemmas [word_nat] = word_le_nat_alt word_less_nat_alt unat_div_distrib unat_mod_distrib

lemma u32_eq_iff: "(a :: 'a::len word) = b \<longleftrightarrow> unat a = unat b"
  by (rule word_unat_eq_iff)

lemma unat_lt2p_u32 [simp]: "unat (x :: u32) < 4294967296"
  using unsigned_less [of x, where 'a = nat] by simp

lemma unat_le_u32 [simp]: "unat (x :: u32) \<le> 4294967295"
  using unat_lt2p_u32 [of x] by linarith

lemma unat_add_no_wrap:
  "unat (x :: u32) + unat y < 4294967296 \<Longrightarrow> unat (x + y) = unat x + unat y"
  using unat_add_lem [of x y] by simp

lemma unat_mult_no_wrap:
  "unat (x :: u32) * unat y < 4294967296 \<Longrightarrow> unat (x * y) = unat x * unat y"
  using unat_mult_lem [of x y] by simp

lemma unat_Suc_no_wrap: "x < (y :: u32) \<Longrightarrow> unat (x + 1) = Suc (unat x)"
  by unat_arith

lemma unat_minus_le: "y \<le> x \<Longrightarrow> unat (x - y :: 'a::len word) = unat x - unat y"
  by (rule unat_sub)

lemma unat_shr: "unat (drop_bit n x :: 'a::len word) = unat x div 2 ^ n"
  by (simp only: unat_drop_bit_eq drop_bit_nat_def)

lemma unat_shl_no_wrap:
  "unat (x :: u32) * 2 ^ n < 4294967296 \<Longrightarrow> unat (push_bit n x) = unat x * 2 ^ n"
  by (simp add: unsigned_push_bit_eq push_bit_nat_def take_bit_nat_eq_self_iff)

lemma word_pos_iff: "0 < x \<longleftrightarrow> x \<noteq> (0 :: 'a::len word)"
  by (rule word_neq_0_conv [symmetric])

lemma one_le_iff: "1 \<le> x \<longleftrightarrow> x \<noteq> (0 :: u32)"
  by (auto simp: word_le_nat_alt unat_eq_0 Suc_le_eq unat_gt_0)

lemma word_max_ge2: "2 \<le> max x (2 :: u32)"
  by simp

lemma sint_nonneg_eq_uint: "0 \<le> sint (w :: u32) \<Longrightarrow> sint w = uint w"
  using sint_lt [of w] by (simp add: uint_sint take_bit_int_eq_self)

lemma and_not_mask_eq_0_iff:
  "x AND NOT (mask n) = (0 :: 'a::len word) \<longleftrightarrow> take_bit n x = x"
proof
  assume a: "x AND NOT (mask n) = 0"
  show "take_bit n x = x"
  proof (rule bit_word_eqI)
    fix k assume "k < LENGTH('a)"
    moreover have "\<not> bit (x AND NOT (mask n)) k" by (simp add: a)
    ultimately show "bit (take_bit n x) k \<longleftrightarrow> bit x k"
      by (auto simp: bit_simps)
  qed
next
  assume a: "take_bit n x = x"
  show "x AND NOT (mask n) = 0"
  proof (rule bit_word_eqI)
    fix k assume "k < LENGTH('a)"
    moreover have "bit (take_bit n x) k \<longleftrightarrow> bit x k" by (simp add: a)
    ultimately show "bit (x AND NOT (mask n)) k \<longleftrightarrow> bit (0 :: 'a word) k"
      by (auto simp: bit_simps)
  qed
qed

lemma take_bit_word_eq_self_iff:
  "n < LENGTH('a) \<Longrightarrow> take_bit n x = (x :: 'a::len word) \<longleftrightarrow> unat x < 2 ^ n"
  by (simp add: u32_eq_iff unsigned_take_bit_eq take_bit_nat_eq_self_iff)

section \<open>Bind\<close>

text \<open>An operation applied \<open>n\<close> times.\<close>

fun iterate :: "('a \<Rightarrow> 'a option) \<Rightarrow> nat \<Rightarrow> 'a \<Rightarrow> 'a option" where
  "iterate f 0 x = Some x"
| "iterate f (Suc n) x = Option.bind (iterate f n x) f"

lemma bind_eq_Some_iff: "Option.bind m f = Some y \<longleftrightarrow> (\<exists>x. m = Some x \<and> f x = Some y)"
  by (cases m) auto

end
