(* ===== verification/Linux_Util.thy ===== *)
theory Linux_Util
  imports Prelude
begin

text \<open>
  The C utilities of src/ns-2.34/tcp/linux/ns-linux-c.c and ns-linux-c.h that stand in for
  the kernel's: \<open>fls\<close> and \<open>fls64\<close> (index of the last set bit), \<open>do_div\<close> and
  \<open>div64_64\<close> (64-bit division by a 32-bit or 64-bit divisor) and the \<open>ktime_t\<close>
  arithmetic. The lemmas show that \<open>fls\<close> is the bit length of its argument and that
  \<open>div64_64\<close> is exact for 32-bit divisors and at most 2 too large for wider ones.
\<close>

section \<open>Find last set bit\<close>

text \<open>The argument of \<open>fls\<close> is an \<open>int\<close>, here its bit pattern; the masks are unsigned.\<close>

definition fls :: "u32 \<Rightarrow> int" where
  "fls x =
    (if x = 0 then 0
     else
       let (x, r) = (if x AND 0xffff0000 = 0 then (push_bit 16 x, 32 - 16) else (x, 32));
           (x, r) = (if x AND 0xff000000 = 0 then (push_bit 8 x, r - 8) else (x, r));
           (x, r) = (if x AND 0xf0000000 = 0 then (push_bit 4 x, r - 4) else (x, r));
           (x, r) = (if x AND 0xc0000000 = 0 then (push_bit 2 x, r - 2) else (x, r));
           (x, r) = (if x AND 0x80000000 = 0 then (push_bit 1 x, r - 1) else (x, r))
       in r)"

definition fls64 :: "u64 \<Rightarrow> int" where
  "fls64 x =
    (let h = ucast (drop_bit 32 x) :: u32
     in if h \<noteq> 0 then fls h + 32 else fls (ucast x))"

text \<open>
  The reference: the bit length of a natural number, zero for zero.
\<close>

fun bit_length :: "nat \<Rightarrow> nat" where
  "bit_length n = (if n = 0 then 0 else Suc (bit_length (n div 2)))"

declare bit_length.simps [simp del]

lemma bit_length_0 [simp]: "bit_length 0 = 0"
  by (subst bit_length.simps) simp

lemma bit_length_bounds:
  "0 < n \<Longrightarrow> 2 ^ (bit_length n - 1) \<le> n \<and> n < 2 ^ bit_length n"
proof (induction n rule: bit_length.induct)
  case (1 n)
  have e: "bit_length n = Suc (bit_length (n div 2))"
    using "1.prems" by (subst bit_length.simps) simp
  show ?case
  proof (cases "n div 2 = 0")
    case True
    with "1.prems" have "n = 1" by auto
    with True e have "bit_length n = 1" by simp
    with \<open>n = 1\<close> show ?thesis by simp
  next
    case False
    with 1 have IH: "2 ^ (bit_length (n div 2) - 1) \<le> n div 2" "n div 2 < 2 ^ bit_length (n div 2)"
      by auto
    have "bit_length (n div 2) \<noteq> 0"
      using False by (subst bit_length.simps) simp
    then obtain k where k: "bit_length (n div 2) = Suc k" by (cases "bit_length (n div 2)") auto
    show ?thesis using IH by (simp add: e k) linarith
  qed
qed

lemma bit_length_unique:
  assumes "2 ^ k \<le> n" and "n < 2 ^ Suc k"
  shows "bit_length n = Suc k"
proof -
  have n: "0 < n" using assms(1) by (rule less_le_trans [rotated]) simp
  note b = bit_length_bounds [OF n]
  from b assms have "(2::nat) ^ k < 2 ^ bit_length n" by (meson le_less_trans)
  then have "k < bit_length n" by simp
  moreover from b assms have "(2::nat) ^ (bit_length n - 1) < 2 ^ Suc k" by (meson le_less_trans)
  then have "bit_length n - 1 < Suc k" by (rule power_less_imp_less_exp [rotated]) simp
  ultimately show ?thesis by simp
qed

text \<open>
  One halving step of \<open>fls\<close> with shift \<open>k\<close>, as arithmetic: the value stays
  \<open>n * 2 ^ (32 - r)\<close> and gains at least the lower bound \<open>2 ^ (32 - k)\<close>.
\<close>

lemma fls_mask_eq:
  "(0xffff0000 :: u32) = NOT (mask 16)" "(0xff000000 :: u32) = NOT (mask 24)"
  "(0xf0000000 :: u32) = NOT (mask 28)" "(0xc0000000 :: u32) = NOT (mask 30)"
  "(0x80000000 :: u32) = NOT (mask 31)"
  by (simp_all add: mask_eq_exp_minus_1 word_eq_iff_unsigned)

lemma fls_mask_iff:
  "x AND 0xffff0000 = (0 :: u32) \<longleftrightarrow> unat x < 2 ^ 16"
  "x AND 0xff000000 = (0 :: u32) \<longleftrightarrow> unat x < 2 ^ 24"
  "x AND 0xf0000000 = (0 :: u32) \<longleftrightarrow> unat x < 2 ^ 28"
  "x AND 0xc0000000 = (0 :: u32) \<longleftrightarrow> unat x < 2 ^ 30"
  "x AND 0x80000000 = (0 :: u32) \<longleftrightarrow> unat x < 2 ^ 31"
  unfolding fls_mask_eq and_not_mask_eq_0_iff by (simp_all only: take_bit_word_eq_self_iff len_of_numeral_defs)

text \<open>The state of the computation after the steps so far: \<open>x\<close> is \<open>n\<close> shifted left by
  \<open>32 - r\<close> with no bit lost, and its top \<open>32 - l\<close> bits are not all zero.\<close>

definition fls_state :: "nat \<Rightarrow> nat \<Rightarrow> u32 \<Rightarrow> int \<Rightarrow> bool" where
  "fls_state n l x r \<longleftrightarrow> 0 \<le> r \<and> r \<le> 32 \<and> unat x = n * 2 ^ nat (32 - r) \<and> 2 ^ l \<le> unat x"

lemma fls_state_step:
  assumes s: "fls_state n l x r" and l: "l + k = m" "m + k = 32"
  shows "if unat x < 2 ^ m then fls_state n m (push_bit k x) (r - int k) else fls_state n m x r"
proof (cases "unat x < 2 ^ m")
  case True
  have p: "(2::nat) ^ m * 2 ^ k = 4294967296"
    using l by (simp flip: power_add)
  have "unat x * 2 ^ k < 2 ^ m * 2 ^ k" using True by simp
  then have ux: "unat (push_bit k x) = unat x * 2 ^ k"
    by (intro unat_shl_no_wrap) (simp only: p)
  have "(2::nat) ^ l * 2 ^ k \<le> unat x * 2 ^ k" using s by (simp add: fls_state_def)
  then have lb: "2 ^ m \<le> unat x * 2 ^ k" by (simp add: l(1) flip: power_add)
  have r: "int k \<le> r"
  proof (rule ccontr)
    assume "\<not> int k \<le> r"
    with s l(2) have "m \<le> nat (32 - r)" by (auto simp: fls_state_def)
    moreover from s have "n \<noteq> 0" by (cases "n = 0") (auto simp: fls_state_def)
    ultimately have "m \<le> nat (32 - r)" "n \<noteq> 0" by blast+
    then have a: "(2::nat) ^ m \<le> 2 ^ nat (32 - r)" by (intro power_increasing) auto
    have "1 * 2 ^ nat (32 - r) \<le> n * 2 ^ nat (32 - r)"
      using \<open>n \<noteq> 0\<close> by (intro mult_le_mono1) simp
    with a have "2 ^ m \<le> n * 2 ^ nat (32 - r)" by linarith
    with s have "2 ^ m \<le> unat x" by (simp add: fls_state_def)
    with True show False by simp
  qed
  have "r \<le> 32" using s by (simp add: fls_state_def)
  with r have "nat (32 - (r - int k)) = nat (32 - r) + k" by linarith
  with s ux lb r show ?thesis using True by (simp add: fls_state_def power_add)
next
  case False
  with s show ?thesis by (simp add: fls_state_def)
qed

lemma fls_state_final:
  assumes "fls_state n 31 x r"
  shows "r = int (bit_length n)"
proof -
  from assms have x: "unat x = n * 2 ^ nat (32 - r)" "2 ^ 31 \<le> unat x" "0 \<le> r" "r \<le> 32"
    by (auto simp: fls_state_def)
  have r0: "r \<noteq> 0"
  proof
    assume "r = 0"
    with x have "unat x = n * 4294967296" by simp
    moreover have "n \<noteq> 0" using x by (cases n) auto
    ultimately have "4294967296 \<le> unat x" by (cases n) auto
    with unat_lt2p_u32 [of x] show False by linarith
  qed
  define k where "k = nat r - 1"
  define j where "j = nat (32 - r)"
  have kj: "k + j = 31" "nat r = Suc k" using x r0 by (auto simp: k_def j_def)
  have "(2::nat) ^ k * 2 ^ j \<le> n * 2 ^ j"
    using x by (simp add: j_def [symmetric] kj(1) flip: power_add)
  moreover have "n * 2 ^ j < (2::nat) ^ Suc k * 2 ^ j"
    using x unat_lt2p_u32 [of x] by (simp add: j_def [symmetric] kj(1) flip: power_add power_Suc)
  ultimately have "2 ^ k \<le> n" "n < 2 ^ Suc k" by simp_all
  then have "bit_length n = Suc k" by (rule bit_length_unique)
  with kj x show ?thesis by simp
qed

lemma fls_eq_bit_length: "fls x = int (bit_length (unat x))"
proof (cases "x = 0")
  case True
  then show ?thesis by (simp add: fls_def)
next
  case False
  define s1 where "s1 = (if x AND 0xffff0000 = 0 then (push_bit 16 x, 32 - 16 :: int) else (x, 32))"
  define s2 where "s2 = (if fst s1 AND 0xff000000 = 0 then (push_bit 8 (fst s1), snd s1 - 8) else s1)"
  define s3 where "s3 = (if fst s2 AND 0xf0000000 = 0 then (push_bit 4 (fst s2), snd s2 - 4) else s2)"
  define s4 where "s4 = (if fst s3 AND 0xc0000000 = 0 then (push_bit 2 (fst s3), snd s3 - 2) else s3)"
  define s5 where "s5 = (if fst s4 AND 0x80000000 = 0 then (push_bit 1 (fst s4), snd s4 - 1) else s4)"
  have f: "fls x = snd s5"
    using False by (simp add: fls_def Let_def case_prod_beta s1_def s2_def s3_def s4_def s5_def prod_eq_iff)
  have "fls_state (unat x) 0 x 32"
    using False by (simp add: fls_state_def Suc_le_eq unat_gt_0)
  then have "fls_state (unat x) 16 (fst s1) (snd s1)"
    using fls_state_step [of "unat x" 0 x 32 16 16] by (simp add: s1_def fls_mask_iff split: if_splits)
  then have "fls_state (unat x) 24 (fst s2) (snd s2)"
    using fls_state_step [of "unat x" 16 "fst s1" "snd s1" 8 24]
    by (simp add: s2_def fls_mask_iff split: if_splits)
  then have "fls_state (unat x) 28 (fst s3) (snd s3)"
    using fls_state_step [of "unat x" 24 "fst s2" "snd s2" 4 28]
    by (simp add: s3_def fls_mask_iff split: if_splits)
  then have "fls_state (unat x) 30 (fst s4) (snd s4)"
    using fls_state_step [of "unat x" 28 "fst s3" "snd s3" 2 30]
    by (simp add: s4_def fls_mask_iff split: if_splits)
  then have "fls_state (unat x) 31 (fst s5) (snd s5)"
    using fls_state_step [of "unat x" 30 "fst s4" "snd s4" 1 31]
    by (simp add: s5_def fls_mask_iff split: if_splits)
  then show ?thesis unfolding f by (rule fls_state_final)
qed

text \<open>The position of the last set bit, on 64 bits.\<close>

lemma bit_length_mono: "m \<le> n \<Longrightarrow> bit_length m \<le> bit_length n"
proof (cases "m = 0")
  case False
  assume le: "m \<le> n"
  have "(2::nat) ^ (bit_length m - 1) < 2 ^ bit_length n"
    using bit_length_bounds [of m] bit_length_bounds [of n] False le by linarith
  then have "bit_length m - 1 < bit_length n" by (rule power_less_imp_less_exp [rotated]) simp
  then show ?thesis by simp
qed simp

lemma bit_length_shift:
  assumes "n div 2 ^ k \<noteq> 0"
  shows "bit_length n = bit_length (n div 2 ^ k) + k"
  using assms
proof (induction k)
  case (Suc k)
  have e: "n div 2 ^ Suc k = n div 2 ^ k div 2"
    by (simp add: div_mult2_eq [of n "2 ^ k" 2] mult.commute [of 2])
  with Suc.prems have nz: "n div 2 ^ k \<noteq> 0" by auto
  then have "bit_length (n div 2 ^ k) = Suc (bit_length (n div 2 ^ Suc k))"
    unfolding e by (subst bit_length.simps) simp
  with Suc.IH [OF nz] show ?case by simp
qed simp

lemma unat_high_word: "unat (ucast (drop_bit 32 x :: u64) :: u32) = unat x div 2 ^ 32"
proof -
  have "unat x < 2 ^ 64" using unsigned_less [of x, where 'a = nat] by simp
  then have "unat x div 2 ^ 32 < 2 ^ 32" by (simp add: less_mult_imp_div_less)
  then show ?thesis
    by (simp add: unat_shr unsigned_ucast_eq take_bit_nat_eq_self_iff)
qed

lemma unat_low_word: "unat x < 2 ^ 32 \<Longrightarrow> unat (ucast (x :: u64) :: u32) = unat x"
  by (simp add: unsigned_ucast_eq take_bit_nat_eq_self_iff)

lemma fls64_eq_bit_length: "fls64 x = int (bit_length (unat x))"
proof (cases "unat x div 2 ^ 32 = 0")
  case True
  then have "unat x < 2 ^ 32" by (simp add: div_eq_0_iff)
  with True show ?thesis
    by (simp add: fls64_def Let_def u32_eq_iff [of _ "0 :: u32"] unat_high_word
        fls_eq_bit_length unat_low_word)
next
  case False
  then show ?thesis
    using bit_length_shift [OF False]
    by (simp add: fls64_def Let_def u32_eq_iff [of _ "0 :: u32"] unat_high_word
        fls_eq_bit_length)
qed

section \<open>64-bit division\<close>

text \<open>
  The macro \<open>do_div(n, base)\<close>: \<open>base\<close> is converted to a 32-bit word, \<open>n\<close> becomes the
  quotient; the remainder it also yields is not used by any caller.
\<close>

definition do_div :: "u64 \<Rightarrow> u32 \<Rightarrow> u64 option" where
  "do_div n base = cdiv n (ucast base)"

definition div64_64 :: "u64 \<Rightarrow> u64 \<Rightarrow> u64 option" where
  "div64_64 dividend divisor =
    (let high = ucast (drop_bit 32 divisor) :: u32
     in if high \<noteq> 0
        then let shift = nat (fls high);
                 d = ucast (drop_bit shift divisor) :: u32
             in do_div (drop_bit shift dividend) d
        else do_div dividend (ucast divisor))"

lemma unat_ucast_u64 [simp]: "unat (ucast (b :: u32) :: u64) = unat b"
  using unat_lt2p_u32 [of b] by (simp add: unsigned_ucast_eq take_bit_nat_eq_self_iff del: unat_lt2p_u32)

lemma ucast_u64_eq_0_iff [simp]: "(ucast (b :: u32) :: u64) = 0 \<longleftrightarrow> b = 0"
  by (simp only: word_unat_eq_iff unat_ucast_u64) simp

lemma do_div_Some: "b \<noteq> 0 \<Longrightarrow> do_div n b = Some (n div ucast b)"
  by (simp add: do_div_def)

lemma div64_64_exact:
  assumes "unat divisor < 2 ^ 32" and "divisor \<noteq> 0"
  shows "div64_64 dividend divisor = Some (dividend div divisor)"
proof -
  have h: "(ucast (drop_bit 32 divisor) :: u32) = 0"
    using assms(1) by (simp only: u32_eq_iff unat_high_word) simp
  have u: "(ucast (ucast divisor :: u32) :: u64) = divisor"
    using assms(1) by (simp only: u32_eq_iff unat_ucast_u64 unat_low_word)
  moreover have "(ucast divisor :: u32) \<noteq> 0"
    using assms by (simp only: u32_eq_iff unat_low_word) simp
  ultimately show ?thesis using h by (simp add: div64_64_def do_div_Some)
qed

text \<open>
  A divisor of more than 32 bits is cut to its 32 leading bits, and the dividend is shifted by
  the same amount; the quotient is never too small and at most 2 too large.
\<close>

lemma shifted_quotient_lower:
  assumes "d * 2 ^ s \<le> (D :: nat)" and "0 < d"
  shows "N div D \<le> N div 2 ^ s div d"
  using assms by (simp flip: div_mult2_eq) (intro div_le_mono2, auto simp: mult.commute)

lemma shifted_quotient_upper:
  assumes dD: "d * 2 ^ s \<le> (D :: nat)" "D < Suc d * 2 ^ s"
    and d: "2 ^ 31 \<le> d" and s: "1 \<le> s" and N: "N < 2 ^ 64"
  shows "N div 2 ^ s div d \<le> N div D + 2"
proof (rule ccontr)
  define q where "q = N div D"
  assume "\<not> ?thesis"
  then have "q + 3 \<le> N div (2 ^ s * d)" by (simp add: q_def div_mult2_eq)
  then have "(q + 3) * (2 ^ s * d) \<le> N div (2 ^ s * d) * (2 ^ s * d)" by (rule mult_le_mono1)
  also have "\<dots> \<le> N" by simp
  finally have lo: "(q + 3) * (2 ^ s * d) \<le> N" .
  have "(2::nat) ^ 31 * 2 ^ 1 \<le> d * 2 ^ s"
    using d s by (intro mult_le_mono power_increasing) auto
  with dD have D: "2 ^ 32 \<le> D" by simp
  then have "0 < D" by (rule less_le_trans [rotated]) simp
  then have hi: "N < Suc q * D" unfolding q_def
    using dividend_less_div_times [of D N] by (simp add: algebra_simps)
  have "Suc q * D \<le> Suc q * (Suc d * 2 ^ s)" using dD by (intro mult_le_mono2) simp
  with hi lo have "(q + 3) * (2 ^ s * d) < Suc q * (Suc d * 2 ^ s)" by linarith
  then have "(q + 3) * d * 2 ^ s < Suc q * Suc d * 2 ^ s" by (simp only: ac_simps)
  then have "(q + 3) * d < Suc q * Suc d" by (simp only: mult_less_cancel2)
  then have "2 * d < Suc q" by (simp add: algebra_simps)
  moreover have "q < 2 ^ 32"
  proof -
    have "q * 2 ^ 32 \<le> q * D" using D by (rule mult_le_mono2)
    also have "\<dots> \<le> N" by (simp add: q_def)
    finally have "q * 2 ^ 32 < 2 ^ 64" using N by (rule le_less_trans)
    then show ?thesis by simp
  qed
  ultimately show False using d by simp
qed

lemma div64_64_wide:
  assumes D: "2 ^ 32 \<le> unat divisor"
  shows "\<exists>q. div64_64 dividend divisor = Some q
    \<and> unat dividend div unat divisor \<le> unat q
    \<and> unat q \<le> unat dividend div unat divisor + 2"
proof -
  define h where "h = (ucast (drop_bit 32 divisor) :: u32)"
  define s where "s = nat (fls h)"
  define d where "d = (ucast (drop_bit s divisor) :: u32)"
  have uh: "unat h = unat divisor div 2 ^ 32" by (simp only: h_def unat_high_word)
  have h0: "unat h \<noteq> 0" using D by (simp add: uh div_eq_0_iff)
  have sb: "s = bit_length (unat h)" by (simp add: s_def fls_eq_bit_length)
  from h0 have hb: "2 ^ (s - 1) \<le> unat h" "unat h < 2 ^ s"
    using bit_length_bounds [of "unat h"] by (simp_all add: sb)
  from h0 have hb3: "1 \<le> s" by (subst sb, subst bit_length.simps) simp
  have "unat divisor < Suc (unat h) * 2 ^ 32"
    by (simp add: uh dividend_less_div_times)
  also have "\<dots> \<le> 2 ^ s * 2 ^ 32" using hb by (intro mult_le_mono1) simp
  finally have "unat divisor < 2 ^ 32 * 2 ^ s" by (simp only: mult.commute)
  then have "unat (drop_bit s divisor) < 2 ^ 32"
    by (simp only: unat_shr) (rule less_mult_imp_div_less)
  then have ud: "unat d = unat divisor div 2 ^ s" by (simp only: d_def unat_low_word unat_shr)
  have "2 ^ (s - 1) * 2 ^ 32 \<le> unat h * 2 ^ 32" using hb by (intro mult_le_mono1)
  also have "\<dots> \<le> unat divisor" by (simp add: uh)
  finally have "2 ^ 31 * 2 ^ s \<le> unat divisor"
    using hb3 by (cases s) (simp_all add: mult.commute)
  then have d31: "2 ^ 31 \<le> unat d" by (simp add: ud less_eq_div_iff_mult_less_eq)
  have dD: "unat d * 2 ^ s \<le> unat divisor" "unat divisor < Suc (unat d) * 2 ^ s"
    by (simp_all add: ud dividend_less_div_times)
  have dn: "d \<noteq> 0" using d31 by (auto simp: u32_eq_iff)
  have hn: "h \<noteq> 0" using h0 by auto
  have r: "div64_64 dividend divisor = Some (drop_bit s dividend div ucast d)"
    using hn dn by (simp add: div64_64_def Let_def do_div_Some flip: h_def s_def d_def)
  have "unat (drop_bit s dividend div ucast d) = unat dividend div 2 ^ s div unat d"
    by (simp only: unat_div_distrib unat_shr unat_ucast_u64)
  moreover have "unat dividend < 2 ^ 64" using unsigned_less [of dividend, where 'a = nat] by simp
  ultimately show ?thesis
    using r shifted_quotient_lower [OF dD(1), of "unat dividend"]
      shifted_quotient_upper [OF dD d31 hb3] d31 by simp
qed

section \<open>ktime\<close>

text \<open>
  \<open>ktime_t\<close> is \<open>long long\<close>, in nanoseconds; \<open>0\<close> is the invalid time stamp. Division by
  1000 truncates towards zero, which is written out. The global
  \<open>ktime_get_real\<close> is an argument.
\<close>

definition net_invalid_timestamp :: s64 where
  "net_invalid_timestamp = 0"

definition ktime_equal :: "s64 \<Rightarrow> s64 \<Rightarrow> bool" where
  "ktime_equal cmp1 cmp2 \<longleftrightarrow> cmp1 = cmp2"

definition ktime_to_us :: "s64 \<Rightarrow> s64" where
  "ktime_to_us kt = (if 0 \<le> sint kt then word_of_int (sint kt div 1000)
                     else word_of_int (- (- sint kt div 1000)))"

definition net_timedelta :: "s64 \<Rightarrow> s64 \<Rightarrow> s64" where
  "net_timedelta ktime_get_real t = ktime_get_real - t"

section \<open>Properties\<close>

text \<open>
  \<open>fls\<close> and \<open>fls64\<close> return the one-based index of the highest set bit, the bit length of
  their argument, for every 32-bit and every 64-bit argument (zero included).
\<close>

theorem fls_is_bit_length:
  "fls x = int (bit_length (unat x)) \<and> fls64 y = int (bit_length (unat y))"
  by (simp add: fls_eq_bit_length fls64_eq_bit_length)

text \<open>
  \<open>div64_64\<close> never divides by zero when its divisor is not zero; it is exact for a divisor
  that fits in 32 bits, and for a wider one its result is at most 2 too large and never too
  small.
\<close>

theorem div64_64_accuracy:
  assumes "divisor \<noteq> 0"
  shows "\<exists>q. div64_64 dividend divisor = Some q
    \<and> unat dividend div unat divisor \<le> unat q
    \<and> unat q \<le> unat dividend div unat divisor + 2
    \<and> (unat divisor < 2 ^ 32 \<longrightarrow> unat q = unat dividend div unat divisor)"
proof (cases "unat divisor < 2 ^ 32")
  case True
  from div64_64_exact [OF this assms, of dividend] show ?thesis by (simp add: unat_div_distrib)
next
  case False
  then have "2 ^ 32 \<le> unat divisor" by simp
  from div64_64_wide [OF this, of dividend] False show ?thesis by auto
qed

theorem div64_64_accuracy_witness:
  "\<exists>q. div64_64 (2 ^ 63) (2 ^ 40 + 1) = Some q
    \<and> unat (2 ^ 63 :: u64) div unat (2 ^ 40 + 1 :: u64) \<le> unat q
    \<and> unat q \<le> unat (2 ^ 63 :: u64) div unat (2 ^ 40 + 1 :: u64) + 2"
  using div64_64_accuracy [of "2 ^ 40 + 1" "2 ^ 63"] by auto

end
