(* ===== verification/Tcp_Sock.thy ===== *)
theory Tcp_Sock
  imports Linux_Util
begin

text \<open>
  The data of src/ns-2.34/tcp/linux/ns-linux-util.h: \<open>struct tcp_sock\<close>,
  \<open>struct tcp_congestion_ops\<close>, the event and state enumerations, and the globals the
  congestion control code reads (\<open>tcp_time_stamp\<close>, \<open>ktime_get_real\<close> and the tunables of
  ns-linux-param.c and tcp_cong.c), which are passed as a record \<open>kernel\<close>.

  The scratch memory \<open>icsk_ca_priv\<close> of a socket is cast by each algorithm to a struct of its
  own, so the socket is polymorphic in the type of its private state. Pointers to
  operation tables are addresses, with 0 for NULL.
\<close>

type_synonym addr = nat

section \<open>Globals\<close>

record kernel =
  tcp_time_stamp :: u32
  ktime_get_real :: s64
  sysctl_tcp_abc :: u8
  sysctl_tcp_max_ssthresh :: s32
  tcp_max_burst :: u8

text \<open>The values the globals are initialised with (clock at zero).\<close>

definition kernel_init :: kernel where
  "kernel_init = \<lparr> tcp_time_stamp = 0, ktime_get_real = 0, sysctl_tcp_abc = 1,
     sysctl_tcp_max_ssthresh = 0, tcp_max_burst = 3 \<rparr>"

definition HZ :: u32 where
  "HZ = 1000"

text \<open>\<open>msecs_to_jiffies\<close> multiplies by \<open>JIFFY_RATIO / MS_RATIO\<close>, which is 1.\<close>

definition msecs_to_jiffies :: "u32 \<Rightarrow> u32" where
  "msecs_to_jiffies x = (1000 div 1000) * x"

text \<open>The macros \<open>after\<close> and \<open>between\<close> of ns-linux-c.h.\<close>

definition after :: "u32 \<Rightarrow> u32 \<Rightarrow> bool" where
  "after seq1 seq2 \<longleftrightarrow> seq2 < seq1"

definition between :: "u32 \<Rightarrow> u32 \<Rightarrow> u32 \<Rightarrow> bool" where
  "between seq1 seq2 seq3 \<longleftrightarrow> seq1 - seq2 \<le> seq3 - seq2"

section \<open>Enumerations\<close>

datatype tcp_ca_event =
    CA_EVENT_TX_START
  | CA_EVENT_CWND_RESTART
  | CA_EVENT_COMPLETE_CWR
  | CA_EVENT_FRTO
  | CA_EVENT_LOSS
  | CA_EVENT_FAST_ACK
  | CA_EVENT_SLOW_ACK

text \<open>The states are passed as an \<open>u8\<close>, so they are numbers.\<close>

abbreviation (input) TCP_CA_Open :: u8 where "TCP_CA_Open \<equiv> 0"
abbreviation (input) TCP_CA_Disorder :: u8 where "TCP_CA_Disorder \<equiv> 1"
abbreviation (input) TCP_CA_CWR :: u8 where "TCP_CA_CWR \<equiv> 2"
abbreviation (input) TCP_CA_Recovery :: u8 where "TCP_CA_Recovery \<equiv> 3"
abbreviation (input) TCP_CA_Loss :: u8 where "TCP_CA_Loss \<equiv> 4"

abbreviation (input) TCP_CONG_NON_RESTRICTED :: u32 where "TCP_CONG_NON_RESTRICTED \<equiv> 1"
abbreviation (input) TCP_CONG_RTT_STAMP :: u32 where "TCP_CONG_RTT_STAMP \<equiv> 2"

section \<open>The socket\<close>

record tcp_options_received =
  rcv_tsval :: u32
  rcv_tsecr :: u32
  saw_tstamp :: bool

record 'ca tcp_sock =
  sk_state :: s32
  snd_nxt :: u32
  snd_una :: u32
  mss_cache :: u32
  srtt :: u32
  rx_opt :: tcp_options_received
  snd_ssthresh :: u32
  snd_cwnd :: u32
  snd_cwnd_cnt :: u16
  snd_cwnd_clamp :: u16
  snd_cwnd_stamp :: u32
  bytes_acked :: u32
  icsk_ca_ops :: addr
  icsk_ca_state :: u8
  icsk_ca_priv :: 'ca

definition tcp_is_cwnd_limited :: "'ca tcp_sock \<Rightarrow> u32 \<Rightarrow> bool" where
  "tcp_is_cwnd_limited sk in_flight \<longleftrightarrow> snd_cwnd sk \<le> in_flight"

section \<open>Congestion control operations\<close>

text \<open>
  The table of operations of an algorithm. The required operations are \<open>ssthresh\<close> and
  \<open>cong_avoid\<close>, the others may be absent; a table with a required operation missing
  is refused at registration, so all are optional here. An operation returns the socket it
  leaves (and its result), or \<open>None\<close> when it traps. What \<open>get_info\<close> collects is handed to
  \<open>nla_put\<close>, which expands to nothing, so only whether it traps is left of it.
\<close>

type_synonym 'ca sk_op = "kernel \<Rightarrow> 'ca tcp_sock \<Rightarrow> 'ca tcp_sock option"

record 'ca tcp_congestion_ops =
  ca_flags :: u32
  ca_non_restricted :: s32
  ca_init :: "'ca sk_op option"
  ca_release :: "'ca sk_op option"
  ca_ssthresh :: "(kernel \<Rightarrow> 'ca tcp_sock \<Rightarrow> (u32 \<times> 'ca tcp_sock) option) option"
  ca_min_cwnd :: "('ca tcp_sock \<Rightarrow> u32 option) option"
  ca_cong_avoid :: "(u32 \<Rightarrow> u32 \<Rightarrow> u32 \<Rightarrow> s32 \<Rightarrow> 'ca sk_op) option"
  ca_rtt_sample :: "(u32 \<Rightarrow> 'ca sk_op) option"
  ca_set_state :: "(u8 \<Rightarrow> 'ca sk_op) option"
  ca_cwnd_event :: "(tcp_ca_event \<Rightarrow> 'ca sk_op) option"
  ca_undo_cwnd :: "(kernel \<Rightarrow> 'ca tcp_sock \<Rightarrow> (u32 \<times> 'ca tcp_sock) option) option"
  ca_pkts_acked :: "(u32 \<Rightarrow> s64 \<Rightarrow> 'ca sk_op) option"
  ca_get_info :: "(u32 \<Rightarrow> 'ca tcp_sock \<Rightarrow> unit option) option"
  ca_name :: string

text \<open>A table with every optional entry absent, as a C initialiser leaves them.\<close>

definition ops_null :: "'ca tcp_congestion_ops" where
  "ops_null = \<lparr> ca_flags = 0, ca_non_restricted = 0, ca_init = None, ca_release = None,
     ca_ssthresh = None, ca_min_cwnd = None, ca_cong_avoid = None, ca_rtt_sample = None,
     ca_set_state = None, ca_cwnd_event = None, ca_undo_cwnd = None, ca_pkts_acked = None,
     ca_get_info = None, ca_name = [] \<rparr>"

text \<open>Calling an operation that may be absent: nothing happens.\<close>

definition call_opt :: "'ca sk_op option \<Rightarrow> 'ca sk_op" where
  "call_opt f k sk = (case f of None \<Rightarrow> Some sk | Some g \<Rightarrow> g k sk)"

lemma call_opt_None [simp]: "call_opt None k sk = Some sk"
  by (simp add: call_opt_def)

lemma call_opt_Some [simp]: "call_opt (Some g) k sk = g k sk"
  by (simp add: call_opt_def)

end
