(* ===== verification/Agent.thy ===== *)
theory Agent
  imports Tcp_Sock
begin

text \<open>
  The part of the ns-2 agent that drives a congestion control table: \<open>LinuxTcpAgent\<close> in
  src/ns-2.34/tcp/tcp-linux.cc and tcp-linux.h. An acknowledgment (\<open>recv\<close>) updates the
  socket from the packet, initialises the algorithm the first time, reports the acknowledged
  packets and the event, opens the window and runs the loss state machine
  (\<open>tcp_fastretrans_alert\<close>); a retransmission timeout runs \<open>enter_loss\<close>.

  What the agent reads from the packet, the scoreboard, the timers and the floating-point
  clock is the input \<open>ack_info\<close> of a step: the sequence number, the flags, the values that
  \<open>time_processing\<close> stores in the socket and the numbers of packets in flight. The sequence
  numbers are C \<open>int\<close>s that a simulation does not overflow. Sending, the ns-2 copies
  \<open>cwnd_\<close>/\<open>ssthresh_\<close> (doubles), tracing and timers are left out.
\<close>

record 'ca agent =
  linux_sk :: "'ca tcp_sock"
  initialized :: bool
  highest_ack :: int
  maxseq :: int
  t_seqno :: int
  recover :: int

record ack_info =
  ai_seqno :: int
  ai_ecnecho :: bool
  ai_prior_in_flight :: u32
  ai_sack_flag :: u8
  ai_rx_opt :: tcp_options_received
  ai_rtt :: "(u32 \<times> u32) option" \<comment> \<open>argument of \<open>rtt_sample\<close> and the new \<open>srtt\<close>\<close>
  ai_seq_rtt :: u32
  ai_last_ackt :: s64
  ai_pif :: nat

abbreviation (input) FLAG_ECE :: u8 where "FLAG_ECE \<equiv> 1"
abbreviation (input) FLAG_DATA_SACKED :: u8 where "FLAG_DATA_SACKED \<equiv> 2"
abbreviation (input) FLAG_DATA_ACKED :: u8 where "FLAG_DATA_ACKED \<equiv> 4"
abbreviation (input) FLAG_DATA_LOST :: u8 where "FLAG_DATA_LOST \<equiv> 8"
abbreviation (input) FLAG_UNSURE_TSTAMP :: u8 where "FLAG_UNSURE_TSTAMP \<equiv> 16"
abbreviation (input) FLAG_CA_ALERT :: u8 where "FLAG_CA_ALERT \<equiv> 3"
abbreviation (input) FLAG_NOT_DUP :: u8 where "FLAG_NOT_DUP \<equiv> 4"

definition touch_cwnd :: "kernel \<Rightarrow> 'ca tcp_sock \<Rightarrow> 'ca tcp_sock" where
  "touch_cwnd k sk = sk\<lparr>snd_cwnd_stamp := tcp_time_stamp k\<rparr>"

text \<open>\<open>min((int)snd_cwnd, packets_in_flight() + tcp_max_burst)\<close>, as signed numbers.\<close>

definition tcp_moderate_cwnd :: "kernel \<Rightarrow> nat \<Rightarrow> 'ca tcp_sock \<Rightarrow> 'ca tcp_sock" where
  "tcp_moderate_cwnd k pif sk =
    touch_cwnd k (sk\<lparr>snd_cwnd :=
      word_of_int (min (sint (snd_cwnd sk)) (int pif + uint (tcp_max_burst k)))\<rparr>)"

definition tcp_set_ca_state ::
  "'ca tcp_congestion_ops \<Rightarrow> u8 \<Rightarrow> kernel \<Rightarrow> 'ca tcp_sock \<Rightarrow> 'ca tcp_sock option" where
  "tcp_set_ca_state ops ca_state k sk = do {
     sk \<leftarrow> call_opt (map_option (\<lambda>f. f ca_state) (ca_set_state ops)) k sk;
     Some (sk\<lparr>icsk_ca_state := ca_state\<rparr>)
   }"

definition tcp_ca_event_call ::
  "'ca tcp_congestion_ops \<Rightarrow> tcp_ca_event \<Rightarrow> kernel \<Rightarrow> 'ca tcp_sock \<Rightarrow> 'ca tcp_sock option" where
  "tcp_ca_event_call ops ev k sk =
     call_opt (map_option (\<lambda>f. f ev) (ca_cwnd_event ops)) k sk"

text \<open>Calling the two required operations; a NULL pointer would trap.\<close>

definition call_ssthresh ::
  "'ca tcp_congestion_ops \<Rightarrow> kernel \<Rightarrow> 'ca tcp_sock \<Rightarrow> (u32 \<times> 'ca tcp_sock) option" where
  "call_ssthresh ops k sk = (case ca_ssthresh ops of None \<Rightarrow> None | Some f \<Rightarrow> f k sk)"

definition call_cong_avoid ::
  "'ca tcp_congestion_ops \<Rightarrow> u32 \<Rightarrow> u32 \<Rightarrow> u32 \<Rightarrow> s32 \<Rightarrow> kernel \<Rightarrow> 'ca tcp_sock
    \<Rightarrow> 'ca tcp_sock option" where
  "call_cong_avoid ops ack rtt in_flight good k sk =
     (case ca_cong_avoid ops of None \<Rightarrow> None | Some f \<Rightarrow> f ack rtt in_flight good k sk)"

text \<open>The window after a loss: \<open>min_cwnd\<close> if the algorithm has one, else the threshold.\<close>

definition call_min_cwnd :: "'ca tcp_congestion_ops \<Rightarrow> 'ca tcp_sock \<Rightarrow> u32 option" where
  "call_min_cwnd ops sk =
     (case ca_min_cwnd ops of None \<Rightarrow> Some (snd_ssthresh sk) | Some f \<Rightarrow> f sk)"

text \<open>The response to a detected loss or an ECN echo outside Recovery.\<close>

definition fastretrans_slowdown ::
  "'ca tcp_congestion_ops \<Rightarrow> kernel \<Rightarrow> 'ca tcp_sock \<Rightarrow> 'ca tcp_sock option" where
  "fastretrans_slowdown ops k sk = do {
     let sk = touch_cwnd k sk;
     (v, sk) \<leftarrow> call_ssthresh ops k sk;
     let sk = sk\<lparr>snd_ssthresh := v\<rparr>;
     let sk = sk\<lparr>snd_cwnd_cnt := 0, bytes_acked := 0\<rparr>;
     w \<leftarrow> call_min_cwnd ops sk;
     let sk = sk\<lparr>snd_cwnd := w\<rparr>;
     tcp_set_ca_state ops TCP_CA_Recovery k sk
   }"

definition tcp_fastretrans_alert ::
  "'ca tcp_congestion_ops \<Rightarrow> kernel \<Rightarrow> u8 \<Rightarrow> nat \<Rightarrow> 'ca agent \<Rightarrow> 'ca agent option" where
  "tcp_fastretrans_alert ops k flag pif ag =
    (let sk = linux_sk ag in
     if icsk_ca_state sk \<noteq> TCP_CA_Open \<and> recover ag \<le> highest_ack ag
     then do {
       let sk = (if snd_cwnd sk < snd_ssthresh sk
                 then tcp_moderate_cwnd k pif (sk\<lparr>snd_cwnd := snd_ssthresh sk\<rparr>) else sk);
       sk \<leftarrow> tcp_set_ca_state ops TCP_CA_Open k sk;
       Some (ag\<lparr>linux_sk := sk\<rparr>)
     }
     else if icsk_ca_state sk = TCP_CA_Recovery then Some ag
     else if flag AND (FLAG_DATA_LOST OR FLAG_ECE) \<noteq> 0
     then do {
       sk \<leftarrow> fastretrans_slowdown ops k sk;
       Some (ag\<lparr>linux_sk := sk, recover := maxseq ag\<rparr>)
     }
     else Some ag)"

definition ack_processing :: "ack_info \<Rightarrow> u8 \<Rightarrow> 'ca agent \<Rightarrow> u8 \<times> 'ca agent" where
  "ack_processing ai flag ag =
    (if flag AND FLAG_DATA_ACKED \<noteq> 0
     then let h = ai_seqno ai;
              sk = (linux_sk ag)\<lparr>snd_una := word_of_int (h + 1) * mss_cache (linux_sk ag)\<rparr>;
              ag = ag\<lparr>linux_sk := sk, highest_ack := h, maxseq := max (maxseq ag) h\<rparr>
          in (flag,
              if t_seqno ag < h + 1
              then ag\<lparr>t_seqno := h + 1,
                     linux_sk := (linux_sk ag)\<lparr>snd_nxt := word_of_int (h + 1) * mss_cache (linux_sk ag)\<rparr>\<rparr>
              else ag)
     else (flag OR FLAG_UNSURE_TSTAMP, ag))"

text \<open>The effect of \<open>time_processing\<close> and \<open>rtt_update\<close> on the socket.\<close>

definition time_processing ::
  "'ca tcp_congestion_ops \<Rightarrow> kernel \<Rightarrow> ack_info \<Rightarrow> 'ca tcp_sock \<Rightarrow> 'ca tcp_sock option" where
  "time_processing ops k ai sk =
    (let sk = sk\<lparr>rx_opt := ai_rx_opt ai\<rparr> in
     case ai_rtt ai of
       None \<Rightarrow> Some sk
     | Some (usrtt, t_srtt) \<Rightarrow> do {
         sk \<leftarrow> call_opt (map_option (\<lambda>f. f usrtt) (ca_rtt_sample ops)) k sk;
         Some (sk\<lparr>srtt := t_srtt\<rparr>)
       })"

definition tcp_ack_is_dubious :: "u8 \<Rightarrow> 'ca tcp_sock \<Rightarrow> bool" where
  "tcp_ack_is_dubious flag sk \<longleftrightarrow>
     flag AND FLAG_NOT_DUP = 0 \<or> flag AND FLAG_CA_ALERT \<noteq> 0 \<or> icsk_ca_state sk \<noteq> TCP_CA_Open"

definition tcp_may_raise_cwnd :: "u8 \<Rightarrow> 'ca tcp_sock \<Rightarrow> bool" where
  "tcp_may_raise_cwnd flag sk \<longleftrightarrow>
     (flag AND FLAG_ECE = 0 \<or> snd_cwnd sk < snd_ssthresh sk)
     \<and> \<not> (icsk_ca_state sk = TCP_CA_Recovery \<or> icsk_ca_state sk = TCP_CA_CWR)"

text \<open>The calls of one acknowledgment into the algorithm, up to the window increase.\<close>

definition recv_report ::
  "'ca tcp_congestion_ops \<Rightarrow> kernel \<Rightarrow> ack_info \<Rightarrow> u8 \<Rightarrow> u32 \<Rightarrow> 'ca agent \<Rightarrow> 'ca agent option" where
  "recv_report ops k ai flag acked ag = do {
     let sk = linux_sk ag;
     sk \<leftarrow> (if \<not> initialized ag then call_opt (ca_init ops) k sk else Some sk);
     sk \<leftarrow> (if flag AND FLAG_NOT_DUP \<noteq> 0
            then call_opt (map_option (\<lambda>f. f acked
                   (if flag AND FLAG_UNSURE_TSTAMP \<noteq> 0 then 0 else ai_last_ackt ai))
                   (ca_pkts_acked ops)) k sk
            else Some sk);
     sk \<leftarrow> tcp_ca_event_call ops
            (if icsk_ca_state sk = TCP_CA_Open \<and> flag AND FLAG_CA_ALERT = 0
                \<and> flag AND FLAG_NOT_DUP \<noteq> 0
             then CA_EVENT_FAST_ACK else CA_EVENT_SLOW_ACK) k sk;
     Some (ag\<lparr>linux_sk := sk, initialized := True\<rparr>)
   }"

definition tcp_cong_avoid ::
  "'ca tcp_congestion_ops \<Rightarrow> kernel \<Rightarrow> u32 \<Rightarrow> u32 \<Rightarrow> u32 \<Rightarrow> s32 \<Rightarrow> 'ca tcp_sock
    \<Rightarrow> 'ca tcp_sock option" where
  "tcp_cong_avoid ops k ack rtt in_flight good sk = do {
     sk \<leftarrow> call_cong_avoid ops (ack * mss_cache sk) rtt in_flight good k sk;
     Some (touch_cwnd k sk)
   }"

text \<open>The increase of the window in a dubious state.\<close>

definition recv_raise ::
  "'ca tcp_congestion_ops \<Rightarrow> kernel \<Rightarrow> ack_info \<Rightarrow> u8 \<Rightarrow> u32 \<Rightarrow> 'ca agent \<Rightarrow> 'ca tcp_sock option" where
  "recv_raise ops k ai flag ack ag =
    (if flag AND FLAG_DATA_ACKED \<noteq> 0 \<and> tcp_may_raise_cwnd flag (linux_sk ag)
     then tcp_cong_avoid ops k ack (ai_seq_rtt ai) (ai_prior_in_flight ai) 0 (linux_sk ag)
     else Some (linux_sk ag))"

definition recv_window ::
  "'ca tcp_congestion_ops \<Rightarrow> kernel \<Rightarrow> ack_info \<Rightarrow> u8 \<Rightarrow> u32 \<Rightarrow> 'ca agent \<Rightarrow> 'ca agent option" where
  "recv_window ops k ai flag ack ag =
    (if tcp_ack_is_dubious flag (linux_sk ag)
     then do {
       sk \<leftarrow> recv_raise ops k ai flag ack ag;
       tcp_fastretrans_alert ops k flag (ai_pif ai) (ag\<lparr>linux_sk := sk\<rparr>)
     }
     else if flag AND FLAG_DATA_ACKED \<noteq> 0
     then do {
       sk \<leftarrow> tcp_cong_avoid ops k ack (ai_seq_rtt ai) (ai_prior_in_flight ai) 1 (linux_sk ag);
       Some (ag\<lparr>linux_sk := sk\<rparr>)
     }
     else Some ag)"

text \<open>The first steps of \<open>recv\<close>: flags, acknowledged bytes and sequence numbers.\<close>

definition recv_begin :: "ack_info \<Rightarrow> u32 \<Rightarrow> u32 \<Rightarrow> 'ca agent \<Rightarrow> u8 \<times> 'ca agent" where
  "recv_begin ai prior_snd_una ack ag =
    (let flag = (if ai_ecnecho ai \<and> 1 < ack then FLAG_ECE else 0);
         (flag, ag) =
           (if prior_snd_una < ack
            then (flag OR FLAG_DATA_ACKED,
                  ag\<lparr>linux_sk := (linux_sk ag)\<lparr>bytes_acked := bytes_acked (linux_sk ag)
                       + (ack - prior_snd_una) * mss_cache (linux_sk ag)\<rparr>\<rparr>)
            else (flag, ag));
         (flag', ag) = ack_processing ai flag ag
     in ((flag OR flag') OR ai_sack_flag ai, ag))"

text \<open>\<open>LinuxTcpAgent::recv\<close> with a table installed.\<close>

definition agent_recv ::
  "'ca tcp_congestion_ops \<Rightarrow> kernel \<Rightarrow> ack_info \<Rightarrow> 'ca agent \<Rightarrow> 'ca agent option" where
  "agent_recv ops k ai ag =
    (let prior_snd_una = word_of_int (highest_ack ag + 1) :: u32;
         ack = word_of_int (ai_seqno ai + 1) :: u32
     in if (word_of_int (t_seqno ag) :: u32) < ack \<or> ack < prior_snd_una then Some ag
        else do {
          let (flag, ag) = recv_begin ai prior_snd_una ack ag;
          sk \<leftarrow> time_processing ops k ai (linux_sk ag);
          ag \<leftarrow> recv_report ops k ai flag (ack - prior_snd_una) (ag\<lparr>linux_sk := sk\<rparr>);
          recv_window ops k ai flag ack ag
        })"

definition enter_loss ::
  "'ca tcp_congestion_ops \<Rightarrow> kernel \<Rightarrow> 'ca agent \<Rightarrow> 'ca agent option" where
  "enter_loss ops k ag = do {
     let sk = touch_cwnd k (linux_sk ag);
     (v, sk) \<leftarrow> call_ssthresh ops k sk;
     let sk = sk\<lparr>snd_ssthresh := v\<rparr>;
     sk \<leftarrow> tcp_ca_event_call ops CA_EVENT_LOSS k sk;
     let sk = sk\<lparr>snd_cwnd := 1, snd_cwnd_cnt := 0, bytes_acked := 0\<rparr>;
     sk \<leftarrow> tcp_set_ca_state ops TCP_CA_Loss k sk;
     Some (ag\<lparr>linux_sk := sk, recover := maxseq ag\<rparr>)
   }"

text \<open>The sequence numbers after \<open>n\<close> new segments were sent (\<open>send_much\<close>).\<close>

definition agent_send :: "nat \<Rightarrow> 'ca agent \<Rightarrow> 'ca agent" where
  "agent_send n ag =
    (let t = t_seqno ag + int n
     in ag\<lparr>t_seqno := t, maxseq := max (maxseq ag) (t - 1),
           linux_sk := (linux_sk ag)\<lparr>snd_nxt := word_of_int t * mss_cache (linux_sk ag)\<rparr>\<rparr>)"

section \<open>Runs\<close>

text \<open>The agent sends and reacts to acknowledgments and retransmission timeouts, in any order.\<close>

datatype agent_event = Ev_send nat | Ev_recv kernel ack_info | Ev_timeout kernel

fun agent_step :: "'ca tcp_congestion_ops \<Rightarrow> agent_event \<Rightarrow> 'ca agent \<Rightarrow> 'ca agent option" where
  "agent_step ops (Ev_send n) ag = Some (agent_send n ag)"
| "agent_step ops (Ev_recv k ai) ag = agent_recv ops k ai ag"
| "agent_step ops (Ev_timeout k) ag = enter_loss ops k ag"

fun agent_run :: "'ca tcp_congestion_ops \<Rightarrow> agent_event list \<Rightarrow> 'ca agent \<Rightarrow> 'ca agent option" where
  "agent_run ops [] ag = Some ag"
| "agent_run ops (e # es) ag = Option.bind (agent_step ops e ag) (agent_run ops es)"

end
