(* ===== verification/Scoreboard.thy ===== *)
theory Scoreboard
  imports Agent
begin

text \<open>
  The scoreboard of TCP-Linux: \<open>ScoreBoard1\<close> and \<open>ScoreBoardNode1\<close> of
  src/ns-2.34/tcp/scoreboard1.cc and scoreboard1.h. It is a linked list of blocks of consecutive
  packets after the last cumulative acknowledgment, each in flight, acknowledged by SACK, lost, or
  retransmitted; from it the agent learns which packet to retransmit next and how many are in
  flight. The list is a HOL list; a node keeps its address as \<open>nd_id\<close>, because the scoreboard
  holds a pointer into the list (\<open>nxt_to_retrx_\<close>). A failed ASSERT, which exits the program, and
  a dangling pointer are traps. Sequence numbers and counters are C \<open>int\<close>s that a simulation does not
  overflow.
\<close>

section \<open>Nodes\<close>

datatype skb_flag = SKB_INFLIGHT | SKB_SACKED | SKB_LOST | SKB_RETRANSMITTED

text \<open>
  \<open>nd_nxt\<close> is the last packet of the block, except in a retransmitted node, which has one packet
  and keeps the value of \<open>snd_nxt\<close> at the time of the retransmission there.
\<close>

record sb_node =
  nd_id :: nat
  nd_flag :: skb_flag
  nd_seq :: int
  nd_nxt :: int
  nd_retran :: int

definition get_end :: "sb_node \<Rightarrow> int" where
  "get_end n = (if nd_flag n = SKB_RETRANSMITTED then nd_seq n else nd_nxt n)"

definition get_length :: "sb_node \<Rightarrow> int" where
  "get_length n = (if nd_flag n = SKB_RETRANSMITTED then 1 else nd_nxt n + 1 - nd_seq n)"

definition set_flag :: "skb_flag \<Rightarrow> sb_node \<Rightarrow> sb_node" where
  "set_flag f n = (if nd_flag n = SKB_RETRANSMITTED then n\<lparr>nd_nxt := nd_seq n\<rparr> else n)\<lparr>nd_flag := f\<rparr>"

definition inside :: "int \<Rightarrow> sb_node \<Rightarrow> bool" where
  "inside seq n \<longleftrightarrow> (if nd_flag n = SKB_RETRANSMITTED then seq = nd_seq n
     else nd_seq n \<le> seq \<and> seq \<le> nd_nxt n)"

text \<open>0: the block is not touched; -1: it is deleted; else the number of packets to drop.\<close>

definition should_clean :: "int \<Rightarrow> sb_node \<Rightarrow> int" where
  "should_clean ackseq n =
    (if ackseq < nd_seq n then 0
     else if nd_flag n = SKB_RETRANSMITTED \<or> nd_nxt n \<le> ackseq then - 1
     else ackseq + 1 - nd_seq n)"

text \<open>Whether the next node \<open>m\<close> can be merged into \<open>n\<close>, and the merged node.\<close>

definition mergable :: "sb_node \<Rightarrow> sb_node \<Rightarrow> bool" where
  "mergable n m \<longleftrightarrow> nd_flag m \<noteq> SKB_RETRANSMITTED \<and> nd_flag m = nd_flag n"

definition merge_next :: "sb_node \<Rightarrow> sb_node \<Rightarrow> sb_node" where
  "merge_next n m = n\<lparr>nd_nxt := nd_nxt m\<rparr>"

text \<open>\<open>retran_\<close> of a new node is not initialised; it is read only after it was set.\<close>

definition new_node :: "nat \<Rightarrow> int \<Rightarrow> int \<Rightarrow> skb_flag \<Rightarrow> sb_node" where
  "new_node i start nxt f = \<lparr> nd_id = i, nd_flag = f, nd_seq = start, nd_nxt = nxt, nd_retran = 0 \<rparr>"

text \<open>The two halves of a split; the second is new.\<close>

definition split_low :: "int \<Rightarrow> sb_node \<Rightarrow> sb_node" where
  "split_low seq n = n\<lparr>nd_nxt := seq - 1\<rparr>"

definition split_high :: "nat \<Rightarrow> int \<Rightarrow> sb_node \<Rightarrow> sb_node" where
  "split_high i seq n = new_node i seq (nd_nxt n) (nd_flag n)"

definition node_mark_retran :: "int \<Rightarrow> int \<Rightarrow> sb_node \<Rightarrow> sb_node" where
  "node_mark_retran nxt rtx n =
     n\<lparr>nd_flag := SKB_RETRANSMITTED, nd_nxt := nxt, nd_retran := rtx\<rparr>"

section \<open>The scoreboard\<close>

record scoreboard =
  sb_nodes :: "sb_node list"
  nxt_to_retrx :: "nat option"
  acked_rtx_id :: int
  rtx_id :: int
  fack :: int
  fack_out :: int
  sack_out :: int
  last_rtx_seq :: int
  sb_fresh :: nat \<comment> \<open>the address of the next node\<close>

definition clear_scoreboard :: "scoreboard \<Rightarrow> scoreboard" where
  "clear_scoreboard s = s\<lparr>rtx_id := 0, acked_rtx_id := - 1, fack_out := 0, sack_out := 0, fack := 0,
     nxt_to_retrx := None, sb_nodes := []\<rparr>"

definition new_scoreboard :: scoreboard where
  "new_scoreboard = \<lparr> sb_nodes = [], nxt_to_retrx = None, acked_rtx_id = - 1, rtx_id = 0, fack = 0,
     fack_out = 0, sack_out = 0, last_rtx_seq = - 1, sb_fresh = 0 \<rparr>"

definition sb_packets_in_flight :: "int \<Rightarrow> int \<Rightarrow> scoreboard \<Rightarrow> int" where
  "sb_packets_in_flight una nxt s = nxt - una - fack_out s - sack_out s"

section \<open>The cumulative acknowledgment\<close>

text \<open>The counters without \<open>k\<close> packets of the flag \<open>f\<close>; they must not get negative.\<close>

definition discount :: "skb_flag \<Rightarrow> int \<Rightarrow> scoreboard \<Rightarrow> scoreboard option" where
  "discount f k s =
    (case f of
       SKB_SACKED \<Rightarrow> if sack_out s - k < 0 then None else Some (s\<lparr>sack_out := sack_out s - k\<rparr>)
     | SKB_LOST \<Rightarrow> if fack_out s - k < 0 then None else Some (s\<lparr>fack_out := fack_out s - k\<rparr>)
     | _ \<Rightarrow> Some s)"

text \<open>The loop of \<open>CleanRtxQueue\<close>; the result holds \<open>changed_acked_rtx\<close> and the flag.\<close>

fun clean_loop ::
  "int \<Rightarrow> sb_node list \<Rightarrow> bool \<Rightarrow> u8 \<Rightarrow> scoreboard \<Rightarrow> (bool \<times> u8 \<times> scoreboard) option" where
  "clean_loop last_ack [] changed flag s = Some (changed, flag, s\<lparr>sb_nodes := []\<rparr>)"
| "clean_loop last_ack (n # ns) changed flag s =
    (let cmp = should_clean last_ack n in
     if cmp = 0 then Some (changed, flag, s\<lparr>sb_nodes := n # ns\<rparr>)
     else do {
       s \<leftarrow> discount (nd_flag n) (if cmp < 0 then get_length n else cmp) s;
       if cmp < 0
       then
         let (changed, flag, s) =
           (if nd_flag n = SKB_RETRANSMITTED
            then if acked_rtx_id s < nd_retran n
                 then (True, flag OR FLAG_UNSURE_TSTAMP, s\<lparr>acked_rtx_id := nd_retran n\<rparr>)
                 else (changed, flag OR FLAG_UNSURE_TSTAMP, s)
            else (changed, flag, s));
           s = (if nxt_to_retrx s = Some (nd_id n)
                then s\<lparr>nxt_to_retrx := (case ns of [] \<Rightarrow> None | m # _ \<Rightarrow> Some (nd_id m))\<rparr> else s)
         in clean_loop last_ack ns changed flag s
       else Some (changed, flag, s\<lparr>sb_nodes := n\<lparr>nd_seq := last_ack + 1\<rparr> # ns\<rparr>)
     })"

definition clean_rtx_queue :: "int \<Rightarrow> scoreboard \<Rightarrow> (bool \<times> u8 \<times> scoreboard) option" where
  "clean_rtx_queue last_ack s = clean_loop last_ack (sb_nodes s) False 0 s"

section \<open>Selective acknowledgments\<close>

text \<open>
  A SACK block is \<open>[left, right)\<close>. Blocks left of the acknowledgment are dropped, the others are
  inserted into the array in increasing order of their left ends, from the right.
\<close>

type_synonym sack = "int \<times> int"

definition insert_sack :: "sack \<Rightarrow> sack list \<Rightarrow> sack list" where
  "insert_sack b bs = rev (takeWhile (\<lambda>c. fst c > fst b) (rev bs)
     @ b # dropWhile (\<lambda>c. fst c > fst b) (rev bs))"

definition sort_sacks :: "int \<Rightarrow> sack list \<Rightarrow> sack list" where
  "sort_sacks last_ack bs =
     fold (\<lambda>b acc. if last_ack \<le> fst b then insert_sack b acc else acc) bs []"

text \<open>
  The traversal: the nodes before \<open>prev\<close> (and \<open>prev\<close> first) in reverse, the nodes from \<open>now\<close> on,
  the blocks from \<open>sack_index\<close> on, \<open>thorough\<close>, the flag and the other fields.
\<close>

record sb_pass =
  ps_done :: "sb_node list"
  ps_todo :: "sb_node list"
  ps_sacks :: "sack list"
  ps_thorough :: bool
  ps_flag :: u8
  ps_sb :: scoreboard

text \<open>A node from \<open>seq\<close> on is split off \<open>now\<close>.\<close>

definition pass_split :: "int \<Rightarrow> sb_node \<Rightarrow> sb_pass \<Rightarrow> sb_node \<times> sb_pass" where
  "pass_split seq now p =
    (let s = ps_sb p in
     (split_low seq now,
      p\<lparr>ps_todo := split_high (sb_fresh s) seq now # ps_todo p, ps_sb := s\<lparr>sb_fresh := sb_fresh s + 1\<rparr>\<rparr>))"

text \<open>\<open>now\<close> is acknowledged by the current block.\<close>

definition pass_sacked :: "sb_node \<Rightarrow> sb_pass \<Rightarrow> sb_node \<times> sb_pass" where
  "pass_sacked now p =
    (let k = get_length now;
         p = (case nd_flag now of
                SKB_LOST \<Rightarrow> p\<lparr>ps_sb := (ps_sb p)\<lparr>fack_out := fack_out (ps_sb p) - k\<rparr>\<rparr>
              | SKB_RETRANSMITTED \<Rightarrow>
                  p\<lparr>ps_sb := (ps_sb p)\<lparr>acked_rtx_id := nd_retran now\<rparr>,
                    ps_flag := ps_flag p OR FLAG_UNSURE_TSTAMP, ps_thorough := True\<rparr>
              | _ \<Rightarrow> p)
     in (set_flag SKB_SACKED now,
         p\<lparr>ps_sb := (ps_sb p)\<lparr>sack_out := sack_out (ps_sb p) + k\<rparr>,
           ps_flag := ps_flag p OR FLAG_DATA_SACKED\<rparr>))"

text \<open>Comparing \<open>now\<close>, which is not acknowledged yet, with the current block.\<close>

definition pass_match :: "sb_node \<Rightarrow> sb_pass \<Rightarrow> sb_node \<times> sb_pass" where
  "pass_match now p =
    (let p = p\<lparr>ps_sacks := dropWhile (\<lambda>(l, r). r \<le> nd_seq now) (ps_sacks p)\<rparr> in
     case ps_sacks p of
       [] \<Rightarrow> (now, p)
     | (l, r) # _ \<Rightarrow>
         if l \<le> get_end now
         then if nd_seq now < l then pass_split l now p
              else let (now, p) = (if r \<le> get_end now then pass_split r now p else (now, p))
                   in pass_sacked now p
         else (now, p))"

definition note_retrx :: "sb_node \<Rightarrow> sb_pass \<Rightarrow> sb_pass" where
  "note_retrx now p = (if nxt_to_retrx (ps_sb p) = None
     then p\<lparr>ps_sb := (ps_sb p)\<lparr>nxt_to_retrx := Some (nd_id now)\<rparr>\<rparr> else p)"

text \<open>Marking \<open>now\<close> as lost; \<open>k\<close> packets more are lost.\<close>

definition pass_lost :: "int \<Rightarrow> sb_node \<Rightarrow> sb_pass \<Rightarrow> sb_node \<times> sb_pass" where
  "pass_lost k now p =
    (let now = set_flag SKB_LOST now;
         p = p\<lparr>ps_sb := (ps_sb p)\<lparr>fack_out := fack_out (ps_sb p) + k\<rparr>,
               ps_flag := ps_flag p OR FLAG_DATA_LOST\<rparr>
     in (now, note_retrx now p))"

text \<open>The loss check of a node that no block reaches; \<open>d\<close> is \<open>dupack_threshold\<close>.\<close>

definition pass_check :: "int \<Rightarrow> sb_node \<Rightarrow> sb_pass \<Rightarrow> sb_node \<times> sb_pass" where
  "pass_check d now p =
    (if ps_sacks p = [] \<or> get_end now < fst (hd (ps_sacks p))
     then case nd_flag now of
         SKB_RETRANSMITTED \<Rightarrow>
           if nd_nxt now \<le> fack (ps_sb p) \<or> nd_retran now + d + 1 < acked_rtx_id (ps_sb p)
           then pass_lost 1 now p else (now, p)
       | SKB_INFLIGHT \<Rightarrow>
           let thr = fack (ps_sb p) - (d + 1) in
           if nd_seq now \<le> thr
           then let (now, p) = (if thr < get_end now then pass_split (thr + 1) now p else (now, p))
                in pass_lost (get_length (set_flag SKB_LOST now)) now p
           else (now, p)
       | SKB_LOST \<Rightarrow> (now, note_retrx now p)
       | SKB_SACKED \<Rightarrow> (now, p)
     else (now, p))"

text \<open>Merging \<open>now\<close> into \<open>prev\<close>, or going on to it, and extending the list to \<open>fack_\<close>.\<close>

definition pass_advance :: "sb_node \<Rightarrow> sb_pass \<Rightarrow> sb_pass" where
  "pass_advance now p =
    (let ds = (case ps_done p of
                 prev # ds \<Rightarrow> if mergable prev now then merge_next prev now # ds else now # prev # ds
               | [] \<Rightarrow> [now]);
         p = p\<lparr>ps_done := ds\<rparr>;
         s = ps_sb p
     in if ps_todo p = [] \<and> get_end (hd ds) < fack s
        then p\<lparr>ps_todo := [new_node (sb_fresh s) (get_end (hd ds) + 1) (fack s) SKB_INFLIGHT],
               ps_sb := s\<lparr>sb_fresh := sb_fresh s + 1\<rparr>\<rparr>
        else p)"

definition pass_step :: "int \<Rightarrow> sb_pass \<Rightarrow> sb_pass" where
  "pass_step d p =
    (case ps_todo p of
       [] \<Rightarrow> p
     | now # todo \<Rightarrow>
         let p = p\<lparr>ps_todo := todo\<rparr>;
             (now, p) = (if nd_flag now \<noteq> SKB_SACKED
                         then let (now, p) = pass_match now p in pass_check d now p
                         else (now, p))
         in pass_advance now p)"

partial_function (option) pass_loop :: "int \<Rightarrow> sb_pass \<Rightarrow> sb_pass option" where
  "pass_loop d p =
    (if ps_todo p \<noteq> [] \<and> (ps_sacks p \<noteq> [] \<or> ps_thorough p) then pass_loop d (pass_step d p)
     else Some p)"

text \<open>The second half of \<open>UpdateScoreBoard\<close>, with the sorted blocks \<open>bs\<close>.\<close>

definition traverse_scoreboard ::
  "int \<Rightarrow> sack list \<Rightarrow> int \<Rightarrow> bool \<Rightarrow> u8 \<Rightarrow> scoreboard \<Rightarrow> (u8 \<times> scoreboard) option" where
  "traverse_scoreboard last_ack bs d thorough flag s = do {
     let (thorough, s) =
       (if bs \<noteq> [] \<and> fack s < snd (last bs) - 1
        then (True, s\<lparr>fack := snd (last bs) - 1\<rparr>) else (thorough, s));
     let s =
       (if sb_nodes s = []
        then s\<lparr>sb_nodes := [new_node (sb_fresh s) (last_ack + 1) (fack s) SKB_INFLIGHT],
               sb_fresh := sb_fresh s + 1\<rparr>
        else s);
     let s = s\<lparr>nxt_to_retrx := None\<rparr>;
     p \<leftarrow> pass_loop d \<lparr> ps_done = [], ps_todo = sb_nodes s, ps_sacks = bs, ps_thorough = thorough,
            ps_flag = flag, ps_sb = s \<rparr>;
     Some (ps_flag p, (ps_sb p)\<lparr>sb_nodes := rev (ps_done p) @ ps_todo p\<rparr>)
   }"

definition update_scoreboard ::
  "int \<Rightarrow> sack list \<Rightarrow> int \<Rightarrow> scoreboard \<Rightarrow> (u8 \<times> scoreboard) option" where
  "update_scoreboard last_ack sa d s = do {
     (thorough, flag, s) \<leftarrow> clean_rtx_queue last_ack s;
     let (thorough, s) = (if sb_nodes s = [] then (False, clear_scoreboard s) else (thorough, s));
     if \<not> thorough \<and> sa = [] then Some (flag, s)
     else do {
       let bs = sort_sacks last_ack sa;
       if \<not> thorough \<and> bs = [] then Some (flag, s)
       else traverse_scoreboard last_ack bs d thorough flag s
     }
   }"

section \<open>Losses and retransmissions\<close>

text \<open>\<open>MarkLoss\<close>: the nodes before \<open>now\<close> in reverse, the nodes from \<open>now\<close> on, \<open>last_lost\<close>.\<close>

definition mark_loss_node ::
  "sb_node \<Rightarrow> sb_node list \<times> bool \<times> scoreboard \<Rightarrow> sb_node list \<times> bool \<times> scoreboard" where
  "mark_loss_node now = (\<lambda>(ds, last_lost, s).
    if nd_flag now \<noteq> SKB_SACKED
    then
      let s = (if nd_flag now \<noteq> SKB_LOST
               then s\<lparr>fack_out := fack_out s + (get_end now - nd_seq now + 1)\<rparr> else s);
          now = set_flag SKB_LOST now
      in case ds of
           prev # ds' \<Rightarrow>
             if last_lost then (merge_next prev now # ds', True, s)
             else (now # ds, True,
                   if nxt_to_retrx s = None then s\<lparr>nxt_to_retrx := Some (nd_id now)\<rparr> else s)
         | [] \<Rightarrow> ([now], True,
                   if nxt_to_retrx s = None then s\<lparr>nxt_to_retrx := Some (nd_id now)\<rparr> else s)
    else (now # ds, False, s))"

partial_function (option) mark_loss_loop ::
  "int \<Rightarrow> sb_node list \<Rightarrow> sb_node list \<times> bool \<times> scoreboard \<Rightarrow> (sb_node list \<times> scoreboard) option"
where
  "mark_loss_loop nxt todo c =
    (case todo of
       [] \<Rightarrow> Some (rev (fst c), snd (snd c))
     | now # todo \<Rightarrow>
         let (ds, last_lost, s) = mark_loss_node now c
         in if todo = [] \<and> get_end (hd ds) + 1 < nxt
            then mark_loss_loop nxt [new_node (sb_fresh s) (get_end (hd ds) + 1) (nxt - 1) SKB_INFLIGHT]
                   (ds, last_lost, s\<lparr>sb_fresh := sb_fresh s + 1\<rparr>)
            else mark_loss_loop nxt todo (ds, last_lost, s))"

definition mark_loss :: "int \<Rightarrow> int \<Rightarrow> scoreboard \<Rightarrow> scoreboard option" where
  "mark_loss una nxt s = do {
     let s = s\<lparr>nxt_to_retrx := None\<rparr>;
     (ns, s) \<leftarrow> mark_loss_loop nxt (sb_nodes s) ([], False, s);
     let s = s\<lparr>sb_nodes := ns\<rparr>;
     let s = (if ns = [] \<and> una < nxt
              then s\<lparr>sb_nodes := [new_node (sb_fresh s) una (nxt - 1) SKB_LOST],
                     nxt_to_retrx := Some (sb_fresh s), sb_fresh := sb_fresh s + 1,
                     fack_out := fack_out s + (nxt - una)\<rparr>
              else s);
     Some (s\<lparr>rtx_id := 0, acked_rtx_id := - 1\<rparr>)
   }"

text \<open>The nodes from the address \<open>i\<close> on; a pointer to no node dangles.\<close>

definition nodes_from :: "nat \<Rightarrow> sb_node list \<Rightarrow> sb_node list" where
  "nodes_from i ns = dropWhile (\<lambda>n. nd_id n \<noteq> i) ns"

definition get_next_retran :: "scoreboard \<Rightarrow> (int \<times> scoreboard) option" where
  "get_next_retran s =
    (case nxt_to_retrx s of
       None \<Rightarrow> Some (- 1, s)
     | Some i \<Rightarrow>
         if nodes_from i (sb_nodes s) = [] then None
         else case dropWhile (\<lambda>n. nd_flag n \<noteq> SKB_LOST) (nodes_from i (sb_nodes s)) of
             [] \<Rightarrow> Some (- 1, s\<lparr>nxt_to_retrx := None\<rparr>)
           | n # _ \<Rightarrow> Some (nd_seq n, s\<lparr>nxt_to_retrx := Some (nd_id n)\<rparr>))"

definition mark_retran :: "int \<Rightarrow> int \<Rightarrow> scoreboard \<Rightarrow> scoreboard option" where
  "mark_retran seqno nxt s =
    (case nxt_to_retrx s of
       None \<Rightarrow> None
     | Some i \<Rightarrow>
         (case nodes_from i (sb_nodes s) of
            [] \<Rightarrow> None
          | n # ns \<Rightarrow>
              if \<not> inside seqno n \<or> fack_out s - 1 < 0 then None
              else
                let pre = takeWhile (\<lambda>m. nd_id m \<noteq> i) (sb_nodes s);
                    s = s\<lparr>fack_out := fack_out s - 1\<rparr>;
                    (n, ns, s) =
                      (if nd_seq n < nd_nxt n
                       then (split_low (nd_seq n + 1) n, split_high (sb_fresh s) (nd_seq n + 1) n # ns,
                             s\<lparr>sb_fresh := sb_fresh s + 1\<rparr>)
                       else (n, ns, s))
                in Some (s\<lparr>sb_nodes := pre @ node_mark_retran nxt (rtx_id s) n # ns,
                         rtx_id := rtx_id s + 1, last_rtx_seq := seqno\<rparr>)))"

end
