(* ===== verification/Scoreboard_Inv.thy ===== *)
theory Scoreboard_Inv
  imports Scoreboard
begin

text \<open>
  The scoreboard as sets of packets. The invariant \<open>sb_ok u t s\<close>: the nodes of \<open>s\<close> cover the packets
  from \<open>u\<close> (the first unacknowledged one) up to \<open>t\<close> without gaps, the two counters are the
  numbers of lost and selectively acknowledged packets, and the pointer is valid. Every
  operation keeps it, ends without a trap, and is an operation on the sets \<open>packets_of f\<close> of packets in
  each state.
\<close>

section \<open>Packets and counters\<close>

fun consec :: "int \<Rightarrow> sb_node list \<Rightarrow> int \<Rightarrow> bool" where
  "consec a [] b \<longleftrightarrow> a = b"
| "consec a (n # ns) b \<longleftrightarrow> nd_seq n = a \<and> a \<le> get_end n \<and> consec (get_end n + 1) ns b"

fun packets_of :: "skb_flag \<Rightarrow> sb_node list \<Rightarrow> int set" where
  "packets_of f [] = {}"
| "packets_of f (n # ns) = (if nd_flag n = f then {nd_seq n..get_end n} else {}) \<union> packets_of f ns"

fun count_pkts :: "skb_flag \<Rightarrow> sb_node list \<Rightarrow> int" where
  "count_pkts f [] = 0"
| "count_pkts f (n # ns) = (if nd_flag n = f then get_length n else 0) + count_pkts f ns"

definition sb_core :: "int \<Rightarrow> int \<Rightarrow> sb_node list \<Rightarrow> scoreboard \<Rightarrow> bool" where
  "sb_core u t ns s \<longleftrightarrow> consec u ns t \<and> distinct (map nd_id ns) \<and> (\<forall>n \<in> set ns. nd_id n < sb_fresh s)
     \<and> fack_out s = count_pkts SKB_LOST ns \<and> sack_out s = count_pkts SKB_SACKED ns"

definition sb_ok :: "int \<Rightarrow> int \<Rightarrow> scoreboard \<Rightarrow> bool" where
  "sb_ok u t s \<longleftrightarrow> sb_core u t (sb_nodes s) s
     \<and> (\<forall>i. nxt_to_retrx s = Some i \<longrightarrow> i \<in> nd_id ` set (sb_nodes s))"

lemma length_end: "get_length n = get_end n + 1 - nd_seq n"
  by (simp add: get_length_def get_end_def)

lemma consec_append: "consec a (xs @ ys) c \<longleftrightarrow> (\<exists>b. consec a xs b \<and> consec b ys c)"
  by (induction xs arbitrary: a) auto

lemma pkts_append [simp]: "packets_of f (xs @ ys) = packets_of f xs \<union> packets_of f ys"
  by (induction xs) auto

lemma count_append [simp]: "count_pkts f (xs @ ys) = count_pkts f xs + count_pkts f ys"
  by (induction xs) auto

lemma consec_le: "consec a ns b \<Longrightarrow> a \<le> b"
  by (induction ns arbitrary: a) (simp, fastforce)

lemma consec_nil_iff: "consec a ns b \<Longrightarrow> ns = [] \<longleftrightarrow> a = b"
  by (cases ns) (auto dest: consec_le)

lemma pkts_bounds: "consec a ns b \<Longrightarrow> packets_of f ns \<subseteq> {a..<b}"
proof (induction ns arbitrary: a)
  case (Cons n ns)
  then have "packets_of f ns \<subseteq> {get_end n + 1..<b}" "get_end n + 1 \<le> b" by (auto dest: consec_le)
  with Cons.prems show ?case by auto
qed simp

lemma count_card:
  assumes "consec a ns b"
  shows "count_pkts f ns = int (card (packets_of f ns))" and "finite (packets_of f ns)"
  using assms
proof (induction ns arbitrary: a)
  case (Cons n ns)
  {
    case 1
    then have c: "consec (get_end n + 1) ns b" and n: "nd_seq n \<le> get_end n" by auto
    have "{nd_seq n..get_end n} \<inter> packets_of f ns = {}" using pkts_bounds [OF c, of f] by auto
    then have "card ({nd_seq n..get_end n} \<union> packets_of f ns) = card {nd_seq n..get_end n} + card (packets_of f ns)"
      using Cons.IH(2) [OF c] by (intro card_Un_disjoint) auto
    with Cons.IH(1) [OF c] n show ?case by (simp add: length_end)
  next
    case 2
    then show ?case using Cons.IH(2) by auto
  }
qed simp_all

lemma count_nonneg: "consec a ns b \<Longrightarrow> 0 \<le> count_pkts f ns"
  by (simp add: count_card(1))

text \<open>Different states are disjoint, and together they are everything.\<close>

lemma pkts_disjoint:
  assumes "consec a ns b" and "f \<noteq> g"
  shows "packets_of f ns \<inter> packets_of g ns = {}"
  using assms(1)
proof (induction ns arbitrary: a)
  case (Cons n ns)
  then have "packets_of h ns \<subseteq> {get_end n + 1..<b}" for h using pkts_bounds [of "get_end n + 1" ns b h] by simp
  then have "{nd_seq n..get_end n} \<inter> packets_of h ns = {}" for h by fastforce
  moreover have "packets_of f ns \<inter> packets_of g ns = {}"
    using Cons.IH [of "get_end n + 1"] Cons.prems by simp
  ultimately show ?case using assms(2) by auto
qed simp

lemma pkts_all: "consec a ns b \<Longrightarrow> (\<Union>f. packets_of f ns) = {a..<b}"
proof (induction ns arbitrary: a)
  case (Cons n ns)
  then have "(\<Union>f. packets_of f ns) = {get_end n + 1..<b}" "get_end n + 1 \<le> b" by (auto dest: consec_le)
  moreover have "(\<Union>f. packets_of f (n # ns)) = {nd_seq n..get_end n} \<union> (\<Union>f. packets_of f ns)"
    by (auto split: if_splits)
  ultimately show ?case using Cons.prems by auto
qed simp

text \<open>In flight: what was sent and is neither lost nor acknowledged.\<close>

lemma in_flight_nonneg:
  assumes "sb_ok u t s" and "t \<le> nxt"
  shows "0 \<le> sb_packets_in_flight u nxt s"
proof -
  have c: "consec u (sb_nodes s) t" and f: "fack_out s = count_pkts SKB_LOST (sb_nodes s)"
    "sack_out s = count_pkts SKB_SACKED (sb_nodes s)"
    using assms(1) by (auto simp: sb_ok_def sb_core_def)
  let ?A = "packets_of SKB_LOST (sb_nodes s)" and ?B = "packets_of SKB_SACKED (sb_nodes s)"
  have "card ?A + card ?B = card (?A \<union> ?B)"
    using count_card(2) [OF c] pkts_disjoint [OF c] by (intro card_Un_disjoint [symmetric]) auto
  also have "\<dots> \<le> card {u..<t}"
    using pkts_bounds [OF c] by (intro card_mono) auto
  finally have "count_pkts SKB_LOST (sb_nodes s) + count_pkts SKB_SACKED (sb_nodes s) \<le> t - u"
    using consec_le [OF c] by (simp add: count_card(1) [OF c])
  with assms(2) show ?thesis by (simp add: sb_packets_in_flight_def f)
qed

section \<open>Steps on the nodes\<close>

text \<open>Replacing a node by one with the same packets.\<close>

lemma core_replace:
  assumes "sb_core u t (as @ n # bs) s" and "nd_id n' = nd_id n" and "nd_seq n' = nd_seq n"
    and "get_end n' = get_end n" and "sb_fresh s' = sb_fresh s"
    and "fack_out s' = fack_out s - (if nd_flag n = SKB_LOST then get_length n else 0)
      + (if nd_flag n' = SKB_LOST then get_length n else 0)"
    and "sack_out s' = sack_out s - (if nd_flag n = SKB_SACKED then get_length n else 0)
      + (if nd_flag n' = SKB_SACKED then get_length n else 0)"
  shows "sb_core u t (as @ n' # bs) s'"
  using assms by (auto simp: sb_core_def consec_append length_end)

lemma core_fresh: "sb_core u t ns s \<Longrightarrow> \<forall>n \<in> set ns. nd_id n \<noteq> sb_fresh s"
  unfolding sb_core_def by (metis less_irrefl)

text \<open>Splitting a node.\<close>

lemma core_split:
  assumes "sb_core u t (as @ n # bs) s" and "nd_flag n \<noteq> SKB_RETRANSMITTED"
    and "nd_seq n < q" and "q \<le> nd_nxt n"
  shows "sb_core u t (as @ split_low q n # split_high (sb_fresh s) q n # bs) (s\<lparr>sb_fresh := sb_fresh s + 1\<rparr>)"
    and "packets_of f (split_low q n # split_high (sb_fresh s) q n # bs) = packets_of f (n # bs)"
proof -
  have e: "get_end n = nd_nxt n" "get_end (split_low q n) = q - 1"
    "get_end (split_high (sb_fresh s) q n) = nd_nxt n"
    using assms(2) by (simp_all add: get_end_def split_low_def split_high_def new_node_def)
  have i: "\<forall>m \<in> set (as @ n # bs). nd_id m \<noteq> sb_fresh s" by (rule core_fresh [OF assms(1)])
  show "sb_core u t (as @ split_low q n # split_high (sb_fresh s) q n # bs) (s\<lparr>sb_fresh := sb_fresh s + 1\<rparr>)"
    using assms e i
    by (auto simp: sb_core_def consec_append length_end split_low_def split_high_def new_node_def less_Suc_eq)
  show "packets_of f (split_low q n # split_high (sb_fresh s) q n # bs) = packets_of f (n # bs)"
    using assms(2-4) e by (auto simp: split_low_def split_high_def new_node_def)
qed

text \<open>Merging two neighbours.\<close>

lemma core_merge:
  assumes "sb_core u t (as @ n # m # bs) s" and "mergable n m"
  shows "sb_core u t (as @ merge_next n m # bs) s"
    and "packets_of f (merge_next n m # bs) = packets_of f (n # m # bs)"
    and "get_end (merge_next n m) = get_end m"
proof -
  have e: "nd_flag n \<noteq> SKB_RETRANSMITTED" "nd_flag m = nd_flag n" "get_end n = nd_nxt n"
    "get_end m = nd_nxt m" "get_end (merge_next n m) = nd_nxt m"
    using assms(2) by (auto simp: mergable_def get_end_def merge_next_def)
  obtain a where c: "consec u as a" "nd_seq n = a" "a \<le> nd_nxt n" "nd_seq m = nd_nxt n + 1"
    "nd_seq m \<le> nd_nxt m" "consec (nd_nxt m + 1) bs t"
    using assms(1) e(3,4) by (auto simp: sb_core_def consec_append)
  have m: "nd_flag (merge_next n m) = nd_flag n" "nd_seq (merge_next n m) = nd_seq n"
    "nd_id (merge_next n m) = nd_id n" by (simp_all add: merge_next_def)
  have "consec u (as @ merge_next n m # bs) t" using c e(5) m by (auto simp: consec_append)
  then show "sb_core u t (as @ merge_next n m # bs) s"
    using assms(1) e m c(4) by (simp add: sb_core_def length_end)
  show "packets_of f (merge_next n m # bs) = packets_of f (n # m # bs)"
    using e c by (auto simp: merge_next_def)
  show "get_end (merge_next n m) = get_end m" using e by simp
qed

text \<open>Extending the list.\<close>

lemma core_extend:
  assumes "sb_core u t ns s" and "t \<le> e"
  shows "sb_core u (e + 1) (ns @ [new_node (sb_fresh s) t e SKB_INFLIGHT]) (s\<lparr>sb_fresh := sb_fresh s + 1\<rparr>)"
proof -
  have "\<forall>m \<in> set ns. nd_id m \<noteq> sb_fresh s" by (rule core_fresh [OF assms(1)])
  with assms show ?thesis
    by (auto simp: sb_core_def consec_append new_node_def get_end_def less_Suc_eq)
qed

section \<open>The cumulative acknowledgment\<close>

lemma discount_ok:
  assumes "sb_core u t (n # ns) s" and "k \<le> get_length n"
  shows "discount (nd_flag n) k s
    = Some (s\<lparr>fack_out := fack_out s - (if nd_flag n = SKB_LOST then k else 0),
              sack_out := sack_out s - (if nd_flag n = SKB_SACKED then k else 0)\<rparr>)"
proof -
  have c: "consec (get_end n + 1) ns t" using assms(1) by (simp add: sb_core_def)
  have "0 \<le> count_pkts f ns" for f by (rule count_nonneg [OF c])
  from this [of SKB_LOST] this [of SKB_SACKED] have
    "nd_flag n = SKB_LOST \<Longrightarrow> k \<le> fack_out s" "nd_flag n = SKB_SACKED \<Longrightarrow> k \<le> sack_out s"
    using assms by (auto simp: sb_core_def)
  then show ?thesis by (cases s) (auto simp: discount_def split: skb_flag.split)
qed

lemma pkts_after: "consec b ns t \<Longrightarrow> a < b \<Longrightarrow> packets_of f ns \<inter> {a<..} = packets_of f ns"
  using pkts_bounds [of b ns t f] by auto

lemma clean_loop_ok:
  assumes "sb_core u t ns s" and "\<forall>i. nxt_to_retrx s = Some i \<longrightarrow> i \<in> nd_id ` set ns" and "u \<le> a + 1"
  shows "\<exists>c' fl' s'. clean_loop a ns c fl s = Some (c', fl', s') \<and> sb_ok (a + 1) (max t (a + 1)) s'
    \<and> (\<forall>f. packets_of f (sb_nodes s') = packets_of f ns \<inter> {a<..}) \<and> fack s' = fack s"
  using assms
proof (induction ns arbitrary: u s c fl)
  case Nil
  then show ?case by (auto simp: sb_ok_def sb_core_def)
next
  case (Cons n ns)
  have n: "nd_seq n = u" "u \<le> get_end n" "consec (get_end n + 1) ns t"
    using Cons.prems(1) by (auto simp: sb_core_def)
  have t: "get_end n + 1 \<le> t" by (rule consec_le [OF n(3)])
  show ?case
  proof (cases "a < u")
    case True
    with Cons.prems(3) have u: "u = a + 1" by simp
    have "packets_of f (n # ns) \<inter> {a<..} = packets_of f (n # ns)" for f
      using Cons.prems(1) u by (intro pkts_after) (auto simp: sb_core_def)
    with True u n t Cons.prems show ?thesis
      by (simp add: should_clean_def sb_ok_def sb_core_def max_absorb1)
  next
    case False
    show ?thesis
    proof (cases "get_end n \<le> a")
      case True
      then have cmp: "should_clean a n = - 1" using False n by (auto simp: should_clean_def get_end_def split: if_splits)
      let ?s = "s\<lparr>fack_out := fack_out s - (if nd_flag n = SKB_LOST then get_length n else 0),
              sack_out := sack_out s - (if nd_flag n = SKB_SACKED then get_length n else 0)\<rparr>"
      define r where "r = (if nd_flag n = SKB_RETRANSMITTED
            then if acked_rtx_id ?s < nd_retran n
                 then (True, fl OR FLAG_UNSURE_TSTAMP, ?s\<lparr>acked_rtx_id := nd_retran n\<rparr>)
                 else (c, fl OR FLAG_UNSURE_TSTAMP, ?s)
            else (c, fl, ?s))"
      obtain c1 fl1 s1 where r1: "r = (c1, fl1, s1)" by (cases r)
      define s2 where "s2 = (if nxt_to_retrx s1 = Some (nd_id n)
                then s1\<lparr>nxt_to_retrx := (case ns of [] \<Rightarrow> None | m # _ \<Rightarrow> Some (nd_id m))\<rparr> else s1)"
      have eq: "clean_loop a (n # ns) c fl s = clean_loop a ns c1 fl1 s2"
        using discount_ok [OF Cons.prems(1) order_refl] r1
        by (simp add: cmp r_def [symmetric] s2_def Let_def del: One_nat_def)
      have s1: "fack_out s1 = fack_out ?s" "sack_out s1 = sack_out ?s" "sb_fresh s1 = sb_fresh s"
        "nxt_to_retrx s1 = nxt_to_retrx s" "fack s1 = fack s"
        using r1 by (auto simp: r_def split: if_splits)
      have "sb_core (get_end n + 1) t ns s2"
        using Cons.prems(1) s1 by (auto simp: sb_core_def s2_def)
      moreover have "\<forall>i. nxt_to_retrx s2 = Some i \<longrightarrow> i \<in> nd_id ` set ns"
        using Cons.prems(2) s1(4) by (cases "nxt_to_retrx s"; cases ns) (auto simp: s2_def)
      moreover have "get_end n + 1 \<le> a + 1" using True by simp
      ultimately obtain c' fl' s' where IH: "clean_loop a ns c1 fl1 s2 = Some (c', fl', s')"
        "sb_ok (a + 1) (max t (a + 1)) s'" "\<forall>f. packets_of f (sb_nodes s') = packets_of f ns \<inter> {a<..}"
        "fack s' = fack s2" using Cons.IH by blast
      have "packets_of f (n # ns) \<inter> {a<..} = packets_of f ns \<inter> {a<..}" for f using True by auto
      with IH s1(5) show ?thesis unfolding eq by (auto simp: s2_def)
    next
      case ge: False
      then have cmp: "should_clean a n = a + 1 - nd_seq n" and rt: "nd_flag n \<noteq> SKB_RETRANSMITTED"
        and e: "get_end n = nd_nxt n"
        using False n by (auto simp: should_clean_def get_end_def split: if_splits)
      let ?k = "a + 1 - nd_seq n"
      let ?n = "n\<lparr>nd_seq := a + 1\<rparr>"
      let ?s = "s\<lparr>fack_out := fack_out s - (if nd_flag n = SKB_LOST then ?k else 0),
              sack_out := sack_out s - (if nd_flag n = SKB_SACKED then ?k else 0)\<rparr>"
      have k: "0 < ?k" "?k \<le> get_length n" using False ge n by (simp_all add: length_end)
      have eq: "clean_loop a (n # ns) c fl s = Some (c, fl, ?s\<lparr>sb_nodes := ?n # ns\<rparr>)"
        using discount_ok [OF Cons.prems(1) k(2)] k(1) by (simp add: cmp)
      have e': "get_end ?n = get_end n" using rt by (simp add: get_end_def)
      have "sb_core (a + 1) t (?n # ns) (?s\<lparr>sb_nodes := ?n # ns\<rparr>)"
        using Cons.prems(1) ge e' n by (auto simp: sb_core_def length_end)
      moreover have "\<forall>i. nxt_to_retrx s = Some i \<longrightarrow> i \<in> nd_id ` set (?n # ns)"
        using Cons.prems(2) by simp
      moreover have "packets_of f (?n # ns) = packets_of f (n # ns) \<inter> {a<..}" for f
      proof -
        have "packets_of f ns \<inter> {a<..} = packets_of f ns" using ge by (intro pkts_after [OF n(3)]) simp
        moreover have "{nd_seq n..get_end n} \<inter> {a<..} = {a + 1..get_end n}" using False n(1) by auto
        ultimately show ?thesis by (simp add: e' Int_Un_distrib2)
      qed
      ultimately show ?thesis unfolding eq using ge t by (simp add: sb_ok_def max_absorb1)
    qed
  qed
qed

lemma clean_rtx_queue_ok:
  assumes "sb_ok u t s" and "u \<le> a + 1"
  shows "\<exists>c fl s'. clean_rtx_queue a s = Some (c, fl, s') \<and> sb_ok (a + 1) (max t (a + 1)) s'
    \<and> (\<forall>f. packets_of f (sb_nodes s') = packets_of f (sb_nodes s) \<inter> {a<..}) \<and> fack s' = fack s"
  unfolding clean_rtx_queue_def
  using assms by (intro clean_loop_ok [of u]) (simp_all add: sb_ok_def)

section \<open>Retransmissions\<close>

lemma nodes_from_split:
  assumes "i \<in> nd_id ` set ns"
  shows "\<exists>n bs. nodes_from i ns = n # bs \<and> nd_id n = i
    \<and> ns = takeWhile (\<lambda>m. nd_id m \<noteq> i) ns @ n # bs"
proof -
  have "nodes_from i ns \<noteq> []" using assms by (auto simp: nodes_from_def dropWhile_eq_Nil_conv)
  then obtain n bs where n: "nodes_from i ns = n # bs" by (cases "nodes_from i ns") auto
  then have "nd_id n = i"
    using hd_dropWhile [of "\<lambda>m. nd_id m \<noteq> i" ns] by (simp add: nodes_from_def)
  moreover have "ns = takeWhile (\<lambda>m. nd_id m \<noteq> i) ns @ nodes_from i ns"
    by (simp add: nodes_from_def)
  ultimately show ?thesis using n by metis
qed

lemma pkts_nil_iff: "consec a ns b \<Longrightarrow> packets_of f ns = {} \<longleftrightarrow> (\<forall>n \<in> set ns. nd_flag n \<noteq> f)"
  by (induction ns arbitrary: a) auto

text \<open>No lost packet lies before the pointer.\<close>

definition first_ptr :: "nat option \<Rightarrow> sb_node list \<Rightarrow> bool" where
  "first_ptr i ns \<longleftrightarrow> (\<forall>n \<in> set (takeWhile (\<lambda>m. Some (nd_id m) \<noteq> i) ns). nd_flag n \<noteq> SKB_LOST)"

lemma first_ptr_None: "first_ptr None ns \<longleftrightarrow> (\<forall>n \<in> set ns. nd_flag n \<noteq> SKB_LOST)"
  by (induction ns) (auto simp: first_ptr_def)

lemma first_ptr_Cons: "first_ptr i (n # ns) \<longleftrightarrow> i = Some (nd_id n) \<or> nd_flag n \<noteq> SKB_LOST \<and> first_ptr i ns"
  by (auto simp: first_ptr_def)

lemma first_ptr_append: "i \<in> nd_id ` set xs \<Longrightarrow> first_ptr (Some i) (xs @ ys) \<longleftrightarrow> first_ptr (Some i) xs"
  by (induction xs) (auto simp: first_ptr_Cons)

lemma first_ptr_snoc:
  "first_ptr i xs \<Longrightarrow> \<forall>k. i = Some k \<longrightarrow> k \<in> nd_id ` set xs \<Longrightarrow> nd_flag y \<noteq> SKB_LOST \<or> i \<noteq> None
    \<Longrightarrow> first_ptr i (xs @ [y])"
  by (cases i) (auto simp: first_ptr_None first_ptr_append)

lemma first_ptr_new: "first_ptr None xs \<Longrightarrow> first_ptr (Some (nd_id y)) (xs @ y # ys)"
  by (induction xs) (auto simp: first_ptr_Cons)

lemma first_ptr_replace:
  "nd_id q = nd_id p \<Longrightarrow> nd_flag q = nd_flag p \<Longrightarrow> first_ptr i (xs @ q # ys) \<longleftrightarrow> first_ptr i (xs @ p # ys)"
  by (induction xs) (auto simp: first_ptr_Cons)

text \<open>
  The next retransmission: a lost packet at or after the pointer, none of them before it; no
  lost packet from the pointer on if the answer is -1.
\<close>

lemma get_next_retran_ok:
  assumes "sb_ok u t s" and "0 \<le> u"
  shows "\<exists>q s'. get_next_retran s = Some (q, s') \<and> sb_ok u t s' \<and> sb_nodes s' = sb_nodes s
    \<and> fack_out s' = fack_out s \<and> sack_out s' = sack_out s
    \<and> (if q = - 1 then nxt_to_retrx s' = None
       else q \<in> packets_of SKB_LOST (sb_nodes s)
         \<and> (\<exists>n. nxt_to_retrx s' = Some (nd_id n) \<and> n \<in> set (sb_nodes s) \<and> nd_flag n = SKB_LOST \<and> nd_seq n = q))"
proof (cases "nxt_to_retrx s")
  case None
  with assms show ?thesis by (simp add: get_next_retran_def)
next
  case (Some i)
  with assms(1) have "i \<in> nd_id ` set (sb_nodes s)" by (simp add: sb_ok_def)
  from nodes_from_split [OF this] obtain n0 bs where
    n0: "nodes_from i (sb_nodes s) = n0 # bs" by blast
  have c: "consec u (sb_nodes s) t" using assms(1) by (simp add: sb_ok_def sb_core_def)
  show ?thesis
  proof (cases "dropWhile (\<lambda>n. nd_flag n \<noteq> SKB_LOST) (nodes_from i (sb_nodes s))")
    case Nil
    with n0 Some assms show ?thesis by (simp add: get_next_retran_def sb_ok_def sb_core_def)
  next
    case (Cons n ns)
    have l: "nd_flag n = SKB_LOST"
      using hd_dropWhile [of "\<lambda>n. nd_flag n \<noteq> SKB_LOST" "nodes_from i (sb_nodes s)"]
      unfolding Cons by simp
    have "n \<in> set (nodes_from i (sb_nodes s))" using Cons by (metis list.set_intros(1) set_dropWhileD)
    then have n: "n \<in> set (sb_nodes s)" unfolding nodes_from_def by (rule set_dropWhileD)
    then obtain as bs where "sb_nodes s = as @ n # bs" by (meson split_list)
    with c obtain a where ca: "consec u as a" "nd_seq n = a" "a \<le> get_end n" by (auto simp: consec_append)
    then have "u \<le> nd_seq n" "nd_seq n \<in> packets_of SKB_LOST (sb_nodes s)"
      using \<open>sb_nodes s = as @ n # bs\<close> l by (auto dest: consec_le)
    with Some n0 Cons l n assms show ?thesis
      by (auto simp: get_next_retran_def sb_ok_def sb_core_def)
  qed
qed

lemma get_next_retran_frame:
  assumes "get_next_retran s = Some (q, s')"
  shows "s' = s\<lparr>nxt_to_retrx := nxt_to_retrx s'\<rparr>"
  using assms by (auto simp: get_next_retran_def split: option.splits if_splits list.splits)

text \<open>With no lost packet before the pointer it is the first lost one.\<close>

lemma get_next_first:
  assumes "sb_ok u t s" and "first_ptr (nxt_to_retrx s) (sb_nodes s)"
    and "get_next_retran s = Some (q, s')"
  shows "first_ptr (nxt_to_retrx s') (sb_nodes s)"
    and "q = (if packets_of SKB_LOST (sb_nodes s) = {} then - 1 else Min (packets_of SKB_LOST (sb_nodes s)))"
proof -
  let ?L = "packets_of SKB_LOST (sb_nodes s)"
  have c: "consec u (sb_nodes s) t" using assms(1) by (simp add: sb_ok_def sb_core_def)
  have "first_ptr (nxt_to_retrx s') (sb_nodes s) \<and> q = (if ?L = {} then - 1 else Min ?L)"
  proof (cases "nxt_to_retrx s")
    case None
    with assms(2,3) pkts_nil_iff [OF c] show ?thesis by (auto simp: get_next_retran_def first_ptr_None)
  next
    case (Some i)
    let ?pre = "takeWhile (\<lambda>m. nd_id m \<noteq> i) (sb_nodes s)" and ?post = "nodes_from i (sb_nodes s)"
    let ?skip = "takeWhile (\<lambda>n. nd_flag n \<noteq> SKB_LOST) ?post"
    have ns: "sb_nodes s = ?pre @ ?post" by (simp add: nodes_from_def)
    have pre: "\<forall>n \<in> set ?pre. nd_flag n \<noteq> SKB_LOST" using assms(2) Some by (simp add: first_ptr_def)
    have skip: "\<forall>n \<in> set ?skip. nd_flag n \<noteq> SKB_LOST" using set_takeWhileD by fast
    have pne: "?post \<noteq> []" using assms(3) Some by (auto simp: get_next_retran_def)
    show ?thesis
    proof (cases "dropWhile (\<lambda>n. nd_flag n \<noteq> SKB_LOST) ?post")
      case Nil
      then have "\<forall>n \<in> set ?post. nd_flag n \<noteq> SKB_LOST" by (simp add: dropWhile_eq_Nil_conv)
      then have all: "\<forall>n \<in> set (sb_nodes s). nd_flag n \<noteq> SKB_LOST" using pre ns by (metis Un_iff set_append)
      moreover have "q = - 1 \<and> nxt_to_retrx s' = None"
        using assms(3) Some Nil pne by (auto simp: get_next_retran_def)
      ultimately show ?thesis using pkts_nil_iff [OF c] by (simp add: first_ptr_None)
    next
      case (Cons n bs)
      have l: "nd_flag n = SKB_LOST"
        using hd_dropWhile [of "\<lambda>n. nd_flag n \<noteq> SKB_LOST" ?post] unfolding Cons by simp
      have "?post = ?skip @ n # bs" using takeWhile_dropWhile_id [of "\<lambda>n. nd_flag n \<noteq> SKB_LOST" ?post] Cons by simp
      then have dec: "sb_nodes s = (?pre @ ?skip) @ n # bs" using ns by simp
      define as where "as = ?pre @ ?skip"
      have ns': "sb_nodes s = as @ n # bs" unfolding as_def by (rule dec)
      have as: "\<forall>m \<in> set as. nd_flag m \<noteq> SKB_LOST" using pre skip by (auto simp: as_def)
      obtain a where ca: "consec u as a" "nd_seq n = a" "a \<le> get_end n" "consec (get_end n + 1) bs t"
        using c unfolding ns' by (auto simp: consec_append)
      have "packets_of SKB_LOST as = {}" using as pkts_nil_iff [OF ca(1)] by simp
      then have L: "?L = {a..get_end n} \<union> packets_of SKB_LOST bs" using l ca(2) unfolding ns' by simp
      have "Min ?L = a"
        using pkts_bounds [OF ca(4), of SKB_LOST] count_card(2) [OF ca(4), of SKB_LOST] ca(3) unfolding L
        by (intro Min_eqI) auto
      moreover have "q = a \<and> nxt_to_retrx s' = Some (nd_id n)"
        using assms(3) Some Cons pne ca(2) by (auto simp: get_next_retran_def)
      moreover have "first_ptr (Some (nd_id n)) (sb_nodes s)"
        using first_ptr_new [of as n bs] as unfolding ns' by (simp add: first_ptr_None)
      moreover have "?L \<noteq> {}" using L ca(3) by auto
      ultimately show ?thesis by simp
    qed
  qed
  then show "first_ptr (nxt_to_retrx s') (sb_nodes s)" "q = (if ?L = {} then - 1 else Min ?L)" by blast+
qed

text \<open>Retransmitting the packet that \<open>GetNextRetran\<close> gave never fails an assertion.\<close>

lemma mark_retran_ok:
  assumes "sb_ok u t s" and "nxt_to_retrx s = Some (nd_id n)" and "n \<in> set (sb_nodes s)"
    and "nd_flag n = SKB_LOST" and "nd_seq n = q"
  shows "\<exists>s'. mark_retran q nxt s = Some s' \<and> sb_ok u t s'
    \<and> packets_of SKB_LOST (sb_nodes s') = packets_of SKB_LOST (sb_nodes s) - {q}
    \<and> packets_of SKB_RETRANSMITTED (sb_nodes s') = insert q (packets_of SKB_RETRANSMITTED (sb_nodes s))
    \<and> packets_of SKB_SACKED (sb_nodes s') = packets_of SKB_SACKED (sb_nodes s)
    \<and> sb_packets_in_flight u nxt s' = sb_packets_in_flight u nxt s + 1
    \<and> fack s' = fack s \<and> sb_nodes s' \<noteq> [] \<and> nxt_to_retrx s' = nxt_to_retrx s
    \<and> (first_ptr (nxt_to_retrx s) (sb_nodes s) \<longrightarrow> first_ptr (nxt_to_retrx s') (sb_nodes s'))"
proof -
  let ?i = "nd_id n"
  let ?as = "takeWhile (\<lambda>m. nd_id m \<noteq> ?i) (sb_nodes s)"
  have core: "sb_core u t (sb_nodes s) s" using assms(1) by (simp add: sb_ok_def)
  from nodes_from_split [of ?i "sb_nodes s"] assms(3) obtain m bs where
    m: "nodes_from ?i (sb_nodes s) = m # bs" "nd_id m = ?i" "sb_nodes s = ?as @ m # bs" by auto
  have "m = n"
  proof -
    have "inj_on nd_id (set (sb_nodes s))" using core by (simp add: sb_core_def distinct_map)
    moreover have "m \<in> set (sb_nodes s)" by (subst m(3)) simp
    ultimately show ?thesis using m(2) assms(3) by (auto dest: inj_onD)
  qed
  note m = m [unfolded this]
  define as where "as = ?as"
  have ns: "sb_nodes s = as @ n # bs" unfolding as_def by (rule m(3))
  have cn: "sb_core u t (as @ n # bs) s" using core ns by simp
  then obtain a where c: "consec u as a" "q = a" "a \<le> nd_nxt n" "consec (nd_nxt n + 1) bs t"
    using assms(4,5) by (auto simp: sb_core_def consec_append get_end_def)
  have e: "get_end n = nd_nxt n" using assms(4) by (simp add: get_end_def)
  have pos: "1 \<le> fack_out s"
  proof -
    have "0 \<le> count_pkts SKB_LOST as" "0 \<le> count_pkts SKB_LOST bs"
      using count_nonneg [OF c(1)] count_nonneg [OF c(4)] by auto
    with cn c assms(4,5) e show ?thesis by (simp add: sb_core_def length_end)
  qed
  have ins: "inside q n" using assms(4,5) c by (simp add: inside_def)
  show ?thesis
  proof (cases "nd_seq n < nd_nxt n")
    case True
    let ?lo = "split_low (q + 1) n" and ?hi = "split_high (sb_fresh s) (q + 1) n"
    let ?n = "node_mark_retran nxt (rtx_id s) ?lo"
    let ?s = "s\<lparr>sb_fresh := sb_fresh s + 1\<rparr>"
    have sp: "sb_core u t (as @ ?lo # ?hi # bs) ?s" "packets_of f (?lo # ?hi # bs) = packets_of f (n # bs)" for f
      using core_split [OF cn, of "q + 1"] True assms(4,5) by simp_all
    define s' where "s' = s\<lparr>fack_out := fack_out s - 1, sb_fresh := sb_fresh s + 1,
      sb_nodes := as @ ?n # ?hi # bs, rtx_id := rtx_id s + 1, last_rtx_seq := q\<rparr>"
    have eq: "mark_retran q nxt s = Some s'"
      using m(1) assms(2,5) ins pos True by (simp add: mark_retran_def as_def s'_def Let_def)
    have lo: "get_end ?lo = q" "nd_seq ?lo = q" "get_length ?lo = 1" "nd_flag ?lo = SKB_LOST"
      using assms(4,5) by (simp_all add: split_low_def get_end_def length_end)
    have "sb_core u t (as @ ?n # ?hi # bs) s'"
      using lo assms(5) by (intro core_replace [OF sp(1)])
        (simp_all add: node_mark_retran_def get_end_def s'_def split_low_def)
    then have "sb_ok u t s'"
      using assms(2) by (auto simp: sb_ok_def s'_def node_mark_retran_def split_low_def)
    moreover have "packets_of f (?hi # bs) = (if f = SKB_LOST then packets_of f (n # bs) - {q} else packets_of f (n # bs))" for f
      using c(4) pkts_bounds [OF c(4), of f] True assms(4,5)
      by (auto simp: split_high_def new_node_def get_end_def)
    moreover have "q \<notin> packets_of f as" for f using pkts_bounds [OF c(1), of f] c(2) by auto
    moreover have "first_ptr (Some ?i) (as @ ?n # ?hi # bs) \<longleftrightarrow> first_ptr (Some ?i) (as @ n # bs)"
      by (induction as) (auto simp: first_ptr_Cons node_mark_retran_def split_low_def)
    ultimately show ?thesis using eq ns lo(2) assms(2,4)
      by (auto simp: s'_def node_mark_retran_def get_end_def split_low_def sb_packets_in_flight_def)
  next
    case False
    then have one: "nd_nxt n = q" using c assms(5) by simp
    let ?n = "node_mark_retran nxt (rtx_id s) n"
    define s' where "s' = s\<lparr>fack_out := fack_out s - 1,
      sb_nodes := as @ ?n # bs, rtx_id := rtx_id s + 1, last_rtx_seq := q\<rparr>"
    have eq: "mark_retran q nxt s = Some s'"
      using m(1) assms(2,5) ins pos False by (simp add: mark_retran_def as_def s'_def Let_def)
    have "sb_core u t (as @ ?n # bs) s'"
      using assms(4,5) one by (intro core_replace [OF cn])
        (simp_all add: node_mark_retran_def get_end_def s'_def length_end)
    then have "sb_ok u t s'"
      using assms(2) by (auto simp: sb_ok_def s'_def node_mark_retran_def)
    moreover have "q \<notin> packets_of f bs" "q \<notin> packets_of f as" for f
      using pkts_bounds [OF c(1), of f] pkts_bounds [OF c(4), of f] c(2) one by auto
    moreover have "first_ptr (Some ?i) (as @ ?n # bs) \<longleftrightarrow> first_ptr (Some ?i) (as @ n # bs)"
      by (induction as) (auto simp: first_ptr_Cons node_mark_retran_def)
    ultimately show ?thesis using eq ns assms(2,4,5) one
      by (auto simp: s'_def node_mark_retran_def get_end_def sb_packets_in_flight_def)
  qed
qed

section \<open>Timeouts\<close>

text \<open>The state of the loop of \<open>MarkLoss\<close>: what lies behind is acknowledged or lost.\<close>

definition ml_inv ::
  "int \<Rightarrow> int \<Rightarrow> int \<Rightarrow> int set \<Rightarrow> sb_node list \<Rightarrow> sb_node list \<times> bool \<times> scoreboard \<Rightarrow> bool" where
  "ml_inv u t F S todo = (\<lambda>(ds, last_lost, s). sb_core u t (rev ds @ todo) s
     \<and> (\<forall>n \<in> set ds. nd_flag n = SKB_SACKED \<or> nd_flag n = SKB_LOST)
     \<and> (last_lost \<longleftrightarrow> ds \<noteq> [] \<and> nd_flag (hd ds) = SKB_LOST)
     \<and> (\<forall>i. nxt_to_retrx s = Some i \<longrightarrow> i \<in> nd_id ` set ds) \<and> first_ptr (nxt_to_retrx s) (rev ds)
     \<and> fack s = F \<and> packets_of SKB_SACKED (rev ds @ todo) = S)"

lemma set_flag_sel:
  "nd_flag (set_flag f n) = f" "nd_id (set_flag f n) = nd_id n" "nd_seq (set_flag f n) = nd_seq n"
  "f \<noteq> SKB_RETRANSMITTED \<Longrightarrow> get_end (set_flag f n) = get_end n"
  "f \<noteq> SKB_RETRANSMITTED \<Longrightarrow> get_length (set_flag f n) = get_length n"
  by (simp_all add: set_flag_def get_end_def length_end)

lemma core_set_lost:
  assumes "sb_core u t (as @ n # bs) s" and "nd_flag n \<noteq> SKB_SACKED"
  defines "s' \<equiv> (if nd_flag n \<noteq> SKB_LOST then s\<lparr>fack_out := fack_out s + (get_end n - nd_seq n + 1)\<rparr> else s)"
  shows "sb_core u t (as @ set_flag SKB_LOST n # bs) s'"
  using assms(2) by (intro core_replace [OF assms(1)]) (simp_all add: set_flag_sel s'_def length_end)

lemma core_nxt [simp]: "sb_core u t ns (s\<lparr>nxt_to_retrx := i\<rparr>) = sb_core u t ns s"
  "sb_core u t ns (s\<lparr>sb_nodes := xs\<rparr>) = sb_core u t ns s"
  "sb_core u t ns (s\<lparr>rtx_id := j\<rparr>) = sb_core u t ns s"
  "sb_core u t ns (s\<lparr>acked_rtx_id := j\<rparr>) = sb_core u t ns s"
  "sb_core u t ns (s\<lparr>last_rtx_seq := j\<rparr>) = sb_core u t ns s"
  "sb_core u t ns (s\<lparr>fack := j\<rparr>) = sb_core u t ns s"
  by (simp_all add: sb_core_def)

lemma mark_loss_node_ok:
  assumes "ml_inv u t F S (now # todo) c"
  shows "\<exists>ds ll s. mark_loss_node now c = (ds, ll, s) \<and> ml_inv u t F S todo (ds, ll, s) \<and> ds \<noteq> []
    \<and> get_end (hd ds) = get_end now"
proof -
  obtain ds ll s where c: "c = (ds, ll, s)" by (cases c)
  from assms have core: "sb_core u t (rev ds @ now # todo) s"
    and fl: "\<forall>n \<in> set ds. nd_flag n = SKB_SACKED \<or> nd_flag n = SKB_LOST"
    and ll: "ll \<longleftrightarrow> ds \<noteq> [] \<and> nd_flag (hd ds) = SKB_LOST"
    and nx: "\<forall>i. nxt_to_retrx s = Some i \<longrightarrow> i \<in> nd_id ` set ds"
    and S: "packets_of SKB_SACKED (rev ds @ now # todo) = S" and F: "fack s = F" and fp: "first_ptr (nxt_to_retrx s) (rev ds)"
    by (auto simp: ml_inv_def c)
  show ?thesis
  proof (cases "nd_flag now = SKB_SACKED")
    case True
    have "first_ptr (nxt_to_retrx s) (rev ds @ [now])" using fp nx True by (intro first_ptr_snoc) auto
    with True core fl nx S F show ?thesis by (auto simp: mark_loss_node_def c ml_inv_def)
  next
    case False
    define s1 where "s1 = (if nd_flag now \<noteq> SKB_LOST
      then s\<lparr>fack_out := fack_out s + (get_end now - nd_seq now + 1)\<rparr> else s)"
    let ?now = "set_flag SKB_LOST now"
    have c1: "sb_core u t (rev ds @ ?now # todo) s1"
      using core_set_lost [OF core False] by (simp add: s1_def)
    have nx1: "nxt_to_retrx s1 = nxt_to_retrx s" "fack s1 = F" using F by (simp_all add: s1_def)
    have S1: "packets_of SKB_SACKED (rev ds @ ?now # todo) = S" using S False by (auto simp: set_flag_sel)
    show ?thesis
    proof (cases ll)
      case True
      then obtain prev ds' where ds: "ds = prev # ds'" "nd_flag prev = SKB_LOST"
        using ll by (cases ds) auto
      have mg: "mergable prev ?now" using ds(2) by (simp add: mergable_def set_flag_sel)
      have "sb_core u t (rev ds' @ prev # ?now # todo) s1" using c1 by (simp add: ds)
      note cm = core_merge [OF this mg]
      have ms: "nd_flag (merge_next prev ?now) = SKB_LOST" "nd_id (merge_next prev ?now) = nd_id prev"
        using ds(2) by (simp_all add: merge_next_def)
      have pk: "packets_of SKB_SACKED (rev ds') \<union> packets_of SKB_SACKED (merge_next prev ?now # todo) = S"
        using S1 unfolding cm(2) by (simp add: ds(1))
      have "mark_loss_node now c = (merge_next prev ?now # ds', True, s1)"
        using False True by (simp add: mark_loss_node_def c ds(1) s1_def Let_def)
      moreover have "ml_inv u t F S todo (merge_next prev ?now # ds', True, s1)"
        using cm(1) fl nx nx1 pk ds first_ptr_replace [of "merge_next prev ?now" prev _ _ "[]"] fp
        by (auto simp: ml_inv_def ms)
      moreover have "get_end (merge_next prev ?now) = get_end now"
        using cm(3) by (simp add: set_flag_sel)
      ultimately show ?thesis by auto
    next
      case False2: False
      define s2 where "s2 = (if nxt_to_retrx s1 = None then s1\<lparr>nxt_to_retrx := Some (nd_id ?now)\<rparr> else s1)"
      have "mark_loss_node now c = (?now # ds, True, s2)"
        using False False2 by (auto simp: mark_loss_node_def c s1_def s2_def Let_def split: list.split)
      moreover have "first_ptr (nxt_to_retrx s2) (rev ds @ [?now])"
      proof (cases "nxt_to_retrx s")
        case None
        with fp nx1 first_ptr_new [of "rev ds" ?now "[]"] show ?thesis by (simp add: s2_def)
      next
        case (Some i)
        with fp nx nx1 first_ptr_append [of i "rev ds" "[?now]"] show ?thesis by (simp add: s2_def)
      qed
      then have "ml_inv u t F S todo (?now # ds, True, s2)"
        using c1 fl nx nx1 S1 by (auto simp: ml_inv_def s2_def set_flag_sel)
      ultimately show ?thesis by (auto simp: set_flag_sel)
    qed
  qed
qed

lemma mark_loss_extend:
  assumes "ml_inv u t F S [] (ds, ll, s)" and "t < nxt"
  shows "ml_inv u nxt F S [new_node (sb_fresh s) t (nxt - 1) SKB_INFLIGHT] (ds, ll, s\<lparr>sb_fresh := sb_fresh s + 1\<rparr>)"
  using assms core_extend [of u t "rev ds" s "nxt - 1"] by (auto simp: ml_inv_def new_node_def)

lemma ml_inv_end:
  assumes "ml_inv u t F S [] (ds, ll, s)" and "ds \<noteq> []"
  shows "get_end (hd ds) + 1 = t"
proof -
  obtain d ds' where "ds = d # ds'" using assms(2) by (cases ds) auto
  with assms(1) show ?thesis by (auto simp: ml_inv_def sb_core_def consec_append)
qed

lemma mark_loss_loop_ok:
  assumes "ml_inv u t F S todo c"
  shows "\<exists>ds ll s. mark_loss_loop nxt todo c = Some (rev ds, s)
    \<and> ml_inv u (if todo = [] then t else max t nxt) F S [] (ds, ll, s)"
  using assms
proof (induction todo arbitrary: c)
  case Nil
  then show ?case by (subst mark_loss_loop.simps) (cases c, auto)
next
  case (Cons now todo)
  from mark_loss_node_ok [OF Cons.prems] obtain ds ll s where
    n: "mark_loss_node now c = (ds, ll, s)" "ml_inv u t F S todo (ds, ll, s)" "ds \<noteq> []" by blast
  show ?case
  proof (cases "todo = [] \<and> get_end (hd ds) + 1 < nxt")
    case False
    have eq: "mark_loss_loop nxt (now # todo) c = mark_loss_loop nxt todo (ds, ll, s)"
      using False n(1) by (subst mark_loss_loop.simps) auto
    have "(if todo = [] then t else max t nxt) = max t nxt"
      using False n(2,3) ml_inv_end [of u t F S ds ll s] by auto
    with Cons.IH [OF n(2)] show ?thesis unfolding eq by simp
  next
    case True
    then have t: "get_end (hd ds) + 1 = t" using n(2,3) ml_inv_end by simp
    let ?m = "new_node (sb_fresh s) t (nxt - 1) SKB_INFLIGHT"
    let ?c = "(ds, ll, s\<lparr>sb_fresh := sb_fresh s + 1\<rparr>)"
    have lt: "t < nxt" using True t by simp
    have i: "ml_inv u nxt F S [?m] ?c" using n(2) True lt by (intro mark_loss_extend) auto
    from mark_loss_node_ok [OF this] obtain ds1 ll1 s1 where
      m: "mark_loss_node ?m ?c = (ds1, ll1, s1)" "ml_inv u nxt F S [] (ds1, ll1, s1)" "ds1 \<noteq> []" by blast
    have e: "get_end (hd ds1) + 1 = nxt" by (rule ml_inv_end [OF m(2,3)])
    have "mark_loss_loop nxt (now # todo) c = mark_loss_loop nxt [?m] ?c"
      using True n(1) t by (subst mark_loss_loop.simps) auto
    also have "\<dots> = mark_loss_loop nxt [] (ds1, ll1, s1)"
      using m(1) e by (subst mark_loss_loop.simps) auto
    also have "\<dots> = Some (rev ds1, s1)" by (subst mark_loss_loop.simps) simp
    finally show ?thesis using m(2) lt by (auto simp: max_def)
  qed
qed

text \<open>After a timeout every packet that is not selectively acknowledged is lost.\<close>

lemma mark_loss_ok:
  assumes "sb_ok u t s"
  shows "\<exists>s'. mark_loss u nxt s = Some s' \<and> sb_ok u (max t nxt) s'
    \<and> packets_of SKB_SACKED (sb_nodes s') = packets_of SKB_SACKED (sb_nodes s)
    \<and> packets_of SKB_LOST (sb_nodes s') = {u..<max t nxt} - packets_of SKB_SACKED (sb_nodes s)
    \<and> first_ptr (nxt_to_retrx s') (sb_nodes s') \<and> fack s' = fack s"
proof -
  let ?S = "packets_of SKB_SACKED (sb_nodes s)"
  have ut: "u \<le> t" using assms by (auto simp: sb_ok_def sb_core_def dest: consec_le)
  have "ml_inv u t (fack s) ?S (sb_nodes s) ([], False, s\<lparr>nxt_to_retrx := None\<rparr>)"
    using assms by (simp add: ml_inv_def sb_ok_def first_ptr_def)
  from mark_loss_loop_ok [OF this, of nxt] obtain ds ll s1 where
    l: "mark_loss_loop nxt (sb_nodes s) ([], False, s\<lparr>nxt_to_retrx := None\<rparr>) = Some (rev ds, s1)"
      "ml_inv u (if sb_nodes s = [] then t else max t nxt) (fack s) ?S [] (ds, ll, s1)" by blast
  define s2 where "s2 = (if rev ds = [] \<and> u < nxt
              then (s1\<lparr>sb_nodes := rev ds\<rparr>)\<lparr>sb_nodes := [new_node (sb_fresh s1) u (nxt - 1) SKB_LOST],
                     nxt_to_retrx := Some (sb_fresh s1), sb_fresh := sb_fresh s1 + 1,
                     fack_out := fack_out s1 + (nxt - u)\<rparr>
              else s1\<lparr>sb_nodes := rev ds\<rparr>)"
  have eq: "mark_loss u nxt s = Some (s2\<lparr>rtx_id := 0, acked_rtx_id := - 1\<rparr>)"
    using l(1) by (simp add: mark_loss_def s2_def Let_def)
  have c1: "sb_core u (if sb_nodes s = [] then t else max t nxt) (rev ds) s1"
    and fl: "\<forall>n \<in> set (rev ds). nd_flag n = SKB_SACKED \<or> nd_flag n = SKB_LOST"
    and nx: "\<forall>i. nxt_to_retrx s1 = Some i \<longrightarrow> i \<in> nd_id ` set ds" and S: "packets_of SKB_SACKED (rev ds) = ?S"
    and fp: "first_ptr (nxt_to_retrx s1) (rev ds)" and F: "fack s1 = fack s"
    using l(2) by (auto simp: ml_inv_def)
  have "sb_core u (max t nxt) (sb_nodes s2) s2 \<and> packets_of SKB_SACKED (sb_nodes s2) = ?S
    \<and> (\<forall>n \<in> set (sb_nodes s2). nd_flag n = SKB_SACKED \<or> nd_flag n = SKB_LOST)
    \<and> (\<forall>i. nxt_to_retrx s2 = Some i \<longrightarrow> i \<in> nd_id ` set (sb_nodes s2))
    \<and> first_ptr (nxt_to_retrx s2) (sb_nodes s2) \<and> fack s2 = fack s"
  proof (cases "rev ds = [] \<and> u < nxt")
    case True
    then have "u = (if sb_nodes s = [] then t else max t nxt)" using c1 by (simp add: sb_core_def)
    then have "t = u" "max t nxt = nxt" using True ut by (auto split: if_splits)
    with True c1 S F show ?thesis
      by (auto simp: s2_def sb_core_def new_node_def get_end_def length_end first_ptr_Cons)
  next
    case False
    have "(if sb_nodes s = [] then t else max t nxt) = max t nxt"
    proof (cases "sb_nodes s = []")
      case True
      then have "t = u" using assms by (simp add: sb_ok_def sb_core_def)
      moreover have "rev ds = []" using c1 True \<open>t = u\<close> consec_nil_iff [of u "rev ds" t]
        by (simp add: sb_core_def)
      ultimately show ?thesis using False True by simp
    qed simp
    with False c1 fl nx S fp F show ?thesis by (auto simp: s2_def)
  qed
  note s2 = this
  then have c2: "consec u (sb_nodes s2) (max t nxt)" by (simp add: sb_core_def)
  have "packets_of f (sb_nodes s2) = {}" if "f \<noteq> SKB_SACKED" "f \<noteq> SKB_LOST" for f
    using that s2 pkts_nil_iff [OF c2, of f] by auto
  then have "packets_of SKB_SACKED (sb_nodes s2) \<union> packets_of SKB_LOST (sb_nodes s2) = (\<Union>f. packets_of f (sb_nodes s2))"
    by (auto, metis empty_iff)
  also have "\<dots> = {u..<max t nxt}" by (rule pkts_all [OF c2])
  finally have "packets_of SKB_LOST (sb_nodes s2) = {u..<max t nxt} - packets_of SKB_SACKED (sb_nodes s2)"
    using pkts_disjoint [OF c2, of SKB_SACKED SKB_LOST] by blast
  with s2 show ?thesis unfolding eq by (simp add: sb_ok_def)
qed

section \<open>The packets in flight\<close>

text \<open>
  Under the invariant, what \<open>packets_in_flight\<close> computes from the two counters is a number of packets.
\<close>

lemma in_flight_card:
  assumes "sb_ok u t s" and "t \<le> nxt"
  shows "sb_packets_in_flight u nxt s
    = int (card ({u..<nxt} - packets_of SKB_LOST (sb_nodes s) - packets_of SKB_SACKED (sb_nodes s)))"
proof -
  have c: "consec u (sb_nodes s) t" and f: "fack_out s = count_pkts SKB_LOST (sb_nodes s)"
    "sack_out s = count_pkts SKB_SACKED (sb_nodes s)"
    using assms(1) by (auto simp: sb_ok_def sb_core_def)
  let ?A = "packets_of SKB_LOST (sb_nodes s)" and ?B = "packets_of SKB_SACKED (sb_nodes s)"
  have fin: "finite (?A \<union> ?B)" using count_card(2) [OF c] by simp
  have sub: "?A \<union> ?B \<subseteq> {u..<nxt}"
    using pkts_bounds [OF c, of SKB_LOST] pkts_bounds [OF c, of SKB_SACKED] assms(2) by auto
  have "card (?A \<union> ?B) = card ?A + card ?B"
    using count_card(2) [OF c] pkts_disjoint [OF c] by (intro card_Un_disjoint) auto
  moreover have "card ({u..<nxt} - ?A - ?B) = card {u..<nxt} - card (?A \<union> ?B)"
    using card_Diff_subset [OF fin sub] by (simp add: Diff_Un set_diff_eq Int_def conj_ac)
  moreover have "card (?A \<union> ?B) \<le> card {u..<nxt}" using sub by (intro card_mono) auto
  moreover have "int (card {u..<nxt}) = nxt - u" using consec_le [OF c] assms(2) by simp
  ultimately show ?thesis
    by (simp add: sb_packets_in_flight_def f count_card(1) [OF c] of_nat_diff)
qed

definition sample_board :: scoreboard where
  "sample_board = \<lparr> sb_nodes = [new_node 0 1 4 SKB_LOST, new_node 1 5 8 SKB_SACKED],
     nxt_to_retrx = Some 0, acked_rtx_id = - 1, rtx_id = 0, fack = 8, fack_out = 4, sack_out = 4,
     last_rtx_seq = - 1, sb_fresh = 2 \<rparr>"

lemma sample_board_ok: "sb_ok 1 9 sample_board"
  by (simp add: sb_ok_def sb_core_def sample_board_def new_node_def get_end_def get_length_def)

end
