(* ===== verification/Scoreboard_Update.thy ===== *)
theory Scoreboard_Update
  imports Scoreboard_Inv
begin

text \<open>
  The traversal of \<open>UpdateScoreBoard\<close> (scoreboard1.cc): it ends, keeps the invariant of
  Scoreboard_Inv, and marks as acknowledged exactly the packets of the selective acknowledgments.
\<close>

section \<open>Blocks\<close>

definition blocks :: "sack list \<Rightarrow> int set" where
  "blocks bs = (\<Union>b \<in> set bs. {fst b..<snd b})"

lemma blocks_simps [simp]: "blocks [] = {}" "blocks (b # bs) = {fst b..<snd b} \<union> blocks bs"
  by (simp_all add: blocks_def)

lemma set_insert_sack [simp]: "set (insert_sack b bs) = insert b (set bs)"
proof -
  let ?P = "\<lambda>c::sack. fst c > fst b"
  have "set (takeWhile ?P (rev bs)) \<union> set (dropWhile ?P (rev bs)) = set bs"
    by (metis set_append set_rev takeWhile_dropWhile_id)
  then show ?thesis by (simp add: insert_sack_def Un_commute)
qed

lemma sorted_insert_sack:
  assumes "sorted (map fst bs)"
  shows "sorted (map fst (insert_sack b bs))"
proof -
  let ?P = "\<lambda>c::sack. fst c > fst b"
  let ?hi = "takeWhile ?P (rev bs)" and ?lo = "dropWhile ?P (rev bs)"
  have split: "bs = rev ?lo @ rev ?hi" by (metis rev_append rev_rev_ident takeWhile_dropWhile_id)
  have s: "sorted (map fst (rev ?lo @ rev ?hi))" using assms unfolding split [symmetric] .
  have hi: "\<forall>c \<in> set ?hi. fst b \<le> fst c" by (auto dest: set_takeWhileD)
  have lo: "\<forall>c \<in> set ?lo. fst c \<le> fst b"
  proof (cases ?lo)
    case (Cons c cs)
    have "fst c \<le> fst b" using hd_dropWhile [of ?P "rev bs"] unfolding Cons by simp
    moreover have "\<forall>x \<in> set cs. fst x \<le> fst c"
      using s unfolding Cons by (auto simp: sorted_append)
    ultimately show ?thesis unfolding Cons by auto
  next
    case Nil
    show ?thesis unfolding Nil by simp
  qed
  have "insert_sack b bs = rev ?lo @ b # rev ?hi" by (simp add: insert_sack_def)
  with s hi lo show ?thesis by (auto simp: sorted_append)
qed

lemma sort_sacks_ok:
  "sorted (map fst (sort_sacks a bs)) \<and> set (sort_sacks a bs) = {b \<in> set bs. a \<le> fst b}"
proof -
  have "sorted (map fst acc) \<Longrightarrow>
    sorted (map fst (fold (\<lambda>b acc. if a \<le> fst b then insert_sack b acc else acc) bs acc))
    \<and> set (fold (\<lambda>b acc. if a \<le> fst b then insert_sack b acc else acc) bs acc)
      = {b \<in> set bs. a \<le> fst b} \<union> set acc" for acc
  proof (induction bs arbitrary: acc)
    case (Cons b bs)
    show ?case
    proof (cases "a \<le> fst b")
      case True
      with Cons.IH [OF sorted_insert_sack [OF Cons.prems, of b]] show ?thesis by auto
    next
      case False
      with Cons show ?thesis by auto
    qed
  qed simp
  from this [of "[]"] show ?thesis by (simp add: sort_sacks_def)
qed

section \<open>A node in hand\<close>

text \<open>The state of the traversal with the nodes \<open>ns\<close> taken from the list.\<close>

definition pass_core :: "int \<Rightarrow> int \<Rightarrow> int \<Rightarrow> sb_node list \<Rightarrow> sb_pass \<Rightarrow> bool" where
  "pass_core u t F ns p \<longleftrightarrow> sb_core u t (rev (ps_done p) @ ns @ ps_todo p) (ps_sb p)
     \<and> fack (ps_sb p) = F
     \<and> (\<forall>i. nxt_to_retrx (ps_sb p) = Some i \<longrightarrow> i \<in> nd_id ` set (ps_done p @ ns))
     \<and> (nxt_to_retrx (ps_sb p) = None \<longrightarrow> (\<forall>n \<in> set (ps_done p). nd_flag n \<noteq> SKB_LOST))"

definition same_done :: "sb_pass \<Rightarrow> sb_pass \<Rightarrow> bool" where
  "same_done p q \<longleftrightarrow> ps_done q = ps_done p \<and> ps_sacks q = ps_sacks p"

lemma pass_split_ok:
  assumes "pass_core u t F [n] p" and "nd_flag n \<noteq> SKB_RETRANSMITTED" and "nd_seq n < q" and "q \<le> nd_nxt n"
    and "pass_split q n p = (n', p')"
  shows "pass_core u t F [n'] p'" and "same_done p p'"
    and "packets_of f (n' # ps_todo p') = packets_of f (n # ps_todo p)"
    and "nd_seq n' = nd_seq n" and "get_end n' = q - 1" and "nd_flag n' = nd_flag n"
    and "nxt_to_retrx (ps_sb p') = nxt_to_retrx (ps_sb p)" and "nd_id n' = nd_id n"
proof -
  let ?s = "ps_sb p"
  have eq: "n' = split_low q n"
    "p' = p\<lparr>ps_todo := split_high (sb_fresh ?s) q n # ps_todo p, ps_sb := ?s\<lparr>sb_fresh := sb_fresh ?s + 1\<rparr>\<rparr>"
    using assms(5) by (auto simp: pass_split_def Let_def)
  have "sb_core u t (rev (ps_done p) @ n # ps_todo p) ?s" using assms(1) by (simp add: pass_core_def)
  note sp = core_split [OF this assms(2-4)]
  show "pass_core u t F [n'] p'"
    using sp(1) assms(1) by (auto simp: pass_core_def eq split_low_def)
  show "same_done p p'" by (simp add: same_done_def eq)
  show "packets_of f (n' # ps_todo p') = packets_of f (n # ps_todo p)" unfolding eq using sp(2) by simp
  show "nd_seq n' = nd_seq n" "get_end n' = q - 1" "nd_flag n' = nd_flag n"
    "nxt_to_retrx (ps_sb p') = nxt_to_retrx (ps_sb p)" "nd_id n' = nd_id n"
    using assms(2) by (simp_all add: eq split_low_def get_end_def)
qed

lemma pass_sacked_counters:
  "nxt_to_retrx (ps_sb (snd (pass_sacked n p))) = nxt_to_retrx (ps_sb p)"
  "fack (ps_sb (snd (pass_sacked n p))) = fack (ps_sb p)"
  "fack_out (ps_sb (snd (pass_sacked n p)))
    = fack_out (ps_sb p) - (if nd_flag n = SKB_LOST then get_length n else 0)"
  "sack_out (ps_sb (snd (pass_sacked n p))) = sack_out (ps_sb p) + get_length n"
  by (cases "nd_flag n"; simp add: pass_sacked_def Let_def)+

lemma pass_sacked_lists:
  "ps_todo (snd (pass_sacked n p)) = ps_todo p"
  "ps_done (snd (pass_sacked n p)) = ps_done p"
  "ps_sacks (snd (pass_sacked n p)) = ps_sacks p"
  "sb_fresh (ps_sb (snd (pass_sacked n p))) = sb_fresh (ps_sb p)"
  by (cases "nd_flag n"; simp add: pass_sacked_def Let_def)+

lemma pass_sacked_node: "fst (pass_sacked n p) = set_flag SKB_SACKED n"
  by (simp add: pass_sacked_def Let_def)

lemma pass_sacked_ok:
  assumes "pass_core u t F [n] p" and "nd_flag n \<noteq> SKB_SACKED" and "pass_sacked n p = (n', p')"
  shows "pass_core u t F [n'] p'" and "same_done p p'" and "ps_todo p' = ps_todo p"
    and "n' = set_flag SKB_SACKED n"
    and "nxt_to_retrx (ps_sb p') = nxt_to_retrx (ps_sb p)"
proof -
  let ?s = "ps_sb p" and ?k = "get_length n"
  have n': "n' = set_flag SKB_SACKED n" and p': "p' = snd (pass_sacked n p)"
    using assms(3) pass_sacked_node [of n p] by simp_all
  note s' = pass_sacked_counters [of n p, folded p'] pass_sacked_lists [of n p, folded p']
  have c: "sb_core u t (rev (ps_done p) @ n # ps_todo p) ?s" using assms(1) by (simp add: pass_core_def)
  have "sb_core u t (rev (ps_done p) @ set_flag SKB_SACKED n # ps_todo p) (ps_sb p')"
    using s' assms(2) by (intro core_replace [OF c]) (simp_all add: set_flag_sel)
  then show "pass_core u t F [n'] p'" using assms(1) s' by (auto simp: pass_core_def n' set_flag_sel)
  show "same_done p p'" "ps_todo p' = ps_todo p" "n' = set_flag SKB_SACKED n"
    "nxt_to_retrx (ps_sb p') = nxt_to_retrx ?s" using s' n' by (simp_all add: same_done_def)
qed

lemma pass_core_node: "pass_core u t F [n] p \<Longrightarrow> nd_seq n \<le> get_end n"
  by (auto simp: pass_core_def sb_core_def consec_append)

text \<open>
  \<open>pass_match\<close>: the node is acknowledged, and lies in a block; or it is untouched, and lies before
  the first block left.
\<close>

lemma pass_match_ok:
  assumes "pass_core u t F [n] p" and "nd_flag n \<noteq> SKB_SACKED" and "pass_match n p = (n', p')"
  defines "bs \<equiv> dropWhile (\<lambda>(l, r). r \<le> nd_seq n) (ps_sacks p)"
  shows "pass_core u t F [n'] p' \<and> ps_done p' = ps_done p \<and> ps_sacks p' = bs
      \<and> nd_seq n' = nd_seq n \<and> nxt_to_retrx (ps_sb p') = nxt_to_retrx (ps_sb p)
      \<and> (if nd_flag n' = SKB_SACKED
         then (\<exists>l r. (l, r) \<in> set (ps_sacks p) \<and> l \<le> nd_seq n \<and> get_end n' < r)
           \<and> packets_of SKB_SACKED (n' # ps_todo p') = {nd_seq n..get_end n'} \<union> packets_of SKB_SACKED (n # ps_todo p)
         else (bs = [] \<or> get_end n' < fst (hd bs))
           \<and> packets_of SKB_SACKED (n' # ps_todo p') = packets_of SKB_SACKED (n # ps_todo p))"
proof -
  let ?p = "p\<lparr>ps_sacks := bs\<rparr>"
  have core: "pass_core u t F [n] ?p" using assms(1) by (simp add: pass_core_def)
  have le: "nd_seq n \<le> get_end n" using assms(1) by (rule pass_core_node)
  have pm: "(n', p') = (case bs of
       [] \<Rightarrow> (n, ?p)
     | (l, r) # _ \<Rightarrow>
         if l \<le> get_end n
         then if nd_seq n < l then pass_split l n ?p
              else let (n, p) = (if r \<le> get_end n then pass_split r n ?p else (n, ?p))
                   in pass_sacked n p
         else (n, ?p))"
    unfolding assms(3) [symmetric] pass_match_def bs_def Let_def by simp
  show ?thesis
  proof (cases bs)
    case Nil
    then have "n' = n" "p' = ?p" using pm by simp_all
    with core assms(2) Nil show ?thesis by simp
  next
    case (Cons b cs)
    obtain l r where b: "b = (l, r)" by (cases b)
    have m: "(l, r) \<in> set (ps_sacks p)"
      using set_dropWhileD [of "(l, r)" "\<lambda>(l, r). r \<le> nd_seq n" "ps_sacks p"] Cons b by (simp add: bs_def)
    have r: "nd_seq n < r"
      using hd_dropWhile [of "\<lambda>(l, r). r \<le> nd_seq n" "ps_sacks p"] Cons
      unfolding bs_def b by fastforce
    have eq: "(n', p') = (if l \<le> get_end n
         then if nd_seq n < l then pass_split l n ?p
              else let (n, p) = (if r \<le> get_end n then pass_split r n ?p else (n, ?p))
                   in pass_sacked n p
         else (n, ?p))"
      using pm Cons b by simp
    consider "get_end n < l" | "nd_seq n < l" "l \<le> get_end n" | "l \<le> nd_seq n" by linarith
    then show ?thesis
    proof cases
      case 1
      then have "n' = n" "p' = ?p" using eq by simp_all
      with 1 core assms(2) Cons b show ?thesis by simp
    next
      case 2
      then have "nd_flag n \<noteq> SKB_RETRANSMITTED" "get_end n = nd_nxt n" by (auto simp: get_end_def)
      have sp: "pass_split l n ?p = (n', p')" using 2 eq by simp
      note ok = pass_split_ok [OF core \<open>nd_flag n \<noteq> SKB_RETRANSMITTED\<close> 2(1) _ sp]
      have "packets_of SKB_SACKED (n' # ps_todo p') = packets_of SKB_SACKED (n # ps_todo p)"
        using ok(3) 2(2) \<open>get_end n = nd_nxt n\<close> by simp
      then show ?thesis
        using ok 2(2) \<open>get_end n = nd_nxt n\<close> assms(2) Cons b by (simp add: same_done_def)
    next
      case 3
      define q where "q = (if r \<le> get_end n then pass_split r n ?p else (n, ?p))"
      obtain n1 p1 where q: "q = (n1, p1)" by (cases q)
      have sk: "pass_sacked n1 p1 = (n', p')" using 3 le eq q by (simp add: q_def)
      have q1: "pass_core u t F [n1] p1 \<and> same_done ?p p1
        \<and> (\<forall>f. packets_of f (n1 # ps_todo p1) = packets_of f (n # ps_todo p))
        \<and> nd_seq n1 = nd_seq n \<and> get_end n1 < r \<and> nd_flag n1 = nd_flag n
        \<and> nxt_to_retrx (ps_sb p1) = nxt_to_retrx (ps_sb p)"
      proof (cases "r \<le> get_end n")
        case True
        then have rt: "nd_flag n \<noteq> SKB_RETRANSMITTED" "get_end n = nd_nxt n" using r by (auto simp: get_end_def)
        have sp: "pass_split r n ?p = (n1, p1)" using True q by (simp add: q_def)
        show ?thesis using pass_split_ok [OF core rt(1) r _ sp] True rt(2) by simp
      next
        case False
        then have "n1 = n" "p1 = ?p" using q by (simp_all add: q_def)
        with False core show ?thesis by (simp add: same_done_def)
      qed
      then have "nd_flag n1 \<noteq> SKB_SACKED" using assms(2) by simp
      note s = pass_sacked_ok [OF q1 [THEN conjunct1] this sk]
      have pk: "packets_of SKB_SACKED (ps_todo p1) = packets_of SKB_SACKED (n # ps_todo p)"
        using q1 assms(2) by (auto split: if_splits)
      have pk': "packets_of SKB_SACKED (n' # ps_todo p')
        = {nd_seq n..get_end n'} \<union> packets_of SKB_SACKED (n # ps_todo p)"
        unfolding pk [symmetric] using q1 s(3,4) by (simp add: set_flag_sel)
      show ?thesis using s(1,2,4,5) q1 m 3 pk' by (auto simp: same_done_def set_flag_sel)
    qed
  qed
qed

text \<open>The pointer points behind, or to the node in hand if that is the first lost one.\<close>

definition ptr_ok :: "sb_node \<Rightarrow> sb_pass \<Rightarrow> bool" where
  "ptr_ok n p \<longleftrightarrow> (nxt_to_retrx (ps_sb p) = None \<longrightarrow> nd_flag n \<noteq> SKB_LOST)
     \<and> (\<forall>i. nxt_to_retrx (ps_sb p) = Some i \<longrightarrow> i \<in> nd_id ` set (ps_done p)
         \<or> i = nd_id n \<and> nd_flag n = SKB_LOST \<and> (\<forall>m \<in> set (ps_done p). nd_flag m \<noteq> SKB_LOST))"

definition ptr_behind :: "sb_pass \<Rightarrow> bool" where
  "ptr_behind p \<longleftrightarrow> (\<forall>i. nxt_to_retrx (ps_sb p) = Some i \<longrightarrow> i \<in> nd_id ` set (ps_done p))"

lemma note_retrx_ok:
  assumes "pass_core u t F [n] p" and "ptr_behind p" and "nd_flag n = SKB_LOST"
  shows "pass_core u t F [n] (note_retrx n p) \<and> ptr_ok n (note_retrx n p) \<and> same_done p (note_retrx n p)
    \<and> ps_todo (note_retrx n p) = ps_todo p"
  using assms by (auto simp: note_retrx_def pass_core_def ptr_ok_def ptr_behind_def same_done_def)

lemma pass_lost_ok:
  assumes "pass_core u t F [n] p" and "ptr_behind p" and "nd_flag n \<noteq> SKB_SACKED" and "nd_flag n \<noteq> SKB_LOST"
    and "k = get_length n" and "pass_lost k n p = (n', p')"
  shows "pass_core u t F [n'] p' \<and> ptr_ok n' p' \<and> same_done p p' \<and> ps_todo p' = ps_todo p
    \<and> n' = set_flag SKB_LOST n"
proof -
  let ?p = "p\<lparr>ps_sb := (ps_sb p)\<lparr>fack_out := fack_out (ps_sb p) + k\<rparr>, ps_flag := ps_flag p OR FLAG_DATA_LOST\<rparr>"
  have eq: "n' = set_flag SKB_LOST n" "p' = note_retrx n' ?p"
    using assms(6) by (auto simp: pass_lost_def Let_def)
  have c: "sb_core u t (rev (ps_done p) @ n # ps_todo p) (ps_sb p)" using assms(1) by (simp add: pass_core_def)
  have "sb_core u t (rev (ps_done p) @ n' # ps_todo p) (ps_sb ?p)"
    using assms(3-5) by (intro core_replace [OF c]) (simp_all add: set_flag_sel eq(1))
  then have "pass_core u t F [n'] ?p" "ptr_behind ?p"
    using assms(1,2) by (auto simp: pass_core_def ptr_behind_def)
  from note_retrx_ok [OF this] show ?thesis by (simp add: eq set_flag_sel same_done_def)
qed

lemma pass_check_ok:
  assumes "pass_core u t F [n] p" and "ptr_behind p" and "nd_flag n \<noteq> SKB_SACKED"
    and "ps_sacks p = [] \<or> get_end n < fst (hd (ps_sacks p))" and "pass_check d n p = (n', p')"
  shows "pass_core u t F [n'] p' \<and> ptr_ok n' p' \<and> same_done p p' \<and> nd_seq n' = nd_seq n
    \<and> get_end n' \<le> get_end n
    \<and> packets_of SKB_SACKED (n' # ps_todo p') = packets_of SKB_SACKED (ps_todo p) \<and> nd_flag n' \<noteq> SKB_SACKED"
proof (cases "nd_flag n")
  case SKB_INFLIGHT
  let ?thr = "fack (ps_sb p) - (d + 1)"
  have e: "get_end n = nd_nxt n" using SKB_INFLIGHT by (simp add: get_end_def)
  show ?thesis
  proof (cases "nd_seq n \<le> ?thr")
    case True
    define q where "q = (if ?thr < get_end n then pass_split (?thr + 1) n p else (n, p))"
    obtain n1 p1 where q: "q = (n1, p1)" by (cases q)
    have eq: "(n', p') = pass_lost (get_length (set_flag SKB_LOST n1)) n1 p1"
      using assms(4,5) SKB_INFLIGHT True q by (simp add: pass_check_def Let_def q_def)
    have q1: "pass_core u t F [n1] p1 \<and> same_done p p1 \<and> ptr_behind p1 \<and> nd_seq n1 = nd_seq n
      \<and> get_end n1 \<le> get_end n \<and> nd_flag n1 = SKB_INFLIGHT
      \<and> packets_of SKB_SACKED (ps_todo p1) = packets_of SKB_SACKED (ps_todo p)"
    proof (cases "?thr < get_end n")
      case True2: True
      have sp: "pass_split (?thr + 1) n p = (n1, p1)" using True2 q by (simp add: q_def)
      have h: "nd_flag n \<noteq> SKB_RETRANSMITTED" "nd_seq n < ?thr + 1" "?thr + 1 \<le> nd_nxt n"
        using SKB_INFLIGHT True True2 e by simp_all
      note ok = pass_split_ok [OF assms(1) h sp]
      have "packets_of SKB_SACKED (ps_todo p1) = packets_of SKB_SACKED (ps_todo p)"
        using ok(3) [of SKB_SACKED] ok(6) SKB_INFLIGHT by simp
      with ok assms(2) SKB_INFLIGHT True2 show ?thesis by (simp add: ptr_behind_def same_done_def)
    next
      case False
      then have "n1 = n" "p1 = p" using q by (simp_all add: q_def)
      with assms(1,2) SKB_INFLIGHT show ?thesis by (simp add: same_done_def)
    qed
    have "pass_core u t F [n'] p' \<and> ptr_ok n' p' \<and> same_done p1 p' \<and> ps_todo p' = ps_todo p1
      \<and> n' = set_flag SKB_LOST n1"
      using q1 eq by (intro pass_lost_ok) (simp_all add: set_flag_sel)
    with q1 show ?thesis by (auto simp: same_done_def set_flag_sel)
  next
    case False
    then have "n' = n" "p' = p" using assms(4,5) SKB_INFLIGHT by (simp_all add: pass_check_def Let_def)
    with assms(1,2) SKB_INFLIGHT show ?thesis by (simp add: same_done_def ptr_ok_def ptr_behind_def)
  qed
next
  case SKB_SACKED
  with assms(3) show ?thesis by simp
next
  case SKB_LOST
  then have "n' = n" "p' = note_retrx n p" using assms(4,5) by (auto simp: pass_check_def)
  with note_retrx_ok [OF assms(1,2) SKB_LOST] SKB_LOST show ?thesis by simp
next
  case SKB_RETRANSMITTED
  show ?thesis
  proof (cases "nd_nxt n \<le> fack (ps_sb p) \<or> nd_retran n + d + 1 < acked_rtx_id (ps_sb p)")
    case True
    then have eq: "pass_lost 1 n p = (n', p')" using assms(4,5) SKB_RETRANSMITTED by (simp add: pass_check_def)
    have "pass_core u t F [n'] p' \<and> ptr_ok n' p' \<and> same_done p p' \<and> ps_todo p' = ps_todo p
      \<and> n' = set_flag SKB_LOST n"
      using SKB_RETRANSMITTED by (intro pass_lost_ok [OF assms(1,2) _ _ _ eq]) (simp_all add: get_length_def)
    then show ?thesis by (auto simp: set_flag_sel)
  next
    case False
    then have "n' = n" "p' = p" using assms(4,5) SKB_RETRANSMITTED by (simp_all add: pass_check_def)
    with assms(1,2) SKB_RETRANSMITTED show ?thesis by (simp add: same_done_def ptr_ok_def ptr_behind_def)
  qed
qed

text \<open>Going on.\<close>

lemma pass_merge_ok:
  assumes "pass_core u t F [n] p" and "ptr_ok n p"
  defines "ds \<equiv> (case ps_done p of
                 prev # ds \<Rightarrow> if mergable prev n then merge_next prev n # ds else n # prev # ds
               | [] \<Rightarrow> [n])"
  shows "pass_core u t F [] (p\<lparr>ps_done := ds\<rparr>) \<and> ptr_behind (p\<lparr>ps_done := ds\<rparr>) \<and> ds \<noteq> []
    \<and> get_end (hd ds) = get_end n \<and> (\<forall>f. packets_of f (rev ds) = packets_of f (rev (ps_done p)) \<union> packets_of f [n])"
proof (cases "\<exists>prev ds'. ps_done p = prev # ds' \<and> mergable prev n")
  case True
  then obtain prev ds' where pd: "ps_done p = prev # ds'" and m: "mergable prev n" by auto
  then have ds: "ds = merge_next prev n # ds'" by (simp add: ds_def)
  have fl: "nd_flag n = nd_flag prev" "nd_id (merge_next prev n) = nd_id prev"
    "nd_flag (merge_next prev n) = nd_flag prev" using m by (auto simp: mergable_def merge_next_def)
  have "sb_core u t (rev ds' @ prev # n # ps_todo p) (ps_sb p)" using assms(1) pd by (simp add: pass_core_def)
  note cm = core_merge [OF this m]
  have pk: "packets_of f (rev ds) = packets_of f (rev (ps_done p)) \<union> packets_of f [n]" for f
  proof -
    have "sb_core u t (rev ds' @ prev # n # ps_todo p) (ps_sb p)" using assms(1) pd by (simp add: pass_core_def)
    then have "nd_seq n = get_end prev + 1" "nd_seq prev \<le> get_end prev" "nd_seq n \<le> get_end n"
      by (auto simp: sb_core_def consec_append)
    then show ?thesis using cm(3) fl pd by (auto simp: ds merge_next_def)
  qed
  have ptr: "\<forall>i. nxt_to_retrx (ps_sb p) = Some i \<longrightarrow> i \<in> nd_id ` set ds"
    using assms(2) fl pd by (auto simp: ptr_ok_def ds)
  then show ?thesis
    using cm(1,3) pk assms(1) fl pd by (auto simp: pass_core_def ptr_behind_def ds)
next
  case False
  then have ds: "ds = n # ps_done p" by (auto simp: ds_def split: list.split)
  with assms(1,2) show ?thesis by (auto simp: pass_core_def ptr_behind_def ptr_ok_def)
qed

text \<open>The list reaches to \<open>fack_\<close> when its end is reached.\<close>

lemma pass_advance_ok:
  assumes "pass_core u t F [n] p" and "ptr_ok n p"
  shows "\<exists>t'. pass_core u t' F [] (pass_advance n p) \<and> ptr_behind (pass_advance n p)
    \<and> ps_done (pass_advance n p) \<noteq> [] \<and> ps_sacks (pass_advance n p) = ps_sacks p
    \<and> get_end (hd (ps_done (pass_advance n p))) = get_end n
    \<and> (\<forall>f. packets_of f (rev (ps_done (pass_advance n p))) = packets_of f (rev (ps_done p)) \<union> packets_of f [n])
    \<and> packets_of SKB_SACKED (ps_todo (pass_advance n p)) = packets_of SKB_SACKED (ps_todo p)
    \<and> max t' (F + 1) = max t (F + 1) \<and> t \<le> t' \<and> (ps_todo (pass_advance n p) = [] \<longrightarrow> F < t')"
proof -
  define ds where "ds = (case ps_done p of
                 prev # ds \<Rightarrow> if mergable prev n then merge_next prev n # ds else n # prev # ds
               | [] \<Rightarrow> [n])"
  let ?p = "p\<lparr>ps_done := ds\<rparr>" and ?s = "ps_sb p"
  have m: "pass_core u t F [] ?p" "ptr_behind ?p" "ds \<noteq> []" "get_end (hd ds) = get_end n"
    "\<And>f. packets_of f (rev ds) = packets_of f (rev (ps_done p)) \<union> packets_of f [n]"
    using pass_merge_ok [OF assms, folded ds_def] by auto
  have F: "fack ?s = F" using assms(1) by (simp add: pass_core_def)
  have adv: "pass_advance n p = (if ps_todo p = [] \<and> get_end n < F
        then ?p\<lparr>ps_todo := [new_node (sb_fresh ?s) (get_end n + 1) F SKB_INFLIGHT],
               ps_sb := ?s\<lparr>sb_fresh := sb_fresh ?s + 1\<rparr>\<rparr>
        else ?p)"
    unfolding pass_advance_def ds_def [symmetric] Let_def by (simp add: F m(4))
  obtain d ds' where d: "ds = d # ds'" using m(3) by (cases ds) auto
  have t: "t = get_end n + 1" if "ps_todo p = []"
    using m(1,4) that d by (auto simp: pass_core_def sb_core_def consec_append)
  show ?thesis
  proof (cases "ps_todo p = [] \<and> get_end n < F")
    case True
    have "sb_core u t (rev ds) ?s" using m(1) True by (simp add: pass_core_def)
    then have c: "sb_core u (F + 1) (rev ds @ [new_node (sb_fresh ?s) t F SKB_INFLIGHT]) (?s\<lparr>sb_fresh := sb_fresh ?s + 1\<rparr>)"
      using True t by (intro core_extend) auto
    have "pass_core u (F + 1) F [] (pass_advance n p)"
      using c m(1) True t by (auto simp: adv pass_core_def)
    with True t m(2-5) show ?thesis
      by (intro exI [of _ "F + 1"]) (auto simp: adv ptr_behind_def new_node_def)
  next
    case False
    with t m show ?thesis by (intro exI [of _ t]) (auto simp: adv)
  qed
qed

section \<open>The traversal\<close>

text \<open>
  \<open>A\<close> are the packets acknowledged before; the list is done up to \<open>b\<close>; \<open>bs\<close> are all blocks.
\<close>

definition pass_inv :: "int \<Rightarrow> int \<Rightarrow> int \<Rightarrow> int set \<Rightarrow> sack list \<Rightarrow> int \<Rightarrow> sb_pass \<Rightarrow> bool" where
  "pass_inv u t F A bs b p \<longleftrightarrow> pass_core u t F [] p \<and> ptr_behind p \<and> sorted (map fst (ps_sacks p))
     \<and> set (ps_sacks p) \<subseteq> set bs \<and> (\<forall>c \<in> set bs. c \<in> set (ps_sacks p) \<or> snd c \<le> b)
     \<and> consec u (rev (ps_done p)) b \<and> blocks bs \<inter> {u..<b} \<subseteq> packets_of SKB_SACKED (rev (ps_done p))
     \<and> A \<subseteq> packets_of SKB_SACKED (rev (ps_done p)) \<union> packets_of SKB_SACKED (ps_todo p)
     \<and> packets_of SKB_SACKED (rev (ps_done p)) \<union> packets_of SKB_SACKED (ps_todo p) \<subseteq> A \<union> blocks bs
     \<and> (ps_todo p = [] \<longrightarrow> F < t)"

lemma consec_unique: "consec a ns b \<Longrightarrow> consec a ns c \<Longrightarrow> b = c"
  by (induction ns arbitrary: a) auto

lemma drop_small: "k \<in> set bs \<Longrightarrow> k \<notin> set (dropWhile (\<lambda>(l, r). r \<le> b) bs) \<Longrightarrow> snd k \<le> (b::int)"
  by (induction bs) (auto split: if_splits)

lemma sorted_dropWhile: "sorted (map f xs) \<Longrightarrow> sorted (map f (dropWhile P xs))"
  by (metis map_append sorted_append takeWhile_dropWhile_id)

text \<open>
  What happens to the node in hand: an acknowledged one is acknowledged whole, any other is out of
  reach of the blocks, or acknowledged by one of them.
\<close>

lemma pass_node_ok:
  assumes "pass_inv u t F A bs b p" and "ps_todo p = now # todo"
    and "(n, q) = (if nd_flag now \<noteq> SKB_SACKED
        then let (now, p) = pass_match now (p\<lparr>ps_todo := todo\<rparr>) in pass_check d now p
        else (now, p\<lparr>ps_todo := todo\<rparr>))"
  shows "pass_core u t F [n] q \<and> ptr_ok n q \<and> ps_done q = ps_done p \<and> nd_seq n = b
    \<and> (ps_sacks q = ps_sacks p \<or> ps_sacks q = dropWhile (\<lambda>(l, r). r \<le> b) (ps_sacks p))
    \<and> blocks bs \<inter> {b..get_end n} \<subseteq> packets_of SKB_SACKED [n]
    \<and> packets_of SKB_SACKED (now # todo) \<subseteq> packets_of SKB_SACKED (n # ps_todo q)
    \<and> packets_of SKB_SACKED (n # ps_todo q) \<subseteq> packets_of SKB_SACKED (now # todo) \<union> blocks bs"
proof -
  let ?p = "p\<lparr>ps_todo := todo\<rparr>"
  have inv: "pass_core u t F [] p" "ptr_behind p" "sorted (map fst (ps_sacks p))"
    "set (ps_sacks p) \<subseteq> set bs" "\<forall>c \<in> set bs. c \<in> set (ps_sacks p) \<or> snd c \<le> b"
    "consec u (rev (ps_done p)) b" using assms(1) by (auto simp: pass_inv_def)
  have core: "pass_core u t F [now] ?p" "ptr_behind ?p"
    using inv(1,2) assms(2) by (auto simp: pass_core_def ptr_behind_def)
  have seq: "nd_seq now = b"
    using inv(1,6) assms(2) consec_unique by (fastforce simp: pass_core_def sb_core_def consec_append)
  show ?thesis
  proof (cases "nd_flag now = SKB_SACKED")
    case True
    with assms(3) have "n = now" "q = ?p" by simp_all
    moreover have "ptr_ok now ?p" using core(2) True by (auto simp: ptr_ok_def ptr_behind_def)
    ultimately show ?thesis using core(1) seq True by auto
  next
    case False
    obtain n1 p1 where m: "pass_match now ?p = (n1, p1)" by (cases "pass_match now ?p")
    with assms(3) False have ck: "pass_check d n1 p1 = (n, q)" by simp
    let ?bs = "dropWhile (\<lambda>(l, r). r \<le> b) (ps_sacks p)"
    have pp: "ps_sacks ?p = ps_sacks p" "ps_todo ?p = todo" "ps_done ?p = ps_done p" "ps_sb ?p = ps_sb p"
      by simp_all
    have ok: "pass_core u t F [n1] p1" "ps_done p1 = ps_done p" "ps_sacks p1 = ?bs" "nd_seq n1 = b"
      "nxt_to_retrx (ps_sb p1) = nxt_to_retrx (ps_sb p)"
      "if nd_flag n1 = SKB_SACKED
         then (\<exists>l r. (l, r) \<in> set (ps_sacks p) \<and> l \<le> b \<and> get_end n1 < r)
           \<and> packets_of SKB_SACKED (n1 # ps_todo p1) = {b..get_end n1} \<union> packets_of SKB_SACKED (now # todo)
         else (?bs = [] \<or> get_end n1 < fst (hd ?bs))
           \<and> packets_of SKB_SACKED (n1 # ps_todo p1) = packets_of SKB_SACKED (now # todo)"
      using pass_match_ok [OF core(1) False m, unfolded seq pp] by blast+
    have pb: "ptr_behind p1" using core(2) ok(2,5) by (simp add: ptr_behind_def)
    show ?thesis
    proof (cases "nd_flag n1 = SKB_SACKED")
      case True
      with ok(6) obtain l r where lr: "(l, r) \<in> set (ps_sacks p)" "l \<le> b" "get_end n1 < r" by auto
      have "n = n1 \<and> q = p1" using ck True by (auto simp: pass_check_def split: if_splits)
      moreover have "ptr_ok n1 p1" using pb True by (auto simp: ptr_ok_def ptr_behind_def)
      moreover have "{b..get_end n1} \<subseteq> blocks bs" using lr inv(4) by (force simp: blocks_def)
      moreover have "blocks bs \<inter> {b..get_end n1} \<subseteq> packets_of SKB_SACKED [n1]" using True ok(4) by simp
      moreover have "packets_of SKB_SACKED (n1 # ps_todo p1) = {b..get_end n1} \<union> packets_of SKB_SACKED (now # todo)"
        using ok(6) True by simp
      ultimately show ?thesis using ok(1-4) by blast
    next
      case False2: False
      with ok(6) have b1: "?bs = [] \<or> get_end n1 < fst (hd ?bs)"
        and pk: "packets_of SKB_SACKED (n1 # ps_todo p1) = packets_of SKB_SACKED (now # todo)" by simp_all
      have c: "pass_core u t F [n] q" "ptr_ok n q" "same_done p1 q" "nd_seq n = nd_seq n1" "get_end n \<le> get_end n1"
        "packets_of SKB_SACKED (n # ps_todo q) = packets_of SKB_SACKED (ps_todo p1)"
        using pass_check_ok [OF ok(1) pb False2 _ ck] b1 ok(3) by auto
      have "blocks bs \<inter> {b..get_end n} = {}"
      proof -
        have "x \<notin> {fst k..<snd k}" if "k \<in> set bs" "b \<le> x" "x \<le> get_end n" for x k
        proof (cases "k \<in> set ?bs")
          case True
          have "sorted (map fst ?bs)" by (rule sorted_dropWhile [OF inv(3)])
          then have "fst (hd ?bs) \<le> fst k" using True by (cases ?bs) auto
          moreover have "get_end n1 < fst (hd ?bs)" using b1 True by (cases ?bs) auto
          ultimately show ?thesis using that c(5) by auto
        next
          case False
          then have "snd k \<le> b" using drop_small [of k "ps_sacks p" b] inv(5) that(1) by auto
          with that(2) show ?thesis by auto
        qed
        then show ?thesis by (force simp: blocks_def)
      qed
      then show ?thesis using c ok(2-4) pk False2 by (auto simp: same_done_def)
    qed
  qed
qed

lemma pass_step_eq:
  assumes "ps_todo p = now # todo"
  shows "pass_step d p = (case (if nd_flag now \<noteq> SKB_SACKED
        then let (now, p) = pass_match now (p\<lparr>ps_todo := todo\<rparr>) in pass_check d now p
        else (now, p\<lparr>ps_todo := todo\<rparr>)) of (n, q) \<Rightarrow> pass_advance n q)"
  by (simp add: pass_step_def assms Let_def)

lemma pass_step_ok:
  assumes "pass_inv u t F A bs b p" and "ps_todo p \<noteq> []"
  shows "\<exists>t' b'. pass_inv u t' F A bs b' (pass_step d p) \<and> b < b' \<and> b' \<le> t' \<and> t \<le> t'
    \<and> max t' (F + 1) = max t (F + 1)"
proof -
  obtain now todo where todo: "ps_todo p = now # todo" using assms(2) by (cases "ps_todo p") auto
  obtain n q where nq: "(n, q) = (if nd_flag now \<noteq> SKB_SACKED
        then let (now, p) = pass_match now (p\<lparr>ps_todo := todo\<rparr>) in pass_check d now p
        else (now, p\<lparr>ps_todo := todo\<rparr>))" by (metis surj_pair)
  have step: "pass_step d p = pass_advance n q"
    unfolding pass_step_eq [OF todo] nq [symmetric] by simp
  from pass_node_ok [OF assms(1) todo nq] have
    c: "pass_core u t F [n] q" "ptr_ok n q" and n: "ps_done q = ps_done p" "nd_seq n = b"
    "ps_sacks q = ps_sacks p \<or> ps_sacks q = dropWhile (\<lambda>(l, r). r \<le> b) (ps_sacks p)"
    "blocks bs \<inter> {b..get_end n} \<subseteq> packets_of SKB_SACKED [n]"
    "packets_of SKB_SACKED (now # todo) \<subseteq> packets_of SKB_SACKED (n # ps_todo q)"
    "packets_of SKB_SACKED (n # ps_todo q) \<subseteq> packets_of SKB_SACKED (now # todo) \<union> blocks bs"
    by blast+
  from pass_advance_ok [OF c] obtain t' where
    a: "pass_core u t' F [] (pass_advance n q)" "ptr_behind (pass_advance n q)"
    "ps_done (pass_advance n q) \<noteq> []" "ps_sacks (pass_advance n q) = ps_sacks q"
    "get_end (hd (ps_done (pass_advance n q))) = get_end n"
    "\<forall>f. packets_of f (rev (ps_done (pass_advance n q))) = packets_of f (rev (ps_done q)) \<union> packets_of f [n]"
    "packets_of SKB_SACKED (ps_todo (pass_advance n q)) = packets_of SKB_SACKED (ps_todo q)"
    "max t' (F + 1) = max t (F + 1)" "t \<le> t'" "ps_todo (pass_advance n q) = [] \<longrightarrow> F < t'"
    by blast
  let ?q = "pass_advance n q" and ?b = "get_end n + 1"
  have inv: "sorted (map fst (ps_sacks p))" "set (ps_sacks p) \<subseteq> set bs"
    "\<forall>c \<in> set bs. c \<in> set (ps_sacks p) \<or> snd c \<le> b"
    "blocks bs \<inter> {u..<b} \<subseteq> packets_of SKB_SACKED (rev (ps_done p))"
    "A \<subseteq> packets_of SKB_SACKED (rev (ps_done p)) \<union> packets_of SKB_SACKED (now # todo)"
    "packets_of SKB_SACKED (rev (ps_done p)) \<union> packets_of SKB_SACKED (now # todo) \<subseteq> A \<union> blocks bs"
    using assms(1) todo by (auto simp: pass_inv_def)
  obtain e ds where ds: "ps_done ?q = e # ds" using a(3) by (cases "ps_done ?q") auto
  have con: "consec u (rev (ps_done ?q)) ?b \<and> consec ?b (ps_todo ?q) t'"
    using a(1,5) unfolding ds by (auto simp: pass_core_def sb_core_def ds consec_append)
  have lt: "b < ?b" using pass_core_node [OF c(1)] n(2) by simp
  have sacked: "packets_of SKB_SACKED (rev (ps_done ?q)) = packets_of SKB_SACKED (rev (ps_done p)) \<union> packets_of SKB_SACKED [n]"
    "packets_of SKB_SACKED (n # ps_todo q) = packets_of SKB_SACKED [n] \<union> packets_of SKB_SACKED (ps_todo ?q)"
    using a(6,7) n(1) by simp_all
  have sk: "sorted (map fst (ps_sacks ?q)) \<and> set (ps_sacks ?q) \<subseteq> set bs
    \<and> (\<forall>c \<in> set bs. c \<in> set (ps_sacks ?q) \<or> snd c \<le> ?b)"
  proof (cases "ps_sacks q = ps_sacks p")
    case True
    with inv(1-3) a(4) lt show ?thesis by fastforce
  next
    case False
    then have q: "ps_sacks ?q = dropWhile (\<lambda>(l, r). r \<le> b) (ps_sacks p)" using n(3) a(4) by simp
    have "sorted (map fst (ps_sacks ?q))" unfolding q by (rule sorted_dropWhile [OF inv(1)])
    moreover have "set (ps_sacks ?q) \<subseteq> set bs" using inv(2) set_dropWhileD unfolding q by fast
    moreover have "c \<in> set (ps_sacks ?q) \<or> snd c \<le> ?b" if "c \<in> set bs" for c
      using inv(3) that drop_small [of c "ps_sacks p" b] lt unfolding q by fastforce
    ultimately show ?thesis by blast
  qed
  have "{u..<?b} \<subseteq> {u..<b} \<union> {b..get_end n}" by auto
  then have "blocks bs \<inter> {u..<?b} \<subseteq> packets_of SKB_SACKED (rev (ps_done ?q))"
    using inv(4) n(4) sacked(1) by blast
  moreover have "A \<subseteq> packets_of SKB_SACKED (rev (ps_done ?q)) \<union> packets_of SKB_SACKED (ps_todo ?q)"
    using inv(5) n(5) sacked by blast
  moreover have "packets_of SKB_SACKED (rev (ps_done ?q)) \<union> packets_of SKB_SACKED (ps_todo ?q) \<subseteq> A \<union> blocks bs"
    using inv(6) n(6) sacked by blast
  ultimately have "pass_inv u t' F A bs ?b ?q"
    using a(1,2,10) sk con unfolding pass_inv_def by blast
  moreover have "?b \<le> t'" using con consec_le by blast
  ultimately show ?thesis using lt a(8,9) unfolding step by blast
qed

text \<open>The loop ends, and when it does the blocks are used up or the list is.\<close>

lemma pass_loop_ok:
  assumes "pass_inv u t F A bs b p"
  shows "\<exists>q t' b'. pass_loop d p = Some q \<and> pass_inv u t' F A bs b' q \<and> t \<le> t'
    \<and> max t' (F + 1) = max t (F + 1) \<and> (ps_todo q = [] \<or> ps_sacks q = [])"
  using assms
proof (induction "nat (max t (F + 1) - b)" arbitrary: t b p rule: less_induct)
  case less
  show ?case
  proof (cases "ps_todo p \<noteq> [] \<and> (ps_sacks p \<noteq> [] \<or> ps_thorough p)")
    case False
    then have "pass_loop d p = Some p" by (subst pass_loop.simps) auto
    with less.prems False show ?thesis by blast
  next
    case True
    then have eq: "pass_loop d p = pass_loop d (pass_step d p)" by (subst pass_loop.simps) auto
    from pass_step_ok [OF less.prems, of d] True obtain t' b' where
      s: "pass_inv u t' F A bs b' (pass_step d p)" "b < b'" "b' \<le> t'" "t \<le> t'"
        "max t' (F + 1) = max t (F + 1)" by blast
    have "nat (max t' (F + 1) - b') < nat (max t (F + 1) - b)" using s(2,3,5) by linarith
    from less.hyps [OF this s(1)] obtain q t2 b2 where
      q: "pass_loop d (pass_step d p) = Some q" "pass_inv u t2 F A bs b2 q" "t' \<le> t2"
        "max t2 (F + 1) = max t' (F + 1)" "ps_todo q = [] \<or> ps_sacks q = []" by blast
    have "t \<le> t2" "max t2 (F + 1) = max t (F + 1)" using q(3,4) s(4,5) by simp_all
    with q show ?thesis unfolding eq by blast
  qed
qed

section \<open>UpdateScoreBoard\<close>

text \<open>The list, when there is one, reaches beyond \<open>fack_\<close>; without one, \<open>fack_\<close> is reset.\<close>

definition sb_inv :: "int \<Rightarrow> int \<Rightarrow> scoreboard \<Rightarrow> bool" where
  "sb_inv u t s \<longleftrightarrow> sb_ok u t s \<and> (if sb_nodes s = [] then fack s = 0 else fack s < t)"

lemma clear_inv: "sb_inv u u (clear_scoreboard s)"
  by (simp add: sb_inv_def sb_ok_def sb_core_def clear_scoreboard_def)

lemma new_inv: "sb_inv u u new_scoreboard"
  by (simp add: sb_inv_def sb_ok_def sb_core_def new_scoreboard_def)

lemma traverse_ok:
  assumes "sb_inv (a + 1) t s" and "sorted (map fst bs)" and "\<forall>b \<in> set bs. a < fst b \<and> fst b < snd b"
    and "bs \<noteq> [] \<or> sb_nodes s \<noteq> []"
  shows "\<exists>fl' s' t'. traverse_scoreboard a bs d th fl s = Some (fl', s') \<and> sb_inv (a + 1) t' s'
    \<and> packets_of SKB_SACKED (sb_nodes s') = packets_of SKB_SACKED (sb_nodes s) \<union> blocks bs \<inter> {a<..<t'}
    \<and> t' = max t (fack s' + 1)
    \<and> fack s' = (if bs \<noteq> [] \<and> fack s < snd (last bs) - 1 then snd (last bs) - 1 else fack s)"
proof -
  let ?up = "bs \<noteq> [] \<and> fack s < snd (last bs) - 1"
  let ?F = "if ?up then snd (last bs) - 1 else fack s"
  let ?A = "packets_of SKB_SACKED (sb_nodes s)"
  define th1 where "th1 = (if ?up then True else th)"
  define s1 where "s1 = (if sb_nodes s = []
        then s\<lparr>fack := ?F, sb_nodes := [new_node (sb_fresh s) (a + 1) ?F SKB_INFLIGHT],
               sb_fresh := sb_fresh s + 1, nxt_to_retrx := None\<rparr>
        else s\<lparr>fack := ?F, nxt_to_retrx := None\<rparr>)"
  define p where "p = \<lparr> ps_done = [], ps_todo = sb_nodes s1, ps_sacks = bs, ps_thorough = th1,
            ps_flag = fl, ps_sb = s1 \<rparr>"
  have eq: "traverse_scoreboard a bs d th fl s = do {
     p \<leftarrow> pass_loop d p;
     Some (ps_flag p, (ps_sb p)\<lparr>sb_nodes := rev (ps_done p) @ ps_todo p\<rparr>) }"
    by (simp add: traverse_scoreboard_def p_def s1_def th1_def)
  have last: "bs \<noteq> [] \<Longrightarrow> a + 1 < snd (last bs)"
    using assms(3) last_in_set [of bs] by fastforce
  have Fa: "a + 1 \<le> ?F" if "sb_nodes s = []" using that assms(4) last by auto
  define t1 where "t1 = (if sb_nodes s = [] then ?F + 1 else t)"
  have core: "sb_core (a + 1) t (sb_nodes s) s" and f: "if sb_nodes s = [] then fack s = 0 else fack s < t"
    using assms(1) by (auto simp: sb_inv_def sb_ok_def)
  have c1: "sb_core (a + 1) t1 (sb_nodes s1) s1" and tt: "t \<le> t1"
    using core Fa by (auto simp: sb_core_def s1_def t1_def new_node_def get_end_def)
  have F1: "?F < t1 \<or> ?up" using f by (auto simp: t1_def)
  have s1: "fack s1 = ?F" "nxt_to_retrx s1 = None" "sb_nodes s1 \<noteq> []" "packets_of SKB_SACKED (sb_nodes s1) = ?A"
    by (auto simp: s1_def new_node_def)
  have "pass_inv (a + 1) t1 ?F ?A bs (a + 1) p"
    using c1 s1 assms(2) unfolding pass_inv_def pass_core_def ptr_behind_def p_def by auto
  from pass_loop_ok [OF this, of d] obtain q t' b' where q: "pass_loop d p = Some q"
    "pass_inv (a + 1) t' ?F ?A bs b' q" "t1 \<le> t'" "ps_todo q = [] \<or> ps_sacks q = []"
    "max t' (?F + 1) = max t1 (?F + 1)" by blast
  let ?N = "rev (ps_done q) @ ps_todo q"
  have i: "sb_core (a + 1) t' ?N (ps_sb q)" "fack (ps_sb q) = ?F"
    "\<forall>i. nxt_to_retrx (ps_sb q) = Some i \<longrightarrow> i \<in> nd_id ` set (ps_done q)"
    "\<forall>c \<in> set bs. c \<in> set (ps_sacks q) \<or> snd c \<le> b'" "consec (a + 1) (rev (ps_done q)) b'"
    "blocks bs \<inter> {a + 1..<b'} \<subseteq> packets_of SKB_SACKED (rev (ps_done q))"
    "?A \<subseteq> packets_of SKB_SACKED ?N" "packets_of SKB_SACKED ?N \<subseteq> ?A \<union> blocks bs" "ps_todo q = [] \<longrightarrow> ?F < t'"
    using q(2) by (auto simp: pass_inv_def pass_core_def ptr_behind_def)
  have con: "consec (a + 1) ?N t'" using i(1) by (simp add: sb_core_def)
  then obtain c where c: "consec (a + 1) (rev (ps_done q)) c" "consec c (ps_todo q) t'"
    by (auto simp: consec_append)
  have cb: "c = b'" by (rule consec_unique [OF c(1) i(5)])
  have bt: "b' \<le> t'" using c(2) cb consec_le by blast
  have all: "blocks bs \<inter> {a<..<t'} \<subseteq> {a + 1..<b'}"
  proof (cases "ps_todo q = []")
    case True
    then have "b' = t'" using c(2) cb by simp
    then show ?thesis by auto
  next
    case False
    then have "\<forall>c \<in> set bs. snd c \<le> b'" using i(4) q(4) by auto
    then show ?thesis by (fastforce simp: blocks_def)
  qed
  have Ft: "?F < t'"
  proof (cases "ps_todo q = []")
    case False
    then have b: "\<forall>c \<in> set bs. snd c \<le> b'" using i(4) q(4) by auto
    show ?thesis
    proof (cases ?up)
      case True
      then have "snd (last bs) \<le> b'" using b last_in_set by blast
      with True bt show ?thesis by simp
    next
      case False
      with F1 q(3) show ?thesis by auto
    qed
  qed (use i(9) in blast)
  let ?s' = "(ps_sb q)\<lparr>sb_nodes := ?N\<rparr>"
  have "sb_inv (a + 1) t' ?s'"
  proof -
    have "a + 1 < t'"
    proof (cases "sb_nodes s = []")
      case True
      then show ?thesis using Fa Ft by simp
    next
      case False
      then have "a + 1 < t" using core consec_nil_iff [of "a + 1" "sb_nodes s" t] consec_le [of "a + 1" "sb_nodes s" t]
        by (simp add: sb_core_def)
      with tt q(3) show ?thesis by simp
    qed
    then have "?N \<noteq> []" using con by auto
    then have nil: "(?N = []) = False" by simp
    have "\<forall>j. nxt_to_retrx (ps_sb q) = Some j \<longrightarrow> j \<in> nd_id ` set ?N" using i(3) by auto
    then have "sb_ok (a + 1) t' ?s'" using i(1) by (simp add: sb_ok_def)
    moreover have "fack ?s' < t'" using i(2) Ft by simp
    moreover have "sb_nodes ?s' \<noteq> []" using nil by simp
    ultimately show ?thesis unfolding sb_inv_def by (simp only: if_False)
  qed
  moreover have "packets_of SKB_SACKED ?N = ?A \<union> blocks bs \<inter> {a<..<t'}"
  proof -
    have "packets_of SKB_SACKED ?N \<subseteq> {a<..<t'}" using pkts_bounds [OF con] by fastforce
    moreover have "blocks bs \<inter> {a<..<t'} \<subseteq> packets_of SKB_SACKED ?N" using all i(6) by auto
    ultimately show ?thesis using i(7,8) by blast
  qed
  moreover have "t' = max t (?F + 1)"
  proof -
    have "t = a + 1" if "sb_nodes s = []" using core that by (simp add: sb_core_def)
    then have "max t1 (?F + 1) = max t (?F + 1)" using Fa unfolding t1_def by simp
    moreover have "t' = max t1 (?F + 1)" using q(5) Ft by simp
    ultimately show ?thesis by simp
  qed
  moreover have "fack ?s' = ?F" using i(2) by simp
  moreover have "do { p \<leftarrow> pass_loop d p; Some (ps_flag p, (ps_sb p)\<lparr>sb_nodes := rev (ps_done p) @ ps_todo p\<rparr>) }
    = Some (ps_flag q, ?s')" using q(1) by simp
  ultimately show ?thesis unfolding eq
    by (intro exI [of _ "ps_flag q"] exI [of _ ?s'] exI [of _ t']) simp
qed

text \<open>The cumulative part.\<close>

lemma update_clean_ok:
  assumes "sb_inv u t s" and "u \<le> a + 1"
  shows "\<exists>th fl s0 s1. clean_rtx_queue a s = Some (th, fl, s0)
    \<and> s1 = (if sb_nodes s0 = [] then clear_scoreboard s0 else s0) \<and> sb_inv (a + 1) (max t (a + 1)) s1
    \<and> sb_nodes s1 = sb_nodes s0
    \<and> packets_of SKB_SACKED (sb_nodes s1) = packets_of SKB_SACKED (sb_nodes s) \<inter> {a<..}"
proof -
  from assms clean_rtx_queue_ok [of u t s a] obtain th fl s0 where
    c: "clean_rtx_queue a s = Some (th, fl, s0)" "sb_ok (a + 1) (max t (a + 1)) s0"
      "\<forall>f. packets_of f (sb_nodes s0) = packets_of f (sb_nodes s) \<inter> {a<..}" "fack s0 = fack s"
    by (auto simp: sb_inv_def)
  show ?thesis
  proof (cases "sb_nodes s0 = []")
    case True
    then have "max t (a + 1) = a + 1" using c(2) by (simp add: sb_ok_def sb_core_def)
    then have "sb_inv (a + 1) (max t (a + 1)) (clear_scoreboard s0)" by (simp add: clear_inv)
    moreover have "sb_nodes (clear_scoreboard s0) = sb_nodes s0" using True by (simp add: clear_scoreboard_def)
    ultimately show ?thesis using c(1,3) True
      by (intro exI [of _ th] exI [of _ fl] exI [of _ s0] exI [of _ "clear_scoreboard s0"]) simp
  next
    case False
    have "sb_nodes s \<noteq> []"
    proof
      assume e: "sb_nodes s = []"
      then have "clean_rtx_queue a s = Some (False, 0, s)" by (simp add: clean_rtx_queue_def e)
      with c(1) e False show False by simp
    qed
    with assms(1) c(2,4) False have "sb_inv (a + 1) (max t (a + 1)) s0" by (auto simp: sb_inv_def)
    with c(1,3) False show ?thesis
      by (intro exI [of _ th] exI [of _ fl] exI [of _ s0] exI [of _ s0]) simp
  qed
qed

text \<open>
  The whole of \<open>UpdateScoreBoard\<close>: \<open>n\<close> is the next packet to send, \<open>a\<close> the acknowledged one; the
  blocks that the filter lets through lie above \<open>a\<close> and are not empty.
\<close>

definition good_sacks :: "int \<Rightarrow> int \<Rightarrow> sack list \<Rightarrow> bool" where
  "good_sacks a n sa \<longleftrightarrow> (\<forall>b \<in> set sa. a \<le> fst b \<longrightarrow> a < fst b \<and> fst b < snd b \<and> snd b \<le> n)"

text \<open>
  Where the list ends afterwards: where it ended, or at the end of the block with the largest left end.
\<close>

definition update_end :: "int \<Rightarrow> int \<Rightarrow> sack list \<Rightarrow> int" where
  "update_end a t sa =
    (let bs = sort_sacks a sa; e = max t (a + 1) in if bs = [] then e else max e (snd (last bs)))"

lemma update_ok:
  assumes "sb_inv u t s" and "u \<le> a + 1" and "- 1 \<le> a" and "t \<le> n" and "a < n" and "good_sacks a n sa"
  shows "\<exists>fl s'. update_scoreboard a sa d s = Some (fl, s') \<and> sb_inv (a + 1) (update_end a t sa) s'
    \<and> update_end a t sa \<le> n
    \<and> packets_of SKB_SACKED (sb_nodes s')
      = packets_of SKB_SACKED (sb_nodes s) \<inter> {a<..}
        \<union> blocks (filter (\<lambda>b. a \<le> fst b) sa) \<inter> {a<..<update_end a t sa}"
proof -
  let ?t1 = "max t (a + 1)"
  from update_clean_ok [OF assms(1,2)] obtain th fl s0 s1 where
    c: "clean_rtx_queue a s = Some (th, fl, s0)" and
    s1: "s1 = (if sb_nodes s0 = [] then clear_scoreboard s0 else s0)" "sb_inv (a + 1) ?t1 s1"
      "sb_nodes s1 = sb_nodes s0" "packets_of SKB_SACKED (sb_nodes s1) = packets_of SKB_SACKED (sb_nodes s) \<inter> {a<..}"
    by blast
  define th1 where "th1 = (if sb_nodes s0 = [] then False else th)"
  let ?bs = "sort_sacks a sa" and ?B = "blocks (filter (\<lambda>b. a \<le> fst b) sa)"
  have B: "blocks ?bs = ?B" using sort_sacks_ok [of a sa] by (simp add: blocks_def)
  have nil: "?B = {}" if "?bs = []" using B that by simp
  have sn: "sa = [] \<Longrightarrow> ?bs = []" by (simp add: sort_sacks_def)
  have good: "\<forall>b \<in> set ?bs. a < fst b \<and> fst b < snd b \<and> snd b \<le> n"
    using sort_sacks_ok [of a sa] assms(6) by (auto simp: good_sacks_def)
  have last: "snd (last ?bs) \<le> n" "a + 1 < snd (last ?bs)" if "?bs \<noteq> []"
    using good last_in_set [OF that] by fastforce+
  have le: "update_end a t sa \<le> n" using assms(4,5) last by (simp add: update_end_def Let_def)
  have eq: "update_scoreboard a sa d s = (if \<not> th1 \<and> ?bs = [] then Some (fl, s1)
    else traverse_scoreboard a ?bs d th1 fl s1)"
    using sn by (auto simp: update_scoreboard_def c s1(1) th1_def)
  show ?thesis
  proof (cases "\<not> th1 \<and> ?bs = []")
    case True
    with s1(2,4) nil le show ?thesis unfolding eq
      by (intro exI [of _ fl] exI [of _ s1]) (simp add: update_end_def)
  next
    case False
    then have ne: "?bs \<noteq> [] \<or> sb_nodes s1 \<noteq> []" using s1(3) by (auto simp: th1_def)
    moreover have "\<forall>b \<in> set ?bs. a < fst b \<and> fst b < snd b" using good by blast
    moreover have "sorted (map fst ?bs)" using sort_sacks_ok by blast
    ultimately obtain fl' s' t' where tr: "traverse_scoreboard a ?bs d th1 fl s1 = Some (fl', s')"
      "sb_inv (a + 1) t' s'" "packets_of SKB_SACKED (sb_nodes s') = packets_of SKB_SACKED (sb_nodes s1) \<union> blocks ?bs \<inter> {a<..<t'}"
      "t' = max ?t1 (fack s' + 1)"
      "fack s' = (if ?bs \<noteq> [] \<and> fack s1 < snd (last ?bs) - 1 then snd (last ?bs) - 1 else fack s1)"
      using traverse_ok [OF s1(2), of ?bs d th1 fl] by blast
    have "if sb_nodes s1 = [] then fack s1 = 0 else fack s1 < ?t1" using s1(2) by (simp add: sb_inv_def)
    then have "t' = update_end a t sa"
      using tr(4,5) ne last assms(3) by (auto simp: update_end_def Let_def split: if_splits)
    with tr(1-3) False s1(4) le show ?thesis unfolding eq B by auto
  qed
qed

text \<open>
  The list reaches over all blocks unless one that starts earlier ends later than the last one: a block that
  contains the last one and goes on after it.
\<close>

lemma update_end_covers:
  assumes "\<forall>b \<in> set sa. a \<le> fst b \<longrightarrow> a < fst b \<and> snd b \<le> snd (last (sort_sacks a sa))"
  shows "blocks (filter (\<lambda>b. a \<le> fst b) sa) \<subseteq> {a<..<update_end a t sa}"
proof
  fix x assume "x \<in> blocks (filter (\<lambda>b. a \<le> fst b) sa)"
  then obtain b where b: "b \<in> set sa" "a \<le> fst b" "fst b \<le> x" "x < snd b" by (auto simp: blocks_def)
  then have "b \<in> set (sort_sacks a sa)" using sort_sacks_ok [of a sa] by simp
  then have "snd (last (sort_sacks a sa)) \<le> update_end a t sa" by (auto simp: update_end_def Let_def)
  with assms b show "x \<in> {a<..<update_end a t sa}" by fastforce
qed

section \<open>Properties\<close>

text \<open>
  C6: \<open>UpdateScoreBoard\<close>, on an empty list or any other consistent scoreboard, for blocks that are not empty and
  lie above the acknowledged packet and below the next one to send, in any order, disjoint, overlapping or nested: it
  ends without failing an assertion and keeps the scoreboard consistent. The list then ends where it
  ended before, or at the end of the block with the largest left end if that is later (\<open>update_end\<close>), and the packets marked as
  selectively acknowledged are exactly those that were and are above the acknowledgment, and those of the
  blocks up to the end of the list. If no block reaches beyond that block, as with disjoint ones, these are all packets of
  the blocks.
\<close>

theorem update_scoreboard_marks:
  assumes "sb_inv u t s" and "u \<le> a + 1" and "- 1 \<le> a" and "t \<le> n" and "a < n" and "good_sacks a n sa"
  defines "B \<equiv> blocks (filter (\<lambda>b. a \<le> fst b) sa)"
  shows "\<exists>fl s'. update_scoreboard a sa d s = Some (fl, s') \<and> sb_inv (a + 1) (update_end a t sa) s'
    \<and> packets_of SKB_SACKED (sb_nodes s')
      = packets_of SKB_SACKED (sb_nodes s) \<inter> {a<..} \<union> B \<inter> {a<..<update_end a t sa}
    \<and> ((\<forall>b \<in> set sa. snd b \<le> snd (last (sort_sacks a sa)))
      \<longrightarrow> packets_of SKB_SACKED (sb_nodes s') = packets_of SKB_SACKED (sb_nodes s) \<inter> {a<..} \<union> B)"
proof -
  have "B \<subseteq> {a<..<update_end a t sa}" if "\<forall>b \<in> set sa. snd b \<le> snd (last (sort_sacks a sa))"
    using that assms(6) unfolding B_def by (intro update_end_covers) (auto simp: good_sacks_def)
  with update_ok [OF assms(1-6), of d] show ?thesis unfolding B_def by blast
qed

theorem update_scoreboard_marks_witness:
  "\<exists>fl s'. update_scoreboard 1 [(7, 9), (4, 6), (0, 1)] 3 new_scoreboard = Some (fl, s')
    \<and> packets_of SKB_SACKED (sb_nodes s') = {4, 5, 7, 8}"
proof -
  have n: "sb_nodes new_scoreboard = []" by (simp add: new_scoreboard_def)
  have "sort_sacks 1 [(7, 9), (4, 6), (0, 1)] = [(4, 6), (7, 9)]" by code_simp
  moreover have "good_sacks 1 9 [(7, 9), (4, 6), (0, 1)]" by (simp add: good_sacks_def)
  moreover have "{7..<9} \<union> {4..<6} = {4, 5, 7, 8 :: int}" by auto
  ultimately show ?thesis
    using update_scoreboard_marks [of 1 1 new_scoreboard 1 9 "[(7, 9), (4, 6), (0, 1)]" 3]
    by (auto simp: new_inv n)
qed

text \<open>
  A block that contains the last one and goes on after it is cut off at the end of the last one, when the list does not
  reach further: packets 6 and 7 stay unmarked.
\<close>

lemma update_cuts_nested:
  "\<exists>fl s'. update_scoreboard 0 [(3, 8), (4, 6)] 3 new_scoreboard = Some (fl, s')
    \<and> packets_of SKB_SACKED (sb_nodes s') = {3, 4, 5}"
proof -
  have n: "sb_nodes new_scoreboard = []" by (simp add: new_scoreboard_def)
  have "sort_sacks 0 [(3, 8), (4, 6)] = [(3, 8), (4, 6)]" by code_simp
  then have "update_end 0 1 [(3, 8), (4, 6)] = 6" by (simp add: update_end_def)
  moreover have "good_sacks 0 8 [(3, 8), (4, 6)]" by (simp add: good_sacks_def)
  moreover have "({3..<8} \<union> {4..<6}) \<inter> {0<..<6} = {3, 4, 5 :: int}" by auto
  ultimately show ?thesis
    using update_ok [of 1 1 new_scoreboard 0 8 "[(3, 8), (4, 6)]" 3] by (auto simp: new_inv n)
qed

text \<open>
  Two limits of the traversal. A repeated block that the list already holds ends the traversal before
  a lost packet: the pointer is left NULL and the packet is not offered for retransmission. And a block that
  starts at the acknowledged packet passes the filter for duplicates: on an empty list it
  makes a node without packets.
\<close>

definition forgetful_board :: scoreboard where
  "forgetful_board = \<lparr> sb_nodes = [
      \<lparr> nd_id = 0, nd_flag = SKB_RETRANSMITTED, nd_seq = 1, nd_nxt = 20, nd_retran = 0 \<rparr>,
      \<lparr> nd_id = 1, nd_flag = SKB_SACKED, nd_seq = 2, nd_nxt = 2, nd_retran = 1 \<rparr>,
      \<lparr> nd_id = 2, nd_flag = SKB_RETRANSMITTED, nd_seq = 3, nd_nxt = 20, nd_retran = 2 \<rparr>,
      \<lparr> nd_id = 3, nd_flag = SKB_LOST, nd_seq = 4, nd_nxt = 4, nd_retran = 0 \<rparr>,
      \<lparr> nd_id = 4, nd_flag = SKB_SACKED, nd_seq = 5, nd_nxt = 8, nd_retran = 0 \<rparr>],
    nxt_to_retrx = Some 3, acked_rtx_id = 1, rtx_id = 3, fack = 8, fack_out = 1, sack_out = 5,
    last_rtx_seq = 3, sb_fresh = 5 \<rparr>"

lemma update_forgets_lost:
  "update_scoreboard 0 [(2, 3)] 3 forgetful_board = Some (0, forgetful_board\<lparr>nxt_to_retrx := None\<rparr>)"
  by (simp add: update_scoreboard_def forgetful_board_def clean_rtx_queue_def should_clean_def
      sort_sacks_def insert_sack_def traverse_scoreboard_def pass_loop.simps pass_step_def
      pass_match_def pass_check_def pass_advance_def get_end_def mergable_def Let_def)

lemma dsack_makes_empty_node:
  "update_scoreboard 5 [(5, 6)] 3 new_scoreboard
    = Some (0, new_scoreboard\<lparr>sb_nodes := [new_node 0 6 5 SKB_INFLIGHT], fack := 5, sb_fresh := 1\<rparr>)"
  by (simp add: update_scoreboard_def new_scoreboard_def clear_scoreboard_def clean_rtx_queue_def
      sort_sacks_def insert_sack_def traverse_scoreboard_def pass_loop.simps pass_step_def
      pass_match_def pass_check_def pass_advance_def get_end_def new_node_def Let_def)

end
