(* ===== verification/Sender.thy ===== *)
theory Sender
  imports Scoreboard_Update
begin

text \<open>
  Sending: \<open>LinuxTcpAgent::send_much\<close> of src/ns-2.34/tcp/tcp-linux.cc over the scoreboard, with
  the sequence numbers of \<open>TcpAgent::output\<close> (tcp.cc). While the packets in flight are
  fewer than the window it retransmits what the scoreboard offers, then sends new data. The theorems:
  the loop ends, never fails an assertion of the scoreboard and never exceeds the window; every
  packet it sends counts once; after a timeout it retransmits the lost packets in order before
  any new data.

  The timers, \<open>overhead_\<close> and the application are inputs: \<open>send_much\<close> gets whether a delayed send
  is pending, whether \<open>overhead_\<close> is zero, and \<open>syn\<close> says that the first packet is a SYN (which adds a
  packet to \<open>curseq_\<close>). The connection limit \<open>max_connects_\<close> is off, as by default.
\<close>

record sender =
  sn_scb :: scoreboard
  sn_highest_ack :: int
  sn_t_seqno :: int
  sn_maxseq :: int
  sn_curseq :: int
  sn_npif :: int \<comment> \<open>\<open>next_pkts_in_flight_\<close>\<close>

definition sender_in_flight :: "sender \<Rightarrow> int" where
  "sender_in_flight sn = sb_packets_in_flight (sn_highest_ack sn + 1) (sn_t_seqno sn) (sn_scb sn)"

text \<open>The sequence numbers after \<open>output\<close>, and the rest of the loop body after it.\<close>

definition output_syn :: "bool \<Rightarrow> int \<Rightarrow> sender \<Rightarrow> sender" where
  "output_syn syn q sn = (if q = 0 \<and> syn then sn\<lparr>sn_curseq := sn_curseq sn + 1\<rparr> else sn)"

definition sender_output :: "bool \<Rightarrow> int \<Rightarrow> sender \<Rightarrow> sender" where
  "sender_output syn q sn =
    (let sn = output_syn syn q sn in if sn_maxseq sn < q then sn\<lparr>sn_maxseq := q\<rparr> else sn)"

definition sender_found :: "bool \<Rightarrow> int \<Rightarrow> sender \<Rightarrow> sender" where
  "sender_found syn q sn =
    (let sn = sender_output syn q sn;
         sn = sn\<lparr>sn_npif := min (sn_npif sn) (max (sender_in_flight sn - 1) 1)\<rparr>
     in if sn_t_seqno sn \<le> q then sn\<lparr>sn_t_seqno := q + 1\<rparr> else sn)"

text \<open>One packet; None if there is nothing to send.\<close>

definition send_one :: "bool \<Rightarrow> sender \<Rightarrow> (int option \<times> sender) option" where
  "send_one syn sn = do {
     (q, b) \<leftarrow> get_next_retran (sn_scb sn);
     let sn = sn\<lparr>sn_scb := b\<rparr>;
     if q = - 1
     then if sn_curseq sn \<le> sn_t_seqno sn then Some (None, sn)
          else let q = sn_t_seqno sn; sn = sn\<lparr>sn_t_seqno := q + 1\<rparr>
               in Some (Some q, sender_found syn q sn)
     else do {
       b \<leftarrow> mark_retran q (sn_t_seqno sn) b;
       Some (Some q, sender_found syn q (sn\<lparr>sn_scb := b\<rparr>))
     }
   }"

text \<open>The loop, with the window \<open>win\<close>, \<open>maxburst\<close> and \<open>npacket\<close>; it returns the packets sent.\<close>

partial_function (option) send_loop ::
  "bool \<Rightarrow> int \<Rightarrow> int \<Rightarrow> int \<Rightarrow> sender \<Rightarrow> (int list \<times> sender) option" where
  "send_loop syn win maxburst npacket sn =
    (if sender_in_flight sn < max win (sn_npif sn)
     then do {
       (r, sn) \<leftarrow> send_one syn sn;
       case r of
         None \<Rightarrow> Some ([], sn)
       | Some q \<Rightarrow>
           if maxburst \<noteq> 0 \<and> maxburst \<le> npacket + 1 then Some ([q], sn)
           else do {
             (qs, sn) \<leftarrow> send_loop syn win maxburst (npacket + 1) sn;
             Some (q # qs, sn)
           }
     }
     else Some ([], sn))"

definition send_much ::
  "bool \<Rightarrow> bool \<Rightarrow> bool \<Rightarrow> bool \<Rightarrow> int \<Rightarrow> int \<Rightarrow> sender \<Rightarrow> (int list \<times> sender) option" where
  "send_much force pending overhead_zero syn win maxburst sn =
    (if \<not> force \<and> pending then Some ([], sn)
     else let sn = sn\<lparr>sn_npif := min (sn_npif sn) (sender_in_flight sn + 1)\<rparr>
          in if overhead_zero \<or> force then send_loop syn win maxburst 0 sn else Some ([], sn))"

section \<open>One packet\<close>

definition sender_ok :: "sender \<Rightarrow> bool" where
  "sender_ok sn \<longleftrightarrow> (\<exists>t. sb_inv (sn_highest_ack sn + 1) t (sn_scb sn) \<and> t \<le> sn_t_seqno sn)
     \<and> - 1 \<le> sn_highest_ack sn \<and> sn_highest_ack sn < sn_t_seqno sn \<and> sn_maxseq sn = sn_t_seqno sn - 1"

abbreviation lost_packets :: "sender \<Rightarrow> int set" where
  "lost_packets sn \<equiv> packets_of SKB_LOST (sb_nodes (sn_scb sn))"

abbreviation sacked_packets :: "sender \<Rightarrow> int set" where
  "sacked_packets sn \<equiv> packets_of SKB_SACKED (sb_nodes (sn_scb sn))"

abbreviation sender_first :: "sender \<Rightarrow> bool" where
  "sender_first sn \<equiv> first_ptr (nxt_to_retrx (sn_scb sn)) (sb_nodes (sn_scb sn))"

lemma sender_found_sel:
  assumes "q < sn_t_seqno sn" and "sn_maxseq sn \<le> sn_t_seqno sn - 1"
  shows "sn_scb (sender_found syn q sn) = sn_scb sn"
    and "sn_highest_ack (sender_found syn q sn) = sn_highest_ack sn"
    and "sn_t_seqno (sender_found syn q sn) = sn_t_seqno sn"
    and "sn_maxseq (sender_found syn q sn) = max (sn_maxseq sn) q"
    and "sn_npif (sender_found syn q sn) = min (sn_npif sn) (max (sender_in_flight sn - 1) 1)"
    and "sender_in_flight (sender_found syn q sn) = sender_in_flight sn"
  using assms by (auto simp: sender_found_def sender_output_def output_syn_def Let_def sender_in_flight_def)

lemma sender_in_flight_range:
  assumes "sender_ok sn"
  shows "0 \<le> sender_in_flight sn" and "sender_in_flight sn \<le> sn_t_seqno sn - sn_highest_ack sn - 1"
proof -
  obtain t where ok: "sb_ok (sn_highest_ack sn + 1) t (sn_scb sn)" and t: "t \<le> sn_t_seqno sn"
    using assms by (auto simp: sender_ok_def sb_inv_def)
  show "0 \<le> sender_in_flight sn" unfolding sender_in_flight_def by (rule in_flight_nonneg [OF ok t])
  have c: "consec (sn_highest_ack sn + 1) (sb_nodes (sn_scb sn)) t"
    "fack_out (sn_scb sn) = count_pkts SKB_LOST (sb_nodes (sn_scb sn))"
    "sack_out (sn_scb sn) = count_pkts SKB_SACKED (sb_nodes (sn_scb sn))"
    using ok by (auto simp: sb_ok_def sb_core_def)
  show "sender_in_flight sn \<le> sn_t_seqno sn - sn_highest_ack sn - 1"
    using count_nonneg [OF c(1), of SKB_LOST] count_nonneg [OF c(1), of SKB_SACKED] c(2,3)
    by (simp add: sender_in_flight_def sb_packets_in_flight_def)
qed

text \<open>The outcomes of one round.\<close>

definition one_sent :: "sender \<Rightarrow> int \<Rightarrow> sender \<Rightarrow> bool" where
  "one_sent sn q sn' \<longleftrightarrow> sender_in_flight sn' = sender_in_flight sn + 1
     \<and> sn_npif sn' = min (sn_npif sn) (max (sender_in_flight sn' - 1) 1)
     \<and> (if q = sn_t_seqno sn
        then sn_t_seqno sn' = q + 1 \<and> lost_packets sn' = lost_packets sn \<and> nxt_to_retrx (sn_scb sn') = None
          \<and> (sender_first sn \<longrightarrow> lost_packets sn = {})
        else q \<in> lost_packets sn \<and> q < sn_t_seqno sn \<and> sn_t_seqno sn' = sn_t_seqno sn \<and> nxt_to_retrx (sn_scb sn) \<noteq> None
          \<and> lost_packets sn' = lost_packets sn - {q} \<and> (sender_first sn \<longrightarrow> q = Min (lost_packets sn)))"

definition none_sent :: "sender \<Rightarrow> sender \<Rightarrow> bool" where
  "none_sent sn sn' \<longleftrightarrow> sn_t_seqno sn' = sn_t_seqno sn \<and> sn_curseq sn' = sn_curseq sn
     \<and> sn_highest_ack sn' = sn_highest_ack sn \<and> sn_curseq sn \<le> sn_t_seqno sn
     \<and> sender_in_flight sn' = sender_in_flight sn \<and> nxt_to_retrx (sn_scb sn') = None
     \<and> lost_packets sn' = lost_packets sn \<and> (sender_first sn \<longrightarrow> lost_packets sn = {})"

lemma send_one_ok:
  assumes "sender_ok sn"
  shows "\<exists>r sn'. send_one syn sn = Some (r, sn') \<and> sender_ok sn' \<and> sacked_packets sn' = sacked_packets sn
    \<and> sn_highest_ack sn' = sn_highest_ack sn \<and> (sender_first sn \<longrightarrow> sender_first sn')
    \<and> (case r of None \<Rightarrow> none_sent sn sn' | Some q \<Rightarrow> one_sent sn q sn')"
proof -
  let ?u = "sn_highest_ack sn + 1" and ?n = "sn_t_seqno sn"
  obtain t where inv: "sb_inv ?u t (sn_scb sn)" and tn: "t \<le> ?n" and h: "- 1 \<le> sn_highest_ack sn"
      "sn_highest_ack sn < ?n" and mx: "sn_maxseq sn = ?n - 1"
    using assms by (auto simp: sender_ok_def)
  have ok: "sb_ok ?u t (sn_scb sn)" using inv by (simp add: sb_inv_def)
  have "0 \<le> ?u" using h by simp
  from get_next_retran_ok [OF ok this] obtain q b where
    g: "get_next_retran (sn_scb sn) = Some (q, b)" "sb_ok ?u t b" "sb_nodes b = sb_nodes (sn_scb sn)"
      "fack_out b = fack_out (sn_scb sn)" "sack_out b = sack_out (sn_scb sn)"
      "if q = - 1 then nxt_to_retrx b = None
       else q \<in> lost_packets sn
         \<and> (\<exists>n. nxt_to_retrx b = Some (nd_id n) \<and> n \<in> set (sb_nodes (sn_scb sn)) \<and> nd_flag n = SKB_LOST \<and> nd_seq n = q)"
    by blast
  have fk: "fack b = fack (sn_scb sn)" using get_next_retran_frame [OF g(1)] by (metis scoreboard.select_convs(5) scoreboard.surjective scoreboard.update_convs(2))
  have first: "sender_first sn \<longrightarrow> first_ptr (nxt_to_retrx b) (sb_nodes b)
      \<and> q = (if lost_packets sn = {} then - 1 else Min (lost_packets sn))"
    using get_next_first [OF ok _ g(1)] g(3) by simp
  have binv: "sb_inv ?u t b" using inv g(2,3) fk by (simp add: sb_inv_def)
  have con: "consec ?u (sb_nodes (sn_scb sn)) t" using ok by (simp add: sb_ok_def sb_core_def)
  have range: "lost_packets sn \<subseteq> {?u..<?n}" using pkts_bounds [OF con, of SKB_LOST] tn by auto
  show ?thesis
  proof (cases "q = - 1")
    case True
    let ?b = "sn\<lparr>sn_scb := b\<rparr>"
    have nb: "nxt_to_retrx b = None" using g(6) True by simp
    have pif: "sender_in_flight ?b = sender_in_flight sn" by (simp add: sender_in_flight_def sb_packets_in_flight_def g(4,5))
    have "Min (lost_packets sn) \<noteq> - 1" if "lost_packets sn \<noteq> {}"
      using Min_in [OF count_card(2) [OF con] that] range h by fastforce
    then have nolost: "sender_first sn \<longrightarrow> lost_packets sn = {}" using first True by (metis (full_types))
    show ?thesis
    proof (cases "sn_curseq sn \<le> ?n")
      case stop: True
      have "send_one syn sn = Some (None, ?b)" using g(1) True stop by (simp add: send_one_def Let_def)
      moreover have "sender_ok ?b" using binv tn h mx by (auto simp: sender_ok_def)
      moreover have "none_sent sn ?b" using pif nb g(3) stop nolost by (simp add: none_sent_def)
      ultimately show ?thesis using g(3) first by auto
    next
      case False
      let ?c = "?b\<lparr>sn_t_seqno := ?n + 1\<rparr>"
      let ?s = "sender_found syn ?n ?c"
      have eq: "send_one syn sn = Some (Some ?n, ?s)" using g(1) True False by (simp add: send_one_def Let_def)
      have sel: "sn_scb ?s = b" "sn_highest_ack ?s = sn_highest_ack sn" "sn_t_seqno ?s = ?n + 1" "sn_maxseq ?s = ?n"
        "sn_npif ?s = min (sn_npif sn) (max (sender_in_flight ?c - 1) 1)" "sender_in_flight ?s = sender_in_flight ?c"
        using sender_found_sel [of ?n ?c syn] mx by simp_all
      have "sender_in_flight ?c = sender_in_flight sn + 1"
        using pif by (simp add: sender_in_flight_def sb_packets_in_flight_def)
      then have "one_sent sn ?n ?s" using sel nb g(3) nolost by (simp add: one_sent_def)
      moreover have "sender_ok ?s" unfolding sender_ok_def sel using binv tn h by auto
      ultimately show ?thesis using eq sel g(3) first by auto
    qed
  next
    case False
    with g(3,6) obtain n where n: "nxt_to_retrx b = Some (nd_id n)" "n \<in> set (sb_nodes b)" "nd_flag n = SKB_LOST"
      "nd_seq n = q" and ql: "q \<in> lost_packets sn" by auto
    from mark_retran_ok [OF g(2) n, of ?n] obtain b' where
      m: "mark_retran q ?n b = Some b'" "sb_ok ?u t b'" "lost_packets (sn\<lparr>sn_scb := b'\<rparr>) = packets_of SKB_LOST (sb_nodes b) - {q}"
        "sacked_packets (sn\<lparr>sn_scb := b'\<rparr>) = packets_of SKB_SACKED (sb_nodes b)"
        "sb_packets_in_flight ?u ?n b' = sb_packets_in_flight ?u ?n b + 1"
        "fack b' = fack b" "sb_nodes b' \<noteq> []"
        "first_ptr (nxt_to_retrx b) (sb_nodes b) \<longrightarrow> first_ptr (nxt_to_retrx b') (sb_nodes b')"
      by auto
    let ?c = "sn\<lparr>sn_scb := b'\<rparr>"
    let ?s = "sender_found syn q ?c"
    have eq: "send_one syn sn = Some (Some q, ?s)" using g(1) False m(1) by (simp add: send_one_def Let_def)
    have qn: "q < ?n" using ql range by auto
    have sel: "sn_scb ?s = b'" "sn_highest_ack ?s = sn_highest_ack sn" "sn_t_seqno ?s = ?n" "sn_maxseq ?s = ?n - 1"
      "sn_npif ?s = min (sn_npif sn) (max (sender_in_flight ?c - 1) 1)" "sender_in_flight ?s = sender_in_flight ?c"
      using sender_found_sel [of q ?c syn] mx qn by simp_all
    have "sb_nodes (sn_scb sn) \<noteq> []" using n(2) g(3) by auto
    then have "sb_inv ?u t b'" using inv fk m(2,6,7) by (simp add: sb_inv_def)
    then have "sender_ok ?s" unfolding sender_ok_def sel using tn h by auto
    moreover have "sender_in_flight ?c = sender_in_flight sn + 1"
      using m(5) g(4,5) by (simp add: sender_in_flight_def sb_packets_in_flight_def)
    moreover have "nxt_to_retrx (sn_scb sn) \<noteq> None"
      using g(1) False by (cases "nxt_to_retrx (sn_scb sn)") (simp_all add: get_next_retran_def)
    ultimately have "one_sent sn q ?s"
      using sel m(3) g(3) ql qn first by (auto simp: one_sent_def)
    moreover have "sender_first sn \<longrightarrow> sender_first ?s" using first m(8) g(3) unfolding sel by blast
    moreover have "sacked_packets ?s = sacked_packets sn" using m(4) g(3) sel(1) by simp
    moreover note \<open>sender_ok ?s\<close>
    ultimately show ?thesis using eq sel(2)
      by (intro exI [of _ "Some q"] exI [of _ ?s]) simp
  qed
qed

section \<open>The loop\<close>

text \<open>Why the loop stopped after \<open>k\<close> packets.\<close>

definition send_stopped :: "int \<Rightarrow> int \<Rightarrow> int \<Rightarrow> sender \<Rightarrow> bool" where
  "send_stopped win maxburst k sn \<longleftrightarrow> max win (sn_npif sn) \<le> sender_in_flight sn
     \<or> maxburst \<noteq> 0 \<and> maxburst \<le> k
     \<or> sn_curseq sn \<le> sn_t_seqno sn \<and> nxt_to_retrx (sn_scb sn) = None"

text \<open>
  The packets \<open>rs\<close> retransmitted, then \<open>ns\<close> new ones.
\<close>

definition sent_by :: "sender \<Rightarrow> int list \<Rightarrow> int list \<Rightarrow> sender \<Rightarrow> bool" where
  "sent_by sn rs ns sn' \<longleftrightarrow> sender_ok sn' \<and> sn_highest_ack sn' = sn_highest_ack sn
     \<and> sacked_packets sn' = sacked_packets sn
     \<and> sender_in_flight sn' = sender_in_flight sn + int (length (rs @ ns))
     \<and> ns = [sn_t_seqno sn..sn_t_seqno sn' - 1] \<and> sn_t_seqno sn \<le> sn_t_seqno sn'
     \<and> distinct rs \<and> set rs \<subseteq> lost_packets sn \<and> lost_packets sn' = lost_packets sn - set rs
     \<and> (nxt_to_retrx (sn_scb sn) = None \<longrightarrow> rs = [])
     \<and> (sender_first sn \<longrightarrow> sender_first sn' \<and> sorted rs
         \<and> (\<forall>q \<in> set rs. \<forall>x \<in> lost_packets sn'. q < x) \<and> (ns \<noteq> [] \<longrightarrow> lost_packets sn' = {}))"

lemma none_sent_by:
  assumes "none_sent sn sn'" and "sender_ok sn'" and "sacked_packets sn' = sacked_packets sn"
    and "sender_first sn \<longrightarrow> sender_first sn'"
  shows "sent_by sn [] [] sn'"
  using assms by (simp add: sent_by_def none_sent_def)

lemma sent_by_refl: "sender_ok sn \<Longrightarrow> sent_by sn [] [] sn"
  by (simp add: sent_by_def)

text \<open>One packet, and the rest.\<close>

lemma sent_by_step:
  assumes "one_sent sn q sn1" and "sn_highest_ack sn1 = sn_highest_ack sn"
    and "sacked_packets sn1 = sacked_packets sn" and "sender_first sn \<longrightarrow> sender_first sn1"
    and "finite (lost_packets sn)" and "sent_by sn1 rs ns sn'"
  shows "\<exists>rs' ns'. q # rs @ ns = rs' @ ns' \<and> sent_by sn rs' ns' sn'"
proof (cases "q = sn_t_seqno sn")
  case True
  have n: "sn_t_seqno sn1 = q + 1" "lost_packets sn1 = lost_packets sn" "nxt_to_retrx (sn_scb sn1) = None"
    "sender_first sn \<longrightarrow> lost_packets sn = {}" "sender_in_flight sn1 = sender_in_flight sn + 1"
    using assms(1) True by (auto simp: one_sent_def)
  then have rs: "rs = []" using assms(6) by (simp add: sent_by_def)
  have "[q..sn_t_seqno sn' - 1] = q # [q + 1..sn_t_seqno sn' - 1]" if "q + 1 \<le> sn_t_seqno sn'"
    using that by (simp add: upto_rec1)
  then have "sent_by sn [] (q # ns) sn'"
    using assms(2-4,6) n rs True by (auto simp: sent_by_def)
  then show ?thesis using rs by (intro exI [of _ "[]"] exI [of _ "q # ns"]) simp
next
  case False
  have r: "q \<in> lost_packets sn" "sn_t_seqno sn1 = sn_t_seqno sn" "nxt_to_retrx (sn_scb sn) \<noteq> None"
    "lost_packets sn1 = lost_packets sn - {q}" "sender_first sn \<longrightarrow> q = Min (lost_packets sn)"
    "sender_in_flight sn1 = sender_in_flight sn + 1"
    using assms(1) False by (auto simp: one_sent_def)
  have less: "\<forall>x \<in> lost_packets sn1. q < x" if "sender_first sn"
  proof
    fix x assume "x \<in> lost_packets sn1"
    then have "x \<in> lost_packets sn" "x \<noteq> q" using r(4) by auto
    with Min_le [OF assms(5), of x] r(5) that show "q < x" by simp
  qed
  have "sent_by sn (q # rs) ns sn'"
    unfolding sent_by_def
  proof (intro conjI impI)
    have b: "sender_ok sn'" "sn_highest_ack sn' = sn_highest_ack sn1" "sacked_packets sn' = sacked_packets sn1"
     "sender_in_flight sn' = sender_in_flight sn1 + int (length (rs @ ns))"
     "ns = [sn_t_seqno sn1..sn_t_seqno sn' - 1]" "sn_t_seqno sn1 \<le> sn_t_seqno sn'"
     "distinct rs" "set rs \<subseteq> lost_packets sn1" "lost_packets sn' = lost_packets sn1 - set rs"
     "sender_first sn1 \<longrightarrow> sender_first sn' \<and> sorted rs
         \<and> (\<forall>q \<in> set rs. \<forall>x \<in> lost_packets sn'. q < x) \<and> (ns \<noteq> [] \<longrightarrow> lost_packets sn' = {})"
      using assms(6) by (auto simp: sent_by_def)
    show "sender_ok sn'" "sn_highest_ack sn' = sn_highest_ack sn" "sacked_packets sn' = sacked_packets sn"
      "sender_in_flight sn' = sender_in_flight sn + int (length ((q # rs) @ ns))"
      "ns = [sn_t_seqno sn..sn_t_seqno sn' - 1]" "sn_t_seqno sn \<le> sn_t_seqno sn'"
      "distinct (q # rs)" "set (q # rs) \<subseteq> lost_packets sn" "lost_packets sn' = lost_packets sn - set (q # rs)"
      using b assms(2,3) r by auto
    show "q # rs = []" if "nxt_to_retrx (sn_scb sn) = None" using that r(3) by simp
    assume f: "sender_first sn"
    then have b10: "sender_first sn'" "sorted rs" "\<forall>q \<in> set rs. \<forall>x \<in> lost_packets sn'. q < x"
      "ns \<noteq> [] \<longrightarrow> lost_packets sn' = {}" using b(10) assms(4) by auto
    show "sender_first sn'" by (rule b10(1))
    show "sorted (q # rs)" using b10(2) less [OF f] b(8) by force
    show "\<forall>k \<in> set (q # rs). \<forall>x \<in> lost_packets sn'. k < x" using b10(3) less [OF f] b(9) by auto
    show "lost_packets sn' = {}" if "ns \<noteq> []" using b10(4) that by blast
  qed
  then show ?thesis by (intro exI [of _ "q # rs"] exI [of _ ns]) simp
qed

lemma lost_finite: "sender_ok sn \<Longrightarrow> finite (lost_packets sn)"
  unfolding sender_ok_def sb_inv_def sb_ok_def sb_core_def using count_card(2) by blast

text \<open>
  The loop ends: the packets in flight grow up to the window, and \<open>next_pkts_in_flight_\<close> does not.
\<close>

lemma send_loop_ok:
  assumes "sender_ok sn" and "maxburst = 0 \<or> k < maxburst"
  shows "\<exists>rs ns sn'. send_loop syn win maxburst k sn = Some (rs @ ns, sn') \<and> sent_by sn rs ns sn'
    \<and> sender_in_flight sn' \<le> max (sender_in_flight sn) (max win (sn_npif sn))
    \<and> (maxburst = 0 \<or> k + int (length (rs @ ns)) \<le> maxburst)
    \<and> send_stopped win maxburst (k + int (length (rs @ ns))) sn'"
  using assms
proof (induction "nat (max win (sn_npif sn) - sender_in_flight sn)" arbitrary: k sn rule: less_induct)
  case less
  show ?case
  proof (cases "sender_in_flight sn < max win (sn_npif sn)")
    case False
    then have "send_loop syn win maxburst k sn = Some ([] @ [], sn)" by (subst send_loop.simps) simp
    moreover have "send_stopped win maxburst (k + int (length ([] @ []))) sn"
      using False unfolding send_stopped_def by linarith
    ultimately show ?thesis using sent_by_refl [OF less.prems(1)] less.prems(2)
      by (intro exI [of _ "[]"] exI [of _ sn]) auto
  next
    case True
    from send_one_ok [OF less.prems(1), of syn] obtain r sn1 where
      o: "send_one syn sn = Some (r, sn1)" "sender_ok sn1" "sacked_packets sn1 = sacked_packets sn"
        "sn_highest_ack sn1 = sn_highest_ack sn" "sender_first sn \<longrightarrow> sender_first sn1"
        "case r of None \<Rightarrow> none_sent sn sn1 | Some q \<Rightarrow> one_sent sn q sn1" by blast
    show ?thesis
    proof (cases r)
      case None
      with o(6) have ns: "none_sent sn sn1" by simp
      have "send_loop syn win maxburst k sn = Some ([] @ [], sn1)"
        using True o(1) None by (subst send_loop.simps) simp
      moreover have "send_stopped win maxburst (k + int (length ([] @ []))) sn1"
        using ns by (simp add: send_stopped_def none_sent_def)
      moreover have "sender_in_flight sn1 = sender_in_flight sn" using ns by (simp add: none_sent_def)
      ultimately show ?thesis using none_sent_by [OF ns o(2,3,5)] less.prems(2)
        by (intro exI [of _ "[]"] exI [of _ sn1]) auto
    next
      case (Some q)
      with o(6) have os: "one_sent sn q sn1" by simp
      have pif: "sender_in_flight sn1 = sender_in_flight sn + 1" "sn_npif sn1 \<le> sn_npif sn"
        using os by (auto simp: one_sent_def)
      note step = sent_by_step [OF os o(4,3,5) lost_finite [OF less.prems(1)]]
      show ?thesis
      proof (cases "maxburst \<noteq> 0 \<and> maxburst \<le> k + 1")
        case burst: True
        have eq: "send_loop syn win maxburst k sn = Some ([q], sn1)"
          using True o(1) Some burst by (subst send_loop.simps) simp
        from step [OF sent_by_refl [OF o(2)]] obtain rs ns where
          sb: "[q] = rs @ ns" "sent_by sn rs ns sn1" by auto
        have "length (rs @ ns) = 1" unfolding sb(1) [symmetric] by simp
        then have "maxburst = 0 \<or> k + int (length (rs @ ns)) \<le> maxburst"
          "send_stopped win maxburst (k + int (length (rs @ ns))) sn1"
          using burst less.prems(2) by (auto simp: send_stopped_def)
        moreover have "sender_in_flight sn1 \<le> max (sender_in_flight sn) (max win (sn_npif sn))"
          using True pif by simp
        moreover note eq [unfolded sb(1)] sb(2)
        ultimately show ?thesis by blast
      next
        case False
        have "nat (max win (sn_npif sn1) - sender_in_flight sn1) < nat (max win (sn_npif sn) - sender_in_flight sn)"
          using True pif by linarith
        from less.hyps [OF this o(2), of "k + 1"] False obtain rs ns sn' where
          l: "send_loop syn win maxburst (k + 1) sn1 = Some (rs @ ns, sn')" "sent_by sn1 rs ns sn'"
            "sender_in_flight sn' \<le> max (sender_in_flight sn1) (max win (sn_npif sn1))"
            "maxburst = 0 \<or> k + 1 + int (length (rs @ ns)) \<le> maxburst"
            "send_stopped win maxburst (k + 1 + int (length (rs @ ns))) sn'" by fastforce
        have eq: "send_loop syn win maxburst k sn = Some (q # rs @ ns, sn')"
          using True o(1) Some False l(1) by (subst send_loop.simps) auto
        from step [OF l(2)] obtain rs' ns' where
          sb: "q # rs @ ns = rs' @ ns'" "sent_by sn rs' ns' sn'" by blast
        have len: "k + int (length (rs' @ ns')) = k + 1 + int (length (rs @ ns))"
          unfolding sb(1) [symmetric] by simp
        have "sender_in_flight sn' \<le> max (sender_in_flight sn) (max win (sn_npif sn))"
          using l(3) pif True by simp
        moreover note eq [unfolded sb(1)] sb(2) l(4,5) [folded len]
        ultimately show ?thesis by blast
      qed
    qed
  qed
qed

lemma sent_by_npif: "sent_by (sn\<lparr>sn_npif := x\<rparr>) rs ns sn' = sent_by sn rs ns sn'"
  by (simp add: sent_by_def sender_in_flight_def)

lemma send_much_ok:
  assumes "sender_ok sn" and "0 \<le> maxburst"
  shows "\<exists>rs ns sn'. send_much force pending overhead_zero syn win maxburst sn = Some (rs @ ns, sn')
    \<and> sent_by sn rs ns sn'
    \<and> sender_in_flight sn' \<le> max (sender_in_flight sn) (max win (sn_npif sn))
    \<and> (maxburst = 0 \<or> int (length (rs @ ns)) \<le> maxburst)
    \<and> ((force \<or> \<not> pending \<and> overhead_zero) \<longrightarrow> send_stopped win maxburst (int (length (rs @ ns))) sn')"
proof -
  let ?sn = "sn\<lparr>sn_npif := min (sn_npif sn) (sender_in_flight sn + 1)\<rparr>"
  have ok: "sender_ok ?sn" and pif: "sender_in_flight ?sn = sender_in_flight sn"
    using assms(1) by (simp_all add: sender_ok_def sender_in_flight_def)
  show ?thesis
  proof (cases "(force \<or> \<not> pending) \<and> (overhead_zero \<or> force)")
    case True
    then have eq: "send_much force pending overhead_zero syn win maxburst sn = send_loop syn win maxburst 0 ?sn"
      by (auto simp: send_much_def Let_def)
    have "maxburst = 0 \<or> 0 < maxburst" using assms(2) by auto
    from send_loop_ok [OF ok this, of syn win] obtain rs ns sn' where
      l: "send_loop syn win maxburst 0 ?sn = Some (rs @ ns, sn')" "sent_by ?sn rs ns sn'"
        "sender_in_flight sn' \<le> max (sender_in_flight ?sn) (max win (sn_npif ?sn))"
        "maxburst = 0 \<or> 0 + int (length (rs @ ns)) \<le> maxburst"
        "send_stopped win maxburst (0 + int (length (rs @ ns))) sn'" by blast
    have "sender_in_flight sn' \<le> max (sender_in_flight sn) (max win (sn_npif sn))"
      using l(3) pif by simp
    moreover have "send_much force pending overhead_zero syn win maxburst sn = Some (rs @ ns, sn')"
      using eq l(1) by simp
    moreover note l(2,4,5) [unfolded sent_by_npif add_0]
    ultimately show ?thesis by blast
  next
    case False
    have x: "send_much force pending overhead_zero syn win maxburst sn = Some ([] @ [], if \<not> force \<and> pending then sn else ?sn)"
      using False by (auto simp: send_much_def Let_def)
    have "sent_by sn [] [] (if \<not> force \<and> pending then sn else ?sn)"
      using sent_by_refl [OF assms(1)] sent_by_refl [OF ok] by (simp add: sent_by_npif)
    with x False pif assms(2) show ?thesis
      by (intro exI [of _ "[]"] exI [of _ "if \<not> force \<and> pending then sn else ?sn"]) auto
  qed
qed

section \<open>Timeouts and acknowledgments\<close>

text \<open>What \<open>timeout\<close> and \<open>enter_loss\<close> do to the sequence state.\<close>

definition sender_timeout :: "sender \<Rightarrow> sender option" where
  "sender_timeout sn = do {
     b \<leftarrow> mark_loss (sn_highest_ack sn + 1) (sn_t_seqno sn) (sn_scb sn);
     Some (sn\<lparr>sn_scb := b, sn_npif := 0\<rparr>)
   }"

lemma mark_loss_inv:
  assumes "sb_inv u t s" and "0 \<le> u"
  shows "\<exists>s'. mark_loss u nxt s = Some s' \<and> sb_inv u (max t nxt) s'
    \<and> packets_of SKB_SACKED (sb_nodes s') = packets_of SKB_SACKED (sb_nodes s)
    \<and> packets_of SKB_LOST (sb_nodes s') = {u..<max t nxt} - packets_of SKB_SACKED (sb_nodes s)
    \<and> first_ptr (nxt_to_retrx s') (sb_nodes s')"
proof -
  have ok: "sb_ok u t s" using assms(1) by (simp add: sb_inv_def)
  from mark_loss_ok [OF ok, of nxt] obtain s' where
    m: "mark_loss u nxt s = Some s'" "sb_ok u (max t nxt) s'"
      "packets_of SKB_SACKED (sb_nodes s') = packets_of SKB_SACKED (sb_nodes s)"
      "packets_of SKB_LOST (sb_nodes s') = {u..<max t nxt} - packets_of SKB_SACKED (sb_nodes s)"
      "first_ptr (nxt_to_retrx s') (sb_nodes s')" "fack s' = fack s" by blast
  have c: "consec u (sb_nodes s) t" "consec u (sb_nodes s') (max t nxt)"
    using ok m(2) by (simp_all add: sb_ok_def sb_core_def)
  have "sb_nodes s' = [] \<longleftrightarrow> u = max t nxt" "sb_nodes s = [] \<longleftrightarrow> u = t" "u \<le> t" "u \<le> max t nxt"
    using consec_nil_iff [OF c(1)] consec_nil_iff [OF c(2)] consec_le [OF c(1)] consec_le [OF c(2)] by blast+
  then have "if sb_nodes s' = [] then fack s = 0 else fack s < max t nxt"
    using assms by (auto simp: sb_inv_def split: if_splits)
  with m show ?thesis by (simp add: sb_inv_def)
qed

lemma sender_timeout_ok:
  assumes "sender_ok sn"
  shows "\<exists>sn'. sender_timeout sn = Some sn' \<and> sender_ok sn' \<and> sender_in_flight sn' = 0
    \<and> sacked_packets sn' = sacked_packets sn
    \<and> lost_packets sn' = {sn_highest_ack sn<..<sn_t_seqno sn} - sacked_packets sn \<and> sender_first sn'
    \<and> sn_t_seqno sn' = sn_t_seqno sn \<and> sn_highest_ack sn' = sn_highest_ack sn \<and> sn_npif sn' = 0
    \<and> sn_curseq sn' = sn_curseq sn"
proof -
  let ?u = "sn_highest_ack sn + 1" and ?n = "sn_t_seqno sn"
  obtain t where inv: "sb_inv ?u t (sn_scb sn)" and t: "t \<le> ?n" and h: "- 1 \<le> sn_highest_ack sn"
      "sn_highest_ack sn < ?n" and mx: "sn_maxseq sn = ?n - 1"
    using assms by (auto simp: sender_ok_def)
  have n: "max t ?n = ?n" using t by simp
  have "0 \<le> ?u" using h(1) by simp
  from mark_loss_inv [OF inv this, of ?n, unfolded n] obtain b where
    m: "mark_loss ?u ?n (sn_scb sn) = Some b" "sb_inv ?u ?n b"
      "packets_of SKB_SACKED (sb_nodes b) = sacked_packets sn"
      "packets_of SKB_LOST (sb_nodes b) = {?u..<?n} - sacked_packets sn" "first_ptr (nxt_to_retrx b) (sb_nodes b)"
    by blast
  let ?s = "sn\<lparr>sn_scb := b, sn_npif := 0\<rparr>"
  have c: "consec ?u (sb_nodes b) ?n" and f: "fack_out b = count_pkts SKB_LOST (sb_nodes b)"
    "sack_out b = count_pkts SKB_SACKED (sb_nodes b)"
    using m(2) by (simp_all add: sb_inv_def sb_ok_def sb_core_def)
  have "card (packets_of SKB_LOST (sb_nodes b)) + card (packets_of SKB_SACKED (sb_nodes b))
      = card (packets_of SKB_LOST (sb_nodes b) \<union> packets_of SKB_SACKED (sb_nodes b))"
    using count_card(2) [OF c] pkts_disjoint [OF c, of SKB_LOST SKB_SACKED]
    by (intro card_Un_disjoint [symmetric]) auto
  also have "packets_of SKB_LOST (sb_nodes b) \<union> packets_of SKB_SACKED (sb_nodes b) = {?u..<?n}"
    using m(3,4) pkts_bounds [OF c, of SKB_SACKED] by auto
  finally have "sender_in_flight ?s = 0"
    using h(2) by (simp add: sender_in_flight_def sb_packets_in_flight_def f count_card(1) [OF c])
  moreover have "sender_ok ?s" using m(2) h mx by (auto simp: sender_ok_def)
  moreover have "sender_timeout sn = Some ?s" using m(1) by (simp add: sender_timeout_def)
  moreover have "{?u..<?n} = {sn_highest_ack sn<..<?n}" by auto
  ultimately show ?thesis using m(3-5) by (intro exI [of _ ?s]) simp
qed

text \<open>
  What \<open>recv\<close> does to it (\<open>ack_processing\<close> and the update of the scoreboard): the acknowledgment of \<open>a\<close>,
  which is not older than the last one, with the blocks \<open>sa\<close>.
\<close>

definition sender_ack :: "int \<Rightarrow> sack list \<Rightarrow> sender \<Rightarrow> (u8 \<times> sender) option" where
  "sender_ack a sa sn =
    (let sn = (if sn_highest_ack sn < a
               then sn\<lparr>sn_highest_ack := a, sn_maxseq := max (sn_maxseq sn) a,
                      sn_t_seqno := (if sn_t_seqno sn < a + 1 then a + 1 else sn_t_seqno sn)\<rparr>
               else sn)
     in if sa \<noteq> [] \<or> sb_nodes (sn_scb sn) \<noteq> []
        then do {
          (flag, b) \<leftarrow> update_scoreboard (sn_highest_ack sn) sa 3 (sn_scb sn);
          Some (flag, sn\<lparr>sn_scb := b\<rparr>)
        }
        else Some (0, sn))"

lemma sender_ack_ok:
  assumes "sender_ok sn" and "sn_highest_ack sn \<le> a" and "a < sn_t_seqno sn" and "good_sacks a (sn_t_seqno sn) sa"
  shows "\<exists>flag sn'. sender_ack a sa sn = Some (flag, sn') \<and> sender_ok sn'
    \<and> sn_highest_ack sn' = a \<and> sn_t_seqno sn' = sn_t_seqno sn \<and> sn_maxseq sn' = sn_maxseq sn
    \<and> sn_npif sn' = sn_npif sn
    \<and> sacked_packets sn \<inter> {a<..} \<subseteq> sacked_packets sn'
    \<and> sacked_packets sn' \<subseteq> sacked_packets sn \<inter> {a<..} \<union> blocks (filter (\<lambda>b. a \<le> fst b) sa)
    \<and> (flag = 0 \<or> (\<exists>b. update_scoreboard a sa 3 (sn_scb sn) = Some (flag, b)))"
proof -
  obtain t where inv: "sb_inv (sn_highest_ack sn + 1) t (sn_scb sn)" and t: "t \<le> sn_t_seqno sn"
      and h: "- 1 \<le> sn_highest_ack sn" "sn_highest_ack sn < sn_t_seqno sn" and mx: "sn_maxseq sn = sn_t_seqno sn - 1"
    using assms(1) by (auto simp: sender_ok_def)
  let ?sn = "sn\<lparr>sn_highest_ack := a\<rparr>"
  have "(if sn_highest_ack sn < a
         then sn\<lparr>sn_highest_ack := a, sn_maxseq := max (sn_maxseq sn) a,
                sn_t_seqno := (if sn_t_seqno sn < a + 1 then a + 1 else sn_t_seqno sn)\<rparr>
         else sn) = ?sn"
  proof (cases "sn_highest_ack sn < a")
    case True
    have "max (sn_maxseq sn) a = sn_maxseq sn" "\<not> sn_t_seqno sn < a + 1" using mx assms(3) by simp_all
    with True show ?thesis by simp
  next
    case False
    then have "sn_highest_ack sn = a" using assms(2) by simp
    with False show ?thesis by auto
  qed
  then have eq: "sender_ack a sa sn = (if sa \<noteq> [] \<or> sb_nodes (sn_scb sn) \<noteq> []
          then do {
            (flag, b) \<leftarrow> update_scoreboard a sa 3 (sn_scb sn);
            Some (flag, ?sn\<lparr>sn_scb := b\<rparr>)
          }
          else Some (0, ?sn))"
    by (simp add: sender_ack_def)
  show ?thesis
  proof (cases "sa \<noteq> [] \<or> sb_nodes (sn_scb sn) \<noteq> []")
    case True
    let ?t' = "update_end a t sa"
    have "sn_highest_ack sn + 1 \<le> a + 1" "- 1 \<le> a" using assms(2) h by simp_all
    from update_ok [OF inv this t assms(3,4), of 3] obtain fl b where
      u: "update_scoreboard a sa 3 (sn_scb sn) = Some (fl, b)" "sb_inv (a + 1) ?t' b" "?t' \<le> sn_t_seqno sn"
        "packets_of SKB_SACKED (sb_nodes b) = sacked_packets sn \<inter> {a<..} \<union> blocks (filter (\<lambda>b. a \<le> fst b) sa) \<inter> {a<..<?t'}"
      by blast
    have "sender_ok (?sn\<lparr>sn_scb := b\<rparr>)" using u(2,3) h assms(2,3) mx by (auto simp: sender_ok_def)
    with eq True u show ?thesis by auto
  next
    case False
    then have "sb_inv (a + 1) (a + 1) (sn_scb sn)" using inv by (auto simp: sb_inv_def sb_ok_def sb_core_def)
    then have "sender_ok ?sn" using h assms(2,3) mx by (auto simp: sender_ok_def)
    with eq False show ?thesis by auto
  qed
qed

section \<open>Runs of the sender\<close>

text \<open>
  The sequence state of a new agent, and the operations on it, in any order: data from the application, an
  acknowledgment with its blocks (\<open>recv\<close> ignores it when it is older than the last one or for packets not
  sent), a timeout, the end of a loss state, and \<open>send_much\<close> with any window.
\<close>

definition start_sender :: sender where
  "start_sender = \<lparr> sn_scb = new_scoreboard, sn_highest_ack = - 1, sn_t_seqno = 0, sn_maxseq = - 1,
     sn_curseq = 0, sn_npif = 0 \<rparr>"

lemma start_sender_ok: "sender_ok start_sender"
  using new_inv [of 0] by (auto simp: sender_ok_def start_sender_def)

datatype sender_op =
    O_data int
  | O_ack int "sack list"
  | O_timeout
  | O_open
  | O_recovery int
  | O_send bool bool bool bool int int

fun sender_step :: "sender_op \<Rightarrow> sender \<Rightarrow> sender option" where
  "sender_step (O_data n) sn = Some (sn\<lparr>sn_curseq := sn_curseq sn + n\<rparr>)"
| "sender_step (O_ack a sa) sn =
    (if sn_t_seqno sn < a + 1 \<or> a < sn_highest_ack sn then Some sn else map_option snd (sender_ack a sa sn))"
| "sender_step O_timeout sn = sender_timeout sn"
| "sender_step O_open sn = Some (sn\<lparr>sn_scb := clear_scoreboard (sn_scb sn), sn_npif := 0\<rparr>)"
| "sender_step (O_recovery w) sn = Some (sn\<lparr>sn_npif := w\<rparr>)"
| "sender_step (O_send force pending overhead_zero syn win maxburst) sn =
    map_option snd (send_much force pending overhead_zero syn win maxburst sn)"

fun sender_run :: "sender_op list \<Rightarrow> sender \<Rightarrow> sender option" where
  "sender_run [] sn = Some sn"
| "sender_run (e # es) sn = Option.bind (sender_step e sn) (sender_run es)"

text \<open>What is assumed of the blocks, as in the update of the scoreboard, and of the burst limit.\<close>

fun sender_op_env :: "sender_op \<Rightarrow> sender \<Rightarrow> bool" where
  "sender_op_env (O_ack a sa) sn \<longleftrightarrow> good_sacks a (sn_t_seqno sn) sa"
| "sender_op_env (O_send force pending overhead_zero syn win maxburst) sn \<longleftrightarrow> 0 \<le> maxburst"
| "sender_op_env e sn \<longleftrightarrow> True"

fun sender_env :: "sender_op list \<Rightarrow> sender \<Rightarrow> bool" where
  "sender_env [] sn \<longleftrightarrow> True"
| "sender_env (e # es) sn \<longleftrightarrow> sender_op_env e sn
     \<and> (case sender_step e sn of None \<Rightarrow> True | Some sn' \<Rightarrow> sender_env es sn')"

lemma sender_step_ok:
  assumes "sender_ok sn" and "sender_op_env e sn"
  shows "\<exists>sn'. sender_step e sn = Some sn' \<and> sender_ok sn'"
proof (cases e)
  case (O_ack a sa)
  show ?thesis
  proof (cases "sn_t_seqno sn < a + 1 \<or> a < sn_highest_ack sn")
    case False
    with sender_ack_ok [OF assms(1), of a sa] assms(2) O_ack show ?thesis by auto
  qed (use O_ack assms(1) in auto)
next
  case O_timeout
  with sender_timeout_ok [OF assms(1)] show ?thesis by auto
next
  case O_open
  with assms(1) clear_inv [of "sn_highest_ack sn + 1" "sn_scb sn"] show ?thesis by (fastforce simp: sender_ok_def)
next
  case (O_send force pending overhead_zero syn win maxburst)
  with send_much_ok [OF assms(1), of maxburst force pending overhead_zero syn win] assms(2)
  show ?thesis by (auto simp: sent_by_def)
qed (use assms(1) in \<open>auto simp: sender_ok_def\<close>)

lemma sender_run_ok:
  "sender_ok sn \<Longrightarrow> sender_env es sn \<Longrightarrow> \<exists>sn'. sender_run es sn = Some sn' \<and> sender_ok sn'"
proof (induction es arbitrary: sn)
  case (Cons e es)
  then have "sender_op_env e sn" by simp
  from sender_step_ok [OF Cons.prems(1) this] obtain sn1 where
    s: "sender_step e sn = Some sn1" "sender_ok sn1" by blast
  with Cons.prems(2) Cons.IH [of sn1] show ?case by simp
qed simp

section \<open>Properties\<close>

text \<open>
  C25: From a new sender on, after every sequence of data from the application, acknowledgments with SACK blocks,
  timeouts, ends and beginnings of loss states and calls of \<open>send_much\<close> with any windows, no assertion has failed
  and what \<open>packets_in_flight\<close> computes from the two counters of the scoreboard is the number of packets that were
  sent, are not acknowledged, and are neither lost nor selectively acknowledged in the list: the
  increments and decrements of the operations keep step with the list. The blocks are assumed to be
  not empty and to lie above the acknowledgment and below the next packet to send.
\<close>

theorem in_flight_is_count:
  assumes "sender_env es start_sender"
  shows "\<exists>sn. sender_run es start_sender = Some sn
    \<and> sb_packets_in_flight (sn_highest_ack sn + 1) (sn_t_seqno sn) (sn_scb sn)
      = int (card ({sn_highest_ack sn<..<sn_t_seqno sn} - lost_packets sn - sacked_packets sn))"
proof -
  from sender_run_ok [OF start_sender_ok assms] obtain sn where
    r: "sender_run es start_sender = Some sn" "sender_ok sn" by blast
  then obtain t where t: "sb_ok (sn_highest_ack sn + 1) t (sn_scb sn)" "t \<le> sn_t_seqno sn"
    by (auto simp: sender_ok_def sb_inv_def)
  have "{sn_highest_ack sn + 1..<sn_t_seqno sn} = {sn_highest_ack sn<..<sn_t_seqno sn}" by auto
  with in_flight_card [OF t] r(1) show ?thesis by auto
qed

text \<open>Three packets are sent, the first is acknowledged with a block for the third, and then the timer expires.\<close>

definition sent_sender :: sender where
  "sent_sender = start_sender\<lparr>sn_curseq := 3, sn_t_seqno := 3, sn_maxseq := 2\<rparr>"

definition sample_ops :: "sender_op list" where
  "sample_ops = [O_data 3, O_send False False True False 3 0, O_ack 0 [(2, 3)], O_timeout,
     O_send False False True False 1 0]"

lemma sample_send: "sender_step (O_send False False True False 3 0) (start_sender\<lparr>sn_curseq := 3\<rparr>) = Some sent_sender"
  by (simp add: send_much_def send_loop.simps send_one_def sender_in_flight_def sb_packets_in_flight_def
    start_sender_def new_scoreboard_def get_next_retran_def sender_found_def sender_output_def output_syn_def
    sent_sender_def Let_def)

lemma sample_ops_env: "sender_env sample_ops start_sender"
proof -
  have d: "sender_step (O_data 3) start_sender = Some (start_sender\<lparr>sn_curseq := 3\<rparr>)"
    by (simp add: start_sender_def)
  have g: "good_sacks 0 (sn_t_seqno sent_sender) [(2, 3)]" by (simp add: good_sacks_def sent_sender_def)
  show ?thesis
    unfolding sample_ops_def sender_env.simps d sample_send option.case sender_op_env.simps
    using g by (simp del: sender_step.simps split: option.split)
qed

theorem in_flight_is_count_witness:
  "\<exists>sn. sender_run sample_ops start_sender = Some sn
    \<and> sb_packets_in_flight (sn_highest_ack sn + 1) (sn_t_seqno sn) (sn_scb sn)
      = int (card ({sn_highest_ack sn<..<sn_t_seqno sn} - lost_packets sn - sacked_packets sn))"
  by (rule in_flight_is_count [OF sample_ops_env])

text \<open>
  C7: \<open>send_much\<close> ends without failing an assertion of the scoreboard. It sends some lost packets, each
  once, and then new ones in sequence; every packet it sends adds one to the packets in flight, which
  never grow beyond the larger of the window, \<open>next_pkts_in_flight_\<close> and what they were; no more than
  \<open>maxburst\<close> packets go out; and unless a timer delays sending, it stops only because the
  window is full, the burst is complete, or the application has no more data and the scoreboard's pointer to
  the next retransmission is NULL. Then no lost packet is left if the pointer was at the first
  lost packet at the start, as after a timeout; packets marked lost before the pointer are not offered and may stay
  unsent (\<open>update_forgets_lost\<close>).
\<close>

theorem send_much_window:
  assumes "sender_ok sn" and "0 \<le> maxburst"
  shows "\<exists>rs ns sn'. send_much force pending overhead_zero syn win maxburst sn = Some (rs @ ns, sn')
    \<and> sender_ok sn' \<and> distinct rs \<and> set rs \<subseteq> lost_packets sn \<and> lost_packets sn' = lost_packets sn - set rs
    \<and> ns = [sn_t_seqno sn..sn_t_seqno sn' - 1]
    \<and> sender_in_flight sn' = sender_in_flight sn + int (length (rs @ ns))
    \<and> sender_in_flight sn' \<le> max (sender_in_flight sn) (max win (sn_npif sn))
    \<and> (maxburst = 0 \<or> int (length (rs @ ns)) \<le> maxburst)
    \<and> ((force \<or> \<not> pending \<and> overhead_zero) \<longrightarrow> send_stopped win maxburst (int (length (rs @ ns))) sn')
    \<and> (sender_first sn \<and> nxt_to_retrx (sn_scb sn') = None \<longrightarrow> lost_packets sn' = {})"
proof -
  from send_much_ok [OF assms, of force pending overhead_zero syn win] obtain rs ns sn' where
    m: "send_much force pending overhead_zero syn win maxburst sn = Some (rs @ ns, sn')" "sent_by sn rs ns sn'"
      "sender_in_flight sn' \<le> max (sender_in_flight sn) (max win (sn_npif sn))"
      "maxburst = 0 \<or> int (length (rs @ ns)) \<le> maxburst"
      "(force \<or> \<not> pending \<and> overhead_zero) \<longrightarrow> send_stopped win maxburst (int (length (rs @ ns))) sn'" by blast
  have "lost_packets sn' = {}" if "sender_first sn" "nxt_to_retrx (sn_scb sn') = None"
  proof -
    have "first_ptr None (sb_nodes (sn_scb sn'))" using that m(2) by (auto simp: sent_by_def)
    moreover obtain u t where "consec u (sb_nodes (sn_scb sn')) t"
      using m(2) by (auto simp: sent_by_def sender_ok_def sb_inv_def sb_ok_def sb_core_def)
    ultimately show ?thesis by (simp add: pkts_nil_iff first_ptr_None)
  qed
  with m show ?thesis unfolding sent_by_def by (intro exI [of _ rs] exI [of _ ns] exI [of _ sn']) simp
qed

definition sample_sender :: sender where
  "sample_sender = \<lparr> sn_scb = sample_board, sn_highest_ack = 0, sn_t_seqno = 12, sn_maxseq = 11,
     sn_curseq = 20, sn_npif = 0 \<rparr>"

lemma sample_sender_ok: "sender_ok sample_sender"
proof -
  have "sb_inv 1 9 sample_board" using sample_board_ok by (simp add: sb_inv_def sample_board_def)
  then show ?thesis by (auto simp: sender_ok_def sample_sender_def)
qed

theorem send_much_window_witness:
  "\<exists>rs ns sn'. send_much False False True False 10 0 sample_sender = Some (rs @ ns, sn')
    \<and> sender_ok sn' \<and> distinct rs \<and> set rs \<subseteq> lost_packets sample_sender
    \<and> lost_packets sn' = lost_packets sample_sender - set rs
    \<and> ns = [sn_t_seqno sample_sender..sn_t_seqno sn' - 1]
    \<and> sender_in_flight sn' = sender_in_flight sample_sender + int (length (rs @ ns))
    \<and> sender_in_flight sn' \<le> max (sender_in_flight sample_sender) (max 10 (sn_npif sample_sender))
    \<and> ((0::int) = 0 \<or> int (length (rs @ ns)) \<le> 0)
    \<and> ((False \<or> \<not> False \<and> True) \<longrightarrow> send_stopped 10 0 (int (length (rs @ ns))) sn')
    \<and> (sender_first sample_sender \<and> nxt_to_retrx (sn_scb sn') = None \<longrightarrow> lost_packets sn' = {})"
  by (rule send_much_window [OF sample_sender_ok]) simp

text \<open>
  C24: After a retransmission timeout nothing counts as in flight and everything outstanding that was not
  selectively acknowledged is lost; \<open>send_much\<close> then retransmits the lowest of these packets, in
  increasing order, within the window, and sends no new packet before all of them were retransmitted.
\<close>

theorem timeout_retransmits_in_order:
  assumes "sender_ok sn" and "0 \<le> maxburst"
  shows "\<exists>sn1 rs ns sn2. sender_timeout sn = Some sn1 \<and> sender_in_flight sn1 = 0
    \<and> send_much force pending overhead_zero syn win maxburst sn1 = Some (rs @ ns, sn2)
    \<and> sorted rs \<and> distinct rs
    \<and> set rs \<union> lost_packets sn2 = {sn_highest_ack sn<..<sn_t_seqno sn} - sacked_packets sn
    \<and> (\<forall>q \<in> set rs. \<forall>x \<in> lost_packets sn2. q < x)
    \<and> (ns \<noteq> [] \<longrightarrow> lost_packets sn2 = {}) \<and> ns = [sn_t_seqno sn..sn_t_seqno sn2 - 1]
    \<and> int (length (rs @ ns)) \<le> max 0 win"
proof -
  from sender_timeout_ok [OF assms(1)] obtain sn1 where
    t: "sender_timeout sn = Some sn1" "sender_ok sn1" "sender_in_flight sn1 = 0" "sacked_packets sn1 = sacked_packets sn"
      "lost_packets sn1 = {sn_highest_ack sn<..<sn_t_seqno sn} - sacked_packets sn" "sender_first sn1"
      "sn_t_seqno sn1 = sn_t_seqno sn" "sn_npif sn1 = 0" by blast
  from send_much_ok [OF t(2) assms(2), of force pending overhead_zero syn win] obtain rs ns sn2 where
    m: "send_much force pending overhead_zero syn win maxburst sn1 = Some (rs @ ns, sn2)" "sent_by sn1 rs ns sn2"
      "sender_in_flight sn2 \<le> max (sender_in_flight sn1) (max win (sn_npif sn1))" by blast
  have "sorted rs" "distinct rs" "set rs \<union> lost_packets sn2 = lost_packets sn1"
    "\<forall>q \<in> set rs. \<forall>x \<in> lost_packets sn2. q < x" "ns \<noteq> [] \<longrightarrow> lost_packets sn2 = {}"
    "ns = [sn_t_seqno sn..sn_t_seqno sn2 - 1]" "sender_in_flight sn2 = int (length (rs @ ns))"
    using m(2) t(3,6,7) by (auto simp: sent_by_def)
  moreover have "sender_in_flight sn2 \<le> max 0 win" using m(3) t(3,8) by simp
  ultimately show ?thesis using t(1,3,5) m(1) by metis
qed

theorem timeout_retransmits_in_order_witness:
  "\<exists>sn1 rs ns sn2. sender_timeout sample_sender = Some sn1 \<and> sender_in_flight sn1 = 0
    \<and> send_much False False True False 3 0 sn1 = Some (rs @ ns, sn2)
    \<and> sorted rs \<and> distinct rs
    \<and> set rs \<union> lost_packets sn2 = {sn_highest_ack sample_sender<..<sn_t_seqno sample_sender} - sacked_packets sample_sender
    \<and> (\<forall>q \<in> set rs. \<forall>x \<in> lost_packets sn2. q < x)
    \<and> (ns \<noteq> [] \<longrightarrow> lost_packets sn2 = {}) \<and> ns = [sn_t_seqno sample_sender..sn_t_seqno sn2 - 1]
    \<and> int (length (rs @ ns)) \<le> max 0 3"
  by (rule timeout_retransmits_in_order [OF sample_sender_ok]) simp

end
