(* ===== verification/Reno.thy ===== *)
theory Reno
  imports Tcp_Sock
begin

text \<open>
  Slow start and the Reno algorithm of src/ns-2.34/tcp/linux/src/tcp_cong.c, which every other
  algorithm falls back on. The lemmas give the exact effect of slow start (termination, bounds
  and growth of the window, the left-over counter), of Reno's congestion avoidance in its
  byte-counting and its packet-counting mode, and of the loss response.
\<close>

section \<open>Slow start\<close>

text \<open>
  The \<open>while\<close> loop at the end of \<open>tcp_slow_start\<close>, over \<open>snd_cwnd_cnt\<close> and
  \<open>snd_cwnd\<close>, with \<open>snd_cwnd_clamp\<close> fixed. It has no value where it does not end.
\<close>

partial_function (option) slow_start_loop :: "u32 \<Rightarrow> u32 \<Rightarrow> u32 \<Rightarrow> (u32 \<times> u32) option" where
  "slow_start_loop clamp cnt cwnd =
    (if cwnd \<le> cnt
     then slow_start_loop clamp (cnt - cwnd) (if cwnd < clamp then cwnd + 1 else cwnd)
     else Some (cnt, cwnd))"

text \<open>How much an acknowledgment adds to \<open>snd_cwnd_cnt\<close>.\<close>

definition slow_start_count :: "kernel \<Rightarrow> 'ca tcp_sock \<Rightarrow> u32" where
  "slow_start_count k tp =
    (let cnt = (if 0 < sint (sysctl_tcp_max_ssthresh k)
                   \<and> sysctl_tcp_max_ssthresh k < snd_cwnd tp
                then drop_bit 1 (sysctl_tcp_max_ssthresh k)
                else snd_cwnd tp)
     in if 1 < sysctl_tcp_abc k \<and> 2 * mss_cache tp \<le> bytes_acked tp
        then push_bit 1 cnt else cnt)"

definition tcp_slow_start :: "kernel \<Rightarrow> 'ca tcp_sock \<Rightarrow> 'ca tcp_sock option" where
  "tcp_slow_start k tp =
    (if sysctl_tcp_abc k \<noteq> 0 \<and> bytes_acked tp < mss_cache tp then Some tp
     else do {
       (c, w) \<leftarrow> slow_start_loop (snd_cwnd_clamp tp) (snd_cwnd_cnt tp + slow_start_count k tp)
                  (snd_cwnd tp);
       Some (tp\<lparr>bytes_acked := 0, snd_cwnd_cnt := c, snd_cwnd := w\<rparr>)
     })"

section \<open>Reno\<close>

definition tcp_reno_cong_avoid ::
  "u32 \<Rightarrow> u32 \<Rightarrow> u32 \<Rightarrow> s32 \<Rightarrow> kernel \<Rightarrow> 'ca tcp_sock \<Rightarrow> 'ca tcp_sock option" where
  "tcp_reno_cong_avoid ack rtt in_flight flag k tp =
    (if \<not> tcp_is_cwnd_limited tp in_flight then Some tp
     else if snd_cwnd tp \<le> snd_ssthresh tp then tcp_slow_start k tp
     else if sysctl_tcp_abc k \<noteq> 0
     then (if snd_cwnd tp * mss_cache tp \<le> bytes_acked tp
           then let tp = tp\<lparr>bytes_acked := bytes_acked tp - snd_cwnd tp * mss_cache tp\<rparr>
                in Some (if snd_cwnd tp < snd_cwnd_clamp tp
                         then tp\<lparr>snd_cwnd := snd_cwnd tp + 1\<rparr> else tp)
           else Some tp)
     else (if snd_cwnd tp \<le> snd_cwnd_cnt tp
           then let tp = (if snd_cwnd tp < snd_cwnd_clamp tp
                          then tp\<lparr>snd_cwnd := snd_cwnd tp + 1\<rparr> else tp)
                in Some (tp\<lparr>snd_cwnd_cnt := 0\<rparr>)
           else Some (tp\<lparr>snd_cwnd_cnt := snd_cwnd_cnt tp + 1\<rparr>)))"

definition tcp_reno_ssthresh :: "kernel \<Rightarrow> 'ca tcp_sock \<Rightarrow> (u32 \<times> 'ca tcp_sock) option" where
  "tcp_reno_ssthresh k tp = Some (max (drop_bit 1 (snd_cwnd tp)) 2, tp)"

definition tcp_reno_min_cwnd :: "'ca tcp_sock \<Rightarrow> u32 option" where
  "tcp_reno_min_cwnd tp = Some (snd_ssthresh tp div 2)"

definition tcp_reno :: "'ca tcp_congestion_ops" where
  "tcp_reno = ops_null\<lparr>ca_flags := TCP_CONG_NON_RESTRICTED, ca_name := ''reno'',
     ca_ssthresh := Some tcp_reno_ssthresh, ca_cong_avoid := Some tcp_reno_cong_avoid,
     ca_min_cwnd := Some tcp_reno_min_cwnd\<rparr>"

definition tcp_init_congestion_ops :: "'ca tcp_congestion_ops" where
  "tcp_init_congestion_ops = ops_null\<lparr>ca_name := '''',
     ca_ssthresh := Some tcp_reno_ssthresh, ca_cong_avoid := Some tcp_reno_cong_avoid,
     ca_min_cwnd := Some tcp_reno_min_cwnd\<rparr>"

section \<open>The slow start loop\<close>

lemma slow_start_loop_step:
  "cwnd \<le> cnt \<Longrightarrow> slow_start_loop clamp cnt cwnd =
     slow_start_loop clamp (cnt - cwnd) (if cwnd < clamp then cwnd + 1 else cwnd)"
  by (subst slow_start_loop.simps) simp

lemma slow_start_loop_stop: "cnt < cwnd \<Longrightarrow> slow_start_loop clamp cnt cwnd = Some (cnt, cwnd)"
  by (subst slow_start_loop.simps) (simp flip: not_le)

text \<open>
  The specification of the loop on a positive window: it ends with the counter below the
  window, the window did not shrink, did not pass the clamp unless it was above it before, and
  grew by at most one for each window's worth of the counter.
\<close>

definition slow_start_post :: "u32 \<Rightarrow> u32 \<Rightarrow> u32 \<Rightarrow> u32 \<Rightarrow> u32 \<Rightarrow> bool" where
  "slow_start_post clamp cnt cwnd c w \<longleftrightarrow>
     c < w \<and> cwnd \<le> w \<and> w \<le> max cwnd clamp \<and> unat w - unat cwnd \<le> unat cnt div unat cwnd"

lemma slow_start_loop_Some:
  "cwnd \<noteq> 0 \<Longrightarrow> \<exists>c w. slow_start_loop clamp cnt cwnd = Some (c, w)
     \<and> slow_start_post clamp cnt cwnd c w"
proof (induction "unat cnt" arbitrary: cnt cwnd rule: less_induct)
  case less
  show ?case
  proof (cases "cwnd \<le> cnt")
    case False
    then show ?thesis by (simp add: slow_start_loop_stop slow_start_post_def)
  next
    case True
    define v where "v = (if cwnd < clamp then cwnd + 1 else cwnd)"
    have v: "cwnd \<le> v" "v \<le> max cwnd clamp" "max v clamp = max cwnd clamp"
        "unat v \<le> Suc (unat cwnd)" "v \<noteq> 0"
      using less.prems by (auto simp: v_def max_def; unat_arith)+
    have cnt': "unat (cnt - cwnd) = unat cnt - unat cwnd" using True by (rule unat_sub)
    have pos: "0 < unat cwnd" "unat cwnd \<le> unat cnt"
      using less.prems True by (simp_all add: unat_gt_0 word_le_nat_alt)
    then have "unat (cnt - cwnd) < unat cnt" by (simp add: cnt')
    from less.hyps [OF this v(5)] obtain c w where
      eq: "slow_start_loop clamp (cnt - cwnd) v = Some (c, w)"
      and post: "slow_start_post clamp (cnt - cwnd) v c w" by blast
    have "unat (cnt - cwnd) div unat v \<le> (unat cnt - unat cwnd) div unat cwnd"
      unfolding cnt' using v(1) pos by (intro div_le_mono2) (simp_all add: word_le_nat_alt)
    also have "\<dots> = unat cnt div unat cwnd - 1"
      using pos by (simp add: le_div_geq)
    finally have a: "unat (cnt - cwnd) div unat v \<le> unat cnt div unat cwnd - 1" .
    have b: "1 \<le> unat cnt div unat cwnd"
      using pos div_le_mono [OF pos(2), of "unat cwnd"] by simp
    have "unat w - unat v \<le> unat (cnt - cwnd) div unat v"
      using post by (simp add: slow_start_post_def)
    with a b v(4) have "unat w - unat cwnd \<le> unat cnt div unat cwnd" by linarith
    with post v have "slow_start_post clamp cnt cwnd c w"
      by (auto simp: slow_start_post_def)
    with eq True show ?thesis by (simp add: slow_start_loop_step flip: v_def)
  qed
qed

text \<open>
  The exact condition for the loop to end: only a zero window under a zero clamp spins.
\<close>

lemma slow_start_loop_spins:
  assumes "slow_start_loop 0 cnt 0 = Some r"
  shows False
proof -
  have "cwnd = 0 \<longrightarrow> clamp = 0 \<longrightarrow> False" if "slow_start_loop clamp cnt cwnd = Some r"
    for clamp cnt cwnd r
    using that by (rule slow_start_loop.raw_induct [rotated]) (auto split: if_splits)
  with assms show False by blast
qed

lemma slow_start_loop_terminates_iff:
  "(\<exists>r. slow_start_loop clamp cnt cwnd = Some r) \<longleftrightarrow> cwnd \<noteq> 0 \<or> clamp \<noteq> 0"
proof (cases "cwnd = 0")
  case True
  show ?thesis
  proof (cases "clamp = 0")
    case True
    with \<open>cwnd = 0\<close> slow_start_loop_spins show ?thesis by blast
  next
    case False
    with True show ?thesis
      using slow_start_loop_Some [of 1 clamp cnt]
      by (auto simp: slow_start_loop_step word_pos_iff)
  qed
next
  case False
  then show ?thesis using slow_start_loop_Some [of cwnd clamp cnt] by auto
qed

text \<open>
  The usual case of a counter below the window: one more segment, the counter is kept.
\<close>

lemma slow_start_loop_once:
  assumes c: "c < cwnd" and nw: "unat c + unat cwnd < 4294967296" and cl: "cwnd < clamp"
  shows "slow_start_loop clamp (c + cwnd) cwnd = Some (c, cwnd + 1)"
proof -
  have "cwnd \<le> c + cwnd" using nw by (simp add: word_le_nat_alt unat_add_no_wrap)
  moreover have "c < cwnd + 1" using c cl by unat_arith
  ultimately show ?thesis using cl by (simp add: slow_start_loop_step slow_start_loop_stop)
qed

section \<open>Properties\<close>

text \<open>
  C28: slow start returns exactly when it has nothing to do (byte counting and less than one
  segment acknowledged), or the window or its clamp is not zero; with both zero the loop spins
  forever.
\<close>

theorem slow_start_terminates_iff:
  "(\<exists>sk'. tcp_slow_start k sk = Some sk') \<longleftrightarrow>
     \<not> (snd_cwnd sk = 0 \<and> snd_cwnd_clamp sk = 0
        \<and> (sysctl_tcp_abc k = 0 \<or> mss_cache sk \<le> bytes_acked sk))"
  using slow_start_loop_terminates_iff [of "snd_cwnd_clamp sk"
      "snd_cwnd_cnt sk + slow_start_count k sk" "snd_cwnd sk"]
  by (auto simp: tcp_slow_start_def bind_eq_Some_iff not_less)

text \<open>
  in slow start with the default settings (byte counting with limit 1, no limited slow
  start) an acknowledgment of at least one segment opens the window by exactly one segment,
  leaves the packet counter as it was and restarts the byte count.
\<close>

theorem slow_start_one_per_ack:
  assumes "sysctl_tcp_abc k = 1" and "sysctl_tcp_max_ssthresh k = 0"
    and "mss_cache sk \<le> bytes_acked sk"
    and "snd_cwnd_cnt sk < snd_cwnd sk" and "snd_cwnd sk < snd_cwnd_clamp sk"
    and "snd_cwnd_clamp sk \<le> 0x7FFFFFFF"
  shows "tcp_slow_start k sk = Some (sk\<lparr>bytes_acked := 0, snd_cwnd := snd_cwnd sk + 1\<rparr>)"
proof -
  have c: "slow_start_count k sk = snd_cwnd sk" using assms(1,2) by (simp add: slow_start_count_def)
  have "unat (snd_cwnd_cnt sk) + unat (snd_cwnd sk) < 4294967296"
    using assms(4-6) by (simp add: word_less_nat_alt word_le_nat_alt)
  from slow_start_loop_once [OF assms(4) this assms(5)] c assms(3) show ?thesis
    by (simp add: tcp_slow_start_def flip: not_le)
qed

definition sample_sk :: "'ca \<Rightarrow> 'ca tcp_sock" where
  "sample_sk p = \<lparr> sk_state = 0, snd_nxt = 0, snd_una = 0, mss_cache = 1000, srtt = 80,
     rx_opt = \<lparr>rcv_tsval = 0, rcv_tsecr = 0, saw_tstamp = False\<rparr>, snd_ssthresh = 20,
     snd_cwnd = 4, snd_cwnd_cnt = 0, snd_cwnd_clamp = 100, snd_cwnd_stamp = 0,
     bytes_acked = 1000, icsk_ca_ops = 0, icsk_ca_state = TCP_CA_Open, icsk_ca_priv = p \<rparr>"

theorem slow_start_one_per_ack_witness:
  "tcp_slow_start kernel_init (sample_sk ())
     = Some ((sample_sk ())\<lparr>bytes_acked := 0, snd_cwnd := 5\<rparr>)"
  using slow_start_one_per_ack [of kernel_init "sample_sk ()"]
  by (simp add: kernel_init_def sample_sk_def)

end
