(* ===== verification/Cong_Interface.thy ===== *)
theory Cong_Interface
  imports Agent Reno
begin

text \<open>
  The contract between the agent and a congestion control algorithm, as the locale
  \<open>cong_control\<close>: what every operation of a table must keep for the agent to be safe. The
  agent's lemmas are proved once from it: every sequence of acknowledgments and timeouts runs
  without a trap and keeps the algorithm's invariant. The component theories interpret the
  locale on the tables of the code.
\<close>

section \<open>Frame\<close>

text \<open>The fields that belong to the agent: no operation of an algorithm writes them.\<close>

definition net_frame :: "'ca tcp_sock \<Rightarrow> 'ca tcp_sock \<Rightarrow> bool" where
  "net_frame sk sk' \<longleftrightarrow>
     sk_state sk' = sk_state sk \<and> snd_nxt sk' = snd_nxt sk \<and> snd_una sk' = snd_una sk
     \<and> mss_cache sk' = mss_cache sk \<and> srtt sk' = srtt sk \<and> rx_opt sk' = rx_opt sk
     \<and> snd_cwnd_stamp sk' = snd_cwnd_stamp sk \<and> icsk_ca_ops sk' = icsk_ca_ops sk
     \<and> icsk_ca_state sk' = icsk_ca_state sk"

lemma net_frame_refl [simp, intro]: "net_frame sk sk"
  by (simp add: net_frame_def)

lemma net_frame_trans: "net_frame a b \<Longrightarrow> net_frame b c \<Longrightarrow> net_frame a c"
  by (simp add: net_frame_def)

lemma net_frame_upd [simp]:
  "net_frame sk (sk'\<lparr>snd_ssthresh := v\<rparr>) = net_frame sk sk'"
  "net_frame sk (sk'\<lparr>snd_cwnd := v\<rparr>) = net_frame sk sk'"
  "net_frame sk (sk'\<lparr>snd_cwnd_cnt := v\<rparr>) = net_frame sk sk'"
  "net_frame sk (sk'\<lparr>snd_cwnd_clamp := v\<rparr>) = net_frame sk sk'"
  "net_frame sk (sk'\<lparr>bytes_acked := v\<rparr>) = net_frame sk sk'"
  "net_frame sk (sk'\<lparr>icsk_ca_priv := p\<rparr>) = net_frame sk sk'"
  by (simp_all add: net_frame_def)

text \<open>The converse: an update of the agent's fields leaves those of the algorithm alone.\<close>

definition net_update :: "'ca tcp_sock \<Rightarrow> 'ca tcp_sock \<Rightarrow> bool" where
  "net_update sk sk' \<longleftrightarrow>
     snd_ssthresh sk' = snd_ssthresh sk \<and> snd_cwnd sk' = snd_cwnd sk
     \<and> snd_cwnd_cnt sk' = snd_cwnd_cnt sk \<and> snd_cwnd_clamp sk' = snd_cwnd_clamp sk
     \<and> mss_cache sk' = mss_cache sk \<and> icsk_ca_priv sk' = icsk_ca_priv sk"

lemma net_update_refl [simp, intro]: "net_update sk sk"
  by (simp add: net_update_def)

lemma net_update_upd [simp]:
  "net_update sk (sk'\<lparr>snd_una := a\<rparr>) = net_update sk sk'"
  "net_update sk (sk'\<lparr>snd_nxt := a\<rparr>) = net_update sk sk'"
  "net_update sk (sk'\<lparr>srtt := a\<rparr>) = net_update sk sk'"
  "net_update sk (sk'\<lparr>rx_opt := b\<rparr>) = net_update sk sk'"
  "net_update sk (sk'\<lparr>bytes_acked := a\<rparr>) = net_update sk sk'"
  "net_update sk (sk'\<lparr>snd_cwnd_stamp := a\<rparr>) = net_update sk sk'"
  "net_update sk (sk'\<lparr>icsk_ca_state := c\<rparr>) = net_update sk sk'"
  by (simp_all add: net_update_def)

text \<open>An operation that returns, keeps an invariant and respects the frame.\<close>

definition op_ok :: "('ca tcp_sock \<Rightarrow> bool) \<Rightarrow> 'ca tcp_sock \<Rightarrow> 'ca tcp_sock option \<Rightarrow> bool" where
  "op_ok live sk r \<longleftrightarrow> (\<exists>sk'. r = Some sk' \<and> live sk' \<and> net_frame sk sk')"

lemma op_okI [intro]: "r = Some sk' \<Longrightarrow> live sk' \<Longrightarrow> net_frame sk sk' \<Longrightarrow> op_ok live sk r"
  by (auto simp: op_ok_def)

lemma op_okE:
  assumes "op_ok live sk r"
  obtains sk' where "r = Some sk'" "live sk'" "net_frame sk sk'"
  using assms by (auto simp: op_ok_def)

lemma op_ok_Some [simp]: "op_ok live sk (Some sk') \<longleftrightarrow> live sk' \<and> net_frame sk sk'"
  by (simp add: op_ok_def)

lemma op_ok_None [simp]: "\<not> op_ok live sk None"
  by (simp add: op_ok_def)

section \<open>The response to a timeout\<close>

text \<open>
  What a retransmission timeout (\<open>enter_loss\<close>) asks of a table and of an invariant \<open>inv\<close> of the
  socket. It is required of an algorithm before \<open>init\<close> as well as after it: the agent
  initialises an algorithm at the first acknowledgment, and the timer may expire before that.
\<close>

locale loss_response =
  fixes ops :: "'ca tcp_congestion_ops"
    and inv :: "'ca tcp_sock \<Rightarrow> bool"
  assumes inv_net: "inv sk \<Longrightarrow> net_update sk sk' \<Longrightarrow> inv sk'"
    and inv_pos: "inv sk \<Longrightarrow> 0 < snd_cwnd sk"
    and inv_lower: "inv sk \<Longrightarrow> 0 < w \<Longrightarrow> w \<le> snd_cwnd sk \<Longrightarrow> inv (sk\<lparr>snd_cwnd := w\<rparr>)"
    and inv_cnt: "inv sk \<Longrightarrow> inv (sk\<lparr>snd_cwnd_cnt := 0\<rparr>)"
    and loss_ssthresh: "inv sk
      \<Longrightarrow> \<exists>v sk'. call_ssthresh ops k sk = Some (v, sk') \<and> inv (sk'\<lparr>snd_ssthresh := v\<rparr>)"
    and loss_event: "inv sk
      \<Longrightarrow> op_ok inv sk (call_opt (map_option (\<lambda>f. f CA_EVENT_LOSS) (ca_cwnd_event ops)) k sk)"
    and loss_state: "inv sk
      \<Longrightarrow> op_ok inv sk (call_opt (map_option (\<lambda>f. f TCP_CA_Loss) (ca_set_state ops)) k sk)"

context loss_response begin

lemma enter_loss_ok:
  assumes "inv (linux_sk ag)"
  shows "\<exists>ag'. enter_loss ops k ag = Some ag' \<and> inv (linux_sk ag')
    \<and> initialized ag' = initialized ag"
proof -
  have "inv (touch_cwnd k (linux_sk ag))"
    using assms by (rule inv_net) (simp add: touch_cwnd_def)
  from loss_ssthresh [OF this, of k] obtain v sk1 where
    v: "call_ssthresh ops k (touch_cwnd k (linux_sk ag)) = Some (v, sk1)" "inv (sk1\<lparr>snd_ssthresh := v\<rparr>)"
    by blast
  from loss_event [OF v(2), of k] obtain sk2 where
    sk2: "tcp_ca_event_call ops CA_EVENT_LOSS k (sk1\<lparr>snd_ssthresh := v\<rparr>) = Some sk2" "inv sk2"
    by (auto simp: tcp_ca_event_call_def op_ok_def)
  let ?sk3 = "sk2\<lparr>snd_cwnd := 1, snd_cwnd_cnt := 0, bytes_acked := 0\<rparr>"
  have "inv (sk2\<lparr>snd_cwnd := 1\<rparr>)"
    using inv_lower [OF sk2(2), of 1] inv_pos [OF sk2(2)]
    by (simp add: one_le_iff word_pos_iff)
  then have "inv ?sk3" using inv_net [OF inv_cnt, of "sk2\<lparr>snd_cwnd := 1\<rparr>" ?sk3] by simp
  from loss_state [OF this, of k] obtain sk4 where
    sk4: "tcp_set_ca_state ops TCP_CA_Loss k ?sk3 = Some (sk4\<lparr>icsk_ca_state := TCP_CA_Loss\<rparr>)" "inv sk4"
    by (elim op_okE) (simp add: tcp_set_ca_state_def)
  have "inv (sk4\<lparr>icsk_ca_state := TCP_CA_Loss\<rparr>)" using sk4(2) by (rule inv_net) simp
  with v(1) sk2(1) sk4(1) show ?thesis by (simp add: enter_loss_def Let_def)
qed

end

section \<open>The contract\<close>

text \<open>
  \<open>pre\<close> is what holds before \<open>init\<close>, \<open>live\<close> what holds after it; both survive a timeout.
  \<open>env k s o\<close> is what the
  algorithm assumes of the globals, the smoothed round trip time and the received options when
  an acknowledgment is processed, and \<open>acked k n t\<close> what it assumes of the number of newly
  acknowledged packets and their time stamp.
\<close>

locale cong_control = before: loss_response ops pre
  for ops :: "'ca tcp_congestion_ops" and pre :: "'ca tcp_sock \<Rightarrow> bool" +
  fixes live :: "'ca tcp_sock \<Rightarrow> bool"
    and env :: "kernel \<Rightarrow> u32 \<Rightarrow> tcp_options_received \<Rightarrow> bool"
    and acked :: "kernel \<Rightarrow> u32 \<Rightarrow> s64 \<Rightarrow> bool"
  assumes live_net: "live sk \<Longrightarrow> net_update sk sk' \<Longrightarrow> live sk'"
    and live_pos: "live sk \<Longrightarrow> 0 < snd_cwnd sk"
    and live_lower: "live sk \<Longrightarrow> 0 < w \<Longrightarrow> w \<le> snd_cwnd sk \<Longrightarrow> live (sk\<lparr>snd_cwnd := w\<rparr>)"
    and live_raise: "live sk \<Longrightarrow> snd_cwnd sk < snd_ssthresh sk
      \<Longrightarrow> live (sk\<lparr>snd_cwnd := snd_ssthresh sk\<rparr>)"
    and live_cnt: "live sk \<Longrightarrow> live (sk\<lparr>snd_cwnd_cnt := 0\<rparr>)"
    and init_law: "pre sk \<Longrightarrow> env k (srtt sk) (rx_opt sk)
      \<Longrightarrow> op_ok live sk (call_opt (ca_init ops) k sk)"
    and ssthresh_law: "live sk
      \<Longrightarrow> \<exists>v sk'. call_ssthresh ops k sk = Some (v, sk') \<and> 2 \<le> v
            \<and> live (sk'\<lparr>snd_ssthresh := v\<rparr>) \<and> net_frame sk sk'"
    and min_cwnd_law: "live sk \<Longrightarrow> 2 \<le> snd_ssthresh sk
      \<Longrightarrow> \<exists>w. call_min_cwnd ops sk = Some w \<and> live (sk\<lparr>snd_cwnd := w\<rparr>)"
    and cong_avoid_law: "live sk \<Longrightarrow> env k (srtt sk) (rx_opt sk)
      \<Longrightarrow> op_ok live sk (call_cong_avoid ops ack rtt infl good k sk)"
    and set_state_law: "live sk
      \<Longrightarrow> op_ok live sk (call_opt (map_option (\<lambda>f. f s) (ca_set_state ops)) k sk)"
    and cwnd_event_law: "live sk
      \<Longrightarrow> ev \<in> {CA_EVENT_FAST_ACK, CA_EVENT_SLOW_ACK, CA_EVENT_LOSS}
      \<Longrightarrow> op_ok live sk (call_opt (map_option (\<lambda>f. f ev) (ca_cwnd_event ops)) k sk)"
    and pkts_acked_law: "live sk \<Longrightarrow> env k (srtt sk) (rx_opt sk) \<Longrightarrow> acked k n t \<Longrightarrow> n \<noteq> 0
      \<Longrightarrow> op_ok live sk (call_opt (map_option (\<lambda>f. f n t) (ca_pkts_acked ops)) k sk)"
    and rtt_sample_pre: "pre sk
      \<Longrightarrow> op_ok pre sk (call_opt (map_option (\<lambda>f. f u) (ca_rtt_sample ops)) k sk)"
    and rtt_sample_live: "live sk
      \<Longrightarrow> op_ok live sk (call_opt (map_option (\<lambda>f. f u) (ca_rtt_sample ops)) k sk)"

text \<open>The initialised algorithm keeps its invariant at a timeout too.\<close>

sublocale cong_control \<subseteq> after: loss_response ops live
proof (unfold_locales, goal_cases)
  case (5 sk k)
  from ssthresh_law [OF this, of k] show ?case by blast
next
  case (6 sk k)
  then show ?case by (rule cwnd_event_law) simp
qed (simp_all add: live_net live_pos live_lower live_cnt set_state_law)

text \<open>
  The environment assumption of one event in a state of the agent, and of a run: along the run
  every event satisfies it in the state it meets. Packets are sent and the timer expires at any
  time, before the first acknowledgment too. An acknowledgment satisfies the assumptions of the
  algorithm, the globals have a \<open>tcp_max_burst\<close> other than 0 (with 0 the window can become 0,
  lemma \<open>moderate_to_zero\<close>), and the scoreboard does not raise the flag of new data.
\<close>

definition acked_count :: "ack_info \<Rightarrow> 'ca agent \<Rightarrow> u32" where
  "acked_count ai ag = word_of_int (ai_seqno ai + 1) - word_of_int (highest_ack ag + 1)"

definition new_srtt :: "ack_info \<Rightarrow> 'ca agent \<Rightarrow> u32" where
  "new_srtt ai ag = (case ai_rtt ai of None \<Rightarrow> srtt (linux_sk ag) | Some (u, s) \<Rightarrow> s)"

fun event_env ::
  "(kernel \<Rightarrow> u32 \<Rightarrow> tcp_options_received \<Rightarrow> bool) \<Rightarrow> (kernel \<Rightarrow> u32 \<Rightarrow> s64 \<Rightarrow> bool)
    \<Rightarrow> agent_event \<Rightarrow> 'ca agent \<Rightarrow> bool" where
  "event_env env acked (Ev_send n) ag \<longleftrightarrow> True"
| "event_env env acked (Ev_recv k ai) ag \<longleftrightarrow>
     env k (new_srtt ai ag) (ai_rx_opt ai) \<and> tcp_max_burst k \<noteq> 0
     \<and> ai_sack_flag ai AND FLAG_DATA_ACKED = 0
     \<and> acked k (acked_count ai ag) (ai_last_ackt ai) \<and> acked k (acked_count ai ag) 0"
| "event_env env acked (Ev_timeout k) ag \<longleftrightarrow> True"

fun run_env ::
  "(kernel \<Rightarrow> u32 \<Rightarrow> tcp_options_received \<Rightarrow> bool) \<Rightarrow> (kernel \<Rightarrow> u32 \<Rightarrow> s64 \<Rightarrow> bool)
    \<Rightarrow> 'ca tcp_congestion_ops \<Rightarrow> agent_event list \<Rightarrow> 'ca agent \<Rightarrow> bool" where
  "run_env env acked ops [] ag \<longleftrightarrow> True"
| "run_env env acked ops (e # es) ag \<longleftrightarrow> event_env env acked e ag
     \<and> (case agent_step ops e ag of None \<Rightarrow> True | Some ag' \<Rightarrow> run_env env acked ops es ag')"

text \<open>The state of an agent that runs the algorithm.\<close>

definition agent_inv ::
  "('ca tcp_sock \<Rightarrow> bool) \<Rightarrow> ('ca tcp_sock \<Rightarrow> bool) \<Rightarrow> 'ca agent \<Rightarrow> bool" where
  "agent_inv pre live ag \<longleftrightarrow> (if initialized ag then live (linux_sk ag) else pre (linux_sk ag))"

section \<open>The agent under the contract\<close>

lemma moderate_cwnd_value:
  assumes "0 < snd_cwnd sk" and "0 < int pif + uint (tcp_max_burst k)"
  defines "w \<equiv> word_of_int (min (sint (snd_cwnd sk)) (int pif + uint (tcp_max_burst k))) :: u32"
  shows "0 < w \<and> w \<le> snd_cwnd sk"
proof (cases "sint (snd_cwnd sk) \<le> int pif + uint (tcp_max_burst k)")
  case True
  with assms(1) show ?thesis by (simp add: w_def min_def)
next
  case False
  define x where "x = int pif + uint (tcp_max_burst k)"
  have x: "0 < x" "x < sint (snd_cwnd sk)" using False assms(2) by (simp_all add: x_def)
  then have s: "sint (snd_cwnd sk) = uint (snd_cwnd sk)"
    by (intro sint_nonneg_eq_uint) simp
  have "uint (word_of_int x :: u32) = x"
    using x s uint_lt2p [of "snd_cwnd sk"] by (simp add: take_bit_int_eq_self_iff unsigned_of_int)
  then have "0 < (word_of_int x :: u32) \<and> word_of_int x \<le> snd_cwnd sk"
    using x s by (simp add: word_less_def word_le_def)
  moreover have "w = word_of_int x" using False by (simp add: w_def x_def min_def)
  ultimately show ?thesis by simp
qed

text \<open>
  Moderation to nothing: without a burst allowance and with no packet in flight the window becomes 0.
\<close>

lemma moderate_to_zero:
  "tcp_max_burst k = 0 \<Longrightarrow> 0 \<le> sint (snd_cwnd sk) \<Longrightarrow> snd_cwnd (tcp_moderate_cwnd k 0 sk) = 0"
  by (simp add: tcp_moderate_cwnd_def touch_cwnd_def)

lemma recv_begin_agent:
  assumes "recv_begin ai p ack ag = (flag, ag')"
  shows "net_update (linux_sk ag) (linux_sk ag')" and "initialized ag' = initialized ag"
    and "srtt (linux_sk ag') = srtt (linux_sk ag)"
  using assms by (auto simp: recv_begin_def ack_processing_def Let_def split: if_splits)

lemma recv_begin_not_dup:
  assumes "recv_begin ai p ack ag = (flag, ag')" and "ai_sack_flag ai AND FLAG_DATA_ACKED = 0"
    and "flag AND FLAG_NOT_DUP \<noteq> 0"
  shows "p < ack"
  using assms
  by (auto simp: recv_begin_def ack_processing_def Let_def bit.conj_disj_distrib2 split: if_splits)

context cong_control begin

lemmas pre_net = before.inv_net

lemma touch_live [simp]: "live sk \<Longrightarrow> live (touch_cwnd k sk)"
  by (erule live_net) (simp add: touch_cwnd_def)

lemma state_live [simp]: "live sk \<Longrightarrow> live (sk\<lparr>icsk_ca_state := s\<rparr>)"
  by (erule live_net) simp

lemma set_ca_state_live:
  assumes "live sk"
  shows "\<exists>sk'. tcp_set_ca_state ops s k sk = Some sk' \<and> live sk'"
  using set_state_law [OF assms, of s k] by (elim op_okE) (simp add: tcp_set_ca_state_def)

lemma moderate_live:
  assumes "live sk" and "tcp_max_burst k \<noteq> 0"
  shows "live (tcp_moderate_cwnd k pif sk)"
proof -
  have "0 < tcp_max_burst k" using assms(2) by (simp add: word_pos_iff)
  then have "0 < uint (tcp_max_burst k)" by (simp add: word_less_def)
  then show ?thesis
    using moderate_cwnd_value [OF live_pos [OF assms(1)], of pif k] live_lower [OF assms(1)]
    by (simp add: tcp_moderate_cwnd_def)
qed

lemma fastretrans_slowdown_live:
  assumes "live sk"
  shows "\<exists>sk'. fastretrans_slowdown ops k sk = Some sk' \<and> live sk'"
proof -
  obtain v sk1 where v: "call_ssthresh ops k (touch_cwnd k sk) = Some (v, sk1)" "2 \<le> v"
      "live (sk1\<lparr>snd_ssthresh := v\<rparr>)"
    using ssthresh_law [OF touch_live [OF assms, of k], of k] by blast
  let ?sk2 = "sk1\<lparr>snd_ssthresh := v, snd_cwnd_cnt := 0, bytes_acked := 0\<rparr>"
  have "live ?sk2" using live_net [OF live_cnt [OF v(3)], of ?sk2] by simp
  from min_cwnd_law [OF this] v(2) obtain w where
    w: "call_min_cwnd ops ?sk2 = Some w" "live (?sk2\<lparr>snd_cwnd := w\<rparr>)" by auto
  from v w show ?thesis
    using set_ca_state_live [OF w(2), of TCP_CA_Recovery k]
    by (simp add: fastretrans_slowdown_def Let_def)
qed

lemma fastretrans_alert_live:
  assumes "live (linux_sk ag)" and "tcp_max_burst k \<noteq> 0"
  shows "\<exists>ag'. tcp_fastretrans_alert ops k flag pif ag = Some ag' \<and> live (linux_sk ag')
    \<and> initialized ag' = initialized ag"
proof -
  let ?sk = "linux_sk ag"
  have "live (if snd_cwnd ?sk < snd_ssthresh ?sk
      then tcp_moderate_cwnd k pif (?sk\<lparr>snd_cwnd := snd_ssthresh ?sk\<rparr>) else ?sk)"
    using assms live_raise moderate_live by simp
  from set_ca_state_live [OF this, of TCP_CA_Open k] fastretrans_slowdown_live [OF assms(1), of k]
  show ?thesis using assms(1) by (auto simp: tcp_fastretrans_alert_def Let_def)
qed

lemma time_processing_ok:
  assumes "agent_inv pre live (ag\<lparr>linux_sk := sk\<rparr>)"
  shows "\<exists>sk'. time_processing ops k ai sk = Some sk' \<and> agent_inv pre live (ag\<lparr>linux_sk := sk'\<rparr>)
    \<and> rx_opt sk' = ai_rx_opt ai
    \<and> srtt sk' = (case ai_rtt ai of None \<Rightarrow> srtt sk | Some (u, s) \<Rightarrow> s)"
proof -
  let ?sk = "sk\<lparr>rx_opt := ai_rx_opt ai\<rparr>"
  let ?p = "if initialized ag then live else pre"
  have p: "?p ?sk" using assms pre_net [of sk ?sk] live_net [of sk ?sk]
    by (simp add: agent_inv_def split: if_splits)
  show ?thesis
  proof (cases "ai_rtt ai")
    case None
    with p show ?thesis by (simp add: time_processing_def agent_inv_def split: if_splits)
  next
    case (Some us)
    then obtain u t where us: "ai_rtt ai = Some (u, t)" by (cases us) auto
    have "op_ok ?p ?sk (call_opt (map_option (\<lambda>f. f u) (ca_rtt_sample ops)) k ?sk)"
      using p rtt_sample_pre [of ?sk u k] rtt_sample_live [of ?sk u k] by (simp split: if_splits)
    then obtain sk2 where sk2: "call_opt (map_option (\<lambda>f. f u) (ca_rtt_sample ops)) k ?sk = Some sk2"
        "?p sk2" "net_frame ?sk sk2"
      by (rule op_okE)
    have "?p (sk2\<lparr>srtt := t\<rparr>)"
      using sk2(2) pre_net [of sk2 "sk2\<lparr>srtt := t\<rparr>"] live_net [of sk2 "sk2\<lparr>srtt := t\<rparr>"]
      by (simp split: if_splits)
    with sk2 us show ?thesis
      by (simp add: time_processing_def agent_inv_def net_frame_def split: if_splits)
  qed
qed

lemma recv_report_ok:
  assumes i: "agent_inv pre live ag"
    and e: "env k (srtt (linux_sk ag)) (rx_opt (linux_sk ag))"
    and n: "flag AND FLAG_NOT_DUP \<noteq> 0 \<Longrightarrow> n \<noteq> 0"
    and a: "acked k n (ai_last_ackt ai)" "acked k n 0"
  shows "\<exists>ag'. recv_report ops k ai flag n ag = Some ag' \<and> live (linux_sk ag') \<and> initialized ag'
    \<and> net_frame (linux_sk ag) (linux_sk ag')"
proof -
  let ?sk = "linux_sk ag"
  have "op_ok live ?sk (if \<not> initialized ag then call_opt (ca_init ops) k ?sk else Some ?sk)"
    using i e init_law [of ?sk k] by (simp add: agent_inv_def)
  then obtain sk1 where s1:
    "(if \<not> initialized ag then call_opt (ca_init ops) k ?sk else Some ?sk) = Some sk1"
    "live sk1" "net_frame ?sk sk1" by (rule op_okE)
  let ?t = "if flag AND FLAG_UNSURE_TSTAMP \<noteq> 0 then 0 else ai_last_ackt ai"
  have e1: "env k (srtt sk1) (rx_opt sk1)" using e s1(3) by (simp add: net_frame_def)
  have "op_ok live sk1 (if flag AND FLAG_NOT_DUP \<noteq> 0
      then call_opt (map_option (\<lambda>f. f n ?t) (ca_pkts_acked ops)) k sk1 else Some sk1)"
    using n a s1(2) pkts_acked_law [OF s1(2) e1, of n ?t] by simp
  then obtain sk2 where s2: "(if flag AND FLAG_NOT_DUP \<noteq> 0
      then call_opt (map_option (\<lambda>f. f n ?t) (ca_pkts_acked ops)) k sk1 else Some sk1) = Some sk2"
    "live sk2" "net_frame sk1 sk2" by (rule op_okE)
  let ?e = "if icsk_ca_state sk2 = TCP_CA_Open \<and> flag AND FLAG_CA_ALERT = 0
      \<and> flag AND FLAG_NOT_DUP \<noteq> 0 then CA_EVENT_FAST_ACK else CA_EVENT_SLOW_ACK"
  have "?e \<in> {CA_EVENT_FAST_ACK, CA_EVENT_SLOW_ACK, CA_EVENT_LOSS}" by simp
  from cwnd_event_law [OF s2(2) this, of k] obtain sk3 where
    s3: "tcp_ca_event_call ops ?e k sk2 = Some sk3" "live sk3" "net_frame sk2 sk3"
    unfolding tcp_ca_event_call_def by (rule op_okE)
  have r: "recv_report ops k ai flag n ag = Some (ag\<lparr>linux_sk := sk3, initialized := True\<rparr>)"
    unfolding recv_report_def Let_def s1(1) bind.bind_lunit s2(1) s3(1) ..
  have "net_frame ?sk sk3" using s1(3) s2(3) s3(3) by (blast intro: net_frame_trans)
  with r s3(2) show ?thesis by simp
qed

lemma cong_avoid_live:
  assumes "live sk" and "env k (srtt sk) (rx_opt sk)"
  shows "\<exists>sk'. tcp_cong_avoid ops k ack rtt infl good sk = Some sk' \<and> live sk'"
  using cong_avoid_law [OF assms, of "ack * mss_cache sk" rtt infl good] touch_live
  by (auto simp: tcp_cong_avoid_def op_ok_def)

lemma recv_raise_live:
  assumes "live (linux_sk ag)" and "env k (srtt (linux_sk ag)) (rx_opt (linux_sk ag))"
  shows "\<exists>sk. recv_raise ops k ai flag ack ag = Some sk \<and> live sk"
  using cong_avoid_live [OF assms, of ack "ai_seq_rtt ai" "ai_prior_in_flight ai" 0] assms(1)
  by (simp add: recv_raise_def)

lemma recv_window_live:
  assumes "live (linux_sk ag)" and "env k (srtt (linux_sk ag)) (rx_opt (linux_sk ag))"
    and "tcp_max_burst k \<noteq> 0"
  shows "\<exists>ag'. recv_window ops k ai flag ack ag = Some ag' \<and> live (linux_sk ag')
    \<and> initialized ag' = initialized ag"
proof -
  from recv_raise_live [OF assms(1,2)] obtain sk where
    sk: "recv_raise ops k ai flag ack ag = Some sk" "live sk" by blast
  from fastretrans_alert_live [of "ag\<lparr>linux_sk := sk\<rparr>" k flag "ai_pif ai"] sk assms(3)
  obtain ag' where ag': "tcp_fastretrans_alert ops k flag (ai_pif ai) (ag\<lparr>linux_sk := sk\<rparr>) = Some ag'"
    "live (linux_sk ag')" "initialized ag' = initialized ag" by auto
  show ?thesis
  proof (cases "tcp_ack_is_dubious flag (linux_sk ag)")
    case True
    then show ?thesis unfolding recv_window_def sk(1) using ag' by simp
  next
    case False
    then show ?thesis
      using assms(1) cong_avoid_live [OF assms(1,2), of ack "ai_seq_rtt ai" "ai_prior_in_flight ai" 1]
      by (auto simp: recv_window_def)
  qed
qed

lemma agent_recv_ok:
  assumes i: "agent_inv pre live ag" and e: "event_env env acked (Ev_recv k ai) ag"
  shows "\<exists>ag'. agent_recv ops k ai ag = Some ag' \<and> agent_inv pre live ag'"
proof -
  define p where "p = (word_of_int (highest_ack ag + 1) :: u32)"
  define ack where "ack = (word_of_int (ai_seqno ai + 1) :: u32)"
  obtain flag ag1 where b: "recv_begin ai p ack ag = (flag, ag1)" by (cases "recv_begin ai p ack ag")
  note b1 = recv_begin_agent [OF b]
  have "agent_inv pre live (ag1\<lparr>linux_sk := linux_sk ag1\<rparr>)"
    using i b1 pre_net live_net by (simp add: agent_inv_def split: if_splits)
  from time_processing_ok [OF this, of k ai, unfolded b1(3)] obtain sk where
    t: "time_processing ops k ai (linux_sk ag1) = Some sk"
      "agent_inv pre live (ag1\<lparr>linux_sk := sk\<rparr>)" "rx_opt sk = ai_rx_opt ai"
      "srtt sk = new_srtt ai ag" by (auto simp: new_srtt_def)
  have acked: "acked k (ack - p) (ai_last_ackt ai)" "acked k (ack - p) 0"
    using e by (simp_all add: acked_count_def p_def ack_def)
  have n: "ack - p \<noteq> 0" if "flag AND FLAG_NOT_DUP \<noteq> 0"
    using recv_begin_not_dup [OF b] e that by auto
  have env: "env k (srtt sk) (rx_opt sk)" using e t(3,4) by simp
  from recv_report_ok [OF t(2), of k flag "ack - p" ai] env n acked obtain ag2 where
    r: "recv_report ops k ai flag (ack - p) (ag1\<lparr>linux_sk := sk\<rparr>) = Some ag2"
      "live (linux_sk ag2)" "initialized ag2" "net_frame sk (linux_sk ag2)" by auto
  have "env k (srtt (linux_sk ag2)) (rx_opt (linux_sk ag2))"
    using env r(4) by (simp add: net_frame_def)
  from recv_window_live [OF r(2) this, of ai flag ack] e r(3) obtain ag3 where
    w: "recv_window ops k ai flag ack ag2 = Some ag3" "live (linux_sk ag3)" "initialized ag3" by auto
  have eq: "agent_recv ops k ai ag
      = (if word_of_int (t_seqno ag) < ack \<or> ack < p then Some ag else Some ag3)"
    unfolding agent_recv_def Let_def p_def [symmetric] ack_def [symmetric] b prod.case t(1)
      bind.bind_lunit r(1) w(1) ..
  show ?thesis
  proof (cases "word_of_int (t_seqno ag) < ack \<or> ack < p")
    case True
    with eq i show ?thesis by simp
  next
    case False
    with eq w(2,3) show ?thesis by (simp add: agent_inv_def)
  qed
qed

lemma agent_step_ok:
  assumes "agent_inv pre live ag" and "event_env env acked ev ag"
  shows "\<exists>ag'. agent_step ops ev ag = Some ag' \<and> agent_inv pre live ag'"
proof (cases ev)
  case (Ev_send n)
  then show ?thesis using assms(1) pre_net live_net
    by (auto simp: agent_send_def Let_def agent_inv_def split: if_splits)
next
  case (Ev_recv k ai)
  then show ?thesis using agent_recv_ok [OF assms(1)] assms(2) by simp
next
  case (Ev_timeout k)
  then show ?thesis
    using before.enter_loss_ok [of ag k] after.enter_loss_ok [of ag k] assms(1)
    by (auto simp: agent_inv_def split: if_splits)
qed

text \<open>Every run is free of traps and keeps the invariant.\<close>

lemma agent_run_ok:
  "agent_inv pre live ag \<Longrightarrow> run_env env acked ops evs ag
    \<Longrightarrow> \<exists>ag'. agent_run ops evs ag = Some ag' \<and> agent_inv pre live ag'"
proof (induction evs arbitrary: ag)
  case (Cons ev evs)
  from Cons.prems have "event_env env acked ev ag" by simp
  from agent_step_ok [OF Cons.prems(1) this] obtain ag1 where
    "agent_step ops ev ag = Some ag1" "agent_inv pre live ag1" by blast
  with Cons.prems(2) Cons.IH [of ag1] show ?case by simp
qed simp

end

section \<open>A sample run\<close>

text \<open>
  A run of two events from the initial state of an agent, on which the environment
  assumptions can be seen to hold: two segments are sent, the first is acknowledged after 40 ms.
\<close>

definition sample_agent :: "'ca \<Rightarrow> 'ca agent" where
  "sample_agent p = \<lparr> linux_sk = sample_sk p, initialized = False, highest_ack = 0, maxseq = 0,
     t_seqno = 1, recover = 0 \<rparr>"

definition sample_kernel :: kernel where
  "sample_kernel = kernel_init\<lparr>tcp_time_stamp := 100, ktime_get_real := 100000000\<rparr>"

definition sample_ack :: ack_info where
  "sample_ack = \<lparr> ai_seqno = 1, ai_ecnecho = False, ai_prior_in_flight = 2, ai_sack_flag = 0,
     ai_rx_opt = \<lparr>rcv_tsval = 100, rcv_tsecr = 60, saw_tstamp = True\<rparr>, ai_rtt = Some (40000, 320),
     ai_seq_rtt = 40, ai_last_ackt = 60000000, ai_pif = 1 \<rparr>"

definition sample_run :: "agent_event list" where
  "sample_run = [Ev_send 2, Ev_recv sample_kernel sample_ack]"

lemma sample_run_env:
  assumes "env sample_kernel 320 \<lparr>rcv_tsval = 100, rcv_tsecr = 60, saw_tstamp = True\<rparr>"
    and "acked sample_kernel 1 60000000" and "acked sample_kernel 1 0"
  shows "run_env env acked ops sample_run (sample_agent p)"
  using assms
  by (simp add: sample_run_def sample_agent_def sample_ack_def agent_send_def acked_count_def
      new_srtt_def split: option.split)
    (simp add: sample_kernel_def kernel_init_def)

lemma sample_agent_sel [simp]:
  "linux_sk (sample_agent p) = sample_sk p" "initialized (sample_agent p) = False"
  by (simp_all add: sample_agent_def)

end
