(* ===== verification/Linux_Sender.thy ===== *)
theory Linux_Sender
  imports Sender Cong_Interface
begin

text \<open>
  The whole sender: the agent of Agent.thy, which runs a congestion control algorithm, with the
  scoreboard and the sending loop of Sender.thy (\<open>LinuxTcpAgent\<close> of src/ns-2.34/tcp/tcp-linux.cc).
  The inputs that Agent.thy leaves open, the packets in flight and the flags of the scoreboard, are
  those of the scoreboard here; the window of the algorithm bounds the sending loop. Under the
  contract \<open>cong_control\<close> no run traps: not in the algorithm, and not in an assertion of the scoreboard.
\<close>

section \<open>Handlers\<close>

text \<open>What sending depends on besides the window: timers, \<open>overhead_\<close>, \<open>syn_\<close> and \<open>maxburst_\<close>.\<close>

record send_args =
  sa_pending :: bool
  sa_overhead_zero :: bool
  sa_syn :: bool
  sa_maxburst :: int

type_synonym 'ca linux = "'ca agent \<times> sender"

text \<open>\<open>output\<close> and the loop keep the sequence numbers of the socket.\<close>

definition linux_send :: "send_args \<Rightarrow> int \<Rightarrow> 'ca linux \<Rightarrow> (int list \<times> 'ca linux) option" where
  "linux_send sa maxburst = (\<lambda>(ag, sn). do {
     (qs, sn') \<leftarrow> send_much False (sa_pending sa) (sa_overhead_zero sa) (sa_syn sa)
       (sint (snd_cwnd (linux_sk ag))) maxburst sn;
     Some (qs, (if qs = [] then ag else agent_send (nat (sn_t_seqno sn' - sn_t_seqno sn)) ag, sn'))
   })"

text \<open>
  What \<open>tcp_fastretrans_alert\<close> does to the scoreboard and to \<open>next_pkts_in_flight_\<close>: at the exit of a
  loss state both are cleared, at the entry into Recovery the latter is the window.
\<close>

definition alert_sender :: "u8 \<Rightarrow> 'ca agent \<Rightarrow> sender \<Rightarrow> sender" where
  "alert_sender flag ag sn =
    (let sk = linux_sk ag in
     if icsk_ca_state sk \<noteq> TCP_CA_Open \<and> recover ag \<le> highest_ack ag
     then sn\<lparr>sn_scb := clear_scoreboard (sn_scb sn), sn_npif := 0\<rparr>
     else if icsk_ca_state sk = TCP_CA_Recovery then sn
     else if flag AND (FLAG_DATA_LOST OR FLAG_ECE) \<noteq> 0
     then sn\<lparr>sn_npif := sint (snd_cwnd sk)\<rparr>
     else sn)"

definition window_sender ::
  "'ca tcp_congestion_ops \<Rightarrow> kernel \<Rightarrow> ack_info \<Rightarrow> u8 \<Rightarrow> u32 \<Rightarrow> 'ca agent \<Rightarrow> sender \<Rightarrow> sender option" where
  "window_sender ops k ai flag ack ag sn =
    (if tcp_ack_is_dubious flag (linux_sk ag)
     then do {
       sk \<leftarrow> recv_raise ops k ai flag ack ag;
       Some (alert_sender flag (ag\<lparr>linux_sk := sk\<rparr>) sn)
     }
     else Some sn)"

text \<open>\<open>recv\<close>: \<open>sa\<close> are the SACK blocks. The result holds the packets sent.\<close>

definition linux_recv ::
  "'ca tcp_congestion_ops \<Rightarrow> kernel \<Rightarrow> ack_info \<Rightarrow> sack list \<Rightarrow> send_args \<Rightarrow> 'ca linux
    \<Rightarrow> (int list \<times> 'ca linux) option" where
  "linux_recv ops k ai sa args = (\<lambda>(ag, sn).
    (let prior_snd_una = word_of_int (highest_ack ag + 1) :: u32;
         ack = word_of_int (ai_seqno ai + 1) :: u32
     in if (word_of_int (t_seqno ag) :: u32) < ack \<or> ack < prior_snd_una then Some ([], (ag, sn))
        else do {
          let prior_in_flight = word_of_int (sender_in_flight sn);
          (sack_flag, sn) \<leftarrow> sender_ack (ai_seqno ai) sa sn;
          let ai = ai\<lparr>ai_prior_in_flight := prior_in_flight, ai_sack_flag := sack_flag,
                      ai_pif := nat (sn_t_seqno sn - (sn_highest_ack sn + 1))\<rparr>;
          let (flag, ag) = recv_begin ai prior_snd_una ack ag;
          sk \<leftarrow> time_processing ops k ai (linux_sk ag);
          ag \<leftarrow> recv_report ops k ai flag (ack - prior_snd_una) (ag\<lparr>linux_sk := sk\<rparr>);
          sn \<leftarrow> window_sender ops k ai flag ack ag sn;
          ag \<leftarrow> recv_window ops k ai flag ack ag;
          linux_send args (sa_maxburst args) (ag, sn)
        }))"

text \<open>\<open>timeout\<close> of the retransmission timer with data outstanding.\<close>

definition linux_timeout ::
  "'ca tcp_congestion_ops \<Rightarrow> kernel \<Rightarrow> send_args \<Rightarrow> 'ca linux \<Rightarrow> (int list \<times> 'ca linux) option" where
  "linux_timeout ops k args = (\<lambda>(ag, sn). do {
     ag \<leftarrow> enter_loss ops k ag;
     sn \<leftarrow> sender_timeout sn;
     linux_send args 0 (ag, sn)
   })"

text \<open>\<open>advanceby\<close>: \<open>n\<close> packets more from the application.\<close>

definition linux_advance :: "int \<Rightarrow> send_args \<Rightarrow> 'ca linux \<Rightarrow> (int list \<times> 'ca linux) option" where
  "linux_advance n args = (\<lambda>(ag, sn).
     linux_send args (sa_maxburst args) (ag, sn\<lparr>sn_curseq := sn_curseq sn + n\<rparr>))"

datatype linux_event =
    L_advance int send_args
  | L_recv kernel ack_info "sack list" send_args
  | L_timeout kernel send_args

fun linux_step ::
  "'ca tcp_congestion_ops \<Rightarrow> linux_event \<Rightarrow> 'ca linux \<Rightarrow> (int list \<times> 'ca linux) option" where
  "linux_step ops (L_advance n args) st = linux_advance n args st"
| "linux_step ops (L_recv k ai sa args) st = linux_recv ops k ai sa args st"
| "linux_step ops (L_timeout k args) st = linux_timeout ops k args st"

fun linux_run ::
  "'ca tcp_congestion_ops \<Rightarrow> linux_event list \<Rightarrow> 'ca linux \<Rightarrow> (int list \<times> 'ca linux) option" where
  "linux_run ops [] st = Some ([], st)"
| "linux_run ops (e # es) st = do {
     (qs, st) \<leftarrow> linux_step ops e st;
     (rs, st) \<leftarrow> linux_run ops es st;
     Some (qs @ rs, st)
   }"

text \<open>The agent's part of an acknowledgment is that of Agent.thy.\<close>

lemma linux_recv_agent:
  assumes "linux_recv ops k ai sa args (ag, sn) = Some (qs, (ag', sn'))"
    and "\<not> ((word_of_int (t_seqno ag) :: u32) < word_of_int (ai_seqno ai + 1)
      \<or> (word_of_int (ai_seqno ai + 1) :: u32) < word_of_int (highest_ack ag + 1))"
  shows "\<exists>f sn1 ag1 sn2. sender_ack (ai_seqno ai) sa sn = Some (f, sn1)
    \<and> agent_recv ops k (ai\<lparr>ai_prior_in_flight := word_of_int (sender_in_flight sn), ai_sack_flag := f,
        ai_pif := nat (sn_t_seqno sn1 - (sn_highest_ack sn1 + 1))\<rparr>) ag = Some ag1
    \<and> linux_send args (sa_maxburst args) (ag1, sn2) = Some (qs, (ag', sn'))"
proof -
  define p where "p = (word_of_int (highest_ack ag + 1) :: u32)"
  define w where "w = (word_of_int (ai_seqno ai + 1) :: u32)"
  have acc: "\<not> (word_of_int (t_seqno ag) < w \<or> w < p)" using assms(2) unfolding p_def w_def .
  obtain f sn1 where a: "sender_ack (ai_seqno ai) sa sn = Some (f, sn1)"
  proof (cases "sender_ack (ai_seqno ai) sa sn")
    case None
    with assms(1) acc show ?thesis
      unfolding linux_recv_def Let_def prod.case p_def [symmetric] w_def [symmetric] by simp
  qed auto
  define ai' where "ai' = ai\<lparr>ai_prior_in_flight := word_of_int (sender_in_flight sn), ai_sack_flag := f,
        ai_pif := nat (sn_t_seqno sn1 - (sn_highest_ack sn1 + 1))\<rparr>"
  have same: "ai_seqno ai' = ai_seqno ai" by (simp add: ai'_def)
  obtain flag ag0 where b: "recv_begin ai' p w ag = (flag, ag0)" by (cases "recv_begin ai' p w ag")
  from assms(1) acc a b obtain sk ag1 sn2 ag2 where
    r: "time_processing ops k ai' (linux_sk ag0) = Some sk"
      "recv_report ops k ai' flag (w - p) (ag0\<lparr>linux_sk := sk\<rparr>) = Some ag1"
      "recv_window ops k ai' flag w ag1 = Some ag2"
      "linux_send args (sa_maxburst args) (ag2, sn2) = Some (qs, (ag', sn'))"
    unfolding linux_recv_def Let_def prod.case p_def [symmetric] w_def [symmetric]
    by (auto simp: bind_eq_Some_conv simp flip: ai'_def)
  have "agent_recv ops k ai' ag = Some ag2"
    unfolding agent_recv_def same p_def [symmetric] w_def [symmetric] Let_def b
    using acc r(1-3) by simp
  with a r(4) show ?thesis unfolding ai'_def by blast
qed

section \<open>Flags\<close>

text \<open>The scoreboard does not raise the flag of newly acknowledged data.\<close>

abbreviation no_ack :: "u8 \<Rightarrow> bool" where
  "no_ack f \<equiv> f AND FLAG_DATA_ACKED = 0"

lemma no_ack_or [simp]:
  "no_ack f \<Longrightarrow> no_ack (f OR FLAG_DATA_SACKED)" "no_ack f \<Longrightarrow> no_ack (f OR FLAG_DATA_LOST)"
  "no_ack f \<Longrightarrow> no_ack (f OR FLAG_UNSURE_TSTAMP)"
  by (simp_all add: bit.conj_disj_distrib2)

lemma clean_loop_flag: "clean_loop a ns c f s = Some (c', f', s') \<Longrightarrow> no_ack f \<Longrightarrow> no_ack f'"
proof (induction a ns c f s rule: clean_loop.induct)
  case (2 a n ns c f s)
  then show ?case by (auto simp: Let_def split: if_splits bind_splits)
qed simp

lemma pass_split_flag [simp]: "ps_flag (snd (pass_split q n p)) = ps_flag p"
  by (simp add: pass_split_def Let_def)

lemma pass_sacked_flag: "no_ack (ps_flag p) \<Longrightarrow> no_ack (ps_flag (snd (pass_sacked n p)))"
  by (cases "nd_flag n") (simp_all add: pass_sacked_def Let_def)

lemma pass_lost_flag: "no_ack (ps_flag p) \<Longrightarrow> no_ack (ps_flag (snd (pass_lost k n p)))"
  by (simp add: pass_lost_def note_retrx_def Let_def)

lemma pass_match_flag:
  assumes "no_ack (ps_flag p)"
  shows "no_ack (ps_flag (snd (pass_match n p)))"
proof (cases "dropWhile (\<lambda>(l, r). r \<le> nd_seq n) (ps_sacks p)")
  case Nil
  with assms show ?thesis by (simp add: pass_match_def Let_def del: dropWhile_eq_Nil_conv)
next
  case (Cons b bs)
  obtain l r where b: "b = (l, r)" by (cases b)
  let ?p = "p\<lparr>ps_sacks := b # bs\<rparr>"
  define q where "q = (if r \<le> get_end n then pass_split r n ?p else (n, ?p))"
  have "no_ack (ps_flag (snd q))" using assms by (simp add: q_def)
  then have "no_ack (ps_flag (snd (pass_sacked (fst q) (snd q))))" by (rule pass_sacked_flag)
  moreover have "pass_match n p = (if l \<le> get_end n
      then if nd_seq n < l then pass_split l n ?p else pass_sacked (fst q) (snd q) else (n, ?p))"
    by (simp add: pass_match_def Cons b q_def Let_def split: prod.split)
  ultimately show ?thesis using assms by simp
qed

lemma pass_check_flag:
  assumes "no_ack (ps_flag p)"
  shows "no_ack (ps_flag (snd (pass_check d n p)))"
proof -
  let ?thr = "fack (ps_sb p) - (d + 1)"
  define q where "q = (if ?thr < get_end n then pass_split (?thr + 1) n p else (n, p))"
  have "no_ack (ps_flag (snd q))" using assms by (simp add: q_def)
  then have "no_ack (ps_flag (snd (pass_lost (get_length (set_flag SKB_LOST (fst q))) (fst q) (snd q))))"
    by (rule pass_lost_flag)
  then show ?thesis
    using assms pass_lost_flag [OF assms, of 1 n]
    by (cases "nd_flag n") (simp_all add: pass_check_def note_retrx_def Let_def q_def case_prod_beta)
qed

lemma pass_step_flag:
  assumes "no_ack (ps_flag p)"
  shows "no_ack (ps_flag (pass_step d p))"
proof (cases "ps_todo p")
  case (Cons now todo)
  let ?p = "p\<lparr>ps_todo := todo\<rparr>"
  define m where "m = pass_match now ?p"
  have "no_ack (ps_flag (snd m))" using pass_match_flag [of ?p now] assms by (simp add: m_def)
  from pass_check_flag [OF this, of d "fst m"] assms show ?thesis
    by (simp add: pass_step_def Cons Let_def m_def case_prod_beta pass_advance_def)
qed (use assms in \<open>simp add: pass_step_def\<close>)

lemma pass_loop_flag: "pass_loop d p = Some q \<Longrightarrow> no_ack (ps_flag p) \<longrightarrow> no_ack (ps_flag q)"
proof (rule pass_loop.raw_induct [where P = "\<lambda>d p q. no_ack (ps_flag p) \<longrightarrow> no_ack (ps_flag q)"])
  fix loop d p q
  assume IH: "\<And>d p q. loop d p = Some q \<Longrightarrow> no_ack (ps_flag p) \<longrightarrow> no_ack (ps_flag q)"
    and l: "(if ps_todo p \<noteq> [] \<and> (ps_sacks p \<noteq> [] \<or> ps_thorough p) then loop d (pass_step d p) else Some p) = Some q"
  show "no_ack (ps_flag p) \<longrightarrow> no_ack (ps_flag q)"
    using l IH [of d "pass_step d p" q] pass_step_flag [of p d] by (simp split: if_splits)
qed

lemma update_flag:
  assumes "update_scoreboard a sa d s = Some (f, s')"
  shows "no_ack f"
proof -
  obtain th f0 s0 where c: "clean_rtx_queue a s = Some (th, f0, s0)"
    using assms by (auto simp: update_scoreboard_def bind_eq_Some_conv)
  then have f0: "no_ack f0" using clean_loop_flag [of a "sb_nodes s" False 0 s] by (simp add: clean_rtx_queue_def)
  have "no_ack f" if t: "traverse_scoreboard a bs d th' f0 s1 = Some (f, s')" for bs th' s1
    using t f0
    by (auto simp: traverse_scoreboard_def bind_eq_Some_conv Let_def split: if_splits dest!: pass_loop_flag)
  with assms c f0 show ?thesis
    by (auto simp: update_scoreboard_def Let_def split: if_splits)
qed

section \<open>Frames\<close>

text \<open>The sequence numbers of the agent change only at the start of \<open>recv\<close>.\<close>

definition same_seq :: "'ca agent \<Rightarrow> 'ca agent \<Rightarrow> bool" where
  "same_seq ag ag' \<longleftrightarrow> highest_ack ag' = highest_ack ag \<and> t_seqno ag' = t_seqno ag \<and> maxseq ag' = maxseq ag"

lemma same_seq_trans: "same_seq a b \<Longrightarrow> same_seq b c \<Longrightarrow> same_seq a c"
  by (simp add: same_seq_def)

lemma recv_report_seq: "recv_report ops k ai flag n ag = Some ag' \<Longrightarrow> same_seq ag ag'"
  by (auto simp: recv_report_def same_seq_def Let_def bind_eq_Some_conv)

lemma fastretrans_alert_seq: "tcp_fastretrans_alert ops k flag pif ag = Some ag' \<Longrightarrow> same_seq ag ag'"
  by (auto simp: tcp_fastretrans_alert_def same_seq_def Let_def bind_eq_Some_conv split: if_splits)

lemma recv_window_seq: "recv_window ops k ai flag ack ag = Some ag' \<Longrightarrow> same_seq ag ag'"
  using fastretrans_alert_seq [of ops k flag "ai_pif ai" "ag\<lparr>linux_sk := sk\<rparr>" ag' for sk]
  by (fastforce simp: recv_window_def same_seq_def bind_eq_Some_conv split: if_splits)

lemma enter_loss_seq: "enter_loss ops k ag = Some ag' \<Longrightarrow> same_seq ag ag'"
  by (auto simp: enter_loss_def same_seq_def Let_def bind_eq_Some_conv)

lemma recv_begin_seq:
  assumes "recv_begin ai p w ag = (flag, ag')"
  shows "highest_ack ag' = (if p < w then ai_seqno ai else highest_ack ag)"
    and "maxseq ag' = (if p < w then max (maxseq ag) (ai_seqno ai) else maxseq ag)"
    and "t_seqno ag' = (if p < w then max (t_seqno ag) (ai_seqno ai + 1) else t_seqno ag)"
  using assms
  by (auto simp: recv_begin_def ack_processing_def Let_def bit.conj_disj_distrib2 split: if_splits)

section \<open>Runs\<close>

text \<open>The two halves agree on the sequence numbers.\<close>

definition seq_match :: "'ca linux \<Rightarrow> bool" where
  "seq_match st \<longleftrightarrow> highest_ack (fst st) = sn_highest_ack (snd st) \<and> t_seqno (fst st) = sn_t_seqno (snd st)
     \<and> maxseq (fst st) = sn_maxseq (snd st)"

definition linux_inv ::
  "('ca tcp_sock \<Rightarrow> bool) \<Rightarrow> ('ca tcp_sock \<Rightarrow> bool) \<Rightarrow> 'ca linux \<Rightarrow> bool" where
  "linux_inv pre live st \<longleftrightarrow> agent_inv pre live (fst st) \<and> sender_ok (snd st) \<and> seq_match st"

text \<open>
  What is assumed of an event: of an acknowledgment what the algorithm assumes, a \<open>tcp_max_burst\<close> other than
  0, sequence numbers below \<open>2 ^ 31\<close> (they are C \<open>int\<close>s), and blocks above the acknowledgment and at most up to the
  next packet to send, as the sinks report them; of a timeout nothing.
\<close>

fun linux_event_env ::
  "(kernel \<Rightarrow> u32 \<Rightarrow> tcp_options_received \<Rightarrow> bool) \<Rightarrow> (kernel \<Rightarrow> u32 \<Rightarrow> s64 \<Rightarrow> bool)
    \<Rightarrow> linux_event \<Rightarrow> 'ca linux \<Rightarrow> bool" where
  "linux_event_env env acked (L_advance n args) (ag, sn) \<longleftrightarrow> 0 \<le> sa_maxburst args"
| "linux_event_env env acked (L_recv k ai sa args) (ag, sn) \<longleftrightarrow> 0 \<le> sa_maxburst args
     \<and> event_env env acked (Ev_recv k (ai\<lparr>ai_sack_flag := 0\<rparr>)) ag
     \<and> - 1 \<le> ai_seqno ai \<and> ai_seqno ai < 2 ^ 31 \<and> sn_t_seqno sn < 2 ^ 31
     \<and> good_sacks (ai_seqno ai) (sn_t_seqno sn) sa"
| "linux_event_env env acked (L_timeout k args) (ag, sn) \<longleftrightarrow> True"

fun linux_env ::
  "(kernel \<Rightarrow> u32 \<Rightarrow> tcp_options_received \<Rightarrow> bool) \<Rightarrow> (kernel \<Rightarrow> u32 \<Rightarrow> s64 \<Rightarrow> bool)
    \<Rightarrow> 'ca tcp_congestion_ops \<Rightarrow> linux_event list \<Rightarrow> 'ca linux \<Rightarrow> bool" where
  "linux_env env acked ops [] st \<longleftrightarrow> True"
| "linux_env env acked ops (e # es) st \<longleftrightarrow> linux_event_env env acked e st
     \<and> (case linux_step ops e st of None \<Rightarrow> True | Some (qs, st') \<Rightarrow> linux_env env acked ops es st')"

lemma seq_words:
  fixes h a t :: int
  assumes "- 1 \<le> h" and "h < t" and "t < 2 ^ 31" and "- 1 \<le> a" and "a < 2 ^ 31"
  shows "(word_of_int t :: u32) < word_of_int (a + 1) \<longleftrightarrow> t < a + 1"
    and "(word_of_int (a + 1) :: u32) < word_of_int (h + 1) \<longleftrightarrow> a < h"
    and "(word_of_int (h + 1) :: u32) < word_of_int (a + 1) \<longleftrightarrow> h < a"
proof -
  have u: "uint (word_of_int x :: u32) = x" if "0 \<le> x" "x < 2 ^ 32" for x
    using that by (simp add: unsigned_of_int take_bit_int_eq_self)
  have "uint (word_of_int t :: u32) = t" "uint (word_of_int (a + 1) :: u32) = a + 1"
    "uint (word_of_int (h + 1) :: u32) = h + 1" using assms by (intro u; simp)+
  then show "(word_of_int t :: u32) < word_of_int (a + 1) \<longleftrightarrow> t < a + 1"
    "(word_of_int (a + 1) :: u32) < word_of_int (h + 1) \<longleftrightarrow> a < h"
    "(word_of_int (h + 1) :: u32) < word_of_int (a + 1) \<longleftrightarrow> h < a"
    unfolding word_less_def by auto
qed

lemma alert_sender_ok:
  assumes "sender_ok sn"
  shows "sender_ok (alert_sender flag ag sn) \<and> sn_highest_ack (alert_sender flag ag sn) = sn_highest_ack sn
    \<and> sn_t_seqno (alert_sender flag ag sn) = sn_t_seqno sn \<and> sn_maxseq (alert_sender flag ag sn) = sn_maxseq sn"
proof -
  have "sender_ok (sn\<lparr>sn_scb := clear_scoreboard (sn_scb sn), sn_npif := 0\<rparr>)"
    using assms clear_inv [of "sn_highest_ack sn + 1" "sn_scb sn"] by (fastforce simp: sender_ok_def)
  moreover have "sender_ok (sn\<lparr>sn_npif := x\<rparr>)" for x using assms by (simp add: sender_ok_def)
  ultimately show ?thesis using assms by (simp add: alert_sender_def Let_def)
qed

lemma window_sender_ok:
  assumes "recv_window ops k ai flag ack ag = Some ag'" and "sender_ok sn"
  shows "\<exists>sn'. window_sender ops k ai flag ack ag sn = Some sn' \<and> sender_ok sn'
    \<and> sn_highest_ack sn' = sn_highest_ack sn \<and> sn_t_seqno sn' = sn_t_seqno sn \<and> sn_maxseq sn' = sn_maxseq sn"
  using assms alert_sender_ok [OF assms(2)]
  by (auto simp: recv_window_def window_sender_def bind_eq_Some_conv split: if_splits)

context cong_control begin

lemma linux_send_ok:
  assumes "linux_inv pre live (ag, sn)" and "0 \<le> maxburst"
  shows "\<exists>qs st'. linux_send args maxburst (ag, sn) = Some (qs, st') \<and> linux_inv pre live st'"
proof -
  have inv: "agent_inv pre live ag" "sender_ok sn" "highest_ack ag = sn_highest_ack sn"
    "t_seqno ag = sn_t_seqno sn" "maxseq ag = sn_maxseq sn"
    using assms(1) by (auto simp: linux_inv_def seq_match_def)
  from send_much_ok [OF inv(2) assms(2), of False "sa_pending args" "sa_overhead_zero args" "sa_syn args"
      "sint (snd_cwnd (linux_sk ag))"] obtain rs ns sn' where
    s: "send_much False (sa_pending args) (sa_overhead_zero args) (sa_syn args)
          (sint (snd_cwnd (linux_sk ag))) maxburst sn = Some (rs @ ns, sn')" "sent_by sn rs ns sn'" by blast
  have b: "sender_ok sn'" "sn_highest_ack sn' = sn_highest_ack sn" "ns = [sn_t_seqno sn..sn_t_seqno sn' - 1]"
    "sn_t_seqno sn \<le> sn_t_seqno sn'" using s(2) by (auto simp: sent_by_def)
  have mx: "sn_maxseq sn = sn_t_seqno sn - 1" "sn_maxseq sn' = sn_t_seqno sn' - 1"
    using inv(2) b(1) by (auto simp: sender_ok_def)
  show ?thesis
  proof (cases "rs @ ns = []")
    case True
    then have "sn_t_seqno sn' = sn_t_seqno sn" using b(3,4) by (auto simp: upto_Nil2)
    with True s(1) b(1,2) inv mx show ?thesis by (simp add: linux_send_def linux_inv_def seq_match_def)
  next
    case False
    let ?ag = "agent_send (nat (sn_t_seqno sn' - sn_t_seqno sn)) ag"
    have "agent_inv pre live ?ag"
      using agent_step_ok [OF inv(1), of "Ev_send (nat (sn_t_seqno sn' - sn_t_seqno sn))"] by simp
    moreover have "highest_ack ?ag = sn_highest_ack sn'" "t_seqno ?ag = sn_t_seqno sn'" "maxseq ?ag = sn_maxseq sn'"
      using inv b mx by (simp_all add: agent_send_def Let_def)
    moreover have "linux_send args maxburst (ag, sn) = Some (rs @ ns, (?ag, sn'))"
      using s(1) False by (auto simp: linux_send_def)
    ultimately show ?thesis using b(1) by (simp add: linux_inv_def seq_match_def)
  qed
qed

lemma linux_recv_ok:
  assumes "linux_inv pre live (ag, sn)" and "linux_event_env env acked (L_recv k ai sa args) (ag, sn)"
  shows "\<exists>qs st'. linux_recv ops k ai sa args (ag, sn) = Some (qs, st') \<and> linux_inv pre live st'"
proof -
  have inv: "agent_inv pre live ag" "sender_ok sn" "highest_ack ag = sn_highest_ack sn"
    "t_seqno ag = sn_t_seqno sn" "maxseq ag = sn_maxseq sn"
    using assms(1) by (auto simp: linux_inv_def seq_match_def)
  have e: "0 \<le> sa_maxburst args" "event_env env acked (Ev_recv k (ai\<lparr>ai_sack_flag := 0\<rparr>)) ag"
    "- 1 \<le> ai_seqno ai" "ai_seqno ai < 2 ^ 31" "sn_t_seqno sn < 2 ^ 31"
    "good_sacks (ai_seqno ai) (sn_t_seqno sn) sa" using assms(2) by auto
  have h: "- 1 \<le> sn_highest_ack sn" "sn_highest_ack sn < sn_t_seqno sn" using inv(2) by (auto simp: sender_ok_def)
  define p where "p = (word_of_int (highest_ack ag + 1) :: u32)"
  define w where "w = (word_of_int (ai_seqno ai + 1) :: u32)"
  note words = seq_words [OF h e(5,3,4), folded inv(3,4), folded p_def w_def]
  show ?thesis
  proof (cases "word_of_int (t_seqno ag) < w \<or> w < p")
    case True
    have "linux_recv ops k ai sa args (ag, sn) = Some ([], (ag, sn))"
      unfolding linux_recv_def Let_def prod.case p_def [symmetric] w_def [symmetric] using True by simp
    with assms(1) show ?thesis by blast
  next
    case False
    then have a: "sn_highest_ack sn \<le> ai_seqno ai" "ai_seqno ai < sn_t_seqno sn" using words inv(3,4) by auto
    from sender_ack_ok [OF inv(2) a e(6)] obtain f sn1 where
      k: "sender_ack (ai_seqno ai) sa sn = Some (f, sn1)" "sender_ok sn1" "sn_highest_ack sn1 = ai_seqno ai"
        "sn_t_seqno sn1 = sn_t_seqno sn" "sn_maxseq sn1 = sn_maxseq sn"
        "f = 0 \<or> (\<exists>b. update_scoreboard (ai_seqno ai) sa 3 (sn_scb sn) = Some (f, b))" by blast
    have f: "no_ack f" using k(6) update_flag by auto
    define ai' where "ai' = ai\<lparr>ai_prior_in_flight := word_of_int (sender_in_flight sn), ai_sack_flag := f,
        ai_pif := nat (sn_t_seqno sn1 - (sn_highest_ack sn1 + 1))\<rparr>"
    have same: "ai_seqno ai' = ai_seqno ai" by (simp add: ai'_def)
    have "event_env env acked (Ev_recv k ai') ag"
      using e(2) f by (simp add: ai'_def acked_count_def new_srtt_def)
    from agent_recv_ok [OF inv(1) this] obtain ag3 where
      r: "agent_recv ops k ai' ag = Some ag3" "agent_inv pre live ag3" by blast
    obtain flag ag0 where b: "recv_begin ai' p w ag = (flag, ag0)" by (cases "recv_begin ai' p w ag")
    from r(1) False obtain sk ag1 where
      q: "time_processing ops k ai' (linux_sk ag0) = Some sk"
        "recv_report ops k ai' flag (w - p) (ag0\<lparr>linux_sk := sk\<rparr>) = Some ag1"
        "recv_window ops k ai' flag w ag1 = Some ag3"
      unfolding agent_recv_def same p_def [symmetric] w_def [symmetric] Let_def b
      by (auto simp: bind_eq_Some_conv)
    from window_sender_ok [OF q(3) k(2)] obtain sn2 where
      s: "window_sender ops k ai' flag w ag1 sn1 = Some sn2" "sender_ok sn2"
        "sn_highest_ack sn2 = sn_highest_ack sn1" "sn_t_seqno sn2 = sn_t_seqno sn1" "sn_maxseq sn2 = sn_maxseq sn1"
      by blast
    have "same_seq (ag0\<lparr>linux_sk := sk\<rparr>) ag3"
      using recv_report_seq [OF q(2)] recv_window_seq [OF q(3)] by (rule same_seq_trans)
    moreover note recv_begin_seq [OF b]
    ultimately have "highest_ack ag3 = ai_seqno ai" "t_seqno ag3 = sn_t_seqno sn" "maxseq ag3 = sn_maxseq sn"
      using words(3) a inv(2-5) by (auto simp: same_seq_def same sender_ok_def)
    then have "linux_inv pre live (ag3, sn2)"
      using r(2) s k(2-5) by (simp add: linux_inv_def seq_match_def)
    from linux_send_ok [OF this e(1), of args] obtain qs st' where
      t: "linux_send args (sa_maxburst args) (ag3, sn2) = Some (qs, st')" "linux_inv pre live st'" by blast
    have "linux_recv ops k ai sa args (ag, sn) = Some (qs, st')"
      unfolding linux_recv_def Let_def prod.case p_def [symmetric] w_def [symmetric]
      using False k(1) b q s(1) t(1) by (simp add: ai'_def [symmetric])
    with t(2) show ?thesis by blast
  qed
qed

lemma linux_step_ok:
  assumes "linux_inv pre live st" and "linux_event_env env acked e st"
  shows "\<exists>qs st'. linux_step ops e st = Some (qs, st') \<and> linux_inv pre live st'"
proof -
  obtain ag sn where st: "st = (ag, sn)" by (cases st)
  show ?thesis
  proof (cases e)
    case (L_advance n args)
    have "linux_inv pre live (ag, sn\<lparr>sn_curseq := sn_curseq sn + n\<rparr>)"
      using assms(1) by (simp add: st linux_inv_def seq_match_def sender_ok_def)
    from linux_send_ok [OF this, of "sa_maxburst args" args] assms(2) show ?thesis
      by (simp add: L_advance st linux_advance_def)
  next
    case (L_recv k ai sa args)
    with linux_recv_ok [of ag sn k ai sa args] assms show ?thesis by (simp add: st)
  next
    case (L_timeout k args)
    have inv: "agent_inv pre live ag" "sender_ok sn" "highest_ack ag = sn_highest_ack sn"
      "t_seqno ag = sn_t_seqno sn" "maxseq ag = sn_maxseq sn"
      using assms(1) by (auto simp: st linux_inv_def seq_match_def)
    have "event_env env acked (Ev_timeout k) ag" using assms(2) by (simp add: st L_timeout)
    from agent_step_ok [OF inv(1) this] obtain ag1 where
      a: "enter_loss ops k ag = Some ag1" "agent_inv pre live ag1" by auto
    from sender_timeout_ok [OF inv(2)] obtain sn1 where
      s: "sender_timeout sn = Some sn1" "sender_ok sn1" "sn_t_seqno sn1 = sn_t_seqno sn"
        "sn_highest_ack sn1 = sn_highest_ack sn" by blast
    have "linux_inv pre live (ag1, sn1)"
      using a(2) s(2-4) inv enter_loss_seq [OF a(1)]
      by (auto simp: linux_inv_def seq_match_def same_seq_def sender_ok_def)
    from linux_send_ok [OF this, of 0 args] a(1) s(1) show ?thesis
      by (simp add: L_timeout st linux_timeout_def)
  qed
qed

text \<open>Every run is free of traps and keeps the invariants.\<close>

lemma linux_run_ok:
  "linux_inv pre live st \<Longrightarrow> linux_env env acked ops es st
    \<Longrightarrow> \<exists>qs st'. linux_run ops es st = Some (qs, st') \<and> linux_inv pre live st'"
proof (induction es arbitrary: st)
  case (Cons e es)
  then have "linux_event_env env acked e st" by simp
  from linux_step_ok [OF Cons.prems(1) this] obtain qs st1 where
    "linux_step ops e st = Some (qs, st1)" "linux_inv pre live st1" by blast
  with Cons.prems(2) Cons.IH [of st1] show ?case by auto
qed simp

end

section \<open>A sample run\<close>

text \<open>
  Three packets are sent, the first is acknowledged after 40 ms with a SACK block for the third,
  and then the timer expires.
\<close>

definition sample_args :: send_args where
  "sample_args = \<lparr> sa_pending = False, sa_overhead_zero = True, sa_syn = False, sa_maxburst = 0 \<rparr>"

definition start_agent :: "'ca \<Rightarrow> 'ca agent" where
  "start_agent p = \<lparr> linux_sk = sample_sk p, initialized = False, highest_ack = - 1, maxseq = - 1,
     t_seqno = 0, recover = 0 \<rparr>"

lemma start_agent_sel [simp]:
  "linux_sk (start_agent p) = sample_sk p" "initialized (start_agent p) = False"
  by (simp_all add: start_agent_def)

lemma start_match: "seq_match (start_agent p, start_sender)"
  by (simp add: seq_match_def start_agent_def start_sender_def)

lemma sample_advance:
  "linux_step ops (L_advance 3 sample_args) (start_agent p, start_sender)
    = Some ([0, 1, 2], (agent_send 3 (start_agent p), sent_sender))"
  by (simp add: linux_advance_def linux_send_def send_much_def send_loop.simps send_one_def sender_in_flight_def
    sb_packets_in_flight_def start_sender_def new_scoreboard_def sample_args_def sample_sk_def get_next_retran_def
    sender_found_def sender_output_def output_syn_def sent_sender_def Let_def)

definition sample_linux_run :: "linux_event list" where
  "sample_linux_run = [L_advance 3 sample_args,
     L_recv sample_kernel (sample_ack\<lparr>ai_seqno := 0\<rparr>) [(2, 3)] sample_args]"

lemma sample_linux_env:
  assumes "env sample_kernel 320 \<lparr>rcv_tsval = 100, rcv_tsecr = 60, saw_tstamp = True\<rparr>"
    and "acked sample_kernel 1 60000000" and "acked sample_kernel 1 0"
  shows "linux_env env acked ops sample_linux_run (start_agent p, start_sender)"
proof -
  have "linux_event_env env acked (L_recv sample_kernel (sample_ack\<lparr>ai_seqno := 0\<rparr>) [(2, 3)] sample_args)
      (agent_send 3 (start_agent p), sent_sender)"
    using assms by (simp add: sample_args_def sample_ack_def agent_send_def acked_count_def new_srtt_def Let_def
        start_agent_def sent_sender_def start_sender_def good_sacks_def)
      (simp add: sample_kernel_def kernel_init_def)
  moreover have "linux_event_env env acked (L_advance 3 sample_args) (start_agent p, start_sender)"
    by (simp add: sample_args_def)
  ultimately show ?thesis
    unfolding sample_linux_run_def linux_env.simps sample_advance
    by (simp del: linux_event_env.simps linux_step.simps split: option.split)
qed

end
