(* ===== verification/Window.thy ===== *)
theory Window
  imports Linux_Sender
begin

text \<open>
  The window invariant that the algorithms keep between them and the agent, with and without
  an upper bound, and the locale \<open>cong_module\<close>: the contract of \<open>Cong_Interface\<close> specialised
  to an invariant that is a window invariant and a condition on the private state. A module
  only proves its own operations; \<open>cong_module\<close> gives \<open>cong_control\<close>, hence safe runs. Reno is the
  first instance.
\<close>

section \<open>Window invariants\<close>

text \<open>
  The bound on windows under which the fixed-point arithmetic of the algorithms does not wrap;
  tcp_cubic.c states the same design limit of one million packets.
\<close>

definition WND_MAX :: u32 where
  "WND_MAX = 1000000"

definition win_pos :: "'ca tcp_sock \<Rightarrow> bool" where
  "win_pos sk \<longleftrightarrow> 0 < snd_cwnd sk \<and> 2 \<le> snd_cwnd_clamp sk \<and> 0 < mss_cache sk"

definition win_le :: "u32 \<Rightarrow> 'ca tcp_sock \<Rightarrow> bool" where
  "win_le L sk \<longleftrightarrow> 2 \<le> L \<and> L \<le> WND_MAX
     \<and> snd_cwnd sk \<le> L \<and> snd_ssthresh sk \<le> L \<and> snd_cwnd_clamp sk \<le> L"

definition win :: "u32 option \<Rightarrow> 'ca tcp_sock \<Rightarrow> bool" where
  "win wb sk \<longleftrightarrow> win_pos sk \<and> (case wb of None \<Rightarrow> True | Some L \<Rightarrow> win_le L sk)"

definition mod_live :: "u32 option \<Rightarrow> ('ca \<Rightarrow> bool) \<Rightarrow> 'ca tcp_sock \<Rightarrow> bool" where
  "mod_live wb pinv sk \<longleftrightarrow> win wb sk \<and> pinv (icsk_ca_priv sk)"

lemmas win_defs = win_def win_pos_def win_le_def

text \<open>
  A step that opens the window: it writes only the window, its counter and the byte count, and
  leaves the window positive and at most the larger of the old window and the clamp.
\<close>

definition win_step :: "'ca tcp_sock \<Rightarrow> 'ca tcp_sock \<Rightarrow> bool" where
  "win_step sk sk' \<longleftrightarrow> net_frame sk sk' \<and> snd_ssthresh sk' = snd_ssthresh sk
     \<and> snd_cwnd_clamp sk' = snd_cwnd_clamp sk \<and> icsk_ca_priv sk' = icsk_ca_priv sk
     \<and> 0 < snd_cwnd sk' \<and> snd_cwnd sk' \<le> max (snd_cwnd sk) (snd_cwnd_clamp sk)"

lemma win_step_refl [simp]: "win_step sk sk \<longleftrightarrow> 0 < snd_cwnd sk"
  by (simp add: win_step_def)

lemma win_step_upd [simp]:
  "win_step sk (sk'\<lparr>snd_cwnd_cnt := c\<rparr>) = win_step sk sk'"
  "win_step sk (sk'\<lparr>bytes_acked := c\<rparr>) = win_step sk sk'"
  by (simp_all add: win_step_def)

lemma inc_below [simp]:
  "w < c \<Longrightarrow> 0 < w + 1" "w < c \<Longrightarrow> w + 1 \<le> c" "w < c \<Longrightarrow> w + 1 \<noteq> 0" for w c :: u32
proof -
  assume a: "w < c"
  then have u: "unat (w + 1) = Suc (unat w)" by (rule unat_Suc_no_wrap)
  then show z: "w + 1 \<noteq> 0" by auto
  then show "0 < w + 1" by (simp add: word_pos_iff)
  from a u show "w + 1 \<le> c" by (simp add: word_less_nat_alt word_le_nat_alt)
qed

lemma win_step_cwnd [simp]:
  "win_step sk (sk\<lparr>snd_cwnd := w\<rparr>) \<longleftrightarrow> 0 < w \<and> w \<le> max (snd_cwnd sk) (snd_cwnd_clamp sk)"
  "win_step sk (sk\<lparr>snd_cwnd_cnt := c, snd_cwnd := w\<rparr>)
     \<longleftrightarrow> 0 < w \<and> w \<le> max (snd_cwnd sk) (snd_cwnd_clamp sk)"
  by (simp_all add: win_step_def)

lemma win_step_inc:
  "0 < snd_cwnd sk \<Longrightarrow> snd_cwnd sk < snd_cwnd_clamp sk
     \<Longrightarrow> win_step sk (sk\<lparr>snd_cwnd := snd_cwnd sk + 1\<rparr>)"
  by (auto simp: win_step_def max_def; unat_arith)

lemma win_step_win: "win wb sk \<Longrightarrow> win_step sk sk' \<Longrightarrow> win wb sk'"
  by (auto simp: win_defs win_step_def net_frame_def max_def split: option.splits if_splits)

lemma win_step_mod_live:
  "mod_live wb pinv sk \<Longrightarrow> win_step sk sk' \<Longrightarrow> mod_live wb pinv sk' \<and> net_frame sk sk'"
  using win_step_win by (auto simp: mod_live_def win_step_def)

lemma win_net: "win wb sk \<Longrightarrow> net_update sk sk' \<Longrightarrow> win wb sk'"
  by (cases wb) (simp_all add: win_defs net_update_def)

lemma mod_live_net: "mod_live wb pinv sk \<Longrightarrow> net_update sk sk' \<Longrightarrow> mod_live wb pinv sk'"
  using win_net [of wb sk sk'] by (simp add: mod_live_def) (simp add: net_update_def)

lemma priv_update_eq [simp]:
  "sk\<lparr>icsk_ca_priv := a\<rparr> = sk\<lparr>icsk_ca_priv := b\<rparr> \<longleftrightarrow> a = b"
  "sk = sk\<lparr>icsk_ca_priv := b\<rparr> \<longleftrightarrow> icsk_ca_priv sk = b" for sk :: "'ca tcp_sock"
  by (cases sk; auto)+

lemma win_upd [simp]:
  "win wb (sk\<lparr>icsk_ca_priv := p\<rparr>) = win wb sk"
  "win wb (sk\<lparr>snd_cwnd_cnt := c\<rparr>) = win wb sk"
  "win wb (sk\<lparr>bytes_acked := c\<rparr>) = win wb sk"
  by (cases wb; simp add: win_defs)+

lemma mod_live_upd [simp]:
  "mod_live wb pinv (sk\<lparr>icsk_ca_priv := p\<rparr>) \<longleftrightarrow> win wb sk \<and> pinv p"
  "mod_live wb pinv (sk\<lparr>snd_cwnd_cnt := c\<rparr>) \<longleftrightarrow> mod_live wb pinv sk"
  by (simp_all add: mod_live_def)

text \<open>Opening the window up to the clamp keeps the invariant.\<close>

lemma mod_live_grow:
  "mod_live wb pinv sk \<Longrightarrow> 0 < w \<Longrightarrow> w \<le> max (snd_cwnd sk) (snd_cwnd_clamp sk)
     \<Longrightarrow> mod_live wb pinv (sk\<lparr>snd_cwnd := w\<rparr>)"
  using win_step_mod_live [of wb pinv sk "sk\<lparr>snd_cwnd := w\<rparr>"] by simp

lemma mod_live_inc:
  "mod_live wb pinv sk \<Longrightarrow> snd_cwnd sk < snd_cwnd_clamp sk
     \<Longrightarrow> mod_live wb pinv (sk\<lparr>snd_cwnd := snd_cwnd sk + 1\<rparr>)"
  by (rule mod_live_grow) simp_all

lemma mod_live_shrink:
  "mod_live wb pinv sk \<Longrightarrow> 0 < w \<Longrightarrow> w \<le> max (snd_cwnd sk) 2
     \<Longrightarrow> mod_live wb pinv (sk\<lparr>snd_cwnd := w\<rparr>)"
  by (cases wb) (auto simp: mod_live_def win_defs max_def split: if_splits)

lemma mod_live_simps:
  assumes "mod_live wb pinv sk"
  shows "0 < snd_cwnd sk" "snd_cwnd sk \<noteq> 0" "2 \<le> snd_cwnd_clamp sk" "mss_cache sk \<noteq> 0"
    and "pinv (icsk_ca_priv sk)" "win wb sk"
  using assms by (auto simp: mod_live_def win_def win_pos_def)

text \<open>Nothing asked of the private memory: the window invariant alone.\<close>

lemma mod_live_any [simp]: "mod_live wb (\<lambda>_. True) sk \<longleftrightarrow> win wb sk"
  by (simp add: mod_live_def)

section \<open>Modules\<close>

text \<open>
  \<open>p0\<close> is what is known of the private memory before \<open>init\<close>. The constructor of the agent does
  not clear that memory, so for most modules it is nothing; where a timeout before the first
  acknowledgment reads it in a way that can trap (H-TCP, HighSpeed), it says which contents are safe.
\<close>

locale cong_module =
  fixes ops :: "'ca tcp_congestion_ops"
    and wb :: "u32 option"
    and p0 :: "'ca \<Rightarrow> bool"
    and pinv :: "'ca \<Rightarrow> bool"
    and env :: "kernel \<Rightarrow> u32 \<Rightarrow> tcp_options_received \<Rightarrow> bool"
    and acked :: "kernel \<Rightarrow> u32 \<Rightarrow> s64 \<Rightarrow> bool"
  assumes m_init: "mod_live wb p0 sk \<Longrightarrow> env k (srtt sk) (rx_opt sk)
      \<Longrightarrow> op_ok (mod_live wb pinv) sk (call_opt (ca_init ops) k sk)"
    and m_ssthresh: "mod_live wb pinv sk
      \<Longrightarrow> \<exists>v p. call_ssthresh ops k sk = Some (v, sk\<lparr>icsk_ca_priv := p\<rparr>) \<and> pinv p
            \<and> 2 \<le> v \<and> (wb \<noteq> None \<longrightarrow> v \<le> max (snd_cwnd sk) 2)"
    and m_min_cwnd: "mod_live wb pinv sk \<Longrightarrow> 2 \<le> snd_ssthresh sk
      \<Longrightarrow> \<exists>w. call_min_cwnd ops sk = Some w \<and> 0 < w \<and> (wb \<noteq> None \<longrightarrow> w \<le> snd_ssthresh sk)"
    and m_cong_avoid: "mod_live wb pinv sk \<Longrightarrow> env k (srtt sk) (rx_opt sk)
      \<Longrightarrow> op_ok (mod_live wb pinv) sk (call_cong_avoid ops ack rtt infl good k sk)"
    and m_set_state: "mod_live wb pinv sk
      \<Longrightarrow> op_ok (mod_live wb pinv) sk (call_opt (map_option (\<lambda>f. f s) (ca_set_state ops)) k sk)"
    and m_cwnd_event: "mod_live wb pinv sk
      \<Longrightarrow> ev \<in> {CA_EVENT_FAST_ACK, CA_EVENT_SLOW_ACK, CA_EVENT_LOSS}
      \<Longrightarrow> op_ok (mod_live wb pinv) sk (call_opt (map_option (\<lambda>f. f ev) (ca_cwnd_event ops)) k sk)"
    and m_pkts_acked: "mod_live wb pinv sk \<Longrightarrow> env k (srtt sk) (rx_opt sk) \<Longrightarrow> acked k n t \<Longrightarrow> n \<noteq> 0
      \<Longrightarrow> op_ok (mod_live wb pinv) sk (call_opt (map_option (\<lambda>f. f n t) (ca_pkts_acked ops)) k sk)"
    and m_rtt_sample: "p \<in> {p0, pinv} \<Longrightarrow> mod_live wb p sk
      \<Longrightarrow> op_ok (mod_live wb p) sk (call_opt (map_option (\<lambda>f. f u) (ca_rtt_sample ops)) k sk)"
    and m_ssthresh_pre: "mod_live wb p0 sk
      \<Longrightarrow> \<exists>v p. call_ssthresh ops k sk = Some (v, sk\<lparr>icsk_ca_priv := p\<rparr>) \<and> p0 p
            \<and> (wb \<noteq> None \<longrightarrow> v \<le> max (snd_cwnd sk) 2)"
    and m_event_pre: "mod_live wb p0 sk
      \<Longrightarrow> op_ok (mod_live wb p0) sk (call_opt (map_option (\<lambda>f. f CA_EVENT_LOSS) (ca_cwnd_event ops)) k sk)"
    and m_state_pre: "mod_live wb p0 sk
      \<Longrightarrow> op_ok (mod_live wb p0) sk (call_opt (map_option (\<lambda>f. f TCP_CA_Loss) (ca_set_state ops)) k sk)"

text \<open>A new threshold of at most the window keeps the invariant.\<close>

lemma mod_live_ssthresh:
  "mod_live wb q sk \<Longrightarrow> pinv p \<Longrightarrow> (wb \<noteq> None \<longrightarrow> v \<le> max (snd_cwnd sk) 2)
    \<Longrightarrow> mod_live wb pinv (sk\<lparr>icsk_ca_priv := p, snd_ssthresh := v\<rparr>)"
  by (auto simp: mod_live_def win_defs max_def split: option.splits if_splits)

lemma mod_live_lower:
  "mod_live wb p sk \<Longrightarrow> 0 < w \<Longrightarrow> w \<le> snd_cwnd sk \<Longrightarrow> mod_live wb p (sk\<lparr>snd_cwnd := w\<rparr>)"
  by (auto simp: mod_live_def win_defs split: option.splits)

sublocale cong_module \<subseteq> cong_control ops "mod_live wb p0" "mod_live wb pinv" env acked
proof (unfold_locales, goal_cases)
  case 1 then show ?case by (rule mod_live_net)
next
  case 2 then show ?case by (rule mod_live_simps)
next
  case 3 then show ?case by (rule mod_live_lower)
next
  case 4 then show ?case by simp
next
  case (5 sk k)
  from m_ssthresh_pre [OF 5, of k] mod_live_ssthresh [OF 5] show ?case by fastforce
next
  case 6 then show ?case by (rule m_event_pre)
next
  case 7 then show ?case by (rule m_state_pre)
next
  case 8 then show ?case by (rule mod_live_net)
next
  case 9 then show ?case by (rule mod_live_simps)
next
  case 10 then show ?case by (rule mod_live_lower)
next
  case 11 then show ?case
    by (auto simp: mod_live_def win_defs word_less_nat_alt word_le_nat_alt split: option.splits)
next
  case 12 then show ?case by simp
next
  case 13 then show ?case by (rule m_init)
next
  case (14 sk k)
  from m_ssthresh [OF 14, of k] obtain v p where
    v: "call_ssthresh ops k sk = Some (v, sk\<lparr>icsk_ca_priv := p\<rparr>)" "pinv p" "2 \<le> v"
      "wb \<noteq> None \<longrightarrow> v \<le> max (snd_cwnd sk) 2" by blast
  with mod_live_ssthresh [OF 14, of pinv p v] show ?case by auto
next
  case (15 sk)
  from m_min_cwnd [OF this] obtain w where
    w: "call_min_cwnd ops sk = Some w" "0 < w" "wb \<noteq> None \<longrightarrow> w \<le> snd_ssthresh sk" by blast
  have "mod_live wb pinv (sk\<lparr>snd_cwnd := w\<rparr>)"
    using 15 w by (auto simp: mod_live_def win_defs split: option.splits)
  with w(1) show ?case by blast
next
  case 16 then show ?case by (rule m_cong_avoid)
next
  case 17 then show ?case by (rule m_set_state)
next
  case 18 then show ?case by (rule m_cwnd_event)
next
  case 19 then show ?case by (rule m_pkts_acked)
next
  case 20 then show ?case by (rule m_rtt_sample [rotated]) simp
next
  case 21 then show ?case by (rule m_rtt_sample [rotated]) simp
qed

context cong_module begin

text \<open>The window along every run of an initialised agent, without and with the bound.\<close>

lemma agent_inv_win: "agent_inv (mod_live wb p0) (mod_live wb pinv) ag \<Longrightarrow> win wb (linux_sk ag)"
  by (cases "initialized ag") (simp_all add: agent_inv_def mod_live_def)

lemma module_run_safe:
  assumes "initialized ag" and "mod_live wb pinv (linux_sk ag)" and "run_env env acked ops evs ag"
  shows "\<exists>ag'. agent_run ops evs ag = Some ag' \<and> win wb (linux_sk ag')"
proof -
  have "agent_inv (mod_live wb p0) (mod_live wb pinv) ag" using assms(1,2) by (simp add: agent_inv_def)
  from agent_run_ok [OF this assms(3)] show ?thesis using agent_inv_win by blast
qed

lemma module_run_safe_from_start:
  assumes "\<not> initialized ag" and "mod_live wb p0 (linux_sk ag)" and "run_env env acked ops evs ag"
  shows "\<exists>ag'. agent_run ops evs ag = Some ag' \<and> win wb (linux_sk ag')"
proof -
  have "agent_inv (mod_live wb p0) (mod_live wb pinv) ag" using assms(1,2) by (simp add: agent_inv_def)
  from agent_run_ok [OF this assms(3)] show ?thesis using agent_inv_win by blast
qed

text \<open>The same for the whole sender, with its scoreboard.\<close>

lemma linux_module_safe:
  assumes "\<not> initialized ag" and "mod_live wb p0 (linux_sk ag)" and "sender_ok sn" and "seq_match (ag, sn)"
    and "linux_env env acked ops es (ag, sn)"
  shows "\<exists>qs ag' sn'. linux_run ops es (ag, sn) = Some (qs, (ag', sn')) \<and> win wb (linux_sk ag')
    \<and> sender_ok sn' \<and> 0 \<le> sender_in_flight sn'
    \<and> sender_in_flight sn' \<le> sn_t_seqno sn' - sn_highest_ack sn' - 1"
proof -
  have "linux_inv (mod_live wb p0) (mod_live wb pinv) (ag, sn)"
    using assms(1-4) by (simp add: linux_inv_def agent_inv_def)
  from linux_run_ok [OF this assms(5)] obtain qs ag' sn' where
    r: "linux_run ops es (ag, sn) = Some (qs, (ag', sn'))" "linux_inv (mod_live wb p0) (mod_live wb pinv) (ag', sn')"
    by auto
  then have "win wb (linux_sk ag')" "sender_ok sn'" using agent_inv_win by (auto simp: linux_inv_def)
  with r(1) sender_in_flight_range [of sn'] show ?thesis by blast
qed

end

section \<open>Slow start and Reno keep the window\<close>

lemma slow_start_win_step:
  assumes "0 < snd_cwnd sk"
  shows "\<exists>sk'. tcp_slow_start k sk = Some sk' \<and> win_step sk sk'"
proof -
  have r: "\<exists>c w. slow_start_loop (snd_cwnd_clamp sk) n (snd_cwnd sk) = Some (c, w)
      \<and> win_step sk (sk\<lparr>bytes_acked := 0, snd_cwnd_cnt := c, snd_cwnd := w\<rparr>)" for n
  proof -
    from assms have "snd_cwnd sk \<noteq> 0" by (simp add: word_pos_iff)
    then obtain c w where "slow_start_loop (snd_cwnd_clamp sk) n (snd_cwnd sk) = Some (c, w)"
      "slow_start_post (snd_cwnd_clamp sk) n (snd_cwnd sk) c w"
      by (blast dest: slow_start_loop_Some)
    then show ?thesis using assms by (auto simp: win_step_def slow_start_post_def)
  qed
  show ?thesis
  proof (cases "sysctl_tcp_abc k \<noteq> 0 \<and> bytes_acked sk < mss_cache sk")
    case True
    with assms show ?thesis by (simp add: tcp_slow_start_def)
  next
    case False
    with r [of "snd_cwnd_cnt sk + slow_start_count k sk"] show ?thesis
      by (auto simp: tcp_slow_start_def)
  qed
qed

lemma reno_cong_avoid_win_step:
  assumes "0 < snd_cwnd sk"
  shows "\<exists>sk'. tcp_reno_cong_avoid ack rtt infl flag k sk = Some sk' \<and> win_step sk sk'"
proof -
  let ?b = "sk\<lparr>bytes_acked := bytes_acked sk - snd_cwnd sk * mss_cache sk\<rparr>"
  have "win_step sk (sk\<lparr>snd_cwnd := snd_cwnd sk + 1\<rparr>)" if "snd_cwnd sk < snd_cwnd_clamp sk"
    using assms that by (rule win_step_inc)
  then have "win_step sk (?b\<lparr>snd_cwnd := snd_cwnd ?b + 1\<rparr>)"
      "win_step sk (sk\<lparr>snd_cwnd := snd_cwnd sk + 1, snd_cwnd_cnt := 0\<rparr>)"
    if "snd_cwnd sk < snd_cwnd_clamp sk"
    using that by (simp_all add: win_step_def)
  then show ?thesis
    using assms slow_start_win_step [OF assms, of k]
    by (auto simp: tcp_reno_cong_avoid_def Let_def)
qed

lemma reno_cong_avoid_live:
  "mod_live wb pinv sk \<Longrightarrow> op_ok (mod_live wb pinv) sk (tcp_reno_cong_avoid ack rtt infl flag k sk)"
  using reno_cong_avoid_win_step [of sk ack rtt infl flag k] win_step_mod_live mod_live_simps(1)
  by (fastforce simp: op_ok_def)

lemma slow_start_live:
  "mod_live wb pinv sk \<Longrightarrow> op_ok (mod_live wb pinv) sk (tcp_slow_start k sk)"
  using slow_start_win_step [of sk k] win_step_mod_live mod_live_simps(1)
  by (fastforce simp: op_ok_def)

text \<open>A threshold of at least 2 that does not exceed the window, unless the window is below 2.\<close>

lemma max2_bounds: "x \<le> w \<Longrightarrow> 2 \<le> max x 2 \<and> max x 2 \<le> max w (2 :: u32)"
  by (simp add: max.coboundedI1)

lemma shr_le: "drop_bit n w \<le> (w :: u32)"
  by (simp add: word_le_nat_alt unat_shr)

text \<open>The two Reno operations most tables share.\<close>

lemma reno_ssthresh_bounds:
  "2 \<le> max (drop_bit 1 w) (2 :: u32) \<and> max (drop_bit 1 w) 2 \<le> max w 2"
  by (rule max2_bounds) (rule shr_le)

lemma reno_min_cwnd_bounds: "2 \<le> t \<Longrightarrow> 0 < t div 2 \<and> t div 2 \<le> (t :: u32)"
  by (auto simp: word_nat)

lemma call_reno_ssthresh:
  assumes "ca_ssthresh ops = Some tcp_reno_ssthresh" and "P (icsk_ca_priv sk)"
  shows "\<exists>v p. call_ssthresh ops k sk = Some (v, sk\<lparr>icsk_ca_priv := p\<rparr>) \<and> P p \<and> 2 \<le> v
    \<and> v \<le> max (snd_cwnd sk) 2"
  using assms reno_ssthresh_bounds [of "snd_cwnd sk"]
  by (intro exI [of _ "max (drop_bit 1 (snd_cwnd sk)) 2"] exI [of _ "icsk_ca_priv sk"])
    (simp add: call_ssthresh_def tcp_reno_ssthresh_def)

interpretation reno: cong_module tcp_reno wb "\<lambda>_. True" "\<lambda>_. True" "\<lambda>_ _ _. True" "\<lambda>_ _ _. True" for wb
proof (unfold_locales, goal_cases)
  case (2 sk k)
  with call_reno_ssthresh [of tcp_reno "\<lambda>_. True" sk k] show ?case by (auto simp: tcp_reno_def)
next
  case (3 sk)
  then show ?case
    using reno_min_cwnd_bounds [of "snd_ssthresh sk"]
    by (simp add: tcp_reno_def ops_null_def call_min_cwnd_def tcp_reno_min_cwnd_def)
next
  case (9 sk k)
  with call_reno_ssthresh [of tcp_reno "\<lambda>_. True" sk k] show ?case by (auto simp: tcp_reno_def)
qed (simp_all add: tcp_reno_def ops_null_def call_cong_avoid_def reno_cong_avoid_live mod_live_def)

section \<open>Counting up to the next segment\<close>

text \<open>
  The block that BIC, CUBIC, Vegas, Veno and others repeat in congestion avoidance: the window
  opens by one segment once \<open>snd_cwnd_cnt\<close> has reached a count, else the counter is increased.
\<close>

definition count_up :: "u32 \<Rightarrow> 'ca tcp_sock \<Rightarrow> 'ca tcp_sock" where
  "count_up cnt tp =
    (if cnt \<le> snd_cwnd_cnt tp
     then (if snd_cwnd tp < snd_cwnd_clamp tp then tp\<lparr>snd_cwnd := snd_cwnd tp + 1\<rparr> else tp)
            \<lparr>snd_cwnd_cnt := 0\<rparr>
     else tp\<lparr>snd_cwnd_cnt := snd_cwnd_cnt tp + 1\<rparr>)"

lemma count_up_frame [simp]: "net_frame sk (count_up c sk') = net_frame sk sk'"
  by (simp add: count_up_def)

lemma count_up_live: "mod_live wb pinv sk \<Longrightarrow> mod_live wb pinv (count_up c sk)"
  using mod_live_inc [of wb pinv sk] by (simp add: count_up_def)

lemma count_up_sel [simp]:
  "icsk_ca_priv (count_up c sk) = icsk_ca_priv sk"
  "snd_ssthresh (count_up c sk) = snd_ssthresh sk"
  "snd_cwnd_clamp (count_up c sk) = snd_cwnd_clamp sk"
  by (simp_all add: count_up_def)

text \<open>So the window opens after \<open>cnt + 1\<close> acknowledgments when the counter starts at zero.\<close>

lemma count_up_counts:
  "n \<le> unat cnt \<Longrightarrow> snd_cwnd_cnt sk = 0
     \<Longrightarrow> iterate (\<lambda>sk. Some (count_up cnt sk)) n sk = Some (sk\<lparr>snd_cwnd_cnt := of_nat n\<rparr>)"
proof (induction n)
  case 0
  then show ?case by simp
next
  case (Suc n)
  have "n < 2 ^ 32" using le_less_trans [OF Suc.prems(1) unat_lt2p_u32] by simp
  then have "unat (of_nat n :: u32) = n"
    by (simp add: unsigned_of_nat take_bit_nat_eq_self_iff)
  with Suc show ?case by (simp add: count_up_def word_le_nat_alt add.commute)
qed

section \<open>Arithmetic that several algorithms share\<close>

text \<open>
  BIC and CUBIC keep a sliding average of packets per acknowledgment, scaled by 16. The subtraction in the code
  may wrap, its sum does not; the average stays between 1 and the largest sample.
\<close>

lemma ratio_step:
  assumes "16 \<le> unat d" and "unat d \<le> 16 * M" and "1 \<le> unat n" and "unat n \<le> M" and "M \<le> 1000000"
  defines "d' \<equiv> d + (n - drop_bit 4 d) :: u32"
  shows "unat d' = unat d - unat d div 16 + unat n" and "16 \<le> unat d'" and "unat d' \<le> 16 * M"
proof -
  have e: "d' = (d - drop_bit 4 d) + n" by (simp add: d'_def)
  have q: "unat (drop_bit 4 d) = unat d div 16" by (simp add: unat_shr)
  have m: "unat (d - drop_bit 4 d) = unat d - unat d div 16"
    by (subst unat_minus_le) (simp_all add: word_le_nat_alt q)
  have "unat (d - drop_bit 4 d) + unat n < 4294967296"
    using m assms(2,4,5) by linarith
  then show s: "unat d' = unat d - unat d div 16 + unat n" unfolding e
    by (simp add: unat_add_no_wrap m)
  show "16 \<le> unat d'" "unat d' \<le> 16 * M" unfolding s using assms(1-4) by linarith+
qed

text \<open>Scaling a window by a fraction at most one.\<close>

lemma scaled_le:
  assumes "unat (w :: u32) \<le> 1000000" and "unat c \<le> 2048" and "unat c \<le> unat d" and "d \<noteq> 0"
  shows "(w * c) div d \<le> w"
proof -
  have "unat w * unat c \<le> 1000000 * 2048" using assms(1,2) by (intro mult_le_mono) auto
  then have "unat ((w * c) div d) = unat w * unat c div unat d"
    by (simp add: unat_div_distrib unat_mult_no_wrap)
  also have "\<dots> \<le> unat w * unat d div unat d" using assms(3) by (intro div_le_mono) simp
  also have "\<dots> = unat w" using assms(4) by (simp add: unat_eq_0)
  finally show ?thesis by (simp add: word_le_nat_alt)
qed

section \<open>Properties\<close>

lemma sample_win: "win None (sample_sk p)" "win (Some 1000) (sample_sk p)"
  by (simp_all add: win_defs sample_sk_def WND_MAX_def)

text \<open>
  C26: a connection that runs Reno, from a state with a positive window, a clamp of at least 2 and a positive segment
  size: along every sequence
  of sends, acknowledgments and timeouts, in any order, before the first acknowledgment too, the agent
  never traps, the window stays positive, and if the window, the threshold and the clamp start
  at most \<open>L\<close> they stay so. The condition on the acknowledgments is that \<open>tcp_max_burst\<close> is not 0 while they are
  processed: with 0 the code itself sets the window to 0 (\<open>moderate_to_zero\<close>).
\<close>

theorem reno_runs_safe:
  assumes "\<not> initialized ag" and "win wb (linux_sk ag)"
    and "run_env (\<lambda>_ _ _. True) (\<lambda>_ _ _. True) tcp_reno evs ag"
  shows "\<exists>ag'. agent_run tcp_reno evs ag = Some ag' \<and> win wb (linux_sk ag')"
  using assms by (intro reno.module_run_safe_from_start) simp_all

theorem reno_runs_safe_witness:
  "\<exists>ag'. agent_run tcp_reno sample_run (sample_agent ()) = Some ag' \<and> win (Some 1000) (linux_sk ag')"
  by (rule reno_runs_safe) (simp_all add: sample_win sample_run_env)

end
