(* ===== verification/Scalable.thy ===== *)
theory Scalable
  imports Window
begin

text \<open>
  Scalable TCP, src/ns-2.34/tcp/linux/src/tcp_scalable.c: beyond slow start the window grows by
  one segment per 50 acknowledgments (or per window, if that is smaller), and a loss takes off
  an eighth. No private state.
\<close>

definition TCP_SCALABLE_AI_CNT :: u32 where
  "TCP_SCALABLE_AI_CNT = 50"

definition TCP_SCALABLE_MD_SCALE :: nat where
  "TCP_SCALABLE_MD_SCALE = 3"

definition tcp_scalable_cong_avoid ::
  "u32 \<Rightarrow> u32 \<Rightarrow> u32 \<Rightarrow> s32 \<Rightarrow> kernel \<Rightarrow> 'ca tcp_sock \<Rightarrow> 'ca tcp_sock option" where
  "tcp_scalable_cong_avoid ack rtt in_flight flag k tp =
    (if \<not> tcp_is_cwnd_limited tp in_flight then Some tp
     else if snd_cwnd tp \<le> snd_ssthresh tp then tcp_slow_start k tp
     else let tp = tp\<lparr>snd_cwnd_cnt := snd_cwnd_cnt tp + 1\<rparr>
          in if min (snd_cwnd tp) TCP_SCALABLE_AI_CNT < snd_cwnd_cnt tp
             then let tp = (if snd_cwnd tp < snd_cwnd_clamp tp
                            then tp\<lparr>snd_cwnd := snd_cwnd tp + 1\<rparr> else tp)
                  in Some (tp\<lparr>snd_cwnd_cnt := 0\<rparr>)
             else Some tp)"

definition tcp_scalable_ssthresh ::
  "kernel \<Rightarrow> 'ca tcp_sock \<Rightarrow> (u32 \<times> 'ca tcp_sock) option" where
  "tcp_scalable_ssthresh k tp =
     Some (max (snd_cwnd tp - drop_bit TCP_SCALABLE_MD_SCALE (snd_cwnd tp)) 2, tp)"

definition tcp_scalable :: "'ca tcp_congestion_ops" where
  "tcp_scalable = ops_null\<lparr>ca_ssthresh := Some tcp_scalable_ssthresh,
     ca_cong_avoid := Some tcp_scalable_cong_avoid, ca_min_cwnd := Some tcp_reno_min_cwnd,
     ca_name := ''scalable''\<rparr>"

section \<open>Properties\<close>

lemma scalable_cong_avoid_win_step:
  assumes "0 < snd_cwnd sk"
  shows "\<exists>sk'. tcp_scalable_cong_avoid ack rtt infl flag k sk = Some sk' \<and> win_step sk sk'"
  using slow_start_win_step [OF assms, of k] win_step_inc [OF assms] assms
  by (auto simp: tcp_scalable_cong_avoid_def Let_def)

text \<open>The loss response: exactly the ceiling of seven eighths of the window, at least 2.\<close>

lemma scalable_ssthresh_value:
  "tcp_scalable_ssthresh k sk = Some (v, sk')
     \<Longrightarrow> sk' = sk \<and> unat v = max (unat (snd_cwnd sk) - unat (snd_cwnd sk) div 8) 2"
proof -
  assume a: "tcp_scalable_ssthresh k sk = Some (v, sk')"
  let ?d = "drop_bit 3 (snd_cwnd sk)"
  have d: "unat ?d = unat (snd_cwnd sk) div 8" by (simp add: unat_shr)
  then have "unat (snd_cwnd sk - ?d) = unat (snd_cwnd sk) - unat (snd_cwnd sk) div 8"
    by (subst unat_minus_le) (simp_all add: word_le_nat_alt)
  with a show ?thesis
    by (auto simp: tcp_scalable_ssthresh_def TCP_SCALABLE_MD_SCALE_def max_def word_le_nat_alt)
qed

text \<open>
  The growth step: below its bound the counter only counts, at the bound the window opens by one
  segment (up to the clamp) and the counter restarts.
\<close>

lemma scalable_cong_avoid_counts:
  assumes "snd_ssthresh sk < snd_cwnd sk" and "snd_cwnd sk \<le> infl"
    and "snd_cwnd_cnt sk < min (snd_cwnd sk) TCP_SCALABLE_AI_CNT"
  shows "tcp_scalable_cong_avoid ack rtt infl flag k sk = Some (sk\<lparr>snd_cwnd_cnt := snd_cwnd_cnt sk + 1\<rparr>)"
proof -
  have "\<not> min (snd_cwnd sk) TCP_SCALABLE_AI_CNT < snd_cwnd_cnt sk + 1"
    using inc_le [OF assms(3)] by (rule leD)
  with assms(1,2) show ?thesis
    by (simp add: tcp_scalable_cong_avoid_def tcp_is_cwnd_limited_def Let_def flip: not_le)
qed

lemma scalable_cong_avoid_grows:
  assumes "snd_ssthresh sk < snd_cwnd sk" and "snd_cwnd sk \<le> infl"
    and "snd_cwnd_cnt sk = min (snd_cwnd sk) TCP_SCALABLE_AI_CNT"
  shows "tcp_scalable_cong_avoid ack rtt infl flag k sk = Some (sk\<lparr>snd_cwnd_cnt := 0,
      snd_cwnd := (if snd_cwnd sk < snd_cwnd_clamp sk then snd_cwnd sk + 1 else snd_cwnd sk)\<rparr>)"
proof -
  have "m < m + 1" if "m \<le> 50" for m :: u32
    using unat_Suc_no_wrap [of m 51] that by (simp add: word_le_nat_alt word_less_nat_alt)
  from this [of "min (snd_cwnd sk) TCP_SCALABLE_AI_CNT"]
  have "min (snd_cwnd sk) TCP_SCALABLE_AI_CNT < snd_cwnd_cnt sk + 1"
    unfolding assms(3) by (simp add: TCP_SCALABLE_AI_CNT_def)
  with assms(1,2) show ?thesis
    by (simp add: tcp_scalable_cong_avoid_def tcp_is_cwnd_limited_def Let_def flip: not_le)
qed

lemma scalable_acks_count:
  assumes "snd_ssthresh sk < snd_cwnd sk" and "snd_cwnd sk \<le> infl" and "snd_cwnd_cnt sk = 0"
  shows "n \<le> unat (min (snd_cwnd sk) TCP_SCALABLE_AI_CNT)
    \<Longrightarrow> iterate (tcp_scalable_cong_avoid ack rtt infl flag k) n sk = Some (sk\<lparr>snd_cwnd_cnt := of_nat n\<rparr>)"
proof (induction n)
  case 0
  then show ?case using assms(3) by simp
next
  case (Suc n)
  let ?sk = "sk\<lparr>snd_cwnd_cnt := of_nat n\<rparr>"
  have "n < 2 ^ 32"
    using le_less_trans [OF Suc.prems unat_lt2p_u32] by simp
  then have "unat (of_nat n :: u32) = n"
    by (simp add: unsigned_of_nat take_bit_nat_eq_self_iff)
  then have "snd_cwnd_cnt ?sk < min (snd_cwnd ?sk) TCP_SCALABLE_AI_CNT"
    using Suc.prems by (simp add: word_less_nat_alt del: min_less_iff_conj)
  from scalable_cong_avoid_counts [of ?sk, OF _ _ this] assms(1,2) Suc show ?case
    by (simp add: add.commute)
qed

interpretation scalable: cong_module tcp_scalable wb "\<lambda>_. True" "\<lambda>_. True" "\<lambda>_ _ _. True" "\<lambda>_ _ _. True" for wb
proof (unfold_locales, goal_cases)
  case (2 sk k)
  have "2 \<le> max (snd_cwnd sk - drop_bit 3 (snd_cwnd sk)) 2"
    "max (snd_cwnd sk - drop_bit 3 (snd_cwnd sk)) 2 \<le> max (snd_cwnd sk) 2"
    by (auto simp: word_nat unat_shr unat_minus_le max_def)
  then show ?case
    by (intro exI [of _ "max (snd_cwnd sk - drop_bit 3 (snd_cwnd sk)) 2"]
          exI [of _ "icsk_ca_priv sk"])
      (simp add: tcp_scalable_def ops_null_def call_ssthresh_def tcp_scalable_ssthresh_def TCP_SCALABLE_MD_SCALE_def)
next
  case (3 sk)
  then show ?case
    using reno_min_cwnd_bounds [of "snd_ssthresh sk"]
    by (simp add: tcp_scalable_def ops_null_def call_min_cwnd_def tcp_reno_min_cwnd_def)
next
  case (4 sk k ack rtt infl good)
  from scalable_cong_avoid_win_step [OF mod_live_simps(1) [OF 4(1)]] win_step_mod_live [OF 4(1)]
  show ?case by (simp add: tcp_scalable_def ops_null_def call_cong_avoid_def op_ok_def) blast
next
  case (9 sk k)
  have "2 \<le> max (snd_cwnd sk - drop_bit 3 (snd_cwnd sk)) 2"
    "max (snd_cwnd sk - drop_bit 3 (snd_cwnd sk)) 2 \<le> max (snd_cwnd sk) 2"
    by (auto simp: word_nat unat_shr unat_minus_le max_def)
  then show ?case
    by (intro exI [of _ "max (snd_cwnd sk - drop_bit 3 (snd_cwnd sk)) 2"]
          exI [of _ "icsk_ca_priv sk"])
      (simp add: tcp_scalable_def ops_null_def call_ssthresh_def tcp_scalable_ssthresh_def TCP_SCALABLE_MD_SCALE_def)
qed (simp_all add: tcp_scalable_def ops_null_def mod_live_def)

text \<open>
  with Scalable TCP beyond slow start, on a connection that fills its window and with the
  counter at zero, the window stays the same for \<open>min cwnd 50\<close> acknowledgments and opens by one
  segment (if it is below the clamp) at the next one, which also restarts the counter: the
  period is one acknowledgment longer than the constant.
\<close>

theorem scalable_growth_period:
  assumes "snd_ssthresh sk < snd_cwnd sk" and "snd_cwnd sk \<le> infl" and "snd_cwnd_cnt sk = 0"
    and "snd_cwnd sk < snd_cwnd_clamp sk"
  defines "n \<equiv> unat (min (snd_cwnd sk) TCP_SCALABLE_AI_CNT)"
  shows "iterate (tcp_scalable_cong_avoid ack rtt infl flag k) n sk
      = Some (sk\<lparr>snd_cwnd_cnt := of_nat n\<rparr>)
    \<and> iterate (tcp_scalable_cong_avoid ack rtt infl flag k) (n + 1) sk
      = Some (sk\<lparr>snd_cwnd := snd_cwnd sk + 1\<rparr>)"
proof -
  have c: "iterate (tcp_scalable_cong_avoid ack rtt infl flag k) n sk
      = Some (sk\<lparr>snd_cwnd_cnt := of_nat n\<rparr>)"
    unfolding n_def by (rule scalable_acks_count [OF assms(1-3)]) simp
  have "snd_cwnd_cnt (sk\<lparr>snd_cwnd_cnt := of_nat n\<rparr>) = min (snd_cwnd sk) TCP_SCALABLE_AI_CNT"
    by (simp add: n_def)
  from scalable_cong_avoid_grows [of "sk\<lparr>snd_cwnd_cnt := of_nat n\<rparr>" infl ack rtt flag k] this assms(1,2,4)
  have "tcp_scalable_cong_avoid ack rtt infl flag k (sk\<lparr>snd_cwnd_cnt := of_nat n\<rparr>)
      = Some (sk\<lparr>snd_cwnd_cnt := 0, snd_cwnd := snd_cwnd sk + 1\<rparr>)" by simp
  moreover have "sk\<lparr>snd_cwnd_cnt := 0, snd_cwnd := snd_cwnd sk + 1\<rparr> = sk\<lparr>snd_cwnd := snd_cwnd sk + 1\<rparr>"
    using assms(3) by (cases sk) simp
  ultimately show ?thesis using c by simp
qed

theorem scalable_growth_period_witness:
  "iterate (tcp_scalable_cong_avoid 0 0 80 1 kernel_init) 51 ((sample_sk ())\<lparr>snd_cwnd := 80\<rparr>)
    = Some ((sample_sk ())\<lparr>snd_cwnd := 81\<rparr>)"
  using scalable_growth_period [of "(sample_sk ())\<lparr>snd_cwnd := 80\<rparr>" 80 0 0 1 kernel_init]
  by (simp add: sample_sk_def TCP_SCALABLE_AI_CNT_def)

text \<open>
  a connection that runs Scalable TCP never traps and keeps its window positive and within
  the bound it started with, along every sequence of events.
\<close>

theorem scalable_runs_safe:
  assumes "\<not> initialized ag" and "win wb (linux_sk ag)"
    and "run_env (\<lambda>_ _ _. True) (\<lambda>_ _ _. True) tcp_scalable evs ag"
  shows "\<exists>ag'. agent_run tcp_scalable evs ag = Some ag' \<and> win wb (linux_sk ag')"
  using assms by (intro scalable.module_run_safe_from_start) simp_all

theorem scalable_runs_safe_witness:
  "\<exists>ag'. agent_run tcp_scalable sample_run (sample_agent ()) = Some ag'
     \<and> win (Some 1000) (linux_sk ag')"
  by (rule scalable_runs_safe) (simp_all add: sample_win sample_run_env)

end
