(* ===== verification/Highspeed.thy ===== *)
theory Highspeed
  imports Window
begin

text \<open>
  HighSpeed TCP (RFC 3649), src/ns-2.34/tcp/linux/src/tcp_highspeed.c: the increase and the
  decrease of the window are looked up in a table of 72 rows, whose index is moved up or down
  with the window. The lemmas show that the index never leaves the table, that the incremental
  search finds the row a search of the whole table would find, and that the decrease neither
  overflows nor takes more than half the window.
\<close>

section \<open>The table\<close>

text \<open>The rows (window, decrease scaled by 256), as the code lists them.\<close>

definition hstcp_aimd_vals :: "(u32 \<times> u32) list" where
  "hstcp_aimd_vals = [
    (38, 128), (118, 112), (221, 104), (347, 98), (495, 93), (663, 89), (851, 86),
    (1058, 83), (1284, 81), (1529, 78), (1793, 76), (2076, 74), (2378, 72), (2699, 71),
    (3039, 69), (3399, 68), (3778, 66), (4177, 65), (4596, 64), (5036, 62), (5497, 61),
    (5979, 60), (6483, 59), (7009, 58), (7558, 57), (8130, 56), (8726, 55), (9346, 54),
    (9991, 53), (10661, 52), (11358, 52), (12082, 51), (12834, 50), (13614, 49),
    (14424, 48), (15265, 48), (16137, 47), (17042, 46), (17981, 45), (18955, 45),
    (19965, 44), (21013, 43), (22101, 43), (23230, 42), (24402, 41), (25618, 41),
    (26881, 40), (28193, 39), (29557, 39), (30975, 38), (32450, 38), (33986, 37),
    (35586, 36), (37253, 36), (38992, 35), (40808, 35), (42707, 34), (44694, 33),
    (46776, 33), (48961, 32), (51258, 32), (53677, 31), (56230, 30), (58932, 30),
    (61799, 29), (64851, 28), (68113, 28), (71617, 27), (75401, 26), (79517, 26),
    (84035, 25), (89053, 24)
  ]"

abbreviation (input) HSTCP_AIMD_MAX :: u32 where "HSTCP_AIMD_MAX \<equiv> 72"

record hstcp =
  hstcp_ai :: u32

section \<open>Operations\<close>

definition hstcp_init :: "kernel \<Rightarrow> hstcp tcp_sock \<Rightarrow> hstcp tcp_sock option" where
  "hstcp_init k tp =
     Some (tp\<lparr>icsk_ca_priv := (icsk_ca_priv tp)\<lparr>hstcp_ai := 0\<rparr>,
              snd_cwnd_clamp := min (snd_cwnd_clamp tp) (0xFFFFFFFF div 128)\<rparr>)"

text \<open>The two loops that move the index.\<close>

function hstcp_up :: "u32 \<Rightarrow> u32 \<Rightarrow> u32 option" where
  "hstcp_up cwnd ai =
    (case array_get hstcp_aimd_vals ai of
       None \<Rightarrow> None
     | Some (c, md) \<Rightarrow>
         if c < cwnd \<and> ai < HSTCP_AIMD_MAX - 1 then hstcp_up cwnd (ai + 1) else Some ai)"
  by auto
termination
proof (relation "measure (\<lambda>(_, ai). 72 - unat ai)", simp)
  fix cwnd ai :: u32 and x c md
  assume "c < cwnd \<and> ai < HSTCP_AIMD_MAX - 1"
  then show "((cwnd, ai + 1), (cwnd, ai)) \<in> measure (\<lambda>(_, ai). 72 - unat ai)"
    using unat_Suc_no_wrap [of ai 71] by (auto simp: word_less_nat_alt)
qed

function hstcp_down :: "u32 \<Rightarrow> u32 \<Rightarrow> u32 option" where
  "hstcp_down cwnd ai =
    (if ai = 0 then Some ai
     else case array_get hstcp_aimd_vals (ai - 1) of
       None \<Rightarrow> None
     | Some (c, md) \<Rightarrow> if cwnd \<le> c then hstcp_down cwnd (ai - 1) else Some ai)"
  by auto
termination
  by (relation "measure (\<lambda>(_, ai). unat ai)") (auto simp: unat_minus_one unat_gt_0)

declare hstcp_up.simps [simp del] hstcp_down.simps [simp del]

text \<open>The update of the index at one acknowledgment.\<close>

definition hstcp_update :: "u32 \<Rightarrow> u32 \<Rightarrow> u32 option" where
  "hstcp_update cwnd ai =
    (case array_get hstcp_aimd_vals ai of
       None \<Rightarrow> None
     | Some (c, md) \<Rightarrow>
         if c < cwnd then hstcp_up cwnd ai
         else if ai \<noteq> 0
         then (case array_get hstcp_aimd_vals (ai - 1) of
                 None \<Rightarrow> None
               | Some (c, md) \<Rightarrow> if cwnd \<le> c then hstcp_down cwnd ai else Some ai)
         else Some ai)"

definition hstcp_cong_avoid ::
  "u32 \<Rightarrow> u32 \<Rightarrow> u32 \<Rightarrow> s32 \<Rightarrow> kernel \<Rightarrow> hstcp tcp_sock \<Rightarrow> hstcp tcp_sock option" where
  "hstcp_cong_avoid adk rtt in_flight data_acked k tp =
    (if \<not> tcp_is_cwnd_limited tp in_flight then Some tp
     else if snd_cwnd tp \<le> snd_ssthresh tp then tcp_slow_start k tp
     else do {
       i \<leftarrow> hstcp_update (snd_cwnd tp) (hstcp_ai (icsk_ca_priv tp));
       let tp = tp\<lparr>icsk_ca_priv := (icsk_ca_priv tp)\<lparr>hstcp_ai := i\<rparr>\<rparr>;
       Some (if snd_cwnd tp < snd_cwnd_clamp tp
             then let tp = tp\<lparr>snd_cwnd_cnt := snd_cwnd_cnt tp + (i + 1)\<rparr>
                  in if snd_cwnd tp \<le> snd_cwnd_cnt tp
                     then tp\<lparr>snd_cwnd_cnt := snd_cwnd_cnt tp - snd_cwnd tp,
                             snd_cwnd := snd_cwnd tp + 1\<rparr>
                     else tp
             else tp)
     })"

definition hstcp_ssthresh :: "kernel \<Rightarrow> hstcp tcp_sock \<Rightarrow> (u32 \<times> hstcp tcp_sock) option" where
  "hstcp_ssthresh k tp = do {
     (c, md) \<leftarrow> array_get hstcp_aimd_vals (hstcp_ai (icsk_ca_priv tp));
     Some (max (snd_cwnd tp - drop_bit 8 (snd_cwnd tp * md)) 2, tp)
   }"

definition tcp_highspeed :: "hstcp tcp_congestion_ops" where
  "tcp_highspeed = ops_null\<lparr>ca_init := Some hstcp_init, ca_ssthresh := Some hstcp_ssthresh,
     ca_cong_avoid := Some hstcp_cong_avoid, ca_min_cwnd := Some tcp_reno_min_cwnd,
     ca_name := ''highspeed''\<rparr>"

section \<open>The index stays in the table and is the row of the window\<close>

text \<open>The row of a window: the first one whose bound the window does not pass, or the last.\<close>

definition hstcp_row :: "u32 \<Rightarrow> nat \<Rightarrow> bool" where
  "hstcp_row cwnd i \<longleftrightarrow> i < 72 \<and> (i = 0 \<or> fst (hstcp_aimd_vals ! (i - 1)) < cwnd)
     \<and> (cwnd \<le> fst (hstcp_aimd_vals ! i) \<or> i = 71)"

lemma length_hstcp_aimd_vals [simp]: "length hstcp_aimd_vals = 72"
  by (simp add: hstcp_aimd_vals_def)

lemma hstcp_mono:
  assumes "i \<le> j" "j < 72"
  shows "fst (hstcp_aimd_vals ! i) \<le> fst (hstcp_aimd_vals ! j)"
proof -
  have "sorted (map fst hstcp_aimd_vals)"
    by (simp add: hstcp_aimd_vals_def sorted1 sorted2 del: sorted_wrt.simps)
  from sorted_nth_mono [OF this assms(1)] assms show ?thesis by simp
qed

lemma hstcp_get:
  assumes "unat ai < 72"
  obtains c md where "hstcp_aimd_vals ! unat ai = (c, md)"
    and "array_get hstcp_aimd_vals ai = Some (c, md)"
  using assms by (cases "hstcp_aimd_vals ! unat ai") (simp add: array_get_def)

lemma hstcp_up_row:
  assumes "unat ai < 72" and "ai = 0 \<or> fst (hstcp_aimd_vals ! (unat ai - 1)) < cwnd"
  shows "\<exists>i. hstcp_up cwnd ai = Some i \<and> hstcp_row cwnd (unat i)"
  using assms
proof (induction cwnd ai rule: hstcp_up.induct)
  case (1 cwnd ai)
  obtain c md where g: "hstcp_aimd_vals ! unat ai = (c, md)"
    "array_get hstcp_aimd_vals ai = Some (c, md)" using 1(2) by (rule hstcp_get)
  show ?case
  proof (cases "c < cwnd \<and> ai < HSTCP_AIMD_MAX - 1")
    case True
    then have n: "unat (ai + 1) = Suc (unat ai)" "unat ai < 71"
      using unat_Suc_no_wrap [of ai 71] by (simp_all add: word_less_nat_alt)
    with 1(1) [OF g(2) refl True] g True show ?thesis by (simp add: hstcp_up.simps [of cwnd ai])
  next
    case False
    then have "hstcp_up cwnd ai = Some ai" by (subst hstcp_up.simps) (auto simp: g)
    moreover have "ai < 72 - 1 \<longleftrightarrow> unat ai < 71" by (simp add: word_less_nat_alt)
    then have "hstcp_row cwnd (unat ai)"
      using 1(2,3) False g by (auto simp: hstcp_row_def not_less unat_eq_0)
    ultimately show ?thesis by blast
  qed
qed

lemma hstcp_down_row:
  assumes "unat ai < 72" and "cwnd \<le> fst (hstcp_aimd_vals ! unat ai)"
  shows "\<exists>i. hstcp_down cwnd ai = Some i \<and> hstcp_row cwnd (unat i)"
  using assms
proof (induction cwnd ai rule: hstcp_down.induct)
  case (1 cwnd ai)
  show ?case
  proof (cases "ai = 0")
    case True
    with 1(3) show ?thesis by (simp add: hstcp_down.simps hstcp_row_def)
  next
    case False
    then have n: "unat (ai - 1) = unat ai - 1" by (simp add: unat_minus_one)
    with 1(2) have "unat (ai - 1) < 72" by simp
    then obtain c md where g: "hstcp_aimd_vals ! unat (ai - 1) = (c, md)"
      "array_get hstcp_aimd_vals (ai - 1) = Some (c, md)" by (rule hstcp_get)
    show ?thesis
    proof (cases "cwnd \<le> c")
      case True
      with 1(1) [OF False g(2) refl True] 1(2) g False show ?thesis
        by (simp add: hstcp_down.simps [of cwnd ai] n)
    next
      case nle: False
      then have "hstcp_down cwnd ai = Some ai" using False by (subst hstcp_down.simps) (auto simp: g)
      moreover have "hstcp_row cwnd (unat ai)"
        using 1(2,3) nle g n by (auto simp: hstcp_row_def)
      ultimately show ?thesis by blast
    qed
  qed
qed

lemma hstcp_update_row:
  assumes "unat ai < 72"
  shows "\<exists>i. hstcp_update cwnd ai = Some i \<and> hstcp_row cwnd (unat i)"
proof -
  obtain c md where g: "hstcp_aimd_vals ! unat ai = (c, md)"
    "array_get hstcp_aimd_vals ai = Some (c, md)" using assms by (rule hstcp_get)
  show ?thesis
  proof (cases "c < cwnd")
    case True
    then have "ai = 0 \<or> fst (hstcp_aimd_vals ! (unat ai - 1)) < cwnd"
      using hstcp_mono [of "unat ai - 1" "unat ai"] assms g by (auto intro: le_less_trans)
    from hstcp_up_row [OF assms this] True show ?thesis by (simp add: hstcp_update_def g)
  next
    case False
    then have le: "cwnd \<le> fst (hstcp_aimd_vals ! unat ai)" using g by simp
    show ?thesis
    proof (cases "ai = 0")
      case True
      with False le g show ?thesis by (auto simp: hstcp_update_def hstcp_row_def)
    next
      case nz: False
      then have n: "unat (ai - 1) = unat ai - 1" by (simp add: unat_minus_one)
      with assms have "unat (ai - 1) < 72" by simp
      then obtain c' md' where g': "hstcp_aimd_vals ! unat (ai - 1) = (c', md')"
        "array_get hstcp_aimd_vals (ai - 1) = Some (c', md')" by (rule hstcp_get)
      from hstcp_down_row [OF assms le] False nz g' le assms n show ?thesis
        by (cases "cwnd \<le> c'") (auto simp: hstcp_update_def g hstcp_row_def)
    qed
  qed
qed

text \<open>So the row does not depend on where the search started: it is the first that fits.\<close>

definition hstcp_lookup :: "u32 \<Rightarrow> nat" where
  "hstcp_lookup cwnd = min 71 (length (takeWhile (\<lambda>r. fst r < cwnd) hstcp_aimd_vals))"

lemma hstcp_row_unique: "hstcp_row cwnd i \<Longrightarrow> hstcp_row cwnd j \<Longrightarrow> i = j"
proof (rule ccontr, induction i j rule: linorder_wlog)
  case (le i j)
  then have "i < j" "j < 72" by (auto simp: hstcp_row_def)
  then have "fst (hstcp_aimd_vals ! i) \<le> fst (hstcp_aimd_vals ! (j - 1))" by (intro hstcp_mono) auto
  with le \<open>i < j\<close> show ?case by (auto simp: hstcp_row_def)
qed auto

lemma hstcp_row_lookup: "hstcp_row cwnd (hstcp_lookup cwnd)"
proof -
  define n where "n = length (takeWhile (\<lambda>r. fst r < cwnd) hstcp_aimd_vals)"
  have below: "fst (hstcp_aimd_vals ! i) < cwnd" if "i < n" for i
    using that unfolding n_def by (metis nth_mem set_takeWhileD takeWhile_nth)
  have "n \<le> 72" using length_takeWhile_le [of _ hstcp_aimd_vals] by (simp add: n_def)
  have "cwnd \<le> fst (hstcp_aimd_vals ! n)" if "n < 72"
    using that nth_length_takeWhile [of "\<lambda>r. fst r < cwnd" hstcp_aimd_vals]
    by (simp add: not_less n_def)
  moreover have "fst (hstcp_aimd_vals ! (min 71 n - 1)) < cwnd" if "n \<noteq> 0"
    using that by (intro below) linarith
  moreover have "hstcp_lookup cwnd = min 71 n" by (simp add: hstcp_lookup_def n_def)
  ultimately show ?thesis by (cases "n \<le> 71") (auto simp: hstcp_row_def min_def)
qed

lemma hstcp_update_lookup:
  assumes "unat ai < 72"
  shows "\<exists>i. hstcp_update cwnd ai = Some i \<and> unat i = hstcp_lookup cwnd"
  using hstcp_update_row [OF assms, of cwnd] hstcp_row_unique hstcp_row_lookup by blast

section \<open>The decrease\<close>

lemma hstcp_md_le: "unat ai < 72 \<Longrightarrow> snd (hstcp_aimd_vals ! unat ai) \<le> 128"
proof -
  have "list_all (\<lambda>r. snd r \<le> 128) hstcp_aimd_vals" by (simp add: hstcp_aimd_vals_def)
  then show "unat ai < 72 \<Longrightarrow> ?thesis" by (simp add: list_all_length)
qed

text \<open>
  The code computes the product on 32 bits; with a window within the clamp that \<open>init\<close> sets
  it does not overflow, and whatever the window, the subtraction never wraps and keeps at
  least half of it.
\<close>

lemma hstcp_cut_le:
  assumes "unat ai < 72"
  shows "unat (drop_bit 8 (w * snd (hstcp_aimd_vals ! unat ai))) \<le> unat w div 2"
proof -
  let ?md = "snd (hstcp_aimd_vals ! unat ai)"
  have md: "unat ?md \<le> 128" using hstcp_md_le [OF assms] by (simp add: word_le_nat_alt)
  have "unat (w * ?md) \<le> unat w * unat ?md" by (simp add: unat_word_ariths)
  also have "\<dots> \<le> unat w * 128" using md by simp
  finally have "unat (w * ?md) div 256 \<le> unat w * 128 div 256" by (rule div_le_mono)
  then show ?thesis by (simp add: unat_shr)
qed

lemma hstcp_ssthresh_Some:
  assumes "unat (hstcp_ai (icsk_ca_priv sk)) < 72"
  shows "\<exists>v. hstcp_ssthresh k sk = Some (v, sk) \<and> 2 \<le> v \<and> v \<le> max (snd_cwnd sk) 2
    \<and> unat (snd_cwnd sk) \<le> 2 * unat v"
proof -
  obtain c md where g: "hstcp_aimd_vals ! unat (hstcp_ai (icsk_ca_priv sk)) = (c, md)"
    "array_get hstcp_aimd_vals (hstcp_ai (icsk_ca_priv sk)) = Some (c, md)"
    using assms by (rule hstcp_get)
  let ?d = "drop_bit 8 (snd_cwnd sk * md)"
  have d: "unat ?d \<le> unat (snd_cwnd sk) div 2"
    using hstcp_cut_le [OF assms, of "snd_cwnd sk"] g by simp
  then have "unat (snd_cwnd sk - ?d) = unat (snd_cwnd sk) - unat ?d"
    by (intro unat_minus_le) (simp add: word_le_nat_alt)
  with d show ?thesis
    by (auto simp: hstcp_ssthresh_def g max_def word_le_nat_alt)
qed

lemma hstcp_ssthresh_exact:
  assumes "unat (hstcp_ai (icsk_ca_priv sk)) < 72" and "unat (snd_cwnd sk) \<le> 4294967295 div 128"
  shows "\<exists>v. hstcp_ssthresh k sk = Some (v, sk)
    \<and> unat v = max 2 (unat (snd_cwnd sk)
        - unat (snd_cwnd sk) * unat (snd (hstcp_aimd_vals ! unat (hstcp_ai (icsk_ca_priv sk)))) div 256)"
proof -
  obtain c md where g: "hstcp_aimd_vals ! unat (hstcp_ai (icsk_ca_priv sk)) = (c, md)"
    "array_get hstcp_aimd_vals (hstcp_ai (icsk_ca_priv sk)) = Some (c, md)"
    using assms(1) by (rule hstcp_get)
  let ?d = "drop_bit 8 (snd_cwnd sk * md)"
  have "unat md \<le> 128" using hstcp_md_le [OF assms(1)] g by (simp add: word_le_nat_alt)
  then have "unat (snd_cwnd sk) * unat md \<le> 33554431 * 128"
    using assms(2) by (intro mult_le_mono) simp_all
  then have "unat (snd_cwnd sk * md) = unat (snd_cwnd sk) * unat md"
    by (intro unat_mult_no_wrap) simp
  then have d: "unat ?d = unat (snd_cwnd sk) * unat md div 256" by (simp add: unat_shr)
  have "unat ?d \<le> unat (snd_cwnd sk)"
    using hstcp_cut_le [OF assms(1), of "snd_cwnd sk"] g by simp
  then have "unat (snd_cwnd sk - ?d) = unat (snd_cwnd sk) - unat ?d"
    by (intro unat_minus_le) (simp add: word_le_nat_alt)
  with d g show ?thesis
    by (auto simp: hstcp_ssthresh_def max_def word_le_nat_alt)
qed

section \<open>The module\<close>

definition hstcp_ok :: "hstcp \<Rightarrow> bool" where
  "hstcp_ok ca \<longleftrightarrow> unat (hstcp_ai ca) < 72"

lemma hstcp_cong_avoid_live:
  assumes "mod_live wb hstcp_ok sk"
  shows "op_ok (mod_live wb hstcp_ok) sk (hstcp_cong_avoid ack rtt infl good k sk)"
proof -
  obtain i where i: "hstcp_update (snd_cwnd sk) (hstcp_ai (icsk_ca_priv sk)) = Some i" "unat i < 72"
    using hstcp_update_row mod_live_simps(5) [OF assms] by (auto simp: hstcp_ok_def hstcp_row_def)
  let ?sk = "sk\<lparr>icsk_ca_priv := (icsk_ca_priv sk)\<lparr>hstcp_ai := i\<rparr>\<rparr>"
  have l: "mod_live wb hstcp_ok ?sk" using assms i(2) mod_live_simps(6) by (auto simp: hstcp_ok_def)
  have g: "mod_live wb hstcp_ok (?sk\<lparr>snd_cwnd_cnt := c, snd_cwnd := snd_cwnd sk + 1\<rparr>)"
    if "snd_cwnd sk < snd_cwnd_clamp sk" for c
  proof -
    have "mod_live wb hstcp_ok (?sk\<lparr>snd_cwnd_cnt := c\<rparr>)" using l by (rule mod_live_upd(2) [THEN iffD2])
    from mod_live_inc [OF this] that show ?thesis by simp
  qed
  have c: "mod_live wb hstcp_ok (?sk\<lparr>snd_cwnd_cnt := c\<rparr>)" for c
    using l by (rule mod_live_upd(2) [THEN iffD2])
  from g l c slow_start_live [OF assms] assms i show ?thesis
    by (simp add: hstcp_cong_avoid_def Let_def)
qed

interpretation highspeed: cong_module tcp_highspeed wb hstcp_ok hstcp_ok "\<lambda>_ _ _. True" "\<lambda>_ _ _. True" for wb
proof (unfold_locales, goal_cases)
  case (1 sk k)
  then show ?case
    by (cases wb) (auto simp: tcp_highspeed_def ops_null_def hstcp_init_def mod_live_def win_defs
        hstcp_ok_def min_def split: if_splits)
next
  case (2 sk k)
  from hstcp_ssthresh_Some [of sk k] mod_live_simps(5) [OF 2] obtain v where
    "hstcp_ssthresh k sk = Some (v, sk)" "2 \<le> v" "v \<le> max (snd_cwnd sk) 2"
    by (auto simp: hstcp_ok_def)
  with mod_live_simps(5) [OF 2] show ?case
    by (intro exI [of _ v] exI [of _ "icsk_ca_priv sk"])
      (simp add: tcp_highspeed_def call_ssthresh_def)
next
  case (3 sk)
  then show ?case
    using reno_min_cwnd_bounds [of "snd_ssthresh sk"]
    by (simp add: tcp_highspeed_def ops_null_def call_min_cwnd_def tcp_reno_min_cwnd_def)
next
  case 4
  then show ?case
    by (simp add: tcp_highspeed_def call_cong_avoid_def hstcp_cong_avoid_live)
next
  case (9 sk k)
  from hstcp_ssthresh_Some [of sk k] mod_live_simps(5) [OF 9] obtain v where
    "hstcp_ssthresh k sk = Some (v, sk)" "2 \<le> v" "v \<le> max (snd_cwnd sk) 2"
    by (auto simp: hstcp_ok_def)
  with mod_live_simps(5) [OF 9] show ?case
    by (intro exI [of _ v] exI [of _ "icsk_ca_priv sk"])
      (simp add: tcp_highspeed_def call_ssthresh_def)
qed (simp_all add: tcp_highspeed_def ops_null_def mod_live_def)

section \<open>Properties\<close>

text \<open>
  whatever row HighSpeed TCP was at, the incremental search of an acknowledgment ends and
  finds the row that a search of the whole table finds for the window: the first row whose
  window is not exceeded, or the last row.
\<close>

theorem hstcp_update_is_lookup:
  assumes "unat ai < length hstcp_aimd_vals"
  shows "\<exists>i. hstcp_update cwnd ai = Some i
    \<and> unat i = min 71 (length (takeWhile (\<lambda>r. fst r < cwnd) hstcp_aimd_vals))"
  using hstcp_update_lookup [of ai cwnd] assms by (simp add: hstcp_lookup_def)

theorem hstcp_update_is_lookup_witness:
  "\<exists>i. hstcp_update 1000 60 = Some i
    \<and> unat i = min 71 (length (takeWhile (\<lambda>r. fst r < 1000) hstcp_aimd_vals))"
  by (rule hstcp_update_is_lookup) simp

text \<open>
  the decrease of HighSpeed TCP, for a window within the clamp that \<open>init\<close> imposes, is the
  table's fraction of the window without any 32-bit overflow, rounded down, and at least 2
  segments are left.
\<close>

theorem hstcp_ssthresh_no_overflow:
  assumes "unat (hstcp_ai (icsk_ca_priv sk)) < length hstcp_aimd_vals"
    and "unat (snd_cwnd sk) \<le> 4294967295 div 128"
  shows "\<exists>v. hstcp_ssthresh k sk = Some (v, sk)
    \<and> unat v = max 2 (unat (snd_cwnd sk)
        - unat (snd_cwnd sk) * unat (snd (hstcp_aimd_vals ! unat (hstcp_ai (icsk_ca_priv sk)))) div 256)"
  using assms by (intro hstcp_ssthresh_exact) simp_all

theorem hstcp_ssthresh_no_overflow_witness:
  "\<exists>v. hstcp_ssthresh kernel_init ((sample_sk \<lparr>hstcp_ai = 6\<rparr>)\<lparr>snd_cwnd := 800\<rparr>)
      = Some (v, (sample_sk \<lparr>hstcp_ai = 6\<rparr>)\<lparr>snd_cwnd := 800\<rparr>) \<and> unat v = 800 - 800 * 86 div 256"
  using hstcp_ssthresh_no_overflow [of "(sample_sk \<lparr>hstcp_ai = 6\<rparr>)\<lparr>snd_cwnd := 800\<rparr>" kernel_init]
  by (simp add: sample_sk_def hstcp_aimd_vals_def)

text \<open>
  The index that \<open>ssthresh\<close> reads is set by \<open>init\<close>; a timeout before the first acknowledgment reads the
  uncleared memory, and traps when the index found there is outside the table.
\<close>

lemma highspeed_uncleared_traps:
  "72 \<le> unat (hstcp_ai (icsk_ca_priv (linux_sk ag))) \<Longrightarrow> enter_loss tcp_highspeed k ag = None"
  by (simp add: enter_loss_def tcp_highspeed_def call_ssthresh_def hstcp_ssthresh_def touch_cwnd_def array_get_def
      hstcp_aimd_vals_def Let_def)

text \<open>
  a connection that runs HighSpeed TCP, on private memory whose index is inside the table (as in
  cleared memory), never indexes past the table nor traps otherwise,
  and keeps its window positive and within the bound it started with.
\<close>

theorem highspeed_runs_safe:
  assumes "\<not> initialized ag" and "win wb (linux_sk ag)" and "hstcp_ok (icsk_ca_priv (linux_sk ag))"
    and "run_env (\<lambda>_ _ _. True) (\<lambda>_ _ _. True) tcp_highspeed evs ag"
  shows "\<exists>ag'. agent_run tcp_highspeed evs ag = Some ag' \<and> win wb (linux_sk ag')"
  using assms by (intro highspeed.module_run_safe_from_start) (simp_all add: mod_live_def)

theorem highspeed_runs_safe_witness:
  "\<exists>ag'. agent_run tcp_highspeed sample_run (sample_agent \<lparr>hstcp_ai = 0\<rparr>) = Some ag'
     \<and> win (Some 1000) (linux_sk ag')"
proof (rule highspeed_runs_safe)
  show "hstcp_ok (icsk_ca_priv (linux_sk (sample_agent \<lparr>hstcp_ai = 0\<rparr>)))"
    by (simp add: sample_sk_def hstcp_ok_def)
qed (simp_all add: sample_win sample_run_env)

end
