(* ===== verification/Bic.thy ===== *)
theory Bic
  imports Window
begin

text \<open>
  Binary Increase Congestion control, src/ns-2.34/tcp/linux/src/tcp_bic.c: after a loss the
  window searches for the last maximum, in steps bounded by \<open>max_increment\<close>. The lemmas show
  the envelope of the delayed-acknowledgment ratio, that the update never divides by zero and
  always leaves a positive count, and that the multiplications stay within 32 bits for windows
  up to the bound of \<open>Window\<close>.
\<close>

section \<open>State and parameters\<close>

record bic_params =
  bic_fast_convergence :: s32
  bic_max_increment :: s32
  bic_low_window :: s32
  bic_beta :: s32
  bic_initial_ssthresh :: s32
  bic_smooth_part :: s32

definition bic_default :: bic_params where
  "bic_default = \<lparr> bic_fast_convergence = 1, bic_max_increment = 16, bic_low_window = 14,
     bic_beta = 819, bic_initial_ssthresh = 0, bic_smooth_part = 20 \<rparr>"

abbreviation (input) BICTCP_BETA_SCALE :: u32 where "BICTCP_BETA_SCALE \<equiv> 1024"
abbreviation (input) BICTCP_B :: u32 where "BICTCP_B \<equiv> 4"
abbreviation (input) ACK_RATIO_SHIFT :: nat where "ACK_RATIO_SHIFT \<equiv> 4"

record bictcp =
  bic_cnt :: u32
  bic_last_max_cwnd :: u32
  bic_loss_cwnd :: u32
  bic_last_cwnd :: u32
  bic_last_time :: u32
  bic_epoch_start :: u32
  bic_delayed_ack :: u32

section \<open>Operations\<close>

definition bictcp_reset :: "bictcp \<Rightarrow> bictcp" where
  "bictcp_reset ca = ca\<lparr>bic_cnt := 0, bic_last_max_cwnd := 0, bic_loss_cwnd := 0,
     bic_last_cwnd := 0, bic_last_time := 0, bic_epoch_start := 0,
     bic_delayed_ack := push_bit ACK_RATIO_SHIFT 2\<rparr>"

definition bictcp_init :: "bic_params \<Rightarrow> kernel \<Rightarrow> bictcp tcp_sock \<Rightarrow> bictcp tcp_sock option" where
  "bictcp_init p k tp =
    (let tp = tp\<lparr>icsk_ca_priv := bictcp_reset (icsk_ca_priv tp)\<rparr>
     in Some (if bic_initial_ssthresh p \<noteq> 0
              then tp\<lparr>snd_ssthresh := bic_initial_ssthresh p\<rparr> else tp))"

text \<open>The number of acknowledgments per segment, before the two corrections at the end.\<close>

definition bictcp_search :: "bic_params \<Rightarrow> u32 \<Rightarrow> u32 \<Rightarrow> u32 option" where
  "bictcp_search p last_max_cwnd cwnd =
    (if cwnd < last_max_cwnd
     then let dist = (last_max_cwnd - cwnd) div BICTCP_B
          in if bic_max_increment p < dist then cdiv cwnd (bic_max_increment p)
             else if dist \<le> 1 then Some ((cwnd * bic_smooth_part p) div BICTCP_B)
             else cdiv cwnd dist
     else if cwnd < last_max_cwnd + BICTCP_B
     then Some ((cwnd * bic_smooth_part p) div BICTCP_B)
     else if cwnd < last_max_cwnd + bic_max_increment p * (BICTCP_B - 1)
     then cdiv (cwnd * (BICTCP_B - 1)) (cwnd - last_max_cwnd)
     else cdiv cwnd (bic_max_increment p))"

definition bictcp_update :: "bic_params \<Rightarrow> kernel \<Rightarrow> bictcp \<Rightarrow> u32 \<Rightarrow> bictcp option" where
  "bictcp_update p k ca cwnd =
    (if bic_last_cwnd ca = cwnd
        \<and> sint (tcp_time_stamp k - bic_last_time ca) \<le> sint HZ div 32
     then Some ca
     else
       let ca = ca\<lparr>bic_last_cwnd := cwnd, bic_last_time := tcp_time_stamp k\<rparr>;
           ca = (if bic_epoch_start ca = 0 then ca\<lparr>bic_epoch_start := tcp_time_stamp k\<rparr> else ca)
       in if cwnd \<le> bic_low_window p then Some (ca\<lparr>bic_cnt := cwnd\<rparr>)
          else do {
            c \<leftarrow> bictcp_search p (bic_last_max_cwnd ca) cwnd;
            let c = (if bic_loss_cwnd ca = 0 \<and> 20 < c then 20 else c);
            c \<leftarrow> cdiv (push_bit ACK_RATIO_SHIFT c) (bic_delayed_ack ca);
            Some (ca\<lparr>bic_cnt := (if c = 0 then 1 else c)\<rparr>)
          })"

definition bictcp_cong_avoid ::
  "bic_params \<Rightarrow> u32 \<Rightarrow> u32 \<Rightarrow> u32 \<Rightarrow> s32 \<Rightarrow> kernel \<Rightarrow> bictcp tcp_sock \<Rightarrow> bictcp tcp_sock option" where
  "bictcp_cong_avoid p ack seq_rtt in_flight data_acked k tp =
    (if \<not> tcp_is_cwnd_limited tp in_flight then Some tp
     else if snd_cwnd tp \<le> snd_ssthresh tp then tcp_slow_start k tp
     else do {
       ca \<leftarrow> bictcp_update p k (icsk_ca_priv tp) (snd_cwnd tp);
       Some (count_up (bic_cnt ca) (tp\<lparr>icsk_ca_priv := ca\<rparr>))
     })"

definition bictcp_recalc_ssthresh ::
  "bic_params \<Rightarrow> kernel \<Rightarrow> bictcp tcp_sock \<Rightarrow> (u32 \<times> bictcp tcp_sock) option" where
  "bictcp_recalc_ssthresh p k tp =
    (let ca = (icsk_ca_priv tp)\<lparr>bic_epoch_start := 0\<rparr>;
         ca = ca\<lparr>bic_last_max_cwnd :=
           (if snd_cwnd tp < bic_last_max_cwnd ca \<and> bic_fast_convergence p \<noteq> 0
            then (snd_cwnd tp * (BICTCP_BETA_SCALE + bic_beta p)) div (2 * BICTCP_BETA_SCALE)
            else snd_cwnd tp)\<rparr>;
         ca = ca\<lparr>bic_loss_cwnd := snd_cwnd tp\<rparr>
     in Some (if snd_cwnd tp \<le> bic_low_window p then max (drop_bit 1 (snd_cwnd tp)) 2
              else max ((snd_cwnd tp * bic_beta p) div BICTCP_BETA_SCALE) 2,
              tp\<lparr>icsk_ca_priv := ca\<rparr>))"

definition bictcp_undo_cwnd :: "kernel \<Rightarrow> bictcp tcp_sock \<Rightarrow> (u32 \<times> bictcp tcp_sock) option" where
  "bictcp_undo_cwnd k tp = Some (max (snd_cwnd tp) (bic_last_max_cwnd (icsk_ca_priv tp)), tp)"

definition bictcp_state :: "u8 \<Rightarrow> kernel \<Rightarrow> bictcp tcp_sock \<Rightarrow> bictcp tcp_sock option" where
  "bictcp_state new_state k tp =
     Some (if new_state = TCP_CA_Loss
           then tp\<lparr>icsk_ca_priv := bictcp_reset (icsk_ca_priv tp)\<rparr> else tp)"

definition bictcp_acked :: "u32 \<Rightarrow> s64 \<Rightarrow> kernel \<Rightarrow> bictcp tcp_sock \<Rightarrow> bictcp tcp_sock option" where
  "bictcp_acked cnt t k tp =
     Some (if 0 < cnt \<and> icsk_ca_state tp = TCP_CA_Open
           then let ca = icsk_ca_priv tp;
                    cnt = cnt - drop_bit ACK_RATIO_SHIFT (bic_delayed_ack ca)
                in tp\<lparr>icsk_ca_priv := ca\<lparr>bic_delayed_ack := bic_delayed_ack ca + cnt\<rparr>\<rparr>
           else tp)"

definition bictcp_ops :: "bic_params \<Rightarrow> bictcp tcp_congestion_ops" where
  "bictcp_ops p = ops_null\<lparr>ca_init := Some (bictcp_init p),
     ca_ssthresh := Some (bictcp_recalc_ssthresh p), ca_cong_avoid := Some (bictcp_cong_avoid p),
     ca_set_state := Some bictcp_state, ca_undo_cwnd := Some bictcp_undo_cwnd,
     ca_pkts_acked := Some bictcp_acked, ca_name := ''bic''\<rparr>"

section \<open>The update\<close>

text \<open>
  With the default parameters, for any window and last maximum up to 1000000, the search is
  defined, and one segment per \<open>c\<close> acknowledgments is at most 16 segments per window
  (\<open>max_increment\<close>) and at least one per five windows.
\<close>

lemma bictcp_search_Some:
  assumes w: "cwnd \<le> WND_MAX" "last_max \<le> WND_MAX"
  shows "\<exists>c. bictcp_search bic_default last_max cwnd = Some c
    \<and> unat cwnd div 16 \<le> unat c \<and> unat c \<le> 5 * unat cwnd"
proof -
  have u: "unat cwnd \<le> 1000000" "unat last_max \<le> 1000000"
    using w by (simp_all add: WND_MAX_def word_le_nat_alt)
  have m: "unat (cwnd * 20) = 20 * unat cwnd" "unat (cwnd * 3) = 3 * unat cwnd"
    using u by (simp_all add: unat_mult_no_wrap)
  have s: "unat (last_max + 4) = unat last_max + 4" "unat (last_max + 48) = unat last_max + 48"
    using u by (simp_all add: unat_add_no_wrap)
  have smooth: "unat cwnd div 16 \<le> unat ((cwnd * 20) div 4) \<and> unat ((cwnd * 20) div 4) \<le> 5 * unat cwnd"
    by (simp add: unat_div_distrib m)
  have lin: "unat cwnd div 16 \<le> unat (cwnd div x) \<and> unat (cwnd div x) \<le> 5 * unat cwnd"
    if "x \<le> 16" "x \<noteq> 0" for x
  proof -
    have x: "0 < unat x" "unat x \<le> 16" using that by (simp_all add: word_le_nat_alt unat_gt_0)
    then have "unat cwnd div 16 \<le> unat cwnd div unat x" by (intro div_le_mono2) auto
    moreover have "unat cwnd div unat x \<le> unat cwnd" by (rule div_le_dividend)
    then have "unat cwnd div unat x \<le> 5 * unat cwnd" by linarith
    ultimately show ?thesis by (simp add: unat_div_distrib)
  qed
  have amd: "unat cwnd div 16 \<le> unat ((cwnd * 3) div x) \<and> unat ((cwnd * 3) div x) \<le> 5 * unat cwnd"
    if "x < 48" "x \<noteq> 0" for x
  proof -
    have x: "0 < unat x" "unat x \<le> 48" using that by (simp_all add: word_less_nat_alt unat_gt_0)
    then have "3 * unat cwnd div 48 \<le> 3 * unat cwnd div unat x" by (intro div_le_mono2) auto
    moreover have "3 * unat cwnd div unat x \<le> 3 * unat cwnd" by (rule div_le_dividend)
    then have "3 * unat cwnd div unat x \<le> 5 * unat cwnd" by linarith
    ultimately show ?thesis by (simp add: unat_div_distrib m)
  qed
  show ?thesis
  proof (cases "cwnd < last_max")
    case True
    let ?d = "(last_max - cwnd) div 4"
    show ?thesis
    proof (cases "16 < ?d \<or> ?d \<le> 1")
      case True
      with \<open>cwnd < last_max\<close> lin [of 16] smooth show ?thesis
        by (auto simp: bictcp_search_def bic_default_def Let_def)
    next
      case False
      then have "?d \<le> 16" "?d \<noteq> 0" by auto
      from lin [OF this] this False \<open>cwnd < last_max\<close> show ?thesis
        by (auto simp: bictcp_search_def bic_default_def Let_def)
    qed
  next
    case False
    show ?thesis
    proof (cases "\<not> cwnd < last_max + 4 \<and> cwnd < last_max + 48")
      case True
      then have d: "cwnd - last_max < 48" "cwnd - last_max \<noteq> 0"
        using s False by (auto simp: word_less_nat_alt unat_minus_le word_le_nat_alt not_less)
      from amd [OF d] d(2) True False show ?thesis
        by (auto simp: bictcp_search_def bic_default_def)
    next
      case no: False
      with False lin [of 16] smooth show ?thesis
        by (auto simp: bictcp_search_def bic_default_def)
    qed
  qed
qed

definition bic_ok :: "u32 \<Rightarrow> bictcp \<Rightarrow> bool" where
  "bic_ok L ca \<longleftrightarrow> bic_last_max_cwnd ca \<le> L
     \<and> 16 \<le> bic_delayed_ack ca \<and> bic_delayed_ack ca \<le> 16 * WND_MAX"

lemma bictcp_update_Some:
  assumes "cwnd \<le> WND_MAX" and "bic_last_max_cwnd ca \<le> WND_MAX" and "bic_delayed_ack ca \<noteq> 0"
  shows "\<exists>ca'. bictcp_update bic_default k ca cwnd = Some ca'
    \<and> bic_last_max_cwnd ca' = bic_last_max_cwnd ca \<and> bic_delayed_ack ca' = bic_delayed_ack ca
    \<and> bic_loss_cwnd ca' = bic_loss_cwnd ca"
proof -
  obtain c where "bictcp_search bic_default (bic_last_max_cwnd ca) cwnd = Some c"
    using bictcp_search_Some [OF assms(1,2)] by blast
  with assms(3) show ?thesis
    by (auto simp: bictcp_update_def Let_def)
qed

section \<open>The module\<close>

lemma bic_ok_update:
  assumes "bic_ok L ca" and "L \<le> WND_MAX" and "cwnd \<le> L"
  shows "\<exists>ca'. bictcp_update bic_default k ca cwnd = Some ca' \<and> bic_ok L ca'"
proof -
  have "bic_delayed_ack ca \<noteq> 0" using assms(1) by (auto simp: bic_ok_def)
  moreover have "bic_last_max_cwnd ca \<le> WND_MAX" "cwnd \<le> WND_MAX"
    using assms by (auto simp: bic_ok_def intro: order.trans)
  ultimately show ?thesis
    using bictcp_update_Some [of cwnd ca k] assms(1) by (auto simp: bic_ok_def)
qed

lemma bic_ok_acked:
  assumes "bic_ok L (icsk_ca_priv sk)" and "n \<le> WND_MAX"
  shows "\<exists>ca. bictcp_acked n t k sk = Some (sk\<lparr>icsk_ca_priv := ca\<rparr>) \<and> bic_ok L ca"
proof (cases "0 < n \<and> icsk_ca_state sk = TCP_CA_Open")
  case True
  let ?d = "bic_delayed_ack (icsk_ca_priv sk)"
  have "16 \<le> unat ?d" "unat ?d \<le> 16 * 1000000" "1 \<le> unat n" "unat n \<le> 1000000"
    using assms True by (auto simp: bic_ok_def WND_MAX_def word_le_nat_alt word_less_nat_alt)
  from ratio_step(2,3) [OF this] assms(1) True show ?thesis
    by (intro exI [of _ "(icsk_ca_priv sk)\<lparr>bic_delayed_ack := ?d + (n - drop_bit 4 ?d)\<rparr>"])
      (auto simp: bictcp_acked_def Let_def bic_ok_def WND_MAX_def word_le_nat_alt)
next
  case False
  with assms(1) show ?thesis
    by (intro exI [of _ "icsk_ca_priv sk"]) (auto simp: bictcp_acked_def)
qed

lemma bic_recalc:
  assumes "unat (snd_cwnd sk) \<le> 1000000"
  shows "\<exists>v ca. bictcp_recalc_ssthresh bic_default k sk = Some (v, sk\<lparr>icsk_ca_priv := ca\<rparr>)
    \<and> 2 \<le> v \<and> v \<le> max (snd_cwnd sk) 2 \<and> bic_last_max_cwnd ca \<le> snd_cwnd sk
    \<and> bic_delayed_ack ca = bic_delayed_ack (icsk_ca_priv sk)"
proof -
  have m: "(snd_cwnd sk * 819) div 1024 \<le> snd_cwnd sk" "(snd_cwnd sk * 1843) div 2048 \<le> snd_cwnd sk"
    using assms by (intro scaled_le; simp)+
  from max2_bounds [OF m(1)] reno_ssthresh_bounds [of "snd_cwnd sk"] m(2) show ?thesis
    by (simp add: bictcp_recalc_ssthresh_def bic_default_def Let_def)
qed

interpretation bic: cong_module "bictcp_ops bic_default" "Some L" "\<lambda>_. True" "bic_ok L" "\<lambda>_ _ _. True"
  "\<lambda>k n t. n \<le> WND_MAX" for L
proof (unfold_locales, goal_cases)
  case (1 sk k)
  then show ?case
    by (auto simp: bictcp_ops_def ops_null_def bictcp_init_def bictcp_reset_def bic_default_def
        mod_live_def bic_ok_def WND_MAX_def)
next
  case (2 sk k)
  then have w: "unat (snd_cwnd sk) \<le> 1000000" "snd_cwnd sk \<le> L"
    by (auto simp: mod_live_def win_defs WND_MAX_def word_le_nat_alt)
  from bic_recalc [OF w(1), of k] w(2) mod_live_simps(5) [OF 2] show ?case
    by (auto simp: bictcp_ops_def call_ssthresh_def bic_ok_def)
next
  case (3 sk)
  then show ?case
    by (auto simp: bictcp_ops_def ops_null_def call_min_cwnd_def word_pos_iff)
next
  case (4 sk k ack rtt infl good)
  have "\<exists>ca. bictcp_update bic_default k (icsk_ca_priv sk) (snd_cwnd sk) = Some ca \<and> bic_ok L ca"
    using 4(1) by (intro bic_ok_update) (auto simp: mod_live_def win_defs)
  then obtain ca where ca: "bictcp_update bic_default k (icsk_ca_priv sk) (snd_cwnd sk) = Some ca"
    "bic_ok L ca" by blast
  have "mod_live (Some L) (bic_ok L) (count_up c (sk\<lparr>icsk_ca_priv := ca\<rparr>))" for c
    using mod_live_simps(6) [OF 4(1)] ca(2) by (intro count_up_live) simp
  with slow_start_live [OF 4(1)] 4(1) ca show ?case
    by (simp add: bictcp_ops_def call_cong_avoid_def bictcp_cong_avoid_def)
next
  case (5 sk s k)
  then show ?case
    by (auto simp: bictcp_ops_def ops_null_def bictcp_state_def bictcp_reset_def mod_live_def bic_ok_def
        WND_MAX_def)
next
  case (7 sk k n t)
  with bic_ok_acked [of L sk n t k] mod_live_simps [OF 7(1)] show ?case
    by (auto simp: bictcp_ops_def)
next
  case (9 sk k)
  then have "unat (snd_cwnd sk) \<le> 1000000"
    by (auto simp: win_defs WND_MAX_def word_le_nat_alt)
  from bic_recalc [OF this, of k] show ?case by (auto simp: bictcp_ops_def call_ssthresh_def)
next
  case (11 sk k)
  then show ?case by (simp add: bictcp_ops_def bictcp_state_def)
qed (simp_all add: bictcp_ops_def ops_null_def)

section \<open>Properties\<close>

text \<open>
  the search of BIC with its default parameters, for windows up to 1000000: it is defined
  (no division by zero), nothing overflows, and the count it returns lets the window grow by at
  most \<open>max_increment = 16\<close> segments and at least a fifth of a segment per window acknowledged.
\<close>

theorem bic_search_rate:
  assumes "cwnd \<le> WND_MAX" and "last_max \<le> WND_MAX"
  shows "\<exists>c. bictcp_search bic_default last_max cwnd = Some c
    \<and> unat cwnd div 16 \<le> unat c \<and> unat c \<le> 5 * unat cwnd"
  using assms by (rule bictcp_search_Some)

theorem bic_search_rate_witness:
  "\<exists>c. bictcp_search bic_default 1200 1000 = Some c \<and> 62 \<le> unat c \<and> unat c \<le> 5000"
  using bic_search_rate [of 1000 1200] by (auto simp: WND_MAX_def)

text \<open>
  the delayed-acknowledgment ratio of BIC: a report of \<open>n\<close> packets in the Open state
  replaces the ratio \<open>r\<close> by \<open>r - r/16 + n\<close> without wrap-around, and keeps it between 16 (one
  packet per acknowledgment) and 16 times the largest report.
\<close>

theorem bic_ratio_envelope:
  assumes "icsk_ca_state sk = TCP_CA_Open" and "n \<noteq> 0" and "unat n \<le> M" and "M \<le> 1000000"
    and "16 \<le> unat (bic_delayed_ack (icsk_ca_priv sk))"
    and "unat (bic_delayed_ack (icsk_ca_priv sk)) \<le> 16 * M"
  defines "r \<equiv> unat (bic_delayed_ack (icsk_ca_priv sk))"
  shows "\<exists>sk'. bictcp_acked n t k sk = Some sk'
    \<and> unat (bic_delayed_ack (icsk_ca_priv sk')) = r - r div 16 + unat n
    \<and> 16 \<le> unat (bic_delayed_ack (icsk_ca_priv sk'))
    \<and> unat (bic_delayed_ack (icsk_ca_priv sk')) \<le> 16 * M"
proof -
  have "1 \<le> unat n" using assms(2) by (simp add: Suc_le_eq unat_gt_0)
  from ratio_step [OF assms(5,6) this assms(3,4)] assms(1,2) show ?thesis
    by (simp add: bictcp_acked_def Let_def r_def word_pos_iff)
qed

definition sample_bic :: bictcp where
  "sample_bic = \<lparr> bic_cnt = 0, bic_last_max_cwnd = 0, bic_loss_cwnd = 0, bic_last_cwnd = 0,
     bic_last_time = 0, bic_epoch_start = 0, bic_delayed_ack = 32 \<rparr>"

theorem bic_ratio_envelope_witness:
  "\<exists>sk'. bictcp_acked 4 0 kernel_init (sample_sk sample_bic) = Some sk'
    \<and> unat (bic_delayed_ack (icsk_ca_priv sk')) = 34"
  using bic_ratio_envelope [of "sample_sk sample_bic" 4 4 0 kernel_init]
  by (auto simp: sample_sk_def sample_bic_def)

text \<open>
  a connection that runs BIC with its default parameters and starts with window, threshold
  and clamp at most \<open>L \<le> 1000000\<close>, where no acknowledgment reports more than 1000000 packets,
  never divides by zero nor traps otherwise, and keeps them within \<open>L\<close> and its window positive.
\<close>

theorem bic_runs_safe:
  assumes "\<not> initialized ag" and "win (Some L) (linux_sk ag)"
    and "run_env (\<lambda>_ _ _. True) (\<lambda>k n t. n \<le> WND_MAX) (bictcp_ops bic_default) evs ag"
  shows "\<exists>ag'. agent_run (bictcp_ops bic_default) evs ag = Some ag' \<and> win (Some L) (linux_sk ag')"
  using assms by (intro bic.module_run_safe_from_start) simp_all

theorem bic_runs_safe_witness:
  "\<exists>ag'. agent_run (bictcp_ops bic_default) sample_run (sample_agent sample_bic) = Some ag'
     \<and> win (Some 1000) (linux_sk ag')"
  by (rule bic_runs_safe) (simp_all add: sample_win sample_run_env WND_MAX_def)

end
