(* ===== verification/Cubic.thy ===== *)
theory Cubic
  imports Window
begin

text \<open>
  CUBIC, src/ns-2.34/tcp/linux/src/tcp_cubic.c: the window follows a cubic function of the time
  since the last loss, computed with a fixed-point cube root, and never slower than a Reno
  connection would (\<open>tcp_friendliness\<close>). The functions of the file are named like those of BIC;
  here they start with \<open>cubictcp\<close>. The lemmas show that the cube root neither leaves its table nor
  divides by zero on any 64-bit input, where the cubic function is free of overflow, what the
  friendliness loop computes, and that an update with round trips below 100 seconds never traps.
\<close>

section \<open>State and parameters\<close>

record cubic_params =
  cu_fast_convergence :: s32
  cu_max_increment :: s32
  cu_beta :: s32
  cu_initial_ssthresh :: s32
  cu_bic_scale :: s32
  cu_tcp_friendliness :: s32
  cube_rtt_scale :: u32
  beta_scale :: u32
  cube_factor :: u64

definition cubic_default :: cubic_params where
  "cubic_default = \<lparr> cu_fast_convergence = 1, cu_max_increment = 16, cu_beta = 819,
     cu_initial_ssthresh = 0, cu_bic_scale = 41, cu_tcp_friendliness = 1,
     cube_rtt_scale = 0, beta_scale = 0, cube_factor = 0 \<rparr>"

abbreviation (input) BICTCP_BETA_SCALE :: u32 where "BICTCP_BETA_SCALE \<equiv> 1024"
abbreviation (input) BICTCP_HZ :: nat where "BICTCP_HZ \<equiv> 10"
abbreviation (input) ACK_RATIO_SHIFT :: nat where "ACK_RATIO_SHIFT \<equiv> 4"

record cubictcp =
  cu_cnt :: u32
  cu_last_max_cwnd :: u32
  cu_loss_cwnd :: u32
  cu_last_cwnd :: u32
  cu_last_time :: u32
  cu_bic_origin_point :: u32
  cu_bic_K :: u32
  cu_delay_min :: u32
  cu_epoch_start :: u32
  cu_ack_cnt :: u32
  cu_tcp_cwnd :: u32
  cu_delayed_ack :: u32

section \<open>Registration\<close>

text \<open>The scale factors that registration computes from the parameters.\<close>

definition cubictcp_register :: "cubic_params \<Rightarrow> cubic_params option" where
  "cubictcp_register p = do {
     b \<leftarrow> csdiv (8 * (BICTCP_BETA_SCALE + cu_beta p)) 3;
     b \<leftarrow> csdiv b (BICTCP_BETA_SCALE - cu_beta p);
     let p = p\<lparr>beta_scale := b\<rparr>;
     let p = p\<lparr>cube_rtt_scale := cu_bic_scale p * 10\<rparr>;
     let p = p\<lparr>cube_factor := push_bit (10 + 3 * BICTCP_HZ) 1\<rparr>;
     f \<leftarrow> do_div (cube_factor p) (cu_bic_scale p * 10);
     Some (p\<lparr>cube_factor := f\<rparr>)
   }"

definition cubic_loaded :: cubic_params where
  "cubic_loaded = cubic_default\<lparr>beta_scale := 23, cube_rtt_scale := 410,
     cube_factor := 2681735677\<rparr>"

section \<open>Cube root\<close>

definition cubic_v :: "u8 list" where
  "cubic_v = [
      0,   54,   54,   54,  118,  118,  118,  118,
    123,  129,  134,  138,  143,  147,  151,  156,
    157,  161,  164,  168,  170,  173,  176,  179,
    181,  185,  187,  190,  192,  194,  197,  199,
    200,  202,  204,  206,  209,  211,  213,  215,
    217,  219,  221,  222,  224,  225,  227,  229,
    231,  232,  234,  236,  237,  239,  240,  242,
    244,  245,  246,  248,  250,  251,  252,  254
  ]"

text \<open>The first estimate: a table lookup on the leading bits.\<close>

definition cubic_root_estimate :: "u64 \<Rightarrow> u32 \<Rightarrow> u32 option" where
  "cubic_root_estimate a b = do {
     let b = drop_bit 8 (b * 84) - 1;
     shift \<leftarrow> (if unat (b * 3) < 64 then Some (ucast (drop_bit (unat (b * 3)) a)) else None);
     v \<leftarrow> array_get cubic_v shift;
     y \<leftarrow> shl_int (ucast v + 10) b;
     Some (drop_bit 6 y)
   }"

definition cubic_root :: "u64 \<Rightarrow> u32 option" where
  "cubic_root a =
    (let b = word_of_int (fls64 a) :: u32
     in if b < 7
        then map_option (\<lambda>v. drop_bit 6 (ucast v + 35)) (array_get cubic_v (ucast a))
        else do {
          x \<leftarrow> cubic_root_estimate a b;
          q \<leftarrow> div64_64 a (ucast x * ucast (x - 1));
          let x = 2 * x + ucast q;
          Some (drop_bit 10 (x * 341))
        })"

section \<open>Operations\<close>

definition cubictcp_reset :: "cubictcp \<Rightarrow> cubictcp" where
  "cubictcp_reset ca = ca\<lparr>cu_cnt := 0, cu_last_max_cwnd := 0, cu_loss_cwnd := 0,
     cu_last_cwnd := 0, cu_last_time := 0, cu_bic_origin_point := 0, cu_bic_K := 0,
     cu_delay_min := 0, cu_epoch_start := 0, cu_delayed_ack := push_bit ACK_RATIO_SHIFT 2,
     cu_ack_cnt := 0, cu_tcp_cwnd := 0\<rparr>"

definition cubictcp_init ::
  "cubic_params \<Rightarrow> kernel \<Rightarrow> cubictcp tcp_sock \<Rightarrow> cubictcp tcp_sock option" where
  "cubictcp_init p k tp =
    (let tp = tp\<lparr>icsk_ca_priv := cubictcp_reset (icsk_ca_priv tp)\<rparr>
     in Some (if cu_initial_ssthresh p \<noteq> 0
              then tp\<lparr>snd_ssthresh := cu_initial_ssthresh p\<rparr> else tp))"

text \<open>The beginning of an epoch: the origin of the cubic function and the time to reach it.\<close>

definition cubic_epoch ::
  "cubic_params \<Rightarrow> kernel \<Rightarrow> u32 \<Rightarrow> cubictcp \<Rightarrow> cubictcp option" where
  "cubic_epoch p k cwnd ca =
    (if cu_epoch_start ca = 0
     then let ca = ca\<lparr>cu_epoch_start := tcp_time_stamp k, cu_ack_cnt := 1, cu_tcp_cwnd := cwnd\<rparr>
          in if cu_last_max_cwnd ca \<le> cwnd
             then Some (ca\<lparr>cu_bic_K := 0, cu_bic_origin_point := cwnd\<rparr>)
             else do {
               r \<leftarrow> cubic_root (cube_factor p * ucast (cu_last_max_cwnd ca - cwnd));
               Some (ca\<lparr>cu_bic_K := r, cu_bic_origin_point := cu_last_max_cwnd ca\<rparr>)
             }
     else Some ca)"

text \<open>The time of the cubic function, in units of 1/1024 s, and its value.\<close>

definition cubic_time :: "kernel \<Rightarrow> cubictcp \<Rightarrow> u32" where
  "cubic_time k ca =
    (push_bit BICTCP_HZ (tcp_time_stamp k + drop_bit 3 (cu_delay_min ca) - cu_epoch_start ca)) div HZ"

definition cubic_delta :: "cubic_params \<Rightarrow> u32 \<Rightarrow> u32 \<Rightarrow> u32" where
  "cubic_delta p bic_K t =
    (let offs = (if t < bic_K then ucast (bic_K - t) else ucast (t - bic_K)) :: u64
     in ucast (drop_bit (10 + 3 * BICTCP_HZ) (ucast (cube_rtt_scale p) * offs * offs * offs)))"

definition cubic_target :: "cubic_params \<Rightarrow> cubictcp \<Rightarrow> u32 \<Rightarrow> u32" where
  "cubic_target p ca t =
    (if t < cu_bic_K ca then cu_bic_origin_point ca - cubic_delta p (cu_bic_K ca) t
     else cu_bic_origin_point ca + cubic_delta p (cu_bic_K ca) t)"

text \<open>The count that leads to the target, with its upper and lower corrections.\<close>

definition cubic_count ::
  "cubic_params \<Rightarrow> cubictcp \<Rightarrow> u32 \<Rightarrow> u32 \<Rightarrow> u32 option" where
  "cubic_count p ca cwnd t = do {
     let bic_target = cubic_target p ca t;
     cnt \<leftarrow> (if cwnd < bic_target then cdiv cwnd (bic_target - cwnd) else Some (100 * cwnd));
     cnt \<leftarrow> (if 0 < cu_delay_min ca
            then do {
              min_cnt \<leftarrow> cdiv (cwnd * HZ * 8) (10 * cu_max_increment p * cu_delay_min ca);
              Some (if cnt < min_cnt \<and> cu_bic_K ca \<le> t then min_cnt else cnt)
            }
            else Some cnt);
     Some (if cu_loss_cwnd ca = 0 then 50 else cnt)
   }"

text \<open>The \<open>while\<close> loop that advances the estimate of Reno's window.\<close>

partial_function (option) friendly_loop :: "u32 \<Rightarrow> u32 \<Rightarrow> u32 \<Rightarrow> (u32 \<times> u32) option" where
  "friendly_loop delta ack_cnt cwnd =
    (if delta < ack_cnt then friendly_loop delta (ack_cnt - delta) (cwnd + 1)
     else Some (ack_cnt, cwnd))"

definition cubic_friendly :: "cubic_params \<Rightarrow> u32 \<Rightarrow> cubictcp \<Rightarrow> cubictcp option" where
  "cubic_friendly p cwnd ca =
    (if cu_tcp_friendliness p \<noteq> 0
     then do {
       (a, w) \<leftarrow> friendly_loop (drop_bit 3 (cwnd * beta_scale p)) (cu_ack_cnt ca) (cu_tcp_cwnd ca);
       let ca = ca\<lparr>cu_ack_cnt := a, cu_tcp_cwnd := w\<rparr>;
       if cwnd < cu_tcp_cwnd ca
       then do {
         max_cnt \<leftarrow> cdiv cwnd (cu_tcp_cwnd ca - cwnd);
         Some (if max_cnt < cu_cnt ca then ca\<lparr>cu_cnt := max_cnt\<rparr> else ca)
       }
       else Some ca
     }
     else Some ca)"

definition cubictcp_update ::
  "cubic_params \<Rightarrow> kernel \<Rightarrow> cubictcp \<Rightarrow> u32 \<Rightarrow> cubictcp option" where
  "cubictcp_update p k ca cwnd =
    (let ca = ca\<lparr>cu_ack_cnt := cu_ack_cnt ca + 1\<rparr>
     in if cu_last_cwnd ca = cwnd
           \<and> sint (tcp_time_stamp k - cu_last_time ca) \<le> sint HZ div 32
        then Some ca
        else do {
          let ca = ca\<lparr>cu_last_cwnd := cwnd, cu_last_time := tcp_time_stamp k\<rparr>;
          ca \<leftarrow> cubic_epoch p k cwnd ca;
          c \<leftarrow> cubic_count p ca cwnd (cubic_time k ca);
          ca \<leftarrow> cubic_friendly p cwnd (ca\<lparr>cu_cnt := c\<rparr>);
          c \<leftarrow> cdiv (push_bit ACK_RATIO_SHIFT (cu_cnt ca)) (cu_delayed_ack ca);
          Some (ca\<lparr>cu_cnt := (if c = 0 then 1 else c)\<rparr>)
        })"

definition measure_delay :: "kernel \<Rightarrow> cubictcp tcp_sock \<Rightarrow> cubictcp tcp_sock" where
  "measure_delay k tp =
    (let ca = icsk_ca_priv tp
     in if \<not> (saw_tstamp (rx_opt tp) \<and> rcv_tsecr (rx_opt tp) \<noteq> 0)
           \<or> sint (tcp_time_stamp k - cu_epoch_start ca) < sint HZ
        then tp
        else
          let delay = push_bit 3 (tcp_time_stamp k - rcv_tsecr (rx_opt tp));
              delay = (if delay = 0 then 1 else delay)
          in if cu_delay_min ca = 0 \<or> delay < cu_delay_min ca
             then tp\<lparr>icsk_ca_priv := ca\<lparr>cu_delay_min := delay\<rparr>\<rparr> else tp)"

definition cubictcp_cong_avoid ::
  "cubic_params \<Rightarrow> u32 \<Rightarrow> u32 \<Rightarrow> u32 \<Rightarrow> s32 \<Rightarrow> kernel \<Rightarrow> cubictcp tcp_sock
    \<Rightarrow> cubictcp tcp_sock option" where
  "cubictcp_cong_avoid p ack seq_rtt in_flight data_acked k tp =
    (let tp = (if data_acked \<noteq> 0 then measure_delay k tp else tp)
     in if \<not> tcp_is_cwnd_limited tp in_flight then Some tp
        else if snd_cwnd tp \<le> snd_ssthresh tp then tcp_slow_start k tp
        else do {
          ca \<leftarrow> cubictcp_update p k (icsk_ca_priv tp) (snd_cwnd tp);
          Some (count_up (cu_cnt ca) (tp\<lparr>icsk_ca_priv := ca\<rparr>))
        })"

definition cubictcp_recalc_ssthresh ::
  "cubic_params \<Rightarrow> kernel \<Rightarrow> cubictcp tcp_sock \<Rightarrow> (u32 \<times> cubictcp tcp_sock) option" where
  "cubictcp_recalc_ssthresh p k tp =
    (let ca = (icsk_ca_priv tp)\<lparr>cu_epoch_start := 0\<rparr>;
         ca = ca\<lparr>cu_last_max_cwnd :=
           (if snd_cwnd tp < cu_last_max_cwnd ca \<and> cu_fast_convergence p \<noteq> 0
            then (snd_cwnd tp * (BICTCP_BETA_SCALE + cu_beta p)) div (2 * BICTCP_BETA_SCALE)
            else snd_cwnd tp)\<rparr>;
         ca = ca\<lparr>cu_loss_cwnd := snd_cwnd tp\<rparr>
     in Some (max ((snd_cwnd tp * cu_beta p) div BICTCP_BETA_SCALE) 2, tp\<lparr>icsk_ca_priv := ca\<rparr>))"

definition cubictcp_undo_cwnd ::
  "kernel \<Rightarrow> cubictcp tcp_sock \<Rightarrow> (u32 \<times> cubictcp tcp_sock) option" where
  "cubictcp_undo_cwnd k tp = Some (max (snd_cwnd tp) (cu_last_max_cwnd (icsk_ca_priv tp)), tp)"

definition cubictcp_state :: "u8 \<Rightarrow> kernel \<Rightarrow> cubictcp tcp_sock \<Rightarrow> cubictcp tcp_sock option" where
  "cubictcp_state new_state k tp =
     Some (if new_state = TCP_CA_Loss
           then tp\<lparr>icsk_ca_priv := cubictcp_reset (icsk_ca_priv tp)\<rparr> else tp)"

definition cubictcp_acked ::
  "u32 \<Rightarrow> s64 \<Rightarrow> kernel \<Rightarrow> cubictcp tcp_sock \<Rightarrow> cubictcp tcp_sock option" where
  "cubictcp_acked cnt t k tp =
     Some (if 0 < cnt \<and> icsk_ca_state tp = TCP_CA_Open
           then let ca = icsk_ca_priv tp;
                    cnt = cnt - drop_bit ACK_RATIO_SHIFT (cu_delayed_ack ca)
                in tp\<lparr>icsk_ca_priv := ca\<lparr>cu_delayed_ack := cu_delayed_ack ca + cnt\<rparr>\<rparr>
           else tp)"

definition cubictcp_ops :: "cubic_params \<Rightarrow> cubictcp tcp_congestion_ops" where
  "cubictcp_ops p = ops_null\<lparr>ca_init := Some (cubictcp_init p),
     ca_ssthresh := Some (cubictcp_recalc_ssthresh p),
     ca_cong_avoid := Some (cubictcp_cong_avoid p), ca_set_state := Some cubictcp_state,
     ca_undo_cwnd := Some cubictcp_undo_cwnd, ca_pkts_acked := Some cubictcp_acked,
     ca_name := ''cubic''\<rparr>"

section \<open>The cube root\<close>

text \<open>
  The table index of the estimate: the number of bits taken off is a multiple of three that
  leaves four to six bits, so the index is at least 8 and below 64.
\<close>

lemma cubic_bits:
  assumes "7 \<le> n" and "n \<le> (64 :: nat)"
  defines "b \<equiv> n * 84 div 256 - 1"
  shows "1 \<le> b" and "b \<le> 20" and "3 * b + 4 \<le> n" and "n \<le> 3 * b + 6"
  using assms by linarith+

lemma cubic_index:
  assumes "64 \<le> a" and "a < (2::nat) ^ 64"
  defines "b \<equiv> bit_length a * 84 div 256 - 1"
  shows "1 \<le> b" and "b \<le> 20" and "8 \<le> a div 2 ^ (3 * b)" and "a div 2 ^ (3 * b) < 64"
proof -
  let ?n = "bit_length a"
  have ab: "2 ^ (?n - 1) \<le> a" "a < 2 ^ ?n" using bit_length_bounds [of a] assms(1) by auto
  have n: "7 \<le> ?n"
  proof (rule ccontr)
    assume "\<not> 7 \<le> ?n"
    then have "(2::nat) ^ ?n \<le> 2 ^ 6" by (intro power_increasing) auto
    with ab(2) assms(1) show False by simp
  qed
  have "?n \<le> 64"
  proof (rule ccontr)
    assume "\<not> ?n \<le> 64"
    then have "(2::nat) ^ 64 \<le> 2 ^ (?n - 1)" by (intro power_increasing) auto
    with ab(1) assms(2) show False by simp
  qed
  note b = cubic_bits [OF n this, folded b_def]
  from b show "1 \<le> b" "b \<le> 20" by auto
  have "(2::nat) ^ (3 * b) * 8 = 2 ^ (3 * b + 3)" by (simp add: power_add)
  also have "\<dots> \<le> 2 ^ (?n - 1)" using b by (intro power_increasing) auto
  also have "\<dots> \<le> a" by (rule ab)
  finally show "8 \<le> a div 2 ^ (3 * b)" by (simp add: less_eq_div_iff_mult_less_eq mult.commute)
  have "(2::nat) ^ ?n \<le> 2 ^ (3 * b + 6)" using b by (intro power_increasing) auto
  with ab(2) have "a < 64 * 2 ^ (3 * b)" by (simp add: power_add)
  then show "a div 2 ^ (3 * b) < 64" by (rule less_mult_imp_div_less)
qed

lemma cubic_v_props:
  "length cubic_v = 64" "8 \<le> i \<Longrightarrow> i < 64 \<Longrightarrow> 123 \<le> cubic_v ! i"
proof -
  show l: "length cubic_v = 64" by (simp add: cubic_v_def)
  have "list_all (\<lambda>v. 123 \<le> v) (drop 8 cubic_v)" by (simp add: cubic_v_def)
  then have "\<forall>n < 56. 123 \<le> cubic_v ! (8 + n)" by (simp add: list_all_length l)
  from this [rule_format, of "i - 8"]
  show "8 \<le> i \<Longrightarrow> i < 64 \<Longrightarrow> 123 \<le> cubic_v ! i" by simp
qed

lemma unat_ucast_u8: "unat (ucast (v :: u8) :: u32) = unat v"
  using unsigned_less [of v, where 'a = nat]
  by (simp add: unsigned_ucast_eq take_bit_nat_eq_self_iff)

lemma unat_fls64: "unat (word_of_int (fls64 a) :: u32) = bit_length (unat a)"
proof -
  have "bit_length (unat a) \<le> 64"
  proof (rule ccontr)
    assume "\<not> bit_length (unat a) \<le> 64"
    then have "(2::nat) ^ 64 \<le> 2 ^ (bit_length (unat a) - 1)" by (intro power_increasing) auto
    also have "\<dots> \<le> unat a"
      using \<open>\<not> bit_length (unat a) \<le> 64\<close> bit_length_bounds [of "unat a"] by (cases "unat a = 0") auto
    finally show False using unsigned_less [of a, where 'a = nat] by simp
  qed
  then show ?thesis by (simp add: fls64_eq_bit_length unsigned_of_nat take_bit_nat_eq_self_iff)
qed

text \<open>
  The estimate in arithmetic: for \<open>a \<ge> 64\<close> it is defined, at least 4, and far from overflow.
\<close>

lemma cubic_root_estimate_Some:
  assumes "64 \<le> unat a"
  defines "b \<equiv> bit_length (unat a) * 84 div 256 - 1"
  shows "\<exists>x. cubic_root_estimate a (word_of_int (fls64 a)) = Some x
    \<and> unat x = (unat (cubic_v ! (unat a div 2 ^ (3 * b))) + 10) * 2 ^ b div 64
    \<and> 4 \<le> unat x \<and> unat x < 2 ^ 23"
proof -
  have a64: "unat a < 2 ^ 64" using unsigned_less [of a, where 'a = nat] by simp
  note idx = cubic_index [OF assms(1) a64, folded b_def]
  let ?n = "word_of_int (fls64 a) :: u32" and ?s = "unat a div 2 ^ (3 * b)"
  let ?v = "cubic_v ! ?s"
  define w where "w = drop_bit 8 (word_of_int (fls64 a) * 84) - (1 :: u32)"
  have n: "bit_length (unat a) * 84 < 4294967296"
    using idx(2) unfolding b_def by linarith
  have "unat (?n * 84) = bit_length (unat a) * 84"
    using n by (simp add: unat_mult_no_wrap unat_fls64)
  then have q: "unat (drop_bit 8 (?n * 84)) = bit_length (unat a) * 84 div 256"
    by (simp add: unat_shr)
  then have b: "unat w = b" using idx(1) unfolding b_def w_def
    by (subst unat_minus_le) (auto simp: word_le_nat_alt)
  have b3: "unat (w * 3) = 3 * b" using unat_mult_no_wrap [of w 3] idx(2) unfolding b by simp
  have s: "unat (ucast (drop_bit (unat (w * 3)) a) :: u32) = ?s"
    using idx(4) by (simp add: b3 unat_low_word unat_shr)
  have v: "array_get cubic_v (ucast (drop_bit (unat (w * 3)) a)) = Some ?v"
    using idx(4) by (simp add: array_get_Some cubic_v_props(1) s)
  have v123: "123 \<le> unat ?v" using cubic_v_props(2) [OF idx(3,4)] by (simp add: word_le_nat_alt)
  have v256: "unat ?v < 256" using unsigned_less [of ?v, where 'a = nat] by simp
  have y: "unat (ucast ?v + 10 :: u32) = unat ?v + 10"
    using v256 by (subst unat_add_no_wrap) (simp_all add: unat_ucast_u8)
  have p2: "(2::nat) \<le> 2 ^ b" "(2::nat) ^ b \<le> 2 ^ 20"
    using idx(1,2) power_increasing [of b 20 "2::nat"] by (auto simp: self_le_power)
  have up: "(unat ?v + 10) * 2 ^ b \<le> 265 * 2 ^ 20" using v256 p2(2) by (intro mult_le_mono) auto
  then have z: "unat (push_bit b (ucast ?v + 10 :: u32)) = (unat ?v + 10) * 2 ^ b"
    by (subst unat_shl_no_wrap) (simp_all add: y)
  have lo: "133 * 2 \<le> (unat ?v + 10) * 2 ^ b" using v123 p2(1) by (intro mult_le_mono) auto
  have "cubic_root_estimate a ?n = Some (drop_bit 6 (push_bit b (ucast ?v + 10)))"
    using idx(2) v unfolding cubic_root_estimate_def Let_def w_def [symmetric]
    by (simp add: b3 shl_int_def b)
  moreover have "unat (drop_bit 6 (push_bit b (ucast ?v + 10 :: u32))) = (unat ?v + 10) * 2 ^ b div 64"
    by (simp add: unat_shr z)
  moreover have "4 \<le> (unat ?v + 10) * 2 ^ b div 64" "(unat ?v + 10) * 2 ^ b div 64 < 2 ^ 23"
    using div_le_mono [OF lo, of 64] div_le_mono [OF up, of 64] by simp_all
  ultimately show ?thesis by auto
qed

lemma cubic_root_Some: "\<exists>r. cubic_root a = Some r"
proof (cases "bit_length (unat a) < 7")
  case True
  have "unat a < 64"
  proof (rule ccontr)
    assume "\<not> unat a < 64"
    then have "64 \<le> unat a" by simp
    from cubic_index [OF this] show False
      using True unsigned_less [of a, where 'a = nat] by simp
  qed
  then have "array_get cubic_v (ucast a) = Some (cubic_v ! unat a)"
    by (simp add: array_get_Some cubic_v_props(1) unat_low_word)
  with True show ?thesis by (simp add: cubic_root_def Let_def word_less_nat_alt unat_fls64)
next
  case False
  then have "0 < unat a" by (cases "unat a = 0") auto
  have "64 \<le> unat a"
  proof -
    have "(2::nat) ^ 6 \<le> 2 ^ (bit_length (unat a) - 1)" using False by (intro power_increasing) auto
    with bit_length_bounds [OF \<open>0 < unat a\<close>] show ?thesis by simp
  qed
  from cubic_root_estimate_Some [OF this] obtain x where
    x: "cubic_root_estimate a (word_of_int (fls64 a)) = Some x" "4 \<le> unat x" "unat x < 2 ^ 23"
    by blast
  let ?d = "ucast x * ucast (x - 1) :: u64"
  have x1: "unat (x - 1) = unat x - 1" using x(2) by (subst unat_minus_le) (auto simp: word_le_nat_alt)
  have "unat x * (unat x - 1) \<le> 2 ^ 23 * 2 ^ 23" using x(3) by (intro mult_le_mono) auto
  then have "unat ?d = unat x * (unat x - 1)"
    using unat_mult_lem [of "ucast x :: u64" "ucast (x - 1)"] x1 by simp
  then have "?d \<noteq> 0" using x(2) by (auto simp: unat_eq_0 [symmetric] simp del: unat_eq_0)
  then have "\<exists>q. div64_64 a ?d = Some q"
    using div64_64_exact [of ?d a] div64_64_wide [of ?d a] by (cases "unat ?d < 2 ^ 32") auto
  with x False show ?thesis by (auto simp: cubic_root_def Let_def word_less_nat_alt unat_fls64)
qed

section \<open>The friendliness loop\<close>

lemma friendly_loop_Some:
  assumes "delta \<noteq> 0"
  shows "\<exists>a w. friendly_loop delta ack cwnd = Some (a, w) \<and> a \<le> delta
    \<and> (\<exists>n. w = cwnd + of_nat n \<and> unat ack = unat a + n * unat delta)"
proof (induction "unat ack" arbitrary: ack cwnd rule: less_induct)
  case less
  show ?case
  proof (cases "delta < ack")
    case False
    then have "friendly_loop delta ack cwnd = Some (ack, cwnd)" by (subst friendly_loop.simps) simp
    moreover have "cwnd = cwnd + of_nat 0" "unat ack = unat ack + 0 * unat delta" by simp_all
    ultimately show ?thesis using False by (metis not_less)
  next
    case True
    have d: "unat (ack - delta) = unat ack - unat delta" using True by (intro unat_minus_le) simp
    have "0 < unat delta" using assms by (simp add: unat_gt_0)
    moreover have lt: "unat delta < unat ack" using True by (simp add: word_less_nat_alt)
    ultimately have "unat (ack - delta) < unat ack" using d by simp
    from less [OF this, of "cwnd + 1"] obtain a w n where
      IH: "friendly_loop delta (ack - delta) (cwnd + 1) = Some (a, w)" "a \<le> delta"
        "w = cwnd + 1 + of_nat n" "unat (ack - delta) = unat a + n * unat delta" by blast
    have "w = cwnd + of_nat (Suc n)" using IH(3) by (simp add: algebra_simps)
    moreover have "unat ack = unat a + Suc n * unat delta" using IH(4) d lt by simp
    ultimately show ?thesis using IH True
      by (subst friendly_loop.simps) (metis (no_types, lifting))
  qed
qed

lemma friendly_loop_zero_spins: "0 < ack \<Longrightarrow> friendly_loop 0 ack cwnd \<noteq> Some r"
proof
  assume a: "0 < ack" and s: "friendly_loop 0 ack cwnd = Some r"
  have "delta = 0 \<longrightarrow> ack = 0" if "friendly_loop delta ack cwnd = Some r" for delta ack cwnd r
    using that by (rule friendly_loop.raw_induct [rotated]) (auto split: if_splits simp: word_pos_iff)
  from this [OF s] a show False by simp
qed

section \<open>The cubic function\<close>

text \<open>
  Up to 355000 units (346 s) from the origin the cube does not overflow 64 bits, and neither
  does the result 32.
\<close>

lemma cubic_delta_exact:
  fixes bic_K t :: u32
  assumes "cube_rtt_scale p = 410"
  defines "d \<equiv> (if t < bic_K then unat bic_K - unat t else unat t - unat bic_K)"
  assumes "d \<le> 355000"
  shows "unat (cubic_delta p bic_K t) = 410 * d ^ 3 div 2 ^ 40"
proof -
  define offs where "offs = (if t < bic_K then ucast (bic_K - t) else ucast (t - bic_K) :: u64)"
  have o: "unat offs = d" by (simp add: offs_def d_def unat_minus_le)
  have d3: "d * d * d \<le> 355000 * 355000 * 355000" using assms(3) by (intro mult_le_mono)
  have d2: "d * d \<le> 355000 * 355000" using assms(3) by (intro mult_le_mono)
  have m1: "unat (410 * offs) = 410 * d"
    using unat_mult_lem [of 410 offs] o assms(3) by simp
  have m2: "unat (410 * offs * offs) = 410 * (d * d)"
    using unat_mult_lem [of "410 * offs" offs] o m1 d2 by simp
  have m3: "unat (410 * offs * offs * offs) = 410 * (d * d * d)"
    using unat_mult_lem [of "410 * offs * offs" offs] o m2 d3 by simp
  have c: "cubic_delta p bic_K t = ucast (drop_bit 40 (410 * offs * offs * offs))"
    by (simp add: cubic_delta_def Let_def offs_def assms(1))
  have "410 * (d * d * d) div 2 ^ 40 < 2 ^ 32" using div_le_mono [OF d3, of "2 ^ 40"] d3
    by (intro less_mult_imp_div_less) simp
  then have "unat (ucast (drop_bit 40 (410 * offs * offs * offs)) :: u32) = 410 * (d * d * d) div 2 ^ 40"
    by (subst unat_low_word) (simp_all only: unat_shr m3)
  then show ?thesis unfolding c by (simp add: power3_eq_cube)
qed

text \<open>The scale factors, evaluated.\<close>

lemma cubictcp_register_default: "cubictcp_register cubic_default = Some cubic_loaded"
  by (simp add: cubictcp_register_def cubic_default_def cubic_loaded_def csdiv_def tquot_def do_div_def)

section \<open>The update\<close>

definition cubic_ok :: "cubictcp \<Rightarrow> bool" where
  "cubic_ok ca \<longleftrightarrow> 16 \<le> cu_delayed_ack ca \<and> cu_delayed_ack ca \<le> 16 * WND_MAX
     \<and> cu_delay_min ca \<le> 800000"

text \<open>What the steps of an update leave alone.\<close>

definition cubic_frame :: "cubictcp \<Rightarrow> cubictcp \<Rightarrow> bool" where
  "cubic_frame ca ca' \<longleftrightarrow> cu_delayed_ack ca' = cu_delayed_ack ca
     \<and> cu_delay_min ca' = cu_delay_min ca \<and> cu_last_max_cwnd ca' = cu_last_max_cwnd ca
     \<and> cu_loss_cwnd ca' = cu_loss_cwnd ca"

lemma cubic_frame_ok: "cubic_frame ca ca' \<Longrightarrow> cubic_ok ca \<Longrightarrow> cubic_ok ca'"
  by (simp add: cubic_frame_def cubic_ok_def)

lemma cubic_epoch_Some:
  "\<exists>ca'. cubic_epoch p k cwnd ca = Some ca' \<and> cubic_frame ca ca'"
  using cubic_root_Some [of "cube_factor p * ucast (cu_last_max_cwnd ca - cwnd)"]
  by (auto simp: cubic_epoch_def Let_def cubic_frame_def)

lemma cubic_count_Some:
  assumes "cu_max_increment p = 16" and "cu_delay_min ca \<le> 800000"
  shows "\<exists>c. cubic_count p ca cwnd t = Some c"
proof -
  have "10 * (16 :: u32) * cu_delay_min ca \<noteq> 0" if "0 < cu_delay_min ca"
  proof -
    have "unat (160 * cu_delay_min ca) = 160 * unat (cu_delay_min ca)"
      using unat_mult_no_wrap [of 160 "cu_delay_min ca"] assms(2) by (simp add: word_le_nat_alt)
    moreover have "0 < unat (cu_delay_min ca)" using that by (simp add: word_less_nat_alt)
    ultimately show ?thesis by (auto simp: u32_eq_iff)
  qed
  moreover have "cubic_target p ca t - cwnd \<noteq> 0" if "cwnd < cubic_target p ca t"
    using that by auto
  ultimately show ?thesis using assms(1) by (auto simp: cubic_count_def Let_def)
qed

lemma cubic_friendly_Some:
  assumes "beta_scale p = 23" and "cwnd \<noteq> 0" and "cwnd \<le> WND_MAX"
  shows "\<exists>ca'. cubic_friendly p cwnd ca = Some ca' \<and> cubic_frame ca ca'"
proof -
  have w: "0 < unat cwnd" "unat cwnd \<le> 1000000"
    using assms(2,3) by (simp_all add: WND_MAX_def word_le_nat_alt unat_gt_0)
  have "unat (drop_bit 3 (cwnd * 23)) = unat cwnd * 23 div 8"
    using w unat_mult_no_wrap [of cwnd 23] by (simp add: unat_shr)
  then have "0 < unat (drop_bit 3 (cwnd * 23))" using w by simp
  then have d: "drop_bit 3 (cwnd * beta_scale p) \<noteq> 0" using assms(1) by (metis unat_gt_0)
  from friendly_loop_Some [OF d, of "cu_ack_cnt ca" "cu_tcp_cwnd ca"] obtain a w where
    l: "friendly_loop (drop_bit 3 (cwnd * beta_scale p)) (cu_ack_cnt ca) (cu_tcp_cwnd ca) = Some (a, w)"
    by blast
  have "w - cwnd \<noteq> 0" if "cwnd < w" using that by auto
  then show ?thesis by (auto simp: cubic_friendly_def l Let_def cubic_frame_def)
qed

lemma cubictcp_update_Some:
  assumes "cubic_ok ca" and "cwnd \<noteq> 0" and "cwnd \<le> WND_MAX"
  shows "\<exists>ca'. cubictcp_update cubic_loaded k ca cwnd = Some ca' \<and> cubic_frame ca ca'
    \<and> (cu_last_cwnd ca \<noteq> cwnd \<longrightarrow> 0 < cu_cnt ca')"
proof -
  let ?ca = "ca\<lparr>cu_ack_cnt := cu_ack_cnt ca + 1, cu_last_cwnd := cwnd, cu_last_time := tcp_time_stamp k\<rparr>"
  have p: "cu_max_increment cubic_loaded = 16" "beta_scale cubic_loaded = 23"
    by (simp_all add: cubic_loaded_def cubic_default_def)
  obtain ca1 where 1: "cubic_epoch cubic_loaded k cwnd ?ca = Some ca1" "cubic_frame ?ca ca1"
    using cubic_epoch_Some by blast
  then have d: "cu_delay_min ca1 \<le> 800000" using assms(1) by (simp add: cubic_frame_def cubic_ok_def)
  obtain c where 2: "cubic_count cubic_loaded ca1 cwnd (cubic_time k ca1) = Some c"
    using cubic_count_Some [OF p(1) d] by blast
  obtain ca2 where 3: "cubic_friendly cubic_loaded cwnd (ca1\<lparr>cu_cnt := c\<rparr>) = Some ca2"
    "cubic_frame (ca1\<lparr>cu_cnt := c\<rparr>) ca2" using cubic_friendly_Some [OF p(2) assms(2,3)] by blast
  have f: "cubic_frame ca ca2" using 1(2) 3(2) by (simp add: cubic_frame_def)
  then have "cu_delayed_ack ca2 \<noteq> 0" using assms(1) by (auto simp: cubic_frame_def cubic_ok_def)
  with 1(1) 2 3(1) f show ?thesis
    by (auto simp: cubictcp_update_def Let_def cubic_frame_def word_pos_iff)
qed

section \<open>The module\<close>

text \<open>Round trips measured by time stamps are below 100 seconds, as the source assumes.\<close>

definition cubic_env :: "kernel \<Rightarrow> u32 \<Rightarrow> tcp_options_received \<Rightarrow> bool" where
  "cubic_env k s rx \<longleftrightarrow>
     (saw_tstamp rx \<longrightarrow> rcv_tsecr rx \<noteq> 0 \<longrightarrow> tcp_time_stamp k - rcv_tsecr rx \<le> 100000)"

lemma measure_delay_ok:
  assumes "cubic_ok (icsk_ca_priv sk)" and "cubic_env k s (rx_opt sk)"
  shows "\<exists>ca. measure_delay k sk = sk\<lparr>icsk_ca_priv := ca\<rparr> \<and> cubic_ok ca"
proof (cases "saw_tstamp (rx_opt sk) \<and> rcv_tsecr (rx_opt sk) \<noteq> 0")
  case False
  with assms(1) show ?thesis by (intro exI [of _ "icsk_ca_priv sk"]) (auto simp: measure_delay_def)
next
  case True
  let ?x = "tcp_time_stamp k - rcv_tsecr (rx_opt sk)"
  have "unat ?x \<le> 100000" using True assms(2) by (simp add: cubic_env_def word_le_nat_alt)
  then have "push_bit 3 ?x \<le> 800000"
    by (simp add: word_le_nat_alt unat_shl_no_wrap)
  with assms(1) show ?thesis
    by (auto simp: measure_delay_def Let_def cubic_ok_def)
qed

lemma cubic_ok_acked:
  assumes "cubic_ok (icsk_ca_priv sk)" and "n \<le> WND_MAX"
  shows "\<exists>ca. cubictcp_acked n t k sk = Some (sk\<lparr>icsk_ca_priv := ca\<rparr>) \<and> cubic_ok ca"
proof (cases "0 < n \<and> icsk_ca_state sk = TCP_CA_Open")
  case True
  let ?d = "cu_delayed_ack (icsk_ca_priv sk)"
  have "16 \<le> unat ?d" "unat ?d \<le> 16 * 1000000" "1 \<le> unat n" "unat n \<le> 1000000"
    using assms True by (auto simp: cubic_ok_def WND_MAX_def word_le_nat_alt word_less_nat_alt)
  from ratio_step(2,3) [OF this] assms(1) True show ?thesis
    by (intro exI [of _ "(icsk_ca_priv sk)\<lparr>cu_delayed_ack := ?d + (n - drop_bit 4 ?d)\<rparr>"])
      (auto simp: cubictcp_acked_def Let_def cubic_ok_def WND_MAX_def word_le_nat_alt)
next
  case False
  with assms(1) show ?thesis
    by (intro exI [of _ "icsk_ca_priv sk"]) (auto simp: cubictcp_acked_def)
qed

lemma cubic_avoid_live:
  assumes m: "mod_live (Some L) cubic_ok sk" and e: "cubic_env k (srtt sk) (rx_opt sk)"
  shows "op_ok (mod_live (Some L) cubic_ok) sk
    (cubictcp_cong_avoid cubic_loaded ack rtt infl good k sk)"
proof -
  from measure_delay_ok [OF mod_live_simps(5) [OF m] e] obtain ca where
    ca: "measure_delay k sk = sk\<lparr>icsk_ca_priv := ca\<rparr>" "cubic_ok ca" by blast
  define sk1 where "sk1 = (if good \<noteq> 0 then measure_delay k sk else sk)"
  have f: "net_frame sk sk1" by (simp add: sk1_def ca(1))
  have m1: "mod_live (Some L) cubic_ok sk1"
    using m ca mod_live_simps(6) [OF m] by (simp add: sk1_def)
  have w: "snd_cwnd sk1 \<noteq> 0" "snd_cwnd sk1 \<le> WND_MAX" "cubic_ok (icsk_ca_priv sk1)"
    using m1 by (auto simp: mod_live_def win_defs intro: order.trans)
  from cubictcp_update_Some [OF w(3,1,2), of k] obtain ca' where
    u: "cubictcp_update cubic_loaded k (icsk_ca_priv sk1) (snd_cwnd sk1) = Some ca'"
      "cubic_frame (icsk_ca_priv sk1) ca'" by blast
  have "cubic_ok ca'" using cubic_frame_ok u(2) w(3) by blast
  then have "mod_live (Some L) cubic_ok (count_up c (sk1\<lparr>icsk_ca_priv := ca'\<rparr>))" for c
    using mod_live_simps(6) [OF m1] by (intro count_up_live) simp
  with slow_start_live [OF m1, of k] m1 u(1) f
  have "op_ok (mod_live (Some L) cubic_ok) sk
    (if \<not> tcp_is_cwnd_limited sk1 infl then Some sk1
     else if snd_cwnd sk1 \<le> snd_ssthresh sk1 then tcp_slow_start k sk1
     else do {
       ca \<leftarrow> cubictcp_update cubic_loaded k (icsk_ca_priv sk1) (snd_cwnd sk1);
       Some (count_up (cu_cnt ca) (sk1\<lparr>icsk_ca_priv := ca\<rparr>))
     })"
    by (auto simp: op_ok_def intro: net_frame_trans)
  then show ?thesis unfolding cubictcp_cong_avoid_def Let_def sk1_def .
qed

interpretation cubic: cong_module "cubictcp_ops cubic_loaded" "Some L" "\<lambda>_. True" cubic_ok cubic_env
  "\<lambda>k n t. n \<le> WND_MAX" for L
proof (unfold_locales, goal_cases)
  case (1 sk k)
  then show ?case
    by (auto simp: cubictcp_ops_def ops_null_def cubictcp_init_def cubictcp_reset_def cubic_loaded_def
        cubic_default_def mod_live_def cubic_ok_def WND_MAX_def)
next
  case (2 sk k)
  then have "unat (snd_cwnd sk) \<le> 1000000"
    by (auto simp: mod_live_def win_defs WND_MAX_def word_le_nat_alt)
  then have "(snd_cwnd sk * 819) div 1024 \<le> snd_cwnd sk" by (intro scaled_le; simp)
  from max2_bounds [OF this] mod_live_simps(5) [OF 2] show ?case
    by (simp add: cubictcp_ops_def call_ssthresh_def cubictcp_recalc_ssthresh_def Let_def cubic_loaded_def
        cubic_default_def cubic_ok_def)
next
  case (3 sk)
  then show ?case
    by (auto simp: cubictcp_ops_def ops_null_def call_min_cwnd_def word_pos_iff)
next
  case (4 sk k ack rtt infl good)
  from cubic_avoid_live [OF 4] show ?case
    by (simp add: cubictcp_ops_def call_cong_avoid_def)
next
  case (5 sk s k)
  then show ?case
    by (auto simp: cubictcp_ops_def ops_null_def cubictcp_state_def cubictcp_reset_def mod_live_def
        cubic_ok_def WND_MAX_def)
next
  case (7 sk k n t)
  with cubic_ok_acked [of sk n t k] mod_live_simps [OF 7(1)] show ?case
    by (auto simp: cubictcp_ops_def)
next
  case (9 sk k)
  then have "unat (snd_cwnd sk) \<le> 1000000"
    by (auto simp: win_defs WND_MAX_def word_le_nat_alt)
  then have "(snd_cwnd sk * 819) div 1024 \<le> snd_cwnd sk" by (intro scaled_le; simp)
  from max2_bounds [OF this] show ?case
    by (simp add: cubictcp_ops_def call_ssthresh_def cubictcp_recalc_ssthresh_def Let_def cubic_loaded_def
        cubic_default_def)
next
  case (11 sk k)
  then show ?case by (simp add: cubictcp_ops_def cubictcp_state_def)
qed (simp_all add: cubictcp_ops_def ops_null_def)

section \<open>Properties\<close>

text \<open>
  C31: the cube root of CUBIC returns for every 64-bit argument: the table index is in bounds, no
  shift is by the width or more, and the divisor \<open>x * (x - 1)\<close> of the Newton step is not zero.
\<close>

theorem cubic_root_total: "\<exists>r. cubic_root a = Some r"
  by (rule cubic_root_Some)

text \<open>
  the cubic term with the factors that registration computes is exact,
  \<open>410 * |t - K|^3 / 2^40\<close>, up to 355000 time units (346 s) from the origin; from 356000 on the
  64-bit product wraps and the term drops.
\<close>

theorem cubic_delta_range:
  assumes "cubictcp_register cubic_default = Some p"
    and "d \<le> 355000" and "unat bic_K + d < 2 ^ 32"
  shows "unat (cubic_delta p bic_K (bic_K + of_nat d)) = 410 * d ^ 3 div 2 ^ 40
    \<and> cubic_delta p 0 356000 < cubic_delta p 0 355000"
proof (intro conjI)
  have p: "cube_rtt_scale p = 410"
    using assms(1) by (auto simp: cubictcp_register_default cubic_loaded_def)
  have t: "unat (bic_K + of_nat d) = unat bic_K + d"
  proof -
    have "unat (of_nat d :: u32) = d"
      using assms(2) by (simp add: unsigned_of_nat take_bit_nat_eq_self_iff)
    then show ?thesis using assms(3) by (simp add: unat_add_no_wrap)
  qed
  then have "\<not> bic_K + of_nat d < bic_K" by (simp add: word_less_nat_alt)
  with cubic_delta_exact [of p "bic_K + of_nat d" bic_K, OF p] assms(2) t
  show "unat (cubic_delta p bic_K (bic_K + of_nat d)) = 410 * d ^ 3 div 2 ^ 40" by simp
  show "cubic_delta p 0 356000 < cubic_delta p 0 355000"
    using p by (simp add: cubic_delta_def Let_def)
qed

theorem cubic_delta_range_witness:
  "unat (cubic_delta cubic_loaded 5 (5 + of_nat 20480)) = 3203"
  using cubic_delta_range [of cubic_loaded 20480 5] cubictcp_register_default by simp

text \<open>
  the friendliness loop of CUBIC, with a positive step, returns the number of acknowledgments
  left over and the advanced window estimate: the window advances once for each step taken off
  the count, until at most one step is left; with a step of zero it never returns.
\<close>

theorem friendly_loop_correct:
  "(\<exists>a w. friendly_loop delta ack cwnd = Some (a, w)
      \<and> a \<le> delta \<and> (\<exists>n. w = cwnd + of_nat n \<and> unat ack = unat a + n * unat delta))
    \<longleftrightarrow> \<not> (delta = 0 \<and> 0 < ack)"
proof (cases "delta = 0")
  case True
  show ?thesis
  proof (cases "0 < ack")
    case True
    with \<open>delta = 0\<close> friendly_loop_zero_spins show ?thesis by blast
  next
    case False
    then have "ack = 0" by (simp add: word_pos_iff)
    moreover have "friendly_loop 0 0 cwnd = Some (0, cwnd)" by (subst friendly_loop.simps) simp
    ultimately show ?thesis using True by (auto intro: exI [of _ 0])
  qed
next
  case False
  with friendly_loop_Some [OF False, of ack cwnd] show ?thesis by simp
qed

text \<open>
  an update of CUBIC with the default parameters, a window of 1 to 1000000 packets, a minimum
  delay below 100 s and a ratio of at least one packet per acknowledgment returns (no division by
  zero, every loop ends), and the count it leaves is positive whenever the window changed since
  the last update.
\<close>

theorem cubic_update_defined:
  assumes "0 < cwnd" and "cwnd \<le> 1000000" and "cu_delay_min ca \<le> 800000"
    and "16 \<le> cu_delayed_ack ca" and "cu_delayed_ack ca \<le> 16 * 1000000"
    and "cu_last_cwnd ca \<noteq> cwnd"
  shows "\<exists>ca'. cubictcp_update cubic_loaded k ca cwnd = Some ca' \<and> 0 < cu_cnt ca'
    \<and> cu_delay_min ca' = cu_delay_min ca \<and> cu_delayed_ack ca' = cu_delayed_ack ca"
proof -
  have "cubic_ok ca" using assms by (simp add: cubic_ok_def WND_MAX_def)
  with assms(1,2,6) cubictcp_update_Some [of ca cwnd k] show ?thesis
    by (auto simp: WND_MAX_def word_pos_iff cubic_frame_def)
qed

definition sample_cubic :: cubictcp where
  "sample_cubic = \<lparr> cu_cnt = 0, cu_last_max_cwnd = 600, cu_loss_cwnd = 600, cu_last_cwnd = 0,
     cu_last_time = 0, cu_bic_origin_point = 0, cu_bic_K = 0, cu_delay_min = 320,
     cu_epoch_start = 0, cu_ack_cnt = 0, cu_tcp_cwnd = 0, cu_delayed_ack = 32 \<rparr>"

theorem cubic_update_defined_witness:
  "\<exists>ca'. cubictcp_update cubic_loaded sample_kernel sample_cubic 480 = Some ca' \<and> 0 < cu_cnt ca'
    \<and> cu_delay_min ca' = 320 \<and> cu_delayed_ack ca' = 32"
  using cubic_update_defined [of 480 sample_cubic sample_kernel] by (simp add: sample_cubic_def)

text \<open>
  a connection that runs CUBIC as registered, within a bound of at most 1000000 packets, with
  round trips below 100 s and at most 1000000 packets per acknowledgment, never traps and keeps
  its window positive and within the bound.
\<close>

theorem cubic_runs_safe:
  assumes "cubictcp_register cubic_default = Some p"
    and "\<not> initialized ag" and "win (Some L) (linux_sk ag)"
    and "run_env cubic_env (\<lambda>k n t. n \<le> WND_MAX) (cubictcp_ops p) evs ag"
  shows "\<exists>ag'. agent_run (cubictcp_ops p) evs ag = Some ag' \<and> win (Some L) (linux_sk ag')"
  using assms cubictcp_register_default by (simp add: cubic.module_run_safe_from_start)

theorem cubic_runs_safe_witness:
  "\<exists>ag'. agent_run (cubictcp_ops cubic_loaded) sample_run (sample_agent sample_cubic) = Some ag'
     \<and> win (Some 1000) (linux_sk ag')"
  by (rule cubic_runs_safe)
    (simp_all add: cubictcp_register_default sample_win sample_run_env WND_MAX_def cubic_env_def
      sample_kernel_def kernel_init_def)

end
