(* ===== verification/Rtt_Sample.thy ===== *)
theory Rtt_Sample
  imports Window
begin

text \<open>
  The round trip sample that Vegas, Veno and Compound TCP take from an acknowledgment:
  \<open>ktime_to_us(net_timedelta(last)) + 1\<close> assigned to an \<open>u32\<close>. The lemmas bound it when the
  time stamp is less than 100 seconds old.
\<close>

definition vrtt_us :: "kernel \<Rightarrow> s64 \<Rightarrow> u32" where
  "vrtt_us k t = ucast (ktime_to_us (net_timedelta (ktime_get_real k) t) + 1)"

text \<open>The assumption on the time stamps: none, or taken within the last 100 seconds.\<close>

definition rtt_env :: "kernel \<Rightarrow> u32 \<Rightarrow> s64 \<Rightarrow> bool" where
  "rtt_env k n t \<longleftrightarrow> t = 0
     \<or> (0 \<le> sint (ktime_get_real k - t) \<and> sint (ktime_get_real k - t) < 100000000000)"

lemma vrtt_us_value:
  assumes "rtt_env k n t" and "t \<noteq> 0"
  shows "int (unat (vrtt_us k t)) = sint (ktime_get_real k - t) div 1000 + 1"
proof -
  let ?d = "sint (ktime_get_real k - t)"
  have d: "0 \<le> ?d" "?d < 100000000000" using assms by (auto simp: rtt_env_def)
  define y where "y = ?d div 1000 + 1"
  have y: "0 \<le> y" "y < 2 ^ 32" using d by (simp_all add: y_def)
  have "unat (word_of_int y :: u64) = nat y"
    using y by (simp add: unat_eq_nat_uint unsigned_of_int take_bit_int_eq_self)
  moreover have "nat y < 2 ^ 32" using y by simp
  ultimately have "unat (ucast (word_of_int y :: u64) :: u32) = nat y" by (simp add: unat_low_word)
  moreover have "vrtt_us k t = ucast (word_of_int y :: u64)"
    using d by (simp add: vrtt_us_def net_timedelta_def ktime_to_us_def y_def)
  ultimately show ?thesis using y by (simp add: y_def)
qed

lemma vrtt_us_bounds:
  assumes "rtt_env k n t" and "t \<noteq> 0"
  shows "1 \<le> unat (vrtt_us k t)" and "unat (vrtt_us k t) \<le> 100000000"
proof -
  have d: "0 \<le> sint (ktime_get_real k - t)" "sint (ktime_get_real k - t) < 100000000000"
    using assms by (auto simp: rtt_env_def)
  then show "1 \<le> unat (vrtt_us k t)" and "unat (vrtt_us k t) \<le> 100000000"
    using vrtt_us_value [OF assms] by linarith+
qed

end
