(* ===== verification/Vegas.thy ===== *)
theory Vegas
  imports Rtt_Sample
begin

text \<open>
  TCP Vegas, src/ns-2.34/tcp/linux/src/tcp_vegas.c and tcp_vegas.h: once per round trip the
  window moves by at most one segment, by the number of packets the connection keeps queued
  (\<open>diff\<close>, computed from the smallest round trip of the last window and the smallest ever). The
  lemmas show the invariant of the two minima, where \<open>diff\<close> is exact, and the rule of the window.
  The struct functions act on \<open>struct vegas\<close> alone, because YeAH embeds it.
\<close>

section \<open>State and parameters\<close>

abbreviation (input) V_PARAM_SHIFT :: nat where "V_PARAM_SHIFT \<equiv> 1"

record vegas_params =
  vegas_alpha :: s32
  vegas_beta :: s32
  vegas_gamma :: s32

definition vegas_default :: vegas_params where
  "vegas_default = \<lparr> vegas_alpha = push_bit V_PARAM_SHIFT 2, vegas_beta = push_bit V_PARAM_SHIFT 4,
     vegas_gamma = push_bit V_PARAM_SHIFT 1 \<rparr>"

record vegas =
  beg_snd_nxt :: u32
  beg_snd_una :: u32
  beg_snd_cwnd :: u32
  doing_vegas_now :: u8
  cntRTT :: u16
  minRTT :: u32
  baseRTT :: u32

section \<open>Operations\<close>

definition vegas_enable :: "'ca tcp_sock \<Rightarrow> vegas \<Rightarrow> vegas" where
  "vegas_enable tp v = v\<lparr>doing_vegas_now := 1, beg_snd_nxt := snd_nxt tp, cntRTT := 0,
     minRTT := 0x7fffffff\<rparr>"

definition vegas_disable :: "vegas \<Rightarrow> vegas" where
  "vegas_disable v = v\<lparr>doing_vegas_now := 0\<rparr>"

definition tcp_vegas_init :: "'ca tcp_sock \<Rightarrow> vegas \<Rightarrow> vegas" where
  "tcp_vegas_init tp v = vegas_enable tp (v\<lparr>baseRTT := 0x7fffffff\<rparr>)"

definition tcp_vegas_pkts_acked :: "s64 \<Rightarrow> kernel \<Rightarrow> vegas \<Rightarrow> vegas" where
  "tcp_vegas_pkts_acked t k v =
    (if ktime_equal t net_invalid_timestamp then v
     else
       let vrtt = vrtt_us k t;
           v = (if vrtt < baseRTT v then v\<lparr>baseRTT := vrtt\<rparr> else v)
       in v\<lparr>minRTT := min (minRTT v) vrtt, cntRTT := cntRTT v + 1\<rparr>)"

definition tcp_vegas_state :: "u8 \<Rightarrow> 'ca tcp_sock \<Rightarrow> vegas \<Rightarrow> vegas" where
  "tcp_vegas_state ca_state tp v =
     (if ca_state = TCP_CA_Open then vegas_enable tp v else vegas_disable v)"

definition tcp_vegas_cwnd_event :: "tcp_ca_event \<Rightarrow> 'ca tcp_sock \<Rightarrow> vegas \<Rightarrow> vegas" where
  "tcp_vegas_cwnd_event ev tp v =
     (if ev = CA_EVENT_CWND_RESTART \<or> ev = CA_EVENT_TX_START then tcp_vegas_init tp v else v)"

text \<open>The end of a round trip: target and difference in half packets, then the window.\<close>

definition vegas_target :: "u32 \<Rightarrow> u32 \<Rightarrow> u32 \<Rightarrow> u32 option" where
  "vegas_target old_wnd base rtt = cdiv (push_bit V_PARAM_SHIFT (old_wnd * base)) rtt"

definition vegas_diff :: "u32 \<Rightarrow> u32 \<Rightarrow> u32" where
  "vegas_diff old_wnd target_cwnd = push_bit V_PARAM_SHIFT old_wnd - target_cwnd"

definition vegas_toward :: "vegas_params \<Rightarrow> u32 \<Rightarrow> u32 \<Rightarrow> u32 \<Rightarrow> u32" where
  "vegas_toward p diff old_snd_cwnd cwnd =
    (let next_snd_cwnd = (if vegas_beta p < diff then old_snd_cwnd - 1
                          else if diff < vegas_alpha p then old_snd_cwnd + 1
                          else old_snd_cwnd)
     in if cwnd < next_snd_cwnd then cwnd + 1
        else if next_snd_cwnd < cwnd then cwnd - 1 else cwnd)"

definition vegas_clamp :: "'ca tcp_sock \<Rightarrow> 'ca tcp_sock" where
  "vegas_clamp tp =
    (if snd_cwnd tp < 2 then tp\<lparr>snd_cwnd := 2\<rparr>
     else if snd_cwnd_clamp tp < snd_cwnd tp then tp\<lparr>snd_cwnd := snd_cwnd_clamp tp\<rparr> else tp)"

definition vegas_adjust ::
  "vegas_params \<Rightarrow> kernel \<Rightarrow> u32 \<Rightarrow> u32 \<Rightarrow> vegas tcp_sock \<Rightarrow> vegas tcp_sock option" where
  "vegas_adjust p k old_wnd old_snd_cwnd tp = do {
     let rtt = minRTT (icsk_ca_priv tp);
     target_cwnd \<leftarrow> vegas_target old_wnd (baseRTT (icsk_ca_priv tp)) rtt;
     let diff = vegas_diff old_wnd target_cwnd;
     tp \<leftarrow> (if snd_cwnd tp \<le> snd_ssthresh tp
           then tcp_slow_start k
             (if vegas_gamma p < diff
              then tp\<lparr>snd_ssthresh := 2,
                      snd_cwnd := min (snd_cwnd tp) (drop_bit V_PARAM_SHIFT target_cwnd + 1)\<rparr>
              else tp)
           else Some (tp\<lparr>snd_cwnd := vegas_toward p diff old_snd_cwnd (snd_cwnd tp)\<rparr>));
     Some (vegas_clamp tp)
   }"

definition tcp_vegas_cong_avoid ::
  "vegas_params \<Rightarrow> u32 \<Rightarrow> u32 \<Rightarrow> u32 \<Rightarrow> s32 \<Rightarrow> kernel \<Rightarrow> vegas tcp_sock \<Rightarrow> vegas tcp_sock option" where
  "tcp_vegas_cong_avoid p ack seq_rtt in_flight flag k tp =
    (let v = icsk_ca_priv tp in
     if doing_vegas_now v = 0 then tcp_reno_cong_avoid ack seq_rtt in_flight flag k tp
     else if after ack (beg_snd_nxt v)
     then do {
       old_wnd \<leftarrow> cdiv (beg_snd_nxt v - beg_snd_una v) (mss_cache tp);
       let old_snd_cwnd = beg_snd_cwnd v;
       let tp = tp\<lparr>icsk_ca_priv := v\<lparr>beg_snd_una := beg_snd_nxt v, beg_snd_nxt := snd_nxt tp,
                                       beg_snd_cwnd := snd_cwnd tp\<rparr>\<rparr>;
       tp \<leftarrow> (if cntRTT v \<le> 2 then tcp_reno_cong_avoid ack seq_rtt in_flight flag k tp
             else vegas_adjust p k old_wnd old_snd_cwnd tp);
       Some (tp\<lparr>icsk_ca_priv := (icsk_ca_priv tp)\<lparr>cntRTT := 0, minRTT := 0x7fffffff\<rparr>\<rparr>)
     }
     else if snd_cwnd tp \<le> snd_ssthresh tp then tcp_slow_start k tp
     else Some tp)"

text \<open>The body of \<open>tcp_vegas_get_info\<close> is commented out.\<close>

definition tcp_vegas_get_info :: "u32 \<Rightarrow> 'ca tcp_sock \<Rightarrow> unit option" where
  "tcp_vegas_get_info ext tp = Some ()"

definition tcp_vegas :: "vegas_params \<Rightarrow> vegas tcp_congestion_ops" where
  "tcp_vegas p = ops_null\<lparr>ca_flags := TCP_CONG_RTT_STAMP,
     ca_init := Some (\<lambda>k tp. Some (tp\<lparr>icsk_ca_priv := tcp_vegas_init tp (icsk_ca_priv tp)\<rparr>)),
     ca_ssthresh := Some tcp_reno_ssthresh, ca_cong_avoid := Some (tcp_vegas_cong_avoid p),
     ca_min_cwnd := Some tcp_reno_min_cwnd,
     ca_pkts_acked := Some (\<lambda>n t k tp.
       Some (tp\<lparr>icsk_ca_priv := tcp_vegas_pkts_acked t k (icsk_ca_priv tp)\<rparr>)),
     ca_set_state := Some (\<lambda>s k tp.
       Some (tp\<lparr>icsk_ca_priv := tcp_vegas_state s tp (icsk_ca_priv tp)\<rparr>)),
     ca_cwnd_event := Some (\<lambda>ev k tp.
       Some (tp\<lparr>icsk_ca_priv := tcp_vegas_cwnd_event ev tp (icsk_ca_priv tp)\<rparr>)),
     ca_get_info := Some tcp_vegas_get_info, ca_name := ''vegas''\<rparr>"

section \<open>The two minima\<close>

definition vegas_ok :: "vegas \<Rightarrow> bool" where
  "vegas_ok v \<longleftrightarrow> 0 < baseRTT v \<and> baseRTT v \<le> minRTT v \<and> minRTT v \<le> 0x7fffffff"

lemma vegas_ok_enable: "0 < baseRTT v \<Longrightarrow> baseRTT v \<le> 0x7fffffff \<Longrightarrow> vegas_ok (vegas_enable tp v)"
  by (simp add: vegas_ok_def vegas_enable_def)

lemma vegas_ok_init: "vegas_ok (tcp_vegas_init tp v)"
  by (simp add: vegas_ok_def vegas_enable_def tcp_vegas_init_def)

lemma vegas_ok_state: "vegas_ok v \<Longrightarrow> vegas_ok (tcp_vegas_state s tp v)"
  by (auto simp: tcp_vegas_state_def vegas_disable_def intro!: vegas_ok_enable)
    (auto simp: vegas_ok_def)

lemma vegas_ok_event: "vegas_ok v \<Longrightarrow> vegas_ok (tcp_vegas_cwnd_event ev tp v)"
  by (simp add: tcp_vegas_cwnd_event_def vegas_ok_init)

lemma vegas_ok_acked:
  assumes "vegas_ok v" and "rtt_env k n t"
  shows "vegas_ok (tcp_vegas_pkts_acked t k v)"
proof (cases "t = 0")
  case True
  with assms(1) show ?thesis
    by (simp add: tcp_vegas_pkts_acked_def ktime_equal_def net_invalid_timestamp_def)
next
  case False
  have "0 < vrtt_us k t"
    using vrtt_us_bounds [OF assms(2) False] by (simp add: word_less_nat_alt)
  with assms(1) False show ?thesis
    by (auto simp: tcp_vegas_pkts_acked_def ktime_equal_def net_invalid_timestamp_def Let_def
        vegas_ok_def min_le_iff_disj)
qed

section \<open>The difference\<close>

text \<open>
  If the product of the window and the base round trip fits in 31 bits, the target is the exact
  quotient and at most twice the window, so the difference does not wrap.
\<close>

lemma vegas_target_exact:
  assumes "unat w * unat base < 2 ^ 31" and "0 < base" and "base \<le> rtt"
  shows "\<exists>t. vegas_target w base rtt = Some t
    \<and> unat t = 2 * unat w * unat base div unat rtt
    \<and> unat (vegas_diff w t) = 2 * unat w - 2 * unat w * unat base div unat rtt"
proof -
  have b: "0 < unat base" "unat base \<le> unat rtt"
    using assms(2,3) by (simp_all add: word_less_nat_alt word_le_nat_alt)
  have "unat w \<le> unat w * unat base" using b by simp
  then have w: "unat w < 2 ^ 31" using assms(1) by (rule le_less_trans)
  have m: "unat (w * base) = unat w * unat base" using assms(1) by (intro unat_mult_no_wrap) simp
  have "unat (w * base) * 2 ^ 1 < 4294967296" using assms(1) unfolding m [symmetric] by simp
  from unat_shl_no_wrap [OF this] have p: "unat (push_bit 1 (w * base)) = 2 * unat w * unat base"
    unfolding m by (simp only: power_one_right ac_simps)
  let ?t = "push_bit 1 (w * base) div rtt"
  have "rtt \<noteq> 0" using b by (auto simp: unat_eq_0 [symmetric] simp del: unat_eq_0)
  then have e: "vegas_target w base rtt = Some ?t" by (simp add: vegas_target_def)
  have t: "unat ?t = 2 * unat w * unat base div unat rtt" by (simp only: unat_div_distrib p)
  have "2 * unat w * unat base \<le> 2 * unat w * unat rtt" using b(2) by (intro mult_le_mono) auto
  then have "2 * unat w * unat base div unat rtt \<le> 2 * unat w * unat rtt div unat rtt"
    by (rule div_le_mono)
  then have le: "2 * unat w * unat base div unat rtt \<le> 2 * unat w" using b by simp
  have w2: "unat (push_bit 1 w) = 2 * unat w" using w unat_shl_no_wrap [of w 1] by simp
  then have "unat (vegas_diff w ?t) = 2 * unat w - unat ?t"
    unfolding vegas_diff_def using le t by (subst unat_minus_le) (simp_all add: word_le_nat_alt)
  with e t show ?thesis by simp
qed

section \<open>The window\<close>

lemma vegas_toward_bounds:
  assumes "0 < cwnd"
  shows "unat (vegas_toward p d old cwnd) \<le> unat cwnd + 1"
    and "unat cwnd \<le> unat (vegas_toward p d old cwnd) + 1"
proof -
  have "unat (cwnd + 1) \<le> unat cwnd + 1" by (simp add: unat_word_ariths)
  moreover have "unat cwnd \<le> unat (cwnd + 1) + 1" if "cwnd < x" for x
    using unat_Suc_no_wrap [OF that] by simp
  moreover have "unat (cwnd - 1) = unat cwnd - 1"
    using assms by (simp add: unat_minus_one word_pos_iff)
  ultimately show "unat (vegas_toward p d old cwnd) \<le> unat cwnd + 1"
    and "unat cwnd \<le> unat (vegas_toward p d old cwnd) + 1"
    by (auto simp: vegas_toward_def Let_def)
qed

lemma vegas_clamp_live:
  assumes "win wb (sk\<lparr>snd_cwnd := 2\<rparr>)"
  shows "win wb (vegas_clamp sk)" and "net_frame sk (vegas_clamp sk)"
    and "icsk_ca_priv (vegas_clamp sk) = icsk_ca_priv sk"
  using assms by (cases wb; auto simp: vegas_clamp_def win_defs word_less_nat_alt word_le_nat_alt)+

lemma win_two:
  "win wb sk \<Longrightarrow> win wb (sk\<lparr>snd_cwnd := 2\<rparr>)" "win wb sk \<Longrightarrow> win wb (sk\<lparr>snd_ssthresh := 2\<rparr>)"
  by (cases wb; simp add: win_defs)+

text \<open>A step that leaves everything but the window, its counter and the byte count.\<close>

lemma win_two_step:
  "win wb sk \<Longrightarrow> win_step sk0 sk' \<Longrightarrow> snd_ssthresh sk0 = snd_ssthresh sk
    \<Longrightarrow> snd_cwnd_clamp sk0 = snd_cwnd_clamp sk \<Longrightarrow> mss_cache sk0 = mss_cache sk
    \<Longrightarrow> win wb (sk'\<lparr>snd_cwnd := 2\<rparr>)"
  by (cases wb; simp add: win_defs win_step_def net_frame_def)

lemma vegas_adjust_ok:
  assumes w: "win wb sk" and r: "minRTT (icsk_ca_priv sk) \<noteq> 0"
  shows "\<exists>sk'. vegas_adjust p k old_wnd old_cwnd sk = Some sk' \<and> win wb sk' \<and> net_frame sk sk'
    \<and> icsk_ca_priv sk' = icsk_ca_priv sk"
proof -
  have pos: "0 < snd_cwnd sk" using w by (simp add: win_defs)
  obtain t where t: "vegas_target old_wnd (baseRTT (icsk_ca_priv sk)) (minRTT (icsk_ca_priv sk)) = Some t"
    using r by (simp add: vegas_target_def)
  define d where "d = vegas_diff old_wnd t"
  define sk1 where "sk1 = (if vegas_gamma p < d
      then sk\<lparr>snd_ssthresh := 2, snd_cwnd := min (snd_cwnd sk) (drop_bit 1 t + 1)\<rparr> else sk)"
  have "unat (drop_bit 1 t) < 2147483648"
    using unat_lt2p_u32 [of t] by (simp add: unat_shr del: unat_lt2p_u32)
  then have "unat (drop_bit 1 t + 1) = unat (drop_bit 1 t) + 1"
    by (subst unat_add_no_wrap) simp_all
  then have "0 < drop_bit 1 t + 1" by (simp add: word_less_nat_alt)
  then have pos1: "0 < snd_cwnd sk1" using pos by (simp add: sk1_def)
  from slow_start_win_step [OF pos1, of k] obtain sk2 where
    s: "tcp_slow_start k sk1 = Some sk2" "win_step sk1 sk2" by blast
  have f1: "net_frame sk sk1" "icsk_ca_priv sk1 = icsk_ca_priv sk" by (simp_all add: sk1_def)
  have "win wb ((if vegas_gamma p < d then sk\<lparr>snd_ssthresh := 2\<rparr> else sk))"
    using w win_two(2) [OF w] by simp
  from win_two_step [OF this s(2)] have w2: "win wb (sk2\<lparr>snd_cwnd := 2\<rparr>)" by (simp add: sk1_def)
  define sk3 where "sk3 = (if snd_cwnd sk \<le> snd_ssthresh sk then sk2
      else sk\<lparr>snd_cwnd := vegas_toward p d old_cwnd (snd_cwnd sk)\<rparr>)"
  have "win wb (sk3\<lparr>snd_cwnd := 2\<rparr>)" using w2 win_two(1) [OF w] by (simp add: sk3_def)
  note c = vegas_clamp_live [OF this]
  have f3: "net_frame sk sk3" "icsk_ca_priv sk3 = icsk_ca_priv sk"
    using s(2) f1 by (auto simp: sk3_def win_step_def intro: net_frame_trans)
  have "vegas_adjust p k old_wnd old_cwnd sk = Some (vegas_clamp sk3)"
    using s(1) by (simp add: vegas_adjust_def Let_def t sk3_def flip: d_def sk1_def)
  with c f3 show ?thesis by (auto intro: net_frame_trans)
qed

section \<open>The module\<close>

lemma vegas_ok_reset: "vegas_ok v \<Longrightarrow> vegas_ok (v\<lparr>cntRTT := c, minRTT := 0x7fffffff\<rparr>)"
  by (auto simp: vegas_ok_def intro: order.trans)

lemma vegas_cong_avoid_live:
  assumes m: "mod_live wb vegas_ok sk"
  shows "op_ok (mod_live wb vegas_ok) sk (tcp_vegas_cong_avoid p ack rtt infl flag k sk)"
proof -
  let ?v = "icsk_ca_priv sk"
  let ?sk = "sk\<lparr>icsk_ca_priv := ?v\<lparr>beg_snd_una := beg_snd_nxt ?v, beg_snd_nxt := snd_nxt sk,
      beg_snd_cwnd := snd_cwnd sk\<rparr>\<rparr>"
  have ok: "vegas_ok ?v" and w: "win wb sk" using m by (simp_all add: mod_live_def)
  have m1: "mod_live wb vegas_ok ?sk" using ok w by (simp add: vegas_ok_def)
  obtain q where q: "cdiv (beg_snd_nxt ?v - beg_snd_una ?v) (mss_cache sk) = Some q"
    using mod_live_simps(4) [OF m] by simp
  have r: "minRTT ?v \<noteq> 0" using ok by (auto simp: vegas_ok_def)
  have "\<exists>sk'. (if cntRTT ?v \<le> 2 then tcp_reno_cong_avoid ack rtt infl flag k ?sk
        else vegas_adjust p k q (beg_snd_cwnd ?v) ?sk) = Some sk'
      \<and> mod_live wb vegas_ok sk' \<and> net_frame sk sk'"
  proof (cases "cntRTT ?v \<le> 2")
    case True
    with reno_cong_avoid_live [OF m1, of ack rtt infl flag k] show ?thesis
      by (auto simp: op_ok_def net_frame_def)
  next
    case False
    have "win wb ?sk" "minRTT (icsk_ca_priv ?sk) \<noteq> 0" using w r by simp_all
    from vegas_adjust_ok [OF this, of p k q "beg_snd_cwnd ?v"] ok False show ?thesis
      by (auto simp: mod_live_def net_frame_def vegas_ok_def)
  qed
  then obtain sk' where s: "(if cntRTT ?v \<le> 2 then tcp_reno_cong_avoid ack rtt infl flag k ?sk
        else vegas_adjust p k q (beg_snd_cwnd ?v) ?sk) = Some sk'"
      "mod_live wb vegas_ok sk'" "net_frame sk sk'" by blast
  have m': "mod_live wb vegas_ok
      (sk'\<lparr>icsk_ca_priv := (icsk_ca_priv sk')\<lparr>cntRTT := 0, minRTT := 0x7fffffff\<rparr>\<rparr>)"
    using s(2) vegas_ok_reset by (simp add: mod_live_def)
  show ?thesis
  proof (cases "doing_vegas_now ?v = 0 \<or> \<not> after ack (beg_snd_nxt ?v)")
    case True
    with reno_cong_avoid_live [OF m, of ack rtt infl flag k] slow_start_live [OF m, of k] m
    show ?thesis by (auto simp: tcp_vegas_cong_avoid_def Let_def)
  next
    case False
    then have "tcp_vegas_cong_avoid p ack rtt infl flag k sk
        = Some (sk'\<lparr>icsk_ca_priv := (icsk_ca_priv sk')\<lparr>cntRTT := 0, minRTT := 0x7fffffff\<rparr>\<rparr>)"
      unfolding tcp_vegas_cong_avoid_def Let_def q bind.bind_lunit using s(1) by simp
    with m' s(3) show ?thesis by simp
  qed
qed

interpretation vegas: cong_module "tcp_vegas p" wb "\<lambda>_. True" vegas_ok "\<lambda>_ _ _. True" rtt_env for p wb
proof (unfold_locales, goal_cases)
  case (1 sk k)
  then show ?case by (simp add: tcp_vegas_def vegas_ok_init)
next
  case (2 sk k)
  with call_reno_ssthresh [of "tcp_vegas p" vegas_ok sk k] show ?case by (auto simp: tcp_vegas_def mod_live_def)
next
  case (3 sk)
  then show ?case
    using reno_min_cwnd_bounds [of "snd_ssthresh sk"]
    by (simp add: tcp_vegas_def ops_null_def call_min_cwnd_def tcp_reno_min_cwnd_def)
next
  case 4
  then show ?case by (simp add: tcp_vegas_def call_cong_avoid_def vegas_cong_avoid_live)
next
  case (5 sk s k)
  then show ?case by (simp add: tcp_vegas_def vegas_ok_state mod_live_def)
next
  case (6 sk ev k)
  then show ?case by (simp add: tcp_vegas_def vegas_ok_event mod_live_def)
next
  case (7 sk k n t)
  then show ?case using vegas_ok_acked [of "icsk_ca_priv sk" k n t]
    by (simp add: tcp_vegas_def mod_live_def)
next
  case (9 sk k)
  with call_reno_ssthresh [of "tcp_vegas p" "\<lambda>_. True" sk k] show ?case by (auto simp: tcp_vegas_def mod_live_def)
qed (simp_all add: tcp_vegas_def ops_null_def mod_live_def)

section \<open>Properties\<close>

text \<open>
  the difference that Vegas computes, when the smallest round trip ever is not larger than
  the smallest of the window and \<open>old_wnd * baseRTT\<close> fits in 31 bits: no step wraps, the target is
  \<open>2 * old_wnd * baseRTT / minRTT\<close> rounded down, and the difference is \<open>2 * old_wnd\<close> less it.
\<close>

theorem vegas_diff_exact:
  assumes "0 < base" and "base \<le> rtt" and "unat w * unat base < 2 ^ 31"
  shows "\<exists>t. vegas_target w base rtt = Some t
    \<and> unat t = 2 * unat w * unat base div unat rtt
    \<and> unat (vegas_diff w t) = 2 * unat w - 2 * unat w * unat base div unat rtt"
  using assms by (intro vegas_target_exact)

theorem vegas_diff_exact_witness:
  "\<exists>t. vegas_target 20 50000 60000 = Some t \<and> unat t = 33 \<and> unat (vegas_diff 20 t) = 7"
  using vegas_diff_exact [of 50000 60000 20] by simp

text \<open>
  Past that bound the 32-bit product wraps: with 30000 segments, a round trip of 100 ms and no
  queue at all, the difference is 42950 half packets instead of none.
\<close>

lemma vegas_diff_overflow:
  "vegas_target 30000 100000 100000 = Some 17050 \<and> vegas_diff 30000 17050 = 42950"
  by (simp add: vegas_target_def vegas_diff_def)

text \<open>
  beyond slow start and below the clamp, with the window of the last round trip equal to the
  current one, the end of a round trip takes one segment off (but keeps 2) if more than
  \<open>beta\<close> half packets are queued, adds one if fewer than \<open>alpha\<close> are, and keeps the window
  otherwise.
\<close>

theorem vegas_adjust_rule:
  assumes "snd_ssthresh sk < snd_cwnd sk" and "snd_cwnd sk < snd_cwnd_clamp sk"
    and "2 \<le> snd_cwnd sk"
    and "vegas_target old_wnd (baseRTT (icsk_ca_priv sk)) (minRTT (icsk_ca_priv sk)) = Some t"
  defines "d \<equiv> vegas_diff old_wnd t"
  shows "\<exists>sk'. vegas_adjust p k old_wnd (snd_cwnd sk) sk = Some sk'
    \<and> snd_cwnd sk' =
        (if vegas_beta p < d then (if snd_cwnd sk = 2 then 2 else snd_cwnd sk - 1)
         else if d < vegas_alpha p then snd_cwnd sk + 1 else snd_cwnd sk)"
proof -
  let ?w = "snd_cwnd sk"
  have e: "vegas_adjust p k old_wnd ?w sk
      = Some (vegas_clamp (sk\<lparr>snd_cwnd := vegas_toward p d ?w ?w\<rparr>))"
    using assms(1,4) by (simp add: vegas_adjust_def Let_def d_def flip: not_le)
  have "?w \<noteq> 0" using assms(3) by auto
  then have dn: "unat (?w - 1) = unat ?w - 1" by (simp add: unat_minus_one)
  have u: "2 \<le> unat ?w" "unat ?w < unat (snd_cwnd_clamp sk)" "unat (?w + 1) = unat ?w + 1"
    using assms(2,3) unat_Suc_no_wrap [OF assms(2)] by (auto simp: word_le_nat_alt word_less_nat_alt)
  have down: "\<not> ?w < ?w - 1" "?w - 1 < ?w" "?w - 1 < 2 \<longleftrightarrow> ?w = 2" "\<not> snd_cwnd_clamp sk < ?w - 1"
    using dn u by (auto simp: word_less_nat_alt u32_eq_iff)
  have up: "?w < ?w + 1" "\<not> ?w + 1 < 2" "\<not> snd_cwnd_clamp sk < ?w + 1"
    using u by (auto simp: word_less_nat_alt)
  have same: "\<not> ?w < 2" "\<not> snd_cwnd_clamp sk < ?w" using u by (auto simp: word_less_nat_alt)
  show ?thesis unfolding e vegas_toward_def vegas_clamp_def Let_def
    using down up same by auto
qed

definition sample_vegas :: vegas where
  "sample_vegas = \<lparr> beg_snd_nxt = 0, beg_snd_una = 0, beg_snd_cwnd = 30, doing_vegas_now = 1,
     cntRTT = 5, minRTT = 60000, baseRTT = 50000 \<rparr>"

theorem vegas_adjust_rule_witness:
  "\<exists>sk'. vegas_adjust vegas_default kernel_init 40 30 ((sample_sk sample_vegas)\<lparr>snd_cwnd := 30\<rparr>) = Some sk'
    \<and> snd_cwnd sk' = 29"
  using vegas_adjust_rule [of "(sample_sk sample_vegas)\<lparr>snd_cwnd := 30\<rparr>" 40 66 vegas_default kernel_init]
  by (simp add: sample_sk_def sample_vegas_def vegas_target_def vegas_diff_def vegas_default_def)

text \<open>
  a connection that runs Vegas, with any parameters, where every reported time stamp is
  less than 100 s old: it never divides by zero nor traps otherwise, the smallest round trip ever
  stays positive and at most the smallest of the window, and the window stays positive and within
  the bound it started with.
\<close>

theorem vegas_runs_safe:
  assumes "\<not> initialized ag" and "win wb (linux_sk ag)"
    and "run_env (\<lambda>_ _ _. True) rtt_env (tcp_vegas p) evs ag"
  shows "\<exists>ag'. agent_run (tcp_vegas p) evs ag = Some ag' \<and> win wb (linux_sk ag')
    \<and> (initialized ag' \<longrightarrow> 0 < baseRTT (icsk_ca_priv (linux_sk ag'))
         \<and> baseRTT (icsk_ca_priv (linux_sk ag')) \<le> minRTT (icsk_ca_priv (linux_sk ag')))"
proof -
  have "agent_inv (mod_live wb (\<lambda>_. True)) (mod_live wb vegas_ok) ag" using assms(1,2) by (simp add: agent_inv_def)
  from vegas.agent_run_ok [OF this assms(3)] show ?thesis
    by (auto simp: agent_inv_def mod_live_def vegas_ok_def split: if_splits)
qed

theorem vegas_runs_safe_witness:
  "\<exists>ag'. agent_run (tcp_vegas vegas_default) sample_run (sample_agent sample_vegas) = Some ag'
     \<and> win None (linux_sk ag')"
proof -
  have "run_env (\<lambda>_ _ _. True) rtt_env (tcp_vegas vegas_default) sample_run (sample_agent sample_vegas)"
    by (rule sample_run_env) (simp_all add: rtt_env_def sample_kernel_def)
  from vegas_runs_safe [OF _ _ this, of None] show ?thesis by (auto simp: sample_win)
qed

end
