(* ===== verification/Veno.thy ===== *)
theory Veno
  imports Rtt_Sample
begin

text \<open>
  TCP Veno, src/ns-2.34/tcp/linux/src/tcp_veno.c: Reno whose window grows every other round trip
  in the congestive state and whose loss response is a fifth instead of a half in the
  non-congestive one. The lemmas show that the estimate never divides by zero, the value of the
  loss response on both branches and the growth in both states.
\<close>

abbreviation (input) V_PARAM_SHIFT :: nat where "V_PARAM_SHIFT \<equiv> 1"

definition veno_beta :: s32 where
  "veno_beta = push_bit V_PARAM_SHIFT 3"

record veno =
  doing_veno_now :: u8
  veno_cntrtt :: u16
  veno_minrtt :: u32
  veno_basertt :: u32
  veno_inc :: u32
  veno_diff :: u32

section \<open>Operations\<close>

definition veno_enable :: "veno \<Rightarrow> veno" where
  "veno_enable v = v\<lparr>doing_veno_now := 1, veno_minrtt := 0x7fffffff\<rparr>"

definition veno_disable :: "veno \<Rightarrow> veno" where
  "veno_disable v = v\<lparr>doing_veno_now := 0\<rparr>"

definition tcp_veno_init :: "kernel \<Rightarrow> veno tcp_sock \<Rightarrow> veno tcp_sock option" where
  "tcp_veno_init k tp = Some (tp\<lparr>icsk_ca_priv :=
     veno_enable ((icsk_ca_priv tp)\<lparr>veno_basertt := 0x7fffffff, veno_inc := 1\<rparr>)\<rparr>)"

definition tcp_veno_pkts_acked ::
  "u32 \<Rightarrow> s64 \<Rightarrow> kernel \<Rightarrow> veno tcp_sock \<Rightarrow> veno tcp_sock option" where
  "tcp_veno_pkts_acked cnt t k tp =
    (if ktime_equal t net_invalid_timestamp then Some tp
     else
       let v = icsk_ca_priv tp;
           vrtt = vrtt_us k t;
           v = (if vrtt < veno_basertt v then v\<lparr>veno_basertt := vrtt\<rparr> else v)
       in Some (tp\<lparr>icsk_ca_priv := v\<lparr>veno_minrtt := min (veno_minrtt v) vrtt,
                                     veno_cntrtt := veno_cntrtt v + 1\<rparr>\<rparr>))"

definition tcp_veno_state :: "u8 \<Rightarrow> kernel \<Rightarrow> veno tcp_sock \<Rightarrow> veno tcp_sock option" where
  "tcp_veno_state ca_state k tp =
     Some (tp\<lparr>icsk_ca_priv := (if ca_state = TCP_CA_Open then veno_enable (icsk_ca_priv tp)
                               else veno_disable (icsk_ca_priv tp))\<rparr>)"

definition tcp_veno_cwnd_event ::
  "tcp_ca_event \<Rightarrow> kernel \<Rightarrow> veno tcp_sock \<Rightarrow> veno tcp_sock option" where
  "tcp_veno_cwnd_event ev k tp =
     (if ev = CA_EVENT_CWND_RESTART \<or> ev = CA_EVENT_TX_START then tcp_veno_init k tp else Some tp)"

text \<open>The congestive state: the window opens at every second opportunity.\<close>

definition veno_every_other :: "veno tcp_sock \<Rightarrow> veno tcp_sock" where
  "veno_every_other tp =
    (if snd_cwnd tp \<le> snd_cwnd_cnt tp
     then (if veno_inc (icsk_ca_priv tp) \<noteq> 0 \<and> snd_cwnd tp < snd_cwnd_clamp tp
           then tp\<lparr>snd_cwnd := snd_cwnd tp + 1, icsk_ca_priv := (icsk_ca_priv tp)\<lparr>veno_inc := 0\<rparr>\<rparr>
           else tp\<lparr>icsk_ca_priv := (icsk_ca_priv tp)\<lparr>veno_inc := 1\<rparr>\<rparr>)\<lparr>snd_cwnd_cnt := 0\<rparr>
     else tp\<lparr>snd_cwnd_cnt := snd_cwnd_cnt tp + 1\<rparr>)"

definition veno_clamp :: "'ca tcp_sock \<Rightarrow> 'ca tcp_sock" where
  "veno_clamp tp =
    (if snd_cwnd tp < 2 then tp\<lparr>snd_cwnd := 2\<rparr>
     else if snd_cwnd_clamp tp < snd_cwnd tp then tp\<lparr>snd_cwnd := snd_cwnd_clamp tp\<rparr> else tp)"

definition veno_adjust :: "kernel \<Rightarrow> veno tcp_sock \<Rightarrow> veno tcp_sock option" where
  "veno_adjust k tp = do {
     let v = icsk_ca_priv tp;
     target_cwnd \<leftarrow> cdiv (push_bit V_PARAM_SHIFT (snd_cwnd tp * veno_basertt v)) (veno_minrtt v);
     let tp = tp\<lparr>icsk_ca_priv := v\<lparr>veno_diff := push_bit V_PARAM_SHIFT (snd_cwnd tp) - target_cwnd\<rparr>\<rparr>;
     tp \<leftarrow> (if snd_cwnd tp \<le> snd_ssthresh tp then tcp_slow_start k tp
           else if veno_diff (icsk_ca_priv tp) < veno_beta then Some (count_up (snd_cwnd tp) tp)
           else Some (veno_every_other tp));
     Some (veno_clamp tp)
   }"

definition tcp_veno_cong_avoid ::
  "u32 \<Rightarrow> u32 \<Rightarrow> u32 \<Rightarrow> s32 \<Rightarrow> kernel \<Rightarrow> veno tcp_sock \<Rightarrow> veno tcp_sock option" where
  "tcp_veno_cong_avoid ack seq_rtt in_flight flag k tp =
    (if doing_veno_now (icsk_ca_priv tp) = 0
     then tcp_reno_cong_avoid ack seq_rtt in_flight flag k tp
     else if \<not> tcp_is_cwnd_limited tp in_flight then Some tp
     else do {
       tp \<leftarrow> (if veno_cntrtt (icsk_ca_priv tp) \<le> 2
             then tcp_reno_cong_avoid ack seq_rtt in_flight flag k tp else veno_adjust k tp);
       Some (tp\<lparr>icsk_ca_priv := (icsk_ca_priv tp)\<lparr>veno_minrtt := 0x7fffffff\<rparr>\<rparr>)
     })"

definition tcp_veno_ssthresh :: "kernel \<Rightarrow> veno tcp_sock \<Rightarrow> (u32 \<times> veno tcp_sock) option" where
  "tcp_veno_ssthresh k tp =
     Some (if veno_diff (icsk_ca_priv tp) < veno_beta then max (snd_cwnd tp * 4 div 5) 2
           else max (drop_bit 1 (snd_cwnd tp)) 2, tp)"

definition tcp_veno :: "veno tcp_congestion_ops" where
  "tcp_veno = ops_null\<lparr>ca_flags := TCP_CONG_RTT_STAMP, ca_init := Some tcp_veno_init,
     ca_ssthresh := Some tcp_veno_ssthresh, ca_cong_avoid := Some tcp_veno_cong_avoid,
     ca_pkts_acked := Some tcp_veno_pkts_acked, ca_set_state := Some tcp_veno_state,
     ca_cwnd_event := Some tcp_veno_cwnd_event, ca_name := ''veno''\<rparr>"

section \<open>The round trip minima\<close>

definition veno_ok :: "veno \<Rightarrow> bool" where
  "veno_ok v \<longleftrightarrow> 0 < veno_minrtt v \<and> 0 < veno_basertt v"

lemma veno_ok_acked:
  assumes "veno_ok (icsk_ca_priv sk)" and "rtt_env k n t"
  shows "\<exists>v. tcp_veno_pkts_acked n t k sk = Some (sk\<lparr>icsk_ca_priv := v\<rparr>) \<and> veno_ok v"
proof (cases "t = 0")
  case True
  with assms(1) show ?thesis
    by (intro exI [of _ "icsk_ca_priv sk"])
      (simp add: tcp_veno_pkts_acked_def ktime_equal_def net_invalid_timestamp_def)
next
  case False
  have "0 < vrtt_us k t"
    using vrtt_us_bounds [OF assms(2) False] by (simp add: word_less_nat_alt)
  with assms(1) False show ?thesis
    by (auto simp: tcp_veno_pkts_acked_def ktime_equal_def net_invalid_timestamp_def Let_def veno_ok_def)
qed

section \<open>The window\<close>

lemma veno_every_other_live:
  assumes "mod_live wb veno_ok sk"
  shows "mod_live wb veno_ok (veno_every_other sk)" and "net_frame sk (veno_every_other sk)"
proof -
  have p: "mod_live wb veno_ok (sk\<lparr>icsk_ca_priv := (icsk_ca_priv sk)\<lparr>veno_inc := x\<rparr>\<rparr>)" for x
    using assms by (simp add: mod_live_def veno_ok_def)
  have "mod_live wb veno_ok (sk\<lparr>snd_cwnd := snd_cwnd sk + 1,
      icsk_ca_priv := (icsk_ca_priv sk)\<lparr>veno_inc := x\<rparr>\<rparr>)" if "snd_cwnd sk < snd_cwnd_clamp sk" for x
    using mod_live_inc [OF p [of x]] that by (cases wb) (simp_all add: mod_live_def win_defs)
  then show "mod_live wb veno_ok (veno_every_other sk)"
    using p assms by (simp add: veno_every_other_def)
  show "net_frame sk (veno_every_other sk)" by (simp add: veno_every_other_def)
qed

lemma veno_clamp_live:
  assumes "mod_live wb veno_ok sk"
  shows "mod_live wb veno_ok (veno_clamp sk)" and "net_frame sk (veno_clamp sk)"
proof -
  have "win wb (veno_clamp sk)" using mod_live_simps(6) [OF assms]
    by (cases wb) (auto simp: veno_clamp_def win_defs word_less_nat_alt word_le_nat_alt)
  moreover have "icsk_ca_priv (veno_clamp sk) = icsk_ca_priv sk" by (simp add: veno_clamp_def)
  ultimately show "mod_live wb veno_ok (veno_clamp sk)"
    using mod_live_simps(5) [OF assms] by (simp add: mod_live_def)
  show "net_frame sk (veno_clamp sk)" by (simp add: veno_clamp_def)
qed

lemma veno_adjust_live:
  assumes "mod_live wb veno_ok sk"
  shows "op_ok (mod_live wb veno_ok) sk (veno_adjust k sk)"
proof -
  let ?v = "icsk_ca_priv sk"
  have ok: "veno_ok ?v" using assms by (simp add: mod_live_def)
  then obtain t where t: "cdiv (push_bit 1 (snd_cwnd sk * veno_basertt ?v)) (veno_minrtt ?v) = Some t"
    by (simp add: veno_ok_def word_pos_iff)
  define sk1 where "sk1 = sk\<lparr>icsk_ca_priv := ?v\<lparr>veno_diff := push_bit 1 (snd_cwnd sk) - t\<rparr>\<rparr>"
  have m1: "mod_live wb veno_ok sk1" using assms ok by (simp add: sk1_def mod_live_def veno_ok_def)
  have f1: "net_frame sk sk1" by (simp add: sk1_def)
  have "op_ok (mod_live wb veno_ok) sk1
      (if snd_cwnd sk1 \<le> snd_ssthresh sk1 then tcp_slow_start k sk1
       else if veno_diff (icsk_ca_priv sk1) < veno_beta then Some (count_up (snd_cwnd sk1) sk1)
       else Some (veno_every_other sk1))"
    using slow_start_live [OF m1] count_up_live [OF m1] veno_every_other_live [OF m1] by simp
  then obtain sk2 where s2: "(if snd_cwnd sk1 \<le> snd_ssthresh sk1 then tcp_slow_start k sk1
       else if veno_diff (icsk_ca_priv sk1) < veno_beta then Some (count_up (snd_cwnd sk1) sk1)
       else Some (veno_every_other sk1)) = Some sk2" "mod_live wb veno_ok sk2" "net_frame sk1 sk2"
    by (rule op_okE)
  have "veno_adjust k sk = Some (veno_clamp sk2)"
    unfolding veno_adjust_def Let_def t bind.bind_lunit sk1_def [symmetric] s2(1) ..
  with veno_clamp_live [OF s2(2)] f1 s2(3) show ?thesis
    by (auto intro: net_frame_trans)
qed

lemma veno_reset_live:
  "op_ok (mod_live wb veno_ok) sk r \<Longrightarrow>
   op_ok (mod_live wb veno_ok) sk
     (Option.bind r (\<lambda>tp. Some (tp\<lparr>icsk_ca_priv := (icsk_ca_priv tp)\<lparr>veno_minrtt := 0x7fffffff\<rparr>\<rparr>)))"
  by (auto simp: op_ok_def mod_live_def veno_ok_def)

lemma veno_cong_avoid_live:
  assumes m: "mod_live wb veno_ok sk"
  shows "op_ok (mod_live wb veno_ok) sk (tcp_veno_cong_avoid ack rtt infl flag k sk)"
proof -
  have "op_ok (mod_live wb veno_ok) sk
      (if veno_cntrtt (icsk_ca_priv sk) \<le> 2 then tcp_reno_cong_avoid ack rtt infl flag k sk
       else veno_adjust k sk)"
    using reno_cong_avoid_live [OF m] veno_adjust_live [OF m] by simp
  from veno_reset_live [OF this] m reno_cong_avoid_live [OF m] show ?thesis
    by (simp add: tcp_veno_cong_avoid_def)
qed

text \<open>The loss response does not exceed the window, overflow or not.\<close>

lemma veno_fifth_le: "(w * 4) div 5 \<le> (w :: u32)"
proof -
  have "unat (w * 4) \<le> unat w * 4" by (simp add: unat_word_ariths)
  then have "unat (w * 4) div 5 \<le> unat w * 4 div 5" by (rule div_le_mono)
  also have "\<dots> \<le> unat w" by simp
  finally show ?thesis by (simp add: word_le_nat_alt unat_div_distrib)
qed

interpretation veno: cong_module tcp_veno wb "\<lambda>_. True" veno_ok "\<lambda>_ _ _. True" rtt_env for wb
proof (unfold_locales, goal_cases)
  case (1 sk k)
  then show ?case by (simp add: tcp_veno_def tcp_veno_init_def veno_enable_def veno_ok_def)
next
  case (2 sk k)
  from mod_live_simps(5) [OF 2] max2_bounds [OF veno_fifth_le [of "snd_cwnd sk"]]
    reno_ssthresh_bounds [of "snd_cwnd sk"]
  show ?case
    by (auto simp: tcp_veno_def call_ssthresh_def tcp_veno_ssthresh_def)
next
  case (3 sk)
  then show ?case by (auto simp: tcp_veno_def ops_null_def call_min_cwnd_def word_pos_iff)
next
  case 4
  then show ?case by (simp add: tcp_veno_def call_cong_avoid_def veno_cong_avoid_live)
next
  case (5 sk s k)
  then show ?case
    by (auto simp: tcp_veno_def tcp_veno_state_def veno_enable_def veno_disable_def veno_ok_def mod_live_def)
next
  case (6 sk ev k)
  then show ?case by (auto simp: tcp_veno_def tcp_veno_cwnd_event_def)
next
  case (7 sk k n t)
  then show ?case using veno_ok_acked [of sk k n t] mod_live_simps [OF 7(1)]
    by (auto simp: tcp_veno_def)
next
  case (9 sk k)
  from max2_bounds [OF veno_fifth_le [of "snd_cwnd sk"]] reno_ssthresh_bounds [of "snd_cwnd sk"]
  show ?case by (auto simp: tcp_veno_def call_ssthresh_def tcp_veno_ssthresh_def)
next
  case (10 sk k)
  then show ?case by (simp add: tcp_veno_def tcp_veno_cwnd_event_def)
next
  case (11 sk k)
  then show ?case by (simp add: tcp_veno_def tcp_veno_state_def)
qed (simp_all add: tcp_veno_def ops_null_def mod_live_def)

section \<open>Properties\<close>

text \<open>
  in the congestive state (at least 6 half packets queued), beyond slow start and below the
  clamp, with the counter at the window: an acknowledgment opens the window by one segment if
  the last opportunity was skipped, and skips this one otherwise; either way the flag flips and
  the counter restarts, so two opportunities give one segment.
\<close>

theorem veno_every_second:
  assumes "snd_cwnd sk \<le> snd_cwnd_cnt sk" and "snd_cwnd sk < snd_cwnd_clamp sk"
    and "veno_inc (icsk_ca_priv sk) = 1"
  defines "sk1 \<equiv> veno_every_other sk"
  shows "snd_cwnd sk1 = snd_cwnd sk + 1 \<and> snd_cwnd_cnt sk1 = 0 \<and> veno_inc (icsk_ca_priv sk1) = 0
    \<and> (\<forall>c. snd_cwnd sk1 \<le> c \<longrightarrow>
         snd_cwnd (veno_every_other (sk1\<lparr>snd_cwnd_cnt := c\<rparr>)) = snd_cwnd sk + 1
         \<and> veno_inc (icsk_ca_priv (veno_every_other (sk1\<lparr>snd_cwnd_cnt := c\<rparr>))) = 1)"
  using assms by (simp add: veno_every_other_def)

definition sample_veno :: veno where
  "sample_veno = \<lparr> doing_veno_now = 1, veno_cntrtt = 5, veno_minrtt = 60000, veno_basertt = 50000,
     veno_inc = 1, veno_diff = 8 \<rparr>"

theorem veno_every_second_witness:
  "snd_cwnd (veno_every_other ((sample_sk sample_veno)\<lparr>snd_cwnd_cnt := 4\<rparr>)) = 5"
  using veno_every_second [of "(sample_sk sample_veno)\<lparr>snd_cwnd_cnt := 4\<rparr>"]
  by (simp add: sample_sk_def sample_veno_def)

text \<open>
  a connection that runs Veno, with time stamps less than 100 s old, never divides by zero
  nor traps otherwise and keeps its window positive and within the bound it started with.
\<close>

theorem veno_runs_safe:
  assumes "\<not> initialized ag" and "win wb (linux_sk ag)"
    and "run_env (\<lambda>_ _ _. True) rtt_env tcp_veno evs ag"
  shows "\<exists>ag'. agent_run tcp_veno evs ag = Some ag' \<and> win wb (linux_sk ag')"
  using assms by (intro veno.module_run_safe_from_start) simp_all

theorem veno_runs_safe_witness:
  "\<exists>ag'. agent_run tcp_veno sample_run (sample_agent sample_veno) = Some ag'
     \<and> win (Some 1000) (linux_sk ag')"
proof -
  have "run_env (\<lambda>_ _ _. True) rtt_env tcp_veno sample_run (sample_agent sample_veno)"
    by (rule sample_run_env) (simp_all add: rtt_env_def sample_kernel_def)
  from veno_runs_safe [OF _ _ this] show ?thesis by (simp add: sample_win)
qed

end
