(* ===== verification/Yeah.thy ===== *)
theory Yeah
  imports Vegas
begin

text \<open>
  YeAH TCP, src/ns-2.34/tcp/linux/src/tcp_yeah.c: Scalable growth while the queue that Vegas'
  round trip minima indicate is short, Reno growth and early decongestion while it is long. The
  lemmas give the value of the queue estimate, the effect of decongestion, the loss response for
  windows of at least 4 segments, and what happens below: the loss response can be 0 or wrap to
  the largest 32-bit value, so YeAH does not meet the contract of \<open>Cong_Interface\<close>.
\<close>

abbreviation (input) TCP_YEAH_ALPHA :: u32 where "TCP_YEAH_ALPHA \<equiv> 80"
abbreviation (input) TCP_YEAH_GAMMA :: u32 where "TCP_YEAH_GAMMA \<equiv> 1"
abbreviation (input) TCP_YEAH_DELTA :: nat where "TCP_YEAH_DELTA \<equiv> 3"
abbreviation (input) TCP_YEAH_EPSILON :: nat where "TCP_YEAH_EPSILON \<equiv> 1"
abbreviation (input) TCP_YEAH_PHY :: u32 where "TCP_YEAH_PHY \<equiv> 8"
abbreviation (input) TCP_YEAH_RHO :: u32 where "TCP_YEAH_RHO \<equiv> 16"
abbreviation (input) TCP_YEAH_ZETA :: u32 where "TCP_YEAH_ZETA \<equiv> 50"
abbreviation (input) YEAH_SCALABLE_AI_CNT :: u32 where "YEAH_SCALABLE_AI_CNT \<equiv> 100"

record yeah =
  yeah_vegas :: vegas
  lastQ :: u32
  doing_reno_now :: u32
  reno_count :: u32
  fast_count :: u32
  yeah_acked :: u32

section \<open>Operations\<close>

definition tcp_yeah_init :: "kernel \<Rightarrow> yeah tcp_sock \<Rightarrow> yeah tcp_sock option" where
  "tcp_yeah_init k tp =
    (let y = icsk_ca_priv tp
     in Some (tp\<lparr>icsk_ca_priv := y\<lparr>yeah_vegas := tcp_vegas_init tp (yeah_vegas y),
                   doing_reno_now := 0, lastQ := 0, reno_count := 2\<rparr>,
                 snd_cwnd_clamp := min (snd_cwnd_clamp tp) (0xFFFFFFFF div 128)\<rparr>))"

definition tcp_yeah_pkts_acked ::
  "u32 \<Rightarrow> s64 \<Rightarrow> kernel \<Rightarrow> yeah tcp_sock \<Rightarrow> yeah tcp_sock option" where
  "tcp_yeah_pkts_acked pkts_acked t k tp =
    (let y = icsk_ca_priv tp;
         y = (if icsk_ca_state tp = TCP_CA_Open then y\<lparr>yeah_acked := pkts_acked\<rparr> else y)
     in Some (tp\<lparr>icsk_ca_priv := y\<lparr>yeah_vegas := tcp_vegas_pkts_acked t k (yeah_vegas y)\<rparr>\<rparr>))"

text \<open>The two ways to grow.\<close>

definition yeah_scalable :: "yeah tcp_sock \<Rightarrow> yeah tcp_sock" where
  "yeah_scalable tp =
    (let tp = tp\<lparr>snd_cwnd_cnt := snd_cwnd_cnt tp + yeah_acked (icsk_ca_priv tp)\<rparr>;
         tp = (if min (snd_cwnd tp) YEAH_SCALABLE_AI_CNT < snd_cwnd_cnt tp
               then (if snd_cwnd tp < snd_cwnd_clamp tp then tp\<lparr>snd_cwnd := snd_cwnd tp + 1\<rparr> else tp)
                      \<lparr>snd_cwnd_cnt := 0\<rparr>
               else tp)
     in tp\<lparr>icsk_ca_priv := (icsk_ca_priv tp)\<lparr>yeah_acked := 1\<rparr>\<rparr>)"

definition yeah_reno :: "yeah tcp_sock \<Rightarrow> yeah tcp_sock" where
  "yeah_reno tp =
    (let tp = (if snd_cwnd_cnt tp < snd_cwnd tp then tp\<lparr>snd_cwnd_cnt := snd_cwnd_cnt tp + 1\<rparr> else tp)
     in if snd_cwnd tp \<le> snd_cwnd_cnt tp
        then tp\<lparr>snd_cwnd := snd_cwnd tp + 1, snd_cwnd_cnt := 0\<rparr> else tp)"

text \<open>The queue at the bottleneck, and the reaction to it.\<close>

definition yeah_queue :: "u32 \<Rightarrow> u32 \<Rightarrow> u32 \<Rightarrow> u32 option" where
  "yeah_queue cwnd rtt base = map_option ucast (do_div (ucast cwnd * ucast (rtt - base)) rtt)"

definition yeah_decongest :: "u32 \<Rightarrow> yeah tcp_sock \<Rightarrow> yeah tcp_sock" where
  "yeah_decongest queue tp =
    (if TCP_YEAH_ALPHA < queue \<and> reno_count (icsk_ca_priv tp) < snd_cwnd tp
     then let reduction = min (queue div TCP_YEAH_GAMMA) (drop_bit TCP_YEAH_EPSILON (snd_cwnd tp));
              tp = tp\<lparr>snd_cwnd := snd_cwnd tp - reduction\<rparr>;
              tp = tp\<lparr>snd_cwnd := max (snd_cwnd tp) (reno_count (icsk_ca_priv tp))\<rparr>
          in tp\<lparr>snd_ssthresh := snd_cwnd tp\<rparr>
     else tp)"

definition yeah_congested :: "u32 \<Rightarrow> yeah tcp_sock \<Rightarrow> yeah tcp_sock" where
  "yeah_congested queue tp =
    (let tp = yeah_decongest queue tp;
         y = icsk_ca_priv tp
     in tp\<lparr>icsk_ca_priv :=
          y\<lparr>reno_count := (if reno_count y \<le> 2 then max (drop_bit 1 (snd_cwnd tp)) 2
                           else reno_count y + 1),
            doing_reno_now := min (doing_reno_now y + 1) 0xffffff\<rparr>\<rparr>)"

definition yeah_uncongested :: "yeah tcp_sock \<Rightarrow> yeah tcp_sock" where
  "yeah_uncongested tp =
    (let y = (icsk_ca_priv tp)\<lparr>fast_count := fast_count (icsk_ca_priv tp) + 1\<rparr>;
         y = (if TCP_YEAH_ZETA < fast_count y then y\<lparr>reno_count := 2, fast_count := 0\<rparr> else y)
     in tp\<lparr>icsk_ca_priv := y\<lparr>doing_reno_now := 0\<rparr>\<rparr>)"

text \<open>The end of a round trip.\<close>

definition yeah_evaluate :: "yeah tcp_sock \<Rightarrow> yeah tcp_sock option" where
  "yeah_evaluate tp = do {
     let v = yeah_vegas (icsk_ca_priv tp);
     let rtt = minRTT v;
     queue \<leftarrow> yeah_queue (snd_cwnd tp) rtt (baseRTT v);
     let tp = (if TCP_YEAH_ALPHA < queue \<or> baseRTT v div TCP_YEAH_PHY < rtt - baseRTT v
               then yeah_congested queue tp else yeah_uncongested tp);
     Some (tp\<lparr>icsk_ca_priv := (icsk_ca_priv tp)\<lparr>lastQ := queue\<rparr>\<rparr>)
   }"

definition yeah_round :: "yeah tcp_sock \<Rightarrow> yeah tcp_sock option" where
  "yeah_round tp = do {
     tp \<leftarrow> (if 2 < cntRTT (yeah_vegas (icsk_ca_priv tp)) then yeah_evaluate tp else Some tp);
     let v = yeah_vegas (icsk_ca_priv tp);
     Some (tp\<lparr>icsk_ca_priv := (icsk_ca_priv tp)\<lparr>yeah_vegas :=
       v\<lparr>beg_snd_una := beg_snd_nxt v, beg_snd_nxt := snd_nxt tp, beg_snd_cwnd := snd_cwnd tp,
         cntRTT := 0, minRTT := 0x7fffffff\<rparr>\<rparr>\<rparr>)
   }"

definition tcp_yeah_cong_avoid ::
  "u32 \<Rightarrow> u32 \<Rightarrow> u32 \<Rightarrow> s32 \<Rightarrow> kernel \<Rightarrow> yeah tcp_sock \<Rightarrow> yeah tcp_sock option" where
  "tcp_yeah_cong_avoid ack seq_rtt in_flight flag k tp =
    (if \<not> tcp_is_cwnd_limited tp in_flight then Some tp
     else do {
       tp \<leftarrow> (if snd_cwnd tp \<le> snd_ssthresh tp then tcp_slow_start k tp
             else if doing_reno_now (icsk_ca_priv tp) = 0 then Some (yeah_scalable tp)
             else Some (yeah_reno tp));
       if after ack (beg_snd_nxt (yeah_vegas (icsk_ca_priv tp))) then yeah_round tp else Some tp
     })"

definition yeah_reduction :: "u32 \<Rightarrow> yeah \<Rightarrow> u32" where
  "yeah_reduction cwnd y =
    (if doing_reno_now y < TCP_YEAH_RHO
     then max (min (lastQ y) (max (drop_bit 1 cwnd) 2)) (drop_bit TCP_YEAH_DELTA cwnd)
     else max (drop_bit 1 cwnd) 2)"

definition tcp_yeah_ssthresh :: "kernel \<Rightarrow> yeah tcp_sock \<Rightarrow> (u32 \<times> yeah tcp_sock) option" where
  "tcp_yeah_ssthresh k tp =
    (let y = icsk_ca_priv tp;
         reduction = yeah_reduction (snd_cwnd tp) y
     in Some (snd_cwnd tp - reduction,
              tp\<lparr>icsk_ca_priv := y\<lparr>fast_count := 0, reno_count := max (drop_bit 1 (reno_count y)) 2\<rparr>\<rparr>))"

definition tcp_yeah :: "yeah tcp_congestion_ops" where
  "tcp_yeah = ops_null\<lparr>ca_flags := TCP_CONG_RTT_STAMP, ca_init := Some tcp_yeah_init,
     ca_ssthresh := Some tcp_yeah_ssthresh, ca_cong_avoid := Some tcp_yeah_cong_avoid,
     ca_min_cwnd := Some tcp_reno_min_cwnd,
     ca_set_state := Some (\<lambda>s k tp. Some (tp\<lparr>icsk_ca_priv := (icsk_ca_priv tp)
       \<lparr>yeah_vegas := tcp_vegas_state s tp (yeah_vegas (icsk_ca_priv tp))\<rparr>\<rparr>)),
     ca_cwnd_event := Some (\<lambda>ev k tp. Some (tp\<lparr>icsk_ca_priv := (icsk_ca_priv tp)
       \<lparr>yeah_vegas := tcp_vegas_cwnd_event ev tp (yeah_vegas (icsk_ca_priv tp))\<rparr>\<rparr>)),
     ca_get_info := Some tcp_vegas_get_info, ca_pkts_acked := Some tcp_yeah_pkts_acked,
     ca_name := ''yeah''\<rparr>"

section \<open>The queue estimate\<close>

lemma yeah_queue_exact:
  assumes "0 < rtt" and "base \<le> rtt"
  shows "\<exists>q. yeah_queue cwnd rtt base = Some q
    \<and> unat q = unat cwnd * (unat rtt - unat base) div unat rtt \<and> q \<le> cwnd"
proof -
  let ?d = "ucast cwnd * ucast (rtt - base) :: u64"
  have r: "0 < unat rtt" "rtt \<noteq> 0" using assms(1) by (auto simp: word_less_nat_alt)
  have b: "unat (rtt - base) = unat rtt - unat base" using assms(2) by (rule unat_minus_le)
  have "unat cwnd * (unat rtt - unat base) \<le> 4294967295 * 4294967295"
    using unat_le_u32 [of cwnd] unat_le_u32 [of rtt] by (intro mult_le_mono) linarith+
  then have d: "unat ?d = unat cwnd * (unat rtt - unat base)"
    using unat_mult_lem [of "ucast cwnd :: u64" "ucast (rtt - base)"] b by simp
  have "unat cwnd * (unat rtt - unat base) \<le> unat cwnd * unat rtt" by simp
  then have "unat cwnd * (unat rtt - unat base) div unat rtt \<le> unat cwnd * unat rtt div unat rtt"
    by (rule div_le_mono)
  then have le: "unat cwnd * (unat rtt - unat base) div unat rtt \<le> unat cwnd" using r by simp
  have u: "unat (?d div ucast rtt) = unat cwnd * (unat rtt - unat base) div unat rtt"
    by (simp only: unat_div_distrib d unat_ucast_u64)
  moreover have "unat (?d div ucast rtt) < 2 ^ 32"
    unfolding u using le unat_lt2p_u32 [of cwnd] by (simp del: unat_lt2p_u32)
  ultimately show ?thesis using r le
    by (auto simp: yeah_queue_def do_div_Some unat_low_word word_le_nat_alt)
qed

section \<open>Safety of congestion avoidance\<close>

definition yeah_ok :: "yeah \<Rightarrow> bool" where
  "yeah_ok y \<longleftrightarrow> vegas_ok (yeah_vegas y)"

lemma yeah_steps_ok [simp]:
  "yeah_ok (icsk_ca_priv (yeah_scalable tp)) = yeah_ok (icsk_ca_priv tp)"
  "yeah_ok (icsk_ca_priv (yeah_reno tp)) = yeah_ok (icsk_ca_priv tp)"
  "yeah_ok (icsk_ca_priv (yeah_congested q tp)) = yeah_ok (icsk_ca_priv tp)"
  "yeah_ok (icsk_ca_priv (yeah_uncongested tp)) = yeah_ok (icsk_ca_priv tp)"
  by (simp_all add: yeah_scalable_def yeah_reno_def yeah_congested_def yeah_decongest_def
      yeah_uncongested_def Let_def yeah_ok_def)

lemma yeah_round_Some:
  assumes "yeah_ok (icsk_ca_priv tp)"
  shows "\<exists>tp'. yeah_round tp = Some tp' \<and> yeah_ok (icsk_ca_priv tp')"
proof -
  let ?v = "yeah_vegas (icsk_ca_priv tp)"
  have v: "0 < minRTT ?v" "baseRTT ?v \<le> minRTT ?v"
    using assms by (auto simp: yeah_ok_def vegas_ok_def)
  have reset: "vegas_ok (v\<lparr>beg_snd_una := a, beg_snd_nxt := b, beg_snd_cwnd := c,
      cntRTT := 0, minRTT := 0x7fffffff\<rparr>)" if "vegas_ok v" for v a b c
    using that by (auto simp: vegas_ok_def intro: order.trans)
  from yeah_queue_exact [OF v, of "snd_cwnd tp"] obtain q where
    q: "yeah_queue (snd_cwnd tp) (minRTT ?v) (baseRTT ?v) = Some q" by blast
  have lq: "yeah_ok (y\<lparr>lastQ := q\<rparr>) = yeah_ok y" for y by (simp add: yeah_ok_def)
  have "\<exists>tp'. yeah_evaluate tp = Some tp' \<and> yeah_ok (icsk_ca_priv tp')"
    using assms by (simp add: yeah_evaluate_def Let_def q lq)
  with assms reset show ?thesis by (auto simp: yeah_round_def Let_def yeah_ok_def)
qed

lemma yeah_cong_avoid_Some:
  assumes "yeah_ok (icsk_ca_priv tp)" and "0 < snd_cwnd tp"
  shows "\<exists>tp'. tcp_yeah_cong_avoid ack rtt infl flag k tp = Some tp' \<and> yeah_ok (icsk_ca_priv tp')"
proof -
  from slow_start_win_step [OF assms(2), of k] obtain sk where
    "tcp_slow_start k tp = Some sk" "icsk_ca_priv sk = icsk_ca_priv tp"
    by (auto simp: win_step_def)
  then have "\<exists>tp1. (if snd_cwnd tp \<le> snd_ssthresh tp then tcp_slow_start k tp
      else if doing_reno_now (icsk_ca_priv tp) = 0 then Some (yeah_scalable tp)
      else Some (yeah_reno tp)) = Some tp1 \<and> yeah_ok (icsk_ca_priv tp1)"
    using assms(1) by simp
  then obtain tp1 where t1: "(if snd_cwnd tp \<le> snd_ssthresh tp then tcp_slow_start k tp
      else if doing_reno_now (icsk_ca_priv tp) = 0 then Some (yeah_scalable tp)
      else Some (yeah_reno tp)) = Some tp1" "yeah_ok (icsk_ca_priv tp1)" by blast
  show ?thesis
    unfolding tcp_yeah_cong_avoid_def t1(1) bind.bind_lunit
    using yeah_round_Some [OF t1(2)] t1(2) assms(1) by auto
qed

section \<open>The loss response\<close>

lemma yeah_reduction_bounds:
  assumes "4 \<le> cwnd"
  shows "unat cwnd div 8 \<le> unat (yeah_reduction cwnd y)"
    and "unat (yeah_reduction cwnd y) \<le> unat cwnd div 2"
proof -
  have w: "4 \<le> unat cwnd" using assms by (simp add: word_le_nat_alt)
  have h: "unat (drop_bit 1 cwnd) = unat cwnd div 2" "unat (drop_bit 3 cwnd) = unat cwnd div 8"
    by (simp_all add: unat_shr)
  have "2 \<le> drop_bit 1 cwnd" using h w by (simp add: word_le_nat_alt)
  then have m: "max (drop_bit 1 cwnd) 2 = drop_bit 1 cwnd" by (simp add: max_def)
  have mm: "unat (max a b) = max (unat a) (unat b)" "unat (min a b) = min (unat a) (unat b)"
    for a b :: u32 by (simp_all add: max_def min_def word_le_nat_alt)
  show "unat cwnd div 8 \<le> unat (yeah_reduction cwnd y)"
    and "unat (yeah_reduction cwnd y) \<le> unat cwnd div 2"
    unfolding yeah_reduction_def m using h by (auto simp: mm)
qed

section \<open>Properties\<close>

text \<open>
  congestion avoidance of YeAH returns on every acknowledgment when the round trip minima
  satisfy Vegas' invariant (smallest ever positive and at most the smallest of the window) and the
  window is positive, and keeps the invariant: no division by zero, the slow start loop ends.
\<close>

theorem yeah_cong_avoid_defined:
  assumes "vegas_ok (yeah_vegas (icsk_ca_priv tp))" and "0 < snd_cwnd tp"
  shows "\<exists>tp'. tcp_yeah_cong_avoid ack rtt infl flag k tp = Some tp'
    \<and> vegas_ok (yeah_vegas (icsk_ca_priv tp'))"
  using yeah_cong_avoid_Some [of tp] assms by (simp add: yeah_ok_def)

definition sample_yeah :: yeah where
  "sample_yeah = \<lparr> yeah_vegas = sample_vegas, lastQ = 10, doing_reno_now = 16, reno_count = 2,
     fast_count = 0, yeah_acked = 1 \<rparr>"

theorem yeah_cong_avoid_defined_witness:
  "\<exists>tp'. tcp_yeah_cong_avoid 5000 40 9 1 kernel_init (sample_sk sample_yeah) = Some tp'
    \<and> vegas_ok (yeah_vegas (icsk_ca_priv tp'))"
  using yeah_cong_avoid_defined [of "sample_sk sample_yeah"]
  by (simp add: sample_sk_def sample_yeah_def sample_vegas_def vegas_ok_def)

text \<open>
  early decongestion: a queue of more than 80 packets takes the queue off the window, but
  not more than half of it and not below \<open>reno_count\<close>, and the threshold becomes the window.
\<close>

theorem yeah_decongest_bounds:
  assumes "80 < queue" and "reno_count (icsk_ca_priv tp) < snd_cwnd tp"
  shows "unat (snd_cwnd (yeah_decongest queue tp))
      = max (unat (snd_cwnd tp) - min (unat queue) (unat (snd_cwnd tp) div 2))
          (unat (reno_count (icsk_ca_priv tp)))
    \<and> snd_cwnd (yeah_decongest queue tp) \<le> snd_cwnd tp
    \<and> snd_ssthresh (yeah_decongest queue tp) = snd_cwnd (yeah_decongest queue tp)"
proof -
  let ?w = "snd_cwnd tp" and ?r = "reno_count (icsk_ca_priv tp)"
  let ?m = "min (queue div 1) (drop_bit 1 ?w)"
  have mm: "unat (max a b) = max (unat a) (unat b)" "unat (min a b) = min (unat a) (unat b)"
    for a b :: u32 by (simp_all add: max_def min_def word_le_nat_alt)
  have m: "unat ?m = min (unat queue) (unat ?w div 2)"
    by (simp only: mm unat_shr div_by_1 power_one_right)
  have "?m \<le> ?w" unfolding word_le_nat_alt m by linarith
  then have "unat (?w - ?m) = unat ?w - min (unat queue) (unat ?w div 2)"
    unfolding m [symmetric] by (rule unat_minus_le)
  then have "unat (max (?w - ?m) ?r) = max (unat ?w - min (unat queue) (unat ?w div 2)) (unat ?r)"
    by (simp only: mm)
  moreover have "snd_cwnd (yeah_decongest queue tp) = max (?w - ?m) ?r"
    "snd_ssthresh (yeah_decongest queue tp) = max (?w - ?m) ?r"
    using assms by (simp_all add: yeah_decongest_def Let_def)
  moreover have "unat ?r < unat ?w" using assms(2) by (simp add: word_less_nat_alt)
  ultimately show ?thesis by (simp only: word_le_nat_alt) simp
qed

theorem yeah_decongest_bounds_witness:
  "unat (snd_cwnd (yeah_decongest 90 ((sample_sk sample_yeah)\<lparr>snd_cwnd := 300\<rparr>))) = 210"
  using yeah_decongest_bounds [of 90 "(sample_sk sample_yeah)\<lparr>snd_cwnd := 300\<rparr>"]
  by (simp add: sample_sk_def sample_yeah_def)

text \<open>
  the loss response of YeAH. From 4 segments on it takes between an eighth and a half of
  the window off. With 1 or 2 segments in competition mode it takes 2 off: a window of 2 leads to
  a threshold of 0, a window of 1 to the largest 32-bit value.
\<close>

theorem yeah_ssthresh_bounds:
  assumes "tcp_yeah_ssthresh k tp = Some (v, tp')"
  shows "(4 \<le> snd_cwnd tp \<longrightarrow> unat (snd_cwnd tp) - unat (snd_cwnd tp) div 2 \<le> unat v
        \<and> unat v \<le> unat (snd_cwnd tp) - unat (snd_cwnd tp) div 8)
    \<and> (16 \<le> doing_reno_now (icsk_ca_priv tp) \<longrightarrow> snd_cwnd tp = 2 \<longrightarrow> v = 0)
    \<and> (16 \<le> doing_reno_now (icsk_ca_priv tp) \<longrightarrow> snd_cwnd tp = 1 \<longrightarrow> v = 0xFFFFFFFF)"
proof (intro conjI impI)
  let ?r = "yeah_reduction (snd_cwnd tp) (icsk_ca_priv tp)"
  have v: "v = snd_cwnd tp - ?r" using assms by (simp add: tcp_yeah_ssthresh_def Let_def)
  show "unat (snd_cwnd tp) - unat (snd_cwnd tp) div 2 \<le> unat v"
    "unat v \<le> unat (snd_cwnd tp) - unat (snd_cwnd tp) div 8" if "4 \<le> snd_cwnd tp"
  proof -
    note b = yeah_reduction_bounds [OF that, of "icsk_ca_priv tp"]
    then have "unat v = unat (snd_cwnd tp) - unat ?r"
      unfolding v by (intro unat_minus_le) (simp add: word_le_nat_alt)
    with b show "unat (snd_cwnd tp) - unat (snd_cwnd tp) div 2 \<le> unat v"
      "unat v \<le> unat (snd_cwnd tp) - unat (snd_cwnd tp) div 8" by linarith+
  qed
  show "v = 0" if "16 \<le> doing_reno_now (icsk_ca_priv tp)" "snd_cwnd tp = 2"
    using that by (simp add: v yeah_reduction_def leD)
  show "v = 0xFFFFFFFF" if "16 \<le> doing_reno_now (icsk_ca_priv tp)" "snd_cwnd tp = 1"
    using that by (simp add: v yeah_reduction_def leD)
qed

theorem yeah_ssthresh_bounds_witness:
  "\<exists>v tp'. tcp_yeah_ssthresh kernel_init ((sample_sk sample_yeah)\<lparr>snd_cwnd := 2\<rparr>) = Some (v, tp')
    \<and> v = 0"
proof -
  obtain v tp' where e:
    "tcp_yeah_ssthresh kernel_init ((sample_sk sample_yeah)\<lparr>snd_cwnd := 2\<rparr>) = Some (v, tp')"
    by (simp add: tcp_yeah_ssthresh_def Let_def)
  from yeah_ssthresh_bounds [OF e] e show ?thesis by (simp add: sample_sk_def sample_yeah_def)
qed

text \<open>The agent then runs with a window of 0 after a loss at a window of 2 or 3 segments.\<close>

lemma yeah_loss_window_zero:
  "\<exists>sk. fastretrans_slowdown tcp_yeah kernel_init ((sample_sk sample_yeah)\<lparr>snd_cwnd := 2\<rparr>) = Some sk
    \<and> snd_cwnd sk = 0"
  by (simp add: fastretrans_slowdown_def Let_def touch_cwnd_def tcp_yeah_def ops_null_def call_ssthresh_def
      tcp_yeah_ssthresh_def yeah_reduction_def sample_sk_def sample_yeah_def call_min_cwnd_def
      tcp_reno_min_cwnd_def tcp_set_ca_state_def)

text \<open>In competition mode the window also grows past the clamp.\<close>

lemma yeah_reno_passes_clamp:
  "snd_cwnd (yeah_reno ((sample_sk sample_yeah)\<lparr>snd_cwnd := 100, snd_cwnd_cnt := 99\<rparr>)) = 101
   \<and> snd_cwnd_clamp (sample_sk sample_yeah) = 100"
  by (simp add: yeah_reno_def sample_sk_def sample_yeah_def)

end
