(* ===== verification/Westwood.thy ===== *)
theory Westwood
  imports Window
begin

text \<open>
  TCP Westwood+, src/ns-2.34/tcp/linux/src/tcp_westwood.c: the acknowledged bytes of a round trip
  divided by its length estimate the bandwidth, and after a loss the window is the bandwidth times
  the smallest round trip. The lemmas show that the estimate never divides by zero, that the
  filter is an average, how duplicate and delayed acknowledgments are accounted for, and that
  every window it sets is at least 2 (without the upper bound of the other algorithms: the
  estimate may exceed the window it replaces).
\<close>

record westwood =
  bw_ns_est :: u32
  bw_est :: u32
  rtt_win_sx :: u32
  ww_bk :: u32
  ww_snd_una :: u32
  cumul_ack :: u32
  accounted :: u32
  ww_rtt :: u32
  rtt_min :: u32
  first_ack :: u8
  reset_rtt_min :: u8

definition TCP_WESTWOOD_RTT_MIN :: u32 where
  "TCP_WESTWOOD_RTT_MIN = HZ div 20"

definition TCP_WESTWOOD_INIT_RTT :: u32 where
  "TCP_WESTWOOD_INIT_RTT = 20 * HZ"

section \<open>Operations\<close>

definition tcp_westwood_init :: "kernel \<Rightarrow> westwood tcp_sock \<Rightarrow> westwood tcp_sock option" where
  "tcp_westwood_init k tp = Some (tp\<lparr>icsk_ca_priv := (icsk_ca_priv tp)\<lparr>ww_bk := 0, bw_ns_est := 0,
     bw_est := 0, accounted := 0, cumul_ack := 0, reset_rtt_min := 1,
     rtt_min := TCP_WESTWOOD_INIT_RTT, ww_rtt := TCP_WESTWOOD_INIT_RTT,
     rtt_win_sx := tcp_time_stamp k, ww_snd_una := snd_una tp, first_ack := 1\<rparr>\<rparr>)"

definition westwood_do_filter :: "u32 \<Rightarrow> u32 \<Rightarrow> u32" where
  "westwood_do_filter a b = drop_bit 3 (7 * a + b)"

definition westwood_filter :: "westwood \<Rightarrow> u32 \<Rightarrow> westwood option" where
  "westwood_filter w delta =
    (if bw_ns_est w = 0 \<and> bw_est w = 0
     then do {
       b \<leftarrow> cdiv (ww_bk w) delta;
       Some (w\<lparr>bw_ns_est := b, bw_est := b\<rparr>)
     }
     else do {
       b \<leftarrow> cdiv (ww_bk w) delta;
       let w = w\<lparr>bw_ns_est := westwood_do_filter (bw_ns_est w) b\<rparr>;
       Some (w\<lparr>bw_est := westwood_do_filter (bw_est w) (bw_ns_est w)\<rparr>)
     })"

definition tcp_westwood_pkts_acked ::
  "u32 \<Rightarrow> s64 \<Rightarrow> kernel \<Rightarrow> westwood tcp_sock \<Rightarrow> westwood tcp_sock option" where
  "tcp_westwood_pkts_acked cnt t k tp =
     Some (if 0 < cnt then tp\<lparr>icsk_ca_priv := (icsk_ca_priv tp)\<lparr>ww_rtt := drop_bit 3 (srtt tp)\<rparr>\<rparr>
           else tp)"

definition westwood_update_window :: "kernel \<Rightarrow> 'ca tcp_sock \<Rightarrow> westwood \<Rightarrow> westwood option" where
  "westwood_update_window k tp w =
    (let delta = tcp_time_stamp k - rtt_win_sx w;
         w = (if first_ack w \<noteq> 0 then w\<lparr>ww_snd_una := snd_una tp, first_ack := 0\<rparr> else w)
     in if ww_rtt w \<noteq> 0 \<and> max (ww_rtt w) TCP_WESTWOOD_RTT_MIN < delta
        then do {
          w \<leftarrow> westwood_filter w delta;
          Some (w\<lparr>ww_bk := 0, rtt_win_sx := tcp_time_stamp k\<rparr>)
        }
        else Some w)"

definition update_rtt_min :: "westwood \<Rightarrow> westwood" where
  "update_rtt_min w =
    (if reset_rtt_min w \<noteq> 0 then w\<lparr>rtt_min := ww_rtt w, reset_rtt_min := 0\<rparr>
     else w\<lparr>rtt_min := min (ww_rtt w) (rtt_min w)\<rparr>)"

definition westwood_fast_bw :: "kernel \<Rightarrow> 'ca tcp_sock \<Rightarrow> westwood \<Rightarrow> westwood option" where
  "westwood_fast_bw k tp w = do {
     w \<leftarrow> westwood_update_window k tp w;
     let w = w\<lparr>ww_bk := ww_bk w + (snd_una tp - ww_snd_una w)\<rparr>;
     let w = w\<lparr>ww_snd_una := snd_una tp\<rparr>;
     Some (update_rtt_min w)
   }"

definition westwood_acked_count :: "'ca tcp_sock \<Rightarrow> westwood \<Rightarrow> u32 \<times> westwood" where
  "westwood_acked_count tp w =
    (let w = w\<lparr>cumul_ack := snd_una tp - ww_snd_una w\<rparr>;
         w = (if cumul_ack w = 0
              then w\<lparr>accounted := accounted w + mss_cache tp, cumul_ack := mss_cache tp\<rparr> else w);
         w = (if mss_cache tp < cumul_ack w
              then if cumul_ack w \<le> accounted w
                   then w\<lparr>accounted := accounted w - cumul_ack w, cumul_ack := mss_cache tp\<rparr>
                   else w\<lparr>cumul_ack := cumul_ack w - accounted w, accounted := 0\<rparr>
              else w);
         w = w\<lparr>ww_snd_una := snd_una tp\<rparr>
     in (cumul_ack w, w))"

definition tcp_westwood_bw_rttmin :: "westwood tcp_sock \<Rightarrow> u32 option" where
  "tcp_westwood_bw_rttmin tp = do {
     q \<leftarrow> cdiv (bw_est (icsk_ca_priv tp) * rtt_min (icsk_ca_priv tp)) (mss_cache tp);
     Some (max q 2)
   }"

text \<open>The slow path: the old value of \<open>bk\<close> is read after the call that updates the count.\<close>

definition westwood_slow_ack :: "kernel \<Rightarrow> 'ca tcp_sock \<Rightarrow> westwood \<Rightarrow> westwood option" where
  "westwood_slow_ack k tp w = do {
     w \<leftarrow> westwood_update_window k tp w;
     let (n, w) = westwood_acked_count tp w;
     Some (update_rtt_min (w\<lparr>ww_bk := ww_bk w + n\<rparr>))
   }"

definition tcp_westwood_event ::
  "tcp_ca_event \<Rightarrow> kernel \<Rightarrow> westwood tcp_sock \<Rightarrow> westwood tcp_sock option" where
  "tcp_westwood_event ev k tp =
    (case ev of
       CA_EVENT_FAST_ACK \<Rightarrow>
         map_option (\<lambda>w. tp\<lparr>icsk_ca_priv := w\<rparr>) (westwood_fast_bw k tp (icsk_ca_priv tp))
     | CA_EVENT_COMPLETE_CWR \<Rightarrow>
         map_option (\<lambda>v. tp\<lparr>snd_ssthresh := v, snd_cwnd := v\<rparr>) (tcp_westwood_bw_rttmin tp)
     | CA_EVENT_FRTO \<Rightarrow>
         map_option (\<lambda>v. tp\<lparr>snd_ssthresh := v,
                            icsk_ca_priv := (icsk_ca_priv tp)\<lparr>reset_rtt_min := 1\<rparr>\<rparr>)
           (tcp_westwood_bw_rttmin tp)
     | CA_EVENT_SLOW_ACK \<Rightarrow>
         map_option (\<lambda>w. tp\<lparr>icsk_ca_priv := w\<rparr>) (westwood_slow_ack k tp (icsk_ca_priv tp))
     | _ \<Rightarrow> Some tp)"

text \<open>The body of \<open>tcp_westwood_info\<close> is commented out.\<close>

definition tcp_westwood_info :: "u32 \<Rightarrow> 'ca tcp_sock \<Rightarrow> unit option" where
  "tcp_westwood_info ext tp = Some ()"

definition tcp_westwood :: "westwood tcp_congestion_ops" where
  "tcp_westwood = ops_null\<lparr>ca_init := Some tcp_westwood_init, ca_ssthresh := Some tcp_reno_ssthresh,
     ca_cong_avoid := Some tcp_reno_cong_avoid, ca_min_cwnd := Some tcp_westwood_bw_rttmin,
     ca_cwnd_event := Some tcp_westwood_event, ca_get_info := Some tcp_westwood_info,
     ca_pkts_acked := Some tcp_westwood_pkts_acked, ca_name := ''westwood''\<rparr>"

section \<open>The estimate is defined\<close>

lemma westwood_filter_Some: "delta \<noteq> 0 \<Longrightarrow> \<exists>w'. westwood_filter w delta = Some w'"
  by (simp add: westwood_filter_def)

text \<open>The filter only runs on a round of more than 50 ms, so its divisor is not zero.\<close>

lemma westwood_update_window_Some: "\<exists>w'. westwood_update_window k tp w = Some w'"
proof -
  define v where "v = (if first_ack w \<noteq> 0 then w\<lparr>ww_snd_una := snd_una tp, first_ack := 0\<rparr> else w)"
  define d where "d = tcp_time_stamp k - rtt_win_sx w"
  have eq: "westwood_update_window k tp w =
      (if ww_rtt v \<noteq> 0 \<and> max (ww_rtt v) TCP_WESTWOOD_RTT_MIN < d
       then Option.bind (westwood_filter v d) (\<lambda>w. Some (w\<lparr>ww_bk := 0, rtt_win_sx := tcp_time_stamp k\<rparr>))
       else Some v)"
    by (simp only: westwood_update_window_def Let_def v_def d_def)
  show ?thesis
  proof (cases "max (ww_rtt v) TCP_WESTWOOD_RTT_MIN < d")
    case True
    then have "d \<noteq> 0" by auto
    from westwood_filter_Some [OF this, of v] show ?thesis by (auto simp: eq)
  next
    case False
    then show ?thesis by (auto simp: eq)
  qed
qed

lemma westwood_event_Some:
  assumes "ev \<in> {CA_EVENT_FAST_ACK, CA_EVENT_SLOW_ACK, CA_EVENT_LOSS}"
  shows "\<exists>w. tcp_westwood_event ev k sk = Some (sk\<lparr>icsk_ca_priv := w\<rparr>)"
proof -
  obtain w where "westwood_update_window k sk (icsk_ca_priv sk) = Some w"
    using westwood_update_window_Some by blast
  with assms show ?thesis
    by (auto simp: tcp_westwood_event_def westwood_fast_bw_def westwood_slow_ack_def Let_def
        split: prod.split)
qed

text \<open>The filter averages, as long as the sum fits in 32 bits.\<close>

lemma westwood_do_filter_between:
  assumes "7 * unat a + unat b < 2 ^ 32"
  shows "min a b \<le> westwood_do_filter a b" and "westwood_do_filter a b \<le> max a b"
proof -
  have "unat (7 * a) = 7 * unat a" using assms unat_mult_no_wrap [of 7 a] by simp
  then have f: "unat (westwood_do_filter a b) = (7 * unat a + unat b) div 8"
    using assms by (simp add: westwood_do_filter_def unat_shr unat_add_no_wrap)
  show "min a b \<le> westwood_do_filter a b" and "westwood_do_filter a b \<le> max a b"
    by (auto simp: word_le_nat_alt f min_def max_def)
qed

interpretation westwood: cong_module tcp_westwood None "\<lambda>_. True" "\<lambda>_. True" "\<lambda>_ _ _. True" "\<lambda>_ _ _. True"
proof (unfold_locales, goal_cases)
  case (2 sk k)
  with call_reno_ssthresh [of tcp_westwood "\<lambda>_. True" sk k] show ?case by (auto simp: tcp_westwood_def mod_live_def)
next
  case (3 sk)
  have "0 < max q (2 :: u32)" for q by (simp add: less_max_iff_disj)
  with mod_live_simps(4) [OF 3(1)] show ?case
    by (simp add: tcp_westwood_def call_min_cwnd_def tcp_westwood_bw_rttmin_def)
next
  case (6 sk ev k)
  from westwood_event_Some [OF 6(2), of k sk] 6(1) show ?case
    by (auto simp: tcp_westwood_def mod_live_def)
next
  case (9 sk k)
  with call_reno_ssthresh [of tcp_westwood "\<lambda>_. True" sk k] show ?case by (auto simp: tcp_westwood_def mod_live_def)
next
  case (10 sk k)
  then show ?case by (simp add: tcp_westwood_def tcp_westwood_event_def)
qed (auto simp: tcp_westwood_def ops_null_def call_cong_avoid_def reno_cong_avoid_live mod_live_def
    tcp_westwood_init_def tcp_westwood_pkts_acked_def)

section \<open>Properties\<close>

text \<open>
  how Westwood counts acknowledged bytes on the slow path. Up to the exception below the
  bytes counted, less the change of the credit for duplicates, are the bytes by which \<open>snd_una\<close>
  moved: a duplicate counts one segment and is credited, an acknowledgment of at most one segment
  counts itself, a larger one pays back the credit. Only a larger one that the credit
  covers entirely still counts one segment on top.
\<close>

theorem westwood_acked_count_balance:
  assumes "westwood_acked_count tp w = (n, w')"
  defines "c \<equiv> snd_una tp - ww_snd_una w"
  shows "ww_snd_una w' = snd_una tp
    \<and> n + accounted w
      = c + accounted w' + (if mss_cache tp < c \<and> c \<le> accounted w then mss_cache tp else 0)"
  using assms by (auto simp: westwood_acked_count_def Let_def)

definition sample_westwood :: westwood where
  "sample_westwood = \<lparr> bw_ns_est = 100, bw_est = 100, rtt_win_sx = 0, ww_bk = 5000,
     ww_snd_una = 1000, cumul_ack = 0, accounted = 1000, ww_rtt = 40, rtt_min = 40, first_ack = 0,
     reset_rtt_min = 0 \<rparr>"

theorem westwood_acked_count_balance_witness:
  "\<exists>n w'. westwood_acked_count ((sample_sk ())\<lparr>snd_una := 4000\<rparr>) sample_westwood = (n, w')
     \<and> n + 1000 = 3000 + accounted w'"
proof -
  obtain n w' where
    e: "westwood_acked_count ((sample_sk ())\<lparr>snd_una := 4000\<rparr>) sample_westwood = (n, w')"
    by fastforce
  from westwood_acked_count_balance [OF e] e show ?thesis
    by (simp add: sample_sk_def sample_westwood_def)
qed

text \<open>
  the low-pass filter of the bandwidth gives a value between the old estimate and the new
  sample when \<open>7 * a + b\<close> fits in 32 bits.
\<close>

theorem westwood_filter_averages:
  assumes "7 * unat a + unat b < 2 ^ 32"
  shows "min a b \<le> westwood_do_filter a b \<and> westwood_do_filter a b \<le> max a b"
  using westwood_do_filter_between [OF assms] by simp

theorem westwood_filter_averages_witness:
  "(100 :: u32) \<le> westwood_do_filter 100 500 \<and> westwood_do_filter 100 500 \<le> 500"
  using westwood_filter_averages [of 100 500] by simp

text \<open>
  a connection that runs Westwood never divides by zero nor traps otherwise, on any sequence of
  events, and its window stays positive.
\<close>

theorem westwood_runs_safe:
  assumes "\<not> initialized ag" and "win None (linux_sk ag)"
    and "run_env (\<lambda>_ _ _. True) (\<lambda>_ _ _. True) tcp_westwood evs ag"
  shows "\<exists>ag'. agent_run tcp_westwood evs ag = Some ag' \<and> win None (linux_sk ag')"
  using assms by (intro westwood.module_run_safe_from_start) simp_all

theorem westwood_runs_safe_witness:
  "\<exists>ag'. agent_run tcp_westwood sample_run (sample_agent sample_westwood) = Some ag'
     \<and> win None (linux_sk ag')"
  by (rule westwood_runs_safe) (simp_all add: sample_win sample_run_env)

end
