(* ===== verification/Illinois.thy ===== *)
theory Illinois
  imports Rtt_Sample
begin

text \<open>
  TCP Illinois, src/ns-2.34/tcp/linux/src/tcp_illinois.c: the increase \<open>alpha\<close> and the decrease
  \<open>beta\<close> follow the queuing delay of the last round trip. The lemmas show that the delays never
  wrap, that the fixed-point formulas stay within 32 bits for them, and the ranges they yield:
  \<open>alpha\<close> from 38/128 to 10, \<open>beta\<close> from 1/8 to 1/2.
\<close>

section \<open>Constants, state and parameters\<close>

abbreviation (input) ALPHA_SHIFT :: nat where "ALPHA_SHIFT \<equiv> 7"
abbreviation (input) ALPHA_SCALE :: u32 where "ALPHA_SCALE \<equiv> 128"
abbreviation (input) BETA_SHIFT :: nat where "BETA_SHIFT \<equiv> 6"
abbreviation (input) BETA_SCALE :: u32 where "BETA_SCALE \<equiv> 64"

definition ALPHA_MIN :: u32 where
  "ALPHA_MIN = (3 * ALPHA_SCALE) div 10"

definition ALPHA_MAX :: u32 where
  "ALPHA_MAX = 10 * ALPHA_SCALE"

definition ALPHA_BASE :: u32 where
  "ALPHA_BASE = ALPHA_SCALE"

definition RTT_MAX :: u32 where
  "RTT_MAX = 0xFFFFFFFF div ALPHA_MAX"

definition BETA_MIN :: u32 where
  "BETA_MIN = BETA_SCALE div 8"

definition BETA_MAX :: u32 where
  "BETA_MAX = BETA_SCALE div 2"

definition BETA_BASE :: u32 where
  "BETA_BASE = BETA_MAX"

lemma illinois_constants:
  "ALPHA_MIN = 38" "ALPHA_MAX = 1280" "ALPHA_BASE = 128" "RTT_MAX = 3355443"
  "BETA_MIN = 8" "BETA_MAX = 32" "BETA_BASE = 32"
  by (simp_all add: ALPHA_MIN_def ALPHA_MAX_def ALPHA_BASE_def RTT_MAX_def BETA_MIN_def BETA_MAX_def
      BETA_BASE_def)

record illinois_params =
  win_thresh :: s32
  theta :: s32

definition illinois_default :: illinois_params where
  "illinois_default = \<lparr> win_thresh = 15, theta = 5 \<rparr>"

record illinois =
  sum_rtt :: u64
  cnt_rtt :: u16
  base_rtt :: u32
  max_rtt :: u32
  end_seq :: u32
  ill_alpha :: u32
  ill_beta :: u32
  ill_acked :: u16
  rtt_above :: u8
  rtt_low :: u8

section \<open>Operations\<close>

definition rtt_reset :: "'ca tcp_sock \<Rightarrow> illinois \<Rightarrow> illinois" where
  "rtt_reset tp ca = ca\<lparr>end_seq := snd_nxt tp, cnt_rtt := 0, sum_rtt := 0\<rparr>"

definition tcp_illinois_init :: "kernel \<Rightarrow> illinois tcp_sock \<Rightarrow> illinois tcp_sock option" where
  "tcp_illinois_init k tp =
    (let ca = (icsk_ca_priv tp)\<lparr>ill_alpha := ALPHA_MAX, ill_beta := BETA_BASE,
           base_rtt := 0x7fffffff, max_rtt := 0, ill_acked := 0, rtt_low := 0, rtt_above := 0\<rparr>
     in Some (tp\<lparr>icsk_ca_priv := rtt_reset tp ca\<rparr>))"

definition illinois_sample :: "u32 \<Rightarrow> illinois \<Rightarrow> illinois" where
  "illinois_sample rtt ca =
    (let rtt = (if RTT_MAX < rtt then RTT_MAX else rtt);
         ca = (if rtt < base_rtt ca then ca\<lparr>base_rtt := rtt\<rparr> else ca);
         ca = (if max_rtt ca < rtt then ca\<lparr>max_rtt := rtt\<rparr> else ca)
     in ca\<lparr>cnt_rtt := cnt_rtt ca + 1, sum_rtt := sum_rtt ca + ucast rtt\<rparr>)"

definition tcp_illinois_acked ::
  "u32 \<Rightarrow> s64 \<Rightarrow> kernel \<Rightarrow> illinois tcp_sock \<Rightarrow> illinois tcp_sock option" where
  "tcp_illinois_acked pkts_acked t k tp =
    (let ca = (icsk_ca_priv tp)\<lparr>ill_acked := pkts_acked\<rparr>
     in Some (tp\<lparr>icsk_ca_priv :=
          (if ktime_equal t net_invalid_timestamp then ca
           else illinois_sample (ucast (ktime_to_us (net_timedelta (ktime_get_real k) t))) ca)\<rparr>))"

definition max_delay :: "illinois \<Rightarrow> u32" where
  "max_delay ca = max_rtt ca - base_rtt ca"

definition avg_delay :: "illinois \<Rightarrow> u32 option" where
  "avg_delay ca = do {
     t \<leftarrow> do_div (sum_rtt ca) (cnt_rtt ca);
     Some (ucast (t - ucast (base_rtt ca)))
   }"

definition illinois_alpha_formula :: "u32 \<Rightarrow> u32 \<Rightarrow> u32 option" where
  "illinois_alpha_formula da dm = cdiv (dm * ALPHA_MAX) (dm + (da * (ALPHA_MAX - ALPHA_MIN)) div ALPHA_MIN)"

definition illinois_alpha :: "illinois_params \<Rightarrow> illinois \<Rightarrow> u32 \<Rightarrow> u32 \<Rightarrow> (u32 \<times> illinois) option" where
  "illinois_alpha p ca da dm =
    (let d1 = dm div 100 in
     if da \<le> d1
     then if rtt_above ca = 0 then Some (ALPHA_MAX, ca)
          else let ca = ca\<lparr>rtt_low := rtt_low ca + 1\<rparr>
               in if uint (rtt_low ca) < sint (theta p) then Some (ill_alpha ca, ca)
                  else Some (ALPHA_MAX, ca\<lparr>rtt_low := 0, rtt_above := 0\<rparr>)
     else map_option (\<lambda>a. (a, ca\<lparr>rtt_above := 1\<rparr>)) (illinois_alpha_formula (da - d1) (dm - d1)))"

definition illinois_beta :: "u32 \<Rightarrow> u32 \<Rightarrow> u32 option" where
  "illinois_beta da dm =
    (let d2 = dm div 10 in
     if da \<le> d2 then Some BETA_MIN
     else let d3 = (8 * dm) div 10
          in if d3 \<le> da \<or> d3 \<le> d2 then Some BETA_MAX
             else cdiv (BETA_MIN * d3 - BETA_MAX * d2 + (BETA_MAX - BETA_MIN) * da) (d3 - d2))"

definition update_params :: "illinois_params \<Rightarrow> illinois tcp_sock \<Rightarrow> illinois tcp_sock option" where
  "update_params p tp = do {
     let ca = icsk_ca_priv tp;
     ca \<leftarrow> (if snd_cwnd tp < win_thresh p
           then Some (ca\<lparr>ill_alpha := ALPHA_BASE, ill_beta := BETA_BASE\<rparr>)
           else if 0 < cnt_rtt ca
           then do {
             let dm = max_delay ca;
             da \<leftarrow> avg_delay ca;
             (a, ca) \<leftarrow> illinois_alpha p ca da dm;
             let ca = ca\<lparr>ill_alpha := a\<rparr>;
             b \<leftarrow> illinois_beta da dm;
             Some (ca\<lparr>ill_beta := b\<rparr>)
           }
           else Some ca);
     Some (tp\<lparr>icsk_ca_priv := rtt_reset tp ca\<rparr>)
   }"

definition tcp_illinois_state :: "u8 \<Rightarrow> kernel \<Rightarrow> illinois tcp_sock \<Rightarrow> illinois tcp_sock option" where
  "tcp_illinois_state new_state k tp =
     Some (if new_state = TCP_CA_Loss
           then tp\<lparr>icsk_ca_priv := rtt_reset tp ((icsk_ca_priv tp)
                  \<lparr>ill_alpha := ALPHA_BASE, ill_beta := BETA_BASE, rtt_low := 0, rtt_above := 0\<rparr>)\<rparr>
           else tp)"

definition illinois_increase :: "illinois tcp_sock \<Rightarrow> illinois tcp_sock option" where
  "illinois_increase tp = do {
     let tp = tp\<lparr>snd_cwnd_cnt := snd_cwnd_cnt tp + ill_acked (icsk_ca_priv tp),
                 icsk_ca_priv := (icsk_ca_priv tp)\<lparr>ill_acked := 1\<rparr>\<rparr>;
     let delta = drop_bit ALPHA_SHIFT (snd_cwnd_cnt tp * ill_alpha (icsk_ca_priv tp));
     (if snd_cwnd tp \<le> delta
      then do {
        q \<leftarrow> cdiv delta (snd_cwnd tp);
        Some (tp\<lparr>snd_cwnd := min (snd_cwnd tp + q) (snd_cwnd_clamp tp), snd_cwnd_cnt := 0\<rparr>)
      }
      else Some tp)
   }"

definition tcp_illinois_cong_avoid ::
  "illinois_params \<Rightarrow> u32 \<Rightarrow> u32 \<Rightarrow> u32 \<Rightarrow> s32 \<Rightarrow> kernel \<Rightarrow> illinois tcp_sock
    \<Rightarrow> illinois tcp_sock option" where
  "tcp_illinois_cong_avoid p ack rtt in_flight flag k tp = do {
     tp \<leftarrow> (if after ack (end_seq (icsk_ca_priv tp)) then update_params p tp else Some tp);
     if \<not> tcp_is_cwnd_limited tp in_flight then Some tp
     else if snd_cwnd tp \<le> snd_ssthresh tp then tcp_slow_start k tp
     else illinois_increase tp
   }"

definition tcp_illinois_ssthresh ::
  "kernel \<Rightarrow> illinois tcp_sock \<Rightarrow> (u32 \<times> illinois tcp_sock) option" where
  "tcp_illinois_ssthresh k tp =
     Some (max (drop_bit BETA_SHIFT (snd_cwnd tp * ill_beta (icsk_ca_priv tp))) 2, tp)"

text \<open>\<open>INET_DIAG_VEGASINFO\<close> is 1 in ns-linux-c.h, so the extension is tested on bit 0.\<close>

definition tcp_illinois_info :: "u32 \<Rightarrow> illinois tcp_sock \<Rightarrow> unit option" where
  "tcp_illinois_info ext tp =
    (if ext AND 1 \<noteq> 0
     then map_option (\<lambda>t. ()) (do_div (sum_rtt (icsk_ca_priv tp)) (cnt_rtt (icsk_ca_priv tp)))
     else Some ())"

definition tcp_illinois :: "illinois_params \<Rightarrow> illinois tcp_congestion_ops" where
  "tcp_illinois p = ops_null\<lparr>ca_flags := TCP_CONG_RTT_STAMP, ca_init := Some tcp_illinois_init,
     ca_ssthresh := Some tcp_illinois_ssthresh, ca_min_cwnd := Some tcp_reno_min_cwnd,
     ca_cong_avoid := Some (tcp_illinois_cong_avoid p), ca_set_state := Some tcp_illinois_state,
     ca_get_info := Some tcp_illinois_info, ca_pkts_acked := Some tcp_illinois_acked,
     ca_name := ''illinois''\<rparr>"

section \<open>The delays\<close>

text \<open>
  The invariant of the samples of a round trip: their sum lies between their number times the
  smallest and times the largest round trip ever seen, which is at most \<open>RTT_MAX\<close>.
\<close>

definition illinois_ok :: "illinois \<Rightarrow> bool" where
  "illinois_ok ca \<longleftrightarrow> max_rtt ca \<le> RTT_MAX \<and> (cnt_rtt ca = 0 \<or> base_rtt ca \<le> max_rtt ca)
     \<and> unat (cnt_rtt ca) * unat (base_rtt ca) \<le> unat (sum_rtt ca)
     \<and> unat (sum_rtt ca) \<le> unat (cnt_rtt ca) * unat (max_rtt ca)"

lemma illinois_ok_reset: "max_rtt ca \<le> RTT_MAX \<Longrightarrow> illinois_ok (rtt_reset tp ca)"
  by (simp add: illinois_ok_def rtt_reset_def)

lemma illinois_ok_sample:
  assumes ok: "illinois_ok ca" and c: "cnt_rtt ca \<noteq> 0xFFFFFFFF"
  shows "illinois_ok (illinois_sample rtt ca)"
proof -
  define r where "r = (if RTT_MAX < rtt then RTT_MAX else rtt)"
  have r: "r \<le> RTT_MAX" by (simp add: r_def not_less)
  let ?n = "unat (cnt_rtt ca)" and ?s = "unat (sum_rtt ca)"
  have n: "unat (cnt_rtt ca + 1) = Suc ?n"
    using c unat_Suc_no_wrap [of "cnt_rtt ca" "0xFFFFFFFF"] unat_le_u32 [of "cnt_rtt ca"]
    by (simp add: word_less_nat_alt u32_eq_iff del: unat_le_u32)
  have m: "unat (max_rtt ca) \<le> 3355443" "unat r \<le> 3355443"
    using ok r by (simp_all add: illinois_ok_def illinois_constants word_le_nat_alt)
  have "?n * unat (max_rtt ca) \<le> 4294967295 * 3355443" using m by (intro mult_le_mono) simp_all
  then have "?s + unat r < 2 ^ 64" using ok m by (simp add: illinois_ok_def)
  then have s: "unat (sum_rtt ca + ucast r) = ?s + unat r"
    using unat_add_lem [of "sum_rtt ca" "ucast r"] by simp
  have i: "illinois_sample rtt ca = ca\<lparr>base_rtt := min (base_rtt ca) r, max_rtt := max (max_rtt ca) r,
      cnt_rtt := cnt_rtt ca + 1, sum_rtt := sum_rtt ca + ucast r\<rparr>"
    by (auto simp: illinois_sample_def Let_def min_def max_def r_def)
  let ?b = "unat (min (base_rtt ca) r)" and ?x = "unat (max (max_rtt ca) r)"
  have b: "?b \<le> unat (base_rtt ca)" "?b \<le> unat r" and x: "unat (max_rtt ca) \<le> ?x" "unat r \<le> ?x"
    by (simp_all add: min_def max_def word_le_nat_alt)
  have nb: "?n * ?b \<le> ?n * unat (base_rtt ca)" using b(1) by (rule mult_le_mono2)
  have nx: "?n * unat (max_rtt ca) \<le> ?n * ?x" using x(1) by (rule mult_le_mono2)
  have sb: "?n * unat (base_rtt ca) \<le> ?s" "?s \<le> ?n * unat (max_rtt ca)"
    using ok by (simp_all add: illinois_ok_def)
  have "Suc ?n * ?b \<le> ?s + unat r" using nb sb(1) b(2) unfolding mult_Suc by linarith
  moreover have "?s + unat r \<le> Suc ?n * ?x" using nx sb(2) x(2) unfolding mult_Suc by linarith
  moreover have "min (base_rtt ca) r \<le> max (max_rtt ca) r" "max (max_rtt ca) r \<le> RTT_MAX"
    using ok r by (auto simp: illinois_ok_def min_le_iff_disj le_max_iff_disj)
  ultimately show ?thesis unfolding i by (simp add: illinois_ok_def n s)
qed

lemma illinois_delays:
  assumes ok: "illinois_ok ca" and c: "cnt_rtt ca \<noteq> 0"
  shows "\<exists>da. avg_delay ca = Some da \<and> da \<le> max_delay ca \<and> max_delay ca \<le> RTT_MAX
    \<and> unat da = unat (sum_rtt ca) div unat (cnt_rtt ca) - unat (base_rtt ca)"
proof -
  let ?n = "unat (cnt_rtt ca)" and ?s = "unat (sum_rtt ca)"
  have n: "0 < ?n" using c by (simp add: unat_gt_0)
  have bm: "base_rtt ca \<le> max_rtt ca" "max_rtt ca \<le> RTT_MAX" using ok c by (auto simp: illinois_ok_def)
  have d: "unat (max_delay ca) = unat (max_rtt ca) - unat (base_rtt ca)"
    unfolding max_delay_def using bm(1) by (rule unat_minus_le)
  let ?t = "sum_rtt ca div ucast (cnt_rtt ca)"
  have t: "unat ?t = ?s div ?n" by (simp add: unat_div_distrib)
  have lo: "unat (base_rtt ca) \<le> ?s div ?n"
    using ok n by (simp add: illinois_ok_def less_eq_div_iff_mult_less_eq mult.commute)
  have "?s div ?n \<le> ?n * unat (max_rtt ca) div ?n"
    using ok by (intro div_le_mono) (simp add: illinois_ok_def)
  then have hi: "?s div ?n \<le> unat (max_rtt ca)" using n by simp
  have "unat (?t - ucast (base_rtt ca)) = ?s div ?n - unat (base_rtt ca)"
    using lo by (subst unat_minus_le) (simp_all add: word_le_nat_alt t)
  moreover have "?s div ?n - unat (base_rtt ca) < 2 ^ 32"
    using hi unat_lt2p_u32 [of "max_rtt ca"] by (simp del: unat_lt2p_u32)
  ultimately have u: "unat (ucast (?t - ucast (base_rtt ca)) :: u32) = ?s div ?n - unat (base_rtt ca)"
    by (simp add: unat_low_word)
  have "max_delay ca \<le> RTT_MAX" using bm d by (auto simp: word_le_nat_alt)
  moreover have "ucast (?t - ucast (base_rtt ca)) \<le> max_delay ca"
    using hi by (simp add: word_le_nat_alt u d)
  ultimately show ?thesis using c u by (auto simp: avg_delay_def do_div_Some)
qed

section \<open>The increase\<close>

lemma illinois_alpha_formula_range:
  assumes "0 < da" and "da \<le> dm" and "dm \<le> RTT_MAX"
  shows "\<exists>a. illinois_alpha_formula da dm = Some a \<and> 38 \<le> a \<and> a \<le> 1280
    \<and> unat a = unat dm * 1280 div (unat dm + unat da * 1242 div 38)"
proof -
  have b: "0 < unat da" "unat da \<le> unat dm" "unat dm \<le> 3355443"
    using assms by (simp_all add: illinois_constants word_le_nat_alt word_less_nat_alt)
  have n: "unat (dm * 1280) = unat dm * 1280" using b(3) unat_mult_no_wrap [of dm 1280] by simp
  have e: "unat (da * 1242) = unat da * 1242" using b unat_mult_no_wrap [of da 1242] by simp
  then have q: "unat ((da * 1242) div 38) = unat da * 1242 div 38" by (simp add: unat_div_distrib)
  have s: "unat (dm + (da * 1242) div 38) = unat dm + unat da * 1242 div 38"
  proof -
    have "unat dm + unat da * 1242 div 38 < 4294967296" using b by linarith
    then show ?thesis unfolding q [symmetric] by (rule unat_add_no_wrap)
  qed
  let ?D = "unat dm + unat da * 1242 div 38"
  have D: "unat dm \<le> ?D" "0 < ?D" "38 * ?D \<le> unat dm * 1280" using b by auto
  have "unat dm * 1280 div ?D \<le> unat dm * 1280 div unat dm" using D(1) b by (intro div_le_mono2) auto
  then have hi: "unat dm * 1280 div ?D \<le> 1280" using b by simp
  have lo: "38 \<le> unat dm * 1280 div ?D" using D by (simp add: less_eq_div_iff_mult_less_eq)
  have "dm + (da * 1242) div 38 \<noteq> 0" using s D(2) by auto
  then have "illinois_alpha_formula da dm = Some ((dm * 1280) div (dm + (da * 1242) div 38))"
    by (simp add: illinois_alpha_formula_def illinois_constants)
  moreover have "unat ((dm * 1280) div (dm + (da * 1242) div 38)) = unat dm * 1280 div ?D"
    by (simp only: unat_div_distrib n s)
  ultimately show ?thesis using lo hi by (auto simp: word_le_nat_alt)
qed

lemma illinois_alpha_range:
  assumes "da \<le> dm" and "dm \<le> RTT_MAX" and "38 \<le> ill_alpha ca" and "ill_alpha ca \<le> 1280"
  shows "\<exists>a ca'. illinois_alpha p ca da dm = Some (a, ca') \<and> 38 \<le> a \<and> a \<le> 1280
    \<and> max_rtt ca' = max_rtt ca"
proof (cases "da \<le> dm div 100")
  case True
  with assms(3,4) show ?thesis by (auto simp: illinois_alpha_def Let_def illinois_constants)
next
  case False
  let ?d = "dm div 100"
  have d: "unat ?d = unat dm div 100" by (simp add: unat_div_distrib)
  have lt: "?d < da" "?d \<le> da" "?d \<le> dm" using False assms(1) by auto
  have u: "unat (da - ?d) = unat da - unat ?d" "unat (dm - ?d) = unat dm - unat ?d"
    using lt by (auto intro: unat_minus_le)
  have "0 < da - ?d" "da - ?d \<le> dm - ?d" "dm - ?d \<le> RTT_MAX"
    using u lt assms(1,2) by (auto simp: word_less_nat_alt word_le_nat_alt)
  from illinois_alpha_formula_range [OF this] False show ?thesis
    by (auto simp: illinois_alpha_def Let_def)
qed

section \<open>The decrease\<close>

lemma illinois_beta_range:
  assumes "dm \<le> RTT_MAX"
  shows "\<exists>b. illinois_beta da dm = Some b \<and> 8 \<le> b \<and> b \<le> 32"
proof (cases "da \<le> dm div 10 \<or> (8 * dm) div 10 \<le> da \<or> (8 * dm) div 10 \<le> dm div 10")
  case True
  then show ?thesis by (auto simp: illinois_beta_def Let_def illinois_constants)
next
  case False
  let ?d2 = "dm div 10" and ?d3 = "(8 * dm) div 10"
  have m: "unat dm \<le> 3355443" using assms by (simp add: illinois_constants word_le_nat_alt)
  have o: "unat ?d2 < unat da" "unat da < unat ?d3" "unat ?d2 < unat ?d3"
    using False by (auto simp: not_le word_less_nat_alt)
  have "unat (8 * dm) = 8 * unat dm" using m unat_mult_no_wrap [of 8 dm] by simp
  then have d3: "unat ?d3 = 8 * unat dm div 10" by (simp add: unat_div_distrib)
  have "unat ?d3 \<le> 3355443" using m d3 by linarith
  then have k: "unat (8 * ?d3) = 8 * unat ?d3" "unat (32 * ?d2) = 32 * unat ?d2" "unat (24 * da) = 24 * unat da"
    using o unat_mult_no_wrap [of 8 ?d3] unat_mult_no_wrap [of 32 ?d2] unat_mult_no_wrap [of 24 da] by auto
  let ?num = "8 * ?d3 - 32 * ?d2 + 24 * da"
  have e: "?num = (8 * ?d3 + 24 * da) - 32 * ?d2" by simp
  have "8 * unat ?d3 + 24 * unat da < 4294967296" using o \<open>unat ?d3 \<le> 3355443\<close> by linarith
  then have p: "unat (8 * ?d3 + 24 * da) = 8 * unat ?d3 + 24 * unat da"
    unfolding k [symmetric] by (rule unat_add_no_wrap)
  have "32 * ?d2 \<le> 8 * ?d3 + 24 * da" unfolding word_le_nat_alt p k using o by linarith
  then have n: "unat ?num = 8 * unat ?d3 + 24 * unat da - 32 * unat ?d2"
    unfolding e by (subst unat_minus_le) (simp_all only: p k)
  have d: "unat (?d3 - ?d2) = unat ?d3 - unat ?d2" using o by (intro unat_minus_le) (simp add: word_le_nat_alt)
  have nz: "?d3 - ?d2 \<noteq> 0" using d o by auto
  let ?q = "unat ?num div (unat ?d3 - unat ?d2)"
  have lo: "8 * (unat ?d3 - unat ?d2) \<le> unat ?num" and hi: "unat ?num \<le> 32 * (unat ?d3 - unat ?d2)"
    unfolding n using o by linarith+
  have "8 \<le> ?q" using lo o by (simp add: less_eq_div_iff_mult_less_eq)
  moreover have "?q \<le> 32" using div_le_mono [OF hi, of "unat ?d3 - unat ?d2"] o by simp
  moreover have "illinois_beta da dm = Some (?num div (?d3 - ?d2))"
    using False nz by (simp add: illinois_beta_def Let_def illinois_constants)
  moreover have "unat (?num div (?d3 - ?d2)) = ?q" by (simp only: unat_div_distrib d)
  ultimately show ?thesis by (auto simp: word_le_nat_alt)
qed

section \<open>The update of the parameters\<close>

definition illinois_params_ok :: "illinois \<Rightarrow> bool" where
  "illinois_params_ok ca \<longleftrightarrow> 38 \<le> ill_alpha ca \<and> ill_alpha ca \<le> 1280
     \<and> 8 \<le> ill_beta ca \<and> ill_beta ca \<le> 32"

lemma update_params_Some:
  assumes ok: "illinois_ok (icsk_ca_priv sk)" and p: "illinois_params_ok (icsk_ca_priv sk)"
  shows "\<exists>ca. update_params par sk = Some (sk\<lparr>icsk_ca_priv := ca\<rparr>)
    \<and> illinois_ok ca \<and> illinois_params_ok ca \<and> cnt_rtt ca = 0"
proof -
  let ?ca = "icsk_ca_priv sk"
  have mx: "max_rtt ?ca \<le> RTT_MAX" using ok by (simp add: illinois_ok_def)
  have fin: "illinois_ok (rtt_reset sk c) \<and> illinois_params_ok (rtt_reset sk c)
      \<and> cnt_rtt (rtt_reset sk c) = 0"
    if "max_rtt c \<le> RTT_MAX" "illinois_params_ok c" for c
    using that illinois_ok_reset by (simp add: illinois_params_ok_def rtt_reset_def)
  consider "snd_cwnd sk < win_thresh par" | "\<not> snd_cwnd sk < win_thresh par" "cnt_rtt ?ca = 0"
    | "\<not> snd_cwnd sk < win_thresh par" "cnt_rtt ?ca \<noteq> 0" by blast
  then show ?thesis
  proof cases
    case 1
    with fin [of "?ca\<lparr>ill_alpha := ALPHA_BASE, ill_beta := BETA_BASE\<rparr>"] mx show ?thesis
      by (simp add: update_params_def illinois_params_ok_def illinois_constants)
  next
    case 2
    with fin [of ?ca] mx p show ?thesis by (simp add: update_params_def)
  next
    case 3
    from illinois_delays [OF ok 3(2)] obtain da where
      da: "avg_delay ?ca = Some da" "da \<le> max_delay ?ca" "max_delay ?ca \<le> RTT_MAX" by blast
    from illinois_alpha_range [OF da(2,3)] p obtain a c where
      a: "illinois_alpha par ?ca da (max_delay ?ca) = Some (a, c)" "38 \<le> a" "a \<le> 1280"
        "max_rtt c = max_rtt ?ca" unfolding illinois_params_ok_def by blast
    from illinois_beta_range [OF da(3), of da] obtain b where
      b: "illinois_beta da (max_delay ?ca) = Some b" "8 \<le> b" "b \<le> 32" by blast
    have "illinois_params_ok (c\<lparr>ill_alpha := a, ill_beta := b\<rparr>)"
      using a b by (simp add: illinois_params_ok_def)
    with fin [of "c\<lparr>ill_alpha := a, ill_beta := b\<rparr>"] a(1,4) b(1) da(1) 3 mx show ?thesis
      by (simp add: update_params_def word_pos_iff)
  qed
qed

section \<open>The window\<close>

lemma illinois_increase_win:
  assumes "0 < snd_cwnd sk" and "0 < snd_cwnd_clamp sk" and "snd_cwnd sk \<le> snd_cwnd_clamp sk"
    and "snd_cwnd_clamp sk \<le> 0x7FFFFFFF"
  shows "\<exists>sk'. illinois_increase sk = Some sk' \<and> snd_cwnd sk \<le> snd_cwnd sk'
    \<and> snd_cwnd sk' \<le> snd_cwnd_clamp sk"
proof -
  define d where "d = drop_bit 7 ((snd_cwnd_cnt sk + ill_acked (icsk_ca_priv sk)) * ill_alpha (icsk_ca_priv sk))"
  have nz: "snd_cwnd sk \<noteq> 0" using assms(1) by (simp add: word_pos_iff)
  have "unat d < 2 ^ 25" by (simp add: d_def unat_shr less_mult_imp_div_less)
  moreover have "unat (d div snd_cwnd sk) \<le> unat d"
    by (simp only: unat_div_distrib div_le_dividend)
  ultimately have "unat (d div snd_cwnd sk) < 2 ^ 25" by linarith
  moreover have "unat (snd_cwnd sk) \<le> 2147483647"
    using assms(3,4) by (simp add: word_le_nat_alt)
  ultimately have s: "unat (snd_cwnd sk + d div snd_cwnd sk) = unat (snd_cwnd sk) + unat (d div snd_cwnd sk)"
    by (intro unat_add_no_wrap) simp
  then have "snd_cwnd sk \<le> snd_cwnd sk + d div snd_cwnd sk" by (simp add: word_le_nat_alt)
  with assms nz show ?thesis
    by (auto simp: illinois_increase_def Let_def d_def [symmetric])
qed

lemma illinois_ssthresh_value:
  assumes "illinois_params_ok (icsk_ca_priv sk)" and "unat (snd_cwnd sk) < 2 ^ 27"
  shows "\<exists>v. tcp_illinois_ssthresh k sk = Some (v, sk)
    \<and> unat v = max (unat (snd_cwnd sk) * unat (ill_beta (icsk_ca_priv sk)) div 64) 2
    \<and> unat (snd_cwnd sk) div 8 \<le> unat v \<and> unat v \<le> max (unat (snd_cwnd sk) div 2) 2"
proof -
  let ?w = "unat (snd_cwnd sk)" and ?b = "unat (ill_beta (icsk_ca_priv sk))"
  have b: "8 \<le> ?b" "?b \<le> 32" using assms(1) by (auto simp: illinois_params_ok_def word_le_nat_alt)
  have "?w * ?b \<le> ?w * 32" using b(2) by simp
  also have "\<dots> < 4294967296" using assms(2) by simp
  finally have m: "unat (snd_cwnd sk * ill_beta (icsk_ca_priv sk)) = ?w * ?b"
    by (intro unat_mult_no_wrap)
  have lo: "?w * 8 \<le> ?w * ?b" and hi: "?w * ?b \<le> ?w * 32" using b by simp_all
  have "?w div 8 \<le> ?w * ?b div 64" using div_le_mono [OF lo, of 64] by simp
  moreover have "?w * ?b div 64 \<le> ?w div 2" using div_le_mono [OF hi, of 64] by simp
  moreover have "unat (max x 2) = max (unat x) 2" for x :: u32 by (simp add: max_def word_le_nat_alt)
  ultimately show ?thesis by (auto simp: tcp_illinois_ssthresh_def unat_shr m)
qed

section \<open>Properties\<close>

text \<open>
  the round trip samples of Illinois: every sample keeps the invariant (at most 3.3 s, the
  smallest at most the largest, the sum between their multiples), as long as the number of
  samples of a round trip does not reach its 32-bit maximum.
\<close>

theorem illinois_sample_invariant:
  assumes "illinois_ok (icsk_ca_priv sk)" and "cnt_rtt (icsk_ca_priv sk) < 0xFFFFFFFF"
  shows "\<exists>sk'. tcp_illinois_acked n t k sk = Some sk' \<and> illinois_ok (icsk_ca_priv sk')"
proof -
  let ?ca = "(icsk_ca_priv sk)\<lparr>ill_acked := n\<rparr>"
  have "illinois_ok ?ca" "cnt_rtt ?ca \<noteq> 0xFFFFFFFF" using assms by (auto simp: illinois_ok_def)
  with illinois_ok_sample [OF this] show ?thesis by (simp add: tcp_illinois_acked_def Let_def)
qed

definition sample_illinois :: illinois where
  "sample_illinois = \<lparr> sum_rtt = 260000, cnt_rtt = 4, base_rtt = 50000, max_rtt = 90000,
     end_seq = 0, ill_alpha = 1280, ill_beta = 32, ill_acked = 1, rtt_above = 0, rtt_low = 0 \<rparr>"

lemma sample_illinois_ok: "illinois_ok sample_illinois" "illinois_params_ok sample_illinois"
  by (simp_all add: sample_illinois_def illinois_ok_def illinois_params_ok_def illinois_constants)

theorem illinois_sample_invariant_witness:
  "\<exists>sk'. tcp_illinois_acked 2 60000000 sample_kernel (sample_sk sample_illinois) = Some sk'
    \<and> illinois_ok (icsk_ca_priv sk')"
  using illinois_sample_invariant [of "sample_sk sample_illinois"] sample_illinois_ok
  by (simp add: sample_sk_def) (simp add: sample_illinois_def)

text \<open>
  at the end of a round trip Illinois' update returns (no divisor is zero, nothing
  overflows) and leaves \<open>alpha\<close> between 38/128 and 1280/128 and \<open>beta\<close> between 8/64 and 32/64, so
  between an eighth and a half, with the samples reset.
\<close>

theorem illinois_params_range:
  assumes "illinois_ok (icsk_ca_priv sk)" and "illinois_params_ok (icsk_ca_priv sk)"
  shows "\<exists>sk'. update_params par sk = Some sk'
    \<and> 38 \<le> ill_alpha (icsk_ca_priv sk') \<and> ill_alpha (icsk_ca_priv sk') \<le> 1280
    \<and> 8 \<le> ill_beta (icsk_ca_priv sk') \<and> ill_beta (icsk_ca_priv sk') \<le> 32
    \<and> cnt_rtt (icsk_ca_priv sk') = 0 \<and> illinois_ok (icsk_ca_priv sk')"
  using update_params_Some [OF assms, of par] by (auto simp: illinois_params_ok_def)

theorem illinois_params_range_witness:
  "\<exists>sk'. update_params illinois_default ((sample_sk sample_illinois)\<lparr>snd_cwnd := 100\<rparr>) = Some sk'
    \<and> 38 \<le> ill_alpha (icsk_ca_priv sk') \<and> ill_alpha (icsk_ca_priv sk') \<le> 1280
    \<and> 8 \<le> ill_beta (icsk_ca_priv sk') \<and> ill_beta (icsk_ca_priv sk') \<le> 32"
  using illinois_params_range [of "(sample_sk sample_illinois)\<lparr>snd_cwnd := 100\<rparr>" illinois_default]
    sample_illinois_ok by (auto simp: sample_sk_def)

text \<open>
  the window of Illinois. An increase never shrinks the window, never passes the clamp and
  never divides by zero; a loss leaves \<open>beta\<close> 64ths of the window exactly, between an eighth and
  a half of it, and at least 2.
\<close>

theorem illinois_window:
  assumes "illinois_params_ok (icsk_ca_priv sk)" and "0 < snd_cwnd sk"
    and "snd_cwnd sk \<le> snd_cwnd_clamp sk" and "unat (snd_cwnd_clamp sk) < 2 ^ 27"
  shows "(\<exists>sk'. illinois_increase sk = Some sk' \<and> snd_cwnd sk \<le> snd_cwnd sk'
      \<and> snd_cwnd sk' \<le> snd_cwnd_clamp sk)
    \<and> (\<exists>v. tcp_illinois_ssthresh k sk = Some (v, sk)
      \<and> unat v = max (unat (snd_cwnd sk) * unat (ill_beta (icsk_ca_priv sk)) div 64) 2
      \<and> unat (snd_cwnd sk) div 8 \<le> unat v \<and> unat v \<le> max (unat (snd_cwnd sk) div 2) 2)"
proof -
  have "unat (snd_cwnd sk) < 2 ^ 27" "0 < snd_cwnd_clamp sk" "snd_cwnd_clamp sk \<le> 0x7FFFFFFF"
    using assms(2-4) by (simp_all add: word_le_nat_alt word_less_nat_alt)
  with illinois_increase_win [of sk] illinois_ssthresh_value [of sk k] assms show ?thesis by blast
qed

theorem illinois_window_witness:
  "\<exists>sk'. illinois_increase (sample_sk sample_illinois) = Some sk' \<and> 4 \<le> snd_cwnd sk'
      \<and> snd_cwnd sk' \<le> 100"
  using illinois_window [of "sample_sk sample_illinois" kernel_init] sample_illinois_ok
  by (auto simp: sample_sk_def)

text \<open>The query of the state divides by the number of samples, which is zero after every reset.\<close>

lemma illinois_info_traps:
  "tcp_illinois_info 1 (tp\<lparr>icsk_ca_priv := rtt_reset tp ca\<rparr>) = None"
  by (simp add: tcp_illinois_info_def do_div_def rtt_reset_def)

end
