(* ===== verification/Naive_Reno.thy ===== *)
theory Naive_Reno
  imports Window
begin

text \<open>
  The example algorithm of the mini-tutorial, src/ns-2.34/tcp/linux/tcp_naivereno.c: one segment per
  acknowledgment below the threshold, \<open>alpha\<close> segments per window above, and a loss takes off one
  \<open>beta\<close>-th. The lemmas show the loss response for every positive \<open>beta\<close> and safe runs with the
  default parameters.
\<close>

record naive_params =
  naive_alpha :: s32
  naive_beta :: s32

definition naive_default :: naive_params where
  "naive_default = \<lparr> naive_alpha = 1, naive_beta = 2 \<rparr>"

definition tcp_naive_reno_cong_avoid ::
  "naive_params \<Rightarrow> u32 \<Rightarrow> u32 \<Rightarrow> u32 \<Rightarrow> s32 \<Rightarrow> kernel \<Rightarrow> 'ca tcp_sock \<Rightarrow> 'ca tcp_sock option" where
  "tcp_naive_reno_cong_avoid p ack rtt in_flight flag k tp =
     Some (if snd_cwnd tp < snd_ssthresh tp then tp\<lparr>snd_cwnd := snd_cwnd tp + 1\<rparr>
           else if snd_cwnd tp \<le> snd_cwnd_cnt tp
           then let tp = tp\<lparr>snd_cwnd := snd_cwnd tp + naive_alpha p, snd_cwnd_cnt := 0\<rparr>
                in if snd_cwnd_clamp tp < snd_cwnd tp then tp\<lparr>snd_cwnd := snd_cwnd_clamp tp\<rparr> else tp
           else tp\<lparr>snd_cwnd_cnt := snd_cwnd_cnt tp + 1\<rparr>)"

definition tcp_naive_reno_ssthresh ::
  "naive_params \<Rightarrow> kernel \<Rightarrow> 'ca tcp_sock \<Rightarrow> (u32 \<times> 'ca tcp_sock) option" where
  "tcp_naive_reno_ssthresh p k tp = do {
     reduction \<leftarrow> cdiv (snd_cwnd tp) (naive_beta p);
     Some (max (snd_cwnd tp - reduction) 2, tp)
   }"

definition tcp_naive_reno_min_cwnd :: "'ca tcp_sock \<Rightarrow> u32 option" where
  "tcp_naive_reno_min_cwnd tp = Some (snd_ssthresh tp)"

definition tcp_naive_reno :: "naive_params \<Rightarrow> 'ca tcp_congestion_ops" where
  "tcp_naive_reno p = ops_null\<lparr>ca_name := ''naive_reno'',
     ca_ssthresh := Some (tcp_naive_reno_ssthresh p),
     ca_cong_avoid := Some (tcp_naive_reno_cong_avoid p),
     ca_min_cwnd := Some tcp_naive_reno_min_cwnd\<rparr>"

lemma naive_ssthresh_value:
  assumes "naive_beta p \<noteq> 0"
  shows "\<exists>v. tcp_naive_reno_ssthresh p k sk = Some (v, sk) \<and> 2 \<le> v \<and> v \<le> max (snd_cwnd sk) 2
    \<and> unat v = max (unat (snd_cwnd sk) - unat (snd_cwnd sk) div unat (naive_beta p)) 2"
proof -
  let ?d = "snd_cwnd sk div naive_beta p"
  have d: "unat ?d = unat (snd_cwnd sk) div unat (naive_beta p)" by (rule unat_div_distrib)
  then have "?d \<le> snd_cwnd sk" by (simp add: word_le_nat_alt)
  then have s: "unat (snd_cwnd sk - ?d) = unat (snd_cwnd sk) - unat ?d" by (rule unat_minus_le)
  have m: "unat (max x 2) = max (unat x) 2" for x :: u32 by (simp add: max_def word_le_nat_alt)
  have "snd_cwnd sk - ?d \<le> snd_cwnd sk" by (simp add: word_le_nat_alt s)
  from max2_bounds [OF this] assms show ?thesis
    by (simp add: tcp_naive_reno_ssthresh_def m s d)
qed

lemma naive_cong_avoid_live:
  assumes "mod_live (Some L) pinv sk"
  shows "op_ok (mod_live (Some L) pinv) sk
    (tcp_naive_reno_cong_avoid naive_default ack rtt infl flag k sk)"
proof -
  have w: "win (Some L) sk" "pinv (icsk_ca_priv sk)" using assms by (simp_all add: mod_live_def)
  then have l: "snd_cwnd sk \<le> L" "L \<le> 1000000" by (simp_all add: win_defs WND_MAX_def)
  then have "snd_cwnd sk < 0xFFFFFFFF" by (auto simp: word_le_nat_alt word_less_nat_alt)
  from unat_Suc_no_wrap [OF this] have pos: "0 < snd_cwnd sk + 1" by (simp add: word_less_nat_alt)
  have "win (Some L) (sk\<lparr>snd_cwnd := snd_cwnd sk + 1\<rparr>)" if "snd_cwnd sk < snd_ssthresh sk"
  proof -
    have "snd_cwnd sk + 1 \<le> snd_ssthresh sk" using that by simp
    with w pos show ?thesis by (auto simp: win_defs intro: order.trans)
  qed
  moreover have "win (Some L) (sk\<lparr>snd_cwnd_cnt := 0, snd_cwnd := snd_cwnd_clamp sk\<rparr>)"
    using w by (auto simp: win_defs word_less_nat_alt word_le_nat_alt)
  moreover have "win (Some L) (sk\<lparr>snd_cwnd := snd_cwnd sk + 1\<rparr>)"
    if "\<not> snd_cwnd_clamp sk < snd_cwnd sk + 1"
    using w pos that by (auto simp: win_defs not_less intro: order.trans)
  ultimately show ?thesis using w
    by (auto simp: tcp_naive_reno_cong_avoid_def naive_default_def Let_def mod_live_def)
qed

interpretation naive_reno: cong_module "tcp_naive_reno naive_default" "Some L" "\<lambda>_. True" "\<lambda>_. True"
  "\<lambda>_ _ _. True" "\<lambda>_ _ _. True" for L
proof (unfold_locales, goal_cases)
  case (2 sk k)
  from naive_ssthresh_value [of naive_default k sk] obtain v where
    "tcp_naive_reno_ssthresh naive_default k sk = Some (v, sk)" "2 \<le> v" "v \<le> max (snd_cwnd sk) 2"
    by (auto simp: naive_default_def)
  then show ?case
    by (intro exI [of _ v] exI [of _ "icsk_ca_priv sk"])
      (simp add: tcp_naive_reno_def call_ssthresh_def)
next
  case (3 sk)
  then show ?case
    by (auto simp: tcp_naive_reno_def call_min_cwnd_def tcp_naive_reno_min_cwnd_def word_pos_iff)
next
  case (9 sk k)
  from naive_ssthresh_value [of naive_default k sk] obtain v where
    "tcp_naive_reno_ssthresh naive_default k sk = Some (v, sk)" "2 \<le> v" "v \<le> max (snd_cwnd sk) 2"
    by (auto simp: naive_default_def)
  then show ?case
    by (intro exI [of _ v] exI [of _ "icsk_ca_priv sk"])
      (simp add: tcp_naive_reno_def call_ssthresh_def)
qed (simp_all add: tcp_naive_reno_def ops_null_def call_cong_avoid_def naive_cong_avoid_live
  mod_live_def)

section \<open>Properties\<close>

text \<open>
  a connection that runs the example algorithm with its default parameters and starts
  within a bound of at most 1000000 packets never traps, and keeps its window positive and within
  the bound.
\<close>

theorem naive_reno_runs_safe:
  assumes "\<not> initialized ag" and "win (Some L) (linux_sk ag)"
    and "run_env (\<lambda>_ _ _. True) (\<lambda>_ _ _. True) (tcp_naive_reno naive_default) evs ag"
  shows "\<exists>ag'. agent_run (tcp_naive_reno naive_default) evs ag = Some ag' \<and> win (Some L) (linux_sk ag')"
  using assms by (intro naive_reno.module_run_safe_from_start) simp_all

theorem naive_reno_runs_safe_witness:
  "\<exists>ag'. agent_run (tcp_naive_reno naive_default) sample_run (sample_agent ()) = Some ag'
     \<and> win (Some 1000) (linux_sk ag')"
  by (rule naive_reno_runs_safe) (simp_all add: sample_win sample_run_env)

end
