(* ===== verification/Lp.thy ===== *)
theory Lp
  imports Window
begin

text \<open>
  TCP Low Priority, src/ns-2.34/tcp/linux/src/tcp_lp.c: Reno that backs off when the one-way delay,
  estimated from the time stamps of both ends, leaves the lower 15 percent of its range. The
  lemmas show that the estimate of the remote clock rate never divides by zero on any state and
  time stamps, what an early congestion indication does to the window, and that the absolute
  value the code takes of the one-way delay has no effect.
\<close>

abbreviation (input) LP_RESOL :: u32 where "LP_RESOL \<equiv> 1000"
abbreviation (input) LP_VALID_RHZ :: u32 where "LP_VALID_RHZ \<equiv> 1"
abbreviation (input) LP_VALID_OWD :: u32 where "LP_VALID_OWD \<equiv> 2"
abbreviation (input) LP_WITHIN_THR :: u32 where "LP_WITHIN_THR \<equiv> 8"
abbreviation (input) LP_WITHIN_INF :: u32 where "LP_WITHIN_INF \<equiv> 16"

record lp =
  lp_flag :: u32
  sowd :: u32
  owd_min :: u32
  owd_max :: u32
  owd_max_rsv :: u32
  remote_hz :: u32
  remote_ref_time :: u32
  local_ref_time :: u32
  last_drop :: u32
  inference :: u32

section \<open>Operations\<close>

definition tcp_lp_init :: "kernel \<Rightarrow> lp tcp_sock \<Rightarrow> lp tcp_sock option" where
  "tcp_lp_init k tp = Some (tp\<lparr>icsk_ca_priv := \<lparr> lp_flag = 0, sowd = 0, owd_min = 0xffffffff,
     owd_max = 0, owd_max_rsv = 0, remote_hz = 0, remote_ref_time = 0, local_ref_time = 0,
     last_drop = 0, inference = 0 \<rparr>\<rparr>)"

definition tcp_lp_cong_avoid ::
  "u32 \<Rightarrow> u32 \<Rightarrow> u32 \<Rightarrow> s32 \<Rightarrow> kernel \<Rightarrow> lp tcp_sock \<Rightarrow> lp tcp_sock option" where
  "tcp_lp_cong_avoid ack rtt in_flight flag k tp =
    (if lp_flag (icsk_ca_priv tp) AND LP_WITHIN_INF = 0
     then tcp_reno_cong_avoid ack rtt in_flight flag k tp else Some tp)"

text \<open>A flag set or cleared by a condition.\<close>

definition lp_set_flag :: "u32 \<Rightarrow> bool \<Rightarrow> lp \<Rightarrow> lp" where
  "lp_set_flag f b ca = ca\<lparr>lp_flag := (if b then lp_flag ca OR f else lp_flag ca AND NOT f)\<rparr>"

text \<open>
  The 64-bit variables \<open>rhz\<close> and \<open>m\<close> hold values far below 63 bits, so they are integers here;
  the conversions to 32 bits on the way in and out are those of the code.
\<close>

definition lp_rhz :: "tcp_options_received \<Rightarrow> lp \<Rightarrow> int option" where
  "lp_rhz rx ca =
    (let rhz = uint (push_bit 6 (remote_hz ca)) in
     if remote_ref_time ca = 0 \<or> local_ref_time ca = 0 then Some rhz
     else if rcv_tsval rx = remote_ref_time ca \<or> rcv_tsecr rx = local_ref_time ca then Some rhz
     else do {
       q \<leftarrow> cdiv (HZ * (rcv_tsval rx - remote_ref_time ca)) (rcv_tsecr rx - local_ref_time ca);
       let m = uint q;
       let m = (if m < 0 then - m else m);
       Some (if 0 < rhz then rhz + (m - rhz div 64) else m * 64)
     })"

definition tcp_lp_remote_hz_estimator :: "tcp_options_received \<Rightarrow> lp \<Rightarrow> (u32 \<times> lp) option" where
  "tcp_lp_remote_hz_estimator rx ca = do {
     rhz \<leftarrow> lp_rhz rx ca;
     let ca = lp_set_flag LP_VALID_RHZ (0 < rhz div 64) ca;
     Some (word_of_int (rhz div 64),
           ca\<lparr>remote_ref_time := rcv_tsval rx, local_ref_time := rcv_tsecr rx\<rparr>)
   }"

definition tcp_lp_owd_calculator :: "tcp_options_received \<Rightarrow> lp \<Rightarrow> (u32 \<times> lp) option" where
  "tcp_lp_owd_calculator rx ca = do {
     (hz, ca) \<leftarrow> tcp_lp_remote_hz_estimator rx ca;
     let ca = ca\<lparr>remote_hz := hz\<rparr>;
     owd \<leftarrow> (if lp_flag ca AND LP_VALID_RHZ \<noteq> 0
            then do {
              q \<leftarrow> cdiv LP_RESOL (remote_hz ca);
              let owd = uint (rcv_tsval rx * q - rcv_tsecr rx * (LP_RESOL div HZ));
              Some (if owd < 0 then - owd else owd)
            }
            else Some 0);
     let ca = lp_set_flag LP_VALID_OWD (0 < owd) ca;
     Some (word_of_int owd, ca)
   }"

definition lp_record_max :: "int \<Rightarrow> lp \<Rightarrow> lp" where
  "lp_record_max mowd ca =
    (if uint (owd_max ca) < mowd
     then if uint (owd_max_rsv ca) < mowd
          then ca\<lparr>owd_max := (if owd_max_rsv ca = 0 then word_of_int mowd else owd_max_rsv ca),
                  owd_max_rsv := word_of_int mowd\<rparr>
          else ca\<lparr>owd_max := word_of_int mowd\<rparr>
     else ca)"

definition tcp_lp_rtt_sample :: "tcp_options_received \<Rightarrow> lp \<Rightarrow> lp option" where
  "tcp_lp_rtt_sample rx ca = do {
     (owd, ca) \<leftarrow> tcp_lp_owd_calculator rx ca;
     let mowd = uint owd;
     if lp_flag ca AND LP_VALID_RHZ = 0 \<or> lp_flag ca AND LP_VALID_OWD = 0 then Some ca
     else do {
       let ca = (if mowd < uint (owd_min ca) then ca\<lparr>owd_min := word_of_int mowd\<rparr> else ca);
       let ca = lp_record_max mowd ca;
       Some (if sowd ca \<noteq> 0
             then ca\<lparr>sowd := word_of_int (uint (sowd ca) + (mowd - uint (drop_bit 3 (sowd ca))))\<rparr>
             else ca\<lparr>sowd := word_of_int (mowd * 8)\<rparr>)
     }
   }"

text \<open>The inference period and the threshold, and the response to leaving the threshold.\<close>

definition lp_infer :: "kernel \<Rightarrow> tcp_options_received \<Rightarrow> lp \<Rightarrow> lp" where
  "lp_infer k rx ca =
    (let ca = (if rcv_tsecr rx < tcp_time_stamp k
               then ca\<lparr>inference := 3 * (tcp_time_stamp k - rcv_tsecr rx)\<rparr> else ca);
         ca = lp_set_flag LP_WITHIN_INF
                (last_drop ca \<noteq> 0 \<and> tcp_time_stamp k - last_drop ca < inference ca) ca
     in lp_set_flag LP_WITHIN_THR
          (drop_bit 3 (sowd ca) < owd_min ca + (15 * (owd_max ca - owd_min ca)) div 100) ca)"

definition lp_respond :: "kernel \<Rightarrow> lp tcp_sock \<Rightarrow> lp tcp_sock" where
  "lp_respond k tp =
    (let ca = icsk_ca_priv tp in
     if lp_flag ca AND LP_WITHIN_THR \<noteq> 0 then tp
     else
       let ca = ca\<lparr>owd_min := drop_bit 3 (sowd ca), owd_max := drop_bit 2 (sowd ca),
                   owd_max_rsv := drop_bit 2 (sowd ca)\<rparr>
       in tp\<lparr>snd_cwnd := (if lp_flag ca AND LP_WITHIN_INF \<noteq> 0 then 1
                           else max (drop_bit 1 (snd_cwnd tp)) 1),
             icsk_ca_priv := ca\<lparr>last_drop := tcp_time_stamp k\<rparr>\<rparr>)"

definition tcp_lp_pkts_acked :: "u32 \<Rightarrow> s64 \<Rightarrow> kernel \<Rightarrow> lp tcp_sock \<Rightarrow> lp tcp_sock option" where
  "tcp_lp_pkts_acked num_acked t k tp = do {
     ca \<leftarrow> (if \<not> ktime_equal t net_invalid_timestamp
           then tcp_lp_rtt_sample (rx_opt tp) (icsk_ca_priv tp) else Some (icsk_ca_priv tp));
     Some (lp_respond k (tp\<lparr>icsk_ca_priv := lp_infer k (rx_opt tp) ca\<rparr>))
   }"

definition tcp_lp :: "lp tcp_congestion_ops" where
  "tcp_lp = ops_null\<lparr>ca_flags := TCP_CONG_RTT_STAMP, ca_init := Some tcp_lp_init,
     ca_ssthresh := Some tcp_reno_ssthresh, ca_cong_avoid := Some tcp_lp_cong_avoid,
     ca_min_cwnd := Some tcp_reno_min_cwnd, ca_pkts_acked := Some tcp_lp_pkts_acked,
     ca_name := ''lp''\<rparr>"

section \<open>The estimates are defined\<close>

text \<open>
  The estimated remote rate, as a 38-bit number, is positive only if its integer part, the value
  the code divides by, is not zero.
\<close>

lemma lp_rhz_Some: "\<exists>r. lp_rhz rx ca = Some r \<and> 0 \<le> r \<and> r < 274877906944"
proof -
  let ?r = "uint (push_bit 6 (remote_hz ca))"
  have r: "0 \<le> ?r" "?r < 4294967296" using uint_lt2p [of "push_bit 6 (remote_hz ca)"] by simp_all
  have m: "0 \<le> uint q" "uint q < 4294967296" for q :: u32 using uint_lt2p [of q] by simp_all
  have d: "a - b \<noteq> 0" if "a \<noteq> b" for a b :: u32 using that by simp
  show ?thesis
  proof (cases "remote_ref_time ca = 0 \<or> local_ref_time ca = 0
      \<or> rcv_tsval rx = remote_ref_time ca \<or> rcv_tsecr rx = local_ref_time ca")
    case True
    with r show ?thesis by (auto simp: lp_rhz_def Let_def)
  next
    case False
    define q where "q = (HZ * (rcv_tsval rx - remote_ref_time ca)) div (rcv_tsecr rx - local_ref_time ca)"
    have "lp_rhz rx ca = Some (if 0 < ?r then ?r + (uint q - ?r div 64) else uint q * 64)"
      using False by (simp add: lp_rhz_def Let_def q_def)
    moreover have "0 \<le> ?r + (uint q - ?r div 64)" "?r + (uint q - ?r div 64) < 274877906944"
      "uint q * 64 < 274877906944" "0 \<le> uint q * 64"
      using r m [of q] by linarith+
    ultimately show ?thesis by simp
  qed
qed

lemma lp_flag_bit [simp]: "lp_flag (lp_set_flag f b ca) = (if b then lp_flag ca OR f else lp_flag ca AND NOT f)"
  by (simp add: lp_set_flag_def)

lemma lp_rtt_sample_Some: "\<exists>ca'. tcp_lp_rtt_sample rx ca = Some ca'"
proof -
  obtain r where r: "lp_rhz rx ca = Some r" "0 \<le> r" "r < 274877906944" using lp_rhz_Some by blast
  have hz: "word_of_int (r div 64) \<noteq> (0 :: u32)" if "0 < r div 64"
  proof -
    have "r div 64 < 4294967296" using r(3) by linarith
    then have "uint (word_of_int (r div 64) :: u32) = r div 64"
      using that by (simp add: unsigned_of_int take_bit_int_eq_self)
    with that show ?thesis by auto
  qed
  have "(f AND NOT 1) AND 1 = 0" for f :: u32 by (simp add: bit_eq_iff) (auto simp: bit_simps)
  then have nf: "0 < r div 64" if "lp_flag (lp_set_flag 1 (0 < r div 64) ca) AND 1 \<noteq> 0"
    using that by (auto split: if_splits)
  have "\<exists>d c. tcp_lp_owd_calculator rx ca = Some (d, c)"
    using r(1) hz nf
    by (cases "0 < r div 64")
      (auto simp: tcp_lp_owd_calculator_def tcp_lp_remote_hz_estimator_def Let_def cdiv_eq_Some_iff
        lp_set_flag_def)
  then obtain o' c where "tcp_lp_owd_calculator rx ca = Some (o', c)" by blast
  then show ?thesis by (auto simp: tcp_lp_rtt_sample_def Let_def)
qed

section \<open>The module\<close>

lemma lp_respond_live:
  assumes "mod_live wb pinv sk" and "\<And>ca. pinv ca"
  shows "mod_live wb pinv (lp_respond k sk)" and "net_frame sk (lp_respond k sk)"
proof -
  have "0 < max (drop_bit 1 (snd_cwnd sk)) 1" by (simp add: less_max_iff_disj)
  moreover have "max (drop_bit 1 (snd_cwnd sk)) 1 \<le> max (snd_cwnd sk) 2"
    using shr_le [of 1 "snd_cwnd sk"] by (simp add: max.coboundedI1 max.coboundedI2)
  moreover have "(1 :: u32) \<le> max (snd_cwnd sk) 2" by (simp add: max.coboundedI2)
  ultimately have "win wb (sk\<lparr>snd_cwnd := max (drop_bit 1 (snd_cwnd sk)) 1\<rparr>)" "win wb (sk\<lparr>snd_cwnd := 1\<rparr>)"
    using mod_live_shrink [OF assms(1)] by (simp_all add: mod_live_def)
  then show "mod_live wb pinv (lp_respond k sk)"
    using assms by (simp add: lp_respond_def Let_def mod_live_def)
  show "net_frame sk (lp_respond k sk)" by (simp add: lp_respond_def Let_def)
qed

lemma lp_pkts_acked_live:
  assumes "mod_live wb (\<lambda>_. True) sk"
  shows "op_ok (mod_live wb (\<lambda>_. True)) sk (tcp_lp_pkts_acked n t k sk)"
proof -
  obtain ca where ca: "(if \<not> ktime_equal t net_invalid_timestamp
      then tcp_lp_rtt_sample (rx_opt sk) (icsk_ca_priv sk) else Some (icsk_ca_priv sk)) = Some ca"
    using lp_rtt_sample_Some [of "rx_opt sk" "icsk_ca_priv sk"]
    by (cases "ktime_equal t net_invalid_timestamp") auto
  let ?sk = "sk\<lparr>icsk_ca_priv := lp_infer k (rx_opt sk) ca\<rparr>"
  have "mod_live wb (\<lambda>_. True) ?sk" using assms by (simp add: mod_live_def)
  note r = lp_respond_live [OF this TrueI, of k]
  have "net_frame sk (lp_respond k ?sk)" using r(2) by (simp add: net_frame_def)
  with r(1) show ?thesis unfolding tcp_lp_pkts_acked_def ca bind.bind_lunit by simp
qed

interpretation lp: cong_module tcp_lp wb "\<lambda>_. True" "\<lambda>_. True" "\<lambda>_ _ _. True" "\<lambda>_ _ _. True" for wb
proof (unfold_locales, goal_cases)
  case (2 sk k)
  with call_reno_ssthresh [of tcp_lp "\<lambda>_. True" sk k] show ?case by (auto simp: tcp_lp_def mod_live_def)
next
  case (3 sk)
  then show ?case
    using reno_min_cwnd_bounds [of "snd_ssthresh sk"]
    by (simp add: tcp_lp_def ops_null_def call_min_cwnd_def tcp_reno_min_cwnd_def)
next
  case (9 sk k)
  with call_reno_ssthresh [of tcp_lp "\<lambda>_. True" sk k] show ?case by (auto simp: tcp_lp_def mod_live_def)
qed (simp_all add: tcp_lp_def ops_null_def call_cong_avoid_def tcp_lp_cong_avoid_def
  reno_cong_avoid_live lp_pkts_acked_live tcp_lp_init_def mod_live_def)

section \<open>The flags\<close>

lemma lp_set_flag_same: "lp_flag (lp_set_flag f b ca) AND f = (if b then f else 0)"
  by (simp add: bit_eq_iff) (auto simp: bit_simps)

lemma lp_set_flag_other:
  assumes "f AND g = 0"
  shows "lp_flag (lp_set_flag f b ca) AND g = lp_flag ca AND g"
proof (rule bit_word_eqI)
  fix n
  assume "n < LENGTH(32)"
  moreover have "bit (f AND g) n \<longleftrightarrow> False" by (simp add: assms)
  ultimately show "bit (lp_flag (lp_set_flag f b ca) AND g) n \<longleftrightarrow> bit (lp_flag ca AND g) n"
    by (auto simp: lp_set_flag_def bit_simps)
qed

lemma lp_set_flag_sel [simp]:
  "sowd (lp_set_flag f b ca) = sowd ca" "owd_min (lp_set_flag f b ca) = owd_min ca"
  "owd_max (lp_set_flag f b ca) = owd_max ca" "last_drop (lp_set_flag f b ca) = last_drop ca"
  "inference (lp_set_flag f b ca) = inference ca"
  by (simp_all add: lp_set_flag_def)

definition lp_within :: "kernel \<Rightarrow> tcp_options_received \<Rightarrow> lp \<Rightarrow> bool" where
  "lp_within k rx ca \<longleftrightarrow> last_drop ca \<noteq> 0
     \<and> tcp_time_stamp k - last_drop ca
         < (if rcv_tsecr rx < tcp_time_stamp k then 3 * (tcp_time_stamp k - rcv_tsecr rx) else inference ca)"

lemma lp_infer_sel:
  "sowd (lp_infer k rx ca) = sowd ca" "owd_min (lp_infer k rx ca) = owd_min ca"
  "owd_max (lp_infer k rx ca) = owd_max ca" "last_drop (lp_infer k rx ca) = last_drop ca"
  "lp_flag (lp_infer k rx ca) AND 16 = (if lp_within k rx ca then 16 else 0)"
  "lp_flag (lp_infer k rx ca) AND 8
     = (if drop_bit 3 (sowd ca) < owd_min ca + (15 * (owd_max ca - owd_min ca)) div 100 then 8 else 0)"
proof -
  have "(8 :: u32) AND 16 = 0" by simp
  note o = lp_set_flag_other [OF this]
  show "lp_flag (lp_infer k rx ca) AND 16 = (if lp_within k rx ca then 16 else 0)"
    unfolding lp_infer_def Let_def o lp_set_flag_same lp_within_def by simp
  show "lp_flag (lp_infer k rx ca) AND 8
     = (if drop_bit 3 (sowd ca) < owd_min ca + (15 * (owd_max ca - owd_min ca)) div 100 then 8 else 0)"
    unfolding lp_infer_def Let_def lp_set_flag_same lp_set_flag_sel by simp
qed (simp_all add: lp_infer_def Let_def)

section \<open>Properties\<close>

text \<open>
  the response of TCP-LP to an early congestion indication (the smoothed delay is not below
  the threshold): a window of 1 within the inference period, else half of it and at least 1;
  the time of the drop is recorded, and the delay range restarts at the smoothed delay.
\<close>

theorem lp_early_congestion:
  assumes "\<not> drop_bit 3 (sowd ca) < owd_min ca + (15 * (owd_max ca - owd_min ca)) div 100"
    and "icsk_ca_priv sk = lp_infer k rx ca"
  shows "snd_cwnd (lp_respond k sk)
      = (if lp_within k rx ca then 1 else max (drop_bit 1 (snd_cwnd sk)) 1)
    \<and> last_drop (icsk_ca_priv (lp_respond k sk)) = tcp_time_stamp k
    \<and> owd_min (icsk_ca_priv (lp_respond k sk)) = drop_bit 3 (sowd ca)
    \<and> owd_max (icsk_ca_priv (lp_respond k sk)) = drop_bit 2 (sowd ca)"
proof -
  have "lp_flag (icsk_ca_priv sk) AND 8 = 0"
    unfolding assms(2) lp_infer_sel using assms(1) by (rule if_not_P)
  then show ?thesis
    unfolding lp_respond_def Let_def by (simp add: assms(2) lp_infer_sel)
qed

definition sample_lp :: lp where
  "sample_lp = \<lparr> lp_flag = 3, sowd = 800, owd_min = 50, owd_max = 120, owd_max_rsv = 120,
     remote_hz = 1000, remote_ref_time = 10, local_ref_time = 10, last_drop = 0, inference = 0 \<rparr>"

theorem lp_early_congestion_witness:
  "snd_cwnd (lp_respond sample_kernel
     ((sample_sk (lp_infer sample_kernel \<lparr>rcv_tsval = 100, rcv_tsecr = 60, saw_tstamp = True\<rparr> sample_lp))
        \<lparr>snd_cwnd := 50\<rparr>)) = 25"
  using lp_early_congestion [of sample_lp
      "(sample_sk (lp_infer sample_kernel \<lparr>rcv_tsval = 100, rcv_tsecr = 60, saw_tstamp = True\<rparr> sample_lp))
        \<lparr>snd_cwnd := 50\<rparr>" sample_kernel "\<lparr>rcv_tsval = 100, rcv_tsecr = 60, saw_tstamp = True\<rparr>"]
  by (simp add: sample_sk_def sample_kernel_def) (simp add: sample_lp_def lp_within_def)

text \<open>
  a connection that runs TCP-LP never divides by zero nor traps otherwise, on any sequence of
  events with any time stamps, and keeps its window positive and within the bound it started with.
\<close>

theorem lp_runs_safe:
  assumes "\<not> initialized ag" and "win wb (linux_sk ag)"
    and "run_env (\<lambda>_ _ _. True) (\<lambda>_ _ _. True) tcp_lp evs ag"
  shows "\<exists>ag'. agent_run tcp_lp evs ag = Some ag' \<and> win wb (linux_sk ag')"
  using assms by (intro lp.module_run_safe_from_start) simp_all

theorem lp_runs_safe_witness:
  "\<exists>ag'. agent_run tcp_lp sample_run (sample_agent sample_lp) = Some ag'
     \<and> win (Some 1000) (linux_sk ag')"
  by (rule lp_runs_safe) (simp_all add: sample_win sample_run_env)

text \<open>
  The one-way delay is computed on unsigned 32 bits before it is widened, so the code's absolute
  value does nothing: with a remote clock of 1000 Hz, 5 ticks behind, the delay is not 5 but
  4294967291.
\<close>

lemma lp_owd_not_absolute:
  "\<exists>ca. tcp_lp_owd_calculator \<lparr>rcv_tsval = 995, rcv_tsecr = 1000, saw_tstamp = True\<rparr>
      (sample_lp\<lparr>remote_ref_time := 495, local_ref_time := 500\<rparr>) = Some (4294967291, ca)"
  by (simp add: tcp_lp_owd_calculator_def tcp_lp_remote_hz_estimator_def lp_rhz_def sample_lp_def
      Let_def lp_set_flag_def HZ_def)

end
