(* ===== verification/Htcp.thy ===== *)
theory Htcp
  imports Window
begin

text \<open>
  H-TCP, src/ns-2.34/tcp/linux/src/tcp_htcp.c. The increase grows with the time since the last
  congestion event and is scaled by the round trip time; the decrease follows the ratio of the
  smallest to the largest round trip time, or the achieved bandwidth. The private state is the
  record \<open>htcp\<close>, alpha and beta are fixed-point numbers with 7 fractional bits.
\<close>

record htcp_params =
  use_rtt_scaling :: s32
  use_bandwidth_switch :: s32

definition htcp_default :: htcp_params where
  "htcp_default = \<lparr> use_rtt_scaling = 1, use_bandwidth_switch = 1 \<rparr>"

abbreviation (input) HTCP_ALPHA_BASE :: u32 where "HTCP_ALPHA_BASE \<equiv> 128"
abbreviation (input) HTCP_BETA_MIN :: u8 where "HTCP_BETA_MIN \<equiv> 64"
abbreviation (input) HTCP_BETA_MAX :: u8 where "HTCP_BETA_MAX \<equiv> 102"

record htcp =
  ht_alpha :: u32
  ht_beta :: u8
  modeswitch :: u8
  ht_pkts_acked :: u16
  packetcount :: u32
  minRTT :: u32
  maxRTT :: u32
  last_cong :: u32
  undo_last_cong :: u32
  undo_maxRTT :: u32
  undo_old_maxB :: u32
  minB :: u32
  maxB :: u32
  old_maxB :: u32
  Bi :: u32
  lasttime :: u32

definition htcp_cong_time :: "kernel \<Rightarrow> htcp \<Rightarrow> u32" where
  "htcp_cong_time k ca = tcp_time_stamp k - last_cong ca"

definition htcp_ccount :: "kernel \<Rightarrow> htcp \<Rightarrow> u32 option" where
  "htcp_ccount k ca = cdiv (htcp_cong_time k ca) (minRTT ca)"

definition htcp_reset :: "kernel \<Rightarrow> htcp \<Rightarrow> htcp" where
  "htcp_reset k ca =
    (let ca = ca\<lparr>undo_last_cong := last_cong ca\<rparr>;
         ca = ca\<lparr>undo_maxRTT := maxRTT ca\<rparr>;
         ca = ca\<lparr>undo_old_maxB := old_maxB ca\<rparr>
     in ca\<lparr>last_cong := tcp_time_stamp k\<rparr>)"

definition htcp_cwnd_undo :: "kernel \<Rightarrow> htcp tcp_sock \<Rightarrow> (u32 \<times> htcp tcp_sock) option" where
  "htcp_cwnd_undo k tp = do {
     let ca = icsk_ca_priv tp;
     let ca = ca\<lparr>last_cong := undo_last_cong ca\<rparr>;
     let ca = ca\<lparr>maxRTT := undo_maxRTT ca\<rparr>;
     let ca = ca\<lparr>old_maxB := undo_old_maxB ca\<rparr>;
     w \<leftarrow> cdiv (push_bit 7 (snd_ssthresh tp)) (ucast (ht_beta ca));
     Some (max (snd_cwnd tp) w, tp\<lparr>icsk_ca_priv := ca\<rparr>)
   }"

definition measure_rtt :: "kernel \<Rightarrow> htcp tcp_sock \<Rightarrow> htcp tcp_sock option" where
  "measure_rtt k tp = do {
     let ca = icsk_ca_priv tp;
     let srtt = drop_bit 3 (srtt tp);
     let ca = (if srtt < minRTT ca \<or> minRTT ca = 0 then ca\<lparr>minRTT := srtt\<rparr> else ca);
     late \<leftarrow> (if icsk_ca_state tp = TCP_CA_Open \<and> snd_ssthresh tp < 0xFFFF
             then do { c \<leftarrow> htcp_ccount k ca; Some (3 < c) } else Some False);
     let ca = (if late
               then let ca = (if maxRTT ca < minRTT ca then ca\<lparr>maxRTT := minRTT ca\<rparr> else ca)
                    in if maxRTT ca < srtt \<and> srtt \<le> maxRTT ca + msecs_to_jiffies 20
                       then ca\<lparr>maxRTT := srtt\<rparr> else ca
               else ca);
     Some (tp\<lparr>icsk_ca_priv := ca\<rparr>)
   }"

definition htcp_bandwidth :: "kernel \<Rightarrow> u32 \<Rightarrow> htcp \<Rightarrow> htcp option" where
  "htcp_bandwidth k cur_Bi ca = do {
     c \<leftarrow> htcp_ccount k ca;
     Some (if c \<le> 3 then ca\<lparr>Bi := cur_Bi, maxB := cur_Bi, minB := cur_Bi\<rparr>
           else
             let ca = ca\<lparr>Bi := (3 * Bi ca + cur_Bi) div 4\<rparr>;
                 ca = (if maxB ca < Bi ca then ca\<lparr>maxB := Bi ca\<rparr> else ca)
             in if maxB ca < minB ca then ca\<lparr>minB := maxB ca\<rparr> else ca)
   }"

definition measure_achieved_throughput ::
  "htcp_params \<Rightarrow> u32 \<Rightarrow> s64 \<Rightarrow> kernel \<Rightarrow> htcp tcp_sock \<Rightarrow> htcp tcp_sock option" where
  "measure_achieved_throughput p pkts t k tp =
    (let ca = icsk_ca_priv tp;
         now = tcp_time_stamp k;
         ca = (if icsk_ca_state tp = TCP_CA_Open then ca\<lparr>ht_pkts_acked := pkts\<rparr> else ca)
     in if use_bandwidth_switch p = 0 then Some (tp\<lparr>icsk_ca_priv := ca\<rparr>)
        else if icsk_ca_state tp \<noteq> TCP_CA_Open \<and> icsk_ca_state tp \<noteq> TCP_CA_Disorder
        then Some (tp\<lparr>icsk_ca_priv := ca\<lparr>packetcount := 0, lasttime := now\<rparr>\<rparr>)
        else
          let ca = ca\<lparr>packetcount := packetcount ca + pkts\<rparr>;
              a = (if drop_bit 7 (ht_alpha ca) \<noteq> 0 then drop_bit 7 (ht_alpha ca) else 1)
          in if snd_cwnd tp - a \<le> packetcount ca \<and> minRTT ca \<le> now - lasttime ca \<and> 0 < minRTT ca
             then do {
               cur_Bi \<leftarrow> cdiv (packetcount ca * HZ) (now - lasttime ca);
               ca \<leftarrow> htcp_bandwidth k cur_Bi ca;
               Some (tp\<lparr>icsk_ca_priv := ca\<lparr>packetcount := 0, lasttime := now\<rparr>\<rparr>)
             }
             else Some (tp\<lparr>icsk_ca_priv := ca\<rparr>))"

text \<open>The quotient is stored in the 8-bit beta before it is clamped.\<close>

definition htcp_beta_rtt :: "u32 \<Rightarrow> u32 \<Rightarrow> htcp \<Rightarrow> htcp option" where
  "htcp_beta_rtt minr maxr ca =
    (if modeswitch ca \<noteq> 0 \<and> msecs_to_jiffies 10 < minr \<and> maxr \<noteq> 0
     then do {
       b \<leftarrow> cdiv (push_bit 7 minr) maxr;
       let beta = (ucast b :: u8);
       Some (ca\<lparr>ht_beta := (if beta < HTCP_BETA_MIN then HTCP_BETA_MIN
                           else if HTCP_BETA_MAX < beta then HTCP_BETA_MAX else beta)\<rparr>)
     }
     else Some (ca\<lparr>ht_beta := HTCP_BETA_MIN, modeswitch := 1\<rparr>))"

definition htcp_beta_update :: "htcp_params \<Rightarrow> htcp \<Rightarrow> u32 \<Rightarrow> u32 \<Rightarrow> htcp option" where
  "htcp_beta_update p ca minr maxr =
    (if use_bandwidth_switch p \<noteq> 0
     then let mB = maxB ca; oB = old_maxB ca; ca = ca\<lparr>old_maxB := maxB ca\<rparr>
          in if \<not> between (5 * mB) (4 * oB) (6 * oB)
             then Some (ca\<lparr>ht_beta := HTCP_BETA_MIN, modeswitch := 0\<rparr>)
             else htcp_beta_rtt minr maxr ca
     else htcp_beta_rtt minr maxr ca)"

definition htcp_factor :: "u32 \<Rightarrow> u32" where
  "htcp_factor diff =
    (if HZ < diff
     then let diff = diff - HZ in 1 + (10 * diff + ((diff div 2) * (diff div 2)) div HZ) div HZ
     else 1)"

definition htcp_alpha_update :: "htcp_params \<Rightarrow> kernel \<Rightarrow> htcp \<Rightarrow> htcp option" where
  "htcp_alpha_update p k ca = do {
     let factor = htcp_factor (htcp_cong_time k ca);
     factor \<leftarrow> (if use_rtt_scaling p \<noteq> 0 \<and> minRTT ca \<noteq> 0
       then do {
         scale \<leftarrow> cdiv (push_bit 3 HZ) (10 * minRTT ca);
         let scale = min (max scale (push_bit 2 1)) (push_bit 3 10);
         factor \<leftarrow> cdiv (push_bit 3 factor) scale;
         Some (if factor = 0 then 1 else factor)
       }
       else Some factor);
     let a = 2 * factor * (push_bit 7 1 - ucast (ht_beta ca));
     Some (ca\<lparr>ht_alpha := (if a = 0 then HTCP_ALPHA_BASE else a)\<rparr>)
   }"

definition htcp_param_update :: "htcp_params \<Rightarrow> kernel \<Rightarrow> htcp \<Rightarrow> htcp option" where
  "htcp_param_update p k ca = do {
     let minr = minRTT ca;
     let maxr = maxRTT ca;
     ca \<leftarrow> htcp_beta_update p ca minr maxr;
     ca \<leftarrow> htcp_alpha_update p k ca;
     Some (if 0 < minr \<and> minr < maxr
           then ca\<lparr>maxRTT := minr + ((maxr - minr) * 95) div 100\<rparr> else ca)
   }"

definition htcp_recalc_ssthresh ::
  "htcp_params \<Rightarrow> kernel \<Rightarrow> htcp tcp_sock \<Rightarrow> (u32 \<times> htcp tcp_sock) option" where
  "htcp_recalc_ssthresh p k tp = do {
     ca \<leftarrow> htcp_param_update p k (icsk_ca_priv tp);
     let tp = tp\<lparr>icsk_ca_priv := ca\<rparr>;
     Some (max (drop_bit 7 (snd_cwnd tp * ucast (ht_beta ca))) 2, tp)
   }"

definition htcp_cong_avoid ::
  "htcp_params \<Rightarrow> u32 \<Rightarrow> u32 \<Rightarrow> u32 \<Rightarrow> s32 \<Rightarrow> kernel \<Rightarrow> htcp tcp_sock \<Rightarrow> htcp tcp_sock option" where
  "htcp_cong_avoid p ack rtt in_flight data_acked k tp =
    (if \<not> tcp_is_cwnd_limited tp in_flight then Some tp
     else if snd_cwnd tp \<le> snd_ssthresh tp then tcp_slow_start k tp
     else do {
       tp \<leftarrow> measure_rtt k tp;
       tp \<leftarrow> (if snd_cwnd tp \<le> drop_bit 7 (snd_cwnd_cnt tp * ht_alpha (icsk_ca_priv tp))
             then do {
               let tp = (if snd_cwnd tp < snd_cwnd_clamp tp
                         then tp\<lparr>snd_cwnd := snd_cwnd tp + 1\<rparr> else tp);
               let tp = tp\<lparr>snd_cwnd_cnt := 0\<rparr>;
               ca \<leftarrow> htcp_alpha_update p k (icsk_ca_priv tp);
               Some (tp\<lparr>icsk_ca_priv := ca\<rparr>)
             }
             else Some (tp\<lparr>snd_cwnd_cnt := snd_cwnd_cnt tp + ht_pkts_acked (icsk_ca_priv tp)\<rparr>));
       Some (tp\<lparr>icsk_ca_priv := (icsk_ca_priv tp)\<lparr>ht_pkts_acked := 1\<rparr>\<rparr>)
     })"

definition htcp_init :: "kernel \<Rightarrow> htcp tcp_sock \<Rightarrow> htcp tcp_sock option" where
  "htcp_init k tp = Some (tp\<lparr>icsk_ca_priv :=
     \<lparr> ht_alpha = HTCP_ALPHA_BASE, ht_beta = HTCP_BETA_MIN, modeswitch = 0, ht_pkts_acked = 1,
       packetcount = 0, minRTT = 0, maxRTT = 0, last_cong = tcp_time_stamp k, undo_last_cong = 0,
       undo_maxRTT = 0, undo_old_maxB = 0, minB = 0, maxB = 0, old_maxB = 0, Bi = 0,
       lasttime = 0 \<rparr>\<rparr>)"

definition htcp_state :: "u8 \<Rightarrow> kernel \<Rightarrow> htcp tcp_sock \<Rightarrow> htcp tcp_sock option" where
  "htcp_state new_state k tp =
    (let ca = icsk_ca_priv tp in
     Some (if new_state = TCP_CA_Open then tp\<lparr>icsk_ca_priv := ca\<lparr>last_cong := tcp_time_stamp k\<rparr>\<rparr>
           else if new_state = TCP_CA_CWR \<or> new_state = TCP_CA_Recovery \<or> new_state = TCP_CA_Loss
           then tp\<lparr>icsk_ca_priv := htcp_reset k ca\<rparr> else tp))"

definition htcp_ops :: "htcp_params \<Rightarrow> htcp tcp_congestion_ops" where
  "htcp_ops p = ops_null\<lparr>ca_init := Some htcp_init, ca_ssthresh := Some (htcp_recalc_ssthresh p),
     ca_cong_avoid := Some (htcp_cong_avoid p), ca_set_state := Some htcp_state,
     ca_undo_cwnd := Some htcp_cwnd_undo,
     ca_pkts_acked := Some (measure_achieved_throughput p), ca_name := ''htcp''\<rparr>"

section \<open>The increase\<close>

text \<open>
  The factor over the naturals, for a congestion epoch \<open>d\<close> in milliseconds, and the scale for a
  round trip time \<open>m\<close>; they agree with the code while nothing wraps, which is up to an epoch of
  132 seconds (at 132.073 s the square of half the difference exceeds 32 bits).
\<close>

definition htcp_factor_nat :: "nat \<Rightarrow> nat" where
  "htcp_factor_nat d =
    (if d \<le> 1000 then 1 else 1 + (10 * (d - 1000) + ((d - 1000) div 2)\<^sup>2 div 1000) div 1000)"

definition htcp_scale_nat :: "nat \<Rightarrow> nat" where
  "htcp_scale_nat m = min (max (8000 div (10 * m)) 4) 80"

definition htcp_alpha_nat :: "bool \<Rightarrow> nat \<Rightarrow> nat \<Rightarrow> nat \<Rightarrow> nat" where
  "htcp_alpha_nat scaled d m b =
     2 * (if scaled then max (8 * htcp_factor_nat d div htcp_scale_nat m) 1 else htcp_factor_nat d)
       * (128 - b)"

lemma htcp_factor_nat_mono: "d \<le> e \<Longrightarrow> htcp_factor_nat d \<le> htcp_factor_nat e"
  by (auto simp: htcp_factor_nat_def intro!: div_le_mono add_le_mono power_mono)

lemma htcp_alpha_nat_mono: "d \<le> e \<Longrightarrow> htcp_alpha_nat s d m b \<le> htcp_alpha_nat s e m b"
  using htcp_factor_nat_mono [of d e]
  by (auto simp: htcp_alpha_nat_def intro!: mult_le_mono div_le_mono max.coboundedI1)

lemma htcp_factor_pos: "1 \<le> htcp_factor_nat d"
  by (simp add: htcp_factor_nat_def)

lemma htcp_factor_bound:
  assumes "d \<le> 132071"
  shows "htcp_factor_nat d \<le> 5607"
proof -
  have "htcp_factor_nat d \<le> htcp_factor_nat 132071" using assms by (rule htcp_factor_nat_mono)
  then show ?thesis by (simp add: htcp_factor_nat_def)
qed

lemma htcp_factor_exact:
  assumes "unat d \<le> 132071"
  shows "unat (htcp_factor d) = htcp_factor_nat (unat d)"
proof (cases "HZ < d")
  case True
  then have lt: "1000 < unat d" by (simp add: HZ_def word_less_nat_alt)
  define x where "x = d - HZ"
  have x: "unat x = unat d - 1000"
    using lt by (simp add: x_def HZ_def unat_minus_le word_le_nat_alt)
  have h: "unat (x div 2) = unat x div 2" by (simp add: unat_div_distrib)
  have h2: "unat (x div 2) \<le> 65535" using x assms by (simp add: h)
  have "unat (x div 2) * unat (x div 2) \<le> 65535 * 65535" using h2 by (intro mult_le_mono)
  then have sq: "unat ((x div 2) * (x div 2)) = (unat x div 2)\<^sup>2" "(unat x div 2)\<^sup>2 \<le> 4294836225"
    by (simp_all add: unat_mult_no_wrap h power2_eq_square)
  have q: "unat ((x div 2) * (x div 2) div HZ) = (unat x div 2)\<^sup>2 div 1000"
    unfolding unat_div_distrib sq(1) by (simp add: HZ_def)
  have qb: "(unat x div 2)\<^sup>2 div 1000 \<le> 4294836" using sq(2) by (simp add: div_le_mono [of _ 4294836225 1000, simplified])
  have t: "unat (10 * x) = 10 * unat x" using x assms by (simp add: unat_mult_no_wrap)
  have xb: "unat x \<le> 131071" using x assms by simp
  have "unat (10 * x) + unat ((x div 2) * (x div 2) div HZ) < 4294967296"
    unfolding t q using qb xb by linarith
  from unat_add_no_wrap [OF this]
  have s: "unat (10 * x + (x div 2) * (x div 2) div HZ) = 10 * unat x + (unat x div 2)\<^sup>2 div 1000"
    unfolding t q .
  have e: "unat ((10 * x + (x div 2) * (x div 2) div HZ) div HZ)
      = (10 * unat x + (unat x div 2)\<^sup>2 div 1000) div 1000"
    unfolding unat_div_distrib s by (simp add: HZ_def)
  also have "\<dots> \<le> 10 * unat x + (unat x div 2)\<^sup>2 div 1000" by (rule div_le_dividend)
  also have "\<dots> \<le> 6000000" using qb xb by linarith
  finally have "unat (1 + (10 * x + (x div 2) * (x div 2) div HZ) div HZ)
      = 1 + (10 * unat x + (unat x div 2)\<^sup>2 div 1000) div 1000"
    using e by (simp add: unat_add_no_wrap)
  with True lt show ?thesis
    unfolding htcp_factor_def htcp_factor_nat_def Let_def x_def [symmetric] by (simp add: x)
next
  case False
  then have "unat d \<le> 1000" by (simp add: HZ_def word_less_nat_alt)
  with False show ?thesis by (simp add: htcp_factor_def htcp_factor_nat_def)
qed

lemma htcp_scale_Some:
  assumes "minr \<noteq> 0" and "minr \<le> 0x1FFFFFFF"
  shows "(10 :: u32) * minr \<noteq> 0"
proof
  assume "10 * minr = 0"
  then have "unat (10 * minr) = 0" by simp
  then have "10 * unat minr mod 4294967296 = 0" by (simp add: unat_word_ariths)
  then obtain k where k: "10 * unat minr = 4294967296 * k" by (auto simp: mod_eq_0_iff_dvd dvd_def)
  have "unat minr \<noteq> 0" "unat minr \<le> 536870911" using assms by (simp_all add: unat_eq_0 word_le_nat_alt)
  moreover have "k = 1" if "k \<noteq> 0" using that k calculation by linarith
  moreover have "10 * unat minr \<noteq> 4294967296" by presburger
  ultimately show False using k by (cases "k = 0") simp_all
qed

lemma htcp_scale_exact:
  assumes "minr \<noteq> 0" and "minr \<le> 429496729"
  shows "unat (min (max (push_bit 3 HZ div (10 * minr)) (push_bit 2 1)) (push_bit 3 10))
    = htcp_scale_nat (unat minr)"
proof -
  have "unat minr \<le> 429496729" using assms(2) by (simp add: word_le_nat_alt)
  then have "unat (10 * minr) = 10 * unat minr" by (simp add: unat_mult_no_wrap)
  then have "unat (push_bit 3 HZ div (10 * minr)) = 8000 div (10 * unat minr)"
    by (simp add: unat_div_distrib HZ_def)
  then show ?thesis
    by (auto simp: htcp_scale_nat_def min_def max_def word_le_nat_alt)
qed

lemma htcp_scale_nat_bounds: "4 \<le> htcp_scale_nat m" "htcp_scale_nat m \<le> 80"
  by (simp_all add: htcp_scale_nat_def)

definition htcp_scaled :: "htcp_params \<Rightarrow> htcp \<Rightarrow> bool" where
  "htcp_scaled p ca \<longleftrightarrow> use_rtt_scaling p \<noteq> 0 \<and> minRTT ca \<noteq> 0"

lemma htcp_scaled_factor:
  assumes "minr \<noteq> 0" and "minr \<le> 429496729" and "unat f \<le> 5607"
  shows "\<exists>q. cdiv (push_bit 3 f) (min (max (push_bit 3 HZ div (10 * minr)) (push_bit 2 1)) (push_bit 3 10))
      = Some q \<and> unat q = 8 * unat f div htcp_scale_nat (unat minr)"
proof -
  let ?s = "min (max (push_bit 3 HZ div (10 * minr)) (push_bit 2 1)) (push_bit 3 10) :: u32"
  have s: "unat ?s = htcp_scale_nat (unat minr)" using assms(1,2) by (rule htcp_scale_exact)
  have "?s \<noteq> 0" using s htcp_scale_nat_bounds(1) [of "unat minr"]
    by (metis unat_0 not_numeral_le_zero)
  moreover have "unat (push_bit 3 f) = 8 * unat f"
    using assms(3) unat_shl_no_wrap [of f 3] by simp
  ultimately show ?thesis using s by (simp add: unat_div_distrib del: push_bit_numeral)
qed

lemma htcp_alpha_update_value:
  assumes d: "unat (htcp_cong_time k ca) \<le> 132071" and b: "ht_beta ca \<le> 102"
    and m: "minRTT ca \<le> 429496729"
  shows "\<exists>a. htcp_alpha_update p k ca = Some (ca\<lparr>ht_alpha := a\<rparr>)
    \<and> unat a = htcp_alpha_nat (htcp_scaled p ca)
                 (unat (htcp_cong_time k ca)) (unat (minRTT ca)) (unat (ht_beta ca))
    \<and> 52 \<le> unat a"
proof -
  define t where "t = htcp_cong_time k ca"
  define f where "f = htcp_factor t"
  define sc where "sc = htcp_scaled p ca"
  have f: "unat f = htcp_factor_nat (unat t)" using htcp_factor_exact d by (simp add: f_def t_def)
  have fb: "1 \<le> unat f" "unat f \<le> 5607"
    using f htcp_factor_pos htcp_factor_bound d by (simp_all add: t_def)
  define g where "g = (if sc then max (8 * unat f div htcp_scale_nat (unat (minRTT ca))) 1 else unat f)"
  have "\<exists>q. (if sc then do {
         scale \<leftarrow> cdiv (push_bit 3 HZ) (10 * minRTT ca);
         let scale = min (max scale (push_bit 2 1)) (push_bit 3 10);
         factor \<leftarrow> cdiv (push_bit 3 f) scale;
         Some (if factor = 0 then 1 else factor) } else Some f) = Some q \<and> unat q = g"
  proof (cases sc)
    case True
    then have m0: "minRTT ca \<noteq> 0" by (simp add: sc_def htcp_scaled_def)
    have "minRTT ca \<le> 0x1FFFFFFF" using m by (simp add: word_le_nat_alt)
    with m0 have ten: "10 * minRTT ca \<noteq> 0" by (rule htcp_scale_Some)
    from htcp_scaled_factor [OF m0 m fb(2)] obtain q where
      q: "cdiv (push_bit 3 f) (min (max (push_bit 3 HZ div (10 * minRTT ca)) (push_bit 2 1)) (push_bit 3 10))
         = Some q" "unat q = 8 * unat f div htcp_scale_nat (unat (minRTT ca))" by blast
    have "unat (if q = 0 then 1 else q) = g"
      using True q(2) unat_gt_0 [of q] by (cases "q = 0") (simp_all add: g_def max_absorb1 Suc_le_eq)
    then show ?thesis unfolding cdiv_Some [OF ten] bind.bind_lunit Let_def q(1) using True by simp
  qed (simp add: g_def)
  then obtain q where q: "(if sc then do {
         scale \<leftarrow> cdiv (push_bit 3 HZ) (10 * minRTT ca);
         let scale = min (max scale (push_bit 2 1)) (push_bit 3 10);
         factor \<leftarrow> cdiv (push_bit 3 f) scale;
         Some (if factor = 0 then 1 else factor) } else Some f) = Some q" "unat q = g" by blast
  have dv: "8 * unat f div htcp_scale_nat m \<le> 8 * unat f div 4" for m
    by (rule div_le_mono2 [OF _ htcp_scale_nat_bounds(1)]) simp
  have g: "1 \<le> g" "g \<le> 11214"
    using fb dv [of "unat (minRTT ca)"] by (auto simp: g_def)
  define b where "b = unat (ht_beta ca)"
  have bb: "b \<le> 102" using assms(2) by (simp add: b_def word_le_nat_alt)
  have ub: "unat (ucast (ht_beta ca) :: u32) = b"
    using unsigned_less [of "ht_beta ca", where 'a = nat]
    by (simp add: b_def unsigned_ucast_eq take_bit_nat_eq_self)
  then have u: "unat (push_bit 7 1 - ucast (ht_beta ca) :: u32) = 128 - b"
    using bb by (subst unat_minus_le) (simp_all add: word_le_nat_alt)
  have q2: "unat (2 * q) = 2 * g" using q(2) g by (simp add: unat_mult_no_wrap)
  have "2 * g * (128 - b) \<le> 22428 * 128" using g by (intro mult_le_mono) auto
  then have a: "unat (2 * q * (push_bit 7 1 - ucast (ht_beta ca))) = 2 * g * (128 - b)"
    by (subst unat_mult_no_wrap) (simp_all only: q2 u)
  have "2 * 1 * 26 \<le> 2 * g * (128 - b)" using g bb by (intro mult_le_mono) auto
  then have a52: "52 \<le> 2 * g * (128 - b)" by simp
  then have "2 * q * (push_bit 7 1 - ucast (ht_beta ca)) \<noteq> 0"
    using a by (metis unat_0 not_numeral_le_zero)
  then have "htcp_alpha_update p k ca = Some (ca\<lparr>ht_alpha := 2 * q * (push_bit 7 1 - ucast (ht_beta ca))\<rparr>)"
    unfolding htcp_alpha_update_def Let_def t_def [symmetric] f_def [symmetric]
      htcp_scaled_def [symmetric] sc_def [symmetric]
      q(1) [unfolded Let_def] bind.bind_lunit by simp
  moreover have "2 * g * (128 - b) = htcp_alpha_nat sc (unat t) (unat (minRTT ca)) b"
    by (simp add: htcp_alpha_nat_def g_def f)
  ultimately show ?thesis using a a52 unfolding sc_def t_def b_def by auto
qed

section \<open>The invariant\<close>

definition htcp_ok :: "htcp \<Rightarrow> bool" where
  "htcp_ok ca \<longleftrightarrow> minRTT ca \<le> 0x1FFFFFFF \<and> 64 \<le> ht_beta ca \<and> ht_beta ca \<le> 102"

lemma htcp_ok_upd [simp]:
  "htcp_ok (ca\<lparr>packetcount := v\<rparr>) = htcp_ok ca" "htcp_ok (ca\<lparr>lasttime := v\<rparr>) = htcp_ok ca"
  "htcp_ok (ca\<lparr>ht_pkts_acked := v\<rparr>) = htcp_ok ca" "htcp_ok (ca\<lparr>ht_alpha := v\<rparr>) = htcp_ok ca"
  "htcp_ok (ca\<lparr>last_cong := v\<rparr>) = htcp_ok ca" "htcp_ok (ca\<lparr>Bi := v\<rparr>) = htcp_ok ca"
  "htcp_ok (ca\<lparr>maxB := v\<rparr>) = htcp_ok ca" "htcp_ok (ca\<lparr>minB := v\<rparr>) = htcp_ok ca"
  "htcp_ok (ca\<lparr>maxRTT := v\<rparr>) = htcp_ok ca" "htcp_ok (ca\<lparr>old_maxB := v\<rparr>) = htcp_ok ca"
  "htcp_ok (ca\<lparr>undo_last_cong := v\<rparr>) = htcp_ok ca" "htcp_ok (ca\<lparr>undo_maxRTT := v\<rparr>) = htcp_ok ca"
  "htcp_ok (ca\<lparr>undo_old_maxB := v\<rparr>) = htcp_ok ca"
  by (simp_all add: htcp_ok_def)

text \<open>
  Before \<open>init\<close> the private memory is not cleared; what a timeout needs of it is a round trip time
  whose tenfold does not vanish in 32 bits.
\<close>

definition htcp_pre :: "htcp \<Rightarrow> bool" where
  "htcp_pre ca \<longleftrightarrow> minRTT ca \<le> 0x1FFFFFFF"

lemma htcp_ok_pre: "htcp_ok ca \<Longrightarrow> htcp_pre ca"
  by (simp add: htcp_ok_def htcp_pre_def)

lemma htcp_clamp_ne_0: "min (max s (push_bit 2 1)) (push_bit 3 10) \<noteq> (0 :: u32)"
  by (auto simp: min_def max_def word_le_nat_alt)

lemma htcp_alpha_update_Some:
  assumes "htcp_pre ca"
  shows "\<exists>a. htcp_alpha_update p k ca = Some (ca\<lparr>ht_alpha := a\<rparr>)"
proof (cases "minRTT ca = 0")
  case False
  with assms have ten: "10 * minRTT ca \<noteq> 0" by (intro htcp_scale_Some) (simp_all add: htcp_pre_def)
  have "\<exists>q. (if use_rtt_scaling p \<noteq> 0 \<and> minRTT ca \<noteq> 0 then do {
         scale \<leftarrow> cdiv (push_bit 3 HZ) (10 * minRTT ca);
         factor \<leftarrow> cdiv (push_bit 3 f) (min (max scale (push_bit 2 1)) (push_bit 3 10));
         Some (if factor = 0 then 1 else factor) } else Some f) = Some q" for f
    unfolding cdiv_Some [OF ten] bind.bind_lunit cdiv_Some [OF htcp_clamp_ne_0] by simp
  then obtain q where q: "(if use_rtt_scaling p \<noteq> 0 \<and> minRTT ca \<noteq> 0 then do {
         scale \<leftarrow> cdiv (push_bit 3 HZ) (10 * minRTT ca);
         factor \<leftarrow> cdiv (push_bit 3 (htcp_factor (htcp_cong_time k ca)))
           (min (max scale (push_bit 2 1)) (push_bit 3 10));
         Some (if factor = 0 then 1 else factor) } else Some (htcp_factor (htcp_cong_time k ca)))
       = Some q" by blast
  show ?thesis unfolding htcp_alpha_update_def Let_def q bind.bind_lunit by blast
qed (auto simp: htcp_alpha_update_def Let_def)

lemma htcp_beta_rtt_ok:
  assumes "htcp_pre ca"
  shows "\<exists>ca'. htcp_beta_rtt minr maxr ca = Some ca' \<and> htcp_ok ca'"
  using assms by (auto simp: htcp_beta_rtt_def htcp_ok_def htcp_pre_def Let_def not_less)

lemma htcp_beta_update_ok:
  assumes "htcp_pre ca"
  shows "\<exists>ca'. htcp_beta_update p ca minr maxr = Some ca' \<and> htcp_ok ca'"
proof -
  have "htcp_pre (ca\<lparr>old_maxB := v\<rparr>)" for v using assms by (simp add: htcp_pre_def)
  from htcp_beta_rtt_ok [OF this] htcp_beta_rtt_ok [OF assms] assms show ?thesis
    by (auto simp: htcp_beta_update_def htcp_ok_def htcp_pre_def Let_def)
qed

lemma htcp_param_update_ok:
  assumes "htcp_pre ca"
  shows "\<exists>ca'. htcp_param_update p k ca = Some ca' \<and> htcp_ok ca'"
proof -
  from htcp_beta_update_ok [OF assms] obtain c1 where
    c1: "htcp_beta_update p ca (minRTT ca) (maxRTT ca) = Some c1" "htcp_ok c1" by blast
  from htcp_alpha_update_Some [OF htcp_ok_pre [OF c1(2)]] obtain a where
    "htcp_alpha_update p k c1 = Some (c1\<lparr>ht_alpha := a\<rparr>)" by blast
  with c1 show ?thesis by (simp add: htcp_param_update_def htcp_ok_def Let_def)
qed

lemma htcp_ssthresh_value:
  assumes "htcp_ok ca" and "unat w \<le> 1000000"
  shows "drop_bit 7 (w * ucast (ht_beta ca)) \<le> (w :: u32)"
proof -
  have ub: "unat (ucast (ht_beta ca) :: u32) = unat (ht_beta ca)"
    using unsigned_less [of "ht_beta ca", where 'a = nat]
    by (simp add: unsigned_ucast_eq take_bit_nat_eq_self)
  have b: "unat (ht_beta ca) \<le> 102" using assms(1) by (simp add: htcp_ok_def word_le_nat_alt)
  have "unat w * unat (ht_beta ca) \<le> 1000000 * 102" using assms(2) b by (intro mult_le_mono)
  then have "unat (w * ucast (ht_beta ca)) = unat w * unat (ht_beta ca)"
    using unat_mult_no_wrap [of w "ucast (ht_beta ca)"] by (simp add: ub)
  then have "unat (drop_bit 7 (w * ucast (ht_beta ca))) = unat w * unat (ht_beta ca) div 128"
    by (simp add: unat_shr)
  also have "\<dots> \<le> unat w * 128 div 128" using b by (intro div_le_mono mult_le_mono) auto
  finally show ?thesis by (simp add: word_le_nat_alt)
qed

definition htcp_env :: "kernel \<Rightarrow> u32 \<Rightarrow> tcp_options_received \<Rightarrow> bool" where
  "htcp_env k s rx \<longleftrightarrow> 8 \<le> s"

lemma measure_rtt_ok:
  assumes "htcp_ok (icsk_ca_priv sk)" and "8 \<le> srtt sk"
  shows "\<exists>ca. measure_rtt k sk = Some (sk\<lparr>icsk_ca_priv := ca\<rparr>) \<and> htcp_ok ca"
proof -
  let ?s = "drop_bit 3 (srtt sk)"
  have s: "?s \<noteq> 0" "?s \<le> 0x1FFFFFFF"
    using assms(2) by (simp_all add: u32_eq_iff word_le_nat_alt unat_shr div_eq_0_iff)
      (use unat_le_u32 [of "srtt sk"] in linarith)
  let ?ca = "if ?s < minRTT (icsk_ca_priv sk) \<or> minRTT (icsk_ca_priv sk) = 0
    then (icsk_ca_priv sk)\<lparr>minRTT := ?s\<rparr> else icsk_ca_priv sk"
  have "minRTT ?ca \<noteq> 0" "htcp_ok ?ca" using s assms(1) by (auto simp: htcp_ok_def)
  then show ?thesis
    unfolding measure_rtt_def Let_def by (auto simp: htcp_ccount_def htcp_ok_def)
qed

lemma htcp_bandwidth_ok:
  assumes "htcp_ok c" and "0 < minRTT c"
  shows "\<exists>c'. htcp_bandwidth k v c = Some c' \<and> htcp_ok c'"
  using assms by (auto simp: htcp_bandwidth_def htcp_ccount_def word_pos_iff Let_def)

lemma throughput_ok:
  assumes "htcp_ok (icsk_ca_priv sk)"
  shows "\<exists>ca. measure_achieved_throughput p n t k sk = Some (sk\<lparr>icsk_ca_priv := ca\<rparr>) \<and> htcp_ok ca"
proof -
  define c where "c = (if icsk_ca_state sk = TCP_CA_Open
    then (icsk_ca_priv sk)\<lparr>ht_pkts_acked := n\<rparr> else icsk_ca_priv sk)"
  define c1 where "c1 = c\<lparr>packetcount := packetcount c + n\<rparr>"
  have c: "htcp_ok c" "htcp_ok c1" using assms by (simp_all add: c_def c1_def)
  have b: "\<exists>ca. (do { v \<leftarrow> cdiv x d; c' \<leftarrow> htcp_bandwidth k v c1;
             Some (sk\<lparr>icsk_ca_priv := c'\<lparr>packetcount := 0, lasttime := y\<rparr>\<rparr>) })
           = Some (sk\<lparr>icsk_ca_priv := ca\<rparr>) \<and> htcp_ok ca"
    if "minRTT c1 \<le> d" "0 < minRTT c1" for x d y
  proof -
    have "d \<noteq> 0" using that by auto
    moreover from htcp_bandwidth_ok [OF c(2) that(2), of k "x div d"] obtain c' where
      "htcp_bandwidth k (x div d) c1 = Some c'" "htcp_ok c'" by blast
    ultimately show ?thesis by simp
  qed
  show ?thesis
    unfolding measure_achieved_throughput_def Let_def c_def [symmetric] c1_def [symmetric]
    using c by (auto intro!: b)
qed

lemma htcp_recalc:
  assumes "htcp_pre (icsk_ca_priv sk)" and "unat (snd_cwnd sk) \<le> 1000000"
  shows "\<exists>v ca. htcp_recalc_ssthresh p k sk = Some (v, sk\<lparr>icsk_ca_priv := ca\<rparr>) \<and> htcp_ok ca
    \<and> 2 \<le> v \<and> v \<le> max (snd_cwnd sk) 2"
proof -
  from htcp_param_update_ok [OF assms(1)] obtain ca where
    ca: "htcp_param_update p k (icsk_ca_priv sk) = Some ca" "htcp_ok ca" by blast
  from max2_bounds [OF htcp_ssthresh_value [OF ca(2) assms(2)]] ca show ?thesis
    by (simp add: htcp_recalc_ssthresh_def)
qed

lemma htcp_cong_avoid_live:
  assumes l: "mod_live (Some L) htcp_ok sk" and e: "8 \<le> srtt sk"
  shows "op_ok (mod_live (Some L) htcp_ok) sk (htcp_cong_avoid p ack rtt infl good k sk)"
proof -
  have "htcp_ok (icsk_ca_priv sk)" using l by (simp add: mod_live_def)
  from measure_rtt_ok [OF this e] obtain ca where
    ca: "measure_rtt k sk = Some (sk\<lparr>icsk_ca_priv := ca\<rparr>)" "htcp_ok ca" by blast
  from htcp_alpha_update_Some [OF htcp_ok_pre [OF ca(2)]] obtain a where
    a: "htcp_alpha_update p k ca = Some (ca\<lparr>ht_alpha := a\<rparr>)" by blast
  have "mod_live (Some L) htcp_ok (sk\<lparr>snd_cwnd := snd_cwnd sk + 1\<rparr>)"
    if "snd_cwnd sk < snd_cwnd_clamp sk"
    using l that by (rule mod_live_inc)
  then show ?thesis
    using slow_start_live [OF l, of k] l ca a
    by (auto simp: htcp_cong_avoid_def Let_def mod_live_def)
qed

interpretation htcp: cong_module "htcp_ops htcp_default" "Some L" htcp_pre htcp_ok htcp_env "\<lambda>_ _ _. True"
  for L
proof (unfold_locales, goal_cases)
  case (1 sk k)
  then show ?case by (simp add: htcp_ops_def htcp_init_def htcp_ok_def mod_live_simps(6))
next
  case (2 sk k)
  then have "htcp_pre (icsk_ca_priv sk)" "unat (snd_cwnd sk) \<le> 1000000"
    by (auto simp: htcp_ok_pre mod_live_def win_defs WND_MAX_def word_le_nat_alt)
  from htcp_recalc [OF this, of htcp_default k] show ?case
    by (auto simp: htcp_ops_def call_ssthresh_def)
next
  case (3 sk)
  then show ?case by (auto simp: htcp_ops_def ops_null_def call_min_cwnd_def word_pos_iff)
next
  case (4 sk k ack rtt infl good)
  then show ?case
    by (simp add: htcp_ops_def call_cong_avoid_def htcp_cong_avoid_live htcp_env_def)
next
  case (5 sk s k)
  then show ?case
    by (auto simp: htcp_ops_def htcp_state_def htcp_reset_def mod_live_def Let_def)
next
  case (7 sk k n t)
  with throughput_ok [of sk htcp_default n t k] mod_live_simps [OF 7(1)] show ?case
    by (auto simp: htcp_ops_def)
next
  case (9 sk k)
  then have "htcp_pre (icsk_ca_priv sk)" "unat (snd_cwnd sk) \<le> 1000000"
    by (auto simp: mod_live_def win_defs WND_MAX_def word_le_nat_alt)
  from htcp_recalc [OF this, of htcp_default k] show ?case
    by (auto simp: htcp_ops_def call_ssthresh_def htcp_ok_pre)
next
  case (11 sk k)
  then show ?case
    by (auto simp: htcp_ops_def htcp_state_def htcp_reset_def htcp_pre_def mod_live_def Let_def)
qed (simp_all add: htcp_ops_def ops_null_def)

text \<open>
  With a smoothed round trip time below 8 (one millisecond) the smallest round trip time stays
  zero, and counting round trips divides by it.
\<close>

lemma htcp_srtt_trap:
  assumes "drop_bit 3 (srtt sk) = 0" and "minRTT (icsk_ca_priv sk) = 0"
    and "icsk_ca_state sk = TCP_CA_Open" and "snd_ssthresh sk < 0xFFFF"
  shows "measure_rtt k sk = None"
  using assms by (simp add: measure_rtt_def htcp_ccount_def)

lemma htcp_beta_update_frame:
  assumes "htcp_beta_update p ca minr maxr = Some ca'"
  shows "minRTT ca' = minRTT ca" and "maxRTT ca' = maxRTT ca"
  using assms
  by (auto simp: htcp_beta_update_def htcp_beta_rtt_def Let_def split: if_splits bind_splits)

lemma htcp_fade:
  assumes "minr < maxr" and "maxr \<le> 45000000"
  shows "minr \<le> minr + ((maxr - minr) * 95) div 100" and "minr + ((maxr - minr) * 95) div 100 < (maxr :: u32)"
proof -
  have n: "unat minr < unat maxr" "unat maxr \<le> 45000000"
    using assms by (simp_all add: word_less_nat_alt word_le_nat_alt)
  define x where "x = maxr - minr"
  have x: "unat x = unat maxr - unat minr" using assms(1) by (simp add: x_def unat_minus_le)
  have "unat (x * 95) = unat x * 95" using n x by (simp add: unat_mult_no_wrap)
  then have d: "unat (x * 95 div 100) = unat x * 95 div 100" by (simp add: unat_div_distrib)
  have lt: "unat x * 95 div 100 < unat x" using n x by linarith
  have s: "unat (minr + x * 95 div 100) = unat minr + unat x * 95 div 100"
    using n x d lt by (simp add: unat_add_no_wrap)
  from s lt x n show "minr \<le> minr + ((maxr - minr) * 95) div 100"
      and "minr + ((maxr - minr) * 95) div 100 < maxr"
    by (simp_all add: x_def word_le_nat_alt word_less_nat_alt)
qed

section \<open>Properties\<close>

text \<open>
  the increase parameter of H-TCP up to 132 seconds after a congestion event: it is the
  formula over the naturals (nothing wraps), hence it never decreases as time passes
  (\<open>htcp_alpha_nat_mono\<close>), and it is at least 52/128.
\<close>

theorem htcp_alpha_exact:
  assumes "unat (htcp_cong_time k ca) \<le> 132071" and "ht_beta ca \<le> 102"
    and "minRTT ca \<le> 429496729"
  shows "\<exists>a. htcp_alpha_update p k ca = Some (ca\<lparr>ht_alpha := a\<rparr>)
    \<and> unat a = htcp_alpha_nat (htcp_scaled p ca)
                 (unat (htcp_cong_time k ca)) (unat (minRTT ca)) (unat (ht_beta ca))
    \<and> 52 \<le> unat a"
  using assms by (rule htcp_alpha_update_value)

definition sample_htcp :: htcp where
  "sample_htcp = \<lparr> ht_alpha = 128, ht_beta = 64, modeswitch = 1, ht_pkts_acked = 1,
     packetcount = 0, minRTT = 40, maxRTT = 60, last_cong = 100, undo_last_cong = 0,
     undo_maxRTT = 0, undo_old_maxB = 0, minB = 0, maxB = 500, old_maxB = 500, Bi = 0,
     lasttime = 0 \<rparr>"

theorem htcp_alpha_exact_witness:
  "\<exists>a. htcp_alpha_update htcp_default (kernel_init\<lparr>tcp_time_stamp := 11100\<rparr>) sample_htcp
       = Some (sample_htcp\<lparr>ht_alpha := a\<rparr>) \<and> unat a = 6400"
  using htcp_alpha_exact [of "kernel_init\<lparr>tcp_time_stamp := 11100\<rparr>" sample_htcp htcp_default]
  by (auto simp: htcp_cong_time_def sample_htcp_def htcp_alpha_nat_def htcp_factor_nat_def
      htcp_scale_nat_def htcp_scaled_def htcp_default_def kernel_init_def)

text \<open>
  the update at a congestion event is defined, keeps the decrease factor between 64/128 and
  102/128, leaves the smallest round trip time alone, and lets the largest fade: it shrinks but
  stays at least the smallest, for round trip times up to 45000000 ms.
\<close>

theorem htcp_param_range:
  assumes "htcp_ok ca" and "0 < minRTT ca" and "minRTT ca < maxRTT ca" and "maxRTT ca \<le> 45000000"
  shows "\<exists>ca'. htcp_param_update p k ca = Some ca' \<and> 64 \<le> ht_beta ca' \<and> ht_beta ca' \<le> 102
    \<and> minRTT ca' = minRTT ca \<and> minRTT ca \<le> maxRTT ca' \<and> maxRTT ca' < maxRTT ca"
proof -
  from htcp_beta_update_ok [OF htcp_ok_pre [OF assms(1)]] obtain c1 where
    c1: "htcp_beta_update p ca (minRTT ca) (maxRTT ca) = Some c1" "htcp_ok c1" by blast
  from htcp_alpha_update_Some [OF htcp_ok_pre [OF c1(2)]] obtain a where
    "htcp_alpha_update p k c1 = Some (c1\<lparr>ht_alpha := a\<rparr>)" by blast
  with c1 htcp_beta_update_frame [OF c1(1)] htcp_fade [OF assms(3,4)] assms show ?thesis
    by (simp add: htcp_param_update_def htcp_ok_def Let_def)
qed

theorem htcp_param_range_witness:
  "\<exists>ca'. htcp_param_update htcp_default kernel_init sample_htcp = Some ca'
     \<and> 64 \<le> ht_beta ca' \<and> ht_beta ca' \<le> 102 \<and> maxRTT ca' < 60"
  using htcp_param_range [of sample_htcp htcp_default kernel_init]
  by (auto simp: sample_htcp_def htcp_ok_def)

text \<open>The fields that \<open>undo_cwnd\<close> reads survive a threshold computation.\<close>

lemma htcp_alpha_update_frame:
  assumes "htcp_alpha_update p k ca = Some ca'"
  shows "\<exists>a. ca' = ca\<lparr>ht_alpha := a\<rparr>"
  using assms unfolding htcp_alpha_update_def Let_def by (auto simp: bind_eq_Some_conv)

lemma htcp_beta_update_undo:
  assumes "htcp_beta_update p ca minr maxr = Some ca'"
  shows "undo_last_cong ca' = undo_last_cong ca" "undo_maxRTT ca' = undo_maxRTT ca"
    "undo_old_maxB ca' = undo_old_maxB ca"
  using assms
  by (auto simp: htcp_beta_update_def htcp_beta_rtt_def Let_def split: if_splits bind_splits)

lemma htcp_param_update_undo:
  assumes "htcp_param_update p k ca = Some ca'"
  shows "undo_last_cong ca' = undo_last_cong ca \<and> undo_maxRTT ca' = undo_maxRTT ca
    \<and> undo_old_maxB ca' = undo_old_maxB ca"
proof -
  from assms obtain c1 c2 where
    c1: "htcp_beta_update p ca (minRTT ca) (maxRTT ca) = Some c1"
    and c2: "htcp_alpha_update p k c1 = Some c2"
    and c': "ca' = (if 0 < minRTT ca \<and> minRTT ca < maxRTT ca
       then c2\<lparr>maxRTT := minRTT ca + ((maxRTT ca - minRTT ca) * 95) div 100\<rparr> else c2)"
    unfolding htcp_param_update_def Let_def by (fastforce simp: bind_eq_Some_conv)
  from htcp_alpha_update_frame [OF c2] obtain a where "c2 = c1\<lparr>ht_alpha := a\<rparr>" ..
  with htcp_beta_update_undo [OF c1] c' show ?thesis by simp
qed

text \<open>
  undoing a congestion event: \<open>undo_cwnd\<close> after the transition into Recovery and a further
  threshold computation (which overwrites the largest round trip time and the bandwidth) restores
  the time of the last congestion event, the largest round trip time and the bandwidth that the
  transition saved, never divides by zero, and does not shrink the window.
\<close>

theorem htcp_undo_restores:
  assumes "htcp_ok (icsk_ca_priv sk)" and "htcp_state TCP_CA_Recovery k sk = Some sk1"
    and "htcp_recalc_ssthresh p k1 sk1 = Some (v, sk2)"
  shows "\<exists>w sk3. htcp_cwnd_undo k2 sk2 = Some (w, sk3) \<and> snd_cwnd sk \<le> w
    \<and> last_cong (icsk_ca_priv sk3) = last_cong (icsk_ca_priv sk)
    \<and> maxRTT (icsk_ca_priv sk3) = maxRTT (icsk_ca_priv sk)
    \<and> old_maxB (icsk_ca_priv sk3) = old_maxB (icsk_ca_priv sk)"
proof -
  have sk1: "sk1 = sk\<lparr>icsk_ca_priv := htcp_reset k (icsk_ca_priv sk)\<rparr>"
    using assms(2) by (simp add: htcp_state_def Let_def)
  from assms(3) sk1 obtain ca where
    ca: "htcp_param_update p k1 (htcp_reset k (icsk_ca_priv sk)) = Some ca"
      "sk2 = sk1\<lparr>icsk_ca_priv := ca\<rparr>"
    by (auto simp: htcp_recalc_ssthresh_def bind_eq_Some_conv Let_def)
  have "htcp_ok (htcp_reset k (icsk_ca_priv sk))" using assms(1) by (simp add: htcp_reset_def Let_def)
  from htcp_param_update_ok [OF htcp_ok_pre [OF this], of p k1] ca(1) have "htcp_ok ca" by auto
  then have "ht_beta ca \<noteq> 0" by (auto simp: htcp_ok_def)
  then have "(ucast (ht_beta ca) :: u32) \<noteq> 0"
    using unsigned_less [of "ht_beta ca", where 'a = nat]
    by (simp add: u32_eq_iff unsigned_ucast_eq take_bit_nat_eq_self)
  with htcp_param_update_undo [OF ca(1)] ca(2) sk1 show ?thesis
    by (simp add: htcp_reset_def htcp_cwnd_undo_def Let_def)
qed

theorem htcp_undo_restores_witness:
  "\<exists>sk1 sk2 v w sk3. htcp_state TCP_CA_Recovery sample_kernel (sample_sk sample_htcp) = Some sk1
     \<and> htcp_recalc_ssthresh htcp_default sample_kernel sk1 = Some (v, sk2)
     \<and> htcp_cwnd_undo kernel_init sk2 = Some (w, sk3) \<and> 4 \<le> w \<and> last_cong (icsk_ca_priv sk3) = 100"
proof -
  have ok: "htcp_ok (icsk_ca_priv (sample_sk sample_htcp))"
    by (simp add: sample_sk_def sample_htcp_def htcp_ok_def)
  obtain sk1 where sk1: "htcp_state TCP_CA_Recovery sample_kernel (sample_sk sample_htcp) = Some sk1"
    "htcp_ok (icsk_ca_priv sk1)"
    using ok by (simp add: htcp_state_def htcp_reset_def Let_def)
  obtain v sk2 where sk2: "htcp_recalc_ssthresh htcp_default sample_kernel sk1 = Some (v, sk2)"
    using htcp_param_update_ok [OF htcp_ok_pre [OF sk1(2)], of htcp_default sample_kernel]
    by (auto simp: htcp_recalc_ssthresh_def Let_def)
  from htcp_undo_restores [OF ok sk1(1) sk2, of kernel_init] sk1(1) sk2 show ?thesis
    by (auto simp: sample_sk_def sample_htcp_def)
qed

text \<open>
  With other contents of the uncleared memory a timeout before the first acknowledgment divides by zero.
\<close>

lemma htcp_uncleared_traps:
  assumes "minRTT (icsk_ca_priv (linux_sk ag)) = 0x80000000"
  shows "enter_loss (htcp_ops htcp_default) k ag = None"
proof -
  have "htcp_alpha_update htcp_default k ca = None" if "minRTT ca = 0x80000000" for ca
    using that by (simp add: htcp_alpha_update_def htcp_default_def cdiv_def Let_def)
  moreover have "minRTT ca' = minRTT ca" if "htcp_beta_update htcp_default ca a b = Some ca'" for ca ca' a b
    using that by (auto simp: htcp_beta_update_def htcp_beta_rtt_def Let_def bind_eq_Some_conv split: if_splits)
  ultimately have "htcp_param_update htcp_default k (icsk_ca_priv (linux_sk ag)) = None"
    using assms
    by (cases "htcp_beta_update htcp_default (icsk_ca_priv (linux_sk ag)) (minRTT (icsk_ca_priv (linux_sk ag)))
        (maxRTT (icsk_ca_priv (linux_sk ag)))") (simp_all add: htcp_param_update_def Let_def)
  then show ?thesis
    by (simp add: enter_loss_def htcp_ops_def call_ssthresh_def htcp_recalc_ssthresh_def touch_cwnd_def Let_def)
qed

text \<open>
  a connection that runs H-TCP with its default parameters, on every sequence of events
  whose smoothed round trip times are at least 8 (1 ms): it never divides by zero, and keeps its
  window positive and within the bound it started with.
\<close>

theorem htcp_runs_safe:
  assumes "\<not> initialized ag" and "win (Some L) (linux_sk ag)" and "htcp_pre (icsk_ca_priv (linux_sk ag))"
    and "run_env htcp_env (\<lambda>_ _ _. True) (htcp_ops htcp_default) evs ag"
  shows "\<exists>ag'. agent_run (htcp_ops htcp_default) evs ag = Some ag' \<and> win (Some L) (linux_sk ag')"
  using assms by (intro htcp.module_run_safe_from_start) (simp_all add: mod_live_def)

theorem htcp_runs_safe_witness:
  "\<exists>ag'. agent_run (htcp_ops htcp_default) sample_run (sample_agent sample_htcp) = Some ag'
     \<and> win (Some 1000) (linux_sk ag')"
proof (rule htcp_runs_safe)
  show "htcp_pre (icsk_ca_priv (linux_sk (sample_agent sample_htcp)))"
    by (simp add: sample_sk_def sample_htcp_def htcp_pre_def)
qed (simp_all add: sample_win sample_run_env htcp_env_def)

end
