(* ===== verification/Hybla.thy ===== *)
theory Hybla
  imports Window
begin

text \<open>
  TCP Hybla, src/ns-2.34/tcp/linux/src/tcp_hybla.c: the window grows as if the round trip time
  were the reference \<open>rtt0\<close>, with the ratio \<open>rho\<close> of the two in fixed point (3 fractional bits)
  and the fraction of a segment in \<open>snd_cwnd_cents\<close> (7 fractional bits). The loop over the
  fraction is a recursive function on it.
\<close>

record hybla_params =
  rtt0 :: s32

definition hybla_default :: hybla_params where
  "hybla_default = \<lparr> rtt0 = 25 \<rparr>"

record hybla =
  hybla_en :: u8
  snd_cwnd_cents :: u32
  rho :: u32
  rho2 :: u32
  rho_3ls :: u32
  rho2_7ls :: u32
  hy_minrtt :: u32

definition hybla_recalc_param :: "hybla_params \<Rightarrow> u32 \<Rightarrow> hybla \<Rightarrow> hybla option" where
  "hybla_recalc_param p s ca = do {
     q \<leftarrow> cdiv s (msecs_to_jiffies (rtt0 p));
     let ca = ca\<lparr>rho_3ls := max q 8\<rparr>;
     let ca = ca\<lparr>rho := drop_bit 3 (rho_3ls ca)\<rparr>;
     let ca = ca\<lparr>rho2_7ls := push_bit 1 (rho_3ls ca * rho_3ls ca)\<rparr>;
     Some (ca\<lparr>rho2 := drop_bit 7 (rho2_7ls ca)\<rparr>)
   }"

definition hybla_init :: "hybla_params \<Rightarrow> kernel \<Rightarrow> hybla tcp_sock \<Rightarrow> hybla tcp_sock option" where
  "hybla_init p k tp = do {
     let ca = (icsk_ca_priv tp)\<lparr>rho := 0, rho2 := 0, rho_3ls := 0, rho2_7ls := 0,
                snd_cwnd_cents := 0, hybla_en := 1\<rparr>;
     let tp = tp\<lparr>snd_cwnd := 2, snd_cwnd_clamp := 65535\<rparr>;
     ca \<leftarrow> hybla_recalc_param p (srtt tp) ca;
     Some (tp\<lparr>icsk_ca_priv := ca\<lparr>hy_minrtt := srtt tp\<rparr>, snd_cwnd := rho ca\<rparr>)
   }"

definition hybla_state :: "u8 \<Rightarrow> kernel \<Rightarrow> hybla tcp_sock \<Rightarrow> hybla tcp_sock option" where
  "hybla_state ca_state k tp =
     Some (tp\<lparr>icsk_ca_priv := (icsk_ca_priv tp)
       \<lparr>hybla_en := (if ca_state = TCP_CA_Open then 1 else 0)\<rparr>\<rparr>)"

definition hybla_fractions :: "u32 list" where
  "hybla_fractions = [128, 139, 152, 165, 181, 197, 215, 234]"

definition hybla_fraction :: "u32 \<Rightarrow> u32" where
  "hybla_fraction odds =
    (if unat odds < length hybla_fractions then hybla_fractions ! unat odds else 128)"

text \<open>The increment, in 128ths of a segment; the second component says whether in slow start.\<close>

definition hybla_increment :: "hybla tcp_sock \<Rightarrow> (u32 \<times> bool) option" where
  "hybla_increment tp =
    (let ca = icsk_ca_priv tp;
         rho_fractions = rho_3ls ca - push_bit 3 (rho ca)
     in if snd_cwnd tp < snd_ssthresh tp
        then do {
          pow \<leftarrow> shl_int 1 (rho ca);
          Some (pow * hybla_fraction rho_fractions - 128, True)
        }
        else do {
          inc \<leftarrow> cdiv (rho2_7ls ca) (snd_cwnd tp);
          Some (inc, False)
        })"

function hybla_carry :: "u32 \<Rightarrow> u32 \<Rightarrow> u16 \<Rightarrow> u32 \<times> u32 \<times> u16" where
  "hybla_carry cwnd cents cnt =
    (if 128 \<le> cents then hybla_carry (cwnd + 1) (cents - 128) 0 else (cwnd, cents, cnt))"
  by pat_completeness auto
termination
  by (relation "measure (\<lambda>(_, c, _). unat c)") (auto simp: word_le_nat_alt unat_minus_le)

declare hybla_carry.simps [simp del]

definition hybla_apply :: "u32 \<Rightarrow> bool \<Rightarrow> hybla tcp_sock \<Rightarrow> hybla tcp_sock" where
  "hybla_apply increment is_slowstart tp =
    (let cnt = (if \<not> is_slowstart \<and> increment < 128 then snd_cwnd_cnt tp + 1 else snd_cwnd_cnt tp);
         odd = increment mod 128;
         cwnd = snd_cwnd tp + drop_bit 7 increment;
         (cwnd, cents, cnt) = hybla_carry cwnd (snd_cwnd_cents (icsk_ca_priv tp) + odd) cnt;
         cwnd = (if is_slowstart then min cwnd (snd_ssthresh tp) else cwnd);
         cwnd = min cwnd (snd_cwnd_clamp tp)
     in tp\<lparr>snd_cwnd := cwnd, snd_cwnd_cnt := cnt,
           icsk_ca_priv := (icsk_ca_priv tp)\<lparr>snd_cwnd_cents := cents\<rparr>\<rparr>)"

definition hybla_cong_avoid ::
  "hybla_params \<Rightarrow> u32 \<Rightarrow> u32 \<Rightarrow> u32 \<Rightarrow> s32 \<Rightarrow> kernel \<Rightarrow> hybla tcp_sock \<Rightarrow> hybla tcp_sock option" where
  "hybla_cong_avoid p ack rtt in_flight flag k tp = do {
     let ca = icsk_ca_priv tp;
     ca \<leftarrow> (if srtt tp < hy_minrtt ca
           then do { ca \<leftarrow> hybla_recalc_param p (srtt tp) ca; Some (ca\<lparr>hy_minrtt := srtt tp\<rparr>) }
           else Some ca);
     let tp = tp\<lparr>icsk_ca_priv := ca\<rparr>;
     if \<not> tcp_is_cwnd_limited tp in_flight then Some tp
     else if hybla_en ca = 0 then tcp_reno_cong_avoid ack rtt in_flight flag k tp
     else do {
       ca \<leftarrow> (if rho ca = 0 then hybla_recalc_param p (srtt tp) ca else Some ca);
       let tp = tp\<lparr>icsk_ca_priv := ca\<rparr>;
       (increment, is_slowstart) \<leftarrow> hybla_increment tp;
       Some (hybla_apply increment is_slowstart tp)
     }
   }"

definition tcp_hybla :: "hybla_params \<Rightarrow> hybla tcp_congestion_ops" where
  "tcp_hybla p = ops_null\<lparr>ca_init := Some (hybla_init p), ca_ssthresh := Some tcp_reno_ssthresh,
     ca_min_cwnd := Some tcp_reno_min_cwnd, ca_cong_avoid := Some (hybla_cong_avoid p),
     ca_set_state := Some hybla_state, ca_name := ''hybla''\<rparr>"

section \<open>The fixed-point increment\<close>

lemma hybla_carry_value:
  "hybla_carry w c n = (w + c div 128, c mod 128, if 128 \<le> c then 0 else n)"
proof (induction w c n rule: hybla_carry.induct)
  case (1 w c n)
  show ?case
  proof (cases "128 \<le> c")
    case True
    then have u: "128 \<le> unat c" "unat (c - 128) = unat c - 128"
      by (simp_all add: word_le_nat_alt unat_minus_le)
    have "unat c div 128 = Suc (unat (c - 128) div 128)" "unat c mod 128 = unat (c - 128) mod 128"
      using u by (simp_all add: le_div_geq le_mod_geq)
    moreover have "unat ((c - 128) div 128) = unat (c - 128) div 128" by (simp add: unat_div_distrib)
    moreover have "unat (c - 128) div 128 \<le> 33554432" using unat_le_u32 [of "c - 128"] by linarith
    ultimately have "c div 128 = 1 + (c - 128) div 128" "c mod 128 = (c - 128) mod 128"
      using unat_add_no_wrap [of 1 "(c - 128) div 128"] by (simp_all add: u32_eq_iff word_nat)
    with 1 True show ?thesis by (subst hybla_carry.simps) (simp add: add.assoc)
  next
    case False
    then have "unat c < 128" by (simp add: word_le_nat_alt)
    then have "c div 128 = 0" "c mod 128 = c" by (simp_all add: u32_eq_iff word_nat)
    with False show ?thesis by (subst hybla_carry.simps) simp
  qed
qed

text \<open>The table holds the floors of 128 times the powers of the eighth root of two.\<close>

lemma hybla_fraction_floor:
  assumes "k < 8"
  shows "unat (hybla_fraction (word_of_nat k)) ^ 8 \<le> 2 ^ (56 + k)"
    and "2 ^ (56 + k) < (unat (hybla_fraction (word_of_nat k)) + 1) ^ 8"
proof -
  have "k \<in> {0, 1, 2, 3, 4, 5, 6, 7}" using assms by auto
  then show "unat (hybla_fraction (word_of_nat k)) ^ 8 \<le> 2 ^ (56 + k)"
    and "2 ^ (56 + k) < (unat (hybla_fraction (word_of_nat k)) + 1) ^ 8"
    by (auto simp: hybla_fraction_def hybla_fractions_def)
qed

lemma hybla_fraction_bounds: "128 \<le> unat (hybla_fraction j)" "unat (hybla_fraction j) \<le> 234"
proof -
  have "hybla_fraction j \<in> set (128 # hybla_fractions)"
    by (auto simp: hybla_fraction_def simp del: unat_lt2p_u32)
  then show "128 \<le> unat (hybla_fraction j)" "unat (hybla_fraction j) \<le> 234"
    by (auto simp: hybla_fractions_def)
qed

definition hybla_rho_ok :: "hybla \<Rightarrow> bool" where
  "hybla_rho_ok ca \<longleftrightarrow> 8 \<le> rho_3ls ca \<and> rho_3ls ca \<le> 247 \<and> rho ca = drop_bit 3 (rho_3ls ca)"

lemma hybla_rho_parts:
  assumes "hybla_rho_ok ca"
  shows "unat (rho ca) = unat (rho_3ls ca) div 8" and "1 \<le> unat (rho ca)" and "unat (rho ca) \<le> 30"
    and "rho_3ls ca - push_bit 3 (rho ca) = word_of_nat (unat (rho_3ls ca) mod 8)"
proof -
  define r where "r = unat (rho_3ls ca)"
  have r: "8 \<le> r" "r \<le> 247"
    using assms by (simp_all add: r_def hybla_rho_ok_def word_le_nat_alt)
  show n: "unat (rho ca) = unat (rho_3ls ca) div 8"
    using assms by (simp add: hybla_rho_ok_def unat_shr)
  then show "1 \<le> unat (rho ca)" "unat (rho ca) \<le> 30" using r by (simp_all add: r_def [symmetric])
  have p: "unat (push_bit 3 (rho ca)) = r div 8 * 8"
    using r by (subst unat_shl_no_wrap) (simp_all add: n r_def [symmetric])
  then have "unat (rho_3ls ca - push_bit 3 (rho ca)) = r - r div 8 * 8"
    by (subst unat_minus_le) (simp_all add: word_le_nat_alt r_def [symmetric])
  also have "\<dots> = r mod 8" by (simp add: minus_div_mult_eq_mod)
  finally have "unat (rho_3ls ca - push_bit 3 (rho ca)) = r mod 8" .
  then show "rho_3ls ca - push_bit 3 (rho ca) = word_of_nat (unat (rho_3ls ca) mod 8)"
    by (simp add: u32_eq_iff unsigned_of_nat take_bit_nat_eq_self r_def)
qed

lemma hybla_pow:
  assumes "unat n \<le> 30"
  shows "\<exists>x. shl_int 1 n = Some x \<and> unat x = 2 ^ unat n"
proof -
  have "(2::nat) ^ unat n \<le> 2 ^ 30" using assms by (intro power_increasing) auto
  then have "unat (push_bit (unat n) (1 :: u32)) = 2 ^ unat n"
    using unat_shl_no_wrap [of 1 "unat n"] by simp
  then show ?thesis using assms by (auto simp: shl_int_def simp del: push_bit_of_1)
qed

lemma hybla_increment_value:
  assumes ok: "hybla_rho_ok (icsk_ca_priv sk)" and s: "snd_cwnd sk < snd_ssthresh sk"
    and r: "rho_3ls (icsk_ca_priv sk) < 200"
  shows "\<exists>inc. hybla_increment sk = Some (inc, True)
    \<and> unat inc + 128 = 2 ^ (unat (rho_3ls (icsk_ca_priv sk)) div 8)
        * unat (hybla_fraction (word_of_nat (unat (rho_3ls (icsk_ca_priv sk)) mod 8)))"
proof -
  let ?ca = "icsk_ca_priv sk"
  define f where "f = hybla_fraction (word_of_nat (unat (rho_3ls ?ca) mod 8))"
  note p = hybla_rho_parts [OF ok]
  from hybla_pow [OF p(3)] obtain x where
    x: "shl_int 1 (rho ?ca) = Some x" "unat x = 2 ^ unat (rho ?ca)" by blast
  have "unat (rho_3ls ?ca) < 200" using r by (simp add: word_less_nat_alt)
  then have "unat (rho ?ca) \<le> 24" unfolding p(1) by simp
  then have x24: "unat x \<le> 2 ^ 24" unfolding x(2) by (intro power_increasing) auto
  have f: "128 \<le> unat f" "unat f \<le> 234" unfolding f_def by (rule hybla_fraction_bounds)+
  have "unat x * unat f \<le> 2 ^ 24 * 234" using x24 f by (intro mult_le_mono)
  then have xf: "unat (x * f) = unat x * unat f" by (intro unat_mult_no_wrap) simp
  have "1 * 128 \<le> unat x * unat f" using f x(2) by (intro mult_le_mono) simp_all
  then have "unat (x * f - 128) + 128 = unat x * unat f"
    using xf by (simp add: unat_minus_le word_le_nat_alt)
  with x s p show ?thesis by (simp add: hybla_increment_def Let_def f_def [symmetric])
qed

section \<open>The window\<close>

lemma cents_sum:
  "128 * d + m = i \<Longrightarrow> 128 * e + n = c + m \<Longrightarrow> 128 * w + c + i = 128 * (w + d + e) + (n :: nat)"
  by simp

definition hybla_ok :: "hybla \<Rightarrow> bool" where
  "hybla_ok ca \<longleftrightarrow> hybla_rho_ok ca \<and> snd_cwnd_cents ca < 128"

text \<open>The window before the cap, for a window below 2^20 and a fraction below 1.\<close>

lemma hybla_raw:
  assumes w: "unat w \<le> 1000000" and c: "(c :: u32) < 128"
  shows "unat (w + drop_bit 7 i + (c + i mod 128) div 128)
      = unat w + unat i div 128 + (unat c + unat i mod 128) div 128"
    and "unat ((c + i mod 128) mod 128) = (unat c + unat i mod 128) mod 128"
proof -
  have c': "unat c < 128" using c by (simp add: word_less_nat_alt)
  have im: "unat (i mod 128) = unat i mod 128" by (simp add: unat_mod_distrib)
  have s: "unat (c + i mod 128) = unat c + unat i mod 128"
    using unat_add_no_wrap [of c "i mod 128"] c' im
      mod_less_divisor [of 128 "unat i"] by (simp del: mod_less_divisor)
  have d: "unat (drop_bit 7 i) = unat i div 128" by (simp add: unat_shr)
  have q: "unat ((c + i mod 128) div 128) = (unat c + unat i mod 128) div 128"
    by (simp add: unat_div_distrib s)
  have id: "unat i div 128 \<le> 33554431" using unat_le_u32 [of i] by linarith
  have qd: "(unat c + unat i mod 128) div 128 \<le> 1" using c' by linarith
  have w1: "unat (w + drop_bit 7 i) = unat w + unat i div 128"
    using unat_add_no_wrap [of w "drop_bit 7 i"] w d id by simp
  show "unat (w + drop_bit 7 i + (c + i mod 128) div 128)
      = unat w + unat i div 128 + (unat c + unat i mod 128) div 128"
    using unat_add_no_wrap [of "w + drop_bit 7 i" "(c + i mod 128) div 128"] w1 q w id qd by simp
  show "unat ((c + i mod 128) mod 128) = (unat c + unat i mod 128) mod 128"
    by (simp add: unat_mod_distrib s)
qed

lemma hybla_apply_window:
  fixes sk :: "hybla tcp_sock"
  defines "c \<equiv> snd_cwnd_cents (icsk_ca_priv sk)"
  assumes "unat (snd_cwnd sk) \<le> 1000000" and "c < 128"
  shows "unat (snd_cwnd (hybla_apply i ss sk))
      = min (if ss then min (unat (snd_cwnd sk) + unat i div 128 + (unat c + unat i mod 128) div 128)
                            (unat (snd_ssthresh sk))
             else unat (snd_cwnd sk) + unat i div 128 + (unat c + unat i mod 128) div 128)
          (unat (snd_cwnd_clamp sk))"
    and "unat (snd_cwnd_cents (icsk_ca_priv (hybla_apply i ss sk))) = (unat c + unat i mod 128) mod 128"
proof -
  have u: "unat (min x y) = min (unat x) (unat y)" for x y :: u32
    by (simp add: min_def word_le_nat_alt)
  show "unat (snd_cwnd (hybla_apply i ss sk))
      = min (if ss then min (unat (snd_cwnd sk) + unat i div 128 + (unat c + unat i mod 128) div 128)
                            (unat (snd_ssthresh sk))
             else unat (snd_cwnd sk) + unat i div 128 + (unat c + unat i mod 128) div 128)
          (unat (snd_cwnd_clamp sk))"
    and "unat (snd_cwnd_cents (icsk_ca_priv (hybla_apply i ss sk))) = (unat c + unat i mod 128) mod 128"
    using hybla_raw [OF assms(2) assms(3), of i]
    by (simp_all add: hybla_apply_def hybla_carry_value Let_def c_def [symmetric] u)
qed

lemma hybla_apply_live:
  assumes l: "mod_live wb hybla_ok sk" and w: "unat (snd_cwnd sk) \<le> 1000000"
    and ss: "ss \<Longrightarrow> snd_cwnd sk < snd_ssthresh sk"
  shows "op_ok (mod_live wb hybla_ok) sk (Some (hybla_apply i ss sk))"
proof -
  let ?sk = "hybla_apply i ss sk"
  have ca: "hybla_ok (icsk_ca_priv sk)" using l by (simp add: mod_live_def)
  then have c: "snd_cwnd_cents (icsk_ca_priv sk) < 128" by (simp add: hybla_ok_def)
  note v = hybla_apply_window [OF w c, of i ss]
  have f: "net_frame sk ?sk" "snd_ssthresh ?sk = snd_ssthresh sk" "snd_cwnd_clamp ?sk = snd_cwnd_clamp sk"
    "mss_cache ?sk = mss_cache sk" "hybla_rho_ok (icsk_ca_priv ?sk) = hybla_rho_ok (icsk_ca_priv sk)"
    by (simp_all add: hybla_apply_def hybla_carry_value Let_def net_frame_def hybla_rho_ok_def)
  have "0 < unat (snd_cwnd sk)" "2 \<le> unat (snd_cwnd_clamp sk)"
    using mod_live_simps(1,3) [OF l] by (simp_all add: word_less_nat_alt word_le_nat_alt)
  moreover have "0 < unat (snd_ssthresh sk)" if ss using ss [OF that] by (simp add: word_less_nat_alt)
  ultimately have "0 < unat (snd_cwnd ?sk)" "unat (snd_cwnd ?sk) \<le> unat (snd_cwnd_clamp sk)"
    unfolding v(1) by auto
  then have p: "0 < snd_cwnd ?sk" "snd_cwnd ?sk \<le> snd_cwnd_clamp sk"
    by (simp_all add: word_less_nat_alt word_le_nat_alt)
  have "snd_cwnd_cents (icsk_ca_priv ?sk) < 128" using v(2) by (simp add: word_less_nat_alt)
  with ca f have k: "hybla_ok (icsk_ca_priv ?sk)" by (simp add: hybla_ok_def)
  have "win wb ?sk"
    using l p f by (cases wb) (auto simp: mod_live_def win_defs)
  with k f show ?thesis by (simp add: mod_live_def)
qed

definition hybla_env :: "kernel \<Rightarrow> u32 \<Rightarrow> tcp_options_received \<Rightarrow> bool" where
  "hybla_env k s rx \<longleftrightarrow> s < 6200"

lemma hybla_recalc_ok:
  assumes "s < 6200"
  shows "\<exists>ca'. hybla_recalc_param hybla_default s ca = Some ca' \<and> hybla_rho_ok ca'
    \<and> snd_cwnd_cents ca' = snd_cwnd_cents ca \<and> hybla_en ca' = hybla_en ca"
proof -
  have "unat (s div 25) \<le> 247" using assms by (simp add: unat_div_distrib word_less_nat_alt)
  then have "s div 25 \<le> 247" by (simp add: word_le_nat_alt)
  then show ?thesis
    by (simp add: hybla_recalc_param_def hybla_default_def msecs_to_jiffies_def hybla_rho_ok_def Let_def)
qed

lemma hybla_ok_minrtt [simp]: "hybla_ok (ca\<lparr>hy_minrtt := v\<rparr>) = hybla_ok ca"
  by (simp add: hybla_ok_def hybla_rho_ok_def)

lemma hybla_increment_Some:
  assumes "hybla_ok (icsk_ca_priv sk)" and "0 < snd_cwnd sk"
  shows "\<exists>i ss. hybla_increment sk = Some (i, ss) \<and> (ss \<longrightarrow> snd_cwnd sk < snd_ssthresh sk)"
proof -
  have "hybla_rho_ok (icsk_ca_priv sk)" using assms(1) by (simp add: hybla_ok_def)
  from hybla_pow [OF hybla_rho_parts(3) [OF this]] obtain x where
    "shl_int 1 (rho (icsk_ca_priv sk)) = Some x" by blast
  moreover have "snd_cwnd sk \<noteq> 0" using assms(2) by auto
  ultimately show ?thesis by (auto simp: hybla_increment_def Let_def)
qed

lemma hybla_cong_avoid_live:
  assumes l: "mod_live (Some L) hybla_ok sk" and e: "srtt sk < 6200"
  shows "op_ok (mod_live (Some L) hybla_ok) sk (hybla_cong_avoid hybla_default ack rtt infl flag k sk)"
proof -
  have ok: "hybla_ok (icsk_ca_priv sk)" using l by (simp add: mod_live_def)
  have "\<exists>ca. (if srtt sk < hy_minrtt (icsk_ca_priv sk)
           then do { ca \<leftarrow> hybla_recalc_param hybla_default (srtt sk) (icsk_ca_priv sk);
                     Some (ca\<lparr>hy_minrtt := srtt sk\<rparr>) }
           else Some (icsk_ca_priv sk)) = Some ca \<and> hybla_ok ca"
    using hybla_recalc_ok [OF e, of "icsk_ca_priv sk"] ok by (auto simp: hybla_ok_def hybla_rho_ok_def)
  then obtain ca where ca: "(if srtt sk < hy_minrtt (icsk_ca_priv sk)
           then do { ca \<leftarrow> hybla_recalc_param hybla_default (srtt sk) (icsk_ca_priv sk);
                     Some (ca\<lparr>hy_minrtt := srtt sk\<rparr>) }
           else Some (icsk_ca_priv sk)) = Some ca" "hybla_ok ca" by blast
  let ?sk = "sk\<lparr>icsk_ca_priv := ca\<rparr>"
  have m: "mod_live (Some L) hybla_ok ?sk" using l ca(2) by (simp add: mod_live_def)
  have r: "rho ca \<noteq> 0"
  proof
    assume "rho ca = 0"
    then show False using hybla_rho_parts(2) [of ca] ca(2) by (simp add: hybla_ok_def)
  qed
  have "unat (snd_cwnd ?sk) \<le> 1000000"
    using m by (auto simp: mod_live_def win_defs WND_MAX_def word_le_nat_alt)
  note a = hybla_apply_live [OF m this]
  from hybla_increment_Some [of ?sk] ca(2) mod_live_simps(1) [OF m] obtain i ss where
    i: "hybla_increment ?sk = Some (i, ss)" "ss \<Longrightarrow> snd_cwnd ?sk < snd_ssthresh ?sk" by auto
  have "op_ok (mod_live (Some L) hybla_ok) ?sk (hybla_cong_avoid hybla_default ack rtt infl flag k sk)"
    unfolding hybla_cong_avoid_def Let_def ca(1) bind.bind_lunit
    using r i m a [OF i(2)] reno_cong_avoid_live [OF m, of ack rtt infl flag k] by simp
  then show ?thesis by (auto simp: op_ok_def net_frame_def)
qed

interpretation hybla: cong_module "tcp_hybla hybla_default" "Some 65535" "\<lambda>_. True" hybla_ok hybla_env
  "\<lambda>_ _ _. True"
proof (unfold_locales, goal_cases)
  case (1 sk k)
  let ?c = "(icsk_ca_priv sk)\<lparr>rho := 0, rho2 := 0, rho_3ls := 0, rho2_7ls := 0, snd_cwnd_cents := 0,
                hybla_en := 1\<rparr>"
  from 1(2) hybla_recalc_ok [of "srtt sk" ?c] obtain ca where
    ca: "hybla_recalc_param hybla_default (srtt sk) ?c = Some ca" "hybla_rho_ok ca" "snd_cwnd_cents ca = 0"
    by (auto simp: hybla_env_def)
  have "0 < unat (rho ca)" "unat (rho ca) \<le> 65535"
    using hybla_rho_parts(2,3) [OF ca(2)] by simp_all
  then have "0 < rho ca" "rho ca \<le> 65535" by (simp_all add: word_less_nat_alt word_le_nat_alt)
  then have "win (Some 65535) (sk\<lparr>snd_cwnd_clamp := 65535, icsk_ca_priv := p, snd_cwnd := rho ca\<rparr>)" for p
    using 1(1) by (simp add: win_defs WND_MAX_def)
  with ca show ?case
    by (simp add: tcp_hybla_def hybla_init_def mod_live_def hybla_ok_def hybla_rho_ok_def)
next
  case (2 sk k)
  with call_reno_ssthresh [of "tcp_hybla hybla_default" hybla_ok sk k] show ?case by (auto simp: tcp_hybla_def mod_live_def)
next
  case (3 sk)
  then show ?case
    using reno_min_cwnd_bounds [of "snd_ssthresh sk"]
    by (simp add: tcp_hybla_def call_min_cwnd_def tcp_reno_min_cwnd_def)
next
  case (4 sk k ack rtt infl good)
  then show ?case
    by (simp add: tcp_hybla_def call_cong_avoid_def hybla_cong_avoid_live hybla_env_def)
next
  case (5 sk s k)
  then show ?case
    by (simp add: tcp_hybla_def hybla_state_def mod_live_def hybla_ok_def hybla_rho_ok_def)
next
  case (9 sk k)
  with call_reno_ssthresh [of "tcp_hybla hybla_default" "\<lambda>_. True" sk k] show ?case by (auto simp: tcp_hybla_def mod_live_def)
next
  case (11 sk k)
  then show ?case by (simp add: tcp_hybla_def hybla_state_def)
qed (simp_all add: tcp_hybla_def ops_null_def)

section \<open>Properties\<close>

text \<open>
  the slow start increment of Hybla is \<open>2^rho - 1\<close> in 128ths of a segment, up to the
  truncation of the table: with \<open>r\<close> the ratio in eighths, \<open>inc + 128\<close> is at most
  \<open>128 * 2^(r/8)\<close>, and exceeds it after adding \<open>2^(r div 8)\<close>. Both sides are raised to the
  eighth power.
\<close>

theorem hybla_slow_start_increment:
  assumes "hybla_rho_ok (icsk_ca_priv sk)" and "snd_cwnd sk < snd_ssthresh sk"
    and "rho_3ls (icsk_ca_priv sk) < 200"
  shows "\<exists>inc. hybla_increment sk = Some (inc, True)
    \<and> (unat inc + 128) ^ 8 \<le> 2 ^ (56 + unat (rho_3ls (icsk_ca_priv sk)))
    \<and> 2 ^ (56 + unat (rho_3ls (icsk_ca_priv sk)))
        < (unat inc + 128 + 2 ^ (unat (rho_3ls (icsk_ca_priv sk)) div 8)) ^ 8"
proof -
  define r where "r = unat (rho_3ls (icsk_ca_priv sk))"
  define n where "n = r div 8"
  define f where "f = unat (hybla_fraction (word_of_nat (r mod 8)))"
  from hybla_increment_value [OF assms] obtain inc where
    inc: "hybla_increment sk = Some (inc, True)" "unat inc + 128 = 2 ^ n * f"
    by (auto simp: r_def n_def f_def)
  have f: "f ^ 8 \<le> 2 ^ (56 + r mod 8)" "2 ^ (56 + r mod 8) < (f + 1) ^ 8"
    unfolding f_def by (rule hybla_fraction_floor; simp)+
  have r: "(2 :: nat) ^ (56 + r) = (2 ^ n) ^ 8 * 2 ^ (56 + r mod 8)"
    unfolding power_mult [symmetric] power_add [symmetric] by (simp add: n_def)
  have "(2 ^ n * f) ^ 8 \<le> 2 ^ (56 + r)"
    unfolding r power_mult_distrib using f(1) by (rule mult_le_mono2)
  moreover have "2 ^ (56 + r) < (2 ^ n * f + 2 ^ n) ^ 8"
  proof -
    have "(2 ^ n * f + 2 ^ n) ^ 8 = (2 ^ n) ^ 8 * (f + 1) ^ 8"
      unfolding power_mult_distrib [symmetric] by (simp add: algebra_simps)
    with f(2) show ?thesis unfolding r by simp
  qed
  ultimately show ?thesis unfolding r_def [symmetric] n_def [symmetric] using inc by auto
qed

definition sample_hybla :: hybla where
  "sample_hybla = \<lparr> hybla_en = 1, snd_cwnd_cents = 100, rho = 1, rho2 = 2, rho_3ls = 12,
     rho2_7ls = 288, hy_minrtt = 300 \<rparr>"

theorem hybla_slow_start_increment_witness:
  "\<exists>inc. hybla_increment (sample_sk sample_hybla) = Some (inc, True)
     \<and> (unat inc + 128) ^ 8 \<le> 2 ^ 68 \<and> 2 ^ 68 < (130 + unat inc) ^ 8"
  using hybla_slow_start_increment [of "sample_sk sample_hybla"]
  by (auto simp: sample_sk_def sample_hybla_def hybla_rho_ok_def)

text \<open>
  no part of an increment is lost: when the result stays below the threshold (in slow
  start) and the clamp, the window and its fraction together grow by exactly the increment, and
  the fraction stays below one segment.
\<close>

theorem hybla_apply_exact:
  assumes "unat (snd_cwnd sk) \<le> 1000000" and "snd_cwnd_cents (icsk_ca_priv sk) < 128"
    and "128 * unat (snd_cwnd sk) + unat (snd_cwnd_cents (icsk_ca_priv sk)) + unat i
        < 128 * unat (snd_cwnd_clamp sk)"
    and "ss \<longrightarrow> (128 * unat (snd_cwnd sk) + unat (snd_cwnd_cents (icsk_ca_priv sk)) + unat i)
        < 128 * unat (snd_ssthresh sk)"
  shows "128 * unat (snd_cwnd (hybla_apply i ss sk))
        + unat (snd_cwnd_cents (icsk_ca_priv (hybla_apply i ss sk))) 
      = 128 * unat (snd_cwnd sk) + unat (snd_cwnd_cents (icsk_ca_priv sk)) + unat i
    \<and> unat (snd_cwnd_cents (icsk_ca_priv (hybla_apply i ss sk))) < 128"
proof -
  define c where "c = unat (snd_cwnd_cents (icsk_ca_priv sk))"
  define v where "v = unat (snd_cwnd sk) + unat i div 128 + (c + unat i mod 128) div 128"
  have t: "128 * unat (snd_cwnd sk) + unat (snd_cwnd_cents (icsk_ca_priv sk)) + unat i = 128 * v + (c + unat i mod 128) mod 128"
    unfolding c_def [symmetric] v_def
    by (rule cents_sum) (rule mult_div_mod_eq)+
  have "v \<le> unat (snd_cwnd_clamp sk)" using assms(3) t by linarith
  moreover have "v \<le> unat (snd_ssthresh sk)" if ss using assms(4) t that by linarith
  ultimately show ?thesis
    using hybla_apply_window [OF assms(1,2), of i ss] t
    by (auto simp: v_def [symmetric] c_def [symmetric] min_absorb1)
qed

theorem hybla_apply_exact_witness:
  "128 * unat (snd_cwnd (hybla_apply 234 True (sample_sk sample_hybla)))
     + unat (snd_cwnd_cents (icsk_ca_priv (hybla_apply 234 True (sample_sk sample_hybla)))) = 846"
  using hybla_apply_exact [of "sample_sk sample_hybla" 234 True]
  by (simp add: sample_sk_def sample_hybla_def)

text \<open>
  a connection that runs Hybla and whose smoothed round trip times stay below 775 ms (6200 in
  eighths): the power of two is always defined, and the window stays positive and at most 65535,
  the clamp Hybla sets. At 800 ms the code shifts a 32-bit one by 32.
\<close>

theorem hybla_runs_safe:
  assumes "\<not> initialized ag" and "win (Some 65535) (linux_sk ag)"
    and "run_env hybla_env (\<lambda>_ _ _. True) (tcp_hybla hybla_default) evs ag"
  shows "\<exists>ag'. agent_run (tcp_hybla hybla_default) evs ag = Some ag'
    \<and> win (Some 65535) (linux_sk ag')"
  using assms by (intro hybla.module_run_safe_from_start) simp_all

theorem hybla_runs_safe_witness:
  "\<exists>ag'. agent_run (tcp_hybla hybla_default) sample_run (sample_agent sample_hybla) = Some ag'
     \<and> win (Some 65535) (linux_sk ag')"
proof (rule hybla_runs_safe)
  show "win (Some 65535) (linux_sk (sample_agent sample_hybla))"
    by (simp add: win_defs sample_sk_def WND_MAX_def)
qed (simp_all add: sample_run_env hybla_env_def)

text \<open>At a round trip time of 800 ms the shift is undefined.\<close>

lemma hybla_shift_trap:
  assumes "rho (icsk_ca_priv sk) = 32" and "snd_cwnd sk < snd_ssthresh sk"
  shows "hybla_increment sk = None"
  using assms by (simp add: hybla_increment_def shl_int_def Let_def)

end
