(* ===== verification/Compound.thy ===== *)
theory Compound
  imports Window Rtt_Sample
begin

text \<open>
  TCP Compound, src/ns-2.34/tcp/linux/src/tcp_compound.c: the window is the sum of a Reno part
  \<open>cwnd\<close> and a delay-based part \<open>dwnd\<close>, which grows by the 3/4 power of the window of the last
  round trip (a quartic root, by Newton's method) and shrinks by the Vegas difference. The loop
  of \<open>qroot\<close> is a \<open>partial_function\<close>; that it ends, for every 64-bit argument, and how far its
  result is from the root, is proved here. \<open>cong_avoid\<close> is split at the once-per-round-trip
  update.
\<close>

record compound =
  cv_beg_snd_nxt :: u32
  cv_beg_snd_una :: u32
  cv_beg_snd_cwnd :: u32
  cv_doing_vegas_now :: u8
  cv_cntRTT :: u16
  cv_minRTT :: u32
  cv_baseRTT :: u32
  cv_cwnd :: u32
  cv_dwnd :: u32

abbreviation (input) TCP_COMPOUND_ALPHA :: nat where "TCP_COMPOUND_ALPHA \<equiv> 3"
abbreviation (input) TCP_COMPOUND_BETA :: u32 where "TCP_COMPOUND_BETA \<equiv> 1"
abbreviation (input) TCP_COMPOUND_GAMMA :: u32 where "TCP_COMPOUND_GAMMA \<equiv> 30"
abbreviation (input) CV_PARAM_SHIFT :: nat where "CV_PARAM_SHIFT \<equiv> 1"

definition cvegas_enable :: "'ca tcp_sock \<Rightarrow> compound \<Rightarrow> compound" where
  "cvegas_enable tp ca = ca\<lparr>cv_doing_vegas_now := 1, cv_beg_snd_nxt := snd_nxt tp, cv_cntRTT := 0,
     cv_minRTT := 0x7fffffff\<rparr>"

definition cvegas_disable :: "compound \<Rightarrow> compound" where
  "cvegas_disable ca = ca\<lparr>cv_doing_vegas_now := 0\<rparr>"

definition tcp_compound_init :: "kernel \<Rightarrow> compound tcp_sock \<Rightarrow> compound tcp_sock option" where
  "tcp_compound_init k tp =
    (let ca = (icsk_ca_priv tp)\<lparr>cv_baseRTT := 0x7fffffff\<rparr>;
         ca = cvegas_enable tp ca
     in Some (tp\<lparr>icsk_ca_priv := ca\<lparr>cv_dwnd := 0, cv_cwnd := snd_cwnd tp\<rparr>\<rparr>))"

definition tcp_compound_rtt_calc ::
  "u32 \<Rightarrow> kernel \<Rightarrow> compound tcp_sock \<Rightarrow> compound tcp_sock option" where
  "tcp_compound_rtt_calc usrtt k tp =
    (let ca = icsk_ca_priv tp;
         vrtt = usrtt + 1;
         ca = (if vrtt < cv_baseRTT ca then ca\<lparr>cv_baseRTT := vrtt\<rparr> else ca);
         ca = ca\<lparr>cv_minRTT := min (cv_minRTT ca) vrtt\<rparr>
     in Some (tp\<lparr>icsk_ca_priv := ca\<lparr>cv_cntRTT := cv_cntRTT ca + 1\<rparr>\<rparr>))"

definition tcp_compound_state ::
  "u8 \<Rightarrow> kernel \<Rightarrow> compound tcp_sock \<Rightarrow> compound tcp_sock option" where
  "tcp_compound_state ca_state k tp =
     Some (tp\<lparr>icsk_ca_priv := (if ca_state = TCP_CA_Open then cvegas_enable tp (icsk_ca_priv tp)
                              else cvegas_disable (icsk_ca_priv tp))\<rparr>)"

section \<open>Quartic root\<close>

definition cdiv64_64 :: "u64 \<Rightarrow> u64 \<Rightarrow> u64 option" where
  "cdiv64_64 dividend divisor = do {
     let (d, dividend) =
       (if 0xffffffff < divisor
        then let shift = nat (fls (ucast (drop_bit 32 divisor)))
             in (ucast (drop_bit shift divisor) :: u32, drop_bit shift dividend)
        else (ucast divisor, dividend));
     if drop_bit 32 dividend \<noteq> 0 then do_div dividend d
     else do { q \<leftarrow> cdiv (ucast dividend) d; Some (ucast q) }
   }"

definition qroot_step :: "u64 \<Rightarrow> u32 \<Rightarrow> u32 option" where
  "qroot_step a x = do {
     let x3 = (ucast x :: u64);
     let x3 = x3 * ucast x;
     let x3 = x3 * ucast x;
     q \<leftarrow> cdiv64_64 a x3;
     Some ((3 * x + ucast q) div 4)
   }"

partial_function (option) qroot_loop :: "u64 \<Rightarrow> u32 \<Rightarrow> u32 option" where
  "qroot_loop a x1 = Option.bind (qroot_step a x1) (\<lambda>x.
     if 1 < \<bar>sint (x1 - x)\<bar> then qroot_loop a x else Some x)"

definition qroot :: "u64 \<Rightarrow> u32 option" where
  "qroot a = qroot_loop a (push_bit (nat (fls64 a) div 4) 1)"

section \<open>Congestion avoidance\<close>

text \<open>The window may have been cut since the last call: bring the two parts below it.\<close>

definition compound_sync :: "compound tcp_sock \<Rightarrow> compound tcp_sock" where
  "compound_sync tp =
    (let ca = icsk_ca_priv tp in
     if snd_cwnd tp < cv_cwnd ca + cv_dwnd ca
     then if snd_cwnd tp < cv_cwnd ca \<or> snd_cwnd tp < cv_dwnd ca
          then tp\<lparr>icsk_ca_priv := ca\<lparr>cv_cwnd := snd_cwnd tp, cv_dwnd := 0\<rparr>\<rparr>
          else tp\<lparr>icsk_ca_priv := ca\<lparr>cv_cwnd := snd_cwnd tp - cv_dwnd ca\<rparr>\<rparr>
     else tp)"

definition compound_inc :: "compound tcp_sock \<Rightarrow> compound tcp_sock" where
  "compound_inc tp =
    (let ca = icsk_ca_priv tp;
         inc = cv_cwnd ca \<le> snd_ssthresh tp;
         tp = (if \<not> inc \<and> snd_cwnd_cnt tp < snd_cwnd tp
               then tp\<lparr>snd_cwnd_cnt := snd_cwnd_cnt tp + 1\<rparr> else tp);
         (inc, tp) = (if snd_cwnd tp \<le> snd_cwnd_cnt tp then (True, tp\<lparr>snd_cwnd_cnt := 0\<rparr>)
                      else (inc, tp))
     in if inc \<and> snd_cwnd tp < snd_cwnd_clamp tp
        then tp\<lparr>icsk_ca_priv := ca\<lparr>cv_cwnd := cv_cwnd ca + 1\<rparr>\<rparr> else tp)"

definition compound_dwnd :: "u32 \<Rightarrow> u32 \<Rightarrow> u32 option" where
  "compound_dwnd old_wnd diff = do {
     let win3 = (ucast old_wnd :: u64);
     let win3 = win3 * ucast old_wnd;
     let win3 = win3 * ucast old_wnd;
     r \<leftarrow> qroot win3;
     let x = drop_bit TCP_COMPOUND_ALPHA r;
     Some (if 1 < x then x - 1 else 0)
   }"

definition compound_delay :: "u32 \<Rightarrow> u32 \<Rightarrow> u32 \<Rightarrow> u32 \<Rightarrow> u32 option" where
  "compound_delay old_wnd brtt rtt dwnd = do {
     target_cwnd \<leftarrow> cdiv (push_bit CV_PARAM_SHIFT (old_wnd * brtt)) rtt;
     let diff = push_bit CV_PARAM_SHIFT old_wnd - target_cwnd;
     if diff < push_bit CV_PARAM_SHIFT TCP_COMPOUND_GAMMA
     then do { d \<leftarrow> compound_dwnd old_wnd diff; Some (d + dwnd) }
     else if push_bit CV_PARAM_SHIFT dwnd < diff * TCP_COMPOUND_BETA then Some 0
     else Some (drop_bit CV_PARAM_SHIFT (push_bit CV_PARAM_SHIFT dwnd - diff * TCP_COMPOUND_BETA))
   }"

text \<open>
  The once-per-round-trip update; the flag of its result says that the function returned early,
  before the window is written.
\<close>

definition compound_round :: "u32 \<Rightarrow> compound tcp_sock \<Rightarrow> (bool \<times> compound tcp_sock) option" where
  "compound_round ack tp =
    (let ca = icsk_ca_priv tp in
     if \<not> after ack (cv_beg_snd_nxt ca) then Some (False, tp)
     else if mss_cache tp = 0 then Some (True, tp)
     else do {
       old_wnd \<leftarrow> cdiv (cv_beg_snd_nxt ca - cv_beg_snd_una ca) (mss_cache tp);
       let ca = ca\<lparr>cv_beg_snd_una := cv_beg_snd_nxt ca, cv_beg_snd_nxt := snd_nxt tp,
                  cv_beg_snd_cwnd := snd_cwnd tp\<rparr>;
       if 2 < cv_cntRTT ca \<and> cv_minRTT ca = 0 then Some (True, tp\<lparr>icsk_ca_priv := ca\<rparr>)
       else do {
         ca \<leftarrow> (if 2 < cv_cntRTT ca
               then do {
                 d \<leftarrow> compound_delay old_wnd (cv_baseRTT ca) (cv_minRTT ca) (cv_dwnd ca);
                 Some (ca\<lparr>cv_dwnd := d\<rparr>)
               }
               else Some ca);
         Some (False, tp\<lparr>icsk_ca_priv := ca\<lparr>cv_cntRTT := 0, cv_minRTT := 0x7fffffff\<rparr>\<rparr>)
       }
     })"

definition tcp_compound_cong_avoid ::
  "u32 \<Rightarrow> u32 \<Rightarrow> u32 \<Rightarrow> s32 \<Rightarrow> kernel \<Rightarrow> compound tcp_sock \<Rightarrow> compound tcp_sock option" where
  "tcp_compound_cong_avoid ack seq_rtt in_flight flag k tp =
    (let tp = compound_sync tp in
     if \<not> tcp_is_cwnd_limited tp in_flight then Some tp
     else do {
       (early, tp) \<leftarrow> compound_round ack (compound_inc tp);
       Some (if early then tp
             else tp\<lparr>snd_cwnd := cv_cwnd (icsk_ca_priv tp) + cv_dwnd (icsk_ca_priv tp)\<rparr>)
     })"

definition tcp_compound_cwnd_event ::
  "tcp_ca_event \<Rightarrow> kernel \<Rightarrow> compound tcp_sock \<Rightarrow> compound tcp_sock option" where
  "tcp_compound_cwnd_event event k tp =
    (if event = CA_EVENT_CWND_RESTART \<or> event = CA_EVENT_TX_START
     then tcp_compound_init k tp else Some tp)"

text \<open>The pointer to the information is NULL, so writing it traps.\<close>

definition tcp_compound_get_info :: "u32 \<Rightarrow> compound tcp_sock \<Rightarrow> unit option" where
  "tcp_compound_get_info ext tp = (if ext AND 1 \<noteq> 0 then None else Some ())"

definition tcp_compound :: "compound tcp_congestion_ops" where
  "tcp_compound = ops_null\<lparr>ca_flags := TCP_CONG_RTT_STAMP, ca_init := Some tcp_compound_init,
     ca_ssthresh := Some tcp_reno_ssthresh, ca_cong_avoid := Some tcp_compound_cong_avoid,
     ca_min_cwnd := Some tcp_reno_min_cwnd, ca_rtt_sample := Some tcp_compound_rtt_calc,
     ca_set_state := Some tcp_compound_state, ca_cwnd_event := Some tcp_compound_cwnd_event,
     ca_get_info := Some tcp_compound_get_info, ca_name := ''compound''\<rparr>"

section \<open>Newton's method over the naturals\<close>

text \<open>
  \<open>qstep a x q x'\<close>: a step from \<open>x\<close> to \<open>x'\<close> with a quotient \<open>q\<close> that is exact for small \<open>x\<close>,
  and otherwise at most 2 above the quotient of \<open>a\<close> by the cube of \<open>x\<close>.
\<close>

definition qstep :: "nat \<Rightarrow> nat \<Rightarrow> nat \<Rightarrow> nat \<Rightarrow> bool" where
  "qstep a x q x' \<longleftrightarrow> a div x ^ 3 \<le> q \<and> q \<le> a div x ^ 3 + 2
     \<and> (x < 1600 \<longrightarrow> q = a div x ^ 3) \<and> x' = (3 * x + q) div 4"

lemmas quartic = power4_eq_xxxx power3_eq_cube power2_eq_square algebra_simps

text \<open>The arithmetic and geometric mean: no step goes below the root.\<close>

lemma amgm4: "4 * r * x ^ 3 \<le> 3 * x ^ 4 + (r :: nat) ^ 4"
proof -
  have "(0 :: int) \<le> (int x - int r)\<^sup>2 * (2 * (int x)\<^sup>2 + (int x + int r)\<^sup>2)" by simp
  also have "\<dots> = 3 * int x ^ 4 + int r ^ 4 - 4 * int r * int x ^ 3"
    by (simp add: quartic)
  finally have "int (4 * r * x ^ 3) \<le> int (3 * x ^ 4 + r ^ 4)" by simp
  then show ?thesis by (simp only: of_nat_le_iff)
qed

lemma qstep_ge_root:
  assumes "qstep a x q x'" and "r ^ 4 \<le> a" and "0 < x"
  shows "r \<le> x'"
proof -
  have "(4 * r - 3 * x) * x ^ 3 \<le> a"
  proof (cases "4 * r \<le> 3 * x")
    case False
    have "4 * r * x ^ 3 \<le> 3 * x ^ 4 + a" using amgm4 [of r x] assms(2) by linarith
    moreover have "3 * x ^ 4 = 3 * x * x ^ 3" by (simp add: quartic)
    ultimately show ?thesis by (simp add: diff_mult_distrib)
  qed simp
  then have "4 * r - 3 * x \<le> a div x ^ 3"
    using assms(3) by (simp add: less_eq_div_iff_mult_less_eq)
  moreover have "a div x ^ 3 \<le> q" using assms(1) by (simp add: qstep_def)
  ultimately have "4 * r \<le> 3 * x + q" by linarith
  then have "4 * r div 4 \<le> (3 * x + q) div 4" by (rule div_le_mono)
  then show ?thesis using assms(1) by (simp add: qstep_def)
qed

text \<open>From above the root, steps do not go up, and far above it they go down.\<close>

lemma quartic_le:
  fixes y :: nat
  assumes "4 * k \<le> m + 3 * n" and "6 * k\<^sup>2 \<le> 3 * m * n + 3 * n\<^sup>2"
    and "4 * k ^ 3 \<le> 3 * m * n\<^sup>2 + n ^ 3" and "k ^ 4 \<le> m * n ^ 3"
  shows "(k + y) ^ 4 \<le> (m + y) * (n + y) ^ 3"
proof -
  have "(k + y) ^ 4 = y ^ 4 + (4 * k) * y ^ 3 + (6 * k\<^sup>2) * y\<^sup>2 + (4 * k ^ 3) * y + k ^ 4"
    by (simp add: quartic)
  also have "\<dots> \<le> y ^ 4 + (m + 3 * n) * y ^ 3 + (3 * m * n + 3 * n\<^sup>2) * y\<^sup>2
      + (3 * m * n\<^sup>2 + n ^ 3) * y + m * n ^ 3"
    using assms by (intro add_mono mult_le_mono1 order_refl)
  also have "\<dots> = (m + y) * (n + y) ^ 3" by (simp add: quartic)
  finally show ?thesis .
qed

lemma qstep_above:
  assumes "qstep a x q x'" and "a < x ^ 4"
  shows "q \<le> x + 1" and "x' \<le> x" and "x < 1600 \<Longrightarrow> x' < x"
proof -
  have "x ^ 4 = x * x ^ 3" by (simp add: quartic)
  then have d: "a div x ^ 3 < x" using assms(2) by (simp add: less_mult_imp_div_less)
  then show "q \<le> x + 1" using assms(1) by (simp add: qstep_def)
  then have "(3 * x + q) div 4 \<le> (4 * x + 1) div 4" by (intro div_le_mono) simp
  then show "x' \<le> x" using assms(1) by (simp add: qstep_def)
  show "x' < x" if "x < 1600"
  proof -
    have "q < x" using assms(1) d that by (simp add: qstep_def)
    then show ?thesis using assms(1) by (simp add: qstep_def less_mult_imp_div_less)
  qed
qed

text \<open>Two above the root and beyond, and not small, the quotient is at most \<open>x - 4\<close>.\<close>

lemma quotient_far:
  fixes a x :: nat
  assumes "a < (x - 1) ^ 4" and "7 \<le> x"
  shows "a div x ^ 3 \<le> x - 4"
proof -
  obtain y where y: "x = 7 + y" using le_Suc_ex [OF assms(2)] by blast
  have "(6 + y) ^ 4 \<le> (4 + y) * (7 + y) ^ 3" by (rule quartic_le) simp_all
  then have "a < (4 + y) * (7 + y) ^ 3" using assms(1) unfolding y by simp
  then have "a div x ^ 3 < 4 + y" by (simp add: y less_mult_imp_div_less)
  then show ?thesis by (simp add: y)
qed

lemma qstep_far:
  assumes "qstep a x q x'" and "a < (x - 1) ^ 4" and "7 \<le> x"
  shows "x' < x"
proof -
  have "q \<le> a div x ^ 3 + 2" using assms(1) by (simp add: qstep_def)
  then have "q \<le> x - 2" using quotient_far [OF assms(2,3)] assms(3) by linarith
  then show ?thesis using assms(1,3) by (simp add: qstep_def less_mult_imp_div_less)
qed

text \<open>Three above the root and beyond, a step is larger than 1.\<close>

lemma qstep_farther:
  assumes "qstep a x q x'" and "a < (x - 2) ^ 4" and "5 \<le> x"
  shows "x' + 1 < x"
proof (cases "x < 1600")
  case True
  obtain y where y: "x = 5 + y" using le_Suc_ex [OF assms(3)] by blast
  have "(3 + y) ^ 4 \<le> (1 + y) * (5 + y) ^ 3" by (rule quartic_le) simp_all
  then have "a < (1 + y) * (5 + y) ^ 3" using assms(2) unfolding y by simp
  then have "a div x ^ 3 < 1 + y" by (simp add: y less_mult_imp_div_less)
  then have "q \<le> y" using True assms(1) by (simp add: qstep_def)
  then have "(3 * x + q) div 4 < 4 + y" by (intro less_mult_imp_div_less) (simp add: y)
  then show ?thesis using assms(1) by (simp add: qstep_def y)
next
  case False
  then obtain y where y: "x = 1600 + y" using le_Suc_ex [of 1600 x] by (auto simp: not_less)
  have "(1598 + y) ^ 4 \<le> (1594 + y) * (1600 + y) ^ 3" by (rule quartic_le) simp_all
  then have "a < (1594 + y) * (1600 + y) ^ 3" using assms(2) unfolding y by simp
  then have "a div x ^ 3 < 1594 + y" by (simp add: y less_mult_imp_div_less)
  then have "q \<le> 1595 + y" using assms(1) by (simp add: qstep_def)
  then have "(3 * x + q) div 4 < 1599 + y" by (intro less_mult_imp_div_less) (simp add: y)
  then show ?thesis using assms(1) by (simp add: qstep_def y)
qed

text \<open>From the root itself a step goes up by at most 1.\<close>

lemma qstep_root:
  assumes "qstep a r q x'" and "a < (r + 1) ^ 4" and "3 \<le> r"
  shows "q \<le> r + 6" and "x' \<le> r + 1"
proof -
  show q: "q \<le> r + 6"
  proof (cases "r < 1600")
    case True
    obtain y where y: "r = 3 + y" using le_Suc_ex [OF assms(3)] by blast
    have "(4 + y) ^ 4 \<le> (10 + y) * (3 + y) ^ 3" by (rule quartic_le) simp_all
    then have "a < (10 + y) * (3 + y) ^ 3" using assms(2) unfolding y by simp
    then have "a div r ^ 3 < 10 + y" by (simp add: y less_mult_imp_div_less)
    with True assms(1) show ?thesis by (simp add: qstep_def y)
  next
    case False
    then obtain y where y: "r = 1600 + y" using le_Suc_ex [of 1600 r] by (auto simp: not_less)
    have "(1601 + y) ^ 4 \<le> (1605 + y) * (1600 + y) ^ 3" by (rule quartic_le) simp_all
    then have "a < (1605 + y) * (1600 + y) ^ 3" using assms(2) unfolding y by simp
    then have "a div r ^ 3 < 1605 + y" by (simp add: y less_mult_imp_div_less)
    with assms(1) show ?thesis by (simp add: qstep_def y)
  qed
  then have "(3 * r + q) div 4 < r + 2" by (intro less_mult_imp_div_less) simp
  then show "x' \<le> r + 1" using assms(1) by (simp add: qstep_def)
qed

text \<open>So wherever the loop stops, it stops at the root or one above it.\<close>

lemma qstep_stop:
  assumes "qstep a x q x'" and "r ^ 4 \<le> a" and "a < (r + 1) ^ 4" and "3 \<le> r" and "0 < x"
    and "x' \<le> x + 1" and "x \<le> x' + 1"
  shows "r \<le> x' \<and> x' \<le> r + 1"
proof -
  have mono: "(r + 1) ^ 4 \<le> y ^ 4" if "r + 1 \<le> y" for y using that by (rule power_mono) simp
  consider "x \<le> r" | "x = r + 1" | "x = r + 2" | "r + 3 \<le> x" by linarith
  then have "x' \<le> r + 1"
  proof cases
    case 1 with assms(6) show ?thesis by linarith
  next
    case 2 with qstep_above(2) [OF assms(1)] assms(3) show ?thesis by simp
  next
    case 3
    have "x' < x"
    proof (cases "7 \<le> x")
      case True
      with qstep_far [OF assms(1)] assms(3) 3 show ?thesis by simp
    next
      case False
      have "a < x ^ 4" using assms(3) mono [of x] 3 by linarith
      with False qstep_above(3) [OF assms(1)] show ?thesis by simp
    qed
    with 3 show ?thesis by simp
  next
    case 4
    have "a < (x - 2) ^ 4" using assms(3) mono [of "x - 2"] 4 by linarith
    from qstep_farther [OF assms(1) this] assms(4,7) 4 show ?thesis by simp
  qed
  with qstep_ge_root [OF assms(1,2,5)] show ?thesis by simp
qed

section \<open>The root of the code\<close>

lemma cdiv64_64_eq:
  assumes "divisor \<noteq> 0"
  shows "cdiv64_64 dividend divisor = div64_64 dividend divisor"
proof -
  have h: "0xffffffff < divisor \<longleftrightarrow> (ucast (drop_bit 32 divisor) :: u32) \<noteq> 0"
    by (simp only: u32_eq_iff unat_high_word word_less_nat_alt) (auto simp: div_eq_0_iff)
  have e: "(if drop_bit 32 n \<noteq> 0 then do_div n d
      else do { q \<leftarrow> cdiv (ucast n) d; Some (ucast q) }) = do_div n d" for n :: u64 and d :: u32
  proof (cases "drop_bit 32 n = 0 \<and> d \<noteq> 0")
    case True
    then have "unat (drop_bit 32 n) = 0" by simp
    then have "unat n < 2 ^ 32" by (simp add: unat_shr div_eq_0_iff)
    then have "ucast (ucast n div d :: u32) = n div (ucast d :: u64)"
      by (simp add: word_unat_eq_iff unat_div_distrib unat_low_word)
    with True show ?thesis by (simp add: do_div_Some)
  next
    case False
    then show ?thesis by (cases "d = 0") (simp_all add: do_div_def)
  qed
  show ?thesis
    unfolding cdiv64_64_def div64_64_def h by (simp add: e Let_def)
qed

lemma sint_diff_small:
  assumes "unat x < 2147483648" and "unat y < 2147483648"
  shows "sint (x - y :: u32) = int (unat x) - int (unat y)"
proof -
  have e: "x - y = word_of_int (int (unat x) - int (unat y))" by simp
  have "sint (word_of_int i :: u32) = i" if "- 2147483648 \<le> i" "i < 2147483648" for i :: int
    using that by (simp add: signed_of_int signed_take_bit_int_eq_self)
  then show ?thesis unfolding e by this (use assms in linarith)+
qed

lemma qroot_step_value:
  assumes x: "0 < unat x" "unat x \<le> 262144" and q: "unat a div unat x ^ 3 \<le> 1048576"
  shows "\<exists>q x'. qroot_step a x = Some x' \<and> qstep (unat a) (unat x) q (unat x')
    \<and> q \<le> 1048578 \<and> unat x' < 2147483648"
proof -
  have m: "unat (u * v) = unat u * unat v" if "unat u * unat v < 2 ^ 64" for u v :: u64
    using that unat_mult_lem [of u v] by simp
  have "unat x * unat x \<le> 262144 * 262144" using x by (intro mult_le_mono)
  then have x2: "unat (ucast x * ucast x :: u64) = unat x * unat x"
      "unat x * unat x \<le> 68719476736"
    by (simp_all add: m)
  have "unat x * unat x * unat x \<le> 68719476736 * 262144" using x2(2) x by (intro mult_le_mono)
  then have x3: "unat (ucast x * ucast x * ucast x :: u64) = unat x ^ 3"
    by (subst m) (simp_all add: x2(1) power3_eq_cube)
  have "unat x ^ 3 \<noteq> 0" using x by simp
  then have nz: "(ucast x * ucast x * ucast x :: u64) \<noteq> 0" using x3 by (metis unat_0)
  from div64_64_accuracy [OF nz, of a] obtain q where
    d: "div64_64 a (ucast x * ucast x * ucast x) = Some q"
      "unat a div unat x ^ 3 \<le> unat q" "unat q \<le> unat a div unat x ^ 3 + 2"
      "unat x ^ 3 < 2 ^ 32 \<longrightarrow> unat q = unat a div unat x ^ 3"
    unfolding x3 by blast
  have ql: "unat q \<le> 1048578" using d(3) assms(3) by linarith
  then have uq: "unat (ucast q :: u32) = unat q" by (intro unat_low_word) simp
  have t: "unat (3 * x) = 3 * unat x" using x by (simp add: unat_mult_no_wrap)
  have "unat (3 * x + ucast q) = 3 * unat x + unat q"
    using unat_add_no_wrap [of "3 * x" "ucast q"] t uq ql x by simp
  then have x': "unat ((3 * x + ucast q) div 4) = (3 * unat x + unat q) div 4"
    by (simp add: unat_div_distrib)
  have "unat x ^ 3 < 2 ^ 32" if "unat x < 1600"
  proof -
    have "unat x ^ 3 \<le> 1600 ^ 3" using that by (intro power_mono) auto
    then show ?thesis by simp
  qed
  then have "qstep (unat a) (unat x) (unat q) (unat ((3 * x + ucast q) div 4))"
    using d x' by (simp add: qstep_def)
  moreover have "qroot_step a x = Some ((3 * x + ucast q) div 4)"
    by (simp add: qroot_step_def Let_def cdiv64_64_eq [OF nz] d(1))
  moreover have "unat ((3 * x + ucast q) div 4) < 2147483648"
    unfolding x' using x ql by simp
  ultimately show ?thesis using ql by blast
qed

lemma qroot_loop_unfold:
  assumes "qroot_step a x = Some x'" and "unat x < 2147483648" and "unat x' < 2147483648"
  shows "qroot_loop a x = (if unat x' \<le> unat x + 1 \<and> unat x \<le> unat x' + 1 then Some x'
    else qroot_loop a x')"
proof -
  have c: "1 < \<bar>sint (x - x')\<bar> \<longleftrightarrow> \<not> (unat x' \<le> unat x + 1 \<and> unat x \<le> unat x' + 1)"
    unfolding sint_diff_small [OF assms(2,3)] by linarith
  show ?thesis
    unfolding qroot_loop.simps [of a x] assms(1) bind.bind_lunit c
    by (cases "unat x' \<le> unat x + 1 \<and> unat x \<le> unat x' + 1")
      (simp_all only: simp_thms if_True if_False)
qed

lemma qroot_loop_above:
  assumes "r ^ 4 \<le> unat a" and "unat a < (r + 1) ^ 4" and "3 \<le> r" and "r \<le> 262143"
    and "r \<le> unat x" and "unat x \<le> 262144"
  shows "\<exists>y. qroot_loop a x = Some y \<and> r \<le> unat y \<and> unat y \<le> r + 1"
  using assms(5,6)
proof (induction "unat x" arbitrary: x rule: less_induct)
  case less
  have x0: "0 < unat x" using less.prems assms(3) by simp
  have "unat a div unat x ^ 3 \<le> unat x + 6"
  proof (cases "unat x = r")
    case True
    have "qstep (unat a) r (unat a div r ^ 3) ((3 * r + unat a div r ^ 3) div 4)" by (simp add: qstep_def)
    from qstep_root(1) [OF this assms(2,3)] True show ?thesis by simp
  next
    case False
    then have "(r + 1) ^ 4 \<le> unat x ^ 4" using less.prems by (intro power_mono) auto
    then have "unat a < unat x * unat x ^ 3" using assms(2) by (simp add: quartic)
    then show ?thesis by (simp add: less_mult_imp_div_less less_imp_le trans_le_add1)
  qed
  then have "unat a div unat x ^ 3 \<le> 1048576" using less.prems by linarith
  from qroot_step_value [OF x0 less.prems(2) this] obtain q x' where
    x': "qroot_step a x = Some x'" "qstep (unat a) (unat x) q (unat x')" "unat x' < 2147483648"
    by blast
  have xb: "unat x < 2147483648" using less.prems by simp
  note u = qroot_loop_unfold [OF x'(1) xb x'(3)]
  show ?case
  proof (cases "unat x' \<le> unat x + 1 \<and> unat x \<le> unat x' + 1")
    case True
    from qstep_stop [OF x'(2) assms(1,2,3) x0] True u show ?thesis by auto
  next
    case False
    have ge: "r \<le> unat x'" using qstep_ge_root [OF x'(2) assms(1) x0] .
    have "unat x \<noteq> r"
    proof
      assume e: "unat x = r"
      from qstep_root(2) [OF x'(2) [unfolded e] assms(2,3)] ge False e show False by linarith
    qed
    then have "(r + 1) ^ 4 \<le> unat x ^ 4" using less.prems by (intro power_mono) auto
    with qstep_above(2) [OF x'(2)] assms(2) have le: "unat x' \<le> unat x" by linarith
    with False have lt: "unat x' < unat x" by linarith
    from less.hyps [OF lt ge] le less.prems u False show ?thesis by auto
  qed
qed

text \<open>Below 81 (a root below 3) the loop is followed step by step.\<close>

lemma qstep_small: "qstep a x q x' \<Longrightarrow> x < 1600 \<Longrightarrow> x' = (3 * x + a div x ^ 3) div 4"
  by (simp add: qstep_def)

lemma qroot_loop_one_step:
  assumes "0 < unat x" and "unat x < 1600" and "unat a div unat x ^ 3 \<le> 1048576"
  shows "\<exists>x'. unat x' = (3 * unat x + unat a div unat x ^ 3) div 4
    \<and> qroot_loop a x = (if unat x' \<le> unat x + 1 \<and> unat x \<le> unat x' + 1 then Some x'
        else qroot_loop a x')"
proof -
  from qroot_step_value [OF assms(1) _ assms(3)] assms(2) obtain q x' where
    x': "qroot_step a x = Some x'" "qstep (unat a) (unat x) q (unat x')" "unat x' < 2147483648"
    by auto
  from qroot_loop_unfold [OF x'(1) _ x'(3)] qstep_small [OF x'(2) assms(2)] assms(2) show ?thesis
    by (intro exI [of _ x']) simp
qed

lemma qroot_small_1:
  assumes "unat a < 8"
  shows "\<exists>x. qroot_loop a 1 = Some x \<and> (unat x - 1) ^ 4 \<le> unat a \<and> unat a < (unat x + 1) ^ 4"
proof -
  have "0 < unat (1 :: u32)" "unat (1 :: u32) < 1600" "unat a div unat (1 :: u32) ^ 3 \<le> 1048576"
    using assms by simp_all
  from qroot_loop_one_step [OF this] obtain x where
    x0: "unat x = (3 * unat (1 :: u32) + unat a div unat (1 :: u32) ^ 3) div 4"
      "qroot_loop a 1 = (if unat x \<le> unat (1 :: u32) + 1 \<and> unat (1 :: u32) \<le> unat x + 1
         then Some x else qroot_loop a x)" by blast
  have u: "unat (1 :: u32) = 1" by simp
  note x1 = x0(2) [unfolded u]
  have x: "unat x = (3 + unat a) div 4" using x0(1) by simp
  have stop: "qroot_loop a 1 = Some x" if "unat x \<le> 1 + 1 \<and> 1 \<le> unat x + 1"
    using x1 unfolding if_P [OF that] .
  have go: "qroot_loop a 1 = qroot_loop a x" if "\<not> (unat x \<le> 1 + 1 \<and> 1 \<le> unat x + 1)"
    using x1 unfolding if_not_P [OF that] .
  have "unat a \<in> {0,1,2,3,4,5,6,7}" using assms by auto
  with x stop show ?thesis by (auto simp: power4_eq_xxxx)
qed

lemma qroot_small_2:
  assumes "8 \<le> unat a" and "unat a < 81"
  shows "\<exists>x. qroot_loop a 2 = Some x \<and> (unat x - 1) ^ 4 \<le> unat a \<and> unat a < (unat x + 1) ^ 4"
proof -
  have "0 < unat (2 :: u32)" "unat (2 :: u32) < 1600" "unat a div unat (2 :: u32) ^ 3 \<le> 1048576"
    using assms by simp_all
  from qroot_loop_one_step [OF this] obtain x where
    x0: "unat x = (3 * unat (2 :: u32) + unat a div unat (2 :: u32) ^ 3) div 4"
      "qroot_loop a 2 = (if unat x \<le> unat (2 :: u32) + 1 \<and> unat (2 :: u32) \<le> unat x + 1
         then Some x else qroot_loop a x)" by blast
  have u: "unat (2 :: u32) = 2" by simp
  note x1 = x0(2) [unfolded u]
  have x: "unat x = (6 + unat a div 8) div 4" using x0(1) by simp
  have stop: "qroot_loop a 2 = Some x" if "unat x \<le> 2 + 1 \<and> 2 \<le> unat x + 1"
    using x1 unfolding if_P [OF that] .
  have go: "qroot_loop a 2 = qroot_loop a x" if "\<not> (unat x \<le> 2 + 1 \<and> 2 \<le> unat x + 1)"
    using x1 unfolding if_not_P [OF that] .
  consider "unat a < 16" | "16 \<le> unat a" "unat a < 48" | "48 \<le> unat a" "unat a < 80" | "unat a = 80"
    using assms(2) by linarith
  then show ?thesis
  proof cases
    case 1
    then have "unat a div 8 = 1" using assms(1) by auto
    with x stop 1 show ?thesis by (auto simp: power4_eq_xxxx)
  next
    case 2
    then have "2 \<le> unat a div 8" "unat a div 8 < 6" by linarith+
    then have "unat x = 2" unfolding x by linarith
    with stop 2 show ?thesis by auto
  next
    case 3
    then have "6 \<le> unat a div 8" "unat a div 8 < 10" by linarith+
    then have "unat x = 3" unfolding x by linarith
    with stop 3 show ?thesis by auto
  next
    case 4
    then have x4: "unat x = 4" using x by simp
    have "0 < unat x" "unat x < 1600" "unat a div unat x ^ 3 \<le> 1048576" using x4 4 by simp_all
    from qroot_loop_one_step [OF this] obtain y where
      y: "unat y = (3 * unat x + unat a div unat x ^ 3) div 4"
        "qroot_loop a x = (if unat y \<le> unat x + 1 \<and> unat x \<le> unat y + 1 then Some y else qroot_loop a y)"
      by blast
    then have "unat y = 3" "qroot_loop a x = Some y" using 4 x4 by simp_all
    with 4 x4 go show ?thesis by auto
  qed
qed

lemma quartic_floor: "\<exists>r. r ^ 4 \<le> a \<and> a < (r + 1) ^ 4" for a :: nat
proof -
  let ?P = "\<lambda>r. r ^ 4 \<le> a"
  define r where "r = Greatest ?P"
  have b: "y \<le> a" if "?P y" for y
  proof -
    have "y * 1 \<le> y * y ^ 3" by (cases "y = 0") auto
    then have "y \<le> y ^ 4" by (simp add: quartic)
    with that show ?thesis by linarith
  qed
  have z: "?P 0" by simp
  have "?P r" unfolding r_def using GreatestI_nat [of ?P, OF z] b by blast
  moreover have "\<not> ?P (r + 1)"
  proof
    assume "?P (r + 1)"
    then have "r + 1 \<le> r" unfolding r_def using Greatest_le_nat [of ?P "r + 1" a] b by (simp add: r_def)
    then show False by simp
  qed
  ultimately show ?thesis by (auto simp: not_le)
qed

lemma bit_length_le:
  assumes "n < 2 ^ k"
  shows "bit_length n \<le> k"
proof (cases "n = 0")
  case False
  then have "2 ^ (bit_length n - 1) \<le> n" using bit_length_bounds [of n] by simp
  from le_less_trans [OF this assms] have "bit_length n - 1 < k" by simp
  then show ?thesis by simp
qed simp

lemma bit_length_gt: "2 ^ k \<le> n \<Longrightarrow> k < bit_length n"
proof -
  assume a: "2 ^ k \<le> n"
  then have "0 < n" by (rule less_le_trans [rotated]) simp
  then have "2 ^ k < (2 :: nat) ^ bit_length n" using bit_length_bounds [of n] a by linarith
  then show ?thesis by simp
qed

lemma qroot_start:
  defines "x0 a \<equiv> push_bit (nat (fls64 a) div 4) (1 :: u32)"
  shows "unat (x0 a) = 2 ^ (bit_length (unat a) div 4)"
    and "unat (x0 a) \<le> 65536"
    and "unat a div unat (x0 a) ^ 3 \<le> 524288"
proof -
  let ?L = "bit_length (unat a)"
  have "unat a < 2 ^ 64" using unsigned_less [of a, where 'a = nat] by simp
  then have L: "?L \<le> 64" by (rule bit_length_le)
  then have p: "(2 :: nat) ^ (?L div 4) \<le> 2 ^ 16" by (intro power_increasing) auto
  have f: "nat (fls64 a) = ?L" by (simp add: fls64_eq_bit_length)
  show u: "unat (x0 a) = 2 ^ (?L div 4)"
    unfolding x0_def f using unat_shl_no_wrap [of 1 "?L div 4"] p by simp
  with p show "unat (x0 a) \<le> 65536" by simp
  have e: "unat (x0 a) ^ 3 = 2 ^ (3 * (?L div 4))"
    unfolding u by (simp add: power_mult [symmetric] mult.commute)
  have "?L \<le> 3 * (?L div 4) + 19"
  proof -
    have "?L mod 4 \<le> 3" by simp
    moreover have "4 * (?L div 4) + ?L mod 4 = ?L" by (rule mult_div_mod_eq)
    moreover have "?L div 4 \<le> 16" using L by simp
    ultimately show ?thesis using L by (cases "?L div 4 = 16") linarith+
  qed
  then have "(2 :: nat) ^ ?L \<le> 2 ^ 19 * 2 ^ (3 * (?L div 4))"
    unfolding power_add [symmetric] by (intro power_increasing) auto
  moreover have "unat a < 2 ^ ?L" using bit_length_bounds [of "unat a"] by (cases "unat a = 0") auto
  ultimately have "unat a < 2 ^ 19 * 2 ^ (3 * (?L div 4))" by linarith
  then have "unat a div 2 ^ (3 * (?L div 4)) < 2 ^ 19" by (rule less_mult_imp_div_less)
  then show "unat a div unat (x0 a) ^ 3 \<le> 524288" unfolding e by simp
qed

lemma qroot_large:
  assumes "81 \<le> unat a"
  shows "\<exists>x. qroot a = Some x \<and> (unat x - 1) ^ 4 \<le> unat a \<and> unat a < (unat x + 1) ^ 4"
proof -
  obtain r where r: "r ^ 4 \<le> unat a" "unat a < (r + 1) ^ 4" using quartic_floor by blast
  have r3: "3 \<le> r"
  proof (rule ccontr)
    assume "\<not> 3 \<le> r"
    then have "(r + 1) ^ 4 \<le> 3 ^ 4" by (intro power_mono) auto
    with r assms show False by simp
  qed
  have "unat a < 65536 ^ 4" using unsigned_less [of a, where 'a = nat] by simp
  with r(1) have "r ^ 4 < 65536 ^ 4" by (rule le_less_trans)
  then have r16: "r < 65536" by (rule power_less_imp_less_base) simp
  define x0 where "x0 = push_bit (nat (fls64 a) div 4) (1 :: u32)"
  note st = qroot_start [of a, folded x0_def]
  have p: "0 < unat x0" unfolding st(1) by simp
  have "unat x0 \<le> 262144" "unat a div unat x0 ^ 3 \<le> 1048576" using st(2,3) by simp_all
  from qroot_step_value [OF p this] obtain q x1 where
    x1: "qroot_step a x0 = Some x1" "qstep (unat a) (unat x0) q (unat x1)" "unat x1 < 2147483648"
    by blast
  have "\<exists>x. qroot_loop a x0 = Some x \<and> r \<le> unat x \<and> unat x \<le> r + 1"
  proof (cases "unat x1 \<le> unat x0 + 1 \<and> unat x0 \<le> unat x1 + 1")
    case True
    have "unat x0 < 2147483648" using st(2) by simp
    from qroot_loop_unfold [OF x1(1) this x1(3)] True
      qstep_stop [OF x1(2) r r3 p] show ?thesis by auto
  next
    case False
    have "q \<le> unat a div unat x0 ^ 3 + 2" using x1(2) by (simp add: qstep_def)
    then have "3 * unat x0 + q \<le> 720898" using st(2,3) by linarith
    then have "(3 * unat x0 + q) div 4 \<le> 720898 div 4" by (rule div_le_mono)
    then have le: "unat x1 \<le> 262144" using x1(2) by (simp add: qstep_def)
    have "r \<le> 262143" using r16 by simp
    from qroot_loop_above [OF r r3 this qstep_ge_root [OF x1(2) r(1) p] le]
    have "\<exists>x. qroot_loop a x1 = Some x \<and> r \<le> unat x \<and> unat x \<le> r + 1" .
    moreover have "unat x0 < 2147483648" using st(2) by simp
    ultimately show ?thesis using qroot_loop_unfold [OF x1(1) _ x1(3)] unfolding if_not_P [OF False] by simp
  qed
  then obtain x where x: "qroot a = Some x" "r \<le> unat x" "unat x \<le> r + 1"
    by (auto simp: qroot_def x0_def)
  have "(unat x - 1) ^ 4 \<le> r ^ 4" "(r + 1) ^ 4 \<le> (unat x + 1) ^ 4"
    using x(2,3) by (intro power_mono; simp)+
  with x(1) show ?thesis using order.trans [OF _ r(1)] less_le_trans [OF r(2)] by blast
qed

lemma qroot_bounds:
  "\<exists>x. qroot a = Some x \<and> (unat x - 1) ^ 4 \<le> unat a \<and> unat a < (unat x + 1) ^ 4"
proof -
  have f: "nat (fls64 a) = bit_length (unat a)" by (simp add: fls64_eq_bit_length)
  consider "unat a < 8" | "8 \<le> unat a" "unat a < 81" | "81 \<le> unat a" by linarith
  then show ?thesis
  proof cases
    case 1
    then have "bit_length (unat a) \<le> 3" by (intro bit_length_le) simp
    then have "nat (fls64 a) div 4 = 0" by (simp add: f)
    then have "qroot a = qroot_loop a 1" by (simp add: qroot_def)
    with qroot_small_1 [OF 1] show ?thesis by simp
  next
    case 2
    then have "bit_length (unat a) \<le> 7" "3 < bit_length (unat a)"
      by (intro bit_length_le bit_length_gt; simp)+
    then have "nat (fls64 a) div 4 = 1" by (simp add: f)
    then have "qroot a = qroot_loop a 2" by (simp add: qroot_def)
    with qroot_small_2 [OF 2] show ?thesis by simp
  next
    case 3
    then show ?thesis by (rule qroot_large)
  qed
qed

lemma compound_dwnd_Some:
  assumes "unat w \<le> 2642245"
  shows "\<exists>d x. compound_dwnd w diff = Some d \<and> unat d = unat x div 8 - 1
    \<and> qroot (ucast w * ucast w * ucast w) = Some x
    \<and> (unat x - 1) ^ 4 \<le> unat w ^ 3 \<and> unat w ^ 3 < (unat x + 1) ^ 4"
proof -
  have m: "unat (u * v) = unat u * unat v" if "unat u * unat v < 2 ^ 64" for u v :: u64
    using that unat_mult_lem [of u v] by simp
  have "unat w * unat w \<le> 2642245 * 2642245" using assms by (intro mult_le_mono)
  then have w2: "unat (ucast w * ucast w :: u64) = unat w * unat w" "unat w * unat w \<le> 6981458640025"
    by (simp_all add: m)
  have "unat w * unat w * unat w \<le> 6981458640025 * 2642245" using w2(2) assms by (intro mult_le_mono)
  then have w3: "unat (ucast w * ucast w * ucast w :: u64) = unat w ^ 3"
    by (subst m) (simp_all add: w2(1) power3_eq_cube)
  from qroot_bounds [of "ucast w * ucast w * ucast w"] obtain x where
    x: "qroot (ucast w * ucast w * ucast w) = Some x"
      "(unat x - 1) ^ 4 \<le> unat w ^ 3" "unat w ^ 3 < (unat x + 1) ^ 4"
    unfolding w3 by blast
  define y where "y = drop_bit TCP_COMPOUND_ALPHA x"
  have y: "unat y = unat x div 8" by (simp add: y_def unat_shr)
  have "unat (if 1 < y then y - 1 else 0) = unat y - 1"
    by (auto simp: unat_minus_le word_le_nat_alt word_less_nat_alt)
  then have "compound_dwnd w diff = Some (if 1 < y then y - 1 else 0)
      \<and> unat (if 1 < y then y - 1 else 0) = unat x div 8 - 1"
    using x(1) y by (simp add: compound_dwnd_def y_def)
  with x show ?thesis by blast
qed

text \<open>No call of \<open>cong_avoid\<close> traps, from any state.\<close>

lemma compound_delay_Some: "rtt \<noteq> 0 \<Longrightarrow> \<exists>d. compound_delay w brtt rtt dwnd = Some d"
  using qroot_bounds [of "ucast w * ucast w * ucast w"]
  by (auto simp: compound_delay_def compound_dwnd_def Let_def)

lemma compound_round_Some: "\<exists>e sk'. compound_round ack sk = Some (e, sk')"
proof -
  let ?ca = "icsk_ca_priv sk"
  show ?thesis
  proof (cases "cv_minRTT ?ca = 0")
    case False
    from compound_delay_Some [OF this, of "(cv_beg_snd_nxt ?ca - cv_beg_snd_una ?ca) div mss_cache sk"
        "cv_baseRTT ?ca" "cv_dwnd ?ca"] obtain d where
      "compound_delay ((cv_beg_snd_nxt ?ca - cv_beg_snd_una ?ca) div mss_cache sk)
         (cv_baseRTT ?ca) (cv_minRTT ?ca) (cv_dwnd ?ca) = Some d" by blast
    then show ?thesis by (auto simp: compound_round_def Let_def)
  qed (auto simp: compound_round_def Let_def)
qed

section \<open>The two parts of the window\<close>

lemma compound_sync_sum:
  "\<not> snd_cwnd sk < cv_cwnd (icsk_ca_priv (compound_sync sk)) + cv_dwnd (icsk_ca_priv (compound_sync sk))"
  by (auto simp: compound_sync_def Let_def not_less)

text \<open>
  After a cut to 4 segments, at a clamp of 4, the Reno part is set to zero; when the round trip
  time then calls for less delay-based window, the sum written to the window is zero.
\<close>

definition compound_cut :: "compound tcp_sock" where
  "compound_cut = \<lparr> sk_state = 0, snd_nxt = 90000, snd_una = 50000, mss_cache = 1000, srtt = 80,
     rx_opt = \<lparr>rcv_tsval = 0, rcv_tsecr = 0, saw_tstamp = False\<rparr>, snd_ssthresh = 4,
     snd_cwnd = 4, snd_cwnd_cnt = 0, snd_cwnd_clamp = 4, snd_cwnd_stamp = 0,
     bytes_acked = 1000, icsk_ca_ops = 0, icsk_ca_state = TCP_CA_Open,
     icsk_ca_priv = \<lparr> cv_beg_snd_nxt = 50000, cv_beg_snd_una = 10000, cv_beg_snd_cwnd = 4,
       cv_doing_vegas_now = 1, cv_cntRTT = 5, cv_minRTT = 40000, cv_baseRTT = 10000,
       cv_cwnd = 2, cv_dwnd = 4 \<rparr> \<rparr>"

lemma compound_window_zero:
  "map_option snd_cwnd (tcp_compound_cong_avoid 51000 40 4 0 kernel_init compound_cut) = Some 0"
  by (simp add: compound_cut_def tcp_compound_cong_avoid_def compound_sync_def compound_inc_def
      compound_round_def compound_delay_def tcp_is_cwnd_limited_def after_def Let_def)

section \<open>Properties\<close>

text \<open>
  C33: the quartic root of Compound returns for every 64-bit argument (its Newton iteration ends,
  and never divides by zero), and its result is the integer root or one above it: one less is
  below the root, one more is above.
\<close>

theorem qroot_accurate:
  "\<exists>x. qroot a = Some x \<and> (unat x - 1) ^ 4 \<le> unat a \<and> unat a < (unat x + 1) ^ 4"
  by (rule qroot_bounds)

text \<open>
  C32: \<open>cong_avoid\<close> of Compound never traps, from any state and on any acknowledgment, and either
  leaves the window alone or makes it the sum of its two parts.
\<close>

theorem compound_cong_avoid_total:
  "\<exists>sk'. tcp_compound_cong_avoid ack rtt infl flag k sk = Some sk'
    \<and> (snd_cwnd sk' = snd_cwnd sk
       \<or> snd_cwnd sk' = cv_cwnd (icsk_ca_priv sk') + cv_dwnd (icsk_ca_priv sk'))"
proof -
  let ?s = "compound_sync sk"
  obtain e s1 where r: "compound_round ack (compound_inc ?s) = Some (e, s1)"
    using compound_round_Some by blast
  have "snd_cwnd (compound_inc ?s) = snd_cwnd sk"
    by (simp add: compound_inc_def compound_sync_def Let_def)
  moreover have "snd_cwnd s1 = snd_cwnd (compound_inc ?s)"
    using r by (auto simp: compound_round_def Let_def split: if_splits bind_splits)
  moreover have "snd_cwnd ?s = snd_cwnd sk" by (simp add: compound_sync_def Let_def)
  ultimately show ?thesis using r by (auto simp: tcp_compound_cong_avoid_def Let_def)
qed

text \<open>
  the delay-based window while fewer than 30 segments are queued: with \<open>w\<close> the window of the
  last round trip, it grows by an eighth of the quartic root of \<open>w\<^sup>3\<close>, less one, for every
  window whose cube fits in 64 bits.
\<close>

theorem compound_delay_growth:
  assumes "rtt \<noteq> 0" and "unat w \<le> 2642245"
    and "push_bit 1 w - push_bit 1 (w * brtt) div rtt < 60"
  shows "\<exists>x d. compound_delay w brtt rtt dwnd = Some (d + dwnd) \<and> unat d = unat x div 8 - 1
    \<and> (unat (x :: u32) - 1) ^ 4 \<le> unat w ^ 3 \<and> unat w ^ 3 < (unat x + 1) ^ 4"
proof -
  have "push_bit 1 w - push_bit 1 (w * brtt) div rtt < push_bit 1 30" using assms(3) by simp
  then show ?thesis
    using compound_dwnd_Some [OF assms(2), of "push_bit 1 w - push_bit 1 (w * brtt) div rtt"] assms(1)
    by (auto simp: compound_delay_def Let_def)
qed

theorem compound_delay_growth_witness:
  "\<exists>x d. compound_delay 1000 40000 40100 7 = Some (d + 7) \<and> unat d = unat x div 8 - 1
    \<and> (unat (x :: u32) - 1) ^ 4 \<le> 1000 ^ 3 \<and> 1000 ^ 3 < (unat x + 1) ^ 4"
  using compound_delay_growth [of 40100 1000 40000 7] by simp

end
