(* ===== verification/Params.thy ===== *)
theory Params
  imports Tcp_Sock "HOL-Library.Multiset"
begin

text \<open>
  Module parameters. A file of an algorithm declares its tunable C variables with \<open>module_param\<close>
  and \<open>MODULE_PARM_DESC\<close>, whose constructors record them in a list per file
  (src/ns-2.34/tcp/linux/ns-linux-c.c, ns-linux-c.h); the agent finds them by name, changes the
  global value or keeps a value of its own, and swaps its own values into the variables while it
  runs the algorithm (\<open>LinuxParamManager\<close>, \<open>ParamList\<close> of src/ns-2.34/tcp/tcp-linux.cc).

  The variables live in a memory of bytes, since the code accesses every parameter as a 4-byte
  \<open>int\<close> (little-endian) whatever its declared type. A list is the linked list of the code, newest
  entry first; allocation always succeeds. The first half gives the record of parameters the
  meaning of a map, the second shows that swapping is invisible outside.
\<close>

section \<open>Memory\<close>

type_synonym mem = "addr \<Rightarrow> u8"

definition load_int :: "mem \<Rightarrow> addr \<Rightarrow> s32" where
  "load_int m a = ucast (m a) OR push_bit 8 (ucast (m (a + 1)))
     OR push_bit 16 (ucast (m (a + 2))) OR push_bit 24 (ucast (m (a + 3)))"

definition store_int :: "mem \<Rightarrow> addr \<Rightarrow> s32 \<Rightarrow> mem" where
  "store_int m a v = m(a := ucast v, a + 1 := ucast (drop_bit 8 v), a + 2 := ucast (drop_bit 16 v),
     a + 3 := ucast (drop_bit 24 v))"

text \<open>The four bytes at \<open>a\<close> and at \<open>b\<close> do not overlap.\<close>

definition apart :: "addr \<Rightarrow> addr \<Rightarrow> bool" where
  "apart a b \<longleftrightarrow> a + 4 \<le> b \<or> b + 4 \<le> a"

lemma load_store [simp]: "load_int (store_int m a v) a = v"
proof (rule bit_word_eqI)
  fix n assume "n < LENGTH(32)"
  then have "n < 32" by simp
  then consider "n < 8" | "8 \<le> n" "n < 16" | "16 \<le> n" "n < 24" | "24 \<le> n" "n < 32" by linarith
  then show "bit (load_int (store_int m a v) a) n \<longleftrightarrow> bit v n"
    by cases (auto simp: load_int_def store_int_def bit_simps)
qed

lemma store_load [simp]: "store_int m a (load_int m a) = m"
proof -
  have "ucast (load_int m a) = m a" "ucast (drop_bit 8 (load_int m a)) = m (a + 1)"
    "ucast (drop_bit 16 (load_int m a)) = m (a + 2)" "ucast (drop_bit 24 (load_int m a)) = m (a + 3)"
    by (rule bit_word_eqI; auto simp: load_int_def bit_simps dest: bit_imp_le_length)+
  then show ?thesis by (auto simp: store_int_def)
qed

lemma store_other: "b < a \<or> a + 4 \<le> b \<Longrightarrow> store_int m a v b = m b"
  by (auto simp: store_int_def)

lemma load_store_apart: "apart a b \<Longrightarrow> load_int (store_int m a v) b = load_int m b"
  by (auto simp: load_int_def apart_def store_other)

lemma store_store [simp]: "store_int (store_int m a v) a w = store_int m a w"
  by (simp add: store_int_def fun_eq_iff)

lemma store_comm: "apart a b \<Longrightarrow> store_int (store_int m a v) b w = store_int (store_int m b w) a v"
  by (auto simp: store_int_def apart_def fun_eq_iff)

section \<open>The list of parameters of each file\<close>

record cc_param =
  cp_name :: string
  cp_type :: "string option"
  cp_desc :: "string option"
  cp_ptr :: addr

type_synonym cc_list = "(string \<times> cc_param list) list"

text \<open>Writing through the pointer that a search returned: the first match.\<close>

fun upd_first :: "('a \<Rightarrow> bool) \<Rightarrow> ('a \<Rightarrow> 'a) \<Rightarrow> 'a list \<Rightarrow> 'a list" where
  "upd_first P f [] = []"
| "upd_first P f (x # xs) = (if P x then f x # xs else x # upd_first P f xs)"

definition new_param :: "string \<Rightarrow> cc_param" where
  "new_param name = \<lparr> cp_name = name, cp_type = None, cp_desc = None, cp_ptr = 0 \<rparr>"

text \<open>Both searches insert an empty entry at the front when they find none.\<close>

definition find_cc_by_proto :: "string \<Rightarrow> cc_list \<Rightarrow> cc_list" where
  "find_cc_by_proto proto cl = (if \<exists>e \<in> set cl. fst e = proto then cl else (proto, []) # cl)"

definition find_param_by_proto_name :: "string \<Rightarrow> string \<Rightarrow> cc_list \<Rightarrow> cc_list" where
  "find_param_by_proto_name proto name cl =
     upd_first (\<lambda>e. fst e = proto)
       (map_prod id (\<lambda>qs. if \<exists>q \<in> set qs. cp_name q = name then qs else new_param name # qs))
       (find_cc_by_proto proto cl)"

definition write_param :: "string \<Rightarrow> string \<Rightarrow> (cc_param \<Rightarrow> cc_param) \<Rightarrow> cc_list \<Rightarrow> cc_list" where
  "write_param proto name f =
     upd_first (\<lambda>e. fst e = proto) (map_prod id (upd_first (\<lambda>q. cp_name q = name) f))"

definition record_linux_param :: "string \<Rightarrow> string \<Rightarrow> string \<Rightarrow> addr \<Rightarrow> cc_list \<Rightarrow> cc_list" where
  "record_linux_param proto name type ptr cl =
     write_param proto name (\<lambda>q. q\<lparr>cp_type := Some type, cp_ptr := ptr\<rparr>)
       (find_param_by_proto_name proto name cl)"

definition record_linux_param_description :: "string \<Rightarrow> string \<Rightarrow> string \<Rightarrow> cc_list \<Rightarrow> cc_list" where
  "record_linux_param_description proto name exp cl =
     write_param proto name (\<lambda>q. q\<lparr>cp_desc := Some exp\<rparr>) (find_param_by_proto_name proto name cl)"

text \<open>The constructors that \<open>module_param\<close> and \<open>MODULE_PARM_DESC\<close> expand to.\<close>

datatype param_ctor =
  Module_param string string string addr
| Module_parm_desc string string string

fun run_ctor :: "param_ctor \<Rightarrow> cc_list \<Rightarrow> cc_list" where
  "run_ctor (Module_param proto name type ptr) = record_linux_param proto name type ptr"
| "run_ctor (Module_parm_desc proto name exp) = record_linux_param_description proto name exp"

section \<open>The list of parameters as a map\<close>

definition lookup :: "cc_list \<Rightarrow> string \<times> string \<Rightarrow> cc_param option" where
  "lookup cl k = (case map_of cl (fst k) of None \<Rightarrow> None | Some qs \<Rightarrow> find (\<lambda>q. cp_name q = snd k) qs)"

fun ctor_key :: "param_ctor \<Rightarrow> string \<times> string" where
  "ctor_key (Module_param proto name type ptr) = (proto, name)"
| "ctor_key (Module_parm_desc proto name exp) = (proto, name)"

fun is_param :: "param_ctor \<Rightarrow> bool" where
  "is_param (Module_param proto name type ptr) = True"
| "is_param (Module_parm_desc proto name exp) = False"

fun ctor_upd :: "param_ctor \<Rightarrow> cc_param \<Rightarrow> cc_param" where
  "ctor_upd (Module_param proto name type ptr) q = q\<lparr>cp_type := Some type, cp_ptr := ptr\<rparr>"
| "ctor_upd (Module_parm_desc proto name exp) q = q\<lparr>cp_desc := Some exp\<rparr>"

definition map_ctor ::
  "param_ctor \<Rightarrow> (string \<times> string \<Rightarrow> cc_param option) \<Rightarrow> string \<times> string \<Rightarrow> cc_param option" where
  "map_ctor c M = (let k = ctor_key c in
     M(k \<mapsto> ctor_upd c (case M k of None \<Rightarrow> new_param (snd k) | Some q \<Rightarrow> q)))"

lemma map_of_upd_first:
  "map_of (upd_first (\<lambda>e. fst e = k) (map_prod id f) cl) j
     = (if j = k then map_option f (map_of cl k) else map_of cl j)"
  by (induction cl) auto

lemma map_of_find_cc:
  "map_of (find_cc_by_proto proto cl) j
     = (if j = proto then Some (case map_of cl proto of None \<Rightarrow> [] | Some qs \<Rightarrow> qs) else map_of cl j)"
  by (auto simp: find_cc_by_proto_def map_of_eq_None_iff split: option.splits)
    (metis fst_conv image_eqI map_of_SomeD)+

lemma find_upd_first:
  assumes "\<And>q. cp_name (f q) = cp_name q"
  shows "find (\<lambda>q. cp_name q = j) (upd_first (\<lambda>q. cp_name q = n) f qs)
    = (if j = n then map_option f (find (\<lambda>q. cp_name q = n) qs) else find (\<lambda>q. cp_name q = j) qs)"
  using assms by (induction qs) auto

lemma find_new_param:
  "find (\<lambda>q. cp_name q = j)
      (if \<exists>q \<in> set qs. cp_name q = n then qs else new_param n # qs)
    = (if j = n then Some (case find (\<lambda>q. cp_name q = n) qs of None \<Rightarrow> new_param n | Some q \<Rightarrow> q)
       else find (\<lambda>q. cp_name q = j) qs)"
proof (cases "\<exists>q \<in> set qs. cp_name q = n")
  case True
  then have "find (\<lambda>q. cp_name q = n) qs \<noteq> None" by (auto simp: find_None_iff)
  with True show ?thesis by auto
next
  case False
  then have "find (\<lambda>q. cp_name q = n) qs = None" by (auto simp: find_None_iff)
  with False show ?thesis by (simp add: new_param_def)
qed

lemma lookup_write:
  assumes "\<And>q. cp_name (f q) = cp_name q"
  shows "lookup (write_param p n f (find_param_by_proto_name p n cl))
    = (lookup cl)((p, n) \<mapsto> f (case lookup cl (p, n) of None \<Rightarrow> new_param n | Some q \<Rightarrow> q))"
proof
  fix k :: "string \<times> string"
  obtain p' n' where k: "k = (p', n')" by (cases k)
  show "lookup (write_param p n f (find_param_by_proto_name p n cl)) k
    = ((lookup cl)((p, n) \<mapsto> f (case lookup cl (p, n) of None \<Rightarrow> new_param n | Some q \<Rightarrow> q))) k"
  proof (cases "p' = p")
    case True
    have "lookup (write_param p n f (find_param_by_proto_name p n cl)) (p, j)
      = (let qs = (case map_of cl p of None \<Rightarrow> [] | Some qs \<Rightarrow> qs) in
         find (\<lambda>q. cp_name q = j) (upd_first (\<lambda>q. cp_name q = n) f
           (if \<exists>q \<in> set qs. cp_name q = n then qs else new_param n # qs)))" for j
      by (simp add: lookup_def write_param_def find_param_by_proto_name_def map_of_upd_first
          map_of_find_cc Let_def)
    then show ?thesis unfolding k True find_upd_first [OF assms] find_new_param Let_def
      by (simp add: lookup_def split: option.split)
  next
    case False
    then show ?thesis unfolding k
      by (simp add: lookup_def write_param_def find_param_by_proto_name_def map_of_upd_first
          map_of_find_cc)
  qed
qed

lemma lookup_ctor: "lookup (run_ctor c cl) = map_ctor c (lookup cl)"
  by (cases c) (simp_all add: record_linux_param_def record_linux_param_description_def
      lookup_write map_ctor_def Let_def cong: option.case_cong)

lemma lookup_ctors: "lookup (fold run_ctor cs cl) = fold map_ctor cs (lookup cl)"
  by (induction cs arbitrary: cl) (simp_all add: lookup_ctor)

text \<open>What the entry of a parameter shows of a constructor that ran.\<close>

fun ctor_shown :: "param_ctor \<Rightarrow> cc_param \<Rightarrow> bool" where
  "ctor_shown (Module_param proto name type ptr) q
     \<longleftrightarrow> cp_name q = name \<and> cp_type q = Some type \<and> cp_ptr q = ptr"
| "ctor_shown (Module_parm_desc proto name exp) q \<longleftrightarrow> cp_name q = name \<and> cp_desc q = Some exp"

text \<open>No parameter is declared twice and none described twice.\<close>

definition ctors_distinct :: "param_ctor list \<Rightarrow> bool" where
  "ctors_distinct cs \<longleftrightarrow> distinct (map (\<lambda>c. (is_param c, ctor_key c)) cs)"

lemma ctor_shown_self: "cp_name q = snd (ctor_key c) \<Longrightarrow> ctor_shown c (ctor_upd c q)"
  by (cases c) auto

lemma ctor_shown_other: "is_param c \<noteq> is_param d \<Longrightarrow> ctor_shown c (ctor_upd d q) = ctor_shown c q"
  by (cases c; cases d) auto

lemma ctor_shown_name: "ctor_shown c q \<Longrightarrow> cp_name q = snd (ctor_key c)"
  by (cases c) auto

lemma cp_name_ctor_upd [simp]: "cp_name (ctor_upd c q) = cp_name q"
  by (cases c) auto

lemma ctor_upd_comm: "is_param c \<noteq> is_param d \<Longrightarrow> ctor_upd c (ctor_upd d q) = ctor_upd d (ctor_upd c q)"
  by (cases c; cases d) auto

lemma map_ctor_names:
  assumes "\<And>k q. M k = Some q \<Longrightarrow> cp_name q = snd k" and "map_ctor c M k = Some q"
  shows "cp_name q = snd k"
proof (cases "k = ctor_key c")
  case True
  then show ?thesis
    using assms(1) [of k] assms(2) by (cases "M k") (auto simp: map_ctor_def Let_def new_param_def)
next
  case False
  with assms show ?thesis by (simp add: map_ctor_def Let_def)
qed

lemma map_ctors_names: "fold map_ctor cs Map.empty k = Some q \<Longrightarrow> cp_name q = snd k"
proof (induction cs arbitrary: k q rule: rev_induct)
  case (snoc c cs)
  have "map_ctor c (fold map_ctor cs Map.empty) k = Some q" using snoc.prems by simp
  with map_ctor_names [OF snoc.IH] show ?case by blast
qed simp

lemma ctors_shown:
  assumes "ctors_distinct cs" and "c \<in> set cs"
  shows "\<exists>q. fold map_ctor cs Map.empty (ctor_key c) = Some q \<and> ctor_shown c q"
  using assms
proof (induction cs rule: rev_induct)
  case (snoc d cs)
  let ?M = "fold map_ctor cs Map.empty"
  have f: "fold map_ctor (cs @ [d]) Map.empty = map_ctor d ?M" by simp
  show ?case
  proof (cases "c = d")
    case True
    have "cp_name (case ?M (ctor_key d) of None \<Rightarrow> new_param (snd (ctor_key d)) | Some q \<Rightarrow> q)
        = snd (ctor_key d)"
      using map_ctors_names [of cs "ctor_key d"] by (simp add: new_param_def split: option.split)
    then show ?thesis unfolding f True by (simp add: map_ctor_def Let_def ctor_shown_self)
  next
    case False
    with snoc.prems have c: "c \<in> set cs" "ctors_distinct cs" by (auto simp: ctors_distinct_def)
    from snoc.IH [OF c(2,1)] obtain q where q: "?M (ctor_key c) = Some q" "ctor_shown c q" by blast
    have "is_param c \<noteq> is_param d" if "ctor_key c = ctor_key d"
      using snoc.prems(1) c(1) that by (force simp: ctors_distinct_def)
    with q show ?thesis unfolding f by (auto simp: map_ctor_def Let_def ctor_shown_other)
  qed
qed simp

lemma map_ctor_comm:
  assumes "(is_param c, ctor_key c) \<noteq> (is_param d, ctor_key d) \<or> c = d"
  shows "map_ctor c \<circ> map_ctor d = map_ctor d \<circ> map_ctor c"
proof (cases "ctor_key c = ctor_key d")
  case True
  with assms consider "is_param c \<noteq> is_param d" | "c = d" by auto
  then show ?thesis
    using True by cases (auto simp: map_ctor_def fun_eq_iff Let_def ctor_upd_comm split: option.splits)
next
  case False
  then show ?thesis by (auto simp: map_ctor_def fun_eq_iff Let_def)
qed

lemma ctors_any_order:
  assumes "ctors_distinct cs" and "mset cs' = mset cs"
  shows "fold map_ctor cs' M = fold map_ctor cs M"
proof -
  have "map_ctor x \<circ> map_ctor y = map_ctor y \<circ> map_ctor x" if "x \<in> set cs'" "y \<in> set cs'" for x y
  proof (rule map_ctor_comm)
    have "x \<in> set cs" "y \<in> set cs" using that assms(2) mset_eq_setD by blast+
    then show "(is_param x, ctor_key x) \<noteq> (is_param y, ctor_key y) \<or> x = y"
      using assms(1) by (auto simp: ctors_distinct_def distinct_map inj_on_def)
  qed
  then have "fold map_ctor cs' = fold map_ctor cs"
    using assms(2) by (intro fold_multiset_equiv) auto
  then show ?thesis by simp
qed

lemma lookup_nil: "lookup [] = Map.empty"
  by (simp add: lookup_def fun_eq_iff)

text \<open>
  C35: the constructors of the modules run in an order that the linker chooses. If no parameter
  is declared twice and none described twice, every order records the same parameters, and the
  entry of each shows its declaration and its description.
\<close>

theorem constructors_any_order:
  assumes "ctors_distinct cs" and "mset cs' = mset cs"
  shows "lookup (fold run_ctor cs' []) = lookup (fold run_ctor cs [])
    \<and> (\<forall>c \<in> set cs. \<exists>q. lookup (fold run_ctor cs' []) (ctor_key c) = Some q \<and> ctor_shown c q)"
  using ctors_any_order [OF assms] ctors_shown [OF assms(1)] by (simp add: lookup_ctors lookup_nil)

end
