(* ===== verification/Param_Manager.thy ===== *)
theory Param_Manager
  imports Params
begin

text \<open>
  The parameters of an agent: \<open>LinuxParamManager\<close> finds a parameter by the name of the algorithm
  and of the variable, \<open>ParamList\<close> keeps the values that are local to the agent and swaps them
  with the variables (src/ns-2.34/tcp/tcp-linux.cc, tcp-linux.h).
\<close>

section \<open>Local values\<close>

record param_node =
  pn_addr :: addr
  pn_value :: s32
  pn_default :: s32

fun pl_get_param :: "addr \<Rightarrow> param_node list \<Rightarrow> s32 option" where
  "pl_get_param a [] = None"
| "pl_get_param a (p # ps) = (if pn_addr p = a then Some (pn_value p) else pl_get_param a ps)"

definition pl_set_param :: "mem \<Rightarrow> addr \<Rightarrow> s32 \<Rightarrow> param_node list \<Rightarrow> param_node list" where
  "pl_set_param m a v ps =
    (if \<exists>p \<in> set ps. pn_addr p = a then upd_first (\<lambda>p. pn_addr p = a) (\<lambda>p. p\<lparr>pn_value := v\<rparr>) ps
     else \<lparr> pn_addr = a, pn_value = v, pn_default = load_int m a \<rparr> # ps)"

fun pl_refresh_default :: "mem \<Rightarrow> param_node list \<Rightarrow> param_node list" where
  "pl_refresh_default m [] = []"
| "pl_refresh_default m (p # ps) = p\<lparr>pn_default := load_int m (pn_addr p)\<rparr> # pl_refresh_default m ps"

fun pl_restore_default :: "param_node list \<Rightarrow> mem \<Rightarrow> param_node list \<times> mem" where
  "pl_restore_default [] m = ([], m)"
| "pl_restore_default (p # ps) m =
    (let p = p\<lparr>pn_value := load_int m (pn_addr p)\<rparr>;
         m = store_int m (pn_addr p) (pn_default p);
         (ps, m) = pl_restore_default ps m
     in (p # ps, m))"

fun pl_load_local :: "param_node list \<Rightarrow> mem \<Rightarrow> param_node list \<times> mem" where
  "pl_load_local [] m = ([], m)"
| "pl_load_local (p # ps) m =
    (let p = p\<lparr>pn_default := load_int m (pn_addr p)\<rparr>;
         m = store_int m (pn_addr p) (pn_value p);
         (ps, m) = pl_load_local ps m
     in (p # ps, m))"

section \<open>Finding a parameter\<close>

text \<open>
  The file name is written to a buffer of 100 characters. Only parameters of the type \<open>int\<close>
  count; comparing the type of an entry that was described but never declared dereferences
  NULL. The inner \<open>None\<close> is the NULL that the search returns.
\<close>

definition mgr_file :: "string \<Rightarrow> string" where
  "mgr_file proto = take 99 (''tcp_'' @ proto @ ''.c'')"

definition mgr_find_cc_by_proto :: "string \<Rightarrow> cc_list \<Rightarrow> cc_param list option" where
  "mgr_find_cc_by_proto proto cl = map_of cl (mgr_file proto)"

fun mgr_find_int :: "string \<Rightarrow> cc_param list \<Rightarrow> cc_param option option" where
  "mgr_find_int name [] = Some None"
| "mgr_find_int name (q # qs) =
    (if cp_name q \<noteq> name then mgr_find_int name qs
     else case cp_type q of
       None \<Rightarrow> None
     | Some t \<Rightarrow> if t \<noteq> ''int'' then mgr_find_int name qs else Some (Some q))"

definition mgr_find_param :: "string \<Rightarrow> string \<Rightarrow> cc_list \<Rightarrow> cc_param option option" where
  "mgr_find_param proto name cl =
    (case mgr_find_cc_by_proto proto cl of None \<Rightarrow> Some None | Some qs \<Rightarrow> mgr_find_int name qs)"

text \<open>The operations return whether the parameter exists; dereferencing NULL traps.\<close>

definition set_default_param ::
  "cc_list \<Rightarrow> string \<Rightarrow> string \<Rightarrow> s32 \<Rightarrow> mem \<Rightarrow> (bool \<times> mem) option" where
  "set_default_param cl proto param v m = do {
     p \<leftarrow> mgr_find_param proto param cl;
     case p of
       None \<Rightarrow> Some (False, m)
     | Some p \<Rightarrow> if cp_ptr p = 0 then None else Some (True, store_int m (cp_ptr p) v)
   }"

definition set_param ::
  "cc_list \<Rightarrow> string \<Rightarrow> string \<Rightarrow> s32 \<Rightarrow> mem \<Rightarrow> param_node list \<Rightarrow> (bool \<times> param_node list) option" where
  "set_param cl proto param v m ps = do {
     p \<leftarrow> mgr_find_param proto param cl;
     case p of
       None \<Rightarrow> Some (False, ps)
     | Some p \<Rightarrow>
         if cp_ptr p = 0 \<and> (\<forall>n \<in> set ps. pn_addr n \<noteq> 0) then None
         else Some (True, pl_set_param m (cp_ptr p) v ps)
   }"

definition get_default_param ::
  "cc_list \<Rightarrow> string \<Rightarrow> string \<Rightarrow> mem \<Rightarrow> s32 option option" where
  "get_default_param cl proto param m = do {
     p \<leftarrow> mgr_find_param proto param cl;
     case p of
       None \<Rightarrow> Some None
     | Some p \<Rightarrow> if cp_ptr p = 0 then None else Some (Some (load_int m (cp_ptr p)))
   }"

definition get_param ::
  "cc_list \<Rightarrow> string \<Rightarrow> string \<Rightarrow> mem \<Rightarrow> param_node list \<Rightarrow> s32 option option" where
  "get_param cl proto param m ps = do {
     p \<leftarrow> mgr_find_param proto param cl;
     case p of
       None \<Rightarrow> Some None
     | Some p \<Rightarrow>
         (case pl_get_param (cp_ptr p) ps of
            Some v \<Rightarrow> Some (Some v)
          | None \<Rightarrow> if cp_ptr p = 0 then None else Some (Some (load_int m (cp_ptr p))))
   }"

section \<open>Swapping\<close>

text \<open>The variables of the list do not overlap.\<close>

definition pl_ok :: "param_node list \<Rightarrow> bool" where
  "pl_ok ps \<longleftrightarrow> sorted_wrt apart (map pn_addr ps)"

lemma pl_ok_Cons: "pl_ok (p # ps) \<longleftrightarrow> (\<forall>n \<in> set ps. apart (pn_addr p) (pn_addr n)) \<and> pl_ok ps"
  by (auto simp: pl_ok_def)

text \<open>What writing one value after the other leaves in memory.\<close>

fun store_all :: "(addr \<times> s32) list \<Rightarrow> mem \<Rightarrow> mem" where
  "store_all [] m = m"
| "store_all ((a, v) # avs) m = store_all avs (store_int m a v)"

lemma store_all_other:
  "\<forall>x \<in> set avs. b < fst x \<or> fst x + 4 \<le> b \<Longrightarrow> store_all avs m b = m b"
  by (induction avs arbitrary: m) (auto simp: store_other)

lemma apart_sym: "apart a b \<longleftrightarrow> apart b a"
  by (auto simp: apart_def)

lemma load_store_all_apart:
  "\<forall>x \<in> set avs. apart b (fst x) \<Longrightarrow> load_int (store_all avs m) b = load_int m b"
  by (induction avs arbitrary: m) (auto simp: load_store_apart apart_sym [of b])

lemma load_store_all:
  "sorted_wrt apart (map fst avs) \<Longrightarrow> (b, w) \<in> set avs \<Longrightarrow> load_int (store_all avs m) b = w"
proof (induction avs arbitrary: m)
  case (Cons av avs)
  obtain a v where av: "av = (a, v)" by (cases av)
  show ?case
  proof (cases "(b, w) \<in> set avs")
    case True
    then show ?thesis using Cons.IH Cons.prems(1) by (simp add: av)
  next
    case False
    then have bw: "b = a" "w = v" using Cons.prems(2) by (simp_all add: av)
    have "\<forall>x \<in> set avs. apart a (fst x)" using Cons.prems(1) by (simp add: av)
    then show ?thesis unfolding bw av by (simp add: load_store_all_apart)
  qed
qed simp

lemma pl_load_local_eq:
  assumes "pl_ok ps"
  shows "pl_load_local ps m = (map (\<lambda>p. p\<lparr>pn_default := load_int m (pn_addr p)\<rparr>) ps,
    store_all (map (\<lambda>p. (pn_addr p, pn_value p)) ps) m)"
  using assms
proof (induction ps arbitrary: m)
  case (Cons p ps)
  then have "load_int (store_int m (pn_addr p) v) (pn_addr n) = load_int m (pn_addr n)"
    if "n \<in> set ps" for n v using that by (simp add: pl_ok_Cons load_store_apart)
  with Cons show ?case by (simp add: pl_ok_Cons Let_def)
qed simp

lemma pl_restore_default_eq:
  assumes "pl_ok ps"
  shows "pl_restore_default ps m = (map (\<lambda>p. p\<lparr>pn_value := load_int m (pn_addr p)\<rparr>) ps,
    store_all (map (\<lambda>p. (pn_addr p, pn_default p)) ps) m)"
  using assms
proof (induction ps arbitrary: m)
  case (Cons p ps)
  then have "load_int (store_int m (pn_addr p) v) (pn_addr n) = load_int m (pn_addr n)"
    if "n \<in> set ps" for n v using that by (simp add: pl_ok_Cons load_store_apart)
  with Cons show ?case by (simp add: pl_ok_Cons Let_def)
qed simp

text \<open>A byte that belongs to no variable of the list.\<close>

definition outside :: "param_node list \<Rightarrow> addr \<Rightarrow> bool" where
  "outside ps b \<longleftrightarrow> (\<forall>p \<in> set ps. b < pn_addr p \<or> pn_addr p + 4 \<le> b)"

text \<open>
  C30: Swapping is transparent for an agent whose variables lie at least four bytes apart (\<open>pl_ok\<close>), because \<open>ParamList\<close> reads and
  writes each of them as an \<open>int\<close>, whatever its type. While the agent runs the
  algorithm the variables hold its own values; afterwards, whatever the algorithm did to memory
  in between, they hold the global values again, what the algorithm wrote to them is kept as the
  agent's own values, and no other byte is touched, neither before nor after. The variables of type \<open>int\<close> are four bytes
  apart. The ones of type \<open>unsigned char\<close>, such as \<open>sysctl_tcp_abc\<close> and \<open>tcp_max_burst\<close>, may be next to each other; they are
  not covered when they are, and \<open>char_param_clears_neighbours\<close> shows what an assignment does then.
\<close>

theorem params_swap:
  assumes "pl_ok ps" and "pl_load_local ps m = (ps1, m1)" and "pl_restore_default ps1 m2 = (ps2, m3)"
  shows "(\<forall>p \<in> set ps. load_int m1 (pn_addr p) = pn_value p)
    \<and> (\<forall>p \<in> set ps. load_int m3 (pn_addr p) = load_int m (pn_addr p))
    \<and> map (\<lambda>p. (pn_addr p, pn_value p)) ps2 = map (\<lambda>p. (pn_addr p, load_int m2 (pn_addr p))) ps
    \<and> (\<forall>b. outside ps b \<longrightarrow> m1 b = m b \<and> m3 b = m2 b) \<and> pl_ok ps2"
proof -
  define qs where "qs = map (\<lambda>p. p\<lparr>pn_default := load_int m (pn_addr p)\<rparr>) ps"
  have 1: "ps1 = qs" "m1 = store_all (map (\<lambda>p. (pn_addr p, pn_value p)) ps) m"
    using assms(2) by (simp_all add: pl_load_local_eq [OF assms(1)] qs_def)
  have "map pn_addr qs = map pn_addr ps" by (simp add: qs_def)
  then have qs: "pl_ok qs" using assms(1) by (simp add: pl_ok_def)
  have 2: "ps2 = map (\<lambda>p. p\<lparr>pn_value := load_int m2 (pn_addr p)\<rparr>) qs"
    "m3 = store_all (map (\<lambda>p. (pn_addr p, pn_default p)) qs) m2"
    using assms(3) by (simp_all add: 1 pl_restore_default_eq [OF qs])
  have s: "sorted_wrt apart (map fst (map (\<lambda>p. (pn_addr p, f p)) ps))" for f :: "param_node \<Rightarrow> s32"
    using assms(1) by (simp add: pl_ok_def comp_def)
  have 3: "m3 = store_all (map (\<lambda>p. (pn_addr p, load_int m (pn_addr p))) ps) m2"
    by (simp add: 2 qs_def comp_def)
  have "load_int m1 (pn_addr p) = pn_value p" "load_int m3 (pn_addr p) = load_int m (pn_addr p)"
    if "p \<in> set ps" for p
    unfolding 1(2) 3 using that by (auto intro!: load_store_all s)
  moreover have "m1 b = m b" "m3 b = m2 b" if "outside ps b" for b
    unfolding 1(2) 3 using that by (auto intro!: store_all_other simp: outside_def)
  moreover have "map (\<lambda>p. (pn_addr p, pn_value p)) ps2 = map (\<lambda>p. (pn_addr p, load_int m2 (pn_addr p))) ps"
    by (simp add: 2 qs_def comp_def)
  moreover have "map pn_addr ps2 = map pn_addr ps" by (simp add: 2 qs_def comp_def)
  then have "pl_ok ps2" using assms(1) by (simp add: pl_ok_def)
  ultimately show ?thesis by blast
qed

theorem params_swap_witness:
  "(let ps = [\<lparr>pn_addr = 100, pn_value = 7, pn_default = 0\<rparr>, \<lparr>pn_addr = 200, pn_value = 9, pn_default = 0\<rparr>];
        (ps1, m1) = pl_load_local ps (\<lambda>_. 0);
        (ps2, m3) = pl_restore_default ps1 (store_int m1 100 8)
    in load_int m1 200 = 9 \<and> load_int m3 100 = 0
       \<and> map (\<lambda>p. (pn_addr p, pn_value p)) ps2 = [(100, 8), (200, 9)])"
proof -
  define ps :: "param_node list" where
    "ps = [\<lparr>pn_addr = 100, pn_value = 7, pn_default = 0\<rparr>, \<lparr>pn_addr = 200, pn_value = 9, pn_default = 0\<rparr>]"
  obtain ps1 m1 where 1: "pl_load_local ps (\<lambda>_. 0) = (ps1, m1)" by fastforce
  obtain ps2 m3 where 2: "pl_restore_default ps1 (store_int m1 100 8) = (ps2, m3)" by fastforce
  have "pl_ok ps" by (simp add: ps_def pl_ok_def apart_def)
  have z: "load_int (\<lambda>_. 0) a = 0" for a by (simp add: load_int_def)
  from params_swap [OF \<open>pl_ok ps\<close> 1 2]
  have "load_int m1 200 = 9" "load_int m3 100 = 0"
    "map (\<lambda>p. (pn_addr p, pn_value p)) ps2 = [(100, 8), (200, 9)]"
    by (simp_all add: ps_def z load_store_apart apart_def)
  then show ?thesis unfolding Let_def ps_def [symmetric] 1 prod.case 2 by blast
qed

section \<open>Setting and getting\<close>

lemma mgr_find_int_first:
  "find (\<lambda>q. cp_name q = n) qs = Some q \<Longrightarrow> cp_type q = Some ''int'' \<Longrightarrow> mgr_find_int n qs = Some (Some q)"
  by (induction qs) (auto split: if_splits)

lemma mgr_find_declared:
  "lookup cl (mgr_file proto, name) = Some q \<Longrightarrow> cp_type q = Some ''int''
     \<Longrightarrow> mgr_find_param proto name cl = Some (Some q)"
  by (auto simp: lookup_def mgr_find_param_def mgr_find_cc_by_proto_def mgr_find_int_first
      split: option.splits)

lemma pl_get_set: "pl_get_param a (pl_set_param m a v ps) = Some v"
proof -
  have "\<exists>p \<in> set ps. pn_addr p = a \<Longrightarrow>
    pl_get_param a (upd_first (\<lambda>p. pn_addr p = a) (\<lambda>p. p\<lparr>pn_value := v\<rparr>) ps) = Some v"
    by (induction ps) auto
  then show ?thesis by (simp add: pl_set_param_def)
qed

lemma pl_get_set_other: "b \<noteq> a \<Longrightarrow> pl_get_param b (pl_set_param m a v ps) = pl_get_param b ps"
proof -
  assume "b \<noteq> a"
  then have "pl_get_param b (upd_first (\<lambda>p. pn_addr p = a) (\<lambda>p. p\<lparr>pn_value := v\<rparr>) ps) = pl_get_param b ps"
    by (induction ps) auto
  with \<open>b \<noteq> a\<close> show ?thesis by (simp add: pl_set_param_def)
qed

text \<open>Setting a value keeps the variables of the agent from overlapping.\<close>

lemma pl_ok_set:
  assumes "pl_ok ps" and "\<forall>p \<in> set ps. pn_addr p = a \<or> apart (pn_addr p) a"
  shows "pl_ok (pl_set_param m a v ps)"
proof -
  have "map pn_addr (upd_first (\<lambda>p. pn_addr p = a) (\<lambda>p. p\<lparr>pn_value := v\<rparr>) ps) = map pn_addr ps"
    by (induction ps) auto
  with assms show ?thesis
    by (auto simp: pl_set_param_def pl_ok_def apart_sym [of a])
qed

text \<open>
  C38: the parameters that the modules declare as \<open>int\<close>, whatever the order of their
  constructors: the agent finds each under the name of the algorithm; a global value that is set
  is the one that is got, and so is a value of the agent itself, which does not depend on the
  global one and leaves the other parameters of the agent alone.
\<close>

theorem declared_param_roundtrip:
  assumes "ctors_distinct cs" and "mset cs' = mset cs"
    and "Module_param (mgr_file proto) name ''int'' a \<in> set cs" and "a \<noteq> 0"
  defines "cl \<equiv> fold run_ctor cs' []"
  shows "set_default_param cl proto name v m = Some (True, store_int m a v)
    \<and> get_default_param cl proto name (store_int m a v) = Some (Some v)
    \<and> (\<exists>ps'. set_param cl proto name w m ps = Some (True, ps')
        \<and> get_param cl proto name m' ps' = Some (Some w)
        \<and> (\<forall>b. b \<noteq> a \<longrightarrow> pl_get_param b ps' = pl_get_param b ps))"
proof -
  have "\<exists>q. lookup cl (mgr_file proto, name) = Some q
      \<and> ctor_shown (Module_param (mgr_file proto) name ''int'' a) q"
    using ctors_any_order [OF assms(1,2)] ctors_shown [OF assms(1,3)]
    by (simp add: cl_def lookup_ctors lookup_nil)
  then obtain q where q: "lookup cl (mgr_file proto, name) = Some q" "cp_type q = Some ''int''"
    "cp_ptr q = a" by auto
  from mgr_find_declared [OF q(1,2)] q(3) assms(4) show ?thesis
    by (auto simp: set_default_param_def get_default_param_def set_param_def get_param_def
        pl_get_set pl_get_set_other)
qed

text \<open>
  the accesses are 4 bytes wide. Setting a parameter whose C variable is one byte
  (\<open>sysctl_tcp_abc\<close>, \<open>tcp_max_burst\<close>, \<open>debug_level\<close>) to a value below 256 sets the byte, and
  also clears the three bytes after it.
\<close>

theorem char_param_clears_neighbours:
  assumes "ctors_distinct cs" and "mset cs' = mset cs"
    and "Module_param (mgr_file proto) name ''int'' a \<in> set cs" and "a \<noteq> 0" and "unat v < 256"
  shows "\<exists>m'. set_default_param (fold run_ctor cs' []) proto name v m = Some (True, m')
    \<and> unat (m' a) = unat v \<and> m' (a + 1) = 0 \<and> m' (a + 2) = 0 \<and> m' (a + 3) = 0"
proof -
  have "\<exists>q. lookup (fold run_ctor cs' []) (mgr_file proto, name) = Some q
      \<and> ctor_shown (Module_param (mgr_file proto) name ''int'' a) q"
    using ctors_any_order [OF assms(1,2)] ctors_shown [OF assms(1,3)]
    by (simp add: lookup_ctors lookup_nil)
  then obtain q where q: "lookup (fold run_ctor cs' []) (mgr_file proto, name) = Some q"
    "cp_type q = Some ''int''" "cp_ptr q = a" by auto
  have "drop_bit n v = 0" if "8 \<le> n" for n
  proof -
    have "(2 :: nat) ^ 8 \<le> 2 ^ n" using that by (rule power_increasing) simp
    then have "unat v div 2 ^ n = 0" using assms(5) by simp
    then show ?thesis by (simp add: u32_eq_iff unat_shr)
  qed
  moreover have "unat (ucast v :: u8) = unat v"
    using assms(5) by (simp add: unsigned_ucast_eq take_bit_nat_eq_self)
  ultimately show ?thesis using mgr_find_declared [OF q(1,2)] q(3) assms(4)
    by (simp add: set_default_param_def store_int_def)
qed

end
