(* ===== verification/Cong_List.thy ===== *)
theory Cong_List
  imports Tcp_Sock
begin

text \<open>
  The list of registered algorithms: the circular doubly linked list that the macros
  \<open>list_add_rcu\<close>, \<open>list_add_tail_rcu\<close>, \<open>list_del_rcu\<close> and \<open>list_move\<close> of
  src/ns-2.34/tcp/linux/ns-linux-util.h update in place. The links are a store from addresses
  to addresses, 0 is NULL, and following or writing through NULL traps. \<open>ring s xs\<close> says that
  the store holds the list \<open>xs\<close>; the lemmas show that each macro is the operation on lists that
  its name promises.
\<close>

text \<open>The list head is a global variable; its address is 1.\<close>

definition ns_tcp_cong_list :: addr where
  "ns_tcp_cong_list = 1"

record list_mem =
  next_of :: "addr \<Rightarrow> addr"
  prev_of :: "addr \<Rightarrow> addr"
  file_name_of :: "addr \<Rightarrow> string option"
  last_added :: addr
  cc_list_changed :: u8

text \<open>The globals at the start: the head points to itself, the links of static objects are NULL.\<close>

definition list_mem_init :: list_mem where
  "list_mem_init = \<lparr> next_of = (\<lambda>a. if a = ns_tcp_cong_list then ns_tcp_cong_list else 0),
     prev_of = (\<lambda>a. if a = ns_tcp_cong_list then ns_tcp_cong_list else 0),
     file_name_of = (\<lambda>_. None), last_added = ns_tcp_cong_list, cc_list_changed = 0 \<rparr>"

definition set_next :: "addr \<Rightarrow> addr \<Rightarrow> list_mem \<Rightarrow> list_mem option" where
  "set_next a v s = (if a = 0 then None else Some (s\<lparr>next_of := (next_of s)(a := v)\<rparr>))"

definition set_prev :: "addr \<Rightarrow> addr \<Rightarrow> list_mem \<Rightarrow> list_mem option" where
  "set_prev a v s = (if a = 0 then None else Some (s\<lparr>prev_of := (prev_of s)(a := v)\<rparr>))"

definition list_add_rcu :: "addr \<Rightarrow> list_mem \<Rightarrow> list_mem option" where
  "list_add_rcu a s = do {
     s \<leftarrow> set_next a (next_of s ns_tcp_cong_list) s;
     s \<leftarrow> set_prev a ns_tcp_cong_list s;
     s \<leftarrow> set_prev (next_of s ns_tcp_cong_list) a s;
     s \<leftarrow> set_next ns_tcp_cong_list a s;
     Some (s\<lparr>last_added := a, cc_list_changed := 1\<rparr>)
   }"

definition list_add_tail_rcu :: "addr \<Rightarrow> list_mem \<Rightarrow> list_mem option" where
  "list_add_tail_rcu a s = do {
     s \<leftarrow> set_prev a (prev_of s ns_tcp_cong_list) s;
     s \<leftarrow> set_next a ns_tcp_cong_list s;
     s \<leftarrow> set_next (prev_of s ns_tcp_cong_list) a s;
     s \<leftarrow> set_prev ns_tcp_cong_list a s;
     Some (s\<lparr>last_added := a, cc_list_changed := 1\<rparr>)
   }"

definition list_del_rcu :: "addr \<Rightarrow> list_mem \<Rightarrow> list_mem option" where
  "list_del_rcu a s =
    (if a = 0 then None
     else do {
       s \<leftarrow> set_next (prev_of s a) (next_of s a) s;
       s \<leftarrow> set_prev (next_of s a) (prev_of s a) s;
       Some (s\<lparr>cc_list_changed := 1\<rparr>)
     })"

definition list_move :: "addr \<Rightarrow> list_mem \<Rightarrow> list_mem option" where
  "list_move a s = do { s \<leftarrow> list_del_rcu a s; list_add_rcu a s }"

definition set_linux_file_name :: "string \<Rightarrow> list_mem \<Rightarrow> list_mem option" where
  "set_linux_file_name name s =
    (if last_added s = ns_tcp_cong_list then Some s
     else if last_added s = 0 then None
     else Some (s\<lparr>file_name_of := (file_name_of s)(last_added s := Some name)\<rparr>))"

text \<open>The nodes a loop over the list visits, from \<open>pos\<close> on; a broken list traps or never ends.\<close>

partial_function (option) list_walk :: "list_mem \<Rightarrow> addr \<Rightarrow> addr list option" where
  "list_walk s pos =
    (if pos = ns_tcp_cong_list then Some []
     else if pos = 0 then None
     else Option.bind (list_walk s (next_of s pos)) (\<lambda>ys. Some (pos # ys)))"

section \<open>Lists in the store\<close>

text \<open>\<open>dseg s a xs b\<close>: the links lead from \<open>a\<close> through \<open>xs\<close> to \<open>b\<close>, and back.\<close>

fun dseg :: "list_mem \<Rightarrow> addr \<Rightarrow> addr list \<Rightarrow> addr \<Rightarrow> bool" where
  "dseg s a [] b \<longleftrightarrow> next_of s a = b \<and> prev_of s b = a"
| "dseg s a (x # xs) b \<longleftrightarrow> next_of s a = x \<and> prev_of s x = a \<and> dseg s x xs b"

definition ring :: "list_mem \<Rightarrow> addr list \<Rightarrow> bool" where
  "ring s xs \<longleftrightarrow> distinct (ns_tcp_cong_list # xs) \<and> 0 \<notin> set xs
     \<and> dseg s ns_tcp_cong_list xs ns_tcp_cong_list"

lemma head_ne_0 [simp]: "ns_tcp_cong_list \<noteq> 0" "0 \<noteq> ns_tcp_cong_list"
  by (simp_all add: ns_tcp_cong_list_def)

lemma dseg_append: "dseg s a (xs @ x # ys) b \<longleftrightarrow> dseg s a xs x \<and> dseg s x ys b"
  by (induction xs arbitrary: a) auto

lemma dseg_cong:
  assumes "\<And>y. y \<in> insert a (set xs) \<Longrightarrow> next_of s' y = next_of s y"
    and "\<And>y. y \<in> insert b (set xs) \<Longrightarrow> prev_of s' y = prev_of s y"
  shows "dseg s' a xs b = dseg s a xs b"
  using assms by (induction xs arbitrary: a) auto

lemma ring_init: "ring list_mem_init []"
  by (simp add: ring_def list_mem_init_def)

text \<open>Only the links matter.\<close>

lemma ring_upd [simp]:
  "ring (s\<lparr>last_added := a\<rparr>) xs = ring s xs" "ring (s\<lparr>cc_list_changed := c\<rparr>) xs = ring s xs"
  "ring (s\<lparr>file_name_of := f\<rparr>) xs = ring s xs"
proof -
  have "dseg (s\<lparr>last_added := a\<rparr>) p ys q = dseg s p ys q" "dseg (s\<lparr>cc_list_changed := c\<rparr>) p ys q = dseg s p ys q"
    "dseg (s\<lparr>file_name_of := f\<rparr>) p ys q = dseg s p ys q" for p ys q by (rule dseg_cong; simp)+
  then show "ring (s\<lparr>last_added := a\<rparr>) xs = ring s xs" "ring (s\<lparr>cc_list_changed := c\<rparr>) xs = ring s xs"
    "ring (s\<lparr>file_name_of := f\<rparr>) xs = ring s xs"
    by (simp_all add: ring_def)
qed

lemma list_walk_dseg:
  assumes "dseg s a xs ns_tcp_cong_list" and "ns_tcp_cong_list \<notin> set xs" and "0 \<notin> set xs"
  shows "list_walk s (next_of s a) = Some xs"
  using assms
proof (induction xs arbitrary: a)
  case Nil
  then show ?case by (subst list_walk.simps) simp
next
  case (Cons x xs)
  then show ?case by (subst list_walk.simps) simp
qed

lemma list_walk_ring: "ring s xs \<Longrightarrow> list_walk s (next_of s ns_tcp_cong_list) = Some xs"
  by (rule list_walk_dseg) (auto simp: ring_def)

section \<open>The macros on lists\<close>

lemma list_add_tail_ring:
  assumes r: "ring s xs" and a: "a \<notin> set xs" "a \<noteq> 0" "a \<noteq> ns_tcp_cong_list"
  shows "\<exists>s'. list_add_tail_rcu a s = Some s' \<and> ring s' (xs @ [a]) \<and> last_added s' = a"
proof (cases xs rule: rev_cases)
  case Nil
  with assms show ?thesis
    by (auto simp: list_add_tail_rcu_def set_next_def set_prev_def ring_def)
next
  case (snoc zs z)
  let ?H = ns_tcp_cong_list
  from r have d: "dseg s ?H zs z" "next_of s z = ?H" "prev_of s ?H = z" "distinct (?H # zs @ [z])"
      "0 \<notin> set zs" "z \<noteq> 0"
    by (auto simp: ring_def snoc dseg_append)
  let ?s = "s\<lparr>prev_of := (prev_of s)(a := z, ?H := a), next_of := (next_of s)(a := ?H, z := a)\<rparr>"
  have "dseg ?s ?H zs z = dseg s ?H zs z"
    using a d(4) snoc by (intro dseg_cong) auto
  then have "ring ?s (xs @ [a])"
    using d a by (auto simp: ring_def snoc dseg_append)
  moreover have "list_add_tail_rcu a s = Some (?s\<lparr>last_added := a, cc_list_changed := 1\<rparr>)"
    using a d by (simp add: list_add_tail_rcu_def set_next_def set_prev_def)
  ultimately show ?thesis by simp
qed

lemma list_add_ring:
  assumes r: "ring s xs" and a: "a \<notin> set xs" "a \<noteq> 0" "a \<noteq> ns_tcp_cong_list"
  shows "\<exists>s'. list_add_rcu a s = Some s' \<and> ring s' (a # xs) \<and> last_added s' = a"
proof (cases xs)
  case Nil
  with assms show ?thesis
    by (auto simp: list_add_rcu_def set_next_def set_prev_def ring_def)
next
  case (Cons z zs)
  let ?H = ns_tcp_cong_list
  from r have d: "dseg s z zs ?H" "next_of s ?H = z" "prev_of s z = ?H" "distinct (?H # z # zs)"
      "0 \<notin> set zs" "z \<noteq> 0"
    by (auto simp: ring_def Cons)
  let ?s = "s\<lparr>prev_of := (prev_of s)(a := ?H, z := a), next_of := (next_of s)(a := z, ?H := a)\<rparr>"
  have "dseg ?s z zs ?H = dseg s z zs ?H"
    using a d(4) Cons by (intro dseg_cong) auto
  then have "ring ?s (a # xs)" using d a by (auto simp: ring_def Cons)
  moreover have "list_add_rcu a s = Some (?s\<lparr>last_added := a, cc_list_changed := 1\<rparr>)"
    using a d by (simp add: list_add_rcu_def set_next_def set_prev_def)
  ultimately show ?thesis by simp
qed

text \<open>A segment that is entered from another node, and two segments that meet.\<close>

lemma dseg_enter:
  assumes "dseg s a vs q" and "next_of s' p = next_of s a" and "prev_of s' (next_of s a) = p"
    and "\<And>y. y \<in> set vs \<Longrightarrow> next_of s' y = next_of s y"
    and "\<And>y. y \<in> insert q (set vs) \<Longrightarrow> y \<noteq> next_of s a \<Longrightarrow> prev_of s' y = prev_of s y"
    and "distinct (q # vs)"
  shows "dseg s' p vs q"
proof (cases vs)
  case Nil
  with assms show ?thesis by simp
next
  case (Cons v ws)
  have "dseg s' v ws q = dseg s v ws q"
  proof (rule dseg_cong)
    fix y assume "y \<in> insert v (set ws)"
    then show "next_of s' y = next_of s y" using assms(4) Cons by simp
  next
    fix y assume "y \<in> insert q (set ws)"
    then show "prev_of s' y = prev_of s y" using assms(1,5,6) Cons by auto
  qed
  with assms(1,2,3) Cons show ?thesis by simp
qed

lemma dseg_join:
  assumes d: "dseg s p us a" "dseg s a vs q" and pa: "prev_of s a = l" and na: "next_of s a = f"
    and dist: "distinct (us @ a # vs)" "p \<notin> set (us @ a # vs)" "q \<notin> set (us @ a # vs)"
  shows "dseg (s\<lparr>next_of := (next_of s)(l := f), prev_of := (prev_of s)(f := l)\<rparr>) p (us @ vs) q"
    (is "dseg ?s p (us @ vs) q")
proof -
  have f: "f \<in> insert q (set vs)" using d(2) na by (cases vs) auto
  show ?thesis
  proof (cases us rule: rev_cases)
    case Nil
    with d(1) pa have "l = p" by simp
    moreover have "dseg ?s p vs q"
      using d(2) by (rule dseg_enter) (use \<open>l = p\<close> na dist in auto)
    ultimately show ?thesis by (simp add: Nil)
  next
    case (snoc us' u)
    with d(1) pa have u: "l = u" "dseg s p us' u" by (auto simp: dseg_append)
    have "dseg ?s p us' u = dseg s p us' u"
      using dist f u(1) snoc by (intro dseg_cong) auto
    moreover have "dseg ?s u vs q"
      using d(2) by (rule dseg_enter) (use u(1) na dist snoc in auto)
    ultimately show ?thesis using u by (simp add: snoc dseg_append)
  qed
qed

lemma list_del_ring:
  assumes r: "ring s xs" and a: "a \<in> set xs"
  shows "\<exists>s'. list_del_rcu a s = Some s' \<and> ring s' (remove1 a xs)"
proof -
  let ?H = ns_tcp_cong_list
  obtain us vs where xs: "xs = us @ a # vs" "a \<notin> set us"
    using a by (metis split_list_first)
  from r have d: "dseg s ?H us a" "dseg s a vs ?H" "distinct (us @ a # vs)"
      "?H \<notin> set (us @ a # vs)" "0 \<notin> set (us @ a # vs)"
    by (auto simp: ring_def xs dseg_append)
  have l: "prev_of s a \<in> insert ?H (set us)"
    using d(1) by (cases us rule: rev_cases) (auto simp: dseg_append)
  have f: "next_of s a \<in> insert ?H (set vs)" using d(2) by (cases vs) auto
  have ne: "prev_of s a \<noteq> 0" "next_of s a \<noteq> 0" "a \<noteq> prev_of s a" "a \<noteq> 0"
    using l f d(3,4,5) head_ne_0(1) by force+
  let ?s = "s\<lparr>next_of := (next_of s)(prev_of s a := next_of s a),
              prev_of := (prev_of s)(next_of s a := prev_of s a)\<rparr>"
  have "dseg ?s ?H (us @ vs) ?H"
    by (rule dseg_join [OF d(1,2) refl refl d(3,4,4)])
  then have "ring ?s (us @ vs)" using d by (auto simp: ring_def)
  moreover have "remove1 a xs = us @ vs" using xs by (simp add: remove1_append)
  moreover have "list_del_rcu a s = Some (?s\<lparr>cc_list_changed := 1\<rparr>)"
    using ne by (simp add: list_del_rcu_def set_next_def set_prev_def)
  ultimately show ?thesis by simp
qed

lemma list_move_ring:
  assumes r: "ring s xs" and a: "a \<in> set xs"
  shows "\<exists>s'. list_move a s = Some s' \<and> ring s' (a # remove1 a xs)"
proof -
  from list_del_ring [OF assms] obtain s1 where
    s1: "list_del_rcu a s = Some s1" "ring s1 (remove1 a xs)" by blast
  have "a \<notin> set (remove1 a xs)" using r by (simp add: ring_def)
  moreover have "a \<noteq> 0" using r a by (metis ring_def)
  moreover have "a \<noteq> ns_tcp_cong_list" using r a by (auto simp: ring_def)
  ultimately obtain s2 where "list_add_rcu a s1 = Some s2" "ring s2 (a # remove1 a xs)"
    using list_add_ring [OF s1(2)] by blast
  with s1(1) show ?thesis by (auto simp: list_move_def)
qed

text \<open>A node that was never added cannot be unlinked: its links are NULL.\<close>

lemma list_del_unlinked: "prev_of s a = 0 \<Longrightarrow> list_del_rcu a s = None"
  by (simp add: list_del_rcu_def set_next_def)

end
