(* ===== verification/Registry.thy ===== *)
theory Registry
  imports Cong_List Reno
begin

text \<open>
  The registry of algorithms, src/ns-2.34/tcp/linux/src/tcp_cong.c lines 14-276: lookup by name,
  registration, the default, the set of algorithms anyone may use, and the selection of an
  algorithm for a socket. The state is the store of the linked list and the operation tables at
  their addresses. Return codes are those of ns-linux-c.h, negated. The locks and the module
  reference counts expand to nothing there, \<open>try_module_get\<close> to 0 and \<open>capable\<close> to 1;
  \<open>printk\<close> is left out. Loops over the list visit the nodes that \<open>list_walk\<close> collects.
\<close>

definition EINVAL :: int where "EINVAL = 1"
definition EEXIST :: int where "EEXIST = 2"
definition ENOENT :: int where "ENOENT = 3"
definition EBUSY :: int where "EBUSY = 4"
definition ENOMEM :: int where "ENOMEM = 5"
definition EPERM :: int where "EPERM = 6"

definition try_module_get :: bool where "try_module_get = False"
definition capable :: bool where "capable = True"

definition TCP_CA_NAME_MAX :: nat where "TCP_CA_NAME_MAX = 16"

text \<open>The address of the table a socket starts with.\<close>

definition addr_tcp_init :: addr where
  "addr_tcp_init = 2"

record 'ca registry =
  reg_list :: list_mem
  reg_ops :: "addr \<Rightarrow> 'ca tcp_congestion_ops"

definition non_restricted :: "'ca tcp_congestion_ops \<Rightarrow> bool" where
  "non_restricted ca \<longleftrightarrow> ca_flags ca AND TCP_CONG_NON_RESTRICTED \<noteq> 0"

definition upd_flags :: "addr \<Rightarrow> (u32 \<Rightarrow> u32) \<Rightarrow> 'ca registry \<Rightarrow> 'ca registry" where
  "upd_flags a f s = s\<lparr>reg_ops := (reg_ops s)(a := (reg_ops s a)\<lparr>ca_flags := f (ca_flags (reg_ops s a))\<rparr>)\<rparr>"

definition allow :: "u32 \<Rightarrow> u32" where
  "allow f = f OR TCP_CONG_NON_RESTRICTED"

definition disallow :: "u32 \<Rightarrow> u32" where
  "disallow f = f AND NOT TCP_CONG_NON_RESTRICTED"

section \<open>Lookup and registration\<close>

text \<open>The result 0 is NULL.\<close>

partial_function (option) ca_find_from :: "'ca registry \<Rightarrow> string \<Rightarrow> addr \<Rightarrow> addr option" where
  "ca_find_from s name e =
    (if e = ns_tcp_cong_list then Some 0
     else if e = 0 then None
     else if ca_name (reg_ops s e) = name then Some e
     else ca_find_from s name (next_of (reg_list s) e))"

definition tcp_ca_find :: "string \<Rightarrow> 'ca registry \<Rightarrow> addr option" where
  "tcp_ca_find name s = ca_find_from s name (next_of (reg_list s) ns_tcp_cong_list)"

definition tcp_register_congestion_control ::
  "addr \<Rightarrow> 'ca registry \<Rightarrow> (int \<times> 'ca registry) option" where
  "tcp_register_congestion_control ca s =
    (if ca = 0 then None
     else if ca_ssthresh (reg_ops s ca) = None \<or> ca_cong_avoid (reg_ops s ca) = None
     then Some (- EINVAL, s)
     else do {
       e \<leftarrow> tcp_ca_find (ca_name (reg_ops s ca)) s;
       if e \<noteq> 0 then Some (- EEXIST, s)
       else do {
         l \<leftarrow> list_add_tail_rcu ca (reg_list s);
         Some (0, s\<lparr>reg_list := l\<rparr>)
       }
     })"

definition tcp_unregister_congestion_control :: "addr \<Rightarrow> 'ca registry \<Rightarrow> 'ca registry option" where
  "tcp_unregister_congestion_control ca s = do {
     l \<leftarrow> list_del_rcu ca (reg_list s);
     Some (s\<lparr>reg_list := l\<rparr>)
   }"

section \<open>The default and the allowed algorithms\<close>

definition tcp_set_default_congestion_control ::
  "string \<Rightarrow> 'ca registry \<Rightarrow> (int \<times> 'ca registry) option" where
  "tcp_set_default_congestion_control name s = do {
     ca \<leftarrow> tcp_ca_find name s;
     if ca \<noteq> 0 then do {
       let s = upd_flags ca allow s;
       l \<leftarrow> list_move ca (reg_list s);
       Some (0, s\<lparr>reg_list := l\<rparr>)
     }
     else Some (- ENOENT, s)
   }"

text \<open>
  \<open>strncpy\<close> of at most 16 characters from the first entry; when the list is empty the code reads
  past the list head.
\<close>

definition tcp_get_default_congestion_control :: "'ca registry \<Rightarrow> string option" where
  "tcp_get_default_congestion_control s =
    (let ca = next_of (reg_list s) ns_tcp_cong_list in
     if ca = 0 \<or> ca = ns_tcp_cong_list then None
     else Some (take TCP_CA_NAME_MAX (ca_name (reg_ops s ca))))"

text \<open>
  \<open>snprintf(buf + offs, size, ...)\<close> of the string \<open>str\<close>: at most \<open>size - 1\<close> characters and a
  NUL are written, and the length of \<open>str\<close> is returned. Writing past the buffer traps. The size
  is the unsigned difference \<open>maxlen - offs\<close>.
\<close>

definition NUL :: char where "NUL = CHR 0x00"

definition snprintf_at :: "u32 \<Rightarrow> u32 \<Rightarrow> string \<Rightarrow> string \<Rightarrow> (u32 \<times> string) option" where
  "snprintf_at offs sz str buf =
    (if sz = 0 then Some (word_of_nat (length str), buf)
     else
       let w = take (unat sz - 1) str @ [NUL]
       in if length buf < unat offs + length w then None
          else Some (word_of_nat (length str),
                     take (unat offs) buf @ w @ drop (unat offs + length w) buf))"

fun put_names :: "u32 \<Rightarrow> string list \<Rightarrow> u32 \<Rightarrow> string \<Rightarrow> string option" where
  "put_names maxlen [] offs buf = Some buf"
| "put_names maxlen (n # ns) offs buf = do {
     (len, buf) \<leftarrow> snprintf_at offs (maxlen - offs) ((if offs = 0 then [] else '' '') @ n) buf;
     put_names maxlen ns (offs + len) buf
   }"

definition tcp_get_available_congestion_control ::
  "string \<Rightarrow> u32 \<Rightarrow> 'ca registry \<Rightarrow> string option" where
  "tcp_get_available_congestion_control buf maxlen s = do {
     cas \<leftarrow> list_walk (reg_list s) (next_of (reg_list s) ns_tcp_cong_list);
     put_names maxlen (map (\<lambda>a. ca_name (reg_ops s a)) cas) 0 buf
   }"

definition tcp_get_allowed_congestion_control ::
  "string \<Rightarrow> u32 \<Rightarrow> 'ca registry \<Rightarrow> string option" where
  "tcp_get_allowed_congestion_control buf maxlen s =
    (if buf = [] then None
     else do {
       let buf = buf[0 := NUL];
       cas \<leftarrow> list_walk (reg_list s) (next_of (reg_list s) ns_tcp_cong_list);
       put_names maxlen
         (map (\<lambda>a. ca_name (reg_ops s a)) (filter (\<lambda>a. non_restricted (reg_ops s a)) cas)) 0 buf
     })"

text \<open>
  The tokens that \<open>strsep(&s, " ")\<close> returns in turn, and the prefix of them that the loops
  process: they stop at the first empty one.
\<close>

fun strsep_tokens :: "string \<Rightarrow> string list" where
  "strsep_tokens [] = [[]]"
| "strsep_tokens (c # cs) =
    (if c = CHR '' '' then [] # strsep_tokens cs
     else case strsep_tokens cs of t # ts \<Rightarrow> (c # t) # ts | [] \<Rightarrow> [[c]])"

definition names_of :: "string \<Rightarrow> string list" where
  "names_of val = takeWhile (\<lambda>t. t \<noteq> []) (strsep_tokens val)"

text \<open>Pass 1: whether every name is registered. Pass 3: mark the named ones.\<close>

fun all_found :: "string list \<Rightarrow> 'ca registry \<Rightarrow> bool option" where
  "all_found [] s = Some True"
| "all_found (n # ns) s = do { ca \<leftarrow> tcp_ca_find n s; if ca = 0 then Some False else all_found ns s }"

fun mark_allowed :: "string list \<Rightarrow> 'ca registry \<Rightarrow> 'ca registry option" where
  "mark_allowed [] s = Some s"
| "mark_allowed (n # ns) s = do {
     ca \<leftarrow> tcp_ca_find n s;
     mark_allowed ns (if ca \<noteq> 0 then upd_flags ca allow s else s)
   }"

text \<open>\<open>oom\<close>: the copy of the string could not be allocated.\<close>

definition tcp_set_allowed_congestion_control ::
  "bool \<Rightarrow> string \<Rightarrow> 'ca registry \<Rightarrow> (int \<times> 'ca registry) option" where
  "tcp_set_allowed_congestion_control oom val s =
    (if oom then Some (- ENOMEM, s)
     else do {
       ok \<leftarrow> all_found (names_of val) s;
       if \<not> ok then Some (- ENOENT, s)
       else do {
         cas \<leftarrow> list_walk (reg_list s) (next_of (reg_list s) ns_tcp_cong_list);
         let s = fold (\<lambda>a. upd_flags a disallow) cas s;
         s \<leftarrow> mark_allowed (names_of val) s;
         Some (0, s)
       }
     })"

section \<open>Sockets\<close>

text \<open>Following the pointer of a socket to its table.\<close>

definition ops_of :: "'ca tcp_sock \<Rightarrow> 'ca registry \<Rightarrow> 'ca tcp_congestion_ops option" where
  "ops_of sk s = (if icsk_ca_ops sk = 0 then None else Some (reg_ops s (icsk_ca_ops sk)))"

definition tcp_init_congestion_control ::
  "kernel \<Rightarrow> 'ca registry \<Rightarrow> 'ca tcp_sock \<Rightarrow> 'ca tcp_sock option" where
  "tcp_init_congestion_control k s sk = do {
     sk \<leftarrow> (if icsk_ca_ops sk = addr_tcp_init
           then do {
             cas \<leftarrow> list_walk (reg_list s) (next_of (reg_list s) ns_tcp_cong_list);
             Some (case filter (\<lambda>a. try_module_get) cas of [] \<Rightarrow> sk | a # as \<Rightarrow> sk\<lparr>icsk_ca_ops := a\<rparr>)
           }
           else Some sk);
     ops \<leftarrow> ops_of sk s;
     call_opt (ca_init ops) k sk
   }"

definition tcp_cleanup_congestion_control ::
  "kernel \<Rightarrow> 'ca registry \<Rightarrow> 'ca tcp_sock \<Rightarrow> 'ca tcp_sock option" where
  "tcp_cleanup_congestion_control k s sk = do {
     ops \<leftarrow> ops_of sk s;
     call_opt (ca_release ops) k sk
   }"

definition tcp_set_congestion_control ::
  "string \<Rightarrow> kernel \<Rightarrow> 'ca registry \<Rightarrow> 'ca tcp_sock \<Rightarrow> (int \<times> 'ca tcp_sock) option" where
  "tcp_set_congestion_control name k s sk = do {
     ca \<leftarrow> tcp_ca_find name s;
     if ca = icsk_ca_ops sk then Some (0, sk)
     else if ca = 0 then Some (- ENOENT, sk)
     else if \<not> (non_restricted (reg_ops s ca) \<or> capable) then Some (- EPERM, sk)
     else if \<not> try_module_get then Some (- EBUSY, sk)
     else do {
       sk \<leftarrow> tcp_cleanup_congestion_control k s sk;
       let sk = sk\<lparr>icsk_ca_ops := ca\<rparr>;
       sk \<leftarrow> (if sk_state sk \<noteq> 0 then call_opt (ca_init (reg_ops s ca)) k sk else Some sk);
       Some (0, sk)
     }
   }"

section \<open>The registry as a list\<close>

definition reg_names :: "'ca registry \<Rightarrow> addr list \<Rightarrow> string list" where
  "reg_names s xs = map (\<lambda>a. ca_name (reg_ops s a)) xs"

definition registry_ok :: "'ca registry \<Rightarrow> addr list \<Rightarrow> bool" where
  "registry_ok s xs \<longleftrightarrow> ring (reg_list s) xs \<and> distinct (reg_names s xs)"

lemma ca_find_from_dseg:
  assumes "dseg (reg_list s) a xs ns_tcp_cong_list" and "ns_tcp_cong_list \<notin> set xs" and "0 \<notin> set xs"
  shows "ca_find_from s name (next_of (reg_list s) a)
    = Some (case find (\<lambda>e. ca_name (reg_ops s e) = name) xs of None \<Rightarrow> 0 | Some e \<Rightarrow> e)"
  using assms
proof (induction xs arbitrary: a)
  case Nil
  then show ?case by (subst ca_find_from.simps) simp
next
  case (Cons x xs)
  then show ?case by (subst ca_find_from.simps) simp
qed

lemma tcp_ca_find_ring:
  assumes "ring (reg_list s) xs"
  shows "tcp_ca_find name s
    = Some (case find (\<lambda>e. ca_name (reg_ops s e) = name) xs of None \<Rightarrow> 0 | Some e \<Rightarrow> e)"
  using assms unfolding tcp_ca_find_def by (intro ca_find_from_dseg) (auto simp: ring_def)

lemma tcp_ca_find_0:
  assumes "ring (reg_list s) xs" and "name \<notin> set (reg_names s xs)"
  shows "tcp_ca_find name s = Some 0"
proof -
  have "find (\<lambda>e. ca_name (reg_ops s e) = name) xs = None"
    using assms(2) by (auto simp: find_None_iff reg_names_def)
  with tcp_ca_find_ring [OF assms(1)] show ?thesis by simp
qed

lemma tcp_ca_find_found:
  assumes "ring (reg_list s) xs" and "name \<in> set (reg_names s xs)"
  shows "\<exists>a. tcp_ca_find name s = Some a \<and> a \<in> set xs \<and> ca_name (reg_ops s a) = name \<and> a \<noteq> 0"
proof -
  have "find (\<lambda>e. ca_name (reg_ops s e) = name) xs \<noteq> None"
    using assms(2) by (auto simp: find_None_iff reg_names_def)
  then obtain a where a: "find (\<lambda>e. ca_name (reg_ops s e) = name) xs = Some a" by blast
  then have "a \<in> set xs" "ca_name (reg_ops s a) = name" by (auto simp: find_Some_iff)
  moreover from this have "a \<noteq> 0" using assms(1) by (metis ring_def)
  ultimately show ?thesis using a tcp_ca_find_ring [OF assms(1), of name] by auto
qed

lemma registry_found_unique:
  assumes "registry_ok s xs" and "a \<in> set xs"
  shows "tcp_ca_find (ca_name (reg_ops s a)) s = Some a"
proof -
  from assms tcp_ca_find_found [of s xs "ca_name (reg_ops s a)"] obtain b where
    b: "tcp_ca_find (ca_name (reg_ops s a)) s = Some b" "b \<in> set xs"
      "ca_name (reg_ops s b) = ca_name (reg_ops s a)"
    by (auto simp: registry_ok_def reg_names_def)
  have "inj_on (\<lambda>a. ca_name (reg_ops s a)) (set xs)"
    using assms(1) by (auto simp: registry_ok_def reg_names_def distinct_map)
  with b assms(2) have "b = a" by (auto dest: inj_onD)
  with b(1) show ?thesis by simp
qed

lemma upd_flags_sel [simp]:
  "reg_list (upd_flags a f s) = reg_list s"
  "ca_name (reg_ops (upd_flags a f s) b) = ca_name (reg_ops s b)"
  "ca_flags (reg_ops (upd_flags a f s) b) = (if b = a then f (ca_flags (reg_ops s b)) else ca_flags (reg_ops s b))"
  by (simp_all add: upd_flags_def)

lemma reg_names_flags [simp]: "reg_names (upd_flags a f s) xs = reg_names s xs"
  by (simp add: reg_names_def)

section \<open>The allowed algorithms\<close>

lemma allow_bit [simp]: "allow f AND 1 \<noteq> 0"
proof -
  have "bit (allow f AND 1) 0" by (simp add: allow_def bit_simps)
  then show ?thesis by auto
qed

lemma disallow_bit [simp]: "disallow f AND 1 = 0"
  unfolding disallow_def by (rule bit_word_eqI) (auto simp: bit_simps)

lemma all_found_ring:
  assumes "ring (reg_list s) xs"
  shows "all_found ns s = Some (set ns \<subseteq> set (reg_names s xs))"
proof (induction ns)
  case (Cons n ns)
  show ?case
  proof (cases "n \<in> set (reg_names s xs)")
    case True
    from tcp_ca_find_found [OF assms True] Cons True show ?thesis by auto
  qed (use tcp_ca_find_0 [OF assms] in auto)
qed simp

lemma clear_flags:
  fixes s :: "'a registry"
  defines "clear \<equiv> \<lambda>a. upd_flags a disallow"
  shows "reg_list (fold clear cas s) = reg_list s"
    and "ca_name (reg_ops (fold clear cas s) b) = ca_name (reg_ops s b)"
    and "b \<in> set cas \<Longrightarrow> \<not> non_restricted (reg_ops (fold clear cas s) b)"
proof -
  show "reg_list (fold clear cas s) = reg_list s"
    by (induction cas arbitrary: s) (simp_all add: clear_def)
  show "ca_name (reg_ops (fold clear cas s) b) = ca_name (reg_ops s b)"
    by (induction cas arbitrary: s) (simp_all add: clear_def)
  have keep: "\<not> non_restricted (reg_ops t b) \<Longrightarrow> \<not> non_restricted (reg_ops (fold clear cs t) b)"
    for cs and t :: "'a registry"
    by (induction cs arbitrary: t) (simp_all add: clear_def non_restricted_def)
  show "b \<in> set cas \<Longrightarrow> \<not> non_restricted (reg_ops (fold clear cas s) b)"
  proof (induction cas arbitrary: s)
    case (Cons a cas)
    show ?case
    proof (cases "b = a")
      case True
      then have "\<not> non_restricted (reg_ops (clear a s) b)" by (simp add: clear_def non_restricted_def)
      from keep [OF this] show ?thesis by simp
    qed (use Cons in auto)
  qed simp
qed

lemma mark_allowed_ok:
  assumes "registry_ok s xs" and "set ns \<subseteq> set (reg_names s xs)"
  shows "\<exists>s'. mark_allowed ns s = Some s' \<and> reg_list s' = reg_list s
    \<and> (\<forall>b. ca_name (reg_ops s' b) = ca_name (reg_ops s b))
    \<and> (\<forall>b \<in> set xs. non_restricted (reg_ops s' b)
         \<longleftrightarrow> non_restricted (reg_ops s b) \<or> ca_name (reg_ops s b) \<in> set ns)"
  using assms
proof (induction ns arbitrary: s)
  case (Cons n ns)
  from Cons.prems tcp_ca_find_found [of s xs n] obtain a where
    a: "tcp_ca_find n s = Some a" "a \<in> set xs" "ca_name (reg_ops s a) = n" "a \<noteq> 0"
    by (auto simp: registry_ok_def)
  let ?s = "upd_flags a allow s"
  have "registry_ok ?s xs" "set ns \<subseteq> set (reg_names ?s xs)"
    using Cons.prems by (simp_all add: registry_ok_def)
  from Cons.IH [OF this] obtain s' where
    s': "mark_allowed ns ?s = Some s'" "reg_list s' = reg_list s"
      "\<forall>b. ca_name (reg_ops s' b) = ca_name (reg_ops s b)"
      "\<forall>b \<in> set xs. non_restricted (reg_ops s' b)
         \<longleftrightarrow> non_restricted (reg_ops ?s b) \<or> ca_name (reg_ops s b) \<in> set ns"
    by auto
  have m: "non_restricted (reg_ops ?s b) \<longleftrightarrow> non_restricted (reg_ops s b) \<or> ca_name (reg_ops s b) = n"
    if "b \<in> set xs" for b
  proof -
    have "b = a \<longleftrightarrow> ca_name (reg_ops s b) = n"
      using registry_found_unique [OF Cons.prems(1) that] a(1,3) by (metis option.inject)
    then show ?thesis by (auto simp: non_restricted_def)
  qed
  have "mark_allowed (n # ns) s = Some s'" using a s'(1) by simp
  moreover have "\<forall>b \<in> set xs. non_restricted (reg_ops s' b)
      \<longleftrightarrow> non_restricted (reg_ops s b) \<or> ca_name (reg_ops s b) \<in> set (n # ns)"
    using s'(4) m by simp
  ultimately show ?case using s'(2,3) by blast
qed simp

lemma set_allowed_spec:
  assumes "registry_ok s xs"
  shows "if set (names_of val) \<subseteq> set (reg_names s xs)
    then \<exists>s'. tcp_set_allowed_congestion_control False val s = Some (0, s') \<and> registry_ok s' xs
      \<and> (\<forall>a \<in> set xs. non_restricted (reg_ops s' a)
           \<longleftrightarrow> ca_name (reg_ops s' a) \<in> set (names_of val))
    else tcp_set_allowed_congestion_control False val s = Some (- ENOENT, s)"
proof -
  have r: "ring (reg_list s) xs" using assms by (simp add: registry_ok_def)
  let ?c = "fold (\<lambda>a. upd_flags a disallow) xs s"
  have n: "reg_names ?c xs = reg_names s xs" by (simp add: reg_names_def clear_flags)
  have c: "registry_ok ?c xs" using assms n by (simp add: registry_ok_def clear_flags)
  show ?thesis
  proof (cases "set (names_of val) \<subseteq> set (reg_names s xs)")
    case True
    with n have "set (names_of val) \<subseteq> set (reg_names ?c xs)" by simp
    from mark_allowed_ok [OF c this] obtain s' where
      s': "mark_allowed (names_of val) ?c = Some s'" "reg_list s' = reg_list ?c"
        "\<forall>b. ca_name (reg_ops s' b) = ca_name (reg_ops ?c b)"
        "\<forall>b \<in> set xs. non_restricted (reg_ops s' b)
           \<longleftrightarrow> non_restricted (reg_ops ?c b) \<or> ca_name (reg_ops ?c b) \<in> set (names_of val)"
      by blast
    have "reg_names s' xs = reg_names ?c xs" using s'(3) by (simp add: reg_names_def)
    with c s'(2) have "registry_ok s' xs" by (simp add: registry_ok_def)
    moreover have "non_restricted (reg_ops s' a) \<longleftrightarrow> ca_name (reg_ops s' a) \<in> set (names_of val)"
      if "a \<in> set xs" for a
      using s'(3,4) clear_flags(3) [OF that, of s] that by simp
    moreover have "tcp_set_allowed_congestion_control False val s = Some (0, s')"
      using True r s'(1)
      by (simp add: tcp_set_allowed_congestion_control_def all_found_ring list_walk_ring)
    ultimately show ?thesis using True by auto
  next
    case False
    with r show ?thesis
      by (simp add: tcp_set_allowed_congestion_control_def all_found_ring)
  qed
qed

section \<open>The list of names\<close>

fun join_names :: "string list \<Rightarrow> string" where
  "join_names [] = []"
| "join_names (n # ns) = n @ concat (map ((#) CHR '' '') ns)"

lemma snprintf_fits:
  assumes "length str < unat sz" and "unat offs + length str < length buf"
  shows "snprintf_at offs sz str buf = Some (word_of_nat (length str),
    take (unat offs) buf @ str @ [NUL] @ drop (unat offs + length str + 1) buf)"
proof -
  have "sz \<noteq> 0" using assms(1) by auto
  moreover have "length str \<le> unat sz - 1" using assms(1) by simp
  ultimately show ?thesis using assms(2) by (simp add: snprintf_at_def Let_def)
qed

lemma put_names_tail:
  assumes "take (Suc (length p)) buf = p @ [NUL]" and "p \<noteq> []" and "unat offs = length p"
    and "length (p @ concat (map ((#) CHR '' '') ns)) < unat maxlen" and "unat maxlen \<le> length buf"
  shows "\<exists>buf'. put_names maxlen ns offs buf = Some buf' \<and>
    take (Suc (length (p @ concat (map ((#) CHR '' '') ns)))) buf'
      = p @ concat (map ((#) CHR '' '') ns) @ [NUL]"
  using assms
proof (induction ns arbitrary: p buf offs)
  case (Cons n ns)
  define str where "str = CHR '' '' # n"
  have o: "offs \<noteq> 0" using Cons.prems(2,3) by auto
  have le: "length p + length str < unat maxlen" using Cons.prems(4) by (simp add: str_def)
  have sub: "unat (maxlen - offs) = unat maxlen - length p"
    using le Cons.prems(3) by (simp add: unat_minus_le word_le_nat_alt)
  let ?buf = "take (length p) buf @ str @ [NUL] @ drop (length p + length str + 1) buf"
  have w: "snprintf_at offs (maxlen - offs) str buf = Some (word_of_nat (length str), ?buf)"
    using snprintf_fits [of str "maxlen - offs" offs buf] le sub Cons.prems(3,5) by simp
  have lb: "length ?buf = length buf" using le Cons.prems(5) by simp
  have tk: "take (length p) buf = p"
    using arg_cong [OF Cons.prems(1), of "take (length p)"] by simp
  have "unat maxlen \<le> 4294967295" by simp
  then have "length p + length str < 4294967296" using le by linarith
  moreover from this have "unat (word_of_nat (length str) :: u32) = length str"
    by (simp add: unsigned_of_nat take_bit_nat_eq_self)
  ultimately have off: "unat (offs + word_of_nat (length str)) = length (p @ str)"
    using unat_add_no_wrap [of offs "word_of_nat (length str)"] Cons.prems(3) by simp
  have t: "take (Suc (length (p @ str))) ?buf = (p @ str) @ [NUL]" unfolding tk by simp
  have "length ((p @ str) @ concat (map ((#) CHR '' '') ns)) < unat maxlen"
    using Cons.prems(4) by (simp add: str_def)
  moreover have "p @ str \<noteq> []" by (simp add: str_def)
  moreover have "unat maxlen \<le> length ?buf" unfolding lb by (rule Cons.prems(5))
  ultimately obtain buf' where
    "put_names maxlen ns (offs + word_of_nat (length str)) ?buf = Some buf'"
    "take (Suc (length ((p @ str) @ concat (map ((#) CHR '' '') ns)))) buf'
      = (p @ str) @ concat (map ((#) CHR '' '') ns) @ [NUL]"
    using Cons.IH [OF t _ off] by blast
  with w o show ?case by (simp add: str_def)
qed simp

lemma put_names_join:
  assumes "ns \<noteq> []" and "[] \<notin> set ns" and "length (join_names ns) < unat maxlen"
    and "unat maxlen \<le> length buf"
  shows "\<exists>buf'. put_names maxlen ns 0 buf = Some buf' \<and>
    take (Suc (length (join_names ns))) buf' = join_names ns @ [NUL]"
proof -
  obtain n ms where ns: "ns = n # ms" using assms(1) by (cases ns) auto
  have n: "n \<noteq> []" using assms(2) ns by auto
  have le: "length n < unat maxlen" using assms(3) ns by simp
  let ?buf = "n @ [NUL] @ drop (length n + 1) buf"
  have w: "snprintf_at 0 (maxlen - 0) n buf = Some (word_of_nat (length n), ?buf)"
    using snprintf_fits [of n maxlen 0 buf] le assms(4) by simp
  have "unat maxlen \<le> 4294967295" by simp
  then have "length n < 4294967296" using le by linarith
  then have off: "unat (word_of_nat (length n) :: u32) = length n"
    by (simp add: unsigned_of_nat take_bit_nat_eq_self)
  have "length (n @ concat (map ((#) CHR '' '') ms)) < unat maxlen" using assms(3) ns by simp
  moreover have "unat maxlen \<le> length ?buf" using assms(4) le by simp
  moreover have "take (Suc (length n)) ?buf = n @ [NUL]" by simp
  ultimately have "\<exists>buf'. put_names maxlen ms (word_of_nat (length n)) ?buf = Some buf' \<and>
      take (Suc (length (n @ concat (map ((#) CHR '' '') ms)))) buf'
        = n @ concat (map ((#) CHR '' '') ms) @ [NUL]"
    using n off by (intro put_names_tail)
  with w show ?thesis by (simp add: ns)
qed

text \<open>Once the names do not fit, the remaining size wraps around, and the code writes past the buffer.\<close>

lemma put_names_overflow:
  "put_names 4 [''reno'', ''bic''] 0 [NUL, NUL, NUL, NUL] = Some (''ren'' @ [NUL])"
  "put_names 4 [''cubic'', ''bic''] 0 [NUL, NUL, NUL, NUL] = None"
  by (simp_all add: snprintf_at_def NUL_def Let_def)

section \<open>Properties of registration\<close>

text \<open>Registration as an operation on the list of algorithms.\<close>

lemma register_spec:
  assumes "registry_ok s xs" and "ca \<notin> set xs" and "ca \<noteq> 0" and "ca \<noteq> ns_tcp_cong_list"
  shows "\<exists>r s'. tcp_register_congestion_control ca s = Some (r, s') \<and>
    (if ca_ssthresh (reg_ops s ca) = None \<or> ca_cong_avoid (reg_ops s ca) = None
     then r = - EINVAL \<and> s' = s
     else if ca_name (reg_ops s ca) \<in> set (reg_names s xs) then r = - EEXIST \<and> s' = s
     else r = 0 \<and> registry_ok s' (xs @ [ca]) \<and> reg_ops s' = reg_ops s)"
proof -
  have r: "ring (reg_list s) xs" "distinct (reg_names s xs)" using assms(1) by (auto simp: registry_ok_def)
  from list_add_tail_ring [OF r(1) assms(2,3,4)] obtain l where
    l: "list_add_tail_rcu ca (reg_list s) = Some l" "ring l (xs @ [ca])" by blast
  have n: "reg_names (s\<lparr>reg_list := l\<rparr>) ys = reg_names s ys" for ys by (simp add: reg_names_def)
  show ?thesis
  proof (cases "ca_name (reg_ops s ca) \<in> set (reg_names s xs)")
    case True
    from tcp_ca_find_found [OF r(1) True] True assms(3) show ?thesis
      by (auto simp: tcp_register_congestion_control_def)
  next
    case False
    then have "distinct (reg_names s (xs @ [ca]))" using r(2) by (simp add: reg_names_def)
    with False tcp_ca_find_0 [OF r(1) False] l assms(3) show ?thesis
      by (simp add: tcp_register_congestion_control_def registry_ok_def n)
  qed
qed

text \<open>
  registration, as an operation on the list of algorithms: a table without \<open>ssthresh\<close> or
  \<open>cong_avoid\<close> is refused with \<open>EINVAL\<close> and a taken name with \<open>EEXIST\<close>, both leaving the
  registry alone; any other new table is appended, and names stay distinct.
\<close>

theorem register_appends:
  assumes "registry_ok s xs" and "ca \<notin> set xs" and "ca \<noteq> 0" and "ca \<noteq> ns_tcp_cong_list"
  shows "\<exists>r s'. tcp_register_congestion_control ca s = Some (r, s') \<and>
    (if ca_ssthresh (reg_ops s ca) = None \<or> ca_cong_avoid (reg_ops s ca) = None
     then r = - EINVAL \<and> s' = s
     else if ca_name (reg_ops s ca) \<in> set (reg_names s xs) then r = - EEXIST \<and> s' = s
     else r = 0 \<and> registry_ok s' (xs @ [ca]) \<and> reg_ops s' = reg_ops s)"
  using assms by (rule register_spec)

text \<open>
  unregistering an algorithm removes exactly it from the list, and its name is free again.
\<close>

theorem unregister_removes:
  assumes "registry_ok s xs" and "ca \<in> set xs"
  shows "\<exists>s'. tcp_unregister_congestion_control ca s = Some s' \<and> registry_ok s' (remove1 ca xs)
    \<and> reg_ops s' = reg_ops s \<and> tcp_ca_find (ca_name (reg_ops s ca)) s' = Some 0"
proof -
  have r: "ring (reg_list s) xs" "distinct (reg_names s xs)" using assms(1) by (auto simp: registry_ok_def)
  from list_del_ring [OF r(1) assms(2)] obtain l where
    l: "list_del_rcu ca (reg_list s) = Some l" "ring l (remove1 ca xs)" by blast
  have n: "reg_names (s\<lparr>reg_list := l\<rparr>) ys = reg_names s ys" for ys by (simp add: reg_names_def)
  have inj: "inj_on (\<lambda>a. ca_name (reg_ops s a)) (set xs)" and d: "distinct xs"
    using r(2) by (auto simp: reg_names_def distinct_map)
  have "distinct (reg_names s (remove1 ca xs))"
    using inj d by (auto simp: reg_names_def distinct_map inj_on_def)
  moreover have "ca_name (reg_ops s ca) \<notin> set (reg_names s (remove1 ca xs))"
    using inj d assms(2) by (auto simp: reg_names_def inj_on_def)
  ultimately show ?thesis
    using l tcp_ca_find_0 [of "s\<lparr>reg_list := l\<rparr>" "remove1 ca xs" "ca_name (reg_ops s ca)"]
    by (simp add: tcp_unregister_congestion_control_def registry_ok_def n)
qed

text \<open>
  changing the default: a registered name moves to the front of the list (the rest keeps its
  order), is reported as the default and becomes usable by everyone; an unknown name is refused
  with \<open>ENOENT\<close> and changes nothing.
\<close>

theorem set_default_moves_to_front:
  assumes "registry_ok s xs" and "length name \<le> TCP_CA_NAME_MAX"
  shows "if name \<in> set (reg_names s xs)
    then \<exists>a s'. tcp_set_default_congestion_control name s = Some (0, s')
      \<and> a \<in> set xs \<and> ca_name (reg_ops s a) = name \<and> registry_ok s' (a # remove1 a xs)
      \<and> tcp_get_default_congestion_control s' = Some name \<and> non_restricted (reg_ops s' a)
    else tcp_set_default_congestion_control name s = Some (- ENOENT, s)"
proof (cases "name \<in> set (reg_names s xs)")
  case False
  with tcp_ca_find_0 [of s xs name] assms(1) show ?thesis
    by (simp add: tcp_set_default_congestion_control_def registry_ok_def)
next
  case True
  have r: "ring (reg_list s) xs" "distinct (reg_names s xs)" using assms(1) by (auto simp: registry_ok_def)
  from tcp_ca_find_found [OF r(1) True] obtain a where
    a: "tcp_ca_find name s = Some a" "a \<in> set xs" "ca_name (reg_ops s a) = name" "a \<noteq> 0" by blast
  from list_move_ring [OF r(1) a(2)] obtain l where
    l: "list_move a (reg_list s) = Some l" "ring l (a # remove1 a xs)" by blast
  let ?s = "(upd_flags a allow s)\<lparr>reg_list := l\<rparr>"
  have h: "next_of l ns_tcp_cong_list = a" "a \<noteq> ns_tcp_cong_list" using l(2) by (auto simp: ring_def)
  have "insert a (set xs) = set xs" using a(2) by blast
  then have "distinct (reg_names ?s (a # remove1 a xs))"
    using r(2) a(2) by (auto simp: reg_names_def distinct_map upd_flags_def inj_on_def)
  then have "registry_ok ?s (a # remove1 a xs)" using l(2) by (simp add: registry_ok_def)
  moreover have "tcp_get_default_congestion_control ?s = Some name"
    using h a(3,4) assms(2) by (simp add: tcp_get_default_congestion_control_def upd_flags_def)
  moreover have "non_restricted (reg_ops ?s a)"
    by (simp add: non_restricted_def upd_flags_def)
  moreover have "tcp_set_default_congestion_control name s = Some (0, ?s)"
    using a l by (simp add: tcp_set_default_congestion_control_def)
  ultimately show ?thesis using True a by auto
qed

text \<open>
  C40: setting the allowed algorithms is all or nothing: if every name of the string is
  registered, exactly the named algorithms become usable by everyone; otherwise the call fails
  with \<open>ENOENT\<close> and changes nothing.
\<close>

theorem set_allowed_all_or_nothing:
  assumes "registry_ok s xs"
  shows "if set (names_of val) \<subseteq> set (reg_names s xs)
    then \<exists>s'. tcp_set_allowed_congestion_control False val s = Some (0, s') \<and> registry_ok s' xs
      \<and> (\<forall>a \<in> set xs. non_restricted (reg_ops s' a)
           \<longleftrightarrow> ca_name (reg_ops s' a) \<in> set (names_of val))
    else tcp_set_allowed_congestion_control False val s = Some (- ENOENT, s)"
  using assms by (rule set_allowed_spec)

text \<open>
  selecting an algorithm for a socket never changes the socket: \<open>try_module_get\<close> is 0 in this
  build, so a registered algorithm other than the current one is refused with \<open>EBUSY\<close>, whatever
  its restriction, and an unknown name with \<open>ENOENT\<close> (or accepted, when no algorithm is
  installed).
\<close>

theorem set_congestion_control_never_installs:
  assumes "registry_ok s xs"
  shows "\<exists>r. tcp_set_congestion_control name k s sk = Some (r, sk) \<and>
    (if name \<in> set (reg_names s xs)
     then (r = 0 \<and> ca_name (reg_ops s (icsk_ca_ops sk)) = name \<or> r = - EBUSY)
     else r = (if icsk_ca_ops sk = 0 then 0 else - ENOENT))"
proof -
  have r: "ring (reg_list s) xs" using assms by (simp add: registry_ok_def)
  show ?thesis
  proof (cases "name \<in> set (reg_names s xs)")
    case True
    from tcp_ca_find_found [OF r True] True show ?thesis
      by (auto simp: tcp_set_congestion_control_def try_module_get_def capable_def)
  next
    case False
    from tcp_ca_find_0 [OF r False] False show ?thesis
      by (auto simp: tcp_set_congestion_control_def)
  qed
qed

text \<open>
  the string of available algorithms is the names of the list in order, separated by
  single spaces and ended by a NUL, if it fits in the buffer.
\<close>

theorem available_lists_names:
  assumes "registry_ok s xs" and "xs \<noteq> []" and "[] \<notin> set (reg_names s xs)"
    and "length (join_names (reg_names s xs)) < unat maxlen" and "unat maxlen \<le> length buf"
  shows "\<exists>buf'. tcp_get_available_congestion_control buf maxlen s = Some buf' \<and>
    take (Suc (length (join_names (reg_names s xs)))) buf' = join_names (reg_names s xs) @ [NUL]"
proof -
  have "reg_names s xs \<noteq> []" using assms(2) by (simp add: reg_names_def)
  from put_names_join [OF this assms(3,4,5)]
  have "\<exists>buf'. put_names maxlen (map (\<lambda>a. ca_name (reg_ops s a)) xs) 0 buf = Some buf' \<and>
    take (Suc (length (join_names (reg_names s xs)))) buf' = join_names (reg_names s xs) @ [NUL]"
    by (simp add: reg_names_def)
  moreover have "list_walk (reg_list s) (next_of (reg_list s) ns_tcp_cong_list) = Some xs"
    using assms(1) by (intro list_walk_ring) (simp add: registry_ok_def)
  ultimately show ?thesis by (simp add: tcp_get_available_congestion_control_def)
qed

section \<open>A registry\<close>

definition sample_registry :: "unit registry" where
  "sample_registry = \<lparr>
     reg_list = \<lparr> next_of = (\<lambda>a. if a = 1 then 3 else if a = 3 then 4 else if a = 4 then 1 else 0),
       prev_of = (\<lambda>a. if a = 1 then 4 else if a = 3 then 1 else if a = 4 then 3 else 0),
       file_name_of = (\<lambda>_. None), last_added = 4, cc_list_changed = 1 \<rparr>,
     reg_ops = (\<lambda>a. if a = 3 then tcp_reno else if a = 4 then tcp_reno\<lparr>ca_name := ''bic'', ca_flags := 0\<rparr>
                    else tcp_reno\<lparr>ca_name := ''htcp'', ca_flags := 0\<rparr>) \<rparr>"

lemma sample_registry_ok: "registry_ok sample_registry [3, 4]"
  by (simp add: registry_ok_def ring_def sample_registry_def reg_names_def ns_tcp_cong_list_def
      tcp_reno_def)

lemma sample_names: "reg_names sample_registry [3, 4] = [''reno'', ''bic'']"
  by (simp add: reg_names_def sample_registry_def tcp_reno_def)

theorem register_appends_witness:
  "\<exists>s'. tcp_register_congestion_control 5 sample_registry = Some (0, s') \<and> registry_ok s' [3, 4, 5]"
proof -
  have "ca_ssthresh (reg_ops sample_registry 5) \<noteq> None" "ca_cong_avoid (reg_ops sample_registry 5) \<noteq> None"
    "ca_name (reg_ops sample_registry 5) \<notin> set (reg_names sample_registry [3, 4])"
    unfolding sample_names by (simp_all add: sample_registry_def tcp_reno_def)
  with register_appends [OF sample_registry_ok, of 5] show ?thesis
    by (auto simp: ns_tcp_cong_list_def)
qed

theorem unregister_removes_witness:
  "\<exists>s'. tcp_unregister_congestion_control 3 sample_registry = Some s' \<and> registry_ok s' [4]"
  using unregister_removes [OF sample_registry_ok, of 3] by auto

theorem set_default_moves_to_front_witness:
  "\<exists>a s'. tcp_set_default_congestion_control ''bic'' sample_registry = Some (0, s')
     \<and> tcp_get_default_congestion_control s' = Some ''bic'' \<and> non_restricted (reg_ops s' a)"
  using set_default_moves_to_front [OF sample_registry_ok, of "''bic''"]
  by (auto simp: sample_names TCP_CA_NAME_MAX_def)

theorem set_allowed_all_or_nothing_witness:
  "\<exists>s'. tcp_set_allowed_congestion_control False ''bic reno'' sample_registry = Some (0, s')
     \<and> registry_ok s' [3, 4]"
  using set_allowed_all_or_nothing [OF sample_registry_ok, of "''bic reno''"]
  by (auto simp: sample_names names_of_def)

theorem set_congestion_control_never_installs_witness:
  "\<exists>r. tcp_set_congestion_control ''bic'' kernel_init sample_registry (sample_sk ()) = Some (r, sample_sk ())"
  using set_congestion_control_never_installs [OF sample_registry_ok, of "''bic''" kernel_init "sample_sk ()"]
  by auto

theorem available_lists_names_witness:
  "\<exists>buf'. tcp_get_available_congestion_control (replicate 16 NUL) 16 sample_registry = Some buf'
     \<and> take 9 buf' = ''reno bic'' @ [NUL]"
proof -
  have j: "join_names (reg_names sample_registry [3, 4]) = ''reno bic''" by (simp add: sample_names)
  have e: "[] \<notin> set (reg_names sample_registry [3, 4])" by (simp add: sample_names)
  have l: "length (join_names (reg_names sample_registry [3, 4])) = 8" by (simp add: j)
  show ?thesis
    using available_lists_names [OF sample_registry_ok _ e, of 16 "replicate 16 NUL"]
    unfolding l by (simp add: j)
qed

end
