(* ===== verification/Cong_Modules.thy ===== *)
theory Cong_Modules
  imports Param_Manager Registry
begin

text \<open>
  Loading the modules. Each file of an algorithm declares its parameters and calls \<open>module_init\<close>,
  whose constructor registers the table and then names the file of the table that was added last
  (src/ns-2.34/tcp/linux/ns-linux-c.h, the ends of src/ns-2.34/tcp/linux/src/tcp_*.c and of
  src/ns-2.34/tcp/linux/tcp_naivereno.c). \<open>CongestionControlManager\<close> of
  src/ns-2.34/tcp/tcp-linux.cc keeps an array of the registered tables, which the agent searches
  by name.
\<close>

section \<open>The parameters of the modules\<close>

text \<open>\<open>at\<close> gives the addresses of the variables of the file.\<close>

definition bic_ctors :: "(string \<Rightarrow> addr) \<Rightarrow> param_ctor list" where
  "bic_ctors at =
    [Module_param ''tcp_bic.c'' ''fast_convergence'' ''int'' (at ''fast_convergence''),
     Module_parm_desc ''tcp_bic.c'' ''fast_convergence''
       ''turn on/off fast convergence'',
     Module_param ''tcp_bic.c'' ''max_increment'' ''int'' (at ''max_increment''),
     Module_parm_desc ''tcp_bic.c'' ''max_increment''
       ''Limit on increment allowed during binary search'',
     Module_param ''tcp_bic.c'' ''low_window'' ''int'' (at ''low_window''),
     Module_parm_desc ''tcp_bic.c'' ''low_window''
       ''lower bound on congestion window (for TCP friendliness)'',
     Module_param ''tcp_bic.c'' ''beta'' ''int'' (at ''beta''),
     Module_parm_desc ''tcp_bic.c'' ''beta''
       ''beta for multiplicative increase'',
     Module_param ''tcp_bic.c'' ''initial_ssthresh'' ''int'' (at ''initial_ssthresh''),
     Module_parm_desc ''tcp_bic.c'' ''initial_ssthresh''
       ''initial value of slow start threshold'',
     Module_param ''tcp_bic.c'' ''smooth_part'' ''int'' (at ''smooth_part''),
     Module_parm_desc ''tcp_bic.c'' ''smooth_part''
       ''log(B/(B*Smin))/log(B/(B-1))+B, # of RTT from Wmax-B to Wmax'']"

definition cubic_ctors :: "(string \<Rightarrow> addr) \<Rightarrow> param_ctor list" where
  "cubic_ctors at =
    [Module_param ''tcp_cubic.c'' ''fast_convergence'' ''int'' (at ''fast_convergence''),
     Module_parm_desc ''tcp_cubic.c'' ''fast_convergence''
       ''turn on/off fast convergence'',
     Module_param ''tcp_cubic.c'' ''max_increment'' ''int'' (at ''max_increment''),
     Module_parm_desc ''tcp_cubic.c'' ''max_increment''
       ''Limit on increment allowed during binary search'',
     Module_param ''tcp_cubic.c'' ''beta'' ''int'' (at ''beta''),
     Module_parm_desc ''tcp_cubic.c'' ''beta''
       ''beta for multiplicative increase'',
     Module_param ''tcp_cubic.c'' ''initial_ssthresh'' ''int'' (at ''initial_ssthresh''),
     Module_parm_desc ''tcp_cubic.c'' ''initial_ssthresh''
       ''initial value of slow start threshold'',
     Module_param ''tcp_cubic.c'' ''bic_scale'' ''int'' (at ''bic_scale''),
     Module_parm_desc ''tcp_cubic.c'' ''bic_scale''
       ''scale (scaled by 1024) value for bic function (bic_scale/1024)'',
     Module_param ''tcp_cubic.c'' ''tcp_friendliness'' ''int'' (at ''tcp_friendliness''),
     Module_parm_desc ''tcp_cubic.c'' ''tcp_friendliness''
       ''turn on/off tcp friendliness'']"

definition vegas_ctors :: "(string \<Rightarrow> addr) \<Rightarrow> param_ctor list" where
  "vegas_ctors at =
    [Module_param ''tcp_vegas.c'' ''alpha'' ''int'' (at ''alpha''),
     Module_parm_desc ''tcp_vegas.c'' ''alpha''
       ''lower bound of packets in network (scale by 2)'',
     Module_param ''tcp_vegas.c'' ''beta'' ''int'' (at ''beta''),
     Module_parm_desc ''tcp_vegas.c'' ''beta''
       ''upper bound of packets in network (scale by 2)'',
     Module_param ''tcp_vegas.c'' ''gamma'' ''int'' (at ''gamma''),
     Module_parm_desc ''tcp_vegas.c'' ''gamma''
       ''limit on increase (scale by 2)'']"

definition illinois_ctors :: "(string \<Rightarrow> addr) \<Rightarrow> param_ctor list" where
  "illinois_ctors at =
    [Module_param ''tcp_illinois.c'' ''win_thresh'' ''int'' (at ''win_thresh''),
     Module_parm_desc ''tcp_illinois.c'' ''win_thresh''
       ''Window threshold for starting adaptive sizing'',
     Module_param ''tcp_illinois.c'' ''theta'' ''int'' (at ''theta''),
     Module_parm_desc ''tcp_illinois.c'' ''theta''
       ''# of fast RTT's before full growth'']"

definition htcp_ctors :: "(string \<Rightarrow> addr) \<Rightarrow> param_ctor list" where
  "htcp_ctors at =
    [Module_param ''tcp_htcp.c'' ''use_rtt_scaling'' ''int'' (at ''use_rtt_scaling''),
     Module_parm_desc ''tcp_htcp.c'' ''use_rtt_scaling''
       ''turn on/off RTT scaling'',
     Module_param ''tcp_htcp.c'' ''use_bandwidth_switch'' ''int'' (at ''use_bandwidth_switch''),
     Module_parm_desc ''tcp_htcp.c'' ''use_bandwidth_switch''
       ''turn on/off bandwidth switcher'']"

definition hybla_ctors :: "(string \<Rightarrow> addr) \<Rightarrow> param_ctor list" where
  "hybla_ctors at =
    [Module_param ''tcp_hybla.c'' ''rtt0'' ''int'' (at ''rtt0''),
     Module_parm_desc ''tcp_hybla.c'' ''rtt0''
       ''reference rout trip time (ms)'']"

definition naive_reno_ctors :: "(string \<Rightarrow> addr) \<Rightarrow> param_ctor list" where
  "naive_reno_ctors at =
    [Module_param ''tcp_naive_reno.c'' ''alpha'' ''int'' (at ''alpha''),
     Module_parm_desc ''tcp_naive_reno.c'' ''alpha''
       ''AI increment size of window (in unit of pkt/round trip time)'',
     Module_param ''tcp_naive_reno.c'' ''beta'' ''int'' (at ''beta''),
     Module_parm_desc ''tcp_naive_reno.c'' ''beta''
       ''MD decrement portion of window: every loss the window is reduced by a proportion of 1/beta'']"

definition linux_ctors :: "(string \<Rightarrow> addr) \<Rightarrow> param_ctor list" where
  "linux_ctors at =
    [Module_param ''tcp_linux.c'' ''sysctl_tcp_abc'' ''int'' (at ''sysctl_tcp_abc''),
     Module_parm_desc ''tcp_linux.c'' ''sysctl_tcp_abc''
       ''whether we needs ABC or not'',
     Module_param ''tcp_linux.c'' ''tcp_max_burst'' ''int'' (at ''tcp_max_burst''),
     Module_parm_desc ''tcp_linux.c'' ''tcp_max_burst''
       ''the maximum burst size of a TCP'',
     Module_param ''tcp_linux.c'' ''debug_level'' ''int'' (at ''debug_level''),
     Module_parm_desc ''tcp_linux.c'' ''debug_level''
       ''The debug level: 0: INFO; <=1: NOTICE; <=2: ERROR'']"

definition all_ctors :: "(string \<Rightarrow> string \<Rightarrow> addr) \<Rightarrow> param_ctor list" where
  "all_ctors at = bic_ctors (at ''bic'') @ cubic_ctors (at ''cubic'') @ vegas_ctors (at ''vegas'')
     @ illinois_ctors (at ''illinois'') @ htcp_ctors (at ''htcp'') @ hybla_ctors (at ''hybla'')
     @ naive_reno_ctors (at ''naive_reno'') @ linux_ctors (at ''linux'')"

lemmas ctors_defs = all_ctors_def bic_ctors_def cubic_ctors_def vegas_ctors_def illinois_ctors_def
  htcp_ctors_def hybla_ctors_def naive_reno_ctors_def linux_ctors_def

lemma all_ctors_distinct: "ctors_distinct (all_ctors at)"
  by (simp add: ctors_distinct_def ctors_defs)

theorem constructors_any_order_witness:
  "\<exists>q. lookup (fold run_ctor (rev (all_ctors (\<lambda>f v. 4))) []) (''tcp_htcp.c'', ''use_rtt_scaling'') = Some q
     \<and> cp_type q = Some ''int'' \<and> cp_desc q = Some ''turn on/off RTT scaling''"
proof -
  let ?p = "Module_param ''tcp_htcp.c'' ''use_rtt_scaling'' ''int'' 4"
  let ?d = "Module_parm_desc ''tcp_htcp.c'' ''use_rtt_scaling'' ''turn on/off RTT scaling''"
  have m: "?p \<in> set (all_ctors (\<lambda>f v. 4))" "?d \<in> set (all_ctors (\<lambda>f v. 4))"
    by (simp_all add: all_ctors_def htcp_ctors_def)
  have "mset (rev (all_ctors (\<lambda>f v. 4))) = mset (all_ctors (\<lambda>f v. 4))" by simp
  from conjunct2 [OF constructors_any_order [OF all_ctors_distinct this]]
  have "\<forall>c \<in> set (all_ctors (\<lambda>f v. 4)). \<exists>q.
    lookup (fold run_ctor (rev (all_ctors (\<lambda>f v. 4))) []) (ctor_key c) = Some q \<and> ctor_shown c q" .
  from bspec [OF this m(1)] bspec [OF this m(2)] show ?thesis by auto
qed

theorem declared_param_roundtrip_witness:
  "get_default_param (fold run_ctor (all_ctors (\<lambda>f v. 4)) []) ''hybla'' ''rtt0''
     (store_int (\<lambda>_. 0) 4 50) = Some (Some 50)"
  using declared_param_roundtrip [OF all_ctors_distinct [of "\<lambda>f v. 4"] refl, where proto = "''hybla''"
      and name = "''rtt0''" and a = 4 and v = 50 and m = "\<lambda>_. 0"]
  by (simp add: mgr_file_def all_ctors_def hybla_ctors_def)

theorem char_param_clears_neighbours_witness:
  "\<exists>m'. set_default_param (fold run_ctor (all_ctors (\<lambda>f v. 4)) []) ''linux'' ''sysctl_tcp_abc'' 1
       ((\<lambda>_. 0)(4 := 1, 5 := 3, 6 := 1)) = Some (True, m') \<and> m' 5 = 0 \<and> m' 6 = 0"
  using char_param_clears_neighbours [OF all_ctors_distinct [of "\<lambda>f v. 4"] refl, where proto = "''linux''"
      and name = "''sysctl_tcp_abc''" and a = 4 and v = 1
      and m = "(\<lambda>_. 0)(4 := 1, 5 := 3, 6 := 1)"]
  by (auto simp: mgr_file_def all_ctors_def linux_ctors_def)

section \<open>Registering the modules\<close>

type_synonym 'ca register_fn = "addr \<Rightarrow> 'ca registry \<Rightarrow> (int \<times> 'ca registry) option"
type_synonym 'ca unregister_fn = "addr \<Rightarrow> 'ca registry \<Rightarrow> 'ca registry option"
type_synonym 'ca module = "string \<times> 'ca register_fn \<times> 'ca unregister_fn option"

definition bictcp_register :: "'ca register_fn" where
  "bictcp_register = tcp_register_congestion_control"

definition bictcp_unregister :: "'ca unregister_fn" where
  "bictcp_unregister = tcp_unregister_congestion_control"

definition cubic_module_register :: "'ca register_fn" where
  "cubic_module_register = tcp_register_congestion_control"

definition cubic_module_unregister :: "'ca unregister_fn" where
  "cubic_module_unregister = tcp_unregister_congestion_control"

definition hstcp_register :: "'ca register_fn" where
  "hstcp_register = tcp_register_congestion_control"

definition hstcp_unregister :: "'ca unregister_fn" where
  "hstcp_unregister = tcp_unregister_congestion_control"

definition htcp_register :: "'ca register_fn" where
  "htcp_register = tcp_register_congestion_control"

definition htcp_unregister :: "'ca unregister_fn" where
  "htcp_unregister = tcp_unregister_congestion_control"

definition hybla_register :: "'ca register_fn" where
  "hybla_register = tcp_register_congestion_control"

definition hybla_unregister :: "'ca unregister_fn" where
  "hybla_unregister = tcp_unregister_congestion_control"

definition tcp_illinois_register :: "'ca register_fn" where
  "tcp_illinois_register = tcp_register_congestion_control"

definition tcp_illinois_unregister :: "'ca unregister_fn" where
  "tcp_illinois_unregister = tcp_unregister_congestion_control"

definition tcp_lp_register :: "'ca register_fn" where
  "tcp_lp_register = tcp_register_congestion_control"

definition tcp_lp_unregister :: "'ca unregister_fn" where
  "tcp_lp_unregister = tcp_unregister_congestion_control"

definition tcp_scalable_register :: "'ca register_fn" where
  "tcp_scalable_register = tcp_register_congestion_control"

definition tcp_scalable_unregister :: "'ca unregister_fn" where
  "tcp_scalable_unregister = tcp_unregister_congestion_control"

definition tcp_vegas_register :: "'ca register_fn" where
  "tcp_vegas_register ca s = do { (r, s) \<leftarrow> tcp_register_congestion_control ca s; Some (0, s) }"

definition tcp_vegas_unregister :: "'ca unregister_fn" where
  "tcp_vegas_unregister = tcp_unregister_congestion_control"

definition tcp_veno_register :: "'ca register_fn" where
  "tcp_veno_register ca s = do { (r, s) \<leftarrow> tcp_register_congestion_control ca s; Some (0, s) }"

definition tcp_veno_unregister :: "'ca unregister_fn" where
  "tcp_veno_unregister = tcp_unregister_congestion_control"

definition tcp_westwood_register :: "'ca register_fn" where
  "tcp_westwood_register = tcp_register_congestion_control"

definition tcp_westwood_unregister :: "'ca unregister_fn" where
  "tcp_westwood_unregister = tcp_unregister_congestion_control"

definition tcp_yeah_register :: "'ca register_fn" where
  "tcp_yeah_register ca s = do { (r, s) \<leftarrow> tcp_register_congestion_control ca s; Some (0, s) }"

definition tcp_yeah_unregister :: "'ca unregister_fn" where
  "tcp_yeah_unregister = tcp_unregister_congestion_control"

definition tcp_compound_register :: "'ca register_fn" where
  "tcp_compound_register ca s = do { (r, s) \<leftarrow> tcp_register_congestion_control ca s; Some (0, s) }"

definition tcp_compound_unregister :: "'ca unregister_fn" where
  "tcp_compound_unregister = tcp_unregister_congestion_control"

definition tcp_naive_reno_register :: "'ca register_fn" where
  "tcp_naive_reno_register ca s = do { (r, s) \<leftarrow> tcp_register_congestion_control ca s; Some (0, s) }"

definition modules :: "'ca module list" where
  "modules =
    [(''tcp_bic.c'', bictcp_register, Some bictcp_unregister),
     (''tcp_cubic.c'', cubic_module_register, Some cubic_module_unregister),
     (''tcp_highspeed.c'', hstcp_register, Some hstcp_unregister),
     (''tcp_htcp.c'', htcp_register, Some htcp_unregister),
     (''tcp_hybla.c'', hybla_register, Some hybla_unregister),
     (''tcp_illinois.c'', tcp_illinois_register, Some tcp_illinois_unregister),
     (''tcp_lp.c'', tcp_lp_register, Some tcp_lp_unregister),
     (''tcp_scalable.c'', tcp_scalable_register, Some tcp_scalable_unregister),
     (''tcp_vegas.c'', tcp_vegas_register, Some tcp_vegas_unregister),
     (''tcp_veno.c'', tcp_veno_register, Some tcp_veno_unregister),
     (''tcp_westwood.c'', tcp_westwood_register, Some tcp_westwood_unregister),
     (''tcp_yeah.c'', tcp_yeah_register, Some tcp_yeah_unregister),
     (''tcp_vegas.c'', tcp_compound_register, Some tcp_compound_unregister),
     (''tcp_naive_reno.c'', tcp_naive_reno_register, None)]"

text \<open>The constructor of \<open>module_init\<close>: the result of the registration is ignored.\<close>

definition module_init :: "string \<Rightarrow> 'ca register_fn \<Rightarrow> addr \<Rightarrow> 'ca registry \<Rightarrow> 'ca registry option" where
  "module_init file f ca s = do {
     (r, s) \<leftarrow> f ca s;
     l \<leftarrow> set_linux_file_name file (reg_list s);
     Some (s\<lparr>reg_list := l\<rparr>)
   }"

definition load_modules :: "('ca module \<times> addr) list \<Rightarrow> 'ca registry \<Rightarrow> 'ca registry option" where
  "load_modules ms s = fold (\<lambda>((file, f, g), ca) r. Option.bind r (module_init file f ca)) ms (Some s)"

text \<open>What each registration function of a file does.\<close>

lemma modules_register:
  assumes "(file, f, g) \<in> set modules" and "registry_ok s xs" and "ca \<notin> set xs" and "ca \<noteq> 0"
    and "ca \<noteq> ns_tcp_cong_list" and "ca_ssthresh (reg_ops s ca) \<noteq> None"
    and "ca_cong_avoid (reg_ops s ca) \<noteq> None" and "ca_name (reg_ops s ca) \<notin> set (reg_names s xs)"
  shows "\<exists>s'. f ca s = Some (0, s') \<and> tcp_register_congestion_control ca s = Some (0, s')"
proof -
  from assms(2-5) tcp_ca_find_0 [of s xs "ca_name (reg_ops s ca)"] assms(6-8)
    list_add_tail_ring [of "reg_list s" xs ca]
  obtain s' where s': "tcp_register_congestion_control ca s = Some (0, s')"
    by (auto simp: tcp_register_congestion_control_def registry_ok_def)
  from assms(1) have "f ca s = tcp_register_congestion_control ca s
    \<or> f ca s = do { (r, s) \<leftarrow> tcp_register_congestion_control ca s; Some (0, s) }"
    by (auto simp: modules_def bictcp_register_def cubic_module_register_def hstcp_register_def
        htcp_register_def hybla_register_def tcp_illinois_register_def tcp_lp_register_def
        tcp_scalable_register_def tcp_vegas_register_def tcp_veno_register_def
        tcp_westwood_register_def tcp_yeah_register_def tcp_compound_register_def
        tcp_naive_reno_register_def)
  with s' show ?thesis by auto
qed

lemma modules_unregister:
  "(file, f, Some g) \<in> set modules \<Longrightarrow> g = tcp_unregister_congestion_control"
  by (auto simp: modules_def bictcp_unregister_def cubic_module_unregister_def hstcp_unregister_def
      htcp_unregister_def hybla_unregister_def tcp_illinois_unregister_def tcp_lp_unregister_def
      tcp_scalable_unregister_def tcp_vegas_unregister_def tcp_veno_unregister_def
      tcp_westwood_unregister_def tcp_yeah_unregister_def tcp_compound_unregister_def)

lemma register_frame:
  assumes "tcp_register_congestion_control ca s = Some (0, s')"
  shows "last_added (reg_list s') = ca \<and> file_name_of (reg_list s') = file_name_of (reg_list s)
    \<and> cc_list_changed (reg_list s') = 1 \<and> reg_ops s' = reg_ops s"
  using assms
  by (auto simp: tcp_register_congestion_control_def list_add_tail_rcu_def set_next_def set_prev_def
      EINVAL_def EEXIST_def bind_eq_Some_conv split: if_splits)

text \<open>One module: the table is appended and its file is known.\<close>

lemma module_init_ok:
  assumes "(file, f, g) \<in> set modules" and "registry_ok s xs" and "ca \<notin> set xs" and "ca \<noteq> 0"
    and "ca \<noteq> ns_tcp_cong_list" and "ca_ssthresh (reg_ops s ca) \<noteq> None"
    and "ca_cong_avoid (reg_ops s ca) \<noteq> None" and "ca_name (reg_ops s ca) \<notin> set (reg_names s xs)"
  shows "\<exists>s'. module_init file f ca s = Some s' \<and> registry_ok s' (xs @ [ca]) \<and> reg_ops s' = reg_ops s
    \<and> file_name_of (reg_list s') = (file_name_of (reg_list s))(ca := Some file)
    \<and> cc_list_changed (reg_list s') = 1"
proof -
  from modules_register [OF assms] obtain s' where
    s': "f ca s = Some (0, s')" "tcp_register_congestion_control ca s = Some (0, s')" by blast
  from register_spec [OF assms(2,3,4,5)] s'(2) assms(6-8) have
    ok: "registry_ok s' (xs @ [ca])" by auto
  have fr: "last_added (reg_list s') = ca" "file_name_of (reg_list s') = file_name_of (reg_list s)"
    "cc_list_changed (reg_list s') = 1" "reg_ops s' = reg_ops s"
    using register_frame [OF s'(2)] by auto
  let ?l = "(reg_list s')\<lparr>file_name_of := (file_name_of (reg_list s'))(ca := Some file)\<rparr>"
  have "module_init file f ca s = Some (s'\<lparr>reg_list := ?l\<rparr>)"
    using s'(1) fr(1) assms(4,5) by (simp add: module_init_def set_linux_file_name_def)
  moreover have "registry_ok (s'\<lparr>reg_list := ?l\<rparr>) (xs @ [ca])"
    using ok by (simp add: registry_ok_def reg_names_def)
  ultimately show ?thesis using fr by simp
qed

lemma load_modules_ok:
  assumes "registry_ok s xs" and "fst ` set ms \<subseteq> set modules" and "distinct (xs @ map snd ms)"
    and "0 \<notin> set (map snd ms)" and "ns_tcp_cong_list \<notin> set (map snd ms)"
    and "\<forall>ca \<in> set (map snd ms). ca_ssthresh (reg_ops s ca) \<noteq> None \<and> ca_cong_avoid (reg_ops s ca) \<noteq> None"
    and "distinct (reg_names s (xs @ map snd ms))"
  shows "\<exists>s'. load_modules ms s = Some s' \<and> registry_ok s' (xs @ map snd ms) \<and> reg_ops s' = reg_ops s
    \<and> (\<forall>a. a \<notin> set (map snd ms) \<longrightarrow> file_name_of (reg_list s') a = file_name_of (reg_list s) a)
    \<and> (\<forall>(m, ca) \<in> set ms. file_name_of (reg_list s') ca = Some (fst m))
    \<and> (ms \<noteq> [] \<longrightarrow> cc_list_changed (reg_list s') = 1)"
  using assms
proof (induction ms arbitrary: s xs)
  case Nil
  then show ?case by (simp add: load_modules_def)
next
  case (Cons mc ms)
  obtain fl f g ca where mc: "mc = ((fl, f, g), ca)" by (metis surj_pair)
  have "(fl, f, g) \<in> set modules" "ca \<notin> set xs" "ca \<noteq> 0" "ca \<noteq> ns_tcp_cong_list"
    "ca_ssthresh (reg_ops s ca) \<noteq> None" "ca_cong_avoid (reg_ops s ca) \<noteq> None"
    "ca_name (reg_ops s ca) \<notin> set (reg_names s xs)"
    using Cons.prems by (auto simp: mc reg_names_def)
  from module_init_ok [OF this(1) Cons.prems(1) this(2-)] obtain s1 where
    s1: "module_init fl f ca s = Some s1" "registry_ok s1 (xs @ [ca])" "reg_ops s1 = reg_ops s"
      "file_name_of (reg_list s1) = (file_name_of (reg_list s))(ca := Some fl)"
      "cc_list_changed (reg_list s1) = 1" by blast
  have ld: "load_modules (mc # ms) s = load_modules ms s1" by (simp add: load_modules_def mc s1(1))
  have n: "reg_names s1 ys = reg_names s ys" for ys by (simp add: reg_names_def s1(3))
  obtain s' where
    s': "load_modules ms s1 = Some s'" "registry_ok s' ((xs @ [ca]) @ map snd ms)"
      "reg_ops s' = reg_ops s1"
      "\<forall>a. a \<notin> set (map snd ms) \<longrightarrow> file_name_of (reg_list s') a = file_name_of (reg_list s1) a"
      "\<forall>(m, ca) \<in> set ms. file_name_of (reg_list s') ca = Some (fst m)"
      "ms \<noteq> [] \<longrightarrow> cc_list_changed (reg_list s') = 1"
    using Cons.IH [OF s1(2)] Cons.prems(2-) by (auto simp: n s1(3) mc)
  have "ca \<notin> set (map snd ms)" using Cons.prems(3) by (simp add: mc)
  moreover have "cc_list_changed (reg_list s') = 1"
    using s'(1,6) s1(5) by (cases ms) (auto simp: load_modules_def)
  ultimately show ?case unfolding ld using s' s1(3,4) by (auto simp: mc)
qed

section \<open>The manager of the tables\<close>

text \<open>
  The manager is its array of pointers \<open>ops_list\<close> (\<open>num_\<close> is its length); \<open>reno\<close> is the address
  of \<open>tcp_reno\<close>, which is never registered and comes first.
\<close>

definition mgr_scan :: "addr \<Rightarrow> 'ca registry \<Rightarrow> (addr list \<times> 'ca registry) option" where
  "mgr_scan reno s = do {
     cas \<leftarrow> list_walk (reg_list s) (next_of (reg_list s) ns_tcp_cong_list);
     Some (reno # cas, s\<lparr>reg_list := (reg_list s)\<lparr>cc_list_changed := 0\<rparr>\<rparr>)
   }"

fun mgr_search :: "'ca registry \<Rightarrow> string \<Rightarrow> addr list \<Rightarrow> addr option" where
  "mgr_search s name [] = Some 0"
| "mgr_search s name (e # es) =
    (if e = 0 then None else if name = ca_name (reg_ops s e) then Some e else mgr_search s name es)"

definition get_ops ::
  "addr \<Rightarrow> string \<Rightarrow> addr list \<Rightarrow> 'ca registry \<Rightarrow> (addr \<times> addr list \<times> 'ca registry) option" where
  "get_ops reno name ops s = do {
     (ops, s) \<leftarrow> (if cc_list_changed (reg_list s) \<noteq> 0 then mgr_scan reno s else Some (ops, s));
     a \<leftarrow> mgr_search s name ops;
     Some (a, ops, s)
   }"

text \<open>The array is up to date, or the list is marked as changed.\<close>

definition mgr_ok :: "addr \<Rightarrow> addr list \<Rightarrow> 'ca registry \<Rightarrow> addr list \<Rightarrow> bool" where
  "mgr_ok reno ops s xs \<longleftrightarrow> registry_ok s xs \<and> reno \<noteq> 0
     \<and> (cc_list_changed (reg_list s) = 0 \<longrightarrow> ops = reno # xs)"

lemma mgr_search_eq:
  "0 \<notin> set es \<Longrightarrow> mgr_search s name es
     = Some (case find (\<lambda>e. ca_name (reg_ops s e) = name) es of None \<Rightarrow> 0 | Some e \<Rightarrow> e)"
  by (induction es) auto

lemma get_ops_ok:
  assumes "mgr_ok reno ops s xs"
  shows "\<exists>s'. get_ops reno name ops s
      = Some (case find (\<lambda>e. ca_name (reg_ops s e) = name) (reno # xs) of None \<Rightarrow> 0 | Some e \<Rightarrow> e,
          reno # xs, s')
    \<and> mgr_ok reno (reno # xs) s' xs \<and> reg_ops s' = reg_ops s"
proof -
  have r: "ring (reg_list s) xs" "reno \<noteq> 0" using assms by (auto simp: mgr_ok_def registry_ok_def)
  then have 0: "0 \<notin> set (reno # xs)" by (simp add: ring_def)
  let ?s = "s\<lparr>reg_list := (reg_list s)\<lparr>cc_list_changed := 0\<rparr>\<rparr>"
  have ok: "mgr_ok reno (reno # xs) ?s xs"
    using assms by (simp add: mgr_ok_def registry_ok_def reg_names_def)
  show ?thesis
  proof (cases "cc_list_changed (reg_list s) = 0")
    case True
    with assms have "ops = reno # xs" by (simp add: mgr_ok_def)
    with True assms mgr_search_eq [OF 0, of s name] show ?thesis
      by (auto simp: get_ops_def simp del: mgr_search.simps find.simps)
  next
    case False
    with ok mgr_search_eq [OF 0, of ?s name] show ?thesis
      by (auto simp: get_ops_def mgr_scan_def list_walk_ring [OF r(1)] simp del: mgr_search.simps find.simps)
  qed
qed

lemma mgr_ok_start: "registry_ok s xs \<Longrightarrow> reno \<noteq> 0 \<Longrightarrow> cc_list_changed (reg_list s) \<noteq> 0 \<Longrightarrow> mgr_ok reno ops s xs"
  by (simp add: mgr_ok_def)

text \<open>
  C36: loading the modules, in any order that the linker chooses: with tables at different
  addresses, with the two required operations and with different names, every module gets
  registered in that order under its file, and from then on the manager finds the table of each
  by its name, Reno under its own, and no table under any other name.
\<close>

theorem modules_load:
  assumes "registry_ok s []" and "fst ` set ms \<subseteq> set modules" and "distinct (map snd ms)"
    and "0 \<notin> set (map snd ms)" and "ns_tcp_cong_list \<notin> set (map snd ms)"
    and "\<forall>ca \<in> set (map snd ms). ca_ssthresh (reg_ops s ca) \<noteq> None \<and> ca_cong_avoid (reg_ops s ca) \<noteq> None"
    and "distinct (reg_names s (reno # map snd ms))" and "reno \<noteq> 0" and "ms \<noteq> []"
  shows "\<exists>s'. load_modules ms s = Some s' \<and> registry_ok s' (map snd ms)
    \<and> (\<forall>(m, ca) \<in> set ms. file_name_of (reg_list s') ca = Some (fst m))
    \<and> (\<forall>name. \<exists>a ops' s2. get_ops reno name ops s' = Some (a, ops', s2)
        \<and> (if name \<in> set (reg_names s (reno # map snd ms))
           then a \<in> set (reno # map snd ms) \<and> ca_name (reg_ops s a) = name else a = 0))"
proof -
  obtain s' where s': "load_modules ms s = Some s'" "registry_ok s' (map snd ms)" "reg_ops s' = reg_ops s"
    "\<forall>(m, ca) \<in> set ms. file_name_of (reg_list s') ca = Some (fst m)"
    "cc_list_changed (reg_list s') = 1"
    using load_modules_ok [OF assms(1,2)] assms(3-9) by (auto simp: reg_names_def)
  have "mgr_ok reno ops s' (map snd ms)" using s' assms(8) by (intro mgr_ok_start) simp_all
  note g = get_ops_ok [OF this]
  have "\<exists>a ops' s2. get_ops reno name ops s' = Some (a, ops', s2)
        \<and> (if name \<in> set (reg_names s (reno # map snd ms))
           then a \<in> set (reno # map snd ms) \<and> ca_name (reg_ops s a) = name else a = 0)" for name
  proof (cases "find (\<lambda>e. ca_name (reg_ops s' e) = name) (reno # map snd ms)")
    case None
    then have "name \<notin> set (reg_names s (reno # map snd ms))"
      unfolding find_None_iff s'(3) by (auto simp: reg_names_def)
    with g [of name] None show ?thesis by (auto simp del: find.simps)
  next
    case (Some e)
    then have e: "e \<in> set (reno # map snd ms)" "ca_name (reg_ops s e) = name"
      unfolding find_Some_iff s'(3) by (metis nth_mem)+
    then have "name \<in> set (reg_names s (reno # map snd ms))" by (auto simp: reg_names_def)
    with g [of name] Some e show ?thesis by (auto simp del: find.simps)
  qed
  with s' show ?thesis by blast
qed

definition start_registry :: "unit registry" where
  "start_registry = \<lparr> reg_list = list_mem_init,
     reg_ops = (\<lambda>a. if a = 5 then tcp_reno\<lparr>ca_name := ''bic''\<rparr>
       else if a = 6 then tcp_reno\<lparr>ca_name := ''vegas''\<rparr> else tcp_reno) \<rparr>"

lemma start_registry_ok: "registry_ok start_registry []"
  by (simp add: registry_ok_def start_registry_def ring_init reg_names_def)

definition sample_modules :: "(unit module \<times> addr) list" where
  "sample_modules = [((''tcp_vegas.c'', tcp_vegas_register, Some tcp_vegas_unregister), 6),
     ((''tcp_bic.c'', bictcp_register, Some bictcp_unregister), 5)]"

theorem modules_load_witness:
  "\<exists>s' ops' s2. load_modules sample_modules start_registry = Some s'
     \<and> file_name_of (reg_list s') 6 = Some ''tcp_vegas.c''
     \<and> get_ops 9 ''bic'' [9] s' = Some (5, ops', s2)"
proof -
  have m: "map snd sample_modules = [6, 5]" by (simp add: sample_modules_def)
  have n: "reg_names start_registry [9, 6, 5] = [''reno'', ''vegas'', ''bic'']"
    by (simp add: reg_names_def start_registry_def tcp_reno_def)
  have "fst ` set sample_modules \<subseteq> set modules" "distinct (map snd sample_modules)"
    "0 \<notin> set (map snd sample_modules)" "ns_tcp_cong_list \<notin> set (map snd sample_modules)"
    "\<forall>ca \<in> set (map snd sample_modules). ca_ssthresh (reg_ops start_registry ca) \<noteq> None
      \<and> ca_cong_avoid (reg_ops start_registry ca) \<noteq> None"
    "distinct (reg_names start_registry (9 # map snd sample_modules))" "9 \<noteq> (0 :: addr)"
    "sample_modules \<noteq> []"
    by (simp_all add: m n) (simp_all add: sample_modules_def modules_def ns_tcp_cong_list_def
        start_registry_def tcp_reno_def)
  from modules_load [OF start_registry_ok this, of "[9]"] obtain s' where
    s': "load_modules sample_modules start_registry = Some s'"
      "\<forall>(m, ca) \<in> set sample_modules. file_name_of (reg_list s') ca = Some (fst m)"
    and g: "\<exists>a ops' s2. get_ops 9 ''bic'' [9] s' = Some (a, ops', s2)
        \<and> (if ''bic'' \<in> set (reg_names start_registry (9 # map snd sample_modules))
           then a \<in> set (9 # map snd sample_modules) \<and> ca_name (reg_ops start_registry a) = ''bic''
           else a = 0)" by blast
  from g obtain a ops' s2 where a: "get_ops 9 ''bic'' [9] s' = Some (a, ops', s2)"
    "a \<in> {9, 6, 5}" "ca_name (reg_ops start_registry a) = ''bic''" unfolding m n by auto
  then have "a = 5" by (auto simp: start_registry_def tcp_reno_def)
  moreover have "file_name_of (reg_list s') 6 = Some ''tcp_vegas.c''"
    using s'(2) by (simp add: sample_modules_def)
  ultimately show ?thesis using s'(1) a(1) by blast
qed

text \<open>
  C37: a module can be taken out again: the function of every module that \<open>module_exit\<close> names
  undoes what \<open>module_init\<close> did to the list, whatever was registered before.
\<close>

theorem module_exit_undoes_init:
  assumes "(file, f, Some g) \<in> set modules" and "registry_ok s xs" and "ca \<notin> set xs" and "ca \<noteq> 0"
    and "ca \<noteq> ns_tcp_cong_list" and "ca_ssthresh (reg_ops s ca) \<noteq> None"
    and "ca_cong_avoid (reg_ops s ca) \<noteq> None" and "ca_name (reg_ops s ca) \<notin> set (reg_names s xs)"
  shows "\<exists>s1 s2. module_init file f ca s = Some s1 \<and> registry_ok s1 (xs @ [ca])
    \<and> g ca s1 = Some s2 \<and> registry_ok s2 xs \<and> reg_ops s2 = reg_ops s"
proof -
  from module_init_ok [OF assms] obtain s1 where
    s1: "module_init file f ca s = Some s1" "registry_ok s1 (xs @ [ca])" "reg_ops s1 = reg_ops s" by blast
  have "remove1 ca (xs @ [ca]) = xs" using assms(3) by (simp add: remove1_append)
  with unregister_removes [OF s1(2), of ca] obtain s2 where
    "tcp_unregister_congestion_control ca s1 = Some s2" "registry_ok s2 xs" "reg_ops s2 = reg_ops s1"
    by auto
  with s1 modules_unregister [OF assms(1)] show ?thesis by auto
qed

theorem module_exit_undoes_init_witness:
  "\<exists>s1 s2. module_init ''tcp_bic.c'' bictcp_register 5 start_registry = Some s1
     \<and> registry_ok s1 [5] \<and> bictcp_unregister 5 s1 = Some s2 \<and> registry_ok s2 []"
proof -
  have "(''tcp_bic.c'', bictcp_register, Some bictcp_unregister) \<in> set modules"
    by (simp add: modules_def)
  moreover have "ca_ssthresh (reg_ops start_registry 5) \<noteq> None"
    "ca_cong_avoid (reg_ops start_registry 5) \<noteq> None"
    "ca_name (reg_ops start_registry 5) \<notin> set (reg_names start_registry [])"
    by (simp_all add: start_registry_def tcp_reno_def reg_names_def)
  ultimately show ?thesis
    using module_exit_undoes_init [OF _ start_registry_ok, of _ _ bictcp_unregister 5]
    by (fastforce simp: ns_tcp_cong_list_def)
qed

end
