(* ===== verification/Registry_Refinement.thy ===== *)
theory Registry_Refinement
  imports Cong_Modules
begin

text \<open>
  The registry and the manager as a whole: every sequence of registrations, removals, changes of
  the default and lookups behaves like the same sequence on a plain list of tables. The abstract
  side knows nothing of pointers, flags, the cached array or the mark \<open>cc_list_changed\<close>.
\<close>

datatype reg_cmd = Register addr | Unregister addr | Set_default string | Get_ops string

section \<open>The specification\<close>

definition spec_find :: "(addr \<Rightarrow> string) \<Rightarrow> string \<Rightarrow> addr list \<Rightarrow> addr" where
  "spec_find N name xs = (case find (\<lambda>a. N a = name) xs of None \<Rightarrow> 0 | Some a \<Rightarrow> a)"

fun spec_step ::
  "addr \<Rightarrow> (addr \<Rightarrow> string) \<Rightarrow> (addr \<Rightarrow> bool) \<Rightarrow> reg_cmd \<Rightarrow> addr list \<Rightarrow> int \<times> addr list" where
  "spec_step reno N V (Register ca) xs =
    (if \<not> V ca then (- EINVAL, xs) else if N ca \<in> N ` set xs then (- EEXIST, xs) else (0, xs @ [ca]))"
| "spec_step reno N V (Unregister ca) xs = (0, remove1 ca xs)"
| "spec_step reno N V (Set_default name) xs =
    (let a = spec_find N name xs in if a = 0 then (- ENOENT, xs) else (0, a # remove1 a xs))"
| "spec_step reno N V (Get_ops name) xs = (int (spec_find N name (reno # xs)), xs)"

text \<open>Commands that a caller may issue: no NULL pointers, and only linked tables are removed.\<close>

fun cmd_pre :: "reg_cmd \<Rightarrow> addr list \<Rightarrow> bool" where
  "cmd_pre (Register ca) xs \<longleftrightarrow> ca \<noteq> 0 \<and> ca \<noteq> ns_tcp_cong_list"
| "cmd_pre (Unregister ca) xs \<longleftrightarrow> ca \<in> set xs"
| "cmd_pre (Set_default name) xs \<longleftrightarrow> True"
| "cmd_pre (Get_ops name) xs \<longleftrightarrow> True"

fun spec_run ::
  "addr \<Rightarrow> (addr \<Rightarrow> string) \<Rightarrow> (addr \<Rightarrow> bool) \<Rightarrow> reg_cmd list \<Rightarrow> addr list \<Rightarrow> (int list \<times> addr list) option"
where
  "spec_run reno N V [] xs = Some ([], xs)"
| "spec_run reno N V (c # cs) xs =
    (if cmd_pre c xs
     then do {
       let (r, xs) = spec_step reno N V c xs;
       (rs, xs) \<leftarrow> spec_run reno N V cs xs;
       Some (r # rs, xs)
     }
     else None)"

section \<open>The code\<close>

fun reg_step :: "addr \<Rightarrow> reg_cmd \<Rightarrow> addr list \<times> 'ca registry \<Rightarrow> (int \<times> addr list \<times> 'ca registry) option" where
  "reg_step reno (Register ca) (ops, s) = do {
     (r, s) \<leftarrow> tcp_register_congestion_control ca s; Some (r, ops, s) }"
| "reg_step reno (Unregister ca) (ops, s) = do {
     s \<leftarrow> tcp_unregister_congestion_control ca s; Some (0, ops, s) }"
| "reg_step reno (Set_default name) (ops, s) = do {
     (r, s) \<leftarrow> tcp_set_default_congestion_control name s; Some (r, ops, s) }"
| "reg_step reno (Get_ops name) (ops, s) = do {
     (a, ops, s) \<leftarrow> get_ops reno name ops s; Some (int a, ops, s) }"

fun reg_run ::
  "addr \<Rightarrow> reg_cmd list \<Rightarrow> addr list \<times> 'ca registry \<Rightarrow> (int list \<times> addr list \<times> 'ca registry) option" where
  "reg_run reno [] ms = Some ([], ms)"
| "reg_run reno (c # cs) ms = do {
     (r, ms) \<leftarrow> reg_step reno c ms;
     (rs, ms) \<leftarrow> reg_run reno cs ms;
     Some (r # rs, ms)
   }"

section \<open>Simulation\<close>

definition table_name :: "'ca registry \<Rightarrow> addr \<Rightarrow> string" where
  "table_name s a = ca_name (reg_ops s a)"

definition table_ok :: "'ca registry \<Rightarrow> addr \<Rightarrow> bool" where
  "table_ok s a \<longleftrightarrow> ca_ssthresh (reg_ops s a) \<noteq> None \<and> ca_cong_avoid (reg_ops s a) \<noteq> None"

text \<open>The abstraction relation: the array is valid, and the tables have the names of the specification.\<close>

definition reg_sim ::
  "addr \<Rightarrow> (addr \<Rightarrow> string) \<Rightarrow> (addr \<Rightarrow> bool) \<Rightarrow> addr list \<times> 'ca registry \<Rightarrow> addr list \<Rightarrow> bool" where
  "reg_sim reno N V = (\<lambda>(ops, s) xs. mgr_ok reno ops s xs \<and> table_name s = N \<and> table_ok s = V)"

lemma reg_names_table: "reg_names s xs = map (table_name s) xs"
  by (simp add: reg_names_def table_name_def)

lemma spec_find_ring:
  "ring (reg_list s) xs \<Longrightarrow> tcp_ca_find name s = Some (spec_find (table_name s) name xs)"
  by (simp add: tcp_ca_find_ring spec_find_def table_name_def)

lemma spec_find_0: "0 \<notin> set xs \<Longrightarrow> spec_find N name xs = 0 \<longleftrightarrow> name \<notin> N ` set xs"
  by (induction xs) (auto simp: spec_find_def)

lemma spec_find_in: "spec_find N name xs \<noteq> 0 \<Longrightarrow> spec_find N name xs \<in> set xs \<and> N (spec_find N name xs) = name"
  by (induction xs) (auto simp: spec_find_def split: if_splits)

lemma list_del_changed: "list_del_rcu a l = Some l' \<Longrightarrow> cc_list_changed l' = 1"
  by (auto simp: list_del_rcu_def bind_eq_Some_conv split: if_splits)

lemma list_add_changed: "list_add_rcu a l = Some l' \<Longrightarrow> cc_list_changed l' = 1"
  by (auto simp: list_add_rcu_def bind_eq_Some_conv)

lemma distinct_table_move:
  assumes "distinct (map N xs)" and "a \<in> set xs"
  shows "distinct (map N (a # remove1 a xs))" "distinct (map N (remove1 a xs))"
proof -
  have "insert a (set xs) = set xs" using assms(2) by blast
  with assms show "distinct (map N (a # remove1 a xs))" "distinct (map N (remove1 a xs))"
    by (auto simp: distinct_map inj_on_def)
qed

lemma sim_register:
  assumes "reg_sim reno N V (ops, s) xs" and "ca \<noteq> 0" and "ca \<noteq> ns_tcp_cong_list"
  shows "\<exists>s'. reg_step reno (Register ca) (ops, s) = Some (fst (spec_step reno N V (Register ca) xs), ops, s')
    \<and> reg_sim reno N V (ops, s') (snd (spec_step reno N V (Register ca) xs))"
proof -
  have mg: "mgr_ok reno ops s xs" and N: "N = table_name s" "V = table_ok s"
    using assms(1) by (auto simp: reg_sim_def)
  then have r: "ring (reg_list s) xs" "registry_ok s xs" by (auto simp: mgr_ok_def registry_ok_def)
  show ?thesis
  proof (cases "V ca \<and> N ca \<notin> N ` set xs")
    case True
    then have new: "ca_ssthresh (reg_ops s ca) \<noteq> None" "ca_cong_avoid (reg_ops s ca) \<noteq> None"
      "ca_name (reg_ops s ca) \<notin> set (reg_names s xs)" "ca \<notin> set xs"
      by (auto simp: N table_ok_def table_name_def reg_names_def)
    from register_spec [OF r(2) new(4) assms(2,3)] new obtain s' where
      s': "tcp_register_congestion_control ca s = Some (0, s')" "registry_ok s' (xs @ [ca])"
        "reg_ops s' = reg_ops s" by auto
    with register_frame [OF s'(1)] mg have "mgr_ok reno ops s' (xs @ [ca])"
      by (simp add: mgr_ok_def)
    moreover have "table_name s' = N" "table_ok s' = V"
      using s'(3) by (auto simp: N table_name_def table_ok_def)
    ultimately show ?thesis using True s'(1) by (simp add: reg_sim_def)
  next
    case False
    then have "tcp_register_congestion_control ca s
        = Some (if V ca then - EEXIST else - EINVAL, s)"
      using assms(2) spec_find_ring [OF r(1)] spec_find_0 [of xs N "N ca"] r(1)
      by (auto simp: tcp_register_congestion_control_def N table_ok_def table_name_def ring_def)
    with False assms(1) show ?thesis by auto
  qed
qed

lemma sim_unregister:
  assumes "reg_sim reno N V (ops, s) xs" and "ca \<in> set xs"
  shows "\<exists>s'. reg_step reno (Unregister ca) (ops, s) = Some (0, ops, s')
    \<and> reg_sim reno N V (ops, s') (remove1 ca xs)"
proof -
  have mg: "mgr_ok reno ops s xs" and N: "N = table_name s" "V = table_ok s"
    using assms(1) by (auto simp: reg_sim_def)
  then have r: "ring (reg_list s) xs" "distinct (map N xs)"
    by (auto simp: mgr_ok_def registry_ok_def reg_names_table)
  from list_del_ring [OF r(1) assms(2)] obtain l where
    l: "list_del_rcu ca (reg_list s) = Some l" "ring l (remove1 ca xs)" by blast
  have t: "table_name (s\<lparr>reg_list := l\<rparr>) = N" "table_ok (s\<lparr>reg_list := l\<rparr>) = V"
    by (auto simp: N table_name_def table_ok_def)
  have "mgr_ok reno ops (s\<lparr>reg_list := l\<rparr>) (remove1 ca xs)"
    using mg l list_del_changed [OF l(1)] distinct_table_move(2) [OF r(2) assms(2)]
    by (simp add: mgr_ok_def registry_ok_def reg_names_table t)
  with t l(1) show ?thesis by (simp add: reg_sim_def tcp_unregister_congestion_control_def)
qed

lemma sim_set_default:
  assumes "reg_sim reno N V (ops, s) xs"
  shows "\<exists>s'. reg_step reno (Set_default name) (ops, s)
      = Some (fst (spec_step reno N V (Set_default name) xs), ops, s')
    \<and> reg_sim reno N V (ops, s') (snd (spec_step reno N V (Set_default name) xs))"
proof -
  have mg: "mgr_ok reno ops s xs" and N: "N = table_name s" "V = table_ok s"
    using assms(1) by (auto simp: reg_sim_def)
  then have r: "ring (reg_list s) xs" "distinct (map N xs)"
    by (auto simp: mgr_ok_def registry_ok_def reg_names_table)
  define a where "a = spec_find N name xs"
  have find: "tcp_ca_find name s = Some a" using spec_find_ring [OF r(1)] by (simp add: a_def N)
  show ?thesis
  proof (cases "a = 0")
    case True
    with find assms show ?thesis
      by (auto simp: tcp_set_default_congestion_control_def a_def [symmetric])
  next
    case False
    then have ax: "a \<in> set xs" using spec_find_in [of N name xs] by (simp add: a_def)
    from list_move_ring [OF r(1) ax] obtain l where
      l: "list_move a (reg_list s) = Some l" "ring l (a # remove1 a xs)" by blast
    then have ch: "cc_list_changed l = 1"
      by (auto simp: list_move_def bind_eq_Some_conv dest: list_add_changed)
    let ?s = "(upd_flags a allow s)\<lparr>reg_list := l\<rparr>"
    have t: "table_name ?s = N" "table_ok ?s = V"
      by (auto simp: N table_name_def table_ok_def upd_flags_def fun_eq_iff)
    have "mgr_ok reno ops ?s (a # remove1 a xs)"
      using mg l ch distinct_table_move(1) [OF r(2) ax]
      by (simp add: mgr_ok_def registry_ok_def reg_names_table t)
    with t find l(1) False show ?thesis
      by (simp add: reg_sim_def tcp_set_default_congestion_control_def a_def [symmetric])
  qed
qed

lemma sim_get_ops:
  assumes "reg_sim reno N V (ops, s) xs"
  shows "\<exists>s'. reg_step reno (Get_ops name) (ops, s)
      = Some (int (spec_find N name (reno # xs)), reno # xs, s')
    \<and> reg_sim reno N V (reno # xs, s') xs"
proof -
  have "mgr_ok reno ops s xs" and N: "N = table_name s" "V = table_ok s"
    using assms by (auto simp: reg_sim_def)
  from get_ops_ok [OF this(1), of name] N show ?thesis
    by (auto simp: reg_sim_def spec_find_def table_name_def table_ok_def fun_eq_iff
        simp del: find.simps)
qed

lemma sim_step:
  assumes "reg_sim reno N V ms xs" and "cmd_pre c xs"
  shows "\<exists>ms'. reg_step reno c ms = Some (fst (spec_step reno N V c xs), ms')
    \<and> reg_sim reno N V ms' (snd (spec_step reno N V c xs))"
proof -
  obtain ops s where ms: "ms = (ops, s)" by (cases ms)
  show ?thesis
  proof (cases c)
    case (Register ca)
    with assms(2) have "ca \<noteq> 0" "ca \<noteq> ns_tcp_cong_list" by simp_all
    from sim_register [OF assms(1) [unfolded ms] this] show ?thesis unfolding ms Register by blast
  next
    case (Unregister ca)
    with assms(2) have "ca \<in> set xs" by simp
    from sim_unregister [OF assms(1) [unfolded ms] this] show ?thesis
      unfolding ms Unregister spec_step.simps fst_conv snd_conv by blast
  next
    case (Set_default name)
    from sim_set_default [OF assms(1) [unfolded ms]] show ?thesis unfolding ms Set_default by blast
  next
    case (Get_ops name)
    from sim_get_ops [OF assms(1) [unfolded ms]] show ?thesis
      unfolding ms Get_ops spec_step.simps fst_conv snd_conv by blast
  qed
qed

lemma sim_run:
  assumes "reg_sim reno N V ms xs" and "spec_run reno N V cs xs = Some (rs, xs')"
  shows "\<exists>ms'. reg_run reno cs ms = Some (rs, ms') \<and> reg_sim reno N V ms' xs'"
  using assms
proof (induction cs arbitrary: ms xs rs)
  case (Cons c cs)
  then have pre: "cmd_pre c xs" by (auto split: if_splits)
  from sim_step [OF Cons.prems(1) this] obtain ms1 where
    ms1: "reg_step reno c ms = Some (fst (spec_step reno N V c xs), ms1)"
      "reg_sim reno N V ms1 (snd (spec_step reno N V c xs))" by blast
  from Cons.prems(2) pre obtain rs1 where
    rs1: "spec_run reno N V cs (snd (spec_step reno N V c xs)) = Some (rs1, xs')"
      "rs = fst (spec_step reno N V c xs) # rs1"
    by (auto simp: bind_eq_Some_conv split_beta Let_def)
  from Cons.IH [OF ms1(2) rs1(1)] ms1(1) rs1(2) show ?case by auto
qed simp

text \<open>
  C27: the registry with its manager refines a list of tables. From a valid state, every
  sequence of registrations, removals, changes of the default and lookups that the specification
  accepts runs without trapping, returns the same results (error codes and found tables) as the
  specification on the plain list, and ends in a valid state for the list of the specification:
  in particular the cached array never answers with a removed table.
\<close>

theorem registry_refines_list:
  assumes "reg_sim reno N V (ops, s) xs" and "spec_run reno N V cs xs = Some (rs, xs')"
  shows "\<exists>ops' s'. reg_run reno cs (ops, s) = Some (rs, ops', s') \<and> reg_sim reno N V (ops', s') xs'"
  using sim_run [OF assms] by (auto simp: split_paired_Ex)

theorem registry_refines_list_witness:
  "\<exists>ops' s'. reg_run 9 [Get_ops ''bic'', Unregister 4, Get_ops ''bic'', Register 5, Register 5, Set_default ''htcp'']
       ([], sample_registry) = Some ([4, 0, 0, 0, - EEXIST, 0], ops', s')"
proof -
  have ok: "reg_sim 9 (table_name sample_registry) (table_ok sample_registry) ([], sample_registry) [3, 4]"
    using sample_registry_ok by (simp add: reg_sim_def mgr_ok_def) (simp add: sample_registry_def)
  have n: "table_name sample_registry 3 = ''reno''" "table_name sample_registry 4 = ''bic''"
    "table_name sample_registry 5 = ''htcp''" "table_name sample_registry 9 = ''htcp''"
    "table_ok sample_registry 5"
    by (simp_all add: table_name_def table_ok_def sample_registry_def tcp_reno_def)
  have "spec_run 9 (table_name sample_registry) (table_ok sample_registry)
      [Get_ops ''bic'', Unregister 4, Get_ops ''bic'', Register 5, Register 5, Set_default ''htcp''] [3, 4]
      = Some ([4, 0, 0, 0, - EEXIST, 0], [5, 3])"
    by (simp add: n spec_find_def ns_tcp_cong_list_def Let_def)
  from registry_refines_list [OF ok this] show ?thesis by blast
qed

end
