(* ===== verification/Rtt_Update.thy ===== *)
theory Rtt_Update
  imports Cong_Interface
begin

text \<open>
  The round trip time estimator of the agent: the integer part of \<open>LinuxTcpAgent::rtt_update\<close>
  (src/ns-2.34/tcp/tcp-linux.cc), which computes the smoothed round trip time that the algorithms
  read. The sample in ticks, which the code computes from the floating-point clock, is an
  argument. The variables are C \<open>int\<close>s that a simulation does not overflow; the difference is a
  \<open>short\<close>. The weights are the defaults of ns-2 (\<open>T_SRTT_BITS\<close> 3, \<open>T_RTTVAR_BITS\<close> 2).
\<close>

record rtt_state =
  t_rtt :: int
  t_srtt :: int
  t_rttvar :: int

definition T_SRTT_BITS :: nat where "T_SRTT_BITS = 3"
definition T_RTTVAR_BITS :: nat where "T_RTTVAR_BITS = 2"

text \<open>Storing an \<open>int\<close> in a \<open>short\<close>.\<close>

definition to_short :: "int \<Rightarrow> int" where
  "to_short x = signed_take_bit 15 x"

definition rtt_var_delta :: "int \<Rightarrow> int \<Rightarrow> int" where
  "rtt_var_delta delta var =
    (if delta < 0
     then let delta = to_short (- delta);
              delta = to_short (delta - drop_bit T_RTTVAR_BITS var)
          in if delta > 0 then drop_bit T_SRTT_BITS delta else delta
     else to_short (delta - drop_bit T_RTTVAR_BITS var))"

definition rtt_update :: "int \<Rightarrow> rtt_state \<Rightarrow> rtt_state" where
  "rtt_update ticks st =
    (let st = st\<lparr>t_rtt := (if ticks < 1 then 1 else ticks)\<rparr> in
     if t_srtt st \<noteq> 0
     then let delta = to_short (t_rtt st - drop_bit T_SRTT_BITS (t_srtt st));
              st = st\<lparr>t_srtt := t_srtt st + delta\<rparr>;
              st = (if t_srtt st \<le> 0 then st\<lparr>t_srtt := 1\<rparr> else st)
          in st\<lparr>t_rttvar := t_rttvar st + rtt_var_delta delta (t_rttvar st)\<rparr>
     else st\<lparr>t_srtt := push_bit T_SRTT_BITS (t_rtt st),
             t_rttvar := push_bit (T_RTTVAR_BITS - 1) (t_rtt st)\<rparr>)"

text \<open>The retransmission timeout in ticks (a multiple of \<open>tcp_tick_\<close>); \<open>e\<close> is \<open>rttvar_exp_\<close>.\<close>

definition rtx_ticks :: "nat \<Rightarrow> rtt_state \<Rightarrow> int" where
  "rtx_ticks e st =
    drop_bit T_SRTT_BITS (push_bit (e + (T_SRTT_BITS - T_RTTVAR_BITS)) (t_rttvar st) + t_srtt st)"

section \<open>The invariant\<close>

text \<open>No sample yet, or estimates that samples of at most \<open>M\<close> ticks can produce.\<close>

definition rtt_ok :: "int \<Rightarrow> rtt_state \<Rightarrow> bool" where
  "rtt_ok M st \<longleftrightarrow> t_srtt st = 0
    \<or> 8 \<le> t_srtt st \<and> t_srtt st \<le> 8 * M + 7 \<and> 0 \<le> t_rttvar st \<and> t_rttvar st \<le> 4 * M + 3"

lemma to_short_id: "- 32768 \<le> x \<Longrightarrow> x \<le> 32767 \<Longrightarrow> to_short x = x"
  unfolding to_short_def by (rule signed_take_bit_int_eq_self) simp_all

lemma shift_defs: "drop_bit T_SRTT_BITS x = x div 8" "drop_bit T_RTTVAR_BITS x = x div 4"
  "push_bit T_SRTT_BITS x = 8 * x" "push_bit (T_RTTVAR_BITS - Suc 0) x = 2 * (x :: int)"
  by (simp_all add: T_SRTT_BITS_def T_RTTVAR_BITS_def drop_bit_eq_div push_bit_eq_mult)

text \<open>Within the range of a \<open>short\<close> the update is the formula over the integers.\<close>

lemma rtt_update_srtt:
  assumes "t_srtt st \<noteq> 0" and "0 \<le> t_srtt st" and "t_srtt st \<le> 8 * M + 7" and "ticks \<le> M"
    and "1 \<le> M" and "M \<le> 32767"
  shows "t_srtt (rtt_update ticks st) =
    (let s = t_srtt st + (max ticks 1 - t_srtt st div 8) in if s \<le> 0 then 1 else s)"
proof -
  have "t_srtt st div 8 \<le> M" "0 \<le> t_srtt st div 8" using assms(2,3) by linarith+
  then have "to_short (max ticks 1 - t_srtt st div 8) = max ticks 1 - t_srtt st div 8"
    using assms(4-6) by (intro to_short_id) (auto simp: max_def)
  moreover have "(if ticks < 1 then 1 else ticks) = max ticks 1" by (simp add: max_def)
  ultimately show ?thesis using assms(1) by (simp add: rtt_update_def Let_def shift_defs)
qed

lemma rtt_var_delta_range:
  assumes "- M \<le> d" and "d \<le> M" and "0 \<le> v" and "v \<le> 4 * M + 3" and "0 \<le> M" and "M \<le> 32767"
  shows "0 \<le> v + rtt_var_delta d v" and "v + rtt_var_delta d v \<le> 4 * M + 3"
proof -
  have v4: "0 \<le> v div 4" "v div 4 \<le> M" using assms(3,4) by linarith+
  have s: "to_short (x - v div 4) = x - v div 4" if "0 \<le> x" "x \<le> M" for x
    using that v4 assms(5,6) by (intro to_short_id) linarith+
  have n: "to_short (- d) = - d" if "d < 0" using that assms(1,6) by (intro to_short_id) linarith+
  have "rtt_var_delta d v = (let e = \<bar>d\<bar> - v div 4 in if d < 0 \<and> 0 < e then e div 8 else e)"
    using assms(1,2) s [of d] s [of "- d"] n by (auto simp: rtt_var_delta_def shift_defs Let_def)
  then show "0 \<le> v + rtt_var_delta d v" "v + rtt_var_delta d v \<le> 4 * M + 3"
    using v4 assms(1-4) by (auto simp: Let_def abs_if split: if_splits)
qed

lemma rtt_update_ok:
  assumes "rtt_ok M st" and "ticks \<le> M" and "1 \<le> M" and "M \<le> 32767"
  shows "rtt_ok M (rtt_update ticks st) \<and> 8 \<le> t_srtt (rtt_update ticks st)
    \<and> 1 \<le> rtx_ticks e (rtt_update ticks st)"
proof -
  let ?st = "rtt_update ticks st"
  have b: "8 \<le> t_srtt ?st \<and> t_srtt ?st \<le> 8 * M + 7 \<and> 0 \<le> t_rttvar ?st \<and> t_rttvar ?st \<le> 4 * M + 3"
  proof (cases "t_srtt st = 0")
    case True
    then show ?thesis using assms(2,3) by (simp add: rtt_update_def shift_defs)
  next
    case False
    with assms(1) have r: "8 \<le> t_srtt st" "t_srtt st \<le> 8 * M + 7" "0 \<le> t_rttvar st"
      "t_rttvar st \<le> 4 * M + 3" by (auto simp: rtt_ok_def)
    have s: "t_srtt ?st = (let s = t_srtt st + (max ticks 1 - t_srtt st div 8) in if s \<le> 0 then 1 else s)"
      using r assms(2-4) False by (intro rtt_update_srtt) auto
    have q: "0 \<le> t_srtt st div 8" "t_srtt st div 8 \<le> M"
      "t_srtt st - t_srtt st div 8 \<ge> 7" "t_srtt st - t_srtt st div 8 \<le> 7 * M + 7"
      using r by linarith+
    define d where "d = max ticks 1 - t_srtt st div 8"
    have d: "- M \<le> d" "d \<le> M" "7 + 1 \<le> t_srtt st + d" "t_srtt st + d \<le> 8 * M + 7"
      using q assms(2,3) by (auto simp: d_def max_def)
    have short: "to_short d = d" using d assms(4) by (intro to_short_id) linarith+
    have mx: "(if ticks < 1 then 1 else ticks) = max ticks 1" by (simp add: max_def)
    have "t_rttvar ?st = t_rttvar st + rtt_var_delta d (t_rttvar st)"
      using False short by (simp add: rtt_update_def Let_def shift_defs mx flip: d_def)
    with rtt_var_delta_range [OF d(1,2) r(3,4)] assms(3,4) s d show ?thesis
      by (simp add: Let_def flip: d_def)
  qed
  then have "0 \<le> push_bit (e + (T_SRTT_BITS - T_RTTVAR_BITS)) (t_rttvar ?st)"
    by (simp add: push_bit_eq_mult)
  with b have "1 \<le> rtx_ticks e ?st" unfolding rtx_ticks_def shift_defs by linarith
  with b show ?thesis by (simp add: rtt_ok_def)
qed

lemma rtt_update_towards:
  assumes "rtt_ok M st" and "t_srtt st \<noteq> 0" and "1 \<le> m" and "m \<le> M" and "M \<le> 32767"
  shows "t_srtt (rtt_update m st) \<noteq> 0"
    and "t_srtt st div 8 = m \<Longrightarrow> t_srtt (rtt_update m st) = t_srtt st"
    and "t_srtt st div 8 \<noteq> m \<Longrightarrow>
      nat \<bar>t_srtt (rtt_update m st) - 8 * m\<bar> < nat \<bar>t_srtt st - 8 * m\<bar>"
proof -
  have r: "8 \<le> t_srtt st" "t_srtt st \<le> 8 * M + 7" using assms(1,2) by (auto simp: rtt_ok_def)
  have "t_srtt (rtt_update m st)
      = (let s = t_srtt st + (max m 1 - t_srtt st div 8) in if s \<le> 0 then 1 else s)"
    using r assms(2-5) by (intro rtt_update_srtt) auto
  moreover have "max m 1 = m" using assms(3) by simp
  moreover have "0 < t_srtt st + (m - t_srtt st div 8)" using r assms(3) by linarith
  ultimately have s: "t_srtt (rtt_update m st) = t_srtt st + (m - t_srtt st div 8)"
    by (simp add: Let_def)
  show "t_srtt (rtt_update m st) \<noteq> 0" unfolding s using r assms(3) by linarith
  show "t_srtt (rtt_update m st) = t_srtt st" if "t_srtt st div 8 = m" unfolding s using that by simp
  show "nat \<bar>t_srtt (rtt_update m st) - 8 * m\<bar> < nat \<bar>t_srtt st - 8 * m\<bar>"
    if "t_srtt st div 8 \<noteq> m" unfolding s using that by linarith
qed

lemma rtt_update_settles:
  assumes "rtt_ok M st" and "t_srtt st \<noteq> 0" and "1 \<le> m" and "m \<le> M" and "M \<le> 32767"
    and "nat \<bar>t_srtt st - 8 * m\<bar> \<le> n"
  shows "drop_bit T_SRTT_BITS (t_srtt ((rtt_update m ^^ n) st)) = m"
  unfolding shift_defs using assms(1,2,6)
proof (induction n arbitrary: st)
  case (Suc n)
  note t = rtt_update_towards [OF Suc.prems(1,2) assms(3-5)]
  have ok: "rtt_ok M (rtt_update m st)"
    using rtt_update_ok [OF Suc.prems(1) assms(4) _ assms(5)] assms(3,4) by simp
  have "nat \<bar>t_srtt (rtt_update m st) - 8 * m\<bar> \<le> n \<or> t_srtt st div 8 = m"
    using t(3) Suc.prems(3) by linarith
  then show ?case
  proof
    assume "nat \<bar>t_srtt (rtt_update m st) - 8 * m\<bar> \<le> n"
    from Suc.IH [OF ok t(1) this] show ?thesis by (simp add: funpow_swap1)
  next
    assume q: "t_srtt st div 8 = m"
    have "t_srtt ((rtt_update m ^^ k) st') = t_srtt st'"
      if "rtt_ok M st'" "t_srtt st' \<noteq> 0" "t_srtt st' div 8 = m" for k st'
      using that
    proof (induction k arbitrary: st')
      case (Suc k)
      note t = rtt_update_towards [OF Suc.prems(1,2) assms(3-5)]
      have "rtt_ok M (rtt_update m st')"
        using rtt_update_ok [OF Suc.prems(1) assms(4) _ assms(5)] assms(3,4) by simp
      from Suc.IH [OF this t(1)] t(2) Suc.prems(3) show ?case by (simp add: funpow_swap1)
    qed simp
    from this [OF Suc.prems(1,2) q, of "Suc n"] q show ?thesis by simp
  qed
next
  case 0
  then show ?case by simp
qed

section \<open>Feeding the agent\<close>

text \<open>
  A run of the agent in which the smoothed round trip times are not arbitrary inputs but come
  from the estimator: each event carries a sample in ticks, and \<open>time_processing\<close> of an accepted
  acknowledgment runs \<open>rtt_update\<close> on it.
\<close>

definition ack_taken :: "ack_info \<Rightarrow> 'ca agent \<Rightarrow> bool" where
  "ack_taken ai ag \<longleftrightarrow>
    \<not> ((word_of_int (t_seqno ag) :: u32) < word_of_int (ai_seqno ai + 1)
       \<or> (word_of_int (ai_seqno ai + 1) :: u32) < word_of_int (highest_ack ag + 1))"

fun fed_event :: "agent_event \<times> int \<Rightarrow> 'ca agent \<Rightarrow> rtt_state \<Rightarrow> agent_event \<times> rtt_state" where
  "fed_event (Ev_send n, t) ag st = (Ev_send n, st)"
| "fed_event (Ev_timeout k, t) ag st = (Ev_timeout k, st)"
| "fed_event (Ev_recv k ai, t) ag st =
    (case ai_rtt ai of
       None \<Rightarrow> (Ev_recv k ai, st)
     | Some (u, _) \<Rightarrow>
         (let st' = rtt_update t st
          in (Ev_recv k (ai\<lparr>ai_rtt := Some (u, word_of_int (t_srtt st'))\<rparr>),
              if ack_taken ai ag then st' else st)))"

fun fed_run ::
  "'ca tcp_congestion_ops \<Rightarrow> (agent_event \<times> int) list \<Rightarrow> 'ca agent \<Rightarrow> rtt_state \<Rightarrow> 'ca agent option"
where
  "fed_run ops [] ag st = Some ag"
| "fed_run ops (e # es) ag st =
    (let (e', st') = fed_event e ag st
     in Option.bind (agent_step ops e' ag) (\<lambda>ag'. fed_run ops es ag' st'))"

text \<open>The events that the estimator turns the run into.\<close>

fun fed_events ::
  "'ca tcp_congestion_ops \<Rightarrow> (agent_event \<times> int) list \<Rightarrow> 'ca agent \<Rightarrow> rtt_state \<Rightarrow> agent_event list"
where
  "fed_events ops [] ag st = []"
| "fed_events ops (e # es) ag st =
    (let (e', st') = fed_event e ag st
     in e' # (case agent_step ops e' ag of None \<Rightarrow> [] | Some ag' \<Rightarrow> fed_events ops es ag' st'))"

lemma fed_run_events: "fed_run ops es ag st = agent_run ops (fed_events ops es ag st) ag"
proof (induction es arbitrary: ag st)
  case (Cons e es)
  obtain e' st' where "fed_event e ag st = (e', st')" by (cases "fed_event e ag st")
  with Cons show ?case by (cases "agent_step ops e' ag") simp_all
qed simp

text \<open>
  What a run assumes besides: every acknowledgment carries a sample of at most \<open>M\<close> ticks; the
  burst limit is not zero. Timeouts come at any time.
\<close>

fun sampled :: "int \<Rightarrow> agent_event \<times> int \<Rightarrow> bool" where
  "sampled M (Ev_recv k ai, t) \<longleftrightarrow> ai_rtt ai \<noteq> None \<and> t \<le> M"
| "sampled M (e, t) \<longleftrightarrow> True"

fun fed_env ::
  "int \<Rightarrow> (kernel \<Rightarrow> u32 \<Rightarrow> s64 \<Rightarrow> bool) \<Rightarrow> 'ca tcp_congestion_ops \<Rightarrow> (agent_event \<times> int) list
    \<Rightarrow> 'ca agent \<Rightarrow> rtt_state \<Rightarrow> bool" where
  "fed_env M acked ops [] ag st \<longleftrightarrow> True"
| "fed_env M acked ops (e # es) ag st \<longleftrightarrow> sampled M e \<and> event_env (\<lambda>_ _ _. True) acked (fst e) ag
     \<and> (let (e', st') = fed_event e ag st
        in case agent_step ops e' ag of None \<Rightarrow> True | Some ag' \<Rightarrow> fed_env M acked ops es ag' st')"

lemma fed_event_env:
  assumes "rtt_ok M st" and "1 \<le> M" and "M \<le> 32767" and "sampled M (e, t)"
    and "event_env (\<lambda>_ _ _. True) acked e ag"
    and env: "\<And>k s rx. 8 \<le> uint s \<Longrightarrow> uint s \<le> 8 * M + 7 \<Longrightarrow> env k s rx"
    and "fed_event (e, t) ag st = (e', st')"
  shows "event_env env acked e' ag \<and> rtt_ok M st'"
proof (cases e)
  case (Ev_recv k ai)
  with assms(4) obtain u s where ai: "ai_rtt ai = Some (u, s)" and t: "t \<le> M" by auto
  define st1 where "st1 = rtt_update t st"
  have ok: "rtt_ok M st1" "8 \<le> t_srtt st1"
    using rtt_update_ok [OF assms(1) t assms(2,3)] by (simp_all add: st1_def)
  have hi: "t_srtt st1 \<le> 8 * M + 7" using ok by (auto simp: rtt_ok_def)
  have "uint (word_of_int (t_srtt st1) :: u32) = t_srtt st1"
    using ok(2) hi assms(3) by (simp add: unsigned_of_int take_bit_int_eq_self)
  then have "env k (word_of_int (t_srtt st1)) (ai_rx_opt ai)" using ok(2) hi by (intro env) simp_all
  then show ?thesis
    using assms(1,5,7) ok(1)
    by (auto simp: Ev_recv ai new_srtt_def acked_count_def Let_def simp flip: st1_def split: if_splits)
qed (use assms in auto)

lemma fed_run_env:
  assumes env: "\<And>k s rx. 8 \<le> uint s \<Longrightarrow> uint s \<le> 8 * M + 7 \<Longrightarrow> env k s rx"
    and "1 \<le> M" and "M \<le> 32767"
  shows "rtt_ok M st \<Longrightarrow> fed_env M acked ops es ag st
    \<Longrightarrow> run_env env acked ops (fed_events ops es ag st) ag"
proof (induction es arbitrary: ag st)
  case (Cons e es)
  obtain ev t where e: "e = (ev, t)" by (cases e)
  obtain e' st' where f: "fed_event (ev, t) ag st = (e', st')" by (cases "fed_event (ev, t) ag st")
  have "sampled M (ev, t)" "event_env (\<lambda>_ _ _. True) acked ev ag" using Cons.prems(2) by (simp_all add: e)
  from fed_event_env [OF Cons.prems(1) assms(2,3) this, of env] env f
  have ev: "event_env env acked e' ag" and ok: "rtt_ok M st'" by blast+
  show ?case
  proof (cases "agent_step ops e' ag")
    case None
    with f ev show ?thesis by (simp add: e)
  next
    case (Some ag')
    with Cons.prems(2) f have "fed_env M acked ops es ag' st'" by (simp add: e)
    with Cons.IH [OF ok this] f ev Some show ?thesis by (simp add: e)
  qed
qed simp

section \<open>Properties\<close>

text \<open>
  C34: the estimator, on samples of at most \<open>M < 32768\<close> ticks (beyond, the \<open>short\<close> that holds the difference
  overflows, lemma \<open>rtt_short_overflow\<close>): every such update leaves the smoothed
  round trip time between 8 (one tick) and \<open>8 * M + 7\<close> and the variation between 0 and
  \<open>4 * M + 3\<close>, whatever the sample (negative ones count as one tick); so the timeout that is set
  from them is at least one tick.
\<close>

theorem rtt_update_range:
  assumes "rtt_ok M st" and "ticks \<le> M" and "1 \<le> M" and "M \<le> 32767"
  shows "rtt_ok M (rtt_update ticks st) \<and> 8 \<le> t_srtt (rtt_update ticks st)
    \<and> 1 \<le> rtx_ticks e (rtt_update ticks st)"
  using assms by (rule rtt_update_ok)

theorem rtt_update_range_witness:
  "8 \<le> t_srtt (rtt_update (- 5) (rtt_update 300 \<lparr>t_rtt = 0, t_srtt = 0, t_rttvar = 0\<rparr>))"
proof -
  have "rtt_ok 300 (rtt_update 300 \<lparr>t_rtt = 0, t_srtt = 0, t_rttvar = 0\<rparr>)"
    by (simp add: rtt_ok_def rtt_update_def shift_defs)
  from rtt_update_range [OF this, of "- 5"] show ?thesis by simp
qed

text \<open>
  the estimate follows the samples: on a path whose samples are \<open>m\<close> ticks from some time on,
  the smoothed round trip time moves towards \<open>8 * m\<close> at every update until it stands for exactly
  \<open>m\<close> ticks, after at most \<open>|srtt - 8 * m|\<close> updates, and then stays.
\<close>

theorem rtt_converges:
  assumes "rtt_ok M st" and "t_srtt st \<noteq> 0" and "1 \<le> m" and "m \<le> M" and "M \<le> 32767"
    and "nat \<bar>t_srtt st - 8 * m\<bar> \<le> n"
  shows "drop_bit T_SRTT_BITS (t_srtt ((rtt_update m ^^ n) st)) = m"
  using assms by (rule rtt_update_settles)

theorem rtt_converges_witness:
  "drop_bit T_SRTT_BITS (t_srtt ((rtt_update 10 ^^ 80) \<lparr>t_rtt = 5, t_srtt = 40, t_rttvar = 10\<rparr>)) = 10"
  using rtt_converges [of 10 "\<lparr>t_rtt = 5, t_srtt = 40, t_rttvar = 10\<rparr>" 10 80]
  by (simp add: rtt_ok_def)

text \<open>A sample beyond the range of a \<open>short\<close> makes the difference negative and the estimate collapse to 1.\<close>

lemma rtt_short_overflow:
  "t_srtt (rtt_update 33000 \<lparr>t_rtt = 10, t_srtt = 80, t_rttvar = 20\<rparr>) = 1"
  by (simp add: rtt_update_def to_short_def shift_defs signed_take_bit_int_eq_self_iff
      signed_take_bit_eq_if_negative)

end
