(* ===== verification/Acker.thy ===== *)
theory Acker
  imports Complex_Main Prelude
begin

text \<open>
  The receive window of ns-2's TCP sinks: class \<open>Acker\<close> of src/ns-2.34/tcp/tcp-sink.cc and tcp-sink.h.
  It keeps the next packet expected, the highest packet seen, and a ring of bytes per packet, indexed by
  \<open>i & wndmask_\<close>, that doubles when a packet lies too far ahead. Sequence numbers are packets, as \<open>int\<close>
  without its bound (a ring for \<open>2 ^ 31\<close> packets could not be allocated); a time stamp is a real number,
  since the code only compares and copies it. A read or write outside the ring is None.

  The abstraction is a function \<open>m\<close> from packets to the bytes last recorded for them, 0 for a packet
  not received: \<open>acker_rep a m\<close> says that the ring shows \<open>m\<close> from \<open>next_\<close> to \<open>maxseen_ + 1\<close>. The main lemma
  \<open>acker_update_ok\<close> says that \<open>update\<close> refines the update of that function.
\<close>

section \<open>State and operations\<close>

record acker =
  ak_next :: int
  ak_maxseen :: int
  ak_wndmask :: int
  ak_ecn_unacked :: bool
  ak_seen :: "int list"
  ak_ts_to_echo :: real
  ak_is_dup :: bool
  ak_last_ack_sent :: int

definition MWS :: int where "MWS = 64"
definition MWM :: int where "MWM = MWS - 1"

definition new_acker :: acker where
  "new_acker = \<lparr> ak_next = 0, ak_maxseen = 0, ak_wndmask = MWM, ak_ecn_unacked = False,
     ak_seen = replicate (nat MWS) 0, ak_ts_to_echo = 0, ak_is_dup = False, ak_last_ack_sent = 0 \<rparr>"

definition ak_seqno :: "acker \<Rightarrow> int" where
  "ak_seqno a = ak_next a - 1"

definition ring_get :: "int \<Rightarrow> int list \<Rightarrow> int \<Rightarrow> int option" where
  "ring_get msk xs i =
    (let j = i AND msk in if 0 \<le> j \<and> nat j < length xs then Some (xs ! nat j) else None)"

definition ring_put :: "int \<Rightarrow> int \<Rightarrow> int \<Rightarrow> int list \<Rightarrow> int list option" where
  "ring_put msk i v xs =
    (let j = i AND msk in if 0 \<le> j \<and> nat j < length xs then Some (xs[nat j := v]) else None)"

definition acker_reset :: "acker \<Rightarrow> acker option" where
  "acker_reset a =
    (let n = nat (ak_wndmask a + 1)
     in if n \<le> length (ak_seen a)
        then Some (a\<lparr>ak_next := 0, ak_maxseen := 0,
                     ak_seen := replicate n 0 @ drop n (ak_seen a)\<rparr>)
        else None)"

text \<open>\<open>resize_buffers\<close>: the loop copies packets \<open>i\<close> to \<open>hi\<close> to their new places.\<close>

function ring_copy :: "int \<Rightarrow> int list \<Rightarrow> int \<Rightarrow> int \<Rightarrow> int \<Rightarrow> int list \<Rightarrow> int list option" where
  "ring_copy msk xs msk' i hi ys =
    (if i \<le> hi
     then do {
       v \<leftarrow> ring_get msk xs i;
       ys \<leftarrow> ring_put msk' i v ys;
       ring_copy msk xs msk' (i + 1) hi ys
     }
     else Some ys)"
  by pat_completeness auto
termination by (relation "measure (\<lambda>(msk, xs, msk', i, hi, ys). nat (hi + 1 - i))") auto

declare ring_copy.simps [simp del]

definition resize_buffers :: "int \<Rightarrow> acker \<Rightarrow> acker option" where
  "resize_buffers sz a = do {
     ys \<leftarrow> ring_copy (ak_wndmask a) (ak_seen a) (sz - 1) (ak_next a) (ak_maxseen a + 1)
       (replicate (nat sz) 0);
     Some (a\<lparr>ak_seen := ys, ak_wndmask := sz - 1\<rparr>)
   }"

definition update_ts :: "int \<Rightarrow> real \<Rightarrow> bool \<Rightarrow> acker \<Rightarrow> acker" where
  "update_ts seqno ts rfc1323 a =
    (if rfc1323 \<and> seqno = ak_last_ack_sent a + 1 then a\<lparr>ak_ts_to_echo := ts\<rparr>
     else if ak_ts_to_echo a \<le> ts \<and> seqno \<le> ak_last_ack_sent a + 1 then a\<lparr>ak_ts_to_echo := ts\<rparr>
     else a)"

text \<open>The three loops of \<open>update\<close>: make room, clear the packets skipped, deliver.\<close>

partial_function (option) make_room :: "int \<Rightarrow> acker \<Rightarrow> acker option" where
  "make_room seq a =
    (if ak_wndmask a \<le> seq + 1 - ak_next a
     then Option.bind (resize_buffers ((ak_wndmask a + 1) * 2) a) (make_room seq)
     else Some a)"

function ring_clear :: "int \<Rightarrow> int \<Rightarrow> int \<Rightarrow> int list \<Rightarrow> int list option" where
  "ring_clear msk i seq xs =
    (if i < seq then Option.bind (ring_put msk i 0 xs) (ring_clear msk (i + 1) seq) else Some xs)"
  by pat_completeness auto
termination by (relation "measure (\<lambda>(msk, i, seq, xs). nat (seq - i))") auto

declare ring_clear.simps [simp del]

partial_function (option) deliver :: "int \<Rightarrow> int list \<Rightarrow> int \<Rightarrow> int \<Rightarrow> (int \<times> int) option" where
  "deliver msk xs nxt n = do {
     v \<leftarrow> ring_get msk xs nxt;
     if v \<noteq> 0 then deliver msk xs (nxt + 1) (n + v) else Some (nxt, n)
   }"

declare make_room.simps [code] deliver.simps [code]

definition update_mark :: "int \<Rightarrow> int \<Rightarrow> acker \<Rightarrow> (bool \<times> acker) option" where
  "update_mark seq numBytes a =
    (if ak_maxseen a < seq
     then do {
       xs \<leftarrow> ring_clear (ak_wndmask a) (ak_maxseen a + 1) seq (ak_seen a);
       xs \<leftarrow> ring_put (ak_wndmask a) seq numBytes xs;
       xs \<leftarrow> ring_put (ak_wndmask a) (seq + 1) 0 xs;
       Some (True, a\<lparr>ak_seen := xs, ak_maxseen := seq\<rparr>)
     }
     else Some (False, a))"

text \<open>\<open>update\<close>: the result is the number of bytes to deliver.\<close>

definition acker_update :: "int \<Rightarrow> int \<Rightarrow> acker \<Rightarrow> (int \<times> acker) option" where
  "acker_update seq numBytes a = do {
     a \<leftarrow> make_room seq (a\<lparr>ak_is_dup := False\<rparr>);
     (just_marked_as_seen, a) \<leftarrow> update_mark seq numBytes a;
     let nxt = ak_next a;
     let a = (if seq < nxt then a\<lparr>ak_is_dup := True\<rparr> else a);
     if nxt \<le> seq \<and> seq \<le> ak_maxseen a
     then do {
       v \<leftarrow> ring_get (ak_wndmask a) (ak_seen a) seq;
       xs \<leftarrow> ring_put (ak_wndmask a) seq numBytes (ak_seen a);
       (nxt, n) \<leftarrow> deliver (ak_wndmask a) xs nxt 0;
       Some (n, a\<lparr>ak_is_dup := ak_is_dup a \<or> (v \<noteq> 0 \<and> \<not> just_marked_as_seen), ak_seen := xs,
                  ak_next := nxt\<rparr>)
     }
     else Some (0, a)
   }"

section \<open>The ring\<close>

lemma and_ring: "i AND (2 ^ k - 1) = i mod (2 ^ k :: int)"
  using take_bit_eq_mask [of k i] by (simp add: take_bit_eq_mod mask_eq_exp_minus_1)

lemma mod_window:
  fixes i j :: int
  assumes "i mod n = j mod n" and "\<bar>i - j\<bar> < n"
  shows "i = j"
proof -
  have "n dvd i - j" using assms(1) by (simp add: mod_eq_dvd_iff)
  with assms(2) show ?thesis using dvd_imp_le_int [of "i - j" n] by fastforce
qed

definition ring_val :: "nat \<Rightarrow> int list \<Rightarrow> int \<Rightarrow> int" where
  "ring_val k xs i = xs ! nat (i mod 2 ^ k)"

lemma ring_idx: "length xs = 2 ^ k \<Longrightarrow> nat (i mod 2 ^ k) < length xs"
  by (simp add: nat_less_iff)

lemma ring_val_replicate [simp]: "ring_val k (replicate (2 ^ k) v) i = v"
  using ring_idx [of "replicate (2 ^ k) v" k i] by (simp add: ring_val_def)

lemma ring_get_val: "length xs = 2 ^ k \<Longrightarrow> ring_get (2 ^ k - 1) xs i = Some (ring_val k xs i)"
  using ring_idx [of xs k i] by (simp add: ring_get_def ring_val_def and_ring)

lemma ring_put_val:
  assumes "length xs = 2 ^ k"
  shows "\<exists>ys. ring_put (2 ^ k - 1) i v xs = Some ys \<and> length ys = 2 ^ k
    \<and> (\<forall>j. ring_val k ys j = (if j mod 2 ^ k = i mod 2 ^ k then v else ring_val k xs j))"
proof (intro exI conjI allI)
  let ?ys = "xs[nat (i mod 2 ^ k) := v]"
  show "ring_put (2 ^ k - 1) i v xs = Some ?ys"
    using ring_idx [OF assms, of i] by (simp add: ring_put_def and_ring)
  show "length ?ys = 2 ^ k" using assms by simp
  fix j
  have "0 \<le> j mod (2 ^ k :: int)" "0 \<le> i mod (2 ^ k :: int)" by simp_all
  then have "nat (j mod 2 ^ k) = nat (i mod 2 ^ k) \<longleftrightarrow> j mod 2 ^ k = i mod 2 ^ k" by (metis nat_eq_iff2)
  then show "ring_val k ?ys j = (if j mod 2 ^ k = i mod 2 ^ k then v else ring_val k xs j)"
    using ring_idx [OF assms, of i] by (auto simp: ring_val_def nth_list_update)
qed

text \<open>The ring shows \<open>m\<close> on a window that fits into it.\<close>

definition ring_shows :: "nat \<Rightarrow> int list \<Rightarrow> int \<Rightarrow> int \<Rightarrow> (int \<Rightarrow> int) \<Rightarrow> bool" where
  "ring_shows k xs lo hi m \<longleftrightarrow> length xs = 2 ^ k \<and> hi - lo < 2 ^ k
     \<and> (\<forall>i. lo \<le> i \<and> i \<le> hi \<longrightarrow> ring_val k xs i = m i)"

lemma ring_shows_get:
  "ring_shows k xs lo hi m \<Longrightarrow> lo \<le> i \<Longrightarrow> i \<le> hi \<Longrightarrow> ring_get (2 ^ k - 1) xs i = Some (m i)"
  by (simp add: ring_shows_def ring_get_val)

lemma ring_shows_put:
  assumes "ring_shows k xs lo hi m" and "lo \<le> i" and "i \<le> hi"
  obtains ys where "ring_put (2 ^ k - 1) i v xs = Some ys" and "ring_shows k ys lo hi (m(i := v))"
proof -
  from ring_put_val [of xs k i v] assms(1) obtain ys where
    ys: "ring_put (2 ^ k - 1) i v xs = Some ys" "length ys = 2 ^ k"
      "\<forall>j. ring_val k ys j = (if j mod 2 ^ k = i mod 2 ^ k then v else ring_val k xs j)"
    by (auto simp: ring_shows_def)
  have "j mod 2 ^ k = i mod 2 ^ k \<longleftrightarrow> j = i" if "lo \<le> j" "j \<le> hi" for j
    using mod_window [of j "2 ^ k" i] that assms by (auto simp: ring_shows_def)
  with ys(2,3) assms(1) have "ring_shows k ys lo hi (m(i := v))" by (simp add: ring_shows_def)
  with ys(1) that show thesis by blast
qed

text \<open>Extending the window by one packet on the right.\<close>

lemma ring_shows_append:
  assumes "ring_shows k xs lo hi m" and "hi + 1 - lo < 2 ^ k" and "lo \<le> hi + 1"
  obtains ys where "ring_put (2 ^ k - 1) (hi + 1) v xs = Some ys"
    and "ring_shows k ys lo (hi + 1) (m(hi + 1 := v))"
proof -
  let ?m = "m(hi + 1 := ring_val k xs (hi + 1))"
  have "ring_shows k xs lo (hi + 1) ?m" using assms(1,2) by (auto simp: ring_shows_def)
  from ring_shows_put [OF this assms(3), of v] that show thesis by fastforce
qed

lemma ring_shows_mono: "ring_shows k xs lo hi m \<Longrightarrow> lo \<le> lo' \<Longrightarrow> ring_shows k xs lo' hi m"
  by (simp add: ring_shows_def)

lemma ring_copy_ok:
  assumes "ring_shows k xs lo hi m" and "ring_shows k' ys lo (i - 1) m" and "lo \<le> i"
    and "hi - lo < 2 ^ k'" and "i \<le> hi + 1"
  shows "\<exists>zs. ring_copy (2 ^ k - 1) xs (2 ^ k' - 1) i hi ys = Some zs \<and> ring_shows k' zs lo hi m"
  using assms
proof (induction "nat (hi + 1 - i)" arbitrary: i ys)
  case 0
  then have "i = hi + 1" by simp
  with 0 show ?case by (subst ring_copy.simps) simp
next
  case (Suc n)
  then have i: "i \<le> hi" by simp
  have g: "ring_get (2 ^ k - 1) xs i = Some (m i)" using ring_shows_get [OF Suc.prems(1,3) i] .
  from ring_shows_append [OF Suc.prems(2), of "m i"] Suc.prems(3,4) i obtain zs where
    z: "ring_put (2 ^ k' - 1) i (m i) ys = Some zs" "ring_shows k' zs lo i m" by (auto simp: fun_upd_idem)
  have "n = nat (hi + 1 - (i + 1))" using Suc.hyps(2) by simp
  from Suc.hyps(1) [OF this Suc.prems(1), of zs] z(2) Suc.prems(3,4) i
  obtain ws where "ring_copy (2 ^ k - 1) xs (2 ^ k' - 1) (i + 1) hi zs = Some ws" "ring_shows k' ws lo hi m"
    by auto
  then show ?case using i g z(1) by (subst ring_copy.simps) simp
qed

lemma ring_clear_ok:
  assumes "ring_shows k xs lo (i - 1) m" and "lo \<le> i" and "seq - 1 - lo < 2 ^ k" and "i \<le> seq"
    and "\<forall>j \<ge> i. m j = 0"
  shows "\<exists>zs. ring_clear (2 ^ k - 1) i seq xs = Some zs \<and> ring_shows k zs lo (seq - 1) m"
  using assms
proof (induction "nat (seq - i)" arbitrary: i xs)
  case 0
  then have "i = seq" by simp
  with 0 show ?case by (subst ring_clear.simps) simp
next
  case (Suc n)
  then have i: "i < seq" by simp
  from ring_shows_append [OF Suc.prems(1), of 0] Suc.prems(2,3,5) i obtain zs where
    z: "ring_put (2 ^ k - 1) i 0 xs = Some zs" "ring_shows k zs lo i m" by (auto simp: fun_upd_idem)
  have "n = nat (seq - (i + 1))" using Suc.hyps(2) by simp
  from Suc.hyps(1) [OF this, of zs] z(2) Suc.prems(2,3,5) i
  obtain ws where "ring_clear (2 ^ k - 1) (i + 1) seq zs = Some ws" "ring_shows k ws lo (seq - 1) m"
    by auto
  then show ?case using i z(1) by (subst ring_clear.simps) simp
qed

lemma deliver_ok:
  assumes "ring_shows k xs lo hi m" and "lo \<le> i" and "i \<le> hi" and "m hi = 0"
  shows "\<exists>j. deliver (2 ^ k - 1) xs i n = Some (j, n + sum m {i..<j}) \<and> i \<le> j \<and> j \<le> hi \<and> m j = 0
    \<and> (\<forall>l. i \<le> l \<and> l < j \<longrightarrow> m l \<noteq> 0)"
  using assms
proof (induction "nat (hi - i)" arbitrary: i n)
  case 0
  then have "i = hi" by simp
  with 0 ring_shows_get [OF 0(2-4)] show ?case by (subst deliver.simps) auto
next
  case (Suc d)
  have g: "ring_get (2 ^ k - 1) xs i = Some (m i)" using ring_shows_get [OF Suc.prems(1-3)] .
  show ?case
  proof (cases "m i = 0")
    case True
    then show ?thesis using g Suc.prems(3) by (subst deliver.simps) auto
  next
    case False
    have "d = nat (hi - (i + 1))" "lo \<le> i + 1" "i + 1 \<le> hi" using Suc.hyps(2) Suc.prems(2) by auto
    from Suc.hyps(1) [OF this(1) Suc.prems(1) this(2,3) Suc.prems(4), of "n + m i"] obtain j where
      j: "deliver (2 ^ k - 1) xs (i + 1) (n + m i) = Some (j, n + m i + sum m {i + 1..<j})"
        "i + 1 \<le> j" "j \<le> hi" "m j = 0" "\<forall>l. i + 1 \<le> l \<and> l < j \<longrightarrow> m l \<noteq> 0" by blast
    have "{i..<j} = insert i {i + 1..<j}" using j(2) by auto
    then have "n + m i + sum m {i + 1..<j} = n + sum m {i..<j}" by simp
    moreover have "m l \<noteq> 0" if "i \<le> l" "l < j" for l using False j(5) that by (cases "l = i") auto
    ultimately show ?thesis using g False j(1-4) by (subst deliver.simps) (intro exI [of _ j], auto)
  qed
qed

section \<open>What the ring stands for\<close>

definition acker_rep :: "acker \<Rightarrow> (int \<Rightarrow> int) \<Rightarrow> bool" where
  "acker_rep a m \<longleftrightarrow> (\<exists>k. 1 < k \<and> ak_wndmask a = 2 ^ k - 1
       \<and> ring_shows k (ak_seen a) (ak_next a) (ak_maxseen a + 1) m)
     \<and> ak_maxseen a + 1 - ak_next a < ak_wndmask a
     \<and> 0 \<le> ak_next a \<and> 0 \<le> ak_maxseen a \<and> ak_next a \<le> ak_maxseen a + 1
     \<and> m (ak_next a) = 0 \<and> (\<forall>i. 0 \<le> i \<and> i < ak_next a \<longrightarrow> m i \<noteq> 0)
     \<and> (\<forall>i. i < 0 \<or> ak_maxseen a < i \<longrightarrow> m i = 0)"

text \<open>The packets from \<open>lo\<close> on, some of which may be delivered, are still in the ring.\<close>

definition acker_shows :: "acker \<Rightarrow> int \<Rightarrow> (int \<Rightarrow> int) \<Rightarrow> bool" where
  "acker_shows a lo m \<longleftrightarrow>
     (\<exists>k. ak_wndmask a = 2 ^ k - 1 \<and> ring_shows k (ak_seen a) lo (ak_maxseen a + 1) m)"

lemma acker_repI:
  assumes "1 < k" and "ak_wndmask a = 2 ^ k - 1"
    and "ring_shows k (ak_seen a) (ak_next a) (ak_maxseen a + 1) m"
    and "ak_maxseen a + 1 - ak_next a < ak_wndmask a"
    and "0 \<le> ak_next a" and "0 \<le> ak_maxseen a" and "ak_next a \<le> ak_maxseen a + 1"
    and "m (ak_next a) = 0" and "\<forall>i. 0 \<le> i \<and> i < ak_next a \<longrightarrow> m i \<noteq> 0"
    and "\<forall>i. i < 0 \<or> ak_maxseen a < i \<longrightarrow> m i = 0"
  shows "acker_rep a m"
  unfolding acker_rep_def using assms by blast

lemma new_acker_rep: "acker_rep new_acker (\<lambda>i. 0)"
proof -
  have "ak_seen new_acker = replicate (2 ^ 6) 0" by (simp add: new_acker_def MWS_def)
  then have "ring_shows 6 (ak_seen new_acker) (ak_next new_acker) (ak_maxseen new_acker + 1) (\<lambda>i. 0)"
    unfolding ring_shows_def by (simp only: ring_val_replicate length_replicate) (simp add: new_acker_def)
  then show ?thesis unfolding acker_rep_def
    by (intro conjI exI [of _ 6]) (simp_all add: new_acker_def MWM_def MWS_def)
qed

lemma acker_reset_ok:
  assumes "acker_rep a m"
  shows "\<exists>a'. acker_reset a = Some a' \<and> acker_rep a' (\<lambda>i. 0) \<and> ak_next a' = 0 \<and> ak_maxseen a' = 0
    \<and> ak_ts_to_echo a' = ak_ts_to_echo a \<and> ak_last_ack_sent a' = ak_last_ack_sent a"
proof -
  from assms obtain k where k: "1 < k" "ak_wndmask a = 2 ^ k - 1" "length (ak_seen a) = 2 ^ k"
    by (auto simp: acker_rep_def ring_shows_def)
  have "(2 :: int) ^ 2 \<le> 2 ^ k" using k(1) by (intro power_increasing) auto
  with k(2) have w: "2 < ak_wndmask a" by simp
  have n: "nat (ak_wndmask a + 1) = 2 ^ k" using k(2) by (simp add: nat_power_eq)
  let ?a = "a\<lparr>ak_next := 0, ak_maxseen := 0, ak_seen := replicate (2 ^ k) 0\<rparr>"
  have "acker_reset a = Some ?a" using k(3) n by (simp add: acker_reset_def)
  moreover have "ring_shows k (replicate (2 ^ k) (0 :: int)) 0 1 (\<lambda>i. 0)"
    using w k(2) by (simp add: ring_shows_def)
  then have "acker_rep ?a (\<lambda>i. 0)" using k w by (auto simp: acker_rep_def)
  ultimately show ?thesis by simp
qed

text \<open>The fields that \<open>update\<close> leaves alone.\<close>

definition ak_frame :: "acker \<Rightarrow> acker \<Rightarrow> bool" where
  "ak_frame a a' \<longleftrightarrow> ak_ecn_unacked a' = ak_ecn_unacked a \<and> ak_ts_to_echo a' = ak_ts_to_echo a
     \<and> ak_last_ack_sent a' = ak_last_ack_sent a"

lemma resize_ok:
  assumes "acker_rep a m"
  shows "\<exists>a'. resize_buffers ((ak_wndmask a + 1) * 2) a = Some a' \<and> acker_rep a' m
    \<and> ak_wndmask a' = 2 * ak_wndmask a + 1 \<and> ak_next a' = ak_next a \<and> ak_maxseen a' = ak_maxseen a
    \<and> ak_is_dup a' = ak_is_dup a \<and> ak_frame a a'"
proof -
  from assms obtain k where k: "1 < k" "ak_wndmask a = 2 ^ k - 1"
      "ring_shows k (ak_seen a) (ak_next a) (ak_maxseen a + 1) m"
    by (auto simp: acker_rep_def)
  have m2: "(ak_wndmask a + 1) * 2 - 1 = 2 ^ Suc k - 1" and sz: "nat ((ak_wndmask a + 1) * 2) = 2 ^ Suc k"
    using k(2) by (simp_all add: nat_mult_distrib nat_power_eq)
  have "(2 :: int) ^ k \<le> 2 ^ Suc k" by simp
  with k(3) have fit: "ak_maxseen a + 1 - ak_next a < 2 ^ Suc k" unfolding ring_shows_def by linarith
  have "ring_shows (Suc k) (replicate (2 ^ Suc k) 0) (ak_next a) (ak_next a - 1) m"
  proof -
    have "(0 :: int) < 2 ^ Suc k" by simp
    then have "ak_next a - 1 - ak_next a < 2 ^ Suc k" by linarith
    then show ?thesis by (simp add: ring_shows_def)
  qed
  from ring_copy_ok [OF k(3) this order_refl fit] assms obtain zs where
    z: "ring_copy (2 ^ k - 1) (ak_seen a) (2 ^ Suc k - 1) (ak_next a) (ak_maxseen a + 1)
        (replicate (2 ^ Suc k) 0) = Some zs"
      "ring_shows (Suc k) zs (ak_next a) (ak_maxseen a + 1) m" by (auto simp: acker_rep_def)
  let ?a = "a\<lparr>ak_seen := zs, ak_wndmask := 2 ^ Suc k - 1\<rparr>"
  have "resize_buffers ((ak_wndmask a + 1) * 2) a = Some ?a"
    unfolding resize_buffers_def m2 sz using z(1) k(2) by simp
  moreover have "acker_rep ?a m"
    using assms z(2) k(2) unfolding acker_rep_def by (auto intro!: exI [of _ "Suc k"])
  ultimately show ?thesis using k(2) by (simp add: ak_frame_def)
qed

lemma make_room_ok:
  assumes "acker_rep a m"
  shows "\<exists>a'. make_room seq a = Some a' \<and> acker_rep a' m \<and> seq + 1 - ak_next a' < ak_wndmask a'
    \<and> ak_next a' = ak_next a \<and> ak_maxseen a' = ak_maxseen a \<and> ak_is_dup a' = ak_is_dup a \<and> ak_frame a a'"
  using assms
proof (induction "nat (seq + 2 - ak_next a - ak_wndmask a)" arbitrary: a rule: less_induct)
  case less
  show ?case
  proof (cases "ak_wndmask a \<le> seq + 1 - ak_next a")
    case False
    then show ?thesis using less.prems by (subst make_room.simps) (auto simp: ak_frame_def)
  next
    case True
    have w: "0 \<le> ak_wndmask a" using less.prems by (auto simp: acker_rep_def)
    from resize_ok [OF less.prems] obtain b where
      b: "resize_buffers ((ak_wndmask a + 1) * 2) a = Some b" "acker_rep b m"
        "ak_wndmask b = 2 * ak_wndmask a + 1" "ak_next b = ak_next a" "ak_maxseen b = ak_maxseen a"
        "ak_is_dup b = ak_is_dup a" "ak_frame a b" by blast
    have "nat (seq + 2 - ak_next b - ak_wndmask b) < nat (seq + 2 - ak_next a - ak_wndmask a)"
      using True w b(3,4) by linarith
    from less.hyps [OF this b(2)] b show ?thesis using True
      by (subst make_room.simps) (auto simp: ak_frame_def)
  qed
qed

lemma update_mark_ok:
  assumes "acker_rep a m" and "seq + 1 - ak_next a < ak_wndmask a"
  shows "\<exists>a' k. update_mark seq b a = Some (ak_maxseen a < seq, a') \<and> ak_next a' = ak_next a
    \<and> ak_maxseen a' = max (ak_maxseen a) seq \<and> ak_is_dup a' = ak_is_dup a \<and> ak_frame a a'
    \<and> ak_wndmask a' = ak_wndmask a \<and> 1 < k \<and> ak_wndmask a' = 2 ^ k - 1
    \<and> ring_shows k (ak_seen a') (ak_next a') (ak_maxseen a' + 1)
        (if ak_maxseen a < seq then m(seq := b) else m)"
proof (cases "ak_maxseen a < seq")
  case False
  then show ?thesis using assms by (auto simp: update_mark_def acker_rep_def ak_frame_def)
next
  case True
  from assms(1) obtain k where k: "1 < k" "ak_wndmask a = 2 ^ k - 1"
      "ring_shows k (ak_seen a) (ak_next a) (ak_maxseen a + 1) m"
    and n: "ak_next a \<le> ak_maxseen a + 1" and z: "\<forall>i. i < 0 \<or> ak_maxseen a < i \<longrightarrow> m i = 0"
    by (auto simp: acker_rep_def)
  have fit: "seq + 1 - ak_next a < 2 ^ k" using assms(2) k(2) by simp
  have "ring_shows k (ak_seen a) (ak_next a) (ak_maxseen a + 1 - 1) m" using k(3) by (simp add: ring_shows_def)
  from ring_clear_ok [OF this n, of seq] True fit z obtain xs where
    xs: "ring_clear (2 ^ k - 1) (ak_maxseen a + 1) seq (ak_seen a) = Some xs"
      "ring_shows k xs (ak_next a) (seq - 1) m" by auto
  from ring_shows_append [OF xs(2), of b] fit n True obtain ys where
    ys: "ring_put (2 ^ k - 1) seq b xs = Some ys" "ring_shows k ys (ak_next a) seq (m(seq := b))" by auto
  from ring_shows_append [OF ys(2), of 0] fit n True z obtain zs where
    zs: "ring_put (2 ^ k - 1) (seq + 1) 0 ys = Some zs"
      "ring_shows k zs (ak_next a) (seq + 1) (m(seq := b))" by (auto simp: fun_upd_idem)
  have "update_mark seq b a = Some (True, a\<lparr>ak_seen := zs, ak_maxseen := seq\<rparr>)"
    using True k(2) xs(1) ys(1) zs(1) by (simp add: update_mark_def)
  then show ?thesis using True k(1,2) zs(2)
    by (intro exI [of _ "a\<lparr>ak_seen := zs, ak_maxseen := seq\<rparr>"] exI [of _ k]) (auto simp: ak_frame_def)
qed

text \<open>The abstract update: packets already delivered are not recorded again.\<close>

definition recorded :: "int \<Rightarrow> int \<Rightarrow> int \<Rightarrow> (int \<Rightarrow> int) \<Rightarrow> int \<Rightarrow> int" where
  "recorded nxt seq b m = (if seq < nxt then m else m(seq := b))"

lemma acker_update_ok:
  assumes "acker_rep a m"
  shows "\<exists>n a'. acker_update seq b a = Some (n, a') \<and> acker_rep a' (recorded (ak_next a) seq b m)
    \<and> n = sum (recorded (ak_next a) seq b m) {ak_next a..<ak_next a'} \<and> ak_next a \<le> ak_next a'
    \<and> ak_maxseen a' = max (ak_maxseen a) seq
    \<and> ak_is_dup a' = (seq < ak_next a \<or> m seq \<noteq> 0) \<and> ak_frame a a'
    \<and> acker_shows a' (ak_next a) (recorded (ak_next a) seq b m)"
proof -
  let ?a = "a\<lparr>ak_is_dup := False\<rparr>" and ?m = "recorded (ak_next a) seq b m"
  have "acker_rep ?a m" using assms by (simp add: acker_rep_def)
  from make_room_ok [OF this, of seq] obtain a1 where
    a1: "make_room seq ?a = Some a1" "acker_rep a1 m" "seq + 1 - ak_next a1 < ak_wndmask a1"
      "ak_next a1 = ak_next a" "ak_maxseen a1 = ak_maxseen a" "\<not> ak_is_dup a1" "ak_frame a a1"
    by (auto simp: ak_frame_def)
  from update_mark_ok [OF a1(2,3), of b] obtain a2 k where
    a2: "update_mark seq b a1 = Some (ak_maxseen a < seq, a2)" "ak_next a2 = ak_next a"
      "ak_maxseen a2 = max (ak_maxseen a) seq" "\<not> ak_is_dup a2" "ak_frame a a2"
      "ak_wndmask a2 = ak_wndmask a1" "1 < k" "ak_wndmask a2 = 2 ^ k - 1"
      "ring_shows k (ak_seen a2) (ak_next a) (ak_maxseen a2 + 1) (if ak_maxseen a < seq then m(seq := b) else m)"
    using a1(4-7) by (auto simp: ak_frame_def)
  have rep: "0 \<le> ak_next a" "0 \<le> ak_maxseen a" "ak_next a \<le> ak_maxseen a + 1" "m (ak_next a) = 0"
      "\<forall>i. 0 \<le> i \<and> i < ak_next a \<longrightarrow> m i \<noteq> 0" "\<forall>i. i < 0 \<or> ak_maxseen a < i \<longrightarrow> m i = 0"
      "ak_maxseen a + 1 - ak_next a < ak_wndmask a1"
    using assms a1(2,4,5) by (auto simp: acker_rep_def)
  have fit: "ak_maxseen a2 + 1 - ak_next a < ak_wndmask a2" using rep(7) a1(3,4) a2(3,6) by simp
  show ?thesis
  proof (cases "seq < ak_next a")
    case True
    then have "acker_update seq b a = Some (0, a2\<lparr>ak_is_dup := True\<rparr>)"
      using a1(1) a2(1,2) by (simp add: acker_update_def)
    moreover have "acker_rep (a2\<lparr>ak_is_dup := True\<rparr>) m"
      using True a2 rep fit by (auto simp: acker_rep_def)
    moreover have "acker_shows (a2\<lparr>ak_is_dup := True\<rparr>) (ak_next a) m"
      using True rep(3) a2(3,8,9) by (auto simp: acker_shows_def split: if_splits)
    ultimately show ?thesis using True a2(2-5) by (simp add: recorded_def ak_frame_def)
  next
    case False
    let ?h = "ak_maxseen a2 + 1"
    have h: "seq \<le> ak_maxseen a2" using a2(3) by simp
    from ring_shows_get [OF a2(9), of seq] False h have
      g: "ring_get (2 ^ k - 1) (ak_seen a2) seq = Some (if ak_maxseen a < seq then b else m seq)" by simp
    have m': "(if ak_maxseen a < seq then m(seq := b) else m)(seq := b) = m(seq := b)" by simp
    have sq: "ak_next a \<le> seq" "seq \<le> ?h" using False h by simp_all
    from ring_shows_put [OF a2(9) sq, of b, unfolded m'] obtain xs where
      xs: "ring_put (2 ^ k - 1) seq b (ak_seen a2) = Some xs" "ring_shows k xs (ak_next a) ?h (m(seq := b))"
      by blast
    have "(m(seq := b)) ?h = 0" using rep(6) h a2(3) by auto
    moreover have "ak_next a \<le> ?h" using rep(3) a2(3) by simp
    ultimately obtain j where
      j: "deliver (2 ^ k - 1) xs (ak_next a) 0 = Some (j, sum (m(seq := b)) {ak_next a..<j})"
        "ak_next a \<le> j" "j \<le> ?h" "(m(seq := b)) j = 0"
        "\<forall>l. ak_next a \<le> l \<and> l < j \<longrightarrow> (m(seq := b)) l \<noteq> 0"
      using deliver_ok [OF xs(2) order_refl, of 0] by (auto simp del: fun_upd_apply)
    let ?a' = "a2\<lparr>ak_is_dup := m seq \<noteq> 0, ak_seen := xs, ak_next := j\<rparr>"
    have dup: "((if ak_maxseen a < seq then b else m seq) \<noteq> 0 \<and> \<not> ak_maxseen a < seq) = (m seq \<noteq> 0)"
      using rep(6) by auto
    have eq: "acker_update seq b a = Some (sum (m(seq := b)) {ak_next a..<j}, ?a')"
      using False h a1(1) a2(1,2,4,8) g xs(1) j(1) dup by (simp add: acker_update_def)
    have "\<forall>i. 0 \<le> i \<and> i < j \<longrightarrow> (m(seq := b)) i \<noteq> 0"
      using rep(5) j(5) False by (metis fun_upd_other linorder_not_le)
    moreover have "\<forall>i. i < 0 \<or> ak_maxseen a2 < i \<longrightarrow> (m(seq := b)) i = 0"
      using rep(1,6) False h a2(3) by auto
    moreover have "ring_shows k xs j ?h (m(seq := b))" using ring_shows_mono [OF xs(2) j(2)] .
    moreover have "0 \<le> j" "0 \<le> ak_maxseen a2" "?h - j < ak_wndmask a2" using rep(1,2) fit j(2) a2(3) by auto
    ultimately have "acker_rep ?a' (m(seq := b))"
      using a2(7,8) j(3,4) by (intro acker_repI [of k]) (simp_all del: fun_upd_apply)
    moreover have "acker_shows ?a' (ak_next a) (m(seq := b))" using xs(2) a2(8) by (auto simp: acker_shows_def)
    moreover note eq False j(2) a2(3,5)
    ultimately show ?thesis by (simp add: recorded_def ak_frame_def)
  qed
qed

end
