(* ===== verification/Sacker.thy ===== *)
theory Sacker
  imports Acker
begin

text \<open>
  The generator of SACK blocks: classes \<open>SackStack\<close> and \<open>Sacker\<close> of src/ns-2.34/tcp/tcp-sink.cc. The stack
  holds the blocks reported most recently, in an array that is shifted by \<open>push\<close> and \<open>pop\<close>;
  \<open>append_ack\<close> reports the block around the packet just received, found by scanning the ring for holes,
  and then the blocks of the stack that it does not cover. Every array access is checked.

  The lemmas: the stack is a list of blocks that forgets its last one when it is full
  (\<open>stack_rep\<close>), and \<open>append_ack_ok\<close>: every block reported beyond the optional D-SACK block
  consists of packets received above the cumulative acknowledgment, the first one is the
  maximal run around the packet just received, and there are at most \<open>base_nblocks_\<close> of them.
\<close>

section \<open>The stack of blocks\<close>

record sack_stack =
  ss_size :: int
  ss_cnt :: int
  ss_sfe :: "(int \<times> int) list" \<comment> \<open>\<open>left_\<close>, \<open>right_\<close>\<close>

definition new_sack_stack :: "int \<Rightarrow> sack_stack option" where
  "new_sack_stack sz =
    (if sz < 0 then None
     else Some \<lparr> ss_size = sz, ss_cnt = 0, ss_sfe = replicate (nat sz) (- 1, - 1) \<rparr>)"

definition sfe_get :: "int \<Rightarrow> 'a list \<Rightarrow> 'a option" where
  "sfe_get n xs = (if 0 \<le> n \<and> nat n < length xs then Some (xs ! nat n) else None)"

definition sfe_put :: "int \<Rightarrow> 'a \<Rightarrow> 'a list \<Rightarrow> 'a list option" where
  "sfe_put n v xs = (if 0 \<le> n \<and> nat n < length xs then Some (xs[nat n := v]) else None)"

text \<open>The loops \<open>SFE_[i + 1] = SFE_[i]\<close> downwards and \<open>SFE_[i] = SFE_[i + 1]\<close> upwards.\<close>

function shift_down :: "int \<Rightarrow> int \<Rightarrow> 'a list \<Rightarrow> 'a list option" where
  "shift_down i n xs =
    (if n \<le> i
     then do { v \<leftarrow> sfe_get i xs; xs \<leftarrow> sfe_put (i + 1) v xs; shift_down (i - 1) n xs }
     else Some xs)"
  by pat_completeness auto
termination by (relation "measure (\<lambda>(i, n, xs). nat (i + 1 - n))") auto

function shift_up :: "int \<Rightarrow> int \<Rightarrow> 'a list \<Rightarrow> (int \<times> 'a list) option" where
  "shift_up i c xs =
    (if i < c - 1
     then do { v \<leftarrow> sfe_get (i + 1) xs; xs \<leftarrow> sfe_put i v xs; shift_up (i + 1) c xs }
     else Some (i, xs))"
  by pat_completeness auto
termination by (relation "measure (\<lambda>(i, c, xs). nat (c - 1 - i))") auto

declare shift_down.simps [simp del] shift_up.simps [simp del]

definition ss_reset :: "sack_stack \<Rightarrow> sack_stack option" where
  "ss_reset s =
    (let n = nat (ss_cnt s)
     in if n \<le> length (ss_sfe s)
        then Some (s\<lparr>ss_sfe := replicate n (- 1, - 1) @ drop n (ss_sfe s), ss_cnt := 0\<rparr>)
        else None)"

definition ss_push :: "int \<Rightarrow> sack_stack \<Rightarrow> sack_stack option" where
  "ss_push n s = do {
     let s = (if ss_size s \<le> ss_cnt s then s\<lparr>ss_cnt := ss_size s - 1\<rparr> else s);
     xs \<leftarrow> shift_down (ss_cnt s - 1) n (ss_sfe s);
     Some (s\<lparr>ss_sfe := xs, ss_cnt := ss_cnt s + 1\<rparr>)
   }"

definition ss_pop :: "int \<Rightarrow> sack_stack \<Rightarrow> sack_stack option" where
  "ss_pop n s = do {
     (i, xs) \<leftarrow> shift_up n (ss_cnt s) (ss_sfe s);
     xs \<leftarrow> sfe_put i (- 1, - 1) xs;
     Some (s\<lparr>ss_sfe := xs, ss_cnt := ss_cnt s - 1\<rparr>)
   }"

section \<open>The generator\<close>

record sacker =
  sk_base_nblocks :: int
  sk_sf :: sack_stack

definition NSA :: int where "NSA = 3"

text \<open>\<open>configure\<close> and \<open>trace\<close>: \<open>maxSackBlocks_\<close> is cut to the blocks that the header can hold.\<close>

definition sacker_configure :: "int \<Rightarrow> (int \<times> sacker) option" where
  "sacker_configure nblocks = do {
     let nblocks = (if NSA < nblocks then NSA else nblocks);
     s \<leftarrow> new_sack_stack nblocks;
     Some (nblocks, \<lparr> sk_base_nblocks = nblocks, sk_sf = s \<rparr>)
   }"

definition sacker_reset :: "acker \<Rightarrow> sacker \<Rightarrow> (acker \<times> sacker) option" where
  "sacker_reset a sk = do {
     s \<leftarrow> ss_reset (sk_sf sk);
     a \<leftarrow> acker_reset a;
     Some (a, sk\<lparr>sk_sf := s\<rparr>)
   }"

text \<open>The scans for the first hole to the right and to the left; -1 if there is none.\<close>

function scan_right :: "acker \<Rightarrow> int \<Rightarrow> int option" where
  "scan_right a i =
    (if i \<le> ak_maxseen a
     then do {
       v \<leftarrow> ring_get (ak_wndmask a) (ak_seen a) i;
       if v = 0 then Some i else scan_right a (i + 1)
     }
     else Some (- 1))"
  by pat_completeness auto
termination by (relation "measure (\<lambda>(a, i). nat (ak_maxseen a + 1 - i))") auto

function scan_left :: "acker \<Rightarrow> int \<Rightarrow> int option" where
  "scan_left a i =
    (if ak_seqno a < i
     then do {
       v \<leftarrow> ring_get (ak_wndmask a) (ak_seen a) i;
       if v = 0 then Some (i + 1) else scan_left a (i - 1)
     }
     else Some (- 1))"
  by pat_completeness auto
termination by (relation "measure (\<lambda>(a, i). nat (i - ak_seqno a))") auto

declare scan_right.simps [simp del] scan_left.simps [simp del]

text \<open>The loop over the history; \<open>k\<close> is the place in the stack, \<open>idx\<close> the number of blocks so far.\<close>

partial_function (option) history ::
  "int \<Rightarrow> int \<Rightarrow> int \<times> int \<Rightarrow> int \<Rightarrow> int \<Rightarrow> sack_stack \<Rightarrow> ((int \<times> int) list \<times> sack_stack) option" where
  "history base maxseen recent k idx s =
    (if idx < base
     then do {
       (l, r) \<leftarrow> sfe_get k (ss_sfe s);
       if l < 0 \<or> r < 0 \<or> maxseen + 1 < r then Some ([], s)
       else if fst recent \<le> l \<and> r \<le> snd recent
       then do { s \<leftarrow> ss_pop k s; history base maxseen recent k idx s }
       else do {
         (bs, s) \<leftarrow> history base maxseen recent (k + 1) (idx + 1) s;
         Some ((l, r) # bs, s)
       }
     }
     else Some ([], s))"

declare history.simps [code]

definition append_ack :: "bool \<Rightarrow> int \<Rightarrow> acker \<Rightarrow> sacker \<Rightarrow> ((int \<times> int) list \<times> sacker) option" where
  "append_ack dsacks old a sk =
    (let seqno = ak_seqno a; base = sk_base_nblocks sk in
     if old < 0 then Some ([], sk)
     else if ak_maxseen a \<le> seqno \<and> ss_cnt (sk_sf sk) \<noteq> 0
     then do { s \<leftarrow> ss_reset (sk_sf sk); Some ([], sk\<lparr>sk_sf := s\<rparr>) }
     else if (seqno < ak_maxseen a \<or> ak_is_dup a) \<and> 0 < base
     then let ds = (if dsacks \<and> ak_is_dup a then [(old, old + 1)] else []) in
       if base \<le> int (length ds) then Some (ds, sk)
       else do {
         sack_right \<leftarrow> scan_right a old;
         let sack_right = (if sack_right = - 1 then ak_maxseen a + 1 else sack_right);
         sack_left \<leftarrow> (if old \<le> seqno then Some 0 else scan_left a (sack_right - 1));
         let recent = (sack_left, sack_right);
         let bs = (if old \<le> seqno then ds else ds @ [recent]);
         (hs, s) \<leftarrow> history base (ak_maxseen a) recent 0 (int (length bs)) (sk_sf sk);
         s \<leftarrow> (if seqno < old
               then do {
                 s \<leftarrow> ss_push 0 s;
                 xs \<leftarrow> sfe_put 0 recent (ss_sfe s);
                 Some (s\<lparr>ss_sfe := xs\<rparr>)
               }
               else Some s);
         Some (bs @ hs, sk\<lparr>sk_sf := s\<rparr>)
       }
     else Some ([], sk))"

section \<open>The stack is a list\<close>

definition stack_rep :: "sack_stack \<Rightarrow> (int \<times> int) list \<Rightarrow> bool" where
  "stack_rep s bs \<longleftrightarrow> 0 \<le> ss_size s \<and> ss_cnt s = int (length bs) \<and> int (length bs) \<le> ss_size s
     \<and> ss_sfe s = bs @ replicate (nat (ss_size s) - length bs) (- 1, - 1)"

lemma new_stack_rep:
  "0 \<le> n \<Longrightarrow> \<exists>s. new_sack_stack n = Some s \<and> stack_rep s [] \<and> ss_size s = n"
  by (simp add: new_sack_stack_def stack_rep_def)

lemma reset_rep:
  "stack_rep s bs \<Longrightarrow> \<exists>s'. ss_reset s = Some s' \<and> stack_rep s' [] \<and> ss_size s' = ss_size s"
  by (auto simp: ss_reset_def stack_rep_def Let_def replicate_add [symmetric])

lemma sfe_get_append: "sfe_get (int (length ps)) (ps @ x # qs) = Some x"
  by (simp add: sfe_get_def)

lemma sfe_put_append: "sfe_put (int (length ps)) v (ps @ x # qs) = Some (ps @ v # qs)"
  by (simp add: sfe_put_def)

text \<open>Shifting down \<open>ps\<close> onto the place behind it.\<close>

lemma shift_down_ok:
  "shift_down (int (length ps) - 1) 0 (ps @ x # rs) = Some (hd (ps @ [x]) # ps @ rs)"
proof (induction ps arbitrary: x rs rule: rev_induct)
  case Nil
  then show ?case by (subst shift_down.simps) simp
next
  case (snoc p ps)
  have "shift_down (int (length (ps @ [p])) - 1) 0 ((ps @ [p]) @ x # rs)
      = shift_down (int (length ps) - 1) 0 (ps @ p # p # rs)"
    using sfe_get_append [of ps p "x # rs"] sfe_put_append [of "ps @ [p]" p x rs]
    by (subst shift_down.simps) (simp add: add.commute)
  also have "\<dots> = Some (hd (ps @ [p]) # ps @ p # rs)" by (rule snoc)
  finally show ?case by (cases ps) simp_all
qed

lemma shift_up_ok:
  "shift_up (int (length ps)) (int (length (ps @ x # qs))) (ps @ x # qs @ rs)
    = Some (int (length (ps @ qs)), ps @ qs @ last (x # qs) # rs)"
proof (induction qs arbitrary: ps x)
  case Nil
  then show ?case by (subst shift_up.simps) simp
next
  case (Cons q qs)
  have "shift_up (int (length ps)) (int (length (ps @ x # q # qs))) (ps @ x # (q # qs) @ rs)
      = shift_up (int (length (ps @ [q]))) (int (length ((ps @ [q]) @ q # qs))) ((ps @ [q]) @ q # qs @ rs)"
    using sfe_get_append [of "ps @ [x]" q "qs @ rs"] sfe_put_append [of ps q x "q # qs @ rs"]
    by (subst shift_up.simps) (simp add: add.commute)
  also have "\<dots> = Some (int (length ((ps @ [q]) @ qs)), (ps @ [q]) @ qs @ last (q # qs) # rs)" by (rule Cons)
  finally show ?case by simp
qed

lemma pop_rep:
  assumes "stack_rep s (ps @ x # qs)"
  shows "\<exists>s'. ss_pop (int (length ps)) s = Some s' \<and> stack_rep s' (ps @ qs) \<and> ss_size s' = ss_size s"
proof -
  let ?rs = "replicate (nat (ss_size s) - length (ps @ x # qs)) (- 1, - 1) :: (int \<times> int) list"
  have s: "ss_sfe s = ps @ x # qs @ ?rs" "ss_cnt s = int (length (ps @ x # qs))"
    "int (length (ps @ x # qs)) \<le> ss_size s" using assms by (simp_all add: stack_rep_def)
  let ?s = "s\<lparr>ss_sfe := ps @ qs @ (- 1, - 1) # ?rs, ss_cnt := ss_cnt s - 1\<rparr>"
  have "sfe_put (int (length (ps @ qs))) (- 1, - 1) (ps @ qs @ last (x # qs) # ?rs)
      = Some (ps @ qs @ (- 1, - 1) # ?rs)"
    using sfe_put_append [of "ps @ qs" "(- 1, - 1)" "last (x # qs)" ?rs] by (simp only: append_assoc)
  then have "ss_pop (int (length ps)) s = Some ?s"
    using shift_up_ok [of ps x qs ?rs] s by (simp add: ss_pop_def)
  moreover have "nat (ss_size s) - length (ps @ qs) = Suc (nat (ss_size s) - length (ps @ x # qs))"
    using s(3) by auto
  then have "stack_rep ?s (ps @ qs)" using assms s by (simp add: stack_rep_def)
  ultimately show ?thesis by simp
qed

lemma push_rep:
  assumes "stack_rep s bs" and "0 < ss_size s"
  shows "\<exists>s' xs. ss_push 0 s = Some s' \<and> sfe_put 0 b (ss_sfe s') = Some xs
    \<and> stack_rep (s'\<lparr>ss_sfe := xs\<rparr>) (b # take (nat (ss_size s) - 1) bs) \<and> ss_size s' = ss_size s"
proof -
  let ?n = "nat (ss_size s)"
  define ps where "ps = take (?n - 1) bs"
  have n: "0 < ?n" and lb: "length bs \<le> ?n" and c: "ss_cnt s = int (length bs)"
    and xs: "ss_sfe s = bs @ replicate (?n - length bs) (- 1, - 1)" using assms by (auto simp: stack_rep_def)
  have cnt: "ss_cnt (if ss_size s \<le> ss_cnt s then s\<lparr>ss_cnt := ss_size s - 1\<rparr> else s) = int (length ps)"
    using n lb c by (auto simp: ps_def)
  obtain x rs where x: "ss_sfe s = ps @ x # rs" "rs = replicate (?n - 1 - length ps) (- 1, - 1)"
  proof (cases "length bs = ?n")
    case True
    then have "bs = take (?n - 1) bs @ [last bs]" using n by (metis append_butlast_last_id butlast_conv_take list.size(3) neq0_conv)
    with True n that [of "last bs" "[]"] xs show thesis by (simp add: ps_def)
  next
    case False
    then have "?n - length bs = Suc (?n - 1 - length bs)" "ps = bs" using lb n by (simp_all add: ps_def)
    with that [of "(- 1, - 1)"] xs show thesis by simp
  qed
  have "ss_push 0 s = Some (s\<lparr>ss_sfe := hd (ps @ [x]) # ps @ rs, ss_cnt := int (length ps) + 1\<rparr>)"
    unfolding ss_push_def Let_def cnt using shift_down_ok [of ps x rs] x(1) by (cases s) simp
  moreover have "?n - 1 - length ps = ?n - length (b # ps)" by simp
  with x(2) n lb have "stack_rep (s\<lparr>ss_sfe := b # ps @ rs, ss_cnt := int (length ps) + 1\<rparr>) (b # ps)"
    by (simp add: stack_rep_def ps_def)
  moreover have "sfe_put 0 b (hd (ps @ [x]) # ps @ rs) = Some (b # ps @ rs)" by (simp add: sfe_put_def)
  ultimately show ?thesis by (simp add: ps_def stack_rep_def)
qed

section \<open>The history\<close>

definition uncovered :: "int \<times> int \<Rightarrow> int \<times> int \<Rightarrow> bool" where
  "uncovered rec b \<longleftrightarrow> \<not> (fst rec \<le> fst b \<and> snd b \<le> snd rec)"

lemma history_ok:
  assumes "stack_rep s (ps @ bs)" and "\<forall>b \<in> set bs. 0 \<le> fst b \<and> 0 \<le> snd b \<and> snd b \<le> mx + 1"
    and "int (length ps) \<le> idx" and "base \<le> ss_size s"
  shows "\<exists>s' cs. history base mx rec (int (length ps)) idx s
      = Some (take (nat (base - idx)) (filter (uncovered rec) bs), s')
    \<and> stack_rep s' (ps @ cs) \<and> ss_size s' = ss_size s \<and> set cs \<subseteq> set bs
    \<and> (int (length bs) \<le> base - idx \<longrightarrow> cs = filter (uncovered rec) bs)"
  using assms
proof (induction bs arbitrary: s ps idx)
  case Nil
  show ?case
  proof (cases "idx < base")
    case True
    then have "nat (ss_size s) - length ps \<noteq> 0" using Nil by linarith
    then obtain n where "nat (ss_size s) - length ps = Suc n" by (cases "nat (ss_size s) - length ps") auto
    then have "ss_sfe s = ps @ (- 1, - 1) # replicate n (- 1, - 1)" using Nil(1) by (simp add: stack_rep_def)
    then show ?thesis using True Nil(1) sfe_get_append [of ps "(- 1, - 1)" "replicate n (- 1, - 1)"]
      by (subst history.simps) auto
  qed (use Nil in \<open>subst history.simps, auto\<close>)
next
  case (Cons b bs)
  obtain l r where b: "b = (l, r)" by (cases b)
  have lr: "0 \<le> l" "0 \<le> r" "r \<le> mx + 1" using Cons.prems(2) b by auto
  have g: "sfe_get (int (length ps)) (ss_sfe s) = Some (l, r)"
    using Cons.prems(1) sfe_get_append [of ps b] b by (simp add: stack_rep_def)
  show ?case
  proof (cases "idx < base")
    case False
    with Cons.prems(1) show ?thesis by (subst history.simps) auto
  next
    case True
    show ?thesis
    proof (cases "uncovered rec b")
      case False
      from pop_rep [OF Cons.prems(1)] obtain s1 where
        s1: "ss_pop (int (length ps)) s = Some s1" "stack_rep s1 (ps @ bs)" "ss_size s1 = ss_size s" by blast
      with Cons.IH [OF s1(2) _ Cons.prems(3)] Cons.prems(2,4) obtain s' cs where
        h: "history base mx rec (int (length ps)) idx s1 = Some (take (nat (base - idx)) (filter (uncovered rec) bs), s')"
          "stack_rep s' (ps @ cs)" "ss_size s' = ss_size s" "set cs \<subseteq> set bs"
          "int (length bs) \<le> base - idx \<longrightarrow> cs = filter (uncovered rec) bs" by auto
      have "history base mx rec (int (length ps)) idx s = history base mx rec (int (length ps)) idx s1"
        using True g lr s1(1) False b by (subst history.simps) (simp add: uncovered_def)
      with h False show ?thesis by (intro exI [of _ s'] exI [of _ cs]) auto
    next
      case unc: True
      have "stack_rep s ((ps @ [b]) @ bs)" "int (length (ps @ [b])) \<le> idx + 1" using Cons.prems(1,3) by simp_all
      with Cons.IH [OF this(1) _ this(2) Cons.prems(4)] Cons.prems(2) obtain s' cs where
        h: "history base mx rec (int (length (ps @ [b]))) (idx + 1) s
            = Some (take (nat (base - (idx + 1))) (filter (uncovered rec) bs), s')"
          "stack_rep s' ((ps @ [b]) @ cs)" "ss_size s' = ss_size s" "set cs \<subseteq> set bs"
          "int (length bs) \<le> base - (idx + 1) \<longrightarrow> cs = filter (uncovered rec) bs" by auto
      have "nat (base - idx) = Suc (nat (base - (idx + 1)))" using True by simp
      then have "history base mx rec (int (length ps)) idx s
          = Some (take (nat (base - idx)) (filter (uncovered rec) (b # bs)), s')"
        using True g lr h(1) unc b by (subst history.simps) (auto simp: uncovered_def add.commute)
      with h(2-5) unc show ?thesis by (intro exI [of _ s'] exI [of _ "b # cs"]) auto
    qed
  qed
qed

section \<open>The scans\<close>

lemma scan_right_ok:
  assumes "acker_shows a lo m" and "lo \<le> i" and "i \<le> ak_maxseen a + 1" and "m (ak_maxseen a + 1) = 0" and "0 \<le> i"
  shows "\<exists>j. i \<le> j \<and> j \<le> ak_maxseen a + 1 \<and> m j = 0 \<and> (\<forall>l. i \<le> l \<and> l < j \<longrightarrow> m l \<noteq> 0)
    \<and> scan_right a i = Some (if j = ak_maxseen a + 1 then - 1 else j)"
  using assms
proof (induction "nat (ak_maxseen a + 1 - i)" arbitrary: i)
  case 0
  then have "i = ak_maxseen a + 1" by simp
  then show ?case using 0 by (subst scan_right.simps) auto
next
  case (Suc n)
  then have i: "i \<le> ak_maxseen a" by simp
  have g: "ring_get (ak_wndmask a) (ak_seen a) i = Some (m i)"
    using Suc.prems(1,2) i ring_shows_get by (auto simp: acker_shows_def)
  show ?case
  proof (cases "m i = 0")
    case True
    then show ?thesis using g i by (subst scan_right.simps) (auto intro!: exI [of _ i])
  next
    case False
    have "n = nat (ak_maxseen a + 1 - (i + 1))" using Suc.hyps(2) by simp
    from Suc.hyps(1) [OF this Suc.prems(1)] Suc.prems(2,4,5) i obtain j where
      j: "i + 1 \<le> j" "j \<le> ak_maxseen a + 1" "m j = 0" "\<forall>l. i + 1 \<le> l \<and> l < j \<longrightarrow> m l \<noteq> 0"
        "scan_right a (i + 1) = Some (if j = ak_maxseen a + 1 then - 1 else j)" by auto
    have "m l \<noteq> 0" if "i \<le> l" "l < j" for l using False j(4) that by (cases "l = i") auto
    then show ?thesis using g i False j by (subst scan_right.simps) (auto intro!: exI [of _ j])
  qed
qed

text \<open>From a delivered packet, where the ring may hold anything, the scan still ends at the hole at \<open>next_\<close>.\<close>

lemma scan_right_below:
  assumes "acker_rep a m" and "i \<le> ak_next a"
  shows "\<exists>j. scan_right a i = Some j \<and> j \<le> ak_next a \<and> (j = - 1 \<longrightarrow> ak_next a = ak_maxseen a + 1 \<or> i \<le> - 1)"
  using assms
proof (induction "nat (ak_next a - i)" arbitrary: i)
  case 0
  then have i: "i = ak_next a" by simp
  from 0(2) have nx: "ak_next a \<le> ak_maxseen a + 1" "m (ak_next a) = 0" "0 \<le> ak_next a" by (auto simp: acker_rep_def)
  have "ring_get (ak_wndmask a) (ak_seen a) (ak_next a) = Some (m (ak_next a))"
    using 0(2) ring_shows_get by (auto simp: acker_rep_def)
  then show ?case using i nx by (subst scan_right.simps) auto
next
  case (Suc n)
  then have lt: "i < ak_next a" by simp
  have "ak_next a \<le> ak_maxseen a + 1" using Suc.prems(1) by (auto simp: acker_rep_def)
  with lt have i: "i \<le> ak_maxseen a" by simp
  from Suc.prems(1) obtain k where "ak_wndmask a = 2 ^ k - 1" "length (ak_seen a) = 2 ^ k"
    by (auto simp: acker_rep_def ring_shows_def)
  then obtain v where g: "ring_get (ak_wndmask a) (ak_seen a) i = Some v" by (simp add: ring_get_val)
  have "n = nat (ak_next a - (i + 1))" using Suc.hyps(2) by simp
  from Suc.hyps(1) [OF this Suc.prems(1)] lt obtain j where
    "scan_right a (i + 1) = Some j" "j \<le> ak_next a" "j = - 1 \<longrightarrow> ak_next a = ak_maxseen a + 1 \<or> i + 1 \<le> - 1" by auto
  then show ?case using g i lt by (subst scan_right.simps) auto
qed

lemma scan_left_ok:
  assumes "acker_rep a m" and "ak_next a \<le> i" and "i \<le> ak_maxseen a + 1"
  shows "\<exists>j. scan_left a i = Some j \<and> ak_next a < j \<and> j \<le> i + 1 \<and> m (j - 1) = 0
    \<and> (\<forall>l. j \<le> l \<and> l \<le> i \<longrightarrow> m l \<noteq> 0)"
  using assms
proof (induction "nat (i - ak_next a)" arbitrary: i)
  case 0
  then have i: "i = ak_next a" by simp
  from 0(2) have nx: "ak_next a \<le> ak_maxseen a + 1" "m (ak_next a) = 0" by (auto simp: acker_rep_def)
  have "ring_get (ak_wndmask a) (ak_seen a) (ak_next a) = Some (m (ak_next a))"
    using 0(2) ring_shows_get by (auto simp: acker_rep_def)
  then show ?case using i nx by (subst scan_left.simps) (auto simp: ak_seqno_def)
next
  case (Suc n)
  then have lt: "ak_next a < i" by simp
  have g: "ring_get (ak_wndmask a) (ak_seen a) i = Some (m i)"
    using Suc.prems ring_shows_get by (auto simp: acker_rep_def)
  show ?case
  proof (cases "m i = 0")
    case True
    then show ?thesis using g lt by (subst scan_left.simps) (auto simp: ak_seqno_def)
  next
    case False
    have "n = nat (i - 1 - ak_next a)" using Suc.hyps(2) by simp
    from Suc.hyps(1) [OF this Suc.prems(1)] lt Suc.prems(3) obtain j where
      j: "scan_left a (i - 1) = Some j" "ak_next a < j" "j \<le> i" "m (j - 1) = 0"
        "\<forall>l. j \<le> l \<and> l \<le> i - 1 \<longrightarrow> m l \<noteq> 0" by auto
    have "m l \<noteq> 0" if "j \<le> l" "l \<le> i" for l using False j(5) that by (cases "l = i") auto
    then show ?thesis using g lt False j by (subst scan_left.simps) (auto simp: ak_seqno_def)
  qed
qed

section \<open>The blocks reported\<close>

text \<open>A block of packets received; one above the cumulative acknowledgment, up to the highest packet seen.\<close>

definition held :: "(int \<Rightarrow> int) \<Rightarrow> int \<times> int \<Rightarrow> bool" where
  "held m b \<longleftrightarrow> fst b < snd b \<and> (\<forall>i. fst b \<le> i \<and> i < snd b \<longrightarrow> m i \<noteq> 0)"

definition fresh_block :: "acker \<Rightarrow> (int \<Rightarrow> int) \<Rightarrow> int \<times> int \<Rightarrow> bool" where
  "fresh_block a m b \<longleftrightarrow> ak_next a < fst b \<and> snd b \<le> ak_maxseen a + 1 \<and> held m b"

definition stack_of :: "sacker \<Rightarrow> (int \<times> int) list \<Rightarrow> bool" where
  "stack_of sk bs \<longleftrightarrow> stack_rep (sk_sf sk) bs \<and> ss_size (sk_sf sk) = sk_base_nblocks sk \<and> sk_base_nblocks sk \<le> NSA"

definition sack_inv :: "acker \<Rightarrow> (int \<Rightarrow> int) \<Rightarrow> sacker \<Rightarrow> bool" where
  "sack_inv a m sk \<longleftrightarrow> (\<exists>bs. stack_of sk bs \<and> (\<forall>b \<in> set bs. fresh_block a m b))"

text \<open>A held block that reaches beyond the hole at \<open>next_\<close> starts beyond it.\<close>

lemma held_beyond: "held m b \<Longrightarrow> m n = 0 \<Longrightarrow> n < snd b \<Longrightarrow> n < fst b"
  unfolding held_def by (metis linorder_not_le)

text \<open>What \<open>append_ack\<close> may assume of the stack: \<open>lo\<close> is the next packet expected before the packet arrived.\<close>

definition sack_before :: "int \<Rightarrow> int \<Rightarrow> acker \<Rightarrow> (int \<Rightarrow> int) \<Rightarrow> (int \<times> int) list \<Rightarrow> bool" where
  "sack_before lo old a m bs \<longleftrightarrow> acker_rep a m \<and> acker_shows a lo m \<and> 0 \<le> lo \<and> lo \<le> ak_next a
     \<and> (\<forall>b \<in> set bs. lo < fst b \<and> snd b \<le> ak_maxseen a + 1 \<and> held m b)
     \<and> (0 \<le> old \<longrightarrow> m old \<noteq> 0) \<and> (lo = ak_next a \<or> old = lo \<and> \<not> ak_is_dup a)"

lemma sack_before_fresh:
  assumes "sack_before lo old a m bs" and "b \<in> set bs" and "lo = ak_next a \<or> ak_next a < snd b"
  shows "fresh_block a m b"
proof -
  have "m (ak_next a) = 0" "held m b" "snd b \<le> ak_maxseen a + 1" "lo < fst b"
    using assms(1,2) by (auto simp: sack_before_def acker_rep_def)
  with held_beyond [of m b "ak_next a"] assms(3) show ?thesis by (auto simp: fresh_block_def)
qed

text \<open>The scans of \<open>append_ack\<close>, for a packet at or below the acknowledgment and for one above it.\<close>

lemma recent_below:
  assumes "sack_before lo old a m bs" and "0 \<le> old" and "old < ak_next a"
  shows "\<exists>j. scan_right a old = Some j \<and> (let r = if j = - 1 then ak_maxseen a + 1 else j
    in r \<le> ak_next a \<and> (lo < ak_next a \<longrightarrow> r = ak_next a))"
proof -
  have a: "acker_rep a m" "acker_shows a lo m" "0 \<le> lo" "lo < ak_next a \<longrightarrow> old = lo"
    using assms(1) by (auto simp: sack_before_def)
  have r: "ak_next a \<le> ak_maxseen a + 1" "m (ak_next a) = 0" "m (ak_maxseen a + 1) = 0"
    "\<forall>i. 0 \<le> i \<and> i < ak_next a \<longrightarrow> m i \<noteq> 0" using a(1) by (auto simp: acker_rep_def)
  from scan_right_below [OF a(1), of old] assms(2,3) obtain j where
    j: "scan_right a old = Some j" "j \<le> ak_next a" "j = - 1 \<longrightarrow> ak_next a = ak_maxseen a + 1" by auto
  have "(if j = - 1 then ak_maxseen a + 1 else j) = ak_next a" if lo: "lo < ak_next a"
  proof -
    have o: "old = lo" using a(4) lo by simp
    from scan_right_ok [OF a(2) order_refl _ r(3) a(3)] lo r(1) obtain i where
      i: "lo \<le> i" "m i = 0" "\<forall>l. lo \<le> l \<and> l < i \<longrightarrow> m l \<noteq> 0"
        "scan_right a lo = Some (if i = ak_maxseen a + 1 then - 1 else i)" by auto
    have "i = ak_next a" using i(1-3) r(2,4) a(3) lo
      by (metis linorder_neqE_linordered_idom order_less_imp_le order_trans)
    then show ?thesis using i(4) j(1) o r(1) lo a(3) by (auto split: if_splits)
  qed
  moreover have "(if j = - 1 then ak_maxseen a + 1 else j) \<le> ak_next a" using j(2,3) by auto
  ultimately show ?thesis using j(1) by (simp add: Let_def)
qed

lemma recent_above:
  assumes "sack_before lo old a m bs" and "ak_next a \<le> old"
  shows "\<exists>j l. scan_right a old = Some j \<and> (let r = if j = - 1 then ak_maxseen a + 1 else j
    in scan_left a (r - 1) = Some l \<and> l \<le> old \<and> old < r \<and> m (l - 1) = 0 \<and> m r = 0 \<and> fresh_block a m (l, r))
    \<and> lo = ak_next a \<and> ak_next a < old \<and> old \<le> ak_maxseen a"
proof -
  have a: "acker_rep a m" "acker_shows a lo m" "0 \<le> lo" "lo = ak_next a" "m old \<noteq> 0"
    using assms by (auto simp: sack_before_def)
  have r: "0 \<le> ak_next a" "m (ak_next a) = 0" "m (ak_maxseen a + 1) = 0" "\<forall>i. ak_maxseen a < i \<longrightarrow> m i = 0"
    using a(1) by (auto simp: acker_rep_def)
  have o: "ak_next a < old" "old \<le> ak_maxseen a"
    using a(5) r(2,4) assms(2) by (metis order_le_less, metis linorder_not_le)
  from scan_right_ok [OF a(2) _ _ r(3), of old] o a(4) r(1) obtain j where
    j: "old \<le> j" "j \<le> ak_maxseen a + 1" "m j = 0" "\<forall>l. old \<le> l \<and> l < j \<longrightarrow> m l \<noteq> 0"
      "scan_right a old = Some (if j = ak_maxseen a + 1 then - 1 else j)" by auto
  have oj: "old < j" using j(1,3) a(5) by (metis order_le_less)
  let ?j = "if j = ak_maxseen a + 1 then - 1 else j"
  have r': "(if ?j = - 1 then ak_maxseen a + 1 else ?j) = j" using j(2) o oj r(1) by auto
  from scan_left_ok [OF a(1), of "j - 1"] o oj j(2) obtain l where
    l: "scan_left a (j - 1) = Some l" "ak_next a < l" "l \<le> j" "m (l - 1) = 0"
      "\<forall>i. l \<le> i \<and> i \<le> j - 1 \<longrightarrow> m i \<noteq> 0" by auto
  have lo: "l \<le> old"
  proof (rule ccontr)
    assume "\<not> l \<le> old"
    then have "old \<le> l - 1" "l - 1 < j" using l(3) by auto
    with j(4) l(4) show False by blast
  qed
  have "fresh_block a m (l, j)" using l(2,5) lo oj j(2) by (auto simp: fresh_block_def held_def)
  then show ?thesis using j(3,5) l(1,4) lo oj o a(4) r'
    by (intro exI [of _ ?j] exI [of _ l]) (simp add: Let_def)
qed

text \<open>
  \<open>append_ack\<close> never reads outside the arrays. \<open>ds\<close> is the D-SACK block, if one is due; the
  others are fresh, and the first of them is the run around a packet above the acknowledgment.
\<close>

definition dsack_of :: "bool \<Rightarrow> int \<Rightarrow> acker \<Rightarrow> (int \<times> int) list" where
  "dsack_of d old a = (if d \<and> ak_is_dup a then [(old, old + 1)] else [])"

definition run_around :: "(int \<Rightarrow> int) \<Rightarrow> int \<Rightarrow> int \<times> int \<Rightarrow> bool" where
  "run_around m q b \<longleftrightarrow> fst b \<le> q \<and> q < snd b \<and> held m b \<and> m (fst b - 1) = 0 \<and> m (snd b) = 0"

definition sack_report :: "bool \<Rightarrow> int \<Rightarrow> acker \<Rightarrow> (int \<Rightarrow> int) \<Rightarrow> int \<Rightarrow> (int \<times> int) list \<Rightarrow> bool" where
  "sack_report d old a m base blocks \<longleftrightarrow> (\<exists>ds bs. blocks = ds @ bs \<and> (ds = [] \<or> 0 \<le> old \<and> ds = dsack_of d old a)
     \<and> (\<forall>b \<in> set bs. fresh_block a m b) \<and> int (length blocks) \<le> base
     \<and> (ak_next a \<le> old \<and> int (length (dsack_of d old a)) < base
         \<longrightarrow> ds = dsack_of d old a \<and> bs \<noteq> [] \<and> run_around m old (hd bs)))"

lemma append_main:
  assumes "sack_before lo old a m bs" and "stack_of sk bs" and "0 \<le> old"
    and "ak_seqno a < ak_maxseen a \<or> ak_is_dup a" and "\<not> (ak_maxseen a \<le> ak_seqno a \<and> ss_cnt (sk_sf sk) \<noteq> 0)"
    and "int (length (dsack_of d old a)) < sk_base_nblocks sk"
  shows "\<exists>blocks sk'. append_ack d old a sk = Some (blocks, sk') \<and> sack_inv a m sk'
    \<and> sk_base_nblocks sk' = sk_base_nblocks sk \<and> sack_report d old a m (sk_base_nblocks sk) blocks"
proof -
  let ?ds = "dsack_of d old a" and ?base = "sk_base_nblocks sk" and ?s = "sk_sf sk"
  have st: "stack_rep ?s ([] @ bs)" "ss_size ?s = ?base" "?base \<le> NSA" "int (length bs) \<le> ?base"
    using assms(2) by (auto simp: stack_of_def stack_rep_def)
  have lo: "0 \<le> lo" "lo \<le> ak_next a" "lo < ak_next a \<longrightarrow> \<not> ak_is_dup a" and nx: "m (ak_next a) = 0" "0 \<le> ak_next a"
    and good: "\<forall>b \<in> set bs. lo < fst b \<and> snd b \<le> ak_maxseen a + 1 \<and> held m b"
    using assms(1) by (auto simp: sack_before_def acker_rep_def)
  then have pos: "\<forall>b \<in> set bs. 0 \<le> fst b \<and> 0 \<le> snd b \<and> snd b \<le> ak_maxseen a + 1"
    by (fastforce simp: held_def)
  note h = history_ok [OF st(1) pos _ eq_refl [OF st(2) [symmetric]], simplified]
  show ?thesis
  proof (cases "old < ak_next a")
    case True
    from recent_below [OF assms(1,3) True] obtain j where
      j: "scan_right a old = Some j" and r: "(if j = - 1 then ak_maxseen a + 1 else j) \<le> ak_next a"
        "lo < ak_next a \<longrightarrow> (if j = - 1 then ak_maxseen a + 1 else j) = ak_next a" by (auto simp: Let_def)
    define rt where "rt = (if j = - 1 then ak_maxseen a + 1 else j)"
    from h [of "int (length ?ds)" "(0, rt)"] obtain s' cs where
      c: "history ?base (ak_maxseen a) (0, rt) 0 (int (length ?ds)) ?s
          = Some (take (nat (?base - int (length ?ds))) (filter (uncovered (0, rt)) bs), s')"
        "stack_rep s' cs" "ss_size s' = ss_size ?s" "set cs \<subseteq> set bs"
        "int (length bs) \<le> ?base - int (length ?ds) \<longrightarrow> cs = filter (uncovered (0, rt)) bs" by auto
    let ?hs = "take (nat (?base - int (length ?ds))) (filter (uncovered (0, rt)) bs)"
    have eq: "append_ack d old a sk = Some (?ds @ ?hs, sk\<lparr>sk_sf := s'\<rparr>)"
      unfolding append_ack_def Let_def dsack_of_def [symmetric] if_not_P [OF assms(5)]
      using assms(3,4,6) True j c(1) by (simp add: ak_seqno_def rt_def)
    have fresh: "fresh_block a m b" if b: "b \<in> set bs" "lo = ak_next a \<or> uncovered (0, rt) b" for b
    proof (rule sack_before_fresh [OF assms(1) b(1)])
      show "lo = ak_next a \<or> ak_next a < snd b"
        using b r(2) lo(1,2) good by (fastforce simp: uncovered_def rt_def)
    qed
    have "\<forall>b \<in> set cs. fresh_block a m b"
    proof (cases "lo = ak_next a")
      case True
      then show ?thesis using c(4) fresh by blast
    next
      case False
      then have "?ds = []" using lo(2,3) by (simp add: dsack_of_def)
      then have "cs = filter (uncovered (0, rt)) bs" using c(5) st(4) by simp
      then show ?thesis using fresh by auto
    qed
    then have "sack_inv a m (sk\<lparr>sk_sf := s'\<rparr>)"
      using c(2,3) st(2,3) by (auto simp: sack_inv_def stack_of_def)
    moreover have "\<forall>b \<in> set ?hs. fresh_block a m b" using fresh by (auto dest!: in_set_takeD)
    then have "sack_report d old a m ?base (?ds @ ?hs)"
      unfolding sack_report_def using assms(3,6) True by (intro exI [of _ ?ds] exI [of _ ?hs]) auto
    ultimately show ?thesis using eq by simp
  next
    case False
    then have "ak_next a \<le> old" by simp
    from recent_above [OF assms(1) this] obtain j l where
      j: "scan_right a old = Some j" and l: "lo = ak_next a" "ak_next a < old"
        "let r = if j = - 1 then ak_maxseen a + 1 else j
         in scan_left a (r - 1) = Some l \<and> l \<le> old \<and> old < r \<and> m (l - 1) = 0 \<and> m r = 0 \<and> fresh_block a m (l, r)"
      by blast
    define rt where "rt = (if j = - 1 then ak_maxseen a + 1 else j)"
    have l': "scan_left a (rt - 1) = Some l" "l \<le> old" "old < rt" "m (l - 1) = 0" "m rt = 0" "fresh_block a m (l, rt)"
      using l(3) by (simp_all add: rt_def Let_def)
    from h [of "int (length (?ds @ [(l, rt)]))" "(l, rt)"] obtain s' cs where
      c: "history ?base (ak_maxseen a) (l, rt) 0 (int (length (?ds @ [(l, rt)]))) ?s
          = Some (take (nat (?base - int (length (?ds @ [(l, rt)])))) (filter (uncovered (l, rt)) bs), s')"
        "stack_rep s' cs" "ss_size s' = ss_size ?s" "set cs \<subseteq> set bs" by auto
    let ?hs = "take (nat (?base - int (length (?ds @ [(l, rt)])))) (filter (uncovered (l, rt)) bs)"
    have "0 < ss_size s'" using c(3) st(2) assms(6) by simp
    from push_rep [OF c(2) this, of "(l, rt)"] obtain s2 xs where
      s2: "ss_push 0 s' = Some s2" "sfe_put 0 (l, rt) (ss_sfe s2) = Some xs"
        "stack_rep (s2\<lparr>ss_sfe := xs\<rparr>) ((l, rt) # take (nat (ss_size s') - 1) cs)" "ss_size s2 = ss_size s'" by blast
    have eq: "append_ack d old a sk = Some ((?ds @ [(l, rt)]) @ ?hs, sk\<lparr>sk_sf := s2\<lparr>ss_sfe := xs\<rparr>\<rparr>)"
      unfolding append_ack_def Let_def dsack_of_def [symmetric] if_not_P [OF assms(5)]
      using assms(3,4,6) l(2) j c(1) l'(1) s2(1,2) by (simp add: ak_seqno_def rt_def)
    have fresh: "fresh_block a m b" if "b \<in> set bs" for b
      using sack_before_fresh [OF assms(1) that] l(1) by blast
    have "sack_inv a m (sk\<lparr>sk_sf := s2\<lparr>ss_sfe := xs\<rparr>\<rparr>)"
      using s2(3,4) c(3,4) st(2,3) l'(6) fresh
      by (auto simp: sack_inv_def stack_of_def intro!: exI [of _ "(l, rt) # take (nat (ss_size s') - 1) cs"]
          dest!: in_set_takeD)
    moreover have "\<forall>b \<in> set ((l, rt) # ?hs). fresh_block a m b" using fresh l'(6) by (auto dest!: in_set_takeD)
    then have "sack_report d old a m ?base (?ds @ (l, rt) # ?hs)"
      unfolding sack_report_def using assms(3,6) l'
      by (intro exI [of _ ?ds] exI [of _ "(l, rt) # ?hs"]) (auto simp: run_around_def fresh_block_def)
    ultimately show ?thesis using eq by simp
  qed
qed

lemma append_ack_ok:
  assumes "sack_before lo old a m bs" and "stack_of sk bs"
  shows "\<exists>blocks sk'. append_ack d old a sk = Some (blocks, sk') \<and> sack_inv a m sk'
    \<and> sk_base_nblocks sk' = sk_base_nblocks sk \<and> sack_report d old a m (sk_base_nblocks sk) blocks"
proof -
  have st: "0 \<le> sk_base_nblocks sk" "ss_cnt (sk_sf sk) = int (length bs)" "int (length bs) \<le> sk_base_nblocks sk"
    using assms(2) by (auto simp: stack_of_def stack_rep_def)
  have r: "ak_next a \<le> old \<longrightarrow> old \<le> ak_maxseen a" "0 \<le> ak_next a" "lo < ak_next a \<longrightarrow> 0 \<le> old"
    using assms(1) by (auto simp: sack_before_def acker_rep_def linorder_not_less [symmetric])
  have all: "\<forall>b \<in> set bs. fresh_block a m b" if "lo = ak_next a"
    using sack_before_fresh [OF assms(1)] that by blast
  have same: "lo = ak_next a \<Longrightarrow> sack_inv a m sk" using all assms(2) by (auto simp: sack_inv_def)
  have lo: "lo = ak_next a \<or> old = lo \<and> \<not> ak_is_dup a" "lo \<le> ak_next a" using assms(1) by (auto simp: sack_before_def)
  have "old < 0 \<or> 0 \<le> old" by linarith
  then consider "old < 0" | "0 \<le> old" "ak_maxseen a \<le> ak_seqno a" "ss_cnt (sk_sf sk) \<noteq> 0"
    | "0 \<le> old" "\<not> (ak_maxseen a \<le> ak_seqno a \<and> ss_cnt (sk_sf sk) \<noteq> 0)"
        "\<not> ((ak_seqno a < ak_maxseen a \<or> ak_is_dup a) \<and> 0 < sk_base_nblocks sk)"
    | "0 \<le> old" "\<not> (ak_maxseen a \<le> ak_seqno a \<and> ss_cnt (sk_sf sk) \<noteq> 0)"
        "ak_seqno a < ak_maxseen a \<or> ak_is_dup a" "0 < sk_base_nblocks sk" by blast
  then show ?thesis
  proof cases
    case 1
    then have "sack_inv a m sk" using same lo(2) r(3) by force
    with 1 st(1) r(2) show ?thesis by (auto simp: append_ack_def sack_report_def)
  next
    case 2
    from reset_rep [of "sk_sf sk" bs] assms(2) obtain s where
      s: "ss_reset (sk_sf sk) = Some s" "stack_rep s []" "ss_size s = ss_size (sk_sf sk)" by (auto simp: stack_of_def)
    have "sack_inv a m (sk\<lparr>sk_sf := s\<rparr>)" using s(2,3) assms(2) by (auto simp: sack_inv_def stack_of_def)
    moreover have "old < ak_next a" using 2(2) r(1) by (auto simp: ak_seqno_def)
    ultimately show ?thesis using 2 s(1) st(1) by (auto simp: append_ack_def sack_report_def)
  next
    case 3
    then have "bs = []" using st by auto
    then have "sack_inv a m sk" using assms(2) by (auto simp: sack_inv_def)
    moreover have "old < ak_next a" if "0 < sk_base_nblocks sk" using 3 that r(1) by (auto simp: ak_seqno_def)
    ultimately show ?thesis using 3 st(1) by (auto simp: append_ack_def sack_report_def)
  next
    case 4
    show ?thesis
    proof (cases "int (length (dsack_of d old a)) < sk_base_nblocks sk")
      case True
      then show ?thesis by (rule append_main [OF assms 4(1,3,2)])
    next
      case False
      then have "dsack_of d old a \<noteq> []" using 4(4) by auto
      then have "lo = ak_next a" using lo(1) by (auto simp: dsack_of_def split: if_splits)
      then have "sack_inv a m sk" by (rule same)
      moreover have "append_ack d old a sk = Some (dsack_of d old a, sk)"
        using 4 False by (auto simp: append_ack_def Let_def dsack_of_def)
      moreover have "int (length (dsack_of d old a)) \<le> sk_base_nblocks sk"
        using 4(4) by (auto simp: dsack_of_def)
      then have "sack_report d old a m (sk_base_nblocks sk) (dsack_of d old a)"
        unfolding sack_report_def using 4(1) False by (intro exI [of _ "dsack_of d old a"] exI [of _ "[]"]) auto
      ultimately show ?thesis by blast
    qed
  qed
qed

end
