(* ===== verification/Sink.thy ===== *)
theory Sink
  imports Sacker
begin

text \<open>
  The TCP receivers of ns-2: \<open>TcpSink\<close>, which acknowledges every packet, and \<open>DelAckSink\<close>, which delays the
  acknowledgment of a packet in sequence until the next packet or a timer (src/ns-2.34/tcp/tcp-sink.cc).
  Both run with a plain \<open>Acker\<close> or with a \<open>Sacker\<close>. A data packet is the part of its headers that the sink
  reads, an acknowledgment the part that it writes; the packet that \<open>allocpkt\<close> returns, with its
  defaults, and the clock are inputs. A timer is its status: pending or not.

  The abstraction is the function \<open>m\<close> of Acker.thy. \<open>sink_step_ok\<close> says that a step never traps, that it
  delivers the bytes of the packets that became in order, and that every acknowledgment sent
  carries the last packet in order and a good list of SACK blocks.
\<close>

section \<open>Packets and state\<close>

datatype qs_state = QS_DISABLE | QS_REQUEST | QS_RESPONSE

record tcp_pkt =
  pk_size :: int
  pk_seqno :: int
  pk_ts :: real
  pk_flowid :: int
  pk_ttl :: int
  pk_cong_action :: bool
  pk_ect :: bool
  pk_ce :: bool
  pk_ecnecho :: bool
  pk_qs_flag :: qs_state
  pk_qs_ttl :: int
  pk_qs_rate :: int

record ack_pkt =
  ack_seqno :: int
  ack_ts :: real
  ack_ts_echo :: real
  ack_flowid :: int
  ack_ecnecho :: bool
  ack_ect :: bool
  ack_size :: int
  ack_blocks :: "(int \<times> int) list" \<comment> \<open>\<open>sa_left\<close> and \<open>sa_right\<close> up to \<open>sa_length\<close>\<close>
  ack_qs_flag :: qs_state
  ack_qs_ttl :: int
  ack_qs_rate :: int

record sink =
  si_acker :: acker
  si_sacker :: "sacker option"
  si_ts_echo_bugfix :: bool
  si_ts_echo_rfc1323 :: bool
  si_save :: "tcp_pkt option"
  si_generate_dsacks :: bool
  si_qs_enabled :: bool
  si_RFC2581_immediate_ack :: bool
  si_bytes :: int
  si_lastreset :: real
  si_ecn_syn :: bool
  si_pending :: bool

section \<open>Acknowledgments\<close>

text \<open>The remainder of C.\<close>

definition crem :: "int \<Rightarrow> int \<Rightarrow> int" where
  "crem a b = a - b * tquot a b"

definition ack_quickstart :: "bool \<Rightarrow> tcp_pkt \<Rightarrow> ack_pkt \<Rightarrow> ack_pkt" where
  "ack_quickstart qs_enabled opkt npkt =
    (if qs_enabled
     then if pk_seqno opkt = 0 \<and> pk_qs_flag opkt = QS_REQUEST
          then npkt\<lparr>ack_qs_flag := QS_RESPONSE,
                    ack_qs_ttl := crem (pk_ttl opkt - pk_qs_ttl opkt) 256,
                    ack_qs_rate := pk_qs_rate opkt\<rparr>
          else npkt\<lparr>ack_qs_flag := QS_DISABLE\<rparr>
     else npkt)"

text \<open>The ECN part: \<open>sf\<close> are the flags of the delayed packet, if there is one.\<close>

definition some_pkt :: "(tcp_pkt \<Rightarrow> bool) \<Rightarrow> tcp_pkt option \<Rightarrow> tcp_pkt \<Rightarrow> bool" where
  "some_pkt P sf opkt \<longleftrightarrow> (case sf of None \<Rightarrow> False | Some p \<Rightarrow> P p) \<or> P opkt"

definition ack_ecn :: "bool \<Rightarrow> tcp_pkt option \<Rightarrow> tcp_pkt \<Rightarrow> acker \<Rightarrow> ack_pkt \<Rightarrow> acker \<times> ack_pkt" where
  "ack_ecn ecn_syn sf opkt a npkt =
    (let a = (if some_pkt pk_cong_action sf opkt then a\<lparr>ak_ecn_unacked := False\<rparr> else a);
         a = (if some_pkt (\<lambda>p. pk_ect p \<and> pk_ce p) sf opkt then a\<lparr>ak_ecn_unacked := True\<rparr> else a);
         npkt = (if some_pkt pk_ect sf opkt then npkt\<lparr>ack_ecnecho := ak_ecn_unacked a\<rparr> else npkt);
         npkt = (if some_pkt (\<lambda>p. \<not> pk_ect p \<and> pk_ecnecho p) sf opkt
                 then let npkt = npkt\<lparr>ack_ecnecho := True\<rparr>
                      in if ecn_syn then npkt\<lparr>ack_ect := True\<rparr> else npkt
                 else npkt)
     in (a, npkt))"

definition sink_append ::
  "bool \<Rightarrow> int \<Rightarrow> acker \<Rightarrow> sacker option \<Rightarrow> ((int \<times> int) list \<times> sacker option) option" where
  "sink_append dsacks old a so =
    (case so of
       None \<Rightarrow> Some ([], None)
     | Some sk \<Rightarrow> do { (bs, sk) \<leftarrow> append_ack dsacks old a sk; Some (bs, Some sk) })"

text \<open>The fields of the acknowledgment that do not depend on ECN and SACK.\<close>

definition ack_header :: "real \<Rightarrow> ack_pkt \<Rightarrow> tcp_pkt \<Rightarrow> sink \<Rightarrow> ack_pkt" where
  "ack_header now alloc opkt s =
    (let npkt = ack_quickstart (si_qs_enabled s) opkt alloc
     in npkt\<lparr>ack_seqno := ak_seqno (si_acker s), ack_ts := now,
             ack_ts_echo := (if si_ts_echo_bugfix s then ak_ts_to_echo (si_acker s) else pk_ts opkt),
             ack_flowid := pk_flowid opkt\<rparr>)"

definition sink_ack :: "real \<Rightarrow> ack_pkt \<Rightarrow> tcp_pkt \<Rightarrow> sink \<Rightarrow> (ack_pkt \<times> sink) option" where
  "sink_ack now alloc opkt s = do {
     let (a, npkt) = ack_ecn (si_ecn_syn s) (si_save s) opkt (si_acker s) (ack_header now alloc opkt s);
     (bs, so) \<leftarrow> sink_append (si_generate_dsacks s) (pk_seqno opkt) a (si_sacker s);
     let npkt = (if so = None then npkt
                 else npkt\<lparr>ack_blocks := bs, ack_size := ack_size npkt + int (length bs) * 8\<rparr>);
     Some (npkt, s\<lparr>si_acker := a\<lparr>ak_last_ack_sent := ack_seqno npkt\<rparr>, si_sacker := so\<rparr>)
   }"

section \<open>Events\<close>

text \<open>
  The first steps of both \<open>recv\<close>: time stamp, update of the window, delivery; the result holds the
  bytes given to \<open>recvBytes\<close>.
\<close>

definition sink_update :: "tcp_pkt \<Rightarrow> sink \<Rightarrow> (int \<times> sink) option" where
  "sink_update pkt s = do {
     let a = update_ts (pk_seqno pkt) (pk_ts pkt) (si_ts_echo_rfc1323 s) (si_acker s);
     (n, a) \<leftarrow> acker_update (pk_seqno pkt) (pk_size pkt) a;
     Some (n, s\<lparr>si_acker := a, si_bytes := si_bytes s + n\<rparr>)
   }"

definition sink_recv :: "real \<Rightarrow> ack_pkt \<Rightarrow> tcp_pkt \<Rightarrow> sink \<Rightarrow> (ack_pkt list \<times> int \<times> sink) option" where
  "sink_recv now alloc pkt s =
    (if pk_ts pkt < si_lastreset s then Some ([], 0, s)
     else do {
       (n, s) \<leftarrow> sink_update pkt s;
       (npkt, s) \<leftarrow> sink_ack now alloc pkt s;
       Some ([npkt], n, s)
     })"

definition delack_recv :: "real \<Rightarrow> ack_pkt \<Rightarrow> tcp_pkt \<Rightarrow> sink \<Rightarrow> (ack_pkt list \<times> int \<times> sink) option" where
  "delack_recv now alloc pkt s =
    (if pk_ts pkt < si_lastreset s then Some ([], 0, s)
     else do {
       (n, s) \<leftarrow> sink_update pkt s;
       if \<not> si_pending s \<and> pk_seqno pkt = ak_seqno (si_acker s)
          \<and> \<not> (si_RFC2581_immediate_ack s \<and> pk_seqno pkt < ak_maxseen (si_acker s))
       then Some ([], n, s\<lparr>si_save := Some pkt, si_pending := True\<rparr>)
       else do {
         let s = (if si_pending s then s\<lparr>si_pending := False\<rparr> else s);
         (npkt, s) \<leftarrow> sink_ack now alloc pkt s;
         Some ([npkt], n, s\<lparr>si_save := None\<rparr>)
       }
     })"

definition delack_timeout :: "real \<Rightarrow> ack_pkt \<Rightarrow> sink \<Rightarrow> (ack_pkt list \<times> sink) option" where
  "delack_timeout now alloc s =
    (case si_save s of
       None \<Rightarrow> Some ([], s)
     | Some pkt \<Rightarrow> do {
         (npkt, s) \<leftarrow> sink_ack now alloc pkt s;
         Some ([npkt], s\<lparr>si_save := None\<rparr>)
       })"

text \<open>\<open>TimerHandler::handle\<close>: an expiry of a timer that is not pending aborts.\<close>

definition delack_expire :: "real \<Rightarrow> ack_pkt \<Rightarrow> sink \<Rightarrow> (ack_pkt list \<times> int \<times> sink) option" where
  "delack_expire now alloc s =
    (if si_pending s
     then do {
       (acks, s) \<leftarrow> delack_timeout now alloc (s\<lparr>si_pending := False\<rparr>);
       Some (acks, 0, s)
     }
     else None)"

definition sink_reset :: "real \<Rightarrow> sink \<Rightarrow> sink option" where
  "sink_reset now s =
    (case si_sacker s of
       None \<Rightarrow> do {
         a \<leftarrow> acker_reset (si_acker s);
         Some (s\<lparr>si_acker := a, si_save := None, si_lastreset := now\<rparr>)
       }
     | Some sk \<Rightarrow> do {
         (a, sk) \<leftarrow> sacker_reset (si_acker s) sk;
         Some (s\<lparr>si_acker := a, si_sacker := Some sk, si_save := None, si_lastreset := now\<rparr>)
       })"

definition delack_reset :: "real \<Rightarrow> sink \<Rightarrow> sink option" where
  "delack_reset now s = sink_reset now (if si_pending s then s\<lparr>si_pending := False\<rparr> else s)"

text \<open>
  The constructors: with a plain \<open>Acker\<close>, or with a \<open>Sacker\<close> for \<open>maxSackBlocks_\<close> blocks. \<open>binds\<close> has the
  values of the bound variables.
\<close>

definition create_sink :: "int option \<Rightarrow> sink \<Rightarrow> sink option" where
  "create_sink maxSackBlocks binds =
    (let s = binds\<lparr>si_acker := new_acker, si_sacker := None, si_save := None, si_bytes := 0,
                   si_lastreset := 0, si_pending := False\<rparr>
     in case maxSackBlocks of
          None \<Rightarrow> Some s
        | Some n \<Rightarrow> do { (n, sk) \<leftarrow> sacker_configure n; Some (s\<lparr>si_sacker := Some sk\<rparr>) })"

text \<open>A sink of either kind: \<open>delack\<close> says which. The timer of a \<open>TcpSink\<close> does not exist.\<close>

datatype sink_event = S_data real tcp_pkt | S_timer real | S_reset real

fun sink_step :: "bool \<Rightarrow> ack_pkt \<Rightarrow> sink_event \<Rightarrow> sink \<Rightarrow> (ack_pkt list \<times> int \<times> sink) option" where
  "sink_step delack alloc (S_data now pkt) s =
    (if delack then delack_recv now alloc pkt s else sink_recv now alloc pkt s)"
| "sink_step delack alloc (S_timer now) s = (if delack then delack_expire now alloc s else None)"
| "sink_step delack alloc (S_reset now) s = do {
     s \<leftarrow> (if delack then delack_reset now s else sink_reset now s);
     Some ([], 0, s)
   }"

fun sink_run :: "bool \<Rightarrow> ack_pkt \<Rightarrow> sink_event list \<Rightarrow> sink \<Rightarrow> (ack_pkt list \<times> int \<times> sink) option" where
  "sink_run delack alloc [] s = Some ([], 0, s)"
| "sink_run delack alloc (e # es) s = do {
     (as, n, s) \<leftarrow> sink_step delack alloc e s;
     (bs, k, s) \<leftarrow> sink_run delack alloc es s;
     Some (as @ bs, n + k, s)
   }"

section \<open>The invariant\<close>

lemma acker_rep_upd [simp]:
  "acker_rep (a\<lparr>ak_ts_to_echo := x\<rparr>) m = acker_rep a m"
  "acker_rep (a\<lparr>ak_ecn_unacked := e\<rparr>) m = acker_rep a m"
  "acker_rep (a\<lparr>ak_last_ack_sent := i\<rparr>) m = acker_rep a m"
  by (simp_all add: acker_rep_def)

lemma sack_inv_upd [simp]:
  "sack_inv (a\<lparr>ak_ts_to_echo := x\<rparr>) m = sack_inv a m"
  "sack_inv (a\<lparr>ak_ecn_unacked := e\<rparr>) m = sack_inv a m"
  "sack_inv (a\<lparr>ak_last_ack_sent := i\<rparr>) m = sack_inv a m"
  by (simp_all add: sack_inv_def fresh_block_def fun_eq_iff)

lemma update_ts_rep [simp]: "acker_rep (update_ts q ts r a) m = acker_rep a m"
  and update_ts_sel [simp]: "ak_next (update_ts q ts r a) = ak_next a"
    "ak_maxseen (update_ts q ts r a) = ak_maxseen a"
  by (simp_all add: update_ts_def)

text \<open>What \<open>ack_ecn\<close> leaves alone.\<close>

lemma ack_ecn_frame:
  assumes "ack_ecn e sf o' a n = (a', n')"
  shows "\<exists>x. a' = a\<lparr>ak_ecn_unacked := x\<rparr>" and "ack_seqno n' = ack_seqno n" and "ack_ts n' = ack_ts n"
    and "ack_ts_echo n' = ack_ts_echo n" and "ack_blocks n' = ack_blocks n"
  using assms by (auto simp: ack_ecn_def Let_def split: if_splits intro: exI [of _ "ak_ecn_unacked a"])

definition sink_inv :: "(int \<Rightarrow> int) \<Rightarrow> sink \<Rightarrow> bool" where
  "sink_inv m s \<longleftrightarrow> acker_rep (si_acker s) m
     \<and> (case si_sacker s of None \<Rightarrow> True | Some sk \<Rightarrow> sack_inv (si_acker s) m sk)
     \<and> (case si_save s of None \<Rightarrow> True | Some p \<Rightarrow> 0 \<le> pk_seqno p \<longrightarrow> m (pk_seqno p) \<noteq> 0)
     \<and> (si_pending s \<longleftrightarrow> si_save s \<noteq> None)"

text \<open>
  What the stack of blocks satisfies between \<open>update\<close> and \<open>append_ack\<close>, and that it is
  again good if no acknowledgment is sent because the packet is the last in order.
\<close>

lemma recorded_nz: "b \<noteq> 0 \<Longrightarrow> m i \<noteq> 0 \<Longrightarrow> recorded n q b m i \<noteq> 0"
  by (simp add: recorded_def)

lemma sack_inv_before:
  assumes "acker_rep a m" and "sack_inv a m sk" and "b \<noteq> 0" and "acker_update q b a = Some (n, a')"
  shows "\<exists>bs. stack_of sk bs \<and> sack_before (ak_next a) q a' (recorded (ak_next a) q b m) bs"
proof -
  let ?m = "recorded (ak_next a) q b m"
  from acker_update_ok [OF assms(1), of q b] assms(4) have
    u: "acker_rep a' ?m" "ak_next a \<le> ak_next a'" "ak_maxseen a' = max (ak_maxseen a) q"
      "ak_is_dup a' = (q < ak_next a \<or> m q \<noteq> 0)" "acker_shows a' (ak_next a) ?m" by auto
  from assms(2) obtain bs where bs: "stack_of sk bs" "\<forall>x \<in> set bs. fresh_block a m x" by (auto simp: sack_inv_def)
  have r: "0 \<le> ak_next a" "m (ak_next a) = 0" "\<forall>i. 0 \<le> i \<and> i < ak_next a \<longrightarrow> m i \<noteq> 0"
    using assms(1) by (auto simp: acker_rep_def)
  have "held ?m x" if "held m x" for x using that recorded_nz [OF assms(3)] unfolding held_def by blast
  then have "\<forall>x \<in> set bs. ak_next a < fst x \<and> snd x \<le> ak_maxseen a' + 1 \<and> held ?m x"
    using bs(2) u(3) by (fastforce simp: fresh_block_def)
  moreover have "0 \<le> q \<longrightarrow> ?m q \<noteq> 0" using r(3) assms(3) by (simp add: recorded_def)
  moreover have "ak_next a = ak_next a' \<or> q = ak_next a \<and> \<not> ak_is_dup a'"
  proof (cases "ak_next a = ak_next a'")
    case False
    then have "?m (ak_next a) \<noteq> 0" using u(1,2) r(1) by (auto simp: acker_rep_def)
    then have "q = ak_next a" using r(2) by (auto simp: recorded_def split: if_splits)
    then show ?thesis using u(4) r(2) by simp
  qed simp
  ultimately show ?thesis using bs(1) u(1,2,5) r(1) unfolding sack_before_def by blast
qed

lemma sack_inv_delay:
  assumes "stack_of sk bs" and "sack_before lo q a m bs" and "q = ak_seqno a"
  shows "sack_inv a m sk"
proof -
  have "fresh_block a m b" if b: "b \<in> set bs" for b
  proof (rule sack_before_fresh [OF assms(2) b])
    show "lo = ak_next a \<or> ak_next a < snd b"
      using assms(2,3) b by (fastforce simp: sack_before_def ak_seqno_def held_def)
  qed
  with assms(1) show ?thesis by (auto simp: sack_inv_def)
qed

text \<open>What is right about an acknowledgment of a packet \<open>q\<close>.\<close>

definition ack_good :: "bool \<Rightarrow> int \<Rightarrow> acker \<Rightarrow> (int \<Rightarrow> int) \<Rightarrow> ack_pkt \<Rightarrow> sacker option \<Rightarrow> ack_pkt \<Rightarrow> bool" where
  "ack_good d q a m alloc so ack \<longleftrightarrow> ack_seqno ack = ak_seqno a
     \<and> (case so of None \<Rightarrow> ack_blocks ack = ack_blocks alloc
        | Some sk \<Rightarrow> sack_report d q a m (sk_base_nblocks sk) (ack_blocks ack))"

lemma upd_simps [simp]:
  "sack_before lo q (a\<lparr>ak_ecn_unacked := e\<rparr>) m bs = sack_before lo q a m bs"
  "sack_report d q (a\<lparr>ak_ecn_unacked := e\<rparr>) m = sack_report d q a m"
  "ak_seqno (a\<lparr>ak_ecn_unacked := e\<rparr>) = ak_seqno a"
  by (simp_all add: sack_before_def sack_report_def fresh_block_def dsack_of_def ak_seqno_def
      acker_shows_def fun_eq_iff)

definition sink_frame :: "sink \<Rightarrow> sink \<Rightarrow> bool" where
  "sink_frame s s' \<longleftrightarrow> si_save s' = si_save s \<and> si_pending s' = si_pending s
     \<and> si_generate_dsacks s' = si_generate_dsacks s \<and> si_lastreset s' = si_lastreset s
     \<and> si_RFC2581_immediate_ack s' = si_RFC2581_immediate_ack s
     \<and> map_option sk_base_nblocks (si_sacker s') = map_option sk_base_nblocks (si_sacker s)"

lemma sink_ack_ok:
  assumes "acker_rep (si_acker s) m"
    and "\<And>sk. si_sacker s = Some sk \<Longrightarrow> \<exists>bs lo. stack_of sk bs \<and> sack_before lo (pk_seqno p) (si_acker s) m bs"
  shows "\<exists>ack s'. sink_ack now alloc p s = Some (ack, s') \<and> acker_rep (si_acker s') m
    \<and> (case si_sacker s' of None \<Rightarrow> True | Some sk \<Rightarrow> sack_inv (si_acker s') m sk)
    \<and> ak_next (si_acker s') = ak_next (si_acker s) \<and> ak_maxseen (si_acker s') = ak_maxseen (si_acker s)
    \<and> si_bytes s' = si_bytes s \<and> sink_frame s s'
    \<and> ack_good (si_generate_dsacks s) (pk_seqno p) (si_acker s) m alloc (si_sacker s) ack"
proof -
  let ?n0 = "ack_header now alloc p s"
  obtain a n1 where e: "ack_ecn (si_ecn_syn s) (si_save s) p (si_acker s) ?n0 = (a, n1)"
    by (cases "ack_ecn (si_ecn_syn s) (si_save s) p (si_acker s) ?n0")
  from ack_ecn_frame [OF e] obtain x where a: "a = (si_acker s)\<lparr>ak_ecn_unacked := x\<rparr>"
    and n1: "ack_seqno n1 = ak_seqno (si_acker s)" "ack_blocks n1 = ack_blocks alloc"
    by (auto simp: ack_header_def ack_quickstart_def Let_def)
  show ?thesis
  proof (cases "si_sacker s")
    case None
    have "sink_ack now alloc p s = Some (n1, s\<lparr>si_acker := a\<lparr>ak_last_ack_sent := ack_seqno n1\<rparr>, si_sacker := None\<rparr>)"
      using e None by (simp add: sink_ack_def sink_append_def)
    then show ?thesis using assms(1) None n1 a by (simp add: sink_frame_def ack_good_def)
  next
    case (Some sk)
    from assms(2) [OF this] obtain bs lo where b: "stack_of sk bs" "sack_before lo (pk_seqno p) a m bs"
      by (auto simp: a)
    from append_ack_ok [OF b(2,1), of "si_generate_dsacks s"] obtain blocks sk' where
      k: "append_ack (si_generate_dsacks s) (pk_seqno p) a sk = Some (blocks, sk')" "sack_inv a m sk'"
        "sk_base_nblocks sk' = sk_base_nblocks sk"
        "sack_report (si_generate_dsacks s) (pk_seqno p) a m (sk_base_nblocks sk) blocks" by blast
    let ?n = "n1\<lparr>ack_blocks := blocks, ack_size := ack_size n1 + int (length blocks) * 8\<rparr>"
    have "sink_ack now alloc p s = Some (?n, s\<lparr>si_acker := a\<lparr>ak_last_ack_sent := ack_seqno n1\<rparr>, si_sacker := Some sk'\<rparr>)"
      using e Some k(1) by (simp add: sink_ack_def sink_append_def)
    then show ?thesis using assms(1) Some n1 a k by (simp add: sink_frame_def ack_good_def)
  qed
qed

lemma sink_update_ok:
  assumes "sink_inv m s" and "pk_size p \<noteq> 0"
  defines "m' \<equiv> recorded (ak_next (si_acker s)) (pk_seqno p) (pk_size p) m"
  shows "\<exists>n s'. sink_update p s = Some (n, s') \<and> acker_rep (si_acker s') m'
    \<and> n = sum m' {ak_next (si_acker s)..<ak_next (si_acker s')} \<and> ak_next (si_acker s) \<le> ak_next (si_acker s')
    \<and> si_bytes s' = si_bytes s + n \<and> si_sacker s' = si_sacker s \<and> sink_frame s s'
    \<and> (\<forall>sk. si_sacker s = Some sk \<longrightarrow>
         (\<exists>bs. stack_of sk bs \<and> sack_before (ak_next (si_acker s)) (pk_seqno p) (si_acker s') m' bs))"
proof -
  let ?a = "update_ts (pk_seqno p) (pk_ts p) (si_ts_echo_rfc1323 s) (si_acker s)"
  have rep: "acker_rep ?a m" and sk: "\<And>sk. si_sacker s = Some sk \<Longrightarrow> sack_inv ?a m sk"
    using assms(1) by (auto simp: sink_inv_def update_ts_def)
  from acker_update_ok [OF rep, of "pk_seqno p" "pk_size p"] obtain n a' where
    u: "acker_update (pk_seqno p) (pk_size p) ?a = Some (n, a')" "acker_rep a' m'"
      "n = sum m' {ak_next (si_acker s)..<ak_next a'}" "ak_next (si_acker s) \<le> ak_next a'"
    by (auto simp: m'_def)
  note b = sack_inv_before [OF rep sk assms(2) u(1)]
  show ?thesis using u b by (auto simp: sink_update_def sink_frame_def m'_def)
qed

text \<open>The event in terms of \<open>m\<close>.\<close>

fun sink_seen :: "sink \<Rightarrow> sink_event \<Rightarrow> (int \<Rightarrow> int) \<Rightarrow> int \<Rightarrow> int" where
  "sink_seen s (S_data now p) m =
    (if pk_ts p < si_lastreset s then m else recorded (ak_next (si_acker s)) (pk_seqno p) (pk_size p) m)"
| "sink_seen s (S_timer now) m = m"
| "sink_seen s (S_reset now) m = (\<lambda>i. 0)"

fun sink_event_env :: "bool \<Rightarrow> sink_event \<Rightarrow> sink \<Rightarrow> bool" where
  "sink_event_env delack (S_data now p) s \<longleftrightarrow> pk_size p \<noteq> 0"
| "sink_event_env delack (S_timer now) s \<longleftrightarrow> delack \<and> si_pending s"
| "sink_event_env delack (S_reset now) s \<longleftrightarrow> True"

definition acks_good :: "int \<Rightarrow> (int \<Rightarrow> int) \<Rightarrow> ack_pkt \<Rightarrow> sink \<Rightarrow> ack_pkt list \<Rightarrow> bool" where
  "acks_good q m alloc s acks \<longleftrightarrow> (\<forall>ack \<in> set acks. \<exists>a so. ack_good (si_generate_dsacks s) q a m alloc so ack
     \<and> (0 \<le> q \<longrightarrow> m q \<noteq> 0) \<and> acker_rep a m \<and> ak_next a = ak_next (si_acker s)
     \<and> ak_maxseen a = ak_maxseen (si_acker s)
     \<and> map_option sk_base_nblocks so = map_option sk_base_nblocks (si_sacker s))"

lemma acks_good_one:
  assumes "ack_good (si_generate_dsacks s) q a m alloc so ack" and "0 \<le> q \<longrightarrow> m q \<noteq> 0" and "acker_rep a m"
    and "ak_next a = ak_next (si_acker s)" and "ak_maxseen a = ak_maxseen (si_acker s)"
    and "map_option sk_base_nblocks so = map_option sk_base_nblocks (si_sacker s)"
  shows "acks_good q m alloc s [ack]"
  using assms unfolding acks_good_def by auto

lemma recorded_received: "acker_rep a m \<Longrightarrow> b \<noteq> 0 \<Longrightarrow> 0 \<le> q \<Longrightarrow> recorded (ak_next a) q b m q \<noteq> 0"
  by (simp add: recorded_def acker_rep_def)

lemma sink_data_ok:
  assumes "sink_inv m s" and "pk_size p \<noteq> 0" and "\<not> pk_ts p < si_lastreset s"
  defines "m' \<equiv> recorded (ak_next (si_acker s)) (pk_seqno p) (pk_size p) m"
  shows "\<exists>acks n s'. sink_step delack alloc (S_data now p) s = Some (acks, n, s') \<and> sink_inv m' s'
    \<and> n = sum m' {ak_next (si_acker s)..<ak_next (si_acker s')} \<and> ak_next (si_acker s) \<le> ak_next (si_acker s')
    \<and> si_bytes s' = si_bytes s + n \<and> acks_good (pk_seqno p) m' alloc s' acks
    \<and> (acks = [] \<longrightarrow> delack \<and> si_pending s') \<and> (si_pending s \<longrightarrow> acks \<noteq> [])
    \<and> si_generate_dsacks s' = si_generate_dsacks s \<and> si_lastreset s' = si_lastreset s"
proof -
  from sink_update_ok [OF assms(1,2)] obtain n s1 where
    u: "sink_update p s = Some (n, s1)" "acker_rep (si_acker s1) m'"
      "n = sum m' {ak_next (si_acker s)..<ak_next (si_acker s1)}" "ak_next (si_acker s) \<le> ak_next (si_acker s1)"
      "si_bytes s1 = si_bytes s + n" "si_sacker s1 = si_sacker s" "sink_frame s s1"
      "\<forall>sk. si_sacker s = Some sk \<longrightarrow>
         (\<exists>bs. stack_of sk bs \<and> sack_before (ak_next (si_acker s)) (pk_seqno p) (si_acker s1) m' bs)"
    unfolding m'_def by blast
  have q: "0 \<le> pk_seqno p \<longrightarrow> m' (pk_seqno p) \<noteq> 0"
    using recorded_received assms(1,2) by (auto simp: m'_def sink_inv_def)
  have save: "case si_save s1 of None \<Rightarrow> True | Some p \<Rightarrow> 0 \<le> pk_seqno p \<longrightarrow> m' (pk_seqno p) \<noteq> 0"
    and pend: "si_pending s1 \<longleftrightarrow> si_save s1 \<noteq> None"
    using assms(1) u(7) recorded_nz [OF assms(2)]
    by (auto simp: sink_inv_def sink_frame_def m'_def split: option.splits)
  have before: "\<exists>bs lo. stack_of sk bs \<and> sack_before lo (pk_seqno p) (si_acker s2) m' bs"
    if "si_sacker s2 = Some sk" "si_acker s2 = si_acker s1" "si_sacker s2 = si_sacker s1" for s2 sk
    using u(6,8) that by auto
  let ?s1 = "if si_pending s1 then s1\<lparr>si_pending := False\<rparr> else s1"
  have s1: "si_acker ?s1 = si_acker s1" "si_sacker ?s1 = si_sacker s1" "si_save ?s1 = si_save s1" "si_bytes ?s1 = si_bytes s1"
    "si_generate_dsacks ?s1 = si_generate_dsacks s1" "si_lastreset ?s1 = si_lastreset s1" "\<not> si_pending ?s1" by simp_all
  show ?thesis
  proof (cases delack)
    case False
    from sink_ack_ok [OF u(2) before [OF _ refl refl], of now alloc] obtain ack s' where
      k: "sink_ack now alloc p s1 = Some (ack, s')" "acker_rep (si_acker s') m'"
        "case si_sacker s' of None \<Rightarrow> True | Some sk \<Rightarrow> sack_inv (si_acker s') m' sk"
        "ak_next (si_acker s') = ak_next (si_acker s1)" "ak_maxseen (si_acker s') = ak_maxseen (si_acker s1)"
        "si_bytes s' = si_bytes s1" "sink_frame s1 s'"
        "ack_good (si_generate_dsacks s1) (pk_seqno p) (si_acker s1) m' alloc (si_sacker s1) ack" by blast
    have "acks_good (pk_seqno p) m' alloc s' [ack]" using k(4,5,7,8) q u(2) by (intro acks_good_one) (auto simp: sink_frame_def)
    moreover have "sink_inv m' s'" using k(2,3,7) save pend by (simp add: sink_inv_def sink_frame_def)
    moreover have "sink_step delack alloc (S_data now p) s = Some ([ack], n, s')"
      using False assms(3) u(1) k(1) by (simp add: sink_recv_def)
    moreover note u(3-5,7) k(4,6,7)
    ultimately show ?thesis by (auto simp: sink_frame_def)
  next
    case True
    show ?thesis
    proof (cases "\<not> si_pending s1 \<and> pk_seqno p = ak_seqno (si_acker s1)
        \<and> \<not> (si_RFC2581_immediate_ack s1 \<and> pk_seqno p < ak_maxseen (si_acker s1))")
      case delay: True
      let ?s' = "s1\<lparr>si_save := Some p, si_pending := True\<rparr>"
      have "case si_sacker s1 of None \<Rightarrow> True | Some sk \<Rightarrow> sack_inv (si_acker s1) m' sk"
      proof (cases "si_sacker s1")
        case (Some sk)
        with u(6,8) obtain bs where "stack_of sk bs"
          "sack_before (ak_next (si_acker s)) (pk_seqno p) (si_acker s1) m' bs" by (metis (no_types))
        from sack_inv_delay [OF this] delay Some show ?thesis by simp
      qed simp
      then have "sink_inv m' ?s'" using u(2) q by (auto simp: sink_inv_def split: option.splits)
      moreover have "sink_step delack alloc (S_data now p) s = Some ([], n, ?s')"
        using True assms(3) u(1) delay by (auto simp: delack_recv_def)
      ultimately show ?thesis using True u(3-5,7) delay by (auto simp: acks_good_def sink_frame_def)
    next
      case False
      have "\<And>sk. si_sacker ?s1 = Some sk \<Longrightarrow> \<exists>bs lo. stack_of sk bs \<and> sack_before lo (pk_seqno p) (si_acker ?s1) m' bs"
        using before [OF _ s1(1,2)] by blast
      from sink_ack_ok [OF u(2) [folded s1(1)] this, of now alloc] obtain ack s' where
        k: "sink_ack now alloc p ?s1 = Some (ack, s')" "acker_rep (si_acker s') m'"
          "case si_sacker s' of None \<Rightarrow> True | Some sk \<Rightarrow> sack_inv (si_acker s') m' sk"
          "ak_next (si_acker s') = ak_next (si_acker s1)" "ak_maxseen (si_acker s') = ak_maxseen (si_acker s1)"
          "si_bytes s' = si_bytes s1" "sink_frame ?s1 s'"
          "ack_good (si_generate_dsacks s1) (pk_seqno p) (si_acker s1) m' alloc (si_sacker s1) ack"
        unfolding s1 by blast
      let ?s' = "s'\<lparr>si_save := None\<rparr>"
      have "acks_good (pk_seqno p) m' alloc ?s' [ack]" using k(4,5,7,8) q u(2) s1 by (intro acks_good_one) (auto simp: sink_frame_def)
      moreover have "sink_inv m' ?s'" using k(2,3,7) s1 by (auto simp: sink_inv_def sink_frame_def split: option.splits)
      moreover have "sink_step delack alloc (S_data now p) s = Some ([ack], n, ?s')"
        using True False assms(3) u(1) k(1) by (simp add: delack_recv_def)
      moreover note u(3-5,7) k(4,6,7) s1
      ultimately show ?thesis by (auto simp: sink_frame_def)
    qed
  qed
qed

text \<open>The timer: the delayed acknowledgment goes out, and the same state would be good without it.\<close>

lemma acker_rep_shows: "acker_rep a m \<Longrightarrow> acker_shows a (ak_next a) m"
  by (auto simp: acker_rep_def acker_shows_def)

lemma sink_timer_ok:
  assumes "sink_inv m s" and "delack" and "si_pending s"
  shows "\<exists>acks s'. sink_step delack alloc (S_timer now) s = Some (acks, 0, s') \<and> sink_inv m s' \<and> acks \<noteq> []
    \<and> ak_next (si_acker s') = ak_next (si_acker s) \<and> si_bytes s' = si_bytes s \<and> acks_good (pk_seqno (the (si_save s))) m alloc s' acks
    \<and> si_generate_dsacks s' = si_generate_dsacks s \<and> si_lastreset s' = si_lastreset s"
proof -
  from assms obtain p where p: "si_save s = Some p" "0 \<le> pk_seqno p \<longrightarrow> m (pk_seqno p) \<noteq> 0"
    and rep: "acker_rep (si_acker s) m"
    and sk: "case si_sacker s of None \<Rightarrow> True | Some sk \<Rightarrow> sack_inv (si_acker s) m sk"
    by (auto simp: sink_inv_def)
  let ?s = "s\<lparr>si_pending := False\<rparr>"
  have "\<exists>bs lo. stack_of k bs \<and> sack_before lo (pk_seqno p) (si_acker ?s) m bs" if "si_sacker ?s = Some k" for k
  proof -
    from sk that obtain bs where "stack_of k bs" "\<forall>b \<in> set bs. fresh_block (si_acker s) m b"
      by (auto simp: sack_inv_def)
    moreover have "0 \<le> ak_next (si_acker s)" using rep by (simp add: acker_rep_def)
    ultimately show ?thesis using p(2) rep acker_rep_shows [OF rep]
      by (intro exI [of _ bs] exI [of _ "ak_next (si_acker s)"]) (simp add: sack_before_def fresh_block_def)
  qed
  from sink_ack_ok [of ?s m p, OF _ this, of now alloc] rep obtain ack s' where
    k: "sink_ack now alloc p ?s = Some (ack, s')" "acker_rep (si_acker s') m"
      "case si_sacker s' of None \<Rightarrow> True | Some sk \<Rightarrow> sack_inv (si_acker s') m sk"
      "ak_next (si_acker s') = ak_next (si_acker s)" "ak_maxseen (si_acker s') = ak_maxseen (si_acker s)"
      "si_bytes s' = si_bytes s" "sink_frame ?s s'"
      "ack_good (si_generate_dsacks s) (pk_seqno p) (si_acker s) m alloc (si_sacker s) ack" by auto
  let ?s' = "s'\<lparr>si_save := None\<rparr>"
  have "acks_good (pk_seqno p) m alloc ?s' [ack]" using k(4,5,7,8) p(2) rep by (intro acks_good_one) (auto simp: sink_frame_def)
  moreover have "sink_inv m ?s'" using k(2,3,7) by (auto simp: sink_inv_def sink_frame_def split: option.splits)
  moreover have "sink_step delack alloc (S_timer now) s = Some ([ack], 0, ?s')"
    using assms(2,3) p(1) k(1) by (simp add: delack_expire_def delack_timeout_def)
  moreover note k(4,6,7) p(1)
  ultimately show ?thesis by (auto simp: sink_frame_def)
qed

lemma sink_reset_ok:
  assumes "sink_inv m s" and "delack \<or> \<not> si_pending s"
  shows "\<exists>s'. sink_step delack alloc (S_reset now) s = Some ([], 0, s') \<and> sink_inv (\<lambda>i. 0) s'
    \<and> ak_next (si_acker s') = 0 \<and> si_bytes s' = si_bytes s \<and> si_lastreset s' = now
    \<and> si_generate_dsacks s' = si_generate_dsacks s"
proof -
  define t where "t = (if delack then (if si_pending s then s\<lparr>si_pending := False\<rparr> else s) else s)"
  have s: "si_acker t = si_acker s" "si_sacker t = si_sacker s" "\<not> si_pending t" "si_bytes t = si_bytes s"
    "si_generate_dsacks t = si_generate_dsacks s" using assms(2) by (auto simp: t_def)
  from assms(1) have rep: "acker_rep (si_acker s) m" by (simp add: sink_inv_def)
  from acker_reset_ok [OF rep] obtain a where a: "acker_reset (si_acker s) = Some a" "acker_rep a (\<lambda>i. 0)" "ak_next a = 0" by blast
  have eq: "sink_step delack alloc (S_reset now) s = do { s \<leftarrow> sink_reset now t; Some ([], 0, s) }"
    by (simp add: delack_reset_def t_def)
  show ?thesis
  proof (cases "si_sacker s")
    case None
    then show ?thesis unfolding eq using a s by (auto simp: sink_reset_def sink_inv_def)
  next
    case (Some sk)
    with assms(1) obtain bs where bs: "stack_of sk bs" by (auto simp: sink_inv_def sack_inv_def)
    then have "stack_rep (sk_sf sk) bs" by (simp add: stack_of_def)
    from reset_rep [OF this] obtain f where
      f: "ss_reset (sk_sf sk) = Some f" "stack_rep f []" "ss_size f = ss_size (sk_sf sk)" by blast
    have "sack_inv a (\<lambda>i. 0) (sk\<lparr>sk_sf := f\<rparr>)" using f(2,3) bs by (auto simp: sack_inv_def stack_of_def)
    then show ?thesis unfolding eq using a s Some f(1) by (auto simp: sink_reset_def sacker_reset_def sink_inv_def)
  qed
qed

section \<open>Runs without reset\<close>

text \<open>
  The events of a run: data packets with a size, from after the last reset, and timers that are pending.
  \<open>arrived\<close> are the packets they carry.
\<close>

fun sink_env :: "bool \<Rightarrow> ack_pkt \<Rightarrow> sink_event list \<Rightarrow> sink \<Rightarrow> bool" where
  "sink_env delack alloc [] s \<longleftrightarrow> True"
| "sink_env delack alloc (e # es) s \<longleftrightarrow>
     (case e of
        S_data now p \<Rightarrow> 0 < pk_size p \<and> 0 \<le> pk_seqno p \<and> si_lastreset s \<le> pk_ts p
      | S_timer now \<Rightarrow> delack \<and> si_pending s
      | S_reset now \<Rightarrow> False)
     \<and> (case sink_step delack alloc e s of None \<Rightarrow> True | Some (acks, n, s') \<Rightarrow> sink_env delack alloc es s')"

fun arrived :: "sink_event \<Rightarrow> int set" where
  "arrived (S_data now p) = {pk_seqno p}"
| "arrived (S_timer now) = {}"
| "arrived (S_reset now) = {}"

fun sized :: "(int \<Rightarrow> int) \<Rightarrow> sink_event \<Rightarrow> bool" where
  "sized sz (S_data now p) \<longleftrightarrow> pk_size p = sz (pk_seqno p)"
| "sized sz (S_timer now) \<longleftrightarrow> True"
| "sized sz (S_reset now) \<longleftrightarrow> True"

definition received :: "(int \<Rightarrow> int) \<Rightarrow> int set" where
  "received m = {i. m i \<noteq> 0}"

lemma received_recorded:
  "acker_rep a m \<Longrightarrow> b \<noteq> 0 \<Longrightarrow> 0 \<le> q \<Longrightarrow> received (recorded (ak_next a) q b m) = insert q (received m)"
  by (auto simp: received_def recorded_def acker_rep_def)

text \<open>The packets an acknowledgment reports.\<close>

definition reported :: "ack_pkt \<Rightarrow> int set" where
  "reported ack = {0..ack_seqno ack} \<union> (\<Union>b \<in> set (ack_blocks ack). {fst b..<snd b})"

definition base_ok :: "sink \<Rightarrow> bool" where
  "base_ok s \<longleftrightarrow> (case si_sacker s of None \<Rightarrow> True | Some sk \<Rightarrow> 0 \<le> sk_base_nblocks sk)"

lemma acks_good_blocks:
  assumes "acks_good q m alloc s acks" and "ack \<in> set acks" and "ack_blocks alloc = []"
  shows "ack_seqno ack = ak_next (si_acker s) - 1"
    and "\<exists>ds bs. ack_blocks ack = ds @ bs \<and> (ds \<noteq> [] \<longrightarrow> si_generate_dsacks s)
      \<and> (\<forall>b \<in> set ds. {fst b..<snd b} \<subseteq> received m)
      \<and> (\<forall>b \<in> set bs. ack_seqno ack + 1 < fst b \<and> fst b < snd b \<and> snd b \<le> ak_maxseen (si_acker s) + 1
           \<and> {fst b..<snd b} \<subseteq> received m)"
    and "int (length (ack_blocks ack)) \<le> (case si_sacker s of None \<Rightarrow> 0 | Some sk \<Rightarrow> sk_base_nblocks sk)"
proof -
  from assms(1,2) obtain a so where
    a: "ack_good (si_generate_dsacks s) q a m alloc so ack" "0 \<le> q \<longrightarrow> m q \<noteq> 0"
      "ak_next a = ak_next (si_acker s)" "ak_maxseen a = ak_maxseen (si_acker s)"
      "map_option sk_base_nblocks so = map_option sk_base_nblocks (si_sacker s)"
    unfolding acks_good_def by blast
  show sq: "ack_seqno ack = ak_next (si_acker s) - 1" using a(1,3) by (simp add: ack_good_def ak_seqno_def)
  show "int (length (ack_blocks ack)) \<le> (case si_sacker s of None \<Rightarrow> 0 | Some sk \<Rightarrow> sk_base_nblocks sk)"
    using a(1,5) assms(3) by (auto simp: ack_good_def sack_report_def split: option.splits)
  show "\<exists>ds bs. ack_blocks ack = ds @ bs \<and> (ds \<noteq> [] \<longrightarrow> si_generate_dsacks s)
      \<and> (\<forall>b \<in> set ds. {fst b..<snd b} \<subseteq> received m)
      \<and> (\<forall>b \<in> set bs. ack_seqno ack + 1 < fst b \<and> fst b < snd b \<and> snd b \<le> ak_maxseen (si_acker s) + 1
           \<and> {fst b..<snd b} \<subseteq> received m)"
  proof (cases so)
    case None
    then show ?thesis using a(1) assms(3) by (simp add: ack_good_def)
  next
    case (Some sk)
    with a(1) obtain ds bs where b: "ack_blocks ack = ds @ bs"
        "ds = [] \<or> 0 \<le> q \<and> ds = dsack_of (si_generate_dsacks s) q a"
        "\<forall>b \<in> set bs. fresh_block a m b" by (auto simp: ack_good_def sack_report_def)
    have "\<forall>b \<in> set ds. {fst b..<snd b} \<subseteq> received m"
      using a(2) b(2) by (auto simp: dsack_of_def received_def split: if_splits)
    moreover have "\<forall>b \<in> set bs. ack_seqno ack + 1 < fst b \<and> fst b < snd b \<and> snd b \<le> ak_maxseen (si_acker s) + 1
        \<and> {fst b..<snd b} \<subseteq> received m"
      using b(3) sq a(3,4) by (auto simp: fresh_block_def held_def received_def)
    moreover have "ds \<noteq> [] \<longrightarrow> si_generate_dsacks s" using b(2) by (auto simp: dsack_of_def split: if_splits)
    ultimately show ?thesis using b(1) by blast
  qed
qed

lemma acks_good_reported:
  assumes "acks_good q m alloc s acks" and "ack \<in> set acks" and "ack_blocks alloc = []" and "acker_rep (si_acker s) m"
  shows "reported ack \<subseteq> received m"
proof -
  have "{0..ack_seqno ack} \<subseteq> received m"
    using acks_good_blocks(1) [OF assms(1-3)] assms(4) by (auto simp: received_def acker_rep_def)
  moreover have "\<forall>b \<in> set (ack_blocks ack). {fst b..<snd b} \<subseteq> received m"
  proof -
    from acks_good_blocks(2) [OF assms(1-3)] obtain ds bs where "ack_blocks ack = ds @ bs"
      "\<forall>b \<in> set ds. {fst b..<snd b} \<subseteq> received m" "\<forall>b \<in> set bs. {fst b..<snd b} \<subseteq> received m" by blast
    then show ?thesis by (simp add: ball_Un)
  qed
  ultimately show ?thesis unfolding reported_def by blast
qed

text \<open>
  What the invariant says of \<open>next_\<close>: it is the least packet not received.
\<close>

lemma next_least:
  assumes "acker_rep a m"
  shows "{0..<ak_next a} \<subseteq> received m" and "ak_next a \<notin> received m" and "received m \<subseteq> {0..ak_maxseen a}"
  using assms by (auto simp: acker_rep_def received_def linorder_not_less [symmetric])

text \<open>
  From \<open>s\<close> with \<open>m\<close> to \<open>s'\<close> with \<open>m'\<close>, where the packets of \<open>E\<close> arrived and \<open>n\<close> bytes were delivered; if \<open>c\<close>,
  they had the sizes \<open>sz\<close>.
\<close>

definition sizes_are :: "(int \<Rightarrow> int) \<Rightarrow> (int \<Rightarrow> int) \<Rightarrow> bool" where
  "sizes_are sz m \<longleftrightarrow> (\<forall>i. m i \<noteq> 0 \<longrightarrow> m i = sz i)"

definition sink_moved ::
  "(int \<Rightarrow> int) \<Rightarrow> bool \<Rightarrow> int set \<Rightarrow> int \<Rightarrow> (int \<Rightarrow> int) \<Rightarrow> sink \<Rightarrow> (int \<Rightarrow> int) \<Rightarrow> sink \<Rightarrow> bool" where
  "sink_moved sz c E n m s m' s' \<longleftrightarrow> sink_inv m' s' \<and> received m' = received m \<union> E
     \<and> n = sum m' {ak_next (si_acker s)..<ak_next (si_acker s')} \<and> ak_next (si_acker s) \<le> ak_next (si_acker s')
     \<and> (\<forall>i. 0 \<le> i \<and> i < ak_next (si_acker s) \<longrightarrow> m' i = m i) \<and> si_bytes s' = si_bytes s + n
     \<and> (sizes_are sz m \<and> c \<longrightarrow> sizes_are sz m')"

lemma sink_moved_trans:
  assumes "sink_moved sz c E n m s m1 s1" and "sink_moved sz d F k m1 s1 m' s'" and "0 \<le> ak_next (si_acker s)"
  shows "sink_moved sz (c \<and> d) (E \<union> F) (n + k) m s m' s'"
proof -
  have a: "n = sum m1 {ak_next (si_acker s)..<ak_next (si_acker s1)}" "ak_next (si_acker s) \<le> ak_next (si_acker s1)"
    "k = sum m' {ak_next (si_acker s1)..<ak_next (si_acker s')}" "ak_next (si_acker s1) \<le> ak_next (si_acker s')"
    "\<forall>i. 0 \<le> i \<and> i < ak_next (si_acker s1) \<longrightarrow> m' i = m1 i"
    using assms(1,2) by (simp_all add: sink_moved_def)
  have "{ak_next (si_acker s)..<ak_next (si_acker s')}
      = {ak_next (si_acker s)..<ak_next (si_acker s1)} \<union> {ak_next (si_acker s1)..<ak_next (si_acker s')}"
    using a(2,4) by auto
  then have "sum m' {ak_next (si_acker s)..<ak_next (si_acker s')}
      = sum m' {ak_next (si_acker s)..<ak_next (si_acker s1)} + k"
    using a(3) by (simp add: sum.union_disjoint)
  also have "sum m' {ak_next (si_acker s)..<ak_next (si_acker s1)} = n"
    unfolding a(1) using a(5) assms(3) by (intro sum.cong) auto
  finally show ?thesis using assms(1,2) unfolding sink_moved_def by auto
qed

lemma sink_step_moved:
  assumes "sink_inv m s" and "sink_env delack alloc [e] s"
  shows "\<exists>acks n s' m' q. sink_step delack alloc e s = Some (acks, n, s') \<and> sink_moved sz (sized sz e) (arrived e) n m s m' s'
    \<and> acks_good q m' alloc s' acks \<and> si_generate_dsacks s' = si_generate_dsacks s"
proof (cases e)
  case (S_data now p)
  with assms(2) have p: "pk_size p \<noteq> 0" "0 \<le> pk_seqno p" "\<not> pk_ts p < si_lastreset s" by auto
  let ?m = "recorded (ak_next (si_acker s)) (pk_seqno p) (pk_size p) m"
  have rep: "acker_rep (si_acker s) m" using assms(1) by (simp add: sink_inv_def)
  from sink_data_ok [OF assms(1) p(1,3), of delack alloc now] obtain acks n s' where
    d: "sink_step delack alloc (S_data now p) s = Some (acks, n, s')" "sink_inv ?m s'"
      "n = sum ?m {ak_next (si_acker s)..<ak_next (si_acker s')}" "ak_next (si_acker s) \<le> ak_next (si_acker s')"
      "si_bytes s' = si_bytes s + n" "acks_good (pk_seqno p) ?m alloc s' acks"
      "si_generate_dsacks s' = si_generate_dsacks s" by blast
  have "\<forall>i. 0 \<le> i \<and> i < ak_next (si_acker s) \<longrightarrow> ?m i = m i"
    and "sizes_are sz m \<and> sized sz e \<longrightarrow> sizes_are sz ?m"
    using S_data by (simp_all add: recorded_def sizes_are_def)
  then have "sink_moved sz (sized sz e) (arrived e) n m s ?m s'"
    using d(2-5) received_recorded [OF rep p(1,2)] S_data by (simp add: sink_moved_def)
  with d(1,6,7) S_data show ?thesis by blast
next
  case (S_timer now)
  with assms(2) sink_timer_ok [OF assms(1), of delack alloc now] obtain acks s' where
    t: "sink_step delack alloc (S_timer now) s = Some (acks, 0, s')" "sink_inv m s'"
      "ak_next (si_acker s') = ak_next (si_acker s)" "si_bytes s' = si_bytes s"
      "acks_good (pk_seqno (the (si_save s))) m alloc s' acks" "si_generate_dsacks s' = si_generate_dsacks s"
    by auto
  have "sink_moved sz (sized sz e) (arrived e) 0 m s m s'" using t(2-4) S_timer by (simp add: sink_moved_def)
  with t(1,5,6) S_timer show ?thesis by blast
next
  case (S_reset now)
  with assms(2) show ?thesis by simp
qed

lemma sink_run_ok:
  assumes "sink_inv m s" and "sink_env delack alloc es s" and "ack_blocks alloc = []"
  shows "\<exists>acks n s' m'. sink_run delack alloc es s = Some (acks, n, s')
    \<and> sink_moved sz (\<forall>e \<in> set es. sized sz e) (\<Union>e \<in> set es. arrived e) n m s m' s'
    \<and> (\<forall>ack \<in> set acks. reported ack \<subseteq> received m')"
  using assms(1,2)
proof (induction es arbitrary: m s)
  case Nil
  then have "sink_moved sz True {} 0 m s m s" by (simp add: sink_moved_def)
  then show ?case by auto
next
  case (Cons e es)
  have "sink_env delack alloc [e] s" using Cons.prems(2) by (simp split: option.split)
  from sink_step_moved [OF Cons.prems(1) this, of sz] obtain as n s1 m1 q where
    st: "sink_step delack alloc e s = Some (as, n, s1)" "sink_moved sz (sized sz e) (arrived e) n m s m1 s1"
      "acks_good q m1 alloc s1 as" by blast
  have inv: "sink_inv m1 s1" "0 \<le> ak_next (si_acker s)" and rep: "acker_rep (si_acker s1) m1"
    using st(2) Cons.prems(1) by (auto simp: sink_moved_def sink_inv_def acker_rep_def)
  have "sink_env delack alloc es s1" using Cons.prems(2) st(1) by simp
  from Cons.IH [OF inv(1) this] obtain bs k s' m' where
    r: "sink_run delack alloc es s1 = Some (bs, k, s')"
      "sink_moved sz (\<forall>e \<in> set es. sized sz e) (\<Union>e \<in> set es. arrived e) k m1 s1 m' s'"
      "\<forall>ack \<in> set bs. reported ack \<subseteq> received m'" by blast
  have "received m1 \<subseteq> received m'" using r(2) by (auto simp: sink_moved_def)
  with acks_good_reported [OF st(3) _ assms(3) rep] r(3)
  have "\<forall>ack \<in> set (as @ bs). reported ack \<subseteq> received m'" by auto
  moreover have "sink_run delack alloc (e # es) s = Some (as @ bs, n + k, s')" using st(1) r(1) by simp
  moreover note sink_moved_trans [OF st(2) r(2) inv(2)]
  ultimately show ?case by auto
qed

lemma create_sink_inv:
  assumes "create_sink mb binds = Some s"
  shows "sink_inv (\<lambda>i. 0) s" and "ak_next (si_acker s) = 0" and "si_bytes s = 0" and "si_lastreset s = 0"
    and "si_generate_dsacks s = si_generate_dsacks binds"
proof -
  have "sink_inv (\<lambda>i. 0) s \<and> ak_next (si_acker s) = 0 \<and> si_bytes s = 0 \<and> si_lastreset s = 0
    \<and> si_generate_dsacks s = si_generate_dsacks binds"
  proof (cases mb)
    case None
    with assms show ?thesis using new_acker_rep by (auto simp: create_sink_def sink_inv_def new_acker_def)
  next
    case (Some n)
    with assms obtain k sk where k: "sacker_configure n = Some (k, sk)"
      and s: "s = binds\<lparr>si_acker := new_acker, si_sacker := Some sk, si_save := None, si_bytes := 0,
                   si_lastreset := 0, si_pending := False\<rparr>"
      by (auto simp: create_sink_def Let_def bind_eq_Some_conv)
    let ?n = "if NSA < n then NSA else n"
    from k obtain f where f: "new_sack_stack ?n = Some f" "sk = \<lparr> sk_base_nblocks = ?n, sk_sf = f \<rparr>"
      by (auto simp: sacker_configure_def Let_def bind_eq_Some_conv)
    then have "0 \<le> ?n" by (auto simp: new_sack_stack_def split: if_splits)
    from new_stack_rep [OF this] f(1) have "stack_rep f []" "ss_size f = ?n" by auto
    then have "sack_inv new_acker (\<lambda>i. 0) sk" using f(2) by (auto simp: sack_inv_def stack_of_def)
    then show ?thesis using s new_acker_rep by (simp add: sink_inv_def new_acker_def)
  qed
  then show "sink_inv (\<lambda>i. 0) s" "ak_next (si_acker s) = 0" "si_bytes s = 0" "si_lastreset s = 0"
    "si_generate_dsacks s = si_generate_dsacks binds" by auto
qed

lemma sink_run_created:
  assumes "create_sink mb binds = Some s" and "sink_env delack alloc es s" and "ack_blocks alloc = []"
    and "\<forall>e \<in> set es. sized sz e"
  shows "\<exists>acks n s' m. sink_run delack alloc es s = Some (acks, n, s') \<and> sink_inv m s'
    \<and> received m = (\<Union>e \<in> set es. arrived e) \<and> si_bytes s' = n
    \<and> n = sum sz {0..<ak_next (si_acker s')} \<and> (\<forall>ack \<in> set acks. reported ack \<subseteq> received m)"
proof -
  note c = create_sink_inv [OF assms(1)]
  from sink_run_ok [OF c(1) assms(2,3), of sz] obtain acks n s' m where
    r: "sink_run delack alloc es s = Some (acks, n, s')"
      "sink_moved sz (\<forall>e \<in> set es. sized sz e) (\<Union>e \<in> set es. arrived e) n (\<lambda>i. 0) s m s'"
      "\<forall>ack \<in> set acks. reported ack \<subseteq> received m" by blast
  have "sizes_are sz (\<lambda>i. 0)" by (simp add: sizes_are_def)
  then have m: "sizes_are sz m" "sink_inv m s'" "received m = (\<Union>e \<in> set es. arrived e)" "si_bytes s' = n"
    "n = sum m {0..<ak_next (si_acker s')}"
    using r(2) assms(4) c by (auto simp: sink_moved_def received_def)
  have "acker_rep (si_acker s') m" using m(2) by (simp add: sink_inv_def)
  with m(1) have "sum m {0..<ak_next (si_acker s')} = sum sz {0..<ak_next (si_acker s')}"
    by (intro sum.cong) (auto simp: sizes_are_def acker_rep_def)
  with r(1,3) m show ?thesis
    by (intro exI [of _ acks] exI [of _ n] exI [of _ s'] exI [of _ m]) simp
qed

section \<open>Properties\<close>

definition sample_binds :: sink where
  "sample_binds = \<lparr> si_acker = new_acker, si_sacker = None, si_ts_echo_bugfix = True, si_ts_echo_rfc1323 = False,
     si_save = None, si_generate_dsacks = False, si_qs_enabled = False, si_RFC2581_immediate_ack = True,
     si_bytes = 0, si_lastreset = 0, si_ecn_syn = False, si_pending = False \<rparr>"

definition sample_pkt :: "int \<Rightarrow> tcp_pkt" where
  "sample_pkt q = \<lparr> pk_size = 1040, pk_seqno = q, pk_ts = 1, pk_flowid = 0, pk_ttl = 32, pk_cong_action = False,
     pk_ect = False, pk_ce = False, pk_ecnecho = False, pk_qs_flag = QS_DISABLE, pk_qs_ttl = 0, pk_qs_rate = 0 \<rparr>"

definition sample_alloc :: ack_pkt where
  "sample_alloc = \<lparr> ack_seqno = 0, ack_ts = 0, ack_ts_echo = 0, ack_flowid = 0, ack_ecnecho = False, ack_ect = False,
     ack_size = 40, ack_blocks = [], ack_qs_flag = QS_DISABLE, ack_qs_ttl = 0, ack_qs_rate = 0 \<rparr>"

definition sample_sink :: sink where
  "sample_sink = sample_binds\<lparr>si_sacker := Some \<lparr> sk_base_nblocks = 3,
     sk_sf = \<lparr> ss_size = 3, ss_cnt = 0, ss_sfe = [(- 1, - 1), (- 1, - 1), (- 1, - 1)] \<rparr> \<rparr>\<rparr>"

lemma sample_sink_created: "create_sink (Some 3) sample_binds = Some sample_sink"
  by (simp add: create_sink_def sacker_configure_def new_sack_stack_def NSA_def sample_sink_def sample_binds_def
      numeral_3_eq_3)

lemma sink_recv_lastreset:
  assumes "sink_recv now alloc p s = Some (a, n, s')"
  shows "si_lastreset s' = si_lastreset s"
proof -
  have "si_lastreset t' = si_lastreset t" if "sink_ack now alloc p t = Some (x, t')" for x t t'
    using that by (cases "ack_ecn (si_ecn_syn t) (si_save t) p (si_acker t) (ack_header now alloc p t)")
      (auto simp: sink_ack_def Let_def bind_eq_Some_conv)
  moreover have "si_lastreset t' = si_lastreset t" if "sink_update p t = Some (x, t')" for x t t'
    using that by (auto simp: sink_update_def Let_def bind_eq_Some_conv)
  ultimately show ?thesis using assms by (fastforce simp: sink_recv_def bind_eq_Some_conv split: if_splits)
qed

text \<open>
  C5: A receiver of either kind, with or without SACK, never reads outside its arrays and never loops
  for ever, whatever packets arrive in whatever order, repeated or not. At the end \<open>next_\<close> is the first
  packet that has not arrived, exactly the bytes of the packets before it have been given to the
  application, each packet once, and no acknowledgment that was sent, in its number or in its blocks, reports a
  packet that has not arrived.
\<close>

theorem sink_delivers_in_order:
  assumes "create_sink mb binds = Some s" and "sink_env delack alloc es s" and "ack_blocks alloc = []"
    and "\<forall>e \<in> set es. sized sz e"
  shows "\<exists>acks n s'. sink_run delack alloc es s = Some (acks, n, s')
    \<and> {0..<ak_next (si_acker s')} \<subseteq> (\<Union>e \<in> set es. arrived e)
    \<and> ak_next (si_acker s') \<notin> (\<Union>e \<in> set es. arrived e)
    \<and> n = (\<Sum>q = 0..<ak_next (si_acker s'). sz q) \<and> si_bytes s' = n
    \<and> (\<forall>ack \<in> set acks. reported ack \<subseteq> (\<Union>e \<in> set es. arrived e))"
proof -
  from sink_run_created [OF assms] obtain acks n s' m where
    r: "sink_run delack alloc es s = Some (acks, n, s')" "sink_inv m s'" "received m = (\<Union>e \<in> set es. arrived e)"
      "si_bytes s' = n" "n = sum sz {0..<ak_next (si_acker s')}" "\<forall>ack \<in> set acks. reported ack \<subseteq> received m" by blast
  from r(2) have "acker_rep (si_acker s') m" by (simp add: sink_inv_def)
  from next_least [OF this] r show ?thesis by auto
qed

theorem sink_delivers_in_order_witness:
  "\<exists>acks n s'. sink_run False sample_alloc [S_data 1 (sample_pkt 1), S_data 2 (sample_pkt 0), S_data 3 (sample_pkt 0)]
      sample_sink = Some (acks, n, s')
    \<and> {0..<ak_next (si_acker s')} \<subseteq> (\<Union>e \<in> set [S_data 1 (sample_pkt 1), S_data 2 (sample_pkt 0),
        S_data 3 (sample_pkt 0)]. arrived e)
    \<and> ak_next (si_acker s') \<notin> (\<Union>e \<in> set [S_data 1 (sample_pkt 1), S_data 2 (sample_pkt 0),
        S_data 3 (sample_pkt 0)]. arrived e)
    \<and> n = (\<Sum>q = 0..<ak_next (si_acker s'). 1040) \<and> si_bytes s' = n
    \<and> (\<forall>ack \<in> set acks. reported ack \<subseteq> (\<Union>e \<in> set [S_data 1 (sample_pkt 1), S_data 2 (sample_pkt 0),
        S_data 3 (sample_pkt 0)]. arrived e))"
proof (rule sink_delivers_in_order [OF sample_sink_created])
  show "sink_env False sample_alloc [S_data 1 (sample_pkt 1), S_data 2 (sample_pkt 0), S_data 3 (sample_pkt 0)] sample_sink"
    by (auto simp: sample_pkt_def sample_sink_def sample_binds_def dest!: sink_recv_lastreset split: option.split)
qed (simp_all add: sample_pkt_def sample_alloc_def)



text \<open>
  C22: A delaying receiver acknowledges at least every second packet, and while it delays one its
  timer is pending, which sends the acknowledgment when it expires.
\<close>

theorem delack_every_second:
  assumes "sink_inv m s" and "0 < pk_size p" and "0 < pk_size q" and "si_lastreset s \<le> pk_ts p"
    and "si_lastreset s \<le> pk_ts q"
  shows "\<exists>as n s1 bs k s2. sink_step True alloc (S_data t p) s = Some (as, n, s1)
    \<and> sink_step True alloc (S_data u q) s1 = Some (bs, k, s2) \<and> as @ bs \<noteq> []
    \<and> (as = [] \<longrightarrow> (\<exists>ack s'. sink_step True alloc (S_timer v) s1 = Some ([ack], 0, s') \<and> \<not> si_pending s'))"
proof -
  from sink_data_ok [OF assms(1), of p True alloc t] assms(2,4) obtain as n s1 m1 where
    f: "sink_step True alloc (S_data t p) s = Some (as, n, s1)" "sink_inv m1 s1"
      "as = [] \<longrightarrow> si_pending s1" "si_lastreset s1 = si_lastreset s" by auto
  from sink_data_ok [OF f(2), of q True alloc u] assms(3,5) f(4) obtain bs k s2 where
    g: "sink_step True alloc (S_data u q) s1 = Some (bs, k, s2)" "si_pending s1 \<longrightarrow> bs \<noteq> []" by auto
  have "\<exists>ack s'. sink_step True alloc (S_timer v) s1 = Some ([ack], 0, s') \<and> \<not> si_pending s'" if "as = []"
  proof -
    have "si_pending s1" using f(3) that by simp
    with f(2) obtain p' where p': "si_save s1 = Some p'" by (auto simp: sink_inv_def)
    from sink_timer_ok [OF f(2) _ \<open>si_pending s1\<close>, of True alloc v] obtain acks s' where
      a: "sink_step True alloc (S_timer v) s1 = Some (acks, 0, s')" "sink_inv m1 s'" "acks \<noteq> []" by blast
    from a(1) p' \<open>si_pending s1\<close> obtain ack where "acks = [ack]" "si_save s' = None"
      by (auto simp: delack_expire_def delack_timeout_def bind_eq_Some_conv)
    with a(1,2) show ?thesis by (auto simp: sink_inv_def)
  qed
  with f(1,3) g show ?thesis by fastforce
qed

theorem delack_every_second_witness:
  "\<exists>as n s1 bs k s2. sink_step True sample_alloc (S_data 1 (sample_pkt 0)) sample_sink = Some (as, n, s1)
    \<and> sink_step True sample_alloc (S_data 2 (sample_pkt 1)) s1 = Some (bs, k, s2) \<and> as @ bs \<noteq> []
    \<and> (as = [] \<longrightarrow> (\<exists>ack s'. sink_step True sample_alloc (S_timer 3) s1 = Some ([ack], 0, s') \<and> \<not> si_pending s'))"
  by (rule delack_every_second [OF create_sink_inv(1) [OF sample_sink_created]])
    (simp_all add: sample_sink_def sample_binds_def sample_pkt_def)

end
