(* ===== verification/Receiver_Interface.thy ===== *)
theory Receiver_Interface
  imports Sink
begin

text \<open>
  What a sender may rely on in a receiver, as the locale \<open>receiver\<close>: an acknowledgment reports only packets
  that arrived, and its blocks lie above the hole after the cumulative acknowledgment. The
  interpretations discharge this for the two sinks of src/ns-2.34/tcp/tcp-sink.cc, with D-SACK
  off (the default of \<open>generateDSacks_\<close>): a D-SACK block is not of this kind.
\<close>

definition honest_ack :: "int set \<Rightarrow> ack_pkt \<Rightarrow> bool" where
  "honest_ack R ack \<longleftrightarrow> - 1 \<le> ack_seqno ack \<and> reported ack \<subseteq> R
     \<and> (\<forall>b \<in> set (ack_blocks ack). ack_seqno ack + 1 < fst b \<and> fst b < snd b)"

lemma honest_mono: "honest_ack R ack \<Longrightarrow> R \<subseteq> S \<Longrightarrow> honest_ack S ack"
  by (auto simp: honest_ack_def)

text \<open>
  \<open>arr e\<close> are the packets that the event \<open>e\<close> brings, \<open>rok e s\<close> what is assumed of it, and \<open>rinv R s\<close> says that the
  packets of \<open>R\<close> have arrived.
\<close>

locale receiver =
  fixes rstep :: "'e \<Rightarrow> 's \<Rightarrow> (ack_pkt list \<times> int \<times> 's) option"
    and arr :: "'e \<Rightarrow> int set"
    and rok :: "'e \<Rightarrow> 's \<Rightarrow> bool"
    and rinv :: "int set \<Rightarrow> 's \<Rightarrow> bool"
  assumes receive_law: "rinv R s \<Longrightarrow> rok e s
      \<Longrightarrow> \<exists>acks n s'. rstep e s = Some (acks, n, s') \<and> rinv (R \<union> arr e) s'
            \<and> (\<forall>ack \<in> set acks. honest_ack (R \<union> arr e) ack)"

section \<open>The sinks\<close>

definition sink_receives :: "int set \<Rightarrow> sink \<Rightarrow> bool" where
  "sink_receives R s \<longleftrightarrow> (\<exists>m. sink_inv m s \<and> received m = R) \<and> \<not> si_generate_dsacks s"

definition sink_assumes :: "bool \<Rightarrow> ack_pkt \<Rightarrow> sink_event \<Rightarrow> sink \<Rightarrow> bool" where
  "sink_assumes delack alloc e s \<longleftrightarrow> sink_env delack alloc [e] s \<and> ack_blocks alloc = []"

lemma sink_receive_law:
  assumes "sink_receives R s" and "sink_assumes delack alloc e s"
  shows "\<exists>acks n s'. sink_step delack alloc e s = Some (acks, n, s') \<and> sink_receives (R \<union> arrived e) s'
    \<and> (\<forall>ack \<in> set acks. honest_ack (R \<union> arrived e) ack)"
proof -
  from assms obtain m where m: "sink_inv m s" "received m = R" and d: "\<not> si_generate_dsacks s"
    and e: "sink_env delack alloc [e] s" "ack_blocks alloc = []"
    by (auto simp: sink_receives_def sink_assumes_def)
  from sink_step_moved [OF m(1) e(1), of "\<lambda>i. 0"] obtain acks n s' m' q where
    s: "sink_step delack alloc e s = Some (acks, n, s')" "sink_moved (\<lambda>i. 0) (sized (\<lambda>i. 0) e) (arrived e) n m s m' s'"
      "acks_good q m' alloc s' acks" "si_generate_dsacks s' = si_generate_dsacks s" by blast
  have inv: "sink_inv m' s'" "received m' = R \<union> arrived e" using s(2) m(2) by (auto simp: sink_moved_def)
  then have rep: "acker_rep (si_acker s') m'" by (simp add: sink_inv_def)
  have "honest_ack (R \<union> arrived e) ack" if a: "ack \<in> set acks" for ack
  proof -
    note g = acks_good_blocks [OF s(3) a e(2)]
    have "0 \<le> ak_next (si_acker s')" using rep by (simp add: acker_rep_def)
    moreover have "\<forall>b \<in> set (ack_blocks ack). ack_seqno ack + 1 < fst b \<and> fst b < snd b"
      using g(2) s(4) d by auto
    ultimately show ?thesis
      using g(1) acks_good_reported [OF s(3) a e(2) rep] inv(2) by (simp add: honest_ack_def)
  qed
  with s(1,4) inv d show ?thesis by (auto simp: sink_receives_def)
qed

interpretation tcp_sink: receiver "sink_step False alloc" arrived "sink_assumes False alloc" sink_receives for alloc
  by unfold_locales (rule sink_receive_law)

interpretation delack_sink: receiver "sink_step True alloc" arrived "sink_assumes True alloc" sink_receives for alloc
  by unfold_locales (rule sink_receive_law)

lemma created_receives:
  "create_sink mb binds = Some s \<Longrightarrow> \<not> si_generate_dsacks binds \<Longrightarrow> sink_receives {} s"
  using create_sink_inv [of mb binds s] by (auto simp: sink_receives_def received_def)

end
