(* ===== verification/Connection.thy ===== *)
theory Connection
  imports Cubic Receiver_Interface
begin

text \<open>
  Sender and receiver together: the TCP-Linux sender of Linux_Sender.thy and a receiver, joined by a network
  that may lose, repeat, reorder and delay packets and acknowledgments without bound. The network is not code:
  it may deliver any packet that the sender has sent and any acknowledgment that the receiver has sent,
  as often as it likes. What Linux_Sender.thy assumes of the SACK blocks of an acknowledgment is
  discharged here by the receiver; the contract of the algorithm is that of Cong_Interface.thy.
\<close>

section \<open>The closed loop\<close>








section \<open>What a step of the sender changes\<close>










section \<open>Runs\<close>






section \<open>Property\<close>








end
