(* ===== verification/Event_Queue.thy ===== *)
theory Event_Queue
  imports Prelude "HOL-Library.Multiset"
begin

text \<open>
  The event queue of the simulator: what \<open>Scheduler\<close> of src/ns-2.34/common/scheduler.h expects of a queue,
  as the locale \<open>event_queue\<close>, and the simplest provider, the linked list of \<open>ListScheduler\<close> (scheduler.cc).
  An event is its object: address, time, unique number and handler; the links of the queue are
  the structure of the HOL value that models the queue. Times are of any linear order, as the code
  only compares them. None is an abort.

  The contract says that a queue is a list of events in order of time, and in order of insertion among
  equal times: \<open>qabs\<close> gives the list, \<open>qinv n\<close> is the invariant of the representation, where \<open>n\<close> is a number
  that no event of the queue has reached; \<open>qfits\<close> says which events the queue can take.
\<close>

section \<open>Events\<close>

record ('t, 'h) event =
  ev_addr :: nat
  ev_time :: 't
  ev_uid :: int
  ev_handler :: 'h

definition ev_less :: "('t::linorder, 'h) event \<Rightarrow> ('t, 'h) event \<Rightarrow> bool" where
  "ev_less a b \<longleftrightarrow> ev_time a < ev_time b \<or> ev_time a = ev_time b \<and> ev_uid a < ev_uid b"

definition in_order :: "int \<Rightarrow> ('t::linorder, 'h) event list \<Rightarrow> bool" where
  "in_order n es \<longleftrightarrow> sorted_wrt ev_less es \<and> distinct (map ev_addr es) \<and> distinct (map ev_uid es)
     \<and> (\<forall>e \<in> set es. 0 < ev_uid e \<and> ev_uid e < n)"

text \<open>An event that \<open>schedule\<close> may insert: its number is new, and so is its address.\<close>

definition fresh_event :: "int \<Rightarrow> ('t::linorder, 'h) event \<Rightarrow> ('t, 'h) event list \<Rightarrow> bool" where
  "fresh_event n e es \<longleftrightarrow> 0 < ev_uid e \<and> n \<le> ev_uid e \<and> ev_addr e \<notin> ev_addr ` set es"

definition cancelled :: "('t, 'h) event \<Rightarrow> ('t, 'h) event" where
  "cancelled e = e\<lparr>ev_uid := - ev_uid e\<rparr>"

section \<open>\<open>ListScheduler\<close>\<close>

fun list_insert :: "('t::linorder, 'h) event \<Rightarrow> ('t, 'h) event list \<Rightarrow> ('t, 'h) event list" where
  "list_insert e [] = [e]"
| "list_insert e (p # ps) = (if ev_time e < ev_time p then e # p # ps else p # list_insert e ps)"

fun list_unlink :: "('t, 'h) event \<Rightarrow> ('t, 'h) event list \<Rightarrow> ('t, 'h) event list option" where
  "list_unlink e [] = None"
| "list_unlink e (p # ps) = (if ev_addr p = ev_addr e then Some ps else map_option (Cons p) (list_unlink e ps))"

definition list_cancel ::
  "('t, 'h) event \<Rightarrow> ('t, 'h) event list \<Rightarrow> (('t, 'h) event \<times> ('t, 'h) event list) option" where
  "list_cancel e q =
    (if ev_uid e \<le> 0 then Some (e, q)
     else do { q \<leftarrow> list_unlink e q; Some (cancelled e, q) })"

fun list_lookup :: "int \<Rightarrow> ('t, 'h) event list \<Rightarrow> ('t, 'h) event option" where
  "list_lookup u [] = None"
| "list_lookup u (e # es) = (if ev_uid e = u then Some e else list_lookup u es)"

fun list_head :: "('t, 'h) event list \<Rightarrow> ('t, 'h) event option" where
  "list_head [] = None"
| "list_head (e # es) = Some e"

fun list_deque :: "('t, 'h) event list \<Rightarrow> ('t, 'h) event option \<times> ('t, 'h) event list" where
  "list_deque [] = (None, [])"
| "list_deque (e # es) = (Some e, es)"

section \<open>The contract\<close>

locale event_queue =
  fixes qempty :: 'q
    and qinsert :: "('t::linorder, 'h) event \<Rightarrow> 'q \<Rightarrow> 'q option"
    and qdeque :: "'q \<Rightarrow> (('t, 'h) event option \<times> 'q) option"
    and qcancel :: "('t, 'h) event \<Rightarrow> 'q \<Rightarrow> (('t, 'h) event \<times> 'q) option"
    and qlookup :: "int \<Rightarrow> 'q \<Rightarrow> ('t, 'h) event option"
    and qabs :: "'q \<Rightarrow> ('t, 'h) event list"
    and qinv :: "int \<Rightarrow> 'q \<Rightarrow> bool"
    and qfits :: "('t, 'h) event \<Rightarrow> bool"
  assumes empty_law: "qinv 1 qempty \<and> qabs qempty = []"
    and order_law: "qinv n q \<Longrightarrow> in_order n (qabs q)"
    and mono_law: "qinv n q \<Longrightarrow> n \<le> m \<Longrightarrow> qinv m q"
    and insert_law: "qinv n q \<Longrightarrow> fresh_event n e (qabs q) \<Longrightarrow> qfits e
      \<Longrightarrow> \<exists>q'. qinsert e q = Some q' \<and> qinv (ev_uid e + 1) q' \<and> qabs q' = list_insert e (qabs q)"
    and deque_law: "qinv n q
      \<Longrightarrow> \<exists>q'. qdeque q = Some (fst (list_deque (qabs q)), q') \<and> qinv n q' \<and> qabs q' = snd (list_deque (qabs q))"
    and cancel_law: "qinv n q \<Longrightarrow> e \<in> set (qabs q)
      \<Longrightarrow> \<exists>q'. qcancel e q = Some (cancelled e, q') \<and> qinv n q' \<and> qabs q' = remove1 e (qabs q)"
    and cancel_idle_law: "ev_uid e \<le> 0 \<Longrightarrow> qcancel e q = Some (e, q)"
    and lookup_law: "qinv n q \<Longrightarrow> qlookup u q = list_lookup u (qabs q)"

section \<open>Ordered lists\<close>

lemma ev_less_trans: "ev_less a b \<Longrightarrow> ev_less b c \<Longrightarrow> ev_less a c"
  by (auto simp: ev_less_def)

lemma set_list_insert [simp]: "set (list_insert e es) = insert e (set es)"
  by (induction es) auto

lemma mset_list_insert [simp]: "mset (list_insert e es) = add_mset e (mset es)"
  by (induction es) auto

lemma distinct_addr_insert:
  "distinct (map ev_addr es) \<Longrightarrow> ev_addr e \<notin> ev_addr ` set es \<Longrightarrow> distinct (map ev_addr (list_insert e es))"
  by (induction es) auto

lemma distinct_uid_insert:
  "distinct (map ev_uid es) \<Longrightarrow> ev_uid e \<notin> ev_uid ` set es \<Longrightarrow> distinct (map ev_uid (list_insert e es))"
  by (induction es) auto

lemma sorted_list_insert:
  "sorted_wrt ev_less es \<Longrightarrow> \<forall>a \<in> set es. ev_uid a < ev_uid e \<Longrightarrow> sorted_wrt ev_less (list_insert e es)"
proof (induction es)
  case (Cons p ps)
  then show ?case
    by (auto simp: ev_less_def not_less le_less intro: less_trans)
qed simp

lemma in_order_insert:
  assumes "in_order n es" and "fresh_event n e es"
  shows "in_order (ev_uid e + 1) (list_insert e es)"
  using assms sorted_list_insert [of es e] distinct_addr_insert [of es e] distinct_uid_insert [of es e]
  by (fastforce simp: in_order_def fresh_event_def)

lemma in_order_tl: "in_order n (e # es) \<Longrightarrow> in_order n es"
  by (simp add: in_order_def)

lemma in_order_mono: "in_order n es \<Longrightarrow> n \<le> m \<Longrightarrow> in_order m es"
  by (fastforce simp: in_order_def)

lemma sorted_remove1: "sorted_wrt P es \<Longrightarrow> sorted_wrt P (remove1 e es)"
proof (induction es)
  case (Cons a es)
  then show ?case using set_remove1_subset [of e es] by auto
qed simp

lemma distinct_map_remove1: "distinct (map f es) \<Longrightarrow> distinct (map f (remove1 e es))"
proof (induction es)
  case (Cons a es)
  moreover have "f a \<notin> f ` set (remove1 e es)" using Cons.prems set_remove1_subset [of e es] by auto
  ultimately show ?case by auto
qed simp

lemma in_order_remove1: "in_order n es \<Longrightarrow> in_order n (remove1 e es)"
  using set_remove1_subset [of e es] by (auto simp: in_order_def sorted_remove1 distinct_map_remove1)

lemma list_unlink_remove1:
  "distinct (map ev_addr es) \<Longrightarrow> e \<in> set es \<Longrightarrow> list_unlink e es = Some (remove1 e es)"
proof (induction es)
  case (Cons p ps)
  show ?case
  proof (cases "p = e")
    case False
    then have "e \<in> set ps" "ev_addr p \<noteq> ev_addr e" using Cons.prems by auto
    with Cons False show ?thesis by simp
  qed simp
qed simp

text \<open>Numbers are unique, so the order of a search for one does not matter.\<close>

lemma list_lookup_iff:
  "distinct (map ev_uid es) \<Longrightarrow> list_lookup u es = Some e \<longleftrightarrow> e \<in> set es \<and> ev_uid e = u"
  by (induction es) auto

lemma list_lookup_set:
  assumes "distinct (map ev_uid es)" and "distinct (map ev_uid fs)" and "set es = set fs"
  shows "list_lookup u es = list_lookup u fs"
  using list_lookup_iff [OF assms(1), of u] list_lookup_iff [OF assms(2), of u] assms(3)
  by (metis option.exhaust)

interpretation list_queue: event_queue "[] :: ('t::linorder, 'h) event list" "\<lambda>e q. Some (list_insert e q)"
  "\<lambda>q. Some (list_deque q)" list_cancel list_lookup "\<lambda>q. q" in_order "\<lambda>e. True"
proof (unfold_locales, goal_cases)
  case (4 n q e)
  then show ?case using in_order_insert by simp
next
  case (5 n q)
  then show ?case by (cases q) (auto dest: in_order_tl)
next
  case (6 n q e)
  then have "list_unlink e q = Some (remove1 e q)" "0 < ev_uid e" by (auto simp: in_order_def list_unlink_remove1)
  with 6 in_order_remove1 [of n q e] show ?case by (simp add: list_cancel_def)
qed (auto simp: in_order_def list_cancel_def)

end
