(* ===== verification/Splay_Queue.thy ===== *)
theory Splay_Queue
  imports Event_Queue "HOL-Library.Tree"
begin

text \<open>
  \<open>SplayScheduler\<close> (src/ns-2.34/common/splay-scheduler.cc): the event queue as a splay tree, ordered by time and
  then by insertion. \<open>LEFT\<close> and \<open>RIGHT\<close> of an event are the subtrees of a \<open>Node\<close>. The loop of \<open>insert\<close> walks down
  from the root and hangs what it passes on the right end of the left tree and on the left end of the right
  tree; \<open>splay_split\<close> is that loop, and its results are the two trees when their open ends are closed. \<open>cancel\<close>
  searches by time and number, without a rotation. The interpretation says that the tree, read in order, is the
  list of Event_Queue.thy.
\<close>

type_synonym ('t, 'h) splay = "('t, 'h) event tree"

record ('t, 'h) splay_queue =
  sp_root :: "('t, 'h) event tree"
  sp_qsize :: int

definition splay_empty :: "('t, 'h) splay_queue" where
  "splay_empty = \<lparr> sp_root = Leaf, sp_qsize = 0 \<rparr>"

fun splay_split :: "'t::linorder \<Rightarrow> ('t, 'h) splay \<Rightarrow> ('t, 'h) splay \<times> ('t, 'h) splay" where
  "splay_split time Leaf = (Leaf, Leaf)"
| "splay_split time (Node lt t rt) =
    (if time < ev_time t
     then (case lt of
             Leaf \<Rightarrow> (Leaf, Node Leaf t rt)
           | Node xl x xr \<Rightarrow>
               if time < ev_time x
               then let (a, b) = splay_split time xl in (a, Node b x (Node xr t rt))
               else let (a, b) = splay_split time lt in (a, Node b t rt))
     else (case rt of
             Leaf \<Rightarrow> (Node lt t Leaf, Leaf)
           | Node xl x xr \<Rightarrow>
               if ev_time x \<le> time
               then let (a, b) = splay_split time xr in (Node (Node lt t xl) x a, b)
               else let (a, b) = splay_split time rt in (Node lt t a, b)))"

definition splay_insert :: "('t::linorder, 'h) event \<Rightarrow> ('t, 'h) splay_queue \<Rightarrow> ('t, 'h) splay_queue" where
  "splay_insert n q =
    (let q = q\<lparr>sp_qsize := sp_qsize q + 1\<rparr>
     in if sp_root q = Leaf then q\<lparr>sp_root := Node Leaf n Leaf\<rparr>
        else let (a, b) = splay_split (ev_time n) (sp_root q) in q\<lparr>sp_root := Node a n b\<rparr>)"

fun splay_leftmost :: "'a tree \<Rightarrow> 'a option" where
  "splay_leftmost Leaf = None"
| "splay_leftmost (Node Leaf t r) = Some t"
| "splay_leftmost (Node (Node ll l lr) t r) = splay_leftmost (Node ll l lr)"

definition splay_head :: "('t, 'h) splay_queue \<Rightarrow> ('t, 'h) event option" where
  "splay_head q = splay_leftmost (sp_root q)"

text \<open>
  The loop of \<open>deque\<close> on the tree below \<open>LEFT(t)\<close>: the event, and what \<open>LEFT(t)\<close> becomes. Its third case rotates
  \<open>l\<close> with \<open>ll\<close> and goes on below \<open>ll\<close>.
\<close>

fun splay_take :: "'a tree \<Rightarrow> 'a \<Rightarrow> 'a tree \<Rightarrow> 'a \<times> 'a tree" where
  "splay_take Leaf l lr = (l, lr)"
| "splay_take (Node Leaf ll llr) l lr = (ll, Node llr l lr)"
| "splay_take (Node (Node llll lll lllr) ll llr) l lr =
    (let (e, u) = splay_take llll lll lllr in (e, Node u ll (Node llr l lr)))"

definition splay_deque ::
  "('t, 'h) splay_queue \<Rightarrow> ('t, 'h) event option \<times> ('t, 'h) splay_queue" where
  "splay_deque q =
    (case sp_root q of
       Leaf \<Rightarrow> (None, q)
     | Node lt t rt \<Rightarrow>
         (let q = q\<lparr>sp_qsize := sp_qsize q - 1\<rparr>
          in case lt of
               Leaf \<Rightarrow> (Some t, q\<lparr>sp_root := rt\<rparr>)
             | Node ll l lr \<Rightarrow>
                 (let (e, u) = splay_take ll l lr in (Some e, q\<lparr>sp_root := Node u t rt\<rparr>))))"

text \<open>\<open>cancel\<close>: the search, and the removal of the node found, by its successor if it has two subtrees.\<close>

fun take_leftmost :: "'a tree \<Rightarrow> 'a \<Rightarrow> 'a tree \<Rightarrow> 'a \<times> 'a tree" where
  "take_leftmost Leaf q qr = (q, qr)"
| "take_leftmost (Node ll l lr) q qr = (let (s, u) = take_leftmost ll l lr in (s, Node u q qr))"

definition splay_remove :: "'a tree \<Rightarrow> 'a tree \<Rightarrow> 'a tree" where
  "splay_remove l r =
    (case r of
       Leaf \<Rightarrow> l
     | Node pl p pr \<Rightarrow>
         if l = Leaf then r
         else (case pl of
                 Leaf \<Rightarrow> Node l p pr
               | Node ql q qr \<Rightarrow> (let (s, u) = take_leftmost ql q qr in Node l s (Node u p pr))))"

fun splay_unlink :: "('t::linorder, 'h) event \<Rightarrow> ('t, 'h) splay \<Rightarrow> ('t, 'h) splay option" where
  "splay_unlink e Leaf = None"
| "splay_unlink e (Node l t r) =
    (if ev_addr t = ev_addr e then Some (splay_remove l r)
     else if ev_time t < ev_time e \<or> ev_time e = ev_time t \<and> ev_uid t < ev_uid e
     then map_option (Node l t) (splay_unlink e r)
     else map_option (\<lambda>l. Node l t r) (splay_unlink e l))"

definition splay_cancel ::
  "('t::linorder, 'h) event \<Rightarrow> ('t, 'h) splay_queue \<Rightarrow> (('t, 'h) event \<times> ('t, 'h) splay_queue) option" where
  "splay_cancel e q =
    (if ev_uid e \<le> 0 then Some (e, q)
     else do {
       u \<leftarrow> splay_unlink e (sp_root q);
       Some (cancelled e, q\<lparr>sp_root := u, sp_qsize := sp_qsize q - 1\<rparr>)
     })"

fun uid_lookup :: "int \<Rightarrow> ('t, 'h) splay \<Rightarrow> ('t, 'h) event option" where
  "uid_lookup u Leaf = None"
| "uid_lookup u (Node l t r) =
    (if ev_uid t = u then Some t
     else case uid_lookup u l of Some e \<Rightarrow> Some e | None \<Rightarrow> uid_lookup u r)"

definition splay_lookup :: "int \<Rightarrow> ('t, 'h) splay_queue \<Rightarrow> ('t, 'h) event option" where
  "splay_lookup u q = uid_lookup u (sp_root q)"

section \<open>The tree in order\<close>

lemma ev_less_time: "ev_less a b \<Longrightarrow> ev_time a \<le> ev_time b"
  by (auto simp: ev_less_def)

lemma splay_split_ok:
  assumes "sorted_wrt ev_less (inorder t)" and "splay_split time t = (a, b)"
  shows "inorder a @ inorder b = inorder t \<and> (\<forall>e \<in> set (inorder a). ev_time e \<le> time)
    \<and> (\<forall>e \<in> set (inorder b). time < ev_time e)"
  using assms
proof (induction time t arbitrary: a b rule: splay_split.induct)
  case (2 time lt t rt)
  have s: "sorted_wrt ev_less (inorder lt)" "sorted_wrt ev_less (inorder rt)"
    "\<forall>e \<in> set (inorder lt). ev_time e \<le> ev_time t" "\<forall>e \<in> set (inorder rt). ev_time t \<le> ev_time e"
    using 2(5) by (auto simp: sorted_wrt_append ev_less_time)
  show ?case
  proof (cases "time < ev_time t")
    case True
    then have rt: "\<forall>e \<in> set (inorder rt). time < ev_time e" using s(4) by (metis less_le_trans)
    show ?thesis
    proof (cases lt)
      case Leaf
      then show ?thesis using True 2(6) rt by auto
    next
      case (Node xl x xr)
      show ?thesis
      proof (cases "time < ev_time x")
        case less: True
        obtain a' b' where r: "splay_split time xl = (a', b')" by fastforce
        have "sorted_wrt ev_less (inorder xl)" "\<forall>e \<in> set (inorder xr). ev_time x \<le> ev_time e"
          using s(1) Node by (auto simp: sorted_wrt_append ev_less_time)
        moreover from this(2) less have "\<forall>e \<in> set (inorder xr). time < ev_time e" by (metis less_le_trans)
        ultimately show ?thesis using 2(1) [OF True Node less _ r] r True less Node 2(6) rt by auto
      next
        case False
        obtain a' b' where r: "splay_split time lt = (a', b')" by fastforce
        from 2(2) [OF True Node False s(1) r] r True False Node 2(6) rt show ?thesis by auto
      qed
    qed
  next
    case ge: False
    then have ge': "ev_time t \<le> time" by simp
    with s(3) have lt: "\<forall>e \<in> set (inorder lt). ev_time e \<le> time" by (metis order_trans)
    show ?thesis
    proof (cases rt)
      case Leaf
      then show ?thesis using ge 2(6) lt ge' by auto
    next
      case (Node xl x xr)
      show ?thesis
      proof (cases "ev_time x \<le> time")
        case le: True
        obtain a' b' where r: "splay_split time xr = (a', b')" by fastforce
        have "sorted_wrt ev_less (inorder xr)" "\<forall>e \<in> set (inorder xl). ev_time e \<le> ev_time x"
          using s(2) Node by (auto simp: sorted_wrt_append ev_less_time)
        moreover from this(2) le have "\<forall>e \<in> set (inorder xl). ev_time e \<le> time" by (metis order_trans)
        ultimately show ?thesis using 2(3) [OF ge Node le _ r] r ge le Node 2(6) lt ge' by auto
      next
        case False
        obtain a' b' where r: "splay_split time rt = (a', b')" by fastforce
        from 2(4) [OF ge Node False s(2) r] r ge False Node 2(6) lt ge' show ?thesis by auto
      qed
    qed
  qed
qed simp

lemma list_insert_between:
  "\<forall>e \<in> set xs. ev_time e \<le> ev_time n \<Longrightarrow> \<forall>e \<in> set ys. ev_time n < ev_time e
    \<Longrightarrow> list_insert n (xs @ ys) = xs @ n # ys"
proof (induction xs)
  case Nil
  then show ?case by (cases ys) auto
qed auto

lemma splay_insert_inorder:
  assumes "sorted_wrt ev_less (inorder (sp_root q))"
  shows "inorder (sp_root (splay_insert n q)) = list_insert n (inorder (sp_root q))"
proof (cases "sp_root q = Leaf")
  case True
  then show ?thesis by (simp add: splay_insert_def Let_def)
next
  case False
  obtain a b where s: "splay_split (ev_time n) (sp_root q) = (a, b)" by fastforce
  from splay_split_ok [OF assms s] list_insert_between [of "inorder a" n "inorder b"] False s
  show ?thesis by (simp add: splay_insert_def Let_def)
qed

lemma splay_take_inorder:
  "splay_take ll l lr = (e, u) \<Longrightarrow> e # inorder u = inorder (Node ll l lr)"
  by (induction ll l lr arbitrary: e u rule: splay_take.induct) (auto split: prod.splits)

lemma splay_leftmost_head: "splay_leftmost t = list_head (inorder t)"
proof (induction t rule: splay_leftmost.induct)
  case (3 ll l lr t r)
  then show ?case by (cases "inorder ll") auto
qed simp_all

lemma splay_deque_inorder:
  "fst (splay_deque q) = fst (list_deque (inorder (sp_root q)))
    \<and> inorder (sp_root (snd (splay_deque q))) = snd (list_deque (inorder (sp_root q)))"
proof (cases "sp_root q")
  case (Node lt t rt)
  show ?thesis
  proof (cases lt)
    case inner: (Node ll l lr)
    obtain e u where s: "splay_take ll l lr = (e, u)" by fastforce
    have "inorder (sp_root q) = e # inorder u @ t # inorder rt"
      using splay_take_inorder [OF s] Node inner by simp
    with s Node inner show ?thesis by (simp add: splay_deque_def Let_def)
  qed (simp add: Node splay_deque_def)
qed (simp add: splay_deque_def)

lemma take_leftmost_inorder: "take_leftmost l x r = (s, u) \<Longrightarrow> s # inorder u = inorder (Node l x r)"
  by (induction l x r arbitrary: s u rule: take_leftmost.induct) (auto split: prod.splits)

lemma splay_remove_inorder: "inorder (splay_remove l r) = inorder l @ inorder r"
proof (cases r)
  case (Node pl p pr)
  show ?thesis
  proof (cases pl)
    case inner: (Node ql q qr)
    obtain s u where t: "take_leftmost ql q qr = (s, u)" by fastforce
    with take_leftmost_inorder [OF t] show ?thesis
      by (simp add: splay_remove_def Node inner)
  qed (auto simp: splay_remove_def Node)
qed (simp add: splay_remove_def)

text \<open>The search goes to the side where the event is.\<close>

lemma splay_unlink_inorder:
  assumes "sorted_wrt ev_less (inorder t)" and "distinct (map ev_addr (inorder t))" and "e \<in> set (inorder t)"
  shows "\<exists>u. splay_unlink e t = Some u \<and> inorder u = remove1 e (inorder t)"
  using assms
proof (induction t)
  case (Node l t r)
  have s: "sorted_wrt ev_less (inorder l)" "sorted_wrt ev_less (inorder r)"
    "\<forall>a \<in> set (inorder l). ev_less a t" "\<forall>a \<in> set (inorder r). ev_less t a"
    "distinct (map ev_addr (inorder l))" "distinct (map ev_addr (inorder r))"
    using Node.prems(1,2) by (auto simp: sorted_wrt_append)
  have irr: "\<not> (ev_less a b \<and> ev_less b a)" for a b :: "('a, 'b) event" by (auto simp: ev_less_def)
  consider "e = t" | "e \<in> set (inorder l)" "e \<noteq> t" | "e \<in> set (inorder r)" "e \<noteq> t" "e \<notin> set (inorder l)"
    using Node.prems(3) by auto
  then show ?case
  proof cases
    case 1
    have "e \<notin> set (inorder l)" using Node.prems(2) 1 by auto
    then show ?thesis using 1 by (simp add: splay_remove_inorder remove1_append)
  next
    case 2
    then have "ev_addr t \<noteq> ev_addr e" using Node.prems(2) by auto
    moreover have "\<not> (ev_time t < ev_time e \<or> ev_time e = ev_time t \<and> ev_uid t < ev_uid e)"
      using s(3) 2(1) by (auto simp: ev_less_def)
    ultimately show ?thesis using Node.IH(1) [OF s(1,5) 2(1)] 2 by (auto simp: remove1_append)
  next
    case 3
    then have "ev_addr t \<noteq> ev_addr e" using Node.prems(2) by auto
    moreover have "ev_time t < ev_time e \<or> ev_time e = ev_time t \<and> ev_uid t < ev_uid e"
      using s(4) 3(1) by (auto simp: ev_less_def)
    ultimately show ?thesis using Node.IH(2) [OF s(2,6) 3(1)] 3 by (auto simp: remove1_append)
  qed
qed simp

lemma uid_lookup_inorder:
  assumes "distinct (map ev_uid (inorder t))"
  shows "uid_lookup u t = list_lookup u (inorder t)"
proof -
  have "\<forall>e. uid_lookup u t = Some e \<longleftrightarrow> e \<in> set (inorder t) \<and> ev_uid e = u" if "distinct (map ev_uid (inorder t))"
    using that
  proof (induction t)
    case (Node l t r)
    then have l: "uid_lookup u l = Some e \<longleftrightarrow> e \<in> set (inorder l) \<and> ev_uid e = u"
      and r: "uid_lookup u r = Some e \<longleftrightarrow> e \<in> set (inorder r) \<and> ev_uid e = u" for e by auto
    have d: "\<not> (a \<in> set (inorder l) \<and> b \<in> set (inorder r) \<and> ev_uid a = ev_uid b)"
      "a \<in> set (inorder l) \<union> set (inorder r) \<longrightarrow> ev_uid a \<noteq> ev_uid t" for a b using Node.prems by (auto simp: image_iff)
    show ?case
    proof (cases "ev_uid t = u")
      case True
      with d(2) show ?thesis by auto
    next
      case False
      with l r d(1) show ?thesis by (cases "uid_lookup u l") auto
    qed
  qed simp
  with assms list_lookup_iff [OF assms, of u] show ?thesis by (metis option.exhaust)
qed

definition splay_inv :: "int \<Rightarrow> ('t::linorder, 'h) splay_queue \<Rightarrow> bool" where
  "splay_inv n q \<longleftrightarrow> in_order n (inorder (sp_root q)) \<and> sp_qsize q = int (length (inorder (sp_root q)))"

interpretation splay_queue: event_queue splay_empty "\<lambda>e q. Some (splay_insert e q)" "\<lambda>q. Some (splay_deque q)"
  splay_cancel splay_lookup "\<lambda>q. inorder (sp_root q)" splay_inv "\<lambda>e. True"
proof (unfold_locales, goal_cases)
  case 1
  then show ?case by (simp add: splay_empty_def splay_inv_def in_order_def)
next
  case (3 n q m)
  then show ?case using in_order_mono by (auto simp: splay_inv_def)
next
  case (4 n q e)
  then have "sorted_wrt ev_less (inorder (sp_root q))" by (simp add: splay_inv_def in_order_def)
  note i = splay_insert_inorder [OF this, of e]
  have "size (mset (list_insert e (inorder (sp_root q)))) = Suc (length (inorder (sp_root q)))" by simp
  then have "length (list_insert e (inorder (sp_root q))) = Suc (length (inorder (sp_root q)))"
    by (simp only: size_mset)
  moreover have "sp_qsize (splay_insert e q) = sp_qsize q + 1"
    by (simp add: splay_insert_def Let_def split: prod.split)
  moreover have "size (sp_root (splay_insert e q)) = length (list_insert e (inorder (sp_root q)))"
    using i length_inorder by metis
  ultimately show ?case using 4 in_order_insert [of n "inorder (sp_root q)" e] i by (simp add: splay_inv_def)
next
  case (5 n q)
  have "sp_qsize (snd (splay_deque q)) = sp_qsize q - (if sp_root q = Leaf then 0 else 1)"
    by (auto simp: splay_deque_def Let_def split: tree.split prod.split)
  moreover have "in_order n (snd (list_deque (inorder (sp_root q))))"
    using 5 in_order_tl by (cases "inorder (sp_root q)") (auto simp: splay_inv_def)
  moreover have "int (length (snd (list_deque (inorder (sp_root q)))))
      = int (length (inorder (sp_root q))) - (if sp_root q = Leaf then 0 else 1)"
    by (cases "sp_root q"; cases "inorder (sp_root q)") auto
  ultimately show ?case using 5 splay_deque_inorder [of q]
    by (cases "splay_deque q") (auto simp: splay_inv_def simp del: length_inorder)
next
  case (6 n q e)
  then have o: "in_order n (inorder (sp_root q))" and u: "0 < ev_uid e" by (auto simp: splay_inv_def in_order_def)
  from splay_unlink_inorder [of "sp_root q" e] o 6(2) obtain t where
    t: "splay_unlink e (sp_root q) = Some t" "inorder t = remove1 e (inorder (sp_root q))" by (auto simp: in_order_def)
  have "0 < size (sp_root q)" using 6(2) by (cases "sp_root q") auto
  then have "int (length (remove1 e (inorder (sp_root q)))) = sp_qsize q - 1"
    using 6 by (auto simp: length_remove1 splay_inv_def of_nat_diff Suc_le_eq)
  with t u o in_order_remove1 [OF o, of e] length_inorder [of t] show ?case by (simp add: splay_cancel_def splay_inv_def)
next
  case (8 n q u)
  then show ?case using uid_lookup_inorder by (auto simp: splay_lookup_def splay_inv_def in_order_def)
qed (auto simp: splay_inv_def splay_cancel_def)

end
