(* ===== verification/Heap_Queue.thy ===== *)
theory Heap_Queue
  imports Event_Queue "HOL-Library.Product_Lexorder"
begin

text \<open>
  \<open>HeapScheduler\<close> and the class \<open>Heap\<close> (src/ns-2.34/common/heap.h, scheduler.cc): the event queue as a binary heap in
  an array. Among equal times a second key decides, the number of the insertion: an unsigned long of
  32 bits that counts with an unsigned int, so the order is that of insertion up to \<open>2 ^ 32\<close> insertions
  (\<open>heap_wrap\<close> below shows what happens then). An access outside the array is None.
\<close>

section \<open>The array\<close>

record ('t, 'e) heap_elem =
  he_key :: 't
  he_s_key :: u32
  he_elem :: "'e option"

record ('t, 'e) heap =
  h_elems :: "('t, 'e) heap_elem list"
  h_s_key :: u32
  h_size :: nat
  h_maxsize :: nat
  h_iter :: nat

definition heap_parent :: "nat \<Rightarrow> nat" where "heap_parent i = (i - 1) div 2"
definition heap_left :: "nat \<Rightarrow> nat" where "heap_left i = i * 2 + 1"
definition heap_right :: "nat \<Rightarrow> nat" where "heap_right i = (i + 1) * 2"

definition aget :: "nat \<Rightarrow> 'a list \<Rightarrow> 'a option" where
  "aget i xs = (if i < length xs then Some (xs ! i) else None)"

definition aput :: "nat \<Rightarrow> 'a \<Rightarrow> 'a list \<Rightarrow> 'a list option" where
  "aput i v xs = (if i < length xs then Some (xs[i := v]) else None)"

lemma aget_in [simp]: "i < length xs \<Longrightarrow> aget i xs = Some (xs ! i)"
  and aput_in [simp]: "i < length xs \<Longrightarrow> aput i v xs = Some (xs[i := v])"
  by (simp_all add: aget_def aput_def)

definition heap_swap :: "nat \<Rightarrow> nat \<Rightarrow> 'a list \<Rightarrow> 'a list option" where
  "heap_swap i j xs = do {
     a \<leftarrow> aget i xs;
     b \<leftarrow> aget j xs;
     xs \<leftarrow> aput i b xs;
     aput j a xs
   }"

definition KEY_LESS_THAN :: "'t::linorder \<Rightarrow> u32 \<Rightarrow> 't \<Rightarrow> u32 \<Rightarrow> bool" where
  "KEY_LESS_THAN k1 ks1 k2 ks2 \<longleftrightarrow> k1 < k2 \<or> (k1 = k2 \<and> ks1 < ks2)"

definition heap_new :: "nat \<Rightarrow> ('t::{linorder, zero}, 'e) heap" where
  "heap_new sz = \<lparr> h_elems = replicate sz \<lparr> he_key = 0, he_s_key = 0, he_elem = None \<rparr>,
     h_s_key = 0, h_size = 0, h_maxsize = sz, h_iter = 0 \<rparr>"

definition HEAP_DEFAULT_SIZE :: nat where "HEAP_DEFAULT_SIZE = 32"

section \<open>Operations\<close>

definition heap_min :: "('t, 'e) heap \<Rightarrow> 'e option option" where
  "heap_min h = (if 0 < h_size h then map_option he_elem (aget 0 (h_elems h)) else Some None)"

definition heap_iter_init :: "('t, 'e) heap \<Rightarrow> ('e option \<times> ('t, 'e) heap) option" where
  "heap_iter_init h = do { e \<leftarrow> heap_min h; Some (e, h\<lparr>h_iter := 1\<rparr>) }"

definition heap_next :: "('t, 'e) heap \<Rightarrow> ('e option \<times> ('t, 'e) heap) option" where
  "heap_next h =
    (if h_size h \<le> h_iter h then Some (None, h\<lparr>h_iter := 0\<rparr>)
     else do { e \<leftarrow> aget (h_iter h) (h_elems h); Some (he_elem e, h\<lparr>h_iter := h_iter h + 1\<rparr>) })"

text \<open>\<open>heap_member\<close>: the index plus one, 0 if the element is not there. Elements are compared by address.\<close>

function heap_member ::
  "('t, 'h) event \<Rightarrow> nat \<Rightarrow> nat \<Rightarrow> ('t, ('t, 'h) event) heap_elem list \<Rightarrow> nat option" where
  "heap_member ev i n xs =
    (if i < n
     then do {
       he \<leftarrow> aget i xs;
       if map_option ev_addr (he_elem he) = Some (ev_addr ev) then Some (i + 1) else heap_member ev (i + 1) n xs
     }
     else Some 0)"
  by pat_completeness auto
termination by (relation "measure (\<lambda>(ev, i, n, xs). n - i)") auto

text \<open>The loop of \<open>heap_insert\<close>: parents move down while the key is less.\<close>

function heap_up ::
  "'t::linorder \<Rightarrow> u32 \<Rightarrow> nat \<Rightarrow> ('t, 'e) heap_elem list \<Rightarrow> (nat \<times> ('t, 'e) heap_elem list) option" where
  "heap_up key skey i xs =
    (if 0 < i
     then do {
       p \<leftarrow> aget (heap_parent i) xs;
       if KEY_LESS_THAN key skey (he_key p) (he_s_key p)
       then do { xs \<leftarrow> aput i p xs; heap_up key skey (heap_parent i) xs }
       else Some (i, xs)
     }
     else Some (i, xs))"
  by pat_completeness auto
termination by (relation "measure (\<lambda>(key, skey, i, xs). i)") (auto simp: heap_parent_def)

definition heap_grow :: "('t::{linorder, zero}, 'e) heap \<Rightarrow> ('t, 'e) heap" where
  "heap_grow h =
    (if h_maxsize h = h_size h
     then h\<lparr>h_maxsize := h_maxsize h * 2,
            h_elems := h_elems h @ replicate (h_maxsize h) \<lparr> he_key = 0, he_s_key = 0, he_elem = None \<rparr>\<rparr>
     else h)"

definition heap_insert :: "'t::{linorder, zero} \<Rightarrow> 'e \<Rightarrow> ('t, 'e) heap \<Rightarrow> ('t, 'e) heap option" where
  "heap_insert key elem h = do {
     let h = heap_grow h;
     let i = h_size h;
     let h = h\<lparr>h_size := h_size h + 1\<rparr>;
     (i, xs) \<leftarrow> heap_up key (h_s_key h) i (h_elems h);
     xs \<leftarrow> aput i \<lparr> he_key = key, he_s_key = h_s_key h, he_elem = Some elem \<rparr> xs;
     Some (h\<lparr>h_elems := xs, h_s_key := h_s_key h + 1\<rparr>)
   }"

text \<open>Heapify: the choice of the child, and the loop.\<close>

definition heap_try :: "nat \<Rightarrow> nat \<Rightarrow> ('t::linorder, 'e) heap_elem list \<Rightarrow> nat option" where
  "heap_try i n xs =
    (if heap_right i < n
     then do {
       a \<leftarrow> aget (heap_left i) xs;
       b \<leftarrow> aget (heap_right i) xs;
       Some (if KEY_LESS_THAN (he_key a) (he_s_key a) (he_key b) (he_s_key b) then heap_left i else heap_right i)
     }
     else Some (if heap_left i < n then heap_left i else i))"

partial_function (option) heap_down ::
  "nat \<Rightarrow> nat \<Rightarrow> ('t::linorder, 'e) heap_elem list \<Rightarrow> ('t, 'e) heap_elem list option" where
  "heap_down i n xs =
    (if i < n
     then do {
       x \<leftarrow> heap_try i n xs;
       a \<leftarrow> aget x xs;
       b \<leftarrow> aget i xs;
       if x \<noteq> i \<and> KEY_LESS_THAN (he_key a) (he_s_key a) (he_key b) (he_s_key b)
       then do { xs \<leftarrow> heap_swap i x xs; heap_down x n xs }
       else Some xs
     }
     else Some xs)"

declare heap_down.simps [code] heap_up.simps [simp del] heap_member.simps [simp del]

definition heap_extract_min :: "('t::linorder, 'e) heap \<Rightarrow> ('e option \<times> ('t, 'e) heap) option" where
  "heap_extract_min h =
    (if h_size h = 0 then Some (None, h)
     else do {
       a \<leftarrow> aget 0 (h_elems h);
       let h = h\<lparr>h_size := h_size h - 1\<rparr>;
       b \<leftarrow> aget (h_size h) (h_elems h);
       xs \<leftarrow> aput 0 b (h_elems h);
       xs \<leftarrow> heap_down 0 (h_size h) xs;
       Some (he_elem a, h\<lparr>h_elems := xs\<rparr>)
     })"

function heap_to_root :: "nat \<Rightarrow> 'a list \<Rightarrow> 'a list option" where
  "heap_to_root i xs =
    (if i \<noteq> 0 then Option.bind (heap_swap i (heap_parent i) xs) (heap_to_root (heap_parent i)) else Some xs)"
  by pat_completeness auto
termination by (relation "measure (\<lambda>(i, xs). i)") (auto simp: heap_parent_def)

declare heap_to_root.simps [simp del]

definition heap_delete ::
  "('t::linorder, 'h) event \<Rightarrow> ('t, ('t, 'h) event) heap \<Rightarrow> (int \<times> ('t, ('t, 'h) event) heap) option" where
  "heap_delete ev h = do {
     i \<leftarrow> heap_member ev 0 (h_size h) (h_elems h);
     if i = 0 then Some (0, h)
     else do {
       xs \<leftarrow> heap_to_root (i - 1) (h_elems h);
       (e, h) \<leftarrow> heap_extract_min (h\<lparr>h_elems := xs\<rparr>);
       Some (1, h)
     }
   }"

text \<open>\<open>HeapScheduler\<close>.\<close>

definition hs_cancel ::
  "('t::linorder, 'h) event \<Rightarrow> ('t, ('t, 'h) event) heap \<Rightarrow> (('t, 'h) event \<times> ('t, ('t, 'h) event) heap) option" where
  "hs_cancel e h =
    (if ev_uid e \<le> 0 then Some (e, h)
     else do { (r, h) \<leftarrow> heap_delete e h; Some (cancelled e, h) })"

definition hs_insert ::
  "('t::{linorder, zero}, 'h) event \<Rightarrow> ('t, ('t, 'h) event) heap \<Rightarrow> ('t, ('t, 'h) event) heap option" where
  "hs_insert e h = heap_insert (ev_time e) e h"

partial_function (option) hs_search ::
  "int \<Rightarrow> ('t, 'h) event option \<Rightarrow> ('t, ('t, 'h) event) heap
    \<Rightarrow> (('t, 'h) event option \<times> ('t, ('t, 'h) event) heap) option" where
  "hs_search u e h =
    (case e of
       None \<Rightarrow> Some (None, h)
     | Some ev \<Rightarrow>
         if ev_uid ev = u then Some (Some ev, h)
         else do { (e, h) \<leftarrow> heap_next h; hs_search u e h })"

definition hs_lookup ::
  "int \<Rightarrow> ('t, ('t, 'h) event) heap \<Rightarrow> (('t, 'h) event option \<times> ('t, ('t, 'h) event) heap) option" where
  "hs_lookup u h = do { (e, h) \<leftarrow> heap_iter_init h; hs_search u e h }"

section \<open>Heaps\<close>

definition hk :: "('t, 'e) heap_elem \<Rightarrow> 't \<times> nat" where
  "hk a = (he_key a, unat (he_s_key a))"

lemma KEY_LESS_hk: "KEY_LESS_THAN (he_key a) (he_s_key a) (he_key b) (he_s_key b) \<longleftrightarrow> hk a < hk b"
  by (auto simp: KEY_LESS_THAN_def hk_def word_less_nat_alt)

definition heap_ok :: "nat \<Rightarrow> ('t::linorder, 'e) heap_elem list \<Rightarrow> bool" where
  "heap_ok n xs \<longleftrightarrow> n \<le> length xs \<and> (\<forall>j < n. 0 < j \<longrightarrow> hk (xs ! heap_parent j) \<le> hk (xs ! j))"

lemma heap_parent_less: "0 < i \<Longrightarrow> heap_parent i < i"
  by (simp add: heap_parent_def)

lemma heap_children: "0 < j \<Longrightarrow> heap_parent j = i \<longleftrightarrow> j = heap_left i \<or> j = heap_right i"
  by (auto simp: heap_parent_def heap_left_def heap_right_def)

lemma mset_take_swap:
  assumes "i < n" and "j < n" and "n \<le> length xs"
  shows "mset (take n (xs[i := xs ! j, j := xs ! i])) = mset (take n xs)"
  using mset_swap [of j "take n xs" i] assms by (simp add: take_update_swap)

text \<open>Sifting up: the invariant of a heap with a hole at \<open>i\<close>, which is to hold \<open>X\<close>.\<close>

definition hole_up :: "nat \<Rightarrow> nat \<Rightarrow> ('t::linorder, 'e) heap_elem list \<Rightarrow> bool" where
  "hole_up n i xs \<longleftrightarrow> i < n \<and> n \<le> length xs
     \<and> (\<forall>j < n. 0 < j \<longrightarrow> j \<noteq> i \<longrightarrow> heap_parent j \<noteq> i \<longrightarrow> hk (xs ! heap_parent j) \<le> hk (xs ! j))
     \<and> (\<forall>j < n. 0 < j \<longrightarrow> heap_parent j = i \<longrightarrow> 0 < i \<longrightarrow> hk (xs ! heap_parent i) \<le> hk (xs ! j))"

lemma hole_up_step:
  assumes "hole_up n i xs" and "0 < i"
  shows "hole_up n (heap_parent i) (xs[i := xs ! heap_parent i])"
proof -
  let ?p = "heap_parent i" and ?ys = "xs[i := xs ! heap_parent i]"
  have p: "?p < i" "i < n" "n \<le> length xs" using assms by (auto simp: hole_up_def heap_parent_less)
  have a: "hk (xs ! heap_parent j) \<le> hk (xs ! j)" if "j < n" "0 < j" "j \<noteq> i" "heap_parent j \<noteq> i" for j
    using assms(1) that by (simp add: hole_up_def)
  have b: "hk (xs ! ?p) \<le> hk (xs ! j)" if "j < n" "0 < j" "heap_parent j = i" for j
    using assms that by (simp add: hole_up_def)
  have y: "?ys ! j = (if j = i then xs ! ?p else xs ! j)" for j using p by (simp add: nth_list_update)
  have up: "hk (xs ! heap_parent ?p) \<le> hk (xs ! ?p)" if "0 < ?p"
    using a [of ?p] p heap_parent_less [OF that] that by simp
  show ?thesis
    unfolding hole_up_def
  proof (intro conjI allI impI)
    show "?p < n" "n \<le> length ?ys" using p by simp_all
    fix j assume j: "j < n" "0 < j"
    show "hk (?ys ! heap_parent j) \<le> hk (?ys ! j)" if "j \<noteq> ?p" "heap_parent j \<noteq> ?p"
      using a [OF j] b [OF j] that by (auto simp: y)
    show "hk (?ys ! heap_parent ?p) \<le> hk (?ys ! j)" if "heap_parent j = ?p" "0 < ?p"
    proof -
      have "heap_parent ?p \<noteq> i" using p heap_parent_less [OF that(2)] by simp
      moreover have "hk (xs ! ?p) \<le> hk (xs ! j)" if "j \<noteq> i" using a [OF j that] \<open>heap_parent j = ?p\<close> p by simp
      ultimately show ?thesis using up [OF that(2)] by (auto simp: y intro: order_trans)
    qed
  qed
qed

lemma heap_up_ok:
  assumes "hole_up n i xs" and "\<forall>j < n. 0 < j \<longrightarrow> heap_parent j = i \<longrightarrow> hk X \<le> hk (xs ! j)"
  shows "\<exists>k ys. heap_up (he_key X) (he_s_key X) i xs = Some (k, ys) \<and> k < n \<and> length ys = length xs
    \<and> heap_ok n (ys[k := X]) \<and> mset (take n (ys[k := X])) = mset (take n (xs[i := X]))"
  using assms
proof (induction i arbitrary: xs rule: less_induct)
  case (less i)
  have i: "i < n" "n \<le> length xs" using less.prems(1) by (auto simp: hole_up_def)
  show ?case
  proof (cases "0 < i \<and> hk X < hk (xs ! heap_parent i)")
    case True
    let ?p = "heap_parent i" and ?ys = "xs[i := xs ! heap_parent i]"
    have p: "?p < i" using True by (simp add: heap_parent_less)
    have "\<forall>j < n. 0 < j \<longrightarrow> heap_parent j = ?p \<longrightarrow> hk X \<le> hk (?ys ! j)"
    proof (intro allI impI)
      fix j assume j: "j < n" "0 < j" "heap_parent j = ?p"
      show "hk X \<le> hk (?ys ! j)"
      proof (cases "j = i")
        case False
        then have "hk (xs ! ?p) \<le> hk (xs ! j)" using less.prems(1) j p by (auto simp: hole_up_def)
        moreover have "hk X \<le> hk (xs ! ?p)" using True by (simp add: order_less_imp_le)
        ultimately show ?thesis using False by (auto intro: order_trans)
      qed (use True i in \<open>simp add: order_less_imp_le\<close>)
    qed
    from less.IH [OF p hole_up_step [OF less.prems(1)] this] True obtain k ys where
      u: "heap_up (he_key X) (he_s_key X) ?p ?ys = Some (k, ys)" "k < n" "length ys = length xs"
        "heap_ok n (ys[k := X])" "mset (take n (ys[k := X])) = mset (take n (?ys[?p := X]))" by auto
    have "mset (take n (?ys[?p := X])) = mset (take n (xs[i := X]))"
      using mset_take_swap [of i n ?p "xs[i := X]"] i p by simp
    moreover have "heap_up (he_key X) (he_s_key X) i xs = Some (k, ys)"
      using True i p u(1) KEY_LESS_hk [of X "xs ! ?p"] by (subst heap_up.simps) simp
    ultimately show ?thesis using u(2-5) by auto
  next
    case False
    have "heap_ok n (xs[i := X])"
      unfolding heap_ok_def
    proof (intro conjI allI impI)
      show "n \<le> length (xs[i := X])" using i by simp
      fix j assume j: "j < n" "0 < j"
      show "hk (xs[i := X] ! heap_parent j) \<le> hk (xs[i := X] ! j)"
      proof (cases "j = i")
        case True
        then show ?thesis using False j i heap_parent_less [of j] by (simp add: not_less)
      next
        case ji: False
        have "heap_parent j < length xs" using j i heap_parent_less [of j] by simp
        then show ?thesis using ji less.prems j i by (cases "heap_parent j = i") (auto simp: hole_up_def)
      qed
    qed
    moreover have "heap_up (he_key X) (he_s_key X) i xs = Some (i, xs)"
      using False i KEY_LESS_hk [of X "xs ! heap_parent i"] heap_parent_less [of i]
      by (subst heap_up.simps) auto
    ultimately show ?thesis using i by auto
  qed
qed

text \<open>Sifting down: every node but the children of \<open>i\<close> is below its parent.\<close>

definition hole_down :: "nat \<Rightarrow> nat \<Rightarrow> ('t::linorder, 'e) heap_elem list \<Rightarrow> bool" where
  "hole_down n i xs \<longleftrightarrow> n \<le> length xs
     \<and> (\<forall>j < n. 0 < j \<longrightarrow> heap_parent j \<noteq> i \<longrightarrow> hk (xs ! heap_parent j) \<le> hk (xs ! j))
     \<and> (\<forall>j < n. 0 < j \<longrightarrow> heap_parent j = i \<longrightarrow> 0 < i \<longrightarrow> hk (xs ! heap_parent i) \<le> hk (xs ! j))"

lemma heap_try_ok:
  assumes "i < n" and "n \<le> length xs"
  obtains x where "heap_try i n xs = Some x" and "x < n"
    and "x = i \<and> (\<forall>j < n. 0 < j \<longrightarrow> heap_parent j \<noteq> i) \<or> i < x \<and> heap_parent x = i
      \<and> (\<forall>j < n. 0 < j \<longrightarrow> heap_parent j = i \<longrightarrow> hk (xs ! x) \<le> hk (xs ! j))"
proof -
  have c: "heap_left i < heap_right i" "i < heap_left i" "heap_parent (heap_left i) = i" "heap_parent (heap_right i) = i"
    by (auto simp: heap_left_def heap_right_def heap_parent_def)
  consider "heap_right i < n" | "n \<le> heap_right i" "heap_left i < n" | "n \<le> heap_left i" using c(1) by linarith
  then show thesis
  proof cases
    case 1
    then have l: "heap_left i < length xs" "heap_right i < length xs" using c(1) assms by auto
    then have t: "heap_try i n xs = Some (if hk (xs ! heap_left i) < hk (xs ! heap_right i) then heap_left i else heap_right i)"
      using 1 by (simp add: heap_try_def KEY_LESS_hk)
    show thesis by (rule that [OF t]) (use 1 c in \<open>auto simp: heap_children not_less order_less_imp_le\<close>)
  next
    case 2
    then have t: "heap_try i n xs = Some (heap_left i)" by (simp add: heap_try_def)
    show thesis by (rule that [OF t]) (use 2 c in \<open>auto simp: heap_children\<close>)
  next
    case 3
    then have t: "heap_try i n xs = Some i" using c(1) by (simp add: heap_try_def)
    show thesis by (rule that [OF t]) (use 3 c assms in \<open>auto simp: heap_children\<close>)
  qed
qed

lemma hole_down_step:
  assumes "hole_down n i xs" and x: "heap_parent x = i" "0 < x" "x < n" and less: "hk (xs ! x) < hk (xs ! i)"
    and least: "\<forall>j < n. 0 < j \<longrightarrow> heap_parent j = i \<longrightarrow> hk (xs ! x) \<le> hk (xs ! j)"
  shows "hole_down n x (xs[i := xs ! x, x := xs ! i])" (is "hole_down n x ?ys")
proof -
  have n: "n \<le> length xs" "i < x" using assms(1) x heap_parent_less [of x] by (auto simp: hole_down_def)
  have y: "?ys ! j = (if j = x then xs ! i else if j = i then xs ! x else xs ! j)" for j
    using n x by (simp add: nth_list_update)
  have a: "hk (xs ! heap_parent j) \<le> hk (xs ! j)" if "j < n" "0 < j" "heap_parent j \<noteq> i" for j
    using assms(1) that by (simp add: hole_down_def)
  have b: "hk (xs ! heap_parent i) \<le> hk (xs ! x)" if "0 < i"
    using assms(1) that x by (simp add: hole_down_def)
  show ?thesis
    unfolding hole_down_def
  proof (intro conjI allI impI)
    show "n \<le> length ?ys" using n by simp
    fix j assume j: "j < n" "0 < j"
    show "hk (?ys ! heap_parent j) \<le> hk (?ys ! j)" if q: "heap_parent j \<noteq> x"
    proof (cases "heap_parent j = i")
      case True
      then show ?thesis using least j less n by (auto simp: y)
    next
      case False
      then have "j \<noteq> x" using x by auto
      then show ?thesis using a [OF j False] b False q j heap_parent_less [OF j(2)] by (auto simp: y)
    qed
    show "hk (?ys ! heap_parent x) \<le> hk (?ys ! j)" if q: "heap_parent j = x"
    proof -
      have "j \<noteq> x" "j \<noteq> i" using q n heap_parent_less [OF j(2)] by auto
      moreover have "hk (xs ! x) \<le> hk (xs ! j)" using a [OF j] q n by simp
      ultimately show ?thesis using x(1) n by (simp add: y)
    qed
  qed
qed

lemma heap_down_ok:
  assumes "hole_down n i xs"
  shows "\<exists>ys. heap_down i n xs = Some ys \<and> length ys = length xs \<and> heap_ok n ys \<and> mset (take n ys) = mset (take n xs)"
  using assms
proof (induction "n - i" arbitrary: i xs rule: less_induct)
  case less
  have n: "n \<le> length xs" using less.prems by (simp add: hole_down_def)
  show ?case
  proof (cases "i < n")
    case False
    have "heap_parent j \<noteq> i" if "j < n" "0 < j" for j using that False heap_parent_less [of j] by simp
    with less.prems have "heap_ok n xs" by (auto simp: hole_down_def heap_ok_def)
    then show ?thesis using False by (subst heap_down.simps) simp
  next
    case True
    from heap_try_ok [OF True n] obtain x where x: "heap_try i n xs = Some x" "x < n"
      "x = i \<and> (\<forall>j < n. 0 < j \<longrightarrow> heap_parent j \<noteq> i) \<or> i < x \<and> heap_parent x = i
      \<and> (\<forall>j < n. 0 < j \<longrightarrow> heap_parent j = i \<longrightarrow> hk (xs ! x) \<le> hk (xs ! j))" .
    show ?thesis
    proof (cases "x \<noteq> i \<and> hk (xs ! x) < hk (xs ! i)")
      case down: True
      let ?ys = "xs[i := xs ! x, x := xs ! i]"
      have "hole_down n x ?ys" using x down hole_down_step [OF less.prems, of x] by auto
      moreover have "n - x < n - i" using x down True by linarith
      ultimately obtain ys where
        "heap_down x n ?ys = Some ys" "length ys = length ?ys" "heap_ok n ys" "mset (take n ys) = mset (take n ?ys)"
        using less.hyps by blast
      moreover have "heap_down i n xs = heap_down x n ?ys"
        using True x(1,2) down n by (subst heap_down.simps) (simp add: KEY_LESS_hk heap_swap_def)
      ultimately show ?thesis using mset_take_swap [OF True x(2) n] by auto
    next
      case stop: False
      have "heap_ok n xs"
        unfolding heap_ok_def
      proof (intro conjI allI impI n)
        fix j assume "j < n" "0 < j"
        then show "hk (xs ! heap_parent j) \<le> hk (xs ! j)"
          using less.prems x(3) stop order_trans [of "hk (xs ! i)" "hk (xs ! x)" "hk (xs ! j)"]
          by (cases "heap_parent j = i") (auto simp: hole_down_def not_less)
      qed
      moreover have "heap_down i n xs = Some xs"
        using True x(1,2) stop n by (subst heap_down.simps) (auto simp: KEY_LESS_hk)
      ultimately show ?thesis by auto
    qed
  qed
qed

lemma heap_ok_min:
  assumes "heap_ok n xs" and "j < n"
  shows "hk (xs ! 0) \<le> hk (xs ! j)"
  using assms(2)
proof (induction j rule: less_induct)
  case (less j)
  show ?case
  proof (cases "j = 0")
    case False
    then have "hk (xs ! 0) \<le> hk (xs ! heap_parent j)" "hk (xs ! heap_parent j) \<le> hk (xs ! j)"
      using less assms(1) heap_parent_less [of j] by (auto simp: heap_ok_def)
    then show ?thesis by (rule order_trans)
  qed simp
qed

text \<open>Removing the root needs the order only below its children.\<close>

lemma heap_extract_min_ok:
  assumes "hole_down (Suc m) 0 (h_elems h)" and "h_size h = Suc m"
  shows "\<exists>ys. heap_extract_min h = Some (he_elem (h_elems h ! 0), h\<lparr>h_size := m, h_elems := ys\<rparr>)
    \<and> length ys = length (h_elems h) \<and> heap_ok m ys
    \<and> add_mset (h_elems h ! 0) (mset (take m ys)) = mset (take (Suc m) (h_elems h))"
proof -
  let ?xs = "h_elems h"
  let ?ys = "?xs[0 := ?xs ! m]"
  have n: "m < length ?xs" using assms(1) by (simp add: hole_down_def)
  have "hole_down m 0 ?ys" using assms(1) by (auto simp: hole_down_def nth_list_update)
  from heap_down_ok [OF this] obtain ys where
    ys: "heap_down 0 m ?ys = Some ys" "length ys = length ?xs" "heap_ok m ys" "mset (take m ys) = mset (take m ?ys)" by auto
  have "add_mset (?xs ! 0) (mset (take m ?ys)) = mset (take (Suc m) ?xs)"
  proof (cases m)
    case 0
    then show ?thesis using n by (cases ?xs) auto
  next
    case (Suc k)
    then obtain x rest where "?xs = x # rest" using n by (cases ?xs) auto
    then show ?thesis using n Suc by (simp add: take_Suc_conv_app_nth)
  qed
  moreover have "aget 0 ?xs = Some (?xs ! 0)" "aput 0 (?xs ! m) ?xs = Some ?ys" using n by (auto intro!: aget_in aput_in)
  then have "heap_extract_min h = Some (he_elem (?xs ! 0), h\<lparr>h_size := m, h_elems := ys\<rparr>)"
    using assms(2) n ys(1) by (simp add: heap_extract_min_def)
  ultimately show ?thesis using ys by auto
qed

text \<open>The way to the root of the element to be deleted.\<close>

lemma hole_up_update: "hole_up n i (xs[i := v]) = hole_up n i xs"
  by (auto simp: hole_up_def nth_list_update heap_parent_def)

lemma heap_to_root_ok:
  assumes "hole_up n i xs"
  shows "\<exists>ys. heap_to_root i xs = Some ys \<and> length ys = length xs \<and> hole_down n 0 ys \<and> ys ! 0 = xs ! i
    \<and> mset (take n ys) = mset (take n xs)"
  using assms
proof (induction i arbitrary: xs rule: less_induct)
  case (less i)
  have n: "i < n" "n \<le> length xs" using less.prems by (auto simp: hole_up_def)
  show ?case
  proof (cases "i = 0")
    case True
    with less.prems show ?thesis by (auto simp: hole_up_def hole_down_def heap_to_root.simps)
  next
    case False
    let ?p = "heap_parent i"
    let ?ys = "xs[i := xs ! ?p, ?p := xs ! i]"
    have p: "?p < i" using False by (simp add: heap_parent_less)
    have "hole_up n ?p ?ys" using hole_up_step [OF less.prems] False by (simp add: hole_up_update)
    from less.IH [OF p this] obtain ys where
      ys: "heap_to_root ?p ?ys = Some ys" "length ys = length xs" "hole_down n 0 ys" "ys ! 0 = xs ! i"
        "mset (take n ys) = mset (take n ?ys)" using n p by auto
    moreover have "heap_to_root i xs = heap_to_root ?p ?ys"
      using False p n by (subst heap_to_root.simps) (simp add: heap_swap_def)
    ultimately show ?thesis using mset_take_swap [of i n ?p xs] p n by auto
  qed
qed

section \<open>The heap as a queue\<close>

abbreviation the_event :: "('t, 'e) heap_elem \<Rightarrow> 'e" where
  "the_event a \<equiv> the (he_elem a)"

definition live :: "('t, 'e) heap \<Rightarrow> ('t, 'e) heap_elem list" where
  "live h = take (h_size h) (h_elems h)"

definition heap_abs :: "('t::linorder, ('t, 'h) event) heap \<Rightarrow> ('t, 'h) event list" where
  "heap_abs h = map the_event (sort_key hk (live h))"

definition holds_events :: "u32 \<Rightarrow> ('t, ('t, 'h) event) heap_elem list \<Rightarrow> bool" where
  "holds_events s xs \<longleftrightarrow> distinct (map he_s_key xs)
     \<and> (\<forall>a \<in> set xs. he_s_key a < s \<and> (\<exists>e. he_elem a = Some e \<and> he_key a = ev_time e))"

definition heap_inv :: "int \<Rightarrow> ('t::linorder, ('t, 'h) event) heap \<Rightarrow> bool" where
  "heap_inv n h \<longleftrightarrow> heap_ok (h_size h) (h_elems h) \<and> length (h_elems h) = h_maxsize h \<and> 0 < h_maxsize h
     \<and> holds_events (h_s_key h) (live h) \<and> int (unat (h_s_key h)) < n \<and> in_order n (heap_abs h)"

lemma holds_events_mset:
  assumes "holds_events s xs" and "mset ys = mset xs"
  shows "holds_events s ys"
proof -
  have "mset (map he_s_key ys) = mset (map he_s_key xs)" using assms(2) by simp
  then have "distinct (map he_s_key ys) = distinct (map he_s_key xs)" by (rule mset_eq_imp_distinct_iff)
  moreover have "set ys = set xs" using assms(2) by (rule mset_eq_setD)
  ultimately show ?thesis using assms(1) unfolding holds_events_def by simp
qed

lemma holds_inj: "holds_events s xs \<Longrightarrow> inj_on hk (set xs)"
  by (auto simp: holds_events_def hk_def inj_on_def distinct_map dest: word_unat_eq_iff [THEN iffD2])

text \<open>With distinct second keys, the sorted list is the only one.\<close>

lemma sort_unique:
  assumes "holds_events s xs" and "mset ys = mset xs" and "sorted (map hk ys)"
  shows "sort_key hk xs = ys"
  using assms by (intro sort_key_inj_key_eq) (auto simp: holds_inj)

lemma insort_list_insert:
  assumes "he_elem X = Some e" and "he_key X = ev_time e" and "\<forall>a \<in> set L. he_s_key a < he_s_key X"
    and "\<forall>a \<in> set L. he_key a = ev_time (the_event a)"
  shows "map the_event (insort_key hk X L) = list_insert e (map the_event L)"
  using assms
proof (induction L)
  case (Cons a L)
  have "he_s_key a < he_s_key X" "he_key a = ev_time (the_event a)" using Cons.prems by auto
  then have "hk X \<le> hk a \<longleftrightarrow> ev_time e < ev_time (the_event a)"
    using Cons.prems(2) by (auto simp: hk_def word_less_nat_alt)
  with Cons show ?case by simp
qed simp

lemma map_remove1_inj:
  "\<forall>a \<in> set L. f a = f X \<longrightarrow> a = X \<Longrightarrow> map f (remove1 X L) = remove1 (f X) (map f L)"
  by (induction L) auto

lemma heap_grow_ok:
  assumes "heap_inv n h"
  shows "h_size (heap_grow h) < length (h_elems (heap_grow h)) \<and> live (heap_grow h) = live h
    \<and> heap_ok (h_size h) (h_elems (heap_grow h)) \<and> length (h_elems (heap_grow h)) = h_maxsize (heap_grow h)
    \<and> h_size (heap_grow h) = h_size h \<and> h_s_key (heap_grow h) = h_s_key h"
proof -
  have h: "h_size h \<le> length (h_elems h)" "length (h_elems h) = h_maxsize h" "0 < h_maxsize h"
    "heap_ok (h_size h) (h_elems h)" using assms by (auto simp: heap_inv_def heap_ok_def)
  have p: "heap_parent j < length (h_elems h)" if "j < h_size h" for j using that h by (simp add: heap_parent_def)
  show ?thesis
  proof (cases "h_maxsize h = h_size h")
    case True
    then show ?thesis using h p by (auto simp: heap_grow_def live_def heap_ok_def nth_append)
  next
    case False
    with h show ?thesis by (simp add: heap_grow_def live_def)
  qed
qed

lemma heap_insert_ok:
  assumes i: "heap_inv n h" and fresh: "fresh_event n e (heap_abs h)" and fits: "ev_uid e < 2 ^ 32"
  shows "\<exists>h'. hs_insert e h = Some h' \<and> heap_inv (ev_uid e + 1) h' \<and> heap_abs h' = list_insert e (heap_abs h)"
proof -
  define g where "g = heap_grow h"
  note g = heap_grow_ok [OF i, folded g_def]
  let ?n = "h_size h" and ?xs = "h_elems g" and ?s = "h_s_key h"
  define X where "X = \<lparr> he_key = ev_time e, he_s_key = ?s, he_elem = Some e \<rparr>"
  have nl: "?n < length ?xs" using g by simp
  have np: "heap_parent j \<noteq> ?n" if "j < Suc ?n" "0 < j" for j using that heap_parent_less [of j] by simp
  then have up: "hole_up (Suc ?n) ?n ?xs" using g by (simp add: hole_up_def heap_ok_def)
  from np have "\<forall>j < Suc ?n. 0 < j \<longrightarrow> heap_parent j = ?n \<longrightarrow> hk X \<le> hk (?xs ! j)" by blast
  from heap_up_ok [OF up this] obtain k ys where
    u: "heap_up (ev_time e) ?s ?n ?xs = Some (k, ys)" "k < Suc ?n" "length ys = length ?xs"
      "heap_ok (Suc ?n) (ys[k := X])" "mset (take (Suc ?n) (ys[k := X])) = mset (take (Suc ?n) (?xs[?n := X]))"
    by (auto simp: X_def)
  let ?h = "g\<lparr>h_size := Suc ?n, h_elems := ys[k := X], h_s_key := ?s + 1\<rparr>"
  have ins: "hs_insert e h = Some ?h"
    using u(1-3) g nl by (simp add: hs_insert_def heap_insert_def Let_def flip: g_def X_def)
  have s: "int (unat ?s) < n" and n: "n \<le> ev_uid e" "ev_uid e < 2 ^ 32" and he: "holds_events ?s (live h)"
    using i fresh fits by (auto simp: heap_inv_def fresh_event_def)
  have "int (unat ?s) + 1 < 2 ^ 32" using s n by linarith
  then have "int (unat ?s + 1) < int (2 ^ 32)" by simp
  then have "unat ?s + unat (1 :: u32) < 2 ^ LENGTH(32)" by (simp only: of_nat_less_iff unsigned_1) simp
  then have s1: "unat (?s + 1) = unat ?s + 1" by (simp only: unat_add_lem [THEN iffD1] unsigned_1)
  have "take ?n ?xs = live h" using g unfolding live_def by metis
  then have m: "mset (live ?h) = add_mset X (mset (live h))"
    using u(5) nl by (simp add: live_def [of ?h] take_Suc_conv_app_nth)
  have hX: "holds_events (?s + 1) (X # live h)"
    using he s1 by (auto simp: holds_events_def X_def word_less_nat_alt)
  have so: "sort_key hk (live ?h) = insort_key hk X (sort_key hk (live h))"
    using m hX by (intro sort_unique [where s = "?s + 1"]) (auto intro: holds_events_mset simp: sorted_insort_key)
  have ab: "heap_abs ?h = list_insert e (heap_abs h)"
    unfolding heap_abs_def so using he by (intro insort_list_insert) (auto simp: X_def holds_events_def)
  have "holds_events (?s + 1) (live ?h)" using hX m by (auto intro: holds_events_mset)
  moreover have "in_order (ev_uid e + 1) (heap_abs ?h)"
    unfolding ab using i fresh by (intro in_order_insert) (auto simp: heap_inv_def)
  ultimately have "heap_inv (ev_uid e + 1) ?h"
    using u(3,4) g s s1 n nl by (simp add: heap_inv_def)
  with ins ab show ?thesis by blast
qed

lemma heap_ok_hole: "heap_ok n xs \<Longrightarrow> hole_down n 0 xs"
  by (simp add: hole_down_def heap_ok_def)

lemma heap_ok_up: "heap_ok n xs \<Longrightarrow> i < n \<Longrightarrow> hole_up n i xs"
proof -
  assume a: "heap_ok n xs" "i < n"
  have "hk (xs ! heap_parent i) \<le> hk (xs ! j)" if "j < n" "0 < j" "heap_parent j = i" "0 < i" for j
  proof (rule order_trans)
    show "hk (xs ! heap_parent i) \<le> hk (xs ! i)" using a that by (simp add: heap_ok_def)
    show "hk (xs ! i) \<le> hk (xs ! j)" using a that by (auto simp: heap_ok_def)
  qed
  with a show "hole_up n i xs" by (simp add: hole_up_def heap_ok_def)
qed

text \<open>After an element has left, the rest is in order.\<close>

lemma heap_remaining:
  assumes i: "heap_inv n h" and sz: "h_size h = Suc m" and ok: "heap_ok m ys" and len: "length ys = length (h_elems h)"
    and ms: "add_mset X (mset (take m ys)) = mset (live h)"
  shows "heap_abs (h\<lparr>h_size := m, h_elems := ys\<rparr>) = remove1 (the_event X) (heap_abs h)
    \<and> heap_inv n (h\<lparr>h_size := m, h_elems := ys\<rparr>)"
proof -
  let ?h = "h\<lparr>h_size := m, h_elems := ys\<rparr>" and ?L = "sort_key hk (live h)"
  have he: "holds_events (h_s_key h) (live h)" and io: "in_order n (heap_abs h)" using i by (auto simp: heap_inv_def)
  have lv: "live ?h = take m ys" by (simp add: live_def)
  have X: "X \<in> set ?L" using arg_cong [OF ms, of set_mset] by auto
  have hx: "holds_events (h_s_key h) (X # take m ys)" using he ms by (auto intro: holds_events_mset)
  then have hr: "holds_events (h_s_key h) (take m ys)" by (simp add: holds_events_def)
  have "mset (remove1 X ?L) = mset (take m ys)" using ms by (simp flip: ms)
  moreover have "sorted (map hk (remove1 X ?L))" by (simp add: sorted_map_remove1)
  ultimately have "sort_key hk (take m ys) = remove1 X ?L" using hr by (intro sort_unique)
  moreover have "\<forall>a \<in> set ?L. the_event a = the_event X \<longrightarrow> a = X"
  proof (intro ballI impI)
    fix a assume "a \<in> set ?L" "the_event a = the_event X"
    moreover have "inj_on the_event (set ?L)"
      using io by (auto simp: in_order_def heap_abs_def distinct_map dest: inj_on_imageI2)
    ultimately show "a = X" using X by (auto dest: inj_onD)
  qed
  ultimately have ab: "heap_abs ?h = remove1 (the_event X) (heap_abs h)"
    by (simp add: heap_abs_def lv map_remove1_inj)
  have "in_order n (heap_abs ?h)" unfolding ab using io by (rule in_order_remove1)
  then have "heap_inv n ?h" using i ok len hr sz by (simp add: heap_inv_def lv)
  with ab show ?thesis by simp
qed

lemma heap_deque_ok:
  assumes i: "heap_inv n h"
  shows "\<exists>h'. heap_extract_min h = Some (fst (list_deque (heap_abs h)), h') \<and> heap_inv n h'
    \<and> heap_abs h' = snd (list_deque (heap_abs h))"
proof (cases "h_size h")
  case 0
  then have "heap_abs h = []" by (simp add: heap_abs_def live_def)
  with i 0 show ?thesis by (simp add: heap_extract_min_def)
next
  case (Suc m)
  let ?X = "h_elems h ! 0"
  have ok: "heap_ok (Suc m) (h_elems h)" and he: "holds_events (h_s_key h) (live h)"
    using i Suc by (auto simp: heap_inv_def)
  from heap_extract_min_ok [OF heap_ok_hole [OF ok] Suc] obtain ys where
    e: "heap_extract_min h = Some (he_elem ?X, h\<lparr>h_size := m, h_elems := ys\<rparr>)" "length ys = length (h_elems h)"
      "heap_ok m ys" "add_mset ?X (mset (take m ys)) = mset (live h)" by (auto simp: live_def Suc)
  from heap_remaining [OF i Suc e(3,2,4)] have
    r: "heap_abs (h\<lparr>h_size := m, h_elems := ys\<rparr>) = remove1 (the_event ?X) (heap_abs h)"
      "heap_inv n (h\<lparr>h_size := m, h_elems := ys\<rparr>)" by auto
  have X: "?X \<in> set (live h)" using arg_cong [OF e(4), of set_mset] by auto
  have "hk ?X \<le> hk a" if "a \<in> set (live h)" for a
    using that heap_ok_min [OF ok] ok by (auto simp: live_def Suc in_set_conv_nth heap_ok_def)
  then have "sorted (map hk (?X # sort_key hk (take m ys)))"
    using arg_cong [OF e(4), of set_mset] by auto
  with e(4) he have "sort_key hk (live h) = ?X # sort_key hk (take m ys)"
    by (intro sort_unique) simp_all
  then have "heap_abs h = the_event ?X # heap_abs (h\<lparr>h_size := m, h_elems := ys\<rparr>)"
    by (simp add: heap_abs_def live_def)
  moreover have "he_elem ?X = Some (the_event ?X)" using he X by (auto simp: holds_events_def)
  ultimately show ?thesis using e(1) r(2) by simp
qed

lemma heap_member_ok:
  assumes "i \<le> n" and "n \<le> length xs" and "\<exists>k < n. i \<le> k \<and> map_option ev_addr (he_elem (xs ! k)) = Some (ev_addr e)"
  shows "\<exists>k < n. heap_member e i n xs = Some (Suc k) \<and> map_option ev_addr (he_elem (xs ! k)) = Some (ev_addr e)"
  using assms
proof (induction "n - i" arbitrary: i rule: less_induct)
  case less
  from less.prems have i: "i < n" by auto
  show ?case
  proof (cases "map_option ev_addr (he_elem (xs ! i)) = Some (ev_addr e)")
    case True
    then show ?thesis using i less.prems by (subst heap_member.simps) auto
  next
    case False
    from less.prems(3) obtain k where k: "k < n" "i \<le> k" "map_option ev_addr (he_elem (xs ! k)) = Some (ev_addr e)"
      by blast
    then have "i + 1 \<le> k" using False by (cases "k = i") auto
    with k have "\<exists>k < n. i + 1 \<le> k \<and> map_option ev_addr (he_elem (xs ! k)) = Some (ev_addr e)" by blast
    moreover have "n - (i + 1) < n - i" "i + 1 \<le> n" using i by simp_all
    ultimately have
      "\<exists>k < n. heap_member e (i + 1) n xs = Some (Suc k) \<and> map_option ev_addr (he_elem (xs ! k)) = Some (ev_addr e)"
      using less.hyps less.prems(2) by blast
    then show ?thesis using i False less.prems by (subst heap_member.simps) auto
  qed
qed

lemma heap_cancel_ok:
  assumes i: "heap_inv n h" and e: "e \<in> set (heap_abs h)"
  shows "\<exists>h'. hs_cancel e h = Some (cancelled e, h') \<and> heap_inv n h' \<and> heap_abs h' = remove1 e (heap_abs h)"
proof -
  let ?n = "h_size h" and ?xs = "h_elems h"
  have ok: "heap_ok ?n ?xs" and he: "holds_events (h_s_key h) (live h)" and io: "in_order n (heap_abs h)"
    using i by (auto simp: heap_inv_def)
  have len: "?n \<le> length ?xs" using ok by (simp add: heap_ok_def)
  have st: "set (heap_abs h) = the_event ` set (live h)" by (simp add: heap_abs_def)
  from e st obtain X where "X \<in> set (live h)" "the_event X = e" by auto
  with he have "\<exists>k < ?n. 0 \<le> k \<and> map_option ev_addr (he_elem (?xs ! k)) = Some (ev_addr e)"
    using len by (fastforce simp: live_def in_set_conv_nth holds_events_def)
  from heap_member_ok [OF _ len this] obtain k where
    k: "k < ?n" "heap_member e 0 ?n ?xs = Some (Suc k)" "map_option ev_addr (he_elem (?xs ! k)) = Some (ev_addr e)" by auto
  have kl: "?xs ! k \<in> set (live h)" using k(1) len by (auto simp: live_def in_set_conv_nth)
  then have "the_event (?xs ! k) \<in> set (heap_abs h)" "ev_addr (the_event (?xs ! k)) = ev_addr e"
    using k(3) st by auto
  with e io have ke: "the_event (?xs ! k) = e" by (auto simp: in_order_def distinct_map dest: inj_onD)
  from heap_to_root_ok [OF heap_ok_up [OF ok k(1)]] obtain zs where
    z: "heap_to_root k ?xs = Some zs" "length zs = length ?xs" "hole_down ?n 0 zs" "zs ! 0 = ?xs ! k"
      "mset (take ?n zs) = mset (take ?n ?xs)" by auto
  obtain m where m: "?n = Suc m" using k(1) by (cases ?n) auto
  let ?g = "h\<lparr>h_elems := zs\<rparr>"
  from heap_extract_min_ok [of m ?g] z(3) m obtain ys where
    y: "heap_extract_min ?g = Some (he_elem (?xs ! k), ?g\<lparr>h_size := m, h_elems := ys\<rparr>)" "length ys = length ?xs"
      "heap_ok m ys" "add_mset (?xs ! k) (mset (take m ys)) = mset (live h)" using z(2,4,5) by (auto simp: live_def)
  have "0 < ev_uid e" using io e by (auto simp: in_order_def)
  then have "hs_cancel e h = Some (cancelled e, h\<lparr>h_size := m, h_elems := ys\<rparr>)"
    using k(2) z(1) y(1) by (simp add: hs_cancel_def heap_delete_def)
  with heap_remaining [OF i m y(3,2,4)] ke show ?thesis by simp
qed

text \<open>The iterator passes over the elements in the order of the array.\<close>

lemma hs_search_ok:
  assumes "h_size h \<le> length (h_elems h)" and "k < h_size h"
    and "\<forall>a \<in> set (live h). he_elem a \<noteq> None"
  shows "\<exists>i. hs_search u (he_elem (h_elems h ! k)) (h\<lparr>h_iter := Suc k\<rparr>)
    = Some (list_lookup u (map the_event (drop k (live h))), h\<lparr>h_iter := i\<rparr>)"
  using assms(2)
proof (induction "h_size h - k" arbitrary: k rule: less_induct)
  case less
  let ?xs = "h_elems h"
  have kl: "k < length ?xs" using less.prems assms(1) by simp
  then have "?xs ! k \<in> set (live h)" using less.prems by (auto simp: live_def in_set_conv_nth)
  then obtain ev where ev: "he_elem (?xs ! k) = Some ev" using assms(3) by auto
  have d: "drop k (live h) = ?xs ! k # drop (Suc k) (live h)"
    using less.prems kl by (simp add: live_def flip: Cons_nth_drop_Suc)
  show ?case
  proof (cases "ev_uid ev = u")
    case True
    then show ?thesis using ev d by (subst hs_search.simps) auto
  next
    case ne: False
    show ?thesis
    proof (cases "Suc k < h_size h")
      case True
      with less.hyps [of "Suc k"] assms(1) ne ev d show ?thesis
        by (subst hs_search.simps) (simp add: heap_next_def)
    next
      case False
      then have "drop (Suc k) (live h) = []" by (simp add: live_def)
      moreover have "hs_search u None (h\<lparr>h_iter := 0\<rparr>) = Some (None, h\<lparr>h_iter := 0\<rparr>)"
        by (subst hs_search.simps) simp
      ultimately show ?thesis using False ne ev d by (subst hs_search.simps) (auto simp: heap_next_def)
    qed
  qed
qed

lemma hs_lookup_ok:
  assumes i: "heap_inv n h"
  shows "\<exists>h'. hs_lookup u h = Some (list_lookup u (heap_abs h), h')"
proof (cases "h_size h = 0")
  case True
  then show ?thesis
    by (simp add: hs_lookup_def heap_iter_init_def heap_min_def hs_search.simps heap_abs_def live_def)
next
  case False
  have io: "in_order n (heap_abs h)" and he: "holds_events (h_s_key h) (live h)"
    and len: "h_size h \<le> length (h_elems h)" using i by (auto simp: heap_inv_def heap_ok_def)
  have "list_lookup u (map the_event (live h)) = list_lookup u (heap_abs h)"
  proof (rule list_lookup_set)
    show "distinct (map ev_uid (heap_abs h))" using io by (simp add: in_order_def)
    moreover have "mset (map ev_uid (map the_event (live h))) = mset (map ev_uid (heap_abs h))"
      by (simp add: heap_abs_def)
    ultimately show "distinct (map ev_uid (map the_event (live h)))" using mset_eq_imp_distinct_iff by blast
  qed (simp add: heap_abs_def)
  moreover have "heap_iter_init h = Some (he_elem (h_elems h ! 0), h\<lparr>h_iter := Suc 0\<rparr>)"
    using False len by (cases "h_elems h") (simp_all add: heap_iter_init_def heap_min_def aget_def)
  moreover have "\<forall>a \<in> set (live h). he_elem a \<noteq> None" using he by (auto simp: holds_events_def)
  ultimately show ?thesis using hs_search_ok [of h 0 u] False len by (auto simp: hs_lookup_def)
qed

interpretation heap_queue: event_queue "heap_new HEAP_DEFAULT_SIZE :: ('t::{linorder, zero}, ('t, 'h) event) heap"
  hs_insert heap_extract_min hs_cancel "\<lambda>u h. Option.bind (hs_lookup u h) fst" heap_abs heap_inv
  "\<lambda>e. ev_uid e < 2 ^ 32"
proof (unfold_locales, goal_cases)
  case 1
  then show ?case
    by (simp add: heap_inv_def heap_new_def heap_abs_def live_def heap_ok_def holds_events_def in_order_def
        HEAP_DEFAULT_SIZE_def)
next
  case (2 n q)
  then show ?case by (simp add: heap_inv_def)
next
  case (3 n q m)
  then show ?case using in_order_mono by (auto simp: heap_inv_def)
next
  case (4 n q e)
  then show ?case by (rule heap_insert_ok)
next
  case (5 n q)
  then show ?case by (rule heap_deque_ok)
next
  case (6 n q e)
  then show ?case by (rule heap_cancel_ok)
next
  case (7 e q)
  then show ?case by (simp add: hs_cancel_def)
next
  case (8 n q u)
  from hs_lookup_ok [OF this, of u] show ?case by auto
qed

text \<open>
  The second key has 32 bits and the numbers of the events 64: after \<open>2 ^ 32\<close> insertions the key starts again
  at 0, and of two events of one time the later one comes out first.
\<close>

definition wrapped :: "(nat, (nat, unit) event) heap" where
  "wrapped = (heap_new HEAP_DEFAULT_SIZE)\<lparr>h_s_key := - 1\<rparr>"

lemma heap_wrap:
  "map_option (map_option ev_uid \<circ> fst)
     (do { h \<leftarrow> hs_insert \<lparr>ev_addr = 1, ev_time = 5, ev_uid = 4294967296, ev_handler = ()\<rparr> wrapped;
           h \<leftarrow> hs_insert \<lparr>ev_addr = 2, ev_time = 5, ev_uid = 4294967297, ev_handler = ()\<rparr> h;
           heap_extract_min h }) = Some (Some 4294967297)"
  by code_simp

end
