(* ===== verification/Double.thy ===== *)
theory Double
  imports Complex_Main
begin

text \<open>
  The type \<open>double\<close> of C where the code relies on its rounding: the real numbers with 53 bits, and every
  operation rounded to the nearest of them, ties to the even one (IEEE 754). The range of the exponent is not
  modelled, because the code that uses this theory stays far inside it; nor is extended precision. The lemmas say when nothing is rounded, that
  rounding is monotone, and how far it goes.
\<close>

section \<open>Rounding\<close>

text \<open>The nearest integer, ties to the even one.\<close>

definition nearest :: "real \<Rightarrow> int" where
  "nearest y =
    (let n = \<lfloor>y\<rfloor>; d = y - of_int n in if d < 1 / 2 \<or> d = 1 / 2 \<and> even n then n else n + 1)"

definition binade :: "real \<Rightarrow> int" where
  "binade x = \<lfloor>log 2 \<bar>x\<bar>\<rfloor>"

definition dbl :: "real \<Rightarrow> real" where
  "dbl x =
    (if x = 0 then 0
     else of_int (nearest (x * 2 powi (52 - binade x))) * 2 powi (binade x - 52))"

text \<open>The operations, and the conversion to an integer type, which cuts towards zero.\<close>

definition dadd :: "real \<Rightarrow> real \<Rightarrow> real" where "dadd x y = dbl (x + y)"
definition dsub :: "real \<Rightarrow> real \<Rightarrow> real" where "dsub x y = dbl (x - y)"
definition dmul :: "real \<Rightarrow> real \<Rightarrow> real" where "dmul x y = dbl (x * y)"
definition ddiv :: "real \<Rightarrow> real \<Rightarrow> real" where "ddiv x y = dbl (x / y)"

definition ctrunc :: "real \<Rightarrow> int" where
  "ctrunc x = (if 0 \<le> x then \<lfloor>x\<rfloor> else \<lceil>x\<rceil>)"

lemmas dbl_ops = dadd_def dsub_def dmul_def ddiv_def

section \<open>The nearest integer\<close>

lemma nearest_int [simp]: "nearest (of_int n) = n"
  by (simp add: nearest_def)

lemma nearest_error: "\<bar>of_int (nearest y) - y\<bar> \<le> 1 / 2"
proof -
  have "0 \<le> y - of_int \<lfloor>y\<rfloor>" "y - of_int \<lfloor>y\<rfloor> < 1" by linarith+
  then show ?thesis by (auto simp: nearest_def Let_def abs_le_iff)
qed

lemma nearest_mono: "x \<le> y \<Longrightarrow> nearest x \<le> nearest y"
proof (cases "\<lfloor>x\<rfloor> = \<lfloor>y\<rfloor>")
  case False
  assume "x \<le> y"
  with False have "\<lfloor>x\<rfloor> + 1 \<le> \<lfloor>y\<rfloor>" using floor_mono [of x y] by linarith
  moreover have "nearest x \<le> \<lfloor>x\<rfloor> + 1" "\<lfloor>y\<rfloor> \<le> nearest y" by (simp_all add: nearest_def Let_def)
  ultimately show ?thesis by linarith
qed (auto simp: nearest_def Let_def)

lemma nearest_le: "y \<le> of_int n \<Longrightarrow> nearest y \<le> n"
  using nearest_mono [of y "of_int n"] by simp

lemma nearest_ge: "of_int n \<le> y \<Longrightarrow> n \<le> nearest y"
  using nearest_mono [of "of_int n" y] by simp

lemma nearest_minus: "nearest (- y) = - nearest y"
proof (cases "y = of_int \<lfloor>y\<rfloor>")
  case True
  then show ?thesis by (metis nearest_int of_int_minus)
next
  case False
  then have f: "\<lfloor>- y\<rfloor> = - \<lfloor>y\<rfloor> - 1" by linarith
  show ?thesis
    unfolding nearest_def Let_def f by (auto simp: field_simps)
qed

section \<open>The binade\<close>

lemma binade_bounds:
  assumes "x \<noteq> 0"
  shows "2 powi (binade x) \<le> \<bar>x\<bar>" and "\<bar>x\<bar> < 2 powi (binade x + 1)"
proof -
  have p: "(2::real) powi k = 2 powr (of_int k)" for k :: int by (simp add: powr_real_of_int')
  have "of_int (binade x) \<le> log 2 \<bar>x\<bar>" "log 2 \<bar>x\<bar> < of_int (binade x + 1)"
    unfolding binade_def by linarith+
  then show "2 powi (binade x) \<le> \<bar>x\<bar>" "\<bar>x\<bar> < 2 powi (binade x + 1)"
    using assms unfolding p by (simp_all add: le_log_iff log_less_iff)
qed

lemma powi_less_iff [simp]: "(2::real) powi i < 2 powi j \<longleftrightarrow> i < j"
  using power_int_strict_increasing [of i j "2 :: real"] power_int_increasing [of j i "2 :: real"]
  by (cases "i < j") auto

lemma binade_unique: "2 powi k \<le> \<bar>x\<bar> \<Longrightarrow> \<bar>x\<bar> < 2 powi (k + 1) \<Longrightarrow> binade x = k"
proof -
  assume a: "2 powi k \<le> \<bar>x\<bar>" "\<bar>x\<bar> < 2 powi (k + 1)"
  have z: "(0::real) < 2 powi k" by simp
  with a(1) have "x \<noteq> 0" by (metis abs_zero not_less)
  note b = binade_bounds [OF this]
  have "(2::real) powi k < 2 powi (binade x + 1)" "(2::real) powi binade x < 2 powi (k + 1)"
    using a b by linarith+
  then show ?thesis by simp
qed

lemma binade_minus [simp]: "binade (- x) = binade x"
  by (simp add: binade_def)

lemma binade_mono: "0 < x \<Longrightarrow> x \<le> y \<Longrightarrow> binade x \<le> binade y"
  by (simp add: binade_def floor_mono)


section \<open>Rounded numbers\<close>

lemma dbl_0 [simp]: "dbl 0 = 0"
  by (simp add: dbl_def)

lemma dbl_minus: "dbl (- x) = - dbl x"
  by (simp add: dbl_def nearest_minus)

lemma dbl_scale:
  "x \<noteq> 0 \<Longrightarrow> dbl x = of_int (nearest (x * 2 powi (52 - binade x))) * 2 powi (binade x - 52)"
  by (simp add: dbl_def)

lemma scale_back: "x * 2 powi (52 - k) * 2 powi (k - 52) = (x :: real)"
  by (simp add: mult.assoc flip: power_int_add)

text \<open>A result of which the nearest 53-bit integer is known.\<close>

lemma dbl_eval:
  assumes "2 ^ 52 \<le> x * 2 ^ k" and "x * 2 ^ k < 2 ^ 53" and "\<bar>x * 2 ^ k - of_int n\<bar> < 1 / 2"
  shows "dbl x = of_int n / 2 ^ k"
proof -
  have "(0 :: real) < 2 ^ 52" by simp
  then have "0 < x * 2 ^ k" using assms(1) by (rule less_le_trans)
  then have x: "0 < x" by (simp add: zero_less_mult_iff)
  have p: "2 powi (52 - int k) = (2 ^ 52 / 2 ^ k :: real)" "2 powi (52 - int k + 1) = (2 ^ 53 / 2 ^ k :: real)"
    by (simp_all add: power_int_diff power_int_add)
  have "2 ^ 52 / 2 ^ k \<le> \<bar>x\<bar>" "\<bar>x\<bar> < 2 ^ 53 / 2 ^ k"
    using assms(1,2) x by (simp_all add: pos_divide_le_eq pos_less_divide_eq)
  then have "binade x = 52 - int k" unfolding p [symmetric] by (rule binade_unique)
  moreover have "nearest (x * 2 ^ k) = n"
  proof -
    have "nearest y = n" if "\<bar>y - of_int n\<bar> < 1 / 2" for y
    proof (cases "of_int n \<le> y")
      case True
      then have "\<lfloor>y\<rfloor> = n" using that by (intro floor_unique) simp_all
      with that show ?thesis by (auto simp: nearest_def Let_def)
    next
      case False
      then have "\<lfloor>y\<rfloor> = n - 1" using that by (intro floor_unique) simp_all
      with that False show ?thesis by (auto simp: nearest_def Let_def)
    qed
    from this [OF assms(3)] show ?thesis .
  qed
  ultimately show ?thesis
    using x by (simp add: dbl_def power_int_diff power_int_minus divide_simps)
qed

text \<open>A number that fits in 53 bits is not rounded.\<close>

lemma dbl_exact_less:
  assumes x: "x = of_int n * 2 powi k" and n: "\<bar>n\<bar> < 2 ^ 53"
  shows "dbl x = x"
proof (cases "n = 0")
  case False
  define j where "j = binade (of_int n)"
  have n0: "(of_int n :: real) \<noteq> 0" using False by simp
  note b = binade_bounds [OF n0, folded j_def]
  have "\<bar>of_int n :: real\<bar> < of_int (2 ^ 53)" using n by (simp only: of_int_less_iff flip: of_int_abs)
  with b(1) have "(2::real) powi j < 2 powi 53" by simp
  then have j: "j \<le> 52" by (simp only: powi_less_iff)
  have "binade x = j + k"
    using b by (intro binade_unique) (simp_all add: x abs_mult power_int_add mult_ac)
  then have "x * 2 powi (52 - binade x) = of_int n * (2 powi k * 2 powi (52 - (j + k)))" by (simp add: x)
  also have "2 powi k * 2 powi (52 - (j + k)) = (2::real) powi (52 - j)" by (simp flip: power_int_add)
  also have "\<dots> = of_int (2 ^ nat (52 - j))" using j by (simp add: power_int_def)
  finally have "x * 2 powi (52 - binade x) = of_int (n * 2 ^ nat (52 - j))" by simp
  then have "of_int (nearest (x * 2 powi (52 - binade x))) = x * 2 powi (52 - binade x)" by (simp only: nearest_int)
  then show ?thesis using x n0 by (simp add: dbl_scale scale_back)
qed (simp add: x)

lemma dbl_exact:
  assumes x: "x = of_int n * 2 powi k" and n: "\<bar>n\<bar> \<le> 2 ^ 53"
  shows "dbl x = x"
proof (cases "\<bar>n\<bar> = 2 ^ 53")
  case True
  then have "n = sgn n * 2 ^ 53" by (auto simp: sgn_if abs_if split: if_splits)
  then have "x = of_int (sgn n) * 2 powi (53 + k)" unfolding x by (subst \<open>n = _\<close>) (simp add: power_int_add)
  then show ?thesis by (rule dbl_exact_less) (simp add: sgn_if)
qed (use assms dbl_exact_less in auto)

lemma dbl_int: "\<bar>n\<bar> \<le> 2 ^ 53 \<Longrightarrow> dbl (of_int n) = of_int n"
  by (rule dbl_exact [of _ n 0]) simp_all

text \<open>The error is at most half of the last bit.\<close>

lemma dbl_error: "\<bar>dbl x - x\<bar> \<le> \<bar>x\<bar> / 2 ^ 53"
proof (cases "x = 0")
  case False
  let ?s = "2 powi (52 - binade x) :: real"
  have "dbl x - x = (of_int (nearest (x * ?s)) - x * ?s) * 2 powi (binade x - 52)"
    using False by (simp add: dbl_scale left_diff_distrib scale_back)
  then have "\<bar>dbl x - x\<bar> \<le> 1 / 2 * 2 powi (binade x - 52)"
    using mult_right_mono [OF nearest_error [of "x * ?s"], of "2 powi (binade x - 52)"] by (simp add: abs_mult)
  also have "\<dots> = 2 powi (binade x) / 2 ^ 53"
    by (simp add: power_int_diff)
  also have "\<dots> \<le> \<bar>x\<bar> / 2 ^ 53" using binade_bounds(1) [OF False] by (simp add: divide_right_mono)
  finally show ?thesis .
qed simp

text \<open>Rounding is monotone.\<close>

lemma dbl_binade:
  assumes "0 < x"
  shows "2 powi (binade x) \<le> dbl x" and "dbl x \<le> 2 powi (binade x + 1)"
proof -
  let ?b = "binade x" and ?s = "2 powi (52 - binade x) :: real"
  have b: "2 powi ?b \<le> x" "x < 2 powi (?b + 1)" using binade_bounds [of x] assms by auto
  have c: "2 powi ?b * ?s = of_int (2 ^ 52)" "2 powi (?b + 1) * ?s = of_int (2 ^ 53)"
    by (simp_all flip: power_int_add)
  have s: "0 \<le> ?s" by simp
  have n: "2 ^ 52 \<le> nearest (x * ?s)" "nearest (x * ?s) \<le> 2 ^ 53"
    using mult_right_mono [OF b(1) s, unfolded c] mult_right_mono [OF less_imp_le [OF b(2)] s, unfolded c]
    by (intro nearest_ge nearest_le; simp)+
  then have "real_of_int (2 ^ 52) \<le> of_int (nearest (x * ?s))" "of_int (nearest (x * ?s)) \<le> real_of_int (2 ^ 53)"
    by (simp_all only: of_int_le_iff)
  then have m: "of_int (2 ^ 52) * 2 powi (?b - 52) \<le> dbl x" "dbl x \<le> of_int (2 ^ 53) * 2 powi (?b - 52)"
    using assms by (simp_all add: dbl_scale mult_right_mono)
  moreover have "real_of_int (2 ^ 52) * 2 powi (?b - 52) = 2 powi ?b" "real_of_int (2 ^ 53) * 2 powi (?b - 52) = 2 powi (?b + 1)"
    by (simp_all add: power_int_diff power_int_add)
  ultimately show "2 powi ?b \<le> dbl x" "dbl x \<le> 2 powi (?b + 1)" by simp_all
qed

lemma dbl_pos_mono: "0 < x \<Longrightarrow> x \<le> y \<Longrightarrow> dbl x \<le> dbl y"
proof (cases "binade x = binade y")
  case True
  assume "0 < x" "x \<le> y"
  moreover have "nearest (x * 2 powi (52 - binade y)) \<le> nearest (y * 2 powi (52 - binade y))"
    using \<open>x \<le> y\<close> by (intro nearest_mono mult_right_mono) simp_all
  ultimately show ?thesis using True by (simp add: dbl_scale mult_right_mono)
next
  case False
  assume a: "0 < x" "x \<le> y"
  with False have "binade x + 1 \<le> binade y" using binade_mono [of x y] by linarith
  then have "(2::real) powi (binade x + 1) \<le> 2 powi binade y" by (simp add: power_int_increasing)
  then show ?thesis using dbl_binade(2) [of x] dbl_binade(1) [of y] a by linarith
qed

lemma dbl_sgn: "0 \<le> x \<Longrightarrow> 0 \<le> dbl x"
  using dbl_binade(1) [of x] zero_le_power_int [of "2 :: real" "binade x"] by (cases "x = 0") (simp, linarith)

lemma dbl_mono: "x \<le> y \<Longrightarrow> dbl x \<le> dbl y"
proof -
  assume a: "x \<le> y"
  consider "0 < x" | "y < 0" | "x \<le> 0" "0 \<le> y" by linarith
  then show ?thesis
  proof cases
    case 2
    with a have "dbl (- y) \<le> dbl (- x)" by (intro dbl_pos_mono) simp_all
    then show ?thesis by (simp add: dbl_minus)
  next
    case 3
    then have "0 \<le> dbl (- x)" "0 \<le> dbl y" by (simp_all add: dbl_sgn)
    then show ?thesis by (simp add: dbl_minus)
  qed (use a dbl_pos_mono in auto)
qed

lemma dbl_le_int: "x \<le> of_int n \<Longrightarrow> \<bar>n\<bar> \<le> 2 ^ 53 \<Longrightarrow> dbl x \<le> of_int n"
  using dbl_mono [of x "of_int n"] by (simp add: dbl_int)

lemma dbl_ge_int: "of_int n \<le> x \<Longrightarrow> \<bar>n\<bar> \<le> 2 ^ 53 \<Longrightarrow> of_int n \<le> dbl x"
  using dbl_mono [of "of_int n" x] by (simp add: dbl_int)

text \<open>Bounds that are doubles themselves survive rounding.\<close>

definition is_double :: "real \<Rightarrow> bool" where
  "is_double x \<longleftrightarrow> (\<exists>n k. x = of_int n * 2 powi k \<and> \<bar>n\<bar> \<le> 2 ^ 53)"

lemma is_doubleI: "x * 2 ^ k = of_int n \<Longrightarrow> \<bar>n\<bar> \<le> 2 ^ 53 \<Longrightarrow> is_double x"
  unfolding is_double_def
  by (intro exI [of _ n] exI [of _ "- int k"]) (simp add: power_int_minus field_simps)

lemma dbl_is_double: "is_double x \<Longrightarrow> dbl x = x"
  by (auto simp: is_double_def intro: dbl_exact)

lemma dbl_le: "is_double b \<Longrightarrow> x \<le> b \<Longrightarrow> dbl x \<le> b"
  using dbl_mono [of x b] by (simp add: dbl_is_double)

lemma dbl_ge: "is_double b \<Longrightarrow> b \<le> x \<Longrightarrow> b \<le> dbl x"
  using dbl_mono [of b x] by (simp add: dbl_is_double)

text \<open>The largest number below 1.\<close>

lemma dbl_below_1: "dbl x < 1 \<Longrightarrow> dbl x \<le> 1 - 1 / 2 ^ 53"
proof -
  assume a: "dbl x < 1"
  show ?thesis
  proof (cases "x \<le> 1 - 1 / 2 ^ 53")
    case True
    have "is_double (1 - 1 / 2 ^ 53)" by (rule is_doubleI [of _ 53 "2 ^ 53 - 1"]) (simp_all add: field_simps)
    with True show ?thesis by (intro dbl_le)
  next
    case False
    have "x < 1" using dbl_ge_int [of 1 x] a by (cases "1 \<le> x") simp_all
    have "x \<noteq> 0" using False by auto
    have b: "binade x = - 1" using False \<open>x < 1\<close> by (intro binade_unique) (simp_all add: power_int_minus)
    have d: "dbl x = of_int (nearest (x * 2 ^ 53)) / 2 ^ 53"
      unfolding dbl_scale [OF \<open>x \<noteq> 0\<close>] b by (simp add: power_int_def power_one_over)
    with a have "real_of_int (nearest (x * 2 ^ 53)) < of_int (2 ^ 53)" by (simp add: divide_less_eq)
    then have "nearest (x * 2 ^ 53) < 2 ^ 53" by (simp only: of_int_less_iff)
    then have "nearest (x * 2 ^ 53) \<le> 2 ^ 53 - 1" by simp
    then have "real_of_int (nearest (x * 2 ^ 53)) \<le> of_int (2 ^ 53 - 1)" by (simp only: of_int_le_iff)
    then show ?thesis unfolding d by (simp add: divide_le_eq)
  qed
qed

end
