(* ===== verification/Calendar_Inv.thy ===== *)
theory Calendar_Inv
  imports Calendar_Queue
begin

text \<open>
  The invariant of the calendar queue: the geometry of the buckets, what each bucket holds, and the counters that
  the assertions of the code and the resizing read. The first lemmas are about one bucket, then about moving all
  events to new buckets.
\<close>

section \<open>The hash\<close>

definition day :: "'h calendar \<Rightarrow> real \<Rightarrow> int" where
  "day c t = \<lfloor>t / width c\<rfloor>"

lemma hash_day:
  assumes "0 \<le> t" and "0 < width c" and "0 < nbuckets c"
  shows "CALENDAR_HASH t c = day c t mod nbuckets c"
proof -
  let ?x = "t / width c" and ?n = "nbuckets c"
  have x: "0 \<le> ?x" "0 \<le> ?x / of_int ?n" using assms by simp_all
  have d: "\<lfloor>?x / of_int ?n\<rfloor> = \<lfloor>?x\<rfloor> div ?n" using assms(3) floor_divide_real_eq_div [of ?n ?x] by linarith
  have "fmod ?x (of_int ?n) = ?x - of_int (?n * (\<lfloor>?x\<rfloor> div ?n))" using x d by (simp add: fmod_def ctrunc_def)
  moreover have "0 \<le> \<lfloor>?x\<rfloor> mod ?n" using assms(3) by simp
  then have "?n * (\<lfloor>?x\<rfloor> div ?n) \<le> \<lfloor>?x\<rfloor>" by (simp flip: minus_mult_div_eq_mod)
  then have "0 \<le> ?x - of_int (?n * (\<lfloor>?x\<rfloor> div ?n))" by linarith
  ultimately have "CALENDAR_HASH t c = \<lfloor>?x\<rfloor> - ?n * (\<lfloor>?x\<rfloor> div ?n)"
    by (simp add: CALENDAR_HASH_def ctrunc_def del: of_int_mult)
  then show ?thesis by (simp add: day_def minus_mult_div_eq_mod)
qed

lemma hash_cong: "width c = width c' \<Longrightarrow> nbuckets c = nbuckets c' \<Longrightarrow> CALENDAR_HASH t c = CALENDAR_HASH t c'"
  by (simp add: CALENDAR_HASH_def)

section \<open>Buckets\<close>

definition bucket_ok :: "'h calendar \<Rightarrow> int \<Rightarrow> 'h bucket \<Rightarrow> bool" where
  "bucket_ok c i b \<longleftrightarrow> sorted_wrt ev_less (bk_list b)
     \<and> (\<forall>e \<in> set (bk_list b). 0 \<le> ev_time e \<and> CALENDAR_HASH (ev_time e) c = i)
     \<and> bk_count b = int (card (ev_time ` set (bk_list b)))"

definition cal_events :: "'h calendar \<Rightarrow> (real, 'h) event list" where
  "cal_events c = concat (map bk_list (buckets c))"

definition cal_geom :: "'h calendar \<Rightarrow> bool" where
  "cal_geom c \<longleftrightarrow> 4 \<le> nbuckets c \<and> int (length (buckets c)) = nbuckets c \<and> 0 < width c
     \<and> diff0 c = width c * of_int (nbuckets c) / 2 \<and> diff1 c = diff0 c + width c
     \<and> diff2 c = width c * of_int (nbuckets c)
     \<and> (\<forall>i < length (buckets c). bucket_ok c (int i) (buckets c ! i))
     \<and> stat_qsize c = sum_list (map bk_count (buckets c)) \<and> qsize c = int (length (cal_events c))"

lemma bucket_ok_cong:
  "width c = width c' \<Longrightarrow> nbuckets c = nbuckets c' \<Longrightarrow> bucket_ok c i b \<longleftrightarrow> bucket_ok c' i b"
  by (simp add: bucket_ok_def hash_cong [of c c'])

text \<open>The invariant reads these fields only.\<close>

lemma cal_geom_cong:
  assumes "nbuckets c' = nbuckets c" and "buckets c' = buckets c" and "width c' = width c" and "diff0 c' = diff0 c"
    and "diff1 c' = diff1 c" and "diff2 c' = diff2 c" and "stat_qsize c' = stat_qsize c" and "qsize c' = qsize c"
  shows "cal_geom c' = cal_geom c"
proof -
  have "bucket_ok c' i b \<longleftrightarrow> bucket_ok c i b" for i b using assms by (intro bucket_ok_cong) simp_all
  with assms show ?thesis by (simp add: cal_geom_def cal_events_def)
qed

lemma bucket_index: "cal_geom c \<Longrightarrow> 0 \<le> i \<Longrightarrow> i < nbuckets c \<Longrightarrow> nat i < length (buckets c)"
  by (auto simp: cal_geom_def nat_less_iff)

lemma bget_in: "cal_geom c \<Longrightarrow> 0 \<le> i \<Longrightarrow> i < nbuckets c \<Longrightarrow> bget i (buckets c) = Some (buckets c ! nat i)"
  by (simp add: bget_def cal_geom_def)

lemma geom_hash:
  assumes "cal_geom c" and "0 \<le> t"
  shows "CALENDAR_HASH t c = day c t mod nbuckets c" "0 \<le> CALENDAR_HASH t c" "CALENDAR_HASH t c < nbuckets c"
  using assms by (simp_all add: hash_day cal_geom_def)

lemma geom_bucket: "cal_geom c \<Longrightarrow> 0 \<le> i \<Longrightarrow> i < nbuckets c \<Longrightarrow> bucket_ok c i (buckets c ! nat i)"
  by (auto simp: cal_geom_def dest: spec [of _ "nat i"])

lemma mset_concat_update:
  "i < length bs \<Longrightarrow> mset (concat (map f (bs[i := b]))) + mset (f (bs ! i)) = mset (concat (map f bs)) + mset (f b)"
proof (induction bs arbitrary: i)
  case (Cons a bs)
  then show ?case by (cases i) (auto simp: ac_simps)
qed simp

lemma length_concat_update:
  "i < length bs \<Longrightarrow> int (length (concat (map f (bs[i := b])))) = int (length (concat (map f bs))) + int (length (f b))
    - int (length (f (bs ! i)))"
  using arg_cong [OF mset_concat_update [of i bs f b], of size] by simp

lemma sum_update_int: "i < length bs \<Longrightarrow> sum_list (map f (bs[i := b])) = sum_list (map f bs) + f b - (f (bs ! i) :: int)"
proof (induction bs arbitrary: i)
  case (Cons a bs)
  then show ?case by (cases i) auto
qed simp

text \<open>One bucket replaced.\<close>

lemma geom_bput:
  assumes "cal_geom c" and i: "0 \<le> i" "i < nbuckets c" and "bucket_ok c i b"
    and "st = stat_qsize c + bk_count b - bk_count (buckets c ! nat i)"
    and "qs = qsize c + int (length (bk_list b)) - int (length (bk_list (buckets c ! nat i)))"
  shows "cal_geom ((bput i b c)\<lparr>stat_qsize := st, qsize := qs\<rparr>)"
proof -
  let ?c = "(bput i b c)\<lparr>stat_qsize := st, qsize := qs\<rparr>"
  have l: "nat i < length (buckets c)" using assms(1) i by (rule bucket_index)
  have "bucket_ok ?c j x \<longleftrightarrow> bucket_ok c j x" for j x by (intro bucket_ok_cong) (simp_all add: bput_def)
  then have "\<forall>j < length (buckets ?c). bucket_ok ?c (int j) (buckets ?c ! j)"
    using assms(1,4) l i(1) by (simp add: bput_def cal_geom_def nth_list_update)
  with assms l show ?thesis
    by (simp add: cal_geom_def bput_def cal_events_def sum_update_int length_concat_update)
qed

lemma events_bput:
  assumes "cal_geom c" and i: "0 \<le> i" "i < nbuckets c"
  shows "mset (cal_events (bput i b c)) + mset (bk_list (buckets c ! nat i)) = mset (cal_events c) + mset (bk_list b)"
  using mset_concat_update [OF bucket_index [OF assms], of bk_list b] by (simp add: cal_events_def bput_def)

lemma events_in: "x \<in> set (bk_list (buckets c ! i)) \<Longrightarrow> i < length (buckets c) \<Longrightarrow> x \<in> set (cal_events c)"
  by (auto simp: cal_events_def intro!: bexI [of _ "buckets c ! i"])

section \<open>Insertion into one bucket\<close>

lemma sorted_last: "sorted_wrt ev_less xs \<Longrightarrow> x \<in> set xs \<Longrightarrow> ev_time x \<le> ev_time (last xs)"
proof (induction xs)
  case (Cons a xs)
  have "ev_time a \<le> ev_time (last xs)" if "xs \<noteq> []"
  proof -
    have "ev_less a (last xs)" using Cons.prems(1) last_in_set [OF that] by simp
    then show ?thesis by (auto simp: ev_less_def)
  qed
  with Cons show ?case by (cases "xs = []") auto
qed simp

lemma sorted_head: "sorted_wrt ev_less (a # xs) \<Longrightarrow> x \<in> set (a # xs) \<Longrightarrow> ev_time a \<le> ev_time x"
  by (fastforce simp: ev_less_def)

lemma front_split_ok:
  "front_split t xs = (p, r) \<Longrightarrow> xs = p @ r \<and> (\<forall>x \<in> set p. ev_time x < t) \<and> (r \<noteq> [] \<longrightarrow> t \<le> ev_time (hd r))"
  by (induction xs arbitrary: p) (auto split: prod.splits if_splits)

lemma back_split_ok:
  "back_split t xs = (p, r) \<Longrightarrow> xs = p @ r \<and> (\<forall>x \<in> set p. t < ev_time x) \<and> (r \<noteq> [] \<longrightarrow> ev_time (hd r) \<le> t)"
  by (induction xs arbitrary: p) (auto split: prod.splits if_splits)

text \<open>The event goes between two parts of the bucket.\<close>

lemma bucket_between:
  assumes "bucket_ok c i b" and l: "bk_list b = p @ r" and e: "0 \<le> ev_time e" "CALENDAR_HASH (ev_time e) c = i"
    and p: "\<forall>x \<in> set p. ev_less x e" and r: "\<forall>x \<in> set r. ev_less e x"
    and u: "unique \<longleftrightarrow> ev_time e \<notin> ev_time ` set (bk_list b)"
  shows "bucket_ok c i \<lparr> bk_list = p @ e # r, bk_count = bk_count b + (if unique then 1 else 0) \<rparr>"
proof -
  have "ev_time ` set (p @ e # r) = insert (ev_time e) (ev_time ` set (bk_list b))" by (auto simp: l)
  then have "int (card (ev_time ` set (p @ e # r))) = bk_count b + (if unique then 1 else 0)"
    using assms(1) u by (simp add: bucket_ok_def card_insert_if)
  with assms show ?thesis by (auto simp: bucket_ok_def sorted_wrt_append)
qed

text \<open>What an insertion of \<open>e\<close> makes of a calendar.\<close>

definition inserted :: "(real, 'h) event \<Rightarrow> 'h calendar \<Rightarrow> 'h calendar \<Rightarrow> bool" where
  "inserted e c c' \<longleftrightarrow> cal_geom c' \<and> mset (cal_events c') = add_mset e (mset (cal_events c))
     \<and> width c' = width c \<and> nbuckets c' = nbuckets c \<and> cal_clock c' = cal_clock c \<and> lastbucket c' = lastbucket c"

lemma inserted_bput:
  assumes g: "cal_geom c" and i: "i = CALENDAR_HASH (ev_time e) c" and e: "0 \<le> ev_time e"
    and b: "b = buckets c ! nat i" and l: "bk_list b = p @ r"
    and p: "\<forall>x \<in> set p. ev_less x e" and r: "\<forall>x \<in> set r. ev_less e x"
    and u: "unique \<longleftrightarrow> ev_time e \<notin> ev_time ` set (bk_list b)" and d: "d = (if unique then 1 else 0)"
  shows "inserted e c ((bput i \<lparr> bk_list = p @ e # r, bk_count = bk_count b + d \<rparr> c)
    \<lparr>stat_qsize := stat_qsize c + d, qsize := qsize c + 1\<rparr>)" (is "inserted e c ?c")
proof -
  have ix: "0 \<le> i" "i < nbuckets c" using geom_hash [OF g e] i by simp_all
  have ok: "bucket_ok c i \<lparr> bk_list = p @ e # r, bk_count = bk_count b + d \<rparr>"
    using bucket_between [OF geom_bucket [OF g ix, folded b] l e _ p r u] i d by simp
  then have "cal_geom ?c" by (rule geom_bput [OF g ix]) (simp_all add: l flip: b)
  moreover have "mset (cal_events ?c) = add_mset e (mset (cal_events c))"
    using events_bput [OF g ix, of "\<lparr> bk_list = p @ e # r, bk_count = bk_count b + d \<rparr>"] l
    by (simp add: cal_events_def flip: b)
  ultimately show ?thesis by (simp add: inserted_def bput_def)
qed

definition splits_at where
  "splits_at e l p r unique \<longleftrightarrow> l = p @ r \<and> (\<forall>x \<in> set p. ev_less x e) \<and> (\<forall>x \<in> set r. ev_less e x)
     \<and> (unique \<longleftrightarrow> ev_time e \<notin> ev_time ` set l)"

lemma bucket_insert2_ok:
  assumes so: "sorted_wrt ev_less l" and li: "\<forall>x \<in> set l. ev_time x = ev_time e \<longrightarrow> ev_uid e < ev_uid x"
  shows "\<exists>p r u. bucket_insert2 e l = Some (p @ e # r, u) \<and> splits_at e l p r u"
proof (cases l)
  case Nil
  then have "bucket_insert2 e l = Some ([] @ e # [], True)" "splits_at e l [] [] True" by (simp_all add: bucket_insert2_def splits_at_def)
  then show ?thesis by blast
next
  case (Cons h t)
  show ?thesis
  proof (cases "ev_time (last l) < ev_time e")
    case True
    then have lt: "\<forall>x \<in> set l. ev_time x < ev_time e" using sorted_last [OF so] by fastforce
    then have "splits_at e l l [] True" "ev_time h \<noteq> ev_time e" using Cons by (auto simp: splits_at_def ev_less_def)
    then have "splits_at e l l [] True" "bucket_insert2 e l = Some (l @ e # [], True)"
      using True Cons by (simp_all add: bucket_insert2_def)
    then show ?thesis by blast
  next
    case False
    obtain p r where s: "front_split (ev_time e) l = (p, r)" by fastforce
    note f = front_split_ok [OF s]
    have "r \<noteq> []"
    proof
      assume "r = []"
      then have "p = l" "l \<noteq> []" using f Cons by auto
      then have "last l \<in> set p" by simp
      then show False using f False by blast
    qed
    then obtain n r' where r: "r = n # r'" by (cases r) auto
    have ge: "ev_time n \<le> ev_time x" if "x \<in> set r" for x
      using so f r that by (intro sorted_head) (auto simp: sorted_wrt_append)
    moreover have en: "ev_time e \<le> ev_time n" using f r by simp
    ultimately have "\<forall>x \<in> set r. ev_less e x" using li f by (fastforce simp: ev_less_def)
    moreover have "ev_time n \<noteq> ev_time e \<longleftrightarrow> ev_time e \<notin> ev_time ` set l" using f ge en r by fastforce
    ultimately have "splits_at e l p r (ev_time n \<noteq> ev_time e)" using f by (auto simp: splits_at_def ev_less_def)
    moreover have "bucket_insert2 e l = Some (p @ e # r, ev_time n \<noteq> ev_time e)"
      using False Cons s r by (simp add: bucket_insert2_def)
    ultimately show ?thesis by blast
  qed
qed

lemma bucket_insert_ok:
  assumes so: "sorted_wrt ev_less l" and li: "\<forall>x \<in> set l. ev_uid x < ev_uid e"
  shows "\<exists>p r u n. bucket_insert e l = Some (p @ e # r, u, n) \<and> splits_at e l p r u"
proof (cases l)
  case Nil
  then have "bucket_insert e l = Some ([] @ e # [], True, 0)" "splits_at e l [] [] True" by (simp_all add: bucket_insert_def splits_at_def)
  then show ?thesis by blast
next
  case (Cons h t)
  show ?thesis
  proof (cases "ev_time e < ev_time h")
    case True
    then have "\<forall>x \<in> set l. ev_time e < ev_time x" using sorted_head [of h t] so Cons by fastforce
    then have "splits_at e l [] l True" by (auto simp: splits_at_def ev_less_def)
    moreover have "bucket_insert e l = Some ([] @ e # l, True, 1)" using True Cons by (simp add: bucket_insert_def)
    ultimately show ?thesis by blast
  next
    case False
    obtain p r where s: "back_split (ev_time e) (rev l) = (p, r)" by fastforce
    note f = back_split_ok [OF s]
    then have l: "l = rev r @ rev p" by (metis rev_append rev_rev_ident)
    have "r \<noteq> []" using f False Cons by (auto simp: rev_swap)
    then obtain a r' where r: "r = a # r'" by (cases r) auto
    have le: "ev_time x \<le> ev_time a" if "x \<in> set r" for x
      using sorted_last [of "rev r" x] so l r that by (auto simp: sorted_wrt_append)
    moreover have ae: "ev_time a \<le> ev_time e" using f r by simp
    ultimately have "\<forall>x \<in> set r. ev_less x e" using li l by (fastforce simp: ev_less_def)
    moreover have "ev_time a < ev_time e \<longleftrightarrow> ev_time e \<notin> ev_time ` set l" using f le ae r l by fastforce
    ultimately have "splits_at e l (rev r) (rev p) (ev_time a < ev_time e)"
      using f l by (auto simp: splits_at_def ev_less_def)
    moreover have "bucket_insert e l = Some (rev r @ e # rev p, ev_time a < ev_time e, 1 + of_nat (length p))"
      using False Cons s r by (simp add: bucket_insert_def)
    ultimately show ?thesis by blast
  qed
qed

lemma insert2_ok:
  assumes g: "cal_geom c" and e: "0 \<le> ev_time e"
    and lifo: "\<forall>x \<in> set (cal_events c). ev_time x = ev_time e \<longrightarrow> ev_uid e < ev_uid x"
  shows "\<exists>c'. insert2 e c = Some c' \<and> inserted e c c'"
proof -
  define i where "i = CALENDAR_HASH (ev_time e) c"
  define b where "b = buckets c ! nat i"
  have ix: "0 \<le> i" "i < nbuckets c" using geom_hash [OF g e] by (simp_all add: i_def)
  have "sorted_wrt ev_less (bk_list b)" using geom_bucket [OF g ix] by (simp add: bucket_ok_def b_def)
  moreover have "\<forall>x \<in> set (bk_list b). ev_time x = ev_time e \<longrightarrow> ev_uid e < ev_uid x"
    using lifo events_in [of _ c "nat i"] bucket_index [OF g ix] by (auto simp: b_def)
  ultimately obtain p r u where
    s: "bucket_insert2 e (bk_list b) = Some (p @ e # r, u)" "splits_at e (bk_list b) p r u"
    using bucket_insert2_ok by blast
  then show ?thesis
    using inserted_bput [OF g i_def e b_def, of p r u] bget_in [OF g ix]
    by (simp add: insert2_def Let_def splits_at_def flip: i_def b_def)
qed

lemma inserted_hash: "inserted e c c' \<Longrightarrow> CALENDAR_HASH t c' = CALENDAR_HASH t c"
  by (intro hash_cong) (simp_all add: inserted_def)

text \<open>Events put in order into the buckets, of each time the last number first.\<close>

lemma insert2_all_ok:
  assumes "cal_geom c" and "\<forall>e \<in> set es. 0 \<le> ev_time e"
    and "sorted_wrt (\<lambda>a b. ev_time a = ev_time b \<longrightarrow> ev_uid b < ev_uid a) es"
    and "\<forall>e \<in> set es. \<forall>x \<in> set (cal_events c). ev_time x = ev_time e \<longrightarrow> ev_uid e < ev_uid x"
  shows "\<exists>c'. insert2_all es c = Some c' \<and> cal_geom c' \<and> mset (cal_events c') = mset es + mset (cal_events c)
    \<and> width c' = width c \<and> nbuckets c' = nbuckets c \<and> cal_clock c' = cal_clock c \<and> lastbucket c' = lastbucket c"
  using assms
proof (induction es arbitrary: c)
  case (Cons e es)
  from insert2_ok [OF Cons.prems(1), of e] Cons.prems(2,4) obtain c1 where
    c1: "insert2 e c = Some c1" "inserted e c c1" by auto
  have "set (cal_events c1) = insert e (set (cal_events c))"
    using c1(2) mset_eq_setD [of "cal_events c1" "e # cal_events c"] by (simp add: inserted_def)
  then have "\<forall>a \<in> set es. \<forall>x \<in> set (cal_events c1). ev_time x = ev_time a \<longrightarrow> ev_uid a < ev_uid x"
    using Cons.prems(3,4) by auto
  from Cons.IH [OF _ _ _ this] c1 Cons.prems(2,3) show ?case by (auto simp: inserted_def)
qed simp

section \<open>New buckets\<close>

text \<open>The events of the old buckets, each from its end on: among equal times the last number comes first.\<close>

lemma rev_events_lifo:
  assumes "\<forall>k < length bs. bucket_ok c (i + int k) (bs ! k)"
  shows "sorted_wrt (\<lambda>a b. ev_time a = ev_time b \<longrightarrow> ev_uid b < ev_uid a) (concat (map (\<lambda>b. rev (bk_list b)) bs))"
    and "\<forall>e \<in> set (concat (map (\<lambda>b. rev (bk_list b)) bs)). 0 \<le> ev_time e \<and> i \<le> CALENDAR_HASH (ev_time e) c"
  using assms
proof (induction bs arbitrary: i)
  case (Cons b bs)
  {
    case 1
    have b: "bucket_ok c i b" and bs: "\<forall>k < length bs. bucket_ok c (i + 1 + int k) (bs ! k)"
      using 1 by (auto dest: spec [of _ "Suc _"] simp: algebra_simps)
    have "sorted_wrt (\<lambda>a b. ev_time a = ev_time b \<longrightarrow> ev_uid b < ev_uid a) (rev (bk_list b))"
      using b unfolding sorted_wrt_rev by (auto simp: bucket_ok_def ev_less_def elim: sorted_wrt_mono_rel [rotated])
    with Cons.IH [OF bs] Cons.IH(2) [OF bs] b show ?case by (fastforce simp: sorted_wrt_append bucket_ok_def)
  next
    case 2
    have b: "bucket_ok c i b" and bs: "\<forall>k < length bs. bucket_ok c (i + 1 + int k) (bs ! k)"
      using 2 by (auto dest: spec [of _ "Suc _"] simp: algebra_simps)
    with Cons.IH(2) [OF bs] b show ?case by (fastforce simp: bucket_ok_def)
  }
qed simp_all

lemma reinit_ok:
  assumes "4 \<le> n" and "0 < w"
  shows "cal_geom (reinit n w start c) \<and> cal_events (reinit n w start c) = []
    \<and> lastbucket (reinit n w start c) = CALENDAR_HASH start (reinit n w start c)
    \<and> cal_clock (reinit n w start c) = cal_clock c"
proof -
  have "sum_list (map bk_count (replicate k empty_bucket)) = 0" for k
    by (induction k) (simp_all add: empty_bucket_def)
  moreover have "concat (map bk_list (replicate k empty_bucket)) = []" for k
    by (induction k) (simp_all add: empty_bucket_def)
  ultimately show ?thesis
    using assms by (simp add: cal_geom_def cal_events_def reinit_def Let_def CALENDAR_HASH_def)
      (simp add: empty_bucket_def bucket_ok_def)
qed

text \<open>What a change of the buckets leaves alone.\<close>

definition rehashed :: "real \<Rightarrow> 'h calendar \<Rightarrow> 'h calendar \<Rightarrow> bool" where
  "rehashed start c c' \<longleftrightarrow> cal_geom c' \<and> mset (cal_events c') = mset (cal_events c)
     \<and> lastbucket c' = CALENDAR_HASH start c' \<and> cal_clock c' = cal_clock c"

lemma rehash_ok:
  assumes g: "cal_geom c" and n: "4 \<le> n" "0 < w"
  shows "\<exists>c'. rehash n w start c = Some c' \<and> rehashed start c c'"
proof -
  let ?r = "reinit n w start c" and ?es = "concat (map (\<lambda>b. rev (bk_list b)) (buckets c))"
  note r = reinit_ok [OF n, of start c]
  have b: "\<forall>k < length (buckets c). bucket_ok c (0 + int k) (buckets c ! k)" using g by (simp add: cal_geom_def)
  have "mset (concat (map (\<lambda>b. rev (bk_list b)) bs)) = mset (concat (map bk_list bs))" for bs :: "'a bucket list"
    by (induction bs) auto
  then have "mset ?es = mset (cal_events c)" by (simp add: cal_events_def)
  with insert2_all_ok [of ?r ?es] r rev_events_lifo [OF b] obtain c' where
    c': "insert2_all ?es ?r = Some c'" "cal_geom c'" "mset (cal_events c') = mset (cal_events c)" "width c' = width ?r"
      "nbuckets c' = nbuckets ?r" "cal_clock c' = cal_clock c" "lastbucket c' = lastbucket ?r" by auto
  let ?c = "c'\<lparr>head_search := 0, insert_search := 0, round_num := 0\<rparr>"
  have "CALENDAR_HASH start ?c = CALENDAR_HASH start ?r" using c'(4,5) by (intro hash_cong) simp_all
  moreover have "cal_geom ?c = cal_geom c'" by (rule cal_geom_cong) simp_all
  ultimately have "rehashed start c ?c" using c' r by (simp add: rehashed_def cal_events_def)
  with c'(1) show ?thesis by (simp add: rehash_def)
qed

lemma fullest_bound:
  assumes "4 \<le> nbuckets c"
  shows "int (fullest c) < nbuckets c"
proof -
  have "foldl (\<lambda>m i. if f m < f i then i else m) a xs \<in> insert a (set xs)" for f :: "nat \<Rightarrow> int" and a xs
  proof (induction xs arbitrary: a)
    case (Cons x xs)
    from Cons.IH [of a] Cons.IH [of x] show ?case by auto
  qed simp
  from this [of "\<lambda>i. bk_count (buckets c ! i)" 0 "[1..<nat (nbuckets c)]"] show ?thesis
    using assms by (auto simp: fullest_def)
qed

text \<open>A bucket with several times has a first and a last one.\<close>

lemma bucket_spread:
  assumes "bucket_ok c i b" and "1 < bk_count b"
  shows "\<exists>h t. bk_list b = h # t \<and> ev_time h < ev_time (last (h # t))"
proof (cases "bk_list b")
  case Nil
  then show ?thesis using assms by (simp add: bucket_ok_def)
next
  case (Cons h t)
  have so: "sorted_wrt ev_less (h # t)" using assms(1) Cons by (simp add: bucket_ok_def)
  have "ev_time h < ev_time (last (h # t))"
  proof (rule ccontr)
    assume "\<not> ?thesis"
    then have "ev_time x = ev_time h" if "x \<in> set (h # t)" for x
      using sorted_last [OF so that] sorted_head [OF so that] by linarith
    then have "ev_time ` set (bk_list b) \<subseteq> {ev_time h}" unfolding Cons by blast
    then have "card (ev_time ` set (bk_list b)) \<le> card {ev_time h}" by (intro card_mono) simp_all
    with assms show False by (simp add: bucket_ok_def)
  qed
  with Cons show ?thesis by blast
qed

lemma newwidth_ok:
  assumes g: "cal_geom c" and n: "0 < n"
  shows "\<exists>w k. newwidth n c = Some (w, c\<lparr>time_to_newwidth := k\<rparr>) \<and> 0 < w"
proof -
  define k where "k = (if adjust_interval c \<noteq> 0 then adjust_interval c else time_to_newwidth c)"
  have k: "(if adjust_interval c \<noteq> 0 then c\<lparr>time_to_newwidth := adjust_interval c\<rparr> else c) = c\<lparr>time_to_newwidth := k\<rparr>"
    by (simp add: k_def)
  show ?thesis
  proof (cases "adjust_interval c \<noteq> 0 \<and> 0 < avg_gap c")
    case True
    then show ?thesis unfolding newwidth_def k by auto
  next
    case False
    define b where "b = buckets c ! fullest c"
    have f: "int (fullest c) < nbuckets c" using g fullest_bound [of c] by (simp add: cal_geom_def)
    have bg: "bget (int (fullest c)) (buckets c) = Some b" using bget_in [OF g _ f] by (simp add: b_def)
    have ok: "bucket_ok c (int (fullest c)) b" using geom_bucket [OF g _ f] by (simp add: b_def)
    show ?thesis
    proof (cases "bk_count b \<le> 4")
      case small: True
      have "fullest (c\<lparr>time_to_newwidth := k\<rparr>) = fullest c" by (simp add: fullest_def)
      then show ?thesis using False small bg g unfolding newwidth_def k by (auto simp: cal_geom_def)
    next
      case large: False
      then have m: "0 < (if n < bk_count b then n else bk_count b)" using n by simp
      from bucket_spread [OF ok] large obtain h t where
        l: "bk_list b = h # t" "ev_time h < ev_time (last (h # t))" by auto
      have "fullest (c\<lparr>time_to_newwidth := k\<rparr>) = fullest c" by (simp add: fullest_def)
      then have "newwidth n c = Some ((ev_time (last (h # t)) - ev_time h)
          / of_int (if n < bk_count b then n else bk_count b) * 4, c\<lparr>time_to_newwidth := k\<rparr>)"
        using False large bg l unfolding newwidth_def k by (auto simp: Let_def)
      moreover have "0 < (ev_time (last (h # t)) - ev_time h) / of_int (if n < bk_count b then n else bk_count b) * 4"
        using l(2) m by simp
      ultimately show ?thesis by blast
    qed
  qed
qed

lemma rehashed_cong:
  "rehashed start (c\<lparr>time_to_newwidth := k\<rparr>) c' = rehashed start c c'"
  by (simp add: rehashed_def cal_events_def)

lemma rehashed_refl:
  assumes "cal_geom c" and "lastbucket c = CALENDAR_HASH start c"
  shows "rehashed start c (c\<lparr>time_to_newwidth := k, head_search := hs, insert_search := ins, round_num := rn\<rparr>)"
proof -
  let ?c = "c\<lparr>time_to_newwidth := k, head_search := hs, insert_search := ins, round_num := rn\<rparr>"
  have "cal_geom ?c = cal_geom c" by (rule cal_geom_cong) simp_all
  moreover have "CALENDAR_HASH start ?c = CALENDAR_HASH start c" by (rule hash_cong) simp_all
  ultimately show ?thesis using assms by (simp add: rehashed_def cal_events_def)
qed

lemma newwidth_rehash:
  assumes g: "cal_geom c" and n: "0 < n" "4 \<le> n'"
  shows "\<exists>c'. Option.bind (newwidth n c) (\<lambda>(w, c). rehash n' w start c) = Some c' \<and> rehashed start c c'"
proof -
  from newwidth_ok [OF g n(1)] obtain w k where w: "newwidth n c = Some (w, c\<lparr>time_to_newwidth := k\<rparr>)" "0 < w" by blast
  have "cal_geom (c\<lparr>time_to_newwidth := k\<rparr>) = cal_geom c" by (rule cal_geom_cong) simp_all
  with g have "cal_geom (c\<lparr>time_to_newwidth := k\<rparr>)" by simp
  from rehash_ok [OF this n(2) w(2), of start] w(1) show ?thesis by (simp add: rehashed_cong)
qed

lemma calendar_resize_ok:
  assumes g: "cal_geom c" and n: "0 < n" and st: "lastbucket c = CALENDAR_HASH start c"
  shows "\<exists>c'. resize n start c = Some c' \<and> rehashed start c c'"
proof (cases "n = nbuckets c")
  case False
  have "4 \<le> (if n < 4 then 4 else n)" by simp
  from newwidth_rehash [OF g n this, of start] False show ?thesis by (simp add: resize_def)
next
  case True
  have w: "0 < width c" "4 \<le> n" using g True by (auto simp: cal_geom_def)
  define h where "h = (if head_search c \<noteq> 0 then real (unat (head_search c)) else 1)"
  define h' where "h' = (if insert_search c \<noteq> 0 then h / real (unat (insert_search c)) else h)"
  have p: "0 < real (unat x)" if "x \<noteq> 0" for x :: u32
    unfolding of_nat_0_less_iff using that by (simp add: unat_gt_0)
  have "0 < h" unfolding h_def using p [of "head_search c"] by (simp split: if_split)
  then have "0 < h'" unfolding h'_def using p [of "insert_search c"] by (simp split: if_split)
  then have pos: "0 < sqrt h' * width c" using w by simp
  have res: "resize n start c = (let bwidth = sqrt h' * width c in
      if bwidth < min_bin_width c
      then if 0 < time_to_newwidth c
           then Some (c\<lparr>time_to_newwidth := time_to_newwidth c - 1, head_search := 0, insert_search := 0, round_num := 0\<rparr>)
           else Option.bind (newwidth n c) (\<lambda>(w, c). rehash n w start c)
      else rehash n bwidth start c)"
    using True by (simp add: resize_def Let_def h_def h'_def c_sqrt_def)
  consider "min_bin_width c \<le> sqrt h' * width c" | "sqrt h' * width c < min_bin_width c" "0 < time_to_newwidth c"
    | "sqrt h' * width c < min_bin_width c" "\<not> 0 < time_to_newwidth c" by linarith
  then show ?thesis
  proof cases
    case 1
    then show ?thesis using rehash_ok [OF g w(2) pos, of start] by (simp add: res)
  next
    case 2
    then show ?thesis using rehashed_refl [OF g st] by (simp add: res)
  next
    case 3
    then show ?thesis using newwidth_rehash [OF g n w(2), of start] by (simp add: res)
  qed
qed

end
