(* ===== verification/Calendar_Search.thy ===== *)
theory Calendar_Search
  imports Calendar_Inv
begin

text \<open>
  The search for the head of the calendar queue. The heads of the buckets are looked at in the order of the days
  from the clock on. A head within the bound is of the day that is looked at, and no earlier bucket had one of
  its day, so it is the earliest event; if there is none in the whole year, it is the minimum of the heads.
\<close>

definition cal_ok :: "'h calendar \<Rightarrow> bool" where
  "cal_ok c \<longleftrightarrow> cal_geom c \<and> 0 \<le> cal_clock c \<and> (\<forall>e \<in> set (cal_events c). cal_clock c \<le> ev_time e)
     \<and> lastbucket c = CALENDAR_HASH (cal_clock c) c"

section \<open>Days\<close>

lemma day_bounds: "0 < width c \<Longrightarrow> of_int (day c t) * width c \<le> t \<and> t < (of_int (day c t) + 1) * width c"
  by (simp add: day_def pos_le_divide_eq [symmetric] pos_divide_less_eq [symmetric])

lemma day_mono: "0 < width c \<Longrightarrow> s \<le> t \<Longrightarrow> day c s \<le> day c t"
  by (simp add: day_def divide_right_mono floor_mono)

lemma day_less: "0 < width c \<Longrightarrow> day c s < day c t \<Longrightarrow> s < t"
  using day_mono [of c t s] by linarith

text \<open>The bucket looked at in step \<open>k\<close>.\<close>

definition spot :: "'h calendar \<Rightarrow> int \<Rightarrow> int" where
  "spot c k = (day c (cal_clock c) + k) mod nbuckets c"

lemma spot_next:
  assumes "cal_geom c"
  shows "spot c (k + 1) = (if spot c k + 1 = nbuckets c then 0 else spot c k + 1)"
proof -
  let ?d = "day c (cal_clock c) + k" and ?n = "nbuckets c"
  have n: "0 < ?n" using assms by (simp add: cal_geom_def)
  have "(?d + 1) mod ?n = (?d mod ?n + 1) mod ?n" by (simp add: mod_add_left_eq)
  also have "\<dots> = (if ?d mod ?n + 1 = ?n then 0 else ?d mod ?n + 1)"
    using pos_mod_bound [OF n, of ?d] pos_mod_sign [OF n, of ?d] by (auto intro: mod_pos_pos_trivial)
  finally show ?thesis by (simp add: spot_def add.assoc)
qed

lemma spot_inj:
  assumes "cal_geom c" and "0 \<le> j" "j < nbuckets c" "0 \<le> k" "k < nbuckets c" and "spot c j = spot c k"
  shows "j = k"
proof -
  have "(day c (cal_clock c) + j) mod nbuckets c = (day c (cal_clock c) + k) mod nbuckets c" using assms(6) by (simp add: spot_def)
  then have "nbuckets c dvd j - k" by (simp add: mod_eq_dvd_iff)
  then have "j mod nbuckets c = k mod nbuckets c" by (simp add: mod_eq_dvd_iff)
  then show ?thesis using assms(2-5) by (simp add: mod_pos_pos_trivial)
qed

lemma spot_range: "cal_geom c \<Longrightarrow> 0 \<le> spot c k \<and> spot c k < nbuckets c"
  by (simp add: spot_def cal_geom_def)

text \<open>The head of that bucket, if there is one, is of its day or of a later year.\<close>

definition spot_list :: "'h calendar \<Rightarrow> int \<Rightarrow> (real, 'h) event list" where
  "spot_list c k = bk_list (buckets c ! nat (spot c k))"

lemma in_spot:
  assumes ok: "cal_ok c" and x: "x \<in> set (cal_events c)"
  obtains k where "0 \<le> k" "k < nbuckets c" "x \<in> set (spot_list c k)" "k = (day c (ev_time x) - day c (cal_clock c)) mod nbuckets c"
proof -
  let ?n = "nbuckets c"
  have g: "cal_geom c" and cl: "0 \<le> cal_clock c" using ok by (auto simp: cal_ok_def)
  have n: "0 < ?n" using g by (simp add: cal_geom_def)
  from x obtain b where "b \<in> set (buckets c)" "x \<in> set (bk_list b)" by (auto simp: cal_events_def)
  then obtain i where i: "i < length (buckets c)" "x \<in> set (bk_list (buckets c ! i))" by (metis in_set_conv_nth)
  have h: "0 \<le> ev_time x" "CALENDAR_HASH (ev_time x) c = int i"
    using g i by (auto simp: cal_geom_def bucket_ok_def)
  define k where "k = (day c (ev_time x) - day c (cal_clock c)) mod ?n"
  have "spot c k = (day c (cal_clock c) + (day c (ev_time x) - day c (cal_clock c))) mod ?n"
    unfolding spot_def k_def by (rule mod_add_right_eq)
  then have "spot c k = int i" using geom_hash(1) [OF g h(1)] h(2) by simp
  then have "x \<in> set (spot_list c k)" using i by (simp add: spot_list_def)
  then show thesis using that [of k] n by (simp add: k_def)
qed

lemma spot_day:
  assumes ok: "cal_ok c" and k: "0 \<le> k" "k < nbuckets c" and x: "x \<in> set (spot_list c k)"
  shows "day c (ev_time x) = day c (cal_clock c) + k \<or> day c (cal_clock c) + k + nbuckets c \<le> day c (ev_time x)"
proof -
  let ?n = "nbuckets c" and ?d = "day c (cal_clock c)"
  have g: "cal_geom c" using ok by (simp add: cal_ok_def)
  have n: "0 < ?n" "0 < width c" using g by (simp_all add: cal_geom_def)
  have ix: "nat (spot c k) < length (buckets c)" using spot_range [OF g, of k] by (intro bucket_index [OF g]) simp_all
  have xe: "x \<in> set (cal_events c)" using x ix by (intro events_in) (simp_all add: spot_list_def)
  from in_spot [OF ok xe] obtain j where
    j: "0 \<le> j" "j < ?n" "x \<in> set (spot_list c j)" "j = (day c (ev_time x) - ?d) mod ?n" .
  have h: "CALENDAR_HASH (ev_time x) c = spot c i" if "x \<in> set (spot_list c i)" for i
    using geom_bucket [OF g, of "spot c i"] spot_range [OF g, of i] that by (simp add: bucket_ok_def spot_list_def)
  have "j = k" using spot_inj [OF g j(1,2) k] h [OF j(3)] h [OF x] by simp
  then have m: "(day c (ev_time x) - ?d) mod ?n = k" using j(4) by simp
  have "?d \<le> day c (ev_time x)" using ok xe by (intro day_mono [OF n(2)]) (simp add: cal_ok_def)
  then have "0 \<le> (day c (ev_time x) - ?d) div ?n" using n(1) by (simp add: pos_imp_zdiv_nonneg_iff)
  moreover have "day c (ev_time x) - ?d = ?n * ((day c (ev_time x) - ?d) div ?n) + k"
    using m by (metis mult_div_mod_eq)
  moreover have "?n \<le> ?n * q" if "1 \<le> q" for q using n(1) that by simp
  ultimately show ?thesis
    by (cases "(day c (ev_time x) - ?d) div ?n = 0") (simp_all, smt (verit))
qed

text \<open>A bound that decides whether the head is of the day looked at.\<close>

lemma diff_decides:
  assumes ok: "cal_ok c" and k: "0 \<le> k" "k < nbuckets c" and x: "x \<in> set (spot_list c k)"
    and d: "of_int (k + 1) * width c \<le> diff" "diff \<le> of_int (nbuckets c + k - 1) * width c"
  shows "ev_time x - cal_clock c < diff \<longleftrightarrow> day c (ev_time x) = day c (cal_clock c) + k"
proof -
  have w: "0 < width c" using ok by (simp add: cal_ok_def cal_geom_def)
  note b = day_bounds [OF w, of "ev_time x"] day_bounds [OF w, of "cal_clock c"]
  show ?thesis
  proof
    assume "day c (ev_time x) = day c (cal_clock c) + k"
    then show "ev_time x - cal_clock c < diff" using b d by (simp add: algebra_simps)
  next
    assume less: "ev_time x - cal_clock c < diff"
    show "day c (ev_time x) = day c (cal_clock c) + k"
    proof (rule ccontr)
      assume "\<not> ?thesis"
      with spot_day [OF ok k x] have "day c (cal_clock c) + k + nbuckets c \<le> day c (ev_time x)" by simp
      then have "(of_int (day c (cal_clock c) + k + nbuckets c) :: real) * width c \<le> of_int (day c (ev_time x)) * width c"
        using w by (intro mult_right_mono) simp_all
      with b less d show False by (simp add: algebra_simps)
    qed
  qed
qed

section \<open>The search\<close>

lemma spot_sorted: "cal_geom c \<Longrightarrow> sorted_wrt ev_less (spot_list c k)"
  using geom_bucket [of c "spot c k"] spot_range [of c k] by (simp add: spot_list_def bucket_ok_def)

definition found :: "'h calendar \<Rightarrow> 'h calendar \<times> int \<times> (real, 'h) event \<Rightarrow> bool" where
  "found c x \<longleftrightarrow> (\<exists>h k r. x = (c\<lparr>head_search := h\<rparr>, spot c k, hd (spot_list c k)) \<and> 0 \<le> k \<and> k < nbuckets c
     \<and> spot_list c k = hd (spot_list c k) # r \<and> (\<forall>y \<in> set (cal_events c). ev_time (hd (spot_list c k)) \<le> ev_time y))"

text \<open>After \<open>k\<close> steps: no event of this year is in those buckets, and \<open>m\<close> is their earliest event.\<close>

definition seek :: "'h calendar \<Rightarrow> int \<Rightarrow> 'h search \<Rightarrow> bool" where
  "seek c k st \<longleftrightarrow> (case st of (c', i, l, m) \<Rightarrow>
     (\<exists>h. c' = c\<lparr>head_search := h\<rparr>) \<and> i = spot c k
     \<and> (\<forall>j. 0 \<le> j \<longrightarrow> j < k \<longrightarrow> (\<forall>x \<in> set (spot_list c j). day c (cal_clock c) + nbuckets c \<le> day c (ev_time x)))
     \<and> (case m of
          None \<Rightarrow> l = - 1 \<and> (\<forall>j. 0 \<le> j \<longrightarrow> j < k \<longrightarrow> spot_list c j = [])
        | Some e \<Rightarrow> (\<exists>j r. 0 \<le> j \<and> j < k \<and> l = spot c j \<and> spot_list c j = e # r)
            \<and> (\<forall>j. 0 \<le> j \<longrightarrow> j < k \<longrightarrow> (\<forall>x \<in> set (spot_list c j). ev_time e \<le> ev_time x))))"

lemma less_Suc_int: "j < k + 1 \<longleftrightarrow> j < k \<or> j = (k :: int)"
  by auto

lemma probe_ok:
  assumes ok: "cal_ok c" and st: "seek c k st" and k: "0 \<le> k" "k < nbuckets c"
    and d: "of_int (k + 1) * width c \<le> diff" "diff \<le> of_int (nbuckets c + k - 1) * width c"
  shows "\<exists>r. CAL_DEQUEUE diff st = Some r \<and> (case r of Inl x \<Rightarrow> found c x | Inr st \<Rightarrow> seek c (k + 1) st)"
proof -
  have g: "cal_geom c" and w: "0 < width c" using ok by (auto simp: cal_ok_def cal_geom_def)
  let ?D = "day c (cal_clock c)"
  obtain h l m where s: "st = (c\<lparr>head_search := h\<rparr>, spot c k, l, m)" using st by (auto simp: seek_def)
  note sk = st [unfolded s seek_def prod.case]
  have bg: "bget (spot c k) (buckets c) = Some (buckets c ! nat (spot c k))"
    using spot_range [OF g, of k] by (intro bget_in [OF g]) simp_all
  have nx: "(if spot c k + 1 = nbuckets c then 0 else spot c k + 1) = spot c (k + 1)" by (simp add: spot_next [OF g])
  have lst: "bk_list (buckets c ! nat (spot c k)) = spot_list c k" by (simp add: spot_list_def)
  show ?thesis
  proof (cases "spot_list c k")
    case Nil
    have "CAL_DEQUEUE diff st = Some (Inr (c\<lparr>head_search := h + 1\<rparr>, spot c (k + 1), l, m))"
      using bg nx lst Nil by (simp add: CAL_DEQUEUE_def s)
    moreover have "seek c (k + 1) (c\<lparr>head_search := h + 1\<rparr>, spot c (k + 1), l, m)"
      using sk Nil unfolding seek_def less_Suc_int by (cases m) (auto intro: exI)
    ultimately show ?thesis by simp
  next
    case (Cons e es)
    have le: "ev_time e \<le> ev_time x" if "x \<in> set (spot_list c k)" for x
      using sorted_head [of e es x] spot_sorted [OF g, of k] that Cons by simp
    note dec = diff_decides [OF ok k _ d, of e]
    show ?thesis
    proof (cases "ev_time e - cal_clock c < diff")
      case True
      then have de: "day c (ev_time e) = ?D + k" using dec Cons by simp
      have "ev_time e \<le> ev_time y" if y: "y \<in> set (cal_events c)" for y
      proof -
        from in_spot [OF ok y] obtain j where j: "0 \<le> j" "j < nbuckets c" "y \<in> set (spot_list c j)" .
        consider "j < k" | "j = k" | "k < j" by linarith
        then show ?thesis
        proof cases
          case 1
          then have "?D + nbuckets c \<le> day c (ev_time y)" using sk j by blast
          then show ?thesis using de k day_less [OF w, of "ev_time e" "ev_time y"] by simp
        next
          case 2
          then show ?thesis using le j by simp
        next
          case 3
          then have "?D + k < day c (ev_time y)" using spot_day [OF ok j] k by auto
          then show ?thesis using de day_less [OF w, of "ev_time e" "ev_time y"] by simp
        qed
      qed
      then have "found c (c\<lparr>head_search := h + 1\<rparr>, spot c k, e)" unfolding found_def using Cons k by auto
      moreover have "CAL_DEQUEUE diff st = Some (Inl (c\<lparr>head_search := h + 1\<rparr>, spot c k, e))"
        using bg nx lst Cons True by (simp add: CAL_DEQUEUE_def s)
      ultimately show ?thesis by simp
    next
      case False
      then have "?D + k + nbuckets c \<le> day c (ev_time e)" using dec Cons spot_day [OF ok k, of e] by auto
      then have late: "?D + nbuckets c \<le> day c (ev_time x)" if "x \<in> set (spot_list c k)" for x
        using day_mono [OF w le [OF that]] k by linarith
      define better where "better = (case m of None \<Rightarrow> True | Some x \<Rightarrow> ev_time e < ev_time x)"
      let ?st = "(c\<lparr>head_search := h + 1\<rparr>, spot c (k + 1), if better then spot c k else l, if better then Some e else m)"
      have "CAL_DEQUEUE diff st = Some (Inr ?st)"
        using bg nx lst Cons False by (simp add: CAL_DEQUEUE_def s better_def)
      moreover have "seek c (k + 1) ?st"
      proof (cases better)
        case True
        have "ev_time e \<le> ev_time x" if "0 \<le> j" "j < k" "x \<in> set (spot_list c j)" for j x
          using True sk that by (cases m) (fastforce simp: better_def)+
        with True sk late le Cons k show ?thesis unfolding seek_def less_Suc_int by auto
      next
        case nb: False
        then obtain x where m: "m = Some x" "ev_time x \<le> ev_time e" by (cases m) (auto simp: better_def)
        then have "ev_time x \<le> ev_time y" if "y \<in> set (spot_list c k)" for y using le [OF that] by simp
        with nb sk late m show ?thesis unfolding seek_def less_Suc_int by auto
      qed
      ultimately show ?thesis by simp
    qed
  qed
qed

lemma scan_ok:
  assumes ok: "cal_ok c" and "seek c k st" and "2 \<le> k" "k \<le> nbuckets c - 1"
  shows "\<exists>r. cal_scan (spot c (nbuckets c - 1)) st = Some r
    \<and> (case r of Inl x \<Rightarrow> found c x | Inr st \<Rightarrow> seek c (nbuckets c - 1) st)"
  using assms(2-)
proof (induction "nat (nbuckets c - 1 - k)" arbitrary: k st rule: less_induct)
  case less
  have g: "cal_geom c" and w: "0 < width c" and d2: "diff2 c = width c * of_int (nbuckets c)" and n: "0 < nbuckets c"
    using ok by (auto simp: cal_ok_def cal_geom_def)
  have st: "fst (snd st) = spot c k" "diff2 (fst st) = diff2 c" using less.prems(1) by (auto simp: seek_def)
  show ?case
  proof (cases "k = nbuckets c - 1")
    case True
    then show ?thesis using less.prems(1) st by (subst cal_scan.simps) simp
  next
    case False
    then have ne: "spot c k \<noteq> spot c (nbuckets c - 1)" using spot_inj [OF g, of k "nbuckets c - 1"] less.prems n by auto
    have "of_int (k + 1) * width c \<le> of_int (nbuckets c) * width c"
      "of_int (nbuckets c) * width c \<le> of_int (nbuckets c + k - 1) * width c"
      using w less.prems by (intro mult_right_mono; simp)+
    then have "\<exists>r. CAL_DEQUEUE (diff2 c) st = Some r \<and> (case r of Inl x \<Rightarrow> found c x | Inr st \<Rightarrow> seek c (k + 1) st)"
      using less.prems by (intro probe_ok [OF ok]) (simp_all add: d2 mult.commute)
    then obtain r where r: "CAL_DEQUEUE (diff2 c) st = Some r" "case r of Inl x \<Rightarrow> found c x | Inr st \<Rightarrow> seek c (k + 1) st"
      by blast
    show ?thesis
    proof (cases r)
      case (Inl x)
      then show ?thesis using r st ne by (subst cal_scan.simps) simp
    next
      case (Inr st')
      have "\<exists>r. cal_scan (spot c (nbuckets c - 1)) st' = Some r
          \<and> (case r of Inl x \<Rightarrow> found c x | Inr st \<Rightarrow> seek c (nbuckets c - 1) st)"
        using r(2) Inr less.prems False by (intro less.hyps [of "k + 1"]) auto
      then show ?thesis using r(1) Inr st ne by (subst cal_scan.simps) simp
    qed
  qed
qed

lemma last_ok:
  assumes ok: "cal_ok c" and st: "seek c (nbuckets c - 1) st" and ne: "cal_events c \<noteq> []"
  shows "\<exists>x. cal_last st = Some x \<and> found c x"
proof -
  have g: "cal_geom c" and n: "4 \<le> nbuckets c" using ok by (auto simp: cal_ok_def cal_geom_def)
  let ?k = "nbuckets c - 1"
  obtain h l m where s: "st = (c\<lparr>head_search := h\<rparr>, spot c ?k, l, m)" using st by (auto simp: seek_def)
  note sk = st [unfolded s seek_def prod.case]
  have bg: "bget (spot c ?k) (buckets c) = Some (buckets c ! nat (spot c ?k))"
    using spot_range [OF g, of ?k] by (intro bget_in [OF g]) simp_all
  have lst: "bk_list (buckets c ! nat (spot c ?k)) = spot_list c ?k" by (simp add: spot_list_def)
  have le: "ev_time e \<le> ev_time x" if "spot_list c ?k = e # es" "x \<in> set (spot_list c ?k)" for e es x
    using sorted_head [of e es x] spot_sorted [OF g, of ?k] that by simp
  have split: "P y" if "y \<in> set (cal_events c)" "\<And>j. 0 \<le> j \<Longrightarrow> j < ?k \<Longrightarrow> y \<in> set (spot_list c j) \<Longrightarrow> P y"
    "y \<in> set (spot_list c ?k) \<Longrightarrow> P y" for P y
  proof -
    from in_spot [OF ok that(1)] obtain j where "0 \<le> j" "j < nbuckets c" "y \<in> set (spot_list c j)" .
    then show ?thesis using that(2) [of j] that(3) by (cases "j = ?k") auto
  qed
  have this_bucket: "found c (c\<lparr>head_search := h\<rparr>, spot c ?k, e)"
    if a: "spot_list c ?k = e # es"
      and b: "\<And>j y. 0 \<le> j \<Longrightarrow> j < ?k \<Longrightarrow> y \<in> set (spot_list c j) \<Longrightarrow> ev_time e \<le> ev_time y" for e es
  proof -
    have "ev_time e \<le> ev_time y" if y: "y \<in> set (cal_events c)" for y
      using b le [OF a] by (rule split [where P = "\<lambda>y. ev_time e \<le> ev_time y", OF y])
    then show ?thesis using a n unfolding found_def by (auto intro!: exI [of _ ?k])
  qed
  show ?thesis
  proof (cases m)
    case None
    then have em: "spot_list c j = []" if "0 \<le> j" "j < ?k" for j using sk that by simp
    obtain y where y: "y \<in> set (cal_events c)" using ne by (cases "cal_events c") auto
    have "spot_list c ?k \<noteq> []" by (rule split [OF y]) (use em in auto)
    then obtain e es where e: "spot_list c ?k = e # es" by (cases "spot_list c ?k") auto
    then have "cal_last st = Some (c\<lparr>head_search := h\<rparr>, spot c ?k, e)" using bg lst None by (simp add: cal_last_def s)
    then show ?thesis using this_bucket [OF e] em by auto
  next
    case (Some x)
    then obtain j r where j: "0 \<le> j" "j < ?k" "l = spot c j" "spot_list c j = x # r"
      and mn: "\<And>j y. 0 \<le> j \<Longrightarrow> j < ?k \<Longrightarrow> y \<in> set (spot_list c j) \<Longrightarrow> ev_time x \<le> ev_time y"
      using sk by auto
    have earlier: "found c (c\<lparr>head_search := h\<rparr>, l, x)" if a: "\<And>y. y \<in> set (spot_list c ?k) \<Longrightarrow> ev_time x \<le> ev_time y"
    proof -
      have "ev_time x \<le> ev_time y" if y: "y \<in> set (cal_events c)" for y
        using mn a by (rule split [where P = "\<lambda>y. ev_time x \<le> ev_time y", OF y])
      then show ?thesis using j unfolding found_def by (auto intro!: exI [of _ j])
    qed
    show ?thesis
    proof (cases "spot_list c ?k")
      case Nil
      then show ?thesis using earlier bg lst Some by (simp add: cal_last_def s)
    next
      case (Cons e es)
      show ?thesis
      proof (cases "ev_time x < ev_time e")
        case True
        then have "ev_time x \<le> ev_time y" if "y \<in> set (spot_list c ?k)" for y using le [OF Cons that] by simp
        then show ?thesis using True earlier bg lst Some Cons by (simp add: cal_last_def s)
      next
        case False
        then have "ev_time e \<le> ev_time y" if "0 \<le> j" "j < ?k" "y \<in> set (spot_list c j)" for j y
          using mn [OF that] by simp
        from this_bucket [OF Cons this] show ?thesis using False bg lst Some Cons by (simp add: cal_last_def s)
      qed
    qed
  qed
qed

lemma search_ok:
  assumes ok: "cal_ok c" and ne: "cal_events c \<noteq> []"
  shows "\<exists>x. cal_search c = Some x \<and> found c x"
proof -
  have g: "cal_geom c" and w: "0 < width c" and n: "4 \<le> nbuckets c"
    and d: "diff0 c = width c * of_int (nbuckets c) / 2" "diff1 c = diff0 c + width c"
    using ok by (auto simp: cal_ok_def cal_geom_def)
  have l: "lastbucket c = spot c 0" using ok geom_hash(1) [OF g] by (simp add: cal_ok_def spot_def)
  define X where "X = width c * of_int (nbuckets c)"
  have wn: "width c * 4 \<le> X" unfolding X_def using w n by (intro mult_left_mono) simp_all
  have e: "of_int (nbuckets c + 0 - 1) * width c = X - width c" "of_int (nbuckets c + 1 - 1) * width c = X"
    by (simp_all add: X_def algebra_simps)
  have "seek c 0 (c, spot c 0, - 1, None)" unfolding seek_def by (auto intro: exI [of _ "head_search c"])
  moreover have "of_int (0 + 1) * width c \<le> diff0 c" "diff0 c \<le> of_int (nbuckets c + 0 - 1) * width c"
    unfolding e d X_def [symmetric] using wn w by simp_all
  ultimately have "\<exists>r. CAL_DEQUEUE (diff0 c) (c, spot c 0, - 1, None) = Some r
      \<and> (case r of Inl x \<Rightarrow> found c x | Inr st \<Rightarrow> seek c (0 + 1) st)"
    using n by (intro probe_ok [OF ok]) simp_all
  then obtain r0 where r0: "CAL_DEQUEUE (diff0 c) (c, spot c 0, - 1, None) = Some r0"
    "case r0 of Inl x \<Rightarrow> found c x | Inr st \<Rightarrow> seek c 1 st" unfolding add_0 by blast
  have dec: "(if lastbucket c \<noteq> 0 then lastbucket c - 1 else nbuckets c - 1) = spot c (nbuckets c - 1)"
  proof -
    have "spot c (nbuckets c - 1 + 1) = spot c 0" by (simp add: spot_def)
    then show ?thesis
      unfolding l using spot_next [OF g, of "nbuckets c - 1"] spot_range [OF g, of "nbuckets c - 1"]
      by (simp split: if_splits)
  qed
  show ?thesis
  proof (cases r0)
    case (Inl x)
    with r0 show ?thesis by (simp add: cal_search_def l)
  next
    case (Inr st)
    have "of_int (1 + 1) * width c \<le> diff1 c" "diff1 c \<le> of_int (nbuckets c + 1 - 1) * width c"
      unfolding e d X_def [symmetric] using wn w by simp_all
    with Inr r0 have "\<exists>r. CAL_DEQUEUE (diff1 c) st = Some r
        \<and> (case r of Inl x \<Rightarrow> found c x | Inr st \<Rightarrow> seek c (1 + 1) st)"
      using n by (intro probe_ok [OF ok]) simp_all
    then obtain r1 where r1: "CAL_DEQUEUE (diff1 c) st = Some r1"
      "case r1 of Inl x \<Rightarrow> found c x | Inr st \<Rightarrow> seek c 2 st" unfolding one_add_one by blast
    show ?thesis
    proof (cases r1)
      case (Inl x)
      with r0 r1 \<open>r0 = Inr st\<close> show ?thesis by (simp add: cal_search_def l)
    next
      case st': (Inr st')
      from scan_ok [OF ok, of 2 st'] r1 st' n obtain r2 where
        r2: "cal_scan (spot c (nbuckets c - 1)) st' = Some r2"
          "case r2 of Inl x \<Rightarrow> found c x | Inr st \<Rightarrow> seek c (nbuckets c - 1) st" by auto
      have eq: "cal_search c = (case r2 of Inl x \<Rightarrow> Some x | Inr st \<Rightarrow> cal_last st)"
        unfolding cal_search_def Let_def dec using r0(1) r1(1) r2(1) Inr st' by (simp add: l)
      show ?thesis
        unfolding eq using r2(2) last_ok [OF ok _ ne] by (cases r2) auto
    qed
  qed
qed

end
