(* ===== verification/Calendar_Refinement.thy ===== *)
theory Calendar_Refinement
  imports Calendar_Search
begin

text \<open>
  The operations of the calendar queue keep its invariant and do to the sorted list of its events what the
  contract \<open>event_queue\<close> asks for: the interpretation \<open>calendar_queue\<close>. Events have times from 0 on.
\<close>

definition event_key :: "(real, 'h) event \<Rightarrow> real \<times> int" where
  "event_key e = (ev_time e, ev_uid e)"

definition cal_abs :: "'h calendar \<Rightarrow> (real, 'h) event list" where
  "cal_abs c = sort_key event_key (cal_events c)"

definition cal_inv :: "int \<Rightarrow> 'h calendar \<Rightarrow> bool" where
  "cal_inv n c \<longleftrightarrow> cal_ok c \<and> in_order n (cal_abs c)"

lemma ev_less_key: "ev_less a b \<longleftrightarrow> event_key a < event_key b"
  by (auto simp: ev_less_def event_key_def)

text \<open>A sorted list of events is the only one.\<close>

lemma abs_unique:
  assumes "sorted_wrt ev_less ys" and "mset ys = mset (cal_events c)"
  shows "cal_abs c = ys"
proof -
  have "sorted_wrt (<) (map event_key ys)" using assms(1) unfolding sorted_wrt_map ev_less_key [abs_def] .
  then have so: "sorted (map event_key ys)" "distinct (map event_key ys)" by (simp_all add: strict_sorted_iff)
  then have "inj_on event_key (set (cal_events c))"
    using mset_eq_setD [OF assms(2)] by (simp add: distinct_map)
  then show ?thesis
    unfolding cal_abs_def using so(1) assms(2) by (intro sort_key_inj_key_eq) simp_all
qed

lemma set_cal_abs [simp]: "set (cal_abs c) = set (cal_events c)"
  by (simp add: cal_abs_def)

lemma mset_cal_abs [simp]: "mset (cal_abs c) = mset (cal_events c)"
  by (simp add: cal_abs_def)

lemma cal_ok_rehashed:
  assumes "cal_ok c" and "rehashed (cal_clock c) c c'"
  shows "cal_ok c' \<and> mset (cal_events c') = mset (cal_events c) \<and> cal_clock c' = cal_clock c"
proof -
  have "set (cal_events c') = set (cal_events c)" using assms(2) by (auto simp: rehashed_def dest: mset_eq_setD)
  with assms show ?thesis by (simp add: cal_ok_def rehashed_def)
qed

lemma cal_resize:
  assumes "cal_ok c" and "0 < n"
  shows "\<exists>c'. resize n (cal_clock c) c = Some c' \<and> cal_ok c' \<and> mset (cal_events c') = mset (cal_events c)
    \<and> cal_clock c' = cal_clock c"
  using calendar_resize_ok [of c n "cal_clock c"] cal_ok_rehashed [OF assms(1)] assms by (auto simp: cal_ok_def)

lemma nbuckets_pos: "cal_ok c \<Longrightarrow> 4 \<le> nbuckets c"
  by (simp add: cal_ok_def cal_geom_def)

section \<open>Insertion\<close>

lemma cal_insert_ok:
  assumes i: "cal_inv n c" and fresh: "fresh_event n e (cal_abs c)" and e: "0 \<le> ev_time e"
  shows "\<exists>c'. cal_insert e c = Some c' \<and> cal_inv (ev_uid e + 1) c' \<and> cal_abs c' = list_insert e (cal_abs c)"
proof -
  have ok: "cal_ok c" and io: "in_order n (cal_abs c)" using i by (auto simp: cal_inv_def)
  define c1 where "c1 = (if ev_time e < cal_clock c
    then c\<lparr>cal_clock := ev_time e, lastbucket := CALENDAR_HASH (ev_time e) c\<rparr> else c)"
  have c: "cal_geom (c\<lparr>cal_clock := t, lastbucket := l\<rparr>) = cal_geom c"
    "CALENDAR_HASH x (c\<lparr>cal_clock := t, lastbucket := l\<rparr>) = CALENDAR_HASH x c"
    "cal_events (c\<lparr>cal_clock := t, lastbucket := l\<rparr>) = cal_events c" for t l x
    by (rule cal_geom_cong, simp_all) (rule hash_cong, simp_all add: cal_events_def)
  have "ev_time e \<le> ev_time x" if "ev_time e < cal_clock c" "x \<in> set (cal_events c)" for x
    using ok that by (force simp: cal_ok_def)
  then have ok1: "cal_ok c1" "\<forall>t. CALENDAR_HASH t c1 = CALENDAR_HASH t c" "buckets c1 = buckets c"
    "cal_clock c1 \<le> ev_time e" "cal_events c1 = cal_events c"
    using ok e by (auto simp: c1_def cal_ok_def c)
  have g: "cal_geom c1" using ok1(1) by (simp add: cal_ok_def)
  define k where "k = CALENDAR_HASH (ev_time e) c1"
  define b where "b = buckets c1 ! nat k"
  have ix: "0 \<le> k" "k < nbuckets c1" using geom_hash [OF g e] by (simp_all add: k_def)
  have "sorted_wrt ev_less (bk_list b)" using geom_bucket [OF g ix] by (simp add: bucket_ok_def b_def)
  moreover have "\<forall>x \<in> set (bk_list b). ev_uid x < ev_uid e"
  proof
    fix x assume "x \<in> set (bk_list b)"
    then have "x \<in> set (cal_abs c)" using events_in [of x c1 "nat k"] bucket_index [OF g ix] ok1(5) by (simp add: b_def)
    then show "ev_uid x < ev_uid e" using io fresh by (auto simp: in_order_def fresh_event_def)
  qed
  ultimately obtain p r u m where
    s: "bucket_insert e (bk_list b) = Some (p @ e # r, u, m)" "splits_at e (bk_list b) p r u"
    using bucket_insert_ok by blast
  define d where "d = (if u then 1 else 0 :: int)"
  define c2 where "c2 = (bput k \<lparr> bk_list = p @ e # r, bk_count = bk_count b + d \<rparr> c1)
    \<lparr>stat_qsize := stat_qsize c1 + d, qsize := qsize c1 + 1\<rparr>"
  have ins: "inserted e c1 c2"
    unfolding c2_def using s(2) by (intro inserted_bput [OF g k_def e b_def]) (auto simp: splits_at_def d_def)
  define c3 where "c3 = c2\<lparr>insert_search := insert_search c1 + m\<rparr>"
  have "cal_geom c3 = cal_geom c2" unfolding c3_def by (rule cal_geom_cong) simp_all
  moreover have "CALENDAR_HASH t c3 = CALENDAR_HASH t c1" for t
    using ins by (intro hash_cong) (simp_all add: inserted_def c3_def)
  moreover have "mset (cal_events c3) = mset (e # cal_events c)" using ins ok1(5) by (simp add: c3_def cal_events_def inserted_def)
  moreover from this have "set (cal_events c3) = set (e # cal_events c)" by (rule mset_eq_setD)
  ultimately have ok3: "cal_ok c3" "mset (cal_events c3) = mset (e # cal_events c)"
    using ins ok1 by (auto simp: cal_ok_def inserted_def c3_def)
  have eq: "cal_insert e c = (if top_threshold c3 < stat_qsize c3 then resize (nbuckets c3 * 2) (cal_clock c3) c3 else Some c3)"
  proof -
    have hk: "CALENDAR_HASH (ev_time e) c = k" using ok1(2) by (simp add: k_def)
    have c1k: "(if ev_time e < cal_clock c then c\<lparr>cal_clock := ev_time e, lastbucket := k\<rparr> else c) = c1"
      by (simp add: c1_def hk)
    show ?thesis
      unfolding cal_insert_def Let_def hk c1k using bget_in [OF g ix, folded b_def] s(1)
      by (simp add: c3_def c2_def d_def bput_def)
  qed
  have "\<exists>c'. cal_insert e c = Some c' \<and> cal_ok c' \<and> mset (cal_events c') = mset (e # cal_events c)"
    unfolding eq using cal_resize [OF ok3(1), of "nbuckets c3 * 2"] nbuckets_pos [OF ok3(1)] ok3 by auto
  then obtain c' where c': "cal_insert e c = Some c'" "cal_ok c'" "mset (cal_events c') = mset (e # cal_events c)" by blast
  have io': "in_order (ev_uid e + 1) (list_insert e (cal_abs c))" using io fresh by (rule in_order_insert)
  then have "cal_abs c' = list_insert e (cal_abs c)"
    using c'(3) by (intro abs_unique) (simp_all add: in_order_def)
  with c' io' show ?thesis by (simp add: cal_inv_def)
qed

section \<open>The head and its removal\<close>

definition at_head :: "(real, 'h) event \<Rightarrow> 'h calendar \<Rightarrow> bool" where
  "at_head e c \<longleftrightarrow> cal_ok c \<and> cal_clock c = ev_time e \<and> e \<in> set (cal_events c)
     \<and> (\<forall>x \<in> set (cal_events c). x = e \<or> ev_less e x)"

text \<open>The events of one bucket are those with its hash.\<close>

lemma event_bucket:
  assumes g: "cal_geom c" and e: "e \<in> set (cal_events c)"
  shows "e \<in> set (bk_list (buckets c ! nat (CALENDAR_HASH (ev_time e) c)))" and "0 \<le> ev_time e"
proof -
  from e obtain b where "b \<in> set (buckets c)" "e \<in> set (bk_list b)" by (auto simp: cal_events_def)
  then obtain i where i: "i < length (buckets c)" "e \<in> set (bk_list (buckets c ! i))" by (metis in_set_conv_nth)
  with g have h: "CALENDAR_HASH (ev_time e) c = int i" "0 \<le> ev_time e" by (auto simp: cal_geom_def bucket_ok_def)
  with i show "e \<in> set (bk_list (buckets c ! nat (CALENDAR_HASH (ev_time e) c)))" "0 \<le> ev_time e" by simp_all
qed

lemma at_head_bucket:
  assumes h: "at_head e c"
  shows "\<exists>es. bk_list (buckets c ! nat (lastbucket c)) = e # es" and "0 \<le> lastbucket c" and "lastbucket c < nbuckets c"
proof -
  have g: "cal_geom c" and l: "lastbucket c = CALENDAR_HASH (ev_time e) c" and e: "e \<in> set (cal_events c)"
    using h by (auto simp: at_head_def cal_ok_def)
  show ix: "0 \<le> lastbucket c" "lastbucket c < nbuckets c" using geom_hash [OF g event_bucket(2) [OF g e]] l by simp_all
  have eb: "e \<in> set (bk_list (buckets c ! nat (lastbucket c)))" using event_bucket(1) [OF g e] l by simp
  then obtain y ys where b: "bk_list (buckets c ! nat (lastbucket c)) = y # ys" by (cases "bk_list (buckets c ! nat (lastbucket c))") auto
  have "sorted_wrt ev_less (y # ys)" using geom_bucket [OF g ix] b by (simp add: bucket_ok_def)
  then have "y = e \<or> ev_less y e" using eb b by auto
  moreover have "y \<in> set (cal_events c)" using b bucket_index [OF g ix] by (intro events_in [of y c "nat (lastbucket c)"]) simp_all
  then have "y = e \<or> ev_less e y" using h by (auto simp: at_head_def)
  ultimately have "y = e" by (auto simp: ev_less_def)
  with b show "\<exists>es. bk_list (buckets c ! nat (lastbucket c)) = e # es" by blast
qed

lemma found_head:
  assumes ok: "cal_ok c" and f: "found c x"
  shows "\<exists>e c'. cal_found x = (Some e, c') \<and> fst (snd x) \<noteq> - 1 \<and> at_head e c' \<and> cal_events c' = cal_events c"
proof -
  have g: "cal_geom c" using ok by (simp add: cal_ok_def)
  from f obtain h k r where x: "x = (c\<lparr>head_search := h\<rparr>, spot c k, hd (spot_list c k))" "0 \<le> k" "k < nbuckets c"
    "spot_list c k = hd (spot_list c k) # r" "\<forall>y \<in> set (cal_events c). ev_time (hd (spot_list c k)) \<le> ev_time y"
    by (auto simp: found_def)
  define e where "e = hd (spot_list c k)"
  define c' where "c' = c\<lparr>head_search := h, lastbucket := spot c k, cal_clock := ev_time e\<rparr>"
  note ix = spot_range [OF g, of k]
  have b: "bucket_ok c (spot c k) (buckets c ! nat (spot c k))" using geom_bucket [OF g] ix by simp
  have sl: "bk_list (buckets c ! nat (spot c k)) = e # r" using x(4) by (simp add: spot_list_def e_def)
  have he: "CALENDAR_HASH (ev_time e) c = spot c k" "0 \<le> ev_time e" using b sl by (auto simp: bucket_ok_def)
  have ev: "e \<in> set (cal_events c)" using sl ix by (intro events_in [of e c "nat (spot c k)"] bucket_index [OF g]) simp_all
  have least: "y = e \<or> ev_less e y" if y: "y \<in> set (cal_events c)" for y
  proof (cases "ev_time y = ev_time e")
    case True
    then have "y \<in> set (e # r)" using event_bucket(1) [OF g y] he(1) sl by simp
    then show ?thesis using b sl by (auto simp: bucket_ok_def)
  next
    case False
    then show ?thesis using x(5) y by (force simp: ev_less_def e_def)
  qed
  have "cal_geom c' = cal_geom c" unfolding c'_def by (rule cal_geom_cong) simp_all
  moreover have "CALENDAR_HASH t c' = CALENDAR_HASH t c" for t unfolding c'_def by (rule hash_cong) simp_all
  moreover have evs: "cal_events c' = cal_events c" by (simp add: c'_def cal_events_def)
  moreover have "\<forall>y \<in> set (cal_events c). ev_time e \<le> ev_time y" using x(5) by (simp add: e_def)
  ultimately have "at_head e c'" using g he ev least by (simp add: at_head_def cal_ok_def) (simp add: c'_def)
  moreover have "cal_found x = (Some e, c')" "fst (snd x) \<noteq> - 1" using ix by (auto simp: cal_found_def x(1) e_def c'_def)
  ultimately show ?thesis using evs by blast
qed

lemma cal_head_ok:
  assumes ok: "cal_ok c"
  shows "if cal_events c = [] then cal_head c = Some (None, c)
    else \<exists>e c'. cal_head c = Some (Some e, c') \<and> at_head e c' \<and> cal_events c' = cal_events c"
proof (cases "cal_events c = []")
  case True
  then show ?thesis using ok by (simp add: cal_head_def cal_ok_def cal_geom_def)
next
  case False
  from search_ok [OF ok False] obtain x where x: "cal_search c = Some x" "found c x" by blast
  have "qsize c \<noteq> 0" using ok False by (simp add: cal_ok_def cal_geom_def)
  with found_head [OF ok x(2)] x(1) False show ?thesis by (auto simp: cal_head_def)
qed

lemma at_head_cong:
  assumes "at_head e c" and "cal_ok c'" and "mset (cal_events c') = mset (cal_events c)" and "cal_clock c' = cal_clock c"
  shows "at_head e c'"
  using assms mset_eq_setD [OF assms(3)] by (simp add: at_head_def)

lemma cal_ok_cong:
  assumes "cal_ok c" and "nbuckets c' = nbuckets c" "buckets c' = buckets c" "width c' = width c" "diff0 c' = diff0 c"
    "diff1 c' = diff1 c" "diff2 c' = diff2 c" "stat_qsize c' = stat_qsize c" "qsize c' = qsize c"
    "lastbucket c' = lastbucket c" "cal_clock c' = cal_clock c"
  shows "cal_ok c' \<and> cal_events c' = cal_events c"
  using assms cal_geom_cong [of c' c] hash_cong [of c' c] by (simp add: cal_ok_def cal_events_def)

lemma cal_adjust_ok:
  assumes h: "at_head e c"
  shows "\<exists>c'. cal_adjust e c = Some c' \<and> at_head e c' \<and> mset (cal_events c') = mset (cal_events c)"
proof -
  have ok: "cal_ok c" using h by (simp add: at_head_def)
  define keeps where "keeps c' \<longleftrightarrow> cal_ok c' \<and> cal_events c' = cal_events c \<and> cal_clock c' = cal_clock c" for c'
  have k: "keeps c'" if "nbuckets c' = nbuckets c" "buckets c' = buckets c" "width c' = width c" "diff0 c' = diff0 c"
    "diff1 c' = diff1 c" "diff2 c' = diff2 c" "stat_qsize c' = stat_qsize c" "qsize c' = qsize c"
    "lastbucket c' = lastbucket c" "cal_clock c' = cal_clock c" for c'
    using cal_ok_cong [OF ok that] that(10) by (simp add: keeps_def)
  have settled: "\<exists>c'. x = Some c' \<and> at_head e c' \<and> mset (cal_events c') = mset (cal_events c)" if "x = Some c'" "keeps c'" for x c'
    using that at_head_cong [OF h] by (simp add: keeps_def)
  have again: "\<exists>c''. Option.bind (resize (nbuckets c') (cal_clock c') c') (\<lambda>c. Some (c\<lparr>round_num := 0\<rparr>)) = Some c''
      \<and> at_head e c'' \<and> mset (cal_events c'') = mset (cal_events c)" if "keeps c'" for c'
  proof -
    have ok': "cal_ok c'" "cal_events c' = cal_events c" "cal_clock c' = cal_clock c" using that by (auto simp: keeps_def)
    from cal_resize [OF ok'(1), of "nbuckets c'"] nbuckets_pos [OF ok'(1)] obtain d where
      d: "resize (nbuckets c') (cal_clock c') c' = Some d" "cal_ok d" "mset (cal_events d) = mset (cal_events c)"
        "cal_clock d = cal_clock c" using ok'(2,3) by auto
    have "cal_ok (d\<lparr>round_num := 0\<rparr>) \<and> cal_events (d\<lparr>round_num := 0\<rparr>) = cal_events d" by (rule cal_ok_cong [OF d(2)]) simp_all
    with d at_head_cong [OF h, of "d\<lparr>round_num := 0\<rparr>"] show ?thesis by simp
  qed
  let ?c2 = "c\<lparr>avg_gap := (ev_time e - last_time c) / of_int (gap_num c + 1), gap_num := 0,
    last_time := ev_time e, round_num := round_num c + 1\<rparr>"
  let ?again = "20 < round_num c + 1 \<and> (insert_search c * 2 < head_search c \<or> head_search c * 2 < insert_search c)"
  have eq: "cal_adjust e c = (if adjust_interval c = 0 then Some c
    else if last_time c < 0 then Some (c\<lparr>last_time := ev_time e\<rparr>)
    else if gap_num c + 1 < qsize c then Some (c\<lparr>gap_num := gap_num c + 1\<rparr>)
    else if ?again then Option.bind (resize (nbuckets ?c2) (cal_clock ?c2) ?c2) (\<lambda>c. Some (c\<lparr>round_num := 0\<rparr>))
    else if 100 < round_num c + 1 then Some (?c2\<lparr>round_num := 0, head_search := 0, insert_search := 0\<rparr>)
    else Some ?c2)" (is "_ = ?rhs")
    by (auto simp: cal_adjust_def Let_def)
  have k2: "keeps ?c2" by (rule k) simp_all
  consider "?rhs = Some c" | "?rhs = Some (c\<lparr>last_time := ev_time e\<rparr>)" | "?rhs = Some (c\<lparr>gap_num := gap_num c + 1\<rparr>)"
    | "?rhs = Option.bind (resize (nbuckets ?c2) (cal_clock ?c2) ?c2) (\<lambda>c. Some (c\<lparr>round_num := 0\<rparr>))"
    | "?rhs = Some (?c2\<lparr>round_num := 0, head_search := 0, insert_search := 0\<rparr>)" | "?rhs = Some ?c2"
    by presburger
  then have "\<exists>c'. ?rhs = Some c' \<and> at_head e c' \<and> mset (cal_events c') = mset (cal_events c)"
  proof cases
    case 1
    show ?thesis by (rule settled [OF 1]) (rule k, simp_all)
  next
    case 2
    show ?thesis by (rule settled [OF 2]) (rule k, simp_all)
  next
    case 3
    show ?thesis by (rule settled [OF 3]) (rule k, simp_all)
  next
    case 4
    show ?thesis unfolding 4 by (rule again [OF k2])
  next
    case 5
    show ?thesis by (rule settled [OF 5]) (rule k, simp_all)
  next
    case 6
    show ?thesis by (rule settled [OF 6 k2])
  qed
  then show ?thesis unfolding eq .
qed

lemma card_times_rest:
  assumes "sorted_wrt ev_less (p @ e # r)" and "others = r @ p"
  shows "int (card (ev_time ` set (p @ e # r))) = int (card (ev_time ` set (p @ r)))
    + (if others = [] \<or> ev_time (hd others) \<noteq> ev_time e \<and> ev_time (last others) \<noteq> ev_time e then 1 else 0)"
proof -
  have "ev_time e \<in> ev_time ` set (p @ r) \<longleftrightarrow>
    others \<noteq> [] \<and> (ev_time (hd others) = ev_time e \<or> ev_time (last others) = ev_time e)"
  proof
    assume "others \<noteq> [] \<and> (ev_time (hd others) = ev_time e \<or> ev_time (last others) = ev_time e)"
    then show "ev_time e \<in> ev_time ` set (p @ r)"
      using assms(2) hd_in_set [of others] last_in_set [of others] by (metis Un_commute imageI set_append)
  next
    assume "ev_time e \<in> ev_time ` set (p @ r)"
    then obtain x where "x \<in> set (p @ r)" "ev_time x = ev_time e" by (metis imageE)
    then have x: "x \<in> set p \<or> x \<in> set r" "ev_time x = ev_time e" by simp_all
    then have ne: "others \<noteq> []" using assms(2) by auto
    have "ev_time (last p) = ev_time e" if "x \<in> set p"
    proof -
      have "ev_less (last p) e" using assms(1) that last_in_set [of p] by (cases "p = []") (auto simp: sorted_wrt_append)
      moreover have "ev_time x \<le> ev_time (last p)" using assms(1) that by (intro sorted_last) (auto simp: sorted_wrt_append)
      ultimately show ?thesis using x(2) by (auto simp: ev_less_def)
    qed
    moreover have "ev_time (hd r) = ev_time e" if r: "x \<in> set r"
    proof -
      obtain y ys where y: "r = y # ys" using r by (cases r) auto
      have "ev_less e y" using assms(1) y by (simp add: sorted_wrt_append)
      moreover have "ev_time y \<le> ev_time x" using assms(1) y r by (intro sorted_head [of y ys]) (auto simp: sorted_wrt_append)
      ultimately show ?thesis using x(2) y by (auto simp: ev_less_def)
    qed
    ultimately show "others \<noteq> [] \<and> (ev_time (hd others) = ev_time e \<or> ev_time (last others) = ev_time e)"
      using ne x(1) assms(2) by (cases r; cases p) auto
  qed
  moreover have "ev_time ` set (p @ e # r) = insert (ev_time e) (ev_time ` set (p @ r))" by auto
  ultimately show ?thesis by (auto simp: card_insert_if)
qed

text \<open>An event taken out of its bucket.\<close>

lemma remove_bput:
  assumes ok: "cal_ok c" and i: "0 \<le> i" "i < nbuckets c" and l: "bk_list (buckets c ! nat i) = p @ e # r"
    and d: "d = (if r @ p = [] \<or> ev_time (hd (r @ p)) \<noteq> ev_time e \<and> ev_time (last (r @ p)) \<noteq> ev_time e then 1 else 0)"
    and c': "c' = (bput i \<lparr> bk_list = p @ r, bk_count = bk_count (buckets c ! nat i) - d \<rparr> c)
      \<lparr>stat_qsize := stat_qsize c - d, qsize := qsize c - 1\<rparr>"
  shows "cal_ok c' \<and> mset (cal_events c) = add_mset e (mset (cal_events c')) \<and> cal_clock c' = cal_clock c
    \<and> bk_count (buckets c ! nat i) - d = int (card (ev_time ` set (p @ r)))"
proof -
  have g: "cal_geom c" using ok by (simp add: cal_ok_def)
  let ?b = "\<lparr> bk_list = p @ r, bk_count = bk_count (buckets c ! nat i) - d \<rparr>"
  have b: "bucket_ok c i (buckets c ! nat i)" using g i by (rule geom_bucket)
  then have so: "sorted_wrt ev_less (p @ e # r)" using l by (simp add: bucket_ok_def)
  have cnt: "bk_count (buckets c ! nat i) - d = int (card (ev_time ` set (p @ r)))"
    using card_times_rest [OF so refl] b l d by (simp add: bucket_ok_def)
  have "bucket_ok c i ?b" using b l cnt so by (auto simp: bucket_ok_def sorted_wrt_append)
  then have g': "cal_geom c'" unfolding c' by (rule geom_bput [OF g i]) (simp_all add: l)
  have ev: "mset (cal_events c) = add_mset e (mset (cal_events c'))"
    using events_bput [OF g i, of ?b] l by (simp add: c' cal_events_def)
  then have "set (cal_events c') \<subseteq> set (cal_events c)" using mset_eq_setD [of "cal_events c" "e # cal_events c'"] by auto
  moreover have "CALENDAR_HASH t c' = CALENDAR_HASH t c" for t unfolding c' by (rule hash_cong) (simp_all add: bput_def)
  moreover have "cal_clock c' = cal_clock c" "lastbucket c' = lastbucket c" by (simp_all add: c' bput_def)
  ultimately show ?thesis using ok g' ev cnt by (auto simp: cal_ok_def)
qed

lemma cal_unlink_head_ok:
  assumes h: "at_head e c"
  shows "\<exists>c'. cal_unlink_head e c = Some c' \<and> cal_ok c' \<and> mset (cal_events c) = add_mset e (mset (cal_events c'))"
proof -
  have ok: "cal_ok c" using h by (simp add: at_head_def)
  from at_head_bucket(1) [OF h] obtain es where es: "bk_list (buckets c ! nat (lastbucket c)) = e # es" by blast
  note ix = at_head_bucket(2,3) [OF h]
  have g: "cal_geom c" using ok by (simp add: cal_ok_def)
  have so: "sorted_wrt ev_less (e # es)" using geom_bucket [OF g ix] es by (simp add: bucket_ok_def)
  have "ev_time (hd es) = ev_time e" if ne: "es \<noteq> []" "ev_time (last es) = ev_time e"
  proof -
    have "ev_less e (hd es)" "ev_time (hd es) \<le> ev_time (last es)"
      using so ne(1) sorted_last [of es "hd es"] by (simp_all add: hd_in_set)
    with ne(2) show ?thesis by (auto simp: ev_less_def)
  qed
  moreover define d :: int where "d = (if es = [] \<or> ev_time (hd es) \<noteq> ev_time e then 1 else 0)"
  ultimately have d: "d = (if es @ [] = [] \<or> ev_time (hd (es @ [])) \<noteq> ev_time e \<and> ev_time (last (es @ [])) \<noteq> ev_time e then 1 else 0)"
    by auto
  from es have l: "bk_list (buckets c ! nat (lastbucket c)) = [] @ e # es" by simp
  have "cal_unlink_head e c = Some ((bput (lastbucket c)
      \<lparr> bk_list = [] @ es, bk_count = bk_count (buckets c ! nat (lastbucket c)) - d \<rparr> c)
      \<lparr>stat_qsize := stat_qsize c - d, qsize := qsize c - 1\<rparr>)"
    using es bget_in [OF g ix] by (simp add: cal_unlink_head_def Let_def flip: d_def)
  then show ?thesis using remove_bput [OF ok ix l d refl] by blast
qed

lemma cal_deque_ok:
  assumes i: "cal_inv n c"
  shows "\<exists>c'. cal_deque c = Some (fst (list_deque (cal_abs c)), c') \<and> cal_inv n c'
    \<and> cal_abs c' = snd (list_deque (cal_abs c))"
proof -
  have ok: "cal_ok c" and io: "in_order n (cal_abs c)" using i by (auto simp: cal_inv_def)
  show ?thesis
  proof (cases "cal_events c = []")
    case True
    then have "cal_abs c = []" by (simp add: cal_abs_def)
    then show ?thesis using cal_head_ok [OF ok] True i by (simp add: cal_deque_def)
  next
    case False
    with cal_head_ok [OF ok] obtain e c1 where
      c1: "cal_head c = Some (Some e, c1)" "at_head e c1" "cal_events c1 = cal_events c" by auto
    from cal_adjust_ok [OF c1(2)] obtain c2 where
      c2: "cal_adjust e c1 = Some c2" "at_head e c2" "mset (cal_events c2) = mset (cal_events c)" using c1(3) by auto
    from cal_unlink_head_ok [OF c2(2)] obtain c3 where
      c3: "cal_unlink_head e c2 = Some c3" "cal_ok c3" "mset (cal_events c2) = add_mset e (mset (cal_events c3))" by blast
    have "0 < nbuckets c3 div 2" using nbuckets_pos [OF c3(2)] by simp
    from cal_resize [OF c3(2) this] c3(2) have "\<exists>c4. (if stat_qsize c3 < bot_threshold c3
        then resize (nbuckets c3 div 2) (cal_clock c3) c3 else Some c3) = Some c4
        \<and> cal_ok c4 \<and> mset (cal_events c4) = mset (cal_events c3)" by auto
    then obtain c4 where
      c4: "(if stat_qsize c3 < bot_threshold c3 then resize (nbuckets c3 div 2) (cal_clock c3) c3 else Some c3) = Some c4"
        "cal_ok c4" "mset (cal_events c4) = mset (cal_events c3)" by blast
    have dq: "cal_deque c = Some (Some e, c4)" using c1(1) c2(1) c3(1) c4(1) by (simp add: cal_deque_def)
    have ms: "mset (cal_events c) = add_mset e (mset (cal_events c4))" using c2(3) c3(3) c4(3) by simp
    have "\<exists>es. cal_abs c = e # es"
    proof (cases "cal_abs c")
      case Nil
      then have "set (cal_events c) = {}" by (metis set_cal_abs empty_set)
      then show ?thesis using False by simp
    next
      case (Cons y ys)
      have "e \<in> set (y # ys)" "y \<in> set (cal_events c1)" using c1(2,3) Cons set_cal_abs [of c] by (auto simp: at_head_def)
      then have "y = e \<or> ev_less y e" "y = e \<or> ev_less e y" using io Cons c1(2) by (auto simp: in_order_def at_head_def)
      then have "y = e" by (auto simp: ev_less_def)
      with Cons show ?thesis by simp
    qed
    then obtain es where es: "cal_abs c = e # es" by blast
    have io': "in_order n es" using io es in_order_tl by simp
    have "mset (cal_abs c) = add_mset e (mset es)" by (simp add: es)
    then have "mset es = mset (cal_events c4)" using ms by simp
    then have "cal_abs c4 = es" using io' by (intro abs_unique) (simp_all add: in_order_def)
    with dq es io' c4(2) show ?thesis by (simp add: cal_inv_def)
  qed
qed

section \<open>Cancellation and lookup\<close>

lemma find_event_ok:
  assumes "distinct (map ev_addr l)" and "e \<in> set l"
  shows "\<exists>p r. find_event (ev_addr e) l = Some (p, r) \<and> l = p @ e # r"
  using assms
proof (induction l)
  case (Cons x xs)
  show ?case
  proof (cases "x = e")
    case False
    then have "e \<in> set xs" "ev_addr x \<noteq> ev_addr e" using Cons.prems by auto
    with Cons obtain p r where "find_event (ev_addr e) xs = Some (p, r)" "xs = p @ e # r" by auto
    with \<open>ev_addr x \<noteq> ev_addr e\<close> show ?thesis by (auto intro!: exI [of _ "x # p"])
  qed auto
qed simp

lemma distinct_part: "distinct (map f (concat xss)) \<Longrightarrow> xs \<in> set xss \<Longrightarrow> distinct (map f xs)"
  by (induction xss) auto

lemma stat_nonneg:
  assumes "cal_geom c"
  shows "0 \<le> stat_qsize c"
proof -
  have "0 \<le> bk_count b" if b: "b \<in> set (buckets c)" for b
  proof -
    obtain i where "i < length (buckets c)" "b = buckets c ! i" using b by (auto simp: in_set_conv_nth)
    moreover from this(1) have "bucket_ok c (int i) (buckets c ! i)" using assms by (simp add: cal_geom_def)
    ultimately show ?thesis unfolding bucket_ok_def by simp
  qed
  with assms show ?thesis by (auto simp: cal_geom_def intro!: sum_list_nonneg)
qed

lemma distinct_events:
  assumes "in_order n (cal_abs c)"
  shows "distinct (map ev_addr (cal_events c))" and "distinct (map ev_uid (cal_events c))"
  using assms mset_eq_imp_distinct_iff [of "map ev_addr (cal_abs c)" "map ev_addr (cal_events c)"]
    mset_eq_imp_distinct_iff [of "map ev_uid (cal_abs c)" "map ev_uid (cal_events c)"]
  by (simp_all add: in_order_def)

lemma distinct_addr_bucket:
  assumes "in_order n (cal_abs c)" and "i < length (buckets c)"
  shows "distinct (map ev_addr (bk_list (buckets c ! i)))"
  using distinct_events(1) [OF assms(1)] assms(2) distinct_part [of ev_addr "map bk_list (buckets c)"]
  by (simp add: cal_events_def)

lemma cal_cancel_ok:
  assumes i: "cal_inv n c" and e: "e \<in> set (cal_abs c)"
  shows "\<exists>c'. cal_cancel e c = Some (cancelled e, c') \<and> cal_inv n c' \<and> cal_abs c' = remove1 e (cal_abs c)"
proof -
  have ok: "cal_ok c" and io: "in_order n (cal_abs c)" and g: "cal_geom c" using i by (auto simp: cal_inv_def cal_ok_def)
  define k where "k = CALENDAR_HASH (ev_time e) c"
  have ee: "e \<in> set (cal_events c)" using e by simp
  have ix: "0 \<le> k" "k < nbuckets c" using geom_hash [OF g event_bucket(2) [OF g ee]] by (simp_all add: k_def)
  have "e \<in> set (bk_list (buckets c ! nat k))" using event_bucket(1) [OF g ee] by (simp add: k_def)
  from find_event_ok [OF distinct_addr_bucket [OF io bucket_index [OF g ix]] this] obtain p r where
    f: "find_event (ev_addr e) (bk_list (buckets c ! nat k)) = Some (p, r)" "bk_list (buckets c ! nat k) = p @ e # r" by blast
  define d where "d = (if r @ p = [] \<or> ev_time (hd (r @ p)) \<noteq> ev_time e \<and> ev_time (last (r @ p)) \<noteq> ev_time e then 1 else 0 :: int)"
  define c' where "c' = (bput k \<lparr> bk_list = p @ r, bk_count = bk_count (buckets c ! nat k) - d \<rparr> c)
      \<lparr>stat_qsize := stat_qsize c - d, qsize := qsize c - 1\<rparr>"
  note rm = remove_bput [OF ok ix f(2) d_def c'_def]
  have st: "0 \<le> stat_qsize c - d" using rm stat_nonneg [of c'] by (simp add: cal_ok_def) (simp add: c'_def)
  have "bk_count (buckets c ! nat k) - d = int (card (ev_time ` set (p @ r)))" using rm by blast
  then have ct: "0 \<le> bk_count (buckets c ! nat k) - d" "bk_count (buckets c ! nat k) - d = 0 \<longrightarrow> p @ r = []" by auto
  have u: "\<not> ev_uid e \<le> 0" using io e by (auto simp: in_order_def)
  have "\<not> (d = 1 \<and> (stat_qsize c - d < 0 \<or> bk_count (buckets c ! nat k) - d < 0)
      \<or> bk_count (buckets c ! nat k) - d = 0 \<and> p @ r \<noteq> [])" using st ct by auto
  then have cc: "cal_cancel e c = Some (cancelled e, c')"
    unfolding cal_cancel_def Let_def k_def [symmetric] if_not_P [OF u] bget_in [OF g ix] bind.bind_lunit f(1) prod.case
      d_def [symmetric] bucket.select_convs c'_def [symmetric] by (rule if_not_P)
  have io': "in_order n (remove1 e (cal_abs c))" using io by (rule in_order_remove1)
  have "mset (remove1 e (cal_abs c)) = mset (cal_events c')" using rm by simp
  then have "cal_abs c' = remove1 e (cal_abs c)" using io' by (intro abs_unique) (simp_all add: in_order_def)
  with cc io' rm show ?thesis by (simp add: cal_inv_def)
qed

lemma cal_lookup_ok:
  assumes "cal_inv n c"
  shows "cal_lookup u c = list_lookup u (cal_abs c)"
proof -
  have io: "in_order n (cal_abs c)" using assms by (simp add: cal_inv_def)
  then show ?thesis
    using distinct_events(2) [OF io] list_lookup_set [of "cal_events c" "cal_abs c" u]
    by (simp add: cal_lookup_def in_order_def flip: cal_events_def)
qed

interpretation calendar_queue: event_queue "new_calendar interval minw c0" cal_insert cal_deque cal_cancel cal_lookup
  cal_abs cal_inv "\<lambda>e. 0 \<le> ev_time e" for interval minw c0
proof (unfold_locales, goal_cases)
  case 1
  note r = reinit_ok [of 4 1, simplified]
  have "cal_ok (new_calendar interval minw c0) \<and> cal_events (new_calendar interval minw c0) = []"
    by (simp add: new_calendar_def Let_def cal_ok_def r)
  then show ?case by (simp add: cal_inv_def cal_abs_def in_order_def)
next
  case (2 n q)
  then show ?case by (simp add: cal_inv_def)
next
  case (3 n q m)
  then show ?case using in_order_mono by (auto simp: cal_inv_def)
next
  case (4 n q e)
  then show ?case by (rule cal_insert_ok)
next
  case (5 n q)
  then show ?case by (rule cal_deque_ok)
next
  case (6 n q e)
  then show ?case by (rule cal_cancel_ok)
next
  case (7 e q)
  then show ?case by (simp add: cal_cancel_def)
next
  case (8 n q u)
  then show ?case by (rule cal_lookup_ok)
qed


text \<open>
  C4: The calendar queue stays well formed, and its operations are those of a list in order. In a queue whose events
  are in their buckets, with the counters that the code keeps, an insertion, a removal of the head and a
  cancellation all return: no assertion fails, no bucket outside the array is read and the search for the head
  ends, also when the buckets are resized. The result is well formed again, and its events are those that the
  linked list would hold, in the order in which it would dispatch them.
\<close>

theorem calendar_keeps_order:
  assumes "cal_inv n c"
  shows "(fresh_event n e (cal_abs c) \<and> 0 \<le> ev_time e \<longrightarrow>
      (\<exists>c'. cal_insert e c = Some c' \<and> cal_inv (ev_uid e + 1) c' \<and> cal_abs c' = list_insert e (cal_abs c)))
    \<and> (\<exists>c'. cal_deque c = Some (fst (list_deque (cal_abs c)), c') \<and> cal_inv n c'
        \<and> cal_abs c' = snd (list_deque (cal_abs c)))
    \<and> (e \<in> set (cal_abs c) \<longrightarrow>
      (\<exists>c'. cal_cancel e c = Some (cancelled e, c') \<and> cal_inv n c' \<and> cal_abs c' = remove1 e (cal_abs c)))"
  using calendar_queue.insert_law [OF assms] calendar_queue.deque_law [OF assms] calendar_queue.cancel_law [OF assms]
  by blast

definition sample_cal :: "unit calendar" where
  "sample_cal = new_calendar 10 0 \<lparr> min_bin_width = 0, adjust_interval = 0, time_to_newwidth = 0, head_search = 0,
     insert_search = 0, round_num = 0, gap_num = 0, last_time = 0, avg_gap = 0, width = 0, diff0 = 0, diff1 = 0,
     diff2 = 0, stat_qsize = 0, nbuckets = 0, lastbucket = 0, top_threshold = 0, bot_threshold = 0, buckets = [],
     qsize = 0, cal_clock = 0 \<rparr>"

theorem calendar_keeps_order_witness:
  "\<exists>c'. cal_insert \<lparr> ev_addr = 3, ev_time = 5 / 2, ev_uid = 1, ev_handler = () \<rparr> sample_cal = Some c' \<and> cal_inv 2 c'
    \<and> cal_abs c' = [\<lparr> ev_addr = 3, ev_time = 5 / 2, ev_uid = 1, ev_handler = () \<rparr>]"
proof -
  have e: "cal_inv 1 sample_cal" "cal_abs sample_cal = []"
    using calendar_queue.empty_law unfolding sample_cal_def by blast+
  show ?thesis
    using calendar_keeps_order [OF e(1), of "\<lparr> ev_addr = 3, ev_time = 5 / 2, ev_uid = 1, ev_handler = () \<rparr>"] e(2)
    by (simp add: fresh_event_def)
qed

end
