(* ===== verification/Simulator.thy ===== *)
theory Simulator
  imports Splay_Queue Heap_Queue Calendar_Refinement
begin

text \<open>
  The class \<open>Scheduler\<close> of src/ns-2.34/common/scheduler.cc: \<open>schedule\<close>, \<open>dispatch\<close> and \<open>run\<close> over the
  virtual functions \<open>insert\<close>, \<open>deque\<close> and \<open>cancel\<close>, which the record \<open>queue_ops\<close> holds. The state is the
  clock, the flag of \<open>halt\<close>, the counter of event numbers, the queue, the event objects by address and the
  state of the rest of the simulation. The handlers are the rest of the program: a parameter that reads the
  state and says which calls of the scheduler it makes, in order. The sum of times is a parameter too, so that
  nothing depends on how it rounds. A call of abort is an error value, with the state at that point.

  The lemmas say that a simulation runs on every queue that keeps the contract \<open>event_queue\<close> as it does on
  the linked list, and how the linked list runs.
\<close>

section \<open>State and operations\<close>

record ('t, 'h, 'q) queue_ops =
  so_insert :: "('t, 'h) event \<Rightarrow> 'q \<Rightarrow> 'q option"
  so_deque :: "'q \<Rightarrow> (('t, 'h) event option \<times> 'q) option"
  so_cancel :: "('t, 'h) event \<Rightarrow> 'q \<Rightarrow> (('t, 'h) event \<times> 'q) option"

record ('t, 'h, 'q, 's) sim =
  sm_clock :: 't
  sm_halted :: bool
  sm_uid :: int
  sm_queue :: 'q
  sm_objs :: "nat \<Rightarrow> ('t, 'h) event"
  sm_app :: 's

datatype sched_error = NullHandler | EventQueued | UidsExhausted | QueueAborts | HandlerAborts

datatype ('t, 'h) act = Schedule "'h option" nat 't | Cancel nat | Halt

type_synonym ('t, 'h, 'q, 's, 'a) outcome = "(sched_error \<times> ('t, 'h, 'q, 's) sim) + 'a"

type_synonym ('t, 'h, 's) handlers =
  "'h \<Rightarrow> nat \<Rightarrow> 't \<Rightarrow> (nat \<Rightarrow> ('t, 'h) event) \<Rightarrow> 's \<Rightarrow> (('t, 'h) act list \<times> 's) option"

text \<open>\<open>uid_++\<close> on 64 bits.\<close>

definition next_uid :: "int \<Rightarrow> int" where
  "next_uid u = (if u = 2 ^ 63 - 1 then - (2 ^ 63) else u + 1)"

definition schedule ::
  "('t, 'h, 'q) queue_ops \<Rightarrow> ('t \<Rightarrow> 't \<Rightarrow> 't) \<Rightarrow> 'h option \<Rightarrow> nat \<Rightarrow> 't \<Rightarrow> ('t, 'h, 'q, 's) sim
    \<Rightarrow> ('t, 'h, 'q, 's, ('t, 'h, 'q, 's) sim) outcome" where
  "schedule ops add h a delay s =
    (case h of
       None \<Rightarrow> Inl (NullHandler, s)
     | Some f \<Rightarrow>
         if 0 < ev_uid (sm_objs s a) then Inl (EventQueued, s)
         else if sm_uid s < 0 then Inl (UidsExhausted, s)
         else
           (let e = (sm_objs s a)\<lparr>ev_uid := sm_uid s, ev_handler := f, ev_time := add (sm_clock s) delay\<rparr>;
                s = s\<lparr>sm_uid := next_uid (sm_uid s), sm_objs := (sm_objs s)(a := e)\<rparr>
            in case so_insert ops e (sm_queue s) of
                 None \<Rightarrow> Inl (QueueAborts, s)
               | Some q \<Rightarrow> Inr (s\<lparr>sm_queue := q\<rparr>)))"

definition sched_cancel ::
  "('t, 'h, 'q) queue_ops \<Rightarrow> nat \<Rightarrow> ('t, 'h, 'q, 's) sim \<Rightarrow> ('t, 'h, 'q, 's, ('t, 'h, 'q, 's) sim) outcome" where
  "sched_cancel ops a s =
    (case so_cancel ops (sm_objs s a) (sm_queue s) of
       None \<Rightarrow> Inl (QueueAborts, s)
     | Some (e, q) \<Rightarrow> Inr (s\<lparr>sm_queue := q, sm_objs := (sm_objs s)(a := e)\<rparr>))"

fun do_act ::
  "('t, 'h, 'q) queue_ops \<Rightarrow> ('t \<Rightarrow> 't \<Rightarrow> 't) \<Rightarrow> ('t, 'h) act \<Rightarrow> ('t, 'h, 'q, 's) sim
    \<Rightarrow> ('t, 'h, 'q, 's, ('t, 'h, 'q, 's) sim) outcome" where
  "do_act ops add (Schedule h a delay) s = schedule ops add h a delay s"
| "do_act ops add (Cancel a) s = sched_cancel ops a s"
| "do_act ops add Halt s = Inr (s\<lparr>sm_halted := True\<rparr>)"

fun perform ::
  "('t, 'h, 'q) queue_ops \<Rightarrow> ('t \<Rightarrow> 't \<Rightarrow> 't) \<Rightarrow> ('t, 'h) act list \<Rightarrow> ('t, 'h, 'q, 's) sim
    \<Rightarrow> ('t, 'h, 'q, 's, ('t, 'h, 'q, 's) sim) outcome" where
  "perform ops add [] s = Inr s"
| "perform ops add (act # acts) s =
    (case do_act ops add act s of Inl err \<Rightarrow> Inl err | Inr s \<Rightarrow> perform ops add acts s)"

definition dispatch ::
  "('t, 'h, 'q) queue_ops \<Rightarrow> ('t \<Rightarrow> 't \<Rightarrow> 't) \<Rightarrow> ('t, 'h, 's) handlers \<Rightarrow> ('t, 'h) event \<Rightarrow> ('t, 'h, 'q, 's) sim
    \<Rightarrow> ('t, 'h, 'q, 's, ('t, 'h, 'q, 's) sim) outcome" where
  "dispatch ops add handle e s =
    (let s = s\<lparr>sm_clock := ev_time e, sm_objs := (sm_objs s)(ev_addr e := cancelled e)\<rparr>
     in case handle (ev_handler e) (ev_addr e) (sm_clock s) (sm_objs s) (sm_app s) of
          None \<Rightarrow> Inl (HandlerAborts, s)
        | Some (acts, app) \<Rightarrow> perform ops add acts (s\<lparr>sm_app := app\<rparr>))"

text \<open>
  One pass of the loop of \<open>run\<close>: the event dispatched, if the loop goes on. \<open>run_for k\<close> makes at most \<open>k\<close>
  passes, and collects the events; \<open>run\<close> is the loop itself, None if it never ends.
\<close>

definition run_pass ::
  "('t, 'h, 'q) queue_ops \<Rightarrow> ('t \<Rightarrow> 't \<Rightarrow> 't) \<Rightarrow> ('t, 'h, 's) handlers \<Rightarrow> ('t, 'h, 'q, 's) sim
    \<Rightarrow> ('t, 'h, 'q, 's, ('t, 'h) event option \<times> ('t, 'h, 'q, 's) sim) outcome" where
  "run_pass ops add handle s =
    (if sm_halted s then Inr (None, s)
     else case so_deque ops (sm_queue s) of
            None \<Rightarrow> Inl (QueueAborts, s)
          | Some (None, q) \<Rightarrow> Inr (None, s\<lparr>sm_queue := q\<rparr>)
          | Some (Some e, q) \<Rightarrow>
              (case dispatch ops add handle e (s\<lparr>sm_queue := q\<rparr>) of
                 Inl err \<Rightarrow> Inl err
               | Inr s \<Rightarrow> Inr (Some e, s)))"

fun run_for ::
  "('t, 'h, 'q) queue_ops \<Rightarrow> ('t \<Rightarrow> 't \<Rightarrow> 't) \<Rightarrow> ('t, 'h, 's) handlers \<Rightarrow> nat \<Rightarrow> ('t, 'h, 'q, 's) sim
    \<Rightarrow> ('t, 'h, 'q, 's, ('t, 'h) event list \<times> bool \<times> ('t, 'h, 'q, 's) sim) outcome" where
  "run_for ops add handle 0 s = Inr ([], False, s)"
| "run_for ops add handle (Suc k) s =
    (case run_pass ops add handle s of
       Inl err \<Rightarrow> Inl err
     | Inr (None, s) \<Rightarrow> Inr ([], True, s)
     | Inr (Some e, s) \<Rightarrow>
         (case run_for ops add handle k s of
            Inl err \<Rightarrow> Inl err
          | Inr (es, fin, s) \<Rightarrow> Inr (e # es, fin, s)))"

partial_function (option) run ::
  "('t, 'h, 'q) queue_ops \<Rightarrow> ('t \<Rightarrow> 't \<Rightarrow> 't) \<Rightarrow> ('t, 'h, 's) handlers \<Rightarrow> ('t, 'h, 'q, 's) sim
    \<Rightarrow> ('t, 'h, 'q, 's, ('t, 'h, 'q, 's) sim) outcome option" where
  "run ops add handle s =
    (case run_pass ops add handle s of
       Inl err \<Rightarrow> Some (Inl err)
     | Inr (None, s) \<Rightarrow> Some (Inr s)
     | Inr (Some e, s) \<Rightarrow> run ops add handle s)"

text \<open>
  A configuration script schedules its events and then gives the command \<open>run\<close>, which calls \<open>reset\<close> first.
\<close>

definition sched_reset :: "'t \<Rightarrow> ('t, 'h, 'q, 's) sim \<Rightarrow> ('t, 'h, 'q, 's) sim" where
  "sched_reset t0 s = s\<lparr>sm_clock := t0\<rparr>"

definition simulate ::
  "('t, 'h, 'q) queue_ops \<Rightarrow> 't \<Rightarrow> ('t \<Rightarrow> 't \<Rightarrow> 't) \<Rightarrow> ('t, 'h, 's) handlers \<Rightarrow> ('t, 'h) act list \<Rightarrow> nat
    \<Rightarrow> ('t, 'h, 'q, 's) sim \<Rightarrow> ('t, 'h, 'q, 's, ('t, 'h) event list \<times> bool \<times> ('t, 'h, 'q, 's) sim) outcome" where
  "simulate ops t0 add handle script k s =
    (case perform ops add script s of
       Inl err \<Rightarrow> Inl err
     | Inr s \<Rightarrow> run_for ops add handle k (sched_reset t0 s))"

text \<open>A new scheduler: the events are those of the constructor \<open>Event()\<close>; \<open>t0\<close> is 0, for \<open>SCHED_START\<close>.\<close>

definition new_sim :: "'t \<Rightarrow> 'q \<Rightarrow> (nat \<Rightarrow> 'h) \<Rightarrow> 's \<Rightarrow> ('t, 'h, 'q, 's) sim" where
  "new_sim t0 q h app = \<lparr> sm_clock = t0, sm_halted = False, sm_uid = 1, sm_queue = q,
     sm_objs = (\<lambda>a. \<lparr> ev_addr = a, ev_time = t0, ev_uid = 0, ev_handler = h a \<rparr>), sm_app = app \<rparr>"

definition list_ops :: "('t::linorder, 'h, ('t, 'h) event list) queue_ops" where
  "list_ops = \<lparr> so_insert = \<lambda>e q. Some (list_insert e q), so_deque = \<lambda>q. Some (list_deque q),
     so_cancel = list_cancel \<rparr>"

definition splay_ops :: "('t::linorder, 'h, ('t, 'h) splay_queue) queue_ops" where
  "splay_ops = \<lparr> so_insert = \<lambda>e q. Some (splay_insert e q), so_deque = \<lambda>q. Some (splay_deque q),
     so_cancel = splay_cancel \<rparr>"

definition heap_ops :: "('t::{linorder, zero}, 'h, ('t, ('t, 'h) event) heap) queue_ops" where
  "heap_ops = \<lparr> so_insert = hs_insert, so_deque = heap_extract_min, so_cancel = hs_cancel \<rparr>"

definition calendar_ops :: "(real, 'h, 'h calendar) queue_ops" where
  "calendar_ops = \<lparr> so_insert = cal_insert, so_deque = cal_deque, so_cancel = cal_cancel \<rparr>"

lemma run_for_run:
  "run_for ops add handle k s = Inr (es, True, s') \<Longrightarrow> run ops add handle s = Some (Inr s')"
proof (induction k arbitrary: s es)
  case (Suc k)
  then show ?case
    by (subst run.simps) (auto split: sum.splits option.splits)
qed simp

section \<open>The same run on the linked list\<close>

definition view :: "('q \<Rightarrow> 'r) \<Rightarrow> ('t, 'h, 'q, 's) sim \<Rightarrow> ('t, 'h, 'r, 's) sim" where
  "view f s = \<lparr> sm_clock = sm_clock s, sm_halted = sm_halted s, sm_uid = sm_uid s, sm_queue = f (sm_queue s),
     sm_objs = sm_objs s, sm_app = sm_app s \<rparr>"

lemma view_simps [simp]:
  "sm_clock (view f s) = sm_clock s" "sm_halted (view f s) = sm_halted s" "sm_uid (view f s) = sm_uid s"
  "sm_queue (view f s) = f (sm_queue s)" "sm_objs (view f s) = sm_objs s" "sm_app (view f s) = sm_app s"
  "view f (s\<lparr>sm_clock := c\<rparr>) = (view f s)\<lparr>sm_clock := c\<rparr>" "view f (s\<lparr>sm_halted := b\<rparr>) = (view f s)\<lparr>sm_halted := b\<rparr>"
  "view f (s\<lparr>sm_uid := u\<rparr>) = (view f s)\<lparr>sm_uid := u\<rparr>" "view f (s\<lparr>sm_queue := q\<rparr>) = (view f s)\<lparr>sm_queue := f q\<rparr>"
  "view f (s\<lparr>sm_objs := m\<rparr>) = (view f s)\<lparr>sm_objs := m\<rparr>" "view f (s\<lparr>sm_app := p\<rparr>) = (view f s)\<lparr>sm_app := p\<rparr>"
  by (simp_all add: view_def)

text \<open>The events with a positive number are those in the queue.\<close>

definition queued :: "(nat \<Rightarrow> ('t, 'h) event) \<Rightarrow> ('t, 'h) event set" where
  "queued objs = {e. 0 < ev_uid e \<and> objs (ev_addr e) = e}"

lemma queued_put:
  "ev_addr e = a \<Longrightarrow> ev_uid (objs a) \<le> 0 \<Longrightarrow> 0 < ev_uid e \<Longrightarrow> queued (objs(a := e)) = insert e (queued objs)"
  by (auto simp: queued_def split: if_splits)

lemma queued_drop:
  "objs (ev_addr e) = e \<Longrightarrow> ev_uid e' \<le> 0 \<Longrightarrow> queued (objs(ev_addr e := e')) = queued objs - {e}"
  by (auto simp: queued_def split: if_splits)

lemma queued_new: "queued (\<lambda>a. \<lparr> ev_addr = a, ev_time = t, ev_uid = 0, ev_handler = h a \<rparr>) = {}"
  unfolding queued_def by (auto dest: arg_cong [where f = ev_uid])

definition sim_ok :: "('t::linorder, 'h, ('t, 'h) event list, 's) sim \<Rightarrow> bool" where
  "sim_ok s \<longleftrightarrow> in_order (sm_uid s) (sm_queue s) \<and> (\<forall>a. ev_addr (sm_objs s a) = a) \<and> 0 < sm_uid s
     \<and> set (sm_queue s) = queued (sm_objs s)"

fun act_ok :: "('t \<Rightarrow> bool) \<Rightarrow> ('t, 'h) act \<Rightarrow> bool" where
  "act_ok D (Schedule h a delay) \<longleftrightarrow> D delay"
| "act_ok D act \<longleftrightarrow> True"

definition handlers_ok :: "('t \<Rightarrow> bool) \<Rightarrow> nat \<Rightarrow> ('t, 'h, 's) handlers \<Rightarrow> bool" where
  "handlers_ok D m handle \<longleftrightarrow> (\<forall>h a t objs app acts app'. handle h a t objs app = Some (acts, app')
     \<longrightarrow> length acts \<le> m \<and> (\<forall>act \<in> set acts. act_ok D act))"

lemma handlers_okD:
  "handlers_ok D m handle \<Longrightarrow> handle h a t objs app = Some (acts, app')
    \<Longrightarrow> length acts \<le> m \<and> (\<forall>act \<in> set acts. act_ok D act)"
  unfolding handlers_ok_def by blast

definition good ::
  "('q \<Rightarrow> ('t::linorder, 'h) event list) \<Rightarrow> (int \<Rightarrow> 'q \<Rightarrow> bool) \<Rightarrow> ('t \<Rightarrow> bool) \<Rightarrow> ('t, 'h, 'q, 's) sim \<Rightarrow> bool" where
  "good f I T s \<longleftrightarrow> sim_ok (view f s) \<and> I (sm_uid s) (sm_queue s)
     \<and> (\<forall>t \<in> insert (sm_clock s) (ev_time ` set (f (sm_queue s))). T t)"

definition tracks ::
  "('q \<Rightarrow> ('t, 'h) event list) \<Rightarrow> (('t, 'h, 'q, 's) sim \<Rightarrow> bool) \<Rightarrow> ('t, 'h, 'q, 's, ('t, 'h, 'q, 's) sim) outcome
    \<Rightarrow> ('t, 'h, ('t, 'h) event list, 's, ('t, 'h, ('t, 'h) event list, 's) sim) outcome \<Rightarrow> bool" where
  "tracks f P r r' \<longleftrightarrow>
    (case r of
       Inl (err, s) \<Rightarrow> err \<noteq> QueueAborts \<and> r' = Inl (err, view f s)
     | Inr s \<Rightarrow> r' = Inr (view f s) \<and> P s)"

lemma in_order_addr: "in_order n q \<Longrightarrow> e \<in> set q \<Longrightarrow> e' \<in> set q \<Longrightarrow> ev_addr e = ev_addr e' \<Longrightarrow> e = e'"
  by (auto simp: in_order_def distinct_map dest: inj_onD)

lemma in_order_set_remove1: "in_order n q \<Longrightarrow> set (remove1 e q) = set q - {e}"
  by (auto simp: in_order_def distinct_map intro: set_remove1_eq)

lemma sim_ok_scheduled:
  assumes "sim_ok s" and "ev_uid (sm_objs s a) \<le> 0" and "e = (sm_objs s a)\<lparr>ev_uid := sm_uid s, ev_handler := h, ev_time := t\<rparr>"
    and "in_order (sm_uid s + 1) q" and "set q = insert e (set (sm_queue s))"
  shows "sim_ok (s\<lparr>sm_uid := sm_uid s + 1, sm_objs := (sm_objs s)(a := e), sm_queue := q\<rparr>)"
  using assms queued_put [of e a "sm_objs s"] by (simp add: sim_ok_def)

lemma fresh_scheduled:
  assumes "sim_ok s" and "ev_uid (sm_objs s a) \<le> 0"
  shows "fresh_event (sm_uid s) ((sm_objs s a)\<lparr>ev_uid := sm_uid s, ev_handler := h, ev_time := t\<rparr>) (sm_queue s)"
  using assms by (auto simp: sim_ok_def fresh_event_def queued_def)

text \<open>An event that leaves the queue gets a number below zero.\<close>

lemma sim_ok_removed:
  assumes "sim_ok s" and "e \<in> set (sm_queue s)" and "in_order (sm_uid s) q" and "set q = set (sm_queue s) - {e}"
  shows "sim_ok (s\<lparr>sm_queue := q, sm_objs := (sm_objs s)(ev_addr e := cancelled e)\<rparr>)"
proof -
  have "0 < ev_uid e" "sm_objs s (ev_addr e) = e" using assms(1,2) by (auto simp: sim_ok_def queued_def)
  then have "queued ((sm_objs s)(ev_addr e := cancelled e)) = queued (sm_objs s) - {e}"
    by (intro queued_drop) (simp_all add: cancelled_def)
  with assms show ?thesis by (simp add: sim_ok_def cancelled_def)
qed

context event_queue
begin

lemma schedule_tracks:
  assumes g: "good qabs qinv T s" and "D delay" and uid: "sm_uid s < L" "L \<le> 2 ^ 63 - 1"
    and closed: "\<forall>t d. T t \<longrightarrow> D d \<longrightarrow> T (add t d)" and fits: "\<forall>e. ev_uid e < L \<longrightarrow> T (ev_time e) \<longrightarrow> qfits e"
  shows "tracks qabs (\<lambda>s'. good qabs qinv T s' \<and> sm_uid s' \<le> sm_uid s + 1)
    (schedule \<lparr>so_insert = qinsert, so_deque = qdeque, so_cancel = qcancel\<rparr> add h a delay s)
    (schedule list_ops add h a delay (view qabs s))"
proof (cases "h = None \<or> 0 < ev_uid (sm_objs s a)")
  case True
  then show ?thesis by (auto simp: tracks_def schedule_def split: option.split)
next
  case False
  then obtain f where h: "h = Some f" and u: "ev_uid (sm_objs s a) \<le> 0" by auto
  define e where "e = (sm_objs s a)\<lparr>ev_uid := sm_uid s, ev_handler := f, ev_time := add (sm_clock s) delay\<rparr>"
  have ok: "sim_ok (view qabs s)" "qinv (sm_uid s) (sm_queue s)" "\<forall>t \<in> insert (sm_clock s) (ev_time ` set (qabs (sm_queue s))). T t"
    using g by (auto simp: good_def)
  have nu: "next_uid (sm_uid s) = sm_uid s + 1" "0 < sm_uid s" using uid ok(1) by (auto simp: next_uid_def sim_ok_def)
  have fr: "fresh_event (sm_uid s) e (qabs (sm_queue s))"
    using fresh_scheduled [OF ok(1), of a, where h = f and t = "add (sm_clock s) delay"] u by (simp add: e_def)
  have "qfits e" using fits closed assms(2) ok(3) uid by (simp add: e_def)
  from insert_law [OF ok(2) fr this] obtain q where
    q: "qinsert e (sm_queue s) = Some q" "qinv (sm_uid s + 1) q" "qabs q = list_insert e (qabs (sm_queue s))"
    by (auto simp: e_def)
  have "T (ev_time e)" using closed assms(2) ok(3) by (simp add: e_def)
  then have T: "\<forall>t \<in> insert (sm_clock s) (ev_time ` set (qabs q)). T t" using ok(3) by (simp add: q(3))
  have "sim_ok ((view qabs s)\<lparr>sm_uid := sm_uid s + 1, sm_objs := (sm_objs s)(a := e), sm_queue := qabs q\<rparr>)"
    using sim_ok_scheduled [OF ok(1), of a e, where h = f and t = "add (sm_clock s) delay" and q = "qabs q"] order_law [OF q(2)] q(3) u
    by (simp add: e_def)
  with q T nu u show ?thesis
    by (simp add: tracks_def schedule_def h list_ops_def good_def flip: e_def)
qed

lemma cancel_tracks:
  assumes g: "good qabs qinv T s"
  shows "tracks qabs (\<lambda>s'. good qabs qinv T s' \<and> sm_uid s' \<le> sm_uid s + 1)
    (sched_cancel \<lparr>so_insert = qinsert, so_deque = qdeque, so_cancel = qcancel\<rparr> a s)
    (sched_cancel list_ops a (view qabs s))"
proof -
  let ?e = "sm_objs s a" and ?q = "sm_queue s"
  have ok: "sim_ok (view qabs s)" "qinv (sm_uid s) ?q" "\<forall>t \<in> insert (sm_clock s) (ev_time ` set (qabs (sm_queue s))). T t"
    using g by (auto simp: good_def)
  show ?thesis
  proof (cases "ev_uid ?e \<le> 0")
    case True
    from g have "good qabs qinv T (s\<lparr>sm_queue := ?q, sm_objs := (sm_objs s)(a := ?e)\<rparr>)" by simp
    with True cancel_idle_law [of ?e ?q] show ?thesis
      by (simp add: tracks_def sched_cancel_def list_ops_def list_cancel_def)
  next
    case False
    have e: "?e \<in> set (qabs ?q)" "ev_addr ?e = a" using False ok(1) by (auto simp: sim_ok_def queued_def)
    have io: "in_order (sm_uid s) (qabs ?q)" using ok(2) by (rule order_law)
    from cancel_law [OF ok(2) e(1)] obtain q where
      q: "qcancel ?e ?q = Some (cancelled ?e, q)" "qinv (sm_uid s) q" "qabs q = remove1 ?e (qabs ?q)" by auto
    have l: "list_cancel ?e (qabs ?q) = Some (cancelled ?e, qabs q)"
      using False io e(1) by (simp add: list_cancel_def q(3) list_unlink_remove1 in_order_def)
    have "sim_ok ((view qabs s)\<lparr>sm_queue := qabs q, sm_objs := (sm_objs s)(ev_addr ?e := cancelled ?e)\<rparr>)"
      using sim_ok_removed [OF ok(1), of ?e "qabs q"] e in_order_remove1 [OF io, of ?e]
        in_order_set_remove1 [OF io, of ?e] by (simp add: q(3))
    moreover have "\<forall>t \<in> insert (sm_clock s) (ev_time ` set (qabs q)). T t"
      using ok(3) set_remove1_subset [of ?e "qabs ?q"] by (auto simp: q(3))
    ultimately show ?thesis using q(1,2) l e(2)
      by (simp add: tracks_def sched_cancel_def list_ops_def good_def)
  qed
qed

lemma act_tracks:
  assumes "good qabs qinv T s" and "act_ok D act" and uid: "sm_uid s < L" "L \<le> 2 ^ 63 - 1"
    and closed: "\<forall>t d. T t \<longrightarrow> D d \<longrightarrow> T (add t d)" and fits: "\<forall>e. ev_uid e < L \<longrightarrow> T (ev_time e) \<longrightarrow> qfits e"
  shows "tracks qabs (\<lambda>s'. good qabs qinv T s' \<and> sm_uid s' \<le> sm_uid s + 1)
    (do_act \<lparr>so_insert = qinsert, so_deque = qdeque, so_cancel = qcancel\<rparr> add act s)
    (do_act list_ops add act (view qabs s))"
proof (cases act)
  case (Schedule h a delay)
  with assms show ?thesis by (simp del: insert_iff) (rule schedule_tracks [where L = L and D = D], simp_all)
next
  case (Cancel a)
  then show ?thesis using cancel_tracks [OF assms(1)] by simp
next
  case Halt
  then show ?thesis using assms(1) by (auto simp: tracks_def good_def sim_ok_def)
qed

lemma perform_tracks:
  assumes "good qabs qinv T s" and "\<forall>act \<in> set acts. act_ok D act"
    and "sm_uid s + int (length acts) \<le> L" and L: "L \<le> 2 ^ 63 - 1"
    and closed: "\<forall>t d. T t \<longrightarrow> D d \<longrightarrow> T (add t d)" and fits: "\<forall>e. ev_uid e < L \<longrightarrow> T (ev_time e) \<longrightarrow> qfits e"
  shows "tracks qabs (\<lambda>s'. good qabs qinv T s' \<and> sm_uid s' \<le> sm_uid s + int (length acts))
    (perform \<lparr>so_insert = qinsert, so_deque = qdeque, so_cancel = qcancel\<rparr> add acts s)
    (perform list_ops add acts (view qabs s))"
  using assms(1-3)
proof (induction acts arbitrary: s)
  case Nil
  then show ?case by (simp add: tracks_def)
next
  case (Cons act acts)
  let ?ops = "\<lparr>so_insert = qinsert, so_deque = qdeque, so_cancel = qcancel\<rparr>"
  have "sm_uid s < L" "act_ok D act" using Cons.prems(2,3) by simp_all
  note t = act_tracks [OF Cons.prems(1) this(2,1) L closed fits]
  show ?case
  proof (cases "do_act ?ops add act s")
    case (Inl x)
    with t show ?thesis by (auto simp: tracks_def)
  next
    case (Inr s')
    then have "good qabs qinv T s'" "sm_uid s' \<le> sm_uid s + 1"
      "do_act list_ops add act (view qabs s) = Inr (view qabs s')" using t by (auto simp: tracks_def)
    then show ?thesis using Inr Cons.IH [of s'] Cons.prems(2,3) by (auto simp: tracks_def split: sum.splits)
  qed
qed

lemma pass_tracks:
  assumes g: "good qabs qinv T s" and hs: "handlers_ok D m handle" and uid: "sm_uid s + int m \<le> L" "L \<le> 2 ^ 63 - 1"
    and closed: "\<forall>t d. T t \<longrightarrow> D d \<longrightarrow> T (add t d)" and fits: "\<forall>e. ev_uid e < L \<longrightarrow> T (ev_time e) \<longrightarrow> qfits e"
  shows "case run_pass \<lparr>so_insert = qinsert, so_deque = qdeque, so_cancel = qcancel\<rparr> add handle s of
      Inl (err, s') \<Rightarrow> err \<noteq> QueueAborts \<and> run_pass list_ops add handle (view qabs s) = Inl (err, view qabs s')
    | Inr (e, s') \<Rightarrow> run_pass list_ops add handle (view qabs s) = Inr (e, view qabs s')
        \<and> good qabs qinv T s' \<and> sm_uid s' \<le> sm_uid s + int m"
proof (cases "sm_halted s")
  case True
  then show ?thesis using g by (simp add: run_pass_def)
next
  case False
  let ?ops = "\<lparr>so_insert = qinsert, so_deque = qdeque, so_cancel = qcancel\<rparr>"
  let ?q = "sm_queue s"
  have ok: "sim_ok (view qabs s)" "qinv (sm_uid s) ?q" "\<forall>t \<in> insert (sm_clock s) (ev_time ` set (qabs (sm_queue s))). T t"
    using g by (auto simp: good_def)
  from deque_law [OF ok(2)] obtain q where
    q: "qdeque ?q = Some (fst (list_deque (qabs ?q)), q)" "qinv (sm_uid s) q" "qabs q = snd (list_deque (qabs ?q))" by auto
  show ?thesis
  proof (cases "qabs ?q")
    case Nil
    then show ?thesis using q g False by (simp add: run_pass_def list_ops_def good_def sim_ok_def)
  next
    case (Cons e es)
    have io: "in_order (sm_uid s) (e # es)" using order_law [OF ok(2)] Cons by simp
    define s' where "s' = s\<lparr>sm_queue := q, sm_clock := ev_time e, sm_objs := (sm_objs s)(ev_addr e := cancelled e)\<rparr>"
    have "e \<notin> set es" using io by (auto simp: in_order_def)
    then have "sim_ok ((view qabs s)\<lparr>sm_queue := es, sm_objs := (sm_objs (view qabs s))(ev_addr e := cancelled e)\<rparr>)"
      by (intro sim_ok_removed [OF ok(1)]) (use Cons in_order_tl [OF io] in simp_all)
    then have s': "good qabs qinv T s'" "sm_uid s' = sm_uid s"
      using q Cons ok(3) by (auto simp: good_def s'_def sim_ok_def)
    show ?thesis
    proof (cases "handle (ev_handler e) (ev_addr e) (ev_time e) (sm_objs s') (sm_app s)")
      case None
      then show ?thesis
        using q Cons False by (simp add: run_pass_def dispatch_def list_ops_def s'_def Let_def)
    next
      case (Some r)
      obtain acts app where r: "r = (acts, app)" by (cases r)
      then have acts: "length acts \<le> m" "\<forall>act \<in> set acts. act_ok D act"
        using handlers_okD [OF hs] Some by blast+
      have "good qabs qinv T (s'\<lparr>sm_app := app\<rparr>)" using s'(1) by (simp add: good_def sim_ok_def)
      from perform_tracks [OF this acts(2) _ uid(2) closed fits] acts(1) uid(1) s'(2) have
        t: "tracks qabs (\<lambda>s''. good qabs qinv T s'' \<and> sm_uid s'' \<le> sm_uid s + int (length acts))
          (perform ?ops add acts (s'\<lparr>sm_app := app\<rparr>)) (perform list_ops add acts (view qabs (s'\<lparr>sm_app := app\<rparr>)))"
        by simp
      have p: "run_pass ?ops add handle s = (case perform ?ops add acts (s'\<lparr>sm_app := app\<rparr>) of
          Inl err \<Rightarrow> Inl err | Inr s \<Rightarrow> Inr (Some e, s))"
        "run_pass list_ops add handle (view qabs s) =
          (case perform list_ops add acts (view qabs (s'\<lparr>sm_app := app\<rparr>)) of Inl err \<Rightarrow> Inl err | Inr s \<Rightarrow> Inr (Some e, s))"
        using q Cons False Some r by (simp_all add: run_pass_def dispatch_def list_ops_def s'_def)
      show ?thesis
        unfolding p using t acts(1) by (cases "perform ?ops add acts (s'\<lparr>sm_app := app\<rparr>)") (auto simp: tracks_def)
    qed
  qed
qed

theorem run_tracks:
  assumes "good qabs qinv T s" and hs: "handlers_ok D m handle" and "sm_uid s + int (k * m) \<le> L" and L: "L \<le> 2 ^ 63 - 1"
    and closed: "\<forall>t d. T t \<longrightarrow> D d \<longrightarrow> T (add t d)" and fits: "\<forall>e. ev_uid e < L \<longrightarrow> T (ev_time e) \<longrightarrow> qfits e"
  shows "case run_for \<lparr>so_insert = qinsert, so_deque = qdeque, so_cancel = qcancel\<rparr> add handle k s of
      Inl (err, s') \<Rightarrow> err \<noteq> QueueAborts \<and> run_for list_ops add handle k (view qabs s) = Inl (err, view qabs s')
    | Inr (es, fin, s') \<Rightarrow> run_for list_ops add handle k (view qabs s) = Inr (es, fin, view qabs s')
        \<and> good qabs qinv T s'"
  using assms(1,3)
proof (induction k arbitrary: s)
  case 0
  then show ?case by simp
next
  case (Suc k)
  let ?ops = "\<lparr>so_insert = qinsert, so_deque = qdeque, so_cancel = qcancel\<rparr>"
  have "int (Suc k * m) = int m + int (k * m)" "0 \<le> int (k * m)" by simp_all
  then have "sm_uid s + int m \<le> L" using Suc.prems(2) by linarith
  note p = pass_tracks [OF Suc.prems(1) hs this L closed fits]
  show ?case
  proof (cases "run_pass ?ops add handle s")
    case (Inl x)
    with p show ?thesis by (cases x) auto
  next
    case (Inr r)
    obtain e s' where r: "r = (e, s')" by (cases r)
    with p Inr have s': "run_pass list_ops add handle (view qabs s) = Inr (e, view qabs s')" "good qabs qinv T s'"
      "sm_uid s' \<le> sm_uid s + int m" by auto
    show ?thesis
    proof (cases e)
      case None
      then show ?thesis using Inr r s' by simp
    next
      case (Some ev)
      have "sm_uid s' + int (k * m) \<le> L" using s'(3) Suc.prems(2) by (simp add: algebra_simps)
      from Suc.IH [OF s'(2) this] Some Inr r s'(1) show ?thesis
        by (cases "run_for ?ops add handle k s'") (auto split: prod.splits)
    qed
  qed
qed

lemma simulate_tracks:
  assumes "T t0" and start: "good qabs qinv T s" and "\<forall>act \<in> set script. act_ok D act" and hs: "handlers_ok D m handle"
    and uid: "sm_uid s + int (length script) + int (k * m) \<le> L" and L: "L \<le> 2 ^ 63 - 1"
    and closed: "\<forall>t d. T t \<longrightarrow> D d \<longrightarrow> T (add t d)" and fits: "\<forall>e. ev_uid e < L \<longrightarrow> T (ev_time e) \<longrightarrow> qfits e"
  shows "case simulate \<lparr>so_insert = qinsert, so_deque = qdeque, so_cancel = qcancel\<rparr> t0 add handle script k s of
      Inl (err, s') \<Rightarrow> err \<noteq> QueueAborts \<and> simulate list_ops t0 add handle script k (view qabs s) = Inl (err, view qabs s')
    | Inr (es, fin, s') \<Rightarrow> simulate list_ops t0 add handle script k (view qabs s) = Inr (es, fin, view qabs s')
        \<and> good qabs qinv T s'"
proof -
  let ?ops = "\<lparr>so_insert = qinsert, so_deque = qdeque, so_cancel = qcancel\<rparr>"
  have "0 \<le> int (k * m)" by simp
  then have "sm_uid s + int (length script) \<le> L" using uid by linarith
  note p = perform_tracks [OF start assms(3) this L closed fits]
  show ?thesis
  proof (cases "perform ?ops add script s")
    case (Inl x)
    with p show ?thesis by (cases x) (auto simp: tracks_def simulate_def)
  next
    case (Inr s')
    with p have s': "perform list_ops add script (view qabs s) = Inr (view qabs s')" "good qabs qinv T s'"
      "sm_uid s' \<le> sm_uid s + int (length script)" by (auto simp: tracks_def)
    then have "good qabs qinv T (sched_reset t0 s')" "sm_uid (sched_reset t0 s') + int (k * m) \<le> L"
      using assms(1) uid by (auto simp: good_def sim_ok_def sched_reset_def)
    note r = run_tracks [OF this(1) hs this(2) L closed fits]
    have e: "simulate ?ops t0 add handle script k s = run_for ?ops add handle k (sched_reset t0 s')"
      "simulate list_ops t0 add handle script k (view qabs s) = run_for list_ops add handle k (view qabs (sched_reset t0 s'))"
      using Inr s'(1) by (simp_all add: simulate_def sched_reset_def)
    show ?thesis unfolding e by (rule r)
  qed
qed

lemma new_sim_good: "T t0 \<Longrightarrow> good qabs qinv T (new_sim t0 qempty h app)"
  using empty_law by (simp add: good_def sim_ok_def new_sim_def in_order_def queued_new)

end

section \<open>The order of the events\<close>

lemma view_id [simp]: "view (\<lambda>q. q) s = s"
  by (cases s) (simp add: view_def)

lemmas list_act = list_queue.act_tracks [folded list_ops_def, unfolded view_id]
lemmas list_pass = list_queue.pass_tracks [folded list_ops_def, unfolded view_id]
lemmas list_perform = list_queue.perform_tracks [folded list_ops_def, unfolded view_id]
lemmas list_simulate = list_queue.simulate_tracks [folded list_ops_def, unfolded view_id]

text \<open>All that is left comes after the event \<open>b\<close>, the last one dispatched.\<close>

definition past :: "('t::linorder, 'h) event \<Rightarrow> ('t, 'h, ('t, 'h) event list, 's) sim \<Rightarrow> bool" where
  "past b s \<longleftrightarrow> (\<forall>e \<in> set (sm_queue s). ev_less b e) \<and> ev_uid b < sm_uid s \<and> sm_clock s = ev_time b"

lemma list_unlink_subset: "list_unlink e q = Some q' \<Longrightarrow> set q' \<subseteq> set q"
  by (induction q arbitrary: q') (auto split: if_splits)

lemma list_cancel_subset: "list_cancel e q = Some (e', q') \<Longrightarrow> set q' \<subseteq> set q"
  using list_unlink_subset by (fastforce simp: list_cancel_def split: if_splits bind_splits)

lemma act_after:
  assumes "do_act list_ops add act s = Inr s'" and "past b s" and "act_ok D act" and "sm_uid s < 2 ^ 63 - 1"
    and later: "\<forall>t d. D d \<longrightarrow> t \<le> add t d"
  shows "past b s'"
proof (cases act)
  case (Schedule h a delay)
  with assms(1) obtain f where h: "h = Some f" by (cases h) (auto simp: schedule_def)
  have "next_uid (sm_uid s) = sm_uid s + 1" using assms(4) by (simp add: next_uid_def)
  moreover have "sm_clock s \<le> add (sm_clock s) delay" using Schedule assms(3) later by simp
  ultimately show ?thesis
    using assms(1,2) Schedule h
    by (auto simp: past_def schedule_def list_ops_def ev_less_def Let_def split: if_splits)
next
  case (Cancel a)
  from assms(1) Cancel obtain e' q' where c: "list_cancel (sm_objs s a) (sm_queue s) = Some (e', q')"
    "s' = s\<lparr>sm_queue := q', sm_objs := (sm_objs s)(a := e')\<rparr>"
    by (auto simp: sched_cancel_def list_ops_def split: option.splits)
  from list_cancel_subset [OF c(1)] assms(2) show ?thesis by (auto simp: past_def c(2))
next
  case Halt
  then show ?thesis using assms(1,2) by (auto simp: past_def)
qed

lemma perform_after:
  assumes "perform list_ops add acts s = Inr s'" and "good (\<lambda>q. q) in_order T s" and "past b s"
    and "\<forall>act \<in> set acts. act_ok D act" and "sm_uid s + int (length acts) \<le> L" and L: "L \<le> 2 ^ 63 - 1"
    and closed: "\<forall>t d. T t \<longrightarrow> D d \<longrightarrow> T (add t d)" and later: "\<forall>t d. D d \<longrightarrow> t \<le> add t d"
  shows "past b s'"
  using assms(1-5)
proof (induction acts arbitrary: s)
  case (Cons act acts)
  then obtain s1 where s1: "do_act list_ops add act s = Inr s1" "perform list_ops add acts s1 = Inr s'"
    by (auto split: sum.splits)
  have u: "act_ok D act" "sm_uid s < L" using Cons.prems by simp_all
  have "good (\<lambda>q. q) in_order T s1" "sm_uid s1 \<le> sm_uid s + 1"
    using list_act [OF Cons.prems(2) u L closed] s1(1) by (auto simp: tracks_def)
  moreover have "past b s1" using act_after [OF s1(1) Cons.prems(3) u(1) _ later] u(2) L by simp
  ultimately show ?case using Cons.IH [OF s1(2)] Cons.prems(4,5) by simp
qed simp

lemma pass_after:
  assumes p: "run_pass list_ops add handle s = Inr (Some e, s')" and g: "good (\<lambda>q. q) in_order T s"
    and hs: "handlers_ok D m handle" and uid: "sm_uid s + int m \<le> L" "L \<le> 2 ^ 63 - 1"
    and closed: "\<forall>t d. T t \<longrightarrow> D d \<longrightarrow> T (add t d)" and later: "\<forall>t d. D d \<longrightarrow> t \<le> add t d"
  shows "past e s' \<and> e \<in> set (sm_queue s)"
proof -
  from p obtain es where q: "sm_queue s = e # es"
    by (cases "sm_queue s") (auto simp: run_pass_def list_ops_def split: if_splits sum.splits)
  define s1 where "s1 = s\<lparr>sm_queue := es, sm_clock := ev_time e, sm_objs := (sm_objs s)(ev_addr e := cancelled e)\<rparr>"
  have io: "in_order (sm_uid s) (e # es)" and ok: "sim_ok s" using g q by (auto simp: good_def)
  have ne: "e \<notin> set es" using io by (auto simp: in_order_def)
  have "sim_ok (s\<lparr>sm_queue := es, sm_objs := (sm_objs s)(ev_addr e := cancelled e)\<rparr>)"
    using ne by (intro sim_ok_removed [OF ok]) (use q in_order_tl [OF io] in simp_all)
  then have "good (\<lambda>q. q) in_order T s1" using g q in_order_tl [OF io] by (auto simp: good_def s1_def sim_ok_def)
  moreover have "past e s1" using io by (auto simp: past_def s1_def in_order_def)
  moreover obtain acts app where a: "handle (ev_handler e) (ev_addr e) (ev_time e) (sm_objs s1) (sm_app s) = Some (acts, app)"
    "perform list_ops add acts (s1\<lparr>sm_app := app\<rparr>) = Inr s'"
    using p q by (auto simp: run_pass_def dispatch_def list_ops_def s1_def Let_def split: if_splits option.splits sum.splits)
  moreover have "length acts \<le> m" "\<forall>act \<in> set acts. act_ok D act" using handlers_okD [OF hs a(1)] by blast+
  ultimately show ?thesis
    using perform_after [OF a(2), of T e D L] uid closed later q
    by (simp add: good_def sim_ok_def past_def s1_def)
qed

lemma run_after:
  assumes "run_for list_ops add handle k s = Inr (es, fin, s')" and "good (\<lambda>q. q) in_order T s"
    and hs: "handlers_ok D m handle" and "sm_uid s + int (k * m) \<le> L" and L: "L \<le> 2 ^ 63 - 1"
    and closed: "\<forall>t d. T t \<longrightarrow> D d \<longrightarrow> T (add t d)" and later: "\<forall>t d. D d \<longrightarrow> t \<le> add t d"
  shows "sorted_wrt ev_less es \<and> (\<forall>b. past b s \<longrightarrow> (\<forall>e \<in> set es. ev_less b e))"
  using assms(1,2,4)
proof (induction k arbitrary: s es)
  case (Suc k)
  have "int (Suc k * m) = int m + int (k * m)" "0 \<le> int (k * m)" by simp_all
  then have uid: "sm_uid s + int m \<le> L" "sm_uid s + int m + int (k * m) \<le> L" using Suc.prems(3) by linarith+
  show ?case
  proof (cases es)
    case (Cons e rest)
    from Suc.prems(1) Cons obtain s1 where
      s1: "run_pass list_ops add handle s = Inr (Some e, s1)" "run_for list_ops add handle k s1 = Inr (rest, fin, s')"
      by (auto split: sum.splits option.splits prod.splits)
    have g1: "good (\<lambda>q. q) in_order T s1" "sm_uid s1 \<le> sm_uid s + int m"
      using list_pass [OF Suc.prems(2) hs uid(1) L closed] s1(1) by auto
    note e = pass_after [OF s1(1) Suc.prems(2) hs uid(1) L closed later]
    have "sorted_wrt ev_less rest \<and> (\<forall>b. past b s1 \<longrightarrow> (\<forall>e \<in> set rest. ev_less b e))"
      using Suc.IH [OF s1(2) g1(1)] g1(2) uid(2) by simp
    with e Cons show ?thesis by (auto simp: past_def intro: ev_less_trans)
  qed simp
qed simp

end
