(* ===== verification/Schedulers.thy ===== *)
theory Schedulers
  imports Simulator
begin

text \<open>
  The four schedulers that a script can choose (\<open>Scheduler/List\<close>, \<open>Splay\<close>, \<open>Heap\<close> and \<open>Calendar\<close>) run a
  simulation in the same way, event by event, from the first call of the script on. The bounds are those of the
  providers: the heap needs fewer than \<open>2 ^ 32\<close> insertions, the calendar needs times from 0 on.
\<close>

text \<open>The same events and the same end, or the same error in the same state, up to the queue; never an abort of the queue.\<close>

definition same_run ::
  "('q \<Rightarrow> ('t, 'h) event list) \<Rightarrow> ('t, 'h, 'q, 's, ('t, 'h) event list \<times> bool \<times> ('t, 'h, 'q, 's) sim) outcome
    \<Rightarrow> ('t, 'h, ('t, 'h) event list, 's, ('t, 'h) event list \<times> bool \<times> ('t, 'h, ('t, 'h) event list, 's) sim) outcome
    \<Rightarrow> bool" where
  "same_run f r r' \<longleftrightarrow>
    (case r of
       Inl (err, s) \<Rightarrow> err \<noteq> QueueAborts \<and> r' = Inl (err, view f s)
     | Inr (es, fin, s) \<Rightarrow> r' = Inr (es, fin, view f s))"

text \<open>A program that schedules into the future only, with at most \<open>m\<close> calls in a handler.\<close>

definition causal :: "(real \<Rightarrow> real \<Rightarrow> real) \<Rightarrow> nat \<Rightarrow> (real, 'h, 's) handlers \<Rightarrow> (real, 'h) act list \<Rightarrow> bool" where
  "causal add m handle script \<longleftrightarrow> handlers_ok (\<lambda>d. 0 \<le> d) m handle \<and> (\<forall>act \<in> set script. act_ok (\<lambda>d. 0 \<le> d) act)
     \<and> (\<forall>t d. 0 \<le> d \<longrightarrow> t \<le> add t d)"

lemma causal_closed: "causal add m handle script \<Longrightarrow> \<forall>t d. 0 \<le> t \<longrightarrow> 0 \<le> d \<longrightarrow> 0 \<le> add t d"
  unfolding causal_def by (meson order_trans)

lemma view_new_sim: "f q = q' \<Longrightarrow> view f (new_sim t0 q h app) = new_sim t0 q' h app"
  by (simp add: view_def new_sim_def)

text \<open>For the calendar queue it is enough that times and delays do not become negative.\<close>

lemma calendar_tracks_closed:
  assumes c: "handlers_ok (\<lambda>d. 0 \<le> d) m handle" "\<forall>act \<in> set script. act_ok (\<lambda>d. 0 \<le> d) act"
      "\<forall>t d. 0 \<le> t \<longrightarrow> 0 \<le> d \<longrightarrow> 0 \<le> add t d"
    and uid: "1 + int (length script) + int (k * m) < 2 ^ 63"
  shows "case simulate calendar_ops 0 add handle script k (new_sim 0 (new_calendar interval minw c0) h app) of
      Inl (err, s') \<Rightarrow> err \<noteq> QueueAborts
        \<and> simulate list_ops 0 add handle script k (new_sim 0 [] h app) = Inl (err, view cal_abs s')
    | Inr (es, fin, s') \<Rightarrow> simulate list_ops 0 add handle script k (new_sim 0 [] h app) = Inr (es, fin, view cal_abs s')
        \<and> good cal_abs cal_inv (\<lambda>t. 0 \<le> t) s'"
proof -
  let ?s = "new_sim 0 (new_calendar interval minw c0) h app"
  have z: "cal_abs (new_calendar interval minw c0) = []" using calendar_queue.empty_law by blast
  have "case simulate calendar_ops 0 add handle script k ?s of
      Inl (err, s') \<Rightarrow> err \<noteq> QueueAborts
        \<and> simulate list_ops 0 add handle script k (view cal_abs ?s) = Inl (err, view cal_abs s')
    | Inr (es, fin, s') \<Rightarrow> simulate list_ops 0 add handle script k (view cal_abs ?s) = Inr (es, fin, view cal_abs s')
        \<and> good cal_abs cal_inv (\<lambda>t. 0 \<le> t) s'"
  proof (rule calendar_queue.simulate_tracks [folded calendar_ops_def, where D = "\<lambda>d. 0 \<le> d" and L = "2 ^ 63 - 1"])
    show "good cal_abs cal_inv (\<lambda>t. 0 \<le> t) ?s" by (rule calendar_queue.new_sim_good) simp
    show "sm_uid ?s + int (length script) + int (k * m) \<le> 2 ^ 63 - 1" using uid by (simp add: new_sim_def)
  qed (use c in auto)
  then show ?thesis unfolding view_new_sim [of cal_abs, OF z] .
qed

lemma calendar_tracks:
  assumes c: "causal add m handle script" and uid: "1 + int (length script) + int (k * m) < 2 ^ 63"
  shows "case simulate calendar_ops 0 add handle script k (new_sim 0 (new_calendar interval minw c0) h app) of
      Inl (err, s') \<Rightarrow> err \<noteq> QueueAborts
        \<and> simulate list_ops 0 add handle script k (new_sim 0 [] h app) = Inl (err, view cal_abs s')
    | Inr (es, fin, s') \<Rightarrow> simulate list_ops 0 add handle script k (new_sim 0 [] h app) = Inr (es, fin, view cal_abs s')
        \<and> good cal_abs cal_inv (\<lambda>t. 0 \<le> t) s'"
  using c causal_closed [OF c] uid by (intro calendar_tracks_closed) (auto simp: causal_def)

lemma heap_tracks:
  assumes c: "causal add m handle script" and uid: "1 + int (length script) + int (k * m) \<le> 2 ^ 32"
  shows "case simulate heap_ops 0 add handle script k (new_sim 0 (heap_new HEAP_DEFAULT_SIZE) h app) of
      Inl (err, s') \<Rightarrow> err \<noteq> QueueAborts
        \<and> simulate list_ops 0 add handle script k (new_sim 0 [] h app) = Inl (err, view heap_abs s')
    | Inr (es, fin, s') \<Rightarrow> simulate list_ops 0 add handle script k (new_sim 0 [] h app) = Inr (es, fin, view heap_abs s')
        \<and> good heap_abs heap_inv (\<lambda>t. True) s'"
proof -
  let ?s = "new_sim 0 (heap_new HEAP_DEFAULT_SIZE) h app"
  have z: "heap_abs (heap_new HEAP_DEFAULT_SIZE) = []" using heap_queue.empty_law by blast
  have "case simulate heap_ops 0 add handle script k ?s of
      Inl (err, s') \<Rightarrow> err \<noteq> QueueAborts
        \<and> simulate list_ops 0 add handle script k (view heap_abs ?s) = Inl (err, view heap_abs s')
    | Inr (es, fin, s') \<Rightarrow> simulate list_ops 0 add handle script k (view heap_abs ?s) = Inr (es, fin, view heap_abs s')
        \<and> good heap_abs heap_inv (\<lambda>t. True) s'"
  proof (rule heap_queue.simulate_tracks [folded heap_ops_def, where D = "\<lambda>d. 0 \<le> d" and L = "2 ^ 32"])
    show "good heap_abs heap_inv (\<lambda>t. True) ?s" by (rule heap_queue.new_sim_good) simp
    show "sm_uid ?s + int (length script) + int (k * m) \<le> 2 ^ 32" using uid by (simp add: new_sim_def)
  qed (use c causal_closed [OF c] in \<open>auto simp: causal_def\<close>)
  then show ?thesis unfolding view_new_sim [of heap_abs, OF z] .
qed

lemma splay_tracks:
  assumes c: "causal add m handle script" and uid: "1 + int (length script) + int (k * m) < 2 ^ 63"
  shows "case simulate splay_ops 0 add handle script k (new_sim 0 splay_empty h app) of
      Inl (err, s') \<Rightarrow> err \<noteq> QueueAborts
        \<and> simulate list_ops 0 add handle script k (new_sim 0 [] h app) = Inl (err, view (\<lambda>q. inorder (sp_root q)) s')
    | Inr (es, fin, s') \<Rightarrow> simulate list_ops 0 add handle script k (new_sim 0 [] h app) = Inr (es, fin, view (\<lambda>q. inorder (sp_root q)) s')
        \<and> good (\<lambda>q. inorder (sp_root q)) splay_inv (\<lambda>t. True) s'"
proof -
  let ?s = "new_sim 0 splay_empty h app"
  have z: "inorder (sp_root splay_empty) = []" by (simp add: splay_empty_def)
  have "case simulate splay_ops 0 add handle script k ?s of
      Inl (err, s') \<Rightarrow> err \<noteq> QueueAborts
        \<and> simulate list_ops 0 add handle script k (view (\<lambda>q. inorder (sp_root q)) ?s) = Inl (err, view (\<lambda>q. inorder (sp_root q)) s')
    | Inr (es, fin, s') \<Rightarrow> simulate list_ops 0 add handle script k (view (\<lambda>q. inorder (sp_root q)) ?s) = Inr (es, fin, view (\<lambda>q. inorder (sp_root q)) s')
        \<and> good (\<lambda>q. inorder (sp_root q)) splay_inv (\<lambda>t. True) s'"
  proof (rule splay_queue.simulate_tracks [folded splay_ops_def, where D = "\<lambda>d. 0 \<le> d" and L = "2 ^ 63 - 1"])
    show "good (\<lambda>q. inorder (sp_root q)) splay_inv (\<lambda>t. True) ?s" by (rule splay_queue.new_sim_good) simp
    show "sm_uid ?s + int (length script) + int (k * m) \<le> 2 ^ 63 - 1" using uid by (simp add: new_sim_def)
  qed (use c causal_closed [OF c] in \<open>auto simp: causal_def\<close>)
  then show ?thesis unfolding view_new_sim [of "\<lambda>q. inorder (sp_root q)", OF z] .
qed

lemma same_run_tracks:
  "(case r of
       Inl (err, s') \<Rightarrow> err \<noteq> QueueAborts \<and> r' = Inl (err, view f s')
     | Inr (es, fin, s') \<Rightarrow> r' = Inr (es, fin, view f s') \<and> P s') \<Longrightarrow> same_run f r r'"
  by (auto simp: same_run_def split: sum.splits prod.splits)

text \<open>
  C3: The schedulers agree: for any handlers that schedule into the future, the calendar queue, the heap and the
  splay tree dispatch the events of a script that the linked list dispatches, in the same order, and end in the
  same state or with the same error. No assertion of the queues fails, and no cancellation aborts.
\<close>

theorem schedulers_agree:
  assumes "causal add m handle script" and "1 + int (length script) + int (k * m) \<le> 2 ^ 32"
  shows "same_run cal_abs (simulate calendar_ops 0 add handle script k (new_sim 0 (new_calendar interval minw c0) h app))
      (simulate list_ops 0 add handle script k (new_sim 0 [] h app))
    \<and> same_run heap_abs (simulate heap_ops 0 add handle script k (new_sim 0 (heap_new HEAP_DEFAULT_SIZE) h app))
      (simulate list_ops 0 add handle script k (new_sim 0 [] h app))
    \<and> same_run (\<lambda>q. inorder (sp_root q)) (simulate splay_ops 0 add handle script k (new_sim 0 splay_empty h app))
      (simulate list_ops 0 add handle script k (new_sim 0 [] h app))"
proof -
  have "1 + int (length script) + int (k * m) < 2 ^ 63" using assms(2) by simp
  note t = calendar_tracks [OF assms(1) this] heap_tracks [OF assms] splay_tracks [OF assms(1) this]
  show ?thesis by (intro conjI t [THEN same_run_tracks])
qed

text \<open>A program of one handler that passes its event on, three times.\<close>

definition relay :: "(real, unit, nat) handlers" where
  "relay h a t objs n = Some (if n = 0 then ([], 0) else ([Schedule (Some ()) a 1, Cancel 7], n - 1))"

definition relay_script :: "(real, unit) act list" where
  "relay_script = [Schedule (Some ()) 1 2, Schedule (Some ()) 2 2, Schedule (Some ()) 7 4]"

lemma relay_causal: "causal (+) 2 relay relay_script"
  by (auto simp: causal_def handlers_ok_def relay_def relay_script_def split: if_splits)

theorem schedulers_agree_witness:
  "same_run heap_abs (simulate heap_ops 0 (+) relay relay_script 9 (new_sim 0 (heap_new HEAP_DEFAULT_SIZE) (\<lambda>a. ()) 3))
      (simulate list_ops 0 (+) relay relay_script 9 (new_sim 0 [] (\<lambda>a. ()) 3))"
  using schedulers_agree [OF relay_causal, of 9] by (simp add: relay_script_def)

text \<open>
  C8: Time never runs backwards: the events that the calendar queue dispatches are in strict order of their times,
  and among equal times in the order in which they were scheduled.
\<close>

theorem calendar_in_order:
  assumes c: "causal add m handle script" and uid: "1 + int (length script) + int (k * m) < 2 ^ 63"
    and run: "simulate calendar_ops 0 add handle script k (new_sim 0 (new_calendar interval minw c0) h app) = Inr (es, fin, s)"
  shows "sorted_wrt ev_less es"
proof -
  have "simulate list_ops 0 add handle script k (new_sim 0 [] h app) = Inr (es, fin, view cal_abs s)"
    using calendar_tracks [OF c uid, where interval = interval and minw = minw and h = h and app = app, where ?c0.0 = c0] run by simp
  then obtain s1 where s1: "perform list_ops add script (new_sim 0 [] h app) = Inr s1"
    "run_for list_ops add handle k (sched_reset 0 s1) = Inr (es, fin, view cal_abs s)"
    by (auto simp: simulate_def split: sum.splits)
  have c': "handlers_ok (\<lambda>d. 0 \<le> d) m handle" "\<forall>act \<in> set script. act_ok (\<lambda>d. 0 \<le> d) act" "\<forall>t d. 0 \<le> d \<longrightarrow> t \<le> add t d"
    using c by (auto simp: causal_def)
  have cl: "\<forall>t d. True \<longrightarrow> 0 \<le> d \<longrightarrow> True" by simp
  have km: "0 \<le> int (k * m)" by simp
  from s1(1) obtain s0 where p: "perform list_ops add script s0 = Inr s1" and e: "s0 = new_sim 0 [] h app" by blast
  have s0: "sm_uid s0 = 1" "good (\<lambda>q. q) in_order (\<lambda>t. True) s0"
    unfolding e by (simp add: new_sim_def, rule list_queue.new_sim_good, simp)
  have "tracks (\<lambda>q. q) (\<lambda>s'. good (\<lambda>q. q) in_order (\<lambda>t. True) s' \<and> sm_uid s' \<le> sm_uid s0 + int (length script))
    (perform list_ops add script s0) (perform list_ops add script s0)"
  proof (rule list_perform [OF s0(2) c'(2)])
    show "sm_uid s0 + int (length script) \<le> 2 ^ 63 - 1" unfolding s0(1) using uid km by linarith
  qed simp_all
  then have g: "good (\<lambda>q. q) in_order (\<lambda>t. True) s1" "sm_uid s1 \<le> 1 + int (length script)"
    using p s0(1) by (simp_all add: tracks_def)
  then have "good (\<lambda>q. q) in_order (\<lambda>t. True) (sched_reset 0 s1)" "sm_uid (sched_reset 0 s1) + int (k * m) \<le> 2 ^ 63 - 1"
    using uid by (auto simp: good_def sim_ok_def sched_reset_def)
  from run_after [OF s1(2) this(1) c'(1) this(2) order_refl _ c'(3)] show ?thesis by simp
qed

definition cal_memory :: "unit calendar" where
  "cal_memory = \<lparr> min_bin_width = 0, adjust_interval = 0, time_to_newwidth = 0, head_search = 0, insert_search = 0,
     round_num = 0, gap_num = 0, last_time = 0, avg_gap = 0, width = 0, diff0 = 0, diff1 = 0, diff2 = 0,
     stat_qsize = 0, nbuckets = 0, lastbucket = 0, top_threshold = 0, bot_threshold = 0, buckets = [], qsize = 0,
     cal_clock = 0 \<rparr>"

lemma relay_calendar:
  "map_sum (\<lambda>_. ()) (\<lambda>(es, fin, s). (map ev_time es, fin, sm_halted s))
    (simulate calendar_ops 0 (+) relay relay_script 9 (new_sim 0 (new_calendar 10 0 cal_memory) (\<lambda>a. ()) 3))
      = Inr ([2, 2, 3, 3, 4], True, False)"
  by code_simp

lemma relay_run:
  obtains es s where
    "simulate calendar_ops 0 (+) relay relay_script 9 (new_sim 0 (new_calendar 10 0 cal_memory) (\<lambda>a. ()) 3) = Inr (es, True, s)"
    and "map ev_time es = [2, 2, 3, 3, 4]" and "\<not> sm_halted s"
  using relay_calendar
  by (cases "simulate calendar_ops 0 (+) relay relay_script 9 (new_sim 0 (new_calendar 10 0 cal_memory) (\<lambda>a. ()) 3)") auto

theorem calendar_in_order_witness:
  "\<exists>es s. simulate calendar_ops 0 (+) relay relay_script 9 (new_sim 0 (new_calendar 10 0 cal_memory) (\<lambda>a. ()) 3) = Inr (es, True, s)
    \<and> map ev_time es = [2, 2, 3, 3, 4] \<and> sorted_wrt ev_less es"
proof -
  obtain es s where r:
    "simulate calendar_ops 0 (+) relay relay_script 9 (new_sim 0 (new_calendar 10 0 cal_memory) (\<lambda>a. ()) 3) = Inr (es, True, s)"
    "map ev_time es = [2, 2, 3, 3, 4]" by (rule relay_run)
  have "sorted_wrt ev_less es"
    by (rule calendar_in_order [OF relay_causal _ r(1)]) (simp add: relay_script_def)
  with r show ?thesis by (intro exI conjI)
qed

lemma run_finished: "run_for list_ops add handle k s = Inr (es, True, s') \<Longrightarrow> sm_halted s' \<or> sm_queue s' = []"
proof (induction k arbitrary: s es)
  case (Suc k)
  show ?case
  proof (cases "run_pass list_ops add handle s")
    case (Inr r)
    obtain e s1 where r: "r = (e, s1)" by (cases r)
    show ?thesis
    proof (cases e)
      case None
      have "sm_halted s1 \<or> sm_queue s1 = []"
        using Inr r None by (cases "sm_queue s") (auto simp: run_pass_def list_ops_def split: if_splits sum.splits)
      then show ?thesis using Suc.prems Inr r None by simp
    next
      case (Some ev)
      with Suc.prems Inr r obtain rest where "run_for list_ops add handle k s1 = Inr (rest, True, s')"
        by (auto split: sum.splits)
      then show ?thesis by (rule Suc.IH)
    qed
  qed (use Suc.prems in simp)
qed simp

text \<open>
  C23: A run that ends without a halt leaves nothing behind: the calendar queue is empty, and no event object has
  the number of a pending event, so every event that was scheduled has been dispatched or cancelled.
\<close>

theorem calendar_runs_out:
  assumes c: "causal add m handle script" and uid: "1 + int (length script) + int (k * m) < 2 ^ 63"
    and run: "simulate calendar_ops 0 add handle script k (new_sim 0 (new_calendar interval minw c0) h app) = Inr (es, True, s)"
    and nh: "\<not> sm_halted s"
  shows "qsize (sm_queue s) = 0 \<and> (\<forall>a. ev_uid (sm_objs s a) \<le> 0)"
proof -
  have r: "simulate list_ops 0 add handle script k (new_sim 0 [] h app) = Inr (es, True, view cal_abs s)"
    and g: "good cal_abs cal_inv (\<lambda>t. 0 \<le> t) s"
    using calendar_tracks [OF c uid, where interval = interval and minw = minw and h = h and app = app, where ?c0.0 = c0] run
    by simp_all
  from r obtain s1 where "run_for list_ops add handle k (sched_reset 0 s1) = Inr (es, True, view cal_abs s)"
    by (auto simp: simulate_def split: sum.splits)
  from run_finished [OF this] nh have e: "cal_abs (sm_queue s) = []" by simp
  then have "cal_events (sm_queue s) = []" by (metis mset_cal_abs mset_zero_iff)
  then have "qsize (sm_queue s) = 0" using g by (simp add: good_def cal_inv_def cal_ok_def cal_geom_def)
  moreover have "ev_uid (sm_objs s a) \<le> 0" for a
  proof -
    have "queued (sm_objs s) = {}" "ev_addr (sm_objs s a) = a" using g e by (auto simp: good_def sim_ok_def)
    then have "\<not> 0 < ev_uid (sm_objs s a)" by (auto simp: queued_def dest: spec [of _ "sm_objs s a"])
    then show ?thesis by simp
  qed
  ultimately show ?thesis by blast
qed

theorem calendar_runs_out_witness:
  "\<exists>es s. simulate calendar_ops 0 (+) relay relay_script 9 (new_sim 0 (new_calendar 10 0 cal_memory) (\<lambda>a. ()) 3) = Inr (es, True, s)
    \<and> qsize (sm_queue s) = 0"
proof -
  obtain es s where r:
    "simulate calendar_ops 0 (+) relay relay_script 9 (new_sim 0 (new_calendar 10 0 cal_memory) (\<lambda>a. ()) 3) = Inr (es, True, s)"
    "\<not> sm_halted s" by (rule relay_run)
  have "qsize (sm_queue s) = 0"
    using calendar_runs_out [OF relay_causal _ r] by (simp add: relay_script_def)
  with r(1) show ?thesis by (intro exI conjI)
qed

end
