(* ===== verification/Timer.thy ===== *)
theory Timer
  imports Schedulers
begin

text \<open>
  \<open>TimerHandler\<close> (src/ns-2.34/common/timer-handler.cc, .h): a handler with one event object of its own and a
  status. A simulation of timers is one of Simulator.thy in which handler \<open>i\<close> is timer \<open>i\<close> and owns the event at
  address \<open>i\<close>; \<open>expire\<close>, which every timer fills in, is a parameter that says which timers it sets and cancels.
  None is a call of abort. The lemmas tie the status to the queue: a timer is pending exactly when its event is
  queued.
\<close>

datatype timer_status = TIMER_IDLE | TIMER_PENDING | TIMER_HANDLING

datatype 't timer_request = TSched nat 't | TResched nat 't | TCancel nat | TForceCancel nat

fun timer_call :: "'t timer_request \<Rightarrow> (nat \<Rightarrow> timer_status) \<Rightarrow> (('t, nat) act list \<times> (nat \<Rightarrow> timer_status)) option" where
  "timer_call (TCancel i) st =
    (if st i \<noteq> TIMER_PENDING then None else Some ([Cancel i], st(i := TIMER_IDLE)))"
| "timer_call (TSched i delay) st =
    (if st i \<noteq> TIMER_IDLE then None else Some ([Schedule (Some i) i delay], st(i := TIMER_PENDING)))"
| "timer_call (TResched i delay) st =
    Some ((if st i = TIMER_PENDING then [Cancel i] else []) @ [Schedule (Some i) i delay], st(i := TIMER_PENDING))"
| "timer_call (TForceCancel i) st =
    Some (if st i = TIMER_PENDING then ([Cancel i], st(i := TIMER_IDLE)) else ([], st))"

fun timer_calls ::
  "'t timer_request list \<Rightarrow> (nat \<Rightarrow> timer_status) \<Rightarrow> (('t, nat) act list \<times> (nat \<Rightarrow> timer_status)) option" where
  "timer_calls [] st = Some ([], st)"
| "timer_calls (c # cs) st = do {
     (acts, st) \<leftarrow> timer_call c st;
     (acts', st) \<leftarrow> timer_calls cs st;
     Some (acts @ acts', st)
   }"

text \<open>\<open>handle\<close>: if the timer was not set again, it is done.\<close>

definition timer_handle ::
  "(nat \<Rightarrow> 't \<Rightarrow> 's \<Rightarrow> 't timer_request list \<times> 's) \<Rightarrow> ('t, nat, (nat \<Rightarrow> timer_status) \<times> 's) handlers" where
  "timer_handle expire i a t objs app =
    (case app of (st, x) \<Rightarrow>
       if st i \<noteq> TIMER_PENDING then None
       else
         (let (calls, x) = expire i t x
          in do {
            (acts, st) \<leftarrow> timer_calls calls (st(i := TIMER_HANDLING));
            Some (acts, if st i = TIMER_HANDLING then st(i := TIMER_IDLE) else st, x)
          }))"

section \<open>The status and the queue\<close>

definition timed :: "(nat \<Rightarrow> timer_status) \<Rightarrow> (nat \<Rightarrow> ('t, nat) event) \<Rightarrow> bool" where
  "timed st objs \<longleftrightarrow> (\<forall>i. (st i = TIMER_PENDING \<longleftrightarrow> 0 < ev_uid (objs i)) \<and> (0 < ev_uid (objs i) \<longrightarrow> ev_handler (objs i) = i))"

abbreviation list_good :: "('t::linorder, 'h, ('t, 'h) event list, 's) sim \<Rightarrow> bool" where
  "list_good \<equiv> good (\<lambda>q. q) in_order (\<lambda>t. True)"

lemma good_cancel:
  assumes g: "list_good s" and u: "0 < ev_uid (sm_objs s i)"
  shows "\<exists>q. do_act list_ops add (Cancel i) s
      = Inr (s\<lparr>sm_queue := q, sm_objs := (sm_objs s)(i := cancelled (sm_objs s i))\<rparr>)"
proof -
  have "ev_addr (sm_objs s i) = i" "set (sm_queue s) = queued (sm_objs s)" "in_order (sm_uid s) (sm_queue s)"
    using g by (auto simp: good_def sim_ok_def)
  moreover from this(1,2) have "sm_objs s i \<in> set (sm_queue s)" using u by (simp add: queued_def)
  ultimately have "list_unlink (sm_objs s i) (sm_queue s) = Some (remove1 (sm_objs s i) (sm_queue s))"
    by (intro list_unlink_remove1) (auto simp: in_order_def)
  with u show ?thesis by (simp add: sched_cancel_def list_ops_def list_cancel_def) (intro exI, rule refl)
qed

lemma good_schedule:
  assumes "list_good s" and "ev_uid (sm_objs s i) \<le> 0"
  shows "\<exists>q t. do_act list_ops add (Schedule (Some i) i d) s
      = Inr (s\<lparr>sm_uid := next_uid (sm_uid s),
               sm_objs := (sm_objs s)(i := (sm_objs s i)\<lparr>ev_uid := sm_uid s, ev_handler := i, ev_time := t\<rparr>),
               sm_queue := q\<rparr>)"
proof -
  have "0 < sm_uid s" using assms(1) by (simp add: good_def sim_ok_def)
  with assms(2) show ?thesis by (simp add: schedule_def list_ops_def Let_def) (intro exI, rule refl)
qed

text \<open>What a call of the scheduler keeps.\<close>

definition kept :: "('t::linorder, nat, ('t, nat) event list, 's) sim \<Rightarrow> (nat \<Rightarrow> timer_status) \<Rightarrow> nat
    \<Rightarrow> ('t, nat, ('t, nat) event list, 's) sim \<Rightarrow> bool" where
  "kept s st n s' \<longleftrightarrow> list_good s' \<and> timed st (sm_objs s') \<and> sm_uid s' \<le> sm_uid s + int n \<and> sm_app s' = sm_app s"

lemma list_act_good:
  assumes "list_good s" and "sm_uid s < 2 ^ 63 - 1" and "do_act list_ops add act s = Inr s'"
  shows "list_good s' \<and> sm_uid s' \<le> sm_uid s + 1"
proof -
  have "act_ok (\<lambda>d. True) act" by (cases act) simp_all
  from list_act [OF assms(1) this assms(2) order_refl, of add] assms(3) show ?thesis by (auto simp: tracks_def)
qed

lemma cancel_kept:
  assumes "list_good s" and "timed st (sm_objs s)" and "st i = TIMER_PENDING" and "sm_uid s < 2 ^ 63 - 1" and "x \<noteq> TIMER_PENDING"
  shows "\<exists>s'. do_act list_ops add (Cancel i) s = Inr s' \<and> kept s (st(i := x)) 1 s'"
proof -
  have u: "0 < ev_uid (sm_objs s i)" using assms(2,3) by (simp add: timed_def)
  from good_cancel [OF assms(1) u, of add] obtain q where
    c: "do_act list_ops add (Cancel i) s = Inr (s\<lparr>sm_queue := q, sm_objs := (sm_objs s)(i := cancelled (sm_objs s i))\<rparr>)" by blast
  from list_act_good [OF assms(1,4) c] assms(2,5) u show ?thesis
    unfolding c by (auto simp: kept_def timed_def cancelled_def)
qed

lemma schedule_kept:
  assumes "list_good s" and "timed st (sm_objs s)" and "st i \<noteq> TIMER_PENDING" and "sm_uid s < 2 ^ 63 - 1"
  shows "\<exists>s'. do_act list_ops add (Schedule (Some i) i d) s = Inr s' \<and> kept s (st(i := TIMER_PENDING)) 1 s'"
proof -
  have u: "ev_uid (sm_objs s i) \<le> 0" "0 < sm_uid s" using assms(1-3) by (auto simp: timed_def good_def sim_ok_def not_less)
  from good_schedule [OF assms(1) u(1), of add d] obtain q t where
    c: "do_act list_ops add (Schedule (Some i) i d) s = Inr (s\<lparr>sm_uid := next_uid (sm_uid s),
               sm_objs := (sm_objs s)(i := (sm_objs s i)\<lparr>ev_uid := sm_uid s, ev_handler := i, ev_time := t\<rparr>),
               sm_queue := q\<rparr>)" by blast
  from list_act_good [OF assms(1,4) c] assms(2) u show ?thesis
    unfolding c by (auto simp: kept_def timed_def)
qed

lemma perform_append:
  "perform ops add (as @ bs) s = (case perform ops add as s of Inl err \<Rightarrow> Inl err | Inr s \<Rightarrow> perform ops add bs s)"
  by (induction as arbitrary: s) (auto split: sum.splits)

lemma timer_call_kept:
  assumes c: "timer_call c st = Some (acts, st')" and g: "list_good s" "timed st (sm_objs s)" and u: "sm_uid s + 2 < 2 ^ 63"
  shows "\<exists>s'. perform list_ops add acts s = Inr s' \<and> kept s st' (length acts) s'"
proof (cases c)
  case (TCancel i)
  with c show ?thesis using cancel_kept [OF g, of i TIMER_IDLE add] u by (auto split: if_splits)
next
  case (TSched i d)
  with c show ?thesis using schedule_kept [OF g, of i add d] u by (auto split: if_splits)
next
  case (TForceCancel i)
  with c g show ?thesis using cancel_kept [OF g, of i TIMER_IDLE add] u by (auto simp: kept_def split: if_splits)
next
  case (TResched i d)
  show ?thesis
  proof (cases "st i = TIMER_PENDING")
    case True
    from cancel_kept [OF g True, of TIMER_IDLE add] u obtain s1 where
      s1: "do_act list_ops add (Cancel i) s = Inr s1" "kept s (st(i := TIMER_IDLE)) 1 s1" by auto
    with schedule_kept [of s1 "st(i := TIMER_IDLE)" i add d] u obtain s2 where
      "do_act list_ops add (Schedule (Some i) i d) s1 = Inr s2" "kept s1 (st(i := TIMER_PENDING)) 1 s2"
      by (auto simp: kept_def)
    with s1 TResched True c show ?thesis by (auto simp: kept_def)
  next
    case False
    with TResched c show ?thesis using schedule_kept [OF g, of i add d] u by auto
  qed
qed

lemma timer_calls_kept:
  assumes "timer_calls cs st = Some (acts, st')" and "list_good s" and "timed st (sm_objs s)"
    and "sm_uid s + 2 * int (length cs) < 2 ^ 63"
  shows "\<exists>s'. perform list_ops add acts s = Inr s' \<and> kept s st' (2 * length cs) s'"
  using assms
proof (induction cs arbitrary: st acts s)
  case Nil
  then show ?case by (simp add: kept_def)
next
  case (Cons c cs)
  from Cons.prems(1) obtain a1 st1 a2 where
    c: "timer_call c st = Some (a1, st1)" "timer_calls cs st1 = Some (a2, st')" "acts = a1 @ a2"
    by (auto split: bind_splits)
  have l: "length a1 \<le> 2" using c(1) by (cases c) (auto split: if_splits)
  from timer_call_kept [OF c(1) Cons.prems(2,3), of add] Cons.prems(4) obtain s1 where
    s1: "perform list_ops add a1 s = Inr s1" "kept s st1 (length a1) s1" by auto
  then have "sm_uid s1 \<le> sm_uid s + 2" using l by (auto simp: kept_def)
  with s1 Cons.IH [OF c(2), of s1] Cons.prems(4) obtain s2 where
    "perform list_ops add a2 s1 = Inr s2" "kept s1 st' (2 * length cs) s2" by (auto simp: kept_def)
  with s1 l show ?case by (auto simp: kept_def perform_append c(3))
qed

section \<open>Programs of timers\<close>

text \<open>A program that only uses \<open>resched\<close> and \<open>force_cancel\<close> need not know the status of its timers.\<close>

fun lenient :: "'t timer_request \<Rightarrow> bool" where
  "lenient (TResched i d) \<longleftrightarrow> True"
| "lenient (TForceCancel i) \<longleftrightarrow> True"
| "lenient c \<longleftrightarrow> False"

fun ahead :: "real timer_request \<Rightarrow> bool" where
  "ahead (TResched i d) \<longleftrightarrow> 0 \<le> d"
| "ahead (TSched i d) \<longleftrightarrow> 0 \<le> d"
| "ahead c \<longleftrightarrow> True"

definition timely :: "nat \<Rightarrow> (nat \<Rightarrow> real \<Rightarrow> 's \<Rightarrow> real timer_request list \<times> 's) \<Rightarrow> bool" where
  "timely n expire \<longleftrightarrow> (\<forall>i t x. length (fst (expire i t x)) \<le> n \<and> (\<forall>c \<in> set (fst (expire i t x)). ahead c))"

lemma timelyD: "timely n expire \<Longrightarrow> length (fst (expire i t x)) \<le> n \<and> (\<forall>c \<in> set (fst (expire i t x)). ahead c)"
  unfolding timely_def by blast

definition all_lenient :: "(nat \<Rightarrow> real \<Rightarrow> 's \<Rightarrow> real timer_request list \<times> 's) \<Rightarrow> bool" where
  "all_lenient expire \<longleftrightarrow> (\<forall>i t x. \<forall>c \<in> set (fst (expire i t x)). lenient c)"

lemma lenient_calls: "\<forall>c \<in> set cs. lenient c \<Longrightarrow> timer_calls cs st \<noteq> None"
proof (induction cs arbitrary: st)
  case (Cons c cs)
  then obtain r where "timer_call c st = Some r" by (cases c) auto
  then obtain a st' where "timer_call c st = Some (a, st')" by (cases r) simp
  moreover have "timer_calls cs st' \<noteq> None" using Cons by simp
  then obtain r' where "timer_calls cs st' = Some r'" by blast
  ultimately show ?case by (cases r') simp
qed simp

lemma timer_calls_bound:
  "timer_calls cs st = Some (acts, st') \<Longrightarrow> \<forall>c \<in> set cs. ahead c
    \<Longrightarrow> length acts \<le> 2 * length cs \<and> (\<forall>act \<in> set acts. act_ok (\<lambda>d. 0 \<le> d) act)"
proof (induction cs arbitrary: st acts)
  case (Cons c cs)
  from Cons.prems(1) obtain a1 st1 a2 where
    c: "timer_call c st = Some (a1, st1)" "timer_calls cs st1 = Some (a2, st')" "acts = a1 @ a2"
    by (auto split: bind_splits)
  have "length a1 \<le> 2 \<and> (\<forall>act \<in> set a1. act_ok (\<lambda>d. 0 \<le> d) act)"
    using c(1) Cons.prems(2) by (cases c) (auto split: if_splits)
  with Cons.IH [OF c(2)] Cons.prems(2) c(3) show ?case by auto
qed simp

lemma timers_causal:
  assumes "timely n expire" and "timer_calls script st = Some (acts, st')" and "\<forall>c \<in> set script. ahead c"
    and "\<forall>t d. 0 \<le> d \<longrightarrow> t \<le> add t d"
  shows "causal add (2 * n) (timer_handle expire) acts"
proof -
  have "length acts' \<le> 2 * n \<and> (\<forall>act \<in> set acts'. act_ok (\<lambda>d. 0 \<le> d) act)"
    if "timer_handle expire i a t objs app = Some (acts', app')" for i a t objs app acts' app'
  proof -
    obtain st0 x where app: "app = (st0, x)" by (cases app)
    obtain calls y where e: "expire i t x = (calls, y)" by (cases "expire i t x")
    from that app e obtain st1 where "timer_calls calls (st0(i := TIMER_HANDLING)) = Some (acts', st1)"
      by (auto simp: timer_handle_def split: if_splits bind_splits)
    moreover have "length calls \<le> n" "\<forall>c \<in> set calls. ahead c"
      using timelyD [OF assms(1), of i t x] e by simp_all
    ultimately show ?thesis using timer_calls_bound by fastforce
  qed
  then have "handlers_ok (\<lambda>d. 0 \<le> d) (2 * n) (timer_handle expire)" unfolding handlers_ok_def by blast
  with timer_calls_bound [OF assms(2,3)] assms(4) show ?thesis by (simp add: causal_def)
qed

text \<open>A timer that goes off is pending, and its handler is its own.\<close>

definition ticking where
  "ticking s \<longleftrightarrow> list_good s \<and> timed (fst (sm_app s)) (sm_objs s)"

lemma timer_pass:
  assumes t: "ticking s" and n: "timely n expire" and u: "sm_uid s + 2 * int n < 2 ^ 63"
  shows "case run_pass list_ops add (timer_handle expire) s of
      Inl (err, s') \<Rightarrow> err = HandlerAborts \<and> \<not> all_lenient expire
    | Inr (e, s') \<Rightarrow> ticking s' \<and> sm_uid s' \<le> sm_uid s + 2 * int n"
proof (cases "sm_halted s \<or> sm_queue s = []")
  case True
  with t show ?thesis by (auto simp: run_pass_def list_ops_def ticking_def good_def sim_ok_def)
next
  case False
  then obtain e es where q: "sm_queue s = e # es" by (cases "sm_queue s") auto
  obtain st x where app: "sm_app s = (st, x)" by (cases "sm_app s")
  have g: "list_good s" "sim_ok s" and io: "in_order (sm_uid s) (e # es)" and tm: "timed st (sm_objs s)"
    using t q app by (auto simp: ticking_def good_def)
  define i where "i = ev_addr e"
  have e: "sm_objs s i = e" "0 < ev_uid e" using g(2) q by (auto simp: sim_ok_def queued_def i_def)
  then have ei: "ev_handler e = i" "st i = TIMER_PENDING" using tm by (auto simp: timed_def)
  define s1 where "s1 = s\<lparr>sm_queue := es, sm_clock := ev_time e, sm_objs := (sm_objs s)(i := cancelled e)\<rparr>"
  have "e \<notin> set es" using io by (auto simp: in_order_def)
  then have "sim_ok (s\<lparr>sm_queue := es, sm_objs := (sm_objs s)(i := cancelled e)\<rparr>)"
    unfolding i_def by (intro sim_ok_removed [OF g(2)]) (use q in_order_tl [OF io] in simp_all)
  then have g1: "list_good s1" using in_order_tl [OF io] by (auto simp: good_def s1_def sim_ok_def)
  have t1: "timed (st(i := TIMER_HANDLING)) (sm_objs s1)"
    using tm e by (auto simp: timed_def s1_def cancelled_def)
  obtain calls y where ex: "expire i (ev_time e) x = (calls, y)" by (cases "expire i (ev_time e) x")
  then have l: "length calls \<le> n" using timelyD [OF n, of i "ev_time e" x] by simp
  show ?thesis
  proof (cases "timer_calls calls (st(i := TIMER_HANDLING))")
    case None
    then have "\<not> all_lenient expire" using lenient_calls ex unfolding all_lenient_def by (metis fst_conv)
    moreover have "\<exists>s'. run_pass list_ops add (timer_handle expire) s = Inl (HandlerAborts, s')"
      using False q app ei ex None
      by (simp add: run_pass_def list_ops_def dispatch_def Let_def timer_handle_def i_def)
    ultimately show ?thesis by auto
  next
    case (Some r)
    obtain acts st2 where r: "r = (acts, st2)" by (cases r)
    define app2 where "app2 = (if st2 i = TIMER_HANDLING then st2(i := TIMER_IDLE) else st2, y)"
    have "list_good (s1\<lparr>sm_app := app2\<rparr>)" "timed (st(i := TIMER_HANDLING)) (sm_objs (s1\<lparr>sm_app := app2\<rparr>))"
      "sm_uid (s1\<lparr>sm_app := app2\<rparr>) + 2 * int (length calls) < 2 ^ 63"
      using g1 t1 u l by (simp_all add: good_def sim_ok_def s1_def)
    from timer_calls_kept [OF Some [unfolded r] this] obtain s2 where
      s2: "perform list_ops add acts (s1\<lparr>sm_app := app2\<rparr>) = Inr s2"
        "kept (s1\<lparr>sm_app := app2\<rparr>) st2 (2 * length calls) s2" by blast
    have h: "timer_handle expire i i (ev_time e) (sm_objs s1) (st, x) = Some (acts, app2)"
      using ei(2) by (simp add: timer_handle_def ex Some r app2_def)
    have "so_deque list_ops (sm_queue s) = Some (Some e, es)" by (simp add: list_ops_def q)
    then have "run_pass list_ops add (timer_handle expire) s = Inr (Some e, s2)"
      using False h s2(1) app ei(1) unfolding run_pass_def dispatch_def s1_def by (simp flip: i_def)
    moreover have "timed (fst app2) (sm_objs s2)" using s2(2) by (auto simp: kept_def app2_def timed_def)
    moreover have "sm_uid s2 \<le> sm_uid s + 2 * int n" using s2(2) l by (simp add: kept_def s1_def)
    ultimately show ?thesis using s2(2) by (simp add: ticking_def kept_def)
  qed
qed

lemma timer_run:
  assumes "ticking s" and n: "timely n expire" and "sm_uid s + int (k * (2 * n)) < 2 ^ 63"
  shows "case run_for list_ops add (timer_handle expire) k s of
      Inl (err, s') \<Rightarrow> err = HandlerAborts \<and> \<not> all_lenient expire
    | Inr (es, fin, s') \<Rightarrow> ticking s'"
  using assms(1,3)
proof (induction k arbitrary: s)
  case (Suc k)
  have "int (Suc k * (2 * n)) = 2 * int n + int (k * (2 * n))" "0 \<le> int (k * (2 * n))" by simp_all
  then have u: "sm_uid s + 2 * int n < 2 ^ 63" "sm_uid s + 2 * int n + int (k * (2 * n)) < 2 ^ 63"
    using Suc.prems(2) by linarith+
  note p = timer_pass [OF Suc.prems(1) n u(1), of add]
  show ?case
  proof (cases "run_pass list_ops add (timer_handle expire) s")
    case (Inl a)
    with p show ?thesis by (cases a) simp
  next
    case (Inr b)
    obtain e s1 where b: "b = (e, s1)" by (cases b)
    with p Inr have s1: "ticking s1" "sm_uid s1 + int (k * (2 * n)) < 2 ^ 63" using u(2) by auto
    show ?thesis
    proof (cases e)
      case None
      with Inr b s1(1) show ?thesis by simp
    next
      case (Some ev)
      with Suc.IH [OF s1] Inr b show ?thesis
        by (cases "run_for list_ops add (timer_handle expire) k s1") (auto split: prod.splits)
    qed
  qed
qed simp

lemma timers_list:
  fixes x :: 's
  assumes n: "timely n expire" and script: "timer_calls script (\<lambda>i. TIMER_IDLE) = Some (acts, st)"
    and u: "1 + 2 * int (length script) + int (k * (2 * n)) < 2 ^ 63"
  shows "case simulate list_ops 0 add (timer_handle expire) acts k (new_sim 0 [] (\<lambda>i. i) (st, x)) of
      Inl (err, s') \<Rightarrow> err = HandlerAborts \<and> \<not> all_lenient expire
    | Inr (es, fin, s') \<Rightarrow> ticking s'"
proof -
  obtain s0 :: "(real, nat, (real, nat) event list, (nat \<Rightarrow> timer_status) \<times> 's) sim" where e: "s0 = new_sim 0 [] (\<lambda>i. i) (st, x)" by blast
  have g: "list_good s0" unfolding e by (rule list_queue.new_sim_good) simp
  have "0 \<le> int (k * (2 * n))" by simp
  then have b: "1 + 2 * int (length script) < 2 ^ 63" using u by linarith
  have "timed (\<lambda>i. TIMER_IDLE) (sm_objs s0)" "sm_uid s0 = 1" by (simp_all add: e new_sim_def timed_def)
  with timer_calls_kept [OF script g, of add] b obtain s1 where
    s1: "perform list_ops add acts s0 = Inr s1" "kept s0 st (2 * length script) s1" by auto
  have "ticking (sched_reset 0 s1)" using s1(2) by (auto simp: kept_def ticking_def e new_sim_def sched_reset_def good_def sim_ok_def)
  moreover have "sm_uid (sched_reset 0 s1) + int (k * (2 * n)) < 2 ^ 63"
    using s1(2) u by (simp add: kept_def sched_reset_def e new_sim_def)
  ultimately show ?thesis using timer_run [OF _ n, of "sched_reset 0 s1" k add] s1(1) by (simp add: simulate_def flip: e)
qed

text \<open>
  C9: Timers never get out of step with the queue. Whatever timers a program of timers sets and cancels when one
  goes off, on the calendar queue the only abort that can happen is that of \<open>sched\<close> or \<open>cancel\<close> called in the wrong
  status; a program that uses \<open>resched\<close> and \<open>force_cancel\<close> never aborts, in particular no timer goes off that is not
  pending and no queued event is scheduled again. In between, a timer is pending exactly when its event is queued.
\<close>

theorem timers_never_abort:
  assumes n: "timely n expire" and script: "timer_calls script (\<lambda>i. TIMER_IDLE) = Some (acts, st)"
    and ahead: "\<forall>c \<in> set script. ahead c" and later: "\<forall>t d. 0 \<le> d \<longrightarrow> t \<le> add t d"
    and u: "1 + 2 * int (length script) + int (k * (2 * n)) < 2 ^ 63"
  shows "case simulate calendar_ops 0 add (timer_handle expire) acts k
        (new_sim 0 (new_calendar interval minw c0) (\<lambda>i. i) (st, x)) of
      Inl (err, s) \<Rightarrow> err = HandlerAborts \<and> \<not> all_lenient expire
    | Inr (es, fin, s) \<Rightarrow> \<forall>i. fst (sm_app s) i = TIMER_PENDING \<longleftrightarrow> 0 < ev_uid (sm_objs s i)"
proof -
  let ?r = "simulate calendar_ops 0 add (timer_handle expire) acts k (new_sim 0 (new_calendar interval minw c0) (\<lambda>i. i) (st, x))"
  have "length acts \<le> 2 * length script" using timer_calls_bound [OF script ahead] by simp
  then have "1 + int (length acts) + int (k * (2 * n)) < 2 ^ 63" using u by linarith
  note c = calendar_tracks [OF timers_causal [OF n script ahead later] this, where interval = interval and minw = minw
      and h = "\<lambda>i. i" and app = "(st, x)", where ?c0.0 = c0]
  note l = timers_list [OF n script u, where add = add and x = x]
  show ?thesis
  proof (cases ?r)
    case (Inl a)
    with c l show ?thesis by (cases a) simp
  next
    case (Inr b)
    with c l show ?thesis by (cases b) (simp add: ticking_def timed_def)
  qed
qed

text \<open>Two timers: the first sets the second and itself, the second cancels the first.\<close>

definition two_timers :: "nat \<Rightarrow> real \<Rightarrow> unit \<Rightarrow> real timer_request list \<times> unit" where
  "two_timers i t x = (if i = 0 then [TResched 1 1, TResched 0 5] else [TForceCancel 0], x)"

theorem timers_never_abort_witness:
  "\<exists>acts st. timer_calls [TSched 0 2, TResched 1 9] (\<lambda>i. TIMER_IDLE) = Some (acts, st) \<and>
    (case simulate calendar_ops 0 (+) (timer_handle two_timers) acts 9
        (new_sim 0 (new_calendar 10 0 undefined) (\<lambda>i. i) (st, ())) of
      Inl (err, s) \<Rightarrow> False
    | Inr (es, fin, s) \<Rightarrow> \<forall>i. fst (sm_app s) i = TIMER_PENDING \<longleftrightarrow> 0 < ev_uid (sm_objs s i))"
proof -
  have s: "timer_calls [TSched 0 2, TResched 1 9] (\<lambda>i. TIMER_IDLE)
    = Some ([Schedule (Some 0) 0 2, Schedule (Some 1) 1 9], (\<lambda>i. TIMER_IDLE)(0 := TIMER_PENDING, 1 := TIMER_PENDING))" by simp
  have t: "timely 2 two_timers" by (simp add: timely_def two_timers_def)
  have l: "all_lenient two_timers" by (simp add: all_lenient_def two_timers_def)
  define r where "r = simulate calendar_ops 0 (+) (timer_handle two_timers) [Schedule (Some 0) 0 2, Schedule (Some 1) 1 9] 9
    (new_sim 0 (new_calendar 10 0 undefined) (\<lambda>i. i) ((\<lambda>i. TIMER_IDLE)(0 := TIMER_PENDING, 1 := TIMER_PENDING), ()))"
  have "case r of Inl (err, s) \<Rightarrow> err = HandlerAborts \<and> \<not> all_lenient two_timers
    | Inr (es, fin, s) \<Rightarrow> \<forall>i. fst (sm_app s) i = TIMER_PENDING \<longleftrightarrow> 0 < ev_uid (sm_objs s i)"
    unfolding r_def by (rule timers_never_abort [OF t s]) simp_all
  with l have "case r of Inl (err, s) \<Rightarrow> False
    | Inr (es, fin, s) \<Rightarrow> \<forall>i. fst (sm_app s) i = TIMER_PENDING \<longleftrightarrow> 0 < ev_uid (sm_objs s i)"
    by (cases r) (auto split: prod.splits)
  with s show ?thesis unfolding r_def by blast
qed

end
