(* ===== verification/Rng_Arith.thy ===== *)
theory Rng_Arith
  imports Double Prelude
begin

text \<open>
  The arithmetic of the random number generator (the anonymous namespace of src/ns-2.34/tools/rng.cc): products,
  vectors and 3x3 matrices modulo \<open>m\<close>, computed in doubles. A \<open>double[3]\<close> is a triple and a \<open>double[3][3]\<close> a triple
  of rows. A \<open>long\<close> has 32 bits, as everywhere in this development. The lemmas compare it with the same operations
  on integers: within the bounds that the comment of \<open>MultModM\<close> states, and for moduli whose quotients fit in a
  \<open>long\<close>, nothing is lost. A matrix jumps over \<open>n\<close> steps when it does to every reduced
  vector what \<open>n\<close> applications of the matrix of one step do.
\<close>

type_synonym vec3 = "real \<times> real \<times> real"
type_synonym mat3 = "vec3 \<times> vec3 \<times> vec3"

definition two17 :: real where "two17 = 131072"
definition two53 :: real where "two53 = 9007199254740992"

text \<open>\<open>long\<close> to \<open>double\<close>.\<close>

definition of_long :: "int \<Rightarrow> real" where "of_long n = dbl (of_int n)"

text \<open>
  \<open>static_cast<long>\<close> of a \<open>double\<close> cuts towards zero. C leaves the result open when it does not fit
  in a \<open>long\<close>; the processor gives the smallest one.
\<close>

definition to_long :: "real \<Rightarrow> int" where
  "to_long x = (let k = ctrunc x in if - (2 ^ 31) \<le> k \<and> k < 2 ^ 31 then k else - (2 ^ 31))"

text \<open>The end of \<open>MultModM\<close> and of each component of \<open>U01\<close>.\<close>

definition reduce :: "real \<Rightarrow> real \<Rightarrow> real" where
  "reduce v m = (let k = to_long (ddiv v m); v = dsub v (dmul (of_long k) m) in if v < 0 then dadd v m else v)"

definition MultModM :: "real \<Rightarrow> real \<Rightarrow> real \<Rightarrow> real \<Rightarrow> real" where
  "MultModM a s c m =
    (let v = dadd (dmul a s) c;
         v = (if two53 \<le> v \<or> v \<le> - two53
              then let a1 = to_long (ddiv a two17);
                       a = dsub a (dmul (of_long a1) two17);
                       v = dmul (of_long a1) s;
                       a1 = to_long (ddiv v m);
                       v = dsub v (dmul (of_long a1) m)
                   in dadd (dadd (dmul v two17) (dmul a s)) c
              else v)
     in reduce v m)"

fun vec_row :: "vec3 \<Rightarrow> vec3 \<Rightarrow> real \<Rightarrow> real" where
  "vec_row (a0, a1, a2) (s0, s1, s2) m = MultModM a2 s2 (MultModM a1 s1 (MultModM a0 s0 0 m) m) m"

fun MatVecModM :: "mat3 \<Rightarrow> vec3 \<Rightarrow> real \<Rightarrow> vec3" where
  "MatVecModM (r0, r1, r2) s m = (vec_row r0 s m, vec_row r1 s m, vec_row r2 s m)"

text \<open>\<open>W[j][i] = V[j]\<close>: the columns of the product are those of \<open>B\<close> multiplied by \<open>A\<close>.\<close>

fun columns :: "('a \<times> 'a \<times> 'a) \<times> ('a \<times> 'a \<times> 'a) \<times> ('a \<times> 'a \<times> 'a) \<Rightarrow> ('a \<times> 'a \<times> 'a) \<times> ('a \<times> 'a \<times> 'a) \<times> ('a \<times> 'a \<times> 'a)" where
  "columns ((a, b, c), (d, e, f), (g, h, i)) = ((a, d, g), (b, e, h), (c, f, i))"

definition MatMatModM :: "mat3 \<Rightarrow> mat3 \<Rightarrow> real \<Rightarrow> mat3" where
  "MatMatModM A B m =
    (case columns B of (v0, v1, v2) \<Rightarrow> columns (MatVecModM A v0 m, MatVecModM A v1 m, MatVecModM A v2 m))"

definition MatTwoPowModM :: "mat3 \<Rightarrow> real \<Rightarrow> int \<Rightarrow> mat3" where
  "MatTwoPowModM A m e = ((\<lambda>B. MatMatModM B B m) ^^ nat e) A"

function mat_pow_loop :: "mat3 \<Rightarrow> mat3 \<Rightarrow> real \<Rightarrow> int \<Rightarrow> mat3" where
  "mat_pow_loop W B m n =
    (if 0 < n
     then mat_pow_loop (MatMatModM W W m) (if n mod 2 \<noteq> 0 then MatMatModM W B m else B) m (n div 2)
     else B)"
  by pat_completeness auto
termination by (relation "measure (\<lambda>(W, B, m, n). nat n)") auto

declare mat_pow_loop.simps [simp del]

definition MatPowModM :: "mat3 \<Rightarrow> real \<Rightarrow> int \<Rightarrow> mat3" where
  "MatPowModM A m n = mat_pow_loop A ((1, 0, 0), (0, 1, 0), (0, 0, 1)) m n"

section \<open>Products\<close>

lemma ctrunc_minus: "ctrunc (- x) = - ctrunc x"
  by (auto simp: ctrunc_def ceiling_minus floor_minus)

text \<open>
  The quotient of two integers is cut to the exact one: it is at least \<open>1 / m\<close> below the next integer, and
  rounding moves it by less.
\<close>

lemma trunc_quotient_nonneg:
  assumes m: "0 < m" and v: "0 \<le> v" "v < 2 ^ 53"
  shows "ctrunc (ddiv (of_int v) (of_int m)) = v div m"
proof -
  let ?q = "of_int v / of_int m :: real" and ?n = "v div m"
  have "?n \<le> v" using v m by (metis div_by_1 int_one_le_iff_zero_less zdiv_mono2 zero_less_one)
  moreover have n0: "0 \<le> ?n" using v m by (simp add: pos_imp_zdiv_nonneg_iff)
  moreover have "of_int ?n \<le> ?q" by (metis floor_divide_of_int_eq of_int_floor_le)
  ultimately have lo: "of_int ?n \<le> dbl ?q" using v by (intro dbl_ge_int) simp_all
  have "v < 2 ^ 53" by (rule v)
  then have "real_of_int v < 2 ^ 53" by (metis of_int_less_iff of_int_numeral of_int_power)
  then have "?q / 2 ^ 53 < 1 / of_int m" using m by (simp add: divide_simps)
  moreover have "dbl ?q \<le> ?q + ?q / 2 ^ 53" using dbl_error [of ?q] v m by (simp add: abs_le_iff)
  moreover have "v + 1 \<le> (?n + 1) * m" using pos_mod_bound [OF m, of v] minus_div_mult_eq_mod [of v m] unfolding distrib_right mult_1 by linarith
  then have "real_of_int (v + 1) \<le> of_int ((?n + 1) * m)" by (simp only: of_int_le_iff)
  then have "(of_int v + 1) / of_int m \<le> (of_int ?n + 1 :: real)" using m by (simp add: pos_divide_le_eq)
  ultimately have hi: "dbl ?q < of_int ?n + 1" by (simp add: add_divide_distrib)
  have "\<lfloor>dbl ?q\<rfloor> = ?n" using lo hi by (intro floor_unique) simp_all
  moreover have "0 \<le> dbl ?q" using lo n0 by linarith
  ultimately show ?thesis by (simp add: ctrunc_def ddiv_def)
qed

lemma trunc_quotient:
  assumes m: "0 < m" and v: "\<bar>v\<bar> < 2 ^ 53"
  shows "ctrunc (ddiv (of_int v) (of_int m)) = sgn v * (\<bar>v\<bar> div m)"
proof (cases "0 \<le> v")
  case True
  then show ?thesis using trunc_quotient_nonneg [OF m, of v] v by (cases "v = 0") (simp_all add: sgn_if)
next
  case False
  then have "ctrunc (ddiv (of_int (- v)) (of_int m)) = - v div m" using trunc_quotient_nonneg [OF m, of "- v"] v by simp
  then show ?thesis using False by (simp add: ddiv_def dbl_minus ctrunc_minus sgn_if)
qed

lemma int_ops:
  "\<bar>x + y\<bar> \<le> 2 ^ 53 \<Longrightarrow> dadd (of_int x) (of_int y) = of_int (x + y)"
  "\<bar>x - y\<bar> \<le> 2 ^ 53 \<Longrightarrow> dsub (of_int x) (of_int y) = of_int (x - y)"
  "\<bar>x * y\<bar> \<le> 2 ^ 53 \<Longrightarrow> dmul (of_int x) (of_int y) = of_int (x * y)"
  "\<bar>x\<bar> \<le> 2 ^ 53 \<Longrightarrow> of_long x = of_int x"
  by (simp_all only: dbl_ops of_long_def dbl_int flip: of_int_add of_int_diff of_int_mult)

text \<open>The quotient fits in a \<open>long\<close> unless the modulus is small.\<close>

lemma quotient_fits:
  assumes "2 ^ 22 \<le> m" and "\<bar>v\<bar> < 2 ^ 53"
  shows "to_long (ddiv (of_int v) (of_int m)) = sgn v * (\<bar>v\<bar> div m)"
proof -
  have "\<bar>v\<bar> div m \<le> \<bar>v\<bar> div 2 ^ 22" using assms(1) by (intro zdiv_mono2) simp_all
  also have "\<dots> \<le> (2 ^ 53 - 1) div 2 ^ 22" using assms(2) by (intro zdiv_mono1) simp_all
  finally have "\<bar>v\<bar> div m < 2 ^ 31" by simp
  moreover have "0 \<le> \<bar>v\<bar> div m" using assms(1) by (simp add: pos_imp_zdiv_nonneg_iff)
  ultimately have "- (2 ^ 31) \<le> sgn v * (\<bar>v\<bar> div m) \<and> sgn v * (\<bar>v\<bar> div m) < 2 ^ 31" by (auto simp: sgn_if)
  with trunc_quotient [of m v] assms show ?thesis by (simp add: to_long_def)
qed

lemma remainder_exact:
  assumes m22: "2 ^ 22 \<le> m" and v: "\<bar>v\<bar> < 2 ^ 53"
  shows "dsub (of_int v) (dmul (of_long (to_long (ddiv (of_int v) (of_int m)))) (of_int m)) = of_int (sgn v * (\<bar>v\<bar> mod m))"
proof -
  let ?k = "\<bar>v\<bar> div m"
  have m: "0 < m" using m22 by simp
  have k: "0 \<le> ?k" "?k * m \<le> \<bar>v\<bar>" "?k \<le> \<bar>v\<bar>"
    using m by (simp_all add: pos_imp_zdiv_nonneg_iff minus_mod_eq_div_mult [symmetric])
      (metis abs_ge_zero div_by_1 int_one_le_iff_zero_less zdiv_mono2 zero_less_one m)
  have s: "\<bar>sgn v * ?k\<bar> \<le> ?k" "\<bar>sgn v * ?k * m\<bar> \<le> ?k * m" using k m by (auto simp: sgn_if abs_mult)
  have e: "v - sgn v * ?k * m = sgn v * (\<bar>v\<bar> mod m)"
    using mod_mult_self1 by (auto simp: sgn_if minus_div_mult_eq_mod [symmetric] algebra_simps)
  have "\<bar>sgn v * (\<bar>v\<bar> mod m)\<bar> \<le> \<bar>v\<bar>" using m by (auto simp: sgn_if abs_mult zmod_le_nonneg_dividend)
  then show ?thesis
    using k s v unfolding quotient_fits [OF m22 v]
    by (simp only: int_ops(1,3,4) int_ops(2) [of v "sgn v * ?k * m"] e)
qed

lemma remainder_nonneg:
  assumes m: "0 < m" and v: "0 \<le> v" "v < 2 ^ 53"
  shows "dsub (of_int v) (dmul (of_long (v div m)) (of_int m)) = of_int (v mod m)"
proof -
  have k: "0 \<le> v div m" "v div m * m \<le> v" "v div m \<le> v"
    using m v by (simp_all add: pos_imp_zdiv_nonneg_iff minus_mod_eq_div_mult [symmetric])
      (metis div_by_1 int_one_le_iff_zero_less zdiv_mono2 zero_less_one m)
  have "of_long (v div m) = of_int (v div m)" "dmul (of_int (v div m)) (of_int m) = of_int (v div m * m)"
    using k v m by (intro int_ops; simp add: abs_mult)+
  moreover have "v - v div m * m = v mod m" by (simp add: minus_div_mult_eq_mod)
  moreover have "0 \<le> v mod m" "v mod m \<le> v" using m v by (simp_all add: zmod_le_nonneg_dividend)
  ultimately show ?thesis using v int_ops(2) [of v "v div m * m"] by simp
qed

lemma mod_sgn: "0 < m \<Longrightarrow> (if sgn v * (\<bar>v\<bar> mod m) < 0 then sgn v * (\<bar>v\<bar> mod m) + m else sgn v * (\<bar>v\<bar> mod m)) = v mod (m :: int)"
proof -
  assume m: "0 < m"
  show ?thesis
  proof (cases "0 \<le> v")
    case False
    then have "- v mod m < m" "0 \<le> - v mod m" using m by simp_all
    then show ?thesis using False zmod_zminus1_eq_if [of "- v" m] by (auto simp: sgn_if)
  qed (use m in \<open>auto simp: sgn_if not_less\<close>)
qed

lemma reduce_exact:
  assumes m22: "2 ^ 22 \<le> m" "m \<le> 2 ^ 52" and v: "\<bar>v\<bar> < 2 ^ 53"
  shows "reduce (of_int v) (of_int m) = of_int (v mod m)"
proof -
  have m: "0 < m" "m \<le> 2 ^ 52" using m22 by simp_all
  have "\<bar>sgn v * (\<bar>v\<bar> mod m)\<bar> < m" using m(1) by (auto simp: sgn_if abs_mult)
  then have "dadd (of_int (sgn v * (\<bar>v\<bar> mod m))) (of_int m) = of_int (sgn v * (\<bar>v\<bar> mod m) + m)"
    using m(2) by (intro int_ops) simp
  then show ?thesis
    unfolding reduce_def Let_def remainder_exact [OF m22(1) v] mod_sgn [OF m(1), of v, symmetric]
    by (simp only: of_int_less_0_iff of_int_0 if_distrib) (simp split: if_splits)
qed


text \<open>\<open>MultModM\<close> within the bounds of its comment; \<open>2 ^ 35 = 34359738368\<close>.\<close>

lemma mult_small: "0 \<le> x \<Longrightarrow> x \<le> b \<Longrightarrow> 0 \<le> y \<Longrightarrow> y \<le> c \<Longrightarrow> x * y \<le> b * (c :: int)"
  by (intro mult_mono) auto

lemma split_mod: "(a div p * s mod m * p + a mod p * s + c) mod m = (a * s + c) mod (m :: int)"
proof -
  have "(a div p * s mod m * p + a mod p * s + c) mod m = (a div p * s * p + a mod p * s + c) mod m"
    by (intro mod_add_cong mod_mult_cong) simp_all
  also have "a div p * s * p + a mod p * s = a * s"
    by (metis div_mult_mod_eq distrib_right mult.assoc mult.commute)
  finally show ?thesis .
qed

lemma MultModM_small:
  assumes m: "2 ^ 22 \<le> m" "m < 2 ^ 35" and p: "\<bar>a * s\<bar> \<le> 2 ^ 53" "\<bar>a * s + c\<bar> < 2 ^ 53"
  shows "MultModM (of_int a) (of_int s) (of_int c) (of_int m) = of_int ((a * s + c) mod m)"
proof -
  have v: "dadd (dmul (of_int a) (of_int s)) (of_int c) = of_int (a * s + c)" using p by (simp only: int_ops less_imp_le)
  have "two53 = of_int (2 ^ 53)" by (simp add: two53_def)
  then have t: "\<not> (two53 \<le> of_int (a * s + c) \<or> of_int (a * s + c) \<le> - two53)"
    using p(2) by (simp only: abs_less_iff not_le de_Morgan_disj of_int_less_iff flip: of_int_minus) linarith
  show ?thesis
    unfolding MultModM_def Let_def v if_not_P [OF t] by (rule reduce_exact) (use m p in auto)
qed

lemma MultModM_split:
  assumes m22: "2 ^ 22 \<le> m" "m < 2 ^ 35" and b: "0 \<le> a" "a < 2 ^ 35" "0 \<le> s" "s < 2 ^ 35" "0 \<le> c" "c < 2 ^ 35"
    and w: "2 ^ 53 \<le> a * s + c"
  shows "MultModM (of_int a) (of_int s) (of_int c) (of_int m) = of_int ((a * s + c) mod m)"
proof -
  have m: "0 < m" "m < 2 ^ 35" using m22 by simp_all
  have two: "two53 = of_int (2 ^ 53)" "two17 = of_int 131072" by (simp_all add: two53_def two17_def)
  have "two53 \<le> dadd (dmul (of_int a) (of_int s)) (of_int c)"
  proof (cases "a * s \<le> 2 ^ 53")
    case True
    then have "dmul (of_int a) (of_int s) = of_int (a * s)" using b by (intro int_ops) simp
    then show ?thesis unfolding two dadd_def using w
      by (intro dbl_ge_int) (simp_all only: of_int_le_iff flip: of_int_add, simp)
  next
    case False
    then have "of_int (2 ^ 53) \<le> dmul (of_int a) (of_int s)"
      unfolding dmul_def by (intro dbl_ge_int) (simp_all only: of_int_le_iff flip: of_int_mult, simp_all)
    then show ?thesis unfolding two dadd_def using b(5) by (intro dbl_ge_int) simp_all
  qed
  then have t: "two53 \<le> dadd (dmul (of_int a) (of_int s)) (of_int c) \<or> dadd (dmul (of_int a) (of_int s)) (of_int c) \<le> - two53" ..
  let ?k = "a div 131072" and ?r = "a mod 131072"
  have k: "0 \<le> ?k" "?k \<le> 262143" "0 \<le> ?r" "?r \<le> 131071" using b(1,2) by auto
  have "ctrunc (ddiv (of_int a) two17) = ?k"
    unfolding two using b by (intro trunc_quotient_nonneg) simp_all
  then have a1: "to_long (ddiv (of_int a) two17) = ?k" using k by (simp add: to_long_def)
  have r: "dsub (of_int a) (dmul (of_long ?k) two17) = of_int ?r"
    unfolding two using remainder_nonneg [of 131072 a] b by simp
  have ks: "?k * s \<le> 262143 * 34359738367" "0 \<le> ?k * s"
    using k b by (intro mult_small mult_nonneg_nonneg; simp)+
  have "of_long ?k = of_int ?k" using k by (intro int_ops) simp
  then have v: "dmul (of_long ?k) (of_int s) = of_int (?k * s)" using ks int_ops(3) [of ?k s] by simp
  let ?v = "?k * s mod m"
  have v0: "0 \<le> ?v" "?v \<le> 34359738366" using m by (auto simp: le_less_trans [OF _ m(2)] intro: order_trans [of _ "m - 1"])
  have q: "dsub (of_int (?k * s)) (dmul (of_long (to_long (ddiv (of_int (?k * s)) (of_int m)))) (of_int m)) = of_int ?v"
    using remainder_exact [OF m22(1), of "?k * s"] ks by (simp add: sgn_if split: if_splits)
  have rs: "0 \<le> ?r * s" "?r * s \<le> 131071 * 34359738367"
    using k b by (intro mult_small mult_nonneg_nonneg; simp)+
  have x: "dmul (of_int ?v) two17 = of_int (?v * 131072)" "dmul (of_int ?r) (of_int s) = of_int (?r * s)"
    unfolding two using v0 rs by (intro int_ops; simp)+
  have y: "dadd (of_int (?v * 131072)) (of_int (?r * s)) = of_int (?v * 131072 + ?r * s)"
    using v0 rs by (intro int_ops) simp
  have z: "dadd (of_int (?v * 131072 + ?r * s)) (of_int c) = of_int (?v * 131072 + ?r * s + c)"
    using v0 rs b by (intro int_ops) simp
  have "reduce (of_int (?v * 131072 + ?r * s + c)) (of_int m) = of_int ((?v * 131072 + ?r * s + c) mod m)"
    using m22 v0 rs b by (intro reduce_exact) simp_all
  then show ?thesis
    unfolding MultModM_def Let_def if_P [OF t] a1 r v q x y z split_mod .
qed

lemma MultModM_exact:
  assumes "2 ^ 22 \<le> m" "m < 2 ^ 35" and "\<bar>a\<bar> < 2 ^ 35" "\<bar>s\<bar> < 2 ^ 35" "0 \<le> c" "c < 2 ^ 35"
    and "0 \<le> a \<and> 0 \<le> s \<or> \<bar>a * s\<bar> + c < 2 ^ 53"
  shows "MultModM (of_int a) (of_int s) (of_int c) (of_int m) = of_int ((a * s + c) mod m)"
proof (cases "\<bar>a * s\<bar> + c < 2 ^ 53")
  case True
  then show ?thesis using assms by (intro MultModM_small) (auto simp: abs_if split: if_splits)
next
  case False
  then show ?thesis using assms by (intro MultModM_split) auto
qed

text \<open>
  The comment of \<open>MultModM\<close> asks only for numbers below \<open>2 ^ 35\<close>. With a \<open>long\<close> of 32 bits that is not enough: for a
  small modulus the quotient does not fit.
\<close>

lemma mult_mod_overflows: "MultModM 67108864 67108864 0 1 \<noteq> 0"
proof -
  have d: "dmul 67108864 67108864 = 4503599627370496" "dadd 4503599627370496 0 = 4503599627370496"
    using int_ops(3) [of 67108864 67108864] int_ops(1) [of 4503599627370496 0] by simp_all
  have q: "ddiv 4503599627370496 1 = 4503599627370496" using dbl_int [of 4503599627370496] by (simp add: ddiv_def)
  have l: "to_long 4503599627370496 = - 2147483648" by (simp add: to_long_def ctrunc_def)
  have o: "of_long (- 2147483648) = - 2147483648" "dmul (- 2147483648) 1 = - 2147483648"
    "dsub 4503599627370496 (- 2147483648) = 4503601774854144"
    using int_ops(4) [of "- 2147483648"] int_ops(3) [of "- 2147483648" 1]
      int_ops(2) [of 4503599627370496 "- 2147483648"] by simp_all
  show ?thesis
    by (simp add: MultModM_def Let_def d two53_def reduce_def q l o)
qed

text \<open>
  C17: \<open>MultModM\<close> is exact for factors, summand and modulus below \<open>2 ^ 35\<close>, as its comment says, and a modulus of at least
  \<open>2 ^ 22\<close>, as those of the generator: the result is the
  remainder of \<open>a s + c\<close>, although the product has up to 70 bits and a double keeps 53, and although quotients are
  converted to a \<open>long\<close> of 32 bits. (For smaller moduli, which the comment allows, they need not fit: \<open>mult_mod_overflows\<close>.)
\<close>

theorem mult_mod_exact:
  assumes "2 ^ 22 \<le> m" "m < 2 ^ 35" and "0 \<le> a" "a < 2 ^ 35" and "0 \<le> s" "s < 2 ^ 35" and "0 \<le> c" "c < 2 ^ 35"
  shows "MultModM (of_int a) (of_int s) (of_int c) (of_int m) = of_int ((a * s + c) mod m)"
  using assms by (intro MultModM_exact) simp_all

theorem mult_mod_exact_witness: "MultModM 4294967086 4294967086 5 4294967087 = 6"
  using mult_mod_exact [of 4294967087 4294967086 4294967086 5] by simp

end
