(* ===== verification/Rng_Matrix.thy ===== *)
theory Rng_Matrix
  imports Rng_Arith
begin

text \<open>
  The matrices of Rng_Arith.thy on integers. The operations in doubles give exactly the integer ones when the
  entries are below \<open>2 ^ 32\<close> and the negative ones (in the matrices of one step) above \<open>- (2 ^ 21)\<close>. A power
  of a matrix jumps over that many steps.
\<close>

type_synonym ivec3 = "int \<times> int \<times> int"
type_synonym imat3 = "ivec3 \<times> ivec3 \<times> ivec3"

fun irow :: "int \<Rightarrow> ivec3 \<Rightarrow> ivec3 \<Rightarrow> int" where
  "irow m (a, b, c) (x, y, z) = (a * x + b * y + c * z) mod m"

fun imvec :: "int \<Rightarrow> imat3 \<Rightarrow> ivec3 \<Rightarrow> ivec3" where
  "imvec m (r0, r1, r2) v = (irow m r0 v, irow m r1 v, irow m r2 v)"

definition immul :: "int \<Rightarrow> imat3 \<Rightarrow> imat3 \<Rightarrow> imat3" where
  "immul m A B =
    (case columns B of (v0, v1, v2) \<Rightarrow> columns (imvec m A v0, imvec m A v1, imvec m A v2))"

fun rvec :: "ivec3 \<Rightarrow> vec3" where
  "rvec (x, y, z) = (of_int x, of_int y, of_int z)"

fun rmat :: "imat3 \<Rightarrow> mat3" where
  "rmat (x, y, z) = (rvec x, rvec y, rvec z)"

text \<open>Entries that the arithmetic in doubles can take, and reduced vectors.\<close>

definition entry :: "int \<Rightarrow> bool" where
  "entry x \<longleftrightarrow> - (2 ^ 21) < x \<and> x < 2 ^ 32"

fun all3 :: "('a \<Rightarrow> bool) \<Rightarrow> 'a \<times> 'a \<times> 'a \<Rightarrow> bool" where
  "all3 P (x, y, z) \<longleftrightarrow> P x \<and> P y \<and> P z"

abbreviation reduced :: "int \<Rightarrow> ivec3 \<Rightarrow> bool" where
  "reduced m \<equiv> all3 (\<lambda>x. 0 \<le> x \<and> x < m)"

abbreviation entries :: "imat3 \<Rightarrow> bool" where
  "entries \<equiv> all3 (all3 entry)"

definition modulus :: "int \<Rightarrow> bool" where
  "modulus m \<longleftrightarrow> 2 ^ 22 \<le> m \<and> m \<le> 2 ^ 32"

section \<open>Nothing is rounded\<close>

lemma entry_product:
  assumes "entry a" and "entry s" and "0 \<le> c" and "c < 2 ^ 32"
  shows "0 \<le> a \<and> 0 \<le> s \<or> \<bar>a * s\<bar> + c < 2 ^ 53"
proof -
  have *: "\<bar>x * y\<bar> + c < 2 ^ 53" if "entry x" "entry y" "x < 0" for x y
  proof -
    have "\<bar>x\<bar> \<le> 2097151" "\<bar>y\<bar> \<le> 4294967295" using that by (auto simp: entry_def)
    then have "\<bar>x\<bar> * \<bar>y\<bar> \<le> 2097151 * 4294967295" by (intro mult_small) simp_all
    then show ?thesis using assms by (simp add: abs_mult)
  qed
  show ?thesis using *[of a s] *[of s a] assms by (cases "a < 0"; cases "s < 0") (auto simp: mult.commute)
qed

lemma entry_exact:
  assumes "modulus m" and "entry a" and "entry s" and "0 \<le> c" and "c < m"
  shows "MultModM (of_int a) (of_int s) (of_int c) (of_int m) = of_int ((a * s + c) mod m)"
  using assms entry_product [of a s c] by (intro MultModM_exact) (auto simp: modulus_def entry_def)

lemma mod_entry: "modulus m \<Longrightarrow> 0 \<le> x mod m \<and> x mod m < m"
  by (simp add: modulus_def)

lemma reduced_entry: "modulus m \<Longrightarrow> 0 \<le> x \<Longrightarrow> x < m \<Longrightarrow> entry x"
  by (simp add: modulus_def entry_def)

lemma vec_row_exact:
  assumes m: "modulus m" and "all3 entry a" and "all3 entry s"
  shows "vec_row (rvec a) (rvec s) (of_int m) = of_int (irow m a s)"
proof -
  obtain a0 a1 a2 s0 s1 s2 where e: "a = (a0, a1, a2)" "s = (s0, s1, s2)" by (cases a, cases s)
  have "MultModM (of_int a0) (of_int s0) (of_int 0) (of_int m) = of_int ((a0 * s0 + 0) mod m)"
    using assms e m by (intro entry_exact) (simp_all add: modulus_def)
  moreover have "(a2 * s2 + (a1 * s1 + (a0 * s0 + 0) mod m) mod m) mod m = (a0 * s0 + a1 * s1 + a2 * s2) mod m"
    by (simp add: mod_simps algebra_simps)
  ultimately show ?thesis
    using assms mod_entry [OF m] by (simp add: e entry_exact)
qed

lemma MatVecModM_exact:
  "modulus m \<Longrightarrow> entries A \<Longrightarrow> all3 entry s \<Longrightarrow> MatVecModM (rmat A) (rvec s) (of_int m) = rvec (imvec m A s)"
proof -
  assume a: "modulus m" "entries A" "all3 entry s"
  obtain r0 r1 r2 where "A = (r0, r1, r2)" by (cases A)
  with a show ?thesis by (simp add: vec_row_exact)
qed

lemma columns_rmat: "columns (rmat B) = (case columns B of (v0, v1, v2) \<Rightarrow> (rvec v0, rvec v1, rvec v2))"
  by (cases B rule: columns.cases) simp

lemma columns_entries: "entries (columns B) \<longleftrightarrow> entries B"
  by (cases B rule: columns.cases) auto

lemma reduced_imvec: "modulus m \<Longrightarrow> reduced m (imvec m A v)"
  by (cases A rule: columns.cases; cases v) (simp add: modulus_def)

lemma reduced_entries: "modulus m \<Longrightarrow> reduced m v \<Longrightarrow> all3 entry v"
  by (cases v) (simp add: modulus_def entry_def)

lemma entries_immul: "modulus m \<Longrightarrow> entries (immul m A B)"
  unfolding immul_def by (cases "columns B") (simp add: columns_entries reduced_imvec reduced_entries)

lemma MatMatModM_exact:
  assumes "modulus m" and "entries A" and "entries B"
  shows "MatMatModM (rmat A) (rmat B) (of_int m) = rmat (immul m A B)"
proof -
  obtain v0 v1 v2 where c: "columns B = (v0, v1, v2)" by (cases "columns B")
  then have "all3 entry v0" "all3 entry v1" "all3 entry v2" using assms(3) columns_entries [of B] by simp_all
  moreover have "columns (rvec x, rvec y, rvec z) = rmat (columns (x, y, z))" for x y z
    by (cases x; cases y; cases z) simp
  ultimately show ?thesis
    using assms by (simp add: MatMatModM_def immul_def columns_rmat c MatVecModM_exact)
qed

section \<open>Powers jump over steps\<close>

definition jumps :: "int \<Rightarrow> imat3 \<Rightarrow> imat3 \<Rightarrow> nat \<Rightarrow> bool" where
  "jumps m A B n \<longleftrightarrow> (\<forall>v. reduced m v \<longrightarrow> imvec m B v = (imvec m A ^^ n) v)"

lemma row_mod:
  "(p mod m * x + q mod m * y + r mod m * z) mod m = (p * x + q * y + r * z) mod (m :: int)"
  "(x * (p mod m) + y * (q mod m) + z * (r mod m)) mod m = (x * p + y * q + z * r) mod m"
  by (intro mod_add_cong mod_mult_cong; simp)+

lemma imvec_immul: "imvec m (immul m A B) v = imvec m A (imvec m B v)"
proof -
  have row: "irow m (irow m a (b0, b3, b6), irow m a (b1, b4, b7), irow m a (b2, b5, b8)) (x, y, z)
      = irow m a (irow m (b0, b1, b2) (x, y, z), irow m (b3, b4, b5) (x, y, z), irow m (b6, b7, b8) (x, y, z))"
    for a b0 b1 b2 b3 b4 b5 b6 b7 b8 x y z
    by (cases a) (simp only: irow.simps row_mod, simp add: algebra_simps)
  obtain x y z where v: "v = (x, y, z)" by (cases v)
  obtain a0 a1 a2 where a: "A = (a0, a1, a2)" by (cases A)
  show ?thesis by (cases B rule: columns.cases) (simp only: v a immul_def columns.simps prod.case imvec.simps row)
qed

lemma jumps_1: "jumps m A A 1"
  by (simp add: jumps_def)

lemma jumps_0: "jumps m A ((1, 0, 0), (0, 1, 0), (0, 0, 1)) 0"
  by (auto simp: jumps_def)

lemma jumps_immul:
  assumes "modulus m" and "jumps m A B n" and "jumps m A C k"
  shows "jumps m A (immul m B C) (n + k)"
  unfolding jumps_def
proof (intro allI impI)
  fix v
  assume v: "reduced m v"
  then have "imvec m C v = (imvec m A ^^ k) v" using assms(3) by (simp only: jumps_def)
  moreover have "imvec m B (imvec m C v) = (imvec m A ^^ n) (imvec m C v)"
    using assms(2) reduced_imvec [OF assms(1), of C v] by (simp only: jumps_def)
  ultimately show "imvec m (immul m B C) v = (imvec m A ^^ (n + k)) v"
    by (simp only: imvec_immul funpow_add comp_apply)
qed

definition imat_two_pow :: "int \<Rightarrow> imat3 \<Rightarrow> nat \<Rightarrow> imat3" where
  "imat_two_pow m A e = ((\<lambda>B. immul m B B) ^^ e) A"

function imat_pow_loop :: "int \<Rightarrow> imat3 \<Rightarrow> imat3 \<Rightarrow> int \<Rightarrow> imat3" where
  "imat_pow_loop m W B n =
    (if 0 < n then imat_pow_loop m (immul m W W) (if n mod 2 \<noteq> 0 then immul m W B else B) (n div 2) else B)"
  by pat_completeness auto
termination by (relation "measure (\<lambda>(m, W, B, n). nat n)") auto

declare imat_pow_loop.simps [simp del]

definition imat_pow :: "int \<Rightarrow> imat3 \<Rightarrow> int \<Rightarrow> imat3" where
  "imat_pow m A n = imat_pow_loop m A ((1, 0, 0), (0, 1, 0), (0, 0, 1)) n"

lemma MatTwoPowModM_exact:
  assumes m: "modulus m" and A: "entries A"
  shows "MatTwoPowModM (rmat A) (of_int m) e = rmat (imat_two_pow m A (nat e)) \<and> entries (imat_two_pow m A (nat e))
    \<and> jumps m A (imat_two_pow m A (nat e)) (2 ^ nat e)"
proof -
  have "((\<lambda>B. MatMatModM B B (of_int m)) ^^ n) (rmat A) = rmat (imat_two_pow m A n) \<and> entries (imat_two_pow m A n)
      \<and> jumps m A (imat_two_pow m A n) (2 ^ n)" for n
  proof (induction n)
    case 0
    show ?case using A jumps_1 [of m A] by (simp add: imat_two_pow_def)
  next
    case (Suc n)
    have "imat_two_pow m A (Suc n) = immul m (imat_two_pow m A n) (imat_two_pow m A n)" by (simp add: imat_two_pow_def)
    then show ?case
      using Suc.IH jumps_immul [OF m, of A "imat_two_pow m A n" "2 ^ n" "imat_two_pow m A n" "2 ^ n"]
      by (simp add: MatMatModM_exact [OF m] entries_immul [OF m] mult_2)
  qed
  then show ?thesis unfolding MatTwoPowModM_def .
qed

lemma half_steps: "0 < n \<Longrightarrow> nat n = 2 * nat (n div 2) + (if n mod 2 \<noteq> 0 then 1 else 0)"
proof -
  assume n: "0 < n"
  have "n = 2 * (n div 2) + (if n mod 2 \<noteq> 0 then 1 else 0)" by presburger
  with n show ?thesis by (auto split: if_splits)
qed

lemma mat_pow_loop_exact:
  assumes "modulus m" and "entries W" and "entries B" and "jumps m A W w" and "jumps m A B b" and "0 \<le> n"
  shows "mat_pow_loop (rmat W) (rmat B) (of_int m) n = rmat (imat_pow_loop m W B n) \<and> entries (imat_pow_loop m W B n)
    \<and> jumps m A (imat_pow_loop m W B n) (b + w * nat n)"
  using assms(2-6)
proof (induction "nat n" arbitrary: W B w b n rule: less_induct)
  case less
  note m = assms(1)
  show ?case
  proof (cases "0 < n")
    case True
    define B' where "B' = (if n mod 2 \<noteq> 0 then immul m W B else B)"
    define b' where "b' = (if n mod 2 \<noteq> 0 then w + b else b)"
    have B': "entries B'" "jumps m A B' b'" using less.prems entries_immul [OF m] jumps_immul [OF m]
      by (simp_all add: B'_def b'_def)
    have W': "entries (immul m W W)" "jumps m A (immul m W W) (w + w)"
      using less.prems entries_immul [OF m] jumps_immul [OF m] by simp_all
    have h: "nat (n div 2) < nat n" "0 \<le> n div 2" using True by simp_all
    have "b' + (w + w) * nat (n div 2) = b + w * nat n"
      unfolding half_steps [OF True] by (simp add: b'_def algebra_simps)
    moreover have "mat_pow_loop (rmat W) (rmat B) (of_int m) n = mat_pow_loop (rmat (immul m W W)) (rmat B') (of_int m) (n div 2)"
      using True less.prems by (subst mat_pow_loop.simps) (simp add: B'_def MatMatModM_exact [OF m])
    moreover have "imat_pow_loop m W B n = imat_pow_loop m (immul m W W) B' (n div 2)"
      using True by (subst imat_pow_loop.simps) (simp add: B'_def)
    ultimately show ?thesis using less.hyps [OF h(1) W'(1) B'(1) W'(2) B'(2) h(2)] by simp
  next
    case False
    then show ?thesis using less.prems by (subst mat_pow_loop.simps, subst (1 2 3) imat_pow_loop.simps) simp
  qed
qed

lemma MatPowModM_exact:
  assumes "modulus m" and "entries A" and "0 \<le> n"
  shows "MatPowModM (rmat A) (of_int m) n = rmat (imat_pow m A n) \<and> entries (imat_pow m A n)
    \<and> jumps m A (imat_pow m A n) (nat n)"
proof -
  have "entries ((1, 0, 0), (0, 1, 0), (0, 0, 1))" by (simp add: entry_def)
  from mat_pow_loop_exact [OF assms(1,2) this jumps_1 jumps_0 assms(3)] show ?thesis
    by (simp add: MatPowModM_def imat_pow_def)
qed

end
