(* ===== verification/Rng_Tables.thy ===== *)
theory Rng_Tables
  imports Rng_Matrix
begin

text \<open>
  The tables of src/ns-2.34/tools/rng.cc for jumps over \<open>2 ^ 76\<close> and \<open>2 ^ 127\<close> steps (\<open>A1p76\<close>, \<open>A1p127\<close> and
  the same for the second component), recomputed from the matrices of one step by squaring, in a few stages.
\<close>

fun squares :: "int \<Rightarrow> nat \<Rightarrow> imat3 \<Rightarrow> imat3" where
  "squares m 0 B = B"
| "squares m (Suc n) B = squares m n (immul m B B)"

lemma squares_add: "squares m (a + b) B = squares m b (squares m a B)"
  by (induction a arbitrary: B) simp_all

lemma squares_two_pow: "imat_two_pow m A n = squares m n A"
  unfolding imat_two_pow_def by (induction n arbitrary: A) (simp_all add: funpow_Suc_right del: funpow.simps)

text \<open>A chain of stages, each computed by itself.\<close>

definition stage :: "int \<Rightarrow> nat \<Rightarrow> imat3 \<Rightarrow> imat3 \<Rightarrow> bool" where
  "stage m n A B \<longleftrightarrow> squares m n A = B"

lemma stage_trans: "stage m a A B \<Longrightarrow> stage m b B C \<Longrightarrow> stage m (a + b) A C"
  by (simp add: stage_def squares_add)

lemma stage1_16: "stage 4294967087 16
    ((0, 1, 0), (0, 0, 1),
      (- 810728, 1403580, 0))
    ((2256493727, 3715182130, 642697923), (3615342722, 3975008370, 3715182130),
      (2405650329, 754337639, 3975008370))"
  by code_simp

lemma stage1_32: "stage 4294967087 16
    ((2256493727, 3715182130, 642697923), (3615342722, 3975008370, 3715182130),
      (2405650329, 754337639, 3975008370))
    ((1891490872, 1130489594, 3734864133), (1457450350, 3362920032, 1130489594),
      (638998846, 1401175590, 3362920032))"
  by code_simp

lemma stage1_48: "stage 4294967087 16
    ((1891490872, 1130489594, 3734864133), (1457450350, 3362920032, 1130489594),
      (638998846, 1401175590, 3362920032))
    ((1198519135, 2007945401, 3868481), (3335076429, 2082683147, 2007945401),
      (2341088247, 888193479, 2082683147))"
  by code_simp

lemma stage1_64: "stage 4294967087 16
    ((1198519135, 2007945401, 3868481), (3335076429, 2082683147, 2007945401),
      (2341088247, 888193479, 2082683147))
    ((3426136514, 4123590610, 2477690850), (1284315665, 1604068527, 4123590610),
      (1818147893, 320435440, 1604068527))"
  by code_simp

lemma stage1_76: "stage 4294967087 12
    ((3426136514, 4123590610, 2477690850), (1284315665, 1604068527, 4123590610),
      (1818147893, 320435440, 1604068527))
    ((82758667, 1871391091, 4127413238), (3672831523, 69195019, 1871391091),
      (3672091415, 3528743235, 69195019))"
  by code_simp

lemma stage1_92: "stage 4294967087 16
    ((82758667, 1871391091, 4127413238), (3672831523, 69195019, 1871391091),
      (3672091415, 3528743235, 69195019))
    ((2760311307, 4166372813, 741596417), (2282679206, 3090782630, 4166372813),
      (3242468721, 1628442374, 3090782630))"
  by code_simp

lemma stage1_108: "stage 4294967087 16
    ((2760311307, 4166372813, 741596417), (2282679206, 3090782630, 4166372813),
      (3242468721, 1628442374, 3090782630))
    ((4064845753, 668285756, 3816217625), (3713143233, 1380634204, 668285756),
      (3533700508, 1192551435, 1380634204))"
  by code_simp

lemma stage1_127: "stage 4294967087 19
    ((4064845753, 668285756, 3816217625), (3713143233, 1380634204, 668285756),
      (3533700508, 1192551435, 1380634204))
    ((2427906178, 3580155704, 949770784), (226153695, 1230515664, 3580155704),
      (1988835001, 986791581, 1230515664))"
  by code_simp

lemma stage2_16: "stage 4294944443 16
    ((0, 1, 0), (0, 0, 1),
      (- 1370589, 0, 527612))
    ((2569413030, 1631336015, 2594942403), (1030618503, 2569413030, 3467650326),
      (1998739584, 1030618503, 3174552073))"
  by code_simp

lemma stage2_32: "stage 4294944443 16
    ((2569413030, 1631336015, 2594942403), (1030618503, 2569413030, 3467650326),
      (1998739584, 1030618503, 3174552073))
    ((2709640529, 676525399, 875361870), (1315499519, 2709640529, 3842690720),
      (3300994644, 1315499519, 2446760804))"
  by code_simp

lemma stage2_48: "stage 4294944443 16
    ((2709640529, 676525399, 875361870), (1315499519, 2709640529, 3842690720),
      (3300994644, 1315499519, 2446760804))
    ((1481142942, 4120754772, 1088557292), (265491023, 1481142942, 2860005744),
      (301796252, 265491023, 1935975979))"
  by code_simp

lemma stage2_64: "stage 4294944443 16
    ((1481142942, 4120754772, 1088557292), (265491023, 1481142942, 2860005744),
      (301796252, 265491023, 1935975979))
    ((185429251, 88142322, 3372328450), (1198432931, 185429251, 1527068783),
      (2880072915, 1198432931, 2782214191))"
  by code_simp

lemma stage2_76: "stage 4294944443 12
    ((185429251, 88142322, 3372328450), (1198432931, 185429251, 1527068783),
      (2880072915, 1198432931, 2782214191))
    ((1511326704, 3759209742, 1610795712), (4292754251, 1511326704, 3889917532),
      (3859662829, 4292754251, 3708466080))"
  by code_simp

lemma stage2_92: "stage 4294944443 16
    ((1511326704, 3759209742, 1610795712), (4292754251, 1511326704, 3889917532),
      (3859662829, 4292754251, 3708466080))
    ((1293182265, 3168473803, 366230236), (3319068849, 1293182265, 1085259665),
      (1675229290, 3319068849, 3912300371))"
  by code_simp

lemma stage2_108: "stage 4294944443 16
    ((1293182265, 3168473803, 366230236), (3319068849, 1293182265, 1085259665),
      (1675229290, 3319068849, 3912300371))
    ((1318489562, 1530977112, 3713577419), (4270158447, 1318489562, 1654940598),
      (2679964938, 4270158447, 1337075195))"
  by code_simp

lemma stage2_127: "stage 4294944443 19
    ((1318489562, 1530977112, 3713577419), (4270158447, 1318489562, 1654940598),
      (2679964938, 4270158447, 1337075195))
    ((1464411153, 277697599, 1610723613), (32183930, 1464411153, 1022607788),
      (2824425944, 32183930, 2093834863))"
  by code_simp

lemma table1_76: "stage 4294967087 76
    ((0, 1, 0), (0, 0, 1),
      (- 810728, 1403580, 0))
    ((82758667, 1871391091, 4127413238), (3672831523, 69195019, 1871391091),
      (3672091415, 3528743235, 69195019))"
  using stage_trans [OF stage_trans [OF stage_trans [OF stage_trans [OF stage1_16 stage1_32] stage1_48] stage1_64] stage1_76]
  by simp

lemma table1_127: "stage 4294967087 127
    ((0, 1, 0), (0, 0, 1),
      (- 810728, 1403580, 0))
    ((2427906178, 3580155704, 949770784), (226153695, 1230515664, 3580155704),
      (1988835001, 986791581, 1230515664))"
  using stage_trans [OF stage_trans [OF stage_trans [OF table1_76 stage1_92] stage1_108] stage1_127]
  by simp

lemma table2_76: "stage 4294944443 76
    ((0, 1, 0), (0, 0, 1),
      (- 1370589, 0, 527612))
    ((1511326704, 3759209742, 1610795712), (4292754251, 1511326704, 3889917532),
      (3859662829, 4292754251, 3708466080))"
  using stage_trans [OF stage_trans [OF stage_trans [OF stage_trans [OF stage2_16 stage2_32] stage2_48] stage2_64] stage2_76]
  by simp

lemma table2_127: "stage 4294944443 127
    ((0, 1, 0), (0, 0, 1),
      (- 1370589, 0, 527612))
    ((1464411153, 277697599, 1610723613), (32183930, 1464411153, 1022607788),
      (2824425944, 32183930, 2093834863))"
  using stage_trans [OF stage_trans [OF stage_trans [OF table2_76 stage2_92] stage2_108] stage2_127]
  by simp

end
