(* ===== verification/Rng_Streams.thy ===== *)
theory Rng_Streams
  imports Rng Rng_Tables
begin

text \<open>
  The states that the generator goes through. \<open>next6\<close> is one step of the two recurrences on integers; every draw,
  every jump and every seed of Rng.thy is a number of such steps, exactly.
\<close>

definition M1 :: int where "M1 = 4294967087"
definition M2 :: int where "M2 = 4294944443"

definition A1 :: imat3 where "A1 = ((0, 1, 0), (0, 0, 1), (- 810728, 1403580, 0))"
definition A2 :: imat3 where "A2 = ((0, 1, 0), (0, 0, 1), (- 1370589, 0, 527612))"
definition B1 :: imat3 where "B1 = ((184888585, 0, 1945170933), (1, 0, 0), (0, 1, 0))"
definition B2 :: imat3 where "B2 = ((0, 360363334, 4225571728), (1, 0, 0), (0, 1, 0))"

type_synonym ivec6 = "ivec3 \<times> ivec3"

definition next6 :: "ivec6 \<Rightarrow> ivec6" where
  "next6 x = (imvec M1 A1 (fst x), imvec M2 A2 (snd x))"

definition r6 :: "ivec6 \<Rightarrow> vec6" where
  "r6 x = (rvec (fst x), rvec (snd x))"

definition red6 :: "ivec6 \<Rightarrow> bool" where
  "red6 x \<longleftrightarrow> reduced M1 (fst x) \<and> reduced M2 (snd x)"

text \<open>A legal state: reduced, and neither component is zero.\<close>

definition legal :: "ivec6 \<Rightarrow> bool" where
  "legal x \<longleftrightarrow> red6 x \<and> fst x \<noteq> (0, 0, 0) \<and> snd x \<noteq> (0, 0, 0)"

lemma moduli: "modulus M1" "modulus M2"
  by (simp_all add: modulus_def M1_def M2_def)

lemma double_consts: "m1 = of_int M1" "m2 = of_int M2" "A1p0 = rmat A1" "A2p0 = rmat A2" "InvA1 = rmat B1" "InvA2 = rmat B2"
  by (simp_all add: m1_def m2_def M1_def M2_def A1p0_def A2p0_def InvA1_def InvA2_def A1_def A2_def B1_def B2_def)

lemma entries_consts: "entries A1" "entries A2" "entries B1" "entries B2"
  by (simp_all add: A1_def A2_def B1_def B2_def entry_def)

lemma red6_next6: "red6 (next6 x)"
  by (simp add: red6_def next6_def reduced_imvec moduli del: imvec.simps)

lemma red6_pow: "red6 x \<Longrightarrow> red6 ((next6 ^^ n) x)"
  by (induction n) (simp_all add: red6_next6)

lemma next6_pow: "(next6 ^^ n) x = ((imvec M1 A1 ^^ n) (fst x), (imvec M2 A2 ^^ n) (snd x))"
  by (induction n) (simp_all add: next6_def del: imvec.simps)

section \<open>The inverse\<close>

lemma inverse_matrices:
  "immul M1 B1 A1 = ((1, 0, 0), (0, 1, 0), (0, 0, 1))" "immul M1 A1 B1 = ((1, 0, 0), (0, 1, 0), (0, 0, 1))"
  "immul M2 B2 A2 = ((1, 0, 0), (0, 1, 0), (0, 0, 1))" "immul M2 A2 B2 = ((1, 0, 0), (0, 1, 0), (0, 0, 1))"
  by code_simp+

lemma imvec_id: "reduced m v \<Longrightarrow> imvec m ((1, 0, 0), (0, 1, 0), (0, 0, 1)) v = v"
  by (cases v) simp

lemma inverse_step:
  "reduced M1 u \<Longrightarrow> imvec M1 B1 (imvec M1 A1 u) = u" "reduced M1 u \<Longrightarrow> imvec M1 A1 (imvec M1 B1 u) = u"
  "reduced M2 v \<Longrightarrow> imvec M2 B2 (imvec M2 A2 v) = v" "reduced M2 v \<Longrightarrow> imvec M2 A2 (imvec M2 B2 v) = v"
  by (simp_all only: imvec_id inverse_matrices flip: imvec_immul)

lemma legal_next6: "legal x \<Longrightarrow> legal (next6 x)"
proof -
  assume a: "legal x"
  have z: "imvec m A (0, 0, 0) = (0, 0, 0)" for m A by (cases A rule: columns.cases) simp
  have "imvec M1 A1 (fst x) \<noteq> (0, 0, 0)" using inverse_step(1) [of "fst x"] a z by (metis legal_def red6_def)
  moreover have "imvec M2 A2 (snd x) \<noteq> (0, 0, 0)" using inverse_step(3) [of "snd x"] a z by (metis legal_def red6_def)
  ultimately show ?thesis using red6_next6 [of x] by (simp add: legal_def next6_def del: imvec.simps)
qed

lemma legal_pow: "legal x \<Longrightarrow> legal ((next6 ^^ n) x)"
  by (induction n) (simp_all add: legal_next6)

text \<open>Only a legal state leads to a legal state.\<close>

lemma legal_before: "red6 x \<Longrightarrow> legal ((next6 ^^ n) x) \<Longrightarrow> legal x"
proof -
  have z: "(imvec m A ^^ n) (0, 0, 0) = (0, 0, 0)" for m A by (induction n) (cases A rule: columns.cases; simp)+
  show "red6 x \<Longrightarrow> legal ((next6 ^^ n) x) \<Longrightarrow> legal x"
    using z [of M1 A1] z [of M2 A2] by (auto simp: legal_def next6_pow simp del: imvec.simps)
qed

section \<open>Jumps\<close>

lemma jump_matrices:
  "A1p76 = rmat (imat_two_pow M1 A1 76)" "A2p76 = rmat (imat_two_pow M2 A2 76)"
  "A1p127 = rmat (imat_two_pow M1 A1 127)" "A2p127 = rmat (imat_two_pow M2 A2 127)"
  using table1_76 table2_76 table1_127 table2_127
  by (simp_all add: squares_two_pow stage_def M1_def M2_def A1_def A2_def A1p76_def A2p76_def A1p127_def A2p127_def)

lemma jump6_exact:
  assumes "red6 x" and "jumps M1 A1 A n" and "jumps M2 A2 B n" and "entries A" and "entries B"
  shows "jump6 (rmat A) (rmat B) (r6 x) = r6 ((next6 ^^ n) x)"
  using assms reduced_entries [OF moduli(1)] reduced_entries [OF moduli(2)]
  by (simp add: jump6_def r6_def double_consts MatVecModM_exact moduli red6_def jumps_def next6_pow
      del: rvec.simps rmat.simps imvec.simps all3.simps split_paired_All)

lemma jump_tables:
  assumes "red6 x"
  shows "jump6 A1p76 A2p76 (r6 x) = r6 ((next6 ^^ 2 ^ 76) x)"
    and "jump6 A1p127 A2p127 (r6 x) = r6 ((next6 ^^ 2 ^ 127) x)"
proof -
  have "jump6 (rmat (imat_two_pow M1 A1 n)) (rmat (imat_two_pow M2 A2 n)) (r6 x) = r6 ((next6 ^^ 2 ^ n) x)" for n
    using MatTwoPowModM_exact [OF moduli(1) entries_consts(1), of "int n"]
      MatTwoPowModM_exact [OF moduli(2) entries_consts(2), of "int n"]
    by (intro jump6_exact assms) simp_all
  then show "jump6 A1p76 A2p76 (r6 x) = r6 ((next6 ^^ 2 ^ 76) x)"
    "jump6 A1p127 A2p127 (r6 x) = r6 ((next6 ^^ 2 ^ 127) x)"
    unfolding jump_matrices by blast+
qed

section \<open>Draws\<close>

text \<open>The number drawn in the state after the step, before it is rounded.\<close>

definition diff6 :: "ivec6 \<Rightarrow> int" where
  "diff6 x = (case x of ((_, _, p1), (_, _, p2)) \<Rightarrow> if p2 < p1 then p1 - p2 else p1 - p2 + M1)"

definition u01 :: "bool \<Rightarrow> ivec6 \<Rightarrow> real" where
  "u01 a x = (let u = dmul (of_int (diff6 x)) norm in if a then dsub 1 u else u)"

lemma U01_exact:
  assumes "Cg g = r6 x" and "red6 x"
  shows "U01 g = (u01 (anti g) (next6 x), g\<lparr>Cg := r6 (next6 x)\<rparr>)"
proof -
  obtain c0 c1 c2 c3 c4 c5 where x: "x = ((c0, c1, c2), (c3, c4, c5))" by (cases x) auto
  have b: "0 \<le> c0" "c0 < M1" "0 \<le> c1" "c1 < M1" "0 \<le> c2" "c2 < M1" "0 \<le> c3" "c3 < M2" "0 \<le> c4" "c4 < M2" "0 \<le> c5" "c5 < M2"
    using assms(2) by (simp_all add: red6_def x)
  note b' = b [unfolded M1_def M2_def]
  have r: "reduce (dsub (dmul (of_int a) (of_int y)) (dmul (of_int b) (of_int z))) (of_int m) = of_int ((a * y - b * z) mod m)"
    if "modulus m" "0 \<le> y" "y < 2 ^ 32" "0 \<le> z" "z < 2 ^ 32" "0 \<le> a" "a < 2 ^ 21" "0 \<le> b" "b < 2 ^ 21" for a b y z m
  proof -
    have *: "0 \<le> a * y" "a * y \<le> 2097151 * 4294967295" "0 \<le> b * z" "b * z \<le> 2097151 * 4294967295"
      using that by (intro mult_small mult_nonneg_nonneg; simp)+
    then have "dsub (dmul (of_int a) (of_int y)) (dmul (of_int b) (of_int z)) = of_int (a * y - b * z)"
      using int_ops(3) [of a y] int_ops(3) [of b z] int_ops(2) [of "a * y" "b * z"] by simp
    then show ?thesis using * that(1) by (simp only:) (intro reduce_exact; simp add: modulus_def)
  qed
  let ?p1 = "(1403580 * c1 - 810728 * c0) mod M1" and ?p2 = "(527612 * c5 - 1370589 * c3) mod M2"
  have p1: "reduce (dsub (dmul a12 (of_int c1)) (dmul a13n (of_int c0))) m1 = of_int ?p1"
    using r [of M1 c1 c0 1403580 810728] moduli b' by (simp add: a12_def a13n_def double_consts)
  have p2: "reduce (dsub (dmul a21 (of_int c5)) (dmul a23n (of_int c3))) m2 = of_int ?p2"
    using r [of M2 c5 c3 527612 1370589] moduli b' by (simp add: a21_def a23n_def double_consts)
  have n: "next6 x = ((c1, c2, ?p1), (c4, c5, ?p2))"
    using b by (simp add: next6_def x A1_def A2_def algebra_simps)
  have q: "0 \<le> ?p1" "?p1 < M1" "0 \<le> ?p2" "?p2 < M2" by (simp_all add: M1_def M2_def)
  have d: "dsub (of_int ?p1) (of_int ?p2) = of_int (?p1 - ?p2)"
    using q by (intro int_ops) (simp add: M1_def M2_def)
  have a: "dadd (of_int (?p1 - ?p2)) m1 = of_int (?p1 - ?p2 + M1)"
    unfolding double_consts using q by (intro int_ops) (simp add: M1_def M2_def)
  have lt: "of_int ?p2 < (of_int ?p1 :: real) \<longleftrightarrow> ?p2 < ?p1" by (rule of_int_less_iff)
  show ?thesis
    unfolding U01_def assms(1) n by (simp add: r6_def x p1 p2 Let_def d a lt u01_def diff6_def del: of_int_diff of_int_add)
qed


section \<open>Draws are in range\<close>

lemma dbl_above: "0 \<le> x \<Longrightarrow> dbl x \<le> x + x / 2 ^ 53"
  using dbl_error [of x] unfolding abs_le_iff by linarith

lemma norm_eq: "norm = dbl (1 / 4294967088)"
proof -
  have "dadd m1 1 = 4294967088" 
    using dbl_int [of 4294967088] by (simp add: m1_def dadd_def)
  then show ?thesis by (simp add: norm_def ddiv_def)
qed

lemma norm_bounds: "1 / 2 ^ 33 \<le> norm" "norm \<le> 1 / 4294967088 + 1 / 2 ^ 84"
proof -
  have "is_double (1 / 2 ^ 33)" by (rule is_doubleI [of _ 33 1]) simp_all
  then show "1 / 2 ^ 33 \<le> norm" unfolding norm_eq by (rule dbl_ge) simp
  have "dbl (1 / 4294967088) \<le> 1 / 4294967088 + (1 / 4294967088) / 2 ^ 53"
    using dbl_above [of "1 / 4294967088"] by simp
  then show "norm \<le> 1 / 4294967088 + 1 / 2 ^ 84" unfolding norm_eq by simp
qed

lemma diff6_range: "red6 x \<Longrightarrow> 1 \<le> diff6 x \<and> diff6 x \<le> M1"
  by (cases x) (auto simp: red6_def diff6_def M1_def M2_def)

lemma unit_doubles: "is_double (1 / 2 ^ 33)" "is_double (1 - 1 / 2 ^ 33)"
  by (rule is_doubleI [of _ 33 1], simp, simp, rule is_doubleI [of _ 33 "2 ^ 33 - 1"], simp add: field_simps, simp)

lemma u01_range:
  assumes "red6 x"
  shows "1 / 2 ^ 33 \<le> u01 a x \<and> u01 a x \<le> 1 - 1 / 2 ^ 33"
proof -
  have d: "1 \<le> real_of_int (diff6 x)" "real_of_int (diff6 x) \<le> 4294967087" using diff6_range [OF assms] by (simp_all add: M1_def)
  have "1 * (1 / 2 ^ 33) \<le> of_int (diff6 x) * norm" using d norm_bounds(1) by (intro mult_mono) simp_all
  moreover have "of_int (diff6 x) * norm \<le> 4294967087 * (1 / 4294967088 + 1 / 2 ^ 84)"
    using d norm_bounds by (intro mult_mono) simp_all
  ultimately have u: "1 / 2 ^ 33 \<le> dmul (of_int (diff6 x)) norm" "dmul (of_int (diff6 x)) norm \<le> 1 - 1 / 2 ^ 33"
    unfolding dmul_def by (intro dbl_ge dbl_le unit_doubles; simp)+
  moreover have "1 / 2 ^ 33 \<le> dsub 1 (dmul (of_int (diff6 x)) norm)" "dsub 1 (dmul (of_int (diff6 x)) norm) \<le> 1 - 1 / 2 ^ 33"
    unfolding dsub_def using u by (intro dbl_ge dbl_le unit_doubles; simp)+
  ultimately show ?thesis by (simp add: u01_def Let_def)
qed

text \<open>
  With increased precision the sum of two numbers is brought back below 1; the antithetic one may come out as 1.
\<close>

definition u01d :: "bool \<Rightarrow> ivec6 \<Rightarrow> ivec6 \<Rightarrow> real" where
  "u01d a x y =
    (if a then let u = dadd (u01 a x) (dmul (dsub (u01 a y) 1) fact24) in if u < 0 then dadd u 1 else u
     else let u = dadd (u01 a x) (dmul (u01 a y) fact24) in if u < 1 then u else dsub u 1)"

lemma U01d_exact:
  assumes "Cg g = r6 x" and "red6 x"
  shows "U01d g = (u01d (anti g) (next6 x) (next6 (next6 x)), g\<lparr>Cg := r6 (next6 (next6 x))\<rparr>)"
  using U01_exact [OF assms] U01_exact [OF _ red6_next6, of "g\<lparr>Cg := r6 (next6 x)\<rparr>" x]
  by (simp add: U01d_def u01d_def Let_def)

lemma u01d_range:
  assumes "red6 x" and "red6 y"
  shows "0 \<le> u01d a x y \<and> u01d a x y \<le> (if a then 1 else 1 - 1 / 2 ^ 53)"
proof (cases a)
  case False
  let ?w = "dmul (u01 False y) fact24" and ?s = "dadd (u01 False x) (dmul (u01 False y) fact24)"
  note x = u01_range [OF assms(1), of False] and y = u01_range [OF assms(2), of False]
  have "is_double 0" "is_double (1 / 2 ^ 24)" "is_double 2" "is_double (1 - 1 / 2 ^ 53)"
    by (rule is_doubleI [of _ 0 0], simp_all, rule is_doubleI [of _ 24 1], simp_all, rule is_doubleI [of _ 0 2], simp_all,
        rule is_doubleI [of _ 53 "2 ^ 53 - 1"], simp_all add: field_simps)
  note d = this
  have w: "0 \<le> ?w" "?w \<le> 1 / 2 ^ 24" unfolding dmul_def fact24_def using y by (intro dbl_ge dbl_le d; simp)+
  have s: "0 \<le> ?s" "?s \<le> 2" unfolding dadd_def using x w by (intro dbl_ge dbl_le d; simp)+
  have "0 \<le> dsub ?s 1 \<and> dsub ?s 1 \<le> 1 - 1 / 2 ^ 53" if "\<not> ?s < 1"
  proof -
    have "?s \<le> 1 + 1 / 2 ^ 23"
      unfolding dadd_def
    proof (rule dbl_le)
      show "is_double (1 + 1 / 2 ^ 23)" by (rule is_doubleI [of _ 23 "2 ^ 23 + 1"]) (simp_all add: field_simps)
      show "u01 False x + ?w \<le> 1 + 1 / 2 ^ 23" using x w by simp
    qed
    with that show ?thesis unfolding dsub_def by (intro conjI dbl_ge dbl_le d; simp)
  qed
  moreover have "?s \<le> 1 - 1 / 2 ^ 53" if "?s < 1" using that unfolding dadd_def by (rule dbl_below_1)
  ultimately show ?thesis using False s by (simp add: u01d_def Let_def)
next
  case True
  let ?v = "dsub (u01 True y) 1" and ?w = "dmul (dsub (u01 True y) 1) fact24"
  let ?s = "dadd (u01 True x) ?w"
  note x = u01_range [OF assms(1), of True] and y = u01_range [OF assms(2), of True]
  have d: "is_double 0" "is_double 1" "is_double (- 1)"
    by (rule is_doubleI [of _ 0 0], simp_all, rule is_doubleI [of _ 0 1], simp_all, rule is_doubleI [of _ 0 "- 1"], simp_all)
  have v: "- 1 \<le> ?v" "?v \<le> 0" unfolding dsub_def using y by (intro dbl_ge dbl_le d; simp)+
  then have w: "- 1 \<le> ?w" "?w \<le> 0" unfolding dmul_def fact24_def by (intro dbl_ge dbl_le d; simp)+
  have s: "- 1 \<le> ?s" "?s \<le> 1" unfolding dadd_def using x w by (intro dbl_ge dbl_le d; simp)+
  have "0 \<le> dadd ?s 1 \<and> dadd ?s 1 \<le> 1" if "?s < 0"
    unfolding dadd_def [of ?s] using that s by (intro conjI dbl_ge dbl_le d; simp)
  then show ?thesis using True s by (simp add: u01d_def Let_def)
qed

lemma scaled_below:
  assumes "0 \<le> u" and "u \<le> 1 - 1 / 2 ^ 53" and "0 < n" and "n < 2 ^ 53"
  shows "0 \<le> ctrunc (dmul (of_long n) u) \<and> ctrunc (dmul (of_long n) u) < n"
proof -
  have l: "of_long n = of_int n" using assms(3,4) by (intro int_ops) simp
  have p: "of_int n * u \<le> of_int n * (1 - 1 / 2 ^ 53)" using assms by (intro mult_left_mono) simp_all
  have "0 \<le> of_int n * u" using assms by simp
  then have "dmul (of_int n) u \<le> of_int n * u + of_int n * u / 2 ^ 53"
    using dbl_above [of "of_int n * u"] by (simp add: dmul_def)
  also have "\<dots> = of_int n * u * (1 + 1 / 2 ^ 53)" by (simp add: algebra_simps)
  also have "\<dots> \<le> of_int n * (1 - 1 / 2 ^ 53) * (1 + 1 / 2 ^ 53)" using p by (intro mult_right_mono) simp_all
  also have "\<dots> < of_int n" using assms(3) by (simp add: field_simps)
  finally have "dmul (of_int n) u < of_int n" .
  moreover have "0 \<le> dmul (of_int n) u" using \<open>0 \<le> of_int n * u\<close> by (simp add: dmul_def dbl_sgn)
  ultimately show ?thesis unfolding l by (simp add: ctrunc_def floor_less_iff)
qed

end
