(* ===== verification/Rng_Properties.thy ===== *)
theory Rng_Properties
  imports Rng_Streams
begin

text \<open>
  What the generator promises: where its streams and substreams start, that jumps go as far as they say, that
  seeds are checked and come back, that integers are in range, and the values that the test in rng.cc expects.
\<close>

section \<open>Seeds\<close>

text \<open>The seeds that the comment of \<open>set_package_seed\<close> asks for.\<close>

definition legal_seeds :: "seeds \<Rightarrow> bool" where
  "legal_seeds seed \<longleftrightarrow>
    all3 (\<lambda>x. uint x < M1) (fst seed) \<and> all3 (\<lambda>x. uint x < M2) (snd seed)
    \<and> fst seed \<noteq> (0, 0, 0) \<and> snd seed \<noteq> (0, 0, 0)"

fun ints3 :: "u32 \<times> u32 \<times> u32 \<Rightarrow> ivec3" where
  "ints3 (x, y, z) = (uint x, uint y, uint z)"

definition seed_state :: "seeds \<Rightarrow> ivec6" where
  "seed_state seed = (ints3 (fst seed), ints3 (snd seed))"

lemma seed_below:
  assumes "0 \<le> m" "m \<le> 2 ^ 53" and "0 \<le> y"
  shows "of_long y < of_int m \<longleftrightarrow> y < m"
proof
  assume a: "of_long y < of_int m"
  show "y < m"
  proof (rule ccontr)
    assume "\<not> y < m"
    then have "of_int m \<le> dbl (of_int y)" using assms by (intro dbl_ge_int) simp_all
    with a show False by (simp add: of_long_def)
  qed
next
  assume "y < m"
  moreover from this have "of_long y = of_int y" using assms by (intro int_ops) simp
  ultimately show "of_long y < of_int m" by simp
qed

lemma CheckSeed_legal: "CheckSeed seed = 0 \<longleftrightarrow> legal_seeds seed"
proof -
  have b: "of_long (uint (x :: u32)) < m1 \<longleftrightarrow> uint x < M1" "of_long (uint (x :: u32)) < m2 \<longleftrightarrow> uint x < M2" for x
    unfolding double_consts by (rule seed_below; simp add: M1_def M2_def)+
  obtain a1 b1 c1 a2 b2 c2 where "seed = ((a1, b1, c1), (a2, b2, c2))" by (cases seed) auto
  then show ?thesis by (auto simp: CheckSeed_def legal_seeds_def b)
qed

lemma seed_vec_exact: "all3 (\<lambda>x. uint x < m) s \<Longrightarrow> m \<le> 2 ^ 53 \<Longrightarrow> seed_vec s = rvec (ints3 s)"
proof -
  have "of_long y = of_int y" if "0 \<le> y" "y < m" "m \<le> 2 ^ 53" for y
    using that by (intro int_ops) simp
  then show "all3 (\<lambda>x. uint x < m) s \<Longrightarrow> m \<le> 2 ^ 53 \<Longrightarrow> seed_vec s = rvec (ints3 s)"
    by (cases s) (simp del: of_int_uint)
qed

lemma seed_r6:
  assumes "legal_seeds seed"
  shows "map_prod seed_vec seed_vec seed = r6 (seed_state seed)" and "legal (seed_state seed)"
proof -
  have "M1 \<le> 2 ^ 53" "M2 \<le> 2 ^ 53" by (simp_all add: M1_def M2_def)
  then show "map_prod seed_vec seed_vec seed = r6 (seed_state seed)"
    using assms seed_vec_exact [of M1 "fst seed"] seed_vec_exact [of M2 "snd seed"]
    by (simp add: map_prod_def split_beta legal_seeds_def r6_def seed_state_def del: seed_vec.simps all3.simps)
  have r: "all3 (\<lambda>x. uint x < m) s \<Longrightarrow> reduced m (ints3 s)" for m s by (cases s) simp
  have z: "ints3 s = (0, 0, 0) \<longleftrightarrow> s = (0, 0, 0)" for s by (cases s) (simp add: uint_0_iff)
  show "legal (seed_state seed)"
    using assms r z by (simp add: legal_def red6_def seed_state_def legal_seeds_def)
qed

section \<open>Streams\<close>

lemma rand_u01_exact:
  assumes "Cg g = r6 x" and "red6 x"
  shows "\<exists>u. rand_u01 g = (u, g\<lparr>Cg := r6 ((next6 ^^ (if inc_prec g then 2 else 1)) x)\<rparr>)
    \<and> 0 \<le> u \<and> (\<not> (anti g \<and> inc_prec g) \<longrightarrow> u \<le> 1 - 1 / 2 ^ 53)"
proof (cases "inc_prec g")
  case True
  then show ?thesis
    using U01d_exact [OF assms] u01d_range [OF red6_next6 red6_next6, of "anti g" x "next6 x"]
    by (auto simp: rand_u01_def eval_nat_numeral)
next
  case False
  then show ?thesis using U01_exact [OF assms] u01_range [OF red6_next6, of "anti g" x]
    by (simp add: rand_u01_def)
qed

lemma rand_u01_steps:
  assumes "Cg g = r6 x" and "red6 x" and "\<not> inc_prec g"
  shows "((snd \<circ> rand_u01) ^^ n) g = g\<lparr>Cg := r6 ((next6 ^^ n) x)\<rparr>"
proof (induction n)
  case (Suc n)
  from rand_u01_exact [of "g\<lparr>Cg := r6 ((next6 ^^ n) x)\<rparr>" "(next6 ^^ n) x"] show ?case
    using red6_pow [OF assms(2), of n] assms(3) Suc by auto
qed (use assms in simp)

lemma substreams:
  assumes "Bg g = r6 x" and "red6 x"
  shows "(reset_next_substream ^^ j) (g\<lparr>Cg := Bg g\<rparr>) = g\<lparr>Cg := r6 ((next6 ^^ (j * 2 ^ 76)) x), Bg := r6 ((next6 ^^ (j * 2 ^ 76)) x)\<rparr>"
proof (induction j)
  case (Suc j)
  then show ?case
    using jump_tables(1) [OF red6_pow [OF assms(2)], of "j * 2 ^ 76"]
    by (simp add: reset_next_substream_def Let_def funpow_add)
qed (use assms in simp)

lemma streams:
  assumes "red6 x"
  shows "((snd \<circ> rng_init) ^^ k) (r6 x) = r6 ((next6 ^^ (k * 2 ^ 127)) x)"
proof (induction k)
  case (Suc k)
  then show ?case using jump_tables(2) [OF red6_pow [OF assms], of "k * 2 ^ 127"]
    by (simp add: rng_init_def funpow_add)
qed simp

text \<open>The generator after \<open>n\<close> draws in substream \<open>j\<close> of the stream that is created after \<open>k\<close> others.\<close>

definition stream_at :: "vec6 \<Rightarrow> nat \<Rightarrow> nat \<Rightarrow> nat \<Rightarrow> rng" where
  "stream_at next_seed k j n =
    ((snd \<circ> rand_u01) ^^ n) ((reset_next_substream ^^ j) (fst (rng_init (((snd \<circ> rng_init) ^^ k) next_seed))))"

lemma stream_at_exact:
  assumes "red6 x"
  shows "stream_at (r6 x) k j n =
    \<lparr> Cg = r6 ((next6 ^^ (k * 2 ^ 127 + j * 2 ^ 76 + n)) x), Bg = r6 ((next6 ^^ (k * 2 ^ 127 + j * 2 ^ 76)) x),
      Ig = r6 ((next6 ^^ (k * 2 ^ 127)) x), anti = False, inc_prec = False \<rparr>"
proof -
  define y where "y = (next6 ^^ (k * 2 ^ 127)) x"
  have y: "red6 y" using red6_pow [OF assms] by (simp add: y_def)
  define g where "g = fst (rng_init (((snd \<circ> rng_init) ^^ k) (r6 x)))"
  have g: "g = \<lparr> Cg = r6 y, Bg = r6 y, Ig = r6 y, anti = False, inc_prec = False \<rparr>"
    by (simp add: g_def streams [OF assms] rng_init_def y_def)
  define z where "z = (next6 ^^ (j * 2 ^ 76)) y"
  have z: "red6 z" using red6_pow [OF y] by (simp add: z_def)
  have "(reset_next_substream ^^ j) g = g\<lparr>Cg := r6 z, Bg := r6 z\<rparr>"
    using substreams [OF _ y, of g j] by (simp add: g z_def)
  then have "stream_at (r6 x) k j n = ((snd \<circ> rand_u01) ^^ n) (g\<lparr>Cg := r6 z, Bg := r6 z\<rparr>)"
    by (simp add: stream_at_def g_def)
  also have "((snd \<circ> rand_u01) ^^ n) (g\<lparr>Cg := r6 z, Bg := r6 z\<rparr>) = g\<lparr>Cg := r6 ((next6 ^^ n) z), Bg := r6 z\<rparr>"
    using rand_u01_steps [of "g\<lparr>Cg := r6 z, Bg := r6 z\<rparr>" z n] z by (simp add: g)
  finally have "stream_at (r6 x) k j n = g\<lparr>Cg := r6 ((next6 ^^ n) z), Bg := r6 z\<rparr>" .
  moreover have "(next6 ^^ a) ((next6 ^^ b) v) = (next6 ^^ (b + a)) v" for a b v
    using fun_cong [OF funpow_add [of a b next6], of v] by (simp add: add.commute)
  ultimately show ?thesis by (simp add: g y_def z_def)
qed


section \<open>Jumps of any length\<close>

lemma back_and_forth:
  "reduced M1 u \<Longrightarrow> (imvec M1 A1 ^^ n) ((imvec M1 B1 ^^ n) u) = u"
  "reduced M2 v \<Longrightarrow> (imvec M2 A2 ^^ n) ((imvec M2 B2 ^^ n) v) = v"
proof -
  have *: "reduced m u \<Longrightarrow> (imvec m A ^^ n) ((imvec m B ^^ n) u) = u"
    if "\<And>u. reduced m u \<Longrightarrow> imvec m A (imvec m B u) = u" "modulus m" for m A B u
  proof (induction n arbitrary: u)
    case (Suc n)
    have "reduced m (imvec m B u)" using that(2) by (rule reduced_imvec)
    have "(imvec m A ^^ Suc n) ((imvec m B ^^ Suc n) u) = imvec m A ((imvec m A ^^ n) ((imvec m B ^^ n) (imvec m B u)))"
      by (simp add: funpow_swap1 del: imvec.simps)
    then show ?case using Suc that(1) [OF Suc.prems] \<open>reduced m (imvec m B u)\<close> by simp
  qed simp
  show "reduced M1 u \<Longrightarrow> (imvec M1 A1 ^^ n) ((imvec M1 B1 ^^ n) u) = u"
    by (rule *) (simp_all only: inverse_step moduli)
  show "reduced M2 v \<Longrightarrow> (imvec M2 A2 ^^ n) ((imvec M2 B2 ^^ n) v) = v"
    by (rule *) (simp_all only: inverse_step moduli)
qed

text \<open>Matrices that take a state so far forward that \<open>n\<close> steps from there are \<open>k\<close> steps from the state.\<close>

definition leaps :: "imat3 \<Rightarrow> imat3 \<Rightarrow> nat \<Rightarrow> nat \<Rightarrow> bool" where
  "leaps A B n k \<longleftrightarrow> entries A \<and> entries B
    \<and> (\<forall>x. red6 x \<longrightarrow> (next6 ^^ n) (imvec M1 A (fst x), imvec M2 B (snd x)) = (next6 ^^ k) x)"

lemma leaps_forward: "jumps M1 A1 A k \<Longrightarrow> jumps M2 A2 B k \<Longrightarrow> entries A \<Longrightarrow> entries B \<Longrightarrow> leaps A B 0 k"
  by (simp add: leaps_def next6_pow jumps_def red6_def del: imvec.simps all3.simps split_paired_All)

lemma leaps_back: "jumps M1 B1 A k \<Longrightarrow> jumps M2 B2 B k \<Longrightarrow> entries A \<Longrightarrow> entries B \<Longrightarrow> leaps A B k 0"
  by (simp add: leaps_def next6_pow jumps_def red6_def back_and_forth del: imvec.simps all3.simps split_paired_All)

lemma leaps_immul:
  assumes "leaps A B n k" and "leaps C D n' k'"
  shows "leaps (immul M1 A C) (immul M2 B D) (n + n') (k + k')"
proof -
  have "(next6 ^^ (n + n')) (imvec M1 (immul M1 A C) (fst x), imvec M2 (immul M2 B D) (snd x)) = (next6 ^^ (k + k')) x"
    if "red6 x" for x
  proof -
    define y where "y = (imvec M1 C (fst x), imvec M2 D (snd x))"
    have y: "red6 y" by (simp add: red6_def y_def reduced_imvec moduli del: imvec.simps)
    have "(next6 ^^ (n + n')) (imvec M1 (immul M1 A C) (fst x), imvec M2 (immul M2 B D) (snd x))
      = (next6 ^^ n') ((next6 ^^ n) (imvec M1 A (fst y), imvec M2 B (snd y)))"
      by (simp add: imvec_immul y_def add.commute [of n] funpow_add del: imvec.simps)
    also have "\<dots> = (next6 ^^ n') ((next6 ^^ k) y)" using assms(1) y by (simp add: leaps_def del: imvec.simps split_paired_All)
    also have "\<dots> = (next6 ^^ k) ((next6 ^^ n') y)" by (simp add: add.commute [of n'] flip: funpow_add [THEN fun_cong, unfolded comp_apply])
    also have "(next6 ^^ n') y = (next6 ^^ k') x" using assms(2) that by (simp add: leaps_def y_def del: imvec.simps split_paired_All)
    finally show ?thesis by (simp add: funpow_add)
  qed
  moreover have "entries (immul M1 A C)" "entries (immul M2 B D)" by (simp_all only: entries_immul moduli)
  ultimately show ?thesis unfolding leaps_def by blast
qed

lemma jump6_leaps:
  assumes "leaps A B n k" and "red6 x"
  shows "\<exists>y. jump6 (rmat A) (rmat B) (r6 x) = r6 y \<and> red6 y \<and> (next6 ^^ n) y = (next6 ^^ k) x"
proof -
  have "jump6 (rmat A) (rmat B) (r6 x) = r6 (imvec M1 A (fst x), imvec M2 B (snd x))"
    using assms reduced_entries [OF moduli(1)] reduced_entries [OF moduli(2)]
    by (simp add: jump6_def r6_def double_consts MatVecModM_exact moduli red6_def leaps_def
        del: rvec.simps rmat.simps imvec.simps all3.simps split_paired_All)
  moreover have "red6 (imvec M1 A (fst x), imvec M2 B (snd x))"
    by (simp add: red6_def reduced_imvec moduli del: imvec.simps)
  moreover have "(next6 ^^ n) (imvec M1 A (fst x), imvec M2 B (snd x)) = (next6 ^^ k) x"
    using assms by (simp add: leaps_def del: imvec.simps split_paired_All)
  ultimately show ?thesis by blast
qed

lemma two_pow_leaps:
  "\<exists>A B. MatTwoPowModM A1p0 m1 e = rmat A \<and> MatTwoPowModM A2p0 m2 e = rmat B \<and> leaps A B 0 (2 ^ nat e)"
  "\<exists>A B. MatTwoPowModM InvA1 m1 e = rmat A \<and> MatTwoPowModM InvA2 m2 e = rmat B \<and> leaps A B (2 ^ nat e) 0"
  using MatTwoPowModM_exact [OF moduli(1) entries_consts(1)] MatTwoPowModM_exact [OF moduli(2) entries_consts(2)]
    MatTwoPowModM_exact [OF moduli(1) entries_consts(3)] MatTwoPowModM_exact [OF moduli(2) entries_consts(4)]
    leaps_forward leaps_back unfolding double_consts by meson+

lemma pow_leaps:
  "0 \<le> n \<Longrightarrow> \<exists>A B. MatPowModM A1p0 m1 n = rmat A \<and> MatPowModM A2p0 m2 n = rmat B \<and> leaps A B 0 (nat n)"
  "0 \<le> n \<Longrightarrow> \<exists>A B. MatPowModM InvA1 m1 n = rmat A \<and> MatPowModM InvA2 m2 n = rmat B \<and> leaps A B (nat n) 0"
  using MatPowModM_exact [OF moduli(1) entries_consts(1)] MatPowModM_exact [OF moduli(2) entries_consts(2)]
    MatPowModM_exact [OF moduli(1) entries_consts(3)] MatPowModM_exact [OF moduli(2) entries_consts(4)]
    leaps_forward leaps_back unfolding double_consts by meson+

lemma advance_leaps:
  assumes g: "Cg g = r6 x" "red6 x"
  shows "\<exists>y. advance_state e c g = g\<lparr>Cg := r6 y\<rparr> \<and> red6 y
    \<and> (next6 ^^ ((if e < 0 then 2 ^ nat (- e) else 0) + (if c < 0 then nat (- c) else 0))) y
      = (next6 ^^ ((if 0 < e then 2 ^ nat e else 0) + (if 0 \<le> c then nat c else 0))) x"
proof -
  define C1 where "C1 = (if 0 \<le> c then MatPowModM A1p0 m1 c else MatPowModM InvA1 m1 (- c))"
  define C2 where "C2 = (if 0 \<le> c then MatPowModM A2p0 m2 c else MatPowModM InvA2 m2 (- c))"
  define E1 where "E1 = (if 0 < e then MatTwoPowModM A1p0 m1 e else MatTwoPowModM InvA1 m1 (- e))"
  define E2 where "E2 = (if 0 < e then MatTwoPowModM A2p0 m2 e else MatTwoPowModM InvA2 m2 (- e))"
  obtain C D where C: "C1 = rmat C" "C2 = rmat D" "leaps C D (if c < 0 then nat (- c) else 0) (if 0 \<le> c then nat c else 0)"
    using pow_leaps(1) [of c] pow_leaps(2) [of "- c"] unfolding C1_def C2_def by (cases "0 \<le> c") auto
  show ?thesis
  proof (cases "e = 0")
    case True
    then have "advance_state e c g = g\<lparr>Cg := jump6 C1 C2 (Cg g)\<rparr>" by (simp add: advance_state_def C1_def C2_def)
    with jump6_leaps [OF C(3) g(2)] True C(1,2) g(1) show ?thesis by (fastforce simp del: split_paired_Ex)
  next
    case False
    obtain A B where E: "E1 = rmat A" "E2 = rmat B" "leaps A B (if e < 0 then 2 ^ nat (- e) else 0) (if 0 < e then 2 ^ nat e else 0)"
      using two_pow_leaps(1) [of e] two_pow_leaps(2) [of "- e"] False unfolding E1_def E2_def by (cases "0 < e") auto
    have en: "entries A" "entries B" "entries C" "entries D" using C(3) E(3) by (simp_all only: leaps_def)
    have "advance_state e c g = g\<lparr>Cg := jump6 (MatMatModM E1 C1 m1) (MatMatModM E2 C2 m2) (Cg g)\<rparr>"
      using False by (simp only: advance_state_def Let_def C1_def C2_def E1_def E2_def if_True not_False_eq_True)
    also have "\<dots> = g\<lparr>Cg := jump6 (rmat (immul M1 A C)) (rmat (immul M2 B D)) (r6 x)\<rparr>"
      by (simp only: E(1,2) C(1,2) double_consts g(1) MatMatModM_exact [OF moduli(1) en(1,3)] MatMatModM_exact [OF moduli(2) en(2,4)])
    finally show ?thesis using jump6_leaps [OF leaps_immul [OF E(3) C(3)] g(2)] by (auto simp del: split_paired_Ex)
  qed
qed

lemma advance_state_legal:
  assumes "legal x" and "Cg g = r6 x"
  shows "\<exists>y. advance_state e c g = g\<lparr>Cg := r6 y\<rparr> \<and> legal y
    \<and> (next6 ^^ ((if e < 0 then 2 ^ nat (- e) else 0) + (if c < 0 then nat (- c) else 0))) y
      = (next6 ^^ ((if 0 < e then 2 ^ nat e else 0) + (if 0 \<le> c then nat c else 0))) x"
proof -
  obtain y where y: "advance_state e c g = g\<lparr>Cg := r6 y\<rparr>" "red6 y"
    "(next6 ^^ ((if e < 0 then 2 ^ nat (- e) else 0) + (if c < 0 then nat (- c) else 0))) y
      = (next6 ^^ ((if 0 < e then 2 ^ nat e else 0) + (if 0 \<le> c then nat c else 0))) x"
    using advance_leaps [OF assms(2)] assms(1) unfolding legal_def by blast
  have "legal y" by (rule legal_before [OF y(2)], subst y(3), rule legal_pow [OF assms(1)])
  with y show ?thesis by blast
qed

section \<open>Properties\<close>

text \<open>
  C11: Streams and substreams are as far apart as the comments say. From the seed of the package on, the generator
  that is created after \<open>k\<close> others is, after \<open>j\<close> calls of \<open>reset_next_substream\<close> and \<open>n\<close> draws, in the state that
  \<open>k 2^127 + j 2^76 + n\<close> steps of the two recurrences on integers lead to, exactly: no rounding of doubles is
  ever visible in a state, and streams overlap only if someone draws \<open>2 ^ 127\<close> numbers.
\<close>

theorem stream_positions:
  assumes "set_package_seed seed = Some ns"
  shows "legal (seed_state seed) \<and> stream_at ns k j n =
    \<lparr> Cg = r6 ((next6 ^^ (k * 2 ^ 127 + j * 2 ^ 76 + n)) (seed_state seed)),
      Bg = r6 ((next6 ^^ (k * 2 ^ 127 + j * 2 ^ 76)) (seed_state seed)),
      Ig = r6 ((next6 ^^ (k * 2 ^ 127)) (seed_state seed)), anti = False, inc_prec = False \<rparr>"
proof -
  have l: "legal_seeds seed" "ns = map_prod seed_vec seed_vec seed"
    using assms by (auto simp: set_package_seed_def CheckSeed_legal split: if_splits)
  note s = seed_r6 [OF l(1)]
  have "red6 (seed_state seed)" using s(2) by (simp add: legal_def)
  from stream_at_exact [OF this] s l(2) show ?thesis by simp
qed

theorem stream_positions_witness:
  "stream_at ((12345, 12345, 12345), (12345, 12345, 12345)) 3 2 7 =
    \<lparr> Cg = r6 ((next6 ^^ (3 * 2 ^ 127 + 2 * 2 ^ 76 + 7)) ((12345, 12345, 12345), (12345, 12345, 12345))),
      Bg = r6 ((next6 ^^ (3 * 2 ^ 127 + 2 * 2 ^ 76)) ((12345, 12345, 12345), (12345, 12345, 12345))),
      Ig = r6 ((next6 ^^ (3 * 2 ^ 127)) ((12345, 12345, 12345), (12345, 12345, 12345))), anti = False, inc_prec = False \<rparr>"
proof -
  have l: "legal_seeds ((12345, 12345, 12345), (12345, 12345, 12345))" by (simp add: legal_seeds_def M1_def M2_def)
  have i: "seed_state ((12345, 12345, 12345), (12345, 12345, 12345)) = ((12345, 12345, 12345), (12345, 12345, 12345))"
    by (simp add: seed_state_def)
  have "set_package_seed ((12345, 12345, 12345), (12345, 12345, 12345)) = Some ((12345, 12345, 12345), (12345, 12345, 12345))"
    using l seed_r6(1) [OF l] by (simp add: set_package_seed_def CheckSeed_legal i r6_def)
  from stream_positions [OF this] show ?thesis unfolding i by blast
qed

text \<open>A generator in use: its three states are legal.\<close>

definition good6 :: "vec6 \<Rightarrow> bool" where
  "good6 v \<longleftrightarrow> (\<exists>x. legal x \<and> v = r6 x)"

definition rng_good :: "rng \<Rightarrow> bool" where
  "rng_good g \<longleftrightarrow> good6 (Cg g) \<and> good6 (Bg g) \<and> good6 (Ig g)"

lemma good6I [intro, simp]: "legal x \<Longrightarrow> good6 (r6 x)"
  unfolding good6_def by blast

text \<open>
  C13: \<open>advance_state\<close> goes as far as its comment says: with \<open>n = 2 ^ e + c\<close> for positive \<open>e\<close>, \<open>- 2 ^ (- e) + c\<close> for
  negative and \<open>c\<close> for 0, the new state is \<open>n\<close> steps ahead of the old one, or, where \<open>e\<close> or \<open>c\<close> are negative, as many
  steps behind: from the new state the steps back lead to where the steps forward lead from the old.
  The start of the stream and the substream stay.
\<close>

theorem advance_state_jumps:
  assumes "legal x" and "Cg g = r6 x"
  shows "\<exists>y. advance_state e c g = g\<lparr>Cg := r6 y\<rparr> \<and> legal y
    \<and> (next6 ^^ ((if e < 0 then 2 ^ nat (- e) else 0) + (if c < 0 then nat (- c) else 0))) y
      = (next6 ^^ ((if 0 < e then 2 ^ nat e else 0) + (if 0 \<le> c then nat c else 0))) x"
  using assms by (rule advance_state_legal)

definition sample_rng :: rng where
  "sample_rng = fst (rng_init default_next_seed)"

lemma sample_rng_state:
  "legal ((12345, 12345, 12345), (12345, 12345, 12345))" "Cg sample_rng = r6 ((12345, 12345, 12345), (12345, 12345, 12345))"
  "Bg sample_rng = Cg sample_rng" "Ig sample_rng = Cg sample_rng" "\<not> anti sample_rng" "\<not> inc_prec sample_rng"
  by (simp_all add: sample_rng_def rng_init_def default_next_seed_def r6_def legal_def red6_def M1_def M2_def)

theorem advance_state_jumps_witness:
  "\<exists>y. advance_state 5 (- 3) sample_rng = sample_rng\<lparr>Cg := r6 y\<rparr> \<and> legal y
    \<and> (next6 ^^ 3) y = (next6 ^^ 32) ((12345, 12345, 12345), (12345, 12345, 12345))"
  using advance_state_jumps [OF sample_rng_state(1,2), of 5 "- 3"] by simp

text \<open>
  C14: No operation leaves the legal states: draws, resets, jumps and new seeds keep the elements of each component
  below its modulus and never all zero, in which state the generator would stay for ever.
\<close>

theorem rng_stays_good:
  assumes "rng_good g"
  shows "rng_good (snd (rand_u01 g)) \<and> rng_good (snd (rand_int low high g)) \<and> rng_good (reset_start_stream g)
    \<and> rng_good (reset_start_substream g) \<and> rng_good (reset_next_substream g) \<and> rng_good (advance_state e c g)
    \<and> rng_good (set_antithetic b g) \<and> rng_good (increased_precis b g)
    \<and> (\<forall>g'. set_seed seed g = Some g' \<longrightarrow> rng_good g')"
proof -
  obtain x y z where s: "Cg g = r6 x" "Bg g = r6 y" "Ig g = r6 z" "legal x" "legal y" "legal z"
    using assms unfolding rng_good_def good6_def by blast
  have r: "red6 x" "red6 y" using s by (simp_all add: legal_def)
  have "\<exists>u. rand_u01 g = (u, g\<lparr>Cg := r6 ((next6 ^^ (if inc_prec g then 2 else 1)) x)\<rparr>)"
    using rand_u01_exact [OF s(1) r(1)] by blast
  then have "rng_good (snd (rand_u01 g))" using s legal_pow [OF s(4), of "if inc_prec g then 2 else 1"]
    by (elim exE) (simp add: rng_good_def)
  moreover have "snd (rand_int low high g) = snd (rand_u01 g)" by (simp add: rand_int_def Let_def split_beta)
  moreover have "rng_good (reset_next_substream g)"
    using s legal_pow [OF s(5)] jump_tables(1) [OF r(2)] by (simp add: rng_good_def reset_next_substream_def Let_def)
  moreover obtain x' where "advance_state e c g = g\<lparr>Cg := r6 x'\<rparr>" "legal x'"
    using advance_state_legal [OF s(4,1), of e c] by blast
  then have "rng_good (advance_state e c g)" using s by (simp add: rng_good_def)
  moreover have "rng_good g'" if "set_seed seed g = Some g'" for g'
    using that seed_r6 [of seed] by (auto simp: set_seed_def CheckSeed_legal rng_good_def Let_def split: if_splits)
  ultimately show ?thesis
    using s by (simp add: rng_good_def reset_start_stream_def reset_start_substream_def set_antithetic_def increased_precis_def)
qed

lemma sample_rng_good: "rng_good sample_rng"
  unfolding rng_good_def sample_rng_state(3,4) unfolding sample_rng_state(2) by (simp only: good6I sample_rng_state(1) simp_thms)

theorem rng_stays_good_witness:
  "rng_good (snd (rand_u01 sample_rng)) \<and> rng_good (advance_state (- 9) 4 sample_rng)"
  using rng_stays_good [OF sample_rng_good, of 0 1 "- 9" 4] by blast

text \<open>The number drawn with both flags is at most 1, and below 1 by at least the last bit if it is not 1.\<close>

lemma rand_u01_below:
  assumes "Cg g = r6 x" and "red6 x"
  shows "0 \<le> fst (rand_u01 g) \<and> (fst (rand_u01 g) \<le> 1 - 1 / 2 ^ 53 \<or> anti g \<and> inc_prec g \<and> fst (rand_u01 g) = 1)"
proof (cases "anti g \<and> inc_prec g")
  case True
  let ?x = "next6 x" and ?y = "next6 (next6 x)"
  have u: "fst (rand_u01 g) = u01d True ?x ?y" using True U01d_exact [OF assms] by (simp add: rand_u01_def)
  have r: "0 \<le> u01d True ?x ?y" "u01d True ?x ?y \<le> 1"
    using u01d_range [OF red6_next6 red6_next6, of True x ?x] by simp_all
  have "\<exists>z. u01d True ?x ?y = dbl z" by (auto simp: u01d_def Let_def dadd_def)
  then have "u01d True ?x ?y \<le> 1 - 1 / 2 ^ 53 \<or> u01d True ?x ?y = 1"
    using r(2) dbl_below_1 by (metis less_eq_real_def)
  with u r True show ?thesis by simp
next
  case False
  with rand_u01_exact [OF assms] show ?thesis by auto
qed

text \<open>
  C15: Integers are in the range that is asked for, for all bounds of type \<open>long\<close> with \<open>low \<le> high\<close>, with one exception: with
  both flags set, antithetic and increased precision, the number drawn can come out as 1, and then \<open>rand_int\<close> returns
  the number after the upper bound (or the smallest \<open>long\<close> if there is none). In every other case the
  product with the drawn number is not rounded up to the next integer; in
  particular \<open>uniform_positive_int\<close> is between 0 and MAXINT without the two flags.
\<close>

theorem rand_int_range:
  assumes "rng_good g" and "low \<le> high" and "- (2 ^ 31) \<le> low" and "high < 2 ^ 31"
  defines "r \<equiv> fst (rand_int low high g)"
  shows "low \<le> r \<and> r \<le> high
    \<or> anti g \<and> inc_prec g \<and> fst (rand_u01 g) = 1 \<and> r = sint (word_of_int (high + 1) :: u32)"
proof -
  obtain x where x: "Cg g = r6 x" "red6 x" using assms(1) unfolding rng_good_def good6_def legal_def by blast
  define u where "u = fst (rand_u01 g)"
  have u: "0 \<le> u" "u \<le> 1 - 1 / 2 ^ 53 \<or> anti g \<and> inc_prec g \<and> u = 1"
    using rand_u01_below [OF x] by (auto simp: u_def)
  let ?n = "uint (word_of_int (high - low + 1) :: u32)"
  have n: "?n = high - low + 1 \<or> ?n = 0 \<and> low = - (2 ^ 31) \<and> high = 2 ^ 31 - 1"
  proof (cases "high - low + 1 < 2 ^ 32")
    case True
    then show ?thesis unfolding uint_word_of_int using assms(2) by simp
  next
    case False
    then have e: "low = - (2 ^ 31)" "high = 2 ^ 31 - 1" using assms(2-4) by simp_all
    then show ?thesis unfolding uint_word_of_int by simp
  qed
  define k where "k = ctrunc (dmul (of_long ?n) u)"
  have r: "r = sint (word_of_int (low + k) :: u32)"
    by (simp add: r_def rand_int_def split_beta Let_def u_def k_def)
  have s: "sint (word_of_int y :: u32) = y" if "- (2 ^ 31) \<le> y" "y < 2 ^ 31" for y
    unfolding sint_sbintrunc' using that by (intro signed_take_bit_int_eq_self) simp_all
  show ?thesis
  proof (cases "?n = 0")
    case True
    then have "of_long ?n = 0" using int_ops(4) [of 0] by simp
    then have "k = 0" by (simp add: k_def dmul_def ctrunc_def)
    then have "r = low" using r s [of low] assms(2-4) by simp
    with assms(2) show ?thesis by simp
  next
    case False
    then have n1: "?n = high - low + 1" "0 < ?n" "?n < 2 ^ 53" using n assms(2-4) by auto
    show ?thesis
    proof (cases "u \<le> 1 - 1 / 2 ^ 53")
      case True
      from scaled_below [OF u(1) this n1(2,3)] have "0 \<le> k" "k < ?n" by (simp_all add: k_def)
      then show ?thesis using r s [of "low + k"] n1(1) assms(3,4) by simp
    next
      case False
      then have f: "anti g" "inc_prec g" "u = 1" using u(2) by auto
      have "of_long ?n = of_int ?n" using n1(2,3) by (intro int_ops) simp
      moreover have "dmul (of_int ?n) 1 = of_int ?n"
        unfolding dmul_def mult_1_right using n1(2,3) by (intro dbl_int) simp
      ultimately have "k = ?n" using n1(2) f(3) by (simp add: k_def ctrunc_def del: of_int_uint)
      then have "low + k = high + 1" using n1(1) by simp
      with r f u_def show ?thesis by simp
    qed
  qed
qed

theorem rand_int_range_witness:
  "1 \<le> fst (rand_int 1 6 sample_rng) \<and> fst (rand_int 1 6 sample_rng) \<le> 6"
  using rand_int_range [OF sample_rng_good, of 1 6] sample_rng_state by simp

text \<open>
  The exception occurs: a legal state from which both flags make the antithetic number of increased precision 1, and a die
  with six sides shows 7.
\<close>

definition edge_state :: ivec6 where
  "edge_state = ((1278525859, 2585494793, 123), (1978310060, 0, 77))"

definition edge_rng :: rng where
  "edge_rng = \<lparr> Cg = r6 edge_state, Bg = r6 edge_state, Ig = r6 edge_state, anti = True, inc_prec = True \<rparr>"

lemma norm_value: "norm = 4503599845474315 / 2 ^ 84"
proof -
  have "dbl (1 / 4294967088) = of_int 4503599845474315 / 2 ^ 84" by (rule dbl_eval) simp_all
  then show ?thesis by (simp add: norm_eq)
qed

lemma antithetic_one: "rng_good edge_rng" "fst (rand_u01 edge_rng) = 1" "fst (rand_int 1 6 edge_rng) = 7"
proof -
  have l: "legal edge_state" by (simp add: legal_def red6_def edge_state_def M1_def M2_def)
  then show "rng_good edge_rng" unfolding rng_good_def edge_rng_def by simp
  let ?x = "next6 edge_state"
  have n: "?x = ((2585494793, 123, 4294967084), (0, 77, 0))"
    "next6 ?x = ((123, 4294967084, 67108864), (77, 0, 0))"
    by (simp_all add: next6_def edge_state_def A1_def A2_def M1_def M2_def)
  then have d: "diff6 ?x = 4294967084" "diff6 (next6 ?x) = 67108864" by (simp_all add: diff6_def)
  have "dbl (4294967084 * norm) = of_int 9007199246352384 / 2 ^ 53"
    unfolding norm_value by (rule dbl_eval) simp_all
  moreover have "1 - of_int 9007199246352384 / 2 ^ 53 = (1 / 2 ^ 30 :: real)" by simp
  moreover have "is_double (1 / 2 ^ 30)" by (rule is_doubleI [of _ 30 1]) simp_all
  ultimately have a: "u01 True ?x = 1 / 2 ^ 30"
    by (simp only: u01_def d dmul_def dsub_def dbl_is_double of_int_numeral if_True Let_def)
  have "is_double (4503599845474315 / 2 ^ 58)" by (rule is_doubleI [of _ 58 4503599845474315]) simp_all
  then have "dbl (67108864 * norm) = 4503599845474315 / 2 ^ 58" by (simp add: norm_value dbl_is_double)
  moreover have "dbl (1 - 4503599845474315 / 2 ^ 58) = of_int (16911433715 * 2 ^ 19) / 2 ^ 53" by (rule dbl_eval) simp_all
  moreover have "of_int (16911433715 * 2 ^ 19) / 2 ^ 53 = (16911433715 / 2 ^ 34 :: real)" by simp
  ultimately have b: "u01 True (next6 ?x) = 16911433715 / 2 ^ 34"
    by (simp only: u01_def d dmul_def dsub_def of_int_numeral if_True Let_def)
  have "is_double (- 268435469 / 2 ^ 34)" "is_double (- 268435469 / 2 ^ 58)" "is_double (- 13 / 2 ^ 58)"
    by (rule is_doubleI [of _ 34 "- 268435469"], simp, simp, rule is_doubleI [of _ 58 "- 268435469"], simp, simp,
        rule is_doubleI [of _ 58 "- 13"], simp, simp)
  then have s: "dadd (u01 True ?x) (dmul (dsub (u01 True (next6 ?x)) 1) fact24) = - 13 / 2 ^ 58"
    by (simp add: a b dadd_def dmul_def dsub_def fact24_def dbl_is_double)
  have "dbl (1 - 13 / 2 ^ 58) = of_int (2 ^ 53) / 2 ^ 53" by (rule dbl_eval) simp_all
  then have "u01d True ?x (next6 ?x) = 1" unfolding u01d_def if_True s Let_def by (simp add: dadd_def)
  then show u: "fst (rand_u01 edge_rng) = 1"
    using U01d_exact [of edge_rng edge_state] l by (simp add: rand_u01_def edge_rng_def legal_def)
  have "of_long 6 = 6" "dmul 6 1 = 6" using int_ops(4) [of 6] int_ops(3) [of 6 1] by simp_all
  then show "fst (rand_int 1 6 edge_rng) = 7"
    by (simp add: rand_int_def split_beta Let_def u ctrunc_def sint_sbintrunc' signed_take_bit_int_eq_self)
qed

lemma get_state_r6: "legal_seeds seed \<Longrightarrow> Cg g = r6 (seed_state seed) \<Longrightarrow> get_state g = seed"
proof -
  assume a: "Cg g = r6 (seed_state seed)"
  obtain a1 b1 c1 a2 b2 c2 where s: "seed = ((a1, b1, c1), (a2, b2, c2))" by (cases seed) auto
  have "word_of_int (ctrunc (of_int (uint x))) = x" for x :: u32
    by (simp add: ctrunc_def word_of_int_uint del: of_int_uint)
  with a show "get_state g = seed" by (simp add: s get_state_def Let_def r6_def seed_state_def del: of_int_uint)
qed

text \<open>
  C16: Seeds are checked and come back. \<open>set_seed\<close> takes exactly the seeds that the comments allow, below the two
  moduli and not all zero in a component, and aborts on others; after it, \<open>get_state\<close> returns the seed, and so it
  does after any number of draws, once the stream is reset.
\<close>

theorem seeds_come_back:
  "(set_seed seed g = None \<longleftrightarrow> \<not> legal_seeds seed)
    \<and> (\<forall>g'. set_seed seed g = Some g' \<longrightarrow> get_state g' = seed
        \<and> get_state (reset_start_stream (((snd \<circ> rand_u01) ^^ n) g')) = seed)"
proof -
  have i: "Ig (snd (rand_u01 h)) = Ig h" for h
    by (simp add: rand_u01_def U01d_def U01_def Let_def split_beta)
  have "Ig (((snd \<circ> rand_u01) ^^ n) h) = Ig h" for h by (induction n) (simp_all add: i)
  then show ?thesis
    using seed_r6 [of seed] get_state_r6 [of seed]
    by (auto simp: set_seed_def CheckSeed_legal Let_def reset_start_stream_def split: if_splits)
qed

theorem seeds_come_back_witness:
  "\<exists>g'. set_seed ((1, 2, 3), (4, 5, 6)) sample_rng = Some g'
    \<and> get_state (reset_start_stream (((snd \<circ> rand_u01) ^^ 9) g')) = ((1, 2, 3), (4, 5, 6))"
proof -
  have "legal_seeds ((1, 2, 3), (4, 5, 6))" by (simp add: legal_seeds_def M1_def M2_def)
  with seeds_come_back [of "((1, 2, 3), (4, 5, 6))" sample_rng 9] show ?thesis by auto
qed

end
