(* ===== verification/Rng_Test.thy ===== *)
theory Rng_Test
  imports Rng_Properties
begin

text \<open>
  The test of the repository, \<open>RNGTest\<close> in src/ns-2.34/tools/rng.cc, on the model: the values of
  \<open>uniform_positive_int\<close> with the seed 1 after 10000 and after 551246 draws.
\<close>

section \<open>The states after so many draws\<close>

lemma power1_10000: "imat_pow 4294967087
    ((0, 1, 0), (0, 0, 1),
      (- 810728, 1403580, 0)) 10000 =
    ((3612574060, 2360618330, 1477861750), (1592570955, 3503301540, 2360618330),
      (776654612, 268662901, 3503301540))"
  by code_simp

lemma power2_10000: "imat_pow 4294944443
    ((0, 1, 0), (0, 0, 1),
      (- 1370589, 0, 527612)) 10000 =
    ((4108666427, 3104098703, 2007583377), (1644086669, 4108666427, 396382881),
      (2390941490, 1644086669, 2448569157))"
  by code_simp

lemma power1_551246: "imat_pow 4294967087
    ((0, 1, 0), (0, 0, 1),
      (- 810728, 1403580, 0)) 551246 =
    ((321161972, 846826995, 1371544479), (286585240, 4048097087, 846826995),
      (4132854590, 528570960, 4048097087))"
  by code_simp

lemma power2_551246: "imat_pow 4294944443
    ((0, 1, 0), (0, 0, 1),
      (- 1370589, 0, 527612)) 551246 =
    ((1982841545, 1834251493, 2473786334), (769073435, 1982841545, 1932833745),
      (1062716595, 769073435, 947107008))"
  by code_simp

lemma next6_imat_pow:
  assumes "red6 x" and "0 \<le> n"
  shows "(next6 ^^ nat n) x = (imvec M1 (imat_pow M1 A1 n) (fst x), imvec M2 (imat_pow M2 A2 n) (snd x))"
  using MatPowModM_exact [OF moduli(1) entries_consts(1) assms(2)] MatPowModM_exact [OF moduli(2) entries_consts(2) assms(2)] assms(1)
  by (simp add: next6_pow jumps_def red6_def del: imvec.simps all3.simps split_paired_All)

definition ones :: ivec6 where "ones = ((1, 1, 1), (1, 1, 1))"

lemma legal_ones: "legal ones"
  by (simp add: ones_def legal_def red6_def M1_def M2_def)

lemma test_states:
  "(next6 ^^ 10000) ones = ((3156087053, 3161523738, 253651966), (630459621, 1854191534, 2188652873))"
  "(next6 ^^ 551246) ones = ((2539533446, 886542235, 119588463), (1995934929, 389804282, 2778897038))"
  using next6_imat_pow [of ones 10000] next6_imat_pow [of ones 551246] legal_ones
    power1_10000 power2_10000 power1_551246 power2_551246
  by (simp_all add: M1_def M2_def A1_def A2_def ones_def legal_def)

section \<open>The values\<close>

lemma u01_close:
  assumes "red6 x"
  shows "\<bar>u01 False x - of_int (diff6 x) / 4294967088\<bar> \<le> 1 / 2 ^ 50"
proof -
  let ?d = "real_of_int (diff6 x)" and ?r = "1 / 4294967088 :: real"
  have d: "1 \<le> ?d" "?d \<le> 4294967087" using diff6_range [OF assms] by (simp_all add: M1_def)
  have n: "\<bar>norm - ?r\<bar> \<le> ?r / 2 ^ 53" using dbl_error [of ?r] by (simp add: norm_eq)
  then have "?d * \<bar>norm - ?r\<bar> \<le> 4294967087 * (?r / 2 ^ 53)" using d by (intro mult_mono) simp_all
  moreover have "\<bar>?d * norm - ?d * ?r\<bar> = ?d * \<bar>norm - ?r\<bar>"
    using d abs_mult [of ?d "norm - ?r"] unfolding right_diff_distrib by simp
  ultimately have p: "\<bar>?d * norm - ?d * ?r\<bar> \<le> 1 / 2 ^ 53" by simp
  have "0 \<le> ?d * norm" "?d * norm \<le> 4294967087 * (1 / 4294967088 + 1 / 2 ^ 84)"
    using d norm_bounds order_trans [OF _ norm_bounds(1), of 0] by (simp, intro mult_mono) simp_all
  then have "\<bar>?d * norm\<bar> \<le> 2" by simp
  then have "\<bar>dbl (?d * norm) - ?d * norm\<bar> \<le> 2 / 2 ^ 53" using dbl_error [of "?d * norm"] by simp
  moreover have n: "1 / 2 ^ 53 = (1 / 9007199254740992 :: real)" "2 / 2 ^ 53 = (2 / 9007199254740992 :: real)"
    "1 / 2 ^ 50 = (1 / 1125899906842624 :: real)" by simp_all
  ultimately have "\<bar>dbl (?d * norm) - ?d * ?r\<bar> \<le> 1 / 2 ^ 50" using p unfolding n by linarith
  then show ?thesis by (simp add: u01_def dmul_def)
qed

lemma close_scaled:
  fixes b u w :: real
  assumes "\<bar>b - 2147483648 * u\<bar> \<le> 2147483648 / 2 ^ 53" and "\<bar>u - w\<bar> \<le> 1 / 2 ^ 50"
  shows "\<bar>b - 2147483648 * w\<bar> < 1 / 2 ^ 18"
proof -
  have n: "2147483648 / 2 ^ 53 = (1 / 4194304 :: real)" "1 / 2 ^ 50 = (1 / 1125899906842624 :: real)"
    "1 / 2 ^ 18 = (1 / 262144 :: real)" by simp_all
  show ?thesis using assms unfolding n by linarith
qed

lemma rng_next_value:
  assumes g: "Cg g = r6 x" "red6 x" "\<not> anti g" "\<not> inc_prec g"
    and v: "real_of_int v + 1 / 2 ^ 18 \<le> 2147483648 * of_int (diff6 (next6 x)) / 4294967088"
      "2147483648 * of_int (diff6 (next6 x)) / 4294967088 \<le> real_of_int v + 1 - 1 / 2 ^ 18" "0 \<le> v" "v < 2 ^ 31"
  shows "fst (rng_next g) = v"
proof -
  let ?u = "u01 False (next6 x)"
  have "fst (rand_u01 g) = ?u" using U01_exact [OF g(1,2)] g(3,4) by (simp add: rand_u01_def)
  have c: "\<bar>?u - of_int (diff6 (next6 x)) / 4294967088\<bar> \<le> 1 / 2 ^ 50" by (rule u01_close [OF red6_next6])
  have r: "0 \<le> ?u" "?u \<le> 1" using u01_range [OF red6_next6, of False x] by (auto intro: order_trans)
  then have "\<bar>dbl (2147483648 * ?u) - 2147483648 * ?u\<bar> \<le> 2147483648 / 2 ^ 53" using dbl_error [of "2147483648 * ?u"] by simp
  then have "\<bar>dbl (2147483648 * ?u) - 2147483648 * of_int (diff6 (next6 x)) / 4294967088\<bar> < 1 / 2 ^ 18"
    using close_scaled [OF _ c] by simp
  then have f: "of_int v \<le> dbl (2147483648 * ?u)" "dbl (2147483648 * ?u) < of_int v + 1" using v(1,2) by linarith+
  have "of_long 2147483648 = 2147483648" using int_ops(4) [of 2147483648] by simp
  then have "ctrunc (dmul (of_long 2147483648) ?u) = v"
    using f v(3) floor_unique [of v "dbl (2147483648 * ?u)"] by (simp add: ctrunc_def dmul_def)
  then show ?thesis
    using \<open>fst (rand_u01 g) = ?u\<close> v(3,4)
    by (simp add: rng_next_def rand_int_def MAXINT_def Let_def split_beta sint_sbintrunc' signed_take_bit_int_eq_self)
qed

lemma rng_next_steps:
  assumes "Cg g = r6 x" "red6 x" "\<not> inc_prec g"
  shows "((snd \<circ> rng_next) ^^ n) g = g\<lparr>Cg := r6 ((next6 ^^ n) x)\<rparr>"
proof -
  have "snd \<circ> rng_next = snd \<circ> rand_u01" by (simp add: rng_next_def rand_int_def Let_def split_beta fun_eq_iff)
  with rand_u01_steps [OF assms] show ?thesis by simp
qed

text \<open>
  C12: The model passes the test that the repository has for the generator. With the raw seed 1 the 10000th value of
  \<open>uniform_positive_int\<close> is 1179983147, and the 551246th is 817829295, computed in doubles as the code does.
\<close>

theorem rng_test_passes:
  "\<exists>g ns. set_seed_source RAW_SEED_SOURCE 1 [] 0 = Some ((g, ns), [], 0)
    \<and> fst (rng_next (((snd \<circ> rng_next) ^^ 9999) g)) = 1179983147
    \<and> fst (rng_next (((snd \<circ> rng_next) ^^ 551245) g)) = 817829295"
proof -
  have l: "legal_seeds ((1, 1, 1), (1, 1, 1))" by (simp add: legal_seeds_def M1_def M2_def)
  have i: "seed_state ((1, 1, 1), (1, 1, 1)) = ones" by (simp add: seed_state_def ones_def)
  have s: "set_seed_source RAW_SEED_SOURCE 1 [] 0 = Some (rng_init (r6 ones), [], 0)"
    using l seed_r6(1) [OF l]
    by (simp add: set_seed_source_def MAXINT_def set_seed_long_def set_package_seed_def CheckSeed_legal i)
  obtain g ns where g: "rng_init (r6 ones) = (g, ns)" by (cases "rng_init (r6 ones)")
  then have c: "Cg g = r6 ones" "\<not> inc_prec g" "\<not> anti g" by (auto simp: rng_init_def)
  have r: "red6 ((next6 ^^ n) ones)" for n using red6_pow legal_ones by (simp add: legal_def)
  have v: "fst (rng_next (((snd \<circ> rng_next) ^^ n) g)) = v"
    if "real_of_int v + 1 / 2 ^ 18 \<le> 2147483648 * of_int (diff6 ((next6 ^^ Suc n) ones)) / 4294967088"
      "2147483648 * of_int (diff6 ((next6 ^^ Suc n) ones)) / 4294967088 \<le> real_of_int v + 1 - 1 / 2 ^ 18"
      "0 \<le> v" "v < 2 ^ 31" for n v
    unfolding rng_next_steps [OF c(1) r [of 0, simplified] c(2)]
    by (rule rng_next_value [of _ "(next6 ^^ n) ones"]) (use that c r in simp_all)
  have "fst (rng_next (((snd \<circ> rng_next) ^^ 9999) g)) = 1179983147"
    by (rule v) (simp_all add: test_states diff6_def M1_def)
  moreover have "fst (rng_next (((snd \<circ> rng_next) ^^ 551245) g)) = 817829295"
    by (rule v) (simp_all add: test_states diff6_def M1_def)
  ultimately show ?thesis using s unfolding g by blast
qed

end
