(* ===== verification/Packet_Queue.thy ===== *)
theory Packet_Queue
  imports Prelude
begin

text \<open>
  \<open>PacketQueue\<close> (src/ns-2.34/queue/queue.h, queue.cc): the linked list of packets under every queue discipline and
  under the links. A packet is its address, 0 is NULL; \<open>nx\<close> is the member \<open>next_\<close> of all packets, \<open>sz\<close> their sizes.
  None is an abort or an access through NULL. \<open>in_queue\<close> ties the pointers and counters to the list of packets,
  and the lemmas show that each operation does to it what its name says.
\<close>

type_synonym pkt_links = "nat \<Rightarrow> nat"

record packet_queue =
  pq_head :: nat
  pq_tail :: nat
  pq_len :: int
  pq_bytes :: int
  pq_iter :: nat

text \<open>The constructor leaves \<open>iter\<close> as it is.\<close>

definition new_packet_queue :: "nat \<Rightarrow> packet_queue" where
  "new_packet_queue iter = \<lparr> pq_head = 0, pq_tail = 0, pq_len = 0, pq_bytes = 0, pq_iter = iter \<rparr>"

definition pq_count :: "int \<Rightarrow> int \<Rightarrow> packet_queue \<Rightarrow> packet_queue" where
  "pq_count n b q = q\<lparr>pq_len := pq_len q + n, pq_bytes := pq_bytes q + b\<rparr>"

definition pq_enque :: "(nat \<Rightarrow> int) \<Rightarrow> nat \<Rightarrow> pkt_links \<times> packet_queue \<Rightarrow> (nat \<times> pkt_links \<times> packet_queue) option" where
  "pq_enque sz p =
    (\<lambda>(nx, q).
      if p = 0 then None
      else
        (let pt = pq_tail q;
             (nx, q) = (if pq_tail q = 0 then (nx, q\<lparr>pq_head := p, pq_tail := p\<rparr>)
                        else (nx(pq_tail q := p), q\<lparr>pq_tail := p\<rparr>));
             nx = nx(pq_tail q := 0)
         in Some (pt, nx, pq_count 1 (sz p) q)))"

definition pq_deque :: "(nat \<Rightarrow> int) \<Rightarrow> pkt_links \<times> packet_queue \<Rightarrow> nat \<times> pkt_links \<times> packet_queue" where
  "pq_deque sz =
    (\<lambda>(nx, q).
      if pq_head q = 0 then (0, nx, q)
      else
        (let p = pq_head q;
             q = q\<lparr>pq_head := nx p\<rparr>;
             q = (if p = pq_tail q then q\<lparr>pq_head := 0, pq_tail := 0\<rparr> else q)
         in (p, nx, pq_count (- 1) (- sz p) q)))"

definition pq_enqueHead :: "(nat \<Rightarrow> int) \<Rightarrow> nat \<Rightarrow> pkt_links \<times> packet_queue \<Rightarrow> (pkt_links \<times> packet_queue) option" where
  "pq_enqueHead sz p =
    (\<lambda>(nx, q).
      if p = 0 then None
      else
        (let q = (if pq_head q = 0 then q\<lparr>pq_tail := p\<rparr> else q);
             nx = nx(p := pq_head q)
         in Some (nx, pq_count 1 (sz p) (q\<lparr>pq_head := p\<rparr>))))"

text \<open>The loop of \<open>remove\<close>: the packet before the target, NULL if that is the first.\<close>

partial_function (option) pq_find :: "pkt_links \<Rightarrow> nat \<Rightarrow> nat \<Rightarrow> nat \<Rightarrow> nat option" where
  "pq_find nx target pp p =
    (if p = 0 then None else if p = target then Some pp else pq_find nx target p (nx p))"

definition pq_unlink :: "(nat \<Rightarrow> int) \<Rightarrow> nat \<Rightarrow> nat \<Rightarrow> pkt_links \<times> packet_queue \<Rightarrow> pkt_links \<times> packet_queue" where
  "pq_unlink sz p pp =
    (\<lambda>(nx, q). (nx(pp := nx p), pq_count (- 1) (- sz p) (if p = pq_tail q then q\<lparr>pq_tail := pp\<rparr> else q)))"

definition pq_remove :: "(nat \<Rightarrow> int) \<Rightarrow> nat \<Rightarrow> pkt_links \<times> packet_queue \<Rightarrow> (pkt_links \<times> packet_queue) option" where
  "pq_remove sz target =
    (\<lambda>(nx, q). do {
       pp \<leftarrow> pq_find nx target 0 (pq_head q);
       Some (if pp = 0 then snd (pq_deque sz (nx, q)) else pq_unlink sz target pp (nx, q))
     })"

definition pq_remove_after ::
  "(nat \<Rightarrow> int) \<Rightarrow> nat \<Rightarrow> nat \<Rightarrow> pkt_links \<times> packet_queue \<Rightarrow> (pkt_links \<times> packet_queue) option" where
  "pq_remove_after sz pkt prev =
    (\<lambda>(nx, q).
      if pkt = 0 then Some (nx, q)
      else if pq_head q = pkt then Some (snd (pq_deque sz (nx, q)))
      else if prev = 0 then None
      else Some (pq_unlink sz pkt prev (nx, q)))"

partial_function (option) pq_nth :: "pkt_links \<Rightarrow> int \<Rightarrow> nat \<Rightarrow> nat option" where
  "pq_nth nx n p = (if p = 0 then Some 0 else if n - 1 < 0 then Some p else pq_nth nx (n - 1) (nx p))"

definition pq_lookup :: "int \<Rightarrow> pkt_links \<times> packet_queue \<Rightarrow> nat option" where
  "pq_lookup n = (\<lambda>(nx, q). pq_nth nx n (pq_head q))"

definition pq_resetIterator :: "packet_queue \<Rightarrow> packet_queue" where
  "pq_resetIterator q = q\<lparr>pq_iter := pq_head q\<rparr>"

definition pq_getNext :: "pkt_links \<Rightarrow> packet_queue \<Rightarrow> nat \<times> packet_queue" where
  "pq_getNext nx q = (if pq_iter q = 0 then (0, q) else (pq_iter q, q\<lparr>pq_iter := nx (pq_iter q)\<rparr>))"

section \<open>The list that the pointers hold\<close>

fun chain :: "pkt_links \<Rightarrow> nat \<Rightarrow> nat list \<Rightarrow> nat \<Rightarrow> bool" where
  "chain nx p [] r \<longleftrightarrow> p = r"
| "chain nx p (x # xs) r \<longleftrightarrow> p = x \<and> x \<noteq> 0 \<and> chain nx (nx x) xs r"

definition in_queue :: "(nat \<Rightarrow> int) \<Rightarrow> pkt_links \<times> packet_queue \<Rightarrow> nat list \<Rightarrow> bool" where
  "in_queue sz s xs \<longleftrightarrow>
    (case s of (nx, q) \<Rightarrow> chain nx (pq_head q) xs 0 \<and> distinct xs \<and> pq_tail q = (if xs = [] then 0 else last xs)
      \<and> pq_len q = int (length xs) \<and> pq_bytes q = sum_list (map sz xs))"

lemma chain_cong: "(\<And>x. x \<in> set xs \<Longrightarrow> nx' x = nx x) \<Longrightarrow> chain nx' p xs r = chain nx p xs r"
  by (induction xs arbitrary: p) auto

lemma chain_update [simp]: "x \<notin> set xs \<Longrightarrow> chain (nx(x := v)) p xs r = chain nx p xs r"
  by (rule chain_cong) auto

lemma chain_append: "chain nx p (xs @ ys) r \<longleftrightarrow> (\<exists>m. chain nx p xs m \<and> chain nx m ys r)"
  by (induction xs arbitrary: p) auto

lemma chain_nonzero: "chain nx p xs r \<Longrightarrow> 0 \<notin> set xs"
  by (induction xs arbitrary: p) auto

lemma chain_null: "chain nx p xs 0 \<Longrightarrow> p = 0 \<longleftrightarrow> xs = []"
  by (cases xs) auto

lemma in_queue_cong: "in_queue sz (nx, q) xs \<Longrightarrow> (\<And>x. x \<in> set xs \<Longrightarrow> nx' x = nx x) \<Longrightarrow> in_queue sz (nx', q) xs"
  using chain_cong [of xs nx' nx] by (simp add: in_queue_def)

lemma in_queue_empty: "in_queue sz (nx, q) [] \<longleftrightarrow> pq_head q = 0 \<and> pq_tail q = 0 \<and> pq_len q = 0 \<and> pq_bytes q = 0"
  by (simp add: in_queue_def)

lemma new_packet_queue_empty [simp]: "in_queue sz (nx, new_packet_queue iter) []"
  by (simp add: in_queue_def new_packet_queue_def)

lemma in_queue_facts:
  "in_queue sz (nx, q) xs \<Longrightarrow> distinct xs \<and> 0 \<notin> set xs \<and> pq_len q = int (length xs) \<and> pq_bytes q = sum_list (map sz xs)
    \<and> (pq_head q = 0 \<longleftrightarrow> xs = []) \<and> (xs \<noteq> [] \<longrightarrow> pq_tail q = last xs)"
  by (auto simp: in_queue_def dest: chain_nonzero chain_null)

lemma pq_enque_law:
  assumes q: "in_queue sz (nx, q) xs" and p: "p \<notin> set xs" "p \<noteq> 0"
  shows "\<exists>nx' q'. pq_enque sz p (nx, q) = Some (if xs = [] then 0 else last xs, nx', q') \<and> in_queue sz (nx', q') (xs @ [p])
    \<and> (\<forall>y. y \<notin> set (p # xs) \<longrightarrow> nx' y = nx y)"
proof (cases xs rule: rev_cases)
  case Nil
  then show ?thesis using assms by (auto simp: pq_enque_def in_queue_def pq_count_def Let_def)
next
  case (snoc ys y)
  have "chain nx (pq_head q) ys y" "pq_tail q = y" "y \<noteq> 0" "y \<notin> set ys"
    using q snoc by (auto simp: in_queue_def chain_append)
  with q p snoc show ?thesis by (auto simp: pq_enque_def in_queue_def pq_count_def Let_def chain_append)
qed

lemma pq_deque_empty: "in_queue sz (nx, q) [] \<Longrightarrow> pq_deque sz (nx, q) = (0, nx, q)"
  by (simp add: pq_deque_def in_queue_def)

lemma pq_deque_law:
  assumes "in_queue sz (nx, q) (x # xs)"
  shows "\<exists>q'. pq_deque sz (nx, q) = (x, nx, q') \<and> in_queue sz (nx, q') xs"
proof (cases "xs = []")
  case False
  then have "x \<noteq> last xs" using assms last_in_set [of xs] by (auto simp: in_queue_def)
  with assms False show ?thesis by (auto simp: pq_deque_def in_queue_def pq_count_def Let_def)
qed (use assms in \<open>auto simp: pq_deque_def in_queue_def pq_count_def Let_def\<close>)

lemma pq_enqueHead_law:
  assumes "in_queue sz (nx, q) xs" and "p \<notin> set xs" "p \<noteq> 0"
  shows "\<exists>s. pq_enqueHead sz p (nx, q) = Some s \<and> in_queue sz s (p # xs)"
  using assms by (cases xs) (auto simp: pq_enqueHead_def in_queue_def pq_count_def Let_def)

lemma pq_find_law:
  "chain nx p xs 0 \<Longrightarrow> distinct xs \<Longrightarrow> pq_find nx t pp p
    = (if t \<in> set xs then Some (last (pp # takeWhile (\<lambda>x. x \<noteq> t) xs)) else None)"
proof (induction xs arbitrary: p pp)
  case (Cons x xs)
  then show ?case by (subst pq_find.simps) auto
qed (subst pq_find.simps, simp)

lemma pq_unlink_law:
  assumes "in_queue sz (nx, q) (ys @ pp # t # zs)"
  shows "in_queue sz (pq_unlink sz t pp (nx, q)) (ys @ pp # zs)"
  using assms by (auto simp: pq_unlink_def in_queue_def pq_count_def chain_append split: if_splits)

lemma pq_remove_law:
  assumes q: "in_queue sz (nx, q) xs"
  shows "if t \<in> set xs then \<exists>s. pq_remove sz t (nx, q) = Some s \<and> in_queue sz s (remove1 t xs)
    else pq_remove sz t (nx, q) = None"
proof (cases "t \<in> set xs")
  case True
  then obtain ys zs where xs: "xs = ys @ t # zs" "t \<notin> set ys" using split_list_first by metis
  have w: "takeWhile (\<lambda>x. x \<noteq> t) (ys @ t # zs) = ys" using xs(2) by (subst takeWhile_append2) auto
  have f: "pq_find nx t 0 (pq_head q) = Some (last (0 # ys))"
    using q xs pq_find_law [of nx "pq_head q" xs t 0] by (auto simp: in_queue_def w)
  show ?thesis
  proof (cases ys rule: rev_cases)
    case Nil
    then show ?thesis using f xs q pq_deque_law [of sz nx q t zs] by (auto simp: pq_remove_def)
  next
    case (snoc us pp)
    have "0 \<notin> set xs" using in_queue_facts [OF q] by blast
    then have "pp \<noteq> 0" using xs snoc by auto
    then show ?thesis using f xs q snoc pq_unlink_law [of sz nx q us pp t zs]
      by (auto simp: pq_remove_def remove1_append)
  qed
next
  case False
  then show ?thesis using q pq_find_law [of nx "pq_head q" xs t 0] by (simp add: pq_remove_def in_queue_def)
qed

lemma pq_nth_law: "chain nx p xs 0 \<Longrightarrow> pq_nth nx n p = Some (if nat n < length xs then xs ! nat n else 0)"
proof (induction xs arbitrary: p n)
  case (Cons x xs)
  then show ?case by (subst pq_nth.simps) (auto simp: nth_Cons' nat_diff_distrib)
qed (subst pq_nth.simps, simp)

text \<open>An iteration yields the packets in order, then NULL.\<close>

lemma pq_getNext_law:
  "chain nx (pq_iter q) xs 0 \<Longrightarrow> pq_getNext nx q = (case xs of [] \<Rightarrow> (0, q) | x # _ \<Rightarrow> (x, q\<lparr>pq_iter := nx x\<rparr>))"
  by (cases xs) (auto simp: pq_getNext_def)

section \<open>Refinement of lists\<close>

datatype pq_op = Pq_Enque nat | Pq_Deque | Pq_Enque_Head nat | Pq_Remove nat | Pq_Remove_After nat nat | Pq_Lookup int

fun pq_do :: "(nat \<Rightarrow> int) \<Rightarrow> pq_op \<Rightarrow> pkt_links \<times> packet_queue \<Rightarrow> (nat \<times> pkt_links \<times> packet_queue) option" where
  "pq_do sz (Pq_Enque p) s = pq_enque sz p s"
| "pq_do sz Pq_Deque s = Some (pq_deque sz s)"
| "pq_do sz (Pq_Enque_Head p) s = map_option (Pair 0) (pq_enqueHead sz p s)"
| "pq_do sz (Pq_Remove p) s = map_option (Pair 0) (pq_remove sz p s)"
| "pq_do sz (Pq_Remove_After p pp) s = map_option (Pair 0) (pq_remove_after sz p pp s)"
| "pq_do sz (Pq_Lookup n) s = map_option (\<lambda>r. (r, s)) (pq_lookup n s)"

fun list_do :: "pq_op \<Rightarrow> nat list \<Rightarrow> (nat \<times> nat list) option" where
  "list_do (Pq_Enque p) xs = Some (if xs = [] then 0 else last xs, xs @ [p])"
| "list_do Pq_Deque xs = Some (case xs of [] \<Rightarrow> (0, []) | x # xs \<Rightarrow> (x, xs))"
| "list_do (Pq_Enque_Head p) xs = Some (0, p # xs)"
| "list_do (Pq_Remove p) xs = (if p \<in> set xs then Some (0, remove1 p xs) else None)"
| "list_do (Pq_Remove_After p pp) xs = Some (0, if p = 0 then xs else remove1 p xs)"
| "list_do (Pq_Lookup n) xs = Some (if nat n < length xs then xs ! nat n else 0, xs)"

text \<open>What the callers must keep to: a new packet is in no queue, and \<open>prev\<close> is the packet before \<open>pkt\<close>.\<close>

fun pq_legal :: "pq_op \<Rightarrow> nat list \<Rightarrow> bool" where
  "pq_legal (Pq_Enque p) xs \<longleftrightarrow> p \<noteq> 0 \<and> p \<notin> set xs"
| "pq_legal (Pq_Enque_Head p) xs \<longleftrightarrow> p \<noteq> 0 \<and> p \<notin> set xs"
| "pq_legal (Pq_Remove_After p pp) xs \<longleftrightarrow>
    p = 0 \<or> (case xs of [] \<Rightarrow> False | x # xs' \<Rightarrow> p = x \<or> (pp, p) \<in> set (zip xs xs'))"
| "pq_legal op xs \<longleftrightarrow> True"

fun pq_run :: "('s \<Rightarrow> pq_op \<Rightarrow> (nat \<times> 's) option) \<Rightarrow> pq_op list \<Rightarrow> 's \<Rightarrow> (nat list \<times> 's) option" where
  "pq_run f [] s = Some ([], s)"
| "pq_run f (op # ops) s = do { (r, s) \<leftarrow> f s op; (rs, s) \<leftarrow> pq_run f ops s; Some (r # rs, s) }"

fun pq_legal_run :: "pq_op list \<Rightarrow> nat list \<Rightarrow> bool" where
  "pq_legal_run [] xs \<longleftrightarrow> True"
| "pq_legal_run (op # ops) xs \<longleftrightarrow>
    pq_legal op xs \<and> (case list_do op xs of None \<Rightarrow> True | Some (r, xs) \<Rightarrow> pq_legal_run ops xs)"

definition pq_refines :: "(nat \<Rightarrow> int) \<Rightarrow> ('r \<times> pkt_links \<times> packet_queue) option \<Rightarrow> ('r \<times> nat list) option \<Rightarrow> bool" where
  "pq_refines sz = rel_option (\<lambda>(r, s) (r', xs). r = r' \<and> in_queue sz s xs)"

lemma zip_tl_split: "(a, b) \<in> set (zip (x # xs) xs) \<Longrightarrow> \<exists>ys zs. x # xs = ys @ a # b # zs"
proof (induction xs arbitrary: x)
  case (Cons y xs)
  then have "a = x \<and> b = y \<or> (\<exists>ys zs. y # xs = ys @ a # b # zs)" by auto
  then show ?case
  proof
    assume "a = x \<and> b = y"
    then have "x # y # xs = [] @ a # b # xs" by simp
    then show ?thesis by blast
  next
    assume "\<exists>ys zs. y # xs = ys @ a # b # zs"
    then obtain ys zs where "x # y # xs = (x # ys) @ a # b # zs" by auto
    then show ?thesis by blast
  qed
qed simp

lemma pq_do_refines:
  assumes q: "in_queue sz (nx, q) xs" and l: "pq_legal op xs"
  shows "pq_refines sz (pq_do sz op (nx, q)) (list_do op xs)"
proof (cases op)
  case (Pq_Enque p)
  then show ?thesis using l pq_enque_law [OF q, of p] by (auto simp: pq_refines_def)
next
  case Pq_Deque
  then show ?thesis
    using q pq_deque_empty [of sz nx q] pq_deque_law [of sz nx q "hd xs" "tl xs"] by (cases xs) (auto simp: pq_refines_def)
next
  case (Pq_Enque_Head p)
  then show ?thesis using l pq_enqueHead_law [OF q, of p] by (auto simp: pq_refines_def)
next
  case (Pq_Remove p)
  then show ?thesis using pq_remove_law [OF q, of p] by (auto simp: pq_refines_def split: if_splits)
next
  case (Pq_Lookup n)
  then show ?thesis using q pq_nth_law [of nx "pq_head q" xs n] by (auto simp: pq_refines_def pq_lookup_def in_queue_def)
next
  case (Pq_Remove_After p pp)
  show ?thesis
  proof (cases "p = 0 \<or> pq_head q = p")
    case True
    show ?thesis
    proof (cases "p = 0")
      case False
      then obtain xs' where xs: "xs = p # xs'" using True q by (cases xs) (auto simp: in_queue_def)
      then obtain q' where "pq_deque sz (nx, q) = (p, nx, q')" "in_queue sz (nx, q') xs'" using pq_deque_law q by blast
      with False True Pq_Remove_After xs show ?thesis by (simp add: pq_refines_def pq_remove_after_def)
    qed (simp add: Pq_Remove_After pq_refines_def pq_remove_after_def q)
  next
    case False
    then obtain x xs' where xs: "xs = x # xs'" "(pp, p) \<in> set (zip xs xs')"
      using l Pq_Remove_After q by (auto simp: in_queue_def split: list.splits)
    from this(2) obtain ys zs where s: "xs = ys @ pp # p # zs" unfolding xs(1) using zip_tl_split [of pp p x xs'] by blast
    moreover have "0 \<notin> set xs" "distinct xs" using in_queue_facts [OF q] by simp_all
    ultimately show ?thesis using False Pq_Remove_After q pq_unlink_law [of sz nx q ys pp p zs]
      by (auto simp: pq_refines_def pq_remove_after_def remove1_append)
  qed
qed

lemma pq_run_refines:
  "in_queue sz s xs \<Longrightarrow> pq_legal_run ops xs
    \<Longrightarrow> pq_refines sz (pq_run (\<lambda>s op. pq_do sz op s) ops s) (pq_run (\<lambda>xs op. list_do op xs) ops xs)"
proof (induction ops arbitrary: s xs)
  case Nil
  then show ?case by (simp add: pq_refines_def)
next
  case (Cons op ops)
  obtain nx q where s: "s = (nx, q)" by (cases s)
  have r: "pq_refines sz (pq_do sz op s) (list_do op xs)" using pq_do_refines Cons.prems s by simp
  show ?case
  proof (cases "list_do op xs")
    case None
    with r show ?thesis by (simp add: pq_refines_def)
  next
    case (Some b)
    then obtain r xs' s' where a: "b = (r, xs')" "pq_do sz op s = Some (r, s')" "in_queue sz s' xs'"
      using r by (cases b) (auto simp: pq_refines_def option_rel_Some2)
    with Cons.IH [OF a(3)] Cons.prems(2) Some
    have "pq_refines sz (pq_run (\<lambda>s op. pq_do sz op s) ops s') (pq_run (\<lambda>xs op. list_do op xs) ops xs')" by simp
    with Some a show ?thesis
      by (cases "pq_run (\<lambda>s op. pq_do sz op s) ops s'"; cases "pq_run (\<lambda>xs op. list_do op xs) ops xs'")
        (auto simp: pq_refines_def)
  qed
qed

text \<open>
  C19: The pointers of \<open>PacketQueue\<close> are a list. Every sequence of calls that its comments allow, insertion at either end,
  removal by packet or by position, search by index, returns on a new queue what it returns on the empty list, aborts
  exactly where a packet to be removed is missing, and leaves a chain, a tail and counters of packets and bytes that
  agree with the list.
\<close>

theorem packet_queue_is_list:
  assumes "pq_legal_run ops []"
  shows "pq_refines sz (pq_run (\<lambda>s op. pq_do sz op s) ops (nx, new_packet_queue iter)) (pq_run (\<lambda>xs op. list_do op xs) ops [])"
  using assms by (intro pq_run_refines) simp_all

theorem packet_queue_is_list_witness:
  "\<exists>s. pq_run (\<lambda>s op. pq_do (\<lambda>_. 40) op s)
      [Pq_Enque 3, Pq_Enque 5, Pq_Enque_Head 4, Pq_Remove_After 5 3, Pq_Remove 4, Pq_Deque, Pq_Deque] (id, new_packet_queue 0)
    = Some ([0, 3, 0, 0, 0, 3, 0], s) \<and> in_queue (\<lambda>_. 40) s []"
  using packet_queue_is_list [of "[Pq_Enque 3, Pq_Enque 5, Pq_Enque_Head 4, Pq_Remove_After 5 3, Pq_Remove 4, Pq_Deque, Pq_Deque]"
      "\<lambda>_. 40" id 0]
  by (auto simp: pq_refines_def option_rel_Some2 simp del: pq_do.simps)

end
