(* ===== verification/Drop_Tail.thy ===== *)
theory Drop_Tail
  imports Packet_Queue Complex_Main
begin

text \<open>
  \<open>Queue\<close> (src/ns-2.34/queue/queue.cc, queue.h) over any discipline, and the discipline \<open>DropTail\<close> (drop-tail.cc,
  drop-tail.h). The members of \<open>DropTail\<close> extend the record of those of \<open>Queue\<close>, as the classes do. The virtual
  functions \<open>enque\<close> and \<open>deque\<close> are arguments of the operations of \<open>Queue\<close>; the locale \<open>fifo_discipline\<close> says what they
  promise. A call of \<open>drop\<close> is a packet in the list of drops that is returned, a call of \<open>target_->recv\<close> the packet
  that is returned, 0 if there is none. Statistics are exact reals. None is a trap.
\<close>

section \<open>Statistics\<close>

record queue_stats =
  true_ave :: real
  total_time :: real
  last_change :: real
  old_util :: real
  util_weight :: real
  util_check_intv :: real
  period_begin :: real
  cur_util :: real
  buf_slot :: int
  util_buf :: "real list"
  util_records :: int

definition util_put :: "int \<Rightarrow> real \<Rightarrow> real list \<Rightarrow> real list option" where
  "util_put i v xs = (if 0 \<le> i \<and> i < int (length xs) then Some (xs[nat i := v]) else None)"

text \<open>\<open>guard++ < util_records_\<close> bounds the loop.\<close>

fun util_loop :: "nat \<Rightarrow> real \<Rightarrow> real \<Rightarrow> real \<Rightarrow> real \<Rightarrow> queue_stats \<Rightarrow> queue_stats option" where
  "util_loop 0 tot_intv intv int_end link_state st = Some st"
| "util_loop (Suc n) tot_intv intv int_end link_state st =
    (if util_check_intv st < tot_intv + intv
     then do {
       buf \<leftarrow> util_put (buf_slot st) (cur_util st) (util_buf st);
       util_loop n tot_intv (intv - util_check_intv st) int_end link_state
         (st\<lparr>period_begin := int_end, util_buf := buf, buf_slot := (buf_slot st + 1) mod util_records st, cur_util := link_state\<rparr>)
     }
     else Some st)"

definition utilUpdate :: "real \<Rightarrow> real \<Rightarrow> real \<Rightarrow> queue_stats \<Rightarrow> queue_stats option" where
  "utilUpdate int_begin int_end link_state st =
    (let decay = exp (- util_weight st * (int_end - int_begin));
         st = st\<lparr>old_util := link_state + (old_util st - link_state) * decay\<rparr>
     in if util_records st = 0 then Some st
        else
          (let intv = int_end - int_begin;
               tot_intv = int_begin - period_begin st
           in if intv \<noteq> 0 \<or> tot_intv \<noteq> 0
              then let st = st\<lparr>cur_util := (link_state * intv + cur_util st * tot_intv) / (intv + tot_intv)\<rparr>
                   in util_loop (nat (util_records st)) tot_intv intv int_end link_state st
              else Some st))"

definition updateStats :: "real \<Rightarrow> int \<Rightarrow> queue_stats \<Rightarrow> queue_stats" where
  "updateStats now queuesize st =
    (if 0 < now - total_time st
     then st\<lparr>true_ave := (total_time st * true_ave st + (now - total_time st) * of_int queuesize) / now, total_time := now\<rparr>
     else st)"

section \<open>\<open>Queue\<close>\<close>

record queue_base =
  qlim :: int
  blocked :: bool
  unblock_on_resume :: bool
  qstats :: queue_stats

text \<open>\<open>utilUpdate(last_change_, now, blocked_); last_change_ = now\<close>, here and in \<open>utilization\<close>.\<close>

definition util_now :: "real \<Rightarrow> 'a queue_base_scheme \<Rightarrow> 'a queue_base_scheme option" where
  "util_now now q = do {
     st \<leftarrow> utilUpdate (last_change (qstats q)) now (of_bool (blocked q)) (qstats q);
     Some (q\<lparr>qstats := st\<lparr>last_change := now\<rparr>\<rparr>)
   }"

type_synonym 'q enque_fun = "real \<Rightarrow> nat \<Rightarrow> pkt_links \<times> 'q \<Rightarrow> (nat list \<times> pkt_links \<times> 'q) option"
type_synonym 'q deque_fun = "real \<Rightarrow> pkt_links \<times> 'q \<Rightarrow> nat \<times> pkt_links \<times> 'q"

definition queue_recv ::
  "'a queue_base_scheme enque_fun \<Rightarrow> 'a queue_base_scheme deque_fun \<Rightarrow> real \<Rightarrow> nat \<Rightarrow> pkt_links \<times> 'a queue_base_scheme
    \<Rightarrow> (nat \<times> nat list \<times> pkt_links \<times> 'a queue_base_scheme) option" where
  "queue_recv enq deq now p s = do {
     (ds, nx, q) \<leftarrow> enq now p s;
     if blocked q then Some (0, ds, nx, q)
     else case deq now (nx, q) of (p, nx, q) \<Rightarrow>
       if p \<noteq> 0 then do { q \<leftarrow> util_now now q; Some (p, ds, nx, q\<lparr>blocked := True\<rparr>) }
       else Some (0, ds, nx, q)
   }"

definition queue_resume ::
  "'a queue_base_scheme deque_fun \<Rightarrow> real \<Rightarrow> pkt_links \<times> 'a queue_base_scheme
    \<Rightarrow> (nat \<times> pkt_links \<times> 'a queue_base_scheme) option" where
  "queue_resume deq now s =
    (case deq now s of (p, nx, q) \<Rightarrow>
       if p \<noteq> 0 then Some (p, nx, q)
       else do { q \<leftarrow> util_now now q; Some (0, nx, q\<lparr>blocked := \<not> unblock_on_resume q\<rparr>) })"

definition queue_utilization :: "real \<Rightarrow> 'a queue_base_scheme \<Rightarrow> (real \<times> 'a queue_base_scheme) option" where
  "queue_utilization now q = do { q \<leftarrow> util_now now q; Some (old_util (qstats q), q) }"

definition peak_utilization :: "real \<Rightarrow> 'a queue_base_scheme \<Rightarrow> (real \<times> 'a queue_base_scheme) option" where
  "peak_utilization now q =
    (if util_records (qstats q) = 0 then queue_utilization now q
     else do {
       q \<leftarrow> util_now now q;
       if util_records (qstats q) \<le> int (length (util_buf (qstats q)))
       then Some (fold (\<lambda>u peak. if peak < u then u else peak) (take (nat (util_records (qstats q))) (util_buf (qstats q))) 0, q)
       else None
     })"

partial_function (option) drop_all ::
  "(pkt_links \<times> 'q \<Rightarrow> nat \<times> pkt_links \<times> 'q) \<Rightarrow> pkt_links \<times> 'q \<Rightarrow> (nat list \<times> pkt_links \<times> 'q) option" where
  "drop_all deq s =
    (case deq s of (p, s) \<Rightarrow>
       if p \<noteq> 0 then do { (ds, s) \<leftarrow> drop_all deq s; Some (p # ds, s) } else Some ([], s))"

definition queue_reset ::
  "'a queue_base_scheme deque_fun \<Rightarrow> real \<Rightarrow> pkt_links \<times> 'a queue_base_scheme
    \<Rightarrow> (nat list \<times> pkt_links \<times> 'a queue_base_scheme) option" where
  "queue_reset deq now =
    (\<lambda>(nx, q). drop_all (deq now) (nx, q\<lparr>qstats := (qstats q)\<lparr>total_time := 0, true_ave := 0\<rparr>\<rparr>))"

section \<open>\<open>DropTail\<close>\<close>

record drop_tail = queue_base +
  dt_q :: packet_queue
  drop_front :: bool
  summarystats :: bool
  qib :: bool
  mean_pktsize :: int

definition dt_size :: "'a drop_tail_scheme \<Rightarrow> int" where
  "dt_size q = (if qib q then pq_bytes (dt_q q) else pq_len (dt_q q))"

definition dt_summary :: "real \<Rightarrow> 'a drop_tail_scheme \<Rightarrow> 'a drop_tail_scheme" where
  "dt_summary now q = (if summarystats q then q\<lparr>qstats := updateStats now (dt_size q) (qstats q)\<rparr> else q)"

text \<open>An \<open>int\<close>, which wraps.\<close>

definition qlimBytes :: "'a drop_tail_scheme \<Rightarrow> int" where
  "qlimBytes q = sint (word_of_int (qlim q * mean_pktsize q) :: 32 word)"

definition dt_full :: "(nat \<Rightarrow> int) \<Rightarrow> nat \<Rightarrow> 'a drop_tail_scheme \<Rightarrow> bool" where
  "dt_full sz p q \<longleftrightarrow> \<not> qib q \<and> qlim q \<le> pq_len (dt_q q) + 1 \<or> qib q \<and> qlimBytes q \<le> pq_bytes (dt_q q) + sz p"

definition dt_enque :: "(nat \<Rightarrow> int) \<Rightarrow> 'a drop_tail_scheme enque_fun" where
  "dt_enque sz now p =
    (\<lambda>(nx, q).
      let q = dt_summary now q
      in if dt_full sz p q
         then if drop_front q
              then do {
                (_, nx, pq) \<leftarrow> pq_enque sz p (nx, dt_q q);
                case pq_deque sz (nx, pq) of (pp, nx, pq) \<Rightarrow> Some ([pp], nx, q\<lparr>dt_q := pq\<rparr>)
              }
              else Some ([p], nx, q)
         else do { (_, nx, pq) \<leftarrow> pq_enque sz p (nx, dt_q q); Some ([], nx, q\<lparr>dt_q := pq\<rparr>) })"

definition dt_deque :: "(nat \<Rightarrow> int) \<Rightarrow> 'a drop_tail_scheme deque_fun" where
  "dt_deque sz now =
    (\<lambda>(nx, q). let q = dt_summary now q
      in case pq_deque sz (nx, dt_q q) of (p, nx, pq) \<Rightarrow> (p, nx, q\<lparr>dt_q := pq\<rparr>))"

text \<open>\<open>drop\<close> and \<open>remove\<close> of NULL, on an empty queue with a limit below 0, trap.\<close>

partial_function (option) shrink_queue ::
  "(nat \<Rightarrow> int) \<Rightarrow> pkt_links \<times> 'a drop_tail_scheme \<Rightarrow> (nat list \<times> pkt_links \<times> 'a drop_tail_scheme) option" where
  "shrink_queue sz s =
    (case s of (nx, q) \<Rightarrow>
      if \<not> qib q \<and> qlim q < pq_len (dt_q q) \<or> qib q \<and> qlimBytes q < pq_bytes (dt_q q)
      then if drop_front q
           then case pq_deque sz (nx, dt_q q) of (pp, nx, pq) \<Rightarrow>
             if pp = 0 then None
             else do { (ds, s) \<leftarrow> shrink_queue sz (nx, q\<lparr>dt_q := pq\<rparr>); Some (pp # ds, s) }
           else do {
             (nx, pq) \<leftarrow> pq_remove sz (pq_tail (dt_q q)) (nx, dt_q q);
             (ds, s) \<leftarrow> shrink_queue sz (nx, q\<lparr>dt_q := pq\<rparr>);
             Some (pq_tail (dt_q q) # ds, s)
           }
      else Some ([], nx, q))"

section \<open>Statistics in range\<close>

definition stats_ok :: "queue_stats \<Rightarrow> bool" where
  "stats_ok st \<longleftrightarrow> util_records st \<le> 0
    \<or> int (length (util_buf st)) = util_records st \<and> 0 \<le> buf_slot st \<and> buf_slot st < util_records st"

lemma util_loop_ok:
  "stats_ok st \<Longrightarrow> 0 < util_records st \<Longrightarrow> \<exists>st'. util_loop n tot intv e l st = Some st' \<and> stats_ok st'"
  by (induction n arbitrary: intv st) (auto simp: stats_ok_def util_put_def)

lemma utilUpdate_eq:
  "utilUpdate b e l st =
    (let st1 = st\<lparr>old_util := l + (old_util st - l) * exp (- util_weight st * (e - b))\<rparr>
     in if util_records st = 0 \<or> e - b = 0 \<and> b - period_begin st = 0 then Some st1
        else util_loop (nat (util_records st)) (b - period_begin st) (e - b) e l
          (st1\<lparr>cur_util := (l * (e - b) + cur_util st * (b - period_begin st)) / ((e - b) + (b - period_begin st))\<rparr>))"
  unfolding utilUpdate_def Let_def by (simp del: right_minus_eq)

lemma utilUpdate_ok:
  assumes "stats_ok st"
  shows "\<exists>st'. utilUpdate b e l st = Some st' \<and> stats_ok st'"
proof -
  have "stats_ok (st\<lparr>old_util := u\<rparr>)" "stats_ok (st\<lparr>old_util := u, cur_util := v\<rparr>)" for u v
    using assms by (simp_all add: stats_ok_def)
  moreover have "\<exists>st'. util_loop (nat (util_records s)) t i e l s = Some st' \<and> stats_ok st'" if "stats_ok s" for s t i
    using that util_loop_ok [OF that] by (cases "0 < util_records s") auto
  from this [of "st\<lparr>old_util := u, cur_util := v\<rparr>" for u v]
  have "stats_ok (st\<lparr>old_util := u, cur_util := v\<rparr>)
    \<Longrightarrow> \<exists>st'. util_loop (nat (util_records st)) t i e l (st\<lparr>old_util := u, cur_util := v\<rparr>) = Some st' \<and> stats_ok st'" for u v t i
    by simp
  ultimately show ?thesis by (simp add: utilUpdate_eq Let_def del: right_minus_eq)
qed

lemma util_now_ok:
  assumes "stats_ok (qstats q)"
  shows "\<exists>st. util_now now q = Some (q\<lparr>qstats := st\<rparr>) \<and> stats_ok st"
proof -
  from utilUpdate_ok [OF assms] obtain st where
    "utilUpdate (last_change (qstats q)) now (of_bool (blocked q)) (qstats q) = Some st" "stats_ok st" by blast
  then have "util_now now q = Some (q\<lparr>qstats := st\<lparr>last_change := now\<rparr>\<rparr>)" "stats_ok (st\<lparr>last_change := now\<rparr>)"
    by (simp_all add: util_now_def stats_ok_def)
  then show ?thesis by blast
qed

lemma updateStats_ok [simp]: "stats_ok (updateStats now n st) = stats_ok st"
  by (simp add: updateStats_def stats_ok_def)

text \<open>All averages are fractions of the time.\<close>

definition util_range :: "real \<Rightarrow> queue_stats \<Rightarrow> bool" where
  "util_range t st \<longleftrightarrow> old_util st \<in> {0..1} \<and> cur_util st \<in> {0..1} \<and> set (util_buf st) \<subseteq> {0..1}
    \<and> period_begin st \<le> t \<and> 0 \<le> util_weight st"

lemma average_range:
  fixes a b u v :: real
  assumes "a \<in> {0..1}" "b \<in> {0..1}" "0 \<le> u" "0 \<le> v" "u \<noteq> 0 \<or> v \<noteq> 0"
  shows "(a * u + b * v) / (u + v) \<in> {0..1}"
proof -
  have "0 < u + v" using assms by auto
  moreover have "a * u \<le> 1 * u" "b * v \<le> 1 * v" using assms by (intro mult_right_mono; simp)+
  moreover have "0 \<le> a * u" "0 \<le> b * v" using assms by simp_all
  ultimately show ?thesis by (simp add: divide_le_eq_1)
qed

lemma util_loop_range:
  "util_range t st \<Longrightarrow> t \<le> e \<Longrightarrow> l \<in> {0..1} \<Longrightarrow> util_loop n tot intv e l st = Some st' \<Longrightarrow> util_range e st'"
proof (induction n arbitrary: intv st t)
  case (Suc n)
  show ?case
  proof (cases "util_check_intv st < tot + intv")
    case True
    then obtain buf where b: "util_put (buf_slot st) (cur_util st) (util_buf st) = Some buf"
      "util_loop n tot (intv - util_check_intv st) e l (st\<lparr>period_begin := e, util_buf := buf,
        buf_slot := (buf_slot st + 1) mod util_records st, cur_util := l\<rparr>) = Some st'"
      using Suc.prems(4) by (auto split: bind_splits)
    have "set buf \<subseteq> insert (cur_util st) (set (util_buf st))"
      using b(1) set_update_subset_insert by (fastforce simp: util_put_def split: if_splits)
    then have "set buf \<subseteq> {0..1}" using Suc.prems(1) by (auto simp: util_range_def)
    then show ?thesis using Suc.prems by (intro Suc.IH [OF _ order_refl _ b(2)]) (auto simp: util_range_def)
  next
    case False
    then show ?thesis using Suc.prems by (auto simp: util_range_def)
  qed
qed (auto simp: util_range_def)

lemma utilUpdate_range:
  assumes st: "util_range b st" and "b \<le> e" and l: "l \<in> {0..1}" and u: "utilUpdate b e l st = Some st'"
  shows "util_range e st'"
proof -
  define d where "d = exp (- util_weight st * (e - b))"
  have d: "0 \<le> d" "d \<le> 1" using assms by (simp_all add: d_def util_range_def mult_nonneg_nonneg)
  have "l + (old_util st - l) * d = (l * (1 - d) + old_util st * d) / ((1 - d) + d)" by (simp add: algebra_simps)
  also have "\<dots> \<in> {0..1}" by (rule average_range) (use l st d in \<open>auto simp: util_range_def\<close>)
  finally have o: "util_range b (st\<lparr>old_util := l + (old_util st - l) * d\<rparr>)" using st by (simp add: util_range_def)
  have oe: "util_range e (st\<lparr>old_util := l + (old_util st - l) * d\<rparr>)" using o assms(2) by (auto simp: util_range_def)
  show ?thesis
  proof (cases "util_records st = 0 \<or> e - b = 0 \<and> b - period_begin st = 0")
    case True
    with u oe show ?thesis unfolding utilUpdate_eq Let_def d_def by simp
  next
    case False
    define v where "v = (l * (e - b) + cur_util st * (b - period_begin st)) / ((e - b) + (b - period_begin st))"
    have "v \<in> {0..1}" unfolding v_def
      by (rule average_range) (use l st assms(2) False in \<open>auto simp: util_range_def\<close>)
    then have "util_range b (st\<lparr>old_util := l + (old_util st - l) * d, cur_util := v\<rparr>)"
      using o by (simp add: util_range_def)
    moreover have "util_loop (nat (util_records st)) (b - period_begin st) (e - b) e l
        (st\<lparr>old_util := l + (old_util st - l) * d, cur_util := v\<rparr>) = Some st'"
      using u unfolding utilUpdate_eq Let_def if_not_P [OF False] d_def v_def .
    ultimately show ?thesis using util_loop_range assms(2) l by blast
  qed
qed

lemma util_now_range:
  assumes "util_range (last_change (qstats q)) (qstats q)" and "last_change (qstats q) \<le> now" and "util_now now q = Some q'"
  shows "util_range now (qstats q') \<and> last_change (qstats q') = now"
proof -
  from assms(3) obtain st where st: "utilUpdate (last_change (qstats q)) now (of_bool (blocked q)) (qstats q) = Some st"
    "q' = q\<lparr>qstats := st\<lparr>last_change := now\<rparr>\<rparr>" by (auto simp: util_now_def split: bind_splits)
  have "util_range now st" by (rule utilUpdate_range [OF assms(1,2) _ st(1)]) simp
  with st(2) show ?thesis by (simp add: util_range_def)
qed

section \<open>The contract of a discipline\<close>

text \<open>
  A discipline is a queue: \<open>holds\<close> says which packets it holds, in order. \<open>enque\<close> adds a packet at the end and may drop
  some, none while there is \<open>room\<close>, \<open>deque\<close> takes the first. Neither touches the packets of others nor what belongs to \<open>Queue\<close>.
\<close>

definition same_base :: "'a queue_base_scheme \<Rightarrow> 'a queue_base_scheme \<Rightarrow> bool" where
  "same_base q q' \<longleftrightarrow> blocked q' = blocked q \<and> unblock_on_resume q' = unblock_on_resume q
    \<and> (stats_ok (qstats q) \<longrightarrow> stats_ok (qstats q'))"

definition kept_from :: "nat list \<Rightarrow> nat list \<Rightarrow> nat list" where
  "kept_from ds xs = filter (\<lambda>x. x \<notin> set ds) xs"

locale fifo_discipline =
  fixes enq :: "'a queue_base_scheme enque_fun"
    and deq :: "'a queue_base_scheme deque_fun"
    and holds :: "pkt_links \<times> 'a queue_base_scheme \<Rightarrow> nat list \<Rightarrow> bool"
    and room :: "'a queue_base_scheme \<Rightarrow> nat \<Rightarrow> bool"
  assumes enq_law: "holds (nx, q) xs \<Longrightarrow> p \<notin> set xs \<Longrightarrow> p \<noteq> 0
      \<Longrightarrow> \<exists>ds nx' q'. enq now p (nx, q) = Some (ds, nx', q') \<and> holds (nx', q') (kept_from ds (xs @ [p]))
        \<and> set ds \<subseteq> set (xs @ [p]) \<and> distinct ds \<and> (\<forall>y. y \<notin> set (p # xs) \<longrightarrow> nx' y = nx y) \<and> same_base q q'
        \<and> room q' = room q \<and> (room q (length xs) \<longrightarrow> ds = [])"
    and deq_law: "holds (nx, q) xs
      \<Longrightarrow> \<exists>q'. deq now (nx, q) = (if xs = [] then 0 else hd xs, nx, q') \<and> holds (nx, q') (tl xs) \<and> same_base q q'
        \<and> room q' = room q"
    and holds_law: "holds (nx, q) xs \<Longrightarrow> distinct xs \<and> 0 \<notin> set xs"
    and links_law: "holds (nx, q) xs \<Longrightarrow> (\<And>x. x \<in> set xs \<Longrightarrow> nx' x = nx x) \<Longrightarrow> holds (nx', q) xs"
    and base_law: "holds (nx, q\<lparr>blocked := b, qstats := st\<rparr>) xs = holds (nx, q) xs"
    and room_law: "room (q\<lparr>blocked := b, qstats := st\<rparr>) = room q"
begin

lemma blocked_law [simp]: "holds (nx, q\<lparr>blocked := b\<rparr>) xs = holds (nx, q) xs"
  using base_law [where q = q and b = b and st = "qstats q"] by simp

lemma stats_law [simp]: "holds (nx, q\<lparr>qstats := st\<rparr>) xs = holds (nx, q) xs"
  using base_law [where q = q and b = "blocked q" and st = st] by simp

lemma room_laws [simp]: "room (q\<lparr>blocked := b\<rparr>) = room q" "room (q\<lparr>qstats := st\<rparr>) = room q"
  using room_law [where q = q and b = b and st = "qstats q"] room_law [where q = q and b = "blocked q" and st = st]
  by simp_all

text \<open>What a queue that works promises: it never idles while it holds a packet.\<close>

definition busy :: "pkt_links \<times> 'a queue_base_scheme \<Rightarrow> nat list \<Rightarrow> bool" where
  "busy s xs \<longleftrightarrow> holds s xs \<and> stats_ok (qstats (snd s)) \<and> unblock_on_resume (snd s) \<and> (blocked (snd s) \<or> xs = [])"

lemma busy_links: "busy (nx, q) xs \<Longrightarrow> (\<And>x. x \<in> set xs \<Longrightarrow> nx' x = nx x) \<Longrightarrow> busy (nx', q) xs"
  using links_law [of nx q xs nx'] by (simp add: busy_def)

lemma queue_recv_law:
  assumes b: "busy (nx, q) xs" and p: "p \<notin> set xs" "p \<noteq> 0"
  shows "\<exists>s ds nx' q' xs'. queue_recv enq deq now p (nx, q) = Some (s, ds, nx', q') \<and> busy (nx', q') xs'
    \<and> (if s = 0 then xs' = kept_from ds (xs @ [p]) \<and> blocked q' = blocked q
       else s = p \<and> ds = [] \<and> xs = [] \<and> xs' = [] \<and> \<not> blocked q \<and> blocked q')
    \<and> set ds \<subseteq> set (xs @ [p]) \<and> distinct ds \<and> (\<forall>y. y \<notin> set (p # xs) \<longrightarrow> nx' y = nx y)
    \<and> room q' = room q \<and> (room q (length xs) \<longrightarrow> ds = [])"
proof -
  have h: "holds (nx, q) xs" and ok: "stats_ok (qstats q)" "unblock_on_resume q" using b by (simp_all add: busy_def)
  from enq_law [OF h p, of now] obtain ds nx' q1 where
    e: "enq now p (nx, q) = Some (ds, nx', q1)" "holds (nx', q1) (kept_from ds (xs @ [p]))" "set ds \<subseteq> set (xs @ [p])"
      "distinct ds" "\<forall>y. y \<notin> set (p # xs) \<longrightarrow> nx' y = nx y" "same_base q q1"
      "room q1 = room q" "room q (length xs) \<longrightarrow> ds = []" by blast
  show ?thesis
  proof (cases "blocked q")
    case True
    then have "queue_recv enq deq now p (nx, q) = Some (0, ds, nx', q1)" using e by (simp add: queue_recv_def same_base_def)
    moreover have "busy (nx', q1) (kept_from ds (xs @ [p]))" using e(2,6) ok True by (simp add: busy_def same_base_def)
    ultimately show ?thesis using e(3-8) by (auto simp: same_base_def)
  next
    case False
    then have xs: "xs = []" using b by (simp add: busy_def)
    from deq_law [OF e(2), of now] obtain q2 where
      d: "deq now (nx', q1) = (if kept_from ds [p] = [] then 0 else hd (kept_from ds [p]), nx', q2)"
        "holds (nx', q2) (tl (kept_from ds [p]))" "same_base q1 q2" "room q2 = room q1" using xs by auto
    have q2: "\<not> blocked q2" "stats_ok (qstats q2)" "unblock_on_resume q2" "\<not> blocked q1"
      using False ok e(6) d(3) by (simp_all add: same_base_def)
    show ?thesis
    proof (cases "p \<in> set ds")
      case True
      then have "queue_recv enq deq now p (nx, q) = Some (0, ds, nx', q2)"
        using e(1) d(1) q2 by (simp add: queue_recv_def kept_from_def)
      moreover have "busy (nx', q2) []" using d(2) q2 True by (simp add: busy_def kept_from_def)
      ultimately show ?thesis using True xs e(3-5,7,8) d(4) q2 False by (auto simp: kept_from_def)
    next
      case out: False
      then have "ds = []" using e(3) xs by (cases ds) auto
      moreover from util_now_ok [OF q2(2), of now] obtain st where
        "util_now now q2 = Some (q2\<lparr>qstats := st\<rparr>)" "stats_ok st" by blast
      ultimately have "queue_recv enq deq now p (nx, q) = Some (p, ds, nx', q2\<lparr>qstats := st, blocked := True\<rparr>)"
        "busy (nx', q2\<lparr>qstats := st, blocked := True\<rparr>) []"
        using e(1) d(1,2) q2 p(2) out by (simp_all add: queue_recv_def kept_from_def busy_def)
      with \<open>ds = []\<close> xs e(5,7) d(4) False p(2) show ?thesis by fastforce
    qed
  qed
qed

lemma queue_resume_law:
  assumes b: "busy (nx, q) xs" and "blocked q"
  shows "\<exists>q'. queue_resume deq now (nx, q) = Some (if xs = [] then 0 else hd xs, nx, q') \<and> busy (nx, q') (tl xs)
    \<and> (blocked q' \<longleftrightarrow> xs \<noteq> []) \<and> room q' = room q"
proof -
  have h: "holds (nx, q) xs" and ok: "stats_ok (qstats q)" "unblock_on_resume q" using b by (simp_all add: busy_def)
  from deq_law [OF h, of now] obtain q1 where
    d: "deq now (nx, q) = (if xs = [] then 0 else hd xs, nx, q1)" "holds (nx, q1) (tl xs)" "same_base q q1" "room q1 = room q" by blast
  have q1: "blocked q1" "stats_ok (qstats q1)" "unblock_on_resume q1" using d(3) ok assms(2) by (simp_all add: same_base_def)
  show ?thesis
  proof (cases xs)
    case Nil
    from util_now_ok [OF q1(2), of now] obtain st where
      "util_now now q1 = Some (q1\<lparr>qstats := st\<rparr>)" "stats_ok st" by blast
    with d q1 Nil show ?thesis by (simp add: queue_resume_def busy_def)
  next
    case (Cons x ys)
    then have "x \<noteq> 0" using holds_law [OF h] by auto
    with d q1 Cons show ?thesis by (simp add: queue_resume_def busy_def)
  qed
qed

lemma drop_all_law: "holds (nx, q) xs \<Longrightarrow> \<exists>q'. drop_all (deq now) (nx, q) = Some (xs, nx, q') \<and> holds (nx, q') [] \<and> blocked q' = blocked q"
proof (induction xs arbitrary: q)
  case Nil
  from deq_law [OF this, of now] show ?case by (subst drop_all.simps) (auto simp: same_base_def)
next
  case (Cons x xs)
  from deq_law [OF Cons.prems, of now] obtain q' where
    d: "deq now (nx, q) = (x, nx, q')" "holds (nx, q') xs" "same_base q q'" by auto
  moreover have "x \<noteq> 0" using holds_law [OF Cons.prems] by auto
  ultimately show ?case using Cons.IH [of q'] by (subst drop_all.simps) (auto simp: same_base_def)
qed

lemma queue_reset_law:
  "holds (nx, q) xs \<Longrightarrow> \<exists>q'. queue_reset deq now (nx, q) = Some (xs, nx, q') \<and> holds (nx, q') [] \<and> blocked q' = blocked q"
  using drop_all_law [of nx "q\<lparr>qstats := (qstats q)\<lparr>total_time := 0, true_ave := 0\<rparr>\<rparr>" xs now] by (simp add: queue_reset_def)

end

section \<open>\<open>DropTail\<close> keeps it\<close>

definition dt_room :: "'a drop_tail_scheme \<Rightarrow> nat \<Rightarrow> bool" where
  "dt_room q n \<longleftrightarrow> \<not> qib q \<and> int n + 1 < qlim q"

definition dt_holds :: "(nat \<Rightarrow> int) \<Rightarrow> pkt_links \<times> 'a drop_tail_scheme \<Rightarrow> nat list \<Rightarrow> bool" where
  "dt_holds sz s xs \<longleftrightarrow> in_queue sz (fst s, dt_q (snd s)) xs"

lemma dt_summary_simps [simp]:
  "dt_q (dt_summary now q) = dt_q q" "drop_front (dt_summary now q) = drop_front q" "qib (dt_summary now q) = qib q"
  "qlim (dt_summary now q) = qlim q" "mean_pktsize (dt_summary now q) = mean_pktsize q"
  "qlimBytes (dt_summary now q) = qlimBytes q" "dt_full sz p (dt_summary now q) = dt_full sz p q"
  "blocked (dt_summary now q) = blocked q" "unblock_on_resume (dt_summary now q) = unblock_on_resume q"
  "stats_ok (qstats (dt_summary now q)) = stats_ok (qstats q)"
  by (simp_all add: dt_summary_def dt_full_def qlimBytes_def)

lemma dt_enque_exact:
  assumes q: "dt_holds sz (nx, q) xs" and p: "p \<notin> set xs" "p \<noteq> 0"
  shows "\<exists>nx' pq. dt_enque sz now p (nx, q)
      = Some (if \<not> dt_full sz p q then [] else if drop_front q then [hd (xs @ [p])] else [p], nx', (dt_summary now q)\<lparr>dt_q := pq\<rparr>)
    \<and> in_queue sz (nx', pq) (if \<not> dt_full sz p q then xs @ [p] else if drop_front q then tl (xs @ [p]) else xs)
    \<and> (\<forall>y. y \<notin> set (p # xs) \<longrightarrow> nx' y = nx y)"
proof -
  have i: "in_queue sz (nx, dt_q q) xs" using q by (simp add: dt_holds_def)
  from pq_enque_law [OF i p] obtain nx' pq where
    e: "pq_enque sz p (nx, dt_q q) = Some (if xs = [] then 0 else last xs, nx', pq)" "in_queue sz (nx', pq) (xs @ [p])"
      "\<forall>y. y \<notin> set (p # xs) \<longrightarrow> nx' y = nx y" by blast
  have "in_queue sz (nx', pq) (hd (xs @ [p]) # tl (xs @ [p]))" using e(2) by simp
  from pq_deque_law [OF this] obtain pq' where
    d: "pq_deque sz (nx', pq) = (hd (xs @ [p]), nx', pq')" "in_queue sz (nx', pq') (tl (xs @ [p]))" by blast
  show ?thesis
  proof (cases "dt_full sz p q \<and> \<not> drop_front q")
    case True
    have "dt_summary now q = (dt_summary now q)\<lparr>dt_q := dt_q q\<rparr>" by (simp add: dt_summary_def)
    with True i show ?thesis by (intro exI [of _ nx] exI [of _ "dt_q q"]) (simp add: dt_enque_def)
  qed (use e d in \<open>auto simp: dt_enque_def Let_def\<close>)
qed

lemma dt_deque_exact:
  assumes "dt_holds sz (nx, q) xs"
  shows "\<exists>pq. dt_deque sz now (nx, q) = (if xs = [] then 0 else hd xs, nx, (dt_summary now q)\<lparr>dt_q := pq\<rparr>)
    \<and> in_queue sz (nx, pq) (tl xs)"
proof (cases xs)
  case Nil
  with assms show ?thesis using pq_deque_empty [of sz nx "dt_q q"] by (simp add: dt_holds_def dt_deque_def Let_def) blast
next
  case (Cons x ys)
  with assms pq_deque_law [of sz nx "dt_q q" x ys] show ?thesis by (auto simp: dt_holds_def dt_deque_def Let_def)
qed

lemma dt_room_simps [simp]:
  "dt_room ((dt_summary now q)\<lparr>dt_q := pq\<rparr>) = dt_room q" "dt_room (q\<lparr>blocked := b, qstats := st\<rparr>) = dt_room q"
  by (simp_all add: dt_room_def fun_eq_iff)

interpretation drop_tail: fifo_discipline "dt_enque sz" "dt_deque sz" "dt_holds sz" dt_room for sz
proof (unfold_locales, goal_cases)
  case (1 nx q xs p now)
  have d: "distinct (xs @ [p])" using 1 in_queue_facts [of sz nx "dt_q q" xs] by (simp add: dt_holds_def)
  have "kept_from [hd (xs @ [p])] (xs @ [p]) = tl (xs @ [p])"
    using d by (cases xs) (auto simp: kept_from_def intro!: filter_True)
  moreover have "kept_from [p] (xs @ [p]) = xs" "kept_from [] (xs @ [p]) = xs @ [p]"
    using d by (auto simp: kept_from_def intro!: filter_True)
  moreover have "hd (xs @ [p]) \<in> set (xs @ [p])" by (cases xs) auto
  moreover have "dt_room q (length xs) \<Longrightarrow> \<not> dt_full sz p q"
    using 1 in_queue_facts [of sz nx "dt_q q" xs] by (simp add: dt_holds_def dt_room_def dt_full_def)
  ultimately show ?case using dt_enque_exact [OF 1, of now]
    by (auto simp: dt_holds_def same_base_def split: if_splits)
next
  case (2 nx q xs now)
  from dt_deque_exact [OF this, of now] show ?case by (auto simp: dt_holds_def same_base_def)
next
  case (3 nx q xs)
  then show ?case using in_queue_facts by (auto simp: dt_holds_def)
next
  case (4 nx q xs nx')
  then show ?case using in_queue_cong [of sz nx "dt_q q" xs nx'] by (simp add: dt_holds_def)
qed (simp_all add: dt_holds_def)

section \<open>The limit\<close>

definition dt_within :: "(nat \<Rightarrow> int) \<Rightarrow> 'a drop_tail_scheme \<Rightarrow> nat list \<Rightarrow> bool" where
  "dt_within sz q xs \<longleftrightarrow> (\<not> qib q \<longrightarrow> int (length xs) < max 1 (qlim q))
    \<and> (qib q \<and> \<not> drop_front q \<longrightarrow> sum_list (map sz xs) < max 1 (qlimBytes q))"

text \<open>
  C20: A drop-tail queue keeps its limit, one less than the limit says. Counting packets (\<open>queue_in_bytes_\<close> is 0), it takes a packet
  at the end exactly while fewer than \<open>limit_ - 1\<close> packets wait, though \<open>queue.h\<close> calls the limit the maximum allowed packets
  in the queue; with a limit of 1 every packet is dropped. Counting bytes, it takes a packet exactly while the bytes with it stay
  below \<open>limit_ * mean_pktsize_\<close>, however many packets these are. Else it drops exactly one packet, the new one or with
  \<open>drop_front_\<close> the oldest. The invariant \<open>dt_within\<close>, which every call keeps, says at most \<open>limit_ - 1\<close> packets in the
  first case, fewer than \<open>limit_ * mean_pktsize_\<close> bytes in the second if packets are dropped at the tail, and nothing of the bytes if
  they are dropped at the front, where one drop may not make room for the new packet.
\<close>

theorem drop_tail_limit:
  assumes "dt_holds sz (nx, q) xs" and "p \<notin> set xs" "p \<noteq> 0" and "dt_within sz q xs"
  shows "\<exists>ds nx' q' xs'. dt_enque sz now p (nx, q) = Some (ds, nx', q') \<and> dt_holds sz (nx', q') xs' \<and> dt_within sz q' xs'
    \<and> (if \<not> qib q \<and> int (length xs) < qlim q - 1 \<or> qib q \<and> sum_list (map sz xs) + sz p < qlimBytes q
       then ds = [] \<and> xs' = xs @ [p]
       else if drop_front q then ds @ xs' = xs @ [p] \<and> length ds = 1
       else ds = [p] \<and> xs' = xs)"
proof -
  have f: "dt_full sz p q \<longleftrightarrow> \<not> (\<not> qib q \<and> int (length xs) < qlim q - 1 \<or> qib q \<and> sum_list (map sz xs) + sz p < qlimBytes q)"
    using in_queue_facts [of sz nx "dt_q q" xs] assms(1) by (auto simp: dt_full_def dt_holds_def)
  from dt_enque_exact [OF assms(1-3), of now] obtain nx' pq where
    e: "dt_enque sz now p (nx, q)
      = Some (if \<not> dt_full sz p q then [] else if drop_front q then [hd (xs @ [p])] else [p], nx', (dt_summary now q)\<lparr>dt_q := pq\<rparr>)"
    "in_queue sz (nx', pq) (if \<not> dt_full sz p q then xs @ [p] else if drop_front q then tl (xs @ [p]) else xs)" by blast
  define ds where "ds = (if \<not> dt_full sz p q then [] else if drop_front q then [hd (xs @ [p])] else [p])"
  define xs' where "xs' = (if \<not> dt_full sz p q then xs @ [p] else if drop_front q then tl (xs @ [p]) else xs)"
  have h: "hd (xs @ [p]) # tl (xs @ [p]) = xs @ [p]" "length (tl (xs @ [p])) = length xs" by (cases xs; simp)+
  have "dt_within sz q xs'" using assms(4) h(2) f by (auto simp: dt_within_def xs'_def)
  then have "dt_within sz ((dt_summary now q)\<lparr>dt_q := pq\<rparr>) xs'" by (simp add: dt_within_def qlimBytes_def)
  moreover have "if \<not> dt_full sz p q then ds = [] \<and> xs' = xs @ [p]
      else if drop_front q then ds @ xs' = xs @ [p] \<and> length ds = 1 else ds = [p] \<and> xs' = xs"
    using h(1) by (simp add: ds_def xs'_def)
  moreover have "dt_enque sz now p (nx, q) = Some (ds, nx', (dt_summary now q)\<lparr>dt_q := pq\<rparr>)" using e(1) by (simp only: ds_def)
  moreover have "dt_holds sz (nx', (dt_summary now q)\<lparr>dt_q := pq\<rparr>) xs'" using e(2) by (simp add: dt_holds_def xs'_def)
  ultimately show ?thesis unfolding f not_not by blast
qed

definition sample_stats :: queue_stats where
  "sample_stats = \<lparr> true_ave = 0, total_time = 0, last_change = 0, old_util = 0, util_weight = 0, util_check_intv = 1,
     period_begin = 0, cur_util = 0, buf_slot = 0, util_buf = [0, 0], util_records = 2 \<rparr>"

definition sample_drop_tail :: "int \<Rightarrow> drop_tail" where
  "sample_drop_tail limit = \<lparr> qlim = limit, blocked = False, unblock_on_resume = True, qstats = sample_stats,
     dt_q = new_packet_queue 0, drop_front = False, summarystats = True, qib = False, mean_pktsize = 500 \<rparr>"

lemma sample_drop_tail_holds [simp]: "dt_holds sz (nx, sample_drop_tail limit) []"
  by (simp add: dt_holds_def sample_drop_tail_def)

theorem drop_tail_limit_witness:
  "\<exists>nx' q'. dt_enque (\<lambda>_. 40) 3 7 (id, sample_drop_tail 1) = Some ([7], nx', q')"
proof -
  have "\<not> qib (sample_drop_tail 1)" "\<not> drop_front (sample_drop_tail 1)" "qlim (sample_drop_tail 1) = 1"
    by (simp_all add: sample_drop_tail_def)
  moreover from this have "dt_within (\<lambda>_. 40) (sample_drop_tail 1) []" by (simp add: dt_within_def)
  ultimately show ?thesis using drop_tail_limit [OF sample_drop_tail_holds, of 7 "\<lambda>_. 40" 1 3 id] by auto
qed

text \<open>Dropping one packet at the front can leave the queue above its limit of bytes.\<close>

lemma drop_front_exceeds_bytes:
  assumes "q = (sample_drop_tail 1)\<lparr>qib := True, drop_front := True, summarystats := False,
    dt_q := \<lparr> pq_head = 1, pq_tail = 1, pq_len = 1, pq_bytes = 40, pq_iter = 0 \<rparr>\<rparr>"
  shows "\<exists>nx' pq. dt_enque (\<lambda>p. if p = 2 then 1500 else 40) 0 2 ((\<lambda>_. 0), q) = Some ([1], nx', q\<lparr>dt_q := pq\<rparr>)
    \<and> pq_bytes pq = 1500 \<and> qlimBytes q = 500"
proof -
  have l: "qlimBytes q = 500" by (simp add: assms qlimBytes_def sample_drop_tail_def sint_sbintrunc' signed_take_bit_int_eq_self)
  have e: "pq_enque (\<lambda>p. if p = 2 then 1500 else 40) 2 ((\<lambda>_. 0), dt_q q)
    = Some (1, (\<lambda>_. 0)(1 := 2, 2 := 0), \<lparr> pq_head = 1, pq_tail = 2, pq_len = 2, pq_bytes = 1540, pq_iter = 0 \<rparr>)"
    by (simp add: assms pq_enque_def pq_count_def)
  have d: "pq_deque (\<lambda>p. if p = 2 then 1500 else 40) ((\<lambda>_. 0)(1 := 2, 2 := 0), \<lparr> pq_head = 1, pq_tail = 2, pq_len = 2, pq_bytes = 1540, pq_iter = 0 \<rparr>)
    = (1, (\<lambda>_. 0)(1 := 2, 2 := 0), \<lparr> pq_head = 2, pq_tail = 2, pq_len = 1, pq_bytes = 1500, pq_iter = 0 \<rparr>)"
    by (simp add: pq_deque_def pq_count_def)
  have "dt_full (\<lambda>p. if p = 2 then 1500 else 40) 2 q" using l by (simp add: dt_full_def) (simp add: assms sample_drop_tail_def)
  moreover have "dt_summary 0 q = q" "drop_front q" by (simp_all add: assms dt_summary_def)
  ultimately show ?thesis using l e d by (intro exI conjI) (simp_all add: dt_enque_def)+
qed

lemma qlimBytes_dt_q [simp]: "qlimBytes (q\<lparr>dt_q := pq\<rparr>) = qlimBytes q"
  by (simp add: qlimBytes_def)

lemma shrink_queue_law:
  fixes q :: "'a drop_tail_scheme"
  assumes "in_queue sz (nx, pq) xs" and l: "if qib q then 0 \<le> qlimBytes q else 0 \<le> qlim q"
  shows "\<exists>ds nx' pq' xs'. shrink_queue sz (nx, q\<lparr>dt_q := pq\<rparr>) = Some (ds, nx', q\<lparr>dt_q := pq'\<rparr>) \<and> in_queue sz (nx', pq') xs'
    \<and> (if qib q then sum_list (map sz xs') \<le> qlimBytes q else int (length xs') \<le> qlim q)
    \<and> (if drop_front q then ds @ xs' = xs else xs' @ rev ds = xs)"
  using assms(1)
proof (induction "length xs" arbitrary: xs nx pq)
  case 0
  then have "pq_len pq = 0" "pq_bytes pq = 0" by (auto simp: in_queue_def)
  then have "shrink_queue sz (nx, q\<lparr>dt_q := pq\<rparr>) = Some ([], nx, q\<lparr>dt_q := pq\<rparr>)"
    using l by (subst shrink_queue.simps) (auto split: if_splits)
  moreover have "xs = []" using 0 by simp
  ultimately show ?case using 0 l by (intro exI [of _ "[]"] exI [of _ nx] exI [of _ pq]) auto
next
  case (Suc n)
  note c = in_queue_facts [OF Suc.prems]
  have "xs \<noteq> []" using Suc.hyps by auto
  show ?case
  proof (cases "if qib q then sum_list (map sz xs) \<le> qlimBytes q else int (length xs) \<le> qlim q")
    case True
    then have "shrink_queue sz (nx, q\<lparr>dt_q := pq\<rparr>) = Some ([], nx, q\<lparr>dt_q := pq\<rparr>)"
      using c by (subst shrink_queue.simps) (auto split: if_splits)
    with True Suc.prems show ?thesis by (intro exI [of _ "[]"] exI [of _ nx] exI [of _ pq] exI [of _ xs]) simp
  next
    case False
    show ?thesis
    proof (cases "drop_front q")
      case True
      obtain x ys where xs: "xs = x # ys" using \<open>xs \<noteq> []\<close> by (cases xs) auto
      from pq_deque_law [of sz nx pq x ys] Suc.prems xs obtain pq1 where
        d: "pq_deque sz (nx, pq) = (x, nx, pq1)" "in_queue sz (nx, pq1) ys" by blast
      from Suc.hyps(1) [OF _ d(2)] Suc.hyps(2) xs True obtain ds nx' pq' xs' where
        r: "shrink_queue sz (nx, q\<lparr>dt_q := pq1\<rparr>) = Some (ds, nx', q\<lparr>dt_q := pq'\<rparr>)" "in_queue sz (nx', pq') xs'"
          "if qib q then sum_list (map sz xs') \<le> qlimBytes q else int (length xs') \<le> qlim q" "ds @ xs' = ys" by auto
      have "shrink_queue sz (nx, q\<lparr>dt_q := pq\<rparr>) = Some (x # ds, nx', q\<lparr>dt_q := pq'\<rparr>)"
        using False True d(1) r(1) c xs by (subst shrink_queue.simps) (auto split: if_splits)
      with r True xs show ?thesis by (intro exI [of _ "x # ds"] exI [of _ nx'] exI [of _ pq'] exI [of _ xs']) simp
    next
      case tail: False
      obtain t ys where xs: "xs = ys @ [t]" using \<open>xs \<noteq> []\<close> by (cases xs rule: rev_cases) auto
      have t: "pq_tail pq = t" "t \<notin> set ys" using c xs by auto
      with pq_remove_law [OF Suc.prems, of t] xs obtain nx1 pq1 where
        d: "pq_remove sz t (nx, pq) = Some (nx1, pq1)" "in_queue sz (nx1, pq1) ys" by (auto simp: remove1_append)
      from Suc.hyps(1) [OF _ d(2)] Suc.hyps(2) xs tail obtain ds nx' pq' xs' where
        r: "shrink_queue sz (nx1, q\<lparr>dt_q := pq1\<rparr>) = Some (ds, nx', q\<lparr>dt_q := pq'\<rparr>)" "in_queue sz (nx', pq') xs'"
          "if qib q then sum_list (map sz xs') \<le> qlimBytes q else int (length xs') \<le> qlim q" "xs' @ rev ds = ys" by auto
      have "shrink_queue sz (nx, q\<lparr>dt_q := pq\<rparr>) = Some (t # ds, nx', q\<lparr>dt_q := pq'\<rparr>)"
        using False tail d(1) r(1) c t(1) by (subst shrink_queue.simps) (auto split: if_splits)
      with r tail xs show ?thesis by (intro exI [of _ "t # ds"] exI [of _ nx'] exI [of _ pq'] exI [of _ xs']) simp
    qed
  qed
qed

text \<open>
  C21: Shrinking a queue ends within the limit. Called after the limit was lowered to some number from 0 on,
  \<open>shrink_queue\<close> ends, never drops or removes NULL, and drops from the front or from the tail as configured, packet by
  packet, until at most \<open>limit_\<close> packets (or the bytes allowed) are left.
\<close>

theorem shrink_queue_to_limit:
  assumes "dt_holds sz (nx, q) xs" and "if qib q then 0 \<le> qlimBytes q else 0 \<le> qlim q"
  shows "\<exists>ds nx' q' xs'. shrink_queue sz (nx, q) = Some (ds, nx', q') \<and> dt_holds sz (nx', q') xs'
    \<and> (if qib q then sum_list (map sz xs') \<le> qlimBytes q else int (length xs') \<le> qlim q)
    \<and> (if drop_front q then ds @ xs' = xs else xs' @ rev ds = xs)"
proof -
  have "in_queue sz (nx, dt_q q) xs" using assms(1) by (simp add: dt_holds_def)
  from shrink_queue_law [OF this assms(2)] show ?thesis by (auto simp: dt_holds_def split del: if_split)
qed

theorem shrink_queue_to_limit_witness:
  "\<exists>ds nx' q' xs'. shrink_queue (\<lambda>_. 40) (\<lambda>_. 0, (sample_drop_tail 0)\<lparr>dt_q :=
      \<lparr> pq_head = 1, pq_tail = 1, pq_len = 1, pq_bytes = 40, pq_iter = 0 \<rparr>\<rparr>) = Some (ds, nx', q')
    \<and> dt_holds (\<lambda>_. 40) (nx', q') xs' \<and> int (length xs') \<le> 0"
proof -
  define q where "q = (sample_drop_tail 0)\<lparr>dt_q := \<lparr> pq_head = 1, pq_tail = 1, pq_len = 1, pq_bytes = 40, pq_iter = 0 \<rparr>\<rparr>"
  have "dt_holds (\<lambda>_. 40) (\<lambda>_. 0, q) [1]" "\<not> qib q" "qlim q = 0"
    by (simp_all add: q_def dt_holds_def in_queue_def sample_drop_tail_def)
  with shrink_queue_to_limit [of "\<lambda>_. 40" "\<lambda>_. 0" q "[1]"] show ?thesis unfolding q_def [symmetric] by auto
qed

end
