(* ===== verification/Link.thy ===== *)
theory Link
  imports Drop_Tail Timer Double
begin

text \<open>
  \<open>LinkDelay\<close> (src/ns-2.34/link/delay.cc, delay.h), and a whole link: a queue of Drop_Tail.thy in front of a \<open>LinkDelay\<close>,
  under the scheduler of Simulator.thy. A packet is an event, its address is that of both. The handlers of the events are
  the queue (for packets from upstream), the handler of the queue that the end of a transmission resumes, the link itself
  (for a dynamic link) and the target downstream. \<open>this\<close> and \<open>target\<close> are the handlers of the link and its target,
  \<open>intr\<close> is the event \<open>intr_\<close>. Times are doubles: every operation rounds as in Double.thy, and so does the sum of the clock and a delay in the scheduler, \<open>dadd\<close>.
\<close>

section \<open>\<open>LinkDelay\<close>\<close>

text \<open>
  The bound variables for bandwidth and delay are a record of their own, which no operation changes. \<open>itq_\<close> is NULL until
  the link is dynamic. What \<open>recv\<close> writes to \<open>time_\<close> of a packet, \<open>schedule\<close> overwrites at once.
\<close>

record link_conf =
  bandwidth :: real
  link_latency :: real

record link_delay =
  dynamic :: bool
  latest_time :: real
  itq :: "packet_queue option"
  avoidReordering :: bool

definition isDynamic :: "nat \<Rightarrow> link_delay \<Rightarrow> link_delay" where
  "isDynamic iter l = l\<lparr>dynamic := True, itq := Some (new_packet_queue iter)\<rparr>"

definition txtime :: "(nat \<Rightarrow> int) \<Rightarrow> link_conf \<Rightarrow> nat \<Rightarrow> real" where
  "txtime sz cf p = ddiv (dmul 8 (of_int (sz p))) (bandwidth cf)"

definition link_recv ::
  "(nat \<Rightarrow> int) \<Rightarrow> link_conf \<Rightarrow> 'h \<Rightarrow> 'h \<Rightarrow> nat \<Rightarrow> real \<Rightarrow> nat \<Rightarrow> 'h option \<Rightarrow> pkt_links \<times> link_delay
    \<Rightarrow> ((real, 'h) act list \<times> pkt_links \<times> link_delay) option" where
  "link_recv sz cf this target intr now p h =
    (\<lambda>(nx, l).
      let txt = txtime sz cf p
      in do {
        (act, nx, l) \<leftarrow>
          (if dynamic l
           then do {
             iq \<leftarrow> itq l;
             (_, nx, iq) \<leftarrow> pq_enque sz p (nx, iq);
             Some (Schedule (Some this) p (dadd txt (link_latency cf)), nx, l\<lparr>itq := Some iq\<rparr>)
           }
           else if avoidReordering l
           then if dadd txt (link_latency cf) < dsub (latest_time l) now \<and> 0 < latest_time l
                then let l = l\<lparr>latest_time := dadd (latest_time l) txt\<rparr>
                     in Some (Schedule (Some target) p (dsub (latest_time l) now), nx, l)
                else let l = l\<lparr>latest_time := dadd (dadd now txt) (link_latency cf)\<rparr>
                     in Some (Schedule (Some target) p (dadd txt (link_latency cf)), nx, l)
           else Some (Schedule (Some target) p (dadd txt (link_latency cf)), nx, l));
        Some ([act, Schedule h intr txt], nx, l)
      })"

text \<open>\<open>handle\<close>, with the assertion that the packet is the event; the packet goes to the target.\<close>

definition link_handle ::
  "(nat \<Rightarrow> int) \<Rightarrow> real \<Rightarrow> (nat \<Rightarrow> (real, 'h) event) \<Rightarrow> pkt_links \<times> link_delay \<Rightarrow> (nat \<times> pkt_links \<times> link_delay) option" where
  "link_handle sz e_time objs =
    (\<lambda>(nx, l). do {
      iq \<leftarrow> itq l;
      case pq_deque sz (nx, iq) of (p, nx, iq) \<Rightarrow>
        if p \<noteq> 0 \<and> ev_time (objs p) = e_time then Some (p, nx, l\<lparr>itq := Some iq\<rparr>) else None
    })"

text \<open>The events to cancel, which are the packets to drop.\<close>

definition link_reset ::
  "(nat \<Rightarrow> int) \<Rightarrow> pkt_links \<times> link_delay \<Rightarrow> ((real, 'h) act list \<times> nat list \<times> pkt_links \<times> link_delay) option" where
  "link_reset sz =
    (\<lambda>(nx, l). case itq l of
       None \<Rightarrow> Some ([], [], nx, l)
     | Some iq \<Rightarrow>
         if pq_len iq \<noteq> 0
         then do { (ds, nx, iq) \<leftarrow> drop_all (pq_deque sz) (nx, iq); Some (map Cancel ds, ds, nx, l\<lparr>itq := Some iq\<rparr>) }
         else Some ([], [], nx, l))"

section \<open>A queue and a link\<close>

datatype link_handler = To_Queue | Resume | To_Link | To_Target

text \<open>The last three members are what the objects around have seen: the packets that came, that went on, that were dropped.\<close>

record 'q line =
  ln_next :: pkt_links
  ln_queue :: 'q
  ln_link :: link_delay
  ln_in :: "nat list"
  ln_out :: "(nat \<times> real) list"
  ln_dropped :: "nat list"

definition new_line :: "pkt_links \<Rightarrow> 'q \<Rightarrow> link_delay \<Rightarrow> 'q line" where
  "new_line nx q l = \<lparr> ln_next = nx, ln_queue = q, ln_link = l, ln_in = [], ln_out = [], ln_dropped = [] \<rparr>"

text \<open>\<open>target_->recv(p, &qh_)\<close> of the queue, if there is a packet.\<close>

definition line_send ::
  "(nat \<Rightarrow> int) \<Rightarrow> link_conf \<Rightarrow> nat \<Rightarrow> real \<Rightarrow> nat \<Rightarrow> 'q line \<Rightarrow> ((real, link_handler) act list \<times> 'q line) option" where
  "line_send sz cf intr now p s =
    (if p = 0 then Some ([], s)
     else do {
       (acts, nx, l) \<leftarrow> link_recv sz cf To_Link To_Target intr now p (Some Resume) (ln_next s, ln_link s);
       Some (acts, s\<lparr>ln_next := nx, ln_link := l\<rparr>)
     })"

definition line_handle ::
  "'a queue_base_scheme enque_fun \<Rightarrow> 'a queue_base_scheme deque_fun \<Rightarrow> (nat \<Rightarrow> int) \<Rightarrow> link_conf \<Rightarrow> nat
    \<Rightarrow> (real, link_handler, 'a queue_base_scheme line) handlers" where
  "line_handle enq deq sz cf intr h a t objs s =
    (case h of
       To_Queue \<Rightarrow> do {
         (p, ds, nx, q) \<leftarrow> queue_recv enq deq t a (ln_next s, ln_queue s);
         line_send sz cf intr t p
           (s\<lparr>ln_next := nx, ln_queue := q, ln_in := ln_in s @ [a], ln_dropped := ln_dropped s @ ds\<rparr>)
       }
     | Resume \<Rightarrow> do {
         (p, nx, q) \<leftarrow> queue_resume deq t (ln_next s, ln_queue s);
         line_send sz cf intr t p (s\<lparr>ln_next := nx, ln_queue := q\<rparr>)
       }
     | To_Link \<Rightarrow> do {
         (p, nx, l) \<leftarrow> link_handle sz t objs (ln_next s, ln_link s);
         Some ([], s\<lparr>ln_next := nx, ln_link := l, ln_out := ln_out s @ [(p, t)]\<rparr>)
       }
     | To_Target \<Rightarrow> Some ([], s\<lparr>ln_out := ln_out s @ [(a, t)]\<rparr>))"

section \<open>Single operations\<close>

text \<open>
  Rounding can reorder packets of no size. A byte at 2^56 bit/s is sent at time 1, and a packet of size 0 when the link
  is free again, which is at once, because the sum of 1 and 2^-53 is rounded to 1. Its delay of 2^-53 is lost in the same way,
  while the delay of the byte, the sum of the transmission time and the delay, is 2^-52: it arrives after the packet behind it.
\<close>

lemma rounding_reorders:
  fixes cf :: link_conf and sz :: "nat \<Rightarrow> int"
  defines "cf \<equiv> \<lparr> bandwidth = 2 ^ 56, link_latency = 1 / 2 ^ 53 \<rparr>" and "sz \<equiv> (\<lambda>_. 0)(4 := 1)"
  assumes "\<not> dynamic l" and "\<not> avoidReordering l"
  shows "\<exists>d d' txt. link_recv sz cf this target intr 1 4 h (nx, l) = Some ([Schedule (Some target) 4 d, Schedule h intr txt], nx, l)
    \<and> link_recv sz cf this target intr (dadd 1 txt) 5 h (nx, l) = Some ([Schedule (Some target) 5 d', Schedule h intr 0], nx, l)
    \<and> dadd (dadd 1 txt) d' < dadd 1 d"
proof -
  have d: "is_double (1 / 2 ^ 53)" "is_double (2 / 2 ^ 53)" "is_double (1 + 2 / 2 ^ 53)" "is_double 1" "is_double 0" "is_double 8"
    by (rule is_doubleI [of _ 53 1], simp, simp, rule is_doubleI [of _ 53 2], simp, simp,
        rule is_doubleI [of _ 52 "2 ^ 52 + 1"], simp, simp, rule is_doubleI [of _ 0 1], simp, simp,
        rule is_doubleI [of _ 0 0], simp, simp, rule is_doubleI [of _ 0 8], simp, simp)
  note x = d [THEN dbl_is_double]
  have "binade (1 + 1 / 2 ^ 53) = 0" by (rule binade_unique) simp_all
  moreover have "nearest (2 ^ 52 + 1 / 2) = 2 ^ 52"
  proof -
    have "\<lfloor>2 ^ 52 + 1 / 2 :: real\<rfloor> = 2 ^ 52" by (rule floor_unique) simp_all
    then show ?thesis by (simp add: nearest_def)
  qed
  ultimately have one: "dbl (1 + 1 / 2 ^ 53) = 1" by (simp add: dbl_def algebra_simps)
  have tx: "txtime sz cf 4 = 1 / 2 ^ 53" "txtime sz cf 5 = 0"
    using x by (simp_all add: txtime_def dbl_ops cf_def sz_def)
  define e :: real where "e = 1 / 2 ^ 53"
  have e: "dadd e e = 2 / 2 ^ 53" "dadd 0 e = e" "dadd 1 e = 1" "dadd 1 (2 / 2 ^ 53) = 1 + 2 / 2 ^ 53" "1 < 1 + (2 / 2 ^ 53 :: real)"
    "link_latency cf = e" "txtime sz cf 4 = e"
    using x one tx by (simp_all add: dadd_def e_def cf_def)
  show ?thesis
    by (intro exI [of _ "2 / 2 ^ 53"] exI [of _ e] conjI)
      (use assms(3,4) e tx(2) in \<open>simp_all only: link_recv_def Let_def split_beta fst_conv snd_conv if_False bind.bind_lunit prod.case\<close>)
qed

lemma pq_drop_all: "in_queue sz (nx, iq) xs \<Longrightarrow> \<exists>iq'. drop_all (pq_deque sz) (nx, iq) = Some (xs, nx, iq') \<and> in_queue sz (nx, iq') []"
proof (induction xs arbitrary: iq)
  case Nil
  with pq_deque_empty [OF this] show ?case by (subst drop_all.simps) simp
next
  case (Cons x xs)
  from pq_deque_law [OF Cons.prems] obtain iq' where "pq_deque sz (nx, iq) = (x, nx, iq')" "in_queue sz (nx, iq') xs" by blast
  moreover have "x \<noteq> 0" using in_queue_facts [OF Cons.prems] by auto
  ultimately show ?case using Cons.IH [of iq'] by (subst drop_all.simps) auto
qed

text \<open>A reset cancels and drops what is in transit.\<close>

lemma link_reset_law:
  assumes "itq l = Some iq" and "in_queue sz (nx, iq) xs"
  shows "\<exists>iq'. link_reset sz (nx, l) = Some (map Cancel xs, xs, nx, l\<lparr>itq := Some iq'\<rparr>) \<and> in_queue sz (nx, iq') []"
proof (cases "xs = []")
  case True
  with assms have "l = l\<lparr>itq := Some iq\<rparr>" "pq_len iq = 0" by (simp_all add: in_queue_empty)
  with assms True show ?thesis by (intro exI [of _ iq]) (simp add: link_reset_def)
next
  case False
  with assms pq_drop_all [OF assms(2)] in_queue_facts [OF assms(2)] show ?thesis by (auto simp: link_reset_def)
qed

end
