(* ===== verification/Link_Run.thy ===== *)
theory Link_Run
  imports Link
begin

text \<open>
  Runs of a queue and a link under a scheduler: every discipline that keeps the contract \<open>fifo_discipline\<close> makes a link
  that hands on the packets in order, none before the one before it is through, and loses only what the discipline drops.
  Times are rounded to doubles; \<open>send_times\<close> bounds what that does to a transmission.
  The invariant \<open>line_inv\<close> ties the queue, the packets in transit and the pending events together.
\<close>

section \<open>The scheduler\<close>

lemma list_schedule:
  assumes "list_good s" and "ev_uid (sm_objs s a) \<le> 0" and "sm_uid s < 2 ^ 63 - 1"
  shows "\<exists>s'. do_act list_ops add (Schedule (Some h) a d) s = Inr s' \<and> list_good s' \<and> sm_uid s' = sm_uid s + 1
    \<and> sm_clock s' = sm_clock s \<and> sm_halted s' = sm_halted s \<and> sm_app s' = sm_app s
    \<and> sm_objs s' = (sm_objs s)(a := (sm_objs s a)\<lparr>ev_uid := sm_uid s, ev_handler := h, ev_time := add (sm_clock s) d\<rparr>)"
proof -
  define e where "e = (sm_objs s a)\<lparr>ev_uid := sm_uid s, ev_handler := h, ev_time := add (sm_clock s) d\<rparr>"
  have u: "0 < sm_uid s" using assms(1) by (simp add: good_def sim_ok_def)
  then have d: "do_act list_ops add (Schedule (Some h) a d) s = Inr (s\<lparr>sm_uid := sm_uid s + 1,
      sm_objs := (sm_objs s)(a := e), sm_queue := list_insert e (sm_queue s)\<rparr>)"
    using assms(2,3) by (simp add: schedule_def list_ops_def Let_def next_uid_def e_def)
  from list_act_good [OF assms(1,3) d] d show ?thesis by (simp add: e_def)
qed

lemma list_take:
  assumes g: "list_good s" and q: "sm_queue s = e # es"
  shows "sm_objs s (ev_addr e) = e \<and> 0 < ev_uid e \<and> (\<forall>b. 0 < ev_uid (sm_objs s b) \<longrightarrow> b \<noteq> ev_addr e \<longrightarrow> ev_less e (sm_objs s b))
    \<and> list_good (s\<lparr>sm_queue := es, sm_clock := ev_time e, sm_objs := (sm_objs s)(ev_addr e := cancelled e)\<rparr>)"
proof -
  have ok: "sim_ok s" and io: "in_order (sm_uid s) (e # es)" and qd: "set (e # es) = queued (sm_objs s)"
    and ad: "\<And>a. ev_addr (sm_objs s a) = a"
    using g q by (auto simp: good_def sim_ok_def)
  have e: "sm_objs s (ev_addr e) = e" "0 < ev_uid e" using qd by (auto simp: queued_def)
  have "ev_less e (sm_objs s b)" if "0 < ev_uid (sm_objs s b)" "b \<noteq> ev_addr e" for b
  proof -
    have "sm_objs s b \<in> set (e # es)" unfolding qd using that(1) ad by (simp add: queued_def)
    moreover have "sm_objs s b \<noteq> e" using that(2) ad by metis
    ultimately show ?thesis using io by (auto simp: in_order_def)
  qed
  moreover have "sim_ok (s\<lparr>sm_queue := es, sm_objs := (sm_objs s)(ev_addr e := cancelled e)\<rparr>)"
  proof (rule sim_ok_removed [OF ok])
    show "set es = set (sm_queue s) - {e}" using io q by (auto simp: in_order_def)
  qed (use q in_order_tl [OF io] in simp_all)
  then have "list_good (s\<lparr>sm_queue := es, sm_clock := ev_time e, sm_objs := (sm_objs s)(ev_addr e := cancelled e)\<rparr>)"
    using in_order_tl [OF io] by (auto simp: good_def sim_ok_def)
  ultimately show ?thesis using e by blast
qed

section \<open>The invariant\<close>

text \<open>
  The scale of a run: all packets come until \<open>last_arrival\<close>, no transmission takes more than \<open>longest\<close>, and no time is
  beyond \<open>horizon\<close>. One rounding is then off by at most \<open>slack\<close>.
\<close>

record scale =
  last_arrival :: real
  longest :: real
  horizon :: real

definition slack :: "scale \<Rightarrow> real" where
  "slack sp = horizon sp / 2 ^ 53"

lemma dbl_slack: "0 \<le> x \<Longrightarrow> x \<le> horizon sp \<Longrightarrow> \<bar>dbl x - x\<bar> \<le> slack sp"
  using dbl_error [of x] divide_right_mono [of x "horizon sp" "2 ^ 53"] by (simp add: slack_def)

text \<open>The packets leave at least their transmission time apart, but for five roundings.\<close>

definition spaced :: "(nat \<Rightarrow> int) \<Rightarrow> link_conf \<Rightarrow> scale \<Rightarrow> (nat \<times> real) list \<Rightarrow> bool" where
  "spaced sz cf sp = sorted_wrt (\<lambda>(a, t) (b, u). t + txtime sz cf b - 5 * slack sp \<le> u)"

lemma spaced_snoc:
  "spaced sz cf sp (xs @ [(p, t)]) \<longleftrightarrow> spaced sz cf sp xs \<and> (\<forall>(a, u) \<in> set xs. u + txtime sz cf p - 5 * slack sp \<le> t)"
  by (auto simp: spaced_def sorted_wrt_append)

definition same_link :: "link_delay \<Rightarrow> link_delay \<Rightarrow> bool" where
  "same_link l l' \<longleftrightarrow> dynamic l' = dynamic l
    \<and> avoidReordering l' = avoidReordering l"

text \<open>
  A transmission takes at least as long as five roundings are off, and there is room for all packets (of which each is given
  twice the longest time, which covers the roundings).
\<close>

definition link_good :: "(nat \<Rightarrow> int) \<Rightarrow> link_conf \<Rightarrow> nat list \<Rightarrow> scale \<Rightarrow> bool" where
  "link_good sz cf arr sp \<longleftrightarrow> 0 \<le> link_latency cf \<and> 0 \<le> last_arrival sp
    \<and> (\<forall>p \<in> set arr. 5 * slack sp \<le> txtime sz cf p \<and> txtime sz cf p \<le> longest sp)
    \<and> last_arrival sp + 2 * real (length arr) * longest sp + link_latency cf \<le> horizon sp \<and> 0 \<le> horizon sp"

text \<open>The link is free by then after \<open>k\<close> packets.\<close>

definition sent_until :: "scale \<Rightarrow> nat \<Rightarrow> real" where
  "sent_until sp k = last_arrival sp + 2 * real k * longest sp"

lemma slack_nonneg: "link_good sz cf arr sp \<Longrightarrow> 0 \<le> slack sp"
  by (simp add: link_good_def slack_def)

lemma longest_nonneg: "link_good sz cf arr sp \<Longrightarrow> p \<in> set arr \<Longrightarrow> 0 \<le> longest sp"
  using slack_nonneg [of sz cf arr sp] by (fastforce simp: link_good_def)

text \<open>The times of a transmission that starts at \<open>t\<close>.\<close>

lemma send_times:
  fixes cf :: link_conf and sp :: scale
  assumes g: "link_good sz cf arr sp" and p: "p \<in> set arr" and t: "0 \<le> t" "t \<le> sent_until sp k" and k: "k < length arr"
  defines "x \<equiv> txtime sz cf p" and "lat \<equiv> link_latency cf"
  shows "5 * slack sp \<le> x" "0 \<le> x" "0 \<le> dadd x lat" "t \<le> dadd t x" "dadd t x \<le> sent_until sp (Suc k)"
    "t + lat + x - 2 * slack sp \<le> dadd t (dadd x lat)" "dadd t (dadd x lat) \<le> dadd t x + lat + 3 * slack sp"
    "dadd (dadd t x) lat \<le> dadd t x + lat + slack sp"
proof -
  have sl: "0 \<le> slack sp" by (rule slack_nonneg [OF g])
  have b: "5 * slack sp \<le> x" "x \<le> longest sp" "0 \<le> lat" using g p by (simp_all add: link_good_def x_def lat_def)
  show x0: "5 * slack sp \<le> x" "0 \<le> x" using b sl by linarith+
  have "real (Suc k) * longest sp \<le> real (length arr) * longest sp"
    using k longest_nonneg [OF g p] by (intro mult_right_mono) simp_all
  then have top: "sent_until sp k + 2 * longest sp + lat \<le> horizon sp"
    using g by (simp add: link_good_def sent_until_def lat_def algebra_simps)
  have d0: "\<bar>dadd x lat - (x + lat)\<bar> \<le> slack sp"
    unfolding dadd_def using top t b x0 by (intro dbl_slack) linarith+
  have free: "\<bar>dadd t x - (t + x)\<bar> \<le> slack sp"
    unfolding dadd_def using top t b x0 by (intro dbl_slack) linarith+
  show "0 \<le> dadd x lat" unfolding dadd_def using b x0 by (intro dbl_sgn) simp
  then have "\<bar>dadd t (dadd x lat) - (t + dadd x lat)\<bar> \<le> slack sp"
    unfolding dadd_def [of t] using top t b x0 d0 sl by (intro dbl_slack) linarith+
  then show "t + lat + x - 2 * slack sp \<le> dadd t (dadd x lat)" "dadd t (dadd x lat) \<le> dadd t x + lat + 3 * slack sp"
    using d0 free by linarith+
  show f: "t \<le> dadd t x" using free b sl by linarith
  show "dadd t x \<le> sent_until sp (Suc k)" using free b sl t by (simp add: sent_until_def algebra_simps)
  have "\<bar>dadd (dadd t x) lat - (dadd t x + lat)\<bar> \<le> slack sp"
    unfolding dadd_def [of _ lat] using top t b x0 free f sl by (intro dbl_slack) linarith+
  then show "dadd (dadd t x) lat \<le> dadd t x + lat + slack sp" by linarith
qed

definition transit_holds :: "(nat \<Rightarrow> int) \<Rightarrow> pkt_links \<Rightarrow> link_delay \<Rightarrow> nat list \<Rightarrow> bool" where
  "transit_holds sz nx l ts \<longleftrightarrow> (dynamic l \<longrightarrow> (\<exists>iq. itq l = Some iq \<and> in_queue sz (nx, iq) ts))"

text \<open>When the link is free: at the end of the transmission if there is one.\<close>

definition free_at :: "nat \<Rightarrow> (nat \<Rightarrow> (real, link_handler) event) \<Rightarrow> real \<Rightarrow> real" where
  "free_at intr objs t = (if 0 < ev_uid (objs intr) then ev_time (objs intr) else t)"

text \<open>
  The events: arrivals that are to come (\<open>arr\<close> are all of them), packets in transit, and \<open>intr_\<close>. \<open>cur\<close> is the packet
  that the queue is about to hand to the link, \<open>ts\<close> are the packets in transit.
\<close>

definition event_ok :: "nat \<Rightarrow> nat list \<Rightarrow> nat list \<Rightarrow> nat list \<Rightarrow> link_delay \<Rightarrow> nat \<Rightarrow> link_handler \<Rightarrow> bool" where
  "event_ok intr arr seen ts l a h \<longleftrightarrow>
    (if a = intr then h = Resume
     else if a \<in> set ts then h = (if dynamic l then To_Link else To_Target)
     else h = To_Queue \<and> a \<in> set arr \<and> a \<notin> set seen)"

definition events_inv ::
  "nat \<Rightarrow> nat list \<Rightarrow> nat list \<Rightarrow> nat list \<Rightarrow> nat list \<Rightarrow> link_delay \<Rightarrow> (nat \<Rightarrow> (real, link_handler) event) \<Rightarrow> real \<Rightarrow> bool" where
  "events_inv intr arr seen held ts l objs t \<longleftrightarrow>
    (\<forall>a. 0 < ev_uid (objs a) \<longrightarrow> t \<le> ev_time (objs a) \<and> event_ok intr arr seen ts l a (ev_handler (objs a)))
    \<and> (\<forall>a \<in> set arr. a \<notin> set seen \<longrightarrow> 0 < ev_uid (objs a))
    \<and> (\<forall>a \<in> set ts. 0 < ev_uid (objs a)) \<and> (\<forall>a \<in> set held. ev_uid (objs a) \<le> 0)
    \<and> sorted_wrt ev_less (map objs ts)"

definition out_and_transit :: "(nat \<Rightarrow> (real, link_handler) event) \<Rightarrow> (nat \<times> real) list \<Rightarrow> nat list \<Rightarrow> (nat \<times> real) list" where
  "out_and_transit objs out ts = out @ map (\<lambda>a. (a, ev_time (objs a))) ts"

definition times_inv ::
  "(nat \<Rightarrow> int) \<Rightarrow> link_conf \<Rightarrow> scale \<Rightarrow> nat \<Rightarrow> nat list \<Rightarrow> (nat \<times> real) list \<Rightarrow> link_delay \<Rightarrow> (nat \<Rightarrow> (real, link_handler) event) \<Rightarrow> real \<Rightarrow> bool" where
  "times_inv sz cf sp intr ts out l objs t \<longleftrightarrow>
    0 \<le> t \<and> spaced sz cf sp (out_and_transit objs out ts)
    \<and> (\<forall>(a, u) \<in> set (out_and_transit objs out ts). u \<le> free_at intr objs t + link_latency cf + 3 * slack sp)
    \<and> (latest_time l \<le> free_at intr objs t + link_latency cf + slack sp \<or> latest_time l \<le> 0)
    \<and> (0 < ev_uid (objs intr) \<longrightarrow> ev_time (objs intr) \<le> sent_until sp (length out + length ts))
    \<and> (\<forall>a. 0 < ev_uid (objs a) \<longrightarrow> ev_handler (objs a) = To_Queue \<longrightarrow> ev_time (objs a) \<le> last_arrival sp)"

text \<open>Nothing is lost or repeated: what came and was not dropped went on, is in transit, is sent now or waits, in this order.\<close>

definition packets_inv :: "nat \<Rightarrow> nat list \<Rightarrow> 'q line \<Rightarrow> nat list \<Rightarrow> nat list \<Rightarrow> bool" where
  "packets_inv intr arr s ts held \<longleftrightarrow>
    map fst (ln_out s) @ ts @ held = kept_from (ln_dropped s) (ln_in s)
    \<and> distinct (ln_in s) \<and> set (ln_in s) \<subseteq> set arr \<and> set (ln_dropped s) \<subseteq> set (ln_in s)"

lemma queued_uid:
  assumes "list_good s" and "0 < ev_uid (sm_objs s a)"
  shows "ev_uid (sm_objs s a) < sm_uid s"
proof -
  have "sm_objs s a \<in> set (sm_queue s)" "in_order (sm_uid s) (sm_queue s)"
    using assms unfolding good_def sim_ok_def by (auto simp: queued_def)
  then show ?thesis by (auto simp: in_order_def)
qed

lemma link_recv_law:
  assumes g: "link_good sz cf arr sp" and tr: "transit_holds sz nx l ts" and p: "p \<notin> set ts" "p \<noteq> 0" "p \<in> set arr"
    and latest: "latest_time l \<le> t + link_latency cf + slack sp \<or> latest_time l \<le> 0"
  shows "\<exists>nx' l'. link_recv sz cf To_Link To_Target intr t p h (nx, l)
      = Some ([Schedule (Some (if dynamic l then To_Link else To_Target)) p (dadd (txtime sz cf p) (link_latency cf)),
               Schedule h intr (txtime sz cf p)], nx', l')
    \<and> same_link l l' \<and> transit_holds sz nx' l' (ts @ [p]) \<and> (\<forall>y. y \<notin> set (p # ts) \<longrightarrow> nx' y = nx y)
    \<and> (latest_time l' = latest_time l \<or> latest_time l' = dadd (dadd t (txtime sz cf p)) (link_latency cf))"
proof (cases "dynamic l")
  case True
  then obtain iq where iq: "itq l = Some iq" "in_queue sz (nx, iq) ts" using tr by (auto simp: transit_holds_def)
  from pq_enque_law [OF iq(2) p(1,2)] obtain nx' iq' where
    "pq_enque sz p (nx, iq) = Some (if ts = [] then 0 else last ts, nx', iq')" "in_queue sz (nx', iq') (ts @ [p])"
    "\<forall>y. y \<notin> set (p # ts) \<longrightarrow> nx' y = nx y" by blast
  with True iq show ?thesis by (simp add: link_recv_def Let_def transit_holds_def same_link_def)
next
  case False
  have "dsub (latest_time l) t \<le> dadd (txtime sz cf p) (link_latency cf)" if "0 < latest_time l"
  proof -
    have "5 * slack sp \<le> txtime sz cf p" using g p(3) by (simp add: link_good_def)
    then have "latest_time l - t \<le> txtime sz cf p + link_latency cf" using latest that slack_nonneg [OF g] by linarith
    then show ?thesis unfolding dsub_def dadd_def by (rule dbl_mono)
  qed
  with False show ?thesis by (auto simp: link_recv_def Let_def transit_holds_def same_link_def)
qed

section \<open>Events come and go\<close>

text \<open>The first event, at \<open>a\<close>, is taken from the queue, and the clock moves on.\<close>

definition taken :: "nat \<Rightarrow> (nat \<Rightarrow> (real, link_handler) event) \<Rightarrow> (nat \<Rightarrow> (real, link_handler) event) \<Rightarrow> real \<Rightarrow> real \<Rightarrow> bool" where
  "taken a objs objs1 t t1 \<longleftrightarrow> 0 < ev_uid (objs a) \<and> objs1 = objs(a := cancelled (objs a)) \<and> t1 = ev_time (objs a)
    \<and> (\<forall>b. 0 < ev_uid (objs b) \<longrightarrow> b \<noteq> a \<longrightarrow> ev_less (objs a) (objs b))"

lemma taken_later: "taken a objs objs1 t t1 \<Longrightarrow> 0 < ev_uid (objs b) \<Longrightarrow> t1 \<le> ev_time (objs b)"
  by (cases "b = a") (auto simp: taken_def ev_less_def)

lemma taken_simps:
  assumes "taken a objs objs1 t t1"
  shows "ev_uid (objs1 a) \<le> 0" "b \<noteq> a \<Longrightarrow> objs1 b = objs b"
  using assms by (auto simp: taken_def cancelled_def)

lemma taken_kept: "taken a objs objs1 t t1 \<Longrightarrow> 0 < ev_uid (objs1 b) \<Longrightarrow> objs1 b = objs b"
  using taken_simps [of a objs objs1 t t1] by (metis not_less)

lemma events_taken:
  assumes ev: "events_inv intr arr seen held ts l objs t" and tk: "taken a objs objs1 t t1"
    and ok: "\<And>b. b \<noteq> a \<Longrightarrow> 0 < ev_uid (objs b) \<Longrightarrow> event_ok intr arr seen ts l b (ev_handler (objs b))
      \<Longrightarrow> event_ok intr arr seen' ts' l b (ev_handler (objs b))"
    and arr: "\<And>b. b \<in> set arr \<Longrightarrow> b \<notin> set seen' \<Longrightarrow> b \<noteq> a \<and> b \<notin> set seen"
    and ts: "a \<notin> set ts'" "set ts' \<subseteq> set ts" "sorted_wrt ev_less (map objs ts')"
    and held: "set held' \<subseteq> insert a (set held)"
  shows "events_inv intr arr seen' held' ts' l objs1 t1"
proof -
  have m: "map objs1 ts' = map objs ts'" using ts(1) taken_simps(2) [OF tk] by (intro map_cong refl) metis
  have o: "t1 \<le> ev_time (objs1 b) \<and> event_ok intr arr seen' ts' l b (ev_handler (objs1 b))" if b: "0 < ev_uid (objs1 b)" for b
  proof -
    have "b \<noteq> a" using b taken_simps(1) [OF tk] by auto
    with b have "objs1 b = objs b" "0 < ev_uid (objs b)" using taken_simps(2) [OF tk] by simp_all
    then show ?thesis using taken_later [OF tk] ev ok [OF \<open>b \<noteq> a\<close>] by (simp add: events_inv_def)
  qed
  show ?thesis
    unfolding events_inv_def m
  proof (intro conjI allI ballI impI)
    fix b assume b: "b \<in> set arr" "b \<notin> set seen'"
    then have "0 < ev_uid (objs b)" using arr ev by (auto simp: events_inv_def)
    then show "0 < ev_uid (objs1 b)" using arr b taken_simps(2) [OF tk] by simp
  next
    fix b assume "b \<in> set ts'"
    then have "b \<noteq> a" "b \<in> set ts" using ts by auto
    then show "0 < ev_uid (objs1 b)" using taken_simps(2) [OF tk, of b] ev by (simp add: events_inv_def)
  next
    fix b assume "b \<in> set held'"
    then show "ev_uid (objs1 b) \<le> 0" using held taken_simps [OF tk] ev
      by (cases "b = a") (auto simp: events_inv_def)
  qed (use o ts(3) in auto)
qed

lemma events_arrive:
  assumes "events_inv intr arr seen held ts l objs t" and "taken a objs objs1 t t1"
    and "a \<noteq> intr" "a \<notin> set ts" and "set held' \<subseteq> insert a (set held)"
  shows "events_inv intr arr (seen @ [a]) held' ts l objs1 t1"
  by (rule events_taken [OF assms(1,2)]) (use assms in \<open>auto simp: event_ok_def events_inv_def split: if_splits\<close>)

lemma events_resume:
  assumes "events_inv intr arr seen held ts l objs t" and "taken intr objs objs1 t t1"
    and "intr \<notin> set arr" "intr \<notin> set ts" and "set held' \<subseteq> set held"
  shows "events_inv intr arr seen held' ts l objs1 t1"
  by (rule events_taken [OF assms(1,2)]) (use assms in \<open>auto simp: event_ok_def events_inv_def\<close>)

lemma events_deliver:
  assumes "events_inv intr arr seen held (a # ts) l objs t" and "taken a objs objs1 t t1"
    and "a \<noteq> intr" "a \<in> set seen" "a \<notin> set ts" "a \<notin> set held"
  shows "events_inv intr arr seen held ts l objs1 t1"
  by (rule events_taken [OF assms(1,2)]) (use assms in \<open>auto simp: event_ok_def events_inv_def\<close>)

section \<open>Times\<close>

lemma out_and_transit_cong: "map objs1 ts = map objs ts \<Longrightarrow> out_and_transit objs1 out ts = out_and_transit objs out ts"
  by (simp add: out_and_transit_def)

lemma times_later:
  assumes "times_inv sz cf sp intr ts out l objs t" and "out_and_transit objs1 out' ts' = out_and_transit objs out ts"
    and "length out' + length ts' = length out + length ts"
    and "free_at intr objs t \<le> free_at intr objs1 t1" and "t \<le> t1" and "\<And>a. 0 < ev_uid (objs1 a) \<Longrightarrow> objs1 a = objs a"
  shows "times_inv sz cf sp intr ts' out' l objs1 t1"
proof -
  have "u \<le> free_at intr objs1 t1 + link_latency cf + c" if "u \<le> free_at intr objs t + link_latency cf + c" for u c
    using that assms(4) by linarith
  then show ?thesis
    using assms(1,5,6) unfolding times_inv_def assms(2,3) by fastforce
qed

lemma packets_distinct:
  assumes "packets_inv intr arr s ts held"
  shows "distinct (ts @ held) \<and> set (ts @ held) \<subseteq> set (ln_in s) \<and> set (ln_in s) \<subseteq> set arr"
proof -
  have k: "map fst (ln_out s) @ ts @ held = kept_from (ln_dropped s) (ln_in s)" "distinct (ln_in s)" "set (ln_in s) \<subseteq> set arr"
    using assms by (simp_all add: packets_inv_def)
  then have "distinct (map fst (ln_out s) @ ts @ held)" "set (map fst (ln_out s) @ ts @ held) \<subseteq> set (ln_in s)"
    unfolding k(1) by (simp_all add: kept_from_def)
  then show ?thesis using k(3) by auto
qed

lemma packets_few:
  assumes "packets_inv intr arr s ts held"
  shows "length (ln_out s) + length ts + length held \<le> length arr"
proof -
  let ?k = "kept_from (ln_dropped s) (ln_in s)"
  have "distinct ?k" "set ?k \<subseteq> set arr" using assms by (auto simp: packets_inv_def kept_from_def)
  then have "length ?k \<le> card (set arr)" by (metis List.finite_set card_mono distinct_card)
  moreover have "map fst (ln_out s) @ ts @ held = ?k" using assms by (simp add: packets_inv_def)
  from arg_cong [OF this, of length] have "length ?k = length (ln_out s) + length ts + length held" by simp
  ultimately show ?thesis using card_length [of arr] by linarith
qed

section \<open>Sending\<close>

text \<open>A handler gives at most two calls, none of which schedules into the past.\<close>

definition acts_ok :: "(real, 'h) act list \<Rightarrow> bool" where
  "acts_ok acts \<longleftrightarrow> length acts \<le> 2 \<and> (\<forall>act \<in> set acts. act_ok (\<lambda>d. 0 \<le> d) act)"

text \<open>The handlers, with the check that they schedule nothing into the past.\<close>

definition checked :: "(real, 'h, 's) handlers \<Rightarrow> (real, 'h, 's) handlers" where
  "checked handle h a t objs s =
    (case handle h a t objs s of
       Some (acts, s') \<Rightarrow> if acts_ok acts then Some (acts, s') else None
     | None \<Rightarrow> None)"

text \<open>The two events that \<open>link_recv\<close> schedules, numbered \<open>u\<close> and \<open>u + 1\<close>.\<close>

definition sent ::
  "nat \<Rightarrow> nat \<Rightarrow> link_handler \<Rightarrow> int \<Rightarrow> real \<Rightarrow> real \<Rightarrow> (nat \<Rightarrow> (real, link_handler) event)
    \<Rightarrow> (nat \<Rightarrow> (real, link_handler) event) \<Rightarrow> bool" where
  "sent intr p h u t1 t2 objs objs' \<longleftrightarrow>
    objs' p = (objs p)\<lparr>ev_uid := u, ev_handler := h, ev_time := t1\<rparr>
    \<and> objs' intr = (objs intr)\<lparr>ev_uid := u + 1, ev_handler := Resume, ev_time := t2\<rparr>
    \<and> (\<forall>b. b \<noteq> p \<longrightarrow> b \<noteq> intr \<longrightarrow> objs' b = objs b)"

lemma sent_map: "sent intr p h u t1 t2 objs objs' \<Longrightarrow> p \<notin> set ts \<Longrightarrow> intr \<notin> set ts \<Longrightarrow> map objs' ts = map objs ts"
  unfolding sent_def by (intro map_cong refl) metis

lemma times_sent:
  assumes tm: "times_inv sz cf sp intr ts out l objs t" and idle: "ev_uid (objs intr) \<le> 0" "0 < u"
    and st: "sent intr p h u (dadd t (dadd (txtime sz cf p) (link_latency cf))) (dadd t (txtime sz cf p)) objs objs'"
    and ts: "p \<notin> set ts" "intr \<notin> set ts" "p \<noteq> intr" "h \<noteq> To_Queue" and l: "same_link l l'"
    and g: "link_good sz cf arr sp" "p \<in> set arr" "t \<le> sent_until sp (length out + length ts)" "length out + length ts < length arr"
    and latest: "latest_time l' = latest_time l \<or> latest_time l' = dadd (dadd t (txtime sz cf p)) (link_latency cf)"
  shows "times_inv sz cf sp intr (ts @ [p]) out l' objs' t"
proof -
  let ?tx = "txtime sz cf p" and ?lat = "link_latency cf"
  have t: "0 \<le> t" using tm by (simp add: times_inv_def)
  note x = send_times [OF g(1,2) t g(3,4)]
  have free: "free_at intr objs t = t" "free_at intr objs' t = dadd t ?tx"
    using idle st by (simp_all add: free_at_def sent_def)
  have oat: "out_and_transit objs' out (ts @ [p]) = out_and_transit objs out ts @ [(p, dadd t (dadd ?tx ?lat))]"
    using sent_map [OF st ts(1,2)] st by (simp add: out_and_transit_def sent_def)
  have b: "v \<le> t + ?lat + 3 * slack sp" if "(a, v) \<in> set (out_and_transit objs out ts)" for a v
    using tm free(1) that by (auto simp: times_inv_def)
  have "v + ?tx - 5 * slack sp \<le> dadd t (dadd ?tx ?lat)" if "(a, v) \<in> set (out_and_transit objs out ts)" for a v
    using b [OF that] x(6) by linarith
  moreover have "spaced sz cf sp (out_and_transit objs out ts)" using tm by (simp add: times_inv_def)
  ultimately have "spaced sz cf sp (out_and_transit objs' out (ts @ [p]))"
    unfolding oat spaced_snoc by blast
  moreover have "v \<le> dadd t ?tx + ?lat + 3 * slack sp" if "(a, v) \<in> set (out_and_transit objs' out (ts @ [p]))" for a v
    using that b [of a v] x(4,7) unfolding oat by auto
  moreover have "latest_time l' \<le> dadd t ?tx + ?lat + slack sp \<or> latest_time l' \<le> 0"
    using latest tm free(1) x(4,8) by (auto simp: times_inv_def)
  moreover have "ev_time (objs' intr) \<le> sent_until sp (length out + length (ts @ [p]))"
    using x(5) st by (simp add: sent_def)
  moreover have "ev_time (objs' a) \<le> last_arrival sp" if "0 < ev_uid (objs' a)" "ev_handler (objs' a) = To_Queue" for a
  proof -
    have "a \<noteq> p" "a \<noteq> intr" using that(2) st ts(4) by (auto simp: sent_def)
    then have "objs' a = objs a" using st by (simp add: sent_def)
    with that tm show ?thesis by (simp add: times_inv_def)
  qed
  ultimately show ?thesis using t free(2) by (auto simp: times_inv_def)
qed

lemma events_sent:
  assumes ev: "events_inv intr arr seen (p # xs) ts l objs t"
    and st: "sent intr p (if dynamic l then To_Link else To_Target) u t1 t2 objs objs'"
    and p: "p \<notin> set ts" "p \<notin> set xs" "p \<noteq> intr" "intr \<notin> set ts" "intr \<notin> set xs" and t: "t \<le> t1" "t \<le> t2"
    and u: "0 < u" "\<And>a. 0 < ev_uid (objs a) \<Longrightarrow> ev_uid (objs a) < u" "\<And>a. a \<in> set ts \<Longrightarrow> ev_time (objs a) \<le> t1"
    and l: "same_link l l'"
  shows "events_inv intr arr seen xs (ts @ [p]) l' objs' t"
proof -
  have dy: "dynamic l' = dynamic l" using l by (simp add: same_link_def)
  have m: "map objs' ts = map objs ts" using sent_map [OF st] p by simp
  have o: "t \<le> ev_time (objs' a) \<and> event_ok intr arr seen (ts @ [p]) l' a (ev_handler (objs' a))" if a: "0 < ev_uid (objs' a)" for a
  proof (cases "a = p \<or> a = intr")
    case True
    then show ?thesis using st t p(3) dy by (auto simp: event_ok_def sent_def)
  next
    case False
    then have o': "objs' a = objs a" using st by (simp add: sent_def)
    then have "t \<le> ev_time (objs a)" "event_ok intr arr seen ts l a (ev_handler (objs a))"
      using ev a unfolding events_inv_def by (simp_all only:)
    then show ?thesis using False o' dy by (simp add: event_ok_def)
  qed
  have q: "0 < ev_uid (objs' a)" if "a \<in> {p, intr} \<or> 0 < ev_uid (objs a)" for a
    using that st u(1) by (cases "a = p"; cases "a = intr") (auto simp: sent_def)
  have "ev_less (objs a) (objs' p)" if "a \<in> set ts" for a
  proof -
    have "ev_uid (objs a) < u" using ev that u(2) by (simp add: events_inv_def)
    then show ?thesis using u(3) [OF that] st by (auto simp: ev_less_def sent_def)
  qed
  then have "sorted_wrt ev_less (map objs' (ts @ [p]))"
    unfolding map_append m using ev by (simp add: sorted_wrt_append events_inv_def)
  moreover have "ev_uid (objs' a) \<le> 0" if "a \<in> set xs" for a
    using that ev st p by (cases "a = p"; cases "a = intr") (auto simp: sent_def events_inv_def)
  ultimately show ?thesis using o q ev unfolding events_inv_def by auto
qed

section \<open>Packets\<close>

lemma kept_from_extend:
  assumes k: "os @ xs = kept_from D I" and d: "distinct (I @ [a])" "set D \<subseteq> set I" and ds: "set ds \<subseteq> set (xs @ [a])"
  shows "os @ kept_from ds (xs @ [a]) = kept_from (D @ ds) (I @ [a])"
proof -
  have "kept_from D (I @ [a]) = os @ xs @ [a]" using k d by (auto simp: kept_from_def)
  moreover have "kept_from (D @ ds) (I @ [a]) = kept_from ds (kept_from D (I @ [a]))"
    unfolding kept_from_def filter_filter by (rule filter_cong) auto
  moreover have "distinct (os @ xs @ [a])"
  proof -
    have "distinct (kept_from D (I @ [a]))" using d(1) unfolding kept_from_def by (rule distinct_filter)
    with calculation(1) show ?thesis by simp
  qed
  then have "kept_from ds os = os" unfolding kept_from_def using ds by (intro filter_True) auto
  ultimately show ?thesis by (simp add: kept_from_def)
qed

lemma fewer_to_come:
  assumes "a \<in> set arr" and "a \<notin> set seen"
  shows "length (filter (\<lambda>b. b \<notin> set (seen @ [a])) arr) < length (filter (\<lambda>b. b \<notin> set seen) arr)"
proof -
  have e: "filter (\<lambda>b. b \<notin> set (seen @ [a])) arr = filter (\<lambda>b. b \<noteq> a) (filter (\<lambda>b. b \<notin> set seen) arr)"
    unfolding filter_filter by (rule filter_cong) auto
  have "a \<in> set (filter (\<lambda>b. b \<notin> set seen) arr)" using assms by simp
  then show ?thesis unfolding e by (rule length_filter_less) simp
qed

context fifo_discipline
begin

definition line_inv ::
  "(nat \<Rightarrow> int) \<Rightarrow> link_conf \<Rightarrow> scale \<Rightarrow> nat \<Rightarrow> nat list \<Rightarrow> link_delay \<Rightarrow> 'a queue_base_scheme
    \<Rightarrow> nat list \<Rightarrow> nat list \<Rightarrow> nat list \<Rightarrow> 'a queue_base_scheme line \<Rightarrow> (nat \<Rightarrow> (real, link_handler) event) \<Rightarrow> real \<Rightarrow> bool" where
  "line_inv sz cf sp intr arr l0 q0 cur xs ts s objs t \<longleftrightarrow>
    busy (ln_next s, ln_queue s) xs \<and> (blocked (ln_queue s) \<longleftrightarrow> cur \<noteq> [] \<or> 0 < ev_uid (objs intr))
    \<and> (cur \<noteq> [] \<longrightarrow> ev_uid (objs intr) \<le> 0 \<and> t \<le> sent_until sp (length (ln_out s) + length ts))
    \<and> transit_holds sz (ln_next s) (ln_link s) ts \<and> same_link l0 (ln_link s)
    \<and> events_inv intr arr (ln_in s) (cur @ xs) ts (ln_link s) objs t
    \<and> times_inv sz cf sp intr ts (ln_out s) (ln_link s) objs t
    \<and> packets_inv intr arr s ts (cur @ xs)
    \<and> room (ln_queue s) = room q0 \<and> ((\<forall>n < length arr. room q0 n) \<longrightarrow> ln_dropped s = [])"

lemma line_send_law:
  assumes inv: "line_inv sz cf sp intr arr l0 q0 [p] xs ts s (sm_objs sim) t" and g: "link_good sz cf arr sp"
    and arr: "intr \<notin> set arr" "0 \<notin> set arr"
    and sim: "list_good sim" "sm_clock sim = t" "sm_uid sim + 2 < 2 ^ 63"
  shows "\<exists>acts s' sim'. line_send sz cf intr t p s = Some (acts, s')
    \<and> perform list_ops dadd acts (sim\<lparr>sm_app := s'\<rparr>) = Inr sim' \<and> list_good sim' \<and> sm_clock sim' = t
    \<and> sm_halted sim' = sm_halted sim \<and> sm_app sim' = s' \<and> sm_uid sim' = sm_uid sim + 2
    \<and> line_inv sz cf sp intr arr l0 q0 [] xs (ts @ [p]) s' (sm_objs sim') t
    \<and> ln_in s' = ln_in s \<and> ln_queue s' = ln_queue s \<and> acts_ok acts"
proof -
  let ?l = "ln_link s" and ?o = "sm_objs sim"
  let ?tx = "txtime sz cf p" and ?lat = "link_latency cf" and ?h = "if dynamic ?l then To_Link else To_Target"
  note i = inv [unfolded line_inv_def]
  have pk: "distinct (ts @ p # xs)" "set (ts @ p # xs) \<subseteq> set arr" using i packets_distinct [of intr arr s ts "p # xs"] by auto
  have p: "p \<notin> set ts" "p \<notin> set xs" "p \<noteq> intr" "intr \<notin> set ts" "intr \<notin> set xs" "p \<noteq> 0" using pk arr by auto
  have idle: "ev_uid (?o intr) \<le> 0" and tm: "times_inv sz cf sp intr ts (ln_out s) ?l ?o t"
    and ev: "events_inv intr arr (ln_in s) (p # xs) ts ?l ?o t" and bound: "t \<le> sent_until sp (length (ln_out s) + length ts)"
    and t0: "0 \<le> t" and pi: "packets_inv intr arr s ts (p # xs)" using i by (simp_all add: times_inv_def)
  have pa: "p \<in> set arr" using pk by simp
  have few: "length (ln_out s) + length ts < length arr" using packets_few [OF pi] by simp
  note tx = send_times [OF g pa t0 bound few]
  have latest: "latest_time ?l \<le> t + ?lat + slack sp \<or> latest_time ?l \<le> 0"
    using tm idle by (auto simp: times_inv_def free_at_def)
  have transit: "ev_time (?o a) \<le> dadd t (dadd ?tx ?lat)" if "a \<in> set ts" for a
  proof -
    have "ev_time (?o a) \<le> t + ?lat + 3 * slack sp"
      using tm idle that by (auto simp: times_inv_def free_at_def out_and_transit_def)
    then show ?thesis using tx(1,6) by linarith
  qed
  have tm_p: "t \<le> dadd t (dadd ?tx ?lat)"
    using tx(1,6) g by (simp add: link_good_def slack_def)
  from link_recv_law [OF g _ p(1,6) pa latest, of "ln_next s" intr "Some Resume"] i obtain nx' l' where
    r: "link_recv sz cf To_Link To_Target intr t p (Some Resume) (ln_next s, ?l)
      = Some ([Schedule (Some ?h) p (dadd ?tx ?lat), Schedule (Some Resume) intr ?tx], nx', l')"
    "same_link ?l l'" "transit_holds sz nx' l' (ts @ [p])" "\<forall>y. y \<notin> set (p # ts) \<longrightarrow> nx' y = ln_next s y"
    "latest_time l' = latest_time ?l \<or> latest_time l' = dadd (dadd t ?tx) ?lat" by auto
  define s' where "s' = s\<lparr>ln_next := nx', ln_link := l'\<rparr>"
  have "list_good (sim\<lparr>sm_app := s'\<rparr>)" using sim(1) by (simp add: good_def sim_ok_def)
  moreover have "ev_uid (?o p) \<le> 0" using ev by (simp add: events_inv_def)
  ultimately obtain sim1 where
    s1: "do_act list_ops dadd (Schedule (Some ?h) p (dadd ?tx ?lat)) (sim\<lparr>sm_app := s'\<rparr>) = Inr sim1" "list_good sim1"
      "sm_uid sim1 = sm_uid sim + 1" "sm_clock sim1 = t" "sm_halted sim1 = sm_halted sim" "sm_app sim1 = s'"
      "sm_objs sim1 = ?o(p := (?o p)\<lparr>ev_uid := sm_uid sim, ev_handler := ?h, ev_time := dadd t (dadd ?tx ?lat)\<rparr>)"
    using list_schedule [of "sim\<lparr>sm_app := s'\<rparr>" p dadd ?h "dadd ?tx ?lat"] sim by auto
  have "ev_uid (sm_objs sim1 intr) \<le> 0" using idle p(3) by (simp add: s1(7))
  from list_schedule [OF s1(2) this, of dadd Resume ?tx] sim(3) s1 obtain sim2 where
    s2: "do_act list_ops dadd (Schedule (Some Resume) intr ?tx) sim1 = Inr sim2" "list_good sim2"
      "sm_uid sim2 = sm_uid sim + 2" "sm_clock sim2 = t" "sm_halted sim2 = sm_halted sim" "sm_app sim2 = s'"
      "sm_objs sim2 = (sm_objs sim1)(intr := (?o intr)\<lparr>ev_uid := sm_uid sim + 1, ev_handler := Resume, ev_time := dadd t ?tx\<rparr>)"
    using p(3) by (auto simp: s1(7))
  have st: "sent intr p ?h (sm_uid sim) (dadd t (dadd ?tx ?lat)) (dadd t ?tx) ?o (sm_objs sim2)"
    using p(3) by (simp add: sent_def s1(7) s2(7))
  have u: "0 < sm_uid sim" using sim(1) by (simp add: good_def sim_ok_def)
  have "events_inv intr arr (ln_in s) xs (ts @ [p]) l' (sm_objs sim2) t"
    using events_sent [OF ev st p(1-5) _ _ u queued_uid [OF sim(1)] _ r(2)] tx(4) tm_p transit by blast
  moreover have "times_inv sz cf sp intr (ts @ [p]) (ln_out s) l' (sm_objs sim2) t"
    by (rule times_sent [OF tm idle u st p(1,4,3) _ r(2) g pa bound few r(5)]) simp
  moreover have "nx' x = ln_next s x" if "x \<in> set xs" for x using that r(4) pk(1) p(2) by auto
  then have "busy (nx', ln_queue s) xs" using i busy_links [of "ln_next s" "ln_queue s" xs nx'] by simp
  moreover have "same_link l0 l'" using i r(2) by (simp add: same_link_def)
  ultimately have "line_inv sz cf sp intr arr l0 q0 [] xs (ts @ [p]) s' (sm_objs sim2) t"
    using i r(3) u st by (simp add: line_inv_def s'_def packets_inv_def sent_def)
  moreover have "perform list_ops dadd [Schedule (Some ?h) p (dadd ?tx ?lat), Schedule (Some Resume) intr ?tx] (sim\<lparr>sm_app := s'\<rparr>) = Inr sim2"
    using s1(1) s2(1) by simp
  moreover have "line_send sz cf intr t p s = Some ([Schedule (Some ?h) p (dadd ?tx ?lat), Schedule (Some Resume) intr ?tx], s')"
    using r(1) p(6) by (simp add: line_send_def s'_def)
  moreover have "ln_in s' = ln_in s \<and> ln_queue s' = ln_queue s" by (simp add: s'_def)
  moreover have "acts_ok [Schedule (Some ?h) p (dadd ?tx ?lat), Schedule (Some Resume) intr ?tx]"
    using tx(2,3) by (simp add: acts_ok_def)
  ultimately show ?thesis using s2(2-6) by blast
qed

text \<open>What is to be done: at most three events for each packet.\<close>

definition line_work :: "nat list \<Rightarrow> nat list \<Rightarrow> nat list \<Rightarrow> 'a queue_base_scheme line \<Rightarrow> nat" where
  "line_work arr xs ts s =
    3 * length (filter (\<lambda>a. a \<notin> set (ln_in s)) arr) + 2 * length xs + length ts + (if blocked (ln_queue s) then 1 else 0)"

lemma arrive_law:
  assumes inv: "line_inv sz cf sp intr arr l0 q0 [] xs ts s objs t" and tk: "taken a objs objs1 t t1" and h: "ev_handler (objs a) = To_Queue"
    and arr: "intr \<notin> set arr" "0 \<notin> set arr" and g: "link_good sz cf arr sp"
  shows "\<exists>p ds nx q xs'. queue_recv enq deq t1 a (ln_next s, ln_queue s) = Some (p, ds, nx, q)
    \<and> (let s1 = s\<lparr>ln_next := nx, ln_queue := q, ln_in := ln_in s @ [a], ln_dropped := ln_dropped s @ ds\<rparr>
       in line_inv sz cf sp intr arr l0 q0 (if p = 0 then [] else [p]) xs' ts s1 objs1 t1
         \<and> line_work arr xs' ts s1 + (if p = 0 then 0 else 1) < line_work arr xs ts s)"
proof -
  note i = inv [unfolded line_inv_def append_Nil]
  have ev: "events_inv intr arr (ln_in s) xs ts (ln_link s) objs t" and pi: "packets_inv intr arr s ts xs"
    and tm: "times_inv sz cf sp intr ts (ln_out s) (ln_link s) objs t" using i by blast+
  have "event_ok intr arr (ln_in s) ts (ln_link s) a To_Queue" and tt: "t \<le> t1"
    using ev tk h unfolding events_inv_def taken_def by metis+
  then have a: "a \<noteq> intr" "a \<notin> set ts" "a \<in> set arr" "a \<notin> set (ln_in s)" "a \<noteq> 0"
    using arr by (auto simp: event_ok_def split: if_splits intro!: gr0I)
  have pk: "distinct (ts @ xs)" "set (ts @ xs) \<subseteq> set (ln_in s)" using packets_distinct [OF pi] by blast+
  then have ax: "a \<notin> set xs" using a(4) by auto
  have "busy (ln_next s, ln_queue s) xs" using i by blast
  from queue_recv_law [OF this ax a(5), of t1] obtain p ds nx q xs' where
    r: "queue_recv enq deq t1 a (ln_next s, ln_queue s) = Some (p, ds, nx, q)" "busy (nx, q) xs'"
      "if p = 0 then xs' = kept_from ds (xs @ [a]) \<and> blocked q = blocked (ln_queue s)
       else p = a \<and> ds = [] \<and> xs = [] \<and> xs' = [] \<and> \<not> blocked (ln_queue s) \<and> blocked q"
      "set ds \<subseteq> set (xs @ [a])" "\<forall>y. y \<notin> set (a # xs) \<longrightarrow> nx y = ln_next s y"
      "room q = room (ln_queue s)" "room (ln_queue s) (length xs) \<longrightarrow> ds = []" by blast
  define cur where "cur = (if p = 0 then [] else [p])"
  have c: "cur @ xs' = kept_from ds (xs @ [a])" using r(3) a(5) by (auto simp: cur_def kept_from_def split: if_splits)
  define s1 where "s1 = s\<lparr>ln_next := nx, ln_queue := q, ln_in := ln_in s @ [a], ln_dropped := ln_dropped s @ ds\<rparr>"
  have "set (cur @ xs') \<subseteq> insert a (set xs)" unfolding c kept_from_def by auto
  from events_arrive [OF ev tk a(1,2) this]
  have "events_inv intr arr (ln_in s1) (cur @ xs') ts (ln_link s1) objs1 t1" by (simp add: s1_def)
  moreover have o1: "objs1 intr = objs intr" "map objs1 ts = map objs ts"
    using taken_simps(2) [OF tk] a(1,2) by (simp, intro map_cong refl) metis
  have "times_inv sz cf sp intr ts (ln_out s) (ln_link s) objs1 t1"
    by (rule times_later [OF tm out_and_transit_cong [OF o1(2)] refl _ tt taken_kept [OF tk]])
      (use tt o1(1) in \<open>simp add: free_at_def\<close>)
  then have "times_inv sz cf sp intr ts (ln_out s1) (ln_link s1) objs1 t1" by (simp add: s1_def)
  moreover have "packets_inv intr arr s1 ts (cur @ xs')"
    using pi a(3,4) r(4) kept_from_extend [of "map fst (ln_out s) @ ts" xs "ln_dropped s" "ln_in s" a ds] pk
    unfolding c packets_inv_def by (auto simp: s1_def)
  moreover have "transit_holds sz nx (ln_link s) ts"
  proof -
    have "nx y = ln_next s y" if "y \<in> set ts" for y using that r(5) a(2) pk(1) by auto
    then show ?thesis using i in_queue_cong [of sz "ln_next s" _ ts nx] unfolding transit_holds_def by blast
  qed
  moreover have "t1 \<le> sent_until sp (length (ln_out s1) + length ts)"
  proof -
    have "t1 \<le> last_arrival sp" using i tk h by (simp add: times_inv_def taken_def)
    moreover have "0 \<le> 2 * real (length (ln_out s1) + length ts) * longest sp"
      using longest_nonneg [OF g a(3)] by (intro mult_nonneg_nonneg) simp_all
    ultimately show ?thesis unfolding sent_until_def by linarith
  qed
  moreover have "length xs < length arr"
  proof -
    have "distinct (a # xs)" "set (a # xs) \<subseteq> set arr" using pk ax a(3) packets_distinct [OF pi] by auto
    then have "length (a # xs) \<le> card (set arr)" by (metis List.finite_set card_mono distinct_card)
    then show ?thesis using card_length [of arr] by simp
  qed
  ultimately have "line_inv sz cf sp intr arr l0 q0 cur xs' ts s1 objs1 t1"
    using i r(2,3,6,7) o1(1) by (auto simp: line_inv_def s1_def cur_def split: if_splits)
  moreover have "line_work arr xs' ts s1 + (if p = 0 then 0 else 1) < line_work arr xs ts s"
  proof -
    have "length xs' \<le> length xs + 1" using r(3) by (auto simp: kept_from_def intro: order_trans [OF length_filter_le] split: if_splits)
    with fewer_to_come [OF a(3,4)] r(3) show ?thesis by (auto simp: line_work_def s1_def split: if_splits)
  qed
  ultimately show ?thesis using r(1) by (auto simp: Let_def cur_def s1_def)
qed

lemma resume_law:
  assumes inv: "line_inv sz cf sp intr arr l0 q0 [] xs ts s objs t" and tk: "taken a objs objs1 t t1" and h: "ev_handler (objs a) = Resume"
    and arr: "intr \<notin> set arr" "0 \<notin> set arr"
  shows "\<exists>p nx q xs'. queue_resume deq t1 (ln_next s, ln_queue s) = Some (p, nx, q)
    \<and> (let s1 = s\<lparr>ln_next := nx, ln_queue := q\<rparr>
       in line_inv sz cf sp intr arr l0 q0 (if p = 0 then [] else [p]) xs' ts s1 objs1 t1
         \<and> line_work arr xs' ts s1 + (if p = 0 then 0 else 1) < line_work arr xs ts s)"
proof -
  note i = inv [unfolded line_inv_def append_Nil]
  have ev: "events_inv intr arr (ln_in s) xs ts (ln_link s) objs t" and pi: "packets_inv intr arr s ts xs"
    and tm: "times_inv sz cf sp intr ts (ln_out s) (ln_link s) objs t" using i by blast+
  have "event_ok intr arr (ln_in s) ts (ln_link s) a Resume" and tt: "t \<le> t1"
    using ev tk h unfolding events_inv_def taken_def by metis+
  then have a: "a = intr" by (auto simp: event_ok_def split: if_splits)
  note tk = tk [unfolded a]
  have pk: "distinct (ts @ xs)" "set (ts @ xs) \<subseteq> set arr" using packets_distinct [OF pi] by auto
  then have it: "intr \<notin> set ts" "intr \<notin> set xs" using arr by auto
  have b: "blocked (ln_queue s)" "busy (ln_next s, ln_queue s) xs" using i tk by (auto simp: taken_def)
  from queue_resume_law [OF b(2,1), of t1] obtain q where
    r: "queue_resume deq t1 (ln_next s, ln_queue s) = Some (if xs = [] then 0 else hd xs, ln_next s, q)"
      "busy (ln_next s, q) (tl xs)" "blocked q \<longleftrightarrow> xs \<noteq> []"
      "room q = room (ln_queue s)" by blast
  define p where "p = (if xs = [] then 0 else hd xs)"
  define s1 where "s1 = s\<lparr>ln_next := ln_next s, ln_queue := q\<rparr>"
  define cur where "cur = (if p = 0 then [] else [p])"
  have "0 \<notin> set xs" using holds_law b(2) unfolding busy_def by blast
  then have p0: "p = 0 \<longleftrightarrow> xs = []" by (cases xs) (auto simp: p_def)
  have c: "cur @ tl xs = xs" by (cases xs) (use p0 in \<open>auto simp: cur_def p_def\<close>)
  from events_resume [OF ev tk arr(1) it(1), of xs]
  have "events_inv intr arr (ln_in s1) (cur @ tl xs) ts (ln_link s1) objs1 t1" unfolding c by (simp add: s1_def)
  moreover have o1: "map objs1 ts = map objs ts" using taken_simps(2) [OF tk] it(1) by (intro map_cong refl) metis
  have idle: "ev_uid (objs1 intr) \<le> 0" using taken_simps(1) [OF tk] .
  have "times_inv sz cf sp intr ts (ln_out s) (ln_link s) objs1 t1"
    by (rule times_later [OF tm out_and_transit_cong [OF o1] refl _ tt taken_kept [OF tk]])
      (use tk tt idle in \<open>simp add: free_at_def taken_def\<close>)
  then have "times_inv sz cf sp intr ts (ln_out s1) (ln_link s1) objs1 t1" by (simp add: s1_def)
  moreover have "packets_inv intr arr s1 ts (cur @ tl xs)" using pi unfolding c by (simp add: packets_inv_def s1_def)
  moreover have "t1 \<le> sent_until sp (length (ln_out s1) + length ts)"
    using i tk by (simp add: times_inv_def taken_def s1_def)
  ultimately have "line_inv sz cf sp intr arr l0 q0 cur (tl xs) ts s1 objs1 t1"
    using i r(2-4) idle p0 by (auto simp: line_inv_def s1_def cur_def)
  moreover have "line_work arr (tl xs) ts s1 + (if p = 0 then 0 else 1) < line_work arr xs ts s"
    using b(1) r(3) p0 by (cases xs) (auto simp: line_work_def s1_def)
  ultimately show ?thesis using r(1) by (auto simp: Let_def cur_def s1_def p_def)
qed

lemma deliver_law:
  assumes inv: "line_inv sz cf sp intr arr l0 q0 [] xs ts s objs t" and tk: "taken a objs objs1 t t1"
    and h: "ev_handler (objs a) = To_Link \<or> ev_handler (objs a) = To_Target" and arr: "intr \<notin> set arr"
  shows "\<exists>nx l ts'. (if ev_handler (objs a) = To_Link then link_handle sz t1 objs1 (ln_next s, ln_link s) = Some (a, nx, l)
      else nx = ln_next s \<and> l = ln_link s)
    \<and> (let s1 = s\<lparr>ln_next := nx, ln_link := l, ln_out := ln_out s @ [(a, t1)]\<rparr>
       in line_inv sz cf sp intr arr l0 q0 [] xs ts' s1 objs1 t1 \<and> line_work arr xs ts' s1 < line_work arr xs ts s)"
proof -
  note i = inv [unfolded line_inv_def append_Nil]
  have ev: "events_inv intr arr (ln_in s) xs ts (ln_link s) objs t" and pi: "packets_inv intr arr s ts xs"
    and tm: "times_inv sz cf sp intr ts (ln_out s) (ln_link s) objs t" using i by blast+
  have ok: "event_ok intr arr (ln_in s) ts (ln_link s) a (ev_handler (objs a))" and tt: "t \<le> t1"
    using ev tk unfolding events_inv_def taken_def by blast+
  then have a: "a \<in> set ts" "a \<noteq> intr" "ev_handler (objs a) = To_Link \<longleftrightarrow> dynamic (ln_link s)"
    using h by (auto simp: event_ok_def split: if_splits)
  obtain b ts' where ts: "ts = b # ts'" using a(1) by (cases ts) auto
  have "a = b"
  proof (rule ccontr)
    assume n: "a \<noteq> b"
    then have "ev_less (objs b) (objs a)" using ev a(1) ts by (auto simp: events_inv_def)
    moreover have "0 < ev_uid (objs b)" using ev ts by (simp add: events_inv_def)
    then have "ev_less (objs a) (objs b)" using tk n by (simp add: taken_def)
    ultimately show False by (auto simp: ev_less_def)
  qed
  note ts = ts [folded this]
  have pk: "distinct (a # ts' @ xs)" "set (a # ts') \<subseteq> set (ln_in s)" using packets_distinct [OF pi] ts by auto
  have t1: "ev_time (objs1 a) = t1" using tk by (simp add: taken_def cancelled_def)
  obtain nx l where l: "if ev_handler (objs a) = To_Link then link_handle sz t1 objs1 (ln_next s, ln_link s) = Some (a, nx, l)
      else nx = ln_next s \<and> l = ln_link s" "transit_holds sz nx l ts'" "same_link (ln_link s) l"
    "latest_time l = latest_time (ln_link s)" "nx = ln_next s"
  proof (cases "dynamic (ln_link s)")
    case True
    then obtain iq where iq: "itq (ln_link s) = Some iq" "in_queue sz (ln_next s, iq) (a # ts')"
      using i ts by (auto simp: transit_holds_def)
    from pq_deque_law [OF iq(2)] obtain iq' where d: "pq_deque sz (ln_next s, iq) = (a, ln_next s, iq')" "in_queue sz (ln_next s, iq') ts'" by blast
    moreover have "a \<noteq> 0" using in_queue_facts [OF iq(2)] by auto
    ultimately have "link_handle sz t1 objs1 (ln_next s, ln_link s) = Some (a, ln_next s, (ln_link s)\<lparr>itq := Some iq'\<rparr>)"
      using iq(1) t1 by (simp add: link_handle_def)
    with d(2) True a(3) show ?thesis by (intro that [of "ln_next s" "(ln_link s)\<lparr>itq := Some iq'\<rparr>"]) (simp_all add: transit_holds_def same_link_def)
  next
    case False
    with a(3) show ?thesis by (intro that [of "ln_next s" "ln_link s"]) (simp_all add: transit_holds_def same_link_def)
  qed
  define s1 where "s1 = s\<lparr>ln_next := nx, ln_link := l, ln_out := ln_out s @ [(a, t1)]\<rparr>"
  have dy: "event_ok i r e u l b k = event_ok i r e u (ln_link s) b k" for i r e u b k
    using l(3) by (auto simp: event_ok_def same_link_def)
  have "events_inv intr arr (ln_in s) xs ts' (ln_link s) objs1 t1"
    using events_deliver [OF ev [unfolded ts] tk a(2)] pk by auto
  then have "events_inv intr arr (ln_in s1) xs ts' (ln_link s1) objs1 t1" unfolding events_inv_def dy by (simp add: s1_def dy)
  moreover have "a \<notin> set ts'" using pk(1) by simp
  then have o1: "map objs1 ts' = map objs ts'" using taken_simps(2) [OF tk] by (intro map_cong refl) metis
  have "out_and_transit objs1 (ln_out s @ [(a, t1)]) ts' = out_and_transit objs (ln_out s) ts"
    using o1 tk ts by (simp add: out_and_transit_def taken_def)
  then have "times_inv sz cf sp intr ts' (ln_out s @ [(a, t1)]) (ln_link s) objs1 t1"
    by (rule times_later [OF tm _ _ _ tt taken_kept [OF tk]])
      (use tt taken_simps(2) [OF tk, of intr] a(2) ts in \<open>simp_all add: free_at_def\<close>)
  then have "times_inv sz cf sp intr ts' (ln_out s1) (ln_link s1) objs1 t1"
    using l(4) by (simp add: times_inv_def s1_def)
  moreover have "packets_inv intr arr s1 ts' xs" using pi ts by (simp add: packets_inv_def s1_def)
  ultimately have "line_inv sz cf sp intr arr l0 q0 [] xs ts' s1 objs1 t1"
    using i l(2,3,5) taken_simps(2) [OF tk, of intr] a(2) by (simp add: line_inv_def s1_def same_link_def)
  moreover have "line_work arr xs ts' s1 < line_work arr xs ts s" using ts by (simp add: line_work_def s1_def)
  ultimately show ?thesis using l(1) unfolding Let_def s1_def by blast
qed

section \<open>Runs\<close>

definition line_state ::
  "(nat \<Rightarrow> int) \<Rightarrow> link_conf \<Rightarrow> scale \<Rightarrow> nat \<Rightarrow> nat list \<Rightarrow> link_delay \<Rightarrow> 'a queue_base_scheme \<Rightarrow> nat
    \<Rightarrow> (real, link_handler, (real, link_handler) event list, 'a queue_base_scheme line) sim \<Rightarrow> bool" where
  "line_state sz cf sp intr arr l0 q0 n sim \<longleftrightarrow> list_good sim \<and> \<not> sm_halted sim
    \<and> (\<exists>xs ts. line_inv sz cf sp intr arr l0 q0 [] xs ts (sm_app sim) (sm_objs sim) (sm_clock sim) \<and> line_work arr xs ts (sm_app sim) = n)"

lemma line_finish:
  assumes inv: "line_inv sz cf sp intr arr l0 q0 (if p = 0 then [] else [p]) xs ts s (sm_objs sim) (sm_clock sim)"
    and w: "line_work arr xs ts s + (if p = 0 then 0 else 1) < n" and g: "link_good sz cf arr sp"
    and arr: "intr \<notin> set arr" "0 \<notin> set arr" and sim: "list_good sim" "\<not> sm_halted sim" "sm_uid sim + 2 < 2 ^ 63"
  shows "\<exists>acts s' sim' m. line_send sz cf intr (sm_clock sim) p s = Some (acts, s')
    \<and> perform list_ops dadd acts (sim\<lparr>sm_app := s'\<rparr>) = Inr sim' \<and> line_state sz cf sp intr arr l0 q0 m sim' \<and> m < n
    \<and> sm_uid sim' \<le> sm_uid sim + 2 \<and> acts_ok acts"
proof (cases "p = 0")
  case True
  then have "line_send sz cf intr (sm_clock sim) p s = Some ([], s)" by (simp add: line_send_def)
  moreover have "list_good (sim\<lparr>sm_app := s\<rparr>)" using sim(1) by (simp add: good_def sim_ok_def)
  then have "line_state sz cf sp intr arr l0 q0 (line_work arr xs ts s) (sim\<lparr>sm_app := s\<rparr>)"
    using inv True sim(2) by (auto simp: line_state_def)
  moreover have "acts_ok ([] :: (real, link_handler) act list)" by (simp add: acts_ok_def)
  ultimately show ?thesis using w True by (intro exI conjI) (assumption | simp)+
next
  case False
  with inv have "line_inv sz cf sp intr arr l0 q0 [p] xs ts s (sm_objs sim) (sm_clock sim)" by simp
  from line_send_law [OF this g arr sim(1) refl sim(3)] obtain acts s' sim' where
    r: "line_send sz cf intr (sm_clock sim) p s = Some (acts, s')" "perform list_ops dadd acts (sim\<lparr>sm_app := s'\<rparr>) = Inr sim'"
      "list_good sim'" "sm_clock sim' = sm_clock sim" "sm_halted sim' = sm_halted sim" "sm_app sim' = s'"
      "sm_uid sim' = sm_uid sim + 2" "line_inv sz cf sp intr arr l0 q0 [] xs (ts @ [p]) s' (sm_objs sim') (sm_clock sim)"
      "ln_in s' = ln_in s" "ln_queue s' = ln_queue s" "acts_ok acts" by blast
  have "line_state sz cf sp intr arr l0 q0 (line_work arr xs (ts @ [p]) s') sim'" using r sim(2) by (auto simp: line_state_def)
  moreover have "line_work arr xs (ts @ [p]) s' < n" using w False r(9,10) by (simp add: line_work_def)
  ultimately show ?thesis using r(1,2,7,11) by (intro exI conjI) simp_all+
qed

lemma line_pass:
  assumes st: "line_state sz cf sp intr arr l0 q0 n sim" and g: "link_good sz cf arr sp" and arr: "intr \<notin> set arr" "0 \<notin> set arr"
    and uid: "sm_uid sim + 2 < 2 ^ 63" and q: "sm_queue sim = e # es"
  shows "\<exists>sim' m. run_pass list_ops dadd (checked (line_handle enq deq sz cf intr)) sim = Inr (Some e, sim')
    \<and> line_state sz cf sp intr arr l0 q0 m sim' \<and> m < n \<and> sm_uid sim' \<le> sm_uid sim + 2"
proof -
  obtain xs ts where gd: "list_good sim" and h: "\<not> sm_halted sim"
    and inv: "line_inv sz cf sp intr arr l0 q0 [] xs ts (sm_app sim) (sm_objs sim) (sm_clock sim)" and n: "line_work arr xs ts (sm_app sim) = n"
    using st by (auto simp: line_state_def)
  let ?a = "ev_addr e" and ?t = "ev_time e" and ?s = "sm_app sim"
  define sim1 where "sim1 = sim\<lparr>sm_queue := es, sm_clock := ?t, sm_objs := (sm_objs sim)(?a := cancelled e)\<rparr>"
  note lt = list_take [OF gd q]
  have tk: "taken ?a (sm_objs sim) (sm_objs sim1) (sm_clock sim) ?t" using lt by (simp add: taken_def sim1_def)
  have e: "sm_objs sim ?a = e" using lt by blast
  have s1: "list_good sim1" "\<not> sm_halted sim1" "sm_uid sim1 + 2 < 2 ^ 63" "sm_clock sim1 = ?t" "sm_uid sim1 = sm_uid sim"
    using lt h uid by (simp_all add: sim1_def)
  note fin = line_finish [OF _ _ g arr s1(1-3), unfolded s1(4,5)]
  have "\<exists>acts s' sim' m. line_handle enq deq sz cf intr (ev_handler e) ?a ?t (sm_objs sim1) ?s = Some (acts, s')
    \<and> perform list_ops dadd acts (sim1\<lparr>sm_app := s'\<rparr>) = Inr sim' \<and> line_state sz cf sp intr arr l0 q0 m sim' \<and> m < n \<and> sm_uid sim' \<le> sm_uid sim + 2
    \<and> acts_ok acts"
  proof (cases "ev_handler e")
    case To_Queue
    from arrive_law [OF inv tk _ arr g] To_Queue e obtain p ds nx q xs' where
      r: "queue_recv enq deq ?t ?a (ln_next ?s, ln_queue ?s) = Some (p, ds, nx, q)"
      "line_inv sz cf sp intr arr l0 q0 (if p = 0 then [] else [p]) xs' ts
        (?s\<lparr>ln_next := nx, ln_queue := q, ln_in := ln_in ?s @ [?a], ln_dropped := ln_dropped ?s @ ds\<rparr>) (sm_objs sim1) ?t"
      "line_work arr xs' ts (?s\<lparr>ln_next := nx, ln_queue := q, ln_in := ln_in ?s @ [?a], ln_dropped := ln_dropped ?s @ ds\<rparr>)
        + (if p = 0 then 0 else 1) < n" unfolding n Let_def by auto
    from fin [OF r(2,3)] To_Queue r(1) show ?thesis by (auto simp: line_handle_def)
  next
    case Resume
    from resume_law [OF inv tk _ arr] Resume e obtain p nx q xs' where
      r: "queue_resume deq ?t (ln_next ?s, ln_queue ?s) = Some (p, nx, q)"
      "line_inv sz cf sp intr arr l0 q0 (if p = 0 then [] else [p]) xs' ts (?s\<lparr>ln_next := nx, ln_queue := q\<rparr>) (sm_objs sim1) ?t"
      "line_work arr xs' ts (?s\<lparr>ln_next := nx, ln_queue := q\<rparr>) + (if p = 0 then 0 else 1) < n" unfolding n Let_def by auto
    from fin [OF r(2,3)] Resume r(1) show ?thesis by (auto simp: line_handle_def)
  next
    case To_Link
    from deliver_law [OF inv tk _ arr(1)] To_Link e obtain nx l ts' where
      r: "link_handle sz ?t (sm_objs sim1) (ln_next ?s, ln_link ?s) = Some (?a, nx, l)"
      "line_inv sz cf sp intr arr l0 q0 (if 0 = (0 :: nat) then [] else [0]) xs ts' (?s\<lparr>ln_next := nx, ln_link := l, ln_out := ln_out ?s @ [(?a, ?t)]\<rparr>)
        (sm_objs sim1) ?t"
      "line_work arr xs ts' (?s\<lparr>ln_next := nx, ln_link := l, ln_out := ln_out ?s @ [(?a, ?t)]\<rparr>) + (if 0 = (0 :: nat) then 0 else 1) < n"
      unfolding n Let_def by auto
    from fin [OF r(2,3)] To_Link r(1) show ?thesis by (auto simp: line_handle_def line_send_def)
  next
    case To_Target
    from deliver_law [OF inv tk _ arr(1)] To_Target e obtain ts' where
      r: "line_inv sz cf sp intr arr l0 q0 (if 0 = (0 :: nat) then [] else [0]) xs ts' (?s\<lparr>ln_out := ln_out ?s @ [(?a, ?t)]\<rparr>) (sm_objs sim1) ?t"
      "line_work arr xs ts' (?s\<lparr>ln_out := ln_out ?s @ [(?a, ?t)]\<rparr>) + (if 0 = (0 :: nat) then 0 else 1) < n"
      unfolding n Let_def by auto
    from fin [OF r] To_Target show ?thesis by (auto simp: line_handle_def line_send_def)
  qed
  moreover have "so_deque list_ops (sm_queue sim) = Some (Some e, es)" by (simp add: list_ops_def q)
  ultimately show ?thesis using h unfolding run_pass_def dispatch_def sim1_def checked_def by (auto simp: Let_def)
qed

end

end
