(* ===== verification/Link_Properties.thy ===== *)
theory Link_Properties
  imports Link_Run
begin

text \<open>
  Whole simulations of a drop-tail queue and a link: the packets come in by events of the script, the calendar queue is the
  scheduler. What holds for every discipline is proved in \<open>fifo_discipline\<close>, and then used for \<open>DropTail\<close>.
\<close>

section \<open>From the script to the end\<close>

definition arrivals :: "(nat \<times> real) list \<Rightarrow> (real, link_handler) act list" where
  "arrivals = map (\<lambda>(a, d). Schedule (Some To_Queue) a d)"

definition scheduled :: "real \<Rightarrow> nat set \<Rightarrow> 's \<Rightarrow> (real, link_handler, (real, link_handler) event list, 's) sim \<Rightarrow> bool" where
  "scheduled b A app sim \<longleftrightarrow> list_good sim \<and> \<not> sm_halted sim \<and> sm_clock sim = 0 \<and> sm_app sim = app
    \<and> (\<forall>a. 0 < ev_uid (sm_objs sim a) \<longleftrightarrow> a \<in> A)
    \<and> (\<forall>a \<in> A. ev_handler (sm_objs sim a) = To_Queue \<and> 0 \<le> ev_time (sm_objs sim a) \<and> ev_time (sm_objs sim a) \<le> b)"

lemma arrivals_scheduled:
  assumes "scheduled b A app sim" and "distinct (map fst arrs)" and "fst ` set arrs \<inter> A = {}" and "\<forall>(a, d) \<in> set arrs. 0 \<le> d \<and> d \<le> b"
    and "sm_uid sim + int (length arrs) < 2 ^ 63" and "is_double b"
  shows "\<exists>sim'. perform list_ops dadd (arrivals arrs) sim = Inr sim' \<and> scheduled b (A \<union> fst ` set arrs) app sim'
    \<and> sm_uid sim' = sm_uid sim + int (length arrs)"
  using assms
proof (induction arrs arbitrary: A sim)
  case Nil
  then show ?case by (simp add: arrivals_def)
next
  case (Cons ad arrs)
  obtain a d where ad: "ad = (a, d)" by (cases ad)
  have s: "list_good sim" "sm_clock sim = 0" "\<not> 0 < ev_uid (sm_objs sim a)" "0 < sm_uid sim" "0 \<le> d" "d \<le> b"
    using Cons.prems ad by (auto simp: scheduled_def good_def sim_ok_def)
  from list_schedule [OF s(1), of a dadd To_Queue d] s(3) Cons.prems(5) obtain sim1 where
    s1: "do_act list_ops dadd (Schedule (Some To_Queue) a d) sim = Inr sim1" "list_good sim1" "sm_uid sim1 = sm_uid sim + 1"
      "sm_clock sim1 = sm_clock sim" "sm_halted sim1 = sm_halted sim" "sm_app sim1 = sm_app sim"
      "sm_objs sim1 = (sm_objs sim)(a := (sm_objs sim a)\<lparr>ev_uid := sm_uid sim, ev_handler := To_Queue, ev_time := dadd (sm_clock sim) d\<rparr>)"
    by auto
  have "0 \<le> dadd 0 d" "dadd 0 d \<le> b" using s(5,6) Cons.prems(6) by (simp_all add: dadd_def dbl_sgn dbl_le)
  then have "scheduled b (insert a A) app sim1" using Cons.prems(1) s s1(2,4-7) by (auto simp: scheduled_def)
  from Cons.IH [OF this] Cons.prems ad s1(1,3) show ?case by (auto simp: arrivals_def)
qed

lemma new_sim_scheduled:
  fixes app :: 's
  shows "scheduled b {} app (new_sim 0 [] h app)"
proof -
  obtain s0 :: "(real, link_handler, (real, link_handler) event list, 's) sim" where e: "s0 = new_sim 0 [] h app" by blast
  have "list_good s0" unfolding e by (rule list_queue.new_sim_good) simp
  then show ?thesis by (simp add: scheduled_def e [symmetric]) (simp add: e new_sim_def)
qed

text \<open>
  How a run stands: what came and was not dropped has gone on in the order of arrival, but for a rest that is still on the
  way. At the end there is no rest, and every packet came.
\<close>

definition line_result :: "(nat \<Rightarrow> int) \<Rightarrow> link_conf \<Rightarrow> scale \<Rightarrow> nat list \<Rightarrow> bool \<Rightarrow> 'q line \<Rightarrow> bool" where
  "line_result sz cf sp arr fin s \<longleftrightarrow>
    (\<exists>rest. map fst (ln_out s) @ rest = kept_from (ln_dropped s) (ln_in s) \<and> (fin \<longrightarrow> rest = []))
    \<and> distinct (ln_in s) \<and> set (ln_in s) \<subseteq> set arr \<and> (fin \<longrightarrow> set (ln_in s) = set arr)
    \<and> set (ln_dropped s) \<subseteq> set (ln_in s) \<and> spaced sz cf sp (ln_out s)"

context fifo_discipline
begin

lemma line_state_result:
  assumes "line_state sz cf sp intr arr l0 q0 n sim" and "fin \<longrightarrow> sm_queue sim = []"
  shows "line_result sz cf sp arr fin (sm_app sim) \<and> ((\<forall>n < length arr. room q0 n) \<longrightarrow> ln_dropped (sm_app sim) = [])"
proof -
  obtain xs ts where inv: "line_inv sz cf sp intr arr l0 q0 [] xs ts (sm_app sim) (sm_objs sim) (sm_clock sim)" and g: "list_good sim"
    using assms(1) by (auto simp: line_state_def)
  let ?s = "sm_app sim" and ?o = "sm_objs sim"
  have pi: "packets_inv intr arr ?s ts xs" and b: "busy (ln_next ?s, ln_queue ?s) xs" "blocked (ln_queue ?s) \<longleftrightarrow> 0 < ev_uid (?o intr)"
    and ev: "events_inv intr arr (ln_in ?s) xs ts (ln_link ?s) ?o (sm_clock sim)"
    and tm: "times_inv sz cf sp intr ts (ln_out ?s) (ln_link ?s) ?o (sm_clock sim)"
    and dr: "(\<forall>n < length arr. room q0 n) \<longrightarrow> ln_dropped ?s = []"
    using inv by (simp_all add: line_inv_def)
  have empty: "ts = []" "xs = []" "set arr \<subseteq> set (ln_in ?s)" if fin
  proof -
    have "queued ?o = {}" using g assms(2) that by (auto simp: good_def sim_ok_def)
    moreover have "ev_addr (?o a) = a" for a using g by (simp add: good_def sim_ok_def)
    ultimately have z: "\<not> 0 < ev_uid (?o a)" for a by (auto simp: queued_def)
    show "ts = []" using ev z by (cases ts) (auto simp: events_inv_def)
    show "xs = []" using b z by (auto simp: busy_def)
    show "set arr \<subseteq> set (ln_in ?s)" using ev z by (auto simp: events_inv_def)
  qed
  have "spaced sz cf sp (ln_out ?s)" using tm by (auto simp: times_inv_def spaced_def out_and_transit_def sorted_wrt_append)
  moreover have "map fst (ln_out ?s) @ (ts @ xs) = kept_from (ln_dropped ?s) (ln_in ?s)" using pi by (simp add: packets_inv_def)
  then have "\<exists>rest. map fst (ln_out ?s) @ rest = kept_from (ln_dropped ?s) (ln_in ?s) \<and> (fin \<longrightarrow> rest = [])"
    using empty(1,2) by blast
  ultimately show ?thesis using pi empty(3) dr unfolding line_result_def packets_inv_def by blast
qed

lemma line_run:
  assumes "line_state sz cf sp intr arr l0 q0 n sim" and g: "link_good sz cf arr sp" and arr: "intr \<notin> set arr" "0 \<notin> set arr"
    and "sm_uid sim + int (2 * k) < 2 ^ 63"
  shows "\<exists>es fin sim'. run_for list_ops dadd (checked (line_handle enq deq sz cf intr)) k sim = Inr (es, fin, sim')
    \<and> line_result sz cf sp arr fin (sm_app sim') \<and> (n < k \<longrightarrow> fin)
    \<and> ((\<forall>n < length arr. room q0 n) \<longrightarrow> ln_dropped (sm_app sim') = [])"
  using assms(1,5)
proof (induction k arbitrary: sim n)
  case 0
  from line_state_result [OF this(1), of False] show ?case by auto
next
  case (Suc k)
  let ?h = "checked (line_handle enq deq sz cf intr)"
  show ?case
  proof (cases "sm_queue sim")
    case Nil
    then have "run_pass list_ops dadd ?h sim = Inr (None, sim)" 
      using Suc.prems(1) by (simp add: run_pass_def list_ops_def line_state_def)
    with line_state_result [OF Suc.prems(1), of True] Nil show ?thesis by auto
  next
    case (Cons e es)
    from line_pass [OF Suc.prems(1) g arr _ Cons] Suc.prems(2) obtain sim1 m where
      s1: "run_pass list_ops dadd ?h sim = Inr (Some e, sim1)" "line_state sz cf sp intr arr l0 q0 m sim1" "m < n"
        "sm_uid sim1 \<le> sm_uid sim + 2" by auto
    from Suc.IH [OF s1(2)] Suc.prems(2) s1(4) obtain es' fin sim' where
      "run_for list_ops dadd ?h k sim1 = Inr (es', fin, sim')" "line_result sz cf sp arr fin (sm_app sim')" "m < k \<longrightarrow> fin"
      "(\<forall>n < length arr. room q0 n) \<longrightarrow> ln_dropped (sm_app sim') = []" by auto
    with s1(1,3) show ?thesis by (intro exI [of _ "e # es'"] exI [of _ fin] exI [of _ sim']) auto
  qed
qed

lemma line_simulate:
  assumes g: "link_good sz cf (map fst arrs) sp" and q: "busy (nx, q) []" "\<not> blocked q" and l: "transit_holds sz nx l []" "latest_time l \<le> 0"
    and arrs: "distinct (map fst arrs)" "\<forall>(a, d) \<in> set arrs. 0 \<le> d \<and> d \<le> last_arrival sp"
      "is_double (last_arrival sp)" "intr \<notin> fst ` set arrs" "0 \<notin> fst ` set arrs"
    and u: "1 + int (length arrs) + int (2 * k) < 2 ^ 63"
  shows "\<exists>es fin sim. simulate list_ops 0 dadd (checked (line_handle enq deq sz cf intr)) (arrivals arrs) k (new_sim 0 [] h (new_line nx q l))
      = Inr (es, fin, sim)
    \<and> line_result sz cf sp (map fst arrs) fin (sm_app sim) \<and> (3 * length arrs < k \<longrightarrow> fin)
    \<and> ((\<forall>n < length arrs. room q n) \<longrightarrow> ln_dropped (sm_app sim) = [])"
proof -
  let ?app = "new_line nx q l" and ?arr = "map fst arrs"
  obtain s0 where e: "s0 = new_sim (0 :: real) ([] :: (real, link_handler) event list) h ?app" by blast
  have "sm_uid s0 = 1" "scheduled (last_arrival sp) {} ?app s0" unfolding e by (simp_all add: new_sim_def new_sim_scheduled [unfolded new_sim_def])
  with arrivals_scheduled [OF _ arrs(1) _ arrs(2), of "{}" ?app s0] arrs(3) u obtain sim where
    s: "perform list_ops dadd (arrivals arrs) s0 = Inr sim" "scheduled (last_arrival sp) (fst ` set arrs) ?app sim"
      "sm_uid sim = 1 + int (length arrs)" by auto
  define o1 where "o1 = sm_objs sim"
  have o1: "0 < ev_uid (o1 a) \<longleftrightarrow> a \<in> set ?arr" "a \<in> set ?arr \<Longrightarrow> ev_handler (o1 a) = To_Queue \<and> 0 \<le> ev_time (o1 a) \<and> ev_time (o1 a) \<le> last_arrival sp" for a
    using s(2) by (auto simp: scheduled_def o1_def)
  have "events_inv intr ?arr [] [] [] l o1 0"
    unfolding events_inv_def event_ok_def using o1 arrs(4) by auto
  moreover have "times_inv sz cf sp intr [] [] l o1 0" using l(2) o1 arrs(4) by (simp add: times_inv_def out_and_transit_def spaced_def)
  moreover have "packets_inv intr ?arr ?app [] []" by (simp add: packets_inv_def new_line_def kept_from_def)
  moreover have "\<not> 0 < ev_uid (o1 intr)" using o1(1) arrs(4) by simp
  ultimately have "line_inv sz cf sp intr ?arr l q [] [] [] ?app o1 0"
    using q l(1) by (simp add: line_inv_def new_line_def same_link_def)
  moreover have r: "sched_reset 0 sim = sim" using s(2) by (simp add: sched_reset_def scheduled_def)
  ultimately have st: "line_state sz cf sp intr ?arr l q (line_work ?arr [] [] ?app) sim"
    using s(2) unfolding line_state_def scheduled_def o1_def by metis
  have "line_work ?arr [] [] ?app = 3 * length arrs" using q(2) by (simp add: line_work_def new_line_def)
  with line_run [OF st g _ _, of k] arrs(4,5) u s(1,3) r show ?thesis by (auto simp: simulate_def simp flip: e)
qed

end

section \<open>A drop-tail link on the calendar queue\<close>

text \<open>The check of \<open>checked\<close> never fails in a run that ends well, so the run is the same without it.\<close>

lemma checked_ok: "handlers_ok (\<lambda>d. 0 \<le> d) 2 (checked handle)"
  by (auto simp: handlers_ok_def checked_def acts_ok_def split: option.splits if_splits)

lemma checked_pass: "run_pass ops add (checked handle) s = Inr r \<Longrightarrow> run_pass ops add handle s = Inr r"
  by (auto simp: run_pass_def dispatch_def checked_def Let_def split: if_splits option.splits sum.splits prod.splits)

lemma checked_run: "run_for ops add (checked handle) k s = Inr r \<Longrightarrow> run_for ops add handle k s = Inr r"
proof (induction k arbitrary: s r)
  case (Suc k)
  obtain e s1 where p: "run_pass ops add (checked handle) s = Inr (e, s1)"
    using Suc.prems by (cases "run_pass ops add (checked handle) s") auto
  show ?case
  proof (cases e)
    case None
    with Suc.prems p checked_pass [OF p] show ?thesis by simp
  next
    case (Some e')
    with Suc.prems p obtain r1 where r1: "run_for ops add (checked handle) k s1 = Inr r1"
      by (cases "run_for ops add (checked handle) k s1") auto
    with Suc.prems p Some checked_pass [OF p] Suc.IH [OF r1] show ?thesis by simp
  qed
qed simp

lemma checked_simulate: "simulate ops t0 add (checked handle) script k s = Inr r \<Longrightarrow> simulate ops t0 add handle script k s = Inr r"
  by (auto simp: simulate_def dest: checked_run split: sum.splits)

text \<open>
  C18: A link hands on what it takes, in order, also when every time is rounded to a double. Packets come, until \<open>tlast\<close>, to
  a drop-tail queue in front of a link. No time of the run is beyond \<open>tmax\<close>: the times until \<open>tlast\<close>, the delay of
  the link, and for each packet twice the longest transmission time fit in it; and every transmission takes at least
  \<open>5 tmax / 2^53\<close>, five roundings of a time at \<open>tmax\<close> (without this the order can be lost, \<open>rounding_reorders\<close>). Then the simulation
  on the calendar queue never aborts and no assertion fails: no packet
  or \<open>intr_\<close> is scheduled twice, and the packets in transit of a dynamic link are the events that go off. The
  packets that go on are those that came less those that the queue dropped, in the order in which they came, each once, and
  each at least its transmission time after the one before, less at most five roundings. After \<open>3 n + 1\<close> events for \<open>n\<close>
  packets nothing is left on the way. With a limit of at least \<open>n + 2\<close> packets none is lost.
\<close>

theorem link_in_order:
  assumes g: "0 < bandwidth cf" "0 \<le> link_latency cf" "\<forall>p. 0 \<le> sz p"
    and times: "is_double tlast" "0 \<le> tlast" "0 \<le> tmax" "tlast + 2 * real (length arrs) * txmax + link_latency cf \<le> tmax"
      "\<forall>(a, d) \<in> set arrs. 0 \<le> d \<and> d \<le> tlast \<and> 5 * tmax / 2 ^ 53 \<le> txtime sz cf a \<and> txtime sz cf a \<le> txmax"
    and q: "dt_holds sz (nx, q) []" "stats_ok (qstats q)" "unblock_on_resume q" "\<not> blocked q"
    and l: "transit_holds sz nx l []" "latest_time l \<le> 0"
    and arrs: "distinct (map fst arrs)" "intr \<notin> fst ` set arrs" "0 \<notin> fst ` set arrs"
    and u: "1 + int (length arrs) + int (k * 2) < 2 ^ 63"
  shows "\<exists>es fin sim. simulate calendar_ops 0 dadd (line_handle (dt_enque sz) (dt_deque sz) sz cf intr) (arrivals arrs) k
        (new_sim 0 (new_calendar interval minw c0) h (new_line nx (q :: 'a drop_tail_scheme) l)) = Inr (es, fin, sim)
    \<and> line_result sz cf \<lparr> last_arrival = tlast, longest = txmax, horizon = tmax \<rparr> (map fst arrs) fin (sm_app sim)
    \<and> (3 * length arrs < k \<longrightarrow> fin)
    \<and> (\<not> qib q \<and> int (length arrs) + 2 \<le> qlim q \<longrightarrow> ln_dropped (sm_app sim) = [])"
proof -
  define sp where "sp = \<lparr> last_arrival = tlast, longest = txmax, horizon = tmax \<rparr>"
  have good: "link_good sz cf (map fst arrs) sp"
    using g(2) times by (auto simp: link_good_def slack_def sp_def)
  have late: "\<forall>(a, d) \<in> set arrs. 0 \<le> d \<and> d \<le> last_arrival sp" "is_double (last_arrival sp)" using times by (auto simp: sp_def)
  have "drop_tail.busy sz (nx, q) []" using q by (simp add: drop_tail.busy_def)
  from drop_tail.line_simulate [OF good this q(4) l arrs(1) late arrs(2,3), of k h] u obtain es fin sim where
    r: "simulate list_ops 0 dadd (checked (line_handle (dt_enque sz) (dt_deque sz) sz cf intr)) (arrivals arrs) k
        (new_sim 0 [] h (new_line nx q l)) = Inr (es, fin, sim)"
      "line_result sz cf sp (map fst arrs) fin (sm_app sim)" "3 * length arrs < k \<longrightarrow> fin"
      "(\<forall>n < length arrs. dt_room q n) \<longrightarrow> ln_dropped (sm_app sim) = []" by (auto simp: mult.commute)
  have uid: "1 + int (length (arrivals arrs)) + int (k * 2) < 2 ^ 63" using u by (simp add: arrivals_def)
  have script: "\<forall>act \<in> set (arrivals arrs). act_ok (\<lambda>d. 0 \<le> d) act" using late(1) by (auto simp: arrivals_def)
  have "\<forall>t d. 0 \<le> t \<longrightarrow> 0 \<le> d \<longrightarrow> 0 \<le> dadd t d" by (simp add: dadd_def dbl_sgn)
  from calendar_tracks_closed [OF checked_ok [of "line_handle (dt_enque sz) (dt_deque sz) sz cf intr"] script this uid,
      where interval = interval and minw = minw and h = h and app = "new_line nx q l" and ?c0.0 = c0] r(1)
  obtain sim' where
    "simulate calendar_ops 0 dadd (checked (line_handle (dt_enque sz) (dt_deque sz) sz cf intr)) (arrivals arrs) k
        (new_sim 0 (new_calendar interval minw c0) h (new_line nx q l)) = Inr (es, fin, sim')" "sim = view cal_abs sim'"
    by (auto split: sum.splits prod.splits)
  note checked_simulate [OF this(1)] this(2)
  moreover have "dt_room q n" if "\<not> qib q" "int (length arrs) + 2 \<le> qlim q" "n < length arrs" for n
    using that by (simp add: dt_room_def)
  ultimately show ?thesis using r(2-4) unfolding sp_def by auto
qed

text \<open>Two packets at once to an idle dynamic link with room for both.\<close>

definition sample_link :: link_delay where
  "sample_link = \<lparr> dynamic = True, latest_time = 0, itq = Some (new_packet_queue 0), avoidReordering = False \<rparr>"

theorem link_in_order_witness:
  "\<exists>es sim. simulate calendar_ops 0 dadd
        (line_handle (dt_enque (\<lambda>_. 1000)) (dt_deque (\<lambda>_. 1000)) (\<lambda>_. 1000) \<lparr> bandwidth = 8000, link_latency = 1 \<rparr> 9)
        (arrivals [(4, 2), (5, 2)]) 7
        (new_sim 0 (new_calendar 10 0 undefined) (\<lambda>_. To_Queue) (new_line id (sample_drop_tail 5) sample_link)) = Inr (es, True, sim)
    \<and> ln_dropped (sm_app sim) = [] \<and> map fst (ln_out (sm_app sim)) = ln_in (sm_app sim) \<and> set (ln_in (sm_app sim)) = {4, 5}"
proof -
  have q: "stats_ok (qstats (sample_drop_tail 5))" "unblock_on_resume (sample_drop_tail 5)" "\<not> blocked (sample_drop_tail 5)"
    "\<not> qib (sample_drop_tail 5)" "qlim (sample_drop_tail 5) = 5"
    by (simp_all add: sample_drop_tail_def sample_stats_def stats_ok_def)
  have l: "transit_holds (\<lambda>_. 1000) id sample_link []" "latest_time sample_link \<le> 0"
    by (simp_all add: sample_link_def transit_holds_def)
  have d: "is_double 2" by (rule is_doubleI [of _ 0 2]) simp_all
  have "dbl 8000 = 8000" using dbl_int [of 8000] by simp
  moreover have "dbl 1 = 1" using dbl_int [of 1] by simp
  ultimately have x: "txtime (\<lambda>_. 1000) \<lparr> bandwidth = 8000, link_latency = 1 \<rparr> p = 1" for p
    by (simp add: txtime_def dmul_def ddiv_def)
  have "\<exists>es fin sim. simulate calendar_ops 0 dadd
        (line_handle (dt_enque (\<lambda>_. 1000)) (dt_deque (\<lambda>_. 1000)) (\<lambda>_. 1000) \<lparr> bandwidth = 8000, link_latency = 1 \<rparr> 9)
        (arrivals [(4, 2), (5, 2)]) 7
        (new_sim 0 (new_calendar 10 0 undefined) (\<lambda>_. To_Queue) (new_line id (sample_drop_tail 5) sample_link)) = Inr (es, fin, sim)
    \<and> line_result (\<lambda>_. 1000) \<lparr> bandwidth = 8000, link_latency = 1 \<rparr> \<lparr> last_arrival = 2, longest = 1, horizon = 7 \<rparr>
        (map fst [(4, 2 :: real), (5, 2)]) fin (sm_app sim)
    \<and> (3 * length [(4 :: nat, 2 :: real), (5, 2)] < 7 \<longrightarrow> fin)
    \<and> (\<not> qib (sample_drop_tail 5) \<and> int (length [(4 :: nat, 2 :: real), (5, 2)]) + 2 \<le> qlim (sample_drop_tail 5)
        \<longrightarrow> ln_dropped (sm_app sim) = [])"
    by (rule link_in_order [OF _ _ _ d _ _ _ _ sample_drop_tail_holds q(1-3) l]) (simp_all add: x)
  then obtain es fin sim where
    r: "simulate calendar_ops 0 dadd
        (line_handle (dt_enque (\<lambda>_. 1000)) (dt_deque (\<lambda>_. 1000)) (\<lambda>_. 1000) \<lparr> bandwidth = 8000, link_latency = 1 \<rparr> 9)
        (arrivals [(4, 2), (5, 2)]) 7
        (new_sim 0 (new_calendar 10 0 undefined) (\<lambda>_. To_Queue) (new_line id (sample_drop_tail 5) sample_link)) = Inr (es, fin, sim)"
    "line_result (\<lambda>_. 1000) \<lparr> bandwidth = 8000, link_latency = 1 \<rparr> \<lparr> last_arrival = 2, longest = 1, horizon = 7 \<rparr> [4, 5] fin (sm_app sim)"
    "fin" "ln_dropped (sm_app sim) = []"
    using q(4,5) by auto
  then have "map fst (ln_out (sm_app sim)) = ln_in (sm_app sim)" "set (ln_in (sm_app sim)) = {4, 5}"
    by (simp_all add: line_result_def kept_from_def)
  with r(1,3,4) show ?thesis by auto
qed

end
