(* ===== verification/Spec2Isabelle.thy ===== *)
theory Spec2Isabelle
  imports Window Scalable Highspeed Bic Cubic Vegas Veno Yeah Westwood Illinois Naive_Reno Lp
    Htcp Hybla Compound Registry_Refinement Rtt_Update Connection Timer Rng_Test Link_Properties
begin

text \<open>
  TCP and the event core of the ns-2.34 network simulator in this repository: the TCP-Linux agent
  (src/ns-2.34/tcp/tcp-linux.cc) with the congestion control algorithms in C that it drives
  (src/ns-2.34/tcp/linux), the TCP receivers (src/ns-2.34/tcp/tcp-sink.cc), the schedulers and timers that
  drive every simulation (src/ns-2.34/common), its random number generator (src/ns-2.34/tools/rng.cc), and
  drop-tail queues and links (src/ns-2.34/queue, src/ns-2.34/link).

  How the program works. A scheduler holds the events, each with a time, a number and a handler; it takes
  the first, sets the clock and calls the handler, which schedules and cancels others. The queue behind it is one
  of four. A timer is a handler with one event and a status. On this core run the agents.
  A congestion control algorithm is a table of function pointers
  (\<open>struct tcp_congestion_ops\<close>) over the C view of a connection (\<open>struct tcp_sock\<close>), with private
  state behind \<open>inet_csk_ca\<close>. Its file registers its table and its parameters in
  constructors, before \<open>main\<close>. An agent selects a table by name; each acknowledgment it receives
  updates the socket, reports the round trip time and the acknowledged packets, opens the window
  through \<open>cong_avoid\<close> and runs the loss state machine; a timeout calls \<open>ssthresh\<close> and restarts
  from one segment. While it calls the algorithm, its own parameter values are swapped into the
  C variables. A sink records what arrives in a ring that grows, gives bytes to the application in order and
  answers with acknowledgments and SACK blocks, from which the scoreboard of the agent learns what is lost.
  Between the agents, packets pass through queues and links: a link takes one packet at a time from its queue and
  hands it on after the time of transmission and the delay. Random numbers come from streams of one generator, each with substreams; a generator takes its start from the
  seed of the package and moves that seed on to the next stream.

  Conventions. Machine integers are words (\<open>u32\<close>, \<open>u64\<close>, \<open>u8\<close>; signed ones are read with
  \<open>sint\<close>); the build is for 32 bits, so \<open>long\<close> has 32 bits everywhere, in the random number generator too, and
  \<open>__u16\<close> is 32 bits (ns-linux-util.h). Packet numbers, and the counters of the
  receiver and of the queues, are \<open>int\<close>, apart from those that wrap. A result \<open>None\<close> is a trap: division by
  zero, an undefined shift, an index outside an array, a NULL pointer, a failed assertion, or a loop that never
  ends. A loop that may not end is a \<open>partial_function (option)\<close>, so that returning is a theorem. The run
  of the scheduler is given both as such a loop and as its first \<open>k\<close> passes (\<open>run_for\<close>), for programs that
  never end. The globals that change outside (clock, jiffies, byte counting) are the record
  \<open>kernel\<close>. Times of events are exact reals, or of any ordered type in the queues but the calendar; the addition of a
  delay to the clock is a parameter, so that it may round. Links and the random number generator compute in
  doubles with rounding to nearest even (without bounds on the exponent, which their numbers do not reach, and without the
  extended precision of older processors), and a link runs under a scheduler that adds in the same way. The widths and
  buckets of the calendar queue and the statistics of packet queues are exact.

  Theories and the code they model.
  \<^item> Prelude: words, partial operations of C and lemmas on them.
  \<^item> Linux_Util: \<open>fls\<close>, \<open>fls64\<close>, \<open>div64_64\<close>, \<open>do_div\<close>, kernel time (ns-linux-c.c, ns-linux-c.h).
  \<^item> Tcp_Sock: socket, options, table, globals, macros (ns-linux-util.h, ns-linux-c.h, ns-linux-param.c).
  \<^item> Agent: \<open>recv\<close>, \<open>enter_loss\<close>, \<open>ack_processing\<close>, \<open>tcp_fastretrans_alert\<close> and the helpers of
    \<open>LinuxTcpAgent\<close>; runs are sequences of sends, acknowledgments and timeouts.
  \<^item> Cong_Interface: the locale \<open>cong_control\<close>, what the agent expects of a table; in it, that every
    run is free of traps and keeps the invariant. It extends \<open>loss_response\<close>, the laws that a timeout needs, which
    hold before \<open>init\<close> runs at the first acknowledgment, on whatever the private memory of the algorithm
    holds then. Window: the instance for window bounds
    (\<open>window_module\<close>), and arithmetic that several algorithms share.
  \<^item> Reno (tcp_cong.c, from \<open>tcp_slow_start\<close> on), Scalable, Highspeed, Bic, Cubic, Vegas, Veno, Yeah,
    Westwood, Illinois, Lp, Htcp, Hybla, Compound (src/tcp_*.c of the same name), Naive_Reno
    (tcp_naivereno.c): the state, every operation and the table of the algorithm, then its lemmas.
    Rtt_Sample holds what the delay-based ones share of the time stamps. All but Compound,
    Yeah (whose windows can reach zero) and Illinois are interpreted in \<open>cong_control\<close>.
  \<^item> Scoreboard: the list of blocks of packets from which the agent learns what is lost and what is in
    flight (\<open>ScoreBoard1\<close>, scoreboard1.cc and scoreboard1.h). Scoreboard_Inv: its invariant, in terms
    of the sets of packets in each state; Scoreboard_Update: the traversal for SACK blocks.
    Sender: the loop \<open>send_much\<close> over it. Linux_Sender: the handlers of the agent and the
    scoreboard together; the locale \<open>cong_control\<close> gives runs of the whole sender without traps.
  \<^item> Rtt_Update: the estimator \<open>rtt_update\<close> of the agent, and runs of the agent fed by it.
  \<^item> Cong_List: the pointer list of tables (\<open>list_add_rcu\<close> and the other macros) in a store; each
    macro is proved to be the operation on lists that its name promises. Registry: the functions of
    tcp_cong.c on it. Params: the lists of module parameters (\<open>record_linux_param\<close>), Param_Manager:
    \<open>LinuxParamManager\<close> and \<open>ParamList\<close> over a memory of bytes. Cong_Modules: the declarations and
    registration functions of every module and \<open>CongestionControlManager\<close>. Registry_Refinement:
    the registry and the manager refine a plain list.
  \<^item> Acker: the receive window \<open>Acker\<close>. Sacker: \<open>SackStack\<close> and \<open>Sacker\<close>. Sink: \<open>TcpSink\<close> and \<open>DelAckSink\<close>
    (tcp-sink.cc, tcp-sink.h). Receiver_Interface: the locale \<open>receiver\<close>, what a sender relies on, interpreted for
    both sinks. Connection: the sender of Linux_Sender and a receiver joined by any network; the locale
    \<open>connection\<close> extends \<open>cong_control\<close> and \<open>receiver\<close>.
  \<^item> Event_Queue: events, \<open>ListScheduler\<close>, and the locale \<open>event_queue\<close>, what a scheduler expects of a queue.
    Splay_Queue (splay-scheduler.cc), Heap_Queue (heap.h and scheduler.cc), Calendar_Queue (scheduler.cc) are the
    others; Calendar_Inv, Calendar_Search and Calendar_Refinement prove the calendar queue. All four interpret
    \<open>event_queue\<close>. Simulator: \<open>schedule\<close>, \<open>dispatch\<close>, \<open>run\<close> of \<open>Scheduler\<close> over any queue, with handlers as a
    parameter. Schedulers: whole runs. Timer: \<open>TimerHandler\<close> (timer-handler.cc, timer-handler.h).
  \<^item> Packet_Queue: \<open>PacketQueue\<close> (queue.h, queue.cc), its pointers refine a list. Drop_Tail: \<open>Queue\<close> over a discipline,
    the locale \<open>fifo_discipline\<close>, and \<open>DropTail\<close> (drop-tail.cc), which interprets it. Link: \<open>LinkDelay\<close> (delay.cc,
    delay.h). Link_Run: the invariant of a queue and a link under a scheduler, for any discipline;
    Link_Properties: whole runs.
  \<^item> Double: rounding to doubles. Rng_Arith: the modular arithmetic in doubles of rng.cc, exact for factors up to
    \<open>2 ^ 35\<close> and moduli from \<open>2 ^ 22\<close> on;
    Rng_Matrix: its matrices as linear maps; Rng_Tables: the tables of the jumps, recomputed. Rng: \<open>class RNG\<close>
    (rng.cc, rng.h). Rng_Streams: its recurrences on integers; Rng_Properties: streams, seeds, ranges; Rng_Test:
    the values of \<open>RNGTest\<close>.

  What the lemmas show. For each algorithm: its arithmetic (exactness within stated ranges,
  wrap-around outside), its invariant, and that a connection never traps and keeps a positive,
  bounded window along every sequence of events. For the scoreboard and sending: the counters are
  the numbers of packets along every run, blocks mark exactly their packets, no assertion fails, the window is
  respected, timeouts retransmit in order. For the receiver: delivery in order and once, what the blocks report,
  delayed acknowledgments; for the connection, that the sender never believes what has not arrived.
  For the queues: each is an ordered list, so the four schedulers run every program alike; time
  does not run backwards, nothing is lost, timers stay in step with their events. For queues and links: a queue is a list and
  keeps its limit (one packet less than it says), a link hands on all that was not dropped, in order, rounding included. For the generator: the doubles
  compute the integer recurrences without loss, streams and jumps go as far as the comments say, seeds come back. For slow start, the cube and
  quartic roots and the other loops: termination. For registry and parameters: refinement of lists and maps,
  error branches, round trips, independence of the order of constructors.

  Conditions on runs, each stated with its theorem. \<open>tcp_max_burst\<close> is not 0 when acknowledgments are processed, because
  with 0 the code sets the window to 0 (\<open>moderate_to_zero\<close>). Timeouts come at any time; before the first acknowledgment H-TCP and
  HighSpeed TCP need private memory as cleared memory is (\<open>htcp_uncleared_traps\<close>, \<open>highspeed_uncleared_traps\<close>). SACK
  blocks are not empty and lie between the acknowledgment and the next packet, as those of the sinks do when D-SACK is
  off. Module parameters that are swapped lie four bytes apart (\<open>pl_ok\<close>). A transmission of a link takes longer than five
  roundings of the times of the run (\<open>rounding_reorders\<close>).

  Bounds. Windows up to 1000000 segments (what the comment of tcp_cubic.c promises) where
  products must fit in 32 bits; round trip times as each theorem states. The heap needs fewer than \<open>2 ^ 32\<close>
  insertions, because its second key has 32 bits; the others need event numbers below \<open>2 ^ 63\<close>. The calendar
  queue needs times from 0 on. In \<open>k\<close> passes with at most \<open>m\<close> calls per handler at most \<open>k * m\<close> events are
  scheduled, which is how the theorems state both bounds.

  Not modelled. The rest of ns-2 is C++ over Tcl-bound objects: packet headers, the other queue disciplines,
  nodes, MAC layers, routing. Of the agent, the
  double copies of the window, the restart of an idle connection, tracing and the Tcl
  command; of the sinks, the Tcl commands, tracing and the sending of packets; of the scheduler,
  \<open>RealTimeScheduler\<close>, \<open>dumpq\<close> and the Tcl commands but \<open>run\<close>; of links, the counting of headers (\<open>pktintran\<close>);
  of the generator, the distributions, the
  Tcl commands, printing and the old generator (\<open>OLD_RNG\<close>). The calendar queue divides times by the width of a
  bucket: the model does so exactly, the code rounds.
  Generated code (gen/ns_tcl.cc), stand-alone converters (indep-utils) and the
  vendored Tcl, Tk, OTcl and TclCL are outside the program's own logic.
\<close>

section \<open>Algorithms under the estimator\<close>

text \<open>
  C29: H-TCP fed by the estimator of the agent. Whatever samples below 32768 ticks the clock
  gives, and whenever the timer expires, a connection that runs H-TCP with its default parameters and smoothed
  round trip times from \<open>rtt_update\<close> never divides by zero nor traps otherwise, and keeps its window positive and
  within the bound it started with: the estimate is never below one tick, so the minimal round
  trip time that H-TCP divides by is not zero. Conditions: windows start within a bound of at most 1000000,
  every acknowledgment carries a sample, \<open>tcp_max_burst\<close> is not 0, and the
  private memory, which the agent does not clear before \<open>init\<close> at the first acknowledgment, holds a \<open>minRTT\<close> below
  \<open>2 ^ 29\<close>, as cleared memory does; otherwise a timeout before that acknowledgment can divide by zero
  (\<open>htcp_uncleared_traps\<close>).
\<close>

theorem htcp_fed_safe:
  assumes "\<not> initialized ag" and "win (Some L) (linux_sk ag)" and "htcp_pre (icsk_ca_priv (linux_sk ag))"
    and "rtt_ok 32767 st"
    and "fed_env 32767 (\<lambda>_ _ _. True) (htcp_ops htcp_default) es ag st"
  shows "\<exists>ag'. fed_run (htcp_ops htcp_default) es ag st = Some ag' \<and> win (Some L) (linux_sk ag')"
proof -
  have "htcp_env k s rx" if "8 \<le> uint s" for k s rx
    using that by (simp add: htcp_env_def word_le_def)
  from fed_run_env [of 32767 htcp_env, OF this _ _ assms(4,5)]
  have "run_env htcp_env (\<lambda>_ _ _. True) (htcp_ops htcp_default)
      (fed_events (htcp_ops htcp_default) es ag st) ag" by simp
  from htcp.module_run_safe_from_start [OF assms(1) _ this] assms(2,3) show ?thesis
    by (simp add: fed_run_events mod_live_def)
qed

definition start_rtt :: rtt_state where
  "start_rtt = \<lparr> t_rtt = 0, t_srtt = 0, t_rttvar = 0 \<rparr>"

theorem htcp_fed_safe_witness:
  "\<exists>ag'. fed_run (htcp_ops htcp_default) [(Ev_send 2, 0), (Ev_recv sample_kernel sample_ack, 40)]
       (sample_agent sample_htcp) start_rtt = Some ag' \<and> win (Some 1000) (linux_sk ag')"
proof (rule htcp_fed_safe)
  show "htcp_pre (icsk_ca_priv (linux_sk (sample_agent sample_htcp)))"
    by (simp add: sample_sk_def sample_htcp_def htcp_pre_def)
  show "rtt_ok 32767 start_rtt" by (simp add: rtt_ok_def start_rtt_def)
  show "fed_env 32767 (\<lambda>_ _ _. True) (htcp_ops htcp_default)
      [(Ev_send 2, 0), (Ev_recv sample_kernel sample_ack, 40)] (sample_agent sample_htcp) start_rtt"
    by (auto simp: sample_ack_def sample_kernel_def kernel_init_def Let_def split: option.split)
qed (simp_all add: sample_win)



section \<open>The whole sender\<close>



end
